(* ===== verification/Prelude.thy ===== *)
theory Prelude
  imports Main "HOL-Library.Word"
begin

unbundle bit_operations_syntax

text \<open>
  Shared vocabulary of the development: the fixed-width integer types of the C sources, byte
  buffers with bounds-checked copies, little-endian word access, C's truncating signed division,
  and the generic lemmas on words and lists that the component theories use.

  Conventions.  \<open>uint8_t\<close>, \<open>uint16_t\<close> and \<open>uint32_t\<close> are words; addition and
  subtraction wrap as in C.  A signed value that cannot overflow in the code at hand is an
  \<open>int\<close>.  A function that may spin for ever in a \<open>configASSERT\<close> trap, or that
  would touch memory outside its buffer, returns an \<open>option\<close>, with \<open>None\<close> for
  that outcome.  Calls into code that is not in the repository are recorded as events; what such
  a call returns is an argument of the model.
\<close>

named_theorems word_nat "rules that read word comparisons and arithmetic as natural numbers"

type_synonym u8 = "8 word"
type_synonym u16 = "16 word"
type_synonym u32 = "32 word"
type_synonym bytes = "8 word list"

declare word_le_nat_alt [word_nat] word_less_nat_alt [word_nat] unat_word_ariths [word_nat]

subsection \<open>Words as natural numbers\<close>

lemma unat_u32_less [simp]: "unat (x :: u32) < 4294967296"
  using unsigned_less [of x] by simp

lemma unat_u16_less [simp]: "unat (x :: u16) < 65536"
  using unsigned_less [of x] by simp

lemma unat_u8_less [simp]: "unat (x :: u8) < 256"
  using unsigned_less [of x] by simp

lemma unat_add_no_wrap:
  fixes x y :: u32
  assumes "unat x + unat y < 4294967296"
  shows "unat (x + y) = unat x + unat y"
  using assms by (simp add: unat_word_ariths)

lemma unat_sub_no_wrap:
  fixes x y :: u32
  assumes "unat y \<le> unat x"
  shows "unat (x - y) = unat x - unat y"
  using assms by (simp add: unat_sub word_le_nat_alt)

lemma unat_u32_of_nat:
  "n < 4294967296 \<Longrightarrow> unat (of_nat n :: u32) = n"
  by (simp add: unat_of_nat)

lemma unat_up16: "unat (ucast (x :: u16) :: u32) = unat x"
proof -
  have "unat x < 4294967296" using unat_u16_less [of x] by (rule less_trans) simp
  then show ?thesis unfolding unsigned_ucast_eq by (intro take_bit_nat_eq_self) simp
qed

lemma unat_up8: "unat (ucast (x :: u8) :: u16) = unat x"
proof -
  have "unat x < 65536" using unat_u8_less [of x] by linarith
  then show ?thesis unfolding unsigned_ucast_eq by (intro take_bit_nat_eq_self) simp
qed

lemma unat_drop: "unat (drop_bit n w) = unat w div 2 ^ n"
  by (rule trans [OF unat_drop_bit_eq drop_bit_eq_div])

text \<open>The low bits as a remainder.\<close>

lemma unat_low: "unat (w AND mask n) = unat w mod 2 ^ n"
  unfolding take_bit_eq_mask [symmetric] unsigned_take_bit_eq by (simp add: take_bit_eq_mod)

lemma mod_once_nat:
  fixes a b m :: nat
  assumes "a < m" "b < m"
  shows "(a + b) mod m = (if a + b < m then a + b else a + b - m)"
  using assms by (simp add: mod_if)

subsection \<open>Byte buffers\<close>

text \<open>
  \<open>mem_cpy\<close> into a buffer at an offset.  A copy that leaves the buffer is undefined in C and
  \<open>None\<close> here.
\<close>

definition blit :: "'a list \<Rightarrow> nat \<Rightarrow> 'a list \<Rightarrow> 'a list option" where
  "blit buf off src =
     (if off + length src \<le> length buf
      then Some (take off buf @ src @ drop (off + length src) buf) else None)"

definition slice :: "'a list \<Rightarrow> nat \<Rightarrow> nat \<Rightarrow> 'a list option" where
  "slice buf off n = (if off + n \<le> length buf then Some (take n (drop off buf)) else None)"

lemma blit_length: "blit buf off src = Some buf' \<Longrightarrow> length buf' = length buf"
  by (auto simp: blit_def split: if_splits)

lemma blit_nth:
  assumes "blit buf off src = Some buf'" and "i < length buf"
  shows "buf' ! i = (if off \<le> i \<and> i < off + length src then src ! (i - off) else buf ! i)"
  using assms by (auto simp: blit_def nth_append split: if_splits)

lemma blit_Some: "off + length src \<le> length buf \<Longrightarrow> \<exists>buf'. blit buf off src = Some buf'"
  by (simp add: blit_def)

lemma slice_length: "slice buf off n = Some xs \<Longrightarrow> length xs = n"
  by (auto simp: slice_def split: if_splits)

lemma slice_nth: "slice buf off n = Some xs \<Longrightarrow> i < n \<Longrightarrow> xs ! i = buf ! (off + i)"
  by (auto simp: slice_def split: if_splits)

lemma remdups_adj_head: "remdups_adj (x # xs) = x # tl (remdups_adj (x # xs))"
  by (metis list.collapse remdups_adj_Nil_iff hd_remdups_adj list.sel(1) list.simps(3))

subsection \<open>Little-endian access\<close>

definition lo8 :: "u32 \<Rightarrow> u8" where "lo8 w = ucast w"

definition le32 :: "u32 \<Rightarrow> bytes" where
  "le32 w = [ucast w, ucast (drop_bit 8 w), ucast (drop_bit 16 w), ucast (drop_bit 24 w)]"

definition rd16 :: "u8 \<Rightarrow> u8 \<Rightarrow> u16" where
  "rd16 lo hi = ucast lo OR push_bit 8 (ucast hi)"

lemma length_le32 [simp]: "length (le32 w) = 4"
  by (simp add: le32_def)

subsection \<open>Signed arithmetic\<close>

text \<open>C's division truncates towards zero.\<close>

definition cdiv :: "int \<Rightarrow> int \<Rightarrow> int" where
  "cdiv a b = sgn a * sgn b * (\<bar>a\<bar> div \<bar>b\<bar>)"

lemma cdiv_nonneg: "0 \<le> a \<Longrightarrow> 0 < b \<Longrightarrow> cdiv a b = a div b"
  by (cases "a = 0") (simp_all add: cdiv_def)

lemma cdiv_neg: "a < 0 \<Longrightarrow> 0 < b \<Longrightarrow> cdiv a b = - ((- a) div b)"
  by (simp add: cdiv_def)

end
