(* ===== verification/RingBuf.thy ===== *)
theory RingBuf
  imports Prelude
begin

text \<open>
  The byte ring of the imx8_bridge (\<open>imx8_bridge/src/ring_buf.c\<close>): the struct, the five
  operations, and the proof that the ring is a bounded FIFO of bytes.  The interface that the SPI
  and CAN sides rely on is the locale \<open>byte_fifo\<close>; the ring is its provider.
\<close>

text \<open>The field \<open>pending_advance\<close> of the struct is left out: no function of the sources reads or writes it.\<close>

record ring_buf =
  read_ptr :: u32
  write_ptr :: u32
  capacity :: u32
  notify_thresh :: u32
  session :: "nat option"
  data_buf :: bytes
  flags :: u8

definition ring_buf_bytes_used :: "ring_buf \<Rightarrow> u32" where
  "ring_buf_bytes_used rb =
     (let used = write_ptr rb + capacity rb - read_ptr rb
      in if used \<ge> capacity rb then used - capacity rb else used)"

text \<open>A NULL ring is \<open>None\<close>: the code traps on it.\<close>

definition ring_buf_bytes_free :: "ring_buf option \<Rightarrow> u32 option" where
  "ring_buf_bytes_free rbo =
     (case rbo of
        None \<Rightarrow> None
      | Some rb \<Rightarrow>
          (let freebytes = capacity rb + read_ptr rb - 1 - write_ptr rb
           in Some (if freebytes \<ge> capacity rb then freebytes - capacity rb else freebytes)))"

text \<open>The bytes stored in \<open>dst\<close> are returned beside the updated ring.\<close>

definition ring_buf_read :: "ring_buf \<Rightarrow> u32 \<Rightarrow> u32 \<Rightarrow> (ring_buf \<times> bytes) option" where
  "ring_buf_read rb want avail =
     (let to_copy = (if want < avail then want else avail);
          room = capacity rb - read_ptr rb;
          first = (if to_copy < room then to_copy else room)
      in if to_copy = 0 then Some (rb, [])
         else if capacity rb < read_ptr rb + first then None
         else case slice (data_buf rb) (unat (read_ptr rb)) (unat first) of
           None \<Rightarrow> None
         | Some d1 \<Rightarrow>
             (case (if first < to_copy then slice (data_buf rb) 0 (unat (to_copy - first))
                    else if want < first then None else Some []) of
                None \<Rightarrow> None
              | Some d2 \<Rightarrow>
                  (let r = read_ptr rb + to_copy;
                       r' = (if r \<ge> capacity rb then r - capacity rb else r)
                   in Some (rb\<lparr>read_ptr := r'\<rparr>, d1 @ d2))))"

definition ring_buf_write :: "ring_buf \<Rightarrow> bytes \<Rightarrow> u32 \<Rightarrow> (ring_buf \<times> u32) option" where
  "ring_buf_write rb src count =
     (let room = capacity rb - write_ptr rb;
          first = (if count < room then count else room)
      in if capacity rb < write_ptr rb + first then None
         else case slice src 0 (unat first) of
           None \<Rightarrow> None
         | Some s1 \<Rightarrow>
             (case blit (data_buf rb) (unat (write_ptr rb)) s1 of
                None \<Rightarrow> None
              | Some buf1 \<Rightarrow>
                  (case (if first < count
                         then (if count - first > capacity rb then None
                               else case slice src (unat first) (unat (count - first)) of
                                 None \<Rightarrow> None
                               | Some s2 \<Rightarrow> blit buf1 0 s2)
                         else Some buf1) of
                     None \<Rightarrow> None
                   | Some buf2 \<Rightarrow>
                       (let w = write_ptr rb + count;
                            w' = (if w \<ge> capacity rb then w - capacity rb else w)
                        in Some (rb\<lparr>data_buf := buf2, write_ptr := w'\<rparr>, count)))))"

definition ring_buf_write_capped ::
  "ring_buf \<Rightarrow> bytes \<Rightarrow> u32 \<Rightarrow> u32 \<Rightarrow> u32 \<Rightarrow> (ring_buf \<times> u32) option" where
  "ring_buf_write_capped rb src want free_bytes min_required =
     (if flags rb AND 1 \<noteq> 0 then
        (if free_bytes < min_required then Some (rb, 0)
         else case ring_buf_write rb (le32 want) 4 of
           None \<Rightarrow> None
         | Some (rb1, _) \<Rightarrow> (if want = 0 then None else ring_buf_write rb1 src want))
      else
        (let n = (if want > free_bytes then free_bytes else want)
         in if n = 0 then None else ring_buf_write rb src n))"

text \<open>
  The FreeRTOS calls around the write, in the order the code makes them.  The completion callback
  of the ISR path reports through its out-parameter whether a task was woken: \<open>rx_woken\<close>.
\<close>

datatype rb_event =
    EnterCritical | ExitCritical | SuspendCounter | TxComplete nat | RxComplete nat
  | TimerCommand "nat option" | SetMask | ClearMask | PendSV

definition ring_buf_write_notify ::
  "bool \<Rightarrow> (nat \<Rightarrow> bool) \<Rightarrow> ring_buf \<Rightarrow> bytes option \<Rightarrow> u32
     \<Rightarrow> (ring_buf \<times> rb_event list \<times> bool) option" where
  "ring_buf_write_notify in_isr rx_woken rb src count =
     (let min_req = (if flags rb AND 1 \<noteq> 0 then count + 4
                     else if capacity rb - 1 < count then capacity rb - 1 else count)
      in case (src, ring_buf_bytes_free (Some rb)) of
           (Some s, Some free) \<Rightarrow>
             (case ring_buf_write_capped rb s count free min_req of
                None \<Rightarrow> None
              | Some (rb1, written) \<Rightarrow>
                  (let met = (ring_buf_bytes_used rb1 \<ge> notify_thresh rb1);
                       rb2 = (if met then rb1\<lparr>session := None\<rparr> else rb1)
                   in Some
                     (if \<not> in_isr then
                        (rb2,
                         [EnterCritical]
                         @ (if met then
                              [SuspendCounter]
                              @ (case session rb1 of None \<Rightarrow> [] | Some h \<Rightarrow> [TxComplete h])
                              @ [TimerCommand (session rb1)]
                            else [])
                         @ [ExitCritical],
                         written \<noteq> count)
                      else
                        (rb2,
                         [SetMask]
                         @ (if met then (case session rb1 of None \<Rightarrow> [] | Some h \<Rightarrow> [RxComplete h])
                            else [])
                         @ [ClearMask]
                         @ (case session rb1 of
                              Some h \<Rightarrow> (if met \<and> rx_woken h then [PendSV] else [])
                            | None \<Rightarrow> []),
                         written \<noteq> count))))
         | _ \<Rightarrow> None)"


subsection \<open>The ring as a queue of bytes\<close>

text \<open>
  A well-formed ring: the cursors lie inside the buffer, and the capacity is at most \<open>2^31\<close>, so
  that the unsigned sums of two positions in \<open>bytes_used\<close>, \<open>bytes_free\<close> and the cursor
  updates do not wrap.  Its contents are the bytes from the read cursor up to the write cursor.
\<close>

definition rb_wf :: "ring_buf \<Rightarrow> bool" where
  "rb_wf rb \<longleftrightarrow>
     0 < unat (capacity rb) \<and> unat (capacity rb) \<le> 2147483648
     \<and> length (data_buf rb) = unat (capacity rb)
     \<and> unat (read_ptr rb) < unat (capacity rb) \<and> unat (write_ptr rb) < unat (capacity rb)"

definition rb_used :: "ring_buf \<Rightarrow> nat" where
  "rb_used rb = (unat (write_ptr rb) + unat (capacity rb) - unat (read_ptr rb))
                  mod unat (capacity rb)"

definition rb_contents :: "ring_buf \<Rightarrow> bytes" where
  "rb_contents rb =
     map (\<lambda>i. data_buf rb ! ((unat (read_ptr rb) + i) mod unat (capacity rb))) [0..<rb_used rb]"

definition rb_room :: "ring_buf \<Rightarrow> nat" where
  "rb_room rb = unat (capacity rb) - 1 - length (rb_contents rb)"

lemma length_rb_contents [simp]: "length (rb_contents rb) = rb_used rb"
  by (simp add: rb_contents_def)

lemma rb_used_eq:
  assumes "rb_wf rb"
  shows "rb_used rb = (if unat (read_ptr rb) \<le> unat (write_ptr rb)
                       then unat (write_ptr rb) - unat (read_ptr rb)
                       else unat (write_ptr rb) + unat (capacity rb) - unat (read_ptr rb))"
proof (cases "unat (read_ptr rb) \<le> unat (write_ptr rb)")
  case True
  then have "unat (write_ptr rb) + unat (capacity rb) - unat (read_ptr rb)
               = (unat (write_ptr rb) - unat (read_ptr rb)) + unat (capacity rb)" by simp
  moreover have "unat (write_ptr rb) - unat (read_ptr rb) < unat (capacity rb)"
    using assms by (auto simp: rb_wf_def)
  ultimately show ?thesis using True by (simp only: rb_used_def mod_add_self2 mod_less if_True)
next
  case False
  then have "unat (write_ptr rb) + unat (capacity rb) - unat (read_ptr rb) < unat (capacity rb)"
    using assms unfolding rb_wf_def by linarith
  then show ?thesis using False by (simp add: rb_used_def)
qed

lemma rb_used_less: "rb_wf rb \<Longrightarrow> rb_used rb < unat (capacity rb)"
  by (simp add: rb_used_def rb_wf_def)

lemma unat_wrap_once:
  fixes x c :: u32
  shows "unat (if x \<ge> c then x - c else x)
           = (if unat c \<le> unat x then unat x - unat c else unat x)"
  by (simp add: word_le_nat_alt unat_sub_no_wrap)

lemma wrap_ptr:
  fixes p n c :: u32
  assumes "unat p < unat c" and "unat n \<le> unat c" and "unat c \<le> 2147483648"
  shows "unat (if p + n \<ge> c then p + n - c else p + n) = (unat p + unat n) mod unat c"
proof -
  have s: "unat (p + n) = unat p + unat n" using assms by (intro unat_add_no_wrap) simp
  show ?thesis
    unfolding unat_wrap_once s using assms by (simp add: mod_if)
qed

lemma bytes_used_correct:
  assumes "rb_wf rb"
  shows "unat (ring_buf_bytes_used rb) = rb_used rb"
proof -
  let ?w = "unat (write_ptr rb)" and ?r = "unat (read_ptr rb)" and ?c = "unat (capacity rb)"
  have b: "?w < ?c" "?r < ?c" "?c \<le> 2147483648" using assms by (simp_all add: rb_wf_def)
  have s: "unat (write_ptr rb + capacity rb) = ?w + ?c" using b by (intro unat_add_no_wrap) simp
  have u: "unat (write_ptr rb + capacity rb - read_ptr rb) = ?w + ?c - ?r"
    using b by (simp add: unat_sub_no_wrap s)
  show ?thesis
    unfolding ring_buf_bytes_used_def Let_def unat_wrap_once u rb_used_eq [OF assms]
    using b by simp
qed

lemma bytes_free_correct:
  assumes "rb_wf rb"
  shows "\<exists>f. ring_buf_bytes_free (Some rb) = Some f \<and> unat f = rb_room rb"
proof -
  let ?w = "unat (write_ptr rb)" and ?r = "unat (read_ptr rb)" and ?c = "unat (capacity rb)"
  have b: "?w < ?c" "?r < ?c" "?c \<le> 2147483648" using assms by (simp_all add: rb_wf_def)
  have s: "unat (capacity rb + read_ptr rb) = ?c + ?r" using b by (intro unat_add_no_wrap) simp
  have s1: "unat (capacity rb + read_ptr rb - 1) = ?c + ?r - 1"
    using b by (subst unat_sub_no_wrap) (simp_all add: s)
  have u: "unat (capacity rb + read_ptr rb - 1 - write_ptr rb) = ?c + ?r - 1 - ?w"
    using b by (subst unat_sub_no_wrap) (simp_all add: s1)
  let ?f = "if capacity rb + read_ptr rb - 1 - write_ptr rb \<ge> capacity rb
            then capacity rb + read_ptr rb - 1 - write_ptr rb - capacity rb
            else capacity rb + read_ptr rb - 1 - write_ptr rb"
  have "unat ?f = rb_room rb"
    unfolding unat_wrap_once u rb_room_def length_rb_contents rb_used_eq [OF assms]
    using b by auto
  then show ?thesis by (simp add: ring_buf_bytes_free_def Let_def)
qed


lemma ring_distance:
  fixes r w C i u :: nat
  assumes "r < C" "w < C" "u = (if r \<le> w then w - r else w + C - r)" "i < C"
  shows "((r + i) mod C + C - w) mod C = (if i < u then C + i - u else i - u)"
  using assms by (auto simp: mod_once_nat mod_if)

lemma ring_index_write:
  fixes w C n :: nat
  assumes "w < C" "n \<le> C"
    and "blit d w (take (min n (C - w)) s) = Some d1" "blit d1 0 (drop (C - w) (take n s)) = Some d2"
    and "length d = C" "n \<le> length s" "j < C"
  shows "d2 ! j = (if (j + C - w) mod C < n then s ! ((j + C - w) mod C) else d ! j)"
proof -
  have d1: "length d1 = C" using blit_length [OF assms(3)] assms(5) by simp
  have j1: "d1 ! j = (if w \<le> j \<and> j < w + min n (C - w) then s ! (j - w) else d ! j)"
  proof (cases "w \<le> j \<and> j < w + min n (C - w)")
    case True
    then have "j - w < min n (C - w)" by linarith
    then show ?thesis using blit_nth [OF assms(3)] assms True by simp
  next
    case False
    then show ?thesis using blit_nth [OF assms(3)] assms by auto
  qed
  have j2: "d2 ! j = (if j < n - (C - w) then s ! (C - w + j) else d1 ! j)"
    using blit_nth [OF assms(4)] assms d1 by (auto simp: min_def)
  show ?thesis
  proof (cases "w \<le> j")
    case True
    then have "(j + C - w) mod C = j - w" using assms by (simp add: mod_if)
    then show ?thesis using True j1 j2 assms by (auto simp: min_def)
  next
    case False
    then have "(j + C - w) mod C = j + C - w" using assms by simp
    then show ?thesis using False j1 j2 assms
      by (auto simp: min_def intro!: arg_cong [of _ _ "\<lambda>i. s ! i"])
  qed
qed

lemma ring_buf_write_correct:
  assumes wf: "rb_wf rb" and n: "unat count \<le> rb_room rb" and src: "unat count \<le> length src"
  shows "\<exists>rb'. ring_buf_write rb src count = Some (rb', count) \<and> rb_wf rb'
           \<and> rb_contents rb' = rb_contents rb @ take (unat count) src
           \<and> rb' = rb\<lparr>data_buf := data_buf rb', write_ptr := write_ptr rb'\<rparr>"
proof -
  let ?w = "unat (write_ptr rb)" and ?c = "unat (capacity rb)" and ?n = "unat count"
  let ?r = "unat (read_ptr rb)"
  have b: "?w < ?c" "?r < ?c" "?c \<le> 2147483648" "length (data_buf rb) = ?c"
    using wf by (simp_all add: rb_wf_def)
  have nc: "?n < ?c" using n rb_used_less [OF wf] by (simp add: rb_room_def)
  have room: "unat (capacity rb - write_ptr rb) = ?c - ?w" using b by (simp add: unat_sub_no_wrap)
  define first where "first = (if count < capacity rb - write_ptr rb then count
                               else capacity rb - write_ptr rb)"
  have uf: "unat first = min ?n (?c - ?w)"
    by (auto simp: first_def word_less_nat_alt room)
  have guard: "\<not> capacity rb < write_ptr rb + first"
    using b uf by (simp add: word_less_nat_alt unat_add_no_wrap)
  obtain d1 where d1: "blit (data_buf rb) ?w (take (unat first) src) = Some d1"
    using blit_Some [of ?w "take (unat first) src" "data_buf rb"] b uf src by fastforce
  have ld1: "length d1 = ?c" using blit_length [OF d1] b by simp
  have rest: "unat (count - first) = ?n - unat first" if "first < count"
    using that by (simp add: unat_sub_no_wrap word_less_nat_alt)
  obtain d2 where d2: "blit d1 0 (drop (?c - ?w) (take ?n src)) = Some d2"
    using blit_Some [of 0 "drop (?c - ?w) (take ?n src)" d1] ld1 nc src by fastforce
  have step2: "(if first < count
          then (if count - first > capacity rb then None
                else case slice src (unat first) (unat (count - first)) of
                       None \<Rightarrow> None | Some s2 \<Rightarrow> blit d1 0 s2)
          else Some d1) = Some d2"
  proof (cases "first < count")
    case True
    then have "unat first < ?n" by (simp add: word_less_nat_alt)
    then have f: "unat first = ?c - ?w" "?c - ?w < ?n" using uf by auto
    have "\<not> count - first > capacity rb"
      using rest [OF True] nc by (simp add: word_less_nat_alt)
    moreover have "slice src (unat first) (unat (count - first)) = Some (drop (?c - ?w) (take ?n src))"
      using rest [OF True] f src by (simp add: slice_def drop_take)
    ultimately show ?thesis using True d2 by simp
  next
    case False
    then have "?n \<le> ?c - ?w" using uf by (simp add: word_less_nat_alt)
    then have "d2 = d1" using d2 by (simp add: blit_def)
    then show ?thesis using False by simp
  qed
  define wp where "wp = (if write_ptr rb + count \<ge> capacity rb then write_ptr rb + count - capacity rb
                         else write_ptr rb + count)"
  have uwp: "unat wp = (?w + ?n) mod ?c"
    unfolding wp_def using b nc by (intro wrap_ptr) simp_all
  let ?rb = "rb\<lparr>data_buf := d2, write_ptr := wp\<rparr>"
  have res: "ring_buf_write rb src count = Some (?rb, count)"
    unfolding ring_buf_write_def Let_def first_def [symmetric] wp_def [symmetric]
    using guard d1 step2 src uf by (simp add: slice_def)
  have ld2: "length d2 = ?c" using blit_length [OF d2] ld1 by simp
  have wf': "rb_wf ?rb" using wf ld2 uwp b by (simp add: rb_wf_def)
  have nth: "d2 ! j = (if (j + ?c - ?w) mod ?c < ?n then src ! ((j + ?c - ?w) mod ?c) else data_buf rb ! j)"
    if "j < ?c" for j
    using that d1 d2 b src nc uf by (intro ring_index_write) simp_all
  have used': "rb_used ?rb = rb_used rb + ?n"
  proof -
    have "unat wp = (if ?w + ?n < ?c then ?w + ?n else ?w + ?n - ?c)"
      using uwp b nc by (simp add: mod_once_nat)
    then show ?thesis
      using n b unfolding rb_used_eq [OF wf'] rb_used_eq [OF wf] rb_room_def length_rb_contents
      by (auto split: if_splits)
  qed
  have "rb_contents ?rb = rb_contents rb @ take ?n src"
  proof (rule nth_equalityI)
    show "length (rb_contents ?rb) = length (rb_contents rb @ take ?n src)"
      using used' src by simp
  next
    fix i assume "i < length (rb_contents ?rb)"
    then have i: "i < rb_used rb + ?n" using used' by simp
    have rm: "rb_used rb + ?n < ?c" using n rb_used_less [OF wf] unfolding rb_room_def by simp
    have lhs: "rb_contents ?rb ! i = d2 ! ((?r + i) mod ?c)"
      using i used' by (simp add: rb_contents_def)
    have dist: "((?r + i) mod ?c + ?c - ?w) mod ?c = (if i < rb_used rb then ?c + i - rb_used rb
                                                     else i - rb_used rb)"
      using i rm b by (intro ring_distance) (simp_all add: rb_used_eq [OF wf])
    show "rb_contents ?rb ! i = (rb_contents rb @ take ?n src) ! i"
    proof (cases "i < rb_used rb")
      case True
      have "\<not> ?c + i - rb_used rb < ?n" using rm by linarith
      then show ?thesis using True lhs nth [of "(?r + i) mod ?c"] dist b
        by (simp add: nth_append rb_contents_def)
    next
      case False
      then have "i - rb_used rb < ?n" using i by linarith
      then show ?thesis using False lhs nth [of "(?r + i) mod ?c"] dist b src
        by (simp add: nth_append)
    qed
  qed
  with res wf' show ?thesis by (intro exI [of _ ?rb]) simp
qed


lemma ring_buf_read_correct:
  assumes wf: "rb_wf rb" and av: "unat avail \<le> rb_used rb"
  shows "\<exists>rb'. ring_buf_read rb want avail
                 = Some (rb', take (min (unat want) (unat avail)) (rb_contents rb))
           \<and> rb_wf rb' \<and> rb_contents rb' = drop (min (unat want) (unat avail)) (rb_contents rb)
           \<and> rb' = rb\<lparr>read_ptr := read_ptr rb'\<rparr>"
proof -
  let ?w = "unat (write_ptr rb)" and ?c = "unat (capacity rb)" and ?r = "unat (read_ptr rb)"
  define k where "k = min (unat want) (unat avail)"
  have b: "?w < ?c" "?r < ?c" "?c \<le> 2147483648" "length (data_buf rb) = ?c"
    using wf by (simp_all add: rb_wf_def)
  have nu: "k \<le> rb_used rb" using av by (simp add: k_def)
  then have nc: "k < ?c" using rb_used_less [OF wf] by simp
  define n where "n = (if want < avail then want else avail)"
  have un: "unat n = k" by (auto simp: n_def k_def word_less_nat_alt)
  have room: "unat (capacity rb - read_ptr rb) = ?c - ?r" using b by (simp add: unat_sub_no_wrap)
  define first where "first = (if n < capacity rb - read_ptr rb then n else capacity rb - read_ptr rb)"
  have uf: "unat first = min k (?c - ?r)"
    by (auto simp: first_def word_less_nat_alt room un)
  have guard: "\<not> capacity rb < read_ptr rb + first"
    using b uf by (simp add: word_less_nat_alt unat_add_no_wrap)
  define rp where "rp = (if read_ptr rb + n \<ge> capacity rb then read_ptr rb + n - capacity rb
                         else read_ptr rb + n)"
  have urp: "unat rp = (?r + k) mod ?c"
    unfolding rp_def using b nc by (subst wrap_ptr) (simp_all add: un)
  define d1 where "d1 = take (unat first) (drop ?r (data_buf rb))"
  have s1: "slice (data_buf rb) ?r (unat first) = Some d1"
    using uf b by (simp add: slice_def d1_def)
  define d2 where "d2 = take (k - (?c - ?r)) (data_buf rb)"
  have s2: "(if first < n then slice (data_buf rb) 0 (unat (n - first))
             else if want < first then None else Some []) = Some d2"
  proof (cases "first < n")
    case True
    then have "unat first < k" by (simp only: word_less_nat_alt un)
    then have f: "unat first = ?c - ?r" using uf by linarith
    have "unat (n - first) = k - (?c - ?r)"
      using True f un by (simp add: unat_sub_no_wrap word_less_nat_alt)
    then show ?thesis using True b nc by (simp add: slice_def d2_def)
  next
    case False
    then have "k \<le> unat first" by (simp only: word_less_nat_alt un not_less)
    then have "k \<le> ?c - ?r" using uf by linarith
    moreover have "\<not> want < first" using uf by (simp add: word_less_nat_alt k_def)
    ultimately show ?thesis using False by (simp add: d2_def)
  qed
  let ?rb = "rb\<lparr>read_ptr := rp\<rparr>"
  have ld1: "length d1 = unat first" using uf b by (simp add: d1_def)
  have ld2: "length d2 = k - (?c - ?r)" using nc b by (simp add: d2_def)
  have ld: "length d1 + length d2 = k" using ld1 ld2 uf by linarith
  have data: "d1 @ d2 = take k (rb_contents rb)"
  proof (rule nth_equalityI)
    show "length (d1 @ d2) = length (take k (rb_contents rb))"
      using ld nu by simp
  next
    fix i assume "i < length (d1 @ d2)"
    then have i: "i < k" using ld by simp
    show "(d1 @ d2) ! i = take k (rb_contents rb) ! i"
    proof (cases "?r + i < ?c")
      case True
      then have "i < unat first" using i uf by linarith
      then show ?thesis using True i b nu ld1
        by (simp add: nth_append d1_def rb_contents_def)
    next
      case False
      then have "(?r + i) mod ?c = i - (?c - ?r)" using b i nc by (simp add: mod_once_nat)
      moreover have "unat first = ?c - ?r" "\<not> i < ?c - ?r" using False i uf by linarith+
      ultimately show ?thesis using i b nu ld1
        by (simp add: nth_append d2_def rb_contents_def)
    qed
  qed
  have wf': "rb_wf ?rb" using wf urp b by (simp add: rb_wf_def)
  have used': "rb_used ?rb = rb_used rb - k"
  proof -
    have "unat rp = (if ?r + k < ?c then ?r + k else ?r + k - ?c)"
      using urp b nc by (simp add: mod_once_nat)
    then show ?thesis
      using nu b unfolding rb_used_eq [OF wf'] rb_used_eq [OF wf]
      by (auto split: if_splits)
  qed
  have cont: "rb_contents ?rb = drop k (rb_contents rb)"
    using used' urp by (auto intro!: nth_equalityI simp: rb_contents_def mod_add_right_eq ac_simps)
  show ?thesis
  proof (cases "n = 0")
    case True
    then have z: "k = 0" using un by simp
    then show ?thesis using True wf unfolding k_def [symmetric]
      by (intro exI [of _ rb]) (simp add: ring_buf_read_def Let_def n_def [symmetric])
  next
    case False
    then have "ring_buf_read rb want avail = Some (?rb, d1 @ d2)"
      unfolding ring_buf_read_def Let_def n_def [symmetric] first_def [symmetric] rp_def [symmetric]
      using guard s1 s2 by simp
    then show ?thesis using data wf' cont unfolding k_def [symmetric]
      by (intro exI [of _ ?rb]) simp
  qed
qed


subsection \<open>The FIFO contract\<close>

text \<open>
  What the CAN and SPI sides rely on: a bounded queue of bytes with a writer that checks the free
  space first and a reader that asks for at most the bytes stored.
\<close>

datatype fifo_op = Put bytes | Get u32

fun fifo_run ::
  "('b \<Rightarrow> bytes \<Rightarrow> 'b option) \<Rightarrow> ('b \<Rightarrow> u32 \<Rightarrow> ('b \<times> bytes) option) \<Rightarrow> ('b \<Rightarrow> nat)
     \<Rightarrow> 'b \<Rightarrow> fifo_op list \<Rightarrow> ('b \<times> bytes \<times> bytes) option" where
  "fifo_run put get room b [] = Some (b, [], [])"
| "fifo_run put get room b (Put xs # ops) =
     (if length xs \<le> room b then
        (case put b xs of
           None \<Rightarrow> None
         | Some b1 \<Rightarrow> (case fifo_run put get room b1 ops of
             None \<Rightarrow> None
           | Some (b', inp, out) \<Rightarrow> Some (b', xs @ inp, out)))
      else fifo_run put get room b ops)"
| "fifo_run put get room b (Get n # ops) =
     (case get b n of
        None \<Rightarrow> None
      | Some (b1, ys) \<Rightarrow> (case fifo_run put get room b1 ops of
          None \<Rightarrow> None
        | Some (b', inp, out) \<Rightarrow> Some (b', inp, ys @ out)))"

locale byte_fifo =
  fixes inv :: "'b \<Rightarrow> bool"
    and contents :: "'b \<Rightarrow> bytes"
    and room :: "'b \<Rightarrow> nat"
    and put :: "'b \<Rightarrow> bytes \<Rightarrow> 'b option"
    and get :: "'b \<Rightarrow> u32 \<Rightarrow> ('b \<times> bytes) option"
  assumes put_law: "inv b \<Longrightarrow> length xs \<le> room b \<Longrightarrow>
      \<exists>b'. put b xs = Some b' \<and> inv b' \<and> contents b' = contents b @ xs
            \<and> room b' + length xs = room b"
    and get_law: "inv b \<Longrightarrow>
      \<exists>b'. get b n = Some (b', take (unat n) (contents b)) \<and> inv b'
            \<and> contents b' = drop (unat n) (contents b)"
begin

lemma run_order:
  assumes "inv b"
  shows "\<exists>b' inp out. fifo_run put get room b ops = Some (b', inp, out) \<and> inv b'
           \<and> contents b @ inp = out @ contents b'"
  using assms
proof (induction ops arbitrary: b)
  case Nil
  then show ?case by simp
next
  case (Cons oper ops)
  show ?case
  proof (cases oper)
    case (Put xs)
    show ?thesis
    proof (cases "length xs \<le> room b")
      case True
      then obtain b1 where "put b xs = Some b1" "inv b1" "contents b1 = contents b @ xs"
        using put_law [OF Cons.prems] by blast
      moreover from this(2) obtain b' inp out where
        "fifo_run put get room b1 ops = Some (b', inp, out)" "inv b'"
        "contents b1 @ inp = out @ contents b'" using Cons.IH by blast
      ultimately show ?thesis using True Put by simp
    next
      case False
      then show ?thesis using Put Cons.IH [OF Cons.prems] by simp
    qed
  next
    case (Get n)
    obtain b1 where "get b n = Some (b1, take (unat n) (contents b))" "inv b1"
      "contents b1 = drop (unat n) (contents b)"
      using get_law [OF Cons.prems] by blast
    moreover from this(2) obtain b' inp out where
      "fifo_run put get room b1 ops = Some (b', inp, out)" "inv b'"
      "contents b1 @ inp = out @ contents b'" using Cons.IH by blast
    ultimately show ?thesis using Get by simp (metis append_assoc append_take_drop_id)
  qed
qed

end

definition ring_room :: "ring_buf \<Rightarrow> nat" where
  "ring_room rb = (case ring_buf_bytes_free (Some rb) of None \<Rightarrow> 0 | Some f \<Rightarrow> unat f)"

definition ring_put :: "ring_buf \<Rightarrow> bytes \<Rightarrow> ring_buf option" where
  "ring_put rb xs = map_option fst (ring_buf_write rb xs (of_nat (length xs)))"

definition ring_get :: "ring_buf \<Rightarrow> u32 \<Rightarrow> (ring_buf \<times> bytes) option" where
  "ring_get rb n = ring_buf_read rb n (ring_buf_bytes_used rb)"

lemma ring_room_eq: "rb_wf rb \<Longrightarrow> ring_room rb = rb_room rb"
  using bytes_free_correct [of rb] by (auto simp: ring_room_def)

lemma rb_room_less: "rb_wf rb \<Longrightarrow> rb_room rb < 2147483648"
  by (auto simp: rb_room_def rb_wf_def)

lemma take_min_length: "take (min n (length xs)) xs = take n xs"
  by (simp add: min_def)

lemma drop_min_length: "drop (min n (length xs)) xs = drop n xs"
  by (simp add: min_def)

interpretation ring: byte_fifo rb_wf rb_contents ring_room ring_put ring_get
proof unfold_locales
  fix rb :: ring_buf and xs :: bytes
  assume wf: "rb_wf rb" and len: "length xs \<le> ring_room rb"
  then have small: "length xs < 4294967296" using rb_room_less [OF wf] by (simp add: ring_room_eq)
  obtain rb' where w: "ring_buf_write rb xs (of_nat (length xs)) = Some (rb', of_nat (length xs))"
    "rb_wf rb'" "rb_contents rb' = rb_contents rb @ xs"
    "rb' = rb\<lparr>data_buf := data_buf rb', write_ptr := write_ptr rb'\<rparr>"
    using ring_buf_write_correct [OF wf, of "of_nat (length xs)" xs] len small
    by (auto simp: ring_room_eq wf unat_u32_of_nat)
  have cap: "capacity rb' = capacity rb" by (subst w(4)) simp
  have "rb_room rb' + length xs = rb_room rb"
    using len wf w(3) rb_used_less [OF w(2)] unfolding rb_room_def cap ring_room_eq [OF wf] by simp
  then show "\<exists>b'. ring_put rb xs = Some b' \<and> rb_wf b' \<and> rb_contents b' = rb_contents rb @ xs
               \<and> ring_room b' + length xs = ring_room rb"
    using w wf by (simp add: ring_put_def ring_room_eq)
next
  fix rb :: ring_buf and n :: u32
  assume wf: "rb_wf rb"
  from ring_buf_read_correct [OF wf, of "ring_buf_bytes_used rb" n]
  show "\<exists>b'. ring_get rb n = Some (b', take (unat n) (rb_contents rb)) \<and> rb_wf b'
          \<and> rb_contents b' = drop (unat n) (rb_contents rb)"
    using take_min_length [of "unat n" "rb_contents rb"] drop_min_length [of "unat n" "rb_contents rb"]
    by (auto simp: ring_get_def bytes_used_correct wf)
qed

text \<open>
  C1: for every sequence of writes (each done only when the free space admits it)
  and reads on a well-formed ring, no operation traps or leaves the buffer, the ring stays
  well-formed, and the bytes read followed by the bytes still held are the initial contents
  followed by the bytes accepted: nothing is lost, duplicated or reordered across wrap-around.
\<close>

theorem ring_fifo_order:
  assumes "rb_wf rb"
  shows "\<exists>rb' inp out. fifo_run ring_put ring_get ring_room rb ops = Some (rb', inp, out)
           \<and> rb_wf rb' \<and> rb_contents rb @ inp = out @ rb_contents rb'"
  using assms by (rule ring.run_order)

definition demo_ring :: ring_buf where
  "demo_ring = \<lparr>read_ptr = 3, write_ptr = 1, capacity = 4, notify_thresh = 1, session = Some 7,
                data_buf = [10, 11, 12, 13], flags = 0\<rparr>"

lemma demo_ring_wf: "rb_wf demo_ring"
  by (simp add: rb_wf_def demo_ring_def)

theorem ring_fifo_order_witness:
  "\<exists>rb' inp out. fifo_run ring_put ring_get ring_room demo_ring [Put [5], Get 3] = Some (rb', inp, out)
     \<and> rb_wf rb' \<and> rb_contents demo_ring @ inp = out @ rb_contents rb'"
  by (rule ring_fifo_order [OF demo_ring_wf])

lemma demo_ring_room: "rb_room demo_ring = 1"
  by (simp add: rb_room_def rb_used_def demo_ring_def)


subsection \<open>Writing with notification\<close>

lemma capped_plain:
  assumes wf: "rb_wf rb" and plain: "flags rb AND 1 = 0" and src: "unat count \<le> length src"
    and pos: "0 < unat count" "0 < rb_room rb" and f: "unat free = rb_room rb"
  shows "\<exists>rb' n. ring_buf_write_capped rb src count free m = Some (rb', n)
           \<and> unat n = min (unat count) (rb_room rb) \<and> rb_wf rb'
           \<and> rb_contents rb' = rb_contents rb @ take (min (unat count) (rb_room rb)) src
           \<and> rb' = rb\<lparr>data_buf := data_buf rb', write_ptr := write_ptr rb'\<rparr>"
proof -
  define n where "n = (if count > free then free else count)"
  have un: "unat n = min (unat count) (rb_room rb)"
    using f by (auto simp: n_def word_less_nat_alt)
  then have "n \<noteq> 0" using pos by (auto simp: unat_eq_zero min_def split: if_splits)
  then have "ring_buf_write_capped rb src count free m = ring_buf_write rb src n"
    using plain by (simp add: ring_buf_write_capped_def n_def [symmetric])
  moreover obtain rb' where "ring_buf_write rb src n = Some (rb', n)" "rb_wf rb'"
    "rb_contents rb' = rb_contents rb @ take (unat n) src"
    "rb' = rb\<lparr>data_buf := data_buf rb', write_ptr := write_ptr rb'\<rparr>"
    using ring_buf_write_correct [OF wf, of n src] un src by fastforce
  ultimately show ?thesis using un by auto
qed

lemma capped_framed:
  assumes wf: "rb_wf rb" and framed: "flags rb AND 1 \<noteq> 0" and src: "unat count \<le> length src"
    and pos: "0 < unat count" and f: "unat free = rb_room rb" and m: "unat m = unat count + 4"
    and fits: "unat count + 4 \<le> rb_room rb"
  shows "\<exists>rb'. ring_buf_write_capped rb src count free m = Some (rb', count) \<and> rb_wf rb'
           \<and> rb_contents rb' = rb_contents rb @ le32 count @ take (unat count) src
           \<and> rb' = rb\<lparr>data_buf := data_buf rb', write_ptr := write_ptr rb'\<rparr>"
proof -
  have "\<not> free < m" using f m fits by (simp add: word_less_nat_alt)
  moreover have "count \<noteq> 0" using pos by auto
  moreover obtain rb1 where w1: "ring_buf_write rb (le32 count) 4 = Some (rb1, 4)" "rb_wf rb1"
    "rb_contents rb1 = rb_contents rb @ le32 count"
    "rb1 = rb\<lparr>data_buf := data_buf rb1, write_ptr := write_ptr rb1\<rparr>"
    using ring_buf_write_correct [OF wf, of 4 "le32 count"] fits by auto
  moreover have "capacity rb1 = capacity rb" by (subst w1(4)) simp
  then have "rb_room rb1 + 4 = rb_room rb"
    using fits w1(3) unfolding rb_room_def by simp
  then obtain rb2 where "ring_buf_write rb1 src count = Some (rb2, count)" "rb_wf rb2"
    "rb_contents rb2 = rb_contents rb1 @ take (unat count) src"
    "rb2 = rb1\<lparr>data_buf := data_buf rb2, write_ptr := write_ptr rb2\<rparr>"
    using ring_buf_write_correct [OF w1(2), of count src] src fits by auto
  moreover have "rb2 = rb\<lparr>data_buf := data_buf rb2, write_ptr := write_ptr rb2\<rparr>"
    by (subst \<open>rb2 = _\<close>, subst w1(4)) simp
  ultimately show ?thesis using framed by (simp add: ring_buf_write_capped_def)
qed

lemma used_after: "rb_wf rb \<Longrightarrow> (ring_buf_bytes_used rb \<ge> notify_thresh rb)
    = (unat (notify_thresh rb) \<le> length (rb_contents rb))"
  by (simp add: word_le_nat_alt bytes_used_correct)

lemma notify_result:
  assumes "ring_buf_write_capped rb s count free
             (if flags rb AND 1 \<noteq> 0 then count + 4
              else if capacity rb - 1 < count then capacity rb - 1 else count) = Some (rb1, n)"
    and "ring_buf_bytes_free (Some rb) = Some free"
  shows "\<exists>evs. ring_buf_write_notify isr wk rb (Some s) count
           = Some (if ring_buf_bytes_used rb1 \<ge> notify_thresh rb1 then rb1\<lparr>session := None\<rparr> else rb1,
                   evs, n \<noteq> count)
         \<and> (\<forall>h. TxComplete h \<in> set evs \<longleftrightarrow>
                \<not> isr \<and> session rb1 = Some h \<and> ring_buf_bytes_used rb1 \<ge> notify_thresh rb1)
         \<and> (\<forall>h. RxComplete h \<in> set evs \<longleftrightarrow>
                isr \<and> session rb1 = Some h \<and> ring_buf_bytes_used rb1 \<ge> notify_thresh rb1)"
  unfolding ring_buf_write_notify_def Let_def assms option.case prod.case
  by (cases "session rb1"; cases isr;
      (simp only: option.case if_True if_False not_True_eq_False not_False_eq_True,
       intro exI conjI, rule refl, auto))

lemma contents_session [simp]: "rb_contents (rb\<lparr>session := x\<rparr>) = rb_contents rb"
  by (simp add: rb_contents_def rb_used_def)

lemma wf_session [simp]: "rb_wf (rb\<lparr>session := x\<rparr>) = rb_wf rb"
  by (simp add: rb_wf_def)

text \<open>
  in plain mode a write into a ring with some free space stores the longest
  prefix of the data that fits, answers true exactly when not all of it was stored, and completes
  the attached session (once, and clears it) exactly when the stored bytes reach the threshold.
\<close>

theorem write_notify_plain:
  assumes "rb_wf rb" and "flags rb AND 1 = 0" and "unat count \<le> length s"
    and "0 < unat count" and "0 < rb_room rb"
  shows "\<exists>rb' evs. ring_buf_write_notify isr wk rb (Some s) count
           = Some (rb', evs, rb_room rb < unat count) \<and> rb_wf rb'
         \<and> rb_contents rb' = rb_contents rb @ take (min (unat count) (rb_room rb)) s
         \<and> (\<forall>h. TxComplete h \<in> set evs \<longleftrightarrow> \<not> isr \<and> session rb = Some h
                  \<and> unat (notify_thresh rb) \<le> length (rb_contents rb'))
         \<and> session rb' = (if unat (notify_thresh rb) \<le> length (rb_contents rb') then None
                          else session rb)"
proof -
  obtain free where free: "ring_buf_bytes_free (Some rb) = Some free" "unat free = rb_room rb"
    using bytes_free_correct [OF assms(1)] by blast
  obtain rb1 n where w: "ring_buf_write_capped rb s count free
             (if flags rb AND 1 \<noteq> 0 then count + 4
              else if capacity rb - 1 < count then capacity rb - 1 else count) = Some (rb1, n)"
    and n: "unat n = min (unat count) (rb_room rb)" and wf1: "rb_wf rb1"
    and c: "rb_contents rb1 = rb_contents rb @ take (min (unat count) (rb_room rb)) s"
    and fr: "rb1 = rb\<lparr>data_buf := data_buf rb1, write_ptr := write_ptr rb1\<rparr>"
    using capped_plain [OF assms free(2)] by blast
  have keep: "session rb1 = session rb" "notify_thresh rb1 = notify_thresh rb"
    by (subst fr, simp)+
  have part: "(n \<noteq> count) = (rb_room rb < unat count)"
    using n by (auto simp: word_unat_eq_iff)
  from notify_result [OF w free(1), of isr wk] obtain evs where
    "ring_buf_write_notify isr wk rb (Some s) count
       = Some (if unat (notify_thresh rb) \<le> length (rb_contents rb1) then rb1\<lparr>session := None\<rparr>
               else rb1, evs, rb_room rb < unat count)"
    "\<forall>h. TxComplete h \<in> set evs \<longleftrightarrow> \<not> isr \<and> session rb = Some h
          \<and> unat (notify_thresh rb) \<le> length (rb_contents rb1)"
    unfolding used_after [OF wf1] unfolding keep part by blast
  then show ?thesis using wf1 c keep
    by (intro exI [of _ "if unat (notify_thresh rb) \<le> length (rb_contents rb1)
                         then rb1\<lparr>session := None\<rparr> else rb1"] exI [of _ evs])
      (auto simp del: length_rb_contents)
qed

text \<open>
  In length-prefix mode a write is all or nothing: either the 4-byte
  little-endian length and the whole payload are stored and the answer is false, or nothing is
  stored and the answer is true; which of the two is decided by the room for the payload and header.
\<close>

theorem write_notify_framed:
  assumes "rb_wf rb" and "flags rb AND 1 \<noteq> 0" and "unat count \<le> length s"
    and "0 < unat count" and "unat count + 4 < 4294967296"
  shows "\<exists>rb' evs. ring_buf_write_notify isr wk rb (Some s) count
           = Some (rb', evs, rb_room rb < unat count + 4) \<and> rb_wf rb'
         \<and> rb_contents rb' = (if rb_room rb < unat count + 4 then rb_contents rb
                              else rb_contents rb @ le32 count @ take (unat count) s)"
proof -
  obtain free where free: "ring_buf_bytes_free (Some rb) = Some free" "unat free = rb_room rb"
    using bytes_free_correct [OF assms(1)] by blast
  have m: "unat (count + 4) = unat count + 4" using assms(5) by (simp add: unat_add_no_wrap)
  let ?m = "if flags rb AND 1 \<noteq> 0 then count + 4
            else if capacity rb - 1 < count then capacity rb - 1 else count"
  have m': "?m = count + 4" using assms(2) by simp
  show ?thesis
  proof (cases "rb_room rb < unat count + 4")
    case True
    then have "free < count + 4" using free m by (simp add: word_less_nat_alt)
    then have w: "ring_buf_write_capped rb s count free ?m = Some (rb, 0)"
      unfolding m' using assms(2) by (simp add: ring_buf_write_capped_def)
    have "count \<noteq> 0" using assms(4) by auto
    then show ?thesis using notify_result [OF w free(1), of isr wk] True assms(1) by fastforce
  next
    case False
    then obtain rb1 where w: "ring_buf_write_capped rb s count free ?m = Some (rb1, count)"
      "rb_wf rb1" "rb_contents rb1 = rb_contents rb @ le32 count @ take (unat count) s"
      unfolding m' using capped_framed [OF assms(1-4) free(2) m] by auto
    then show ?thesis using notify_result [OF w(1) free(1), of isr wk] False by fastforce
  qed
qed

text \<open>
  A plain-mode write to a full ring never returns: the length is capped
  to zero and the zero-length assertion spins, although the function's comment promises the
  answer true for a write that could not be placed.
\<close>

theorem write_notify_full_traps:
  assumes "rb_wf rb" and "flags rb AND 1 = 0" and "rb_room rb = 0"
  shows "ring_buf_write_notify isr wk rb (Some s) count = None"
proof -
  obtain free where free: "ring_buf_bytes_free (Some rb) = Some free" "unat free = 0"
    using bytes_free_correct [OF assms(1)] assms(3) by auto
  then have "free = 0" by (simp add: unat_eq_zero)
  then show ?thesis using assms(2) free(1)
    by (simp add: ring_buf_write_notify_def ring_buf_write_capped_def Let_def word_gt_0)
qed


theorem write_notify_plain_witness:
  "\<exists>rb' evs. ring_buf_write_notify False (\<lambda>_. False) demo_ring (Some [5, 6]) 2
       = Some (rb', evs, rb_room demo_ring < unat (2 :: u32)) \<and> rb_wf rb'
     \<and> rb_contents rb' = rb_contents demo_ring @ take (min (unat (2 :: u32)) (rb_room demo_ring)) [5, 6]
     \<and> (\<forall>h. TxComplete h \<in> set evs \<longleftrightarrow> \<not> False \<and> session demo_ring = Some h
              \<and> unat (notify_thresh demo_ring) \<le> length (rb_contents rb'))
     \<and> session rb' = (if unat (notify_thresh demo_ring) \<le> length (rb_contents rb') then None
                      else session demo_ring)"
  by (rule write_notify_plain [OF demo_ring_wf]) (simp_all add: demo_ring_room, simp_all add: demo_ring_def)

definition demo_framed :: ring_buf where
  "demo_framed = \<lparr>read_ptr = 0, write_ptr = 0, capacity = 16, notify_thresh = 1, session = None,
                  data_buf = replicate 16 0, flags = 1\<rparr>"

theorem write_notify_framed_witness:
  "\<exists>rb' evs. ring_buf_write_notify True (\<lambda>_. True) demo_framed (Some [5, 6]) 2
       = Some (rb', evs, rb_room demo_framed < unat (2 :: u32) + 4) \<and> rb_wf rb'
     \<and> rb_contents rb' = (if rb_room demo_framed < unat (2 :: u32) + 4 then rb_contents demo_framed
                          else rb_contents demo_framed @ le32 2 @ take (unat (2 :: u32)) [5, 6])"
  by (rule write_notify_framed) (simp_all add: demo_framed_def rb_wf_def)

theorem write_notify_full_traps_witness:
  "ring_buf_write_notify False (\<lambda>_. False)
     \<lparr>read_ptr = 1, write_ptr = 0, capacity = 2, notify_thresh = 1, session = None,
      data_buf = [0, 0], flags = 0\<rparr> (Some [9]) 1 = None"
  by (rule write_notify_full_traps) (simp_all add: rb_wf_def rb_room_def rb_used_def)

end
