(* ===== verification/CanSession.thy ===== *)
theory CanSession
  imports RingBuf
begin

text \<open>
  Model of \<open>imx8_bridge/src/can_session.c\<close>: opening a session, taking a message out of its ring,
  the completion callbacks that make a waiting task ready, and the choice of the next task.  The RAM
  words that the literal pools name twice (the comments give their addresses) are one field: the lock
  at \<open>200009a4\<close>, the top index at \<open>200009ac\<close>, the pending flag at \<open>20001078\<close>, the
  current task at \<open>20000744\<close> and the table of slots at \<open>2000075c\<close>.  \<open>None\<close> is a
  \<open>configASSERT\<close> that spins for ever.
\<close>

subsection \<open>Opening\<close>

definition SESS_TIMER_CFG :: u32 where "SESS_TIMER_CFG = 0x5cfb"

record can_session =
  cs_seq :: u32
  cs_flags2 :: u32
  cs_timeout_ticks :: u32
  cs_timer_cfg :: u32
  cs_flags :: u8

datatype open_event =
    QueueClose nat | Malloc | TimerInit | QueueOpen nat | QueueOpenIsr nat | PendSvSet

text \<open>
  The handle of the caller (three words), the objects on the heap and the calls made.  The queue
  answers a code and, in an interrupt, whether a task woke.
\<close>

record open_state =
  h_obj :: "nat option"
  h_callback :: int
  h_state :: int
  objects :: "nat \<Rightarrow> can_session option"
  op_log :: "open_event list"

definition timeout_to_ticks :: "32 word \<Rightarrow> u32" where
  "timeout_to_ticks ms = (if ms = 0x7fffffff then 0xffffffff else (ms * 1000) div 1000)"

definition can_session_open ::
    "bool \<Rightarrow> nat option \<Rightarrow> (open_event list \<Rightarrow> int \<times> bool) \<Rightarrow> 32 word \<Rightarrow> int \<Rightarrow> int
       \<Rightarrow> open_state \<Rightarrow> (open_state \<times> bool) option" where
  "can_session_open in_isr alloc queue timeout_ms bidirectional callback s =
     (let s = (case h_obj s of None \<Rightarrow> s
                | Some p \<Rightarrow> s\<lparr>op_log := op_log s @ [QueueClose p], h_obj := None\<rparr>);
          ticks = timeout_to_ticks timeout_ms
      in if ticks = 0 then None
         else let s = s\<lparr>op_log := op_log s @ [Malloc]\<rparr>
           in case alloc of
                None \<Rightarrow> Some (s\<lparr>h_obj := None\<rparr>, True)
              | Some p \<Rightarrow>
                  (let obj = \<lparr>cs_seq = 0, cs_flags2 = 0, cs_timeout_ticks = ticks, cs_timer_cfg = SESS_TIMER_CFG,
                         cs_flags = (if bidirectional = 0 then 4 else 0)\<rparr>;
                       s = s\<lparr>objects := (objects s)(p \<mapsto> obj), h_obj := Some p, h_callback := callback,
                             h_state := 0, op_log := op_log s @ [TimerInit]\<rparr>
                   in if \<not> in_isr then
                        let (rc, _) = queue (op_log s)
                        in Some (s\<lparr>op_log := op_log s @ [QueueOpen p]\<rparr>, rc = 0)
                      else
                        let (rc, woken) = queue (op_log s);
                            s = s\<lparr>op_log := op_log s @ [QueueOpenIsr p]\<rparr>
                        in Some (if woken then s\<lparr>op_log := op_log s @ [PendSvSet]\<rparr> else s, rc = 0)))"

text \<open>The conversion keeps the timeouts whose product with 1000 does not wrap.\<close>

lemma ticks_of_timeout:
  "ms \<noteq> 0x7fffffff \<Longrightarrow> unat (timeout_to_ticks ms) = (unat ms * 1000) mod 4294967296 div 1000"
  by (simp add: timeout_to_ticks_def unat_div unat_word_ariths)

lemma ticks_kept: "unat ms < 4294968 \<Longrightarrow> ms \<noteq> 0x7fffffff \<Longrightarrow> timeout_to_ticks ms = ms"
  by (simp add: word_unat_eq_iff ticks_of_timeout)

text \<open>A timeout of 4294968 ms is not zero, but its ticks are: opening traps.\<close>

lemma long_timeout_traps: "can_session_open isr alloc q 4294968 b c s = None"
  by (simp add: can_session_open_def timeout_to_ticks_def Let_def)

subsection \<open>Taking a message\<close>

datatype sw_event =
    SwEnterCritical | SwExitCritical | ChanIdle nat | TransferComplete u32 | SwSuspend | SwTxComplete nat | SwTimer

text \<open>
  The ring with the slot of a waiting sender at offset \<open>0x14\<close>, the busy byte of the SPI channel
  and the calls made.  \<open>xfer\<close> is what other tasks and interrupts do to the ring while the call
  waits for the transfer.
\<close>

record sess_state =
  sw_ring :: ring_buf
  sw_chained :: "nat option"
  sw_busy :: u8
  sw_log :: "sw_event list"

definition sess_hdr :: "ring_buf \<Rightarrow> u32" where
  "sess_hdr rb = (if flags rb AND 1 \<noteq> 0 then 4 else 0)"

definition sess_wait ::
    "nat \<Rightarrow> (sess_state \<Rightarrow> sess_state) \<Rightarrow> u32 \<Rightarrow> sess_state \<Rightarrow> sess_state option" where
  "sess_wait chan xfer cookie s =
     (if cookie = 0 then Some s
      else let hdr = sess_hdr (sw_ring s); s = s\<lparr>sw_log := sw_log s @ [SwEnterCritical]\<rparr>
        in if ring_buf_bytes_used (sw_ring s) \<le> hdr then
             let s = s\<lparr>sw_log := sw_log s @ [SwEnterCritical]\<rparr>;
                 s = (if sw_busy s = 2 then s\<lparr>sw_busy := 0\<rparr> else s)
             in if session (sw_ring s) \<noteq> None then None
                else let s = s\<lparr>sw_ring := (sw_ring s)\<lparr>session := Some chan\<rparr>,
                              sw_log := sw_log s @ [SwExitCritical, SwExitCritical, TransferComplete cookie]\<rparr>;
                         s = xfer s
                     in Some (s\<lparr>sw_ring := (sw_ring s)\<lparr>session := None\<rparr>\<rparr>)
           else Some (s\<lparr>sw_log := sw_log s @ [SwExitCritical]\<rparr>))"

definition sess_header :: "u32 \<Rightarrow> u32 \<Rightarrow> ring_buf \<Rightarrow> (ring_buf \<times> u32) option" where
  "sess_header hdr len rb =
     (if hdr = 0 then Some (rb, len)
      else case ring_buf_read rb hdr (ring_buf_bytes_used rb) of
             None \<Rightarrow> None
           | Some (rb', _) \<Rightarrow>
               Some (if len < hdr then (rb'\<lparr>read_ptr := read_ptr rb\<rparr>, 0) else (rb', hdr)))"

definition sess_take :: "u32 \<Rightarrow> u32 \<Rightarrow> sess_state \<Rightarrow> (sess_state \<times> bytes) option" where
  "sess_take hdr len s =
     (if ring_buf_bytes_used (sw_ring s) \<le> hdr then Some (s, [])
      else case sess_header hdr len (sw_ring s) of
             None \<Rightarrow> None
           | Some (rb, len) \<Rightarrow>
               (case ring_buf_read rb len (ring_buf_bytes_used rb) of
                  None \<Rightarrow> None
                | Some (rb, got) \<Rightarrow>
                    (let s = s\<lparr>sw_ring := rb\<rparr>
                     in if got = [] then Some (s, [])
                        else let s = s\<lparr>sw_log := sw_log s @ [SwSuspend]\<rparr>;
                                 s = (case sw_chained s of None \<Rightarrow> s
                                      | Some p \<Rightarrow> s\<lparr>sw_log := sw_log s @ [SwTxComplete p], sw_chained := None\<rparr>)
                             in Some (s\<lparr>sw_log := sw_log s @ [SwTimer]\<rparr>, got))))"

text \<open>\<open>given\<close> is whether the buffer is not the null pointer.  The assertion names the session as well, but its
  flags are read before it: a null session does not get that far.\<close>

definition can_session_write ::
    "bool \<Rightarrow> nat \<Rightarrow> (sess_state \<Rightarrow> sess_state) \<Rightarrow> u32 \<Rightarrow> u32 \<Rightarrow> sess_state \<Rightarrow> (sess_state \<times> bytes) option" where
  "can_session_write given chan xfer len cookie s =
     (let hdr = sess_hdr (sw_ring s)
      in if \<not> given then None
         else case sess_wait chan xfer cookie s of None \<Rightarrow> None | Some s \<Rightarrow> sess_take hdr len s)"

lemma take_all_avail:
  assumes "rb_wf rb"
  obtains rb' where
    "ring_buf_read rb want (ring_buf_bytes_used rb) = Some (rb', take (unat want) (rb_contents rb))"
    "rb_wf rb'" "rb_contents rb' = drop (unat want) (rb_contents rb)" "rb' = rb\<lparr>read_ptr := read_ptr rb'\<rparr>"
  using ring_buf_read_correct [OF assms, of "ring_buf_bytes_used rb" want]
    take_min_length [of "unat want" "rb_contents rb"] drop_min_length [of "unat want" "rb_contents rb"]
  by (auto simp: bytes_used_correct assms)

text \<open>
  Without the header the call is a read of the ring.  With it, the four bytes of the length are read
  and dropped, and the read that follows asks for four bytes, whatever the length says.
\<close>

lemma sess_take_contents:
  fixes len :: u32
  assumes wf: "rb_wf (sw_ring s)"
  defines "c \<equiv> rb_contents (sw_ring s)"
  defines "out \<equiv> if sess_hdr (sw_ring s) = 0 then take (unat len) c
                 else if length c \<le> 4 \<or> unat len < 4 then [] else take 4 (drop 4 c)"
  defines "rest \<equiv> if sess_hdr (sw_ring s) = 0 then drop (unat len) c
                 else if length c \<le> 4 \<or> unat len < 4 then c else drop 8 c"
  shows "\<exists>s'. sess_take (sess_hdr (sw_ring s)) len s = Some (s', out) \<and> rb_wf (sw_ring s') \<and>
    rb_contents (sw_ring s') = rest \<and> flags (sw_ring s') = flags (sw_ring s) \<and>
    capacity (sw_ring s') = capacity (sw_ring s)"
proof -
  let ?rb = "sw_ring s"
  have used: "unat (ring_buf_bytes_used ?rb) = length c" using wf by (simp add: bytes_used_correct c_def)
  show ?thesis
  proof (cases "ring_buf_bytes_used ?rb \<le> sess_hdr ?rb")
    case True
    then have l: "length c \<le> unat (sess_hdr ?rb)" using used by (simp add: word_le_nat_alt)
    have "out = [] \<and> rest = c"
    proof (cases "sess_hdr ?rb = 0")
      case True
      then have "c = []" using l by simp
      then show ?thesis by (simp add: out_def rest_def)
    next
      case hdr: False
      then have "sess_hdr ?rb = 4" by (auto simp: sess_hdr_def split: if_splits)
      then have "length c \<le> 4" using l by simp
      then show ?thesis using hdr by (simp add: out_def rest_def)
    qed
    then show ?thesis using True wf by (simp add: sess_take_def c_def)
  next
    case False
    then have len: "unat (sess_hdr ?rb) < length c" using used by (simp add: word_le_nat_alt)
    show ?thesis
    proof (cases "sess_hdr ?rb = 0")
      case True
      from take_all_avail [OF wf, of len] obtain rb' where r:
        "ring_buf_read ?rb len (ring_buf_bytes_used ?rb) = Some (rb', take (unat len) c)" "rb_wf rb'"
        "rb_contents rb' = drop (unat len) c" "rb' = ?rb\<lparr>read_ptr := read_ptr rb'\<rparr>"
        unfolding c_def by blast
      have "flags rb' = flags ?rb" "capacity rb' = capacity ?rb" by (subst r(4), simp)+
      then show ?thesis using r(1-3) False True
        by (auto simp: sess_take_def sess_header_def out_def rest_def Let_def split: option.split)
    next
      case hdr: False
      then have h4: "sess_hdr ?rb = 4" by (auto simp: sess_hdr_def split: if_splits)
      from take_all_avail [OF wf, of 4] obtain rb1 where r1:
        "ring_buf_read ?rb 4 (ring_buf_bytes_used ?rb) = Some (rb1, take 4 c)" "rb_wf rb1"
        "rb_contents rb1 = drop 4 c" "rb1 = ?rb\<lparr>read_ptr := read_ptr rb1\<rparr>"
        unfolding c_def by auto
      have f1: "flags rb1 = flags ?rb" "capacity rb1 = capacity ?rb" by (subst r1(4), simp)+
      have undo: "rb1\<lparr>read_ptr := read_ptr ?rb\<rparr> = ?rb" by (subst r1(4)) simp
      show ?thesis
      proof (cases "len < 4")
        case True
        have z: "ring_buf_read ?rb 0 (ring_buf_bytes_used ?rb) = Some (?rb, [])"
          by (cases "ring_buf_bytes_used ?rb = 0") (simp_all add: ring_buf_read_def Let_def word_neq_0_conv)
        have "unat len < 4" using True by (simp add: word_less_nat_alt)
        then show ?thesis using True False h4 r1(1) undo z wf
          by (simp add: sess_take_def sess_header_def out_def rest_def c_def Let_def)
      next
        case big: False
        then have l4: "\<not> unat len < 4" by (simp add: word_less_nat_alt)
        from take_all_avail [OF r1(2), of 4] obtain rb2 where r2:
          "ring_buf_read rb1 4 (ring_buf_bytes_used rb1) = Some (rb2, take 4 (drop 4 c))" "rb_wf rb2"
          "rb_contents rb2 = drop 8 c" "rb2 = rb1\<lparr>read_ptr := read_ptr rb2\<rparr>"
          by (auto simp: r1(3))
        have "flags rb2 = flags ?rb" "capacity rb2 = capacity ?rb" using f1 by (subst r2(4), simp)+
        then show ?thesis using False big h4 r1(1) r2(1-3) l4 len
          by (auto simp: sess_take_def sess_header_def out_def rest_def Let_def split: option.split)
      qed
    qed
  qed
qed

lemma sess_hdr_values: "sess_hdr rb = 0 \<longleftrightarrow> flags rb AND 1 = 0"
  by (simp add: sess_hdr_def)

lemma flags_session [simp]: "flags (rb\<lparr>session := x\<rparr>) = flags rb"
  by simp

lemma notified_write:
  fixes msg :: bytes and count :: u32
  assumes wf: "rb_wf rb" and empty: "rb_contents rb = []" and cnt: "unat count = length msg" "msg \<noteq> []"
    and fits: "length msg + unat (sess_hdr rb) \<le> rb_room rb"
  obtains rb' evs where "ring_buf_write_notify isr wk rb (Some msg) count = Some (rb', evs, False)"
    "rb_wf rb'" "flags rb' = flags rb"
    "rb_contents rb' = (if sess_hdr rb = 0 then msg else le32 count @ msg)"
proof -
  obtain free where free: "ring_buf_bytes_free (Some rb) = Some free" "unat free = rb_room rb"
    using bytes_free_correct [OF wf] by blast
  have pos: "0 < unat count" using cnt by simp
  define m where "m = (if flags rb AND 1 \<noteq> 0 then count + 4
      else if capacity rb - 1 < count then capacity rb - 1 else count)"
  have "\<exists>rb1. ring_buf_write_capped rb msg count free m = Some (rb1, count) \<and> rb_wf rb1 \<and>
      flags rb1 = flags rb \<and> rb_contents rb1 = (if sess_hdr rb = 0 then msg else le32 count @ msg)"
  proof (cases "flags rb AND 1 = 0")
    case True
    then have h: "sess_hdr rb = 0" by (simp add: sess_hdr_def)
    then have le: "unat count \<le> rb_room rb" using fits cnt by simp
    obtain rb1 n where r: "ring_buf_write_capped rb msg count free m = Some (rb1, n)"
      "unat n = min (unat count) (rb_room rb)" "rb_wf rb1"
      "rb_contents rb1 = rb_contents rb @ take (min (unat count) (rb_room rb)) msg"
      "rb1 = rb\<lparr>data_buf := data_buf rb1, write_ptr := write_ptr rb1\<rparr>"
      using capped_plain [OF wf True _ pos _ free(2), of msg m] cnt le pos by fastforce
    have "n = count" using r(2) le by (simp add: word_unat_eq_iff)
    moreover have "flags rb1 = flags rb" by (subst r(5)) simp
    ultimately show ?thesis using r h empty cnt le by (simp add: min_def)
  next
    case False
    then have h: "sess_hdr rb = 4" by (simp add: sess_hdr_def)
    have room: "rb_room rb < 2147483648" using rb_room_less [OF wf] .
    then have "unat m = unat count + 4" using False fits cnt h by (simp add: m_def unat_add_no_wrap)
    then obtain rb1 where r: "ring_buf_write_capped rb msg count free m = Some (rb1, count)" "rb_wf rb1"
      "rb_contents rb1 = rb_contents rb @ le32 count @ take (unat count) msg"
      "rb1 = rb\<lparr>data_buf := data_buf rb1, write_ptr := write_ptr rb1\<rparr>"
      using capped_framed [OF wf False _ pos free(2), of msg m] cnt fits h by auto
    have "flags rb1 = flags rb" by (subst r(4)) simp
    then show ?thesis using r h empty cnt by simp
  qed
  then obtain rb1 where r: "ring_buf_write_capped rb msg count free m = Some (rb1, count)" "rb_wf rb1"
    "flags rb1 = flags rb" "rb_contents rb1 = (if sess_hdr rb = 0 then msg else le32 count @ msg)" by blast
  from notify_result [OF r(1) [unfolded m_def] free(1), of isr wk] obtain evs where
    "ring_buf_write_notify isr wk rb (Some msg) count
      = Some (if ring_buf_bytes_used rb1 \<ge> notify_thresh rb1 then rb1\<lparr>session := None\<rparr> else rb1, evs, False)"
    by auto
  moreover have "rb_wf (if ring_buf_bytes_used rb1 \<ge> notify_thresh rb1 then rb1\<lparr>session := None\<rparr> else rb1)"
    "flags (if ring_buf_bytes_used rb1 \<ge> notify_thresh rb1 then rb1\<lparr>session := None\<rparr> else rb1) = flags rb"
    "rb_contents (if ring_buf_bytes_used rb1 \<ge> notify_thresh rb1 then rb1\<lparr>session := None\<rparr> else rb1)
       = (if sess_hdr rb = 0 then msg else le32 count @ msg)"
    using r(2,3,4) by simp_all
  ultimately show thesis by (rule that)
qed

text \<open>
  C29.  A message written into an empty ring, from a task or an interrupt, and
  taken out by \<open>can_session_write\<close> with a large enough buffer.  Without the length prefix it comes
  out whole.  With the prefix only its first four bytes come out, because the length of the header is
  taken for the length of the message, and the rest of a longer message stays in the ring, where the
  next call reads it as a header.
\<close>

theorem message_through_ring:
  fixes msg :: bytes and count len :: u32
  assumes "rb_wf rb" "rb_contents rb = []" "unat count = length msg" "msg \<noteq> []"
    and "length msg + unat (sess_hdr rb) \<le> rb_room rb" "length msg \<le> unat len" "4 \<le> unat len"
  shows "\<exists>rb' evs s'. ring_buf_write_notify isr wk rb (Some msg) count = Some (rb', evs, False)
    \<and> can_session_write True chan xfer len 0 (s\<lparr>sw_ring := rb'\<rparr>)
        = Some (s', if sess_hdr rb = 0 then msg else take 4 msg)
    \<and> rb_contents (sw_ring s') = (if sess_hdr rb = 0 then [] else drop 4 msg)"
proof -
  obtain rb' evs where w: "ring_buf_write_notify isr wk rb (Some msg) count = Some (rb', evs, False)"
    "rb_wf rb'" "flags rb' = flags rb" "rb_contents rb' = (if sess_hdr rb = 0 then msg else le32 count @ msg)"
    using notified_write [OF assms(1-5)] by metis
  let ?s = "s\<lparr>sw_ring := rb'\<rparr>"
  have h: "sess_hdr rb' = sess_hdr rb" using w(3) by (simp add: sess_hdr_def)
  have "rb_wf (sw_ring ?s)" using w(2) by simp
  from sess_take_contents [OF this, of len] obtain s' out where t:
    "sess_take (sess_hdr rb) len ?s = Some (s', out)"
    "out = (if sess_hdr rb = 0 then take (unat len) (rb_contents rb')
            else if length (rb_contents rb') \<le> 4 \<or> unat len < 4 then [] else take 4 (drop 4 (rb_contents rb')))"
    "rb_contents (sw_ring s') = (if sess_hdr rb = 0 then drop (unat len) (rb_contents rb')
            else if length (rb_contents rb') \<le> 4 \<or> unat len < 4 then rb_contents rb' else drop 8 (rb_contents rb'))"
    by (auto simp: h)
  have "can_session_write True chan xfer len 0 ?s = Some (s', out)"
    using t(1) h by (simp add: can_session_write_def sess_wait_def Let_def)
  then show ?thesis using w(1) t(2,3) w(4) assms(3-7) by (auto simp: le32_def simp del: length_rb_contents)
qed

definition demo_framed :: ring_buf where
  "demo_framed = \<lparr>read_ptr = 12, write_ptr = 12, capacity = 16, notify_thresh = 1, session = None,
     data_buf = replicate 16 0, flags = 1\<rparr>"

theorem message_through_ring_witness:
  "\<exists>rb' evs s'. ring_buf_write_notify False (\<lambda>_. False) demo_framed (Some [1, 2, 3, 4, 5, 6]) 6 = Some (rb', evs, False)
    \<and> can_session_write True 0 id 8 0 (\<lparr>sw_ring = demo_framed, sw_chained = None, sw_busy = 0, sw_log = []\<rparr>\<lparr>sw_ring := rb'\<rparr>)
        = Some (s', [1, 2, 3, 4])
    \<and> rb_contents (sw_ring s') = [5, 6]"
  using message_through_ring [of demo_framed 6 "[1, 2, 3, 4, 5, 6]" 8 False "\<lambda>_. False" 0 id
      "\<lparr>sw_ring = demo_framed, sw_chained = None, sw_busy = 0, sw_log = []\<rparr>"]
  by (simp add: demo_framed_def rb_wf_def rb_room_def rb_used_def rb_contents_def sess_hdr_def)

subsection \<open>Completion and the choice of the next task\<close>

text \<open>
  A task is a number; its count is its priority, which is the slot it is filed in.  The kernel's list
  routines are calls; the counts and links of the lists change under them as the environment says.
\<close>

datatype sched_event =
    ListRemove nat | InsertEnd nat nat | InsertOverflow nat | Mask | Unmask | SchedEnter | SchedExit | YieldPendSv

record task_node =
  n_count :: u32
  n_state :: u8
  n_error :: u32

record sched =
  task :: "nat \<Rightarrow> task_node"
  sched_lock :: u32
  sched_pending :: u32
  top_index :: u32
  current :: nat
  slot_count :: "nat \<Rightarrow> u32"
  slot_cursor :: "nat \<Rightarrow> nat"
  list_next :: "nat \<Rightarrow> nat"
  item_owner :: "nat \<Rightarrow> nat"
  sc_log :: "sched_event list"

definition set_done :: "nat \<Rightarrow> sched \<Rightarrow> sched" where
  "set_done n s = s\<lparr>task := (task s)(n := (task s n)\<lparr>n_state := 2\<rparr>)\<rparr>"

definition scl :: "sched_event \<Rightarrow> sched \<Rightarrow> sched" where
  "scl e s = s\<lparr>sc_log := sc_log s @ [e]\<rparr>"

text \<open>The code files the pointer that \<open>uxListRemove\<close> is declared to return; the model files the task that was
  removed, which is what the code means.  In FreeRTOS the result is the number of items left.\<close>

definition file_ready :: "nat \<Rightarrow> sched \<Rightarrow> sched" where
  "file_ready n s =
     (let s = scl (ListRemove n) s;
          s = (if n_count (task s n) > top_index s then s\<lparr>top_index := n_count (task s n)\<rparr> else s)
      in scl (InsertEnd (unat (n_count (task s n))) n) s)"

definition can_session_rx_complete :: "nat option \<Rightarrow> sched \<Rightarrow> (sched \<times> bool) option" where
  "can_session_rx_complete no s =
     (case no of None \<Rightarrow> None
      | Some n \<Rightarrow>
          (let s = scl Mask s; prev = n_state (task s n); s = set_done n s
           in if prev = 1 then
                (if n_error (task s n) \<noteq> 0 then None
                 else let s = (if sched_lock s = 0 then file_ready n s else scl (InsertOverflow n) s)
                   in if n_count (task s n) > n_count (task s (current s))
                      then Some (scl Unmask (s\<lparr>sched_pending := 1\<rparr>), True)
                      else Some (scl Unmask s, False))
              else Some (scl Unmask s, False)))"

definition can_session_tx_complete :: "nat option \<Rightarrow> sched \<Rightarrow> sched option" where
  "can_session_tx_complete no s =
     (case no of None \<Rightarrow> None
      | Some n \<Rightarrow>
          (let s = scl SchedEnter s; prev = n_state (task s n); s = set_done n s
           in if prev = 1 then
                let s = file_ready n s
                in if n_error (task s n) \<noteq> 0 then None
                   else Some (scl SchedExit
                     (if n_count (task s n) > n_count (task s (current s)) then scl YieldPendSv s else s))
              else Some (scl SchedExit s)))"

definition SESS_STRIDE :: nat where "SESS_STRIDE = 0x14"
definition SCHED_TABLE :: nat where "SCHED_TABLE = 0x2000075c"

definition sentinel :: "nat \<Rightarrow> nat" where
  "sentinel i = SCHED_TABLE + i * SESS_STRIDE + 8"

text \<open>The walk down to the first occupied slot; none at index 0 is the assertion.\<close>

fun occupied_slot :: "sched \<Rightarrow> nat \<Rightarrow> nat option" where
  "occupied_slot s 0 = (if slot_count s 0 \<noteq> 0 then Some 0 else None)"
| "occupied_slot s (Suc i) = (if slot_count s (Suc i) \<noteq> 0 then Some (Suc i) else occupied_slot s i)"

definition rotate_slot :: "nat \<Rightarrow> sched \<Rightarrow> sched" where
  "rotate_slot i s =
     (let nxt = list_next s (slot_cursor s i);
          nxt = (if nxt = sentinel i then list_next s nxt else nxt)
      in s\<lparr>slot_cursor := (slot_cursor s)(i := nxt), current := item_owner s nxt, top_index := of_nat i\<rparr>)"

definition can_session_table_advance :: "sched \<Rightarrow> sched option" where
  "can_session_table_advance s =
     (if sched_lock s \<noteq> 0 then Some (s\<lparr>sched_pending := 1\<rparr>)
      else let s = s\<lparr>sched_pending := 0\<rparr>
        in case occupied_slot s (unat (top_index s)) of
             None \<Rightarrow> None
           | Some i \<Rightarrow> Some (rotate_slot i s))"

lemma occupied_slot_Some:
  "occupied_slot s n = Some i \<longleftrightarrow> i \<le> n \<and> slot_count s i \<noteq> 0 \<and> (\<forall>j. i < j \<and> j \<le> n \<longrightarrow> slot_count s j = 0)"
proof (induction n)
  case 0
  show ?case by (cases i) auto
next
  case (Suc n)
  show ?case using Suc by (auto simp: le_Suc_eq)
qed

lemma occupied_slot_None: "occupied_slot s n = None \<longleftrightarrow> (\<forall>j \<le> n. slot_count s j = 0)"
  by (induction n) (auto simp: le_Suc_eq)

text \<open>
  The tables under the running system: completions, the choice of the next task, and what the kernel
  does to the lists: a slot gains items only for a task just filed there, and may lose them at any time.
  \<open>filed\<close> is the slot a completion filed its task in; \<open>slots_after\<close> says how the counts may then change.
\<close>

definition slots_after :: "nat option \<Rightarrow> (nat \<Rightarrow> u32) \<Rightarrow> (nat \<Rightarrow> u32) \<Rightarrow> bool" where
  "slots_after filed old new \<longleftrightarrow> (\<forall>i. new i \<noteq> 0 \<longrightarrow> old i \<noteq> 0 \<or> filed = Some i)"

definition filed_slot :: "nat \<Rightarrow> sched \<Rightarrow> nat option" where
  "filed_slot n s = (if n_state (task s n) = 1 then Some (unat (n_count (task s n))) else None)"

inductive sched_step :: "sched \<Rightarrow> sched \<Rightarrow> bool" where
  rx: "can_session_rx_complete (Some n) s = Some (s', w) \<Longrightarrow> sched_lock s = 0 \<Longrightarrow>
         slots_after (filed_slot n s) (slot_count s) c \<Longrightarrow> sched_step s (s'\<lparr>slot_count := c, list_next := l, slot_cursor := p\<rparr>)"
| rx_locked: "can_session_rx_complete (Some n) s = Some (s', w) \<Longrightarrow> sched_lock s \<noteq> 0 \<Longrightarrow> sched_step s s'"
| tx: "can_session_tx_complete (Some n) s = Some s' \<Longrightarrow>
         slots_after (filed_slot n s) (slot_count s) c \<Longrightarrow> sched_step s (s'\<lparr>slot_count := c, list_next := l, slot_cursor := p\<rparr>)"
| advance: "can_session_table_advance s = Some s' \<Longrightarrow> sched_step s s'"
| leave: "slots_after None (slot_count s) c \<Longrightarrow> sched_step s (s\<lparr>slot_count := c, list_next := l, slot_cursor := p\<rparr>)"
| waits: "sched_step s (s\<lparr>task := t, sched_lock := k\<rparr>)"

inductive_cases sched_stepE: "sched_step s s'"

text \<open>No occupied slot lies above the top index.\<close>

definition top_covers :: "sched \<Rightarrow> bool" where
  "top_covers s \<longleftrightarrow> (\<forall>i. slot_count s i \<noteq> 0 \<longrightarrow> i \<le> unat (top_index s))"

lemma scl_fields [simp]:
  "task (scl e s) = task s" "sched_lock (scl e s) = sched_lock s" "top_index (scl e s) = top_index s"
  "current (scl e s) = current s" "slot_count (scl e s) = slot_count s"
  by (simp_all add: scl_def)

lemma done_fields [simp]:
  "sched_lock (set_done n s) = sched_lock s" "top_index (set_done n s) = top_index s"
  "current (set_done n s) = current s" "slot_count (set_done n s) = slot_count s"
  "n_count (task (set_done n s) m) = n_count (task s m)" "n_error (task (set_done n s) m) = n_error (task s m)"
  by (simp_all add: set_done_def)

lemma file_fields [simp]:
  "slot_count (file_ready n s) = slot_count s" "task (file_ready n s) = task s"
  "current (file_ready n s) = current s" "sched_lock (file_ready n s) = sched_lock s"
  by (simp_all add: file_ready_def Let_def)

lemma file_top: "top_index (file_ready n s) = max (top_index s) (n_count (task s n))"
  by (auto simp: file_ready_def Let_def max_def)

lemma covers_after:
  assumes "top_covers s" "slots_after f (slot_count s) c"
    and "unat (top_index s) \<le> unat t" "\<And>i. f = Some i \<Longrightarrow> i \<le> unat t"
  shows "c i \<noteq> 0 \<Longrightarrow> i \<le> unat t"
  using assms by (fastforce simp: top_covers_def slots_after_def)

lemma rx_top:
  assumes "can_session_rx_complete (Some n) s = Some (s', w)"
  shows "slot_count s' = slot_count s \<and>
    top_index s' = (if sched_lock s = 0 \<and> n_state (task s n) = 1 then max (top_index s) (n_count (task s n)) else top_index s)"
  using assms by (auto simp: can_session_rx_complete_def Let_def file_top split: if_splits)

lemma tx_top:
  assumes "can_session_tx_complete (Some n) s = Some s'"
  shows "slot_count s' = slot_count s \<and>
    top_index s' = (if n_state (task s n) = 1 then max (top_index s) (n_count (task s n)) else top_index s)"
  using assms by (auto simp: can_session_tx_complete_def Let_def file_top split: if_splits)

lemma max_unat: "unat (max a b) = max (unat a) (unat b)" for a b :: u32
  by (simp add: max_def word_le_nat_alt)

lemma advance_top:
  assumes "can_session_table_advance s = Some s'" "top_covers s"
  shows "top_covers s'"
proof (cases "sched_lock s = 0")
  case True
  then obtain i where i: "occupied_slot (s\<lparr>sched_pending := 0\<rparr>) (unat (top_index s)) = Some i"
    "s' = rotate_slot i (s\<lparr>sched_pending := 0\<rparr>)"
    using assms(1) by (auto simp: can_session_table_advance_def Let_def split: option.splits)
  then have le: "i \<le> unat (top_index s)" "\<And>j. i < j \<Longrightarrow> j \<le> unat (top_index s) \<Longrightarrow> slot_count s j = 0"
    by (auto simp: occupied_slot_Some)
  then have "unat (of_nat i :: u32) = i"
    using le(1) by (intro unat_u32_of_nat le_less_trans [OF _ unat_u32_less [of "top_index s"]]) simp
  moreover have "j \<le> i" if "slot_count s j \<noteq> 0" for j
    using le(2) [of j] that assms(2) by (force simp: top_covers_def)
  ultimately show ?thesis by (simp add: i(2) rotate_slot_def top_covers_def Let_def)
next
  case False
  then show ?thesis using assms by (auto simp: can_session_table_advance_def top_covers_def)
qed

lemma top_covers_step: "sched_step s s' \<Longrightarrow> top_covers s \<Longrightarrow> top_covers s'"
proof (induction rule: sched_step.induct)
  case (rx n s s' w c l p)
  have "c i \<noteq> 0 \<Longrightarrow> i \<le> unat (top_index s')" for i
    by (rule covers_after [OF rx(4,3)])
      (use rx_top [OF rx(1)] rx(2) in \<open>auto simp: filed_slot_def max_unat split: if_splits\<close>)
  then show ?case by (simp add: top_covers_def)
next
  case (rx_locked n s s' w)
  then show ?case using rx_top [OF rx_locked(1)] by (simp add: top_covers_def)
next
  case (tx n s s' c l p)
  have "c i \<noteq> 0 \<Longrightarrow> i \<le> unat (top_index s')" for i
    by (rule covers_after [OF tx(3,2)])
      (use tx_top [OF tx(1)] in \<open>auto simp: filed_slot_def max_unat split: if_splits\<close>)
  then show ?case by (simp add: top_covers_def)
next
  case (advance s s')
  then show ?case by (simp add: advance_top)
next
  case (leave s c l p)
  then show ?case by (auto simp: top_covers_def slots_after_def)
next
  case (waits s t k)
  then show ?case by (simp add: top_covers_def)
qed

lemma top_covers_reach: "sched_step\<^sup>*\<^sup>* s0 s \<Longrightarrow> top_covers s0 \<Longrightarrow> top_covers s"
  by (induction rule: rtranclp_induct) (auto intro: top_covers_step)

text \<open>The items of a slot, linked in a ring through its sentinel, and the cursor before item \<open>p\<close>.\<close>

definition linked :: "sched \<Rightarrow> nat \<Rightarrow> nat list \<Rightarrow> bool" where
  "linked s i xs \<longleftrightarrow> xs \<noteq> [] \<and> sentinel i \<notin> set xs \<and> list_next s (sentinel i) = xs ! 0 \<and>
     (\<forall>k < length xs. list_next s (xs ! k) = (if Suc k < length xs then xs ! Suc k else sentinel i))"

definition cursor_at :: "sched \<Rightarrow> nat \<Rightarrow> nat list \<Rightarrow> nat \<Rightarrow> bool" where
  "cursor_at s i xs p \<longleftrightarrow> p < length xs \<and>
     (p = 0 \<and> slot_cursor s i \<in> {sentinel i, last xs} \<or> 0 < p \<and> slot_cursor s i = xs ! (p - 1))"

fun advances :: "nat \<Rightarrow> sched \<Rightarrow> sched option" where
  "advances 0 s = Some s"
| "advances (Suc n) s = (case advances n s of None \<Rightarrow> None | Some s' \<Rightarrow> can_session_table_advance s')"

lemma next_item:
  assumes "linked s i xs" "cursor_at s i xs p"
  shows "(let nxt = list_next s (slot_cursor s i) in if nxt = sentinel i then list_next s nxt else nxt) = xs ! p"
proof -
  have nth: "xs ! k \<noteq> sentinel i" if "k < length xs" for k
    using assms(1) that by (auto simp: linked_def) (metis nth_mem)
  have l0: "xs ! 0 \<noteq> sentinel i" using assms(1) nth [of 0] by (simp add: linked_def)
  from assms(2) consider "p = 0" "slot_cursor s i = sentinel i"
    | "p = 0" "slot_cursor s i = xs ! (length xs - 1)" | "0 < p" "p < length xs" "slot_cursor s i = xs ! (p - 1)"
    using assms(1) by (auto simp: cursor_at_def linked_def last_conv_nth)
  then show ?thesis
  proof cases
    case 1
    then show ?thesis using assms(1) l0 by (simp add: linked_def Let_def)
  next
    case 2
    then have "list_next s (slot_cursor s i) = sentinel i" using assms(1) by (simp add: linked_def)
    then show ?thesis using 2 assms(1) by (simp add: linked_def Let_def)
  next
    case 3
    then have "list_next s (slot_cursor s i) = xs ! p" using assms(1) by (simp add: linked_def)
    then show ?thesis using 3 nth [of p] by (simp add: Let_def)
  qed
qed

definition ready_at :: "sched \<Rightarrow> nat \<Rightarrow> bool" where
  "ready_at s i \<longleftrightarrow> sched_lock s = 0 \<and> slot_count s i \<noteq> 0 \<and> (\<forall>j > i. slot_count s j = 0) \<and> i \<le> unat (top_index s)"

lemma advance_once:
  assumes "ready_at s i" "linked s i xs" "cursor_at s i xs p"
  shows "\<exists>s'. can_session_table_advance s = Some s' \<and> current s' = item_owner s (xs ! p) \<and>
    top_index s' = of_nat i \<and> ready_at s' i \<and> linked s' i xs \<and> cursor_at s' i xs (Suc p mod length xs) \<and>
    item_owner s' = item_owner s"
proof -
  let ?s = "s\<lparr>sched_pending := 0\<rparr>"
  have o: "occupied_slot ?s (unat (top_index s)) = Some i"
    using assms(1) by (auto simp: ready_at_def occupied_slot_Some)
  have a: "can_session_table_advance s = Some (rotate_slot i ?s)"
    using assms(1) o by (simp add: can_session_table_advance_def ready_at_def)
  have n: "(let nxt = list_next ?s (slot_cursor ?s i) in if nxt = sentinel i then list_next ?s nxt else nxt) = xs ! p"
    using next_item [OF assms(2,3)] by (simp add: Let_def split: if_splits)
  have r: "rotate_slot i ?s = ?s\<lparr>slot_cursor := (slot_cursor s)(i := xs ! p), current := item_owner s (xs ! p),
      top_index := of_nat i\<rparr>"
    using n by (simp add: rotate_slot_def Let_def)
  have p: "p < length xs" using assms(3) by (simp add: cursor_at_def)
  have u: "unat (of_nat i :: u32) = i"
    using assms(1) by (intro unat_u32_of_nat le_less_trans [OF _ unat_u32_less [of "top_index s"]]) (simp add: ready_at_def)
  have "ready_at (rotate_slot i ?s) i" using assms(1) u by (simp add: r ready_at_def)
  moreover have "linked (rotate_slot i ?s) i xs" using assms(2) by (simp add: r linked_def)
  moreover have "cursor_at (rotate_slot i ?s) i xs (Suc p mod length xs)"
  proof (cases "Suc p = length xs")
    case True
    then have "last xs = xs ! p" by (metis diff_Suc_1 last_conv_nth length_0_conv nat.simps(3))
    then show ?thesis using True assms(2) by (simp add: r cursor_at_def linked_def)
  next
    case False
    then show ?thesis using p by (simp add: r cursor_at_def)
  qed
  ultimately show ?thesis using a by (simp add: r)
qed

lemma advance_many:
  assumes "ready_at s i" "linked s i xs" "cursor_at s i xs p"
  shows "\<exists>s'. advances n s = Some s' \<and> ready_at s' i \<and> linked s' i xs \<and>
    cursor_at s' i xs ((p + n) mod length xs) \<and> item_owner s' = item_owner s"
proof (induction n)
  case 0
  then show ?case using assms by (auto simp: cursor_at_def)
next
  case (Suc n)
  then obtain s' where s': "advances n s = Some s'" "ready_at s' i" "linked s' i xs"
    "cursor_at s' i xs ((p + n) mod length xs)" "item_owner s' = item_owner s" by blast
  from advance_once [OF s'(2-4)] show ?case using s'(1,5) by (auto simp: mod_Suc_eq)
qed

text \<open>
  C30.  After any sequence of completions, choices and changes of the lists by the
  kernel, from a table whose top index covers its occupied slots, and with the lock open: the choice
  does not trap when a slot is occupied, it takes the highest occupied slot, and repeated choices go
  round the tasks of that slot in the order of its list, so that each of them is chosen again after as
  many choices as the slot has tasks.
\<close>

theorem highest_ready_runs:
  assumes "sched_step\<^sup>*\<^sup>* s0 s" "top_covers s0" "sched_lock s = 0"
    and "slot_count s i \<noteq> 0" "\<forall>j > i. slot_count s j = 0" "linked s i xs" "cursor_at s i xs p"
  shows "\<exists>s'. advances (Suc n) s = Some s' \<and> current s' = item_owner s (xs ! ((p + n) mod length xs)) \<and>
    top_index s' = of_nat i"
proof -
  have "i \<le> unat (top_index s)"
    using top_covers_reach [OF assms(1,2)] assms(4) by (simp add: top_covers_def)
  then have "ready_at s i" using assms(3-5) by (simp add: ready_at_def)
  from advance_many [OF this assms(6,7), of n] obtain s1 where s1: "advances n s = Some s1" "ready_at s1 i"
    "linked s1 i xs" "cursor_at s1 i xs ((p + n) mod length xs)" "item_owner s1 = item_owner s" by blast
  from advance_once [OF s1(2-4)] show ?thesis using s1(1,5) by auto
qed

definition demo_sched :: sched where
  "demo_sched = \<lparr>task = (\<lambda>_. \<lparr>n_count = 3, n_state = 1, n_error = 0\<rparr>), sched_lock = 0, sched_pending = 0,
     top_index = 1, current = 0, slot_count = (\<lambda>_. 0), slot_cursor = sentinel, list_next = (\<lambda>_. 0),
     item_owner = (\<lambda>a. a + 70), sc_log = []\<rparr>"

text \<open>A task is filed in slot 3 by an interrupt, where the kernel has linked the items 1 and 2.\<close>

theorem highest_ready_runs_witness:
  "\<exists>t. can_session_rx_complete (Some 7) demo_sched = Some (t, False) \<and>
     (\<exists>s'. advances 4 (t\<lparr>slot_count := (\<lambda>_. 0)(3 := 2), list_next := (\<lambda>_. 0)(sentinel 3 := 1, 1 := 2, 2 := sentinel 3),
                   slot_cursor := sentinel\<rparr>) = Some s' \<and> current s' = 72 \<and> top_index s' = 3)"
proof -
  obtain t where t: "can_session_rx_complete (Some 7) demo_sched = Some (t, False)"
    "item_owner t = (\<lambda>a. a + 70)" "sched_lock t = 0"
    by (simp add: can_session_rx_complete_def demo_sched_def Let_def set_done_def file_ready_def scl_def)
  let ?s = "t\<lparr>slot_count := (\<lambda>_. 0)(3 := 2), list_next := (\<lambda>_. 0)(sentinel 3 := 1, 1 := 2, 2 := sentinel 3),
                   slot_cursor := sentinel\<rparr>"
  have "sched_step demo_sched ?s"
    by (rule rx [OF t(1)]) (simp_all add: demo_sched_def slots_after_def filed_slot_def)
  then have "sched_step\<^sup>*\<^sup>* demo_sched ?s" by (rule r_into_rtranclp)
  moreover have "top_covers demo_sched" by (simp add: top_covers_def demo_sched_def)
  moreover have "linked ?s 3 [1, 2]"
    by (auto simp: linked_def sentinel_def SCHED_TABLE_def SESS_STRIDE_def less_Suc_eq numeral_2_eq_2)
  moreover have "cursor_at ?s 3 [1, 2] 0" by (simp add: cursor_at_def)
  ultimately have "\<exists>s'. advances (Suc 3) ?s = Some s' \<and> current s' = item_owner ?s ([1, 2] ! ((0 + 3) mod length [1::nat, 2])) \<and>
      top_index s' = of_nat 3"
    using t(3) by (intro highest_ready_runs [of demo_sched ?s 3 "[1, 2]" 0 3]) simp_all
  moreover have "item_owner ?s ([1, 2] ! ((0 + 3) mod length [1::nat, 2])) = 72"
    using t(2) by (simp add: mod_Suc numeral_3_eq_3)
  ultimately show ?thesis using t(1) by (auto simp: eval_nat_numeral simp del: advances.simps)
qed

end
