(* ===== verification/Crc.thy ===== *)
theory Crc
  imports Prelude
begin

text \<open>
  The two checksums of the firmware: the CRC-8 of the motor sensor words
  (\<open>user_ecu/src/crc8.c\<close>) and the CRC-16/MODBUS of the serial frames
  (\<open>ssp_crc16_into\<close> in \<open>main/ride/src/ssp_protocol.c\<close>).

  Both are iterations of a one-bit shift of the remainder.  The lemmas show that the shift is
  injective, hence that a checksum tells apart any two messages that differ in one byte, and that
  a CRC-16 followed by its own two bytes leaves the residue 0, which is the test the receiver
  makes.  The CRC-8 table of the original firmware is not in the repository: it is an argument of
  \<open>crc8_poly31_verify_lut\<close>.
\<close>

subsection \<open>CRC-8, polynomial 0x31\<close>

text \<open>One iteration of the inner loops of \<open>crc8_poly31_word\<close>.\<close>

definition crc8_shift :: "u8 \<Rightarrow> u8" where
  "crc8_shift crc =
     (let msb = crc AND 0x80; crc' = push_bit 1 crc
      in if msb \<noteq> 0 then crc' XOR 0x31 else crc')"

fun crc8_loop :: "nat \<Rightarrow> u8 \<Rightarrow> u8" where
  "crc8_loop 0 crc = crc"
| "crc8_loop (Suc i) crc = crc8_loop i (crc8_shift crc)"

definition crc8_poly31_word :: "u8 \<Rightarrow> u8 \<Rightarrow> u8" where
  "crc8_poly31_word w0 w1 = crc8_loop 8 (crc8_loop 8 (NOT w0) XOR w1)"

text \<open>
  The verifier works on the bytes \<open>frame[0..5]\<close>; \<open>lut\<close> is the table
  \<open>crc8_poly31_lut\<close>.  The result is the status word and the frame as the call leaves it.
\<close>

definition crc8_poly31_verify_lut :: "(u8 \<Rightarrow> u8) \<Rightarrow> bytes \<Rightarrow> u32 \<times> bytes" where
  "crc8_poly31_verify_lut lut frame =
     (let crc_a = lut (lut (NOT (frame ! 0)) XOR frame ! 1)
      in if frame ! 2 = crc_a then
           (let crc_b = lut (lut (NOT (frame ! 3)) XOR frame ! 4)
            in if frame ! 5 = crc_b
               then (let f1 = frame[2 := frame ! 3]; f2 = f1[3 := f1 ! 4] in (0, f2))
               else (4, frame))
         else (4, frame))"

lemma crc8_shift_bits:
  "bit (crc8_shift c) n \<longleftrightarrow>
     n < 8 \<and> ((0 < n \<and> bit c (n - 1)) \<noteq> (bit c 7 \<and> bit (0x31 :: u8) n))"
proof -
  have m: "c AND 0x80 \<noteq> 0 \<longleftrightarrow> bit c 7"
  proof -
    have e: "(0x80 :: u8) = push_bit 7 1" by simp
    show ?thesis
      unfolding e by (simp only: push_bit_of_1 and_exp_eq_0_iff_not_bit not_not)
  qed
  have p: "bit (push_bit 1 c) n \<longleftrightarrow> 0 < n \<and> n < 8 \<and> bit c (n - 1)"
    unfolding bit_push_bit_iff by auto
  have l: "bit (0x31 :: u8) n \<Longrightarrow> n < 8"
    by (auto dest: bit_imp_le_length)
  show ?thesis
    unfolding crc8_shift_def Let_def m
    by (cases "bit c 7") (use l in \<open>simp_all only: if_True if_False bit_xor_iff p, blast+\<close>)
qed

lemma inj_crc8_shift: "inj crc8_shift"
proof (rule injI)
  fix a b :: u8
  assume e: "crc8_shift a = crc8_shift b"
  have bits: "bit (crc8_shift a) n = bit (crc8_shift b) n" for n
    using e by simp
  have seven: "bit a 7 = bit b 7"
    using bits [of 0] by (simp add: crc8_shift_bits)
  have "bit a n = bit b n" if n: "n < 8" for n
  proof (cases "n = 7")
    case True
    then show ?thesis using seven by simp
  next
    case False
    then have "Suc n < 8" using n by simp
    then show ?thesis
      using bits [of "Suc n"] seven by (auto simp: crc8_shift_bits)
  qed
  then show "a = b"
    by (intro bit_word_eqI) simp
qed

lemma inj_crc8_loop: "inj (crc8_loop n)"
proof (induction n)
  case 0
  show ?case by (rule injI) simp
next
  case (Suc n)
  have "crc8_loop (Suc n) = crc8_loop n \<circ> crc8_shift"
    by (rule ext) simp
  then show ?case
    using Suc.IH inj_crc8_shift by (simp only: inj_compose)
qed

lemma crc8_loop_eq_iff [simp]: "crc8_loop n a = crc8_loop n b \<longleftrightarrow> a = b"
  using inj_crc8_loop [of n] by (auto dest: injD)

lemma xor_left_eq_iff [simp]:
  fixes a b c :: "'a :: len word"
  shows "a XOR b = a XOR c \<longleftrightarrow> b = c" and "b XOR a = c XOR a \<longleftrightarrow> b = c"
  by (metis (no_types) xor.assoc xor_self_eq xor.left_neutral xor.commute)+

lemma crc8_word_eq_iff:
  "crc8_poly31_word a x = crc8_poly31_word a y \<longleftrightarrow> x = y"
  "crc8_poly31_word a x = crc8_poly31_word b x \<longleftrightarrow> a = b"
  by (auto simp: crc8_poly31_word_def dest: arg_cong [where f = "NOT"])

lemma verify_lut_word:
  assumes "\<And>x. lut x = crc8_loop 8 x"
  shows "lut (lut (NOT a) XOR b) = crc8_poly31_word a b"
  using assms by (simp add: crc8_poly31_word_def)

text \<open>
  With a table that holds the eight-fold shift of its index, the verifier returns 0
  exactly when both embedded check bytes are the bit-banged CRC-8 of their words; it then moves
  the second word behind the first one, and otherwise returns 4 and leaves the frame alone.
\<close>

theorem verify_lut_correct:
  assumes "\<And>x. lut x = crc8_loop 8 x"
  shows "crc8_poly31_verify_lut lut [a0, a1, ca, b0, b1, cb] =
     (if ca = crc8_poly31_word a0 a1 \<and> cb = crc8_poly31_word b0 b1
      then (0, [a0, a1, b0, b1, b1, cb]) else (4, [a0, a1, ca, b0, b1, cb]))"
  unfolding crc8_poly31_verify_lut_def Let_def
  by (simp add: verify_lut_word [OF assms])

theorem verify_lut_correct_witness:
  "crc8_poly31_verify_lut (crc8_loop 8) [0xBE, 0xEF, 0x92, 0, 0, 0x81] =
     (if 0x92 = crc8_poly31_word 0xBE 0xEF \<and> 0x81 = crc8_poly31_word 0 0
      then (0, [0xBE, 0xEF, 0, 0, 0, 0x81]) else (4, [0xBE, 0xEF, 0x92, 0, 0, 0x81]))"
  by (rule verify_lut_correct) simp

text \<open>
  C10.  A frame that verifies does not verify any more after a change of exactly one of
  its six bytes.
\<close>

theorem verify_lut_detects:
  assumes lut: "\<And>x. lut x = crc8_loop 8 x"
    and len: "length f = 6" and ok: "fst (crc8_poly31_verify_lut lut f) = 0"
    and i: "i < 6" and d: "v \<noteq> f ! i"
  shows "fst (crc8_poly31_verify_lut lut (f[i := v])) = 4"
proof -
  obtain a0 a1 ca b0 b1 cb where f: "f = [a0, a1, ca, b0, b1, cb]"
    using len by (auto simp: length_Suc_conv eval_nat_numeral)
  have ca: "ca = crc8_poly31_word a0 a1" and cb: "cb = crc8_poly31_word b0 b1"
    using ok unfolding f crc8_poly31_verify_lut_def Let_def
    by (auto simp: verify_lut_word [OF lut] split: if_splits)
  have "i = 0 \<or> i = 1 \<or> i = 2 \<or> i = 3 \<or> i = 4 \<or> i = 5"
    using i by linarith
  then show ?thesis
    using d unfolding f crc8_poly31_verify_lut_def Let_def ca cb
    by (auto simp: verify_lut_word [OF lut] crc8_word_eq_iff)
qed

theorem verify_lut_detects_witness:
  "fst (crc8_poly31_verify_lut (crc8_loop 8) ([0, 0, 0x81, 0, 0, 0x81][4 := 1])) = 4"
proof (rule verify_lut_detects)
  show "fst (crc8_poly31_verify_lut (crc8_loop 8) [0, 0, 0x81, 0, 0, 0x81]) = 0"
    by code_simp
qed simp_all

subsection \<open>CRC-16/MODBUS\<close>

text \<open>
  The C code keeps the 16-bit remainder in an \<open>unsigned\<close>; it never leaves the low half, so
  it is a 16-bit word here.
\<close>

definition crc16_shift :: "u16 \<Rightarrow> u16" where
  "crc16_shift c =
     (let lsb = c AND 1; c' = drop_bit 1 c in if lsb \<noteq> 0 then c' XOR 0xA001 else c')"

fun crc16_bits :: "nat \<Rightarrow> u16 \<Rightarrow> u16" where
  "crc16_bits 0 c = c"
| "crc16_bits (Suc i) c = crc16_bits i (crc16_shift c)"

fun ssp_crc16_into :: "bytes \<Rightarrow> u16 \<Rightarrow> u16" where
  "ssp_crc16_into [] c = c"
| "ssp_crc16_into (d # ds) c = ssp_crc16_into ds (crc16_bits 8 (c XOR ucast d))"

lemma crc16_shift_bits:
  "bit (crc16_shift c) n \<longleftrightarrow>
     n < 16 \<and> (bit c (Suc n) \<noteq> (bit c 0 \<and> bit (0xA001 :: u16) n))"
proof -
  have m: "c AND 1 \<noteq> 0 \<longleftrightarrow> bit c 0"
    by (metis and_exp_eq_0_iff_not_bit power_0)
  show ?thesis
    unfolding crc16_shift_def Let_def m
    by (auto simp: bit_simps add.commute dest: bit_imp_le_length)
qed

lemma inj_crc16_shift: "inj crc16_shift"
proof (rule injI)
  fix a b :: u16
  assume e: "crc16_shift a = crc16_shift b"
  have bits: "bit (crc16_shift a) n = bit (crc16_shift b) n" for n
    using e by simp
  have no16: "\<not> bit x 16" for x :: u16
    by (auto dest: bit_imp_le_length)
  have zero: "bit a 0 = bit b 0"
    using bits [of 15] no16 by (simp add: crc16_shift_bits)
  have "bit a n = bit b n" for n
  proof (cases n)
    case 0
    then show ?thesis using zero by simp
  next
    case (Suc k)
    show ?thesis
    proof (cases "k < 16")
      case True
      then show ?thesis
        using bits [of k] zero Suc by (auto simp: crc16_shift_bits)
    next
      case False
      then show ?thesis using Suc by (auto dest: bit_imp_le_length)
    qed
  qed
  then show "a = b" by (intro bit_word_eqI) simp
qed

lemma inj_crc16_bits: "inj (crc16_bits n)"
proof (induction n)
  case 0
  show ?case by (rule injI) simp
next
  case (Suc n)
  have "crc16_bits (Suc n) = crc16_bits n \<circ> crc16_shift"
    by (rule ext) simp
  then show ?case
    using Suc.IH inj_crc16_shift by (simp only: inj_compose)
qed

lemma crc16_bits_eq_iff [simp]: "crc16_bits n a = crc16_bits n b \<longleftrightarrow> a = b"
  using inj_crc16_bits [of n] by (auto dest: injD)

lemma ucast_u8_u16_eq_iff [simp]: "(ucast (a :: u8) :: u16) = ucast b \<longleftrightarrow> a = b"
proof
  assume "(ucast a :: u16) = ucast b"
  then have "(ucast (ucast a :: u16) :: u8) = ucast (ucast b :: u16)" by simp
  then show "a = b" by (simp add: ucast_up_ucast_id is_up)
qed simp

lemma ssp_crc16_append:
  "ssp_crc16_into (xs @ ys) c = ssp_crc16_into ys (ssp_crc16_into xs c)"
  by (induction xs arbitrary: c) auto

lemma ssp_crc16_seed_eq_iff [simp]:
  "ssp_crc16_into xs a = ssp_crc16_into xs b \<longleftrightarrow> a = b"
  by (induction xs arbitrary: a b) auto

lemma crc16_one_byte:
  "ssp_crc16_into (xs @ a # ys) c = ssp_crc16_into (xs @ b # ys) c \<longleftrightarrow> a = b"
  by (simp add: ssp_crc16_append)

lemma crc16_bits_low_zero:
  "(\<And>i. i < n \<Longrightarrow> \<not> bit c i) \<Longrightarrow> crc16_bits n c = drop_bit n c"
proof (induction n arbitrary: c)
  case 0
  then show ?case by simp
next
  case (Suc n)
  have z: "crc16_shift c = drop_bit 1 c"
    using Suc.prems [of 0]
    by (intro bit_word_eqI) (auto simp: crc16_shift_bits bit_simps)
  have "crc16_bits n (drop_bit 1 c) = drop_bit n (drop_bit 1 c)"
    by (rule Suc.IH) (use Suc.prems in \<open>auto simp: bit_simps\<close>)
  then show ?case by (simp add: z ac_simps)
qed

lemma crc16_absorb_self:
  "ssp_crc16_into [ucast c, ucast (drop_bit 8 c)] c = 0"
proof -
  have "crc16_bits 8 (c XOR ucast (ucast c :: u8)) = drop_bit 8 (c XOR ucast (ucast c :: u8))"
    by (rule crc16_bits_low_zero) (auto simp: bit_simps)
  also have "\<dots> = ucast (ucast (drop_bit 8 c) :: u8)"
    by (rule bit_word_eqI) (auto simp: bit_simps dest: bit_imp_le_length)
  finally have one: "crc16_bits 8 (c XOR ucast (ucast c :: u8)) = ucast (ucast (drop_bit 8 c) :: u8)" .
  have "crc16_bits 8 (0 :: u16) = drop_bit 8 0"
    by (rule crc16_bits_low_zero) simp
  then show ?thesis by (simp add: one)
qed

text \<open>
  The receiver runs the checksum over body and trailer and accepts the residue 0.  A body
  followed by its own checksum has that residue, and no other trailer has.
\<close>

lemma crc16_residue:
  "ssp_crc16_into (body @ [ucast c, ucast (drop_bit 8 c)]) seed = 0
     \<longleftrightarrow> c = ssp_crc16_into body seed"
proof
  assume "c = ssp_crc16_into body seed"
  then show "ssp_crc16_into (body @ [ucast c, ucast (drop_bit 8 c)]) seed = 0"
    using crc16_absorb_self [of c] by (simp add: ssp_crc16_append)
next
  assume "ssp_crc16_into (body @ [ucast c, ucast (drop_bit 8 c)]) seed = 0"
  then have "ssp_crc16_into [ucast c, ucast (drop_bit 8 c)] (ssp_crc16_into body seed)
      = ssp_crc16_into [ucast c, ucast (drop_bit 8 c)] c"
    by (simp only: ssp_crc16_append crc16_absorb_self)
  then show "c = ssp_crc16_into body seed"
    by (simp only: ssp_crc16_seed_eq_iff)
qed

end
