(* ===== verification/Ssp.thy ===== *)
theory Ssp
  imports Crc
begin

text \<open>
  The serial protocol between the i.MX8 and the motor controller
  (\<open>main/ride/src/ssp_protocol.c\<close>): building frames, the SLIP byte stuffing, the
  receive loop with its assembly buffer and CRC gate, the dispatch by frame type, the transmit
  queue and the send loop that numbers the frames.

  The object is a record: the transmit queue, the stop flag, the three locals of the receive loop
  (\<open>buf\<close>, \<open>n\<close> and \<open>in_escape\<close>), the counter of the send loop, the
  bytes written to the port and the log of the calls into subscribers, statistics and queue.
  \<open>nsub\<close> is the number of subscribers; \<open>get\<close> is what their
  \<open>handle_get\<close> answers, given the log so far, the index, the opcode and the reply begun.
\<close>

subsection \<open>State\<close>

definition SSP_SLIP_END :: u8 where "SSP_SLIP_END = 0xC0"
definition SSP_SLIP_ESC :: u8 where "SSP_SLIP_ESC = 0xDB"
definition SSP_SLIP_ESC_END :: u8 where "SSP_SLIP_ESC_END = 0xDC"
definition SSP_SLIP_ESC_ESC :: u8 where "SSP_SLIP_ESC_ESC = 0xDD"
definition SSP_FRAME_MAGIC :: u8 where "SSP_FRAME_MAGIC = 0x14"
definition SSP_TYPE_ACK :: u8 where "SSP_TYPE_ACK = 0x05"
definition SSP_TYPE_GET :: u8 where "SSP_TYPE_GET = 0x06"
definition SSP_TYPE_NOTIFY :: u8 where "SSP_TYPE_NOTIFY = 0x07"
definition SSP_CRC16_SEED :: u16 where "SSP_CRC16_SEED = 0xFFFF"

lemmas slip_bytes = SSP_SLIP_END_def SSP_SLIP_ESC_def SSP_SLIP_ESC_END_def SSP_SLIP_ESC_ESC_def
lemmas ssp_types = SSP_TYPE_ACK_def SSP_TYPE_GET_def SSP_TYPE_NOTIFY_def

datatype ssp_event =
    Stat nat
  | Queued bytes
  | HandleGet nat u8 bool
  | HandleNotify nat u8 u16 bytes

record ssp_proto =
  txq :: "bytes list"
  stop :: bool
  rx_buf :: bytes
  rx_n :: nat
  rx_escape :: bool
  seq_counter :: u8
  wire :: bytes
  calls :: "ssp_event list"

type_synonym ssp_get = "ssp_event list \<Rightarrow> nat \<Rightarrow> u8 \<Rightarrow> bytes \<Rightarrow> bool \<times> bytes"

definition emit :: "ssp_event \<Rightarrow> ssp_proto \<Rightarrow> ssp_proto" where
  "emit e p = p\<lparr>calls := calls p @ [e]\<rparr>"

subsection \<open>Building and queueing frames\<close>

definition ssp_frame_append_u16 :: "bytes \<Rightarrow> u16 \<Rightarrow> bytes" where
  "ssp_frame_append_u16 f v = f @ [ucast v] @ [ucast (drop_bit 8 v)]"

definition ssp_frame_append :: "bytes \<Rightarrow> u16 \<Rightarrow> bytes" where
  "ssp_frame_append f v =
     (if length f = 5 then ssp_frame_append_u16 (ssp_frame_append_u16 f 0) v
      else ssp_frame_append_u16 f v)"

definition ssp_frame_begin :: "u16 \<Rightarrow> u8 \<Rightarrow> bytes" where
  "ssp_frame_begin opcode notify =
     ssp_frame_append_u16
       [SSP_FRAME_MAGIC, if notify = 0 then SSP_TYPE_NOTIFY else SSP_TYPE_GET, 0] opcode"

definition ssp_enqueue_frame :: "bytes \<Rightarrow> ssp_proto \<Rightarrow> ssp_proto" where
  "ssp_enqueue_frame f p =
     (let p = emit (Stat 0x20) p in emit (Queued f) (p\<lparr>txq := txq p @ [f]\<rparr>))"

definition ssp_send_ack :: "u8 \<Rightarrow> ssp_proto \<Rightarrow> ssp_proto" where
  "ssp_send_ack ack_seq p = ssp_enqueue_frame [SSP_FRAME_MAGIC, SSP_TYPE_ACK, ack_seq] p"

subsection \<open>Receiving\<close>

text \<open>One round of the loop over the subscribers for a frame of type GET.\<close>

definition ssp_get_one :: "ssp_get \<Rightarrow> u8 \<Rightarrow> u8 \<Rightarrow> nat \<Rightarrow> ssp_proto \<Rightarrow> ssp_proto" where
  "ssp_get_one get opcode seq i p =
     (let reply = ssp_frame_begin (ucast opcode) 0;
          (ok, reply') = get (calls p) i opcode reply;
          p = emit (HandleGet i opcode ok) p
      in if ok then emit (Stat 0x09) (ssp_enqueue_frame reply' (ssp_send_ack seq p))
         else emit (Stat 0x0a) p)"

definition ssp_ack_inflight :: "u8 \<Rightarrow> ssp_proto \<Rightarrow> ssp_proto" where
  "ssp_ack_inflight seq p = emit (Stat 0x19) p"

text \<open>
  The bytes 1 to 6 are read from the assembly buffer whatever the frame length; the payload
  pointer handed to \<open>handle_notify\<close> is the rest of the buffer from offset 7.
\<close>

definition ssp_dispatch_frame :: "ssp_get \<Rightarrow> nat \<Rightarrow> bytes \<Rightarrow> nat \<Rightarrow> ssp_proto \<Rightarrow> ssp_proto" where
  "ssp_dispatch_frame get nsub buf n p =
     (let type = buf ! 1; seq = buf ! 2; opcode = buf ! 3
      in if n < 2 then p
         else if type = SSP_TYPE_GET then
           fold (ssp_get_one get opcode seq) [0..<nsub] p
         else if type = SSP_TYPE_NOTIFY then
           (let len = rd16 (buf ! 5) (buf ! 6);
                p = emit (Stat 0x08) p;
                p = fold (\<lambda>i. emit (HandleNotify i opcode len (drop 7 buf))) [0..<nsub] p
            in ssp_send_ack seq p)
         else if type = SSP_TYPE_ACK then ssp_ack_inflight (buf ! 2) p
         else p)"

text \<open>\<open>buf[n++] = b\<close>: a write behind the 256 bytes of the allocation is undefined.\<close>

definition ssp_put :: "u8 \<Rightarrow> ssp_proto \<Rightarrow> ssp_proto option" where
  "ssp_put b p =
     (if rx_n p < length (rx_buf p)
      then Some (p\<lparr>rx_buf := (rx_buf p)[rx_n p := b], rx_n := rx_n p + 1\<rparr>) else None)"

text \<open>The body of the receive loop after a byte has been read.\<close>

definition ssp_rx_byte :: "ssp_get \<Rightarrow> nat \<Rightarrow> u8 \<Rightarrow> ssp_proto \<Rightarrow> ssp_proto option" where
  "ssp_rx_byte get nsub c p =
     (if rx_escape p then
        (let p = p\<lparr>rx_escape := False\<rparr>
         in if c = SSP_SLIP_ESC_END then ssp_put SSP_SLIP_END p
            else if c = SSP_SLIP_ESC_ESC then ssp_put SSP_SLIP_ESC p
            else Some p)
      else if c = SSP_SLIP_ESC then Some (p\<lparr>rx_escape := True\<rparr>)
      else if c = SSP_SLIP_END then
        (let p = (if rx_n p \<noteq> 0 then
                    (let crc = ssp_crc16_into (take (rx_n p) (rx_buf p)) SSP_CRC16_SEED
                     in if crc = 0 then ssp_dispatch_frame get nsub (rx_buf p) (rx_n p) p else p)
                  else p)
         in Some (p\<lparr>rx_n := 0\<rparr>))
      else ssp_put c p)"

text \<open>
  The loop, driven by the results of the port reads: \<open>None\<close> is the time-out \<open>-1\<close>.
  It ends with the stop flag or with the list of reads.
\<close>

fun ssp_receive_loop :: "ssp_get \<Rightarrow> nat \<Rightarrow> u8 option list \<Rightarrow> ssp_proto \<Rightarrow> ssp_proto option" where
  "ssp_receive_loop get nsub [] p = Some p"
| "ssp_receive_loop get nsub (r # rs) p =
     (if stop p then Some p
      else case r of
        None \<Rightarrow> ssp_receive_loop get nsub rs p
      | Some c \<Rightarrow>
          (case ssp_rx_byte get nsub c p of
             None \<Rightarrow> None
           | Some p' \<Rightarrow> ssp_receive_loop get nsub rs p'))"

subsection \<open>Sending\<close>

definition write_byte :: "u8 \<Rightarrow> ssp_proto \<Rightarrow> ssp_proto" where
  "write_byte b p = p\<lparr>wire := wire p @ [b]\<rparr>"

definition ssp_write_escaped_byte :: "u8 \<Rightarrow> ssp_proto \<Rightarrow> ssp_proto" where
  "ssp_write_escaped_byte b p =
     (if b = SSP_SLIP_END then write_byte SSP_SLIP_ESC_END (write_byte SSP_SLIP_ESC p)
      else if b = SSP_SLIP_ESC then write_byte SSP_SLIP_ESC_ESC (write_byte SSP_SLIP_ESC p)
      else write_byte b p)"

definition ssp_transmit :: "bytes \<Rightarrow> ssp_proto \<Rightarrow> ssp_proto" where
  "ssp_transmit f p =
     (let p = write_byte SSP_SLIP_END p;
          p = fold ssp_write_escaped_byte f p;
          crc = ssp_crc16_into f SSP_CRC16_SEED;
          p = ssp_write_escaped_byte (ucast crc) p;
          p = ssp_write_escaped_byte (ucast (drop_bit 8 crc)) p;
          p = write_byte SSP_SLIP_END p
      in emit (Stat 0x28) p)"

text \<open>
  Numbering of a popped frame: \<open>data[2]\<close> of a two-byte frame is outside the vector.  The
  result is the new counter and the patched frame.
\<close>

definition ssp_stamp :: "u8 \<Rightarrow> bytes \<Rightarrow> (u8 \<times> bytes) option" where
  "ssp_stamp counter f =
     (if 2 \<le> length f \<and> f ! 1 \<noteq> SSP_TYPE_ACK then
        (let counter = counter + 1
         in if length f < 3 then None
            else (let f = f[2 := counter];
                      plen = (of_nat (length f - 7) :: u16)
                  in if 8 \<le> length f
                     then Some (counter, f[5 := ucast plen, 6 := ucast (drop_bit 8 plen)])
                     else Some (counter, f)))
      else Some (counter, f))"

text \<open>One round of the send loop; on an empty queue it waits.\<close>

definition ssp_send_iter :: "ssp_proto \<Rightarrow> ssp_proto option" where
  "ssp_send_iter p =
     (if stop p then Some p
      else case txq p of
        [] \<Rightarrow> Some p
      | f # q \<Rightarrow>
          (case ssp_stamp (seq_counter p) f of
             None \<Rightarrow> None
           | Some (counter, f') \<Rightarrow>
               Some (ssp_transmit f' (p\<lparr>txq := q, seq_counter := counter\<rparr>))))"

subsection \<open>The wire image of a frame\<close>

definition slip :: "u8 \<Rightarrow> bytes" where
  "slip b = (if b = SSP_SLIP_END then [SSP_SLIP_ESC, SSP_SLIP_ESC_END]
             else if b = SSP_SLIP_ESC then [SSP_SLIP_ESC, SSP_SLIP_ESC_ESC] else [b])"

definition with_crc :: "bytes \<Rightarrow> bytes" where
  "with_crc f =
     (let crc = ssp_crc16_into f SSP_CRC16_SEED in f @ [ucast crc, ucast (drop_bit 8 crc)])"

definition on_wire :: "bytes \<Rightarrow> bytes" where
  "on_wire f = SSP_SLIP_END # concat (map slip (with_crc f)) @ [SSP_SLIP_END]"

lemma length_with_crc [simp]: "length (with_crc f) = length f + 2"
  by (simp add: with_crc_def Let_def)

lemma with_crc_residue [simp]: "ssp_crc16_into (with_crc f) SSP_CRC16_SEED = 0"
  by (simp add: with_crc_def Let_def crc16_residue)

lemma write_escaped_wire:
  "ssp_write_escaped_byte b p = p\<lparr>wire := wire p @ slip b\<rparr>"
  by (simp add: ssp_write_escaped_byte_def slip_def write_byte_def)

lemma fold_write_escaped:
  "fold ssp_write_escaped_byte bs p = p\<lparr>wire := wire p @ concat (map slip bs)\<rparr>"
  by (induction bs arbitrary: p) (simp_all add: write_escaped_wire)

lemma ssp_transmit_eq:
  "ssp_transmit f p = p\<lparr>wire := wire p @ on_wire f, calls := calls p @ [Stat 0x28]\<rparr>"
  by (simp add: ssp_transmit_def Let_def fold_write_escaped write_escaped_wire on_wire_def
      with_crc_def write_byte_def emit_def)

text \<open>A frame boundary inside the stuffed bytes is impossible.\<close>

lemma no_end_inside: "SSP_SLIP_END \<notin> set (concat (map slip bs))"
  by (auto simp: slip_def slip_bytes split: if_splits)

subsection \<open>De-stuffing\<close>

definition rx_bytes :: "ssp_get \<Rightarrow> nat \<Rightarrow> bytes \<Rightarrow> ssp_proto \<Rightarrow> ssp_proto option" where
  "rx_bytes get nsub bs p = ssp_receive_loop get nsub (map Some bs) p"

definition store_at :: "nat \<Rightarrow> bytes \<Rightarrow> bytes \<Rightarrow> bytes" where
  "store_at n bs buf = take n buf @ bs @ drop (n + length bs) buf"

lemma length_store_at [simp]: "n + length bs \<le> length buf \<Longrightarrow> length (store_at n bs buf) = length buf"
  by (simp add: store_at_def)

lemma take_store_at: "n + length bs \<le> length buf \<Longrightarrow> take (n + length bs) (store_at n bs buf) = take n buf @ bs"
  by (simp add: store_at_def)

lemma store_at_Cons:
  "n + length (b # bs) \<le> length buf \<Longrightarrow>
     store_at (n + 1) bs (buf[n := b]) = store_at n (b # bs) buf"
  by (simp add: store_at_def take_Suc_conv_app_nth upd_conv_take_nth_drop min_def ac_simps)

text \<open>
  Running the loop over one byte; with the stop flag set nothing more is read.
\<close>

lemma rx_bytes_Nil [simp]: "rx_bytes get nsub [] p = Some p"
  by (simp add: rx_bytes_def)

lemma rx_bytes_Cons:
  "\<not> stop p \<Longrightarrow> rx_bytes get nsub (c # cs) p =
     (case ssp_rx_byte get nsub c p of None \<Rightarrow> None | Some p' \<Rightarrow> rx_bytes get nsub cs p')"
  by (simp add: rx_bytes_def split: option.split)

lemma rx_slip_byte:
  assumes "\<not> stop p" "\<not> rx_escape p" "rx_n p < length (rx_buf p)"
  shows "rx_bytes get nsub (slip b @ cs) p =
     rx_bytes get nsub cs (p\<lparr>rx_buf := (rx_buf p)[rx_n p := b], rx_n := rx_n p + 1\<rparr>)"
  using assms
  by (cases p) (simp add: slip_def rx_bytes_Cons ssp_rx_byte_def ssp_put_def Let_def slip_bytes)

lemma rx_slip:
  assumes "\<not> stop p" "\<not> rx_escape p" "rx_n p + length bs \<le> length (rx_buf p)"
  shows "rx_bytes get nsub (concat (map slip bs) @ cs) p =
     rx_bytes get nsub cs (p\<lparr>rx_buf := store_at (rx_n p) bs (rx_buf p), rx_n := rx_n p + length bs\<rparr>)"
  using assms
proof (induction bs arbitrary: p)
  case Nil
  then show ?case by (cases p) (simp add: store_at_def)
next
  case (Cons b bs)
  let ?p = "p\<lparr>rx_buf := (rx_buf p)[rx_n p := b], rx_n := rx_n p + 1\<rparr>"
  have "rx_bytes get nsub (concat (map slip (b # bs)) @ cs) p
      = rx_bytes get nsub (concat (map slip bs) @ cs) ?p"
    using Cons.prems rx_slip_byte [of p get nsub b "concat (map slip bs) @ cs"] by simp
  also have "\<dots> = rx_bytes get nsub cs
      (?p\<lparr>rx_buf := store_at (rx_n ?p) bs (rx_buf ?p), rx_n := rx_n ?p + length bs\<rparr>)"
    using Cons.prems by (intro Cons.IH) auto
  also have "\<dots> = rx_bytes get nsub cs
      (p\<lparr>rx_buf := store_at (rx_n p) (b # bs) (rx_buf p), rx_n := rx_n p + length (b # bs)\<rparr>)"
    using Cons.prems store_at_Cons [of "rx_n p" b bs "rx_buf p"] by (cases p) simp
  finally show ?case .
qed

text \<open>The state of a receiver that waits for a frame: nothing assembled, no escape pending.\<close>

definition rx_idle :: "ssp_proto \<Rightarrow> bool" where
  "rx_idle p \<longleftrightarrow> \<not> stop p \<and> \<not> rx_escape p \<and> rx_n p = 0 \<and> length (rx_buf p) = 256"

lemma rx_idle_end: "rx_idle p \<Longrightarrow> rx_bytes get nsub (SSP_SLIP_END # cs) p = rx_bytes get nsub cs p"
  by (cases p) (simp add: rx_idle_def rx_bytes_Cons ssp_rx_byte_def slip_bytes)

text \<open>
  A delimited run of stuffed bytes \<open>bs\<close> that fits the buffer is dispatched exactly when its
  residue is zero.
\<close>

definition rx_delivered :: "ssp_get \<Rightarrow> nat \<Rightarrow> bytes \<Rightarrow> ssp_proto \<Rightarrow> ssp_proto" where
  "rx_delivered get nsub bs p =
     (let buf = bs @ drop (length bs) (rx_buf p);
          p1 = p\<lparr>rx_buf := buf, rx_n := length bs\<rparr>
      in (if bs \<noteq> [] \<and> ssp_crc16_into bs SSP_CRC16_SEED = 0
          then ssp_dispatch_frame get nsub buf (length bs) p1 else p1)\<lparr>rx_n := 0\<rparr>)"

lemma rx_delimited:
  assumes "rx_idle p" "length bs \<le> 256"
  shows "rx_bytes get nsub (SSP_SLIP_END # concat (map slip bs) @ [SSP_SLIP_END]) p
       = Some (rx_delivered get nsub bs p)"
proof -
  have i: "\<not> stop p" "\<not> rx_escape p" "rx_n p = 0" "length (rx_buf p) = 256"
    using assms(1) by (auto simp: rx_idle_def)
  have "rx_bytes get nsub (SSP_SLIP_END # concat (map slip bs) @ [SSP_SLIP_END]) p
      = rx_bytes get nsub [SSP_SLIP_END] (p\<lparr>rx_buf := bs @ drop (length bs) (rx_buf p), rx_n := length bs\<rparr>)"
    using assms i by (simp add: rx_idle_end rx_slip store_at_def)
  also have "\<dots> = Some (rx_delivered get nsub bs p)"
    using i by (simp add: rx_bytes_Cons ssp_rx_byte_def rx_delivered_def Let_def slip_bytes)
  finally show ?thesis .
qed

lemma on_wire_delivered:
  assumes "rx_idle p" "length f \<le> 254"
  shows "rx_bytes get nsub (on_wire f) p = Some (rx_delivered get nsub (with_crc f) p)"
  using assms unfolding on_wire_def by (intro rx_delimited) auto

subsection \<open>Dispatch\<close>

lemma emit_fields [simp]:
  "calls (emit e p) = calls p @ [e]" "txq (emit e p) = txq p" "wire (emit e p) = wire p"
  "stop (emit e p) = stop p" "rx_n (emit e p) = rx_n p" "rx_buf (emit e p) = rx_buf p"
  "rx_escape (emit e p) = rx_escape p" "seq_counter (emit e p) = seq_counter p"
  by (simp_all add: emit_def)

lemma ssp_enqueue_fields [simp]:
  "txq (ssp_enqueue_frame f p) = txq p @ [f]"
  "calls (ssp_enqueue_frame f p) = calls p @ [Stat 0x20, Queued f]"
  "wire (ssp_enqueue_frame f p) = wire p" "stop (ssp_enqueue_frame f p) = stop p"
  "rx_n (ssp_enqueue_frame f p) = rx_n p" "rx_buf (ssp_enqueue_frame f p) = rx_buf p"
  "rx_escape (ssp_enqueue_frame f p) = rx_escape p"
  "seq_counter (ssp_enqueue_frame f p) = seq_counter p"
  by (simp_all add: ssp_enqueue_frame_def Let_def)

text \<open>
  What every handler on the receiving side keeps: the frames it queues are appended to the
  transmit queue and logged, and neither the wire nor the receiver's locals change.
\<close>

fun queued :: "ssp_event list \<Rightarrow> bytes list" where
  "queued [] = []"
| "queued (Queued f # es) = f # queued es"
| "queued (Stat i # es) = queued es"
| "queued (HandleGet i x ok # es) = queued es"
| "queued (HandleNotify i x len bs # es) = queued es"

lemma queued_append [simp]: "queued (es @ es') = queued es @ queued es'"
  by (induction es rule: queued.induct) auto

definition ssp_handled :: "ssp_proto \<Rightarrow> ssp_proto \<Rightarrow> bool" where
  "ssp_handled p p' \<longleftrightarrow>
     (\<exists>fs. txq p' = txq p @ fs \<and> queued (calls p') = queued (calls p) @ fs) \<and>
     wire p' = wire p \<and> stop p' = stop p \<and> rx_n p' = rx_n p \<and> rx_buf p' = rx_buf p \<and>
     rx_escape p' = rx_escape p \<and> seq_counter p' = seq_counter p"

lemma ssp_handled_refl [intro, simp]: "ssp_handled p p"
  by (simp add: ssp_handled_def)

lemma ssp_handled_trans [trans]: "ssp_handled p q \<Longrightarrow> ssp_handled q r \<Longrightarrow> ssp_handled p r"
  by (auto simp: ssp_handled_def)

lemma ssp_handled_fold:
  "(\<And>i q. ssp_handled q (g i q)) \<Longrightarrow> ssp_handled p (fold g xs p)"
  by (induction xs arbitrary: p) (auto intro: ssp_handled_trans)

lemma ssp_handled_emit: "queued [e] = [] \<Longrightarrow> ssp_handled p (emit e p)"
  by (simp add: ssp_handled_def)

lemma ssp_handled_enqueue: "ssp_handled p (ssp_enqueue_frame f p)"
  by (simp add: ssp_handled_def)

lemma ssp_handled_ack: "ssp_handled p (ssp_send_ack s p)"
  by (simp add: ssp_send_ack_def ssp_handled_enqueue)

lemmas ssp_handled_rules = ssp_handled_emit ssp_handled_enqueue ssp_handled_ack

lemma ssp_handled_get: "ssp_handled p (ssp_get_one get x s i p)"
  unfolding ssp_get_one_def Let_def
  by (auto split: prod.split simp: ssp_send_ack_def ssp_handled_def)

lemma ssp_handled_dispatch: "ssp_handled p (ssp_dispatch_frame get nsub buf n p)"
proof -
  have fan: "ssp_handled p (ssp_send_ack s (fold (\<lambda>i. emit (HandleNotify i x len pl)) js (emit (Stat 8) p)))"
    for s x len pl js
  proof -
    have "ssp_handled p (emit (Stat 8) p)" by (rule ssp_handled_emit) simp
    also have "ssp_handled \<dots> (fold (\<lambda>i. emit (HandleNotify i x len pl)) js (emit (Stat 8) p))"
      by (rule ssp_handled_fold) (rule ssp_handled_emit, simp)
    also note ssp_handled_ack
    finally show ?thesis .
  qed
  show ?thesis
    unfolding ssp_dispatch_frame_def Let_def
    by (auto simp: ssp_ack_inflight_def intro: fan ssp_handled_fold ssp_handled_get ssp_handled_emit)
qed

lemma rx_idle_delivered:
  assumes "rx_idle p" "length bs \<le> 256"
  shows "rx_idle (rx_delivered get nsub bs p)"
  using assms ssp_handled_dispatch
    [of "p\<lparr>rx_buf := bs @ drop (length bs) (rx_buf p), rx_n := length bs\<rparr>" get nsub
        "bs @ drop (length bs) (rx_buf p)" "length bs"]
  by (auto simp: rx_delivered_def Let_def rx_idle_def ssp_handled_def)

lemma fold_emit: "fold (\<lambda>i. emit (g i)) is p = p\<lparr>calls := calls p @ map g is\<rparr>"
  by (induction "is" arbitrary: p) (simp_all add: emit_def)

lemma dispatch_notify:
  "b ! 1 = SSP_TYPE_NOTIFY \<Longrightarrow> 2 \<le> n \<Longrightarrow>
     ssp_dispatch_frame get nsub b n p =
     p\<lparr>txq := txq p @ [[SSP_FRAME_MAGIC, SSP_TYPE_ACK, b ! 2]],
       calls := calls p @ [Stat 0x08] @
         map (\<lambda>i. HandleNotify i (b ! 3) (rd16 (b ! 5) (b ! 6)) (drop 7 b)) [0..<nsub] @
         [Stat 0x20, Queued [SSP_FRAME_MAGIC, SSP_TYPE_ACK, b ! 2]]\<rparr>"
  by (simp add: ssp_dispatch_frame_def ssp_types fold_emit ssp_send_ack_def ssp_enqueue_frame_def
      emit_def Let_def)

text \<open>A frame of type NOTIFY that passed the gate.\<close>

lemma rx_delivered_notify:
  assumes f: "f ! 1 = SSP_TYPE_NOTIFY" "7 \<le> length f"
  defines "buf p \<equiv> with_crc f @ drop (length f + 2) (rx_buf p)"
  shows "rx_delivered get nsub (with_crc f) p =
     p\<lparr>rx_buf := buf p, rx_n := 0, txq := txq p @ [[SSP_FRAME_MAGIC, SSP_TYPE_ACK, f ! 2]],
       calls := calls p @ [Stat 0x08] @
         map (\<lambda>i. HandleNotify i (f ! 3) (rd16 (f ! 5) (f ! 6)) (drop 7 (buf p))) [0..<nsub] @
         [Stat 0x20, Queued [SSP_FRAME_MAGIC, SSP_TYPE_ACK, f ! 2]]\<rparr>"
proof -
  have at: "buf p ! i = f ! i" if "i < length f" for i
    using that by (simp add: buf_def with_crc_def Let_def nth_append)
  have b1: "buf p ! 1 = SSP_TYPE_NOTIFY" and n2: "2 \<le> length (with_crc f)"
    using f at [of 1] by simp_all
  have ne: "with_crc f \<noteq> []" by (simp add: with_crc_def Let_def)
  have buf: "with_crc f @ drop (length (with_crc f)) (rx_buf p) = buf p"
    by (simp add: buf_def)
  show ?thesis
    unfolding rx_delivered_def Let_def buf dispatch_notify [OF b1 n2]
    using f at [of 2] at [of 3] at [of 5] at [of 6] by (simp add: ne)
qed

lemma ssp_stamp_notify:
  assumes "f ! 1 = SSP_TYPE_NOTIFY" "8 \<le> length f"
  shows "ssp_stamp c f = Some (c + 1, f[2 := c + 1, 5 := ucast (of_nat (length f - 7) :: u16),
           6 := ucast (drop_bit 8 (of_nat (length f - 7) :: u16))])"
  using assms by (simp add: ssp_stamp_def ssp_types Let_def)

lemma rd16_split: "rd16 (ucast v) (ucast (drop_bit 8 v)) = v"
  by (rule bit_word_eqI) (auto simp: rd16_def bit_simps)

text \<open>One frame over the wire: the core that the property below and the ride strategy share.\<close>

lemma notify_delivered:
  assumes s: "\<not> stop s" "txq s = f # q" and f: "f ! 1 = SSP_TYPE_NOTIFY" "8 \<le> length f" "length f \<le> 254"
    and r: "rx_idle r"
  shows "\<exists>s' r' w pad. ssp_send_iter s = Some s' \<and> txq s' = q \<and> wire s' = wire s @ w \<and>
     rx_bytes get nsub w r = Some r' \<and> rx_idle r' \<and>
     txq r' = txq r @ [[SSP_FRAME_MAGIC, SSP_TYPE_ACK, seq_counter s + 1]] \<and>
     calls r' = calls r @ [Stat 0x08] @
       map (\<lambda>i. HandleNotify i (f ! 3) (of_nat (length f - 7)) (drop 7 f @ pad)) [0..<nsub] @
       [Stat 0x20, Queued [SSP_FRAME_MAGIC, SSP_TYPE_ACK, seq_counter s + 1]]"
proof -
  define c where "c = seq_counter s + 1"
  define len where "len = (of_nat (length f - 7) :: u16)"
  define g where "g = f[2 := c, 5 := ucast len, 6 := ucast (drop_bit 8 len)]"
  have send: "ssp_send_iter s = Some (ssp_transmit g (s\<lparr>txq := q, seq_counter := c\<rparr>))"
    using s f by (simp add: ssp_send_iter_def ssp_stamp_notify g_def len_def c_def)
  have g: "length g = length f" "g ! 1 = SSP_TYPE_NOTIFY" "g ! 2 = c" "g ! 3 = f ! 3"
    "rd16 (g ! 5) (g ! 6) = len" "drop 7 g = drop 7 f"
    using f by (simp_all add: g_def rd16_split)
  let ?r = "rx_delivered get nsub (with_crc g) r"
  obtain t where t: "with_crc g = g @ t" by (simp add: with_crc_def Let_def)
  define pad where "pad = t @ drop (length g + 2) (rx_buf r)"
  have rx: "rx_bytes get nsub (on_wire g) r = Some ?r"
    using on_wire_delivered [OF r] f g by simp
  have pad: "drop 7 (with_crc g @ drop (length g + 2) (rx_buf r)) = drop 7 f @ pad"
    using f(2) g(1,6) by (simp add: t pad_def)
  have "7 \<le> length g" using f g by simp
  note d = rx_delivered_notify [OF g(2) this, of get nsub r]
  have "rx_idle ?r"
    using r f g by (intro rx_idle_delivered) auto
  moreover have "txq ?r = txq r @ [[SSP_FRAME_MAGIC, SSP_TYPE_ACK, c]]"
    by (simp add: d g)
  moreover have "calls ?r = calls r @ [Stat 0x08] @
       map (\<lambda>i. HandleNotify i (f ! 3) len (drop 7 f @ pad)) [0..<nsub] @
       [Stat 0x20, Queued [SSP_FRAME_MAGIC, SSP_TYPE_ACK, c]]"
    using pad by (simp add: d g(3-5))
  ultimately show ?thesis
    using send rx by (auto simp: ssp_transmit_eq c_def len_def)
qed

text \<open>
  C2.  A NOTIFY frame of 8 to 254 bytes that the send loop takes from its
  queue and writes to the wire is delivered by a waiting receiver: every subscriber gets the
  opcode, the true payload length and the payload, in order, exactly one ACK with the sender's
  new sequence number is queued, and the receiver waits for the next frame. Escaping, checksum,
  length field and de-stuffing are all part of the statement.
\<close>

theorem notify_roundtrip:
  assumes s: "\<not> stop s" "txq s = f # q" and f: "f ! 1 = SSP_TYPE_NOTIFY" "8 \<le> length f" "length f \<le> 254"
    and r: "rx_idle r"
  shows "\<exists>s' r' w pad. ssp_send_iter s = Some s' \<and> txq s' = q \<and> wire s' = wire s @ w \<and>
     rx_bytes get nsub w r = Some r' \<and> rx_idle r' \<and>
     txq r' = txq r @ [[SSP_FRAME_MAGIC, SSP_TYPE_ACK, seq_counter s + 1]] \<and>
     calls r' = calls r @ [Stat 0x08] @
       map (\<lambda>i. HandleNotify i (f ! 3) (of_nat (length f - 7)) (drop 7 f @ pad)) [0..<nsub] @
       [Stat 0x20, Queued [SSP_FRAME_MAGIC, SSP_TYPE_ACK, seq_counter s + 1]]"
  by (rule notify_delivered [OF s f r])

definition demo_rx :: ssp_proto where
  "demo_rx = \<lparr>txq = [], stop = False, rx_buf = replicate 256 0, rx_n = 0, rx_escape = False,
     seq_counter = 0, wire = [], calls = []\<rparr>"

theorem notify_roundtrip_witness:
  "\<exists>s' r' w pad. ssp_send_iter (demo_rx\<lparr>txq := [[0x14, 7, 0, 0xC0, 0, 0, 0, 0xDB]]\<rparr>) = Some s' \<and>
     txq s' = [] \<and> wire s' = [] @ w \<and>
     rx_bytes (\<lambda>_ _ _ r. (False, r)) 2 w demo_rx = Some r' \<and> rx_idle r' \<and>
     txq r' = [] @ [[SSP_FRAME_MAGIC, SSP_TYPE_ACK, 0 + 1]] \<and>
     calls r' = [] @ [Stat 0x08] @
       map (\<lambda>i. HandleNotify i 0xC0 1 ([0xDB] @ pad)) [0..<2] @
       [Stat 0x20, Queued [SSP_FRAME_MAGIC, SSP_TYPE_ACK, 0 + 1]]"
  using notify_roundtrip [of "demo_rx\<lparr>txq := [[0x14, 7, 0, 0xC0, 0, 0, 0, 0xDB]]\<rparr>"
      "[0x14, 7, 0, 0xC0, 0, 0, 0, 0xDB]" "[]" demo_rx "\<lambda>_ _ _ r. (False, r)" 2]
  by (simp add: demo_rx_def rx_idle_def ssp_types)

text \<open>
  C21.  A frame of which one byte (body or trailer, before stuffing) is
  changed on the way is dropped without any effect but on the assembly buffer: no subscriber is
  called, nothing is queued and the receiver waits for the next frame.
\<close>

theorem corrupt_frame_dropped:
  assumes "rx_idle p" "length f \<le> 254" "i < length f + 2" "v \<noteq> with_crc f ! i"
    "bs = (with_crc f)[i := v]"
  shows "\<exists>p'. rx_bytes get nsub (SSP_SLIP_END # concat (map slip bs) @ [SSP_SLIP_END]) p = Some p' \<and>
     rx_idle p' \<and> calls p' = calls p \<and> txq p' = txq p \<and> wire p' = wire p"
proof -
  let ?g = "with_crc f"
  have i: "i < length ?g" using assms by simp
  have "ssp_crc16_into bs SSP_CRC16_SEED
      \<noteq> ssp_crc16_into (take i ?g @ ?g ! i # drop (Suc i) ?g) SSP_CRC16_SEED"
    using assms(4) unfolding assms(5) upd_conv_take_nth_drop [OF i] crc16_one_byte .
  also have "take i ?g @ ?g ! i # drop (Suc i) ?g = ?g"
    using i by (simp add: id_take_nth_drop [symmetric])
  finally have "ssp_crc16_into bs SSP_CRC16_SEED \<noteq> 0" by simp
  then have d: "rx_delivered get nsub bs p
      = p\<lparr>rx_buf := bs @ drop (length bs) (rx_buf p), rx_n := 0\<rparr>"
    by (simp add: rx_delivered_def Let_def)
  have "length bs \<le> 256" using assms by simp
  then show ?thesis
    using rx_delimited [OF assms(1), of bs get nsub] rx_idle_delivered [OF assms(1), of bs get nsub]
    by (simp add: d)
qed

theorem corrupt_frame_dropped_witness:
  "\<exists>p'. rx_bytes (\<lambda>_ _ _ r. (True, r)) 1
       (SSP_SLIP_END # concat (map slip ((with_crc [0x14, 5, 1])[2 := 3])) @ [SSP_SLIP_END]) demo_rx = Some p' \<and>
     rx_idle p' \<and> calls p' = calls demo_rx \<and> txq p' = txq demo_rx \<and> wire p' = wire demo_rx"
  by (rule corrupt_frame_dropped [of demo_rx "[0x14, 5, 1]" 2 3])
    (simp_all add: demo_rx_def rx_idle_def with_crc_def Let_def)

lemma rx_slip_overflow:
  assumes "\<not> stop p" "\<not> rx_escape p" "rx_n p + length bs > length (rx_buf p)"
    "rx_n p \<le> length (rx_buf p)"
  shows "rx_bytes get nsub (concat (map slip bs) @ cs) p = None"
proof -
  define k where "k = length (rx_buf p) - rx_n p"
  have k: "k < length bs" "rx_n p + k = length (rx_buf p)" using assms by (auto simp: k_def)
  define xs where "xs = take k bs"
  obtain b ys where bs: "bs = xs @ b # ys" "length xs = k"
    using k id_take_nth_drop [of k bs] by (auto simp: xs_def)
  let ?p = "p\<lparr>rx_buf := store_at (rx_n p) xs (rx_buf p), rx_n := rx_n p + k\<rparr>"
  have "rx_bytes get nsub (concat (map slip bs) @ cs) p
      = rx_bytes get nsub (slip b @ concat (map slip ys) @ cs) ?p"
    using assms k bs rx_slip [of p xs get nsub "slip b @ concat (map slip ys) @ cs"] by simp
  also have "\<dots> = None"
    using assms k bs(2)
    by (cases p) (simp add: slip_def rx_bytes_Cons ssp_rx_byte_def ssp_put_def Let_def slip_bytes)
  finally show ?thesis .
qed

text \<open>
  The receive loop has no check against the 256 bytes of its assembly
  buffer: a wire frame is received without writing behind the buffer exactly when its body has
  at most 254 bytes.
\<close>

theorem receive_capacity:
  assumes "rx_idle p"
  shows "rx_bytes get nsub (on_wire f) p \<noteq> None \<longleftrightarrow> length f \<le> 254"
proof (cases "length f \<le> 254")
  case True
  then show ?thesis using on_wire_delivered [OF assms] by simp
next
  case False
  have "rx_bytes get nsub (on_wire f) p = None"
    using assms False unfolding on_wire_def
    by (subst rx_idle_end [OF assms]) (rule rx_slip_overflow, auto simp: rx_idle_def)
  then show ?thesis using False by simp
qed

theorem receive_capacity_witness:
  "rx_bytes (\<lambda>_ _ _ r. (True, r)) 1 (on_wire (replicate 300 7)) demo_rx \<noteq> None
     \<longleftrightarrow> length (replicate 300 (7 :: u8)) \<le> 254"
  by (rule receive_capacity) (simp add: demo_rx_def rx_idle_def)

subsection \<open>The two threads together\<close>

text \<open>
  The receive thread, the send thread and the callers of \<open>ssp_enqueue_frame\<close> interleave;
  the queue mutex makes each of these steps atomic with respect to the others.
\<close>

inductive ssp_step :: "ssp_get \<Rightarrow> nat \<Rightarrow> ssp_proto \<Rightarrow> ssp_proto \<Rightarrow> bool" for get nsub where
  rx: "\<not> stop p \<Longrightarrow> ssp_rx_byte get nsub c p = Some p' \<Longrightarrow> ssp_step get nsub p p'"
| tx: "ssp_send_iter p = Some p' \<Longrightarrow> ssp_step get nsub p p'"
| client: "ssp_step get nsub p (ssp_enqueue_frame f p)"
| request_stop: "ssp_step get nsub p (p\<lparr>stop := True\<rparr>)"

definition ssp_started :: "ssp_proto \<Rightarrow> bool" where
  "ssp_started p \<longleftrightarrow> txq p = [] \<and> wire p = [] \<and> calls p = [] \<and> seq_counter p = 0 \<and>
     rx_n p = 0 \<and> length (rx_buf p) = 256"

text \<open>Stamping a list of frames in order; \<open>numbered\<close> frames are those that are not ACKs.\<close>

fun ssp_stamps :: "u8 \<Rightarrow> bytes list \<Rightarrow> (u8 \<times> bytes list) option" where
  "ssp_stamps c [] = Some (c, [])"
| "ssp_stamps c (f # fs) =
     (case ssp_stamp c f of None \<Rightarrow> None
      | Some (c', f') \<Rightarrow> map_option (\<lambda>(d, gs). (d, f' # gs)) (ssp_stamps c' fs))"

definition numbered :: "bytes \<Rightarrow> bool" where
  "numbered f \<longleftrightarrow> 2 \<le> length f \<and> f ! 1 \<noteq> SSP_TYPE_ACK"

lemma ssp_stamps_snoc:
  "ssp_stamps c (fs @ [f]) =
     (case ssp_stamps c fs of None \<Rightarrow> None
      | Some (c', gs) \<Rightarrow> map_option (\<lambda>(d, g). (d, gs @ [g])) (ssp_stamp c' f))"
  by (induction fs arbitrary: c)
    (auto simp: map_option_case split: option.split prod.split)

lemma ssp_stamp_counter:
  "ssp_stamp c f = Some (d, g) \<Longrightarrow> d = (if numbered f then c + 1 else c) \<and> (numbered f \<longrightarrow> g ! 2 = d)"
  by (auto simp: ssp_stamp_def numbered_def Let_def split: if_splits)

lemma ssp_stamps_counter:
  "ssp_stamps c fs = Some (d, gs) \<Longrightarrow> d = c + of_nat (length (filter numbered fs))"
proof (induction fs arbitrary: c gs)
  case Nil
  then show ?case by simp
next
  case (Cons f fs)
  then obtain c' f' gs' where st: "ssp_stamp c f = Some (c', f')" "ssp_stamps c' fs = Some (d, gs')"
    by (auto split: option.splits prod.splits)
  show ?case
    using Cons.IH [OF st(2)] ssp_stamp_counter [OF st(1)] by simp
qed

definition ssp_inv :: "ssp_proto \<Rightarrow> bool" where
  "ssp_inv p \<longleftrightarrow> rx_n p \<le> length (rx_buf p) \<and> length (rx_buf p) = 256 \<and>
     (\<exists>sent gs. queued (calls p) = sent @ txq p \<and> ssp_stamps 0 sent = Some (seq_counter p, gs) \<and>
        wire p = concat (map on_wire gs))"

lemma ssp_inv_handled: "ssp_handled p p' \<Longrightarrow> ssp_inv p \<Longrightarrow> ssp_inv p'"
  by (fastforce simp: ssp_handled_def ssp_inv_def)

lemma ssp_inv_locals:
  "ssp_inv p \<Longrightarrow> length b = 256 \<Longrightarrow> n \<le> 256 \<Longrightarrow> ssp_inv (p\<lparr>rx_buf := b, rx_n := n, rx_escape := e\<rparr>)"
  by (simp add: ssp_inv_def)

lemma ssp_inv_put: "ssp_put b p = Some p' \<Longrightarrow> ssp_inv p \<Longrightarrow> ssp_inv p'"
  by (auto simp: ssp_put_def ssp_inv_def split: if_splits)

lemma ssp_inv_escape: "ssp_inv p \<Longrightarrow> ssp_inv (p\<lparr>rx_escape := e\<rparr>)"
  by (simp add: ssp_inv_def)

lemma ssp_inv_n0: "ssp_inv p \<Longrightarrow> ssp_inv (p\<lparr>rx_n := 0\<rparr>)"
  by (simp add: ssp_inv_def)

lemma ssp_inv_rx:
  assumes "ssp_rx_byte get nsub c p = Some p'" "ssp_inv p"
  shows "ssp_inv p'"
  using assms unfolding ssp_rx_byte_def Let_def
  by (auto split: if_splits elim!: ssp_inv_put
      intro: ssp_inv_escape ssp_inv_n0 ssp_inv_handled [OF ssp_handled_dispatch])

lemma ssp_inv_send:
  assumes "ssp_send_iter p = Some p'" "ssp_inv p"
  shows "ssp_inv p'"
proof (cases "stop p \<or> txq p = []")
  case True
  then show ?thesis using assms by (auto simp: ssp_send_iter_def split: if_splits)
next
  case False
  then obtain f q where q: "txq p = f # q" and run: "\<not> stop p" by (cases "txq p") auto
  then obtain d g where st: "ssp_stamp (seq_counter p) f = Some (d, g)"
    and p': "p' = ssp_transmit g (p\<lparr>txq := q, seq_counter := d\<rparr>)"
    using assms(1) by (auto simp: ssp_send_iter_def split: option.splits prod.splits)
  obtain sent gs where i: "queued (calls p) = sent @ txq p"
    "ssp_stamps 0 sent = Some (seq_counter p, gs)" "wire p = concat (map on_wire gs)"
    using assms(2) by (auto simp: ssp_inv_def)
  have "queued (calls p') = (sent @ [f]) @ txq p'"
    "ssp_stamps 0 (sent @ [f]) = Some (seq_counter p', gs @ [g])"
    "wire p' = concat (map on_wire (gs @ [g]))"
    using i q st by (simp_all add: p' ssp_transmit_eq ssp_stamps_snoc)
  then show ?thesis
    using assms(2) unfolding ssp_inv_def by (auto simp: p' ssp_transmit_eq)
qed

lemma ssp_inv_step: "ssp_step get nsub p p' \<Longrightarrow> ssp_inv p \<Longrightarrow> ssp_inv p'"
proof (induction rule: ssp_step.induct)
  case (request_stop p)
  then show ?case by (simp add: ssp_inv_def)
qed (auto intro: ssp_inv_rx ssp_inv_send ssp_inv_handled [OF ssp_handled_enqueue])

lemma ssp_inv_steps: "(ssp_step get nsub)\<^sup>*\<^sup>* p p' \<Longrightarrow> ssp_inv p \<Longrightarrow> ssp_inv p'"
  by (induction rule: rtranclp_induct) (auto intro: ssp_inv_step)

text \<open>
  However the two threads and the callers interleave, the wire carries
  the stuffed images of a prefix of the frames ever queued, in the order they were queued, each
  stamped in that order; the rest is still in the queue, the sequence counter is the number of
  frames sent that are not ACKs modulo 256, and the assembly index stays in range.
\<close>

theorem wire_in_queue_order:
  assumes "ssp_started p0" "(ssp_step get nsub)\<^sup>*\<^sup>* p0 p"
  shows "\<exists>sent gs. queued (calls p) = sent @ txq p \<and> ssp_stamps 0 sent = Some (seq_counter p, gs) \<and>
     wire p = concat (map on_wire gs) \<and> seq_counter p = of_nat (length (filter numbered sent)) \<and>
     rx_n p \<le> 256"
proof -
  have "ssp_inv p0" using assms(1) by (simp add: ssp_started_def ssp_inv_def)
  then have "ssp_inv p" using assms(2) by (blast intro: ssp_inv_steps)
  then obtain sent gs where "queued (calls p) = sent @ txq p"
    and st: "ssp_stamps 0 sent = Some (seq_counter p, gs)"
    and "wire p = concat (map on_wire gs)" "rx_n p \<le> 256"
    by (auto simp: ssp_inv_def)
  then show ?thesis
    using ssp_stamps_counter [OF st] by auto
qed

theorem wire_in_queue_order_witness:
  "\<exists>sent gs. queued (calls (ssp_enqueue_frame [1] demo_rx)) = sent @ txq (ssp_enqueue_frame [1] demo_rx) \<and>
     ssp_stamps 0 sent = Some (seq_counter (ssp_enqueue_frame [1] demo_rx), gs) \<and>
     wire (ssp_enqueue_frame [1] demo_rx) = concat (map on_wire gs) \<and>
     seq_counter (ssp_enqueue_frame [1] demo_rx) = of_nat (length (filter numbered sent)) \<and>
     rx_n (ssp_enqueue_frame [1] demo_rx) \<le> 256"
  by (rule wire_in_queue_order [of demo_rx "\<lambda>_ _ _ r. (True, r)" 1])
    (auto simp: ssp_started_def demo_rx_def intro: ssp_step.client)

end
