(* ===== verification/SpiFrame.thy ===== *)
theory SpiFrame
  imports Prelude
begin

text \<open>
  The SPI side of the i.MX8 bridge (\<open>imx8_bridge/src/spi_frame.c\<close>) and its CAN
  message builder (\<open>imx8_bridge/src/can_tx.c\<close>): 13-byte frames with a session id, a
  flag and sequence byte, a length byte and up to eight payload bytes; streaming of long payloads
  in chunks; the pointer-ring channel with its allocation guard and its enqueue from interrupts;
  and the queue dispatcher.

  The frames handed to the send functions of the SPI object are the list of written frames.
  Pointers are 32-bit addresses where the code compares or computes them.
\<close>

subsection \<open>Frames\<close>

definition SPI_FRAME_LEN :: nat where "SPI_FRAME_LEN = 13"
definition SPI_FRAME_FLAG :: u8 where "SPI_FRAME_FLAG = 0x10"
definition SPI_CHUNK_MAX :: nat where "SPI_CHUNK_MAX = 8"

record spi_session =
  data_mem :: bytes
  total_bytes :: u32
  session_id :: u32
  mode :: u8
  payload :: bytes
  payload_len :: u32

definition next_seq :: "u8 \<Rightarrow> u8 \<Rightarrow> u8" where
  "next_seq m b =
     (if m = 2 then (b AND 0xF0) OR ((b + 1) AND 0x0F)
      else (b AND 0xF8) OR ((b + 1) AND 0x07))"

text \<open>
  The chunk loop, from \<open>remaining\<close> and \<open>offset\<close> on.  It returns the frames
  written; \<open>None\<close> is a read behind the payload memory.
\<close>

function spi_chunks :: "spi_session \<Rightarrow> nat \<Rightarrow> nat \<Rightarrow> bytes \<Rightarrow> bytes list option" where
  "spi_chunks sess remaining offset frame =
     (let chunk = if SPI_CHUNK_MAX < remaining then SPI_CHUNK_MAX else remaining;
          frame = frame[4 := of_nat chunk];
          filled = (if remaining \<noteq> 0
                    then Option.bind (slice (data_mem sess) offset chunk) (blit frame 5)
                    else Some frame)
      in case filled of
           None \<Rightarrow> None
         | Some frame \<Rightarrow>
             (let remaining' = remaining - chunk; offset' = offset + chunk;
                  frame' = frame[3 := next_seq (mode sess) (frame ! 3)]
              in if remaining' \<noteq> 0
                 then map_option ((#) frame) (spi_chunks sess remaining' offset' frame')
                 else Some [frame]))"
  by pat_completeness auto

termination
  by (relation "measure (\<lambda>(sess, remaining, offset, frame). remaining)")
    (auto simp: SPI_CHUNK_MAX_def split: if_splits)

declare spi_chunks.simps [simp del]

definition spi_frame_write_chunked :: "spi_session \<Rightarrow> bytes \<Rightarrow> bool \<Rightarrow> bytes list option" where
  "spi_frame_write_chunked sess frame resume =
     spi_chunks sess (if \<not> resume then 0 else unat (total_bytes sess)) 0 frame"

text \<open>
  \<open>spi_tx_frame_send\<close>: \<open>None\<close> arguments are null pointers; the result is the
  return code with the frames sent, or \<open>None\<close> when the copy leaves the frame or the
  payload.
\<close>

definition spi_tx_frame_send :: "bool \<Rightarrow> spi_session option \<Rightarrow> (int \<times> bytes list) option" where
  "spi_tx_frame_send obj_null sess_opt =
     (case (obj_null, sess_opt) of
        (True, _) \<Rightarrow> Some (-2, [])
      | (_, None) \<Rightarrow> Some (-2, [])
      | (False, Some sess) \<Rightarrow>
          (let frame = replicate SPI_FRAME_LEN 0;
               id = session_id sess;
               frame = frame[0 := ucast id, 1 := ucast (drop_bit 8 id), 2 := ucast (drop_bit 16 id)]
           in if mode sess = 1 then
                map_option (Pair 0)
                  (spi_frame_write_chunked sess (frame[3 := frame ! 3 OR SPI_FRAME_FLAG]) True)
              else if mode sess = 2 then
                map_option (Pair 0) (spi_frame_write_chunked sess frame True)
              else if mode sess = 0 then
                (let n = payload_len sess;
                     filled = (if n \<noteq> 0 then
                                 Option.bind (slice (payload sess) 0 (unat n))
                                   (blit (frame[4 := ucast n]) 5)
                               else Some frame)
                 in map_option (\<lambda>frame. (0, [frame[3 := frame ! 3 OR SPI_FRAME_FLAG]])) filled)
              else Some (-1, [])))"

subsection \<open>The chunk stream\<close>

text \<open>
  What a receiver does: it takes the first \<open>frame[4]\<close> payload bytes of each frame.
\<close>

definition frame_payload :: "bytes \<Rightarrow> bytes" where
  "frame_payload f = take (unat (f ! 4)) (drop 5 f)"

definition header :: "bytes \<Rightarrow> bytes" where
  "header f = take 3 f"

text \<open>The flag and sequence byte of the frame at position \<open>k\<close> of a stream.\<close>

definition seq_at :: "u8 \<Rightarrow> u8 \<Rightarrow> nat \<Rightarrow> u8" where
  "seq_at m b k = (next_seq m ^^ k) b"

lemma frame_fill:
  assumes "length frame = 13" "c \<le> 8" "slice mem off c = Some src" "0 < c"
  shows "\<exists>f. blit (frame[4 := of_nat c]) 5 src = Some f \<and> length f = 13 \<and> frame_payload f = src \<and>
     header f = header frame \<and> f ! 3 = frame ! 3 \<and> f ! 4 = of_nat c"
proof -
  have n: "length src = c" using slice_length [OF assms(3)] .
  have u: "unat (of_nat c :: u8) = c" using assms(2) by (simp add: unat_of_nat)
  define f where "f = take 5 (frame[4 := of_nat c]) @ src @ drop (5 + c) (frame[4 := of_nat c])"
  have b: "blit (frame[4 := of_nat c]) 5 src = Some f"
    using assms n by (simp add: blit_def f_def)
  have t5: "length (take 5 (frame[4 := of_nat c])) = 5" using assms by simp
  have "f ! 4 = of_nat c"
    using assms t5 by (simp add: f_def nth_append)
  moreover have "frame_payload f = src"
    using \<open>f ! 4 = of_nat c\<close> u n t5 by (simp add: frame_payload_def) (simp add: f_def)
  moreover have "header f = header frame" "f ! 3 = frame ! 3"
    using assms by (simp_all add: f_def header_def nth_append take_update_cancel)
  moreover have "length f = 13" using assms n by (simp add: f_def)
  ultimately show ?thesis using b by blast
qed

lemma seq_at_Suc: "seq_at m (next_seq m b) k = seq_at m b (Suc k)"
  by (simp add: seq_at_def funpow_swap1)

text \<open>One turn of the loop on a full chunk, and the last turn.\<close>

lemma spi_chunks_last:
  assumes "length frame = 13" "r \<le> 8" "off + r \<le> length (data_mem sess)"
  shows "\<exists>f. spi_chunks sess r off frame = Some [f] \<and> length f = 13 \<and> header f = header frame \<and>
     f ! 3 = frame ! 3 \<and> frame_payload f = take r (drop off (data_mem sess))"
proof (cases "r = 0")
  case True
  then show ?thesis
    using assms by (subst spi_chunks.simps)
      (simp add: frame_payload_def header_def take_update_cancel SPI_CHUNK_MAX_def)
next
  case False
  have s: "slice (data_mem sess) off r = Some (take r (drop off (data_mem sess)))"
    using assms by (simp add: slice_def)
  obtain f where "blit (frame[4 := of_nat r]) 5 (take r (drop off (data_mem sess))) = Some f"
    "length f = 13" "frame_payload f = take r (drop off (data_mem sess))"
    "header f = header frame" "f ! 3 = frame ! 3"
    using frame_fill [OF assms(1,2) s] False by auto
  then show ?thesis
    using assms False s by (subst spi_chunks.simps) (simp add: Let_def SPI_CHUNK_MAX_def)
qed

lemma spi_chunks_more:
  assumes "length frame = 13" "8 < r" "off + r \<le> length (data_mem sess)"
  shows "\<exists>f. spi_chunks sess r off frame =
       map_option ((#) f) (spi_chunks sess (r - 8) (off + 8) (f[3 := next_seq (mode sess) (f ! 3)])) \<and>
     length f = 13 \<and> header f = header frame \<and> f ! 3 = frame ! 3 \<and>
     frame_payload f = take 8 (drop off (data_mem sess)) \<and> f ! 4 = 8"
proof -
  have s: "slice (data_mem sess) off 8 = Some (take 8 (drop off (data_mem sess)))"
    using assms by (simp add: slice_def)
  obtain f where "blit (frame[4 := of_nat 8]) 5 (take 8 (drop off (data_mem sess))) = Some f"
    "length f = 13" "frame_payload f = take 8 (drop off (data_mem sess))"
    "header f = header frame" "f ! 3 = frame ! 3" "f ! 4 = of_nat 8"
    using frame_fill [OF assms(1) _ s] by auto
  then show ?thesis
    using assms s by (intro exI [of _ f], subst spi_chunks.simps) (simp add: Let_def SPI_CHUNK_MAX_def)
qed

text \<open>
  A stream of frames for \<open>bs\<close>: all have the same session id, the sequence bytes count up
  from \<open>b\<close>, every frame but the last is full and the payloads join up to \<open>bs\<close>.
\<close>

definition frame_stream :: "u8 \<Rightarrow> u8 \<Rightarrow> bytes \<Rightarrow> bytes \<Rightarrow> bytes list \<Rightarrow> bool" where
  "frame_stream m b hdr bs fs \<longleftrightarrow>
     fs \<noteq> [] \<and> (\<forall>k < length fs. length (fs ! k) = 13 \<and> header (fs ! k) = hdr \<and> fs ! k ! 3 = seq_at m b k) \<and>
     concat (map frame_payload fs) = bs \<and> length fs = max 1 ((length bs + 7) div 8)"

lemma frame_stream_single:
  assumes "length f = 13" "header f = hdr" "f ! 3 = b" "frame_payload f = bs" "length bs \<le> 8"
  shows "frame_stream m b hdr bs [f]"
  using assms by (auto simp: frame_stream_def seq_at_def)

lemma frame_stream_Cons:
  assumes f: "length f = 13" "header f = hdr" "f ! 3 = b" "frame_payload f = xs" "length xs = 8"
    and s: "frame_stream m (next_seq m b) hdr ys fs" and ys: "ys \<noteq> []"
  shows "frame_stream m b hdr (xs @ ys) (f # fs)"
proof -
  have "length ((f # fs) ! k) = 13 \<and> header ((f # fs) ! k) = hdr \<and> (f # fs) ! k ! 3 = seq_at m b k"
    if "k < length (f # fs)" for k
    using that f s by (cases k) (auto simp: frame_stream_def seq_at_Suc seq_at_def funpow_swap1)
  moreover have "(length ys + 15) div 8 = Suc ((length ys + 7) div 8)"
    by presburger
  moreover have "1 \<le> (length ys + 7) div 8"
    using ys by (cases ys) auto
  ultimately show ?thesis
    using f s by (auto simp: frame_stream_def)
qed

lemma spi_chunks_stream:
  assumes "length frame = 13" "off + r \<le> length (data_mem sess)"
  shows "\<exists>fs. spi_chunks sess r off frame = Some fs \<and>
     frame_stream (mode sess) (frame ! 3) (header frame) (take r (drop off (data_mem sess))) fs"
  using assms
proof (induction r arbitrary: off frame rule: less_induct)
  case (less r)
  show ?case
  proof (cases "r \<le> 8")
    case True
    then show ?thesis
      using spi_chunks_last [OF less.prems(1) True less.prems(2)] less.prems
      by (fastforce intro: frame_stream_single)
  next
    case False
    then obtain f where f: "spi_chunks sess r off frame =
        map_option ((#) f) (spi_chunks sess (r - 8) (off + 8) (f[3 := next_seq (mode sess) (f ! 3)]))"
      "length f = 13" "header f = header frame" "f ! 3 = frame ! 3"
      "frame_payload f = take 8 (drop off (data_mem sess))"
      using spi_chunks_more [of frame r off sess] less.prems by auto
    let ?f = "f[3 := next_seq (mode sess) (f ! 3)]"
    have hdr: "header ?f = header frame" using f by (simp add: header_def take_update_cancel)
    have f3: "?f ! 3 = next_seq (mode sess) (frame ! 3)" using f by simp
    obtain fs where fs: "spi_chunks sess (r - 8) (off + 8) ?f = Some fs"
      "frame_stream (mode sess) (next_seq (mode sess) (frame ! 3)) (header frame)
         (take (r - 8) (drop (off + 8) (data_mem sess))) fs"
      using less.IH [of "r - 8" ?f "off + 8"] less.prems False f hdr f3 by auto
    have split: "take r (drop off (data_mem sess))
        = take 8 (drop off (data_mem sess)) @ take (r - 8) (drop (off + 8) (data_mem sess))"
      using False take_add [of 8 "r - 8" "drop off (data_mem sess)"] by (simp add: add.commute)
    have "frame_stream (mode sess) (frame ! 3) (header frame) (take r (drop off (data_mem sess))) (f # fs)"
      unfolding split
      by (rule frame_stream_Cons) (use f fs less.prems False in auto)
    then show ?thesis using f fs by auto
  qed
qed

lemma next_seq_flag:
  "m \<noteq> 2 \<Longrightarrow> k < 8 \<Longrightarrow> next_seq m (0x10 OR of_nat k) = 0x10 OR of_nat ((k + 1) mod 8)"
  "k < 16 \<Longrightarrow> next_seq 2 (of_nat k) = of_nat ((k + 1) mod 16)"
proof -
  have "k = 0 \<or> k = 1 \<or> k = 2 \<or> k = 3 \<or> k = 4 \<or> k = 5 \<or> k = 6 \<or> k = 7" if "k < 8"
    using that by linarith
  then show "m \<noteq> 2 \<Longrightarrow> k < 8 \<Longrightarrow> next_seq m (0x10 OR of_nat k) = 0x10 OR of_nat ((k + 1) mod 8)"
    by (auto simp: next_seq_def)
  have "k = 0 \<or> k = 1 \<or> k = 2 \<or> k = 3 \<or> k = 4 \<or> k = 5 \<or> k = 6 \<or> k = 7 \<or> k = 8 \<or> k = 9 \<or>
      k = 10 \<or> k = 11 \<or> k = 12 \<or> k = 13 \<or> k = 14 \<or> k = 15" if "k < 16"
    using that by presburger
  then show "k < 16 \<Longrightarrow> next_seq 2 (of_nat k) = of_nat ((k + 1) mod 16)"
    by (auto simp: next_seq_def)
qed

lemma seq_at_mode1: "seq_at 1 0x10 k = 0x10 OR of_nat (k mod 8)"
proof (induction k)
  case (Suc k)
  have "seq_at 1 0x10 (Suc k) = next_seq 1 (seq_at 1 0x10 k)" by (simp add: seq_at_def)
  also have "\<dots> = 0x10 OR of_nat ((k mod 8 + 1) mod 8)"
    unfolding Suc by (rule next_seq_flag(1)) simp_all
  finally show ?case by (simp add: mod_Suc_eq)
qed (simp add: seq_at_def)

lemma seq_at_mode2: "seq_at 2 0 k = of_nat (k mod 16)"
proof (induction k)
  case (Suc k)
  have "seq_at 2 0 (Suc k) = next_seq 2 (seq_at 2 0 k)" by (simp add: seq_at_def)
  also have "\<dots> = of_nat ((k mod 16 + 1) mod 16)"
    unfolding Suc by (rule next_seq_flag(2)) simp
  finally show ?case by (simp add: mod_Suc_eq)
qed (simp add: seq_at_def)

definition id_bytes :: "u32 \<Rightarrow> bytes" where
  "id_bytes i = [ucast i, ucast (drop_bit 8 i), ucast (drop_bit 16 i)]"

lemma replicate13: "replicate 13 (0 :: u8) = [0, 0, 0, 0, 0, 0, 0, 0, 0, 0, 0, 0, 0]"
  by (simp add: eval_nat_numeral)

text \<open>
  C12.  Sending a session in mode 1 or 2 writes a complete stream: one frame for
  every started eight bytes (and one empty frame for an empty payload), each 13 bytes long with
  the 24-bit session id, the payload slices join up to the payload, and the fourth byte counts
  the frames modulo 8 under the flag (mode 1) or modulo 16 (mode 2).
\<close>

theorem stream_session:
  assumes m: "mode sess = 1 \<or> mode sess = 2"
    and len: "unat (total_bytes sess) \<le> length (data_mem sess)"
  shows "\<exists>fs. spi_tx_frame_send False (Some sess) = Some (0, fs) \<and>
     length fs = max 1 ((unat (total_bytes sess) + 7) div 8) \<and>
     concat (map frame_payload fs) = take (unat (total_bytes sess)) (data_mem sess) \<and>
     (\<forall>k < length fs. length (fs ! k) = 13 \<and> take 3 (fs ! k) = id_bytes (session_id sess) \<and>
        fs ! k ! 3 = (if mode sess = 1 then 0x10 OR of_nat (k mod 8) else of_nat (k mod 16)))"
proof -
  let ?id = "session_id sess"
  define frame where "frame = (replicate 13 (0 :: u8))
    [0 := ucast ?id, 1 := ucast (drop_bit 8 ?id), 2 := ucast (drop_bit 16 ?id),
     3 := (if mode sess = 1 then 0x10 else 0)]"
  have fr: "length frame = 13" "header frame = id_bytes ?id" "frame ! 3 = (if mode sess = 1 then 0x10 else 0)"
    by (simp_all add: frame_def replicate13 header_def id_bytes_def)
  obtain fs where fs: "spi_chunks sess (unat (total_bytes sess)) 0 frame = Some fs"
    "frame_stream (mode sess) (frame ! 3) (header frame) (take (unat (total_bytes sess)) (data_mem sess)) fs"
    using spi_chunks_stream [of frame 0 "unat (total_bytes sess)" sess] fr len by auto
  have "spi_tx_frame_send False (Some sess) = Some (0, fs)"
    using m fs(1)
    by (auto simp: spi_tx_frame_send_def SPI_FRAME_LEN_def SPI_FRAME_FLAG_def Let_def
        spi_frame_write_chunked_def frame_def replicate13)
  then show ?thesis
    using fs(2) m len fr
    by (auto simp: frame_stream_def header_def min_def seq_at_mode1 seq_at_mode2 [simplified])
qed

text \<open>
  Sending a session in mode 0 writes one flagged frame that carries the
  whole payload when it has at most eight bytes; the copy uses the full 32-bit length, so a
  longer payload runs over the 13-byte frame on the stack.
\<close>

theorem single_shot_bound:
  assumes m: "mode sess = 0" and n: "length (payload sess) = unat (payload_len sess)"
  shows "if payload_len sess \<le> 8
    then \<exists>f. spi_tx_frame_send False (Some sess) = Some (0, [f]) \<and> length f = 13 \<and>
       take 3 f = id_bytes (session_id sess) \<and> f ! 3 = 0x10 \<and> frame_payload f = payload sess
    else spi_tx_frame_send False (Some sess) = None"
proof -
  let ?id = "session_id sess"
  define fr where "fr = (replicate 13 (0 :: u8))
    [0 := ucast ?id, 1 := ucast (drop_bit 8 ?id), 2 := ucast (drop_bit 16 ?id)]"
  have fr: "length fr = 13" "header fr = id_bytes ?id" "fr ! 3 = 0" "fr ! 4 = 0"
    by (simp_all add: fr_def replicate13 header_def id_bytes_def)
  have whole: "slice (payload sess) 0 (unat (payload_len sess)) = Some (payload sess)"
    using n by (simp add: slice_def)
  have send: "spi_tx_frame_send False (Some sess) =
      map_option (\<lambda>f. (0, [f[3 := f ! 3 OR 0x10]]))
        (if payload_len sess \<noteq> 0 then blit (fr[4 := ucast (payload_len sess)]) 5 (payload sess) else Some fr)"
    using m whole
    by (simp add: spi_tx_frame_send_def SPI_FRAME_LEN_def SPI_FRAME_FLAG_def Let_def fr_def
        replicate13)
  have flag: "length (f[3 := f ! 3 OR 0x10]) = length f"
    "take 3 (f[3 := f ! 3 OR 0x10]) = take 3 f"
    "frame_payload (f[3 := f ! 3 OR 0x10]) = frame_payload f" for f :: bytes
    by (simp_all add: take_update_cancel frame_payload_def)
  show ?thesis
  proof (cases "payload_len sess \<le> 8")
    case True
    then have l: "unat (payload_len sess) \<le> 8" by (simp add: word_le_nat_alt)
    show ?thesis
    proof (cases "payload_len sess = 0")
      case True
      then show ?thesis
        using fr n by (simp add: send flag) (simp add: header_def frame_payload_def)
    next
      case False
      have c: "(ucast (payload_len sess) :: u8) = of_nat (unat (payload_len sess))"
        by simp
      obtain f where "blit (fr[4 := ucast (payload_len sess)]) 5 (payload sess) = Some f"
        "length f = 13" "frame_payload f = payload sess" "header f = header fr" "f ! 3 = fr ! 3"
        using frame_fill [OF fr(1) l whole] False unfolding c by (auto simp: unat_gt_0)
      then show ?thesis
        using True False fr by (simp add: send flag) (simp add: header_def frame_payload_def)
    qed
  next
    case False
    then have l: "8 < unat (payload_len sess)" by (simp add: word_le_nat_alt)
    have "payload_len sess \<noteq> 0" using False by auto
    then have "spi_tx_frame_send False (Some sess) = None"
      using l n fr(1) by (simp add: send blit_def)
    then show ?thesis using False by simp
  qed
qed

definition demo_session :: spi_session where
  "demo_session = \<lparr>data_mem = replicate 150 0x55, total_bytes = 150, session_id = 0x123456, mode = 2,
     payload = [1, 2, 3], payload_len = 3\<rparr>"

theorem stream_session_witness:
  "\<exists>fs. spi_tx_frame_send False (Some demo_session) = Some (0, fs) \<and>
     length fs = max 1 ((150 + 7) div 8) \<and>
     concat (map frame_payload fs) = take 150 (replicate 150 0x55) \<and>
     (\<forall>k < length fs. length (fs ! k) = 13 \<and> take 3 (fs ! k) = id_bytes 0x123456 \<and>
        fs ! k ! 3 = (if (2 :: u8) = 1 then 0x10 OR of_nat (k mod 8) else of_nat (k mod 16)))"
  using stream_session [of demo_session] by (simp add: demo_session_def)

theorem single_shot_bound_witness:
  "if (3 :: u32) \<le> 8
    then \<exists>f. spi_tx_frame_send False (Some (demo_session\<lparr>mode := 0\<rparr>)) = Some (0, [f]) \<and> length f = 13 \<and>
       take 3 f = id_bytes 0x123456 \<and> f ! 3 = 0x10 \<and> frame_payload f = [1, 2, 3]
    else spi_tx_frame_send False (Some (demo_session\<lparr>mode := 0\<rparr>)) = None"
  using single_shot_bound [of "demo_session\<lparr>mode := 0\<rparr>"] by (simp add: demo_session_def)

subsection \<open>Channels\<close>

record spi_channel =
  data_ptr :: u32
  write_ptr :: u32
  end_ptr :: u32
  last_ptr :: u32
  current_count :: u32
  capacity :: u32
  elem_size :: u32
  seq_a :: u8
  tx_seq :: u8

datatype spi_event =
    TxSendLoop
  | CopyDataToQueue
  | PendSV
  | QueueSend int u32
  | RxBufConsume int u32

text \<open>
  \<open>spi_channel_alloc\<close> with the 32-bit \<open>size_t\<close> of the target.  \<open>malloc\<close>
  is the address the heap returns for a request, 0 for none.  The outcomes are the trap of the
  overflow guard (\<open>None\<close>) and a possibly null channel with its address.
\<close>

definition spi_channel_total :: "u32 \<Rightarrow> u32 \<Rightarrow> u32" where
  "spi_channel_total cap elem = cap * elem + 0x48"

definition spi_channel_alloc ::
  "(u32 \<Rightarrow> u32) \<Rightarrow> u32 \<Rightarrow> u32 \<Rightarrow> (u32 \<times> spi_channel) option option" where
  "spi_channel_alloc malloc cap elem =
     (let total = spi_channel_total cap elem
      in if elem \<noteq> 0 \<and> (total - 0x48) div elem \<noteq> cap then None
         else (let ch = malloc total
               in if ch = 0 then Some None
                  else (let dp = (if elem \<noteq> 0 then ch + 0x48 else ch);
                            ep = dp + cap * elem
                        in Some (Some (ch,
                             \<lparr>data_ptr = dp, write_ptr = dp, end_ptr = ep, last_ptr = ep - elem,
                              current_count = 0, capacity = cap, elem_size = elem,
                              seq_a = 0xFF, tx_seq = 0xFF\<rparr>)))))"

definition spi_channel_create ::
  "(u32 \<Rightarrow> u32) \<Rightarrow> ((u32 \<times> spi_channel) option \<times> spi_event list) option" where
  "spi_channel_create malloc =
     (case spi_channel_alloc malloc 1 0 of
        None \<Rightarrow> None
      | Some None \<Rightarrow> Some (None, [])
      | Some (Some (a, ch)) \<Rightarrow>
          Some (Some (a, ch\<lparr>data_ptr := 0, end_ptr := 0, last_ptr := 0\<rparr>), [TxSendLoop]))"

text \<open>
  \<open>ipsr\<close> is the active exception number (0 in a thread) and \<open>copied\<close> the result of
  the vendor queue copy.
\<close>

definition spi_tx_enqueue ::
  "u32 \<Rightarrow> bool \<Rightarrow> spi_channel option \<Rightarrow> (spi_channel option \<times> spi_event list) option" where
  "spi_tx_enqueue ipsr copied ch_opt =
     (if ipsr = 0 then Some (ch_opt, [TxSendLoop])
      else case ch_opt of
        None \<Rightarrow> None
      | Some ch \<Rightarrow>
          if elem_size ch \<noteq> 0 then None
          else if data_ptr ch = 0 \<and> end_ptr ch \<noteq> 0 then None
          else
            (let (ch, ok, notified, evs) =
               (if current_count ch < capacity ch then
                  (let ch = ch\<lparr>current_count := current_count ch + 1\<rparr>
                   in if tx_seq ch = 0xFF then (ch, False, copied, [CopyDataToQueue])
                      else (ch\<lparr>tx_seq := tx_seq ch + 1\<rparr>, True, False, []))
                else (ch, False, False, []))
             in Some (Some ch, evs @ (if \<not> ok \<and> notified then [PendSV] else []))))"

definition spi_queue_send ::
  "bool \<Rightarrow> bool \<Rightarrow> int \<Rightarrow> u32 \<Rightarrow> (spi_event list) \<Rightarrow> int \<Rightarrow> u32 \<Rightarrow> (u32 \<times> spi_event list) option" where
  "spi_queue_send obj_null queue_null sched tmo evs cmd result =
     (if obj_null then None
      else if queue_null then Some (0, evs)
      else if cmd \<le> 5 then
        (let timeout = (if sched \<noteq> 2 then 0 else tmo) in Some (result, evs @ [QueueSend cmd timeout]))
      else Some (result, evs @ [RxBufConsume cmd 0]))"

lemma word_div_mult_no_wrap:
  fixes c e :: u32
  assumes "e \<noteq> 0"
  shows "(c * e) div e = c \<longleftrightarrow> unat c * unat e < 4294967296"
proof -
  have e: "0 < unat e" using assms by (simp add: unat_gt_0)
  have d: "(c * e) div e = c \<longleftrightarrow> (unat c * unat e) mod 4294967296 div unat e = unat c"
    by (simp add: word_unat_eq_iff unat_div unat_word_ariths)
  show ?thesis
  proof (cases "unat c * unat e < 4294967296")
    case True
    then show ?thesis using e by (simp add: d)
  next
    case False
    then have "(unat c * unat e) mod 4294967296 < unat c * unat e"
      by (meson less_le_trans linorder_not_less mod_less_divisor zero_less_numeral)
    then have "(unat c * unat e) mod 4294967296 div unat e < unat c"
      using e by (simp add: div_less_iff_less_mult)
    then show ?thesis using False by (simp add: d)
  qed
qed

lemma channel_alloc_overflow:
  assumes "elem \<noteq> 0"
  shows "spi_channel_alloc malloc cap elem = None \<longleftrightarrow> 4294967296 \<le> unat cap * unat elem"
  using word_div_mult_no_wrap [OF assms, of cap] assms
  by (simp add: spi_channel_alloc_def Let_def spi_channel_total_def not_less)

lemma channel_total_covers:
  assumes "unat cap * unat elem < 4294967296"
  shows "unat cap * unat elem + 0x48 \<le> unat (spi_channel_total cap elem)
     \<longleftrightarrow> unat cap * unat elem + 0x48 < 4294967296"
  using assms by (auto simp: spi_channel_total_def unat_word_ariths mod_if)

text \<open>
  The overflow guard of the channel allocation traps exactly when
  capacity times element size does not fit 32 bits. It does not cover the 72 bytes of the
  header: the request covers header and ring only if the sum fits as well, otherwise a channel
  is handed out over a block that is too small.
\<close>

theorem channel_alloc_guard:
  assumes "elem \<noteq> 0" and "malloc (spi_channel_total cap elem) \<noteq> 0"
  shows "if unat cap * unat elem < 4294967296
    then (\<exists>ch. spi_channel_alloc malloc cap elem = Some (Some (malloc (spi_channel_total cap elem), ch)) \<and>
        data_ptr ch = malloc (spi_channel_total cap elem) + 0x48 \<and>
        end_ptr ch = data_ptr ch + cap * elem \<and> last_ptr ch + elem = end_ptr ch \<and>
        current_count ch = 0) \<and>
      (unat cap * unat elem + 0x48 \<le> unat (spi_channel_total cap elem)
        \<longleftrightarrow> unat cap * unat elem + 0x48 < 4294967296)
    else spi_channel_alloc malloc cap elem = None"
proof (cases "unat cap * unat elem < 4294967296")
  case True
  then have "(spi_channel_total cap elem - 0x48) div elem = cap"
    using word_div_mult_no_wrap [OF assms(1), of cap] by (simp add: spi_channel_total_def)
  then have "\<exists>ch. spi_channel_alloc malloc cap elem = Some (Some (malloc (spi_channel_total cap elem), ch)) \<and>
        data_ptr ch = malloc (spi_channel_total cap elem) + 0x48 \<and>
        end_ptr ch = data_ptr ch + cap * elem \<and> last_ptr ch + elem = end_ptr ch \<and>
        current_count ch = 0"
    using assms by (simp add: spi_channel_alloc_def Let_def)
  then show ?thesis using channel_total_covers [OF True] True by simp
next
  case False
  then show ?thesis using channel_alloc_overflow [OF assms(1), of malloc cap] by simp
qed

theorem channel_alloc_guard_witness:
  "if unat (0xFFFFFFC0 :: u32) * unat (1 :: u32) < 4294967296
    then (\<exists>ch. spi_channel_alloc (\<lambda>_. 0x20000000) 0xFFFFFFC0 1
          = Some (Some (0x20000000, ch)) \<and>
        data_ptr ch = 0x20000000 + 0x48 \<and>
        end_ptr ch = data_ptr ch + 0xFFFFFFC0 * 1 \<and> last_ptr ch + 1 = end_ptr ch \<and>
        current_count ch = 0) \<and>
      (unat (0xFFFFFFC0 :: u32) * unat (1 :: u32) + 0x48 \<le> unat (spi_channel_total 0xFFFFFFC0 1)
        \<longleftrightarrow> unat (0xFFFFFFC0 :: u32) * unat (1 :: u32) + 0x48 < 4294967296)
    else spi_channel_alloc (\<lambda>_. 0x20000000) 0xFFFFFFC0 1 = None"
  by (rule channel_alloc_guard [where malloc = "\<lambda>_. 0x20000000"]) simp_all

text \<open>Interrupts that enqueue one after the other; each carries the result of the vendor copy.\<close>

fun isr_run :: "u32 \<Rightarrow> bool list \<Rightarrow> spi_channel \<Rightarrow> (spi_channel \<times> spi_event list) option" where
  "isr_run ipsr [] ch = Some (ch, [])"
| "isr_run ipsr (c # cs) ch =
     (case spi_tx_enqueue ipsr c (Some ch) of
        Some (Some ch', evs) \<Rightarrow> map_option (\<lambda>(ch'', evs'). (ch'', evs @ evs')) (isr_run ipsr cs ch')
      | _ \<Rightarrow> None)"

lemma isr_run_full:
  assumes "ipsr \<noteq> 0" "elem_size ch = 0" "data_ptr ch = 0 \<longrightarrow> end_ptr ch = 0"
    "\<not> current_count ch < capacity ch"
  shows "isr_run ipsr cs ch = Some (ch, [])"
  using assms by (induction cs) (auto simp: spi_tx_enqueue_def)

lemma isr_run_room:
  assumes "ipsr \<noteq> 0" "elem_size ch = 0" "data_ptr ch = 0 \<longrightarrow> end_ptr ch = 0"
    "current_count ch < capacity ch" "tx_seq ch = 0xFF"
  shows "isr_run ipsr (c # cs) ch =
     map_option (\<lambda>(ch', evs). (ch', CopyDataToQueue # (if c then [PendSV] else []) @ evs))
       (isr_run ipsr cs (ch\<lparr>current_count := current_count ch + 1\<rparr>))"
  using assms by (auto simp: spi_tx_enqueue_def Let_def)

text \<open>
  A run of enqueues from interrupt context on a channel in the reset state
  never counts beyond the capacity: the first ones, as many as there is room for, go to the
  queue and pend a context switch exactly when the copy reports a waiter; the rest do nothing.
\<close>

theorem isr_enqueue_run:
  assumes "ipsr \<noteq> 0" "elem_size ch = 0" "data_ptr ch = 0 \<longrightarrow> end_ptr ch = 0" "tx_seq ch = 0xFF"
    "unat (current_count ch) \<le> unat (capacity ch)"
  shows "\<exists>ch' evs. isr_run ipsr cs ch = Some (ch', evs) \<and>
     unat (current_count ch') = min (unat (current_count ch) + length cs) (unat (capacity ch)) \<and>
     evs = concat (map (\<lambda>c. CopyDataToQueue # (if c then [PendSV] else []))
             (take (unat (capacity ch) - unat (current_count ch)) cs))"
  using assms
proof (induction cs arbitrary: ch)
  case Nil
  then show ?case by (auto simp: min_def)
next
  case (Cons c cs)
  show ?case
  proof (cases "current_count ch < capacity ch")
    case False
    then show ?thesis
      using Cons.prems isr_run_full [of ipsr ch "c # cs"] by (auto simp: word_less_nat_alt min_def)
  next
    case True
    let ?ch = "ch\<lparr>current_count := current_count ch + 1\<rparr>"
    have lt: "unat (current_count ch) < unat (capacity ch)" using True by (simp add: word_less_nat_alt)
    have n: "unat (current_count ch + 1) = unat (current_count ch) + 1"
    proof (subst unat_add_no_wrap)
      show "unat (current_count ch) + unat (1 :: u32) < 4294967296"
        using lt unat_u32_less [of "capacity ch"] unat_1 [where ?'a = 32] by linarith
    qed simp
    have "\<exists>ch' evs. isr_run ipsr cs ?ch = Some (ch', evs) \<and>
       unat (current_count ch') = min (unat (current_count ?ch) + length cs) (unat (capacity ?ch)) \<and>
       evs = concat (map (\<lambda>c. CopyDataToQueue # (if c then [PendSV] else []))
               (take (unat (capacity ?ch) - unat (current_count ?ch)) cs))"
      by (rule Cons.IH) (use Cons.prems lt n in auto)
    moreover have "take (unat (capacity ch) - unat (current_count ch)) (c # cs)
        = c # take (unat (capacity ch) - unat (current_count ch) - 1) cs"
      using lt by (cases "unat (capacity ch) - unat (current_count ch)") auto
    ultimately show ?thesis
      using isr_run_room [of ipsr ch c cs] Cons.prems True n by (auto simp del: isr_run.simps)
  qed
qed

theorem isr_enqueue_run_witness:
  "\<exists>ch' evs. isr_run 11 [True, True, False]
       \<lparr>data_ptr = 0, write_ptr = 0x20000000, end_ptr = 0, last_ptr = 0, current_count = 0,
        capacity = 1, elem_size = 0, seq_a = 0xFF, tx_seq = 0xFF\<rparr> = Some (ch', evs) \<and>
     unat (current_count ch') = min (unat (0 :: u32) + length [True, True, False]) (unat (1 :: u32)) \<and>
     evs = concat (map (\<lambda>c. CopyDataToQueue # (if c then [PendSV] else []))
             (take (unat (1 :: u32) - unat (0 :: u32)) [True, True, False]))"
  using isr_enqueue_run [of 11 "\<lparr>data_ptr = 0, write_ptr = 0x20000000, end_ptr = 0, last_ptr = 0,
      current_count = 0, capacity = 1, elem_size = 0, seq_a = 0xFF, tx_seq = 0xFF\<rparr>" "[True, True, False]"]
  by simp

subsection \<open>CAN messages and transmit slots\<close>

text \<open>
  \<open>can_tx_send_msg\<close> builds a frame of 30 bytes on the stack; the extra words are stored
  without a check of their number.
\<close>

fun put_words :: "nat \<Rightarrow> u32 list \<Rightarrow> bytes \<Rightarrow> bytes option" where
  "put_words off [] frame = Some frame"
| "put_words off (w # ws) frame = Option.bind (blit frame off (le32 w)) (put_words (off + 4) ws)"

definition can_tx_send_msg :: "bool \<Rightarrow> u32 \<Rightarrow> u16 \<Rightarrow> u32 list \<Rightarrow> bytes option option" where
  "can_tx_send_msg installed can_id cmd extra =
     (if \<not> installed then Some None
      else map_option Some
        (put_words 6 extra (le32 can_id @ [ucast cmd, ucast (drop_bit 8 cmd)] @ replicate 24 0)))"

record tx_slot =
  on_complete :: u32
  on_error :: u32
  slot_handle :: u32
  slot_ctx :: u32
  slot_status :: u32

record tx_slots =
  in_use :: u8
  array_busy :: u8
  slots :: "tx_slot list"

definition can_tx_slot_alloc ::
  "u32 \<Rightarrow> u32 \<Rightarrow> u32 \<Rightarrow> u32 \<Rightarrow> tx_slots \<Rightarrow> nat option \<times> tx_slots" where
  "can_tx_slot_alloc complete err h ctx st =
     (let count = in_use st
      in if 3 \<le> count \<or> array_busy st \<noteq> 0 then (None, st)
         else (Some (unat count),
               st\<lparr>in_use := count + 1,
                  slots := (slots st)[unat count :=
                    \<lparr>on_complete = complete, on_error = err, slot_handle = h, slot_ctx = ctx,
                     slot_status = 0\<rparr>]\<rparr>))"

lemma put_words_exact:
  "off + 4 * length ws \<le> length frame \<Longrightarrow>
     put_words off ws frame = Some (take off frame @ concat (map le32 ws) @ drop (off + 4 * length ws) frame)"
proof (induction ws arbitrary: off frame)
  case (Cons w ws)
  have b: "blit frame off (le32 w) = Some (take off frame @ le32 w @ drop (off + 4) frame)"
    using Cons.prems by (simp add: blit_def)
  then show ?case
    using Cons.prems by (simp add: Cons.IH ac_simps)
qed simp

lemma put_words_overflow:
  "length frame < off + 4 * length ws \<Longrightarrow> ws \<noteq> [] \<Longrightarrow> put_words off ws frame = None"
proof (induction ws arbitrary: off frame)
  case (Cons w ws)
  show ?case
  proof (cases "blit frame off (le32 w)")
    case (Some f)
    then have l: "off + 4 \<le> length frame" "length f = length frame"
      by (auto simp: blit_length) (auto simp: blit_def split: if_splits)
    then have "ws \<noteq> []" using Cons.prems by auto
    then show ?thesis using Cons Some l by simp
  qed simp
qed simp

theorem can_msg_frame:
  "can_tx_send_msg True can_id cmd extra =
     (if length extra \<le> 6
      then Some (Some (le32 can_id @ [ucast cmd, ucast (drop_bit 8 cmd)] @ concat (map le32 extra) @
             replicate (24 - 4 * length extra) 0))
      else None)"
proof (cases "length extra \<le> 6")
  case True
  then show ?thesis
    by (simp add: can_tx_send_msg_def put_words_exact)
next
  case False
  then have "extra \<noteq> []" by auto
  then show ?thesis
    using False by (simp add: can_tx_send_msg_def put_words_overflow)
qed

text \<open>Successive allocations hand out three different slots and then none.\<close>

fun alloc_run :: "nat \<Rightarrow> tx_slots \<Rightarrow> nat option list \<times> tx_slots" where
  "alloc_run 0 st = ([], st)"
| "alloc_run (Suc n) st =
     (let (r, st') = can_tx_slot_alloc 0 0 0 0 st; (rs, st'') = alloc_run n st' in (r # rs, st''))"

lemma slot_alloc_full: "3 \<le> in_use st \<Longrightarrow> alloc_run n st = (replicate n None, st)"
  by (induction n) (simp_all add: can_tx_slot_alloc_def)

lemma slot_alloc_three:
  "in_use st = 0 \<Longrightarrow> array_busy st = 0 \<Longrightarrow>
     fst (alloc_run (Suc (Suc (Suc n))) st) = [Some 0, Some 1, Some 2] @ replicate n None"
  by (simp add: can_tx_slot_alloc_def Let_def slot_alloc_full word_le_nat_alt split: prod.split)

end
