(* ===== verification/KeyedTable.thy ===== *)
theory KeyedTable
  imports Prelude
begin

text \<open>
  The two append-only tables of the firmware and their common contract: the object dictionary of
  the i.MX8 \<open>power\<close> service (\<open>main/power/src/od_table.c\<close>) and the device registry
  of the user ECU (\<open>user_ecu/src/registry.c\<close>, with the byte routines of
  \<open>user_ecu/src/util.c\<close>).  The locale \<open>keyed_table\<close> states what both promise: a
  first-match scan, and an append that refuses duplicates and a full table.  The exactness of look-up
  is proved once in the locale and interpreted on both models.

  The section on \<open>main/power/src/vm_can.c\<close> gives the packing of an address into a
  29-bit CAN identifier and the frames sent and received.
\<close>

subsection \<open>The contract\<close>

locale keyed_table =
  fixes entries :: "'t \<Rightarrow> 'e list"
    and room :: "'t \<Rightarrow> nat"
    and wf :: "'t \<Rightarrow> bool"
    and same :: "'t \<Rightarrow> 'k \<Rightarrow> 'e \<Rightarrow> bool"
    and key_of :: "'e \<Rightarrow> 'k"
    and find :: "'t \<Rightarrow> 'k \<Rightarrow> nat option"
    and add :: "'t \<Rightarrow> 'e \<Rightarrow> 't option"
  assumes find_Some: "wf t \<Longrightarrow> find t k = Some i \<longleftrightarrow>
      i < length (entries t) \<and> same t k (entries t ! i) \<and> (\<forall>j < i. \<not> same t k (entries t ! j))"
    and add_accepts: "wf t \<Longrightarrow> length (entries t) < room t \<Longrightarrow> find t (key_of e) = None \<Longrightarrow>
      \<exists>t'. add t e = Some t' \<and> wf t' \<and> entries t' = entries t @ [e] \<and> room t' = room t \<and> same t' = same t"
    and add_refuses: "wf t \<Longrightarrow> \<not> (length (entries t) < room t \<and> find t (key_of e) = None) \<Longrightarrow>
      add t e = None"
    and wf_room: "wf t \<Longrightarrow> length (entries t) \<le> room t"
begin

definition adds :: "'e list \<Rightarrow> 't \<Rightarrow> 't" where
  "adds es t = fold (\<lambda>e t. case add t e of Some t' \<Rightarrow> t' | None \<Rightarrow> t) es t"

lemma find_None:
  assumes "wf t"
  shows "find t k = None \<longleftrightarrow> (\<forall>i < length (entries t). \<not> same t k (entries t ! i))"
proof
  assume n: "find t k = None"
  show "\<forall>i < length (entries t). \<not> same t k (entries t ! i)"
  proof (rule ccontr)
    assume "\<not> ?thesis"
    then have "\<exists>i. i < length (entries t) \<and> same t k (entries t ! i)" by blast
    then obtain m where "m < length (entries t) \<and> same t k (entries t ! m)"
      and "\<forall>j < m. \<not> (j < length (entries t) \<and> same t k (entries t ! j))"
      unfolding exists_least_iff [of "\<lambda>i. i < length (entries t) \<and> same t k (entries t ! i)"]
      by blast
    then have "find t k = Some m" using find_Some [OF assms] by auto
    then show False using n by simp
  qed
next
  assume "\<forall>i < length (entries t). \<not> same t k (entries t ! i)"
  then show "find t k = None"
    using find_Some [OF assms] by (cases "find t k") auto
qed

text \<open>Appending never moves or hides what a search found before.\<close>

lemma find_stable:
  assumes "wf t" "wf t'" "entries t' = entries t @ xs" "same t' = same t" "find t k = Some i"
  shows "find t' k = Some i"
  using assms find_Some [of t k i] find_Some [of t' k i] by (auto simp: nth_append)

definition exact :: "'t \<Rightarrow> bool" where
  "exact t \<longleftrightarrow> (\<forall>i < length (entries t). find t (key_of (entries t ! i)) = Some i)"

lemma add_keeps:
  assumes "wf t" "exact t" "same t (key_of e) e" "add t e = Some t'"
  shows "wf t' \<and> exact t' \<and> entries t' = entries t @ [e] \<and> room t' = room t \<and> same t' = same t"
proof -
  have ok: "length (entries t) < room t" "find t (key_of e) = None"
    using assms add_refuses [of t e] by force+
  then have t': "wf t'" "entries t' = entries t @ [e]" "room t' = room t" "same t' = same t"
    using add_accepts [OF assms(1), of e] assms(4) by auto
  have "find t' (key_of (entries t' ! i)) = Some i" if "i < length (entries t')" for i
  proof (cases "i = length (entries t)")
    case True
    then show ?thesis
      using ok(2) t' assms(1,3) find_None [OF assms(1)] find_Some [OF t'(1)]
      by (auto simp: nth_append)
  next
    case False
    then have i: "i < length (entries t)" using that t'(2) by simp
    then have "find t (key_of (entries t ! i)) = Some i" using assms(2) by (simp add: exact_def)
    then show ?thesis
      using find_stable [OF assms(1) t'(1,2,4)] i t'(2) by (simp add: nth_append)
  qed
  then show ?thesis using t' by (simp add: exact_def)
qed

lemma adds_invariant:
  assumes "wf t" "exact t" "\<And>e. e \<in> set es \<Longrightarrow> same t (key_of e) e"
  shows "wf (adds es t) \<and> exact (adds es t) \<and> room (adds es t) = room t \<and> same (adds es t) = same t \<and>
     (\<exists>xs. entries (adds es t) = entries t @ xs \<and> set xs \<subseteq> set es) \<and>
     (length (entries (adds es t)) < room t \<longrightarrow> (\<forall>e \<in> set es. find (adds es t) (key_of e) \<noteq> None))"
  using assms
proof (induction es arbitrary: t)
  case Nil
  then show ?case by (simp add: adds_def)
next
  case (Cons e es)
  define t1 where "t1 = (case add t e of Some t' \<Rightarrow> t' | None \<Rightarrow> t)"
  have run: "adds (e # es) t = adds es t1" by (simp add: adds_def t1_def)
  have t1: "wf t1 \<and> exact t1 \<and> room t1 = room t \<and> same t1 = same t \<and>
      (\<exists>xs. entries t1 = entries t @ xs \<and> set xs \<subseteq> {e})"
    using Cons.prems add_keeps [of t e] by (cases "add t e") (auto simp: t1_def)
  have IH: "wf (adds es t1) \<and> exact (adds es t1) \<and> room (adds es t1) = room t1 \<and>
     same (adds es t1) = same t1 \<and>
     (\<exists>xs. entries (adds es t1) = entries t1 @ xs \<and> set xs \<subseteq> set es) \<and>
     (length (entries (adds es t1)) < room t1 \<longrightarrow> (\<forall>e \<in> set es. find (adds es t1) (key_of e) \<noteq> None))"
    using t1 Cons.prems by (intro Cons.IH) auto
  have "find (adds es t1) (key_of e) \<noteq> None" if "length (entries (adds es t1)) < room t"
  proof -
    have "length (entries t) < room t" using that IH t1 by auto
    then have "find t1 (key_of e) \<noteq> None"
    proof (cases "find t (key_of e)")
      case None
      then obtain t' where t': "add t e = Some t'"
        using add_accepts [of t e] Cons.prems \<open>length (entries t) < room t\<close> by auto
      then have "exact t'" "entries t' = entries t @ [e]"
        using add_keeps [of t e t'] Cons.prems by auto
      then have "find t' (key_of (entries t' ! length (entries t))) = Some (length (entries t))"
        unfolding exact_def by (metis length_append_singleton lessI)
      then show ?thesis using t' \<open>entries t' = _\<close> by (simp add: t1_def)
    next
      case (Some i)
      then have "add t e = None" using add_refuses [of t e] Cons.prems by simp
      then show ?thesis using Some by (simp add: t1_def)
    qed
    then obtain i where "find t1 (key_of e) = Some i" by blast
    moreover obtain xs where "entries (adds es t1) = entries t1 @ xs" using IH by blast
    ultimately show ?thesis
      using find_stable [of t1 "adds es t1" xs "key_of e" i] t1 IH by auto
  qed
  then show ?case
    unfolding run using IH t1 by auto
qed

end

subsection \<open>The object dictionary\<close>

record od_descriptor =
  a0 :: u8
  a1 :: u8
  a2 :: u8
  a3 :: u8
  kind :: u8
  dlc :: u8
  cb :: nat
  ctx :: nat

record od_table =
  od_count :: nat
  od_cap :: nat
  od_base :: "od_descriptor list"

text \<open>The keys are the first two bytes of the search key; 0 is a match.\<close>

definition od_key_cmp :: "u8 \<times> u8 \<Rightarrow> od_descriptor \<Rightarrow> bool" where
  "od_key_cmp k e = (fst k \<noteq> a0 e \<or> snd k \<noteq> a1 e)"

fun od_scan_from :: "od_table \<Rightarrow> u8 \<times> u8 \<Rightarrow> nat \<Rightarrow> nat \<Rightarrow> nat option" where
  "od_scan_from t k i 0 = None"
| "od_scan_from t k i (Suc n) =
     (if \<not> od_key_cmp k (od_base t ! i) then Some i else od_scan_from t k (Suc i) n)"

definition vm_od_table_scan :: "od_table option \<Rightarrow> (u8 \<times> u8) option \<Rightarrow> nat option" where
  "vm_od_table_scan t_opt key_opt =
     (case (t_opt, key_opt) of
        (Some t, Some k) \<Rightarrow> od_scan_from t k 0 (od_count t)
      | _ \<Rightarrow> None)"

definition vm_od_table_add :: "od_table option \<Rightarrow> od_descriptor option \<Rightarrow> int \<times> od_table option" where
  "vm_od_table_add t_opt tmpl_opt =
     (case (t_opt, tmpl_opt) of
        (Some t, Some d) \<Rightarrow>
          (if od_cap t \<le> od_count t then (4, t_opt)
           else if od_scan_from t (a0 d, a1 d) 0 (od_count t) \<noteq> None then (2, t_opt)
           else (0, Some (t\<lparr>od_base := (od_base t)[od_count t := d], od_count := od_count t + 1\<rparr>)))
      | _ \<Rightarrow> (1, t_opt))"

definition vm_od_register ::
  "od_table option \<Rightarrow> u8 \<Rightarrow> u8 \<Rightarrow> u8 \<Rightarrow> u8 \<Rightarrow> u8 \<Rightarrow> u8 \<Rightarrow> nat \<Rightarrow> nat \<Rightarrow> int \<times> od_table option" where
  "vm_od_register t b0 b1 b2 b3 k d c x =
     vm_od_table_add t (Some \<lparr>a0 = b0, a1 = b1, a2 = b2, a3 = b3, kind = k, dlc = d, cb = c, ctx = x\<rparr>)"

definition od_wf :: "od_table \<Rightarrow> bool" where
  "od_wf t \<longleftrightarrow> od_count t \<le> od_cap t \<and> length (od_base t) = od_cap t"

definition od_entries :: "od_table \<Rightarrow> od_descriptor list" where
  "od_entries t = take (od_count t) (od_base t)"

definition od_find :: "od_table \<Rightarrow> u8 \<times> u8 \<Rightarrow> nat option" where
  "od_find t k = vm_od_table_scan (Some t) (Some k)"

definition od_add :: "od_table \<Rightarrow> od_descriptor \<Rightarrow> od_table option" where
  "od_add t d = (case vm_od_table_add (Some t) (Some d) of (rc, t') \<Rightarrow> if rc = 0 then t' else None)"

lemma first_match_shift:
  fixes i j :: nat
  assumes "\<not> P i"
  shows "(Suc i \<le> j \<and> j < Suc i + n \<and> P j \<and> (\<forall>l. Suc i \<le> l \<and> l < j \<longrightarrow> \<not> P l)) \<longleftrightarrow>
    (i \<le> j \<and> j < i + Suc n \<and> P j \<and> (\<forall>l. i \<le> l \<and> l < j \<longrightarrow> \<not> P l))"
proof -
  have "i \<le> l \<and> l < j \<longleftrightarrow> (l = i \<and> i < j) \<or> (Suc i \<le> l \<and> l < j)" for l by auto
  then show ?thesis using assms by (metis Suc_leD add_Suc_right add_Suc le_neq_implies_less not_less_eq_eq le_antisym)
qed

lemma od_scan_from_iff:
  "od_scan_from t k i n = Some j \<longleftrightarrow>
     i \<le> j \<and> j < i + n \<and> \<not> od_key_cmp k (od_base t ! j) \<and>
     (\<forall>l. i \<le> l \<and> l < j \<longrightarrow> od_key_cmp k (od_base t ! l))"
proof (induction n arbitrary: i)
  case (Suc n)
  show ?case
  proof (cases "od_key_cmp k (od_base t ! i)")
    case True
    then show ?thesis
      using first_match_shift [of "\<lambda>j. \<not> od_key_cmp k (od_base t ! j)" i j n] by (simp add: Suc.IH)
  next
    case False
    then show ?thesis by auto
  qed
qed simp

lemma od_find_Some:
  "od_wf t \<Longrightarrow> od_find t k = Some i \<longleftrightarrow>
     i < length (od_entries t) \<and> \<not> od_key_cmp k (od_entries t ! i) \<and>
     (\<forall>j < i. \<not> \<not> od_key_cmp k (od_entries t ! j))"
  by (auto simp: od_find_def vm_od_table_scan_def od_scan_from_iff od_entries_def od_wf_def)

interpretation od: keyed_table od_entries od_cap od_wf "\<lambda>_ k e. \<not> od_key_cmp k e"
    "\<lambda>e. (a0 e, a1 e)" od_find od_add
proof (unfold_locales, goal_cases)
  case (1 t k i)
  then show ?case by (rule od_find_Some)
next
  case (2 t e)
  then show ?case
    by (auto simp: od_wf_def od_entries_def od_add_def vm_od_table_add_def od_find_def
        vm_od_table_scan_def take_Suc_conv_app_nth)
next
  case (3 t e)
  then show ?case
    by (auto simp: od_wf_def od_entries_def od_add_def vm_od_table_add_def od_find_def
        vm_od_table_scan_def)
next
  case (4 t)
  then show ?case by (simp add: od_wf_def od_entries_def)
qed

text \<open>Registering a list of descriptors, refused ones skipped.\<close>

definition od_registers :: "od_descriptor list \<Rightarrow> od_table \<Rightarrow> od_table" where
  "od_registers ds t = fold (\<lambda>d t. case od_add t d of Some t' \<Rightarrow> t' | None \<Rightarrow> t) ds t"

definition od_empty :: "od_descriptor list \<Rightarrow> od_table" where
  "od_empty mem = \<lparr>od_count = 0, od_cap = length mem, od_base = mem\<rparr>"

lemma od_registers_exact:
  defines "T ds mem \<equiv> od_registers ds (od_empty mem)"
  shows "(\<forall>i < od_count (T ds mem). od_base (T ds mem) ! i \<in> set ds \<and>
        vm_od_table_scan (Some (T ds mem)) (Some (a0 (od_base (T ds mem) ! i), a1 (od_base (T ds mem) ! i))) = Some i)
    \<and> (od_count (T ds mem) < length mem \<longrightarrow>
        (\<forall>d \<in> set ds. \<exists>i. vm_od_table_scan (Some (T ds mem)) (Some (a0 d, a1 d)) = Some i \<and>
           a0 (od_base (T ds mem) ! i) = a0 d \<and> a1 (od_base (T ds mem) ! i) = a1 d))"
proof -
  have "od_wf (od_empty mem)" "od_entries (od_empty mem) = []"
    by (simp_all add: od_wf_def od_empty_def od_entries_def)
  then have inv: "od_wf (T ds mem) \<and> od.exact (T ds mem) \<and> od_cap (T ds mem) = length mem \<and>
     set (od_entries (T ds mem)) \<subseteq> set ds \<and>
     (length (od_entries (T ds mem)) < length mem \<longrightarrow> (\<forall>d \<in> set ds. od_find (T ds mem) (a0 d, a1 d) \<noteq> None))"
    using od.adds_invariant [of "od_empty mem" ds]
    by (auto simp: T_def od_registers_def od.adds_def od.exact_def od_key_cmp_def od_empty_def)
  have n: "length (od_entries (T ds mem)) = od_count (T ds mem)"
    using inv by (auto simp: od_wf_def od_entries_def)
  have nth: "od_entries (T ds mem) ! i = od_base (T ds mem) ! i" if "i < od_count (T ds mem)" for i
    using that by (simp add: od_entries_def)
  have "od_base (T ds mem) ! i \<in> set ds" if "i < od_count (T ds mem)" for i
    using inv n that by (metis nth nth_mem subsetD)
  moreover have "od_find (T ds mem) (a0 (od_base (T ds mem) ! i), a1 (od_base (T ds mem) ! i)) = Some i"
    if "i < od_count (T ds mem)" for i
    using inv n that unfolding nth [OF that, symmetric] by (simp add: od.exact_def)
  moreover have "\<exists>i. od_find (T ds mem) (a0 d, a1 d) = Some i \<and>
      a0 (od_base (T ds mem) ! i) = a0 d \<and> a1 (od_base (T ds mem) ! i) = a1 d"
    if lt: "od_count (T ds mem) < length mem" and d: "d \<in> set ds" for d
  proof -
    obtain i where i: "od_find (T ds mem) (a0 d, a1 d) = Some i" using inv n lt d by fastforce
    then have "i < od_count (T ds mem)" "\<not> od_key_cmp (a0 d, a1 d) (od_entries (T ds mem) ! i)"
      using inv n od_find_Some [of "T ds mem" "(a0 d, a1 d)" i] by auto
    then show ?thesis using i nth by (auto simp: od_key_cmp_def)
  qed
  ultimately show ?thesis by (auto simp: od_find_def)
qed

text \<open>
  After registering any list of descriptors in an empty object dictionary,
  every occupied slot is what a scan for its own address returns, so no slot shadows another;
  and unless the table is full, every descriptor of the list has its address in the table.
\<close>

theorem od_lookup_exact:
  "let t = od_registers ds (od_empty mem) in
     (\<forall>i < od_count t. od_base t ! i \<in> set ds \<and>
        vm_od_table_scan (Some t) (Some (a0 (od_base t ! i), a1 (od_base t ! i))) = Some i) \<and>
     (od_count t < length mem \<longrightarrow>
        (\<forall>d \<in> set ds. \<exists>i. vm_od_table_scan (Some t) (Some (a0 d, a1 d)) = Some i \<and>
           a0 (od_base t ! i) = a0 d \<and> a1 (od_base t ! i) = a1 d))"
  unfolding Let_def by (rule od_registers_exact)

definition demo_od :: "u8 \<Rightarrow> od_descriptor" where
  "demo_od x = \<lparr>a0 = 0xA4, a1 = x, a2 = 0x82, a3 = 0, kind = 2, dlc = 5, cb = 1, ctx = 0\<rparr>"

theorem od_lookup_exact_witness:
  "let t = od_registers [demo_od 3, demo_od 5, demo_od 3] (od_empty (replicate 4 (demo_od 0)))
   in od_count t = 2 \<and> vm_od_table_scan (Some t) (Some (a0 (od_base t ! 1), a1 (od_base t ! 1))) = Some 1"
proof -
  let ?ds = "[demo_od 3, demo_od 5, demo_od 3]"
  let ?t = "od_registers ?ds (od_empty (replicate 4 (demo_od 0)))"
  have n: "od_count ?t = 2"
    by (simp add: od_registers_def od_empty_def od_add_def vm_od_table_add_def demo_od_def od_key_cmp_def
        numeral_eq_Suc)
  have "\<forall>i < od_count ?t. vm_od_table_scan (Some ?t) (Some (a0 (od_base ?t ! i), a1 (od_base ?t ! i))) = Some i"
    using od_lookup_exact [of ?ds "replicate 4 (demo_od 0)"] by (simp add: Let_def)
  with n show ?thesis by (simp add: Let_def)
qed

subsection \<open>Byte routines of the user ECU\<close>

text \<open>
  The byte loops of \<open>user_ecu/src/util.c\<close> over a flat memory; a block does not wrap around
  the address space.  Each recursion is one turn of the C loop with its moving pointers.
\<close>

type_synonym memory = "nat \<Rightarrow> u8"

fun vmem_set :: "memory \<Rightarrow> nat \<Rightarrow> u8 \<Rightarrow> nat \<Rightarrow> memory" where
  "vmem_set mem cursor value 0 = mem"
| "vmem_set mem cursor value (Suc n) = vmem_set (mem(cursor := value)) (cursor + 1) value n"

fun vmem_copy :: "memory \<Rightarrow> nat \<Rightarrow> nat \<Rightarrow> nat \<Rightarrow> memory" where
  "vmem_copy mem out cursor 0 = mem"
| "vmem_copy mem out cursor (Suc n) = vmem_copy (mem(out := mem cursor)) (out + 1) (cursor + 1) n"

fun vmem_cmp :: "memory \<Rightarrow> nat \<Rightarrow> nat \<Rightarrow> nat \<Rightarrow> int" where
  "vmem_cmp mem pa pb 0 = 0"
| "vmem_cmp mem pa pb (Suc n) =
     (if mem pa \<noteq> mem pb then uint (mem pa) - uint (mem pb)
      else vmem_cmp mem (pa + 1) (pb + 1) n)"

fun vmem_strncmp :: "memory \<Rightarrow> nat \<Rightarrow> nat \<Rightarrow> nat \<Rightarrow> int" where
  "vmem_strncmp mem p1 p2 0 = 0"
| "vmem_strncmp mem p1 p2 (Suc n) =
     (if mem p1 \<noteq> mem p2 \<or> n = 0 \<or> mem p1 = 0 then uint (mem p1) - uint (mem p2)
      else vmem_strncmp mem (p1 + 1) (p2 + 1) n)"

lemma vmem_set_at: "vmem_set mem d v n a = (if d \<le> a \<and> a < d + n then v else mem a)"
  by (induction n arbitrary: mem d) auto

lemma vmem_copy_outside: "a < d \<or> d + n \<le> a \<Longrightarrow> vmem_copy mem d s n a = mem a"
  by (induction n arbitrary: mem d s) auto

text \<open>
  The forward copy is exact when the destination starts at or before the source or behind its
  end, so that no byte is overwritten before it is read.
\<close>

lemma vmem_copy_inside:
  assumes "d \<le> s \<or> s + n \<le> d" "i < n"
  shows "vmem_copy mem d s n (d + i) = mem (s + i)"
  using assms
proof (induction n arbitrary: mem d s i)
  case (Suc n)
  show ?case
  proof (cases i)
    case 0
    then show ?thesis by (simp add: vmem_copy_outside)
  next
    case (Suc k)
    have "vmem_copy (mem(d := mem s)) (d + 1) (s + 1) n (d + 1 + k) = (mem(d := mem s)) (s + 1 + k)"
      by (rule Suc.IH) (use Suc.prems Suc in auto)
    then show ?thesis using Suc Suc.prems by auto
  qed
qed simp

text \<open>
  The forward byte copy puts the source bytes at the destination and touches
  nothing else, also for overlapping blocks when the destination starts at or before the source.
\<close>

theorem vmem_copy_cmp:
  assumes "d \<le> s \<or> s + n \<le> d"
  shows "(\<forall>i < n. vmem_copy mem d s n (d + i) = mem (s + i)) \<and>
     (\<forall>a. a < d \<or> d + n \<le> a \<longrightarrow> vmem_copy mem d s n a = mem a)"
  using assms by (simp add: vmem_copy_inside vmem_copy_outside)

lemma vmem_cmp_zero: "vmem_cmp mem a b n = 0 \<longleftrightarrow> (\<forall>i < n. mem (a + i) = mem (b + i))"
proof (induction n arbitrary: a b)
  case (Suc n)
  show ?case
  proof (cases "mem a = mem b")
    case True
    then show ?thesis
      using Suc.IH [of "a + 1" "b + 1"] by (auto simp: less_Suc_eq_0_disj)
  next
    case False
    then show ?thesis by (auto simp: word_uint_eq_iff)
  qed
qed simp

subsection \<open>The device registry\<close>

text \<open>
  A slot is a 44-byte record; \<open>cmp\<close> is the comparator stored in the header, true where
  the C function returns a non-zero value.  The search key of an entry is its tail from offset 12.
\<close>

record registry =
  reg_count :: u32
  reg_capacity :: u32
  reg_cmp :: "bytes \<Rightarrow> bytes \<Rightarrow> bool"
  reg_slots :: "bytes list"

definition REGISTRY_KEY_OFFSET :: nat where "REGISTRY_KEY_OFFSET = 12"

text \<open>The scan loop with \<open>n\<close> slots left, from slot \<open>i\<close> on.\<close>

fun registry_scan :: "registry \<Rightarrow> bytes \<Rightarrow> nat \<Rightarrow> nat \<Rightarrow> u32" where
  "registry_scan reg key i 0 = 0xFFFFFFFF"
| "registry_scan reg key i (Suc n) =
     (if \<not> reg_cmp reg key (reg_slots reg ! i) then of_nat i else registry_scan reg key (Suc i) n)"

definition registry_find :: "registry \<Rightarrow> bytes \<Rightarrow> u32" where
  "registry_find reg key = registry_scan reg key 0 (unat (reg_count reg))"

definition registry_add :: "registry option \<Rightarrow> bytes \<Rightarrow> u32 \<times> registry option" where
  "registry_add reg_opt entry =
     (case reg_opt of
        None \<Rightarrow> (0xFFFFFFFF, None)
      | Some reg \<Rightarrow>
          (if reg_capacity reg \<le> reg_count reg then (0xFFFFFFFF, reg_opt)
           else if registry_find reg (drop REGISTRY_KEY_OFFSET entry) \<noteq> 0xFFFFFFFF
           then (0xFFFFFFFF, reg_opt)
           else (let index = reg_count reg
                 in (0, Some (reg\<lparr>reg_count := index + 1,
                                 reg_slots := (reg_slots reg)[unat index := entry]\<rparr>)))))"

text \<open>A slot pointer is the index of the slot.\<close>

definition registry_lookup :: "registry \<Rightarrow> bytes \<Rightarrow> nat option" where
  "registry_lookup reg key =
     (let index = registry_find reg key
      in if index = 0xFFFFFFFF then None else Some (unat index))"

definition registry_lookup_value :: "registry option \<Rightarrow> u32 \<Rightarrow> u32 \<Rightarrow> nat option" where
  "registry_lookup_value reg_opt key0 key1 =
     (case reg_opt of None \<Rightarrow> None | Some reg \<Rightarrow> registry_lookup reg (le32 key0 @ le32 key1))"

definition reg_wf :: "registry \<Rightarrow> bool" where
  "reg_wf reg \<longleftrightarrow> unat (reg_count reg) \<le> unat (reg_capacity reg) \<and>
     length (reg_slots reg) = unat (reg_capacity reg)"

definition reg_entries :: "registry \<Rightarrow> bytes list" where
  "reg_entries reg = take (unat (reg_count reg)) (reg_slots reg)"

definition reg_add :: "registry \<Rightarrow> bytes \<Rightarrow> registry option" where
  "reg_add reg e = (case registry_add (Some reg) e of (rc, r) \<Rightarrow> if rc = 0 then r else None)"

lemma registry_scan_iff:
  assumes "i + n \<le> 0xFFFFFFFF"
  shows "registry_scan reg k i n \<noteq> 0xFFFFFFFF \<and> unat (registry_scan reg k i n) = j \<longleftrightarrow>
     i \<le> j \<and> j < i + n \<and> \<not> reg_cmp reg k (reg_slots reg ! j) \<and>
     (\<forall>l. i \<le> l \<and> l < j \<longrightarrow> reg_cmp reg k (reg_slots reg ! l))"
  using assms
proof (induction n arbitrary: i)
  case (Suc n)
  have u: "unat (of_nat i :: u32) = i" using Suc.prems by (simp add: unat_u32_of_nat)
  have ne: "(of_nat i :: u32) \<noteq> 0xFFFFFFFF"
  proof
    assume "(of_nat i :: u32) = 0xFFFFFFFF"
    then have "unat (of_nat i :: u32) = unat (0xFFFFFFFF :: u32)" by simp
    then show False using Suc.prems by (simp add: u)
  qed
  show ?case
  proof (cases "reg_cmp reg k (reg_slots reg ! i)")
    case True
    then show ?thesis
      using first_match_shift [of "\<lambda>j. \<not> reg_cmp reg k (reg_slots reg ! j)" i j n] Suc.prems
      by (simp add: Suc.IH)
  next
    case False
    then show ?thesis using u ne by auto
  qed
qed simp

lemma reg_find_Some:
  assumes "reg_wf reg"
  shows "registry_lookup reg k = Some i \<longleftrightarrow>
     i < length (reg_entries reg) \<and> \<not> reg_cmp reg k (reg_entries reg ! i) \<and>
     (\<forall>j < i. \<not> \<not> reg_cmp reg k (reg_entries reg ! j))"
proof -
  have n: "0 + unat (reg_count reg) \<le> 0xFFFFFFFF"
    using unat_u32_less [of "reg_count reg"] by linarith
  have "registry_lookup reg k = Some i \<longleftrightarrow>
      registry_find reg k \<noteq> 0xFFFFFFFF \<and> unat (registry_find reg k) = i"
    by (auto simp: registry_lookup_def Let_def)
  also have "\<dots> \<longleftrightarrow> i < unat (reg_count reg) \<and> \<not> reg_cmp reg k (reg_slots reg ! i) \<and>
     (\<forall>l < i. reg_cmp reg k (reg_slots reg ! l))"
    using registry_scan_iff [OF n, of reg k i] by (simp add: registry_find_def)
  finally show ?thesis
    using assms by (auto simp: reg_entries_def reg_wf_def)
qed

interpretation reg: keyed_table reg_entries "\<lambda>r. unat (reg_capacity r)" reg_wf
    "\<lambda>r k e. \<not> reg_cmp r k e" "drop REGISTRY_KEY_OFFSET" registry_lookup reg_add
proof (unfold_locales, goal_cases)
  case (1 t k i)
  then show ?case by (rule reg_find_Some)
next
  case (2 t e)
  then have lt: "unat (reg_count t) < unat (reg_capacity t)"
    by (auto simp: reg_wf_def reg_entries_def)
  have n: "unat (reg_count t + 1) = unat (reg_count t) + 1"
  proof (subst unat_add_no_wrap)
    show "unat (reg_count t) + unat (1 :: u32) < 4294967296"
      using lt unat_u32_less [of "reg_capacity t"] unat_1 [where ?'a = 32] by linarith
  qed simp
  have f: "registry_find t (drop REGISTRY_KEY_OFFSET e) = 0xFFFFFFFF"
    using 2 by (auto simp: registry_lookup_def Let_def split: if_splits)
  have "reg_add t e = Some (t\<lparr>reg_count := reg_count t + 1,
      reg_slots := (reg_slots t)[unat (reg_count t) := e]\<rparr>)"
    using lt f by (simp add: reg_add_def registry_add_def word_le_nat_alt Let_def)
  then show ?case
    using 2(1) lt n by (auto simp: reg_wf_def reg_entries_def take_Suc_conv_app_nth)
next
  case (3 t e)
  then show ?case
    by (auto simp: reg_add_def registry_add_def reg_wf_def reg_entries_def registry_lookup_def Let_def
        word_le_nat_alt split: if_splits)
next
  case (4 t)
  then show ?case by (simp add: reg_wf_def reg_entries_def)
qed

definition registry_adds :: "bytes list \<Rightarrow> registry \<Rightarrow> registry" where
  "registry_adds es r = fold (\<lambda>e r. case reg_add r e of Some r' \<Rightarrow> r' | None \<Rightarrow> r) es r"

definition registry_empty :: "(bytes \<Rightarrow> bytes \<Rightarrow> bool) \<Rightarrow> u32 \<Rightarrow> registry" where
  "registry_empty cmp cap =
     \<lparr>reg_count = 0, reg_capacity = cap, reg_cmp = cmp, reg_slots = replicate (unat cap) []\<rparr>"

text \<open>
  The same for the device registry with any comparator that matches
  an entry against its own key: every occupied slot is found by its own key, holds one of the
  added entries, and nothing is lost unless the registry is full.
\<close>

theorem registry_lookup_exact:
  assumes refl: "\<And>e. e \<in> set es \<Longrightarrow> \<not> cmp (drop 12 e) e"
  shows "(\<forall>i < unat (reg_count (registry_adds es (registry_empty cmp cap))).
        reg_slots (registry_adds es (registry_empty cmp cap)) ! i \<in> set es \<and>
        registry_lookup (registry_adds es (registry_empty cmp cap))
          (drop 12 (reg_slots (registry_adds es (registry_empty cmp cap)) ! i)) = Some i) \<and>
     (reg_count (registry_adds es (registry_empty cmp cap)) < cap \<longrightarrow>
        (\<forall>e \<in> set es. registry_lookup (registry_adds es (registry_empty cmp cap)) (drop 12 e) \<noteq> None))"
proof -
  define T where "T = registry_adds es (registry_empty cmp cap)"
  have e: "reg_wf (registry_empty cmp cap)" "reg_entries (registry_empty cmp cap) = []"
    "reg.exact (registry_empty cmp cap)" "reg_capacity (registry_empty cmp cap) = cap"
    "reg_cmp (registry_empty cmp cap) = cmp"
    by (simp_all add: reg_wf_def registry_empty_def reg_entries_def reg.exact_def)
  have T: "reg.adds es (registry_empty cmp cap) = T"
    by (simp add: T_def registry_adds_def reg.adds_def)
  have inv: "reg_wf T \<and> reg.exact T \<and> unat (reg_capacity T) = unat cap \<and>
     set (reg_entries T) \<subseteq> set es \<and>
     (length (reg_entries T) < unat cap \<longrightarrow> (\<forall>e \<in> set es. registry_lookup T (drop 12 e) \<noteq> None))"
    using reg.adds_invariant [OF e(1,3), of es, unfolded T e] refl by (auto simp: REGISTRY_KEY_OFFSET_def)
  have n: "length (reg_entries T) = unat (reg_count T)"
    using inv by (auto simp: reg_wf_def reg_entries_def)
  have nth: "reg_entries T ! i = reg_slots T ! i" if "i < unat (reg_count T)" for i
    using that by (simp add: reg_entries_def)
  have "reg_slots T ! i \<in> set es" if "i < unat (reg_count T)" for i
    using inv n that by (metis nth nth_mem subsetD)
  moreover have "registry_lookup T (drop 12 (reg_slots T ! i)) = Some i" if "i < unat (reg_count T)" for i
    using inv n that unfolding nth [OF that, symmetric]
    by (simp add: reg.exact_def [unfolded REGISTRY_KEY_OFFSET_def] REGISTRY_KEY_OFFSET_def)
  ultimately show ?thesis
    using inv n unfolding T_def [symmetric] by (auto simp: word_less_nat_alt)
qed

theorem registry_lookup_exact_witness:
  "let t = registry_adds [replicate 44 1, replicate 44 2, replicate 44 1]
       (registry_empty (\<lambda>k e. k \<noteq> drop 12 e) 5)
   in reg_count t = 2 \<and> registry_lookup t (drop 12 (reg_slots t ! 1)) = Some 1 \<and>
      registry_lookup t (replicate 32 2) \<noteq> None"
proof -
  let ?es = "[replicate 44 1, replicate 44 2, replicate 44 1] :: bytes list"
  let ?t = "registry_adds ?es (registry_empty (\<lambda>k e. k \<noteq> drop 12 e) 5)"
  have scan2: "registry_scan r k i 2 =
      (if \<not> reg_cmp r k (reg_slots r ! i) then of_nat i
       else if \<not> reg_cmp r k (reg_slots r ! Suc i) then of_nat (Suc i) else 0xFFFFFFFF)" for r k i
    by (simp add: numeral_2_eq_2)
  have n: "reg_count ?t = 2"
    by (simp add: registry_adds_def registry_empty_def reg_add_def registry_add_def
        registry_find_def REGISTRY_KEY_OFFSET_def Let_def scan2 word_le_nat_alt)
  have all: "\<forall>i < unat (reg_count ?t). registry_lookup ?t (drop 12 (reg_slots ?t ! i)) = Some i"
    "reg_count ?t < 5 \<Longrightarrow> \<forall>e \<in> set ?es. registry_lookup ?t (drop 12 e) \<noteq> None"
    using registry_lookup_exact [of ?es "\<lambda>k e. k \<noteq> drop 12 e" 5] by simp_all
  have "registry_lookup ?t (drop 12 (reg_slots ?t ! 1)) = Some 1"
    using all(1) n by simp
  moreover have "registry_lookup ?t (drop 12 (replicate 44 2)) \<noteq> None"
    using all(2) n by simp
  ultimately show ?thesis using n by (simp add: Let_def)
qed

subsection \<open>CAN identifiers and frames\<close>

text \<open>
  \<open>main/power/src/vm_can.c\<close>.  The kernel's \<open>struct can_frame\<close> is the identifier,
  the length and eight data bytes.
\<close>

record vm_address =
  va0 :: u8
  va1 :: u8
  va2 :: u8
  va3 :: u8

record vm_frame = vm_address +
  vlen :: u8
  vdata :: bytes

record can_frame =
  can_id :: u32
  can_dlc :: u8
  can_data :: bytes

definition CAN_EFF_FLAG :: u32 where "CAN_EFF_FLAG = 0x80000000"

definition vm_can_id_encode :: "u8 \<Rightarrow> u8 \<Rightarrow> u8 \<Rightarrow> u8 \<Rightarrow> u32" where
  "vm_can_id_encode x0 x1 x2 x3 =
     push_bit 21 (ucast x0) OR push_bit 13 (ucast x1) OR push_bit 5 (ucast x2)
       OR (ucast x3 AND 0x1F) OR CAN_EFF_FLAG"

definition vm_can_id_decode :: "u32 \<Rightarrow> vm_frame \<Rightarrow> vm_frame" where
  "vm_can_id_decode i f =
     f\<lparr>va0 := ucast (drop_bit 21 i), va1 := ucast (drop_bit 13 i), va2 := ucast (drop_bit 5 i),
       va3 := ucast (i AND 0x1F)\<rparr>"

definition vm_can_tx :: "vm_frame \<Rightarrow> can_frame option" where
  "vm_can_tx f =
     (if 9 \<le> vlen f then None
      else Some \<lparr>can_id = vm_can_id_encode (va0 f) (va1 f) (va2 f) (va3 f), can_dlc = vlen f,
        can_data = take (unat (vlen f)) (vdata f) @ replicate (8 - unat (vlen f)) 0\<rparr>)"

text \<open>
  The receive thread: the local \<open>f\<close> is reused from frame to frame, so the bytes behind the
  length are what the previous frame left there.  The result is the list of dispatched frames.
\<close>

fun vm_can_rx_thread :: "vm_frame \<Rightarrow> can_frame list \<Rightarrow> vm_frame list" where
  "vm_can_rx_thread f [] = []"
| "vm_can_rx_thread f (cf # cfs) =
     (if can_dlc cf < 9 \<and> can_id cf AND CAN_EFF_FLAG \<noteq> 0 then
        (let f = vm_can_id_decode (can_id cf) f;
             n = unat (can_dlc cf);
             f = f\<lparr>vlen := can_dlc cf, vdata := take n (can_data cf) @ drop n (vdata f)\<rparr>
         in f # vm_can_rx_thread f cfs)
      else vm_can_rx_thread f cfs)"

lemma bit_1F: "bit (0x1F :: 'a :: len word) n \<longleftrightarrow> n < 5 \<and> n < LENGTH('a)"
proof -
  have e: "(0x1F :: 'a word) = mask 5" by (simp add: mask_eq_exp_minus_1)
  show ?thesis unfolding e bit_mask_iff by auto
qed

lemma bit_eff: "bit (0x80000000 :: u32) n \<longleftrightarrow> n = 31"
proof -
  have "(0x80000000 :: u32) = push_bit 31 1" by simp
  then show ?thesis by (auto simp only: bit_push_bit_iff bit_1_iff) (simp_all)
qed

lemma bit8: "bit (x :: u8) n \<Longrightarrow> n < 8"
  by (auto dest: bit_imp_le_length)

lemma bit_encode:
  "bit (vm_can_id_encode x0 x1 x2 x3) n \<longleftrightarrow>
     (21 \<le> n \<and> bit x0 (n - 21)) \<or> (13 \<le> n \<and> bit x1 (n - 13)) \<or> (5 \<le> n \<and> bit x2 (n - 5)) \<or>
     (n < 5 \<and> bit x3 n) \<or> n = 31"
  unfolding vm_can_id_encode_def CAN_EFF_FLAG_def bit_or_iff bit_and_iff bit_push_bit_iff
    bit_ucast_iff bit_1F bit_eff
  by (auto dest: bit8)

lemma decode_encode:
  "vm_can_id_decode (vm_can_id_encode x0 x1 x2 x3) f = f\<lparr>va0 := x0, va1 := x1, va2 := x2, va3 := x3 AND 0x1F\<rparr>"
proof -
  let ?i = "vm_can_id_encode x0 x1 x2 x3"
  have "ucast (drop_bit 21 ?i) = x0" "ucast (drop_bit 13 ?i) = x1" "ucast (drop_bit 5 ?i) = x2"
    by (rule bit_word_eqI, auto simp: bit_simps bit_encode dest: bit8)+
  moreover have "ucast (?i AND 0x1F) = x3 AND 0x1F"
    by (rule bit_word_eqI) (auto simp only: bit_ucast_iff bit_and_iff bit_1F bit_encode possible_bit_word dest: bit8, simp)
  ultimately show ?thesis by (simp add: vm_can_id_decode_def)
qed

lemma encode_eff: "vm_can_id_encode x0 x1 x2 x3 AND CAN_EFF_FLAG \<noteq> 0"
proof -
  have "bit (vm_can_id_encode x0 x1 x2 x3 AND CAN_EFF_FLAG) 31"
    by (simp add: bit_and_iff bit_encode) (simp add: CAN_EFF_FLAG_def bit_eff)
  then show ?thesis by (metis bit_0_eq bot_apply bot_bool_def)
qed

text \<open>
  Frames transmitted and read back by the receive thread keep the
  first three address bytes, the low five bits of the fourth, the length and the payload, in
  order and without loss, whatever the receiver's reused frame held before.
\<close>

theorem can_frame_roundtrip:
  assumes "\<And>f. f \<in> set fs \<Longrightarrow> vlen f \<le> 8 \<and> length (vdata f) = 8"
  shows "map (\<lambda>f. (va0 f, va1 f, va2 f, va3 f, vlen f, take (unat (vlen f)) (vdata f)))
       (vm_can_rx_thread g (List.map_filter vm_can_tx fs))
     = map (\<lambda>f. (va0 f, va1 f, va2 f, va3 f AND 0x1F, vlen f, take (unat (vlen f)) (vdata f))) fs"
  using assms
proof (induction fs arbitrary: g)
  case Nil
  then show ?case by (simp add: List.map_filter_simps)
next
  case (Cons f fs)
  have f: "vlen f \<le> 8" "length (vdata f) = 8" "unat (vlen f) \<le> 8" "\<not> 9 \<le> vlen f" "vlen f < 9"
    using Cons.prems [of f] by (auto simp: word_le_nat_alt word_less_nat_alt)
  obtain g' where "vm_can_rx_thread g (List.map_filter vm_can_tx (f # fs))
      = g' # vm_can_rx_thread g' (List.map_filter vm_can_tx fs)"
    "va0 g' = va0 f" "va1 g' = va1 f" "va2 g' = va2 f" "va3 g' = va3 f AND 0x1F" "vlen g' = vlen f"
    "take (unat (vlen f)) (vdata g') = take (unat (vlen f)) (vdata f)"
    using f by (simp add: List.map_filter_simps vm_can_tx_def encode_eff decode_encode Let_def)
  then show ?case using Cons.IH [of g'] Cons.prems by simp
qed

definition demo_frame :: vm_frame where
  "demo_frame = \<lparr>va0 = 0xA4, va1 = 3, va2 = 0x82, va3 = 0x1F, vlen = 5, vdata = [1, 2, 3, 4, 5, 6, 7, 8]\<rparr>"

theorem can_frame_roundtrip_witness:
  "map (\<lambda>f. (va0 f, va1 f, va2 f, va3 f, vlen f, take (unat (vlen f)) (vdata f)))
       (vm_can_rx_thread demo_frame (List.map_filter vm_can_tx [demo_frame]))
     = map (\<lambda>f. (va0 f, va1 f, va2 f, va3 f AND 0x1F, vlen f, take (unat (vlen f)) (vdata f))) [demo_frame]"
  by (rule can_frame_roundtrip) (simp add: demo_frame_def)

theorem vmem_copy_cmp_witness:
  "vmem_copy (\<lambda>a. of_nat a) 10 12 3 11 = 13 \<and> vmem_copy (\<lambda>a. of_nat a) 10 12 3 20 = 20"
proof -
  let ?m = "vmem_copy (\<lambda>a. of_nat a) 10 12 3"
  have all: "\<forall>i < 3. ?m (10 + i) = of_nat (12 + i)"
      "\<forall>a. a < 10 \<or> 10 + 3 \<le> a \<longrightarrow> ?m a = of_nat a"
    using vmem_copy_cmp [of 10 12 3 "\<lambda>a. of_nat a"] by simp_all
  have "?m (10 + 1) = of_nat (12 + 1)" using all(1) by (rule allE [where x = 1]) simp
  moreover have "?m 20 = of_nat 20" using all(2) by (rule allE [where x = 20]) simp
  ultimately show ?thesis by simp
qed

end
