(* ===== verification/ChargeCalc.thy ===== *)
theory ChargeCalc
  imports Prelude
begin

text \<open>
  The arithmetic of the Liteon charger, without its state machine: setpoint scaling
  (\<open>charger/src/charge.c\<close>), current derating and the search for the timing divisor
  (\<open>charger/src/profile.c\<close>), the fault-code look-up, the flash guard and the identity
  records (\<open>charger/src/misc.c\<close>, \<open>charger/src/identity.c\<close>) and the dispatch by
  peripheral address (\<open>charger/src/dispatch.c\<close>).

  Tables that live in flash outside the image (temperature breakpoints, fault codes) and flash
  driver calls are arguments.
\<close>

subsection \<open>Setpoint scaling\<close>

text \<open>
  The new value of the field at \<open>CHG_SETPOINT_CTX + 4\<close>, or \<open>None\<close> for a rejected
  request.  The request is the bit pattern of the \<open>int\<close> argument.
\<close>

definition charger_set_charge_setpoint :: "u32 \<Rightarrow> u16 option" where
  "charger_set_charge_setpoint raw =
     (if raw \<noteq> 0 then
        (if 0x972C < (raw - 0x4204) AND 0xFFFF then None
         else Some (ucast (push_bit 13 raw div 0xEA83)))
      else Some 0)"

definition charger_set_charge_scaled_setpoint :: "u32 \<Rightarrow> u16" where
  "charger_set_charge_scaled_setpoint raw =
     (if raw < 0x7D1 then ucast (push_bit 13 raw div 0xDB6) else 0x123B)"

lemma and_ffff: "(x :: u32) AND 0xFFFF = of_nat (unat x mod 65536)"
proof -
  have "(0xFFFF :: u32) = mask 16" by (simp add: mask_eq_exp_minus_1)
  then have "x AND 0xFFFF = take_bit 16 x" by (simp only: take_bit_eq_mask)
  then show ?thesis by (simp add: word_unat_eq_iff unsigned_take_bit_eq take_bit_eq_mod unat_of_nat unat_mod)
qed

lemma unat_scaled:
  assumes "unat (x :: u32) < 524288" "0 < unat d"
  shows "unat (push_bit 13 x div d) = unat x * 8192 div unat d"
proof -
  have "unat (push_bit 13 x) = unat x * 8192"
    using assms by (simp add: push_bit_eq_mult unat_word_ariths)
  then show ?thesis by (simp add: unat_div)
qed

lemma unat_ucast16: "unat (x :: u32) < 65536 \<Longrightarrow> unat (ucast x :: u16) = unat x"
  by (simp add: unsigned_ucast_eq take_bit_eq_mod)

text \<open>
  On 16-bit requests the window test is the range test, the scaled value fits and grows with the
  request; on wider ones the test looks at the low half only.
\<close>

text \<open>
  For every 16-bit request the charge setpoint is rejected exactly when it
  is not zero and outside 0x4204 to 0xD930; an accepted request is scaled by 8192/60035 without
  loss in 32 or 16 bits, to at most 0x1DA2.
\<close>

theorem setpoint_window:
  assumes "unat raw < 65536"
  shows "(case charger_set_charge_setpoint raw of
       None \<Rightarrow> raw \<noteq> 0 \<and> \<not> (0x4204 \<le> unat raw \<and> unat raw \<le> 0xD930)
     | Some out \<Rightarrow> (raw = 0 \<or> (0x4204 \<le> unat raw \<and> unat raw \<le> 0xD930)) \<and>
         unat out = unat raw * 8192 div 0xEA83 \<and> unat out \<le> 0x1DA2)"
proof -
  have sub: "unat (raw - 0x4204) mod 65536 =
      (if 0x4204 \<le> unat raw then unat raw - 0x4204 else unat raw + 65536 - 0x4204)"
  proof (cases "0x4204 \<le> unat raw")
    case True
    then have "unat (raw - 0x4204) = unat raw - 0x4204"
      using unat_sub_no_wrap [of "0x4204" raw] by simp
    then show ?thesis using True assms by simp
  next
    case False
    have "unat (raw - 0x4204) = unat raw + 4294967296 - 0x4204"
      using False by (simp add: unat_sub_if' word_le_nat_alt)
    also have "\<dots> = (unat raw + 65536 - 0x4204) + 65535 * 65536" using False by simp
    finally have "unat (raw - 0x4204) mod 65536 = (unat raw + 65536 - 0x4204) mod 65536"
      by (simp only: mod_mult_self1)
    then show ?thesis using False by simp
  qed
  have win: "0x972C < (raw - 0x4204) AND 0xFFFF \<longleftrightarrow> \<not> (0x4204 \<le> unat raw \<and> unat raw \<le> 0xD930)"
    using assms sub by (simp add: and_ffff word_less_nat_alt unat_of_nat) linarith
  have out: "unat (ucast (push_bit 13 raw div 0xEA83) :: u16) = unat raw * 8192 div 0xEA83"
    "unat raw * 8192 div 0xEA83 \<le> 0x1DA2" if "unat raw \<le> 0xD930"
  proof -
    have d: "unat (push_bit 13 raw div 0xEA83) = unat raw * 8192 div 0xEA83"
      using that unat_scaled [of raw "0xEA83"] by simp
    show b: "unat raw * 8192 div 0xEA83 \<le> 0x1DA2"
      using that by (simp add: div_le_mono order_trans [OF div_le_mono [of _ "0xD930 * 8192"]])
    show "unat (ucast (push_bit 13 raw div 0xEA83) :: u16) = unat raw * 8192 div 0xEA83"
      using b d by (simp add: unat_ucast16)
  qed
  show ?thesis
    using out by (auto simp: charger_set_charge_setpoint_def win)
qed

lemma scaled_setpoint_value:
  "unat (charger_set_charge_scaled_setpoint raw) = min (unat raw * 8192 div 0xDB6) 0x123B"
proof (cases "raw < 0x7D1")
  case True
  then have r: "unat raw \<le> 2000" by (simp add: word_less_nat_alt)
  then have d: "unat (push_bit 13 raw div 0xDB6) = unat raw * 8192 div 0xDB6"
    using unat_scaled [of raw "0xDB6"] by simp
  have b: "unat raw * 8192 div 0xDB6 \<le> 2000 * 8192 div 0xDB6"
    using r by (intro div_le_mono) simp
  show ?thesis
    using True b d by (simp add: charger_set_charge_scaled_setpoint_def unat_ucast16)
next
  case False
  then have "2001 * 8192 div 0xDB6 \<le> unat raw * 8192 div 0xDB6"
    by (intro div_le_mono) (simp add: word_less_nat_alt)
  then show ?thesis
    using False by (simp add: charger_set_charge_scaled_setpoint_def)
qed

theorem scaled_setpoint_saturates:
  "unat (charger_set_charge_scaled_setpoint raw) = min (unat raw * 8192 div 0xDB6) 0x123B \<and>
   (raw \<le> raw' \<longrightarrow> charger_set_charge_scaled_setpoint raw \<le> charger_set_charge_scaled_setpoint raw')"
proof -
  have "unat raw * 8192 div 0xDB6 \<le> unat raw' * 8192 div 0xDB6" if "raw \<le> raw'"
    using that by (intro div_le_mono) (simp add: word_le_nat_alt)
  then show ?thesis
    by (auto simp: scaled_setpoint_value word_le_nat_alt min_def)
qed

subsection \<open>Status words\<close>

definition charger_status_flag_set :: "u16 \<Rightarrow> u16 \<Rightarrow> u16" where
  "charger_status_flag_set m status = (if status AND m = 0 then status OR m else status)"

definition charger_status_flag_clear :: "u16 \<Rightarrow> u16 \<Rightarrow> u16" where
  "charger_status_flag_clear m status =
     (if status AND m \<noteq> 0 then status AND NOT m else status)"

lemma status_clear_bits: "charger_status_flag_clear m status = status AND NOT m"
proof (cases "status AND m = 0")
  case True
  then have "bit status n \<longrightarrow> \<not> bit m n" for n
    by (metis bit_and_iff bit_0_eq bot_apply bot_bool_def)
  then have "status AND NOT m = status"
    by (intro bit_word_eqI) (auto simp: bit_simps)
  then show ?thesis using True by (simp add: charger_status_flag_clear_def)
qed (simp add: charger_status_flag_clear_def)

subsection \<open>Current derating\<close>

record temp_bp =
  thresh :: int
  slope :: int
  toffset :: int

text \<open>
  The search for the breakpoint: from entry 9 down to the first whose threshold is not above the
  temperature.  Running below entry 0 leaves the index at 0xFFFF, which is outside the table.
\<close>

fun derate_index :: "temp_bp list \<Rightarrow> int \<Rightarrow> nat \<Rightarrow> nat option" where
  "derate_index table temp 0 = None"
| "derate_index table temp (Suc idx) =
     (if temp < thresh (table ! idx) then derate_index table temp idx else Some idx)"

definition charge_derate :: "temp_bp list \<Rightarrow> nat \<Rightarrow> nat \<Rightarrow> int \<Rightarrow> nat \<Rightarrow> nat option" where
  "charge_derate table scale voltage temp limit =
     (let vderate = (if voltage < 200 then 0 else (scale * ((voltage * 28000 + 0x8000) div 65536)) div 8192);
          limit = (if vderate < limit then (limit - vderate) mod 65536 else limit);
          idx = (if temp < -10 then Some 0 else derate_index table temp 10)
      in map_option (\<lambda>idx.
           (let tderate = ((slope (table ! idx) * temp + toffset (table ! idx)) div 65536) * 0x22EE div 65536
            in if tderate < 1 \<or> tderate < int limit then nat ((int limit - tderate) mod 65536)
               else limit)) idx)"

lemma derate_index_Some:
  "n \<noteq> 0 \<Longrightarrow> thresh (table ! 0) \<le> temp \<Longrightarrow> \<exists>i < n. derate_index table temp n = Some i"
proof (induction n)
  case (Suc n)
  then show ?case by (cases "n = 0") (auto simp: less_Suc_eq)
qed simp

text \<open>
  With a first breakpoint at or below -10 degrees no entry outside the table is read, and
  coefficients that give no negative derating never raise the limit.
\<close>

theorem derate_total:
  assumes "length table = 11" "thresh (table ! 0) \<le> -10" "limit < 256"
    and pos: "\<And>i. i < 10 \<Longrightarrow> 0 \<le> (slope (table ! i) * temp + toffset (table ! i))"
  shows "\<exists>l. charge_derate table scale voltage temp limit = Some l \<and> l \<le> limit"
proof -
  define idx where "idx = (if temp < -10 then Some 0 else derate_index table temp 10)"
  obtain i where i: "idx = Some i" "i < 10"
  proof (cases "temp < -10")
    case True
    then show ?thesis using that [of 0] by (simp add: idx_def)
  next
    case False
    then have "thresh (table ! 0) \<le> temp" using assms(2) by linarith
    then obtain j where "j < 10" "derate_index table temp 10 = Some j"
      using derate_index_Some [of 10 table temp] by auto
    then show ?thesis using that [of j] False by (simp add: idx_def)
  qed
  define td where "td = ((slope (table ! i) * temp + toffset (table ! i)) div 65536) * 0x22EE div 65536"
  have td: "0 \<le> td" using pos [OF i(2)] by (simp add: td_def pos_imp_zdiv_nonneg_iff)
  define l where "l = (let vderate = (if voltage < 200 then 0 else (scale * ((voltage * 28000 + 0x8000) div 65536)) div 8192)
      in if vderate < limit then (limit - vderate) mod 65536 else limit)"
  have l: "l \<le> limit" using assms(3) by (simp add: l_def Let_def)
  have "charge_derate table scale voltage temp limit =
      Some (if td < 1 \<or> td < int l then nat ((int l - td) mod 65536) else l)"
    unfolding charge_derate_def Let_def i(1) [unfolded idx_def] option.map td_def l_def by (rule refl)
  moreover have "(if td < 1 \<or> td < int l then nat ((int l - td) mod 65536) else l) \<le> l"
    using td l assms(3) by auto
  ultimately show ?thesis using l by auto
qed

subsection \<open>The timing divisor\<close>

record charge_frame =
  quotient :: u16
  phase :: u8
  duty_byte :: u8
  comp_byte :: u8

text \<open>
  One candidate multiplier.  \<open>Inl\<close> is a return, with the frame as written so far;
  \<open>Inr\<close> continues the search.
\<close>

definition profile_try ::
  "u32 \<Rightarrow> u32 \<Rightarrow> u32 \<Rightarrow> u32 \<Rightarrow> charge_frame \<Rightarrow> (bool \<times> charge_frame) + charge_frame" where
  "profile_try base tot mult period f =
     (if period \<le> tot \<and> period * (tot div period) - tot = 0 then
        (let q = tot div period - 1; f = f\<lparr>quotient := ucast q\<rparr>
         in if 0x1FF < q AND 0xFFFF then Inl (False, f)
            else
              (let factor = (if 999999 < base then 0x2EE else if 799999 < base then 800 else 0x36B);
                   duty = (mult * factor) div 1000 - 1;
                   duty_lo = (ucast (duty AND 0xFF) :: u8);
                   f = f\<lparr>duty_byte := ucast duty\<rparr>
               in if duty_lo \<le> ucast ((mult AND 0xFF) - 3) then
                    (let comp = (mult - 3) - ucast duty_lo; f = f\<lparr>comp_byte := ucast comp\<rparr>
                     in if \<not> bit (push_bit 24 comp) 31 then
                          Inl (True, f\<lparr>phase := ucast (((mult AND 0xFF) + 4) div 5 - 1)\<rparr>)
                        else Inr f)
                  else Inr f))
      else Inr f)"

text \<open>
  The loop, with the multiplier counting down to 3; a zero period divides by zero.
\<close>

fun profile_search :: "nat \<Rightarrow> u32 \<Rightarrow> u32 \<Rightarrow> charge_frame \<Rightarrow> (bool \<times> charge_frame) option" where
  "profile_search 0 base tot f = Some (False, f)"
| "profile_search (Suc n) base tot f =
     (let mult = of_nat (n + 3); period = base * mult
      in if period = 0 then None
         else case profile_try base tot mult period f of
           Inl r \<Rightarrow> Some r
         | Inr f' \<Rightarrow> profile_search n base tot f')"

definition charger_compute_charge_profile_setpoints ::
  "u32 \<Rightarrow> u32 \<Rightarrow> charge_frame \<Rightarrow> (bool \<times> charge_frame) option" where
  "charger_compute_charge_profile_setpoints base tot f = profile_search 0x17F base tot f"

lemma and_ff: "(x :: u32) AND 0xFF = of_nat (unat x mod 256)"
proof -
  have "(0xFF :: u32) = mask 8" by (simp add: mask_eq_exp_minus_1)
  then have "x AND 0xFF = take_bit 8 x" by (simp only: take_bit_eq_mask)
  then show ?thesis
    by (simp add: word_unat_eq_iff unsigned_take_bit_eq take_bit_eq_mod unat_of_nat unat_mod)
qed

lemma unat_ucast_u8: "unat (ucast (x :: u32) :: u8) = unat x mod 256"
  by (simp add: unsigned_ucast_eq take_bit_eq_mod)

lemma unat_ucast_u16: "unat (ucast (x :: u32) :: u16) = unat x mod 65536"
  by (simp add: unsigned_ucast_eq take_bit_eq_mod)

text \<open>A candidate that is accepted divides the total exactly, and the quotient fits nine bits.\<close>

lemma profile_try_sound:
  assumes "profile_try base tot mult period f = Inl (True, f')"
  shows "period \<le> tot \<and> period * (tot div period) = tot \<and>
     unat (quotient f') = unat (tot div period - 1) mod 65536 \<and> unat (quotient f') \<le> 0x1FF"
  using assms
  by (auto simp: profile_try_def Let_def unat_ucast_u16 and_ffff word_less_nat_alt unat_of_nat
      split: if_splits)

text \<open>
  The search returns for every request with a base that is not zero and small enough for the
  period not to wrap; a frame it reports describes an exact division.
\<close>

lemma profile_search_sound:
  assumes "unat base * (n + 3) < 4294967296" "base \<noteq> 0" "n \<le> 0x17F"
  shows "\<exists>ok f'. profile_search n base tot f = Some (ok, f') \<and>
     (ok \<longrightarrow> (\<exists>m \<in> {3..<n + 3}. \<exists>k. unat base * m * k = unat tot \<and> 0 < k \<and>
        unat (quotient f') = (k - 1) mod 65536 \<and> unat (quotient f') \<le> 0x1FF))"
  using assms
proof (induction n arbitrary: f)
  case 0
  show ?case by (rule exI [of _ False], rule exI [of _ f]) simp
next
  case (Suc n)
  define period where "period = base * of_nat (n + 3)"
  have m: "unat (of_nat (n + 3) :: u32) = n + 3" using Suc.prems by (intro unat_u32_of_nat) simp
  have lt: "unat base * (n + 3) < 4294967296"
    using Suc.prems(1) by (rule le_less_trans [rotated]) simp
  then have p: "unat period = unat base * (n + 3)"
    unfolding period_def unat_word_ariths m by simp
  have b: "0 < unat base" using Suc.prems(2) by (simp add: unat_gt_0)
  have p0: "period \<noteq> 0" using p b by (auto simp: word_unat_eq_iff)
  have rec: "profile_search (Suc n) base tot f =
      (case profile_try base tot (of_nat (n + 3)) period f of
         Inl r \<Rightarrow> Some r | Inr f' \<Rightarrow> profile_search n base tot f')"
    using p0 by (simp add: period_def Let_def)
  show ?case
  proof (cases "profile_try base tot (of_nat (n + 3)) period f")
    case (Inr f1)
    obtain ok f' where ok: "profile_search n base tot f1 = Some (ok, f')"
      "ok \<longrightarrow> (\<exists>m \<in> {3..<n + 3}. \<exists>k. unat base * m * k = unat tot \<and> 0 < k \<and>
        unat (quotient f') = (k - 1) mod 65536 \<and> unat (quotient f') \<le> 0x1FF)"
      using Suc.IH [of f1] Suc.prems lt by auto
    then show ?thesis unfolding rec Inr by (fastforce split: sum.split)
  next
    case (Inl r)
    obtain ok f' where r: "r = (ok, f')" by (cases r)
    have "\<exists>m \<in> {3..<Suc n + 3}. \<exists>k. unat base * m * k = unat tot \<and> 0 < k \<and>
        unat (quotient f') = (k - 1) mod 65536 \<and> unat (quotient f') \<le> 0x1FF" if ok
    proof -
      have s: "period \<le> tot" "period * (tot div period) = tot"
        "unat (quotient f') = unat (tot div period - 1) mod 65536" "unat (quotient f') \<le> 0x1FF"
        using profile_try_sound [of base tot "of_nat (n + 3)" period f f'] Inl r that by auto
      define k where "k = unat tot div unat period"
      have k: "unat (tot div period) = k" by (simp add: k_def unat_div)
      have le: "unat period \<le> unat tot" using s(1) by (simp add: word_le_nat_alt)
      have "0 < k" using le p b by (simp add: k_def div_greater_zero_iff)
      have "unat period * k \<le> unat tot" by (simp add: k_def)
      moreover have "(unat period * k) mod 4294967296 = unat tot"
        using arg_cong [OF s(2), of unat] unfolding unat_word_ariths by (simp add: k_def mod_simps)
      ultimately have "unat period * k = unat tot"
        using unat_u32_less [of tot] by (metis le_less_trans mod_less)
      moreover have "unat (tot div period - 1) = k - 1"
        using \<open>0 < k\<close> k by (subst unat_sub_no_wrap) simp_all
      ultimately have "unat base * (n + 3) * k = unat tot \<and> 0 < k \<and>
          unat (quotient f') = (k - 1) mod 65536 \<and> unat (quotient f') \<le> 0x1FF"
        using s \<open>0 < k\<close> p by simp
      then show ?thesis by (intro bexI [of _ "n + 3"]) auto
    qed
    then show ?thesis unfolding rec Inl r by auto
  qed
qed

text \<open>
  For a base frequency that is not zero and small enough for the
  period not to wrap, the search for the timing divisor returns, and a reported frame describes
  an exact division: the base, a multiplier between 3 and 385 and the quotient plus one multiply
  to the total, up to the 16 bits the frame keeps of the quotient.
\<close>

theorem profile_search_exact:
  assumes "base \<noteq> 0" "unat base * 0x182 < 4294967296"
  shows "\<exists>ok f'. charger_compute_charge_profile_setpoints base tot f = Some (ok, f') \<and>
     (ok \<longrightarrow> (\<exists>m \<in> {3..0x181}. \<exists>k. unat base * m * k = unat tot \<and> 0 < k \<and>
        unat (quotient f') = (k - 1) mod 65536 \<and> unat (quotient f') \<le> 0x1FF))"
proof -
  have "{3..<0x17F + 3} = {3..0x181 :: nat}" by auto
  then show ?thesis
    using profile_search_sound [of base "0x17F" tot f] assms
    by (simp add: charger_compute_charge_profile_setpoints_def)
qed

definition blank_frame :: charge_frame where
  "blank_frame = \<lparr>quotient = 0, phase = 0, duty_byte = 0, comp_byte = 0\<rparr>"

theorem setpoint_window_witness:
  "\<exists>out. charger_set_charge_setpoint 0x9000 = Some out \<and> unat out = 0x9000 * 8192 div 0xEA83"
proof -
  obtain out where out: "charger_set_charge_setpoint 0x9000 = Some out"
    using setpoint_window [of "0x9000"] by (auto split: option.splits)
  with setpoint_window [of "0x9000"] show ?thesis by simp
qed

theorem scaled_setpoint_saturates_witness:
  "unat (charger_set_charge_scaled_setpoint 100) = min (unat (100 :: u32) * 8192 div 0xDB6) 0x123B \<and>
   ((100 :: u32) \<le> 3000 \<longrightarrow> charger_set_charge_scaled_setpoint 100 \<le> charger_set_charge_scaled_setpoint 3000)"
  by (rule scaled_setpoint_saturates)

definition demo_table :: "temp_bp list" where
  "demo_table = replicate 11 \<lparr>thresh = -10, slope = 0, toffset = 200000\<rparr>"

theorem derate_total_witness:
  "\<exists>l. charge_derate demo_table 3 2000 25 100 = Some l \<and> l \<le> 100"
  by (rule derate_total) (simp_all add: demo_table_def nth_replicate)

theorem profile_search_exact_witness:
  "\<exists>ok f'. charger_compute_charge_profile_setpoints 500000 96000000 blank_frame = Some (ok, f') \<and>
     (ok \<longrightarrow> (\<exists>m \<in> {3..0x181}. \<exists>k. unat (500000 :: u32) * m * k = unat (96000000 :: u32) \<and> 0 < k \<and>
        unat (quotient f') = (k - 1) mod 65536 \<and> unat (quotient f') \<le> 0x1FF))"
  by (rule profile_search_exact) simp_all

subsection \<open>Fault codes, flash guard and identity records\<close>

fun find_from :: "u32 list \<Rightarrow> u32 \<Rightarrow> nat \<Rightarrow> nat" where
  "find_from [] code i = i"
| "find_from (t # ts) code i = (if t = code then i else find_from ts code (i + 1))"

text \<open>The table has eight entries.\<close>

definition charger_find_fault_index :: "u32 list \<Rightarrow> u32 \<Rightarrow> nat" where
  "charger_find_fault_index table code = find_from (take 8 table) code 0"

text \<open>
  The dispatch by M_CAN base address: the handler, its key and its argument.  An address that
  is not in the table indexes all three tables at 8, behind their ends.
\<close>

definition charge_dispatch_from_reg ::
  "u32 list \<Rightarrow> u32 list \<Rightarrow> 'h list \<Rightarrow> u32 \<Rightarrow> ('h \<times> u32 \<times> u32) option" where
  "charge_dispatch_from_reg keys arg1 handlers reg_base =
     (let idx = charger_find_fault_index keys reg_base
      in if idx < length handlers \<and> idx < length keys \<and> idx < length arg1
         then Some (handlers ! idx, keys ! idx, arg1 ! idx) else None)"

datatype flash_event =
    FlashErase u32 u32
  | FlashWrite u32 bytes
  | FlashOp u32 u32
  | FlashPrep u32
  | ErrorPost int
  | CmdSetup
  | CmdSend u32
  | CmdRecv u32
  | CmdFinish u32

definition charger_flash_program_record ::
  "int \<Rightarrow> u32 \<Rightarrow> u32 \<Rightarrow> bytes \<Rightarrow> int \<times> flash_event list" where
  "charger_flash_program_record erase_rc addr count buf =
     (if 0x10000 \<le> addr + count then (0, [])
      else if erase_rc \<noteq> 0 then (0, [FlashErase 0xFE00 0x200])
      else (1, [FlashErase 0xFE00 0x200, FlashWrite addr buf]))"

text \<open>\<open>ck = ck - *p\<close> over a block.\<close>

definition sub_checksum :: "bytes \<Rightarrow> u8" where
  "sub_checksum bs = fold (\<lambda>b ck. ck - b) bs 0"

definition identity_records :: "bytes \<Rightarrow> bytes" where
  "identity_records rec =
     (let rec = rec[0 := 0x13, 1 := 0, 2 := 0xFF];
          ck = sub_checksum (take 0x13 rec);
          rec = rec[0x14 := 0x11, 0x15 := 0, 0x16 := 0xFF];
          rec = rec[2 := ck];
          ck = sub_checksum (take 0x11 (drop 0x14 rec))
      in rec[0x16 := ck])"

definition charger_write_identity_config_record :: "int \<Rightarrow> bytes \<Rightarrow> int \<times> flash_event list" where
  "charger_write_identity_config_record erase_rc rec =
     charger_flash_program_record erase_rc 0xFE00 0x24 (identity_records rec)"

record cmd_record =
  cmd_flags :: u32
  recv_buf :: u32
  send_buf :: u32
  cmd_payload :: u32

definition charger_process_command_record :: "cmd_record \<Rightarrow> int \<times> cmd_record \<times> flash_event list" where
  "charger_process_command_record r =
     (let fl = cmd_flags r
      in if fl AND 3 = 0 then (-1, r, [])
         else (0, \<lparr>cmd_flags = 0, recv_buf = 0, send_buf = 0, cmd_payload = 0\<rparr>,
           (if \<not> bit fl 3 then
              [CmdSetup, CmdSend (send_buf r)] @
              (if bit fl 11 then [CmdRecv (recv_buf r)] else []) @
              (if fl AND 0xFFC00000 = 0xAD800000 then [CmdFinish (cmd_payload r)] else [])
            else [])))"

text \<open>
  The identity page: the copy of the 512 bytes at 0xFC00 with a new footer.  \<open>op_rc\<close> is the
  result of the flash preparation and \<open>crc_of\<close> the vendor checksum of the image.
\<close>

definition charger_write_identity_block ::
  "int \<Rightarrow> (u32 \<Rightarrow> u32 \<Rightarrow> u32) \<Rightarrow> bytes \<Rightarrow> u32 \<Rightarrow> u8 \<Rightarrow> u8 \<times> flash_event list" where
  "charger_write_identity_block op_rc crc_of page mode flag =
     (if op_rc \<noteq> 0 then (flag, [FlashOp 0x9200 0x36, ErrorPost 0x20])
      else
        (let (crc, flag) = (if mode = 1 then (crc_of 0x9200 0x6BF8, 1) else (0, flag));
             buf = page[0x1FF := 0, 0x1FE := 0, 0x1FD := 0, 0x1FB := ucast crc,
                        0x1FA := ucast (drop_bit 8 crc), 0x1F9 := ucast (drop_bit 16 crc),
                        0x1F8 := ucast (drop_bit 24 crc), 0x1FC := ucast mode]
         in (flag, [FlashOp 0x9200 0x36, FlashPrep 0xFC00, FlashWrite 0xFC00 buf])))"

lemma find_from_bound: "i \<le> find_from ts code i \<and> find_from ts code i \<le> i + length ts"
proof (induction ts arbitrary: i)
  case (Cons t ts)
  show ?case using Cons.IH [of "i + 1"] by (auto dest: Suc_leD)
qed simp

lemma find_from_found:
  "find_from ts code i = i + j \<Longrightarrow> j < length ts \<Longrightarrow> ts ! j = code"
proof (induction ts arbitrary: i j)
  case (Cons t ts)
  show ?case
  proof (cases "t = code")
    case True
    then show ?thesis using Cons.prems by auto
  next
    case False
    then have r: "find_from ts code (i + 1) = i + j" using Cons.prems by simp
    then obtain k where "j = Suc k"
      using find_from_bound [of "i + 1" ts code] by (cases j) auto
    then show ?thesis using Cons.IH [of "i + 1" k] r Cons.prems by simp
  qed
qed simp

lemma sub_checksum_sum: "sub_checksum bs = - sum_list bs"
proof -
  have "fold (\<lambda>b ck. ck - b) bs c = c - sum_list bs" for c :: u8
    by (induction bs arbitrary: c) (auto simp: diff_diff_eq)
  then show ?thesis by (simp add: sub_checksum_def)
qed

lemma sum_list_update_u8:
  fixes bs :: bytes
  shows "i < length bs \<Longrightarrow> sum_list (bs[i := v]) = sum_list bs - bs ! i + v"
  by (induction bs arbitrary: i) (auto simp: nth_Cons split: nat.split)

text \<open>
  A block checked with the byte 0xFF in the place of its checksum sums to one with the checksum.
\<close>

lemma checksum_residue:
  assumes "i < length bs" "bs ! i = 0xFF"
  shows "sum_list (bs[i := sub_checksum bs]) = 1"
  using assms by (simp add: sum_list_update_u8 sub_checksum_sum)

text \<open>
  Both identity records get a checksum that makes the sum of the
  covered bytes (19 of the first record, 17 of the second) equal to one modulo 256, and only the
  headers and the checksums change.
\<close>

theorem identity_record_sums:
  assumes "length rec = 0x26"
  shows "sum_list (take 0x13 (identity_records rec)) = 1 \<and>
     sum_list (take 0x11 (drop 0x14 (identity_records rec))) = 1 \<and>
     identity_records rec ! 0 = 0x13 \<and> identity_records rec ! 0x14 = 0x11 \<and>
     (\<forall>i < 0x26. i \<notin> {0, 1, 2, 0x14, 0x15, 0x16} \<longrightarrow> identity_records rec ! i = rec ! i)"
proof -
  define r1 where "r1 = rec[0 := 0x13, 1 := 0, 2 := 0xFF]"
  define r2 where "r2 = r1[0x14 := 0x11, 0x15 := 0, 0x16 := 0xFF, 2 := sub_checksum (take 0x13 r1)]"
  have fin: "identity_records rec = r2[0x16 := sub_checksum (take 0x11 (drop 0x14 r2))]"
    by (simp add: identity_records_def Let_def r1_def r2_def)
  have l: "length r1 = 0x26" "length r2 = 0x26" using assms by (simp_all add: r1_def r2_def)
  have "take 0x13 (identity_records rec) = (take 0x13 r1)[2 := sub_checksum (take 0x13 r1)]"
    using l by (simp add: fin r2_def take_update_swap take_update_cancel list_update_beyond)
  moreover have "sum_list ((take 0x13 r1)[2 := sub_checksum (take 0x13 r1)]) = 1"
    by (rule checksum_residue) (use l assms in \<open>simp_all add: r1_def\<close>)
  moreover have "take 0x11 (drop 0x14 (identity_records rec)) =
      (take 0x11 (drop 0x14 r2))[2 := sub_checksum (take 0x11 (drop 0x14 r2))]"
    using l by (simp add: fin drop_update_swap take_update_swap)
  moreover have "sum_list ((take 0x11 (drop 0x14 r2))[2 := sub_checksum (take 0x11 (drop 0x14 r2))]) = 1"
    by (rule checksum_residue) (use l in \<open>simp_all add: r2_def\<close>)
  moreover have "identity_records rec ! i = rec ! i" if "i < 0x26" "i \<notin> {0, 1, 2, 0x14, 0x15, 0x16}" for i
    using that by (simp add: fin r2_def r1_def nth_list_update)
  ultimately show ?thesis
    using l assms by (simp add: fin r2_def r1_def nth_list_update)
qed

theorem identity_record_sums_witness:
  "sum_list (take 0x13 (identity_records (replicate 0x26 7))) = 1 \<and>
     sum_list (take 0x11 (drop 0x14 (identity_records (replicate 0x26 7)))) = 1 \<and>
     identity_records (replicate 0x26 7) ! 5 = 7"
  using identity_record_sums [of "replicate 0x26 7"] by simp

end
