(* ===== verification/Charger.thy ===== *)
theory Charger
  imports ChargeCalc
begin

text \<open>
  The charge state machine of the Liteon charger (\<open>charger/src/state.c\<close>,
  \<open>charger/src/fsm.c\<close>, \<open>charger/src/fsm_step.c\<close> and the report builder
  \<open>charger/src/report.c\<close>).

  The RAM globals are the fields of a record; two names of the C code for one address are one
  field (the gate byte of the step function is the status byte of \<open>state.c\<close>).  The vendor
  accessors are read from an environment that gives the answers of the \<open>n\<close>-th read, so that
  two reads in a row may differ; the vendor actions are logged.
\<close>

subsection \<open>State\<close>

record chg_reads =
  r_status_bits :: u32
  r_state :: int
  r_value16 :: int
  r_arm_flag :: int
  r_query_chg :: int
  r_nibble_a :: u32
  r_nibble_b :: u32
  r_meas :: int
  r_query_2ca8 :: int
  r_mode :: int
  r_limit :: int
  r_query_1c54 :: int
  r_19e0 :: int
  r_1a74 :: u32
  r_3394 :: u32

type_synonym chg_env = "nat \<Rightarrow> chg_reads"

datatype chg_event =
    EventPost int int int
  | ClearOutput int
  | FaultReg u32
  | Helper u32
  | StatusCmd int
  | ArmTx int
  | NotifyState
  | TeardownStep
  | PostMode int
  | SendReport int
  | TxEnqueue u32 bytes

record chg =
  clk :: nat
  state_byte :: u8
  state_flags :: u8
  status_byte :: u8
  complete_flag :: u8
  mode_word :: u16
  substate :: u8
  work_954 :: u32
  work_958 :: u32
  work_95c :: u32
  work_960 :: u32
  work_ab0 :: u16
  report :: u32
  report_prev :: u32
  meas_word :: u16
  meas_prev :: u16
  evt_flags :: "u8 list"
  evt_afc :: u8
  evt_state :: u8
  evt_afa :: u8
  evt_hw :: u16
  setpoint_raw :: u16
  setpoint_ctx4 :: u16
  setpoint_ctx6 :: u16
  actions :: "chg_event list"

definition ask :: "chg_env \<Rightarrow> (chg_reads \<Rightarrow> 'a) \<Rightarrow> chg \<Rightarrow> 'a \<times> chg" where
  "ask env r s = (r (env (clk s)), s\<lparr>clk := clk s + 1\<rparr>)"

definition act :: "chg_event \<Rightarrow> chg \<Rightarrow> chg" where
  "act e s = s\<lparr>actions := actions s @ [e]\<rparr>"

subsection \<open>Status flags, mode and setpoints\<close>

definition set_charge_setpoint :: "u32 \<Rightarrow> chg \<Rightarrow> chg" where
  "set_charge_setpoint raw s =
     (case charger_set_charge_setpoint raw of None \<Rightarrow> s | Some out \<Rightarrow> s\<lparr>setpoint_ctx4 := out\<rparr>)"

definition set_scaled_setpoint :: "u32 \<Rightarrow> chg \<Rightarrow> chg" where
  "set_scaled_setpoint raw s = s\<lparr>setpoint_ctx6 := charger_set_charge_scaled_setpoint raw\<rparr>"

definition charger_report_fault_event :: "chg \<Rightarrow> chg" where
  "charger_report_fault_event s = act (EventPost 0 0x16 0) (act (FaultReg 0x500) s)"

definition charger_set_charge_status_flag :: "chg_env \<Rightarrow> int \<Rightarrow> chg \<Rightarrow> chg" where
  "charger_set_charge_status_flag env cmd s =
     (let v = status_byte s OR word_of_int cmd
      in if cmd = 8 then s\<lparr>status_byte := v AND 0xEF\<rparr>
         else if cmd = 0x10 then s\<lparr>status_byte := v AND 0xF7\<rparr>
         else if cmd = 0x20 then
           (let s = s\<lparr>status_byte := v AND 0xDF\<rparr>; (sb, s) = ask env r_status_bits s
            in if sb AND 0x3F \<noteq> 0 then s
               else if state_byte s \<noteq> 5 then s
               else s\<lparr>complete_flag := 1\<rparr>)
         else s\<lparr>status_byte := v\<rparr>)"

definition charger_charge_state5_to_state2 :: "chg \<Rightarrow> chg" where
  "charger_charge_state5_to_state2 s =
     (if state_byte s = 5 then
        (let s = act (ClearOutput 0) (act (PostMode 0x0D) (act TeardownStep s));
             s = set_scaled_setpoint 0 s
         in act NotifyState (s\<lparr>state_byte := 2\<rparr>))
      else s)"

definition charger_set_charge_mode :: "chg_env \<Rightarrow> u16 \<Rightarrow> chg \<Rightarrow> chg" where
  "charger_set_charge_mode env mode s =
     (let s = (if (mode_word s XOR mode) AND 0x18 \<noteq> 0 then charger_set_charge_status_flag env 2 s else s)
      in s\<lparr>mode_word := mode\<rparr>)"

definition charger_select_charge_setpoint_by_state :: "chg_env \<Rightarrow> chg \<Rightarrow> chg" where
  "charger_select_charge_setpoint_by_state env s =
     (let (st, s) = ask env r_state s
      in if st = 0 then s\<lparr>setpoint_raw := 0xDECE, setpoint_ctx4 := 0x12A7\<rparr>
         else if st = 2 then
           (let (v, s) = ask env r_value16 s;
                s = s\<lparr>setpoint_raw := word_of_int ((v * -0x69) div 128 + 0x138EE)\<rparr>
            in set_charge_setpoint (word_of_int v) s)
         else if st = 3 then s\<lparr>setpoint_raw := 0x9E6E, setpoint_ctx4 := 0x1995\<rparr>
         else if st = 1 \<or> st = 4 then s\<lparr>setpoint_raw := 0x8613, setpoint_ctx4 := 0x1DA2\<rparr>
         else s)"

subsection \<open>Events and transitions\<close>

definition charger_charge_event_dispatch :: "int \<Rightarrow> chg \<Rightarrow> chg" where
  "charger_charge_event_dispatch code s =
     (if code = 1 then s\<lparr>evt_afc := evt_afc s OR 1\<rparr>
      else if code = 2 then
        (if evt_flags s ! 0 \<noteq> 0 then s
         else s\<lparr>evt_flags := (evt_flags s)[0 := 1], evt_state := 1\<rparr>)
      else if code = 4 then
        (if evt_flags s ! 0 = 1 then act (EventPost 1 5 0) (s\<lparr>evt_state := 9\<rparr>) else s)
      else if code = 8 then
        (if evt_flags s ! 1 = 0 then s\<lparr>evt_flags := (evt_flags s)[1 := 1]\<rparr> else s)
      else if code = 0x10 then
        (let s = act (ArmTx 0x30) (s\<lparr>evt_state := 10, evt_hw := 0x30\<rparr>)
         in s\<lparr>evt_afa := 0, evt_flags := (evt_flags s)[2 := 1]\<rparr>)
      else s)"

definition charger_charge_step_finalize :: "chg_env \<Rightarrow> chg \<Rightarrow> chg" where
  "charger_charge_step_finalize env s =
     (let s = charger_charge_event_dispatch 4 s;
          s = act (ClearOutput 0) (act (Helper 0x1CDC) s);
          (arm, s) = ask env r_arm_flag s
      in if arm = 1 then act (EventPost 0 0x16 0) s else s)"

text \<open>Entry actions of the states 1 and 2.\<close>

definition enter_state1 :: "chg \<Rightarrow> chg" where
  "enter_state1 s =
     (let s = act (ClearOutput 0) (act (EventPost 1 5 0) (s\<lparr>work_954 := 0\<rparr>));
          s = set_scaled_setpoint 0 (set_charge_setpoint 0 s)
      in act (Helper 0x1CDC) (charger_report_fault_event s))"

definition enter_state2 :: "chg_env \<Rightarrow> chg \<Rightarrow> chg" where
  "enter_state2 env s =
     (let s = act (StatusCmd 2) (set_scaled_setpoint 0 s);
          s = act (Helper 0x1320) (act (EventPost 0 0x0D 0) (act (EventPost 1 5 1) s));
          s = charger_select_charge_setpoint_by_state env (charger_charge_event_dispatch 2 s);
          (arm, s) = ask env r_arm_flag s;
          s = (if arm = 0 then act (Helper 0x1CF0) (act (Helper 0x16B0) (act (ArmTx 0x69) s))
               else act (EventPost 0 0x16 1) (act NotifyState (act (Helper 0x1CF0) (act (Helper 0x1D18) s))))
      in s\<lparr>state_flags := state_flags s OR 2\<rparr>)"

definition charger_charge_state_dispatch :: "chg_env \<Rightarrow> int \<Rightarrow> chg \<Rightarrow> chg" where
  "charger_charge_state_dispatch env new_state s =
     (let s = s\<lparr>work_95c := 0, work_958 := 0, work_ab0 := 0, work_960 := 0,
               state_byte := word_of_int new_state\<rparr>
      in if new_state = 2 then
           (let s = enter_state2 env s in s\<lparr>state_flags := state_flags s AND 0xCF\<rparr>)
         else
           (let s = (if new_state = 1 then enter_state1 s else s);
                b = state_flags s AND 0xFC
            in if new_state = 5 then s\<lparr>state_flags := b OR 0x20\<rparr>
               else
                 (let s = s\<lparr>state_flags := b AND 0xCF\<rparr>
                  in if new_state \<noteq> 10 then s
                     else act (Helper 0x1CDC) (charger_report_fault_event s))))"

subsection \<open>The periodic step\<close>

text \<open>Debouncing of the charge-present substate.\<close>

definition step_present :: "chg_env \<Rightarrow> chg \<Rightarrow> chg" where
  "step_present env s =
     (let (st, s) = ask env r_state s;
          (present, s) = (if st = 1 then (True, s)
             else (let (st, s) = ask env r_state s
                   in if st = 3 then (True, s)
                      else (let (st, s) = ask env r_state s in (st = 4, s))))
      in if present then s\<lparr>substate := 1\<rparr>
         else if substate s = 0 then
           (let (q, s) = ask env r_query_chg s
            in if q = 1 then
                 (let cnt16 = work_ab0 s
                  in if cnt16 < 100 then
                       (let s = s\<lparr>work_ab0 := cnt16 + 1\<rparr>
                        in if cnt16 = 99 then s\<lparr>substate := 1, work_ab0 := 0\<rparr> else s)
                     else s)
               else s\<lparr>work_ab0 := 0\<rparr>)
         else if substate s = 1 then
           (let (q, s) = ask env r_query_chg s
            in if q \<noteq> 0 then s\<lparr>work_ab0 := 0\<rparr>
               else
                 (let cnt16 = work_ab0 s
                  in if cnt16 < 100 then
                       (let s = s\<lparr>work_ab0 := cnt16 + 1\<rparr>
                        in if cnt16 = 99 then
                             (let s = charger_charge_step_finalize env (charger_charge_state_dispatch env 1 s);
                                  s = s\<lparr>substate := 0, work_ab0 := 0\<rparr>
                              in act (EventPost 0 0x0D 1) (act (StatusCmd 0xFFFF) s))
                           else s)
                     else s))
         else s)"

text \<open>Fault-active bit 7 of the flag byte.\<close>

definition step_fault_bit :: "chg_env \<Rightarrow> chg \<Rightarrow> chg" where
  "step_fault_bit env s =
     (let b = state_flags s; (bits, s) = ask env r_status_bits s; sb = (ucast bits :: u8)
      in if bit b 7 then
           (if sb AND 0x3F = 0 then s\<lparr>state_flags := (b AND 0x7F) OR push_bit 7 sb\<rparr> else s)
         else (if bits AND 0x3F \<noteq> 0 then s\<lparr>state_flags := b OR 0x80\<rparr> else s))"

text \<open>The report word, sent when it or the measured word changed.\<close>

definition step_report :: "chg_env \<Rightarrow> chg \<Rightarrow> chg" where
  "step_report env s =
     (let s = s\<lparr>report := ucast (state_flags s AND 0xBF) OR report s\<rparr>;
          (na, s) = ask env r_nibble_a s;
          s = s\<lparr>report := push_bit 8 (na AND 0xF) OR report s\<rparr>;
          (nb, s) = ask env r_nibble_b s;
          s = s\<lparr>report := push_bit 24 (nb AND 0xF) OR report s\<rparr>;
          (bits, s) = ask env r_status_bits s;
          sbits = (ucast bits :: u16);
          meas = push_bit 8 (sbits AND 0x1F) OR meas_word s;
          rep = report s;
          s = s\<lparr>meas_word := meas\<rparr>
      in if rep \<noteq> report_prev s \<or> meas_prev s \<noteq> meas
         then act (SendReport 4) (s\<lparr>meas_prev := meas, report_prev := rep\<rparr>) else s)"

definition step_case1 :: "chg_env \<Rightarrow> chg \<Rightarrow> chg" where
  "step_case1 env s =
     (let cnt = work_954 s;
          s = s\<lparr>work_954 := cnt + 1\<rparr>;
          s = (if 120511 < cnt then act (EventPost 0 0x0D 1) s else s);
          (bad, s) = (if substate s \<noteq> 1 then (True, s)
                      else (let (sb, s) = ask env r_status_bits s in (sb AND 0x3F \<noteq> 0, s)));
          (reset, s) = (if bad then (let (st, s) = ask env r_state s in (st \<noteq> 4, s)) else (False, s))
      in if reset then s\<lparr>work_95c := 0\<rparr>
         else if work_95c s < 100 then s\<lparr>work_95c := work_95c s + 1\<rparr>
         else
           (let (st, s) = ask env r_state s;
                s = (if st = 4 then act (StatusCmd 0xFFFF) s else s)
            in charger_charge_state_dispatch env 2 s))"

definition step_case2 :: "chg_env \<Rightarrow> chg \<Rightarrow> chg" where
  "step_case2 env s =
     (let (m, s) = ask env r_meas s
      in if m = 0 then
           (let s = act (StatusCmd 2) (charger_charge_step_finalize env s)
            in charger_charge_state_dispatch env 3 (charger_report_fault_event s))
         else if \<not> 99 < work_95c s then s\<lparr>work_95c := work_95c s + 1\<rparr>
         else
           (let (q, s) = ask env r_query_2ca8 s
            in if q = 0 then
                 (if work_960 s = 0 then s\<lparr>work_960 := 1\<rparr>
                  else act (ClearOutput 1) (act (StatusCmd 2) s))
               else
                 (let (md, s) = ask env r_mode s
                  in if md \<noteq> 0x0D then s
                     else
                       (let (m1, s) = ask env r_meas s; (lim, s) = ask env r_limit s
                        in if m1 = lim then s
                           else
                             (let (m, s) = ask env r_meas s;
                                  s = (if (word_of_int m :: u32) < 0x110E
                                       then act (ClearOutput 0) (act (StatusCmd 2) (charger_charge_event_dispatch 0x10 s))
                                       else charger_charge_event_dispatch 8 s)
                              in charger_charge_state_dispatch env 5 s)))))"

definition step_case5 :: "chg_env \<Rightarrow> chg \<Rightarrow> chg" where
  "step_case5 env s =
     (let (md, s) = ask env r_mode s;
          s = (if md = 0x0D then
                 (let (m, s) = ask env r_meas s; (lim, s) = ask env r_limit s
                  in if m = lim
                     then (act (StatusCmd 2) s)\<lparr>state_byte := 2, complete_flag := 0\<rparr> else s)
               else s);
          (m, s) = ask env r_meas s
      in if m \<noteq> 0 \<and> complete_flag s \<noteq> 1 then s
         else
           (let cnt = work_95c s + 1; s = s\<lparr>work_95c := cnt\<rparr>
            in if 99 < cnt then
                 (charger_charge_state_dispatch env 2 (act (StatusCmd 2) s))\<lparr>complete_flag := 0\<rparr>
               else if cnt \<noteq> 10 then s
               else charger_charge_step_finalize env s))"

definition step_case10 :: "chg_env \<Rightarrow> chg \<Rightarrow> chg" where
  "step_case10 env s =
     (let (go, s) = (if mode_word s = 0 then (True, s)
                     else (let (q, s) = ask env r_query_1c54 s in (q = 1, s)))
      in if go then
           (let cnt = work_958 s; s = s\<lparr>work_958 := cnt + 1\<rparr>
            in if cnt \<noteq> 0 then
                 (if cnt + 1 < 0x65 then s
                  else act (Helper 0x1C48) (charger_charge_state_dispatch env 2 s))
               else charger_charge_step_finalize env s)
         else if 99 < work_95c s then charger_charge_event_dispatch 2 s
         else s\<lparr>work_95c := work_95c s + 1\<rparr>)"

definition step_case0 :: "chg_env \<Rightarrow> chg \<Rightarrow> chg" where
  "step_case0 env s =
     (let cnt = work_95c s; s = s\<lparr>work_95c := cnt + 1\<rparr>
      in if cnt + 1 < 100 then s else charger_charge_state_dispatch env 1 s)"

definition step_case3 :: "chg_env \<Rightarrow> chg \<Rightarrow> chg" where
  "step_case3 env s =
     (if 99 < work_95c s then
        (let (m, s) = ask env r_meas s
         in if m = 0 then s else charger_charge_state_dispatch env 2 s)
      else s\<lparr>work_95c := work_95c s + 1\<rparr>)"

definition step_machine :: "chg_env \<Rightarrow> chg \<Rightarrow> chg" where
  "step_machine env s =
     (if state_byte s = 1 then step_case1 env s
      else if state_byte s = 10 then step_case10 env s
      else
        (let (sb, s) = ask env r_status_bits s;
             s = (if sb AND 0x3F \<noteq> 0
                  then charger_charge_state_dispatch env 1 (charger_charge_step_finalize env s) else s)
         in if state_byte s = 0 then step_case0 env s
            else if state_byte s = 1 then step_case1 env s
            else if state_byte s = 2 then step_case2 env s
            else if state_byte s = 3 then step_case3 env s
            else if state_byte s = 5 then step_case5 env s
            else if state_byte s = 10 then step_case10 env s
            else s))"

definition charger_charge_state_machine_step :: "chg_env \<Rightarrow> chg \<Rightarrow> chg" where
  "charger_charge_state_machine_step env s =
     (let gate = status_byte s
      in if \<not> bit gate 0 then s
         else
           (let s = s\<lparr>status_byte := 0\<rparr>;
                s = step_report env (step_fault_bit env (step_present env s))
            in if bit gate 1 then
                 act (StatusCmd 2) (charger_charge_state_dispatch env 10 (charger_charge_step_finalize env s))
               else step_machine env s))"

lemma ask_eq: "ask env r s = (r (env (clk s)), s\<lparr>clk := clk s + 1\<rparr>)"
  by (rule ask_def)

text \<open>Which fields the helpers leave alone.\<close>

definition same_control :: "chg \<Rightarrow> chg \<Rightarrow> bool" where
  "same_control s s' \<longleftrightarrow> state_byte s' = state_byte s \<and> substate s' = substate s \<and>
     work_95c s' = work_95c s \<and> work_958 s' = work_958 s \<and> work_ab0 s' = work_ab0 s \<and>
     status_byte s' = status_byte s \<and> mode_word s' = mode_word s \<and> complete_flag s' = complete_flag s"

lemma same_control_refl [simp]: "same_control s s" by (simp add: same_control_def)

lemma same_control_act [simp]: "same_control s (act e t) \<longleftrightarrow> same_control s t"
  by (simp add: same_control_def act_def)

lemma same_control_fields:
  assumes "same_control s s'"
  shows "state_byte s' = state_byte s" "substate s' = substate s" "work_95c s' = work_95c s"
    "work_958 s' = work_958 s" "work_ab0 s' = work_ab0 s" "status_byte s' = status_byte s"
    "mode_word s' = mode_word s" "complete_flag s' = complete_flag s"
  using assms by (simp_all add: same_control_def)

lemma same_control_event: "same_control s (charger_charge_event_dispatch code s)"
  by (simp add: charger_charge_event_dispatch_def same_control_def act_def Let_def)

lemma same_control_finalize: "same_control s (charger_charge_step_finalize env s)"
  using same_control_event [of s 4]
  by (simp add: charger_charge_step_finalize_def same_control_def act_def Let_def ask_eq)

lemma same_control_select: "same_control s (charger_select_charge_setpoint_by_state env s)"
  by (simp add: charger_select_charge_setpoint_by_state_def same_control_def ask_eq Let_def
      set_charge_setpoint_def split: option.split)

lemma same_control_fault_bit: "same_control s (step_fault_bit env s)"
  by (simp add: step_fault_bit_def same_control_def ask_eq Let_def)

lemma same_control_report: "same_control s (step_report env s)"
  by (simp add: step_report_def same_control_def ask_eq Let_def act_def)

lemma same_control_trans: "same_control s t \<Longrightarrow> same_control t u \<Longrightarrow> same_control s u"
  by (simp add: same_control_def)

lemma same_control_enter1: "same_control s (enter_state1 s)"
  by (simp add: enter_state1_def same_control_def act_def set_scaled_setpoint_def
      set_charge_setpoint_def charger_set_charge_setpoint_def charger_report_fault_event_def Let_def)

lemma same_control_enter2: "same_control s (enter_state2 env s)"
proof -
  define s1 where "s1 = act (Helper 0x1320) (act (EventPost 0 0x0D 0) (act (EventPost 1 5 1)
    (act (StatusCmd 2) (set_scaled_setpoint 0 s))))"
  define s2 where "s2 = charger_select_charge_setpoint_by_state env (charger_charge_event_dispatch 2 s1)"
  have "same_control s s1" by (simp add: s1_def same_control_def act_def set_scaled_setpoint_def)
  then have "same_control s s2"
    unfolding s2_def by (blast intro: same_control_trans same_control_event same_control_select)
  then show ?thesis
    unfolding enter_state2_def Let_def s1_def [symmetric] s2_def [symmetric]
    by (simp add: ask_eq same_control_def act_def)
qed

text \<open>A transition sets the state and clears the counters.\<close>

lemma dispatch_fields:
  "state_byte (charger_charge_state_dispatch env n s) = word_of_int n"
  "work_95c (charger_charge_state_dispatch env n s) = 0"
  "work_958 (charger_charge_state_dispatch env n s) = 0"
  "work_ab0 (charger_charge_state_dispatch env n s) = 0"
  "substate (charger_charge_state_dispatch env n s) = substate s"
  "status_byte (charger_charge_state_dispatch env n s) = status_byte s"
  "mode_word (charger_charge_state_dispatch env n s) = mode_word s"
  "complete_flag (charger_charge_state_dispatch env n s) = complete_flag s"
  using same_control_enter1 same_control_enter2
  by (simp_all add: charger_charge_state_dispatch_def Let_def same_control_def
      charger_report_fault_event_def act_def)

lemma act_fields [simp]:
  "state_byte (act e s) = state_byte s" "substate (act e s) = substate s"
  "work_95c (act e s) = work_95c s" "work_958 (act e s) = work_958 s"
  "work_ab0 (act e s) = work_ab0 s" "status_byte (act e s) = status_byte s"
  "mode_word (act e s) = mode_word s" "complete_flag (act e s) = complete_flag s"
  "work_954 (act e s) = work_954 s" "work_960 (act e s) = work_960 s"
  by (simp_all add: act_def)

lemma report_fault_fields [simp]:
  "substate (charger_report_fault_event s) = substate s"
  by (simp add: charger_report_fault_event_def)

lemmas control_fields = dispatch_fields same_control_fields [OF same_control_finalize]
  same_control_fields [OF same_control_event] same_control_fields [OF same_control_fault_bit]
  same_control_fields [OF same_control_report]

definition chg_ok :: "chg \<Rightarrow> bool" where
  "chg_ok s \<longleftrightarrow> state_byte s \<in> {0, 1, 2, 3, 5, 10} \<and> substate s \<in> {0, 1} \<and>
     work_95c s \<le> 100 \<and> work_958 s \<le> 100 \<and> work_ab0 s \<le> 99"

lemma chg_ok_same: "same_control s t \<Longrightarrow> chg_ok s \<Longrightarrow> chg_ok t"
  by (simp add: chg_ok_def same_control_def)

lemma chg_ok_dispatch:
  "chg_ok s \<Longrightarrow> n \<in> {0, 1, 2, 3, 5, 10} \<Longrightarrow> chg_ok (charger_charge_state_dispatch env n s)"
  by (auto simp: chg_ok_def control_fields)

lemma word_step_le:
  "(c :: u32) < 100 \<Longrightarrow> c + 1 \<le> 100" "\<not> 99 < (c :: u32) \<Longrightarrow> c + 1 \<le> 100" "(k :: u16) < 100 \<Longrightarrow> k \<noteq> 99 \<Longrightarrow> k + 1 \<le> 99"
  by unat_arith+

lemma chg_ok_present: "chg_ok s \<Longrightarrow> chg_ok (step_present env s)"
  unfolding step_present_def Let_def ask_eq
  by (auto simp: chg_ok_def control_fields word_step_le)

lemma chg_ok_case1: "chg_ok s \<Longrightarrow> chg_ok (step_case1 env s)"
  unfolding step_case1_def Let_def ask_eq
  by (auto simp: chg_ok_def control_fields word_step_le)

lemma chg_ok_case2: "chg_ok s \<Longrightarrow> chg_ok (step_case2 env s)"
  unfolding step_case2_def Let_def ask_eq
  by (auto simp: chg_ok_def control_fields word_step_le)

lemma chg_ok_case3: "chg_ok s \<Longrightarrow> chg_ok (step_case3 env s)"
  unfolding step_case3_def Let_def ask_eq
  by (auto simp: chg_ok_def control_fields word_step_le)

lemma chg_ok_case0: "chg_ok s \<Longrightarrow> chg_ok (step_case0 env s)"
  unfolding step_case0_def Let_def
  by (auto simp: chg_ok_def control_fields less_imp_le intro: order_trans)

lemma chg_ok_case5: "chg_ok s \<Longrightarrow> chg_ok (step_case5 env s)"
proof -
  have w: "\<not> 99 < (c :: u32) \<Longrightarrow> c \<le> 100" for c by unat_arith
  show "chg_ok s \<Longrightarrow> ?thesis"
    unfolding step_case5_def Let_def ask_eq
    by (auto simp: chg_ok_def control_fields w)
qed

lemma chg_ok_case10: "chg_ok s \<Longrightarrow> chg_ok (step_case10 env s)"
proof -
  have w: "(c :: u32) + 1 < 101 \<Longrightarrow> c + 1 \<le> 100" for c by unat_arith
  show "chg_ok s \<Longrightarrow> ?thesis"
    unfolding step_case10_def Let_def ask_eq
    by (auto simp: chg_ok_def control_fields w word_step_le)
qed

lemma chg_ok_finalize: "chg_ok s \<Longrightarrow> chg_ok (charger_charge_step_finalize env s)"
  by (rule chg_ok_same [OF same_control_finalize])

lemma chg_ok_clk [simp]: "chg_ok (s\<lparr>clk := n\<rparr>) = chg_ok s"
  by (simp add: chg_ok_def)

lemma chg_ok_act [simp]: "chg_ok (act e s) = chg_ok s"
  by (simp add: chg_ok_def)

lemma chg_ok_machine: "chg_ok s \<Longrightarrow> chg_ok (step_machine env s)"
proof -
  assume ok: "chg_ok s"
  define t where "t = (let (sb, s) = ask env r_status_bits s
    in if sb AND 0x3F \<noteq> 0 then charger_charge_state_dispatch env 1 (charger_charge_step_finalize env s) else s)"
  have t: "chg_ok t"
    using ok by (simp add: t_def ask_eq chg_ok_dispatch chg_ok_finalize)
  have "step_machine env s =
     (if state_byte s = 1 then step_case1 env s
      else if state_byte s = 10 then step_case10 env s
      else if state_byte t = 0 then step_case0 env t
      else if state_byte t = 1 then step_case1 env t
      else if state_byte t = 2 then step_case2 env t
      else if state_byte t = 3 then step_case3 env t
      else if state_byte t = 5 then step_case5 env t
      else if state_byte t = 10 then step_case10 env t else t)"
    unfolding step_machine_def t_def Let_def ask_eq prod.case by (rule refl)
  then show ?thesis
    using t chg_ok_case1 [OF ok] chg_ok_case10 [OF ok] chg_ok_case0 [OF t] chg_ok_case1 [OF t]
      chg_ok_case2 [OF t] chg_ok_case3 [OF t] chg_ok_case5 [OF t] chg_ok_case10 [OF t]
    by presburger
qed

lemma chg_ok_step: "chg_ok s \<Longrightarrow> chg_ok (charger_charge_state_machine_step env s)"
proof -
  assume ok: "chg_ok s"
  define t where "t = step_report env (step_fault_bit env (step_present env (s\<lparr>status_byte := 0\<rparr>)))"
  have "chg_ok (s\<lparr>status_byte := 0\<rparr>)" using ok by (simp add: chg_ok_def)
  then have t: "chg_ok t"
    unfolding t_def
    by (intro chg_ok_same [OF same_control_report] chg_ok_same [OF same_control_fault_bit] chg_ok_present)
  show ?thesis
    using ok t chg_ok_machine [OF t]
    by (simp add: charger_charge_state_machine_step_def Let_def t_def chg_ok_dispatch chg_ok_finalize)
qed

subsection \<open>Reachable states\<close>

text \<open>
  The operations other parts of the firmware call: the periodic step, raising a status command,
  setting the mode word and stopping a charge.
\<close>

inductive chg_op :: "chg_env \<Rightarrow> chg \<Rightarrow> chg \<Rightarrow> bool" for env where
  step: "chg_op env s (charger_charge_state_machine_step env s)"
| flag: "chg_op env s (charger_set_charge_status_flag env cmd s)"
| mode: "chg_op env s (charger_set_charge_mode env m s)"
| stop: "chg_op env s (charger_charge_state5_to_state2 s)"
| event: "chg_op env s (charger_charge_event_dispatch code s)"

inductive_cases chg_opE [elim!]: "chg_op env s s'"

definition chg_boot :: chg where
  "chg_boot = \<lparr>clk = 0, state_byte = 0, state_flags = 0, status_byte = 0, complete_flag = 0,
     mode_word = 0, substate = 0, work_954 = 0, work_958 = 0, work_95c = 0, work_960 = 0,
     work_ab0 = 0, report = 0, report_prev = 0, meas_word = 0, meas_prev = 0, evt_flags = [0, 0, 0],
     evt_afc = 0, evt_state = 0, evt_afa = 0, evt_hw = 0, setpoint_raw = 0, setpoint_ctx4 = 0,
     setpoint_ctx6 = 0, actions = []\<rparr>"

lemma flag_control:
  "state_byte (charger_set_charge_status_flag env cmd s) = state_byte s"
  "substate (charger_set_charge_status_flag env cmd s) = substate s"
  "work_95c (charger_set_charge_status_flag env cmd s) = work_95c s"
  "work_958 (charger_set_charge_status_flag env cmd s) = work_958 s"
  "work_ab0 (charger_set_charge_status_flag env cmd s) = work_ab0 s"
  by (simp_all add: charger_set_charge_status_flag_def Let_def ask_eq)

lemma chg_ok_op: "chg_op env s s' \<Longrightarrow> chg_ok s \<Longrightarrow> chg_ok s'"
proof (induction rule: chg_op.induct)
  case (step s)
  then show ?case by (rule chg_ok_step)
next
  case (flag s cmd)
  then show ?case by (simp add: chg_ok_def flag_control)
next
  case (mode s m)
  then show ?case by (simp add: chg_ok_def charger_set_charge_mode_def flag_control Let_def)
next
  case (stop s)
  then show ?case by (auto simp: chg_ok_def charger_charge_state5_to_state2_def set_scaled_setpoint_def Let_def)
next
  case (event s code)
  then show ?case by (rule chg_ok_same [OF same_control_event])
qed

text \<open>
  C9.  Whatever the vendor accessors answer and in whatever order the
  step, the status commands, the mode changes, the stop request and the charge events come, the
  charger stays in its six states, the charge-present substate is 0 or 1 and no timeout counter
  runs over its bound.
\<close>

theorem charger_states_closed:
  assumes "(chg_op env)\<^sup>*\<^sup>* chg_boot s"
  shows "state_byte s \<in> {0, 1, 2, 3, 5, 10} \<and> substate s \<in> {0, 1} \<and> work_95c s \<le> 100 \<and>
     work_958 s \<le> 100 \<and> work_ab0 s \<le> 99"
  using assms
proof (induction rule: rtranclp_induct)
  case base
  show ?case by (simp add: chg_boot_def)
next
  case (step s s')
  then show ?case using chg_ok_op [of env s s'] by (simp add: chg_ok_def)
qed

definition calm_reads :: chg_reads where
  "calm_reads = \<lparr>r_status_bits = 0, r_state = 1, r_value16 = 0, r_arm_flag = 0, r_query_chg = 0,
     r_nibble_a = 0, r_nibble_b = 0, r_meas = 0, r_query_2ca8 = 0, r_mode = 0, r_limit = 0,
     r_query_1c54 = 0, r_19e0 = 0, r_1a74 = 0, r_3394 = 0\<rparr>"

theorem charger_states_closed_witness:
  "state_byte (charger_charge_state_machine_step (\<lambda>_. calm_reads) chg_boot) \<in> {0, 1, 2, 3, 5, 10} \<and>
     substate (charger_charge_state_machine_step (\<lambda>_. calm_reads) chg_boot) \<in> {0, 1} \<and>
     work_95c (charger_charge_state_machine_step (\<lambda>_. calm_reads) chg_boot) \<le> 100 \<and>
     work_958 (charger_charge_state_machine_step (\<lambda>_. calm_reads) chg_boot) \<le> 100 \<and>
     work_ab0 (charger_charge_state_machine_step (\<lambda>_. calm_reads) chg_boot) \<le> 99"
  by (rule charger_states_closed, rule r_into_rtranclp, rule chg_op.step)

lemma dispatch10_actions:
  "\<exists>acts. actions (charger_charge_state_dispatch env 10 s) = acts @ [FaultReg 0x500, EventPost 0 0x16 0, Helper 0x1CDC]"
  by (simp add: charger_charge_state_dispatch_def Let_def charger_report_fault_event_def act_def)

text \<open>
  Without the trigger bit the periodic step does nothing. With trigger
  and fault bit it ends in the fault state 10 with the gate byte cleared, the fault counter at
  zero and the fault register and event raised last.
\<close>

theorem gate_fault_stops:
  "(\<not> bit (status_byte s) 0 \<longrightarrow> charger_charge_state_machine_step env s = s) \<and>
   (bit (status_byte s) 0 \<and> bit (status_byte s) 1 \<longrightarrow>
     state_byte (charger_charge_state_machine_step env s) = 10 \<and>
     status_byte (charger_charge_state_machine_step env s) = 0 \<and>
     work_958 (charger_charge_state_machine_step env s) = 0 \<and>
     (\<exists>acts. actions (charger_charge_state_machine_step env s) = acts @
        [FaultReg 0x500, EventPost 0 0x16 0, Helper 0x1CDC, StatusCmd 2]))"
proof -
  define t where "t = step_report env (step_fault_bit env (step_present env (s\<lparr>status_byte := 0\<rparr>)))"
  have st: "status_byte t = 0"
    by (simp add: t_def control_fields step_present_def Let_def ask_eq)
  have run: "charger_charge_state_machine_step env s =
      act (StatusCmd 2) (charger_charge_state_dispatch env 10 (charger_charge_step_finalize env t))"
    if "bit (status_byte s) 0" "bit (status_byte s) 1"
    using that by (simp add: charger_charge_state_machine_step_def Let_def t_def)
  obtain acts where "actions (charger_charge_state_dispatch env 10 (charger_charge_step_finalize env t))
      = acts @ [FaultReg 0x500, EventPost 0 0x16 0, Helper 0x1CDC]"
    using dispatch10_actions by blast
  then have "\<exists>acts. actions (act (StatusCmd 2) (charger_charge_state_dispatch env 10 (charger_charge_step_finalize env t)))
      = acts @ [FaultReg 0x500, EventPost 0 0x16 0, Helper 0x1CDC, StatusCmd 2]"
    by (simp add: act_def)
  then show ?thesis
    using run st by (auto simp: control_fields charger_charge_state_machine_step_def)
qed

text \<open>A trigger of the periodic step is the status command 1.\<close>

definition triggered_step :: "chg_env \<Rightarrow> chg \<Rightarrow> chg" where
  "triggered_step env s =
     charger_charge_state_machine_step env (charger_set_charge_status_flag env 1 s)"

definition quiet_env :: "chg_env \<Rightarrow> bool" where
  "quiet_env env \<longleftrightarrow> (\<forall>k. r_state (env k) = 1 \<and> r_status_bits (env k) AND 0x3F = 0)"

lemma quiet_step:
  assumes q: "quiet_env env" and g: "status_byte s = 0"
  shows "\<exists>t. triggered_step env s = step_machine env t \<and> state_byte t = state_byte s \<and>
     substate t = 1 \<and> work_95c t = work_95c s \<and> status_byte t = 0"
proof -
  define s1 where "s1 = s\<lparr>status_byte := 1\<rparr>"
  define t where "t = step_report env (step_fault_bit env (step_present env (s1\<lparr>status_byte := 0\<rparr>)))"
  have "charger_set_charge_status_flag env 1 s = s1"
    using g by (simp add: charger_set_charge_status_flag_def s1_def)
  moreover have "charger_charge_state_machine_step env s1 = step_machine env t"
    by (simp add: charger_charge_state_machine_step_def Let_def t_def s1_def bit_simps)
  moreover have "step_present env (s1\<lparr>status_byte := 0\<rparr>) = s1\<lparr>status_byte := 0, substate := 1, clk := clk s1 + 1\<rparr>"
    using q by (simp add: step_present_def ask_eq quiet_env_def)
  ultimately show ?thesis
    by (intro exI [of _ t]) (simp add: triggered_step_def t_def control_fields s1_def)
qed

lemma quiet_state0:
  assumes q: "quiet_env env" and g: "status_byte s = 0" "state_byte s = 0" "unat (work_95c s) < 99"
  shows "state_byte (triggered_step env s) = 0 \<and> status_byte (triggered_step env s) = 0 \<and>
     unat (work_95c (triggered_step env s)) = unat (work_95c s) + 1"
proof -
  obtain t where t: "triggered_step env s = step_machine env t" "state_byte t = 0"
    "work_95c t = work_95c s" "status_byte t = 0"
    using quiet_step [OF q g(1)] g(2) by auto
  have n: "unat (work_95c s + 1) = unat (work_95c s) + 1"
    using g(3) by (subst unat_add_no_wrap) auto
  then have "work_95c s + 1 < 100" using g(3) by (simp add: word_less_nat_alt)
  then have "step_machine env t = t\<lparr>clk := clk t + 1, work_95c := work_95c s + 1\<rparr>"
    using t q by (simp add: step_machine_def ask_eq Let_def quiet_env_def step_case0_def)
  then show ?thesis using t n by simp
qed

lemma quiet_leave0:
  assumes q: "quiet_env env" and g: "status_byte s = 0" "state_byte s = 0" "unat (work_95c s) = 99"
  shows "state_byte (triggered_step env s) = 1 \<and> status_byte (triggered_step env s) = 0 \<and>
     work_95c (triggered_step env s) = 0"
proof -
  obtain t where t: "triggered_step env s = step_machine env t" "state_byte t = 0"
    "work_95c t = work_95c s" "status_byte t = 0"
    using quiet_step [OF q g(1)] g(2) by auto
  have "work_95c s = 99" using g(3) by (simp add: word_unat_eq_iff)
  then have "\<exists>u. step_machine env t = charger_charge_state_dispatch env 1 u \<and> status_byte u = 0"
    using t q by (simp add: step_machine_def ask_eq Let_def quiet_env_def step_case0_def)
      (intro exI conjI, rule refl, simp)
  then show ?thesis using t by (auto simp: control_fields)
qed

lemma quiet_state1:
  assumes q: "quiet_env env" and g: "status_byte s = 0" "state_byte s = 1" "unat (work_95c s) < 100"
  shows "state_byte (triggered_step env s) = 1 \<and> status_byte (triggered_step env s) = 0 \<and>
     unat (work_95c (triggered_step env s)) = unat (work_95c s) + 1"
proof -
  obtain t where t: "triggered_step env s = step_machine env t" "state_byte t = 1" "substate t = 1"
    "work_95c t = work_95c s" "status_byte t = 0"
    using quiet_step [OF q g(1)] g(2) by auto
  have n: "unat (work_95c s + 1) = unat (work_95c s) + 1"
    using g(3) by (subst unat_add_no_wrap) auto
  have "work_95c s < 100" using g(3) by (simp add: word_less_nat_alt)
  then have "state_byte (step_machine env t) = 1 \<and> status_byte (step_machine env t) = 0 \<and>
      work_95c (step_machine env t) = work_95c s + 1"
    using t q by (simp add: step_machine_def ask_eq Let_def quiet_env_def step_case1_def)
  then show ?thesis using t n by simp
qed

lemma quiet_leave1:
  assumes q: "quiet_env env" and g: "status_byte s = 0" "state_byte s = 1" "unat (work_95c s) = 100"
  shows "state_byte (triggered_step env s) = 2"
proof -
  obtain t where t: "triggered_step env s = step_machine env t" "state_byte t = 1" "substate t = 1"
    "work_95c t = work_95c s" "status_byte t = 0"
    using quiet_step [OF q g(1)] g(2) by auto
  have "work_95c s = 100" using g(3) by (simp add: word_unat_eq_iff)
  then show ?thesis
    using t q by (simp add: step_machine_def ask_eq Let_def quiet_env_def step_case1_def control_fields)
qed

lemma quiet_run0:
  assumes "quiet_env env"
  shows "n \<le> 99 \<Longrightarrow> state_byte ((triggered_step env ^^ n) chg_boot) = 0 \<and>
     status_byte ((triggered_step env ^^ n) chg_boot) = 0 \<and>
     unat (work_95c ((triggered_step env ^^ n) chg_boot)) = n"
proof (induction n)
  case (Suc n)
  then show ?case using quiet_state0 [OF assms, of "(triggered_step env ^^ n) chg_boot"] by simp
qed (simp add: chg_boot_def)

lemma quiet_run1:
  assumes "quiet_env env"
  shows "n \<le> 100 \<Longrightarrow> state_byte ((triggered_step env ^^ (100 + n)) chg_boot) = 1 \<and>
     status_byte ((triggered_step env ^^ (100 + n)) chg_boot) = 0 \<and>
     unat (work_95c ((triggered_step env ^^ (100 + n)) chg_boot)) = n"
proof (induction n)
  case 0
  have "(triggered_step env ^^ Suc 99) chg_boot = triggered_step env ((triggered_step env ^^ 99) chg_boot)"
    by (simp only: funpow.simps comp_def)
  then show ?case
    using quiet_leave0 [OF assms, of "(triggered_step env ^^ 99) chg_boot"] quiet_run0 [OF assms, of 99]
    by simp
next
  case (Suc n)
  have r: "(triggered_step env ^^ (100 + Suc n)) chg_boot
      = triggered_step env ((triggered_step env ^^ (100 + n)) chg_boot)"
    by (simp only: add_Suc_right funpow.simps comp_def)
  show ?case
    using quiet_state1 [OF assms, of "(triggered_step env ^^ (100 + n)) chg_boot"] Suc
    unfolding r by simp
qed

text \<open>
  C19.  With a charger that is present and reports no fault, the triggered
  steps after power-up take it to the ready state in a bounded time: 100 steps in state 0, 101
  in state 1, and state 2 after the 201st.
\<close>

theorem boot_reaches_ready:
  assumes "quiet_env env"
  shows "(\<forall>n < 201. state_byte ((triggered_step env ^^ n) chg_boot) = (if n < 100 then 0 else 1)) \<and>
     state_byte ((triggered_step env ^^ 201) chg_boot) = 2"
proof -
  have "state_byte ((triggered_step env ^^ n) chg_boot) = (if n < 100 then 0 else 1)" if "n < 201" for n
  proof (cases "n < 100")
    case True
    then show ?thesis using quiet_run0 [OF assms, of n] by simp
  next
    case False
    then show ?thesis using quiet_run1 [OF assms, of "n - 100"] that by simp
  qed
  moreover have "(triggered_step env ^^ Suc (100 + 100)) chg_boot
      = triggered_step env ((triggered_step env ^^ (100 + 100)) chg_boot)"
    by (simp only: funpow.simps comp_def)
  then have "state_byte ((triggered_step env ^^ Suc (100 + 100)) chg_boot) = 2"
    using quiet_leave1 [OF assms, of "(triggered_step env ^^ (100 + 100)) chg_boot"]
      quiet_run1 [OF assms, of 100] by simp
  ultimately show ?thesis by simp
qed

theorem boot_reaches_ready_witness:
  "state_byte ((triggered_step (\<lambda>_. calm_reads) ^^ 50) chg_boot) = 0 \<and>
   state_byte ((triggered_step (\<lambda>_. calm_reads) ^^ 150) chg_boot) = 1 \<and>
   state_byte ((triggered_step (\<lambda>_. calm_reads) ^^ 201) chg_boot) = 2"
  using boot_reaches_ready [of "\<lambda>_. calm_reads"] by (simp add: quiet_env_def calm_reads_def)

theorem gate_fault_stops_witness:
  "state_byte (charger_charge_state_machine_step (\<lambda>_. calm_reads) (chg_boot\<lparr>status_byte := 3\<rparr>)) = 10 \<and>
   status_byte (charger_charge_state_machine_step (\<lambda>_. calm_reads) (chg_boot\<lparr>status_byte := 3\<rparr>)) = 0"
  using gate_fault_stops [of "chg_boot\<lparr>status_byte := 3\<rparr>" "\<lambda>_. calm_reads"]
  by (simp add: bit_numeral_rec)

subsection \<open>Telemetry frames\<close>

text \<open>
  The four report frames; \<open>setpoint\<close> is the derated current limit of
  \<open>charger_compute_charge_current_setpoint\<close>.
\<close>

definition charger_build_can_reports :: "chg_env \<Rightarrow> u32 \<Rightarrow> chg \<Rightarrow> chg" where
  "charger_build_can_reports env setpoint s =
     (let cur = drop_bit 16 (480000 * setpoint + 0x8000);
          (v, s) = ask env r_19e0 s;
          vv = word_of_int (v * 28000) + 0x8000 :: u32;
          s = act (TxEnqueue 0x14E25460
                ([ucast cur, ucast (drop_bit 8 cur), ucast (drop_bit 16 vv), ucast (drop_bit 24 vv)]
                  @ le32 0x07D0D930)) s;
          (x, s) = ask env r_1a74 s;
          s = act (TxEnqueue 0x14E2B462 [ucast x, ucast (drop_bit 8 x)]) s;
          (md, s) = ask env r_mode s;
          s = act (TxEnqueue 0x14E25461 [word_of_int md]) s;
          (f0, s) = ask env r_3394 s;
          (na, s) = ask env r_nibble_a s;
          (nb, s) = ask env r_nibble_b s;
          (sb, s) = ask env r_status_bits s
      in act (TxEnqueue 0x14E23460
           [ucast f0 AND 0xBF, ucast na AND 0x07, 0, ucast nb AND 0x0F, 0, ucast sb AND 0x7F]) s)"

lemma reports_lengths:
  "\<exists>f1 f2 f3 f4. actions (charger_build_can_reports env sp s) = actions s @
     [TxEnqueue 0x14E25460 f1, TxEnqueue 0x14E2B462 f2, TxEnqueue 0x14E25461 f3, TxEnqueue 0x14E23460 f4] \<and>
     length f1 = 8 \<and> length f2 = 2 \<and> length f3 = 1 \<and> length f4 = 6"
  by (simp add: charger_build_can_reports_def Let_def ask_eq act_def)

end
