(* ===== verification/PowerState.thy ===== *)
theory PowerState
  imports Prelude
begin

text \<open>
  The \<open>power\<close> service of the i.MX8: the state manager
  (\<open>main/power/src/state_manager.c\<close>), the state handlers and the standby sub-state
  machine of the service (\<open>main/power/src/power_service.c\<close>), and the battery power-on
  cluster (\<open>main/power/src/battery_power_on.c\<close>).

  One record holds the fields of the \<open>PowerService\<close> object these files touch.  Calls into
  the other components (power control, gauge, switches, timers, low power) are logged; what they
  answer is read from an environment indexed by the number of reads made before, so every read may
  differ from the last.  Log lines and their arguments are left out.
\<close>

subsection \<open>State\<close>

definition ST_INVALID :: int where "ST_INVALID = 0"
definition ST_SHIPPING :: int where "ST_SHIPPING = 1"
definition ST_STANDBY :: int where "ST_STANDBY = 2"
definition ST_OPERATIONAL :: int where "ST_OPERATIONAL = 3"
definition ST_CHARGING :: int where "ST_CHARGING = 4"
definition ST_UPDATING :: int where "ST_UPDATING = 5"
definition ST_ALARM :: int where "ST_ALARM = 6"
definition ST_MAINTENANCE :: int where "ST_MAINTENANCE = 7"

lemmas st_defs = ST_INVALID_def ST_SHIPPING_def ST_STANDBY_def ST_OPERATIONAL_def ST_CHARGING_def
  ST_UPDATING_def ST_ALARM_def ST_MAINTENANCE_def

record ps_reads =
  is_busy :: bool
  charger_connected :: bool
  charger_off :: bool
  battery_is_off :: bool
  battery_up :: bool
  buck_needed :: bool
  retry_pending :: bool
  ins_det :: bool
  standalone :: bool
  primary_capacity :: int
  charger_mode :: nat
  lipo_present :: bool
  lipo_capacity :: int
  lipo_current :: int
  lipo_dead :: bool
  pgood :: bool
  vac1 :: bool
  buck_enabled :: bool
  can_quiet :: bool
  vac_present :: bool
  suspend_rc :: int
  tick_running :: bool
  lp_timer_running :: bool
  now_ns :: int

type_synonym ps_env = "nat \<Rightarrow> ps_reads"

datatype ps_call =
    Call string "int list"
  | Pub string int bool

record ps =
  ps_clk :: nat
  ps_state :: int
  ps_pending :: int
  ps_substate :: int
  ps_fault :: int
  ps_fault_ts :: int
  ps_reset_done :: bool
  ps_standalone_ship :: bool
  ps_check_times :: int
  ps_quiet_retries :: int
  ps_on_ns :: int
  ps_start_ns :: int
  ps_end_ns :: int
  ps_buck_logged :: bool
  ps_calls :: "ps_call list"

definition rd :: "ps_env \<Rightarrow> (ps_reads \<Rightarrow> 'a) \<Rightarrow> ps \<Rightarrow> 'a \<times> ps" where
  "rd env r s = (r (env (ps_clk s)), s\<lparr>ps_clk := ps_clk s + 1\<rparr>)"

definition call :: "string \<Rightarrow> int list \<Rightarrow> ps \<Rightarrow> ps" where
  "call f args s = s\<lparr>ps_calls := ps_calls s @ [Call f args]\<rparr>"

definition pub :: "string \<Rightarrow> int \<Rightarrow> bool \<Rightarrow> ps \<Rightarrow> ps" where
  "pub topic v retained s = s\<lparr>ps_calls := ps_calls s @ [Pub topic v retained]\<rparr>"

definition tick_arm :: "int \<Rightarrow> ps \<Rightarrow> ps" where
  "tick_arm ms s = call ''tick_arm'' [ms] s"

subsection \<open>The state manager\<close>

definition StateManager_StateName :: "int \<Rightarrow> string" where
  "StateManager_StateName st =
     (if st = ST_SHIPPING then ''SHIPPING''
      else if st = ST_STANDBY then ''STANDBY''
      else if st = ST_OPERATIONAL then ''OPERATIONAL''
      else if st = ST_CHARGING then ''CHARGING''
      else if st = ST_UPDATING then ''UPDATING''
      else if st = ST_ALARM then ''ALARM''
      else if st = ST_MAINTENANCE then ''MAINTENANCE''
      else ''INVALID'')"

definition StateManager_ChangeState :: "ps_env \<Rightarrow> int \<Rightarrow> ps \<Rightarrow> ps" where
  "StateManager_ChangeState env st s =
     (if st = ST_INVALID then s
      else
        (let s = pub ''power/state'' st True s;
             s = s\<lparr>ps_state := st\<rparr>;
             (busy, s) = rd env is_busy s;
             s = (if busy then call ''on_state_changed'' [] s else s);
             s = pub ''power/state/status'' 0 False s
         in s\<lparr>ps_pending := 0\<rparr>))"

subsection \<open>State handlers\<close>

definition PowerService_TurnOn :: "ps_env \<Rightarrow> ps \<Rightarrow> ps" where
  "PowerService_TurnOn env s =
     (let s = call ''low_power_publish_low_power'' [] s;
          s = call ''low_power_request_can_low_power'' [] s;
          s = s\<lparr>ps_fault := 0, ps_reset_done := False\<rparr>;
          s = call ''switch_control_power_on'' [] s;
          (t, s) = rd env now_ns s;
          s = s\<lparr>ps_on_ns := t\<rparr>;
          s = call ''battery_cmd1_on'' [] s
      in call ''refresh_clock_file'' [] s)"

definition PowerService_OnShipping :: "ps_env \<Rightarrow> ps \<Rightarrow> ps" where
  "PowerService_OnShipping env s = tick_arm 3000 (StateManager_ChangeState env ST_SHIPPING s)"

definition PowerService_OnStandby :: "ps_env \<Rightarrow> ps \<Rightarrow> ps" where
  "PowerService_OnStandby env s =
     (let s = s\<lparr>ps_substate := 0, ps_check_times := 0\<rparr>;
          s = StateManager_ChangeState env ST_STANDBY s
      in call ''refresh_clock_file'' [] (tick_arm 3000 s))"

definition PowerService_OnOperational :: "ps_env \<Rightarrow> ps \<Rightarrow> ps" where
  "PowerService_OnOperational env s =
     (let (chg, s) = rd env charger_connected s
      in if chg then s
         else
           (let s = call ''tick_stop'' [] s; (cap, s) = rd env primary_capacity s
            in if cap = 0 then s else PowerService_TurnOn env s))"

definition PowerService_OnCharging :: "ps_env \<Rightarrow> ps \<Rightarrow> ps" where
  "PowerService_OnCharging env s = call ''charge_counters_reset'' [] (call ''tick_stop'' [] s)"

definition PowerService_OnUpdating :: "ps_env \<Rightarrow> ps \<Rightarrow> ps" where
  "PowerService_OnUpdating env s =
     (let s = call ''tick_stop'' [] s
      in if ps_state s = ST_CHARGING then StateManager_ChangeState env ST_UPDATING s
         else PowerService_TurnOn env s)"

definition PowerService_OnAlarm :: "ps_env \<Rightarrow> ps \<Rightarrow> ps" where
  "PowerService_OnAlarm env s = PowerService_TurnOn env (call ''tick_stop'' [] s)"

definition PowerService_OnMaintenance :: "ps_env \<Rightarrow> ps \<Rightarrow> ps" where
  "PowerService_OnMaintenance env s =
     (let s = call ''poll_stop'' [] (call ''tick_stop'' [] s);
          (off, s) = rd env battery_is_off s;
          s = (if \<not> off then call ''battery_cmd0_off'' [] s else s);
          s = call ''switch_control_set_state'' [ST_MAINTENANCE] s
      in StateManager_ChangeState env ST_MAINTENANCE s)"

definition PowerService_OnStateChanged :: "ps_env \<Rightarrow> int \<Rightarrow> ps \<Rightarrow> ps" where
  "PowerService_OnStateChanged env st s =
     (if st = ST_SHIPPING then PowerService_OnShipping env s
      else if st = ST_STANDBY then PowerService_OnStandby env s
      else if st = ST_OPERATIONAL then PowerService_OnOperational env s
      else if st = ST_CHARGING then PowerService_OnCharging env s
      else if st = ST_UPDATING then PowerService_OnUpdating env s
      else if st = ST_ALARM then PowerService_OnAlarm env s
      else if st = ST_MAINTENANCE then PowerService_OnMaintenance env s
      else s)"

text \<open>
  The transition slots of the service are all overridden, so \<open>sm_dispatch\<close> reaches the
  handlers above; \<open>installed\<close> says which slots differ from their default stub.
\<close>

definition sm_dispatch :: "ps_env \<Rightarrow> (int \<Rightarrow> bool) \<Rightarrow> int \<Rightarrow> ps \<Rightarrow> ps" where
  "sm_dispatch env installed st s =
     (if st = ST_ALARM \<or> (ST_SHIPPING \<le> st \<and> st \<le> ST_MAINTENANCE \<and> installed st)
      then PowerService_OnStateChanged env st s else s)"

definition StateManager_OnStateRequest :: "ps_env \<Rightarrow> (int \<Rightarrow> bool) \<Rightarrow> int \<Rightarrow> bool \<Rightarrow> ps \<Rightarrow> ps" where
  "StateManager_OnStateRequest env installed st internal s =
     (let current = ps_state s
      in if current = ST_INVALID then pub ''power/state/status'' 3 False s
         else if st = current then
           (if \<not> internal then pub ''power/state/status'' 2 False s
            else
              (let (busy, s) = rd env is_busy s
               in sm_dispatch env installed st (s\<lparr>ps_pending := st\<rparr>)))
         else
           (let (busy, s) = rd env is_busy s
            in if busy then
                 (if \<not> internal then pub ''power/state/status'' 1 False s
                  else sm_dispatch env installed st (s\<lparr>ps_pending := st\<rparr>))
               else
                 (let s = s\<lparr>ps_pending := st\<rparr>;
                      s = (if st \<noteq> ST_INVALID \<and> \<not> internal then call ''republish_state'' [] s else s)
                  in sm_dispatch env installed st s)))"

definition sm_on_state_set :: "ps_env \<Rightarrow> (int \<Rightarrow> bool) \<Rightarrow> int option \<Rightarrow> ps \<Rightarrow> ps" where
  "sm_on_state_set env installed msg s =
     StateManager_OnStateRequest env installed (case msg of None \<Rightarrow> 0 | Some v \<Rightarrow> v) False s"

subsection \<open>Charger evaluation\<close>

text \<open>
  Two translations of the same function of the original firmware: \<open>charger_in_standby\<close>
  in \<open>power_service.c\<close> and \<open>battery_charging_poll\<close> in \<open>battery_power_on.c\<close>.
\<close>

definition charger_in_standby :: "ps_env \<Rightarrow> ps \<Rightarrow> bool \<times> ps" where
  "charger_in_standby env s =
     (let (chg, s) = rd env charger_connected s
      in if \<not> chg then (False, s)
         else
           (let (mode, s) = rd env charger_mode s;
                s = (if mode = 2 then
                       (let (ins, s) = rd env ins_det s;
                            (fin, s) = (if \<not> ins then rd env battery_is_off s else (False, s))
                        in if fin then call ''battery_cmd0_off'' [] s
                           else
                             (let (ins, s) = rd env ins_det s
                              in if ins \<and> \<not> ps_reset_done s then
                                   (let s = call ''battery_cmd6_reset'' [] s;
                                        s = call ''set_reset_grace'' [] s;
                                        s = call ''monitor_clear_charger_mode'' [] s
                                    in s\<lparr>ps_reset_done := True\<rparr>)
                                 else s))
                     else if mode = 0 then s\<lparr>ps_fault := 3\<rparr>
                     else if mode = 1 then call ''charger_cmd5_identify'' [] s
                     else if mode = 3 then
                       (let (run, s) = rd env tick_running s;
                            (off, s) = (if \<not> run then rd env battery_is_off s else (False, s))
                        in if off then
                             StateManager_ChangeState env ST_STANDBY
                               (tick_arm 3000 ((call ''battery_cmd0_off'' [] s)\<lparr>ps_substate := 0\<rparr>))
                           else s)
                     else s)
            in (mode \<noteq> 3, s)))"

definition battery_charging_poll :: "ps_env \<Rightarrow> ps \<Rightarrow> bool \<times> ps" where
  "battery_charging_poll env s =
     (let (chg, s) = rd env charger_connected s
      in if \<not> chg then (False, s)
         else
           (let (mode, s) = rd env charger_mode s;
                s = (if mode = 2 then
                       (let (ins, s) = rd env ins_det s;
                            (fin, s) = (if \<not> ins then (let (off, s) = rd env battery_is_off s in (\<not> off, s))
                                        else (False, s))
                        in if fin then call ''battery_cmd0_off'' [] s
                           else
                             (let (ins, s) = rd env ins_det s
                              in if ins \<and> \<not> ps_reset_done s then
                                   (let s = call ''battery_cmd6_reset'' [] s;
                                        s = call ''set_reset_grace'' [] s;
                                        s = call ''monitor_clear_charger_mode'' [] s
                                    in s\<lparr>ps_reset_done := True\<rparr>)
                                 else s))
                     else if mode < 3 then
                       (if mode = 0 then s\<lparr>ps_fault := 3\<rparr> else call ''charger_cmd5_identify'' [] s)
                     else if mode = 3 then
                       (let (run, s) = rd env tick_running s;
                            (go, s) = (if \<not> run then (let (off, s) = rd env battery_is_off s in (\<not> off, s))
                                       else (False, s))
                        in if go then
                             StateManager_ChangeState env ST_STANDBY
                               (tick_arm 3000 ((call ''battery_cmd0_off'' [] s)\<lparr>ps_substate := 0\<rparr>))
                           else s)
                     else s)
            in (mode \<noteq> 3, s)))"

subsection \<open>The power-on cluster\<close>

definition buck_set_enable :: "int \<Rightarrow> ps \<Rightarrow> ps" where
  "buck_set_enable on s = call ''buck_set_enable'' [on] s"

definition buck_pulse_require_pgood :: "ps_env \<Rightarrow> ps \<Rightarrow> ps" where
  "buck_pulse_require_pgood env s =
     (let (en, s) = rd env buck_enabled s
      in if \<not> en then s
         else
           (let s = call ''sleep_ms'' [100] s; (ok, s) = rd env pgood s
            in if \<not> ok then buck_set_enable 0 s else s))"

definition battery_power_supervise :: "ps_env \<Rightarrow> ps \<Rightarrow> ps" where
  "battery_power_supervise env s =
     (let req = ps_pending s
      in if req = ST_INVALID then
           (let s = (if ps_substate s = 1 \<and> ps_fault s = 0 then s\<lparr>ps_fault := 1\<rparr> else s);
                cur = ps_state s
            in if cur \<noteq> ST_OPERATIONAL \<and> cur \<noteq> ST_UPDATING \<and> cur \<noteq> ST_ALARM then s
               else (call ''buck_drive_on'' [] s)\<lparr>ps_buck_logged := True\<rparr>)
         else if req \<noteq> ST_OPERATIONAL \<and> req \<noteq> ST_UPDATING \<and> req \<noteq> ST_ALARM then s
         else if ps_fault s \<noteq> 0 then s
         else
           (let s = s\<lparr>ps_fault := 2\<rparr>; (t, s) = rd env now_ns s in s\<lparr>ps_fault_ts := t\<rparr>))"

definition battery_power_on_recovery :: "ps_env \<Rightarrow> ps \<Rightarrow> ps" where
  "battery_power_on_recovery env s =
     (let s = (if ps_fault s = 0 then s\<lparr>ps_fault := 1\<rparr> else s);
          (chg, s) = rd env charger_connected s
      in if \<not> chg then s
         else
           (let (retry, s) = rd env retry_pending s;
                s = (if retry then buck_pulse_require_pgood env (buck_set_enable 1 s) else s)
            in snd (battery_charging_poll env s)))"

definition sequence_buck :: "ps_env \<Rightarrow> ps \<Rightarrow> ps" where
  "sequence_buck env s =
     (if ps_pending s = ST_INVALID \<or> ps_state s = ST_MAINTENANCE then
        (let (need, s) = rd env buck_needed s
         in buck_pulse_require_pgood env (buck_set_enable (if need then 1 else 0) s))
      else s)"

definition sequence_charger :: "ps_env \<Rightarrow> ps \<Rightarrow> ps" where
  "sequence_charger env s =
     (let (chg, s) = rd env charger_connected s
      in if \<not> chg then
           (let s = call ''monitor_clear_charger_mode'' [] s;
                (ins, s) = rd env ins_det s
            in if ins then s\<lparr>ps_reset_done := False\<rparr> else s)
         else
           (let (live, s) = battery_charging_poll env s
            in if live then
                 (let s = (if ps_state s \<noteq> ST_CHARGING \<and> ps_state s \<noteq> ST_UPDATING
                           then StateManager_ChangeState env ST_CHARGING (call ''tick_stop'' [] s)
                           else s)
                  in if ps_state s = ST_CHARGING
                     then call ''eshifter_request_calibration'' [] s else s)
               else s))"

definition sequence_finish :: "ps_env \<Rightarrow> ps \<Rightarrow> ps" where
  "sequence_finish env s =
     (let s = (if ps_state s = ST_CHARGING then
                 (let (chg, s) = rd env charger_connected s
                  in if \<not> chg then
                       tick_arm 3000 ((StateManager_ChangeState env ST_STANDBY s)\<lparr>ps_substate := 0\<rparr>)
                     else s)
               else s)
      in if ps_state s = ST_UPDATING then
           (let (chg, s) = rd env charger_connected s
            in if \<not> chg then call ''battery_cmd1_on'' [] s else s)
         else s)"

definition battery_power_on_sequence :: "ps_env \<Rightarrow> ps \<Rightarrow> ps" where
  "battery_power_on_sequence env s =
     (let (gone, s) = (if ps_fault s = 1 then (let (chg, s) = rd env charger_connected s in (\<not> chg, s))
                       else (False, s))
      in if gone then s
         else
           (let s = sequence_buck env s;
                s = (if ps_state s = ST_OPERATIONAL then snd (rd env charger_connected s) else s)
            in sequence_finish env (sequence_charger env s)))"

definition battery_enter_charging :: "ps_env \<Rightarrow> ps \<Rightarrow> ps" where
  "battery_enter_charging env s =
     (let (need, s) = rd env buck_needed s;
          s = (if need then buck_pulse_require_pgood env (buck_set_enable 1 s) else s);
          s = call ''switch_control_set_state'' [4] s;
          s = call ''low_power_request_can_low_power'' [] s;
          (live, s) = battery_charging_poll env s
      in if live \<and> ps_state s \<noteq> ST_CHARGING \<and> ps_state s \<noteq> ST_UPDATING
         then StateManager_ChangeState env ST_CHARGING (call ''tick_stop'' [] s) else s)"

subsection \<open>The standby worker\<close>

text \<open>Waiting for the battery to come up before charging the LiPo: at most 20 polls.\<close>

fun wait_battery_up :: "nat \<Rightarrow> ps_env \<Rightarrow> ps \<Rightarrow> ps" where
  "wait_battery_up 0 env s = s"
| "wait_battery_up (Suc retries) env s =
     (let (off, s) = rd env charger_off s;
          (up, s) = (if \<not> off then rd env battery_up s else (False, s))
      in if up then call ''sleep_ms'' [100] (buck_set_enable 1 s)
         else wait_battery_up retries env (call ''sleep_ms'' [250] s))"

definition worker_lipo :: "ps_env \<Rightarrow> ps \<Rightarrow> ps" where
  "worker_lipo env s =
     (let (lipo, s) = rd env lipo_present s
      in if \<not> lipo then s
         else
           (let (off, s) = rd env charger_off s;
                (go, s) = (if \<not> off then (True, s) else rd env ins_det s)
            in if \<not> go then s
               else
                 (let s = wait_battery_up 20 env (PowerService_TurnOn env s);
                      s = (if ps_substate s \<noteq> 1 then
                             (let (t, s) = rd env now_ns s in s\<lparr>ps_start_ns := t\<rparr>) else s);
                      s = s\<lparr>ps_substate := 1\<rparr>
                  in call ''switch_control_set_state'' [ST_STANDBY] s)))"

definition worker_gauge :: "ps_env \<Rightarrow> ps \<Rightarrow> ps" where
  "worker_gauge env s =
     (let (cap, s) = rd env lipo_capacity s;
          (dead, s) = (if cap = 0 then rd env lipo_dead s else (False, s));
          (low, s) = (if dead then (let (c, s) = rd env lipo_current s in (c < 1, s)) else (False, s))
      in if low then call ''sleep_ms'' [20000] (call ''low_power_reset_fuel_gauge'' [] s) else s)"

definition standby_enter :: "ps_env \<Rightarrow> ps \<Rightarrow> int \<times> ps" where
  "standby_enter env s =
     (let s = call ''switch_control_apply_standby'' [ST_STANDBY] s;
          (off, s) = rd env battery_is_off s;
          s = (if \<not> off then call ''battery_cmd0_off'' [] s else s)
      in (10000, s\<lparr>ps_substate := 2\<rparr>))"

text \<open>
  The LiPo charging state; the flag tells the early return that arms the timer itself.  Elapsed
  times are whole nanoseconds here; the C code divides by \<open>1e9\<close> in floating point.
\<close>

definition lipo_buck_check :: "ps_env \<Rightarrow> ps \<Rightarrow> ps" where
  "lipo_buck_check env s =
     (let (en, s) = rd env buck_enabled s
      in if \<not> en then buck_set_enable 1 s
         else
           (let (pg, s) = rd env pgood s;
                (bad, s) = (if \<not> pg then (True, s)
                            else (let (v, s) = rd env vac1 s in (\<not> v, s)))
            in if bad then buck_set_enable 1 (call ''sleep_ms'' [100] (buck_set_enable 0 s)) else s))"

definition lipo_not_charging :: "ps_env \<Rightarrow> ps \<Rightarrow> bool \<times> ps" where
  "lipo_not_charging env s =
     (let (up, s) = rd env battery_up s;
          s = (if up then lipo_buck_check env s else s);
          s = call ''bq25672_refresh'' [] s;
          (cap, s) = rd env lipo_capacity s
      in if cap < 31 then
           (let (prim, s) = rd env primary_capacity s
            in if prim = 0 \<or> ps_check_times s = 10 then
                 (True, tick_arm 15000 (StateManager_ChangeState env ST_SHIPPING (s\<lparr>ps_check_times := 0\<rparr>)))
               else (False, s\<lparr>ps_check_times := ps_check_times s + 1\<rparr>))
         else (False, s))"

definition lipo_keep_charging :: "ps_env \<Rightarrow> ps \<Rightarrow> int option \<times> ps" where
  "lipo_keep_charging env s =
     (let s = s\<lparr>ps_standalone_ship := False\<rparr>;
          (c, s) = rd env lipo_current s;
          (ret, s) = (if c < 1 then lipo_not_charging env s else (False, s\<lparr>ps_check_times := 0\<rparr>))
      in if ret then (None, s)
         else
           (let (lipo, s) = rd env lipo_present s
            in (Some 30000, if \<not> lipo then s\<lparr>ps_substate := 0\<rparr> else s)))"

definition standby_lipo_charging :: "ps_env \<Rightarrow> ps \<Rightarrow> int option \<times> ps" where
  "standby_lipo_charging env s =
     (let (t, s) = rd env now_ns s;
          s = s\<lparr>ps_end_ns := t\<rparr>
      in if 3600 * 1000000000 \<le> ps_end_ns s - ps_start_ns s then
           (Some 3000, (call ''lipo_charge_complete'' [] s)\<lparr>ps_substate := 0\<rparr>)
         else
           (let (up, s) = rd env battery_up s;
                (alone, s) = (if \<not> up then (let (a, s) = rd env standalone s in (\<not> a, s)) else (False, s))
            in if alone then
                 (Some 900000, StateManager_ChangeState env ST_SHIPPING (s\<lparr>ps_standalone_ship := True\<rparr>))
               else lipo_keep_charging env s))"

definition standby_go_to_sleep :: "ps_env \<Rightarrow> ps \<Rightarrow> int \<times> ps" where
  "standby_go_to_sleep env s =
     (let (run, s) = rd env lp_timer_running s
      in if run then (10000, s)
         else
           (let (off, s) = rd env battery_is_off s
            in if \<not> off then (3000, s\<lparr>ps_substate := 0\<rparr>)
               else
                 (let s = call ''low_power_request_standby_can'' [] s;
                      s = call ''low_power_request_standby_nrf'' [] s
                  in (1000, s\<lparr>ps_substate := 3\<rparr>))))"

definition standby_check_can :: "ps_env \<Rightarrow> ps \<Rightarrow> int \<times> ps" where
  "standby_check_can env s =
     (let s = call ''low_power_request_standby_can'' [] s;
          (quiet, s) = rd env can_quiet s
      in (1000,
          if \<not> quiet then
            (if ps_quiet_retries s < 3
             then s\<lparr>ps_substate := 2, ps_quiet_retries := ps_quiet_retries s + 1\<rparr>
             else s\<lparr>ps_substate := 0, ps_quiet_retries := 0\<rparr>)
          else s\<lparr>ps_substate := 4, ps_quiet_retries := 0\<rparr>))"

definition standby_suspend :: "ps_env \<Rightarrow> ps \<Rightarrow> int \<times> ps" where
  "standby_suspend env s =
     (let (vac, s) = rd env vac_present s
      in if vac then (30000, s)
         else
           (let (run, s) = rd env lp_timer_running s;
                (rearm, s) =
                  (if \<not> run then
                     (let s = call ''low_power_prepare_suspend'' [1] s;
                          s = call ''low_power_suspend_system'' [0x708, 1, 0] s;
                          (r, s) = rd env suspend_rc s;
                          (rearm, s) = (if r \<noteq> 0 then
                                          (if r = 1 then (1000, call ''timer_50ms_poll'' [] s) else (10000, s))
                                        else (30000, s))
                      in (rearm, call ''low_power_prepare_suspend'' [0] s))
                   else (10000, s))
            in (rearm, s\<lparr>ps_substate := 3\<rparr>)))"

definition standby_default :: "ps_env \<Rightarrow> ps \<Rightarrow> int \<times> ps" where
  "standby_default env s =
     (let s = call ''switch_control_set_state'' [ST_STANDBY] s;
          (off, s) = rd env battery_is_off s;
          s = (if \<not> off then call ''battery_cmd0_off'' [] s else s)
      in (10000, s\<lparr>ps_substate := 2\<rparr>))"

definition charge_supervisor_worker :: "ps_env \<Rightarrow> ps \<Rightarrow> ps" where
  "charge_supervisor_worker env s =
     (let (chg, s) = charger_in_standby env s
      in if chg then tick_arm 30000 s
         else
           (let s = worker_gauge env (worker_lipo env s);
                (rearm, s) =
                  (if ps_substate s = 0 then map_prod Some id (standby_enter env s)
                   else if ps_substate s = 1 then standby_lipo_charging env s
                   else if ps_substate s = 2 then map_prod Some id (standby_go_to_sleep env s)
                   else if ps_substate s = 3 then map_prod Some id (standby_check_can env s)
                   else if ps_substate s = 4 then map_prod Some id (standby_suspend env s)
                   else map_prod Some id (standby_default env s))
            in case rearm of None \<Rightarrow> s | Some ms \<Rightarrow> tick_arm ms s))"

definition on_mqtt_battery_reset :: "ps_env \<Rightarrow> ps \<Rightarrow> ps" where
  "on_mqtt_battery_reset env s =
     PowerService_OnStandby env (call ''sleep_ms'' [16000] (call ''battery_cmd6_reset'' [] s))"


subsection \<open>Valid states\<close>

lemma rd_eq: "rd env r s = (r (env (ps_clk s)), s\<lparr>ps_clk := ps_clk s + 1\<rparr>)"
  by (rule rd_def)

text \<open>The constructor does not set the two counters.  \<open>w\<close>: the first one may still hold what the memory
  held; \<open>q0\<close>: what the memory held for the second.\<close>

definition ps_ok :: "bool \<Rightarrow> int \<Rightarrow> ps \<Rightarrow> bool" where
  "ps_ok w q0 s \<longleftrightarrow> ps_state s \<in> {1..7} \<and> ps_substate s \<in> {0..4} \<and> (w \<or> ps_check_times s \<in> {0..10}) \<and>
     min 0 q0 \<le> ps_quiet_retries s \<and> (ps_quiet_retries s \<le> 3 \<or> ps_quiet_retries s = q0)"

lemma ps_ok_call [simp]: "ps_ok w q0 (call f a s) = ps_ok w q0 s"
  by (simp add: ps_ok_def call_def)

lemma ps_ok_buck [simp]: "ps_ok w q0 (buck_set_enable v s) = ps_ok w q0 s"
  by (simp add: buck_set_enable_def)

lemma ps_ok_tick [simp]: "ps_ok w q0 (tick_arm ms s) = ps_ok w q0 s"
  by (simp add: tick_arm_def)

lemma ps_ok_pub [simp]: "ps_ok w q0 (pub t v r s) = ps_ok w q0 s"
  by (simp add: ps_ok_def pub_def)

lemma ps_ok_update [simp]:
  "ps_ok w q0 (s\<lparr>ps_clk := k\<rparr>) = ps_ok w q0 s" "ps_ok w q0 (s\<lparr>ps_pending := q\<rparr>) = ps_ok w q0 s"
  "ps_ok w q0 (s\<lparr>ps_fault := x\<rparr>) = ps_ok w q0 s" "ps_ok w q0 (s\<lparr>ps_fault_ts := x\<rparr>) = ps_ok w q0 s"
  "ps_ok w q0 (s\<lparr>ps_reset_done := b\<rparr>) = ps_ok w q0 s" "ps_ok w q0 (s\<lparr>ps_standalone_ship := b\<rparr>) = ps_ok w q0 s"
  "ps_ok w q0 (s\<lparr>ps_on_ns := x\<rparr>) = ps_ok w q0 s" "ps_ok w q0 (s\<lparr>ps_start_ns := x\<rparr>) = ps_ok w q0 s"
  "ps_ok w q0 (s\<lparr>ps_end_ns := x\<rparr>) = ps_ok w q0 s" "ps_ok w q0 (s\<lparr>ps_buck_logged := b\<rparr>) = ps_ok w q0 s"
  by (simp_all add: ps_ok_def)























text \<open>The entry points of the service, in any order.\<close>

inductive ps_op :: "ps_env \<Rightarrow> ps \<Rightarrow> ps \<Rightarrow> bool" for env where
  request: "ps_op env s (StateManager_OnStateRequest env ins st internal s)"
| tick: "ps_op env s (charge_supervisor_worker env s)"
| supervise: "ps_op env s (battery_power_supervise env s)"
| recovery: "ps_op env s (battery_power_on_recovery env s)"
| sequence: "ps_op env s (battery_power_on_sequence env s)"
| enter_charging: "ps_op env s (battery_enter_charging env s)"
| battery_reset: "ps_op env s (on_mqtt_battery_reset env s)"

inductive_cases ps_opE: "ps_op env s s'"




definition ps_plain :: ps_reads where
  "ps_plain = \<lparr>is_busy = False, charger_connected = False, charger_off = False, battery_is_off = True,
     battery_up = False, buck_needed = False, retry_pending = False, ins_det = False, standalone = False,
     primary_capacity = 50, charger_mode = 0, lipo_present = False, lipo_capacity = 50, lipo_current = 0,
     lipo_dead = False, pgood = False, vac1 = False, buck_enabled = False, can_quiet = True,
     vac_present = False, suspend_rc = 0, tick_running = False, lp_timer_running = False, now_ns = 0\<rparr>"

definition ps_raw :: ps where
  "ps_raw = \<lparr>ps_clk = 0, ps_state = 0x55, ps_pending = 0x55, ps_substate = 0, ps_fault = 3, ps_fault_ts = 0,
     ps_reset_done = False, ps_standalone_ship = False, ps_check_times = 0x5500, ps_quiet_retries = 0x55,
     ps_on_ns = 0, ps_start_ns = 0, ps_end_ns = 0, ps_buck_logged = False, ps_calls = []\<rparr>"


subsection \<open>Requests\<close>

lemma call_fields [simp]:
  "ps_state (call f a s) = ps_state s" "ps_pending (call f a s) = ps_pending s"
  "ps_clk (call f a s) = ps_clk s" "ps_substate (call f a s) = ps_substate s"
  "ps_fault (call f a s) = ps_fault s" "ps_quiet_retries (call f a s) = ps_quiet_retries s"
  by (simp_all add: call_def)

lemma pub_fields [simp]:
  "ps_state (pub t v r s) = ps_state s" "ps_pending (pub t v r s) = ps_pending s"
  "ps_clk (pub t v r s) = ps_clk s" "ps_substate (pub t v r s) = ps_substate s"
  by (simp_all add: pub_def)

lemma tick_fields [simp]:
  "ps_state (tick_arm ms s) = ps_state s" "ps_pending (tick_arm ms s) = ps_pending s"
  "ps_substate (tick_arm ms s) = ps_substate s"
  by (simp_all add: tick_arm_def)

lemma change_fields:
  assumes "st \<noteq> ST_INVALID"
  shows "ps_state (StateManager_ChangeState env st s) = st"
    "ps_pending (StateManager_ChangeState env st s) = 0"
    "ps_substate (StateManager_ChangeState env st s) = ps_substate s"
  using assms by (simp_all add: StateManager_ChangeState_def rd_eq Let_def)

lemma turn_on_fields [simp]:
  "ps_state (PowerService_TurnOn env s) = ps_state s"
  "ps_pending (PowerService_TurnOn env s) = ps_pending s"
  by (simp_all add: PowerService_TurnOn_def rd_eq Let_def)

text \<open>Requests that the service commits at once.\<close>

definition immediate :: "int \<Rightarrow> int \<Rightarrow> bool" where
  "immediate cur st \<longleftrightarrow> st \<in> {ST_SHIPPING, ST_STANDBY, ST_MAINTENANCE} \<or>
     (st = ST_UPDATING \<and> cur = ST_CHARGING)"

lemma handler_outcome:
  assumes "st \<in> {ST_SHIPPING..ST_MAINTENANCE}"
  shows "ps_state (PowerService_OnStateChanged env st s) = (if immediate (ps_state s) st then st else ps_state s)"
    "ps_pending (PowerService_OnStateChanged env st s) = (if immediate (ps_state s) st then 0 else ps_pending s)"
proof -
  have "st = 1 \<or> st = 2 \<or> st = 3 \<or> st = 4 \<or> st = 5 \<or> st = 6 \<or> st = 7"
    using assms by (auto simp: st_defs)
  then show "ps_state (PowerService_OnStateChanged env st s) = (if immediate (ps_state s) st then st else ps_state s)"
    "ps_pending (PowerService_OnStateChanged env st s) = (if immediate (ps_state s) st then 0 else ps_pending s)"
    by (auto simp: PowerService_OnStateChanged_def PowerService_OnShipping_def PowerService_OnStandby_def
        PowerService_OnOperational_def PowerService_OnCharging_def PowerService_OnUpdating_def
        PowerService_OnAlarm_def PowerService_OnMaintenance_def st_defs rd_eq Let_def change_fields immediate_def)
qed

definition request_accepted :: "ps_env \<Rightarrow> int \<Rightarrow> ps \<Rightarrow> bool" where
  "request_accepted env st s \<longleftrightarrow>
     ps_state s \<noteq> ST_INVALID \<and> st \<noteq> ps_state s \<and> \<not> is_busy (env (ps_clk s))"

text \<open>
  An external request for a real state is either rejected, with exactly
  one status published (DENIED, IS_ACTIVE or RETRY) and nothing else changed, or accepted:
  shipping, standby, maintenance and updating-from-charging are committed at once, every other
  state is left pending with the old state in force.
\<close>

theorem request_outcome:
  assumes "st \<in> {ST_SHIPPING..ST_MAINTENANCE}"
  shows "let s' = sm_on_state_set env (\<lambda>_. True) (Some st) s in
    if request_accepted env st s
    then ps_state s' = (if immediate (ps_state s) st then st else ps_state s) \<and>
         ps_pending s' = (if immediate (ps_state s) st then 0 else st)
    else ps_calls s' = ps_calls s @ [Pub ''power/state/status''
           (if ps_state s = ST_INVALID then 3 else if st = ps_state s then 2 else 1) False] \<and>
         ps_state s' = ps_state s \<and> ps_pending s' = ps_pending s \<and> ps_substate s' = ps_substate s"
proof -
  define s' where "s' = sm_on_state_set env (\<lambda>_. True) (Some st) s"
  show ?thesis
    unfolding Let_def s'_def [symmetric]
proof (cases "request_accepted env st s")
  case True
  define t where "t = (if st \<noteq> ST_INVALID then call ''republish_state'' [] (s\<lparr>ps_clk := ps_clk s + 1, ps_pending := st\<rparr>)
    else s\<lparr>ps_clk := ps_clk s + 1, ps_pending := st\<rparr>)"
  have "s' = PowerService_OnStateChanged env st t"
    using True assms(1)
    by (simp add: s'_def sm_on_state_set_def StateManager_OnStateRequest_def request_accepted_def rd_eq
        Let_def sm_dispatch_def t_def)
  moreover have "ps_state t = ps_state s" "ps_pending t = st" by (simp_all add: t_def)
  ultimately show "if request_accepted env st s
    then ps_state s' = (if immediate (ps_state s) st then st else ps_state s) \<and>
         ps_pending s' = (if immediate (ps_state s) st then 0 else st)
    else ps_calls s' = ps_calls s @ [Pub ''power/state/status''
           (if ps_state s = ST_INVALID then 3 else if st = ps_state s then 2 else 1) False] \<and>
         ps_state s' = ps_state s \<and> ps_pending s' = ps_pending s \<and> ps_substate s' = ps_substate s"
    using True handler_outcome [OF assms(1), of env t] by simp
next
  case False
  then show "if request_accepted env st s
    then ps_state s' = (if immediate (ps_state s) st then st else ps_state s) \<and>
         ps_pending s' = (if immediate (ps_state s) st then 0 else st)
    else ps_calls s' = ps_calls s @ [Pub ''power/state/status''
           (if ps_state s = ST_INVALID then 3 else if st = ps_state s then 2 else 1) False] \<and>
         ps_state s' = ps_state s \<and> ps_pending s' = ps_pending s \<and> ps_substate s' = ps_substate s"
    by (auto simp: s'_def sm_on_state_set_def StateManager_OnStateRequest_def request_accepted_def rd_eq
        Let_def pub_def)
qed
qed

theorem request_outcome_witness:
  "let s' = sm_on_state_set (\<lambda>_. ps_plain) (\<lambda>_. True) (Some ST_STANDBY) (ps_raw\<lparr>ps_state := 4\<rparr>) in
    if request_accepted (\<lambda>_. ps_plain) ST_STANDBY (ps_raw\<lparr>ps_state := 4\<rparr>)
    then ps_state s' = (if immediate (ps_state (ps_raw\<lparr>ps_state := 4\<rparr>)) ST_STANDBY then ST_STANDBY
           else ps_state (ps_raw\<lparr>ps_state := 4\<rparr>)) \<and>
         ps_pending s' = (if immediate (ps_state (ps_raw\<lparr>ps_state := 4\<rparr>)) ST_STANDBY then 0 else ST_STANDBY)
    else ps_calls s' = ps_calls (ps_raw\<lparr>ps_state := 4\<rparr>) @ [Pub ''power/state/status''
           (if ps_state (ps_raw\<lparr>ps_state := 4\<rparr>) = ST_INVALID then 3
            else if ST_STANDBY = ps_state (ps_raw\<lparr>ps_state := 4\<rparr>) then 2 else 1) False] \<and>
         ps_state s' = ps_state (ps_raw\<lparr>ps_state := 4\<rparr>) \<and>
         ps_pending s' = ps_pending (ps_raw\<lparr>ps_state := 4\<rparr>) \<and>
         ps_substate s' = ps_substate (ps_raw\<lparr>ps_state := 4\<rparr>)"
  by (rule request_outcome) (simp add: st_defs)

subsection \<open>Going to sleep\<close>

text \<open>
  Standby with nothing in the way: no charger, no LiPo to charge, battery off, the bus quiet, no
  supply voltage and the standby timer idle.
\<close>

definition sleepy_env :: "ps_env \<Rightarrow> bool" where
  "sleepy_env env \<longleftrightarrow> (\<forall>k. \<not> charger_connected (env k) \<and> \<not> lipo_present (env k) \<and>
     lipo_capacity (env k) \<noteq> 0 \<and> battery_is_off (env k) \<and> can_quiet (env k) \<and>
     \<not> vac_present (env k) \<and> \<not> lp_timer_running (env k))"

lemma sleepy_worker:
  assumes "sleepy_env env"
  shows "ps_substate s = 0 \<Longrightarrow> ps_substate (charge_supervisor_worker env s) = 2"
    "ps_substate s = 2 \<Longrightarrow> ps_substate (charge_supervisor_worker env s) = 3"
    "ps_substate s = 3 \<Longrightarrow> ps_substate (charge_supervisor_worker env s) = 4"
    "ps_substate s = 4 \<Longrightarrow> ps_substate (charge_supervisor_worker env s) = 3 \<and>
       Call ''low_power_suspend_system'' [0x708, 1, 0] \<in> set (ps_calls (charge_supervisor_worker env s))"
  using assms
  by (simp_all add: charge_supervisor_worker_def charger_in_standby_def worker_lipo_def worker_gauge_def
      standby_enter_def standby_go_to_sleep_def standby_check_can_def standby_suspend_def rd_eq Let_def
      sleepy_env_def map_prod_def) (auto simp: call_def tick_arm_def)

text \<open>
  C18.  In standby with the battery off, the bus quiet, no charger, no supply
  voltage and the standby timer idle, four ticks of the worker walk through the sub-states to
  the suspend of the system and back to the CAN check.
\<close>

theorem standby_suspends:
  assumes "sleepy_env env" and "ps_substate s = 0"
  shows "map (\<lambda>n. ps_substate ((charge_supervisor_worker env ^^ n) s)) [1, 2, 3, 4] = [2, 3, 4, 3] \<and>
     Call ''low_power_suspend_system'' [0x708, 1, 0] \<in> set (ps_calls ((charge_supervisor_worker env ^^ 4) s))"
proof -
  let ?w = "charge_supervisor_worker env"
  have 1: "ps_substate (?w s) = 2" by (rule sleepy_worker(1) [OF assms])
  then have 2: "ps_substate (?w (?w s)) = 3" by (rule sleepy_worker(2) [OF assms(1)])
  then have 3: "ps_substate (?w (?w (?w s))) = 4" by (rule sleepy_worker(3) [OF assms(1)])
  then show ?thesis
    using 1 2 sleepy_worker(4) [OF assms(1) 3] by (simp add: eval_nat_numeral)
qed

theorem standby_suspends_witness:
  "map (\<lambda>n. ps_substate ((charge_supervisor_worker (\<lambda>_. ps_plain) ^^ n) ps_raw)) [1, 2, 3, 4] = [2, 3, 4, 3] \<and>
     Call ''low_power_suspend_system'' [0x708, 1, 0]
       \<in> set (ps_calls ((charge_supervisor_worker (\<lambda>_. ps_plain) ^^ 4) ps_raw))"
  by (rule standby_suspends) (simp_all add: sleepy_env_def ps_plain_def ps_raw_def)

subsection \<open>The two translations of the charger evaluation\<close>

text \<open>
  They test the battery with opposite polarity: with a live battery and no charge current only
  the one in \<open>battery_power_on.c\<close> switches the battery off and returns to standby.
\<close>

text \<open>
  With a charger that reports no charging, an idle tick timer and a
  battery that is on, the evaluation in battery_power_on.c switches the battery off and returns
  to standby, while charger_in_standby, a translation of the same firmware function, does
  nothing.
\<close>

theorem charger_poll_polarity:
  assumes "\<And>k. charger_connected (env k) \<and> charger_mode (env k) = 3 \<and> \<not> tick_running (env k) \<and>
      \<not> battery_is_off (env k)"
  shows "fst (battery_charging_poll env s) = fst (charger_in_standby env s) \<and>
     ps_state (snd (battery_charging_poll env s)) = ST_STANDBY \<and>
     Call ''battery_cmd0_off'' [] \<in> set (ps_calls (snd (battery_charging_poll env s))) \<and>
     ps_state (snd (charger_in_standby env s)) = ps_state s \<and>
     ps_calls (snd (charger_in_standby env s)) = ps_calls s"
proof -
  have p: "snd (battery_charging_poll env s) = StateManager_ChangeState env ST_STANDBY
      (tick_arm 3000 ((call ''battery_cmd0_off'' [] (s\<lparr>ps_clk := Suc (Suc (Suc (Suc (ps_clk s))))\<rparr>))\<lparr>ps_substate := 0\<rparr>))"
    and q: "snd (charger_in_standby env s) = s\<lparr>ps_clk := Suc (Suc (Suc (Suc (ps_clk s))))\<rparr>"
    and r: "fst (battery_charging_poll env s) = fst (charger_in_standby env s)"
    using assms
    by (simp_all add: battery_charging_poll_def charger_in_standby_def rd_eq Let_def)
  show ?thesis
    unfolding p q r
    by (simp add: change_fields st_defs)
      (simp add: StateManager_ChangeState_def rd_eq Let_def call_def tick_arm_def pub_def st_defs)
qed

theorem charger_poll_polarity_witness:
  "fst (battery_charging_poll (\<lambda>_. ps_plain\<lparr>charger_connected := True, charger_mode := 3, battery_is_off := False\<rparr>) ps_raw)
      = fst (charger_in_standby (\<lambda>_. ps_plain\<lparr>charger_connected := True, charger_mode := 3, battery_is_off := False\<rparr>) ps_raw) \<and>
   ps_state (snd (battery_charging_poll (\<lambda>_. ps_plain\<lparr>charger_connected := True, charger_mode := 3, battery_is_off := False\<rparr>) ps_raw)) = ST_STANDBY \<and>
   Call ''battery_cmd0_off'' [] \<in> set (ps_calls (snd (battery_charging_poll
     (\<lambda>_. ps_plain\<lparr>charger_connected := True, charger_mode := 3, battery_is_off := False\<rparr>) ps_raw))) \<and>
   ps_state (snd (charger_in_standby (\<lambda>_. ps_plain\<lparr>charger_connected := True, charger_mode := 3, battery_is_off := False\<rparr>) ps_raw)) = ps_state ps_raw \<and>
   ps_calls (snd (charger_in_standby (\<lambda>_. ps_plain\<lparr>charger_connected := True, charger_mode := 3, battery_is_off := False\<rparr>) ps_raw)) = ps_calls ps_raw"
  by (rule charger_poll_polarity) (simp add: ps_plain_def)

end
