(* ===== verification/BackupUnlock.thy ===== *)
theory BackupUnlock
  imports Prelude
begin

text \<open>
  The keypad fallback of the \<open>ux\<close> service (\<open>src/main/ux/src/backup_unlock.c\<close>):
  entering the mode, checking an entry against the stored three-symbol code, and the reaction to
  a wrong one.  The stored code is what \<open>bu_load_code\<close> returns and is an argument; the
  vendor framework (tones, lights, feedback, timers, the result callback) is a list of events.
  The digits are written into the entry buffer by vendor code, so the buffer is arbitrary between
  two operations.
\<close>

datatype bu_event =
    BuEffect u32 nat nat "nat \<times> nat \<times> nat"
  | BuLight nat
  | BuToken string
  | BuArmEntry nat
  | BuArmLockout nat
  | BuCancelTimeout
  | BuCancelEntry
  | BuResult bool
  | BuLog string

record backup_unlock =
  conn_id :: u32
  code_id_pad :: u8
  entered :: bytes
  active :: u8
  enabled :: u8
  locked_out :: u8
  fail_count :: u8
  bu_events :: "bu_event list"

definition bu_emit :: "bu_event list \<Rightarrow> backup_unlock \<Rightarrow> backup_unlock" where
  "bu_emit es self = self\<lparr>bu_events := bu_events self @ es\<rparr>"

lemma bu_emit_fields [simp]:
  "conn_id (bu_emit es self) = conn_id self"
  "code_id_pad (bu_emit es self) = code_id_pad self"
  "entered (bu_emit es self) = entered self"
  "active (bu_emit es self) = active self"
  "enabled (bu_emit es self) = enabled self"
  "locked_out (bu_emit es self) = locked_out self"
  "fail_count (bu_emit es self) = fail_count self"
  "bu_events (bu_emit es self) = bu_events self @ es"
  by (simp_all add: bu_emit_def)

subsection \<open>Operations\<close>

definition backup_unlock_play_entry_feedback :: "backup_unlock \<Rightarrow> backup_unlock" where
  "backup_unlock_play_entry_feedback self =
     bu_emit [BuEffect (conn_id self) 0x307 0x14 (1, 0, 1),
              BuEffect (conn_id self) 0x2a1 0x1e (0, 0, 0)] self"

definition start_refused :: "backup_unlock \<Rightarrow> bool" where
  "start_refused self = (active self \<noteq> 0 \<or> enabled self = 0 \<or> locked_out self \<noteq> 0)"

definition backup_unlock_start :: "bytes \<Rightarrow> u32 \<Rightarrow> backup_unlock \<Rightarrow> backup_unlock" where
  "backup_unlock_start code conn self =
     (if start_refused self then self
      else if code = [] then
        bu_emit [BuLog ''Backup unlock code not set'', BuEffect 3 0x2fb 0xc (1, 1, 0)] self
      else
        let self = bu_emit [BuLight 10] self;
            self = self\<lparr>active := 1, enabled := 0, fail_count := 0, locked_out := 0,
                         conn_id := conn, code_id_pad := 0,
                         entered := replicate (length (entered self)) 0\<rparr>
        in backup_unlock_play_entry_feedback
             (bu_emit [BuToken ''p_unlock'', BuArmEntry 5000] self))"

definition backup_unlock_on_wrong_code :: "backup_unlock \<Rightarrow> backup_unlock" where
  "backup_unlock_on_wrong_code self =
     (let self = bu_emit [BuToken ''negative'', BuEffect (conn_id self) 0x2fb 0xc (1, 1, 0),
                          BuResult False] (self\<lparr>active := 0\<rparr>);
          fails = fail_count self + 1;
          self = self\<lparr>fail_count := fails\<rparr>
      in if 2 < fails
         then bu_emit [BuArmLockout 0] (self\<lparr>locked_out := 1\<rparr>)\<lparr>fail_count := 0\<rparr>
         else self)"

text \<open>
  The comparison loop: \<open>n\<close> entered symbols are left to look at.  A read past the stored
  code is outside its allocation and \<open>None\<close>.
\<close>

fun code_matches :: "bytes \<Rightarrow> bytes \<Rightarrow> nat \<Rightarrow> bool option" where
  "code_matches code es 0 = Some True"
| "code_matches code [] (Suc n) = Some True"
| "code_matches code (e # es) (Suc n) =
     (if e = 0 then Some False
      else case code of
        [] \<Rightarrow> None
      | c # cs \<Rightarrow> if c \<noteq> e then Some False else code_matches cs es n)"

definition entered_len :: "backup_unlock \<Rightarrow> nat" where
  "entered_len self = length (entered self) mod 256"

definition backup_unlock_check_code :: "bytes \<Rightarrow> backup_unlock \<Rightarrow> backup_unlock option" where
  "backup_unlock_check_code code self =
     (let self = bu_emit [BuCancelTimeout, BuCancelEntry] self;
          match = (if length code = 3 then code_matches code (entered self) (entered_len self)
                   else Some False)
      in case match of
           None \<Rightarrow> None
         | Some True \<Rightarrow>
             Some (bu_emit [BuLog ''Backup unlock success'', BuResult True] self\<lparr>active := 0\<rparr>)
         | Some False \<Rightarrow> Some (backup_unlock_on_wrong_code self))"

subsection \<open>The comparison\<close>

lemma code_matches_True:
  "code_matches code es n = Some True \<longleftrightarrow>
     0 \<notin> set (take n es) \<and> take n es = take (length (take n es)) code"
proof (induction code es n rule: code_matches.induct)
  case (3 code e es n)
  then show ?case by (cases code) auto
qed simp_all

lemma code_matches_None:
  "code_matches code es n = None \<longleftrightarrow>
     (\<exists>rest. take n es = code @ rest \<and> rest \<noteq> [] \<and> 0 \<notin> set code \<and> rest ! 0 \<noteq> 0)"
proof (induction code es n rule: code_matches.induct)
  case (1 code es)
  then show ?case by auto
next
  case (2 code n)
  then show ?case by auto
next
  case (3 code e es n)
  show ?case
  proof (cases code)
    case Nil
    then show ?thesis by auto
  next
    case (Cons c cs)
    then show ?thesis using 3 by auto
  qed
qed

text \<open>What the check promises: the entry is the stored code, symbol for symbol.\<close>

definition entry_is_code :: "bytes \<Rightarrow> backup_unlock \<Rightarrow> bool" where
  "entry_is_code code self = (length code = 3 \<and> entered self = code)"

lemma entered_bu_emit_len [simp]: "entered_len (bu_emit es self) = entered_len self"
  by (simp add: entered_len_def)

lemma fail_count_on_wrong_code:
  "fail_count (backup_unlock_on_wrong_code self) =
     (if 2 < fail_count self + 1 then 0 else fail_count self + 1)"
  by (simp add: backup_unlock_on_wrong_code_def Let_def)

lemma locked_out_on_wrong_code:
  "locked_out (backup_unlock_on_wrong_code self) =
     (if 2 < fail_count self + 1 then 1 else locked_out self)"
  by (simp add: backup_unlock_on_wrong_code_def Let_def)

subsection \<open>The service around the object\<close>

text \<open>
  What happens to the object over time: the two entry points of this file, with the check (or
  the vendor's entry timeout, which may count as a wrong entry) only while the mode is active, and
  what vendor code does between them: key presses, the enable flag, leaving the mode.
\<close>

inductive bu_step :: "backup_unlock \<Rightarrow> backup_unlock \<Rightarrow> bool" where
  start: "bu_step self (backup_unlock_start code conn self)"
| check: "active self \<noteq> 0 \<Longrightarrow> backup_unlock_check_code code self = Some self' \<Longrightarrow> bu_step self self'"
| wrong: "active self \<noteq> 0 \<Longrightarrow> bu_step self (backup_unlock_on_wrong_code self)"
| keys: "bu_step self (self\<lparr>entered := ks\<rparr>)"
| enable: "bu_step self (self\<lparr>enabled := e\<rparr>)"
| leave: "bu_step self (self\<lparr>active := 0\<rparr>)"

inductive bu_reach :: "backup_unlock \<Rightarrow> backup_unlock \<Rightarrow> bool" where
  refl: "bu_reach self self"
| step: "bu_reach self s1 \<Longrightarrow> bu_step s1 s2 \<Longrightarrow> bu_reach self s2"

definition no_lockout :: "backup_unlock \<Rightarrow> bool" where
  "no_lockout self = (locked_out self = 0 \<and>
     (fail_count self = 0 \<or> fail_count self = 1 \<and> active self = 0))"

lemma no_lockout_wrong:
  assumes "no_lockout self" "active self \<noteq> 0"
  shows "no_lockout (backup_unlock_on_wrong_code self)"
  using assms by (auto simp: no_lockout_def backup_unlock_on_wrong_code_def Let_def)

lemma check_code_cases:
  assumes "backup_unlock_check_code code self = Some self'"
  shows "self' = bu_emit [BuLog ''Backup unlock success'', BuResult True]
                   (bu_emit [BuCancelTimeout, BuCancelEntry] self)\<lparr>active := 0\<rparr> \<or>
         self' = backup_unlock_on_wrong_code (bu_emit [BuCancelTimeout, BuCancelEntry] self)"
  using assms by (auto simp: backup_unlock_check_code_def Let_def split: option.splits bool.splits)

lemma no_lockout_step:
  assumes "bu_step self self'" "no_lockout self"
  shows "no_lockout self'"
  using assms
proof (cases rule: bu_step.cases)
  case (start code conn)
  then show ?thesis using assms(2)
    by (auto simp: no_lockout_def backup_unlock_start_def start_refused_def Let_def
          backup_unlock_play_entry_feedback_def)
next
  case (check code)
  have em: "no_lockout (bu_emit [BuCancelTimeout, BuCancelEntry] self)"
    using assms(2) by (simp add: no_lockout_def)
  from check_code_cases [OF check(2)] show ?thesis
  proof
    assume "self' = bu_emit [BuLog ''Backup unlock success'', BuResult True]
                   (bu_emit [BuCancelTimeout, BuCancelEntry] self)\<lparr>active := 0\<rparr>"
    then show ?thesis using em by (auto simp: no_lockout_def)
  next
    assume "self' = backup_unlock_on_wrong_code (bu_emit [BuCancelTimeout, BuCancelEntry] self)"
    then show ?thesis using no_lockout_wrong [OF em] check(1) by simp
  qed
next
  case wrong
  then show ?thesis using no_lockout_wrong assms(2) by simp
next
  case (keys ks)
  then show ?thesis using assms(2) by (simp add: no_lockout_def)
next
  case (enable e)
  then show ?thesis using assms(2) by (simp add: no_lockout_def)
next
  case leave
  then show ?thesis using assms(2) by (auto simp: no_lockout_def)
qed

lemma no_lockout_reach:
  assumes "bu_reach self self'" "no_lockout self"
  shows "no_lockout self'"
  using assms by (induction rule: bu_reach.induct) (auto intro: no_lockout_step)

lemma entered_take_mod: "length (take (entered_len self) (entered self)) = entered_len self"
  by (simp add: entered_len_def)

lemma bu_events_wrong:
  "bu_events (backup_unlock_on_wrong_code self) =
     bu_events self @ [BuToken ''negative'', BuEffect (conn_id self) 0x2fb 0xc (1, 1, 0),
                       BuResult False] @ (if 2 < fail_count self + 1 then [BuArmLockout 0] else [])"
  by (simp add: backup_unlock_on_wrong_code_def Let_def)

lemma check_code_result:
  assumes "backup_unlock_check_code code self = Some self'"
  shows "BuResult True \<in> set (drop (length (bu_events self)) (bu_events self')) \<longleftrightarrow>
           (length code = 3 \<and> code_matches code (entered self) (entered_len self) = Some True)"
  using assms
  by (auto simp: backup_unlock_check_code_def Let_def bu_events_wrong
        split: option.splits bool.splits if_splits)

definition demo_bu :: "bytes \<Rightarrow> backup_unlock" where
  "demo_bu es = \<lparr>conn_id = 7, code_id_pad = 0, entered = es, active = 1, enabled = 0,
                 locked_out = 0, fail_count = 0, bu_events = []\<rparr>"

text \<open>
  A check reports success exactly when the stored code has three symbols and
  the entry, of at most three symbols, is a prefix of it with no empty symbol; an entry buffer
  of three symbols is accepted exactly when it is the code. Whatever the outcome, the mode is
  left.
\<close>

theorem check_accepts:
  assumes "backup_unlock_check_code code self = Some self'"
  shows "(BuResult True \<in> set (drop (length (bu_events self)) (bu_events self')) \<longleftrightarrow>
           length code = 3 \<and> entered_len self \<le> 3 \<and>
           take (entered_len self) (entered self) = take (entered_len self) code \<and>
           0 \<notin> set (take (entered_len self) (entered self))) \<and>
     (length (entered self) = 3 \<and> 0 \<notin> set code \<longrightarrow>
           ((BuResult True \<in> set (drop (length (bu_events self)) (bu_events self')) \<longleftrightarrow>
            entered self = code))) \<and>
     (active self' = 0)"
proof -
  let ?k = "entered_len self"
  let ?ok = "BuResult True \<in> set (drop (length (bu_events self)) (bu_events self'))"
  have iff: "?ok \<longleftrightarrow> length code = 3 \<and> 0 \<notin> set (take ?k (entered self)) \<and>
      take ?k (entered self) = take ?k code"
    unfolding check_code_result [OF assms] code_matches_True entered_take_mod ..
  have le: "?k \<le> 3" if "length code = 3" "take ?k (entered self) = take ?k code"
  proof -
    have "?k = length (take ?k code)" using entered_take_mod [of self] that(2) by simp
    then show ?thesis using that(1) by simp
  qed
  have r1: "?ok \<longleftrightarrow> length code = 3 \<and> ?k \<le> 3 \<and>
           take ?k (entered self) = take ?k code \<and> 0 \<notin> set (take ?k (entered self))"
    using iff le by blast
  have r2: "?ok \<longleftrightarrow> entered self = code" if "length (entered self) = 3" "0 \<notin> set code"
    using iff that by (auto simp: entered_len_def)
  have r3: "active self' = 0"
    using check_code_cases [OF assms] by (auto simp: backup_unlock_on_wrong_code_def Let_def)
  show ?thesis using r1 r2 r3 by blast
qed

theorem check_accepts_witness:
  "(\<exists>s'. backup_unlock_check_code [1, 2, 3] (demo_bu [1, 2, 3]) = Some s' \<and>
      BuResult True \<in> set (bu_events s')) \<and>
   (\<exists>s'. backup_unlock_check_code [1, 2, 3] (demo_bu []) = Some s' \<and>
      BuResult True \<in> set (bu_events s')) \<and>
   (\<exists>s'. backup_unlock_check_code [1, 2, 3] (demo_bu [1, 3, 3]) = Some s' \<and>
      BuResult True \<notin> set (bu_events s')) \<and>
   backup_unlock_check_code [1, 2, 3] (demo_bu [1, 2, 3, 1]) = None"
proof -
  have e: "entered_len (demo_bu [1, 2, 3]) = Suc (Suc (Suc 0))" "entered_len (demo_bu []) = 0"
    "entered_len (demo_bu [1, 3, 3]) = Suc (Suc (Suc 0))"
    "entered_len (demo_bu [1, 2, 3, 1]) = Suc (Suc (Suc (Suc 0)))"
    by (simp_all add: entered_len_def demo_bu_def)
  have entered_demo: "entered (demo_bu es) = es" for es by (simp add: demo_bu_def)
  have a: "\<exists>s'. backup_unlock_check_code [1, 2, 3] (demo_bu [1, 2, 3]) = Some s'"
    and b: "\<exists>s'. backup_unlock_check_code [1, 2, 3] (demo_bu []) = Some s'"
    and c: "\<exists>s'. backup_unlock_check_code [1, 2, 3] (demo_bu [1, 3, 3]) = Some s'"
    and d: "backup_unlock_check_code [1, 2, 3] (demo_bu [1, 2, 3, 1]) = None"
    using e by (simp_all add: backup_unlock_check_code_def Let_def entered_demo)
  from a b c obtain s1 s2 s3 where
      1: "backup_unlock_check_code [1, 2, 3] (demo_bu [1, 2, 3]) = Some s1"
    and 2: "backup_unlock_check_code [1, 2, 3] (demo_bu []) = Some s2"
    and 3: "backup_unlock_check_code [1, 2, 3] (demo_bu [1, 3, 3]) = Some s3" by blast
  have "BuResult True \<in> set (bu_events s1)" "BuResult True \<in> set (bu_events s2)"
    "BuResult True \<notin> set (bu_events s3)"
    using check_accepts [OF 1, THEN conjunct1] check_accepts [OF 2, THEN conjunct1]
      check_accepts [OF 3, THEN conjunct1]
    by (simp_all add: demo_bu_def entered_len_def)
  with 1 2 3 d show ?thesis by simp
qed

text \<open>
  Three wrong entries in a row latch the lockout, but entering
  the mode clears the failure counter and a wrong entry leaves the mode: under every order of
  operations in which checks happen only while the mode is active, the counter never passes one
  and the lockout is never latched.
\<close>

theorem lockout_latch_unreachable:
  assumes "no_lockout self0"
  shows "(bu_reach self0 self \<longrightarrow>
           (locked_out self = 0 \<and> fail_count self \<le> 1)) \<and>
     (let w = backup_unlock_on_wrong_code in
         locked_out (w self0) = 0 \<and> locked_out (w (w (w (self0\<lparr>fail_count := 0\<rparr>)))) = 1 \<and>
         BuArmLockout 0 \<in> set (bu_events (w (w (w (self0\<lparr>fail_count := 0\<rparr>))))))"
proof -
  have r1: "locked_out self = 0 \<and> fail_count self \<le> 1" if "bu_reach self0 self"
    using no_lockout_reach [OF that assms] by (auto simp: no_lockout_def)
  have r2: "let w = backup_unlock_on_wrong_code in
         locked_out (w self0) = 0 \<and> locked_out (w (w (w (self0\<lparr>fail_count := 0\<rparr>)))) = 1 \<and>
         BuArmLockout 0 \<in> set (bu_events (w (w (w (self0\<lparr>fail_count := 0\<rparr>)))))"
    using assms
    by (auto simp: Let_def no_lockout_def locked_out_on_wrong_code fail_count_on_wrong_code
          bu_events_wrong)
  show ?thesis using r1 r2 by blast
qed

theorem lockout_latch_unreachable_witness:
  "locked_out (backup_unlock_start [1, 2, 3] 9
       (backup_unlock_on_wrong_code (demo_bu [])\<lparr>enabled := 1\<rparr>)) = 0"
proof -
  have n: "no_lockout (demo_bu [])" by (simp add: no_lockout_def demo_bu_def)
  have "bu_reach (demo_bu []) (backup_unlock_on_wrong_code (demo_bu []))"
    by (rule bu_reach.step [OF bu_reach.refl bu_step.wrong]) (simp add: demo_bu_def)
  then have "bu_reach (demo_bu []) (backup_unlock_on_wrong_code (demo_bu [])\<lparr>enabled := 1\<rparr>)"
    by (rule bu_reach.step) (rule bu_step.enable)
  then have "bu_reach (demo_bu []) (backup_unlock_start [1, 2, 3] 9
       (backup_unlock_on_wrong_code (demo_bu [])\<lparr>enabled := 1\<rparr>))"
    by (rule bu_reach.step) (rule bu_step.start)
  then show ?thesis using lockout_latch_unreachable [OF n] by blast
qed

end
