(* ===== verification/PowerMode.thy ===== *)
theory PowerMode
  imports Prelude
begin

text \<open>
  Power-mode negotiation and telemetry of the \<open>power_control\<close> board
  (\<open>src/power_control/src/power.c\<close>): the mode and capability frames, the status bit
  field, the event record, the rail enable sequence and the mode negotiation with its two retry
  loops.  The answers of the CAN stack and of the RTOS, and the bytes interrupts leave in the
  shared context, are arguments; the state counts how many were consumed.
\<close>

datatype pm_event =
    TxMode bytes
  | TxCaps bytes
  | Publish bytes
  | Strobe u8
  | Delay u32
  | ClearCtrl
  | NotifyWait u32 u32 nat

text \<open>What the environment answers: the n-th wait returns \<open>notify n\<close> and leaves the
  bytes \<open>cur n\<close> and \<open>st4 n\<close> at offsets 0xa and 4 of the context.\<close>

record pm_env =
  notify :: "nat \<Rightarrow> u32"
  cur :: "nat \<Rightarrow> u8"
  st4 :: "nat \<Rightarrow> u8"
  request_1a4 :: "nat \<Rightarrow> int"
  send_1a4 :: "nat \<Rightarrow> int"
  rail_ctrl :: bool
  event_live :: bool

record pm =
  waits :: nat
  commands :: nat
  trace :: "pm_event list"

definition put :: "pm_event list \<Rightarrow> pm \<Rightarrow> pm" where
  "put es pm = pm\<lparr>trace := trace pm @ es\<rparr>"

lemma put_fields [simp]:
  "waits (put es pm) = waits pm" "commands (put es pm) = commands pm"
  "trace (put es pm) = trace pm @ es"
  by (simp_all add: put_def)

subsection \<open>Mode and capability frames\<close>

definition power_send_mode_command :: "pm_env \<Rightarrow> u32 \<Rightarrow> pm \<Rightarrow> int \<times> pm" where
  "power_send_mode_command env opcode pm =
     (let n = commands pm; pm = pm\<lparr>commands := n + 1\<rparr>
      in if request_1a4 env n \<noteq> 0 then (-1, pm)
         else (- (if send_1a4 env n \<noteq> 0 then 1 else 0), put [TxMode [ucast opcode, 0]] pm))"

text \<open>The frame of \<open>power_send_capabilities_frame\<close>, from the acquired buffer;
  \<open>None\<close> when a maximum is unset and nothing is sent.\<close>

definition put16 :: "u16 \<Rightarrow> bytes" where
  "put16 w = [ucast w, ucast (drop_bit 8 w)]"

definition clamp16 :: "u32 \<Rightarrow> u16 \<Rightarrow> u16" where
  "clamp16 req mx = (if ucast mx < req then mx else ucast req)"

definition power_send_capabilities_frame ::
  "u16 \<Rightarrow> u16 \<Rightarrow> u32 \<Rightarrow> u32 \<Rightarrow> bytes option" where
  "power_send_capabilities_frame max_a max_b req_a req_b =
     (if req_a = 0 \<and> req_b = 0 then Some [1, 0xb8, 0x88, 0, 0]
      else if max_a = 0 then None
      else if max_b = 0 then None
      else Some (2 # put16 (clamp16 req_a max_a) @ put16 (clamp16 req_b max_b)))"

subsection \<open>The status report\<close>

definition flag :: "bool \<Rightarrow> nat \<Rightarrow> u8" where
  "flag b n = (if b then push_bit n 1 else 0)"

definition status_byte2 :: "(nat \<Rightarrow> u8) \<Rightarrow> u8 \<Rightarrow> u8" where
  "status_byte2 st p2 = (p2 AND 0xe0) OR flag (st 0x0d \<noteq> 0) 0 OR flag (st 0x14 \<noteq> 0) 1
     OR flag (st 0x16 = 0) 2 OR flag (st 0x20 = 0) 3 OR flag (st 0x0a \<noteq> 0) 4"

definition status_byte1 :: "(nat \<Rightarrow> u8) \<Rightarrow> u8 \<Rightarrow> u8" where
  "status_byte1 st p1 = (p1 AND 0xf8) OR flag (st 0x24 \<noteq> 0) 0 OR flag (st 0x1a \<noteq> 0) 1
     OR flag (st 0x1b \<noteq> 0) 2"

text \<open>What happens after the report is packed: the second lookup, the lazily armed watchdog,
  the event record.\<close>

datatype report_end = NoFrame | NoTimer | TimerFailed | Recorded

record report_env =
  first_frame :: bool
  wait_rc :: int
  second_frame :: bool
  timer_set :: bool
  malloc_ok :: bool
  timer_rc :: int

definition report_tail :: "report_env \<Rightarrow> report_end" where
  "report_tail e =
     (if \<not> second_frame e then NoFrame
      else if \<not> timer_set e \<and> \<not> malloc_ok e then NoTimer
      else if \<not> timer_set e \<and> timer_rc e \<noteq> 0 then TimerFailed
      else Recorded)"

definition power_build_status_report ::
  "report_env \<Rightarrow> (nat \<Rightarrow> u8) \<Rightarrow> u32 \<Rightarrow> bytes \<Rightarrow> (bytes \<times> u8 \<times> report_end) option" where
  "power_build_status_report e st seq p =
     (if \<not> first_frame e \<or> wait_rc e \<noteq> 0 then None
      else Some (p[2 := status_byte2 st (p ! 2), 1 := status_byte1 st (p ! 1), 0 := ucast seq],
                 ucast seq, report_tail e))"

subsection \<open>The event record\<close>

text \<open>The record has 32 bytes, the first 30 are cleared and published; words beyond it are out
  of bounds.\<close>

definition power_log_event :: "pm_env \<Rightarrow> u32 \<Rightarrow> u16 \<Rightarrow> u32 list \<Rightarrow> pm \<Rightarrow> pm option" where
  "power_log_event env src_tag code args pm =
     (if \<not> event_live env then Some pm
      else case blit (replicate 32 0) 6 (concat (map le32 args)) of
        None \<Rightarrow> None
      | Some r \<Rightarrow> Some (put [Publish (take 30 (le32 src_tag @ put16 code @ drop 6 r))] pm))"

definition SRC_TAG :: u32 where "SRC_TAG = 0xa2e8e4a6"

subsection \<open>Rail enable\<close>

definition notify_wait :: "pm_env \<Rightarrow> u32 \<Rightarrow> u32 \<Rightarrow> nat \<Rightarrow> pm \<Rightarrow> u32 \<times> pm" where
  "notify_wait env entry exit timeout pm =
     (notify env (waits pm), put [NotifyWait entry exit timeout] (pm\<lparr>waits := waits pm + 1\<rparr>))"

fun rail_attempts :: "pm_env \<Rightarrow> u32 \<Rightarrow> u32 \<Rightarrow> nat \<Rightarrow> pm \<Rightarrow> (int \<times> pm) option" where
  "rail_attempts env settle_ms attempt 0 pm =
     (case power_log_event env SRC_TAG 0xb2 [] pm of None \<Rightarrow> None | Some pm \<Rightarrow> Some (-1, pm))"
| "rail_attempts env settle_ms attempt (Suc left) pm =
     (let pm = put [Strobe 1, Delay ((settle_ms * 1000) div 1000), Strobe 0] pm;
          attempt = attempt + 1;
          (n, pm) = notify_wait env 1 1 1000 pm
      in if n AND 1 \<noteq> 0 then
           (case power_log_event env SRC_TAG 0xac [attempt] (put [Delay 500] pm) of
              None \<Rightarrow> None | Some pm \<Rightarrow> Some (0, pm))
         else rail_attempts env settle_ms attempt left pm)"

definition power_rail_enable_sequence :: "pm_env \<Rightarrow> u32 \<Rightarrow> pm \<Rightarrow> (int \<times> pm) option" where
  "power_rail_enable_sequence env settle_ms pm =
     (if \<not> rail_ctrl env then None
      else rail_attempts env settle_ms 0 3 (put [ClearCtrl] pm))"

subsection \<open>Mode negotiation\<close>

text \<open>The inner loop: \<open>Inl\<close> returns from the function, \<open>Inr\<close> goes to the next
  round.\<close>

fun mode_attempts ::
  "pm_env \<Rightarrow> u32 \<Rightarrow> u32 \<Rightarrow> u32 \<Rightarrow> nat \<Rightarrow> pm \<Rightarrow> (int + unit) option \<times> pm" where
  "mode_attempts env mode round attempt 0 pm = (Some (Inr ()), pm)"
| "mode_attempts env mode round attempt (Suc left) pm =
     (let attempt = attempt + 1
      in case power_log_event env SRC_TAG 0xf6 [mode, round, attempt] pm of
           None \<Rightarrow> (None, pm)
         | Some pm \<Rightarrow>
           let i = waits pm;
               (n, pm) = notify_wait env 1 (if mode \<noteq> 3 then 1 else 0) 600 pm
           in if n AND 1 \<noteq> 0 then
                let c = cur env i; achieved = ucast (c AND 0xf)
                in case power_log_event env SRC_TAG 0xfe [ucast c, achieved] pm of
                     None \<Rightarrow> (None, pm)
                   | Some pm \<Rightarrow>
                     if mode = achieved then (Some (Inl 0), pm)
                     else if sint (st4 env i) < 0 then (Some (Inl (-1)), pm)
                     else mode_attempts env mode round attempt left pm
              else mode_attempts env mode round attempt left pm)"

fun mode_rounds :: "pm_env \<Rightarrow> u32 \<Rightarrow> u32 \<Rightarrow> nat \<Rightarrow> pm \<Rightarrow> (int \<times> pm) option" where
  "mode_rounds env mode round 0 pm =
     (case power_log_event env SRC_TAG 0x109 [] pm of None \<Rightarrow> None | Some pm \<Rightarrow> Some (-1, pm))"
| "mode_rounds env mode round (Suc left) pm =
     (let (rc, pm) = power_send_mode_command env mode pm
      in case mode_attempts env mode round 0 3 pm of
           (None, pm) \<Rightarrow> None
         | (Some (Inl r), pm) \<Rightarrow> Some (r, pm)
         | (Some (Inr _), pm) \<Rightarrow> mode_rounds env mode (round + 1) left pm)"

definition power_set_mode :: "pm_env \<Rightarrow> u32 \<Rightarrow> pm \<Rightarrow> (int \<times> pm) option" where
  "power_set_mode env mode pm =
     (case (if mode \<noteq> 3 then power_rail_enable_sequence env 0x44c pm else Some (0, pm)) of
        None \<Rightarrow> None
      | Some (rc, pm) \<Rightarrow> mode_rounds env mode 1 3 pm)"

subsection \<open>The log never leaves its record\<close>

lemma length_concat_le32: "length (concat (map le32 args)) = 4 * length args"
  by (induction args) simp_all

lemma log_ok:
  assumes "length args \<le> 6"
  obtains pm' where "power_log_event env tag code args pm = Some pm'" "waits pm' = waits pm"
    "commands pm' = commands pm"
proof (cases "event_live env")
  case False
  then show thesis using that by (simp add: power_log_event_def)
next
  case True
  obtain r where "blit (replicate 32 0) 6 (concat (map le32 args)) = Some r"
    using assms blit_Some [of 6 "concat (map le32 args)" "replicate 32 0"]
    by (auto simp: length_concat_le32)
  with True show thesis using that by (simp add: power_log_event_def)
qed

subsection \<open>What a negotiation comes to\<close>

text \<open>The verdict of one answer, and of the first answer with one among \<open>n\<close>.\<close>

definition verdict :: "pm_env \<Rightarrow> u32 \<Rightarrow> nat \<Rightarrow> int option" where
  "verdict env mode i =
     (if notify env i AND 1 = 0 then None
      else if mode = ucast (cur env i AND 0xf) then Some 0
      else if sint (st4 env i) < 0 then Some (-1)
      else None)"

fun first_verdict :: "pm_env \<Rightarrow> u32 \<Rightarrow> nat \<Rightarrow> nat \<Rightarrow> (int \<times> nat) option" where
  "first_verdict env mode i 0 = None"
| "first_verdict env mode i (Suc n) =
     (case verdict env mode i of Some r \<Rightarrow> Some (r, i + 1) | None \<Rightarrow> first_verdict env mode (i + 1) n)"

lemma first_verdict_add:
  "first_verdict env mode i (m + n) =
     (case first_verdict env mode i m of Some x \<Rightarrow> Some x | None \<Rightarrow> first_verdict env mode (i + m) n)"
  by (induction m arbitrary: i) (auto split: option.splits)

lemma first_verdict_bounds:
  "first_verdict env mode i n = Some (r, k) \<Longrightarrow> i < k \<and> k \<le> i + n \<and> (r = 0 \<or> r = -1)"
proof (induction n arbitrary: i)
  case (Suc n)
  show ?case
  proof (cases "verdict env mode i")
    case None
    then show ?thesis using Suc by fastforce
  next
    case (Some x)
    then show ?thesis using Suc.prems by (auto simp: verdict_def split: if_splits)
  qed
qed simp

lemma first_verdict_zero:
  "(\<exists>k. first_verdict env mode i n = Some (0, k)) \<longleftrightarrow>
     (\<exists>j<n. verdict env mode (i + j) = Some 0 \<and> (\<forall>l<j. verdict env mode (i + l) = None))"
proof (induction n arbitrary: i)
  case 0
  then show ?case by simp
next
  case (Suc n)
  show ?case
  proof (cases "verdict env mode i")
    case None
    have "(\<exists>j<Suc n. verdict env mode (i + j) = Some 0 \<and> (\<forall>l<j. verdict env mode (i + l) = None))
       \<longleftrightarrow> (\<exists>j<n. verdict env mode (Suc i + j) = Some 0 \<and>
                  (\<forall>l<j. verdict env mode (Suc i + l) = None))"
      using None by (auto simp: Ex_less_Suc2 All_less_Suc2)
    then show ?thesis using None Suc.IH [of "Suc i"] by simp
  next
    case (Some x)
    then show ?thesis by (auto simp: Ex_less_Suc2 All_less_Suc2)
  qed
qed

lemma mode_attempts_spec:
  "\<exists>pm'. mode_attempts env mode round attempt n pm =
       ((case first_verdict env mode (waits pm) n of None \<Rightarrow> Some (Inr ())
         | Some (r, k) \<Rightarrow> Some (Inl r)), pm') \<and>
     waits pm' = (case first_verdict env mode (waits pm) n of None \<Rightarrow> waits pm + n
                  | Some (r, k) \<Rightarrow> k) \<and>
     commands pm' = commands pm"
proof (induction n arbitrary: attempt pm)
  case (Suc n)
  obtain p1 where p1: "power_log_event env SRC_TAG 0xf6 [mode, round, attempt + 1] pm = Some p1"
      "waits p1 = waits pm" "commands p1 = commands pm"
    by (rule log_ok [of "[mode, round, attempt + 1]"]) simp_all
  define p2 where "p2 = put [NotifyWait 1 (if mode \<noteq> 3 then 1 else 0) 600] (p1\<lparr>waits := Suc (waits pm)\<rparr>)"
  have p2: "waits p2 = waits pm + 1" "commands p2 = commands pm" by (simp_all add: p2_def p1)
  define c where "c = cur env (waits pm)"
  obtain p3 where p3: "power_log_event env SRC_TAG 0xfe [ucast c, ucast (c AND 0xf)] p2 = Some p3"
      "waits p3 = waits p2" "commands p3 = commands p2"
    by (rule log_ok [where args = "[ucast c, ucast (c AND 0xf)]" and env = env and tag = SRC_TAG
      and code = "0xfe" and pm = p2]) simp_all
  have step: "mode_attempts env mode round attempt (Suc n) pm =
      (if notify env (waits pm) AND 1 \<noteq> 0 then
         if mode = ucast (c AND 0xf) then (Some (Inl 0), p3)
         else if sint (st4 env (waits pm)) < 0 then (Some (Inl (-1)), p3)
         else mode_attempts env mode round (attempt + 1) n p3
       else mode_attempts env mode round (attempt + 1) n p2)"
    by (simp add: Let_def p1 notify_wait_def p2_def [symmetric] c_def [symmetric] p3)
  show ?case
    using Suc.IH [of "attempt + 1" p2] Suc.IH [of "attempt + 1" p3]
    unfolding step by (auto simp: verdict_def p2 p3 c_def split: option.splits prod.splits)
qed simp

lemma send_mode_fields:
  assumes "power_send_mode_command env mode pm = (rc, pm')"
  shows "waits pm' = waits pm" "commands pm' = commands pm + 1" "rc = 0 \<or> rc = -1"
  using assms by (auto simp: power_send_mode_command_def Let_def split: if_splits)

lemma mode_rounds_spec:
  "\<exists>pm'. mode_rounds env mode round n pm =
       Some ((case first_verdict env mode (waits pm) (3 * n) of None \<Rightarrow> -1 | Some (r, k) \<Rightarrow> r), pm') \<and>
     waits pm' = (case first_verdict env mode (waits pm) (3 * n) of None \<Rightarrow> waits pm + 3 * n
                  | Some (r, k) \<Rightarrow> k) \<and>
     commands pm' \<le> commands pm + n"
proof (induction n arbitrary: round pm)
  case 0
  obtain p1 where "power_log_event env SRC_TAG 0x109 [] pm = Some p1"
      "waits p1 = waits pm" "commands p1 = commands pm"
    by (rule log_ok [of "[]"]) simp_all
  then show ?case by simp
next
  case (Suc n)
  obtain rc p1 where p1: "power_send_mode_command env mode pm = (rc, p1)" by fastforce
  note f = send_mode_fields [OF p1]
  obtain p2 where p2: "mode_attempts env mode round 0 3 p1 =
       ((case first_verdict env mode (waits pm) 3 of None \<Rightarrow> Some (Inr ())
         | Some (r, k) \<Rightarrow> Some (Inl r)), p2)"
     "waits p2 = (case first_verdict env mode (waits pm) 3 of None \<Rightarrow> waits pm + 3
                  | Some (r, k) \<Rightarrow> k)"
     "commands p2 = commands pm + 1"
    using mode_attempts_spec [of env mode round 0 3 p1] unfolding f(1,2) by auto
  have split3: "first_verdict env mode (waits pm) (3 * Suc n) =
     (case first_verdict env mode (waits pm) 3 of Some x \<Rightarrow> Some x
      | None \<Rightarrow> first_verdict env mode (waits pm + 3) (3 * n))"
    using first_verdict_add [of env mode "waits pm" 3 "3 * n"] by simp
  show ?case
  proof (cases "first_verdict env mode (waits pm) 3")
    case None
    then show ?thesis
      using Suc.IH [of "round + 1" p2] p2 p1 unfolding split3 by (auto simp: Let_def split: option.splits prod.splits)
  next
    case (Some x)
    then show ?thesis using p2 p1 unfolding split3 by (cases x) auto
  qed
qed

lemma rail_attempts_spec:
  "\<exists>r pm'. rail_attempts env settle attempt n pm = Some (r, pm') \<and> (r = 0 \<or> r = -1) \<and>
     waits pm \<le> waits pm' \<and> waits pm' \<le> waits pm + n \<and> commands pm' = commands pm \<and>
     (r = 0 \<longleftrightarrow> (\<exists>j<n. notify env (waits pm + j) AND 1 \<noteq> 0))"
proof (induction n arbitrary: attempt pm)
  case 0
  obtain p1 where "power_log_event env SRC_TAG 0xb2 [] pm = Some p1"
      "waits p1 = waits pm" "commands p1 = commands pm"
    by (rule log_ok [of "[]"]) simp_all
  then show ?case by simp
next
  case (Suc n)
  define p2 where "p2 = put [NotifyWait 1 1 1000]
     ((put [Strobe 1, Delay ((settle * 1000) div 1000), Strobe 0] pm)\<lparr>waits := Suc (waits pm)\<rparr>)"
  have p2: "waits p2 = waits pm + 1" "commands p2 = commands pm" by (simp_all add: p2_def)
  obtain p3 where p3: "power_log_event env SRC_TAG 0xac [attempt + 1] (put [Delay 500] p2) = Some p3"
      "waits p3 = waits (put [Delay 500] p2)" "commands p3 = commands (put [Delay 500] p2)"
    by (rule log_ok [where args = "[attempt + 1]" and env = env and tag = SRC_TAG and code = "0xac"
      and pm = "put [Delay 500] p2"]) simp_all
  have step: "rail_attempts env settle attempt (Suc n) pm =
     (if notify env (waits pm) AND 1 \<noteq> 0 then Some (0, p3)
      else rail_attempts env settle (attempt + 1) n p2)"
    by (simp add: Let_def notify_wait_def p2_def [symmetric] p3)
  show ?case
  proof (cases "notify env (waits pm) AND 1 \<noteq> 0")
    case True
    then show ?thesis unfolding step using p2 p3 by (auto intro: exI [of _ 0])
  next
    case False
    from Suc.IH [of "attempt + 1" p2] obtain r q where q:
      "rail_attempts env settle (attempt + 1) n p2 = Some (r, q)" "r = 0 \<or> r = -1"
      "waits p2 \<le> waits q" "waits q \<le> waits p2 + n" "commands q = commands p2"
      "r = 0 \<longleftrightarrow> (\<exists>j<n. notify env (waits p2 + j) AND 1 \<noteq> 0)" by blast
    have "(\<exists>j<Suc n. notify env (waits pm + j) AND 1 \<noteq> 0) \<longleftrightarrow>
          (\<exists>j<n. notify env (waits p2 + j) AND 1 \<noteq> 0)"
      using False by (auto simp: Ex_less_Suc2 p2)
    then show ?thesis unfolding step using False q p2 by auto
  qed
qed

lemma rail_enable_spec:
  assumes "rail_ctrl env"
  shows "\<exists>r pm'. power_rail_enable_sequence env settle pm = Some (r, pm') \<and> (r = 0 \<or> r = -1) \<and>
     waits pm \<le> waits pm' \<and> waits pm' \<le> waits pm + 3 \<and> commands pm' = commands pm \<and>
     (r = 0 \<longleftrightarrow> (\<exists>j<3. notify env (waits pm + j) AND 1 \<noteq> 0))"
  using assms rail_attempts_spec [of env settle 0 3 "put [ClearCtrl] pm"]
  by (simp add: power_rail_enable_sequence_def)

definition demo_env :: "u8 \<Rightarrow> pm_env" where
  "demo_env m = \<lparr>notify = (\<lambda>i. if i < 4 then 0 else 1), cur = (\<lambda>_. m), st4 = (\<lambda>_. 0),
     request_1a4 = (\<lambda>_. 0), send_1a4 = (\<lambda>_. 0), rail_ctrl = True, event_live = True\<rparr>"

definition demo_pm :: pm where "demo_pm = \<lparr>waits = 0, commands = 0, trace = []\<rparr>"

text \<open>
  A mode negotiation with the rail control present always returns, after
  at most three waits for the rail and nine for acknowledgements and at most three commands. It
  succeeds exactly when the first of the nine answers that carries a verdict (the acknowledge
  bit with the requested mode in the low nibble is a success, a negative status byte a failure,
  anything else no verdict) is a success; a mode above 15 therefore always fails.
\<close>

theorem set_mode_decides:
  assumes "rail_ctrl env \<or> mode = 3"
  shows "\<exists>r pm' base. power_set_mode env mode pm = Some (r, pm') \<and>
     waits pm \<le> base \<and> base \<le> waits pm + (if mode = 3 then 0 else 3) \<and>
     waits pm' \<le> base + 9 \<and> commands pm' \<le> commands pm + 3 \<and> (r = 0 \<or> r = -1) \<and>
     (r = 0 \<longleftrightarrow> (\<exists>j<9. verdict env mode (base + j) = Some 0 \<and>
                      (\<forall>l<j. verdict env mode (base + l) = None))) \<and>
     (15 < mode \<longrightarrow> r = -1)"
proof -
  have "\<exists>rc p1. (if mode \<noteq> 3 then power_rail_enable_sequence env 0x44c pm else Some (0, pm)) =
       Some (rc, p1) \<and> waits pm \<le> waits p1 \<and>
       waits p1 \<le> waits pm + (if mode = 3 then 0 else 3) \<and> commands p1 = commands pm"
    using rail_enable_spec [of env "0x44c" pm] assms by auto
  then obtain rc p1 where p1:
    "(if mode \<noteq> 3 then power_rail_enable_sequence env 0x44c pm else Some (0, pm)) = Some (rc, p1)"
    "waits pm \<le> waits p1" "waits p1 \<le> waits pm + (if mode = 3 then 0 else 3)"
    "commands p1 = commands pm" by blast
  have nine: "3 * 3 = (9::nat)" by simp
  define fv where "fv = first_verdict env mode (waits p1) 9"
  obtain p2 where p2: "mode_rounds env mode 1 3 p1 =
       Some ((case fv of None \<Rightarrow> -1 | Some (r, k) \<Rightarrow> r), p2)"
     "waits p2 = (case fv of None \<Rightarrow> waits p1 + 9 | Some (r, k) \<Rightarrow> k)"
     "commands p2 \<le> commands p1 + 3"
    using mode_rounds_spec [of env mode 1 3 p1] unfolding nine fv_def by auto
  define r where "r = (case fv of None \<Rightarrow> -1 | Some (r, k) \<Rightarrow> r)"
  have b: "waits p2 \<le> waits p1 + 9" "r = 0 \<or> r = -1" "r = 0 \<longleftrightarrow> (\<exists>k. fv = Some (0, k))"
    using p2(2) first_verdict_bounds [of env mode "waits p1" 9]
    by (auto simp: r_def fv_def split: option.splits prod.splits)
  have big: "r = -1" if "15 < mode"
  proof -
    have "mode \<noteq> ucast (x AND 0xf :: u8)" for x
    proof
      assume m: "mode = ucast (x AND 0xf :: u8)"
      have "unat (x AND 0xf :: u8) \<le> 15" using word_and_le1 [of x 15] by (simp add: word_le_nat_alt)
      then have "unat mode \<le> 15" by (simp add: m unsigned_ucast_eq) (metis order_trans take_bit_nat_less_eq_self)
      with that show False by (simp add: word_less_nat_alt)
    qed
    then have "verdict env mode i \<noteq> Some 0" for i by (simp add: verdict_def)
    then have "\<not> (\<exists>k. fv = Some (0, k))" unfolding fv_def first_verdict_zero by simp
    with b show ?thesis by blast
  qed
  have "power_set_mode env mode pm = Some (r, p2)"
    using p1(1) p2(1) by (simp add: power_set_mode_def r_def)
  moreover have "r = 0 \<longleftrightarrow> (\<exists>j<9. verdict env mode (waits p1 + j) = Some 0 \<and>
                      (\<forall>l<j. verdict env mode (waits p1 + l) = None))"
    using b(3) unfolding fv_def first_verdict_zero .
  ultimately show ?thesis using p1 p2(3) b big by (intro exI [of _ r] exI [of _ p2] exI [of _ "waits p1"]) auto
qed

theorem set_mode_decides_witness:
  "(\<exists>pm'. power_set_mode (demo_env 0x23) 3 demo_pm = Some (0, pm')) \<and>
   (\<exists>pm'. power_set_mode (demo_env 0x23) 0x13 demo_pm = Some (-1, pm'))"
proof
  from set_mode_decides [of "demo_env 0x23" 3 demo_pm] obtain r pm' where
    1: "power_set_mode (demo_env 0x23) 3 demo_pm = Some (r, pm')"
    and 2: "r = 0 \<longleftrightarrow> (\<exists>j<9. verdict (demo_env 0x23) 3 (0 + j) = Some 0 \<and>
                      (\<forall>l<j. verdict (demo_env 0x23) 3 (0 + l) = None))"
    by (auto simp: demo_pm_def)
  have "r = 0" unfolding 2 by (rule exI [of _ 4]) (simp add: verdict_def demo_env_def)
  with 1 show "\<exists>pm'. power_set_mode (demo_env 0x23) 3 demo_pm = Some (0, pm')" by blast
next
  show "\<exists>pm'. power_set_mode (demo_env 0x23) 0x13 demo_pm = Some (-1, pm')"
    using set_mode_decides [of "demo_env 0x23" "0x13" demo_pm] by (auto simp: demo_env_def)
qed


subsection \<open>Frames\<close>

lemma rd16_put16:
  "rd16 (put16 w ! 0) (put16 w ! Suc 0) = w"
  unfolding put16_def rd16_def
  by (rule bit_word_eqI) (auto simp: bit_or_iff bit_push_bit_iff bit_unsigned_iff bit_drop_bit_eq
      bit_ucast_iff)

lemma unat_clamp16: "unat (clamp16 req mx) = min (unat req) (unat mx)"
proof (cases "ucast mx < req")
  case True
  have "unat mx < unat req"
    using True by (simp only: word_less_nat_alt unat_up16)
  with True show ?thesis by (simp add: clamp16_def)
next
  case False
  have le: "unat req \<le> unat mx"
    using False by (simp only: word_less_nat_alt unat_up16 not_less)
  have "unat req < 65536" using le unat_u16_less [of mx] by linarith
  then have "unat (ucast req :: u16) = unat req"
    by (simp add: unsigned_ucast_eq take_bit_nat_eq_self)
  with False le show ?thesis by (simp add: clamp16_def)
qed

lemma nth5:
  "[x0, x1, x2, x3, x4] ! 2 = x2" "[x0, x1, x2, x3, x4] ! 3 = x3" "[x0, x1, x2, x3, x4] ! 4 = x4"
  by simp_all

text \<open>
  A capability response carries both requests clamped to their
  advertised maxima, in little-endian order, and is withheld exactly when a maximum is unset;
  the advertisement sent for two zero requests carries the first maximum 0x88b8 and a zero
  second one.
\<close>

theorem capabilities_clamped:
  shows "(power_send_capabilities_frame max_a max_b req_a req_b = None \<longleftrightarrow>
     (req_a \<noteq> 0 \<or> req_b \<noteq> 0) \<and> (max_a = 0 \<or> max_b = 0)) \<and>
     (power_send_capabilities_frame max_a max_b req_a req_b = Some f \<longrightarrow>
           (length f = 5 \<and>
     (if req_a = 0 \<and> req_b = 0
      then f ! 0 = 1 \<and> unat (rd16 (f ! 1) (f ! 2)) = 0x88b8 \<and> rd16 (f ! 3) (f ! 4) = 0
      else f ! 0 = 2 \<and> unat (rd16 (f ! 1) (f ! 2)) = min (unat req_a) (unat max_a) \<and>
           unat (rd16 (f ! 3) (f ! 4)) = min (unat req_b) (unat max_b))))"
proof -
  have r1: "power_send_capabilities_frame max_a max_b req_a req_b = None \<longleftrightarrow>
     (req_a \<noteq> 0 \<or> req_b \<noteq> 0) \<and> (max_a = 0 \<or> max_b = 0)"
    by (auto simp: power_send_capabilities_frame_def)
  have r2: "length f = 5 \<and>
     (if req_a = 0 \<and> req_b = 0
      then f ! 0 = 1 \<and> unat (rd16 (f ! 1) (f ! 2)) = 0x88b8 \<and> rd16 (f ! 3) (f ! 4) = 0
      else f ! 0 = 2 \<and> unat (rd16 (f ! 1) (f ! 2)) = min (unat req_a) (unat max_a) \<and>
           unat (rd16 (f ! 3) (f ! 4)) = min (unat req_b) (unat max_b))"
    if f: "power_send_capabilities_frame max_a max_b req_a req_b = Some f"
  proof (cases "req_a = 0 \<and> req_b = 0")
    case True
    then have "f = [1, 0xb8, 0x88, 0, 0]" using f by (simp add: power_send_capabilities_frame_def)
    moreover have "rd16 0xb8 0x88 = 0x88b8" "rd16 0 0 = 0" by (simp_all add: rd16_def)
    ultimately show ?thesis using True by (simp add: nth5)
  next
    case False
    define a where "a = put16 (clamp16 req_a max_a)"
    define b where "b = put16 (clamp16 req_b max_b)"
    have "f = [2, a ! 0, a ! Suc 0, b ! 0, b ! Suc 0]"
      using False f unfolding power_send_capabilities_frame_def a_def [symmetric] b_def [symmetric]
      by (auto simp: a_def b_def put16_def split: if_splits)
    moreover have "unat (rd16 (a ! 0) (a ! Suc 0)) = min (unat req_a) (unat max_a)"
      "unat (rd16 (b ! 0) (b ! Suc 0)) = min (unat req_b) (unat max_b)"
      unfolding a_def b_def rd16_put16 by (simp_all add: unat_clamp16)
    ultimately show ?thesis using False by (simp add: nth5)
  qed
  show ?thesis using r1 r2 by blast
qed

theorem capabilities_clamped_witness:
  "\<exists>f. power_send_capabilities_frame 500 300 70000 20 = Some f \<and>
       unat (rd16 (f ! 1) (f ! 2)) = 500 \<and> unat (rd16 (f ! 3) (f ! 4)) = 20"
proof -
  obtain f where f: "power_send_capabilities_frame 500 300 70000 20 = Some f"
    by (simp add: power_send_capabilities_frame_def)
  from capabilities_clamped [of 500 300 70000 20] f show ?thesis by simp
qed

lemma bit_flag: "bit (flag b n) i \<longleftrightarrow> b \<and> i = n \<and> n < 8"
  by (cases b) (auto simp: flag_def bit_push_bit_iff bit_1_iff simp del: push_bit_of_1 dest: bit_imp_le_length)

lemma bit_low3: "bit (0xf8 :: u8) i \<longleftrightarrow> 3 \<le> i \<and> i < 8"
proof -
  have e: "(0xf8 :: u8) = push_bit 3 (mask 5)" by (simp add: mask_eq_exp_minus_1 push_bit_eq_mult)
  show ?thesis unfolding e bit_push_bit_iff bit_mask_iff by auto
qed

lemma bit_low5: "bit (0xe0 :: u8) i \<longleftrightarrow> 5 \<le> i \<and> i < 8"
proof -
  have e: "(0xe0 :: u8) = push_bit 5 (mask 3)" by (simp add: mask_eq_exp_minus_1 push_bit_eq_mult)
  show ?thesis unfolding e bit_push_bit_iff bit_mask_iff by auto
qed

lemma keep_bits:
  fixes x :: u8
  shows "bit (x AND 0xf8) i \<longleftrightarrow> bit x i \<and> 3 \<le> i"
    and "bit (x AND 0xe0) i \<longleftrightarrow> bit x i \<and> 5 \<le> i"
  unfolding bit_and_iff bit_low3 bit_low5 using bit_imp_le_length [of x i] by auto

lemma status_byte1_bits:
  "bit (status_byte1 st x) i =
     (if i = 0 then st 0x24 \<noteq> 0 else if i = 1 then st 0x1a \<noteq> 0
      else if i = 2 then st 0x1b \<noteq> 0 else bit x i)"
  unfolding status_byte1_def bit_or_iff keep_bits bit_flag
  by (cases "i = 0"; cases "i = 1"; cases "i = 2") simp_all

lemma status_byte2_bits:
  "bit (status_byte2 st x) i =
     (if i = 0 then st 0x0d \<noteq> 0 else if i = 1 then st 0x14 \<noteq> 0
      else if i = 2 then st 0x16 = 0 else if i = 3 then st 0x20 = 0
      else if i = 4 then st 0x0a \<noteq> 0 else bit x i)"
  unfolding status_byte2_def bit_or_iff keep_bits bit_flag
  by (cases "i = 0"; cases "i = 1"; cases "i = 2"; cases "i = 3"; cases "i = 4") simp_all

text \<open>
  Every bit of a status report that leaves the board is the documented
  flag of the live state or the bit the frame held before; byte 0 and the mirror are the
  sequence number; the event is recorded exactly when the second lookup finds the frame and its
  watchdog is armed.
\<close>

theorem status_report_bits:
  assumes "power_build_status_report e st seq p = Some (p', mirror, fin)" "length p = 3"
  shows "(p' ! 0 = ucast seq \<and> mirror = ucast seq) \<and>
     (\<forall>i. bit (p' ! 1) i = (if i = 0 then st 0x24 \<noteq> 0 else if i = 1 then st 0x1a \<noteq> 0
            else if i = 2 then st 0x1b \<noteq> 0 else bit (p ! 1) i)) \<and>
     (\<forall>i. bit (p' ! 2) i = (if i = 0 then st 0x0d \<noteq> 0 else if i = 1 then st 0x14 \<noteq> 0
            else if i = 2 then st 0x16 = 0 else if i = 3 then st 0x20 = 0
            else if i = 4 then st 0x0a \<noteq> 0 else bit (p ! 2) i)) \<and>
     (fin = Recorded \<longleftrightarrow> second_frame e \<and> (timer_set e \<or> malloc_ok e \<and> timer_rc e = 0))"
proof -
  have p': "p' = p[2 := status_byte2 st (p ! 2), 1 := status_byte1 st (p ! 1), 0 := ucast seq]"
    and m: "mirror = ucast seq" and fin: "fin = report_tail e"
    using assms(1) by (auto simp: power_build_status_report_def split: if_splits)
  have r1: "p' ! 0 = ucast seq \<and> mirror = ucast seq" using p' m assms(2) by simp
  have "p' ! 1 = status_byte1 st (p ! 1)" "p' ! 2 = status_byte2 st (p ! 2)"
    using p' assms(2) by simp_all
  then have r3: "\<forall>i. bit (p' ! 1) i = (if i = 0 then st 0x24 \<noteq> 0 else if i = 1 then st 0x1a \<noteq> 0
            else if i = 2 then st 0x1b \<noteq> 0 else bit (p ! 1) i)"
    and r4: "\<forall>i. bit (p' ! 2) i = (if i = 0 then st 0x0d \<noteq> 0 else if i = 1 then st 0x14 \<noteq> 0
            else if i = 2 then st 0x16 = 0 else if i = 3 then st 0x20 = 0
            else if i = 4 then st 0x0a \<noteq> 0 else bit (p ! 2) i)"
    by (simp_all only: status_byte1_bits status_byte2_bits) auto
  have r2: "fin = Recorded \<longleftrightarrow> second_frame e \<and> (timer_set e \<or> malloc_ok e \<and> timer_rc e = 0)"
    by (auto simp: fin report_tail_def)
  show ?thesis using r1 r2 r3 r4 by (intro conjI) (rule r3 r4 | simp)+
qed

theorem status_report_bits_witness:
  "\<exists>p' mirror fin. power_build_status_report
     \<lparr>first_frame = True, wait_rc = 0, second_frame = True, timer_set = False, malloc_ok = True,
      timer_rc = 0\<rparr> (\<lambda>i. if i = 0x1b then 1 else 0) 0x105 [0, 0xf9, 0xff] =
       Some (p', mirror, fin) \<and> p' ! 0 = 5 \<and> bit (p' ! 1) 2 \<and> \<not> bit (p' ! 1) 0 \<and>
       bit (p' ! 2) 3 \<and> \<not> bit (p' ! 2) 4 \<and> fin = Recorded"
proof -
  let ?e = "\<lparr>first_frame = True, wait_rc = 0, second_frame = True, timer_set = False,
    malloc_ok = True, timer_rc = 0\<rparr>"
  let ?st = "\<lambda>i. if i = 0x1b then 1 else 0 :: u8"
  obtain p' mirror fin where r:
    "power_build_status_report ?e ?st 0x105 [0, 0xf9, 0xff] = Some (p', mirror, fin)"
    by (simp add: power_build_status_report_def)
  from status_report_bits [OF r] r show ?thesis by simp
qed

end
