(* ===== verification/Gear.thy ===== *)
theory Gear
  imports Prelude
begin

text \<open>
  The gear actuator of the e-shifter (\<open>src/eshifter/src/gear.c\<close>): the drive step with its
  dead band, integrator, clamps, phase machine and soft start; the multi-turn position counters;
  the averaging of the reference samples; and the collection state of the calibration machine.
  Signed C integers are \<open>int\<close>, with the absence of overflow a theorem; right shifts of
  signed values are arithmetic, that is \<open>div\<close>.  The floating-point angle stage and the
  filter are not modelled: the position they produce is an argument.
\<close>

definition int32 :: "int \<Rightarrow> bool" where
  "int32 x \<longleftrightarrow> - 2147483648 \<le> x \<and> x \<le> 2147483647"

subsection \<open>Reference samples and target offset\<close>

text \<open>\<open>cfg\<close> gives the halfword at a byte offset of the configuration record.\<close>

definition eshifter_sensor_pair_average :: "(nat \<Rightarrow> u16) \<Rightarrow> int list" where
  "eshifter_sensor_pair_average cfg =
     [(uint (cfg p) + uint (cfg (p + 8))) div 2. p \<leftarrow> [0x6c, 0x6e, 0x70, 0x72]]"

definition eshifter_calc_time_offset :: "int \<Rightarrow> 16 word \<Rightarrow> int \<Rightarrow> int" where
  "eshifter_calc_time_offset coarse fine base = base - (coarse * 0xe10 + sint fine)"

subsection \<open>The drive step\<close>

record drive =
  phase :: u8
  statepos :: int
  pair0 :: int
  pair1 :: int
  last_pos :: int
  pos_acc :: int
  ramp :: u16
  motor2 :: u8
  motor3 :: u8
  motor19 :: u8
  dir_rev :: int
  dir_fwd :: int
  motor_cmd :: int
  pwm :: int

definition on_target :: "int \<Rightarrow> bool" where
  "on_target delta \<longleftrightarrow> -9 \<le> delta \<and> delta \<le> 9"

definition drive_park :: "drive \<Rightarrow> drive" where
  "drive_park s =
     (let s = (if phase s \<noteq> 1 then s\<lparr>motor2 := 0, motor19 := 1\<rparr> else s)
      in s\<lparr>phase := 1, ramp := 1, motor_cmd := 0\<rparr>)"

definition drive_integrate :: "int \<Rightarrow> drive \<Rightarrow> drive" where
  "drive_integrate delta s =
     (let prev = pair0 s;
          s = s\<lparr>pair0 := delta, pair1 := prev\<rparr>;
          s = (if statepos s \<noteq> last_pos s then s\<lparr>last_pos := statepos s, pos_acc := 0\<rparr> else s);
          acc = pos_acc s + cdiv (prev + delta) 2;
          acc = (if 19999 < acc then 19999 else acc);
          acc = (if acc < -20000 then -20000 else acc)
      in s\<lparr>pos_acc := acc\<rparr>)"

definition feed_forward :: "int \<Rightarrow> int" where
  "feed_forward v =
     (if -768255 \<le> v then
        let v = (if v < 0 then v + 0xff else v); iq = v div 256
        in if 2999 < iq then 3000 else iq
      else -3000)"

definition drive_demand :: "int \<Rightarrow> int \<Rightarrow> int" where
  "drive_demand acc delta =
     (let iq = feed_forward (acc * 0x32) + cdiv (delta * 200) 0xc;
          iq = (if 7999 < iq then 8000 else iq)
      in if iq < -8000 then -8000 else iq)"

definition phase_reverse :: "drive \<Rightarrow> drive" where
  "phase_reverse s =
     (if phase s = 0 \<or> phase s = 1 then s\<lparr>motor3 := 0, motor2 := 1, motor19 := 1, phase := 2\<rparr>
      else if phase s = 2 then s\<lparr>phase := 2\<rparr>
      else if phase s = 3 then s\<lparr>motor2 := 0, dir_rev := 0, phase := 4\<rparr>
      else if phase s = 4 then
        if dir_rev s = 0 then s\<lparr>motor2 := 0, dir_rev := 0, phase := 4\<rparr>
        else s\<lparr>motor3 := 0, motor2 := 1, motor19 := 1, ramp := 1, phase := 2\<rparr>
      else s\<lparr>motor19 := 0, phase := 0\<rparr>)"

definition phase_forward :: "drive \<Rightarrow> drive" where
  "phase_forward s =
     (if phase s = 0 \<or> phase s = 1 then s\<lparr>motor3 := 1, motor2 := 1, motor19 := 1, phase := 3\<rparr>
      else if phase s = 2 then s\<lparr>motor2 := 0, dir_fwd := 0, phase := 4\<rparr>
      else if phase s = 3 then s\<lparr>phase := 3\<rparr>
      else if phase s = 4 then
        if dir_fwd s = 0 then s\<lparr>dir_fwd := 1, phase := 4\<rparr>
        else s\<lparr>motor3 := 1, motor2 := 1, motor19 := 1, ramp := 1, phase := 3\<rparr>
      else s\<lparr>motor19 := 0, phase := 0\<rparr>)"

definition drive_output :: "int \<Rightarrow> int \<Rightarrow> drive \<Rightarrow> drive" where
  "drive_output iq dir s =
     (let c = uint (ramp s);
          iq1 = (if c \<noteq> 0 \<and> c * 100 \<le> iq then c * 100 else iq);
          s = (if c \<noteq> 0 then s\<lparr>ramp := (if 100 < (c + 1) mod 65536 then 0 else ramp s + 1)\<rparr> else s);
          iq2 = (if 9950 < iq1 then 9999 else iq1)
      in s\<lparr>motor_cmd := iq2 * dir, pwm := (iq2 * 0x12bf) div 10000\<rparr>)"

definition eshifter_actuator_drive_step :: "int \<Rightarrow> drive \<Rightarrow> drive" where
  "eshifter_actuator_drive_step target s =
     (let delta = target - statepos s
      in if on_target delta then drive_park s
         else
           let s = drive_integrate delta s; iq = drive_demand (pos_acc s) delta
           in if iq = 0 then drive_output iq 1 s
              else if iq < 0 then drive_output (- iq) (-1) (phase_reverse s)
              else drive_output iq 1 (phase_forward s))"

subsection \<open>Position counters\<close>

text \<open>The fourteen-bit position and its wrap index.\<close>

definition pos_wrap_step :: "u16 \<Rightarrow> u16 \<Rightarrow> 8 word \<Rightarrow> u16 \<times> 8 word" where
  "pos_wrap_step pos prev widx =
     (let d = uint pos - uint prev;
          w = (if d < -0x8000 then widx + 1 else if 0x8000 < d then widx - 1 else widx)
      in (pos, if sint w < 0 then 0x0e else if 0x0e < sint w then 0 else w))"

record coarse =
  pos_old :: u16
  turns :: int
  fine :: u16
  ring_idx :: u8
  ring :: "int list"

definition coarse_track_step :: "u16 \<Rightarrow> coarse \<Rightarrow> coarse" where
  "coarse_track_step v s =
     (let d2 = uint v - uint (pos_old s);
          s = s\<lparr>pos_old := v\<rparr>;
          s = (if d2 < -0x8000 then s\<lparr>turns := turns s + 1\<rparr>
               else if 0x8000 < d2 then s\<lparr>turns := turns s - 1\<rparr> else s);
          s = s\<lparr>fine := ucast (drop_bit 16 (ucast v * 0xe10 :: u32))\<rparr>;
          d3 = (if d2 < -0x8000 then d2 + 0x10000 else if 0x8000 < d2 then d2 - 0x10000 else d2)
      in s\<lparr>ring := (ring s)[unat (ring_idx s) := d3],
           ring_idx := (ring_idx s + 1) AND 0x7f\<rparr>)"

subsection \<open>Calibration: collecting the extrema\<close>

record channel =
  countA :: u16
  countB :: u16
  maxA :: int
  minB :: int
  accA :: int
  accB :: int

definition blend :: "u16 \<Rightarrow> int \<Rightarrow> int \<Rightarrow> int" where
  "blend c a x = (if c = 0 then x else if c = 1 then (a + x) div 2 else x + (a - x) div 4)"

definition track_max :: "int \<Rightarrow> channel \<Rightarrow> channel" where
  "track_max x ch =
     (if countA ch < 0x96 then
        let mx = maxA ch
        in if mx < x then ch\<lparr>maxA := x\<rparr>
           else if 10000 < mx - x \<and> 40000 < mx then
             ch\<lparr>accA := blend (countA ch) (accA ch) mx, countA := countA ch + 1, maxA := 40000\<rparr>
           else ch
      else ch)"

definition track_min :: "int \<Rightarrow> channel \<Rightarrow> channel" where
  "track_min x ch =
     (if countB ch < 0x96 then
        let mn = minB ch
        in if x < mn then ch\<lparr>minB := x\<rparr>
           else if 10000 < x - mn \<and> mn < 25000 then
             ch\<lparr>accB := blend (countB ch) (accB ch) mn, countB := countB ch + 1, minB := 25000\<rparr>
           else ch
      else ch)"

text \<open>One pass over the channels; the second result is the \<open>advance\<close> flag.\<close>

fun calib_channels :: "u16 list \<Rightarrow> channel list \<Rightarrow> u16 \<Rightarrow> bool \<Rightarrow> channel list \<times> bool" where
  "calib_channels (s # samp) (ch # chs) tot advance =
     (let ch = track_min (uint s) (track_max (uint s) ch);
          tot = countA ch + countB ch + tot;
          (chs, advance) = calib_channels samp chs tot (advance \<or> 0x4b0 \<le> tot)
      in (ch # chs, advance))"
| "calib_channels samp chs tot advance = (chs, advance)"

definition calib_collect :: "u16 list \<Rightarrow> channel list \<times> u8 \<Rightarrow> channel list \<times> u8" where
  "calib_collect samp st =
     (let (chs, advance) = calib_channels samp (fst st) 0 False
      in (chs, if advance then 1 else snd st))"

subsection \<open>Bounds of the drive\<close>

lemma cdiv_bounds:
  assumes "0 < b" "\<bar>a\<bar> \<le> b * c"
  shows "- c \<le> cdiv a b \<and> cdiv a b \<le> c"
proof -
  have "\<bar>a\<bar> div b \<le> (b * c) div b" using assms by (intro zdiv_mono1) auto
  then have "\<bar>a\<bar> div b \<le> c" using assms(1) by simp
  moreover have "0 \<le> \<bar>a\<bar> div b" using assms(1) by (simp add: pos_imp_zdiv_nonneg_iff)
  ultimately show ?thesis using assms(1)
    by (cases "a < 0"; cases "a = 0") (auto simp: cdiv_def)
qed

text \<open>The feed-forward branch is a truncating division by 256 clamped to 3000.\<close>

lemma feed_forward_clamp: "feed_forward v = max (-3000) (min 3000 (cdiv v 256))"
proof (cases "v < 0")
  case True
  have c: "cdiv v 256 = - ((- v) div 256)" using True by (simp add: cdiv_neg)
  have d: "(v + 255) div 256 = - ((- v) div 256)" by linarith
  show ?thesis using True unfolding feed_forward_def Let_def c by (simp add: d max_def min_def; linarith)
next
  case False
  then show ?thesis by (auto simp: feed_forward_def Let_def cdiv_nonneg)
qed

lemma drive_demand_bounds: "- 8000 \<le> drive_demand acc delta \<and> drive_demand acc delta \<le> 8000"
  by (auto simp: drive_demand_def Let_def)

lemma drive_demand_sign:
  assumes "delta \<le> -200"
  shows "drive_demand acc delta < 0"
proof -
  have "cdiv (delta * 200) 12 = - ((- (delta * 200)) div 12)" using assms by (intro cdiv_neg) auto
  moreover have "3333 \<le> (- (delta * 200)) div 12" using assms by linarith
  moreover have "feed_forward (acc * 50) \<le> 3000" by (simp add: feed_forward_clamp)
  ultimately show ?thesis by (simp add: drive_demand_def Let_def)
qed

lemma drive_demand_pos:
  assumes "200 \<le> delta"
  shows "0 < drive_demand acc delta"
proof -
  have "cdiv (delta * 200) 12 = (delta * 200) div 12" using assms by (intro cdiv_nonneg) auto
  moreover have "3333 \<le> (delta * 200) div 12" using assms by linarith
  moreover have "- 3000 \<le> feed_forward (acc * 50)" by (simp add: feed_forward_clamp)
  ultimately show ?thesis by (simp add: drive_demand_def Let_def)
qed

lemma drive_integrate_fields:
  "phase (drive_integrate d s) = phase s" "statepos (drive_integrate d s) = statepos s"
  "dir_rev (drive_integrate d s) = dir_rev s" "dir_fwd (drive_integrate d s) = dir_fwd s"
  "ramp (drive_integrate d s) = ramp s" "pair0 (drive_integrate d s) = d"
  "motor2 (drive_integrate d s) = motor2 s"
  by (simp_all add: drive_integrate_def Let_def)

lemma drive_integrate_acc:
  "- 20000 \<le> pos_acc (drive_integrate d s) \<and> pos_acc (drive_integrate d s) \<le> 19999"
  by (simp add: drive_integrate_def Let_def)

lemma phase_fields [simp]:
  "statepos (phase_reverse s) = statepos s" "statepos (phase_forward s) = statepos s"
  "pos_acc (phase_reverse s) = pos_acc s" "pos_acc (phase_forward s) = pos_acc s"
  "pair0 (phase_reverse s) = pair0 s" "pair0 (phase_forward s) = pair0 s"
  by (simp_all add: phase_reverse_def phase_forward_def)

lemma output_fields [simp]:
  "phase (drive_output iq d s) = phase s" "statepos (drive_output iq d s) = statepos s"
  "pos_acc (drive_output iq d s) = pos_acc s" "pair0 (drive_output iq d s) = pair0 s"
  "dir_rev (drive_output iq d s) = dir_rev s" "motor2 (drive_output iq d s) = motor2 s"
  "dir_fwd (drive_output iq d s) = dir_fwd s" "motor19 (drive_output iq d s) = motor19 s"
  by (simp_all add: drive_output_def Let_def)

lemma phase_ok:
  "phase s \<le> 4 \<Longrightarrow> phase (phase_reverse s) \<le> 4"
  "phase s \<le> 4 \<Longrightarrow> phase (phase_forward s) \<le> 4"
  by (simp_all add: phase_reverse_def phase_forward_def)

lemma phase_ramp:
  "ramp (phase_reverse s) = ramp s \<or> ramp (phase_reverse s) = 1"
  "ramp (phase_forward s) = ramp s \<or> ramp (phase_forward s) = 1"
  by (simp_all add: phase_reverse_def phase_forward_def)

lemma output_bounds:
  assumes "0 \<le> iq" "iq \<le> 8000" "d = 1 \<or> d = -1"
  shows "\<bar>motor_cmd (drive_output iq d s)\<bar> \<le> iq"
    and "ramp s \<noteq> 0 \<Longrightarrow> \<bar>motor_cmd (drive_output iq d s)\<bar> \<le> 100 * uint (ramp s)"
    and "0 \<le> pwm (drive_output iq d s) \<and> pwm (drive_output iq d s) \<le> 3839"
    and "motor_cmd (drive_output iq d s) * d \<ge> 0"
proof -
  have u: "0 \<le> uint (ramp s)" by simp
  define q where "q = (if uint (ramp s) \<noteq> 0 \<and> uint (ramp s) * 100 \<le> iq then uint (ramp s) * 100 else iq)"
  have q: "0 \<le> q" "q \<le> iq" "ramp s \<noteq> 0 \<Longrightarrow> q \<le> 100 * uint (ramp s)"
    using assms(1) by (auto simp: q_def uint_0_iff)
  have o: "motor_cmd (drive_output iq d s) = q * d" "pwm (drive_output iq d s) = (q * 4799) div 10000"
    using q(2) assms(2) by (auto simp: drive_output_def Let_def q_def)
  have a: "\<bar>q * d\<bar> = q" using q(1) assms(3) by auto
  show "\<bar>motor_cmd (drive_output iq d s)\<bar> \<le> iq" using q a unfolding o by simp
  show "ramp s \<noteq> 0 \<Longrightarrow> \<bar>motor_cmd (drive_output iq d s)\<bar> \<le> 100 * uint (ramp s)"
    using q a unfolding o by simp
  have "q \<le> 8000" using q(2) assms(2) by simp
  then have "(q * 4799) div 10000 \<le> 3839" "0 \<le> (q * 4799) div 10000" using q(1) by linarith+
  then show "0 \<le> pwm (drive_output iq d s) \<and> pwm (drive_output iq d s) \<le> 3839" unfolding o by simp
  show "motor_cmd (drive_output iq d s) * d \<ge> 0" using q(1) assms(3) unfolding o by auto
qed

lemma output_ramp:
  "uint (ramp s) \<le> 100 \<Longrightarrow> uint (ramp (drive_output iq d s)) \<le> 100"
proof -
  assume r: "uint (ramp s) \<le> 100"
  have "uint (ramp s + 1) = uint (ramp s) + 1"
    using r by (simp add: uint_word_ariths)
  then show ?thesis using r by (auto simp: drive_output_def Let_def)
qed


lemma step_cases:
  obtains (park) "on_target (target - statepos s)" "eshifter_actuator_drive_step target s = drive_park s"
  | (drive) s1 iq d where "\<not> on_target (target - statepos s)"
      "eshifter_actuator_drive_step target s = drive_output iq d s1"
      "s1 = drive_integrate (target - statepos s) s \<or>
       s1 = phase_reverse (drive_integrate (target - statepos s) s) \<or>
       s1 = phase_forward (drive_integrate (target - statepos s) s)"
      "0 \<le> iq" "iq \<le> 8000" "d = 1 \<or> d = -1"
proof (cases "on_target (target - statepos s)")
  case True
  then show thesis using park by (simp add: eshifter_actuator_drive_step_def Let_def)
next
  case False
  define s0 where "s0 = drive_integrate (target - statepos s) s"
  define q where "q = drive_demand (pos_acc s0) (target - statepos s)"
  have q: "- 8000 \<le> q" "q \<le> 8000" unfolding q_def using drive_demand_bounds by auto
  have st: "eshifter_actuator_drive_step target s =
      (if q = 0 then drive_output q 1 s0
       else if q < 0 then drive_output (- q) (-1) (phase_reverse s0)
       else drive_output q 1 (phase_forward s0))"
    unfolding eshifter_actuator_drive_step_def Let_def s0_def [symmetric] q_def [symmetric]
    using False by simp
  show thesis
  proof (cases "q < 0")
    case True
    then show thesis using drive [of "-q" "-1" "phase_reverse s0"] False st q by (simp add: s0_def)
  next
    case nn: False
    show thesis
    proof (cases "q = 0")
      case True
      then show thesis using drive [of q 1 s0] False st by (simp add: s0_def)
    next
      case False
      then show thesis
        using drive [of q 1 "phase_forward s0"] \<open>\<not> on_target _\<close> nn st q by (simp add: s0_def)
    qed
  qed
qed

definition demo_drive :: "u8 \<Rightarrow> u16 \<Rightarrow> drive" where
  "demo_drive ph rp = \<lparr>phase = ph, statepos = 1000, pair0 = 0, pair1 = 0, last_pos = 1000,
     pos_acc = 0, ramp = rp, motor2 = 1, motor3 = 0, motor19 = 1, dir_rev = 0, dir_fwd = 0,
     motor_cmd = 0, pwm = 0\<rparr>"

text \<open>
  A drive step keeps the phase among its five and the soft-start
  counter within its ramp, and commands at most 8000 in either direction, and at most a hundred
  times the ramp counter while soft start is on. Within the dead band it parks: phase 1, ramp
  restarted, no command. Outside it the integrator stays within its clamp and the duty cycle
  below 3840.
\<close>

theorem drive_step_bounded:
  assumes "phase s \<le> 4" "uint (ramp s) \<le> 100"
    and "s' = eshifter_actuator_drive_step target s"
  shows "(phase s' \<le> 4 \<and> uint (ramp s') \<le> 100 \<and> \<bar>motor_cmd s'\<bar> \<le> 8000) \<and>
     (on_target (target - statepos s) \<longrightarrow>
           (phase s' = 1 \<and> ramp s' = 1 \<and> motor_cmd s' = 0)) \<and>
     (\<not> on_target (target - statepos s) \<longrightarrow>
           (- 20000 \<le> pos_acc s' \<and> pos_acc s' \<le> 19999 \<and> 0 \<le> pwm s' \<and> pwm s' \<le> 3839)) \<and>
     (ramp s \<noteq> 0 \<longrightarrow>
           (\<bar>motor_cmd s'\<bar> \<le> 100 * uint (ramp s)))"
proof -
  let ?d = "target - statepos s"
  have all: "(phase s' \<le> 4 \<and> uint (ramp s') \<le> 100 \<and> \<bar>motor_cmd s'\<bar> \<le> 8000) \<and>
    (on_target ?d \<longrightarrow> phase s' = 1 \<and> ramp s' = 1 \<and> motor_cmd s' = 0) \<and>
    (\<not> on_target ?d \<longrightarrow>
       - 20000 \<le> pos_acc s' \<and> pos_acc s' \<le> 19999 \<and> 0 \<le> pwm s' \<and> pwm s' \<le> 3839) \<and>
    (ramp s \<noteq> 0 \<longrightarrow> \<bar>motor_cmd s'\<bar> \<le> 100 * uint (ramp s))"
  proof (cases rule: step_cases [of target s])
    case park
    then show ?thesis by (simp add: assms(3) drive_park_def Let_def)
  next
    case (drive s1 iq d)
    define s0 where "s0 = drive_integrate ?d s"
    have s1: "s1 = s0 \<or> s1 = phase_reverse s0 \<or> s1 = phase_forward s0"
      using drive(3) by (simp add: s0_def)
    have s0: "phase s0 \<le> 4" "ramp s0 = ramp s" "- 20000 \<le> pos_acc s0" "pos_acc s0 \<le> 19999"
      using assms(1) drive_integrate_acc [of ?d s] by (simp_all add: s0_def drive_integrate_fields)
    have ph: "phase s1 \<le> 4" and acc: "pos_acc s1 = pos_acc s0"
      using s1 s0(1) phase_ok by auto
    have rp: "ramp s1 = ramp s \<or> ramp s1 = 1" using s1 phase_ramp [of s0] s0(2) by auto
    have r1: "uint (ramp s1) \<le> 100" using rp assms(2) by auto
    note b = output_bounds [OF drive(4,5,6), of s1]
    have soft: "\<bar>motor_cmd s'\<bar> \<le> 100 * uint (ramp s)" if "ramp s \<noteq> 0"
    proof -
      have "uint (ramp s) \<noteq> 0" using that by (simp add: uint_0_iff)
      then have "1 \<le> uint (ramp s)" using uint_nonnegative [of "ramp s"] by linarith
      moreover have "ramp s1 \<noteq> 0" using rp that by auto
      ultimately show ?thesis using b(2) rp by (auto simp: assms(3) drive(2))
    qed
    have "\<bar>motor_cmd s'\<bar> \<le> 8000" using b(1) drive(5) by (simp add: assms(3) drive(2))
    then show ?thesis
      using drive(1) b(3) soft ph acc s0 output_ramp [OF r1]
      by (simp add: assms(3) drive(2))
  qed
  show ?thesis using all .
qed

theorem drive_step_bounded_witness:
  "\<bar>motor_cmd (eshifter_actuator_drive_step 9000 (demo_drive 1 7))\<bar> \<le> 700"
  using drive_step_bounded [of "demo_drive 1 7" _ 9000, OF _ _ refl] by (simp add: demo_drive_def)

text \<open>
  The signed intermediates of the step, and the positions for which none of them overflows.
\<close>

definition drive_intermediates :: "int \<Rightarrow> drive \<Rightarrow> int list" where
  "drive_intermediates target s =
     (let delta = target - statepos s; acc = pos_acc (drive_integrate delta s)
      in [delta, pair0 s + delta, pos_acc s + cdiv (pair0 s + delta) 2, acc * 50, delta * 200,
          feed_forward (acc * 50) + cdiv (delta * 200) 12])"

lemma drive_no_overflow:
  assumes "\<bar>target\<bar> \<le> 5000000" "\<bar>statepos s\<bar> \<le> 5000000" "\<bar>pair0 s\<bar> \<le> 10000000"
    and "\<bar>pos_acc s\<bar> \<le> 20000"
  shows "\<forall>x\<in>set (drive_intermediates target s). int32 x"
proof -
  let ?d = "target - statepos s"
  define acc where "acc = pos_acc (drive_integrate ?d s)"
  have a: "- 20000 \<le> acc" "acc \<le> 19999" unfolding acc_def using drive_integrate_acc by auto
  have d: "\<bar>?d\<bar> \<le> 10000000" using assms(1,2) by linarith
  have h: "- 10000000 \<le> cdiv (pair0 s + ?d) 2 \<and> cdiv (pair0 s + ?d) 2 \<le> 10000000"
    by (rule cdiv_bounds) (use d assms(3) in linarith)+
  have q: "- 200000000 \<le> cdiv (?d * 200) 12 \<and> cdiv (?d * 200) 12 \<le> 200000000"
    by (rule cdiv_bounds) (use d in \<open>simp_all add: abs_mult\<close>)
  have f: "- 3000 \<le> feed_forward (acc * 50) \<and> feed_forward (acc * 50) \<le> 3000"
    by (simp add: feed_forward_clamp)
  show ?thesis
    unfolding drive_intermediates_def Let_def acc_def [symmetric] int32_def
    using a d h q f assms by auto
qed

subsection \<open>Reversing\<close>

fun drive_steps :: "int list \<Rightarrow> drive \<Rightarrow> drive" where
  "drive_steps [] s = s"
| "drive_steps (t # ts) s = drive_steps ts (eshifter_actuator_drive_step t s)"

lemma step_reverse:
  assumes "target \<le> statepos s - 200"
  shows "\<exists>iq. 0 < iq \<and> iq \<le> 8000 \<and> eshifter_actuator_drive_step target s =
           drive_output iq (-1) (phase_reverse (drive_integrate (target - statepos s) s))"
proof -
  define s0 where "s0 = drive_integrate (target - statepos s) s"
  define q where "q = drive_demand (pos_acc s0) (target - statepos s)"
  have "q < 0" unfolding q_def using assms by (intro drive_demand_sign) simp
  moreover have "- 8000 \<le> q" unfolding q_def using drive_demand_bounds by auto
  moreover have "\<not> on_target (target - statepos s)" using assms by (simp add: on_target_def)
  ultimately show ?thesis
    unfolding eshifter_actuator_drive_step_def Let_def s0_def [symmetric] q_def [symmetric]
    by (intro exI [of _ "- q"]) simp
qed

definition stuck :: "drive \<Rightarrow> bool" where
  "stuck s \<longleftrightarrow> phase s = 4 \<and> dir_rev s = 0 \<and> motor2 s = 0"

lemma step_stuck:
  assumes "phase s = 3 \<or> phase s = 4 \<and> dir_rev s = 0" "target \<le> statepos s - 200"
  shows "stuck (eshifter_actuator_drive_step target s) \<and>
         statepos (eshifter_actuator_drive_step target s) = statepos s"
proof -
  obtain iq where iq: "eshifter_actuator_drive_step target s =
           drive_output iq (-1) (phase_reverse (drive_integrate (target - statepos s) s))"
    using step_reverse [OF assms(2)] by blast
  have f: "phase (drive_integrate (target - statepos s) s) = phase s"
    "dir_rev (drive_integrate (target - statepos s) s) = dir_rev s" by (simp_all add: drive_integrate_fields)
  show ?thesis using assms(1) unfolding iq
    by (auto simp: stuck_def phase_reverse_def f drive_integrate_fields)
qed

lemma step_forward:
  assumes "statepos s + 200 \<le> target"
  shows "\<exists>iq. eshifter_actuator_drive_step target s =
           drive_output iq 1 (phase_forward (drive_integrate (target - statepos s) s))"
proof -
  define s0 where "s0 = drive_integrate (target - statepos s) s"
  define q where "q = drive_demand (pos_acc s0) (target - statepos s)"
  have "0 < q" unfolding q_def using assms by (intro drive_demand_pos) simp
  moreover have "\<not> on_target (target - statepos s)" using assms by (simp add: on_target_def)
  ultimately show ?thesis
    unfolding eshifter_actuator_drive_step_def Let_def s0_def [symmetric] q_def [symmetric]
    by (intro exI [of _ q]) simp
qed

lemma forward_three:
  assumes "phase s = 2" "statepos s + 200 \<le> t"
  shows "phase (drive_steps [t, t, t] s) = 3"
proof -
  let ?f = "eshifter_actuator_drive_step t"
  obtain i1 where 1: "?f s = drive_output i1 1 (phase_forward (drive_integrate (t - statepos s) s))"
    using step_forward [OF assms(2)] by blast
  have s1: "phase (?f s) = 4" "dir_fwd (?f s) = 0" "statepos (?f s) = statepos s"
    unfolding 1 using assms(1) by (auto simp: phase_forward_def drive_integrate_fields)
  obtain i2 where 2: "?f (?f s) =
      drive_output i2 1 (phase_forward (drive_integrate (t - statepos (?f s)) (?f s)))"
    using step_forward [of "?f s" t] assms(2) s1 by auto
  have s2: "phase (?f (?f s)) = 4" "dir_fwd (?f (?f s)) = 1" "statepos (?f (?f s)) = statepos s"
    unfolding 2 using s1 by (auto simp: phase_forward_def drive_integrate_fields)
  obtain i3 where 3: "?f (?f (?f s)) = drive_output i3 1
      (phase_forward (drive_integrate (t - statepos (?f (?f s))) (?f (?f s))))"
    using step_forward [of "?f (?f s)" t] assms(2) s2 by auto
  have "phase (?f (?f (?f s))) = 3"
    unfolding 3 using s2 by (auto simp: phase_forward_def drive_integrate_fields)
  then show ?thesis by simp
qed

text \<open>
  Reversing. From forward drive, or from the pause phase with the
  reverse flag clear, any sequence of targets at least 200 behind the position leaves the
  actuator in the pause phase with its motor disabled, for ever: nothing sets the reverse flag.
  The other direction is as intended: from reverse drive three steps towards a target ahead
  engage forward drive.
\<close>

theorem reverse_never_engages:
  shows "((phase s = 3 \<or> phase s = 4 \<and> dir_rev s = 0) \<and> ts \<noteq> [] \<and>
           (\<forall>t\<in>set ts. t \<le> statepos s - 200) \<longrightarrow>
           (phase (drive_steps ts s) = 4 \<and> motor2 (drive_steps ts s) = 0)) \<and>
     (phase s = 2 \<and> statepos s + 200 \<le> t \<longrightarrow>
           (phase (drive_steps [t, t, t] s) = 3))"
proof -
  have r1: "phase s = 2 \<Longrightarrow> statepos s + 200 \<le> t \<Longrightarrow> phase (drive_steps [t, t, t] s) = 3"
    by (rule forward_three)
  have "stuck (drive_steps ts s)"
    if "phase s = 3 \<or> phase s = 4 \<and> dir_rev s = 0" "ts \<noteq> []"
      "\<forall>t\<in>set ts. t \<le> statepos s - 200"
    using that
  proof (induction ts arbitrary: s)
    case (Cons t ts)
    have st: "stuck (eshifter_actuator_drive_step t s)"
        "statepos (eshifter_actuator_drive_step t s) = statepos s"
      using step_stuck [of s t] Cons.prems by auto
    show ?case
    proof (cases ts)
      case Nil
      then show ?thesis using st by simp
    next
      case (Cons u us)
      then show ?thesis using Cons.IH [of "eshifter_actuator_drive_step t s"] st Cons.prems
        by (auto simp: stuck_def)
    qed
  qed simp
  then show ?thesis using r1 by (auto simp: stuck_def)
qed

theorem reverse_never_engages_witness:
  "phase (drive_steps (replicate 1000 0) (demo_drive 3 0)) = 4"
  using reverse_never_engages [of "demo_drive 3 0" "replicate 1000 0"] by (simp add: demo_drive_def)


subsection \<open>Position counters\<close>

lemma ring_idx_bound: "unat ((x :: u8) AND 0x7f) < 128"
  using word_and_le1 [of x "0x7f"] by (simp add: word_le_nat_alt)

text \<open>The delta that goes into the ring, and its effect on the turn counter.\<close>

definition wrapped_delta :: "u16 \<Rightarrow> u16 \<Rightarrow> int" where
  "wrapped_delta v old =
     (let d = uint v - uint old
      in if d < -0x8000 then d + 0x10000 else if 0x8000 < d then d - 0x10000 else d)"

lemma coarse_fields:
  "pos_old (coarse_track_step v s) = v"
  "turns (coarse_track_step v s) * 65536 =
     turns s * 65536 + uint (pos_old s) + wrapped_delta v (pos_old s) - uint v"
  "ring (coarse_track_step v s) = (ring s)[unat (ring_idx s) := wrapped_delta v (pos_old s)]"
  "ring_idx (coarse_track_step v s) = (ring_idx s + 1) AND 0x7f"
  "fine (coarse_track_step v s) = ucast (drop_bit 16 (ucast v * 0xe10 :: u32))"
  by (simp_all add: coarse_track_step_def wrapped_delta_def Let_def)

lemma wrapped_delta_bound: "\<bar>wrapped_delta v old\<bar> \<le> 32768"
proof -
  have "\<bar>if a - b < -0x8000 then a - b + 0x10000 else if 0x8000 < a - b then a - b - 0x10000
         else a - b\<bar> \<le> 32768" if "0 \<le> a" "a < 65536" "0 \<le> b" "b < 65536" for a b :: int
    using that by auto
  from this [of "uint v" "uint old"] show ?thesis
    using uint_lt2p [of v] uint_lt2p [of old] by (simp add: wrapped_delta_def Let_def)
qed

lemma fine_term: "uint (ucast (drop_bit 16 (ucast (v :: u16) * 0xe10 :: u32)) :: u16) = uint v * 3600 div 65536"
proof -
  have v: "unat v < 65536" by simp
  have u: "unat (ucast v :: u32) = unat v" by (rule unat_up16)
  have m0: "unat v * 3600 < 4294967296" using unat_u16_less [of v] by linarith
  have m: "unat (ucast v * 0xe10 :: u32) = unat v * 3600"
    using m0 by (simp add: unat_word_ariths u)
  have d: "unat (drop_bit 16 (ucast v * 0xe10 :: u32)) = unat v * 3600 div 65536"
    by (simp only: drop_bit_eq_div unat_div m) simp
  have "unat v * 3600 div 65536 < 65536" using v by linarith
  then have "unat (ucast (drop_bit 16 (ucast v * 0xe10 :: u32)) :: u16) = unat v * 3600 div 65536"
    unfolding unsigned_ucast_eq d by (intro take_bit_nat_eq_self) simp
  then show ?thesis unfolding uint_nat by (simp add: zdiv_int)
qed

text \<open>
  The turn counter and the raw position together advance by exactly
  the wrapped difference that goes into the ring, which is at most half a turn; the ring index
  stays inside the ring; the fine term is the position scaled to 3600 units a turn, rounded
  down; and the wrap index of the electrical position is always among 0 to 14.
\<close>

theorem multi_turn_position:
  assumes "s' = coarse_track_step v s" "length (ring s) = 128" "unat (ring_idx s) < 128"
  shows "(turns s' * 65536 + uint (pos_old s') =
           turns s * 65536 + uint (pos_old s) + ring s' ! unat (ring_idx s)) \<and>
     (\<bar>ring s' ! unat (ring_idx s)\<bar> \<le> 32768) \<and>
     (length (ring s') = 128 \<and> unat (ring_idx s') < 128) \<and>
     (uint (fine s') = uint (pos_old s') * 3600 div 65536) \<and>
     (pos_wrap_step pos prev widx = (pos', widx') \<longrightarrow>
           (0 \<le> sint widx' \<and> sint widx' \<le> 14))"
proof -
  have r1: "turns s' * 65536 + uint (pos_old s') =
           turns s * 65536 + uint (pos_old s) + ring s' ! unat (ring_idx s)"
    using assms coarse_fields(2) [of v s] by (simp add: coarse_fields(1,3))
  have r2: "\<bar>ring s' ! unat (ring_idx s)\<bar> \<le> 32768"
    using assms wrapped_delta_bound by (simp add: coarse_fields(3))
  have r3: "length (ring s') = 128 \<and> unat (ring_idx s') < 128"
    using assms(1,2) by (simp add: coarse_fields(3,4) ring_idx_bound)
  have r4: "uint (fine s') = uint (pos_old s') * 3600 div 65536"
    using assms(1) fine_term [of v] by (simp add: coarse_fields(1,5))
  have r5: "pos_wrap_step pos prev widx = (pos', widx') \<Longrightarrow> 0 \<le> sint widx' \<and> sint widx' \<le> 14"
    by (auto simp: pos_wrap_step_def Let_def split: if_splits)
  show ?thesis using r1 r2 r3 r4 r5 by blast
qed

theorem multi_turn_position_witness:
  "turns (coarse_track_step 5 \<lparr>pos_old = 65530, turns = 2, fine = 0, ring_idx = 0,
                             ring = replicate 128 0\<rparr>) = 3"
proof -
  let ?s = "\<lparr>pos_old = 65530, turns = 2, fine = 0, ring_idx = 0, ring = replicate 128 0\<rparr> :: coarse"
  have "pos_old (coarse_track_step 5 ?s) = 5" "ring (coarse_track_step 5 ?s) ! 0 = 11"
    by (simp_all add: coarse_fields(1,3) wrapped_delta_def)
  with multi_turn_position [OF refl, of ?s 5] show ?thesis by simp
qed

subsection \<open>Calibration\<close>

definition ch_ok :: "channel \<Rightarrow> bool" where
  "ch_ok ch \<longleftrightarrow> unat (countA ch) \<le> 150 \<and> unat (countB ch) \<le> 150 \<and>
     40000 \<le> maxA ch \<and> maxA ch \<le> 65535 \<and> 0 \<le> minB ch \<and> minB ch \<le> 25000 \<and>
     (countA ch \<noteq> 0 \<longrightarrow> 40000 < accA ch \<and> accA ch \<le> 65535) \<and>
     (countB ch \<noteq> 0 \<longrightarrow> 0 \<le> accB ch \<and> accB ch < 25000)"

lemma blend_between:
  assumes "c = 0 \<or> lo \<le> a \<and> a \<le> hi" "lo \<le> x" "x \<le> hi"
  shows "lo \<le> blend c a x \<and> blend c a x \<le> hi"
proof (cases "c = 0")
  case True
  then show ?thesis using assms by (simp add: blend_def)
next
  case False
  then have a: "lo \<le> a" "a \<le> hi" using assms(1) by auto
  have "lo \<le> (a + x) div 2 \<and> (a + x) div 2 \<le> hi" using a assms(2,3) by linarith
  moreover have "lo \<le> x + (a - x) div 4 \<and> x + (a - x) div 4 \<le> hi" using a assms(2,3) by linarith
  ultimately show ?thesis using assms(2,3) by (simp add: blend_def)
qed

lemma unat_inc_150:
  assumes "(c :: u16) < 150"
  shows "c + 1 \<noteq> 0 \<and> unat (c + 1) \<le> 150"
proof -
  have "unat c < 150" using assms by (simp add: word_less_nat_alt)
  then have "unat (c + 1) = unat c + 1" by (simp add: unat_word_ariths)
  with \<open>unat c < 150\<close> show ?thesis by (metis Suc_eq_plus1 Suc_leI nat.distinct(1) unat_0)
qed

lemma track_max_ok:
  assumes "ch_ok ch" "0 \<le> x" "x \<le> 65535"
  shows "ch_ok (track_max x ch)"
proof -
  have c: "countA ch + 1 \<noteq> 0 \<and> unat (countA ch + 1) \<le> 150" if "countA ch < 150"
    using that by (rule unat_inc_150)
  have "40000 < blend (countA ch) (accA ch) (maxA ch) \<and> blend (countA ch) (accA ch) (maxA ch) \<le> 65535"
    if "40000 < maxA ch"
    using blend_between [of "countA ch" 40001 "accA ch" 65535 "maxA ch"] assms(1) that
    by (auto simp: ch_ok_def)
  then show ?thesis using assms c by (auto simp: track_max_def ch_ok_def Let_def)
qed

lemma track_min_ok:
  assumes "ch_ok ch" "0 \<le> x" "x \<le> 65535"
  shows "ch_ok (track_min x ch)"
proof -
  have c: "countB ch + 1 \<noteq> 0 \<and> unat (countB ch + 1) \<le> 150" if "countB ch < 150"
    using that by (rule unat_inc_150)
  have "0 \<le> blend (countB ch) (accB ch) (minB ch) \<and> blend (countB ch) (accB ch) (minB ch) < 25000"
    if "minB ch < 25000"
    using blend_between [of "countB ch" 0 "accB ch" 24999 "minB ch"] assms(1) that
    by (auto simp: ch_ok_def)
  then show ?thesis using assms c by (auto simp: track_min_def ch_ok_def Let_def)
qed

lemma calib_channels_ok:
  assumes "\<forall>ch\<in>set chs. ch_ok ch" "length samp = length chs" "unat tot + 300 * length chs < 65536"
    and "calib_channels samp chs tot adv = (chs', adv')"
  shows "(\<forall>ch\<in>set chs'. ch_ok ch) \<and> length chs' = length chs \<and>
     (adv' \<longleftrightarrow> adv \<or> chs \<noteq> [] \<and>
        1200 \<le> unat tot + (\<Sum>ch\<leftarrow>chs'. unat (countA ch) + unat (countB ch)))"
  using assms
proof (induction samp chs tot adv arbitrary: chs' adv' rule: calib_channels.induct)
  case (1 s samp ch chs tot adv)
  define c where "c = track_min (uint s) (track_max (uint s) ch)"
  have s: "0 \<le> uint s" "uint s \<le> 65535" using uint_lt2p [of s] by simp_all
  have c: "ch_ok c" unfolding c_def using 1(2) s track_min_ok track_max_ok by simp
  then have cc: "unat (countA c) \<le> 150" "unat (countB c) \<le> 150" by (simp_all add: ch_ok_def)
  define t where "t = countA c + countB c + tot"
  have t: "unat t = unat (countA c) + unat (countB c) + unat tot"
    using cc 1(4) unfolding t_def by (simp add: unat_word_ariths)
  have le: "0x4b0 \<le> t \<longleftrightarrow> 1200 \<le> unat t" by (simp add: word_le_nat_alt)
  obtain cs a where r: "calib_channels samp chs t (adv \<or> 0x4b0 \<le> t) = (cs, a)" by fastforce
  have out: "chs' = c # cs" "adv' = a"
    using 1(5) r by (simp_all add: Let_def c_def [symmetric] t_def [symmetric])
  have ih: "(\<forall>ch\<in>set cs. ch_ok ch) \<and> length cs = length chs \<and>
     (a \<longleftrightarrow> (adv \<or> 0x4b0 \<le> t) \<or> chs \<noteq> [] \<and>
        1200 \<le> unat t + (\<Sum>ch\<leftarrow>cs. unat (countA ch) + unat (countB ch)))"
    using 1(1) [OF c_def t_def, of cs a] 1(2,3,4) r t cc by simp
  show ?case
    using ih c cc t le unfolding out by (cases chs) auto
qed auto

definition demo_channel :: channel where
  "demo_channel = \<lparr>countA = 150, countB = 150, maxA = 40000, minB = 25000, accA = 50000, accB = 9\<rparr>"

text \<open>
  Collecting a sample keeps every channel within its bounds (at most
  150 extrema a side, averages inside the range of accepted extrema), and the collection ends
  exactly when all eight counters have reached 150.
\<close>

theorem calibration_collects:
  assumes "calib_collect samp (chs, st) = (chs', st')" "length samp = 4" "length chs = 4"
    and "\<forall>ch\<in>set chs. ch_ok ch" "st = 0"
  shows "((\<forall>ch\<in>set chs'. ch_ok ch) \<and> length chs' = 4) \<and>
     (st' = 1 \<longleftrightarrow> (\<forall>ch\<in>set chs'. unat (countA ch) = 150 \<and> unat (countB ch) = 150))"
proof -
  obtain adv where r: "calib_channels samp chs 0 False = (chs', adv)" and st': "st' = (if adv then 1 else st)"
    using assms(1) by (auto simp: calib_collect_def Let_def split: prod.splits)
  have ok: "(\<forall>ch\<in>set chs'. ch_ok ch) \<and> length chs' = length chs \<and>
     (adv \<longleftrightarrow> chs \<noteq> [] \<and> 1200 \<le> (\<Sum>ch\<leftarrow>chs'. unat (countA ch) + unat (countB ch)))"
    using calib_channels_ok [OF assms(4) _ _ r] assms(2,3) by auto
  then have r1: "(\<forall>ch\<in>set chs'. ch_ok ch) \<and> length chs' = 4" using assms(3) by simp
  from ok assms(3) obtain c0 c1 c2 c3 where cs: "chs' = [c0, c1, c2, c3]"
    by (auto simp: length_Suc_conv numeral_eq_Suc)
  have "unat (countA c) \<le> 150 \<and> unat (countB c) \<le> 150" if "c \<in> set chs'" for c
    using ok that by (auto simp: ch_ok_def)
  note b = this [of c0] this [of c1] this [of c2] this [of c3]
  have "adv \<longleftrightarrow> (\<forall>ch\<in>set chs'. unat (countA ch) = 150 \<and> unat (countB ch) = 150)"
    using ok b assms(3) unfolding cs by auto
  then have r2: "st' = 1 \<longleftrightarrow> (\<forall>ch\<in>set chs'. unat (countA ch) = 150 \<and> unat (countB ch) = 150)"
    using st' assms(5) by auto
  show ?thesis using r1 r2 by blast
qed

theorem calibration_collects_witness:
  "snd (calib_collect [1, 2, 3, 4] (replicate 4 demo_channel, 0)) = 1"
proof -
  obtain chs' st' where r: "calib_collect [1, 2, 3, 4] (replicate 4 demo_channel, 0) = (chs', st')"
    by fastforce
  have "chs' = replicate 4 demo_channel"
    using r by (auto simp: calib_collect_def Let_def numeral_eq_Suc demo_channel_def track_max_def
        track_min_def split: prod.splits)
  then show ?thesis
    using calibration_collects [OF r] r by (simp add: ch_ok_def demo_channel_def)
qed

end
