(* ===== verification/Battery.thy ===== *)
theory Battery
  imports Prelude
begin

text \<open>
  Decoders of the primary battery's payloads in the \<open>power\<close> service
  (\<open>src/main/power/src/battery_decode.c\<close>): the display curve of the state of charge and
  the fields the decoders publish.  A payload shorter than the fields read is \<open>None\<close>.  The
  temperature decoder publishes floating-point values and is not modelled.
\<close>

subsection \<open>The display curve\<close>

definition bp :: "(int \<times> int) list" where
  "bp = [(0, 0), (4, 0), (7, 3), (12, 6), (24, 11), (33, 21), (80, 81), (89, 91), (97, 100),
         (100, 100)]"

text \<open>The loop over the breakpoints, with the previous one once there is one.\<close>

fun soc_scan :: "(int \<times> int) option \<Rightarrow> (int \<times> int) list \<Rightarrow> int \<Rightarrow> int" where
  "soc_scan prev [] raw = 0"
| "soc_scan prev ((x1, y1) # rest) raw =
     (if raw \<le> x1 then
        (case prev of
           None \<Rightarrow> y1
         | Some (x0, y0) \<Rightarrow>
             let dx = x1 - x0
             in y0 + (if dx \<noteq> 0 then cdiv ((y1 - y0) * (raw - x0)) dx else 0))
      else soc_scan (Some (x1, y1)) rest raw)"

definition soc_to_soc_app :: "u8 \<Rightarrow> u8" where
  "soc_to_soc_app raw_soc = word_of_int (soc_scan None bp (uint raw_soc))"

subsection \<open>The decoders\<close>

record battery_monitor =
  voltage :: u16
  charge_current :: u16
  soc :: u16

text \<open>A published value: the topic, the value, the two publication flags.\<close>

type_synonym pub = "string \<times> u16 \<times> nat \<times> nat"

definition RD16 :: "bytes \<Rightarrow> nat \<Rightarrow> u16 option" where
  "RD16 p off = (if off + 1 < length p then Some (rd16 (p ! off) (p ! (off + 1))) else None)"

definition battery_voltage_decode ::
  "battery_monitor \<Rightarrow> bytes \<Rightarrow> (battery_monitor \<times> pub list) option" where
  "battery_voltage_decode m p = (case RD16 p 0 of
       Some v \<Rightarrow> Some (m\<lparr>voltage := v\<rparr>, [(''power/battery/primary/info/voltage'', v, 0, 0)])
     | None \<Rightarrow> None)"

definition battery_charging_decode ::
  "battery_monitor \<Rightarrow> bytes \<Rightarrow> (battery_monitor \<times> pub list) option" where
  "battery_charging_decode m p = (case (RD16 p 0, RD16 p 2) of
       (Some c, Some v) \<Rightarrow> Some (m\<lparr>charge_current := c\<rparr>,
         [(''power/battery/primary/info/charge_voltage'', v, 0, 0),
          (''power/battery/primary/info/charge_current'', c, 0, 0)])
     | _ \<Rightarrow> None)"

definition battery_health_decode ::
  "battery_monitor \<Rightarrow> bytes \<Rightarrow> (battery_monitor \<times> pub list) option" where
  "battery_health_decode m p = (case (RD16 p 4, RD16 p 6) of
       (Some h, Some c) \<Rightarrow> Some (m,
         [(''power/battery/primary/info/health'', h, 0, 0),
          (''power/battery/primary/info/cycles'', c, 0, 0)])
     | _ \<Rightarrow> None)"

definition battery_capacity_decode ::
  "battery_monitor \<Rightarrow> bytes \<Rightarrow> (battery_monitor \<times> pub list) option" where
  "battery_capacity_decode m p = (case RD16 p 0 of
       Some s \<Rightarrow> Some (m\<lparr>soc := s\<rparr>,
         [(''power/battery/primary/info/soc'', s, 4, 1),
          (''power/battery/primary/info/soc_app'', ucast (soc_to_soc_app (p ! 0)), 4, 1)])
     | None \<Rightarrow> None)"

subsection \<open>The curve, piece by piece\<close>

text \<open>The curve as a function on percentages, with the ten pieces written out.\<close>

definition soc_curve :: "int \<Rightarrow> int" where
  "soc_curve r =
     (if r \<le> 4 then 0
      else if r \<le> 7 then (3 * (r - 4)) div 3
      else if r \<le> 12 then 3 + (3 * (r - 7)) div 5
      else if r \<le> 24 then 6 + (5 * (r - 12)) div 12
      else if r \<le> 33 then 11 + (10 * (r - 24)) div 9
      else if r \<le> 80 then 21 + (60 * (r - 33)) div 47
      else if r \<le> 89 then 81 + (10 * (r - 80)) div 9
      else if r \<le> 97 then 91 + (9 * (r - 89)) div 8
      else if r \<le> 100 then 100
      else 0)"

lemma soc_scan_curve:
  assumes "0 \<le> r"
  shows "soc_scan None bp r = soc_curve r"
  using assms by (simp add: bp_def soc_curve_def cdiv_nonneg)

lemma soc_curve_range: "0 \<le> r \<Longrightarrow> 0 \<le> soc_curve r \<and> soc_curve r \<le> 100"
  unfolding soc_curve_def by (auto; linarith)

lemma soc_curve_step:
  assumes "0 \<le> r" "r < 100"
  shows "soc_curve r \<le> soc_curve (r + 1)"
  using assms unfolding soc_curve_def by (auto; linarith)

lemma uint_soc_app: "uint (soc_to_soc_app raw) = soc_curve (uint raw)"
proof -
  have "0 \<le> soc_curve (uint raw) \<and> soc_curve (uint raw) \<le> 100" by (rule soc_curve_range) simp
  then show ?thesis
    by (simp add: soc_to_soc_app_def soc_scan_curve uint_word_of_int)
qed

lemma soc_curve_mono:
  assumes "0 \<le> a" "a \<le> b" "b \<le> 100"
  shows "soc_curve a \<le> soc_curve b"
  using assms(2,3)
proof (induction rule: int_ge_induct)
  case (step i)
  have "soc_curve i \<le> soc_curve (i + 1)" by (rule soc_curve_step) (use step assms(1) in auto)
  then show ?case using step by simp
qed simp

definition demo_monitor :: battery_monitor where
  "demo_monitor = \<lparr>voltage = 0, charge_current = 0, soc = 0\<rparr>"

text \<open>
  The displayed charge never exceeds 100, never falls when the raw charge
  rises (up to 100), is 0 up to a raw charge of 4 and 100 from 97 on, and is 0 for a raw charge
  above 100; a capacity frame publishes the raw 16-bit charge and the displayed value of its low
  byte.
\<close>

theorem soc_app_monotone:
  shows "(unat (soc_to_soc_app raw) \<le> 100) \<and>
     (raw \<le> raw' \<and> raw' \<le> 100 \<longrightarrow>
           (soc_to_soc_app raw \<le> soc_to_soc_app raw')) \<and>
     (raw \<le> 4 \<longrightarrow>
           (soc_to_soc_app raw = 0)) \<and>
     (97 \<le> raw \<and> raw \<le> 100 \<longrightarrow>
           (soc_to_soc_app raw = 100)) \<and>
     (100 < raw \<longrightarrow>
           (soc_to_soc_app raw = 0)) \<and>
     (length p = 8 \<longrightarrow>
           (\<exists>m' topic1 topic2.
     battery_capacity_decode m p =
       Some (m', [(topic1, rd16 (p ! 0) (p ! 1), 4, 1),
                  (topic2, ucast (soc_to_soc_app (p ! 0)), 4, 1)])))"
proof -
  have le: "x \<le> y \<longleftrightarrow> uint x \<le> uint y" "x < y \<longleftrightarrow> uint x < uint y" for x y :: u8
    by (simp_all add: word_le_def word_less_def)
  have eq: "x = y \<longleftrightarrow> uint x = uint y" for x y :: u8 by (simp add: word_uint_eq_iff)
  have nn: "0 \<le> uint raw" by simp
  have r1: "unat (soc_to_soc_app raw) \<le> 100"
    using soc_curve_range [OF nn] uint_soc_app [of raw] by (metis nat_le_iff of_nat_numeral unat_eq_nat_uint)
  have r2: "soc_to_soc_app raw \<le> soc_to_soc_app raw'" if "raw \<le> raw'" "raw' \<le> 100"
    using soc_curve_mono [OF nn] that unfolding le uint_soc_app by simp
  have r3: "soc_to_soc_app raw = 0" if "raw \<le> 4"
    using that unfolding eq le uint_soc_app by (simp add: soc_curve_def)
  have r4: "soc_to_soc_app raw = 100" if "97 \<le> raw" "raw \<le> 100"
    using that unfolding eq le uint_soc_app by (auto simp: soc_curve_def)
  have r5: "soc_to_soc_app raw = 0" if "100 < raw"
    using that unfolding eq le uint_soc_app by (simp add: soc_curve_def)
  have r6: "\<exists>m' topic1 topic2. battery_capacity_decode m p =
       Some (m', [(topic1, rd16 (p ! 0) (p ! 1), 4, 1),
                  (topic2, ucast (soc_to_soc_app (p ! 0)), 4, 1)])" if "length p = 8"
    using that by (simp add: battery_capacity_decode_def RD16_def)
  show ?thesis using r1 r2 r3 r4 r5 r6 by blast
qed

theorem soc_app_monotone_witness:
  "soc_to_soc_app 80 \<le> soc_to_soc_app 95 \<and> soc_to_soc_app 3 = 0 \<and> soc_to_soc_app 98 = 100 \<and>
   soc_to_soc_app 101 = 0"
  using soc_app_monotone [of 80 95] soc_app_monotone [of 3 3] soc_app_monotone [of 98 98]
    soc_app_monotone [of 101 101] by simp

end
