(* ===== verification/Nvm.thy ===== *)
theory Nvm
  imports Prelude
begin

text \<open>
  The persisted lock secret and AES key of the electronic lock (\<open>src/elock/src/nvm.c\<close>):
  loading a record, publishing it into the object dictionary, verifying it, and storing it.  The
  record driver and the registry are vendor code and arguments: a record of functions over a flash
  state of any type, and the answers of the registry.  A copy that leaves the entry's buffer is
  \<open>None\<close>.
\<close>

record 'f nvm_ops =
  nvm_open :: "'f \<Rightarrow> bool"
  nvm_read :: "'f \<Rightarrow> nat \<Rightarrow> nat \<Rightarrow> int \<times> bytes"
  nvm_write_verify :: "'f \<Rightarrow> bytes \<Rightarrow> nat \<Rightarrow> int \<times> 'f"
  nvm_finalize :: "'f \<Rightarrow> int \<times> 'f"

record od_answers =
  found1 :: bool
  wait_rc :: int
  found2 :: bool

type_synonym od = "u32 \<Rightarrow> bytes"

definition od_sel :: "u8 \<Rightarrow> u8 \<Rightarrow> u32" where
  "od_sel sub kind = ucast sub OR push_bit 8 (ucast kind)"

subsection \<open>Steps the loaders share\<close>

text \<open>The scratch buffer and \<open>rd_err\<close>.\<close>

definition read_scratch :: "'f nvm_ops \<Rightarrow> 'f \<Rightarrow> nat \<Rightarrow> nat \<Rightarrow> bytes \<times> int" where
  "read_scratch ops f rec_id len =
     (if \<not> nvm_open ops f then (replicate len 0, -1)
      else let (rc, b) = nvm_read ops f rec_id len in (b, - (if rc \<noteq> 0 then 1 else 0)))"

text \<open>The guarded copy into the dictionary and \<open>publish_ok\<close>.\<close>

definition publish_entry :: "od_answers \<Rightarrow> od \<Rightarrow> u32 \<Rightarrow> bytes \<Rightarrow> (int \<times> od) option" where
  "publish_entry a od sel body =
     (if found1 a \<and> wait_rc a = 0 then
        (case blit (od sel) 0 body of
           None \<Rightarrow> None
         | Some buf \<Rightarrow> Some (if found2 a then 0 else -1, od(sel := buf)))
      else Some (-1, od))"

text \<open>Folding of the three results, and the comparison with the caller's copy.\<close>

definition fold_status :: "int \<Rightarrow> int \<Rightarrow> bool \<Rightarrow> int" where
  "fold_status rd_err publish_ok opened =
     (let publish_ok = (if rd_err \<noteq> 0 then -1 else publish_ok);
          proxy = (if opened then 0 else -1)
      in if publish_ok \<noteq> 0 then -1 else proxy)"

definition verify_out :: "bytes \<Rightarrow> bytes option \<Rightarrow> int \<Rightarrow> int" where
  "verify_out scratch out proxy = (case out of
       None \<Rightarrow> proxy
     | Some b \<Rightarrow> (if proxy = 0 then - (if scratch \<noteq> b then 1 else 0) else -1))"

subsection \<open>Loading\<close>

definition elock_load_secret_to_od_87 ::
  "'f nvm_ops \<Rightarrow> 'f \<Rightarrow> od_answers \<Rightarrow> u8 \<Rightarrow> bytes option \<Rightarrow> od \<Rightarrow> (int \<times> od) option" where
  "elock_load_secret_to_od_87 ops f a sub out od =
     (let (scratch, rd_err) = read_scratch ops f 0x30 0xe;
          (scratch, rd_err) = (if 1 < scratch ! 0 then (replicate 0xe 0, -1) else (scratch, rd_err))
      in case publish_entry a od (od_sel sub 0x87) (take 13 (drop 1 scratch)) of
           None \<Rightarrow> None
         | Some (publish_ok, od) \<Rightarrow>
             Some (verify_out scratch out (fold_status rd_err publish_ok (nvm_open ops f)), od))"

definition elock_load_aeskey_to_od_91 ::
  "'f nvm_ops \<Rightarrow> 'f \<Rightarrow> od_answers \<Rightarrow> u8 \<Rightarrow> bytes option \<Rightarrow> od \<Rightarrow> (int \<times> od) option" where
  "elock_load_aeskey_to_od_91 ops f a sub out od =
     (let (scratch, rd_err) = read_scratch ops f 0x40 0x10
      in case publish_entry a od (od_sel sub 0x91) (take 16 scratch) of
           None \<Rightarrow> None
         | Some (publish_ok, od) \<Rightarrow>
             Some (verify_out scratch out (fold_status rd_err publish_ok (nvm_open ops f)), od))"

subsection \<open>Storing\<close>

text \<open>Write, finalize and \<open>wr_err\<close>.\<close>

definition write_record :: "'f nvm_ops \<Rightarrow> 'f \<Rightarrow> bytes \<Rightarrow> nat \<Rightarrow> int \<times> 'f" where
  "write_record ops f rec off =
     (let (wr_err, f) = nvm_write_verify ops f rec off;
          (fin, f) = nvm_finalize ops f
      in (if wr_err = 0 then - (if fin \<noteq> 0 then 1 else 0) else -1, f))"

definition elock_store_secret_87 ::
  "'f nvm_ops \<Rightarrow> 'f \<Rightarrow> od_answers \<Rightarrow> u8 \<Rightarrow> bytes \<Rightarrow> od \<Rightarrow> (int \<times> 'f \<times> od) option" where
  "elock_store_secret_87 ops f a sub secret od =
     (if \<not> nvm_open ops f then Some (-1, f, od)
      else
        let rec = 1 # take 0xd secret;
            (wr_err, f) = write_record ops f rec 0
        in case elock_load_secret_to_od_87 ops f a sub (Some rec) od of
             None \<Rightarrow> None
           | Some (rc, od) \<Rightarrow> Some (if wr_err \<noteq> 0 then -1 else rc, f, od))"

definition elock_store_aeskey_91 ::
  "'f nvm_ops \<Rightarrow> 'f \<Rightarrow> od_answers \<Rightarrow> u8 \<Rightarrow> bytes \<Rightarrow> od \<Rightarrow> (int \<times> 'f \<times> od) option" where
  "elock_store_aeskey_91 ops f a sub aeskey od =
     (if \<not> nvm_open ops f then Some (-1, f, od)
      else
        let rec = take 0x10 aeskey;
            (wr_err, f) = write_record ops f rec 0x10
        in case elock_load_aeskey_to_od_91 ops f a sub (Some rec) od of
             None \<Rightarrow> None
           | Some (rc, od) \<Rightarrow> Some (if wr_err \<noteq> 0 then -1 else rc, f, od))"

subsection \<open>The shared steps\<close>

lemma read_scratch_status:
  "snd (read_scratch ops f r n) = 0 \<longleftrightarrow> nvm_open ops f \<and> fst (nvm_read ops f r n) = 0"
  by (auto simp: read_scratch_def Let_def split: prod.splits)

lemma fold_status_zero: "fold_status rd pub opened = 0 \<longleftrightarrow> rd = 0 \<and> pub = 0 \<and> opened"
  by (simp add: fold_status_def Let_def)

lemma verify_out_zero: "verify_out b out p = 0 \<longleftrightarrow> p = 0 \<and> (\<forall>x. out = Some x \<longrightarrow> b = x)"
  by (auto simp: verify_out_def split: option.splits)

lemma publish_cases:
  assumes "publish_entry a od sel body = Some (pub, od')"
  shows "pub = 0 \<longleftrightarrow> found1 a \<and> wait_rc a = 0 \<and> found2 a"
    and "found1 a \<and> wait_rc a = 0 \<Longrightarrow> take (length body) (od' sel) = body"
    and "\<not> (found1 a \<and> wait_rc a = 0) \<Longrightarrow> od' = od"
  using assms by (auto simp: publish_entry_def blit_def split: if_splits option.splits)

lemma publish_Some:
  "length body \<le> length (od sel) \<Longrightarrow> \<exists>pub od'. publish_entry a od sel body = Some (pub, od')"
  by (auto simp: publish_entry_def blit_def)

text \<open>The record a secret load ends up with.\<close>

definition secret_scratch :: "'f nvm_ops \<Rightarrow> 'f \<Rightarrow> bytes \<times> int" where
  "secret_scratch ops f =
     (let (b, e) = read_scratch ops f 0x30 0xe
      in if 1 < b ! 0 then (replicate 0xe 0, -1) else (b, e))"

lemma load_secret_eq:
  "elock_load_secret_to_od_87 ops f a sub out od =
     (case publish_entry a od (od_sel sub 0x87) (take 13 (drop 1 (fst (secret_scratch ops f)))) of
        None \<Rightarrow> None
      | Some (publish_ok, od) \<Rightarrow>
          Some (verify_out (fst (secret_scratch ops f)) out
                  (fold_status (snd (secret_scratch ops f)) publish_ok (nvm_open ops f)), od))"
  by (auto simp: elock_load_secret_to_od_87_def secret_scratch_def Let_def
        split: prod.splits option.splits)

lemma secret_scratch_status:
  "snd (secret_scratch ops f) = 0 \<longleftrightarrow>
     nvm_open ops f \<and> fst (nvm_read ops f 0x30 0xe) = 0 \<and> snd (nvm_read ops f 0x30 0xe) ! 0 \<le> 1"
  by (auto simp: secret_scratch_def read_scratch_def Let_def not_less[symmetric] split: prod.splits)

lemma secret_scratch_bytes:
  "fst (secret_scratch ops f) =
     (if nvm_open ops f \<and> snd (nvm_read ops f 0x30 0xe) ! 0 \<le> 1 then snd (nvm_read ops f 0x30 0xe)
      else replicate 14 0)"
  by (auto simp: secret_scratch_def read_scratch_def Let_def not_less[symmetric] split: prod.splits)

text \<open>A driver for the witnesses: one flash page of 32 bytes that starts at record 0x30.\<close>

definition demo_ops :: "bytes nvm_ops" where
  "demo_ops = \<lparr>nvm_open = (\<lambda>_. True),
     nvm_read = (\<lambda>f r n. (0, map (\<lambda>i. if r - 0x30 + i < length f then f ! (r - 0x30 + i) else 0) [0..<n])),
     nvm_write_verify = (\<lambda>f b off. if off + length b \<le> length f
       then (0, take off f @ b @ drop (off + length b) f) else (-1, f)),
     nvm_finalize = (\<lambda>f. (0, f))\<rparr>"

definition demo_answers :: od_answers where
  "demo_answers = \<lparr>found1 = True, wait_rc = 0, found2 = True\<rparr>"

text \<open>
  A load of the lock secret returns 0 exactly when the driver opens,
  the read succeeds, the tag byte is at most 1 and the dictionary entry is found, locked and
  found again. When the entry is found and locked it is overwritten in every case: with the body
  of the record, and with thirteen zero bytes when the driver did not open or the tag is
  invalid. Otherwise the dictionary is untouched.
\<close>

theorem load_secret_outcome:
  assumes "elock_load_secret_to_od_87 ops f a sub None od = Some (rc, od')"
    and "\<forall>r n. length (snd (nvm_read ops f r n)) = n"
  shows "(rc = 0 \<longleftrightarrow> nvm_open ops f \<and> fst (nvm_read ops f 0x30 14) = 0 \<and>
           snd (nvm_read ops f 0x30 14) ! 0 \<le> 1 \<and> found1 a \<and> wait_rc a = 0 \<and> found2 a) \<and>
     (found1 a \<and> wait_rc a = 0 \<longrightarrow>
           (take 13 (od' (od_sel sub 0x87)) =
             (if nvm_open ops f \<and> snd (nvm_read ops f 0x30 14) ! 0 \<le> 1
              then drop 1 (snd (nvm_read ops f 0x30 14)) else replicate 13 0))) \<and>
     (\<not> (found1 a \<and> wait_rc a = 0) \<longrightarrow>
           (od' = od))"
proof -
  define body where "body = take 13 (drop 1 (fst (secret_scratch ops f)))"
  have len: "length (fst (secret_scratch ops f)) = 14"
    unfolding secret_scratch_bytes using assms(2) by simp
  then have lb: "length body = 13" "body = drop 1 (fst (secret_scratch ops f))"
    by (simp_all add: body_def)
  obtain pub where p: "publish_entry a od (od_sel sub 0x87) body = Some (pub, od')"
    and rc: "rc = verify_out (fst (secret_scratch ops f)) None
                    (fold_status (snd (secret_scratch ops f)) pub (nvm_open ops f))"
    using assms(1) unfolding load_secret_eq body_def by (auto split: option.splits)
  have r1: "rc = 0 \<longleftrightarrow> nvm_open ops f \<and> fst (nvm_read ops f 0x30 14) = 0 \<and>
           snd (nvm_read ops f 0x30 14) ! 0 \<le> 1 \<and> found1 a \<and> wait_rc a = 0 \<and> found2 a"
    unfolding rc verify_out_zero fold_status_zero secret_scratch_status publish_cases(1) [OF p]
    by auto
  have r2: "take 13 (od' (od_sel sub 0x87)) =
             (if nvm_open ops f \<and> snd (nvm_read ops f 0x30 14) ! 0 \<le> 1
              then drop 1 (snd (nvm_read ops f 0x30 14)) else replicate 13 0)"
    if "found1 a" "wait_rc a = 0"
    using publish_cases(2) [OF p] that lb unfolding secret_scratch_bytes by (auto split: if_splits)
  have r3: "\<not> (found1 a \<and> wait_rc a = 0) \<Longrightarrow> od' = od" by (rule publish_cases(3) [OF p])
  show ?thesis using r1 r2 r3 by blast
qed

lemma demo_read_length: "length (snd (nvm_read demo_ops f r n)) = n"
  by (simp add: demo_ops_def)

lemma demo_load_Some:
  "\<exists>rc od'. elock_load_secret_to_od_87 demo_ops f a sub out (\<lambda>_. replicate 16 0xff) = Some (rc, od')"
proof -
  obtain pub od' where "publish_entry a (\<lambda>_. replicate 16 0xff) (od_sel sub 0x87)
      (take 13 (drop 1 (fst (secret_scratch demo_ops f)))) = Some (pub, od')"
    using publish_Some [of "take 13 (drop 1 (fst (secret_scratch demo_ops f)))"
        "\<lambda>_. replicate 16 0xff" "od_sel sub 0x87" a]
    by (auto simp: min_le_iff_disj)
  then show ?thesis unfolding load_secret_eq by simp
qed

theorem load_secret_outcome_witness:
  "\<exists>rc od'. elock_load_secret_to_od_87 demo_ops (2 # replicate 31 9) demo_answers 5 None
           (\<lambda>_. replicate 16 0xff) = Some (rc, od') \<and> rc \<noteq> 0 \<and>
         take 13 (od' (od_sel 5 0x87)) = replicate 13 0"
proof -
  let ?f = "2 # replicate 31 9 :: bytes"
  obtain rc od' where r: "elock_load_secret_to_od_87 demo_ops ?f demo_answers 5 None
      (\<lambda>_. replicate 16 0xff) = Some (rc, od')"
    using demo_load_Some by blast
  have len: "\<forall>r n. length (snd (nvm_read demo_ops ?f r n)) = n" by (simp add: demo_read_length)
  have b: "snd (nvm_read demo_ops ?f 0x30 14) ! 0 = 2" by (simp add: demo_ops_def)
  have n: "\<not> (2 :: u8) \<le> 1" by (simp add: word_le_nat_alt)
  have "rc \<noteq> 0" using load_secret_outcome [OF r len] b n by metis
  moreover have "take 13 (od' (od_sel 5 0x87)) = replicate 13 0"
    using load_secret_outcome [OF r len] b n by (simp add: demo_answers_def)
  ultimately show ?thesis using r by blast
qed

subsection \<open>Storing\<close>

text \<open>
  What the code relies on of the record driver: a record that was written and finalised without
  error is what a read of its place returns (the write offsets are relative to record 0x30).
\<close>

definition record_driver :: "'f nvm_ops \<Rightarrow> bool" where
  "record_driver ops \<longleftrightarrow>
     (\<forall>f rec off f1 f2. nvm_write_verify ops f rec off = (0, f1) \<longrightarrow>
        nvm_finalize ops f1 = (0, f2) \<longrightarrow>
        nvm_open ops f2 \<and> nvm_read ops f2 (0x30 + off) (length rec) = (0, rec))"

lemma write_record_zero:
  "fst (write_record ops f rec off) = 0 \<longleftrightarrow>
     fst (nvm_write_verify ops f rec off) = 0 \<and>
     fst (nvm_finalize ops (snd (nvm_write_verify ops f rec off))) = 0"
  "snd (write_record ops f rec off) = snd (nvm_finalize ops (snd (nvm_write_verify ops f rec off)))"
  by (simp_all add: write_record_def Let_def split: prod.splits)

text \<open>
  C20.  A store of a 13-byte secret that returns 0 has published exactly
  that secret. Over a record driver that reads back what it wrote, it returns 0 exactly when
  writing and finalising succeeded and the entry was found, locked and found again.
\<close>

theorem store_secret_published:
  assumes "elock_store_secret_87 ops f a sub secret od = Some (rc, f', od')" "length secret = 13"
  shows "(rc = 0 \<longrightarrow>
           (take 13 (od' (od_sel sub 0x87)) = secret)) \<and>
     (record_driver ops \<and> nvm_open ops f \<longrightarrow>
           (rc = 0 \<longleftrightarrow> fst (nvm_write_verify ops f (1 # secret) 0) = 0 \<and>
             fst (nvm_finalize ops (snd (nvm_write_verify ops f (1 # secret) 0))) = 0 \<and>
             found1 a \<and> wait_rc a = 0 \<and> found2 a))"
proof -
  let ?rec = "1 # secret"
  define g where "g = snd (write_record ops f ?rec 0)"
  have tk: "take 0xd secret = secret" using assms(2) by simp
  have opened: "rc = 0 \<Longrightarrow> nvm_open ops f"
    using assms(1) by (auto simp: elock_store_secret_87_def split: if_splits)
  have key: "\<exists>lrc pub. rc = (if fst (write_record ops f ?rec 0) \<noteq> 0 then -1 else lrc) \<and>
      publish_entry a od (od_sel sub 0x87) (take 13 (drop 1 (fst (secret_scratch ops g)))) = Some (pub, od') \<and>
      lrc = verify_out (fst (secret_scratch ops g)) (Some ?rec)
              (fold_status (snd (secret_scratch ops g)) pub (nvm_open ops g))"
    if "nvm_open ops f"
    using assms(1) that tk
    by (auto simp: elock_store_secret_87_def load_secret_eq g_def Let_def
          split: prod.splits option.splits if_splits)
  have r1: "take 13 (od' (od_sel sub 0x87)) = secret" if rc0: "rc = 0"
  proof -
    obtain lrc pub where rc: "rc = (if fst (write_record ops f ?rec 0) \<noteq> 0 then -1 else lrc)"
      and p: "publish_entry a od (od_sel sub 0x87)
        (take 13 (drop 1 (fst (secret_scratch ops g)))) = Some (pub, od')"
      and l: "lrc = verify_out (fst (secret_scratch ops g)) (Some ?rec)
              (fold_status (snd (secret_scratch ops g)) pub (nvm_open ops g))"
      using key [OF opened [OF rc0]] by blast
    have v: "verify_out (fst (secret_scratch ops g)) (Some ?rec)
              (fold_status (snd (secret_scratch ops g)) pub (nvm_open ops g)) = 0"
      using rc l rc0 by (simp split: if_splits)
    from v have s: "fst (secret_scratch ops g) = ?rec" and z: "pub = 0"
      by (simp_all add: verify_out_zero fold_status_zero)
    show ?thesis
      using publish_cases(2) [OF p] publish_cases(1) [OF p] z s assms(2) by simp
  qed
  have r2: "rc = 0 \<longleftrightarrow> fst (nvm_write_verify ops f ?rec 0) = 0 \<and>
             fst (nvm_finalize ops (snd (nvm_write_verify ops f ?rec 0))) = 0 \<and>
             found1 a \<and> wait_rc a = 0 \<and> found2 a" if laws: "record_driver ops" and op: "nvm_open ops f"
  proof -
    obtain lrc pub where rc: "rc = (if fst (write_record ops f ?rec 0) \<noteq> 0 then -1 else lrc)"
      and p: "publish_entry a od (od_sel sub 0x87)
        (take 13 (drop 1 (fst (secret_scratch ops g)))) = Some (pub, od')"
      and l: "lrc = verify_out (fst (secret_scratch ops g)) (Some ?rec)
              (fold_status (snd (secret_scratch ops g)) pub (nvm_open ops g))"
      using key [OF op] by blast
    show ?thesis
    proof (cases "fst (write_record ops f ?rec 0) = 0")
      case False
      then show ?thesis using rc by (auto simp: write_record_zero)
    next
      case True
      define f1 where "f1 = snd (nvm_write_verify ops f ?rec 0)"
      have w: "nvm_write_verify ops f ?rec 0 = (0, f1)" "nvm_finalize ops f1 = (0, g)"
        using True unfolding write_record_zero g_def f1_def
        by (simp_all add: prod_eq_iff write_record_zero(2))
      have "nvm_open ops g \<and> nvm_read ops g (0x30 + 0) (length ?rec) = (0, ?rec)"
        using laws w unfolding record_driver_def by blast
      then have r: "nvm_open ops g" "nvm_read ops g 0x30 0xe = (0, ?rec)" using assms(2) by simp_all
      have s: "fst (secret_scratch ops g) = ?rec" "snd (secret_scratch ops g) = 0"
        using r by (simp_all add: secret_scratch_bytes secret_scratch_status)
      have "lrc = 0 \<longleftrightarrow> found1 a \<and> wait_rc a = 0 \<and> found2 a"
        unfolding l verify_out_zero fold_status_zero publish_cases(1) [OF p] using s r by simp
      then show ?thesis using rc True by (simp add: write_record_zero)
    qed
  qed
  show ?thesis using r1 r2 by blast
qed

lemma demo_record_driver: "record_driver demo_ops"
  unfolding record_driver_def
proof (intro allI impI conjI)
  fix f rec :: bytes and off f1 f2
  assume "nvm_write_verify demo_ops f rec off = (0, f1)" "nvm_finalize demo_ops f1 = (0, f2)"
  then have f2: "f2 = take off f @ rec @ drop (off + length rec) f" "off + length rec \<le> length f"
    by (auto simp: demo_ops_def split: if_splits)
  show "nvm_open demo_ops f2" by (simp add: demo_ops_def)
  have "map (\<lambda>i. if off + i < length f2 then f2 ! (off + i) else 0) [0..<length rec] = rec"
    using f2 by (intro nth_equalityI) (auto simp: nth_append)
  moreover have "0x30 + off - 0x30 = off" by simp
  ultimately show "nvm_read demo_ops f2 (0x30 + off) (length rec) = (0, rec)"
    by (simp only: demo_ops_def nvm_ops.simps)
qed

theorem store_secret_published_witness:
  "\<exists>f' od'. elock_store_secret_87 demo_ops (replicate 32 0) demo_answers 5 (replicate 13 7)
           (\<lambda>_. replicate 16 0xff) = Some (0, f', od') \<and>
         take 13 (od' (od_sel 5 0x87)) = replicate 13 7"
proof -
  have "\<exists>rc f' od'. elock_store_secret_87 demo_ops f demo_answers 5 (replicate 13 7)
           (\<lambda>_. replicate 16 0xff) = Some (rc, f', od')" for f
    using demo_load_Some [of "snd (write_record demo_ops f (1 # replicate 13 7) 0)" demo_answers 5
        "Some (1 # replicate 13 7)"]
    by (auto simp: elock_store_secret_87_def Let_def split: prod.splits)
  then obtain rc f' od' where r: "elock_store_secret_87 demo_ops (replicate 32 0) demo_answers 5
      (replicate 13 7) (\<lambda>_. replicate 16 0xff) = Some (rc, f', od')" by blast
  have l: "length (replicate 13 (7 :: u8)) = 13" by simp
  have "nvm_open demo_ops (replicate 32 0)" by (simp add: demo_ops_def)
  moreover have "fst (nvm_write_verify demo_ops (replicate 32 0) (1 # replicate 13 7) 0) = 0"
    "fst (nvm_finalize demo_ops g) = 0" for g by (simp_all add: demo_ops_def)
  ultimately have "rc = 0"
    using store_secret_published [OF r l] demo_record_driver by (simp add: demo_answers_def)
  then show ?thesis using store_secret_published [OF r l] r by blast
qed

end
