(* ===== verification/LockCan.thy ===== *)
theory LockCan
  imports SpiFrame
begin

text \<open>
  The CAN signals of the electronic lock (\<open>src/elock/src/can.c\<close>): a record of the object
  dictionary is sent as one frame or as a stream of frames.  The bridge has the same two routines
  over a record of the same layout (\<open>SpiFrame\<close>); the theorem says where they agree.
\<close>

record od_record =
  rdata :: bytes
  rlength :: u32
  can_id :: u32
  rmode :: u8
  rpayload :: bytes
  rpayload_len :: u32

text \<open>The loop of \<open>can_send_multiframe\<close>: it tests before it sends.\<close>

function multiframe_loop :: "od_record \<Rightarrow> nat \<Rightarrow> nat \<Rightarrow> bytes \<Rightarrow> bytes list option" where
  "multiframe_loop rec remaining offset frame =
     (if remaining = 0 then Some []
      else
        let chunk = (if 8 \<le> remaining then 8 else remaining);
            frame = frame[4 := of_nat chunk]
        in case Option.bind (slice (rdata rec) offset chunk) (blit frame 5) of
             None \<Rightarrow> None
           | Some frame \<Rightarrow>
               map_option ((#) frame)
                 (multiframe_loop rec (remaining - chunk) (offset + chunk)
                   (frame[3 := (let seq = frame ! 3; next = frame ! 3 + 1
                                in if rmode rec = 2 then (seq AND 0xf0) OR (next AND 0x0f)
                                   else (seq AND 0xf8) OR (next AND 0x07))])))"
  by pat_completeness auto

termination
  by (relation "measure (\<lambda>(rec, remaining, offset, frame). remaining)") (auto split: if_splits)

declare multiframe_loop.simps [simp del]

definition can_send_multiframe :: "od_record \<Rightarrow> bytes \<Rightarrow> u32 \<Rightarrow> bytes list option" where
  "can_send_multiframe rec frame len =
     multiframe_loop rec (if len = 0 then 0 else unat (rlength rec)) 0 frame"

definition elock_can_send_signal :: "bool \<Rightarrow> od_record option \<Rightarrow> (int \<times> bytes list) option" where
  "elock_can_send_signal bus_null rec_opt =
     (case rec_opt of
        None \<Rightarrow> Some (-2, [])
      | Some rec \<Rightarrow>
          if bus_null then Some (-2, [])
          else
            let frame = replicate 13 0;
                frame = frame[0 := ucast (can_id rec), 1 := ucast (drop_bit 8 (can_id rec)),
                              2 := ucast (drop_bit 16 (can_id rec))]
            in if rmode rec = 1 then
                 map_option (Pair 0) (can_send_multiframe rec (frame[3 := frame ! 3 OR 0x10]) 1)
               else if rmode rec = 2 then map_option (Pair 0) (can_send_multiframe rec frame 1)
               else if rmode rec = 0 then
                 (let n = rpayload_len rec;
                      filled = (if n \<noteq> 0 then
                                  map_option (\<lambda>frame. frame[4 := ucast n])
                                    (Option.bind (slice (rpayload rec) 0 (unat n)) (blit frame 5))
                                else Some frame)
                  in map_option (\<lambda>frame. (0, [frame[3 := frame ! 3 OR 0x10]])) filled)
               else Some (-1, []))"

subsection \<open>The same record as a session of the bridge\<close>

definition as_session :: "od_record \<Rightarrow> spi_session" where
  "as_session rec =
     \<lparr>data_mem = rdata rec, total_bytes = rlength rec, session_id = can_id rec, mode = rmode rec,
      payload = rpayload rec, payload_len = rpayload_len rec\<rparr>"

lemma as_session_fields [simp]:
  "data_mem (as_session rec) = rdata rec" "total_bytes (as_session rec) = rlength rec"
  "session_id (as_session rec) = can_id rec" "mode (as_session rec) = rmode rec"
  "payload (as_session rec) = rpayload rec" "payload_len (as_session rec) = rpayload_len rec"
  by (simp_all add: as_session_def)

lemma loop_same:
  "0 < remaining \<Longrightarrow> spi_chunks (as_session rec) remaining offset frame =
     multiframe_loop rec remaining offset frame"
proof (induction rec remaining offset frame rule: multiframe_loop.induct)
  case (1 rec remaining offset frame)
  define chunk where "chunk = (if 8 \<le> remaining then 8 else remaining)"
  have chunk: "chunk = (if SPI_CHUNK_MAX < remaining then SPI_CHUNK_MAX else remaining)"
    by (simp add: chunk_def SPI_CHUNK_MAX_def)
  define filled where
    "filled = Option.bind (slice (rdata rec) offset chunk) (blit (frame[4 := of_nat chunk]) 5)"
  have ih: "filled = Some f \<Longrightarrow> 0 < remaining - chunk \<Longrightarrow>
      spi_chunks (as_session rec) (remaining - chunk) (offset + chunk) (f[3 := next_seq (rmode rec) (f ! 3)])
        = multiframe_loop rec (remaining - chunk) (offset + chunk) (f[3 := next_seq (rmode rec) (f ! 3)])"
    for f
    using 1(1) [OF _ chunk_def refl, of f] 1(2) by (simp add: filled_def next_seq_def Let_def)
  have l: "spi_chunks (as_session rec) remaining offset frame =
      (case filled of None \<Rightarrow> None
       | Some f \<Rightarrow> if remaining - chunk \<noteq> 0
           then map_option ((#) f) (spi_chunks (as_session rec) (remaining - chunk) (offset + chunk)
                  (f[3 := next_seq (rmode rec) (f ! 3)]))
           else Some [f])"
    using 1(2) by (subst spi_chunks.simps) (simp add: Let_def chunk [symmetric] filled_def split: option.split)
  have r: "multiframe_loop rec remaining offset frame =
      (case filled of None \<Rightarrow> None
       | Some f \<Rightarrow> map_option ((#) f) (multiframe_loop rec (remaining - chunk) (offset + chunk)
                  (f[3 := next_seq (rmode rec) (f ! 3)])))"
    using 1(2) by (subst multiframe_loop.simps)
      (simp add: Let_def chunk_def [symmetric] filled_def [symmetric] next_seq_def
        split: option.split)
  show ?case
  proof (cases filled)
    case None
    then show ?thesis by (simp add: l r)
  next
    case (Some f)
    have stop: "multiframe_loop rec 0 j g = Some []" for j g by (simp add: multiframe_loop.simps)
    show ?thesis
    proof (cases "remaining - chunk = 0")
      case True
      then show ?thesis using Some by (simp add: l r stop)
    next
      case False
      then show ?thesis using Some ih [OF Some] by (simp add: l r)
    qed
  qed
qed

lemma empty_chunk:
  "length frame = 13 \<Longrightarrow> spi_chunks sess 0 0 frame = Some [frame[4 := 0]]"
  by (subst spi_chunks.simps) (simp add: SPI_CHUNK_MAX_def Let_def)

lemma blit_update_before:
  assumes "i < off"
  shows "blit (buf[i := x]) off src = map_option (\<lambda>f. f[i := x]) (blit buf off src)"
proof (cases "off + length src \<le> length buf")
  case True
  then have "(take off buf @ src @ drop (off + length src) buf)[i := x] =
      take off (buf[i := x]) @ src @ drop (off + length src) (buf[i := x])"
    using assms by (simp add: list_update_append take_update_swap)
  then show ?thesis using True by (simp add: blit_def)
qed (simp add: blit_def)

definition empty_stream :: "od_record \<Rightarrow> bool" where
  "empty_stream rec \<longleftrightarrow> (rmode rec = 1 \<or> rmode rec = 2) \<and> rlength rec = 0"

lemma filled_same:
  "(Option.bind (slice pl 0 n) (blit (frame[4 := x]) 5)) =
     map_option (\<lambda>frame. frame[4 := x]) (Option.bind (slice pl 0 n) (blit frame 5))"
  by (cases "slice pl 0 n") (simp_all add: blit_update_before)

lemma multiframe_same:
  "rlength rec \<noteq> 0 \<Longrightarrow> spi_frame_write_chunked (as_session rec) frame True = can_send_multiframe rec frame 1"
  by (simp add: spi_frame_write_chunked_def can_send_multiframe_def loop_same unat_gt_0)

definition demo_record :: "u8 \<Rightarrow> u32 \<Rightarrow> od_record" where
  "demo_record m n = \<lparr>rdata = replicate 20 7, rlength = n, can_id = 0x4c1, rmode = m,
                       rpayload = [1, 2], rpayload_len = 2\<rparr>"

text \<open>
  The lock and the bridge send the same record as the same frames,
  although one loops while bytes remain and the other tests after the frame, with one exception:
  for a streamed record of length zero the lock sends nothing and the bridge sends one empty
  frame.
\<close>

theorem lock_signal_as_bridge:
  "(\<not> empty_stream rec \<longrightarrow>
      elock_can_send_signal False (Some rec) = spi_tx_frame_send False (Some (as_session rec))) \<and>
   (empty_stream rec \<longrightarrow>
      elock_can_send_signal False (Some rec) = Some (0, []) \<and>
      (\<exists>f. spi_tx_frame_send False (Some (as_session rec)) = Some (0, [f]) \<and> length f = 13 \<and> f ! 4 = 0))"
proof -
  let ?fr = "(replicate 13 (0 :: u8))[0 := ucast (can_id rec), 1 := ucast (drop_bit 8 (can_id rec)),
      2 := ucast (drop_bit 16 (can_id rec))]"
  have same: "elock_can_send_signal False (Some rec) = spi_tx_frame_send False (Some (as_session rec))"
    if "\<not> empty_stream rec"
  proof (cases "rmode rec = 1 \<or> rmode rec = 2")
    case True
    then have "rlength rec \<noteq> 0" using that by (simp add: empty_stream_def)
    from multiframe_same [OF this] True show ?thesis
      by (auto simp: elock_can_send_signal_def spi_tx_frame_send_def Let_def SPI_FRAME_LEN_def
          SPI_FRAME_FLAG_def)
  next
    case False
    then show ?thesis
      by (simp add: elock_can_send_signal_def spi_tx_frame_send_def Let_def SPI_FRAME_LEN_def
          SPI_FRAME_FLAG_def filled_same option.map_comp comp_def)
  qed
  have none: "elock_can_send_signal False (Some rec) = Some (0, [])"
    and one: "\<exists>f. spi_tx_frame_send False (Some (as_session rec)) = Some (0, [f]) \<and> length f = 13 \<and> f ! 4 = 0"
    if "empty_stream rec"
  proof -
    have m: "rmode rec = 1 \<or> rmode rec = 2" and l: "rlength rec = 0"
      using that by (simp_all add: empty_stream_def)
    have "can_send_multiframe rec f 1 = Some []" for f
      using l by (simp add: can_send_multiframe_def multiframe_loop.simps)
    then show "elock_can_send_signal False (Some rec) = Some (0, [])"
      using m by (auto simp: elock_can_send_signal_def Let_def)
    have w: "spi_frame_write_chunked (as_session rec) f True = Some [f[4 := 0]]" if "length f = 13" for f
      using l empty_chunk [OF that] by (simp add: spi_frame_write_chunked_def)
    have "\<exists>f. spi_tx_frame_send False (Some (as_session rec)) = Some (0, [f[4 := 0]]) \<and> length f = 13"
      using m
    proof
      assume "rmode rec = 1"
      then show ?thesis
        by (intro exI [of _ "?fr[3 := ?fr ! 3 OR 0x10]"])
          (simp add: spi_tx_frame_send_def Let_def SPI_FRAME_LEN_def SPI_FRAME_FLAG_def w)
    next
      assume "rmode rec = 2"
      then show ?thesis
        by (intro exI [of _ ?fr])
          (simp add: spi_tx_frame_send_def Let_def SPI_FRAME_LEN_def SPI_FRAME_FLAG_def w)
    qed
    then obtain f where "spi_tx_frame_send False (Some (as_session rec)) = Some (0, [f[4 := 0]])"
      "length f = 13" by blast
    then show "\<exists>f. spi_tx_frame_send False (Some (as_session rec)) = Some (0, [f]) \<and> length f = 13 \<and> f ! 4 = 0"
      by (intro exI [of _ "f[4 := 0]"]) simp
  qed
  from same none one show ?thesis by blast
qed

theorem lock_signal_as_bridge_witness:
  "elock_can_send_signal False (Some (demo_record 2 20)) =
     spi_tx_frame_send False (Some (as_session (demo_record 2 20))) \<and>
   elock_can_send_signal False (Some (demo_record 2 0)) = Some (0, [])"
  using lock_signal_as_bridge [of "demo_record 2 20"] lock_signal_as_bridge [of "demo_record 2 0"]
  by (simp add: empty_stream_def demo_record_def)

end
