(* ===== verification/Lock.thy ===== *)
theory Lock
  imports Prelude
begin

text \<open>
  The per-sample part of the electronic lock's task (\<open>src/elock/src/lock.c\<close>) and its
  actuator (\<open>src/elock/src/motor.c\<close>): decoding of a sample, debouncing of the lock state,
  the unlock retry with its motor, the tilt alarm, the hold-off timer and the commit of a new state
  with the arming of the anti-theft alarm.  Of the tilt filter, which is floating-point, the
  outcome of its comparison is an input; the CAN bring-up and the bus watchdog are left out.
\<close>

subsection \<open>Decoding a sample\<close>

text \<open>The bytes are those of the frame in the comms sub-context; \<open>p8\<close> indexes the lock
  context as the code does.\<close>

definition sext12 :: "u16 \<Rightarrow> u16" where
  "sext12 f =
     (if sint (push_bit 0x14 (ucast f) :: u32) < 0
      then NOT (drop_bit 4 (NOT (ucast (drop_bit 0x10 (push_bit 0x14 (ucast f) :: u32)))))
      else f)"

record sample =
  s_run :: u8
  s_x :: u16
  s_y :: u16
  s_a :: u16
  s_ang :: u16

text \<open>\<open>None\<close> is the branch that resets the bus.\<close>

definition decode_sample :: "u8 \<Rightarrow> (nat \<Rightarrow> u8) \<Rightarrow> sample option" where
  "decode_sample run p8 =
     (let fl = p8 9;
          fx = push_bit 4 (ucast (p8 6)); fy = push_bit 4 (ucast (p8 7)); fa = push_bit 4 (ucast (p8 8));
          (fx, fy, fa, ang) =
            (if run = 3 then (fx, fy, fa, 0 :: u16)
             else (fx OR ucast (drop_bit 4 (p8 10)), fy OR ucast (p8 10 AND 0xf),
                   fa OR ucast (p8 11 AND 0xf), ucast (p8 3) + push_bit 4 (ucast (fl AND 0xf0))))
      in if p8 5 = drop_bit 2 (fl AND 0xf) then None
         else Some \<lparr>s_run = ucast (drop_bit 0x1e (push_bit 0x1c (ucast fl :: u32))),
                    s_x = sext12 fx, s_y = sext12 fy, s_a = sext12 fa, s_ang = ang\<rparr>)"

subsection \<open>State\<close>

datatype lock_event =
    Broadcast2c1
  | TimerStopRetry
  | MotorEnable bool
  | PwmDuty nat
  | ArmTimeout nat
  | FrameFlush
  | HoldoffDone
  | HoldoffStop
  | Alarm7c1
  | Broadcast4c1 u8
  | NotifyBit

record lock =
  run_state :: u8
  angle :: int
  lk_cur :: u8
  lk_target :: u8
  debounce :: u32
  retry_active :: u32
  retry_left :: int
  engage_thr :: int
  unlock_thr :: int
  alarm_armed :: u8
  retrying :: u8
  unlock_retries :: int
  over_thr :: u32
  lock_commits :: int
  bcast_div :: u32
  alarm_stamp :: u32
  motor_on :: bool
  lk_events :: "lock_event list"

definition emit :: "lock_event list \<Rightarrow> lock \<Rightarrow> lock" where
  "emit es t = t\<lparr>lk_events := lk_events t @ es\<rparr>"

subsection \<open>The actuator\<close>

text \<open>The reload value of the PWM channel, from the duty, the period and the direction bit.\<close>

definition pwm_reload :: "u32 \<Rightarrow> u32 \<Rightarrow> bool \<Rightarrow> u16" where
  "pwm_reload pct period down =
     (if pct = 100 then (if down then ucast period - 1 else ucast period + 2)
      else ucast (word_of_nat (unat pct * unat period div 100) :: 64 word))"

definition elock_unlock_retry_arm :: "lock \<Rightarrow> lock" where
  "elock_unlock_retry_arm t =
     emit [PwmDuty 100, MotorEnable True, ArmTimeout 0x96]
       (t\<lparr>unlock_retries := unlock_retries t - 1, motor_on := True\<rparr>)"

subsection \<open>One sample\<close>

definition lock_debounce :: "lock \<Rightarrow> lock" where
  "lock_debounce t =
     (let prev = lk_target t
      in if angle t < engage_thr t
         then t\<lparr>debounce := (if prev = 1 then debounce t + 1 else 0), lk_target := 1\<rparr>
         else t\<lparr>debounce := (if prev = 3 then debounce t + 1 else 0), lk_target := 3\<rparr>)"

definition retry_stop :: "lock \<Rightarrow> lock" where
  "retry_stop t =
     (if retrying t = 1
      then emit [TimerStopRetry, MotorEnable False, PwmDuty 0] (t\<lparr>retrying := 0, motor_on := False\<rparr>)
      else t)"

definition lock_retry :: "lock \<Rightarrow> lock" where
  "lock_retry t =
     (if lk_cur t \<noteq> 1 \<or> retrying t = 1 then
        (if retry_active t \<noteq> 0 then
           (let rem = retry_left t - 1; t' = t\<lparr>retry_left := rem\<rparr>
            in if rem < 1 then retry_stop (t'\<lparr>retry_active := 0\<rparr>)
               else if 100 < retry_active t' then
                 (let t' = (if angle t' < unlock_thr t' then t'\<lparr>over_thr := over_thr t' + 1\<rparr> else t')
                  in if retrying t' = 0 \<and> over_thr t' \<noteq> 0
                     then elock_unlock_retry_arm (t'\<lparr>over_thr := 0, retrying := 1\<rparr>)
                     else t')
               else retry_stop t')
         else retry_stop t)
      else t)"

definition lock_holdoff :: "bool \<Rightarrow> lock \<Rightarrow> lock" where
  "lock_holdoff running t =
     (if running then
        (if lk_cur t = lk_target t then emit [FrameFlush, HoldoffDone] (t\<lparr>run_state := 1\<rparr>)
         else emit [HoldoffStop] t)
      else t)"

definition lock_alarm :: "lock \<Rightarrow> lock" where
  "lock_alarm t =
     (if lk_cur t = 1 then
        (if lock_commits t < 8 then
           (let t = t\<lparr>lock_commits := lock_commits t + 1\<rparr>
            in if lock_commits t = 8 then t\<lparr>alarm_armed := 1\<rparr> else t)
         else t)
      else t\<lparr>alarm_armed := 0, lock_commits := 0\<rparr>)"

text \<open>\<open>sent\<close> is whether the dictionary entry was found and locked for the broadcast.\<close>

definition lock_commit :: "bool \<Rightarrow> lock \<Rightarrow> lock" where
  "lock_commit sent t =
     (if 499 < debounce t then
        (let t = t\<lparr>lk_cur := lk_target t, debounce := 0\<rparr>;
             t = (if sent then emit [Broadcast4c1 (lk_cur t)] t else t)
         in emit [NotifyBit] (lock_alarm t))
      else t)"

text \<open>What one sample brings: the angle, the tick, whether the tilt filter exceeds its threshold,
  whether the hold-off timer runs, and for each of the three entries of the dictionary that a sample may
  look up whether it could be found and locked.\<close>

record lock_input =
  in_angle :: int
  in_now :: u32
  in_tilt :: bool
  in_running :: bool
  in_found_2c1 :: bool
  in_found_7c1 :: bool
  in_found_4c1 :: bool

text \<open>The live sample goes out every hundredth time.\<close>

definition lock_broadcast :: "lock_input \<Rightarrow> lock \<Rightarrow> lock" where
  "lock_broadcast i t =
     (let c = bcast_div t; t = t\<lparr>bcast_div := c + 1\<rparr>
      in if (c + 1) mod 100 = 0 \<and> in_found_2c1 i then emit [Broadcast2c1] t else t)"

definition lock_tilt :: "lock_input \<Rightarrow> lock \<Rightarrow> lock" where
  "lock_tilt i t =
     (if alarm_armed t \<noteq> 0 then
        (if 4999 < in_now i - alarm_stamp t \<and> in_tilt i
         then (emit (if in_found_7c1 i then [HoldoffStop, Alarm7c1] else [HoldoffStop]) t)
                \<lparr>alarm_stamp := in_now i\<rparr>
         else t)
      else t)"

definition lock_sample :: "lock_input \<Rightarrow> lock \<Rightarrow> lock" where
  "lock_sample i t =
     (let t = lock_broadcast i (t\<lparr>angle := in_angle i\<rparr>);
          t = lock_debounce t;
          t = lock_retry t;
          t = lock_tilt i t;
          t = lock_holdoff (in_running i) t
      in lock_commit (in_found_4c1 i) t)"

fun lock_run :: "lock_input list \<Rightarrow> lock \<Rightarrow> lock" where
  "lock_run [] t = t"
| "lock_run (i # ins) t = lock_run ins (lock_sample i t)"

subsection \<open>Decoding\<close>

lemma sign_bit12: "sint (push_bit 0x14 (ucast (f :: u16)) :: u32) < 0 \<longleftrightarrow> bit f 11"
  using bit_last_iff [of "push_bit 0x14 (ucast f) :: u32"] by (simp add: bit_simps)

lemma sext12_negative:
  "bit f 11 \<Longrightarrow> sext12 f = NOT (drop_bit 4 (NOT (ucast (drop_bit 0x10 (push_bit 0x14 (ucast f) :: u32)))))"
  by (simp add: sext12_def sign_bit12)

lemma sext12_bits:
  assumes "unat f < 4096"
  shows "sext12 f = signed_take_bit 11 f"
proof -
  have "take_bit 12 f = f"
    using assms by (simp add: word_unat_eq_iff take_bit_eq_mod unat_mod)
  then have hi: "\<not> bit f n" if "12 \<le> n" for n
    using that by (metis bit_take_bit_iff not_less)
  show ?thesis
  proof (cases "bit f 11")
    case True
    show ?thesis unfolding sext12_negative [OF True]
      by (rule bit_word_eqI) (use True hi in \<open>auto simp: bit_simps min_def le_less\<close>)
  next
    case False
    then have eq: "sext12 f = f" by (simp add: sext12_def sign_bit12)
    have none: "\<not> bit f n" if "11 \<le> n" for n
      using hi [of n] False that by (cases "n = 11") auto
    show ?thesis unfolding eq
      by (intro bit_word_eqI) (auto simp: bit_simps min_def none)
  qed
qed

lemma signed_12:
  assumes "k < 4096"
  shows "signed_take_bit 11 (int k) = (if k < 2048 then int k else int k - 4096)"
proof -
  have "odd (k div 2048) \<longleftrightarrow> 2048 \<le> k"
  proof -
    have "k div 2048 = 0 \<or> k div 2048 = 1" using assms by linarith
    then show ?thesis by (auto simp: div_eq_0_iff)
  qed
  then have "bit (int k) 11 \<longleftrightarrow> 2048 \<le> k"
    unfolding bit_of_nat_iff_bit by (simp add: bit_iff_odd)
  then show ?thesis using assms
    by (auto simp: signed_take_bit_eq_take_bit_minus take_bit_eq_mod)
qed

lemma sext12_value:
  assumes "unat f < 4096"
  shows "sint (sext12 f) = (if unat f < 2048 then int (unat f) else int (unat f) - 4096)"
proof -
  have "sint (sext12 f) = signed_take_bit 11 (int (unat f))"
    unfolding sext12_bits [OF assms]
    by (rule bit_eqI) (auto simp: bit_sint_iff bit_signed_take_bit_iff min_def bit_of_nat_iff_bit
        bit_unsigned_iff simp flip: bit_of_nat_iff_bit)
  then show ?thesis by (simp only: signed_12 [OF assms])
qed


lemma low_nibble:
  fixes c :: u8
  assumes "unat c < 16" and "4 \<le> n"
  shows "\<not> bit c n"
proof -
  have "take_bit 4 c = c"
    using assms(1) by (simp add: word_unat_eq_iff take_bit_eq_mod unat_mod)
  then show ?thesis using assms(2) by (metis bit_take_bit_iff not_less)
qed

lemma join_nibble:
  fixes b c :: u8
  assumes "unat c < 16"
  shows "unat (push_bit 4 (ucast b) OR ucast c :: u16) = 16 * unat b + unat c"
proof -
  let ?h = "push_bit 4 (ucast b) :: u16"
  have lt: "unat b * 16 < 65536" using unat_u8_less [of b] by linarith
  have h: "unat ?h = 16 * unat b"
    using mod_less [OF lt] by (simp add: push_bit_eq_mult unat_word_ariths unat_up8)
  have "?h OR ucast c = ?h + ucast c"
    by (rule disjunctive_add [symmetric]) (use low_nibble [OF assms] in \<open>auto simp: bit_simps not_le\<close>)
  moreover have "16 * unat b + unat c < 65536" using assms unat_u8_less [of b] by linarith
  ultimately show ?thesis by (simp add: unat_word_ariths h unat_up8)
qed

lemma nibble_small: "unat (c AND (0xf :: u8)) < 16" "unat (drop_bit 4 (c :: u8)) < 16"
proof -
  have "c AND 0xf = take_bit 4 c"
    by (simp add: take_bit_eq_mask mask_eq_exp_minus_1)
  then show "unat (c AND 0xf) < 16"
    by (simp add: take_bit_eq_mod unat_mod)
  show "unat (drop_bit 4 c) < 16"
    using unat_u8_less [of c] by (simp add: drop_bit_eq_div unat_div del: unat_u8_less)
qed


text \<open>Two's complement of twelve bits, and the sample a frame carries outside the halt request.\<close>

definition signed12 :: "nat \<Rightarrow> int" where
  "signed12 k = (if k < 2048 then int k else int k - 4096)"

lemma sext12_signed12:
  "unat f < 4096 \<Longrightarrow> sint (sext12 f) = signed12 (unat f)"
  by (simp add: sext12_value signed12_def)

lemma joined_12bit:
  fixes b c :: u8
  assumes "unat c < 16"
  shows "sint (sext12 (push_bit 4 (ucast b) OR ucast c)) = signed12 (16 * unat b + unat c)"
proof -
  have "16 * unat b + unat c < 4096" using assms unat_u8_less [of b] by linarith
  then show ?thesis using sext12_signed12 join_nibble [OF assms, of b] by metis
qed

text \<open>
  Outside the halt request, the three acceleration words of a sample
  that is not a bus reset are the twelve-bit two's complement numbers that the frame carries as
  a byte and a nibble: the masks and shifts of the sign extension neither lose a bit nor let the
  other nibble through.
\<close>

theorem decode_sample_signed:
  assumes "run \<noteq> 3" and "decode_sample run p8 = Some smp"
  shows "sint (s_x smp) = signed12 (16 * unat (p8 6) + unat (p8 10) div 16) \<and>
         sint (s_y smp) = signed12 (16 * unat (p8 7) + unat (p8 10 AND 0xf)) \<and>
         sint (s_a smp) = signed12 (16 * unat (p8 8) + unat (p8 11 AND 0xf))"
proof -
  have d: "unat (p8 10) div 16 = unat (drop_bit 4 (p8 10))"
    by (simp add: drop_bit_eq_div unat_div)
  from assms have "smp = \<lparr>s_run = s_run smp,
      s_x = sext12 (push_bit 4 (ucast (p8 6)) OR ucast (drop_bit 4 (p8 10))),
      s_y = sext12 (push_bit 4 (ucast (p8 7)) OR ucast (p8 10 AND 0xf)),
      s_a = sext12 (push_bit 4 (ucast (p8 8)) OR ucast (p8 11 AND 0xf)), s_ang = s_ang smp\<rparr>"
    by (auto simp: decode_sample_def Let_def split: if_splits)
  then show ?thesis
    unfolding d by (metis joined_12bit nibble_small sample.select_convs)
qed

definition demo_frame :: "nat \<Rightarrow> u8" where
  "demo_frame i = (if i = 6 then 0x80 else if i = 10 then 0x12 else if i = 5 then 9 else 0)"

theorem decode_sample_signed_witness:
  "sint (s_x (the (decode_sample 2 demo_frame))) = -2047 \<and>
   sint (s_y (the (decode_sample 2 demo_frame))) = 2"
proof -
  have d: "decode_sample 2 demo_frame \<noteq> None" by code_simp
  then obtain smp where s: "decode_sample 2 demo_frame = Some smp" by blast
  have v: "demo_frame 6 = 0x80" "demo_frame 7 = 0" "demo_frame 10 = 0x12"
    by (simp_all add: demo_frame_def)
  have "(2 :: u8) \<noteq> 3" by simp
  from decode_sample_signed [OF this s] show ?thesis
    by (simp add: s v signed12_def)
qed


subsection \<open>Well-formed lock states\<close>

text \<open>What the task keeps of its context: the lock state is one of unknown, locked and unlocked,
  the motor runs exactly during a retry, and the alarm is armed exactly after eight locked
  commits in a row.\<close>

definition lock_wf :: "lock \<Rightarrow> bool" where
  "lock_wf t \<longleftrightarrow>
     lk_cur t \<in> {0, 1, 3} \<and> lk_target t \<in> {0, 1, 3} \<and> debounce t < 500 \<and>
     retrying t \<in> {0, 1} \<and> (motor_on t \<longleftrightarrow> retrying t = 1) \<and>
     0 \<le> lock_commits t \<and> lock_commits t \<le> 8 \<and> (lk_cur t = 0 \<longrightarrow> lock_commits t = 0) \<and>
     (lk_cur t = 3 \<longrightarrow> lock_commits t = 0) \<and>
     alarm_armed t = (if lock_commits t = 8 then 1 else 0)"

definition lock_start :: "lock" where
  "lock_start = \<lparr>run_state = 2, angle = 0, lk_cur = 0, lk_target = 0, debounce = 0, retry_active = 200,
     retry_left = 5, engage_thr = 50, unlock_thr = 90, alarm_armed = 0, retrying = 0,
     unlock_retries = 3, over_thr = 0, lock_commits = 0, bcast_div = 0, alarm_stamp = 0,
     motor_on = False, lk_events = []\<rparr>"

text \<open>What each stage before the commit leaves alone.\<close>

lemma lock_emit_fields [simp]:
  "lk_cur (emit es t) = lk_cur t" "lk_target (emit es t) = lk_target t"
  "debounce (emit es t) = debounce t" "lock_commits (emit es t) = lock_commits t"
  "alarm_armed (emit es t) = alarm_armed t" "engage_thr (emit es t) = engage_thr t"
  "retrying (emit es t) = retrying t" "motor_on (emit es t) = motor_on t"
  "retry_left (emit es t) = retry_left t" "angle (emit es t) = angle t"
  by (simp_all add: emit_def)

lemma lock_broadcast_fields [simp]:
  "lk_cur (lock_broadcast i t) = lk_cur t"
  "lk_target (lock_broadcast i t) = lk_target t"
  "debounce (lock_broadcast i t) = debounce t"
  "lock_commits (lock_broadcast i t) = lock_commits t"
  "alarm_armed (lock_broadcast i t) = alarm_armed t"
  "engage_thr (lock_broadcast i t) = engage_thr t"
  "retrying (lock_broadcast i t) = retrying t"
  "motor_on (lock_broadcast i t) = motor_on t"
  "retry_left (lock_broadcast i t) = retry_left t"
  "angle (lock_broadcast i t) = angle t"
  by (simp_all add: lock_broadcast_def Let_def)

lemma lock_tilt_fields [simp]:
  "lk_cur (lock_tilt i t) = lk_cur t"
  "lk_target (lock_tilt i t) = lk_target t"
  "debounce (lock_tilt i t) = debounce t"
  "lock_commits (lock_tilt i t) = lock_commits t"
  "alarm_armed (lock_tilt i t) = alarm_armed t"
  "engage_thr (lock_tilt i t) = engage_thr t"
  "retrying (lock_tilt i t) = retrying t"
  "motor_on (lock_tilt i t) = motor_on t"
  "retry_left (lock_tilt i t) = retry_left t"
  "angle (lock_tilt i t) = angle t"
  by (simp_all add: lock_tilt_def)

lemma lock_holdoff_fields [simp]:
  "lk_cur (lock_holdoff r t) = lk_cur t"
  "lk_target (lock_holdoff r t) = lk_target t"
  "debounce (lock_holdoff r t) = debounce t"
  "lock_commits (lock_holdoff r t) = lock_commits t"
  "alarm_armed (lock_holdoff r t) = alarm_armed t"
  "engage_thr (lock_holdoff r t) = engage_thr t"
  "retrying (lock_holdoff r t) = retrying t"
  "motor_on (lock_holdoff r t) = motor_on t"
  "retry_left (lock_holdoff r t) = retry_left t"
  "angle (lock_holdoff r t) = angle t"
  by (simp_all add: lock_holdoff_def)

lemma retry_stop_fields [simp]:
  "lk_cur (retry_stop t) = lk_cur t"
  "lk_target (retry_stop t) = lk_target t"
  "debounce (retry_stop t) = debounce t"
  "lock_commits (retry_stop t) = lock_commits t"
  "alarm_armed (retry_stop t) = alarm_armed t"
  "engage_thr (retry_stop t) = engage_thr t"
  "retry_left (retry_stop t) = retry_left t"
  by (simp_all add: retry_stop_def)

lemma retry_arm_fields [simp]:
  "lk_cur (elock_unlock_retry_arm t) = lk_cur t"
  "lk_target (elock_unlock_retry_arm t) = lk_target t"
  "debounce (elock_unlock_retry_arm t) = debounce t"
  "lock_commits (elock_unlock_retry_arm t) = lock_commits t"
  "alarm_armed (elock_unlock_retry_arm t) = alarm_armed t"
  "engage_thr (elock_unlock_retry_arm t) = engage_thr t"
  "retrying (elock_unlock_retry_arm t) = retrying t"
  "retry_left (elock_unlock_retry_arm t) = retry_left t"
  by (simp_all add: elock_unlock_retry_arm_def)

lemma lock_retry_fields [simp]:
  "lk_cur (lock_retry t) = lk_cur t"
  "lk_target (lock_retry t) = lk_target t"
  "debounce (lock_retry t) = debounce t"
  "lock_commits (lock_retry t) = lock_commits t"
  "alarm_armed (lock_retry t) = alarm_armed t"
  "engage_thr (lock_retry t) = engage_thr t"
  by (simp_all add: lock_retry_def Let_def)

lemma retry_stop_motor [simp]:
  "retrying (retry_stop t) = (if retrying t = 1 then 0 else retrying t)"
  "motor_on (retry_stop t) = (if retrying t = 1 then False else motor_on t)"
  by (simp_all add: retry_stop_def)

lemma retry_arm_motor [simp]: "motor_on (elock_unlock_retry_arm t)"
  by (simp add: elock_unlock_retry_arm_def)

lemma lock_retry_motor:
  assumes "retrying t \<in> {0, 1}" "motor_on t \<longleftrightarrow> retrying t = 1"
  shows "retrying (lock_retry t) \<in> {0, 1} \<and> (motor_on (lock_retry t) \<longleftrightarrow> retrying (lock_retry t) = 1)"
  using assms unfolding lock_retry_def Let_def by (simp split: if_split) auto

lemma lock_debounce_fields [simp]:
  "lk_cur (lock_debounce t) = lk_cur t" "lock_commits (lock_debounce t) = lock_commits t"
  "alarm_armed (lock_debounce t) = alarm_armed t" "engage_thr (lock_debounce t) = engage_thr t"
  "retrying (lock_debounce t) = retrying t" "motor_on (lock_debounce t) = motor_on t"
  "retry_left (lock_debounce t) = retry_left t"
  "lk_target (lock_debounce t) = (if angle t < engage_thr t then 1 else 3)"
  "debounce (lock_debounce t) =
     (if lk_target t = (if angle t < engage_thr t then 1 else 3) then debounce t + 1 else 0)"
  by (simp_all add: lock_debounce_def Let_def)

text \<open>The stages before the commit do not touch the committed state.\<close>

definition before_commit :: "lock_input \<Rightarrow> lock \<Rightarrow> lock" where
  "before_commit i t =
     lock_holdoff (in_running i) (lock_tilt i (lock_retry (lock_debounce
       (lock_broadcast i (t\<lparr>angle := in_angle i\<rparr>)))))"

lemma lock_sample_stages: "lock_sample i t = lock_commit (in_found_4c1 i) (before_commit i t)"
  by (simp add: lock_sample_def before_commit_def Let_def)

definition side :: "int \<Rightarrow> lock_input \<Rightarrow> u8" where
  "side thr i = (if in_angle i < thr then 1 else 3)"

lemma before_commit_fields [simp]:
  "lk_cur (before_commit i t) = lk_cur t"
  "lock_commits (before_commit i t) = lock_commits t"
  "alarm_armed (before_commit i t) = alarm_armed t"
  "engage_thr (before_commit i t) = engage_thr t"
  "lk_target (before_commit i t) = side (engage_thr t) i"
  "debounce (before_commit i t) = (if lk_target t = side (engage_thr t) i then debounce t + 1 else 0)"
  by (simp_all add: before_commit_def side_def)

lemma before_commit_motor:
  assumes "retrying t \<in> {0, 1}" "motor_on t \<longleftrightarrow> retrying t = 1"
  shows "retrying (before_commit i t) \<in> {0, 1}"
    "motor_on (before_commit i t) \<longleftrightarrow> retrying (before_commit i t) = 1"
  using lock_retry_motor [of "lock_debounce (lock_broadcast i (t\<lparr>angle := in_angle i\<rparr>))"] assms
  by (simp_all add: before_commit_def)

lemma lock_alarm_fields [simp]:
  "lk_cur (lock_alarm t) = lk_cur t" "lk_target (lock_alarm t) = lk_target t"
  "debounce (lock_alarm t) = debounce t" "retrying (lock_alarm t) = retrying t"
  "motor_on (lock_alarm t) = motor_on t" "engage_thr (lock_alarm t) = engage_thr t"
  "retry_left (lock_alarm t) = retry_left t"
  by (simp_all add: lock_alarm_def Let_def)

lemma lock_commit_fields [simp]:
  "lk_cur (lock_commit b t) = (if 499 < debounce t then lk_target t else lk_cur t)"
  "lk_target (lock_commit b t) = lk_target t"
  "debounce (lock_commit b t) = (if 499 < debounce t then 0 else debounce t)"
  "retrying (lock_commit b t) = retrying t" "motor_on (lock_commit b t) = motor_on t"
  "engage_thr (lock_commit b t) = engage_thr t" "retry_left (lock_commit b t) = retry_left t"
  by (simp_all add: lock_commit_def emit_def Let_def)

lemma lock_commit_alarm:
  "lock_commits (lock_commit b t) =
     (if 499 < debounce t then
        (if lk_target t = 1 then (if lock_commits t < 8 then lock_commits t + 1 else lock_commits t) else 0)
      else lock_commits t)"
  "alarm_armed (lock_commit b t) =
     (if 499 < debounce t then
        (if lk_target t = 1 then (if lock_commits t = 7 then 1 else alarm_armed t) else 0)
      else alarm_armed t)"
  by (auto simp: lock_commit_def lock_alarm_def emit_def Let_def)

lemma side_values: "side thr i \<in> {1, 3}"
  by (simp add: side_def)

lemma lock_sample_wf:
  assumes "lock_wf t"
  shows "lock_wf (lock_sample i t)"
proof -
  let ?b = "before_commit i t"
  have b: "lk_cur ?b \<in> {0, 1, 3}" "retrying ?b \<in> {0, 1}" "motor_on ?b \<longleftrightarrow> retrying ?b = 1"
    "0 \<le> lock_commits ?b" "lock_commits ?b \<le> 8"
    "lk_cur ?b = 0 \<longrightarrow> lock_commits ?b = 0" "lk_cur ?b = 3 \<longrightarrow> lock_commits ?b = 0"
    "alarm_armed ?b = (if lock_commits ?b = 8 then 1 else 0)"
    using assms before_commit_motor [of t i] by (auto simp: lock_wf_def)
  have t: "lk_target ?b = 1 \<or> lk_target ?b = 3" by (simp add: side_def)
  have d: "debounce (lock_commit (in_found_4c1 i) ?b) < 500"
    by (simp add: not_less word_less_nat_alt word_le_nat_alt del: before_commit_fields)
  show ?thesis
    unfolding lock_sample_stages lock_wf_def
    using b t d
    by (simp add: lock_commit_alarm del: before_commit_fields)
qed

lemma lock_run_wf: "lock_wf t \<Longrightarrow> lock_wf (lock_run ins t)"
  by (induction ins arbitrary: t) (simp_all add: lock_sample_wf)


text \<open>
  C17.  Whatever samples arrive, the context of the lock task stays
  well-formed: the lock state and its target stay in their three values, the debounce counter
  below 500, the motor is on exactly during a retry, the count of locked commits between 0 and
  8, and the anti-theft alarm is armed exactly when that count has reached 8; an armed alarm
  hence means that the bike is committed as locked.
\<close>

theorem lock_well_formed:
  assumes "lock_wf t"
  shows "lock_wf (lock_run ins t) \<and>
         (alarm_armed (lock_run ins t) \<noteq> 0 \<longrightarrow> lk_cur (lock_run ins t) = 1 \<and> lock_commits (lock_run ins t) = 8)"
  using lock_run_wf [OF assms, of ins] by (auto simp: lock_wf_def split: if_splits)

theorem lock_well_formed_witness:
  "lock_wf (lock_run [\<lparr>in_angle = 10, in_now = 0, in_tilt = False, in_running = True, in_found_2c1 = True, in_found_7c1 = True, in_found_4c1 = True\<rparr>] lock_start)"
proof -
  have "lock_wf lock_start" by (simp add: lock_start_def lock_wf_def)
  from lock_well_formed [OF this] show ?thesis by blast
qed

subsection \<open>Debouncing\<close>

text \<open>How many of the last samples were on one side of the engage threshold.\<close>

definition streak :: "int \<Rightarrow> u8 \<Rightarrow> lock_input list \<Rightarrow> nat" where
  "streak thr s ins = length (takeWhile (\<lambda>i. side thr i = s) (rev ins))"

lemma streak_snoc [simp]:
  "streak thr s (ins @ [i]) = (if side thr i = s then Suc (streak thr s ins) else 0)"
  by (simp add: streak_def)

lemma lock_run_append: "lock_run (xs @ ys) t = lock_run ys (lock_run xs t)"
  by (induction xs arbitrary: t) simp_all

lemma engage_thr_run [simp]: "engage_thr (lock_run ins t) = engage_thr t"
  by (induction ins arbitrary: t) (simp_all add: lock_sample_stages)

lemma debounce_le_streak:
  assumes "lock_wf t" "debounce t = 0"
  shows "unat (debounce (lock_run ins t)) \<le> streak (engage_thr t) (lk_target (lock_run ins t)) ins"
proof (induction ins rule: rev_induct)
  case Nil
  then show ?case by (simp add: assms(2))
next
  case (snoc i ins)
  let ?t = "lock_run ins t"
  have "unat (debounce ?t + 1) \<le> Suc (unat (debounce ?t))"
    by (simp add: unat_word_ariths)
  with snoc show ?case
    by (auto simp: lock_run_append lock_sample_stages)
qed

lemma commit_streak:
  assumes "lock_wf t" "debounce t = 0"
    and "lk_cur (lock_run (ins @ [i]) t) \<noteq> lk_cur (lock_run ins t)"
  shows "500 \<le> streak (engage_thr t) (lk_cur (lock_run (ins @ [i]) t)) (ins @ [i])"
proof -
  let ?t = "lock_run ins t" and ?b = "before_commit i (lock_run ins t)"
  have c: "499 < debounce ?b"
    using assms(3) by (auto simp: lock_run_append lock_sample_stages split: if_splits)
  then have s: "lk_target ?t = side (engage_thr t) i" "499 < debounce ?t + 1"
    by (auto split: if_splits)
  have "unat (debounce ?t + 1) \<le> Suc (unat (debounce ?t))"
    by (simp add: unat_word_ariths)
  moreover have "500 \<le> unat (debounce ?t + 1)"
    using s(2) by (simp add: word_less_nat_alt)
  ultimately show ?thesis
    using debounce_le_streak [OF assms(1,2), of ins] s c
    by (simp add: lock_run_append lock_sample_stages)
qed

lemma too_short:
  assumes "lock_wf t" "debounce t = 0"
  shows "length ins < 500 \<Longrightarrow> lk_cur (lock_run ins t) = lk_cur t"
proof (induction ins rule: rev_induct)
  case (snoc i ins)
  have "streak (engage_thr t) s (ins @ [i]) \<le> length (ins @ [i])" for s
    unfolding streak_def by (metis length_rev length_takeWhile_le)
  then show ?case using commit_streak [OF assms, of ins i] snoc
    by (metis length_append_singleton Suc_lessD leD le_trans)
qed simp

text \<open>
  C8.  The committed lock state changes only at a sample that ends a streak of
  at least 500 samples which all lie on the side of the engage threshold that the new state
  stands for.
\<close>

theorem lock_debounced:
  assumes "lock_wf t" "debounce t = 0"
    and "lk_cur (lock_run (ins @ [i]) t) \<noteq> lk_cur (lock_run ins t)"
  shows "500 \<le> streak (engage_thr t) (lk_cur (lock_run (ins @ [i]) t)) (ins @ [i])"
  using assms by (rule commit_streak)

lemma settled_stays:
  assumes "lk_target t = s" "lk_cur t = s" "\<And>i. i \<in> set ins \<Longrightarrow> side (engage_thr t) i = s"
  shows "lk_cur (lock_run ins t) = s"
  using assms
proof (induction ins arbitrary: t)
  case (Cons i ins)
  then show ?case by (simp add: lock_sample_stages)
qed simp

lemma settles:
  assumes "lk_target t = s" "debounce t < 500" "500 - unat (debounce t) \<le> length ins"
    "\<And>i. i \<in> set ins \<Longrightarrow> side (engage_thr t) i = s"
  shows "lk_cur (lock_run ins t) = s"
  using assms
proof (induction ins arbitrary: t)
  case Nil
  then show ?case by (simp add: word_less_nat_alt)
next
  case (Cons i ins)
  let ?t = "lock_sample i t"
  have d: "unat (debounce t) < 500" using Cons.prems(2) by (simp add: word_less_nat_alt)
  then have n: "unat (debounce t + 1) = Suc (unat (debounce t))"
    by (subst unat_add_no_wrap) simp_all
  have s: "side (engage_thr t) i = s" and ss: "\<And>j. j \<in> set ins \<Longrightarrow> side (engage_thr ?t) j = s"
    using Cons.prems(4) by (simp_all add: lock_sample_stages)
  have tgt: "lk_target ?t = s" by (simp add: lock_sample_stages s)
  show ?case
  proof (cases "499 < debounce t + 1")
    case True
    then have "lk_cur ?t = s" using Cons.prems(1) s by (simp add: lock_sample_stages)
    then show ?thesis using settled_stays [OF tgt _ ss] by simp
  next
    case False
    then have "debounce ?t = debounce t + 1" using Cons.prems(1) s by (simp add: lock_sample_stages)
    moreover have "debounce t + 1 < 500" using False n by (simp add: word_less_nat_alt not_less)
    ultimately show ?thesis
      using Cons.IH [OF tgt _ _ ss] Cons.prems(3) n by simp
  qed
qed

text \<open>
  Whatever state the task was in, 501 samples on one side of the engage
  threshold commit that side, so the lock state always catches up with a settled mechanism.
\<close>

theorem lock_settles:
  assumes "lock_wf t" "500 < length ins" "\<forall>i \<in> set ins. side (engage_thr t) i = s"
  shows "lk_cur (lock_run ins t) = s"
proof -
  obtain i ins' where ins: "ins = i # ins'" using assms(2) by (cases ins) auto
  have "lock_wf (lock_sample i t)" by (rule lock_sample_wf [OF assms(1)])
  then have "debounce (lock_sample i t) < 500" by (simp add: lock_wf_def)
  then show ?thesis
    using assms(2,3) unfolding ins lock_run.simps
    by (intro settles) (auto simp: lock_sample_stages)
qed

definition near :: "lock_input" where
  "near = \<lparr>in_angle = 10, in_now = 0, in_tilt = False, in_running = False, in_found_2c1 = False, in_found_7c1 = False, in_found_4c1 = False\<rparr>"

theorem lock_settles_witness: "lk_cur (lock_run (replicate 501 near) lock_start) = 1"
  using lock_settles [of lock_start "replicate 501 near" 1]
  by (simp add: lock_start_def lock_wf_def side_def near_def)

theorem lock_debounced_witness:
  "500 \<le> streak 50 1 (replicate 499 near @ [near])"
proof -
  let ?t = "lock_start\<lparr>lk_target := 1\<rparr>"
  have wf: "lock_wf ?t" and d: "debounce ?t = 0" by (simp_all add: lock_start_def lock_wf_def)
  have "lk_cur (lock_run (replicate 499 near @ [near]) ?t) = 1"
    by (rule settles) (auto simp: lock_start_def side_def near_def)
  moreover have "lk_cur (lock_run (replicate 499 near) ?t) = lk_cur ?t"
    by (rule too_short [OF wf d]) simp
  moreover have "lk_cur ?t = 0" "engage_thr ?t = 50" by (simp_all add: lock_start_def)
  ultimately show ?thesis using lock_debounced [OF wf d, of "replicate 499 near" near] by simp
qed

subsection \<open>The unlock drive\<close>

text \<open>The number of samples after which the motor is on.\<close>

fun drive_samples :: "lock_input list \<Rightarrow> lock \<Rightarrow> nat" where
  "drive_samples [] t = 0"
| "drive_samples (i # ins) t =
     (if motor_on (lock_sample i t) then 1 else 0) + drive_samples ins (lock_sample i t)"

lemma lock_retry_left:
  assumes "retrying t \<in> {0, 1}" "motor_on t \<longleftrightarrow> retrying t = 1"
  shows "retry_left (lock_retry t) \<le> retry_left t \<and>
         (motor_on (lock_retry t) \<longrightarrow> retry_left (lock_retry t) = retry_left t - 1 \<and> 1 \<le> retry_left (lock_retry t))"
  using assms unfolding lock_retry_def Let_def by (simp split: if_split)

lemma lock_sample_left:
  assumes "lock_wf t"
  shows "retry_left (lock_sample i t) \<le> retry_left t"
    "motor_on (lock_sample i t) \<Longrightarrow>
       retry_left (lock_sample i t) = retry_left t - 1 \<and> 1 \<le> retry_left (lock_sample i t)"
  using lock_retry_left [of "lock_debounce (lock_broadcast i (t\<lparr>angle := in_angle i\<rparr>))"] assms
  by (simp_all add: lock_sample_stages before_commit_def lock_wf_def)

text \<open>
  The unlock drive cannot run away: over any run of samples, the number of
  samples that leave the motor on is less than the retry countdown, because every one of them
  takes one tick of it and the last tick stops the motor.
\<close>

theorem drive_bounded:
  assumes "lock_wf t"
  shows "drive_samples ins t \<le> nat (retry_left t - 1)"
  using assms
proof (induction ins arbitrary: t)
  case (Cons i ins)
  note ih = Cons.IH [OF lock_sample_wf [OF Cons.prems], of i]
  then show ?case using lock_sample_left [OF Cons.prems, of i] by auto
qed simp

theorem drive_bounded_witness:
  "drive_samples (replicate 30 near) lock_start \<le> 4"
  using drive_bounded [of lock_start "replicate 30 near"] by (simp add: lock_start_def lock_wf_def)

end
