(* ===== verification/Q16.thy ===== *)
theory Q16
  imports Prelude
begin

text \<open>
  The 16.16 fixed-point library of the user ECU (\<open>src/user_ecu/src/q16.c\<close>): multiplication
  and division on sign and magnitude, the two-phase square root, the table-driven exponential and
  the sigmoid.  A \<open>q16_t\<close> is a word read as a signed number.
\<close>

type_synonym q16 = u32

definition Q16_ONE :: q16 where "Q16_ONE = 0x10000"

text \<open>The result that marks an overflow.\<close>

definition q16_overflow :: q16 where "q16_overflow = 0x80000000"

text \<open>The sign as a mask of ones or zeros, and the magnitude by conditional negation.\<close>

definition sign_mask :: "q16 \<Rightarrow> u32" where
  "sign_mask a = (if sint a < 0 then - 1 else 0)"

definition magnitude :: "q16 \<Rightarrow> u32" where
  "magnitude a = (a XOR sign_mask a) - sign_mask a"

subsection \<open>Multiplication\<close>

definition q16_mul :: "q16 \<Rightarrow> q16 \<Rightarrow> q16" where
  "q16_mul a b =
     (let sa = sign_mask a; sb = sign_mask b;
          ma = magnitude a; mb = magnitude b;
          ah = drop_bit 16 ma; al = ma AND 0xffff;
          bh = drop_bit 16 mb; bl = mb AND 0xffff;
          mid = bl * ah + al * bh;
          lo = bl * al;
          hi = bh * ah + drop_bit 16 mid;
          mid_lo = push_bit 16 mid;
          sum = lo + mid_lo;
          hi = (if sum < lo then hi + 1 else hi)
      in if drop_bit 15 hi = 0 then
           (let hi = (if 0xffff7fff < sum then hi + 1 else hi);
                result = drop_bit 16 (sum + 0x8000) OR push_bit 16 hi
            in if - sb \<noteq> - sa then - result else result)
         else q16_overflow)"

subsection \<open>Division\<close>

text \<open>The divisor is doubled until it is not below the dividend.  Nothing in the loop bounds the
  number of turns, hence a partial function; that it returns is a lemma.\<close>

partial_function (option) normalise :: "u32 \<Rightarrow> u32 \<Rightarrow> u32 \<Rightarrow> (u32 \<times> u32) option" where
  [code]: "normalise rem dv b =
     (if dv < rem then normalise rem (push_bit 1 dv) (push_bit 1 b) else Some (dv, b))"

lemma drop_bit_less: "b \<noteq> 0 \<Longrightarrow> 0 < n \<Longrightarrow> unat (drop_bit n (b :: u32)) < unat b"
  unfolding unat_drop
  by (intro div_less_dividend one_less_power) (simp_all add: unat_gt_0)

text \<open>The digits of the quotient; the flag tells that the remainder got zero before the last one.\<close>

function quotient_digits :: "u32 \<Rightarrow> u32 \<Rightarrow> u32 \<Rightarrow> u32 \<Rightarrow> bool \<times> u32 \<times> u32" where
  "quotient_digits dv b rem quot =
     (if b = 0 then (False, rem, quot)
      else if rem = 0 then (True, rem, quot)
      else
        let (rem, quot) = (if dv \<le> rem then (rem - dv, quot OR b) else (rem, quot))
        in quotient_digits dv (drop_bit 1 b) (push_bit 1 rem) quot)"
  by pat_completeness auto

termination
  by (relation "measure (\<lambda>(dv, b, rem, quot). unat b)") (simp_all add: drop_bit_less)

definition q16_div :: "q16 \<Rightarrow> q16 \<Rightarrow> q16 option" where
  "q16_div a b =
     (if b = 0 then Some q16_overflow
      else
        let sa = sign_mask a; sb = sign_mask b; rem = magnitude a
        in case normalise rem (magnitude b) 0x10000 of
             None \<Rightarrow> None
           | Some (dv, bit1) \<Rightarrow>
               if bit1 = 0 then Some q16_overflow
               else
                 let (dv, bit1) = (if sint dv < 0 then (drop_bit 1 dv, drop_bit 1 bit1) else (dv, bit1));
                     (finished, rem, quot) = quotient_digits dv bit1 rem 0;
                     quot = (if \<not> finished \<and> dv \<le> rem then quot + 1 else quot)
                 in Some (if - sb = - sa then quot
                          else if quot = 0x80000000 then q16_overflow else - quot))"

subsection \<open>Square root\<close>

function top_digit :: "u32 \<Rightarrow> u32 \<Rightarrow> u32" where
  "top_digit v b = (if v < b then top_digit v (drop_bit 2 b) else b)"
  by pat_completeness auto

termination
  by (relation "measure (\<lambda>(v, b). unat b)") (auto intro!: drop_bit_less simp: word_less_nat_alt)

text \<open>One digit in base four, and the digits down to the last.\<close>

definition root_digit :: "u32 \<Rightarrow> u32 \<times> u32 \<Rightarrow> u32 \<times> u32" where
  "root_digit b = (\<lambda>(v, root).
     let t = b + root; root = drop_bit 1 root
     in if t \<le> v then (v - t, root + b) else (v, root))"

function root_digits :: "u32 \<Rightarrow> u32 \<times> u32 \<Rightarrow> u32 \<times> u32" where
  "root_digits b vr = (if b = 0 then vr else root_digits (drop_bit 2 b) (root_digit b vr))"
  by pat_completeness auto

termination
  by (relation "measure (\<lambda>(b, vr). unat b)") (simp_all add: drop_bit_less)

definition q16_sqrt :: "q16 \<Rightarrow> q16" where
  "q16_sqrt x =
     (let v = x;
          (v, root) = root_digits (top_digit v 0x40000000) (v, 0);
          acc = root * 0x10000;
          (v, acc) = (if v < 0x10000 then (push_bit 16 v, acc)
                      else ((v - root) * 0x10000 - 0x8000, acc + 0x8000));
          (v, acc) = root_digits 0x4000 (v, acc)
      in if acc < v then acc + 1 else acc)"

subsection \<open>Exponential and sigmoid\<close>

definition q16_exp_tab_neg :: "q16 list" where
  "q16_exp_tab_neg = [0x30001800, 0x48004800, 0x48004800, 0x48004800]"

definition q16_exp_tab_pos :: "q16 list" where
  "q16_exp_tab_pos = [0x10002800, 0x18000021, 0x48003000, 0x48004800]"

text \<open>The steps are positive, which is what makes the inner loop end.\<close>

function exp_reduce :: "nat \<Rightarrow> q16 \<Rightarrow> nat \<Rightarrow> q16 \<Rightarrow> nat \<times> q16" where
  "exp_reduce step factor mag acc =
     (if 0 < step \<and> step \<le> mag then exp_reduce step factor (mag - step) (q16_mul acc factor)
      else (mag, acc))"
  by pat_completeness auto

termination
  by (relation "measure (\<lambda>(step, factor, mag, acc). mag)") auto

declare exp_reduce.simps [simp del]

fun exp_digits :: "nat \<Rightarrow> q16 list \<Rightarrow> nat \<times> q16 \<Rightarrow> q16" where
  "exp_digits step [] (mag, acc) = acc"
| "exp_digits step (factor # tab) (mag, acc) =
     exp_digits (drop_bit 3 step) tab (exp_reduce step factor mag acc)"

definition q16_exp :: "q16 \<Rightarrow> q16" where
  "q16_exp x =
     (if 0x000a65ae < sint x then 0x7fffffff
      else if sint x < sint (0xfff4376e :: u32) then 0
      else
        let neg = sint x < 0; mag = (if neg then - sint x else sint x);
            tab = (if neg then q16_exp_tab_neg else q16_exp_tab_pos)
        in exp_digits (unat Q16_ONE) tab (nat mag, Q16_ONE))"

text \<open>The gain and the offset are the words at 0x6c and 0x70 of the object.\<close>

definition q16_sigmoid :: "q16 \<Rightarrow> q16 \<Rightarrow> q16 \<Rightarrow> q16 option" where
  "q16_sigmoid gain x0 x =
     (let t = q16_mul gain (x - x0)
      in if sint t < - 0x320000 then Some Q16_ONE
         else if 0x320000 < sint t then Some 0
         else q16_div Q16_ONE (q16_exp t + Q16_ONE))"

declare quotient_digits.simps [simp del] top_digit.simps [simp del] root_digits.simps [simp del]

subsection \<open>Sign and magnitude\<close>

lemma uint_of_int: "0 \<le> k \<Longrightarrow> k < 4294967296 \<Longrightarrow> uint (word_of_int k :: u32) = k"
  by (simp add: uint_word_of_int)

lemma magnitude_value: "int (unat (magnitude a)) = \<bar>sint a\<bar>"
proof (cases "sint a < 0")
  case True
  then have m: "magnitude a = - a"
    by (simp add: magnitude_def sign_mask_def) (simp add: minus_eq_not_plus_1)
  have "a = word_of_int (sint a)" by simp
  then have "- a = word_of_int (- sint a)" by (metis wi_hom_neg)
  moreover have "uint (word_of_int (- sint a) :: u32) = - sint a"
    by (rule uint_of_int) (use True sint_greater_eq [of a] in simp_all)
  ultimately have "uint (- a) = - sint a" by metis
  then have "int (unat (- a)) = - sint a" by simp
  then show ?thesis using True unfolding m by linarith
next
  case False
  then have m: "magnitude a = a" by (simp add: magnitude_def sign_mask_def)
  have "uint (word_of_int (sint a) :: u32) = sint a"
    by (rule uint_of_int) (use False sint_less [of a] in simp_all)
  then have "uint a = sint a" by simp
  then have "int (unat a) = sint a" by simp
  then show ?thesis using False unfolding m by linarith
qed

lemma magnitude_bound: "unat (magnitude a) \<le> 2147483648"
proof -
  have "- 2147483648 \<le> sint a" "sint a < 2147483648"
    using sint_greater_eq [of a] sint_less [of a] by simp_all
  then show ?thesis using magnitude_value [of a] by linarith
qed

lemma sign_mask_eq: "sign_mask b = sign_mask a \<longleftrightarrow> (sint a < 0 \<longleftrightarrow> sint b < 0)"
  by (simp add: sign_mask_def)

lemma unat_up: "unat (push_bit n (w :: u32)) = unat w * 2 ^ n mod 4294967296"
  unfolding unsigned_push_bit_eq by (simp add: take_bit_eq_mod push_bit_eq_mult)

lemma low16: "unat (w AND 0xffff) = unat (w :: u32) mod 65536"
proof -
  have "w AND 0xffff = take_bit 16 w"
    by (simp add: take_bit_eq_mask mask_eq_exp_minus_1)
  then show ?thesis by (simp add: take_bit_eq_mod unat_mod)
qed

lemma join16:
  assumes "unat h < 65536"
  shows "unat (drop_bit 16 l OR push_bit 16 h :: u32) = unat l div 65536 + 65536 * unat h"
proof -
  have "drop_bit 16 l OR push_bit 16 h = drop_bit 16 l + push_bit 16 h"
    by (rule disjunctive_add [symmetric]) (auto simp: bit_simps dest: bit_imp_le_length)
  moreover have "unat (push_bit 16 h) = 65536 * unat h"
    using assms by (simp add: unat_up)
  moreover have "unat (drop_bit 16 l) = unat l div 65536"
    using unat_drop [of 16 l] by simp
  moreover have "unat l div 65536 + 65536 * unat h < 4294967296"
    using assms unat_u32_less [of l] by linarith
  ultimately show ?thesis by (simp add: unat_word_ariths)
qed


subsection \<open>Multiplication\<close>

text \<open>The 64-bit product in two words, as the code builds it from four 16-bit products.\<close>

lemma add_carry:
  fixes x y w :: nat
  assumes "x < w" "y < w"
  shows "x + y = w * (if (x + y) mod w < x then 1 else 0) + (x + y) mod w"
proof (cases "x + y < w")
  case False
  then have "(x + y) mod w = x + y - w" by (simp add: mod_once_nat [OF assms])
  then show ?thesis using False assms by simp
qed simp

lemma product_halves:
  fixes A B ah al bh bl mid lo hi sum carry :: nat
  assumes ah: "ah = A div 65536" and al: "al = A mod 65536"
    and bh: "bh = B div 65536" and bl: "bl = B mod 65536"
    and mid: "mid = bl * ah + al * bh" and lo: "lo = bl * al"
    and sum: "sum = (lo + mid mod 65536 * 65536) mod 4294967296"
    and carry: "carry = (if sum < lo then 1 else 0)"
    and hi: "hi = bh * ah + mid div 65536 + carry"
    and small: "lo < 4294967296"
  shows "A * B = 4294967296 * hi + sum"
proof -
  have A: "A = 65536 * ah + al" and B: "B = 65536 * bh + bl"
    by (simp_all add: ah al bh bl)
  define q where "q = mid div 65536"
  define r where "r = mid mod 65536"
  have m: "mid = 65536 * q + r" by (simp add: q_def r_def)
  have "r * 65536 < 4294967296"
    using mod_less_divisor [of 65536 mid] unfolding r_def by linarith
  then have "lo + r * 65536 = 4294967296 * carry + sum"
    unfolding carry sum r_def [symmetric] by (rule add_carry [OF small])
  moreover have "A * B = 4294967296 * (bh * ah) + 65536 * mid + lo"
    by (simp add: A B mid lo algebra_simps)
  ultimately show ?thesis
    unfolding hi q_def [symmetric] unfolding m by (simp add: algebra_simps)
qed


definition rounded :: "nat \<Rightarrow> nat" where
  "rounded p = (p + 32768) div 65536"

definition signed_result :: "q16 \<Rightarrow> q16 \<Rightarrow> nat \<Rightarrow> q16" where
  "signed_result a b m = (if (sint a < 0) = (sint b < 0) then of_nat m else - of_nat m)"

lemma rounding_carry:
  fixes hi sum :: nat
  assumes "sum < 4294967296"
  shows "rounded (4294967296 * hi + sum) =
    (sum + 32768) mod 4294967296 div 65536 + 65536 * (if 4294934527 < sum then hi + 1 else hi)"
proof (cases "4294934527 < sum")
  case True
  then have "(sum + 32768) mod 4294967296 = sum + 32768 - 4294967296"
    using assms by (subst mod_once_nat) simp_all
  moreover have "4294967296 * hi + sum + 32768 = (hi + 1) * 65536 * 65536 + (sum + 32768 - 4294967296)"
    using True by simp
  ultimately show ?thesis using True by (simp add: rounded_def)
next
  case False
  then have "(sum + 32768) mod 4294967296 = sum + 32768" by simp
  moreover have "4294967296 * hi + sum + 32768 = hi * 65536 * 65536 + (sum + 32768)" by simp
  ultimately show ?thesis using False by (simp add: rounded_def)
qed

lemma cross_terms:
  fixes ah al bh bl :: nat
  assumes "ah \<le> 32768" "bh \<le> 32768" "al < 65536" "bl < 65536"
  shows "bl * ah + al * bh < 4294967296" "bl * al < 4294967296" "bh * ah \<le> 1073741824"
proof -
  have "bl * ah \<le> 65535 * 32768" "al * bh \<le> 65535 * 32768" "bl * al \<le> 65535 * 65535"
    "bh * ah \<le> 32768 * 32768"
    using assms by (intro mult_le_mono; simp)+
  then show "bl * ah + al * bh < 4294967296" "bl * al < 4294967296" "bh * ah \<le> 1073741824"
    by simp_all
qed

lemma half_bound:
  fixes h s :: nat
  assumes "s < 4294967296"
  shows "h < 32768 \<longleftrightarrow> 4294967296 * h + s < 140737488355328"
  using assms by (intro iffI; linarith)

lemma of_unat: "unat w = m \<Longrightarrow> w = of_nat m"
  by auto

lemma of_unat_mod: "unat (w :: u32) = m mod 4294967296 \<Longrightarrow> w = of_nat m"
  by (simp add: word_unat_eq_iff unat_of_nat)

lemma q16_mul_magnitude:
  defines "p a b \<equiv> unat (magnitude a) * unat (magnitude b)"
  shows "q16_mul a b =
    (if p a b < 2 ^ 47 then signed_result a b (rounded (p a b)) else q16_overflow)"
proof -
  define A where "A = magnitude a"
  define B where "B = magnitude b"
  define ah where "ah = drop_bit 16 A"
  define al where "al = A AND 0xffff"
  define bh where "bh = drop_bit 16 B"
  define bl where "bl = B AND 0xffff"
  define mid where "mid = bl * ah + al * bh"
  define lo where "lo = bl * al"
  define sum where "sum = lo + push_bit 16 mid"
  define hi where "hi = (if sum < lo then bh * ah + drop_bit 16 mid + 1 else bh * ah + drop_bit 16 mid)"
  define hi' where "hi' = (if 0xffff7fff < sum then hi + 1 else hi)"
  have uah: "unat ah = unat A div 65536" and ubh: "unat bh = unat B div 65536"
    using unat_drop [of 16] by (simp_all add: ah_def bh_def)
  have ual: "unat al = unat A mod 65536" and ubl: "unat bl = unat B mod 65536"
    by (simp_all add: al_def bl_def low16)
  have "unat ah \<le> 32768" "unat bh \<le> 32768"
    using magnitude_bound [of a] magnitude_bound [of b]
    unfolding uah ubh A_def B_def by linarith+
  moreover have "unat al < 65536" "unat bl < 65536" by (simp_all add: ual ubl)
  ultimately have
    b1: "unat bl * unat ah + unat al * unat bh < 4294967296" and
    b2: "unat bl * unat al < 4294967296" and
    b3: "unat bh * unat ah \<le> 1073741824"
    by (rule cross_terms)+
  have umid: "unat mid = unat bl * unat ah + unat al * unat bh"
  proof -
    have "unat (bl * ah) = unat bl * unat ah" "unat (al * bh) = unat al * unat bh"
      using b1 by (simp_all add: unat_word_ariths)
    then show ?thesis using b1 by (simp add: mid_def unat_add_no_wrap)
  qed
  have ulo: "unat lo = unat bl * unat al" using b2 by (simp add: lo_def unat_word_ariths)
  have usum: "unat sum = (unat lo + unat mid mod 65536 * 65536) mod 4294967296"
    by (simp add: sum_def unat_word_ariths unat_up mod_add_right_eq mult_mod_left)
  have udm: "unat (drop_bit 16 mid) = unat mid div 65536" using unat_drop [of 16 mid] by simp
  have lt: "sum < lo \<longleftrightarrow> unat sum < unat lo" by (simp add: word_less_nat_alt)
  have hb: "unat bh * unat ah + unat mid div 65536 + 1 < 4294967296"
    using b3 unat_u32_less [of mid] by linarith
  have uhi: "unat hi = unat bh * unat ah + unat mid div 65536 + (if unat sum < unat lo then 1 else 0)"
  proof -
    have 1: "unat (bh * ah) = unat bh * unat ah" using b3 by (simp add: unat_word_ariths)
    have 2: "unat (bh * ah + drop_bit 16 mid) = unat bh * unat ah + unat mid div 65536"
      using hb by (simp add: unat_add_no_wrap 1 udm)
    then have "unat (bh * ah + drop_bit 16 mid + 1) = unat bh * unat ah + unat mid div 65536 + 1"
      using hb by (subst unat_add_no_wrap) simp_all
    then show ?thesis using 2 by (simp add: hi_def lt)
  qed
  have prod: "unat A * unat B = 4294967296 * unat hi + unat sum"
    by (rule product_halves [OF uah ual ubh ubl umid ulo usum refl uhi]) simp
  have small: "drop_bit 15 hi = 0 \<longleftrightarrow> unat A * unat B < 2 ^ 47"
  proof -
    have "drop_bit 15 hi = 0 \<longleftrightarrow> unat (drop_bit 15 hi) = 0" by (simp add: unat_eq_zero)
    also have "\<dots> \<longleftrightarrow> unat hi < 32768" unfolding unat_drop by (simp add: div_eq_0_iff)
    also have "\<dots> \<longleftrightarrow> unat A * unat B < 2 ^ 47"
    proof -
      have "unat sum < 4294967296" by (rule unat_u32_less)
      moreover have "(2 :: nat) ^ 47 = 140737488355328" by simp
      ultimately show ?thesis unfolding prod by (simp only: half_bound)
    qed
    finally show ?thesis .
  qed
  have code: "q16_mul a b =
      (if drop_bit 15 hi = 0 then
         (let result = drop_bit 16 (sum + 0x8000) OR push_bit 16 hi'
          in if - sign_mask b \<noteq> - sign_mask a then - result else result)
       else q16_overflow)"
    unfolding q16_mul_def Let_def A_def [symmetric] B_def [symmetric]
    unfolding ah_def [symmetric] bh_def [symmetric] al_def [symmetric] bl_def [symmetric]
    unfolding mid_def [symmetric] lo_def [symmetric] unfolding sum_def [symmetric]
    unfolding hi_def [symmetric] unfolding hi'_def [symmetric] by (rule refl)
  show ?thesis
  proof (cases "unat A * unat B < 2 ^ 47")
    case True
    then have h: "unat hi < 32768" using prod by simp
    have uh: "unat hi' = (if 4294934527 < unat sum then unat hi + 1 else unat hi)"
    proof -
      have "unat (hi + 1) = unat hi + 1" using h by (subst unat_add_no_wrap) simp_all
      then show ?thesis by (simp add: hi'_def word_less_nat_alt)
    qed
    have us: "unat (sum + 0x8000) = (unat sum + 32768) mod 4294967296"
      by (simp add: unat_word_ariths)
    have "unat (drop_bit 16 (sum + 0x8000) OR push_bit 16 hi') = rounded (unat A * unat B)"
      unfolding prod rounding_carry [OF unat_u32_less] us [symmetric]
      by (subst join16) (use h in \<open>simp_all add: uh\<close>)
    then have "drop_bit 16 (sum + 0x8000) OR push_bit 16 hi' = of_nat (rounded (unat A * unat B))"
      by (rule of_unat)
    then show ?thesis using True small
      by (simp add: code p_def A_def [symmetric] B_def [symmetric] signed_result_def sign_mask_eq Let_def)
  next
    case False
    then show ?thesis using small by (simp add: code p_def A_def [symmetric] B_def [symmetric])
  qed
qed


lemma signed_result_int:
  assumes "int m = (\<bar>sint a * sint b\<bar> + k) div d" "(sint a * sint b = 0 \<Longrightarrow> m = 0)"
  shows "signed_result a b m = word_of_int (sgn (sint a * sint b) * ((\<bar>sint a * sint b\<bar> + k) div d))"
proof -
  have w: "of_nat m = (word_of_int ((\<bar>sint a * sint b\<bar> + k) div d) :: u32)"
    by (metis assms(1) of_int_of_nat_eq)
  consider "sint a * sint b = 0" | "0 < sint a * sint b" "(sint a < 0) = (sint b < 0)"
    | "sint a * sint b < 0" "(sint a < 0) \<noteq> (sint b < 0)"
    by (smt (verit) mult_neg_neg mult_nonneg_nonneg mult_neg_pos mult_pos_neg mult_eq_0_iff)
  then show ?thesis
  proof cases
    case 1
    have "m = 0" using assms(2) [OF 1] .
    then show ?thesis unfolding 1 by (simp add: signed_result_def)
  next
    case 2
    then show ?thesis by (simp add: signed_result_def w)
  next
    case 3
    then show ?thesis by (simp add: signed_result_def w)
  qed
qed

lemma magnitude_product: "int (unat (magnitude a) * unat (magnitude b)) = \<bar>sint a * sint b\<bar>"
  using magnitude_value [of a] magnitude_value [of b] by (simp add: abs_mult)

text \<open>
  C16.  The 16.16 multiplication, built from four 16-bit products with carries by
  hand, is exact: it returns the product of the two signed numbers, divided by 65536 and rounded
  to the nearest with halves away from zero, whenever the magnitude of the 64-bit product is
  below 2 to the 47, and the overflow marker exactly otherwise.
\<close>

theorem q16_mul_rounds:
  "(\<bar>sint a * sint b\<bar> < 2 ^ 47 \<longrightarrow>
      q16_mul a b = word_of_int (sgn (sint a * sint b) * ((\<bar>sint a * sint b\<bar> + 32768) div 65536))) \<and>
   (2 ^ 47 \<le> \<bar>sint a * sint b\<bar> \<longrightarrow> q16_mul a b = q16_overflow)"
proof -
  let ?p = "unat (magnitude a) * unat (magnitude b)"
  have p: "int ?p = \<bar>sint a * sint b\<bar>" by (rule magnitude_product)
  have c: "?p < 2 ^ 47 \<longleftrightarrow> \<bar>sint a * sint b\<bar> < 2 ^ 47"
    unfolding p [symmetric] by (simp flip: of_nat_mult)
  have r: "int (rounded ?p) = (\<bar>sint a * sint b\<bar> + 32768) div 65536"
    unfolding p [symmetric] rounded_def by (simp add: zdiv_int)
  have "signed_result a b (rounded ?p) =
      word_of_int (sgn (sint a * sint b) * ((\<bar>sint a * sint b\<bar> + 32768) div 65536))"
  proof (rule signed_result_int [OF r])
    assume "sint a * sint b = 0"
    then have "?p = 0" using p by linarith
    then show "rounded ?p = 0" unfolding \<open>?p = 0\<close> by (simp add: rounded_def)
  qed
  then show ?thesis using q16_mul_magnitude [of a b] c by (simp only: not_less [symmetric]) simp
qed

theorem q16_mul_rounds_witness:
  "q16_mul 0x30000 (- 0x18000) = - 0x48000 \<and> q16_mul 0x40000000 0x7fff0000 = q16_overflow"
  using q16_mul_rounds [of "0x30000" "- 0x18000"] q16_mul_rounds [of "0x40000000" "0x7fff0000"]
  by (simp add: signed_take_bit_int_eq_self)


subsection \<open>Division\<close>

text \<open>The doubled divisor still is a power of two times the divisor, and lies between the dividend
  and twice the dividend; the bit is the same power of two times \<open>2 ^ 16\<close>, as a word.\<close>

lemma normalise_returns:
  assumes "unat d * 2 ^ k = unat dv" "unat b = 2 ^ (16 + k) mod 4294967296"
    "unat rem \<le> 2147483648" "0 < unat dv" "k = 0 \<or> unat dv < 2 * unat rem" "k \<le> n" "n - k = j" "unat rem \<le> unat d * 2 ^ n"
  shows "\<exists>dv' k'. normalise rem dv b = Some (dv', of_nat (2 ^ (16 + k'))) \<and>
    unat dv' = unat d * 2 ^ k' \<and> unat rem \<le> unat dv' \<and> (k' = 0 \<or> unat dv' < 2 * unat rem)"
  using assms
proof (induction j arbitrary: k dv b)
  case 0
  then have "k = n" by simp
  then have "\<not> dv < rem" using 0 by (simp add: word_less_nat_alt not_less)
  then have "normalise rem dv b = Some (dv, b)" by (subst normalise.simps) simp
  moreover have "b = of_nat (2 ^ (16 + k))"
    using 0(2) by (rule of_unat_mod)
  ultimately show ?case using 0 \<open>k = n\<close> by (intro exI [of _ dv] exI [of _ k]) simp
next
  case (Suc j)
  show ?case
  proof (cases "dv < rem")
    case True
    then have "unat dv < unat rem" by (simp add: word_less_nat_alt)
    then have "unat (push_bit 1 dv) = 2 * unat dv"
      using Suc.prems(3) unfolding unat_up by simp
    moreover have "unat (push_bit 1 b) = 2 ^ (16 + Suc k) mod 4294967296"
      unfolding unat_up Suc.prems(2) by (simp add: power_add mod_simps)
    moreover have "normalise rem dv b = normalise rem (push_bit 1 dv) (push_bit 1 b)"
      using True by (subst normalise.simps) simp
    moreover have "unat d * 2 ^ Suc k = 2 * unat dv" using Suc.prems(1) by simp
    moreover have "Suc k \<le> n" "n - Suc k = j" using Suc.prems(6,7) by simp_all
    ultimately show ?thesis
      using Suc.prems(3,4,8) \<open>unat dv < unat rem\<close> Suc.IH [of "Suc k" "push_bit 1 dv" "push_bit 1 b"]
      by simp
  next
    case False
    then have "normalise rem dv b = Some (dv, b)" by (subst normalise.simps) simp
    moreover have "b = of_nat (2 ^ (16 + k))"
      using Suc.prems(2) by (rule of_unat_mod)
    ultimately show ?thesis using Suc.prems False
      by (intro exI [of _ dv] exI [of _ k]) (simp add: word_less_nat_alt not_less)
  qed
qed


text \<open>Setting a bit below the bits in use is an addition.\<close>

lemma or_power:
  fixes quot :: u32
  assumes "unat quot = q * 2 ^ Suc j" "q * 2 ^ Suc j + 2 ^ j < 4294967296"
  shows "unat (quot OR of_nat (2 ^ j)) = unat quot + 2 ^ j"
proof -
  have p: "unat (of_nat (2 ^ j) :: u32) = 2 ^ j"
    using assms(2) by (intro unat_u32_of_nat) linarith
  have "\<not> bit quot j"
  proof
    assume "bit quot j"
    then have "bit (unat quot) j" by (simp add: bit_unsigned_iff)
    then show False unfolding bit_iff_odd assms(1) by simp
  qed
  then have "quot + 2 ^ j = quot OR 2 ^ j"
    by (intro disjunctive_add) (auto simp: bit_simps)
  then have "quot OR of_nat (2 ^ j) = quot + of_nat (2 ^ j)" by simp
  then show ?thesis
    using assms p by (simp only:) (rule trans [OF unat_add_no_wrap], simp_all)
qed

lemma digit_step:
  fixes D rem quot :: u32
  defines "r \<equiv> if D \<le> rem then rem - D else rem"
    and "q' j \<equiv> if D \<le> rem then quot OR of_nat (2 ^ j) else quot"
  assumes D: "unat D < 2147483648" "unat rem \<le> 2 * unat D"
    and Q: "unat quot = q * 2 ^ Suc j" "q * 2 ^ Suc j + 2 ^ Suc j \<le> 4294967296"
  shows "unat (push_bit 1 r) = 2 * unat r" "unat r \<le> unat D"
    "unat (q' j) * unat D + unat r * 2 ^ j = unat quot * unat D + unat rem * 2 ^ j"
    "\<exists>p. unat (q' j) = p * 2 ^ j \<and> p * 2 ^ j + 2 ^ j \<le> 4294967296"
proof -
  have r: "unat r = (if unat D \<le> unat rem then unat rem - unat D else unat rem)"
    by (auto simp: r_def word_le_nat_alt unat_sub_no_wrap)
  show rD: "unat r \<le> unat D" using D by (auto simp: r)
  show "unat (push_bit 1 r) = 2 * unat r"
    using rD D unfolding unat_up by simp
  have "q * 2 ^ Suc j + 2 ^ j < 4294967296"
  proof -
    have "(0 :: nat) < 2 ^ j" by simp
    then show ?thesis using Q(2) unfolding power_Suc by linarith
  qed
  note o = or_power [OF Q(1) this]
  have q': "unat (q' j) = (if unat D \<le> unat rem then unat quot + 2 ^ j else unat quot)"
    using o by (simp add: q'_def word_le_nat_alt)
  show "unat (q' j) * unat D + unat r * 2 ^ j = unat quot * unat D + unat rem * 2 ^ j"
  proof (cases "unat D \<le> unat rem")
    case True
    then obtain e where "unat rem = unat D + e" by (metis le_iff_add)
    then show ?thesis by (simp add: q' r algebra_simps)
  qed (simp add: q' r)
  show "\<exists>p. unat (q' j) = p * 2 ^ j \<and> p * 2 ^ j + 2 ^ j \<le> 4294967296"
    using Q by (intro exI [of _ "if unat D \<le> unat rem then 2 * q + 1 else 2 * q"])
      (simp add: q' algebra_simps)
qed

lemma next_bit: "drop_bit 1 (of_nat (2 ^ Suc j) :: u32) = of_nat (2 ^ j)" if "j < 31"
proof -
  have "(2 :: nat) ^ Suc j \<le> 2 ^ 31" using that by (intro power_increasing) simp_all
  then have "unat (of_nat (2 ^ Suc j) :: u32) = 2 ^ Suc j" and u: "unat (of_nat (2 ^ j) :: u32) = 2 ^ j"
    by (intro unat_u32_of_nat; simp)+
  then have "unat (drop_bit 1 (of_nat (2 ^ Suc j) :: u32)) = 2 ^ j"
    unfolding unat_drop by simp
  then show ?thesis unfolding word_unat_eq_iff u .
qed

lemma power_nonzero: "(of_nat (2 ^ j) :: u32) \<noteq> 0" if "j < 32"
proof -
  have "(2 :: nat) ^ j \<le> 2 ^ 31" using that by (intro power_increasing) simp_all
  then have "unat (of_nat (2 ^ j) :: u32) = 2 ^ j" by (intro unat_u32_of_nat) simp
  then show ?thesis by (metis unat_0 power_not_zero zero_neq_numeral)
qed

lemma digits_unfold:
  assumes "j < 32" "rem \<noteq> 0"
  shows "quotient_digits D (of_nat (2 ^ j)) rem quot =
    quotient_digits D (drop_bit 1 (of_nat (2 ^ j)))
      (push_bit 1 (if D \<le> rem then rem - D else rem)) (if D \<le> rem then quot OR of_nat (2 ^ j) else quot)"
  using power_nonzero [OF assms(1)] assms(2)
  by (subst quotient_digits.simps) (simp add: Let_def del: of_nat_power of_nat_numeral)

lemma digits_value:
  assumes "unat D < 2147483648" "unat rem \<le> 2 * unat D" "j < 32"
    "unat quot = q * 2 ^ Suc j" "q * 2 ^ Suc j + 2 ^ Suc j \<le> 4294967296"
    "quotient_digits D (of_nat (2 ^ j)) rem quot = (fin, rem', quot')"
  shows "(fin \<longrightarrow> unat quot' * unat D = unat quot * unat D + unat rem * 2 ^ j) \<and>
    (\<not> fin \<longrightarrow> 2 * (unat quot' * unat D) + unat rem' = 2 * (unat quot * unat D + unat rem * 2 ^ j) \<and>
       unat rem' \<le> 2 * unat D)"
  using assms
proof (induction j arbitrary: rem quot q)
  case 0
  define r where "r = (if D \<le> rem then rem - D else rem)"
  define p where "p = (if D \<le> rem then quot OR of_nat (2 ^ 0) else quot)"
  show ?case
  proof (cases "rem = 0")
    case True
    then have "quotient_digits D (of_nat (2 ^ 0)) rem quot = (True, rem, quot)"
      by (subst quotient_digits.simps) simp
    then show ?thesis using 0 True by simp
  next
    case False
    note step = digit_step [OF 0(1,2,4,5), folded r_def, folded p_def]
    have "quotient_digits D (of_nat (2 ^ 0)) rem quot = (False, push_bit 1 r, p)"
      using digits_unfold [OF 0(3) False, of D quot, folded r_def p_def]
      by (simp add: quotient_digits.simps [of D 0])
    then show ?thesis using step 0 by simp
  qed
next
  case (Suc j)
  let ?b = "of_nat (2 ^ Suc j) :: u32"
  define r where "r = (if D \<le> rem then rem - D else rem)"
  define p where "p = (if D \<le> rem then quot OR ?b else quot)"
  show ?case
  proof (cases "rem = 0")
    case True
    then have "quotient_digits D ?b rem quot = (True, rem, quot)"
      using power_nonzero [OF Suc.prems(3)]
      by (subst quotient_digits.simps) (simp del: of_nat_power of_nat_numeral power_Suc)
    then show ?thesis using Suc.prems(6) True by simp
  next
    case False
    note step = digit_step [OF Suc.prems(1,2,4,5), folded r_def, folded p_def]
    have "j < 31" using Suc.prems(3) by simp
    have run: "quotient_digits D (of_nat (2 ^ j)) (push_bit 1 r) p = (fin, rem', quot')"
      using Suc.prems(6)
      unfolding digits_unfold [OF Suc.prems(3) False, of D quot, folded r_def p_def] next_bit [OF \<open>j < 31\<close>] .
    obtain p' where p': "unat p = p' * 2 ^ Suc j" "p' * 2 ^ Suc j + 2 ^ Suc j \<le> 4294967296"
      using step(4) by blast
    have "unat (push_bit 1 r) * 2 ^ j = unat r * 2 ^ Suc j" using step(1) by simp
    moreover have "unat (push_bit 1 r) \<le> 2 * unat D" using step(1,2) by simp
    ultimately show ?thesis
      using Suc.IH [OF Suc.prems(1) _ _ p' run] \<open>j < 31\<close> step(3) by simp
  qed
qed


text \<open>The last comparison rounds the quotient half up.\<close>

definition rounded_quotient :: "nat \<Rightarrow> nat \<Rightarrow> nat" where
  "rounded_quotient n d = (2 * n + d) div (2 * d)"

lemma rounded_quotient_scale: "0 < c \<Longrightarrow> rounded_quotient (c * n) (c * d) = rounded_quotient n d"
proof -
  assume c: "0 < c"
  have "2 * (c * n) + c * d = c * (2 * n + d)" "2 * (c * d) = c * (2 * d)"
    by (simp_all add: algebra_simps)
  then show ?thesis using c by (simp add: rounded_quotient_def)
qed

lemma last_digit:
  fixes q r d n :: nat
  assumes "0 < d" "2 * (q * d) + r = 2 * n" "r \<le> 2 * d"
  shows "rounded_quotient n d = (if d \<le> r then q + 1 else q)"
proof -
  have e: "2 * n + d = q * (2 * d) + (r + d)" using assms(2) by simp
  show ?thesis
  proof (cases "d \<le> r")
    case True
    then obtain s where s: "r = d + s" "s < 2 * d" using assms(1,3) by (metis le_iff_add add_le_cancel_left mult_2 le_less_trans less_add_same_cancel1)
    then have "2 * n + d = (q + 1) * (2 * d) + s" using e by simp
    moreover have "((q + 1) * (2 * d) + s) div (2 * d) = q + 1"
      using s(2) assms(1) by (subst div_mult_self3) simp_all
    ultimately show ?thesis using True by (simp only: rounded_quotient_def) simp
  next
    case False
    then show ?thesis using assms(1) by (simp add: rounded_quotient_def e)
  qed
qed

lemma quotient_rounded:
  assumes "0 < unat D" "unat D < 2147483648" "unat rem \<le> 2 * unat D" "j < 32"
    "quotient_digits D (of_nat (2 ^ j)) rem 0 = (fin, rem', quot')"
    "rounded_quotient (unat rem * 2 ^ j) (unat D) < 4294967296"
  shows "unat (if \<not> fin \<and> D \<le> rem' then quot' + 1 else quot') =
    rounded_quotient (unat rem * 2 ^ j) (unat D)"
proof -
  have "(2 :: nat) ^ Suc j \<le> 2 ^ 32" using assms(4) by (intro power_increasing) simp_all
  then have v: "(fin \<longrightarrow> unat quot' * unat D = unat rem * 2 ^ j) \<and>
    (\<not> fin \<longrightarrow> 2 * (unat quot' * unat D) + unat rem' = 2 * (unat rem * 2 ^ j) \<and> unat rem' \<le> 2 * unat D)"
    using digits_value [OF assms(2,3,4) _ _ assms(5), of 0] by simp
  show ?thesis
  proof (cases fin)
    case True
    then have "rounded_quotient (unat rem * 2 ^ j) (unat D) = rounded_quotient (unat D * unat quot') (unat D * 1)"
      using v by (simp add: mult.commute)
    also have "\<dots> = unat quot'"
      unfolding rounded_quotient_scale [OF assms(1)] by (simp add: rounded_quotient_def)
    finally show ?thesis using True by simp
  next
    case False
    then have r: "rounded_quotient (unat rem * 2 ^ j) (unat D) =
        (if unat D \<le> unat rem' then unat quot' + 1 else unat quot')"
      using last_digit [OF assms(1), of "unat quot'" "unat rem'" "unat rem * 2 ^ j"] v by blast
    show ?thesis
    proof (cases "unat D \<le> unat rem'")
      case True
      then have "unat quot' + 1 < 4294967296" using r assms(6) by simp
      then have "unat (quot' + 1) = unat quot' + 1" by (subst unat_add_no_wrap) simp_all
      then show ?thesis using True False r by (simp add: word_le_nat_alt)
    next
      case small: False
      then show ?thesis using False r by (simp add: word_le_nat_alt)
    qed
  qed
qed

lemma sign_bit: "sint (w :: u32) < 0 \<longleftrightarrow> 2147483648 \<le> unat w"
proof -
  have "sint w < 0 \<longleftrightarrow> bit w 31" using bit_last_iff [of w] by simp
  also have "\<dots> \<longleftrightarrow> odd (unat w div 2147483648)"
  proof -
    have "bit w 31 \<longleftrightarrow> bit (unat w) 31" by (simp add: bit_unsigned_iff)
    then show ?thesis by (simp only: bit_iff_odd [of "unat w"]) simp
  qed
  also have "\<dots> \<longleftrightarrow> 2147483648 \<le> unat w"
  proof -
    have "unat w div 2147483648 = 0 \<or> unat w div 2147483648 = 1"
      using unat_u32_less [of w] by linarith
    then show ?thesis by (auto simp: div_eq_0_iff)
  qed
  finally show ?thesis .
qed

text \<open>The scaled divisor and the first bit, after the divisor is halved when its top bit is set.\<close>

lemma scaled_divisor:
  fixes dv :: u32
  assumes "unat dv = d * 2 ^ k" "n \<le> unat dv" "k \<le> 15" "0 < d" "d \<le> 2147483648"
  obtains D j where
    "(if sint dv < 0 then (drop_bit 1 dv, drop_bit 1 (of_nat (2 ^ (16 + k)))) else (dv, of_nat (2 ^ (16 + k))))
       = (D, of_nat (2 ^ j) :: u32)"
    "0 < unat D" "unat D < 2147483648" "n \<le> 2 * unat D" "j < 32"
    "rounded_quotient (n * 2 ^ j) (unat D) = rounded_quotient (n * 65536) d"
proof (cases "sint dv < 0")
  case True
  then have big: "2147483648 \<le> unat dv" unfolding sign_bit .
  have "even (unat dv)"
  proof (cases k)
    case 0
    then have "unat dv = 2147483648" using assms(1,5) big by simp
    then show ?thesis by (simp only:) simp
  qed (simp add: assms(1))
  then have half: "2 * unat (drop_bit 1 dv) = unat dv" unfolding unat_drop by simp
  have bit: "drop_bit 1 (of_nat (2 ^ (16 + k)) :: u32) = of_nat (2 ^ (15 + k))"
    using next_bit [of "15 + k"] assms(3) by simp
  have "rounded_quotient (n * 2 ^ (15 + k)) (unat (drop_bit 1 dv)) =
      rounded_quotient (2 * (n * 2 ^ (15 + k))) (2 * unat (drop_bit 1 dv))"
    by (rule rounded_quotient_scale [symmetric]) simp
  also have "\<dots> = rounded_quotient (2 ^ k * (n * 65536)) (2 ^ k * d)"
    unfolding half assms(1) by (simp add: power_add algebra_simps)
  finally have rq: "rounded_quotient (n * 2 ^ (15 + k)) (unat (drop_bit 1 dv)) =
      rounded_quotient (n * 65536) d"
    by (simp add: rounded_quotient_scale)
  have "unat dv < 4294967296" by (rule unat_u32_less)
  then have "unat (drop_bit 1 dv) < 2147483648" using half by linarith
  then show ?thesis
    using True half big assms(2,3) rq bit
    by (intro that [of "drop_bit 1 dv" "15 + k"]) (simp_all del: of_nat_power)
next
  case False
  then have small: "unat dv < 2147483648" by (simp only: sign_bit not_le)
  have "rounded_quotient (n * 2 ^ (16 + k)) (unat dv) = rounded_quotient (2 ^ k * (n * 65536)) (2 ^ k * d)"
    unfolding assms(1) by (simp add: power_add algebra_simps)
  then have "rounded_quotient (n * 2 ^ (16 + k)) (unat dv) = rounded_quotient (n * 65536) d"
    by (simp add: rounded_quotient_scale)
  then show ?thesis
    using False small assms
    by (intro that [of dv "16 + k"]) (simp_all del: of_nat_power)
qed

lemma quotient_bound:
  assumes "n \<le> d * 32768" "0 < d"
  shows "rounded_quotient (n * 65536) d < 4294967296"
proof -
  have "2 * (n * 65536) + d \<le> 2147483648 * (2 * d) + d" using assms(1) by simp
  also have "\<dots> < 4294967296 * (2 * d)" using assms(2) by simp
  finally show ?thesis by (simp add: rounded_quotient_def less_mult_imp_div_less)
qed

lemma q16_div_magnitude:
  assumes "b \<noteq> 0" and n_def: "n = unat (magnitude a)" and d_def: "d = unat (magnitude b)"
  shows "q16_div a b =
    Some (if n \<le> d * 32768 then signed_result a b (rounded_quotient (n * 65536) d) else q16_overflow)"
proof -
  have n: "n \<le> 2147483648" by (simp add: n_def magnitude_bound)
  have "b = word_of_int (sint b)" by simp
  then have "sint b \<noteq> 0" using assms(1) by (metis word_of_int_0)
  then have d: "0 < d" "d \<le> 2147483648"
    using magnitude_value [of b] magnitude_bound [of b] unfolding d_def by linarith+
  have "n \<le> d * 2 ^ 32" using n d by simp
  then have "\<exists>dv k. normalise (magnitude a) (magnitude b) 0x10000 = Some (dv, of_nat (2 ^ (16 + k))) \<and>
      unat dv = unat (magnitude b) * 2 ^ k \<and> unat (magnitude a) \<le> unat dv \<and>
      (k = 0 \<or> unat dv < 2 * unat (magnitude a))"
    by (intro normalise_returns [where k = 0 and n = 32 and j = 32])
      (use n d in \<open>simp_all add: n_def d_def\<close>)
  then obtain dv k where norm: "normalise (magnitude a) (magnitude b) 0x10000 = Some (dv, of_nat (2 ^ (16 + k)))"
    and dv: "unat dv = d * 2 ^ k" "n \<le> unat dv" "k = 0 \<or> unat dv < 2 * n"
    unfolding n_def [symmetric] d_def [symmetric] by blast
  show ?thesis
  proof (cases "k \<le> 15")
    case False
    have "(2 :: nat) ^ 16 \<le> 2 ^ k" using False by (intro power_increasing) simp_all
    then have "65536 \<le> (2 :: nat) ^ k" by simp
    then have "d * 65536 \<le> d * 2 ^ k" by (rule mult_le_mono2)
    then have "\<not> n \<le> d * 32768" using dv(1,3) False by linarith
    moreover have "of_nat (2 ^ (16 + k)) = (0 :: u32)"
    proof -
      obtain m where "k = 16 + m" using False le_Suc_ex [of 16 k] by auto
      then have "unat (0 :: u32) = 2 ^ (16 + k) mod 4294967296" by (simp add: power_add)
      from of_unat_mod [OF this] show ?thesis by (rule sym)
    qed
    ultimately show ?thesis using assms(1) norm by (simp add: q16_div_def del: of_nat_power)
  next
    case True
    have "(2 :: nat) ^ k \<le> 2 ^ 15" using True by (intro power_increasing) simp_all
    then have "2 ^ k \<le> (32768 :: nat)" by simp
    then have "d * 2 ^ k \<le> d * 32768" by (rule mult_le_mono2)
    then have le: "n \<le> d * 32768" using dv(1,2) by linarith
    let ?b = "of_nat (2 ^ (16 + k)) :: u32"
    have nz: "?b \<noteq> 0" using power_nonzero [of "16 + k"] True by simp
    obtain D j where sel: "(if sint dv < 0 then (drop_bit 1 dv, drop_bit 1 ?b) else (dv, ?b)) = (D, of_nat (2 ^ j))"
      and D: "0 < unat D" "unat D < 2147483648" "n \<le> 2 * unat D" "j < 32"
        "rounded_quotient (n * 2 ^ j) (unat D) = rounded_quotient (n * 65536) d"
      using scaled_divisor [OF dv(1,2) True d] by blast
    obtain fin rem' quot' where dig:
      "quotient_digits D (of_nat (2 ^ j)) (magnitude a) 0 = (fin, rem', quot')"
      by (metis prod_cases3)
    define quot where "quot = (if \<not> fin \<and> D \<le> rem' then quot' + 1 else quot')"
    have "unat quot = rounded_quotient (n * 65536) d"
      using quotient_rounded [OF D(1,2) _ D(4) dig] D(3,5) quotient_bound [OF le d(1)]
      unfolding quot_def n_def by simp
    then have q: "quot = of_nat (rounded_quotient (n * 65536) d)" by (rule of_unat)
    have "q16_div a b = Some (if - sign_mask b = - sign_mask a then quot
         else if quot = 0x80000000 then q16_overflow else - quot)"
      using assms(1) nz
      by (simp only: q16_div_def Let_def norm option.case prod.case if_False sel dig quot_def [symmetric])
    moreover have "- (0x80000000 :: u32) = 0x80000000" by simp
    ultimately show ?thesis using le
      by (auto simp: signed_result_def sign_mask_eq q q16_overflow_def)
  qed
qed


text \<open>
  C15.  The 16.16 division always returns, although nothing in its normalisation
  loop bounds the turns, and it returns the quotient rounded to the nearest with halves away
  from zero whenever the divisor is not zero and the quotient does not exceed 2 to the 31 in
  magnitude; it returns the overflow marker exactly in the other cases.
\<close>

theorem q16_div_rounds:
  "(sint b \<noteq> 0 \<and> \<bar>sint a\<bar> \<le> \<bar>sint b\<bar> * 32768 \<longrightarrow>
      q16_div a b = Some (word_of_int (sgn (sint a * sint b) *
        ((2 * (\<bar>sint a\<bar> * 65536) + \<bar>sint b\<bar>) div (2 * \<bar>sint b\<bar>))))) \<and>
   (sint b = 0 \<or> \<bar>sint b\<bar> * 32768 < \<bar>sint a\<bar> \<longrightarrow> q16_div a b = Some q16_overflow)"
proof (cases "b = 0")
  case True
  then show ?thesis by (simp add: q16_div_def)
next
  case False
  let ?n = "unat (magnitude a)" and ?d = "unat (magnitude b)"
  have "b = word_of_int (sint b)" by simp
  then have nz: "sint b \<noteq> 0" using False by (metis word_of_int_0)
  have n: "int ?n = \<bar>sint a\<bar>" and d: "int ?d = \<bar>sint b\<bar>" by (rule magnitude_value)+
  have c: "?n \<le> ?d * 32768 \<longleftrightarrow> \<bar>sint a\<bar> \<le> \<bar>sint b\<bar> * 32768"
    unfolding n [symmetric] d [symmetric] by linarith
  have q: "int (rounded_quotient (?n * 65536) ?d) =
      (2 * (\<bar>sint a\<bar> * 65536) + \<bar>sint b\<bar>) div (2 * \<bar>sint b\<bar>)"
    unfolding n [symmetric] d [symmetric] rounded_quotient_def by (simp add: zdiv_int)
  have "signed_result a b (rounded_quotient (?n * 65536) ?d) = word_of_int (sgn (sint a * sint b) *
        ((2 * (\<bar>sint a\<bar> * 65536) + \<bar>sint b\<bar>) div (2 * \<bar>sint b\<bar>)))"
  proof (cases "sint a = 0")
    case True
    then have "?n = 0" using n by linarith
    then have "rounded_quotient (?n * 65536) ?d = 0"
      using nz d by (simp add: rounded_quotient_def)
    then show ?thesis using True by (simp add: signed_result_def)
  next
    case False
    have w: "of_nat (rounded_quotient (?n * 65536) ?d) =
        (word_of_int ((2 * (\<bar>sint a\<bar> * 65536) + \<bar>sint b\<bar>) div (2 * \<bar>sint b\<bar>)) :: u32)"
      by (metis q of_int_of_nat_eq)
    show ?thesis
    proof (cases "(sint a < 0) = (sint b < 0)")
      case True
      then have "sgn (sint a * sint b) = 1" using False nz by (auto simp: sgn_if zero_less_mult_iff mult_less_0_iff)
      then show ?thesis using True by (simp add: signed_result_def w)
    next
      case opp: False
      then have "sgn (sint a * sint b) = - 1" using False nz by (auto simp: sgn_if zero_less_mult_iff mult_less_0_iff)
      then show ?thesis using opp by (simp add: signed_result_def w)
    qed
  qed
  then show ?thesis
    using q16_div_magnitude [OF False refl refl, of a] c nz by (simp only: not_le [symmetric]) simp
qed

theorem q16_div_rounds_witness:
  "q16_div 0x10000 0x30000 = Some 0x5555 \<and> q16_div (- 0x20000) 0x30000 = Some (- 0xaaab) \<and>
   q16_div 0x30000 1 = Some q16_overflow"
  using q16_div_rounds [where a = "0x10000" and b = "0x30000"]
    q16_div_rounds [where a = "- 0x20000" and b = "0x30000"]
    q16_div_rounds [where a = "0x30000" and b = 1]
  by (simp add: signed_take_bit_int_eq_self)

lemma q16_div_returns: "q16_div a b \<noteq> None"
proof (cases "b = 0")
  case True
  then show ?thesis by (simp add: q16_div_def)
next
  case False
  then show ?thesis using q16_div_magnitude [OF False refl refl, of a] by simp
qed

text \<open>The sigmoid always returns, and saturates outside fifty units.\<close>

lemma q16_sigmoid_saturates:
  "q16_sigmoid gain x0 x \<noteq> None \<and>
   (sint (q16_mul gain (x - x0)) < - 0x320000 \<longrightarrow> q16_sigmoid gain x0 x = Some Q16_ONE) \<and>
   (0x320000 < sint (q16_mul gain (x - x0)) \<longrightarrow> q16_sigmoid gain x0 x = Some 0)"
  using q16_div_returns [of Q16_ONE] by (simp add: q16_sigmoid_def Let_def)

subsection \<open>Square root\<close>

text \<open>The remainder is what the square of the root found so far leaves of the radicand; the second
  word is the root times twice the weight of the digit.\<close>

lemma root_digit_value:
  fixes R w :: nat
  assumes "unat b = w * w" "unat root = 2 * R * w" "unat v + R * R = n"
    "n < (R + 2 * w) * (R + 2 * w)" "w * (2 * R + 2 * w) \<le> 4294967296" "0 < w"
    "root_digit b (v, root) = (v', root')"
  shows "\<exists>R'. unat root' = R' * w \<and> unat v' + R' * R' = n \<and> n < (R' + w) * (R' + w) \<and>
    R' * w + w * w \<le> 4294967296 \<and> w * (R' + w) \<le> w * (R + 2 * w)"
proof -
  have sq: "(R + w) * (R + w) = R * R + 2 * R * w + w * w" by (simp add: algebra_simps)
  have "0 < w * w" using assms(6) by simp
  moreover have "w * (2 * R + 2 * w) = 2 * R * w + 2 * (w * w)" by (simp add: algebra_simps)
  ultimately have fits: "w * w + 2 * R * w < 4294967296" using assms(5) by linarith
  then have t: "unat (b + root) = w * w + 2 * R * w"
    using assms(1,2) by (subst unat_add_no_wrap) simp_all
  have h: "unat (drop_bit 1 root) = R * w" unfolding unat_drop assms(2) by simp
  note h' = h [unfolded One_nat_def]
  show ?thesis
  proof (cases "b + root \<le> v")
    case True
    then have r: "v' = v - (b + root)" "root' = drop_bit 1 root + b"
      using assms(7) by (auto simp: root_digit_def Let_def)
    have le: "w * w + 2 * R * w \<le> unat v" using True by (simp add: word_le_nat_alt t)
    have v': "unat v' = unat v - (w * w + 2 * R * w)"
      using True by (simp add: r unat_sub_no_wrap word_le_nat_alt t)
    have "R * w + w * w < 4294967296" using fits by simp
    then have root': "unat root' = (R + w) * w"
      unfolding r by (subst unat_add_no_wrap) (simp_all add: h' assms(1) algebra_simps)
    show ?thesis
      using assms(3,4,5) le v' root' sq
      by (intro exI [of _ "R + w"]) (simp add: algebra_simps)
  next
    case False
    then have r: "v' = v" "root' = drop_bit 1 root"
      using assms(7) by (auto simp: root_digit_def Let_def)
    have "unat v < w * w + 2 * R * w" using False by (simp add: not_le word_less_nat_alt t)
    then show ?thesis
      using assms(3,5) sq by (intro exI [of _ R]) (simp add: r h' algebra_simps)
  qed
qed

lemma four_power: "(4 :: nat) ^ i = 2 ^ i * 2 ^ i"
  by (simp flip: power_mult_distrib)

lemma root_digits_value:
  assumes "unat b = 4 ^ j" "unat root = 2 * R * 2 ^ j" "unat v + R * R = n"
    "n < (R + 2 * 2 ^ j) * (R + 2 * 2 ^ j)" "2 ^ j * (2 * R + 2 * 2 ^ j) \<le> 4294967296"
    "root_digits b (v, root) = (v', root')"
  shows "unat v' + unat root' * unat root' = n \<and> n < (unat root' + 1) * (unat root' + 1)"
  using assms
proof (induction j arbitrary: b v root R)
  case 0
  obtain v1 root1 where d: "root_digit b (v, root) = (v1, root1)" by (cases "root_digit b (v, root)")
  have b: "b \<noteq> 0" "drop_bit 2 b = 0"
    using 0(1) unat_drop [of 2 b] by (auto simp: unat_eq_zero)
  then have e: "(v', root') = (v1, root1)"
    using 0(6) by (simp add: root_digits.simps [of b] root_digits.simps [of 0] d)
  show ?case using root_digit_value [of b 1 root R v n v1 root1] 0 d e by auto
next
  case (Suc j)
  obtain v1 root1 where d: "root_digit b (v, root) = (v1, root1)" by (cases "root_digit b (v, root)")
  have "b \<noteq> 0" using Suc.prems(1) by (auto simp: unat_eq_zero)
  then have run: "root_digits (drop_bit 2 b) (v1, root1) = (v', root')"
    using Suc.prems(6) by (simp add: root_digits.simps [of b] d)
  have b': "unat (drop_bit 2 b) = 4 ^ j" unfolding unat_drop Suc.prems(1) by simp
  have sq: "(4 :: nat) ^ Suc j = 2 ^ Suc j * 2 ^ Suc j" by (simp flip: power_mult_distrib)
  obtain R' where R': "unat root1 = R' * 2 ^ Suc j" "unat v1 + R' * R' = n"
    "n < (R' + 2 ^ Suc j) * (R' + 2 ^ Suc j)" "2 ^ Suc j * (R' + 2 ^ Suc j) \<le> 2 ^ Suc j * (R + 2 * 2 ^ Suc j)"
    using root_digit_value [OF _ Suc.prems(2-5) _ d] Suc.prems(1) sq by auto
  have "2 ^ j * (2 * R' + 2 * 2 ^ j) \<le> 4294967296"
  proof -
    have "2 ^ j * (2 * R' + 2 * 2 ^ j) \<le> 2 ^ Suc j * (R' + 2 ^ Suc j)" by (simp add: algebra_simps)
    also have "\<dots> \<le> 2 ^ Suc j * (R + 2 * 2 ^ Suc j)" by (rule R'(4))
    also have "\<dots> \<le> 2 ^ Suc j * (2 * R + 2 * 2 ^ Suc j)" by simp
    finally show ?thesis using Suc.prems(5) by (rule le_trans)
  qed
  then show ?case
    using Suc.IH [OF b' _ R'(2) _ _ run] R'(1,3) by simp
qed


text \<open>The first digit is the largest power of four that does not exceed the radicand.\<close>

lemma top_digit_value:
  assumes "unat b = 4 ^ j" "unat v < 4 * 4 ^ j"
  shows "(unat v = 0 \<and> top_digit v b = 0) \<or>
    (\<exists>i \<le> j. unat (top_digit v b) = 4 ^ i \<and> unat v < 4 * 4 ^ i)"
  using assms
proof (induction j arbitrary: b)
  case 0
  show ?case
  proof (cases "v < b")
    case True
    then have "unat v = 0" using 0(1) by (simp add: word_less_nat_alt)
    moreover have "drop_bit 2 b = 0" using 0(1) unat_drop [of 2 b] by (auto simp: unat_eq_zero)
    ultimately show ?thesis using True by (simp add: top_digit.simps [of v b] top_digit.simps [of v 0])
  next
    case False
    then show ?thesis using 0 by (simp add: top_digit.simps [of v b])
  qed
next
  case (Suc j)
  show ?case
  proof (cases "v < b")
    case True
    have b': "unat (drop_bit 2 b) = 4 ^ j" unfolding unat_drop Suc.prems(1) by simp
    have "unat v < 4 * 4 ^ j" using True Suc.prems(1) by (simp add: word_less_nat_alt)
    from Suc.IH [OF b' this] True show ?thesis
      by (auto simp: top_digit.simps [of v b] intro: le_SucI)
  next
    case False
    then show ?thesis using Suc.prems by (intro disjI2 exI [of _ "Suc j"]) (simp add: top_digit.simps [of v b])
  qed
qed

lemma integer_root:
  assumes "root_digits (top_digit v 0x40000000) (v, 0) = (rem, root)"
  shows "unat rem + unat root * unat root = unat v \<and> unat v < (unat root + 1) * (unat root + 1)"
proof -
  have "unat v < 4294967296" by (rule unat_u32_less)
  then have lt: "unat v < 4 * 4 ^ 15" by simp
  have "unat (0x40000000 :: u32) = 4 ^ 15" by simp
  from top_digit_value [OF this lt] show ?thesis
  proof (elim disjE exE conjE)
    assume "unat v = 0" "top_digit v 0x40000000 = 0"
    then show ?thesis using assms by (simp add: root_digits.simps [of 0] unat_eq_zero)
  next
    fix i
    assume 2: "i \<le> 15" "unat (top_digit v 0x40000000) = 4 ^ i" "unat v < 4 * 4 ^ i"
    have p: "(4 :: nat) ^ i = 2 ^ i * 2 ^ i" by (rule four_power)
    have "(4 :: nat) ^ i \<le> 4 ^ 15" using 2(1) by (rule power_increasing) simp
    then have "(4 :: nat) ^ i \<le> 1073741824" by simp
    then have "2 * (2 ^ i * 2 ^ i) \<le> (4294967296 :: nat)" unfolding p by linarith
    then have le: "2 ^ i * (2 * 0 + 2 * 2 ^ i) \<le> (4294967296 :: nat)" by (simp add: algebra_simps)
    have lt: "unat v < (0 + 2 * 2 ^ i) * (0 + 2 * 2 ^ i)" using 2(3) unfolding p by (simp add: algebra_simps)
    show ?thesis
      by (rule root_digits_value [OF 2(2) _ _ lt le assms]) simp_all
  qed
qed

definition nearest_root :: "nat \<Rightarrow> nat \<Rightarrow> bool" where
  "nearest_root n r \<longleftrightarrow> n \<le> r * r + r \<and> (r = 0 \<or> r * r < n + r)"

lemma rounded_root:
  fixes v acc :: u32
  assumes "unat v + unat acc * unat acc = n" "n < (unat acc + 1) * (unat acc + 1)" "unat acc < 4294967295"
  shows "nearest_root n (unat (if acc < v then acc + 1 else acc))"
proof (cases "acc < v")
  case True
  then have "unat acc < unat v" by (simp add: word_less_nat_alt)
  moreover have "unat (acc + 1) = unat acc + 1" using assms(3) by (subst unat_add_no_wrap) simp_all
  ultimately show ?thesis using True assms(1,2) by (simp add: nearest_root_def algebra_simps)
next
  case False
  then have "unat v \<le> unat acc" by (simp add: word_less_nat_alt not_less)
  then show ?thesis using False assms(1) by (auto simp: nearest_root_def)
qed

lemma root_small:
  assumes "r * r \<le> n" "n < 4294967296 * 65536"
  shows "r < (16777216 :: nat)"
proof (rule ccontr)
  assume "\<not> r < 16777216"
  then have "16777216 * 16777216 \<le> r * r" by (intro mult_le_mono) simp_all
  then show False using assms by simp
qed


text \<open>
  The two-phase square root returns the 16.16 number nearest to the root
  of its argument, for every argument below 2 to the 30; for larger ones, where the remainder of
  the integer phase may not fit in sixteen bits, it is the number nearest to the root of the
  argument or of the argument less a quarter of its last place.
\<close>

theorem q16_sqrt_nearest:
  "(unat x < 2 ^ 30 \<longrightarrow> nearest_root (unat x * 65536) (unat (q16_sqrt x))) \<and>
   (nearest_root (unat x * 65536) (unat (q16_sqrt x)) \<or>
    nearest_root (unat x * 65536 - 16384) (unat (q16_sqrt x)))"
proof -
  let ?n = "unat x"
  obtain rem root where p1: "root_digits (top_digit x 0x40000000) (x, 0) = (rem, root)"
    by (cases "root_digits (top_digit x 0x40000000) (x, 0)")
  let ?R = "unat root" and ?v = "unat rem"
  have sum: "?v + ?R * ?R = ?n" and above: "?n < (?R + 1) * (?R + 1)"
    using integer_root [OF p1] by auto
  have "?n < 4294967296" by (rule unat_u32_less)
  have R: "?R < 65536"
  proof (rule ccontr)
    assume "\<not> ?R < 65536"
    then have "65536 * 65536 \<le> ?R * ?R" by (intro mult_le_mono) simp_all
    then show False using sum \<open>?n < 4294967296\<close> by simp
  qed
  have acc: "unat (root * 0x10000) = ?R * 65536" using R by (simp add: unat_word_ariths)
  show ?thesis
  proof (cases "rem < 0x10000")
    case True
    then have v: "?v < 65536" by (simp add: word_less_nat_alt)
    obtain v' acc' where p2: "root_digits 0x4000 (push_bit 16 rem, root * 0x10000) = (v', acc')"
      by (cases "root_digits 0x4000 (push_bit 16 rem, root * 0x10000)")
    have code: "q16_sqrt x = (if acc' < v' then acc' + 1 else acc')"
      using True by (simp add: q16_sqrt_def Let_def p1 p2)
    have v16: "unat (push_bit 16 rem) = ?v * 65536" using v unfolding unat_up by simp
    let ?S = "?R * 256"
    have "?v * 65536 + ?S * ?S = ?n * 65536" unfolding sum [symmetric] by (simp add: algebra_simps)
    moreover have "?n * 65536 < (?S + 2 * 2 ^ 7) * (?S + 2 * 2 ^ 7)"
    proof -
      have "?n * 65536 < (?R + 1) * (?R + 1) * 65536" using above by simp
      then show ?thesis by (simp add: algebra_simps)
    qed
    moreover have "2 ^ 7 * (2 * ?S + 2 * 2 ^ 7) \<le> (4294967296 :: nat)" using R by simp
    ultimately have r: "unat v' + unat acc' * unat acc' = ?n * 65536 \<and> ?n * 65536 < (unat acc' + 1) * (unat acc' + 1)"
      by (intro root_digits_value [of "0x4000" 7 _ ?S _ _ _ acc', OF _ _ _ _ _ p2]) (simp_all add: v16 acc)
    have "unat acc' < 16777216"
      by (rule root_small [of _ "?n * 65536"]) (use r \<open>?n < 4294967296\<close> in linarith)+
    then have "nearest_root (?n * 65536) (unat (q16_sqrt x))"
      unfolding code using r by (intro rounded_root) simp_all
    then show ?thesis by blast
  next
    case False
    then have v: "65536 \<le> ?v" by (simp add: word_less_nat_alt not_less)
    have vR: "?v \<le> 2 * ?R" using sum above by (simp add: algebra_simps)
    then have half: "32768 \<le> ?R" using v by linarith
    have "32768 * 32768 \<le> ?R * ?R" using half by (intro mult_le_mono)
    then have big: "\<not> ?n < 2 ^ 30" using sum by simp
    define V where "V = (rem - root) * 0x10000 - 0x8000"
    define A where "A = root * 0x10000 + 0x8000"
    obtain v' acc' where p2: "root_digits 0x4000 (V, A) = (v', acc')"
      by (cases "root_digits 0x4000 (V, A)")
    have code: "q16_sqrt x = (if acc' < v' then acc' + 1 else acc')"
      using False
      by (simp only: q16_sqrt_def Let_def p1 prod.case if_False V_def [symmetric] A_def [symmetric] p2)
    have d: "unat (rem - root) = ?v - ?R" using v R by (intro unat_sub_no_wrap) linarith
    have "(?v - ?R) * 65536 < 4294967296" using vR R by linarith
    then have "unat ((rem - root) * 0x10000) = (?v - ?R) * 65536"
      by (simp only: unat_word_ariths d) simp
    then have v16: "unat V = (?v - ?R) * 65536 - 32768"
      using v R unfolding V_def by (subst unat_sub_no_wrap) simp_all
    have a16: "unat A = ?R * 65536 + 32768"
      using R unfolding A_def by (subst unat_add_no_wrap) (simp_all add: acc)
    let ?S = "?R * 256 + 128"
    have "(?v - ?R) * 65536 - 32768 + ?S * ?S = ?n * 65536 - 16384"
    proof -
      obtain e where "?v = ?R + 1 + e" using v R by (metis add.assoc le_iff_add less_eq_Suc_le Suc_eq_plus1 le_trans)
      then show ?thesis unfolding sum [symmetric] by (simp add: algebra_simps)
    qed
    moreover have "?n * 65536 - 16384 < (?S + 2 * 2 ^ 7) * (?S + 2 * 2 ^ 7)"
    proof -
      have "?n * 65536 < (?R + 1) * (?R + 1) * 65536" using above by simp
      then show ?thesis by (simp add: algebra_simps)
    qed
    moreover have "2 ^ 7 * (2 * ?S + 2 * 2 ^ 7) \<le> (4294967296 :: nat)" using R by simp
    ultimately have r: "unat v' + unat acc' * unat acc' = ?n * 65536 - 16384 \<and>
        ?n * 65536 - 16384 < (unat acc' + 1) * (unat acc' + 1)"
      by (intro root_digits_value [of "0x4000" 7 _ ?S _ _ _ acc', OF _ _ _ _ _ p2]) (simp_all add: v16 a16)
    have "unat acc' < 16777216"
      by (rule root_small [of _ "?n * 65536 - 16384"]) (use r \<open>?n < 4294967296\<close> in linarith)+
    then have "nearest_root (?n * 65536 - 16384) (unat (q16_sqrt x))"
      unfolding code using r by (intro rounded_root) simp_all
    then show ?thesis using big by blast
  qed
qed

theorem q16_sqrt_nearest_witness: "nearest_root 131072 (unat (q16_sqrt 2))"
proof -
  have "unat (2 :: u32) < 2 ^ 30" by simp
  with q16_sqrt_nearest [of 2] have "nearest_root (unat (2 :: u32) * 65536) (unat (q16_sqrt 2))" by blast
  then show ?thesis by simp
qed

end
