(* ===== verification/Control.thy ===== *)
theory Control
  imports Q16 "HOL-Library.Monad_Syntax"
begin

text \<open>
  The per-tick kernel of the LED-ring control task of the user ECU
  (\<open>src/user_ecu/src/control.c\<close>), over the 16.16 library: the start-up ramp, the tracking of
  the command, the easing, the adaptive smoothing, the motion integrator and the quantisation.  A
  field is a word, compared as a signed number; \<open>None\<close> would stand for a division that never
  returns, which the first theorem excludes.  The command handler around the kernel computes in
  floating point and is not modelled.
\<close>

record led =
  variant :: u32
  level_base :: u32
  cmd_step :: u32
  off_0c :: u32
  off_10 :: u32
  off_14 :: u32
  off_18 :: u32
  gain_scale :: u32
  off_20 :: u32
  off_24 :: u32
  off_28 :: u32
  tick :: u32
  delta :: u32
  out_value :: u32
  out_init :: u8
  off_3c :: u32
  off_40 :: u32
  off_44 :: u32
  off_48 :: u32
  off_4c :: u32
  off_50 :: u32
  off_54 :: u32
  off_58 :: u32
  off_5c :: u32
  off_60 :: u32
  off_64 :: u32
  off_68 :: u32
  sig_gain :: u32
  sig_x0 :: u32
  off_74 :: u32
  off_78 :: u32
  off_7c :: u32
  off_80 :: u32
  off_84 :: u32
  off_88 :: u32
  off_8c :: u32
  smooth_init :: u8
  smooth_a :: u32
  smooth_b :: u32
  smooth_c :: u32

definition slt :: "u32 \<Rightarrow> u32 \<Rightarrow> bool" where "slt a b \<longleftrightarrow> sint a < sint b"

definition sle :: "u32 \<Rightarrow> u32 \<Rightarrow> bool" where "sle a b \<longleftrightarrow> sint a \<le> sint b"

subsection \<open>Initialisation\<close>

text \<open>The arguments \<open>params_a\<close> and \<open>params_b\<close> of the code are unused.  The fields
  the code does not write keep the value they had.\<close>

definition ledParams_Init :: "led \<Rightarrow> u32 \<Rightarrow> led option" where
  "ledParams_Init s v = do {
     let s = s\<lparr>variant := v\<rparr>;
     let s = (if v = 1
       then s\<lparr>level_base := 0x10000, cmd_step := 0x2710, off_0c := 0x2d00000, off_10 := 0x42cc0000,
              off_14 := 0x50280000, off_18 := 0x1e0000\<rparr>
       else s\<lparr>level_base := 0x640000, cmd_step := 0x4e20, off_0c := 0xb40000, off_10 := 0x0a8c0000,
              off_14 := 0x14640000, off_18 := 0x1540000\<rparr>);
     let s = s\<lparr>gain_scale := 0xe60000, off_20 := 0xc0000, off_24 := 0xc0000, off_28 := 0x320000,
               tick := 0, delta := 0, out_value := 0, off_3c := 0, off_40 := 0, out_init := 0,
               off_44 := 0x320000\<rparr>;
     a \<leftarrow> q16_div 0x2469 0x000c0012;
     b \<leftarrow> q16_div 0x48d 0x000c0012;
     let s = s\<lparr>off_48 := a, off_4c := b, off_50 := (if v = 1 then 0x6d23 else 0x00186186),
               off_5c := 0, off_60 := 0, off_54 := 0x68d, off_58 := 0, off_64 := 0, off_68 := 0,
               off_74 := 0x320000, off_78 := 0\<rparr>;
     let s = (if v \<noteq> 1 then s\<lparr>off_7c := 0xfffffe56, off_80 := 0xd50000, off_84 := 0x640000\<rparr>
              else s\<lparr>off_7c := 0x68d - 0x923, off_80 := 0x02660000, off_84 := 0x10000\<rparr>);
     Some (s\<lparr>off_88 := 0xc31, off_8c := 0x83, smooth_init := 0\<rparr>)
   }"

subsection \<open>Tracking and easing\<close>

definition led_track :: "u32 \<Rightarrow> led \<Rightarrow> led" where
  "led_track target s =
     (if target - 1 < 64999 then
        (let cur = cmd_step s;
             nxt = (if slt cur target
                    then (if sle target (cur + 0x7fff) then target else cur + 0x7fff)
                    else cur + 1)
         in s\<lparr>delta := (nxt - cur) * 0x10000\<rparr>)
      else s)"

definition led_level :: "led \<Rightarrow> u32 \<Rightarrow> u32 \<Rightarrow> u32 option" where
  "led_level s v e =
     (if slt e (- 0x320000) then Some 0x1f40000
      else if slt e 0x320001 then
        (if slt v 0 then do {
           a \<leftarrow> q16_div (level_base s) (off_84 s);
           let ex = q16_exp e;
           d \<leftarrow> q16_div 0x1f40000 (ex + 0x10000);
           Some (q16_mul a d)
         } else do {
           bias \<leftarrow> (if off_84 s = 0x10000 then Some (q16_mul 0x00010083 (0x10000 - level_base s))
                    else q16_div (0x1f40000 - q16_mul 0x50000 (level_base s)) 0x40000);
           let ex = q16_exp e;
           v \<leftarrow> q16_div (bias + 0x1f40000) (ex + 0x10000);
           Some (v - bias)
         })
      else Some 0)"

definition led_ease :: "led \<Rightarrow> led option" where
  "led_ease s =
     (if variant s = 0 \<or> out_init s \<noteq> 0 then do {
        let denom = (if variant s \<noteq> 1 then - 0xdc0000 - off_74 s else 0x7d00000);
        norm \<leftarrow> q16_div (delta s - off_78 s) denom;
        let v = q16_mul norm (gain_scale s);
        let e = q16_mul (off_7c s) (v - off_80 s);
        v \<leftarrow> led_level s v e;
        Some (s\<lparr>out_value := v\<rparr>)
      } else Some (s\<lparr>out_value := level_base s\<rparr>))"

subsection \<open>Smoothing\<close>

definition led_smooth :: "led \<Rightarrow> led option" where
  "led_smooth s = do {
     let v = out_value s;
     let s = (if smooth_init s = 0
              then s\<lparr>smooth_a := v, smooth_b := v, smooth_c := v, smooth_init := 1\<rparr> else s);
     let c = off_88 s;
     let sa = q16_mul (0x10000 - c) (smooth_a s) + q16_mul c v;
     let c2 = off_8c s;
     let sb = q16_mul c2 v + q16_mul (0x10000 - c2) (smooth_b s);
     let diff = (if slt (sa - sb) 0 then sb - sa else sa - sb);
     let ex = q16_exp (q16_mul 0xffffcccd diff);
     let t = q16_mul 0x1e00000 ex;
     bf \<leftarrow> q16_div 0x10000 (t + 0x150000);
     let c0 = q16_mul (0x10000 - bf) (smooth_c s);
     let cv = q16_mul bf v + c0;
     let o1 = (if slt cv 0x8000 then 0x8000 else out_value s);
     let o2 = (if slt 0x7fff cv then cv else o1);
     Some (s\<lparr>smooth_a := sa, smooth_b := sb, out_value := o2, smooth_c := cv\<rparr>)
   }"

subsection \<open>The motion integrator\<close>

definition led_ramps :: "led \<Rightarrow> led" where
  "led_ramps s =
     (let acc = off_3c s;
          s = (if 0x00c7fffe < 0x0063ffff + acc then s\<lparr>off_40 := off_40 s + acc, off_3c := 0\<rparr> else s);
          s = (if sle (off_60 s) 0x7ffdffff then s\<lparr>off_60 := off_60 s + 0x10000\<rparr> else s)
      in if sle (off_64 s) 0x7ffdffff then s\<lparr>off_64 := off_64 s + 0x10000\<rparr> else s)"

text \<open>The sigmoid reads its gain and offset from the object.\<close>

definition led_sigmoid :: "led \<Rightarrow> u32 \<Rightarrow> u32 option" where
  "led_sigmoid s x = q16_sigmoid (sig_gain s) (sig_x0 s) x"

text \<open>The three sigmoid blocks: the two gains of the filter and the limit accumulator.\<close>

definition led_gains :: "led \<Rightarrow> led option" where
  "led_gains s = do {
     let s = s\<lparr>sig_gain := 0x28f, sig_x0 := off_10 s\<rparr>;
     let r60 = off_60 s;
     sg0 \<leftarrow> led_sigmoid s r60;
     let o48 = off_48 s;
     let term0 = q16_mul (off_50 s - o48) sg0;
     let r64 = off_64 s;
     sg1 \<leftarrow> led_sigmoid s r64;
     let o18 = off_18 s;
     let term1 = q16_mul (0x1fe0000 - o18) sg1;
     let outv = out_value s;
     let s = s\<lparr>sig_gain := 0x170a, sig_x0 := term1 + o18\<rparr>;
     sg2 \<leftarrow> led_sigmoid s outv;
     let m16 = q16_mul sg2 (o48 + term0);
     let s = s\<lparr>off_58 := m16, sig_gain := 0x28f, sig_x0 := off_14 s\<rparr>;
     sg3 \<leftarrow> led_sigmoid s r60;
     let o4c = off_4c s;
     let term2 = q16_mul (off_54 s - o4c) (sg3 - sg0);
     sg4 \<leftarrow> led_sigmoid s r64;
     let term3 = q16_mul (0x1fe0000 - o18) sg4;
     let s = s\<lparr>sig_gain := 0x170a, sig_x0 := term3 + o18\<rparr>;
     sg5 \<leftarrow> led_sigmoid s outv;
     let s = s\<lparr>off_5c := q16_mul sg5 (o4c + term2)\<rparr>;
     let lf = q16_mul 0x444 (q16_mul (0x10000 - sg2) 0x00014ccd - 0x4ccd);
     let s = s\<lparr>off_68 := (if slt (lf + off_68 s) 0 then 0 else lf + off_68 s)\<rparr>;
     Some (if slt (off_0c s) (off_68 s) then s\<lparr>off_64 := 0\<rparr> else s)
   }"

text \<open>The length and the momentum, from the position before the step.\<close>

definition led_length :: "u32 \<Rightarrow> u32 \<Rightarrow> led \<Rightarrow> led option" where
  "led_length d30 pos s = do {
     let o3c = off_3c s;
     r \<leftarrow> q16_div ((d30 - pos) - o3c) 0x400000;
     let o44 = off_44 s;
     let ar = (if slt r 0 then - r else r);
     k \<leftarrow> (if slt (o44 + ar) 0x5a00001 then Some 0x10000
           else map_option (\<lambda>k. q16_mul k k) (q16_div (o44 + ar) 0x5a00000));
     let m5c = off_5c s;
     let s0 = q16_sqrt (q16_mul k (0x400000 - m5c));
     let kk = q16_mul 0x400000 k;
     q \<leftarrow> q16_div o44 kk;
     let p1 = q16_mul o44 q;
     let q2 = q16_mul m5c r;
     q3 \<leftarrow> q16_div q2 k;
     let p2 = q16_mul q3 r;
     let s1 = q16_sqrt (p2 + p1);
     let s = s\<lparr>off_44 := q16_mul s0 s1\<rparr>;
     inc \<leftarrow> q16_div (q16_mul (off_58 s) r) 0x80000;
     Some (s\<lparr>off_3c := inc + o3c\<rparr>)
   }"

definition led_motion :: "led \<Rightarrow> led option" where
  "led_motion s =
     (let d30 = delta s
      in if slt 0 d30 then do {
           s \<leftarrow> (if out_init s = 0 then Some (s\<lparr>off_3c := 0, off_40 := d30, out_init := 1\<rparr>)
                 else do {
                   let s = led_ramps s;
                   let pos = off_40 s;
                   s \<leftarrow> led_gains s;
                   led_length d30 pos s
                 });
           Some (s\<lparr>off_74 := off_44 s, off_78 := off_40 s + off_3c s\<rparr>)
         } else Some s)"

subsection \<open>The kernel\<close>

text \<open>An arithmetic shift by sixteen is a division that rounds down.\<close>

definition led_quantise :: "u32 \<Rightarrow> int" where
  "led_quantise v =
     (let q = v + 0x8000
      in if slt q 0 then - (sint (0xffff8000 - v) div 65536) else sint q div 65536)"

definition ledEasing_ControlUpdate :: "led \<Rightarrow> u32 \<Rightarrow> (led \<times> int) option" where
  "ledEasing_ControlUpdate s target = do {
     s \<leftarrow> (if slt (tick s) 0x2d0001 then Some (s\<lparr>tick := tick s + 0x10000\<rparr>)
           else do {
             s \<leftarrow> led_ease (led_track target s);
             s \<leftarrow> led_smooth s;
             led_motion s
           });
     Some (s, led_quantise (out_value s))
   }"

text \<open>A run of updates, with the values put out.\<close>

fun led_run :: "u32 list \<Rightarrow> led \<Rightarrow> (led \<times> int list) option" where
  "led_run [] s = Some (s, [])"
| "led_run (target # targets) s = do {
     (s, q) \<leftarrow> ledEasing_ControlUpdate s target;
     (s, qs) \<leftarrow> led_run targets s;
     Some (s, q # qs)
   }"

subsection \<open>The kernel always returns\<close>

definition quot :: "u32 \<Rightarrow> u32 \<Rightarrow> u32" where "quot a b = the (q16_div a b)"

definition logistic :: "led \<Rightarrow> u32 \<Rightarrow> u32" where "logistic s x = the (led_sigmoid s x)"

lemma q16_div_total: "q16_div a b = Some (quot a b)"
  using q16_div_returns [of a b] by (simp add: quot_def)

lemma led_sigmoid_total: "led_sigmoid s x = Some (logistic s x)"
  using q16_sigmoid_saturates [of "sig_gain s" "sig_x0 s" x] by (simp add: logistic_def led_sigmoid_def)

lemma led_level_returns: "\<exists>v'. led_level s v e = Some v'"
  by (simp add: led_level_def q16_div_total Let_def)

lemma led_ease_returns: "\<exists>v. led_ease s = Some (s\<lparr>out_value := v\<rparr>)"
proof -
  have "\<exists>v. (led_level s a b \<bind> (\<lambda>v. Some (s\<lparr>out_value := v\<rparr>))) = Some (s\<lparr>out_value := v\<rparr>)" for a b
    using led_level_returns [of s a b] by auto
  then show ?thesis by (auto simp: led_ease_def q16_div_total Let_def)
qed

lemma led_smooth_floor: "\<exists>s'. led_smooth s = Some s' \<and> 0x8000 \<le> sint (out_value s')"
proof -
  have "0x8000 \<le> sint (if slt 0x7fff cv then cv else if slt cv 0x8000 then 0x8000 else v)" for cv v
    by (simp add: slt_def)
  then show ?thesis by (simp add: led_smooth_def q16_div_total Let_def)
qed

lemma led_ramps_out [simp]: "out_value (led_ramps s) = out_value s"
  by (simp add: led_ramps_def Let_def)

lemma led_gains_out: "\<exists>s'. led_gains s = Some s' \<and> out_value s' = out_value s"
  by (simp add: led_gains_def led_sigmoid_total Let_def)

lemma led_length_out: "\<exists>s'. led_length d p s = Some s' \<and> out_value s' = out_value s"
  by (simp add: led_length_def q16_div_total Let_def)

lemma led_motion_out: "\<exists>s'. led_motion s = Some s' \<and> out_value s' = out_value s"
proof -
  obtain s1 where s1: "led_gains (led_ramps s) = Some s1" "out_value s1 = out_value s"
    using led_gains_out [of "led_ramps s"] by auto
  obtain s2 where s2: "led_length (delta s) (off_40 (led_ramps s)) s1 = Some s2" "out_value s2 = out_value s"
    using led_length_out [of "delta s" "off_40 (led_ramps s)" s1] s1(2) by auto
  show ?thesis by (simp add: led_motion_def Let_def s1 s2)
qed

subsection \<open>Quantisation\<close>

lemma sint_of_int:
  "- 2147483648 \<le> z \<Longrightarrow> z < 2147483648 \<Longrightarrow> sint (word_of_int z :: u32) = z"
  by (simp add: signed_of_int signed_take_bit_int_eq_self)

lemma led_quantise_rounds:
  assumes "0 \<le> sint v" "sint v < 0x7fff8000"
  shows "led_quantise v = (sint v + 0x8000) div 65536"
proof -
  have "v + 0x8000 = word_of_int (sint v + 0x8000)" by simp
  moreover have "sint (word_of_int (sint v + 0x8000) :: u32) = sint v + 0x8000"
    by (rule sint_of_int) (use assms in simp_all)
  ultimately have "sint (v + 0x8000) = sint v + 0x8000" by metis
  then show ?thesis using assms by (simp add: led_quantise_def slt_def)
qed

text \<open>
  The kernel always returns, whatever its state and target, through
  all its divisions, roots and sigmoids. During the start-up ramp an update only advances the
  ramp; after it, the level it leaves is at least half a unit, so that the value it puts out,
  the level rounded to the nearest unit, is at least one, as long as the level has room for the
  rounding.
\<close>

theorem control_update_outcome:
  "(slt (tick s) 0x2d0001 \<longrightarrow>
      ledEasing_ControlUpdate s target = Some (s\<lparr>tick := tick s + 0x10000\<rparr>, led_quantise (out_value s))) \<and>
   (\<not> slt (tick s) 0x2d0001 \<longrightarrow>
      (\<exists>s' q. ledEasing_ControlUpdate s target = Some (s', q) \<and> 0x8000 \<le> sint (out_value s') \<and>
         (sint (out_value s') < 0x7fff8000 \<longrightarrow>
            1 \<le> q \<and> q = (sint (out_value s') + 0x8000) div 65536)))"
proof -
  have "\<exists>s' q. ledEasing_ControlUpdate s target = Some (s', q) \<and> 0x8000 \<le> sint (out_value s') \<and>
       q = led_quantise (out_value s')" if late: "\<not> slt (tick s) 0x2d0001"
  proof -
    obtain v where e: "led_ease (led_track target s) = Some ((led_track target s)\<lparr>out_value := v\<rparr>)"
      using led_ease_returns by blast
    obtain s1 where s1: "led_smooth ((led_track target s)\<lparr>out_value := v\<rparr>) = Some s1"
      "0x8000 \<le> sint (out_value s1)"
      using led_smooth_floor by blast
    obtain s2 where s2: "led_motion s1 = Some s2" "out_value s2 = out_value s1"
      using led_motion_out by blast
    show ?thesis using late by (simp add: ledEasing_ControlUpdate_def e s1 s2)
  qed
  moreover have "1 \<le> led_quantise v \<and> led_quantise v = (sint v + 0x8000) div 65536"
    if "0x8000 \<le> sint v" "sint v < 0x7fff8000" for v
    using led_quantise_rounds [OF _ that(2)] that(1) by simp
  ultimately show ?thesis by (fastforce simp: ledEasing_ControlUpdate_def)
qed

subsection \<open>Start-up\<close>

lemma led_holds:
  assumes "tick s = of_nat k * 0x10000" "k + length targets \<le> 46" "out_value s = 0"
  shows "led_run targets s =
    Some (s\<lparr>tick := of_nat (k + length targets) * 0x10000\<rparr>, replicate (length targets) 0)"
  using assms
proof (induction targets arbitrary: s k)
  case Nil
  then show ?case by simp
next
  case (Cons target targets)
  have "of_nat k * 0x10000 = (word_of_int (int k * 65536) :: u32)" by simp
  moreover have "sint (word_of_int (int k * 65536) :: u32) = int k * 65536"
    by (rule sint_of_int) (use Cons.prems(2) in simp_all)
  ultimately have "sint (of_nat k * 0x10000 :: u32) = int k * 65536" by metis
  then have "slt (of_nat k * 0x10000) 0x2d0001"
    using Cons.prems(2) by (simp add: slt_def)
  then show ?case
    using Cons.prems Cons.IH [of "s\<lparr>tick := of_nat (Suc k) * 0x10000\<rparr>" "Suc k"]
    by (simp add: ledEasing_ControlUpdate_def led_quantise_def slt_def algebra_simps)
qed

lemma ledParams_Init_returns: "\<exists>s0. ledParams_Init s v = Some s0 \<and> tick s0 = 0 \<and> out_value s0 = 0"
  by (simp add: ledParams_Init_def q16_div_total Let_def)

text \<open>
  After initialisation, for either variant, the first 46 updates put out
  zero and change nothing but the ramp, whatever the targets are.
\<close>

theorem control_startup:
  assumes "length targets \<le> 46"
  shows "\<exists>s0. ledParams_Init s v = Some s0 \<and>
    led_run targets s0 = Some (s0\<lparr>tick := of_nat (length targets) * 0x10000\<rparr>, replicate (length targets) 0)"
proof -
  obtain s0 where "ledParams_Init s v = Some s0" "tick s0 = 0" "out_value s0 = 0"
    using ledParams_Init_returns by blast
  then show ?thesis using led_holds [of s0 0 targets] assms by simp
qed

definition led_zero :: led where
  "led_zero =
     \<lparr>variant = 0, level_base = 0, cmd_step = 0, off_0c = 0, off_10 = 0, off_14 = 0, off_18 = 0,
      gain_scale = 0, off_20 = 0, off_24 = 0, off_28 = 0, tick = 0, delta = 0, out_value = 0,
      out_init = 0, off_3c = 0, off_40 = 0, off_44 = 0, off_48 = 0, off_4c = 0, off_50 = 0,
      off_54 = 0, off_58 = 0, off_5c = 0, off_60 = 0, off_64 = 0, off_68 = 0, sig_gain = 0,
      sig_x0 = 0, off_74 = 0, off_78 = 0, off_7c = 0, off_80 = 0, off_84 = 0, off_88 = 0,
      off_8c = 0, smooth_init = 0, smooth_a = 0, smooth_b = 0, smooth_c = 0\<rparr>"

theorem control_startup_witness:
  "\<exists>s0. ledParams_Init led_zero 1 = Some s0 \<and>
     led_run [5, 7] s0 = Some (s0\<lparr>tick := 0x20000\<rparr>, [0, 0])"
  using control_startup [of "[5, 7]" led_zero 1] by (simp add: numeral_2_eq_2)

theorem control_update_outcome_witness:
  "ledEasing_ControlUpdate led_zero 9 = Some (led_zero\<lparr>tick := 0x10000\<rparr>, 0)"
proof -
  have "slt (tick led_zero) 0x2d0001" by (simp add: led_zero_def slt_def)
  with control_update_outcome [of led_zero 9]
  have "ledEasing_ControlUpdate led_zero 9 =
      Some (led_zero\<lparr>tick := tick led_zero + 0x10000\<rparr>, led_quantise (out_value led_zero))"
    by blast
  then show ?thesis by (simp add: led_zero_def led_quantise_def slt_def)
qed

end
