(* ===== verification/Flash.thy ===== *)
theory Flash
  imports Prelude
begin

text \<open>
  The flash pages of the user ECU: the variant-dispatched bus operations
  (\<open>src/user_ecu/src/bus.c\<close>), page programming with read-back, the staged update of the
  storage descriptor and the log record (\<open>src/user_ecu/src/store.c\<close>).  The drivers behind the
  dispatch are code in ROM: they are functions on a device state, of which nothing is assumed.  In the
  theorem, the device is the list of the operations made so far with their answers, and the answers are any
  functions of that list.
\<close>

subsection \<open>The bus\<close>

text \<open>The session that is passed through: the one of the caller, or, in one call, a pointer into the
  page buffer.\<close>

datatype session = Session | Buffer_tail

record 'd driver =
  d_token :: "session \<Rightarrow> u32 \<Rightarrow> 'd \<Rightarrow> int \<times> 'd"
  d_program :: "session \<Rightarrow> u32 \<Rightarrow> bytes \<Rightarrow> 'd \<Rightarrow> int \<times> 'd"
  d_verify :: "session \<Rightarrow> u32 \<Rightarrow> bytes \<Rightarrow> 'd \<Rightarrow> int \<times> 'd"
  d_read :: "session \<Rightarrow> u32 \<Rightarrow> nat \<Rightarrow> 'd \<Rightarrow> (int \<times> bytes) \<times> 'd"

text \<open>The manager: the variant byte, the handlers of variant A, those of variant B (reading is fixed code)
  with its second read handler, the selector register, and the raw page load, which has no variant.\<close>

record 'd bus =
  bus_variant :: u8
  fixed_ops :: "'d driver"
  table_ops :: "'d driver"
  read_b1 :: "session \<Rightarrow> u32 \<Rightarrow> nat \<Rightarrow> 'd \<Rightarrow> (int \<times> bytes) \<times> 'd"
  bus_selector :: u32
  page_load :: "session \<Rightarrow> u32 \<Rightarrow> 'd \<Rightarrow> int \<times> 'd"

type_synonym event = "u32 \<times> u16 \<times> u32 list"

record 'd flash =
  dev :: 'd
  has_mgr :: bool
  events :: "event list"

definition on_dev :: "('d \<Rightarrow> 'r \<times> 'd) \<Rightarrow> 'd flash \<Rightarrow> 'r \<times> 'd flash" where
  "on_dev g f = (let (r, d) = g (dev f) in (r, f\<lparr>dev := d\<rparr>))"

definition bus_variant_b :: "'d bus \<Rightarrow> bool" where
  "bus_variant_b m \<longleftrightarrow> bus_variant m = 3"

definition bus_transfer_token :: "'d bus \<Rightarrow> session \<Rightarrow> u32 \<Rightarrow> 'd \<Rightarrow> int \<times> 'd" where
  "bus_transfer_token m s b =
     (if \<not> bus_variant_b m then d_token (fixed_ops m) s b else d_token (table_ops m) s b)"

definition bus_page_program :: "'d bus \<Rightarrow> session \<Rightarrow> u32 \<Rightarrow> bytes \<Rightarrow> 'd \<Rightarrow> int \<times> 'd" where
  "bus_page_program m s addr buf =
     (if \<not> bus_variant_b m then d_program (fixed_ops m) s addr buf else d_program (table_ops m) s addr buf)"

definition bus_page_read :: "'d bus \<Rightarrow> session \<Rightarrow> u32 \<Rightarrow> nat \<Rightarrow> 'd \<Rightarrow> (int \<times> bytes) \<times> 'd" where
  "bus_page_read m s addr len =
     (if \<not> bus_variant_b m then d_read (fixed_ops m) s addr len
      else if bus_selector m AND 0xf \<noteq> 0 then d_read (table_ops m) s addr len
      else read_b1 m s addr len)"

definition page_verify :: "'d bus \<Rightarrow> session \<Rightarrow> u32 \<Rightarrow> bytes \<Rightarrow> 'd \<Rightarrow> int \<times> 'd" where
  "page_verify m s addr buf =
     (if \<not> bus_variant_b m then d_verify (fixed_ops m) s addr buf else d_verify (table_ops m) s addr buf)"

subsection \<open>Events\<close>

text \<open>No caller here passes more than the six words that fit.\<close>

definition event_report :: "u32 \<Rightarrow> u16 \<Rightarrow> u32 list \<Rightarrow> 'd flash \<Rightarrow> 'd flash" where
  "event_report ctx code ws f = (if has_mgr f then f\<lparr>events := events f @ [(ctx, code, ws)]\<rparr> else f)"

definition FLASH_EVENT_CTX :: u32 where "FLASH_EVENT_CTX = 0xe6384427"

definition STORE_DESCRIPTOR_ADDR :: u32 where "STORE_DESCRIPTOR_ADDR = 0x37400"

definition FLASH_SCRATCH_ADDR :: u32 where "FLASH_SCRATCH_ADDR = 0x37a00"

subsection \<open>Pages\<close>

definition flash_page_write :: "'d bus \<Rightarrow> session \<Rightarrow> u32 \<Rightarrow> bytes \<Rightarrow> 'd flash \<Rightarrow> int \<times> 'd flash" where
  "flash_page_write m s addr buf f =
     (let fail = (\<lambda>code rc f. (-1, event_report FLASH_EVENT_CTX code [addr, of_int rc] f));
          (rc, f) = on_dev (bus_transfer_token m s addr) f
      in if rc \<noteq> 0 then fail 0x31 rc f
         else let (rc, f) = on_dev (bus_page_program m s addr buf) f
         in if rc \<noteq> 0 then fail 0x38 rc f
         else let (rc, f) = on_dev (page_verify m s addr buf) f
         in if rc = 0 then (0, f) else fail 0x42 rc f)"

text \<open>The bytes are what the staged page was read into.\<close>

definition flash_page_commit :: "'d bus \<Rightarrow> session \<Rightarrow> 'd flash \<Rightarrow> (int \<times> bytes) \<times> 'd flash" where
  "flash_page_commit m s f =
     (let (rc, f) = on_dev (page_load m s FLASH_SCRATCH_ADDR) f
      in if rc = 0 then ((-3, []), f)
         else let ((rc, src), f) = on_dev (bus_page_read m s FLASH_SCRATCH_ADDR 0x200) f
         in if rc \<noteq> 0 then ((-1, src), event_report FLASH_EVENT_CTX 0x65 [0, of_int rc] f)
         else let (rc, f) = flash_page_write m s STORE_DESCRIPTOR_ADDR src f
         in if rc \<noteq> 0 then ((-1, src), f)
         else let (rc, f) = on_dev (bus_transfer_token m s FLASH_SCRATCH_ADDR) f
         in ((0, src), if rc \<noteq> 0 then event_report FLASH_EVENT_CTX 0x73 [0, of_int rc] f else f))"

subsection \<open>The descriptor\<close>

text \<open>\<open>None\<close> is the null session; the second component is what \<open>out\<close> is set to.\<close>

definition store_descriptor_read ::
  "'d bus \<Rightarrow> session option \<Rightarrow> 'd flash \<Rightarrow> (int \<times> bytes option) \<times> 'd flash" where
  "store_descriptor_read m sess f = (case sess of
       None \<Rightarrow> ((-2, None), f)
     | Some s \<Rightarrow>
         (let ((status, scratch), f) = flash_page_commit m s f
          in if status = -3 then
               (let (status, f) = on_dev (page_load m s STORE_DESCRIPTOR_ADDR) f
                in if status = 0 then ((0, Some (replicate 8 0)), f)
                   else let ((status, out), f) = on_dev (bus_page_read m s STORE_DESCRIPTOR_ADDR 8) f
                   in if status \<noteq> 0 then
                        ((-1, Some out),
                         event_report FLASH_EVENT_CTX 0xa1 [0, STORE_DESCRIPTOR_ADDR, of_int status] f)
                      else ((0, Some out), f))
             else if status = 0 then ((0, Some (take 8 scratch)), f)
             else ((status, None), f)))"

definition store_descriptor_write ::
  "'d bus \<Rightarrow> session option \<Rightarrow> bytes \<Rightarrow> 'd flash \<Rightarrow> int \<times> 'd flash" where
  "store_descriptor_write m sess descriptor f = (case sess of
       None \<Rightarrow> (-2, f)
     | Some s \<Rightarrow>
         (let ((rc, _), f) = flash_page_commit m s f
          in if rc \<noteq> -1 then
               (let buf512 = take 8 descriptor @ replicate 504 0;
                    (rc, f) = flash_page_write m s FLASH_SCRATCH_ADDR buf512 f
                in if rc = 0 then
                     (let ((rc, _), f) = flash_page_commit m s f
                      in (- (if rc \<noteq> 0 then 1 else 0), f))
                   else (-1, f))
             else (-1, f)))"

text \<open>The event record: six bytes of the source, the tag and the flag of the caller.\<close>

definition log_append_event ::
  "'d bus \<Rightarrow> session option \<Rightarrow> u32 \<Rightarrow> u16 \<Rightarrow> u8 \<Rightarrow> 'd flash \<Rightarrow> 'd flash" where
  "log_append_event m handle word0 half4 flag f =
     (if handle \<noteq> None then
        snd (store_descriptor_write m handle
          (le32 word0 @ [ucast half4, ucast (drop_bit 8 half4)] @ [1, flag]) f)
      else f)"

definition erased :: bytes where "erased = replicate 512 0xff"

lemma length_erased [simp]: "length erased = 512" by (simp add: erased_def)

lemma two_pages [simp]: "STORE_DESCRIPTOR_ADDR \<noteq> FLASH_SCRATCH_ADDR" "FLASH_SCRATCH_ADDR \<noteq> STORE_DESCRIPTOR_ADDR"
  by (simp_all add: STORE_DESCRIPTOR_ADDR_def FLASH_SCRATCH_ADDR_def)

subsection \<open>The operations of a run\<close>

text \<open>An operation with its answer; 0 is success.\<close>

datatype page_op =
    Token u32 int
  | Program u32 bytes int
  | Verify u32 bytes int
  | Load u32 int
  | Read u32 nat int bytes

record page_env =
  pe_token :: "u32 \<Rightarrow> page_op list \<Rightarrow> int"
  pe_program :: "u32 \<Rightarrow> bytes \<Rightarrow> page_op list \<Rightarrow> int"
  pe_verify :: "u32 \<Rightarrow> bytes \<Rightarrow> page_op list \<Rightarrow> int"
  pe_load :: "u32 \<Rightarrow> page_op list \<Rightarrow> int"
  pe_read :: "u32 \<Rightarrow> nat \<Rightarrow> page_op list \<Rightarrow> int \<times> bytes"

definition history_driver :: "page_env \<Rightarrow> page_op list driver" where
  "history_driver E =
     \<lparr>d_token = (\<lambda>s a h. (pe_token E a h, h @ [Token a (pe_token E a h)])),
      d_program = (\<lambda>s a bs h. (pe_program E a bs h, h @ [Program a bs (pe_program E a bs h)])),
      d_verify = (\<lambda>s a bs h. (pe_verify E a bs h, h @ [Verify a bs (pe_verify E a bs h)])),
      d_read = (\<lambda>s a n h. case pe_read E a n h of (r, bs) \<Rightarrow> ((r, bs), h @ [Read a n r bs]))\<rparr>"

definition history_bus :: "u8 \<Rightarrow> u32 \<Rightarrow> page_env \<Rightarrow> page_op list bus" where
  "history_bus v sel E =
     \<lparr>bus_variant = v, fixed_ops = history_driver E, table_ops = history_driver E,
      read_b1 = d_read (history_driver E), bus_selector = sel,
      page_load = (\<lambda>s a h. (pe_load E a h, h @ [Load a (pe_load E a h)]))\<rparr>"

lemma dev_event [simp]: "dev (event_report c k ws f) = dev f"
  by (simp add: event_report_def)

lemma history_ops:
  "on_dev (bus_transfer_token (history_bus v sel E) s a) f = (r, f') \<Longrightarrow> dev f' = dev f @ [Token a r]"
  "on_dev (bus_page_program (history_bus v sel E) s a buf) f = (r, f') \<Longrightarrow> dev f' = dev f @ [Program a buf r]"
  "on_dev (page_verify (history_bus v sel E) s a buf) f = (r, f') \<Longrightarrow> dev f' = dev f @ [Verify a buf r]"
  "on_dev (page_load (history_bus v sel E) s a) f = (r, f') \<Longrightarrow> dev f' = dev f @ [Load a r]"
  "on_dev (bus_page_read (history_bus v sel E) s a n) f = ((r, bs), f') \<Longrightarrow> dev f' = dev f @ [Read a n r bs]"
  by (auto simp: on_dev_def bus_transfer_token_def bus_page_program_def page_verify_def bus_page_read_def
      history_bus_def history_driver_def Let_def split: if_splits prod.splits)

text \<open>The operations of a page write and of a commit, in each of their outcomes.\<close>

definition write_ops :: "u32 \<Rightarrow> bytes \<Rightarrow> int \<Rightarrow> page_op list \<Rightarrow> bool" where
  "write_ops a buf rc ops \<longleftrightarrow>
     rc = 0 \<and> ops = [Token a 0, Program a buf 0, Verify a buf 0] \<or>
     rc = -1 \<and> (\<exists>r. r \<noteq> 0 \<and>
       ops \<in> {[Token a r], [Token a 0, Program a buf r], [Token a 0, Program a buf 0, Verify a buf r]})"

lemma page_write_ops:
  assumes "flash_page_write (history_bus v sel E) s a buf f = (rc, f')"
  shows "\<exists>ops. dev f' = dev f @ ops \<and> write_ops a buf rc ops"
proof -
  let ?m = "history_bus v sel E"
  obtain r1 f1 where 1: "on_dev (bus_transfer_token ?m s a) f = (r1, f1)" by fastforce
  obtain r2 f2 where 2: "on_dev (bus_page_program ?m s a buf) f1 = (r2, f2)" by fastforce
  obtain r3 f3 where 3: "on_dev (page_verify ?m s a buf) f2 = (r3, f3)" by fastforce
  note d = history_ops(1) [OF 1] history_ops(2) [OF 2] history_ops(3) [OF 3]
  show ?thesis
    using assms d by (auto simp: flash_page_write_def Let_def 1 2 3 write_ops_def split: if_splits)
qed

definition commit_ops :: "int \<Rightarrow> bytes \<Rightarrow> page_op list \<Rightarrow> bool" where
  "commit_ops rc src ops \<longleftrightarrow> (let S = FLASH_SCRATCH_ADDR; D = STORE_DESCRIPTOR_ADDR in
     rc = -3 \<and> ops = [Load S 0] \<or>
     rc = -1 \<and> (\<exists>k r. k \<noteq> 0 \<and> r \<noteq> 0 \<and> ops = [Load S k, Read S 0x200 r src]) \<or>
     (\<exists>k w. k \<noteq> 0 \<and> rc = -1 \<and> write_ops D src (-1) w \<and> ops = [Load S k, Read S 0x200 0 src] @ w) \<or>
     (\<exists>k w r. k \<noteq> 0 \<and> rc = 0 \<and> write_ops D src 0 w \<and> ops = [Load S k, Read S 0x200 0 src] @ w @ [Token S r]))"

lemma commit_does:
  assumes "flash_page_commit (history_bus v sel E) s f = ((rc, src), f')"
  shows "\<exists>ops. dev f' = dev f @ ops \<and> commit_ops rc src ops"
proof -
  let ?m = "history_bus v sel E" and ?S = FLASH_SCRATCH_ADDR and ?D = STORE_DESCRIPTOR_ADDR
  obtain r1 f1 where 1: "on_dev (page_load ?m s ?S) f = (r1, f1)" by fastforce
  obtain r2 b2 f2 where 2: "on_dev (bus_page_read ?m s ?S 0x200) f1 = ((r2, b2), f2)" by (metis surj_pair)
  obtain r3 f3 where 3: "flash_page_write ?m s ?D b2 f2 = (r3, f3)" by fastforce
  obtain r4 f4 where 4: "on_dev (bus_transfer_token ?m s ?S) f3 = (r4, f4)" by fastforce
  note d = history_ops(4) [OF 1] history_ops(5) [OF 2] history_ops(1) [OF 4]
  obtain w where w: "dev f3 = dev f2 @ w" "write_ops ?D b2 r3 w" using page_write_ops [OF 3] by blast
  have code: "((rc, src), f') =
      (if r1 = 0 then ((-3, []), f1)
       else if r2 \<noteq> 0 then ((-1, b2), event_report FLASH_EVENT_CTX 0x65 [0, of_int r2] f2)
       else if r3 \<noteq> 0 then ((-1, b2), f3)
       else ((0, b2), if r4 \<noteq> 0 then event_report FLASH_EVENT_CTX 0x73 [0, of_int r4] f4 else f4))"
    using assms by (simp add: flash_page_commit_def Let_def 1 2 3 4 cong: if_cong)
  have r3: "r3 = 0 \<or> r3 = -1" using w(2) by (auto simp: write_ops_def)
  consider "r1 = 0" | "r1 \<noteq> 0" "r2 \<noteq> 0" | "r1 \<noteq> 0" "r2 = 0" "r3 \<noteq> 0" | "r1 \<noteq> 0" "r2 = 0" "r3 = 0" by blast
  then show ?thesis
  proof cases
    case 1
    then show ?thesis using code d(1) by (simp add: commit_ops_def)
  next
    case 2
    then show ?thesis using code d(1,2) by (simp add: commit_ops_def)
  next
    case 3
    then show ?thesis using code d(1,2) w r3
      by (intro exI [of _ "[Load ?S r1, Read ?S 0x200 0 b2] @ w"]) (auto simp: commit_ops_def)
  next
    case 4
    then show ?thesis using code d w
      by (intro exI [of _ "[Load ?S r1, Read ?S 0x200 0 b2] @ w @ [Token ?S r4]"])
        (auto simp: commit_ops_def split: if_splits)
  qed
qed

subsection \<open>The order that keeps the descriptor\<close>

text \<open>
  What must come right before an operation, newest first, so that one of the two pages always holds a
  descriptor: a page is programmed after its token; the descriptor page is given up (its token) only for
  the bytes that were just read from the staged page, and programmed with them; the staged page is given
  up when it was found empty, or its bytes were just programmed into the descriptor page and verified, or
  it had been given up.
\<close>

fun staged_read :: "page_op list \<Rightarrow> bytes \<Rightarrow> bool" where
  "staged_read (Read a n r bs' # Load a' k # _) bs \<longleftrightarrow>
     a = FLASH_SCRATCH_ADDR \<and> n = 0x200 \<and> r = 0 \<and> bs' = bs \<and> a' = FLASH_SCRATCH_ADDR \<and> k \<noteq> 0"
| "staged_read _ bs \<longleftrightarrow> False"

fun may_give_up :: "page_op list \<Rightarrow> bool" where
  "may_give_up (Load a k # _) \<longleftrightarrow> a = FLASH_SCRATCH_ADDR \<and> k = 0"
| "may_give_up (Token a r # _) \<longleftrightarrow> a = FLASH_SCRATCH_ADDR"
| "may_give_up (Verify a bs r # Program a' bs' r' # Token a'' r'' # p) \<longleftrightarrow>
     a = STORE_DESCRIPTOR_ADDR \<and> a' = STORE_DESCRIPTOR_ADDR \<and> a'' = STORE_DESCRIPTOR_ADDR \<and>
     r = 0 \<and> r' = 0 \<and> r'' = 0 \<and> bs' = bs \<and> staged_read p bs"
| "may_give_up _ \<longleftrightarrow> False"

fun in_order :: "page_op list \<Rightarrow> page_op \<Rightarrow> bool" where
  "in_order p (Program a bs r) \<longleftrightarrow>
     (case p of Token a' r' # p' \<Rightarrow> a' = a \<and> r' = 0 \<and> (a = STORE_DESCRIPTOR_ADDR \<longrightarrow> staged_read p' bs) | _ \<Rightarrow> False)"
| "in_order p (Token a r) \<longleftrightarrow>
     (if a = STORE_DESCRIPTOR_ADDR then (\<exists>bs. staged_read p bs) else a = FLASH_SCRATCH_ADDR \<and> may_give_up p)"
| "in_order p _ \<longleftrightarrow> True"

fun all_in_order :: "page_op list \<Rightarrow> page_op list \<Rightarrow> bool" where
  "all_in_order p [] \<longleftrightarrow> True"
| "all_in_order p (e # es) \<longleftrightarrow> in_order p e \<and> all_in_order (e # p) es"

lemma all_in_order_append: "all_in_order p (xs @ ys) \<longleftrightarrow> all_in_order p xs \<and> all_in_order (rev xs @ p) ys"
  by (induction xs arbitrary: p) simp_all

lemma staged_read_ex: "(\<exists>bs. staged_read (Read a n r bs' # Load a' k # p) bs) \<longleftrightarrow>
    a = FLASH_SCRATCH_ADDR \<and> n = 0x200 \<and> r = 0 \<and> a' = FLASH_SCRATCH_ADDR \<and> k \<noteq> 0"
  by auto

lemma commit_in_order:
  assumes "commit_ops rc src ops"
  shows "all_in_order p ops" "rc = 0 \<or> rc = -3 \<Longrightarrow> may_give_up (rev ops @ p)"
  using assms by (auto simp: commit_ops_def Let_def write_ops_def staged_read_ex simp del: staged_read.simps)
    (auto simp: Let_def)

text \<open>
  C6.  Whatever the drivers of the flash answer: a write of the descriptor gives up
  the descriptor page only when the staged page was just loaded and read without error, and programs only
  these bytes into it; it gives up the staged page only when that page was just found empty, or its bytes
  were just programmed into the descriptor page and verified, or it was given up before; so at no moment
  of the run have both pages been given up.  When it returns 0, it has put the eight bytes, padded with
  zeros, into the staged page and verified them, read that page back, put what it read into the
  descriptor page, verified it, and given up the staged page, in this order and at the end of its
  operations; else it returns -1.
\<close>

theorem descriptor_write_ordered:
  "case store_descriptor_write (history_bus v sel E) (Some s) d f of (rc, f') \<Rightarrow>
     \<exists>ops. dev f' = dev f @ ops \<and> all_in_order [] ops \<and>
       (rc = -1 \<or>
        rc = 0 \<and> (\<exists>before k src r. let S = FLASH_SCRATCH_ADDR; D = STORE_DESCRIPTOR_ADDR;
            img = take 8 d @ replicate 504 0
          in k \<noteq> 0 \<and> ops = before @
            [Token S 0, Program S img 0, Verify S img 0, Load S k, Read S 0x200 0 src,
             Token D 0, Program D src 0, Verify D src 0, Token S r]))"
proof -
  let ?m = "history_bus v sel E" and ?S = FLASH_SCRATCH_ADDR and ?D = STORE_DESCRIPTOR_ADDR
    and ?img = "take 8 d @ replicate 504 0"
  obtain r1 b1 f1 where 1: "flash_page_commit ?m s f = ((r1, b1), f1)" by (metis surj_pair)
  obtain r2 f2 where 2: "flash_page_write ?m s ?S ?img f1 = (r2, f2)" by fastforce
  obtain r3 b3 f3 where 3: "flash_page_commit ?m s f2 = ((r3, b3), f3)" by (metis surj_pair)
  obtain o1 where o1: "dev f1 = dev f @ o1" "commit_ops r1 b1 o1" using commit_does [OF 1] by blast
  obtain o2 where o2: "dev f2 = dev f1 @ o2" "write_ops ?S ?img r2 o2" using page_write_ops [OF 2] by blast
  obtain o3 where o3: "dev f3 = dev f2 @ o3" "commit_ops r3 b3 o3" using commit_does [OF 3] by blast
  have code: "store_descriptor_write ?m (Some s) d f =
      (if r1 \<noteq> -1 then (if r2 = 0 then (- (if r3 \<noteq> 0 then 1 else 0), f3) else (-1, f2)) else (-1, f1))"
    by (simp add: store_descriptor_write_def Let_def 1 2 3 cong: if_cong)
  have r: "r1 = 0 \<or> r1 = -3 \<or> r1 = -1" using o1(2) by (auto simp: commit_ops_def Let_def)
  note c1 = commit_in_order [OF o1(2), of "[]"] and c3 = commit_in_order(1) [OF o3(2)]
  have w: "all_in_order (rev o1) o2" if "r1 \<noteq> -1"
    using o2(2) c1(2) r that by (auto simp: write_ops_def)
  show ?thesis
  proof (cases "r1 \<noteq> -1 \<and> r2 = 0")
    case False
    then have "\<exists>ops. (store_descriptor_write ?m (Some s) d f = (-1, f1) \<and> ops = o1 \<or>
        store_descriptor_write ?m (Some s) d f = (-1, f2) \<and> ops = o1 @ o2 \<and> r1 \<noteq> -1)"
      using code by auto
    then show ?thesis using o1(1) o2(1) c1(1) w by (auto simp: all_in_order_append)
  next
    case True
    have all: "dev f3 = dev f @ (o1 @ o2 @ o3)" "all_in_order [] (o1 @ o2 @ o3)"
      using o1(1) o2(1) o3(1) c1(1) w True c3 by (simp_all add: all_in_order_append)
    show ?thesis
    proof (cases "r3 = 0")
      case False
      then show ?thesis using True code all by (auto intro!: exI [of _ "o1 @ o2 @ o3"])
    next
      case r3: True
      then obtain k r where "k \<noteq> 0"
        "o3 = [Load ?S k, Read ?S 0x200 0 b3, Token ?D 0, Program ?D b3 0, Verify ?D b3 0, Token ?S r]"
        using o3(2) by (auto simp: commit_ops_def write_ops_def Let_def)
      moreover have "o2 = [Token ?S 0, Program ?S ?img 0, Verify ?S ?img 0]"
        using o2(2) True by (auto simp: write_ops_def)
      ultimately show ?thesis using True r3 code all
        by (auto simp: Let_def intro!: exI [of _ "o1 @ o2 @ o3"] exI [of _ o1])
    qed
  qed
qed

text \<open>A read after it answers the staged page when there is one, and zeros when both pages are empty.\<close>

lemma descriptor_read_ops:
  assumes "store_descriptor_read (history_bus v sel E) (Some s) f = ((0, out), f')"
  shows "\<exists>ops k src r. let S = FLASH_SCRATCH_ADDR; D = STORE_DESCRIPTOR_ADDR in
    dev f' = dev f @ ops \<and>
    (ops = [Load S 0, Load D 0] \<and> out = Some (replicate 8 0) \<or>
     ops = [Load S 0, Load D k, Read D 8 0 src] \<and> k \<noteq> 0 \<and> out = Some src \<or>
     ops = [Load S k, Read S 0x200 0 src, Token D 0, Program D src 0, Verify D src 0, Token S r] \<and> k \<noteq> 0 \<and>
       out = Some (take 8 src))"
proof -
  let ?m = "history_bus v sel E"
  obtain r1 b1 f1 where 1: "flash_page_commit ?m s f = ((r1, b1), f1)" by (metis surj_pair)
  obtain r2 f2 where 2: "on_dev (page_load ?m s STORE_DESCRIPTOR_ADDR) f1 = (r2, f2)" by fastforce
  obtain r3 b3 f3 where 3: "on_dev (bus_page_read ?m s STORE_DESCRIPTOR_ADDR 8) f2 = ((r3, b3), f3)"
    by (metis surj_pair)
  obtain o1 where o1: "dev f1 = dev f @ o1" "commit_ops r1 b1 o1" using commit_does [OF 1] by blast
  note d = history_ops(4) [OF 2] history_ops(5) [OF 3]
  have code: "((0, out), f') =
      (if r1 = -3 then
         (if r2 = 0 then ((0, Some (replicate 8 0)), f2)
          else if r3 \<noteq> 0 then ((-1, Some b3),
            event_report FLASH_EVENT_CTX 0xa1 [0, STORE_DESCRIPTOR_ADDR, of_int r3] f3)
          else ((0, Some b3), f3))
       else if r1 = 0 then ((0, Some (take 8 b1)), f1) else ((r1, None), f1))"
    using assms by (simp add: store_descriptor_read_def Let_def 1 2 3 cong: if_cong)
  show ?thesis
    using code d o1 by (auto simp: commit_ops_def write_ops_def Let_def split: if_splits)
qed

end
