(* ===== verification/Store.thy ===== *)
theory Store
  imports Flash
begin

text \<open>
  The page cache of the user ECU (\<open>src/user_ecu/src/store.c\<close>): a window of pages of which the
  first is buffered, flushed by programming the buffer, and the staging of an image through it.
  \<open>None\<close> stands for an access through a null buffer or outside the buffer.
\<close>

definition STORE_PAGE_LAST :: u16 where "STORE_PAGE_LAST = 0xd9"

definition STORE_PAGE_INVALID :: u16 where "STORE_PAGE_INVALID = 0xffff"

definition FOTA_IMAGE_SIZE :: u32 where "FOTA_IMAGE_SIZE = 0x1b3fc"

definition FOTA_FOOTER_ADDR :: u32 where "FOTA_FOOTER_ADDR = 0x37200"

definition page_addr :: "u16 \<Rightarrow> u32" where "page_addr p = (ucast p + 0xe0) * 0x200"

record 'd store =
  enable :: u8
  buf :: "bytes option"
  page :: u16
  count :: u16
  flash :: "'d flash"

record 'd store_ctrl =
  cur_page :: u16
  ctrl_08 :: u16
  ctrl_10 :: u32
  ctrl_15 :: u8
  the_store :: "'d store option"

record store_range =
  range_start :: u16
  range_count :: u16

definition on_flash :: "('d flash \<Rightarrow> 'r \<times> 'd flash) \<Rightarrow> 'd store \<Rightarrow> 'r \<times> 'd store" where
  "on_flash g st = (let (r, f) = g (flash st) in (r, st\<lparr>flash := f\<rparr>))"

definition store_flush :: "'d bus \<Rightarrow> 'd store \<Rightarrow> (int \<times> 'd store) option" where
  "store_flush m st =
     (if page st = STORE_PAGE_INVALID then Some (0, st)
      else case buf st of
        None \<Rightarrow> None
      | Some b \<Rightarrow>
          (let (rc, st) = on_flash (on_dev (bus_page_program m Session (page_addr (page st)) b)) st;
               failed = (if rc \<noteq> 0 then 1 else 0);
               n = count st
           in Some (failed,
                if n \<le> 1 then st\<lparr>page := STORE_PAGE_INVALID, count := 0\<rparr>
                else st\<lparr>buf := Some (replicate 512 0xff), page := page st + 1, count := n - 1\<rparr>)))"

text \<open>The loop over the pages of the window.\<close>

fun load_tokens :: "'d bus \<Rightarrow> nat \<Rightarrow> u32 \<Rightarrow> 'd store \<Rightarrow> bool \<times> 'd store" where
  "load_tokens m 0 addr st = (True, st)"
| "load_tokens m (Suc n) addr st =
     (let (rc, st) = on_flash (on_dev (bus_transfer_token m Session addr)) st
      in if rc \<noteq> 0 then (False, st) else load_tokens m n (addr + 0x200) st)"

text \<open>The cache after the range has been loaded; the first component is the result.\<close>

definition load_window :: "'d bus \<Rightarrow> store_range \<Rightarrow> 'd store \<Rightarrow> (int \<times> 'd store) option" where
  "load_window m rng st =
     (let start = range_start rng; cnt = range_count rng
      in case store_flush m st of
           None \<Rightarrow> None
         | Some (rc, st) \<Rightarrow>
             if rc \<noteq> 0 then Some (-1, st)
             else if cnt \<noteq> 0 then
               (let cnt = (if 0xd9 < unat start + unat cnt then 0xda - start else cnt);
                    (ok, st) = load_tokens m (unat cnt) (page_addr start) st
                in if \<not> ok then Some (-1, st)
                   else if buf st = None then None
                   else Some (0, st\<lparr>buf := Some (replicate 512 0xff), page := start, count := cnt\<rparr>))
             else Some (0, st))"

definition store_load ::
  "'d bus \<Rightarrow> store_range \<Rightarrow> 'd store_ctrl \<Rightarrow> (int \<times> 'd store_ctrl) option" where
  "store_load m rng ctrl =
     (let ctrl = ctrl\<lparr>ctrl_10 := 0, ctrl_15 := 0\<rparr>
      in case the_store ctrl of
           None \<Rightarrow> Some (-1, ctrl)
         | Some st \<Rightarrow>
             if enable st = 0 then Some (-1, ctrl)
             else if STORE_PAGE_LAST < range_start rng then Some (-1, ctrl)
             else case load_window m rng st of
               None \<Rightarrow> None
             | Some (rc, st) \<Rightarrow>
                 if rc \<noteq> 0 then Some (-1, ctrl\<lparr>the_store := Some st\<rparr>)
                 else Some (0, ctrl\<lparr>the_store := Some st, cur_page := range_start rng, ctrl_08 := 0\<rparr>))"

subsection \<open>Staging an image\<close>

text \<open>The footer page is read into the buffer and patched; the session of the token is the pointer
  that the copy returned.\<close>

definition write_footer :: "'d bus \<Rightarrow> bytes \<Rightarrow> u32 \<Rightarrow> 'd store \<Rightarrow> (int \<times> 'd store) option" where
  "write_footer m src len st =
     (if buf st = None then None
      else
        let st = st\<lparr>buf := Some (replicate 512 0xff), page := STORE_PAGE_LAST, count := 1\<rparr>;
            ((rc, bs), st) = on_flash (on_dev (bus_page_read m Session FOTA_FOOTER_ADDR 0x200)) st;
            st = st\<lparr>buf := Some bs\<rparr>
        in if rc = 0 \<and> drop_bit 9 (len + (FOTA_IMAGE_SIZE - 1)) = ucast STORE_PAGE_LAST then
             (case Option.bind (slice src 0 (unat len)) (blit bs 0x1fc) of
                None \<Rightarrow> None
              | Some bs \<Rightarrow>
                  (let st = st\<lparr>buf := Some bs\<rparr>;
                       (rc, st) = on_flash (on_dev (bus_transfer_token m Buffer_tail FOTA_FOOTER_ADDR)) st
                   in if rc = 0 then store_flush m st else Some (1, st)))
           else Some (1, st))"

definition fota_image_write ::
  "'d bus \<Rightarrow> u32 \<Rightarrow> bytes \<Rightarrow> u32 \<Rightarrow> 'd store option \<Rightarrow> (int \<times> 'd store option) option" where
  "fota_image_write m off src len h = (case h of
       None \<Rightarrow> Some (1, h)
     | Some st \<Rightarrow>
         if enable st = 0 then Some (1, h)
         else if page st = STORE_PAGE_INVALID \<and> off = FOTA_IMAGE_SIZE then
           map_option (\<lambda>(rc, st). (rc, Some st)) (write_footer m src len st)
         else if FOTA_IMAGE_SIZE < off \<or> FOTA_IMAGE_SIZE < len \<or> FOTA_IMAGE_SIZE < off + len then
           Some (2, h)
         else case buf st of
           None \<Rightarrow> Some (1, h)
         | Some b \<Rightarrow>
             if ucast (page st) = drop_bit 9 off \<and> ucast (page st) = drop_bit 9 (off + len - 1) then
               (case Option.bind (slice src 0 (unat len)) (blit b (unat (off AND 0x1ff))) of
                  None \<Rightarrow> None
                | Some b \<Rightarrow> Some (0, Some (st\<lparr>buf := Some b\<rparr>)))
             else Some (1, h))"

text \<open>The checksum engine is fed by \<open>feed\<close>; its result is the third word.\<close>

fun verify_pages ::
  "'d bus \<Rightarrow> (bytes \<Rightarrow> 'c \<Rightarrow> 'c) \<Rightarrow> nat \<Rightarrow> u32 \<Rightarrow> 'c \<Rightarrow> 'd store \<Rightarrow> (bool \<times> 'c) \<times> 'd store" where
  "verify_pages m feed 0 addr c st = ((True, c), st)"
| "verify_pages m feed (Suc n) addr c st =
     (let ((rc, bs), st) = on_flash (on_dev (bus_page_read m Session addr 0x200)) st;
          st = st\<lparr>buf := Some bs\<rparr>
      in if rc \<noteq> 0 then ((False, c), st) else verify_pages m feed n (addr + 0x200) (feed bs c) st)"

definition fota_image_verify ::
  "'d bus \<Rightarrow> (bytes \<Rightarrow> 'c \<Rightarrow> 'c) \<Rightarrow> 'c \<Rightarrow> ('c \<Rightarrow> u32) \<Rightarrow> u32 \<Rightarrow> u32 \<Rightarrow> bool \<Rightarrow> 'd store option \<Rightarrow>
     (int \<times> u32 option \<times> 'd store option) option" where
  "fota_image_verify m feed seed result offset len has_out h = (case h of
       None \<Rightarrow> Some (1, None, h)
     | Some st \<Rightarrow>
         if enable st = 0 then Some (1, None, h)
         else if \<not> has_out \<or> 0x1b400 < offset + len then Some (2, None, h)
         else case store_flush m st of
           None \<Rightarrow> None
         | Some (rc, st) \<Rightarrow>
             if rc \<noteq> 0 then Some (1, None, Some st)
             else if buf st = None \<and> len \<noteq> 0 then None
             else
               let n = unat (drop_bit 9 len);
                   ((ok, c), st) = verify_pages m feed n (offset + 0x1c000) seed st
               in if \<not> ok then Some (1, None, Some st)
                  else if len AND 0x1ff \<noteq> 0 then
                    (let ((rc, bs), st) = on_flash (on_dev (bus_page_read m Session
                                            (offset + 0x1c000 + of_nat n * 0x200) 0x200)) st;
                         st = st\<lparr>buf := Some bs\<rparr>
                     in if rc \<noteq> 0 then Some (1, None, Some st)
                        else Some (0, Some (result (feed (take (unat (len AND 0x1ff)) bs) c)), Some st))
                  else Some (0, Some (result c), Some st))"

subsection \<open>The record table\<close>

text \<open>Slot \<open>n\<close> of the table is at \<open>n * 0x2a\<close>.\<close>

definition record_table_store ::
  "bytes \<Rightarrow> bytes \<Rightarrow> 'd flash \<Rightarrow> (int \<times> bytes \<times> 'd flash) option" where
  "record_table_store table rec f =
     (let index = rd16 (rec ! 0) (rec ! 1)
      in if index < 0x1f5 then
           (case Option.bind (slice rec 2 0x2a) (blit table (unat index * 0x2a)) of
              None \<Rightarrow> None
            | Some table \<Rightarrow> Some (0, table, f))
         else Some (-1, table, event_report 0x207a5327 0x114 [] f))"

subsection \<open>Accesses of the image writer\<close>

lemma page_of: "(ucast (p :: u16) :: u32) = drop_bit 9 off \<longleftrightarrow> unat p = unat off div 512"
  unfolding word_unat_eq_iff unat_drop unat_up16 by simp

lemma low9: "unat (off AND 0x1ff :: u32) = unat off mod 512"
proof -
  show ?thesis using unat_low [of off 9] by (simp add: mask_eq_exp_minus_1)
qed

lemma same_page:
  fixes off len p :: nat
  assumes "off div 512 = p" "(off + len - 1) div 512 = p" "0 < len"
  shows "off mod 512 + len \<le> 512"
proof -
  have "off = 512 * p + off mod 512" using assms(1) mult_div_mod_eq [of 512 off] by simp
  moreover have "off + len - 1 = 512 * p + (off + len - 1) mod 512"
    using assms(2) mult_div_mod_eq [of 512 "off + len - 1"] by simp
  moreover have "(off + len - 1) mod 512 < 512" by simp
  ultimately show ?thesis using assms(3) by linarith
qed


text \<open>What an accepted write does to the buffer.\<close>

definition overlay :: "bytes \<Rightarrow> u32 \<times> bytes \<Rightarrow> bytes" where
  "overlay b w = (case w of (off, src) \<Rightarrow>
     take (unat off mod 512) b @ src @ drop (unat off mod 512 + length src) b)"

lemma image_write_hit:
  assumes "enable st \<noteq> 0" "buf st = Some b" "length b = 512" "length src = unat len"
    "\<not> (page st = STORE_PAGE_INVALID \<and> off = FOTA_IMAGE_SIZE)"
  shows "fota_image_write m off src len (Some st) =
    (if FOTA_IMAGE_SIZE < off \<or> FOTA_IMAGE_SIZE < len \<or> FOTA_IMAGE_SIZE < off + len then Some (2, Some st)
     else if unat (page st) = unat off div 512 \<and> ucast (page st) = drop_bit 9 (off + len - 1)
     then Some (0, Some (st\<lparr>buf := Some (overlay b (off, src))\<rparr>))
     else Some (1, Some st))"
    and "\<not> (FOTA_IMAGE_SIZE < off \<or> FOTA_IMAGE_SIZE < len) \<Longrightarrow> unat (page st) = unat off div 512 \<Longrightarrow>
      ucast (page st) = drop_bit 9 (off + len - 1) \<Longrightarrow> length (overlay b (off, src)) = 512"
proof -
  have fits: "unat off mod 512 + unat len \<le> 512"
    if small: "\<not> (FOTA_IMAGE_SIZE < off \<or> FOTA_IMAGE_SIZE < len)" and "unat (page st) = unat off div 512"
      "ucast (page st) = drop_bit 9 (off + len - 1)"
  proof (cases "unat len = 0")
    case True
    then show ?thesis by (simp add: mod_le_divisor less_imp_le)
  next
    case False
    have l: "unat off \<le> 111612" "unat len \<le> 111612"
      using small by (simp_all add: FOTA_IMAGE_SIZE_def word_less_nat_alt not_less)
    then have s: "unat (off + len) = unat off + unat len" by (intro unat_add_no_wrap) simp
    have "unat (off + len - 1) = unat off + unat len - 1"
      using False s by (subst unat_sub_no_wrap) simp_all
    then have "unat (page st) = (unat off + unat len - 1) div 512"
      using that(3) by (simp add: page_of)
    then show ?thesis using same_page [of "unat off" "unat (page st)" "unat len"] that(2) False by simp
  qed
  have sl: "slice src 0 (unat len) = Some src" using assms(4) by (simp add: slice_def)
  show "fota_image_write m off src len (Some st) =
    (if FOTA_IMAGE_SIZE < off \<or> FOTA_IMAGE_SIZE < len \<or> FOTA_IMAGE_SIZE < off + len then Some (2, Some st)
     else if unat (page st) = unat off div 512 \<and> ucast (page st) = drop_bit 9 (off + len - 1)
     then Some (0, Some (st\<lparr>buf := Some (overlay b (off, src))\<rparr>))
     else Some (1, Some st))"
    unfolding fota_image_write_def option.case if_not_P [OF assms(5)] if_not_P [OF assms(1)] assms(2)
    using fits assms(3,4) by (simp add: page_of sl blit_def low9 overlay_def)
  show "length (overlay b (off, src)) = 512"
    if "\<not> (FOTA_IMAGE_SIZE < off \<or> FOTA_IMAGE_SIZE < len)" "unat (page st) = unat off div 512"
      "ucast (page st) = drop_bit 9 (off + len - 1)"
    using fits [OF that] assms(3,4) by (simp add: overlay_def)
qed

subsection \<open>Staging page by page\<close>

fun write_all :: "'d bus \<Rightarrow> (u32 \<times> bytes) list \<Rightarrow> 'd store \<Rightarrow> (bool \<times> 'd store) option" where
  "write_all m [] st = Some (True, st)"
| "write_all m ((off, src) # ws) st =
     (case fota_image_write m off src (of_nat (length src)) (Some st) of
        Some (rc, Some st) \<Rightarrow> if rc = 0 then write_all m ws st else Some (False, st)
      | _ \<Rightarrow> None)"

fun stage :: "'d bus \<Rightarrow> (u32 \<times> bytes) list list \<Rightarrow> 'd store \<Rightarrow> (bool \<times> 'd store) option" where
  "stage m [] st = Some (True, st)"
| "stage m (ws # rest) st =
     (case write_all m ws st of
        Some (ok, st) \<Rightarrow>
          if \<not> ok then Some (False, st)
          else (case store_flush m st of
                  Some (rc, st) \<Rightarrow> if rc = 0 then stage m rest st else Some (False, st)
                | None \<Rightarrow> None)
      | None \<Rightarrow> None)"

definition image_page :: "(u32 \<times> bytes) list \<Rightarrow> bytes" where
  "image_page ws = foldl overlay erased ws"

lemma write_all_result:
  assumes "write_all m ws st = Some (True, st')" "enable st \<noteq> 0" "buf st = Some b" "length b = 512"
    "page st \<noteq> STORE_PAGE_INVALID" "\<forall>(off, src) \<in> set ws. length src < 4294967296"
  shows "st' = st\<lparr>buf := Some (foldl overlay b ws)\<rparr> \<and> length (foldl overlay b ws) = 512"
  using assms
proof (induction ws arbitrary: st b)
  case Nil
  then show ?case by simp
next
  case (Cons w ws)
  obtain off src where w: "w = (off, src)" by (cases w)
  have len: "length src = unat (of_nat (length src) :: u32)"
    using Cons.prems(6) by (simp add: w unat_u32_of_nat)
  have nf: "\<not> (page st = STORE_PAGE_INVALID \<and> off = FOTA_IMAGE_SIZE)" using Cons.prems(5) by simp
  note hit = image_write_hit(1) [OF Cons.prems(2-4) len nf, where m = m]
    image_write_hit(2) [OF Cons.prems(2-4) len nf]
  let ?st = "st\<lparr>buf := Some (overlay b (off, src))\<rparr>"
  have r: "write_all m ws ?st = Some (True, st') \<and> length (overlay b (off, src)) = 512"
    using Cons.prems(1) hit by (auto simp: w split: if_splits)
  then have "st' = ?st\<lparr>buf := Some (foldl overlay (overlay b (off, src)) ws)\<rparr> \<and>
      length (foldl overlay (overlay b (off, src)) ws) = 512"
    using Cons.prems by (intro Cons.IH) simp_all
  then show ?case by (simp add: w)
qed


lemma unat_page_addr: "unat p \<le> 0xda \<Longrightarrow> unat (page_addr p) = (unat p + 224) * 512"
proof -
  assume p: "unat p \<le> 0xda"
  have "unat (ucast p + 0xe0 :: u32) = unat p + 224"
    using p by (subst unat_add_no_wrap) (simp_all add: unat_up16)
  moreover have "(unat p + 224) * 512 < 4294967296" using p by simp
  ultimately show ?thesis by (simp only: page_addr_def unat_word_ariths) simp
qed

lemma page_addr_inj:
  "unat p \<le> 0xda \<Longrightarrow> unat q \<le> 0xda \<Longrightarrow> page_addr p = page_addr q \<longleftrightarrow> p = q"
  by (metis unat_page_addr mult_right_cancel add_right_cancel zero_neq_numeral word_unat_eq_iff)

lemma page_addr_Suc: "page_addr (p + 1) = page_addr p + 0x200" if "unat p \<le> 0xd9"
proof -
  have "unat (p + 1) = unat p + 1" using that by (simp add: unat_word_ariths)
  moreover have "unat (page_addr p + 0x200) = unat (page_addr p) + 512"
    using that by (subst unat_add_no_wrap) (simp_all add: unat_page_addr)
  ultimately show ?thesis
    using that by (simp add: word_unat_eq_iff unat_page_addr)
qed

text \<open>The page \<open>p + i\<close> of a window.\<close>

definition nth_page :: "u16 \<Rightarrow> nat \<Rightarrow> u16" where "nth_page p i = p + of_nat i"

lemma unat_nth_page: "unat p + i \<le> 0xda \<Longrightarrow> unat (nth_page p i) = unat p + i"
  by (simp add: nth_page_def unat_word_ariths unat_of_nat)

lemma nth_page_Suc: "nth_page p (Suc i) = nth_page (p + 1) i"
  by (simp add: nth_page_def)

lemma nth_page_0 [simp]: "nth_page p 0 = p"
  by (simp add: nth_page_def)

lemma flush_program:
  assumes "store_flush (history_bus v sel E) st = Some (0, st')" "page st \<noteq> STORE_PAGE_INVALID" "buf st = Some b"
  shows "dev (flash st') = dev (flash st) @ [Program (page_addr (page st)) b 0]"
    "1 < count st \<Longrightarrow> buf st' = Some erased \<and> page st' = page st + 1 \<and> count st' = count st - 1"
    "enable st' = enable st"
proof -
  obtain rc f' where 1: "on_dev (bus_page_program (history_bus v sel E) Session (page_addr (page st)) b) (flash st) = (rc, f')"
    by fastforce
  have "rc = 0" using assms by (auto simp: store_flush_def on_flash_def 1 Let_def split: if_splits)
  moreover have "flash st' = f'" "enable st' = enable st"
    "1 < count st \<Longrightarrow> buf st' = Some erased \<and> page st' = page st + 1 \<and> count st' = count st - 1"
    using assms by (auto simp: store_flush_def on_flash_def 1 Let_def erased_def split: if_splits)
  ultimately show "dev (flash st') = dev (flash st) @ [Program (page_addr (page st)) b 0]"
    "1 < count st \<Longrightarrow> buf st' = Some erased \<and> page st' = page st + 1 \<and> count st' = count st - 1"
    "enable st' = enable st"
    using history_ops(2) [OF 1] by auto
qed

text \<open>The tokens and the programs of a window, page by page.\<close>

definition window_tokens :: "u16 \<Rightarrow> nat \<Rightarrow> page_op list" where
  "window_tokens p n = map (\<lambda>i. Token (page_addr (nth_page p i)) 0) [0..<n]"

definition window_programs :: "u16 \<Rightarrow> (u32 \<times> bytes) list list \<Rightarrow> page_op list" where
  "window_programs p rest = map (\<lambda>i. Program (page_addr (nth_page p i)) (image_page (rest ! i)) 0) [0..<length rest]"

lemma map_upt_Cons: "map f [0..<Suc n] = f 0 # map (\<lambda>i. f (Suc i)) [0..<n]"
  by (simp add: upt_conv_Cons map_Suc_upt [symmetric] del: upt_Suc)

lemma window_Suc:
  "window_tokens p (Suc n) = Token (page_addr p) 0 # window_tokens (p + 1) n"
  "window_programs p (ws # rest) = Program (page_addr p) (image_page ws) 0 # window_programs (p + 1) rest"
  unfolding window_tokens_def window_programs_def length_Cons map_upt_Cons by (simp_all add: nth_page_Suc)

lemma stage_programs:
  assumes "stage (history_bus v sel E) rest st = Some (True, st')" "enable st \<noteq> 0" "rest \<noteq> [] \<Longrightarrow> buf st = Some erased"
    "rest \<noteq> [] \<Longrightarrow> page st = p" "rest \<noteq> [] \<Longrightarrow> unat (count st) = length rest"
    "unat p + length rest \<le> 0xda" "\<forall>ws \<in> set rest. \<forall>(off, src) \<in> set ws. length src < 4294967296"
  shows "dev (flash st') = dev (flash st) @ window_programs p rest"
  using assms
proof (induction rest arbitrary: st p)
  case Nil
  then show ?case by (simp add: window_programs_def)
next
  case (Cons ws rest)
  let ?m = "history_bus v sel E"
  have buf: "buf st = Some erased" and pg: "page st = p" and cnt: "unat (count st) = Suc (length rest)"
    using Cons.prems(3-5) by simp_all
  have pv: "page st \<noteq> STORE_PAGE_INVALID"
    using Cons.prems(6) pg by (auto simp: STORE_PAGE_INVALID_def word_unat_eq_iff)
  obtain st1 where w: "write_all ?m ws st = Some (True, st1)"
    using Cons.prems(1) by (auto split: option.splits prod.splits if_splits)
  have len: "\<forall>(off, src) \<in> set ws. length src < 4294967296" using Cons.prems(7) by simp
  have st1: "st1 = st\<lparr>buf := Some (image_page ws)\<rparr>"
    using write_all_result [OF w Cons.prems(2) buf _ pv len] by (simp add: image_page_def erased_def)
  obtain st2 where f: "store_flush ?m st1 = Some (0, st2)" and rest: "stage ?m rest st2 = Some (True, st')"
    using Cons.prems(1) by (auto simp: w split: option.splits prod.splits if_splits)
  have fl: "dev (flash st2) = dev (flash st) @ [Program (page_addr p) (image_page ws) 0]"
    "1 < count st \<Longrightarrow> buf st2 = Some erased \<and> page st2 = p + 1 \<and> count st2 = count st - 1"
    "enable st2 \<noteq> 0"
    using flush_program [OF f, of "image_page ws"] pv Cons.prems(2) by (simp_all add: st1 pg)
  have "buf st2 = Some erased \<and> page st2 = p + 1 \<and> unat (count st2) = length rest" if "rest \<noteq> []"
  proof -
    have "1 < count st" using that cnt by (cases rest) (simp_all add: word_less_nat_alt)
    moreover from this have "unat (count st - 1) = length rest"
      using cnt by (simp add: unat_sub word_le_nat_alt word_less_nat_alt)
    ultimately show ?thesis using fl(2) by simp
  qed
  moreover have "unat (p + 1) = unat p + 1" using Cons.prems(6) by (simp add: unat_word_ariths)
  ultimately have "dev (flash st') = dev (flash st2) @ window_programs (p + 1) rest"
    using Cons.prems(6,7) by (intro Cons.IH [OF rest fl(3)]) auto
  then show ?case by (simp add: fl(1) window_Suc)
qed

lemma load_tokens_ops:
  assumes "load_tokens (history_bus v sel E) n (page_addr p) st = (True, st')" "unat p + n \<le> 0xda"
  shows "dev (flash st') = dev (flash st) @ window_tokens p n \<and> enable st' = enable st \<and> buf st' = buf st"
  using assms
proof (induction n arbitrary: p st)
  case 0
  then show ?case by (simp add: window_tokens_def)
next
  case (Suc n)
  obtain rc f1 where 1: "on_dev (bus_transfer_token (history_bus v sel E) Session (page_addr p)) (flash st) = (rc, f1)"
    by fastforce
  have next_addr: "page_addr p + 0x200 = page_addr (p + 1)"
    using Suc.prems(2) by (simp add: page_addr_Suc)
  have rc: "rc = 0" and run: "load_tokens (history_bus v sel E) n (page_addr (p + 1)) (st\<lparr>flash := f1\<rparr>) = (True, st')"
    using Suc.prems(1) by (auto simp: on_flash_def 1 next_addr split: if_splits)
  have "unat (p + 1) + n \<le> 0xda" using Suc.prems(2) by (simp add: unat_word_ariths)
  from Suc.IH [OF run this] show ?case using history_ops(1) [OF 1] by (simp add: rc window_Suc)
qed

lemma loaded_window:
  assumes "store_load (history_bus v sel E) rng ctrl = Some (0, ctrl')" "the_store ctrl = Some st0" "the_store ctrl' = Some st"
    "0 < unat (range_count rng)" "unat (range_start rng) + unat (range_count rng) \<le> 0xda"
  shows "enable st \<noteq> 0 \<and> buf st = Some erased \<and> page st = range_start rng \<and> count st = range_count rng \<and>
    dev (flash st) = dev (flash st0) @
      (if page st0 = STORE_PAGE_INVALID then [] else [Program (page_addr (page st0)) (the (buf st0)) 0]) @
      window_tokens (range_start rng) (unat (range_count rng))"
proof -
  let ?p = "range_start rng" and ?n = "range_count rng" and ?m = "history_bus v sel E"
  have st0: "enable st0 \<noteq> 0" "load_window ?m rng st0 = Some (0, st)"
    using assms(1-3) by (auto simp: store_load_def Let_def split: option.splits if_splits prod.splits)
  obtain st1 where st1: "store_flush ?m st0 = Some (0, st1)"
    using st0(2) by (auto simp: load_window_def Let_def split: option.splits if_splits prod.splits)
  have fl: "enable st1 = enable st0" "dev (flash st1) = dev (flash st0) @
      (if page st0 = STORE_PAGE_INVALID then [] else [Program (page_addr (page st0)) (the (buf st0)) 0])"
  proof (atomize (full), cases "page st0 = STORE_PAGE_INVALID")
    case True
    then show "enable st1 = enable st0 \<and> dev (flash st1) = dev (flash st0) @
      (if page st0 = STORE_PAGE_INVALID then [] else [Program (page_addr (page st0)) (the (buf st0)) 0])"
      using st1 by (simp add: store_flush_def)
  next
    case False
    then obtain b where "buf st0 = Some b" using st1 by (auto simp: store_flush_def split: option.splits)
    then show "enable st1 = enable st0 \<and> dev (flash st1) = dev (flash st0) @
      (if page st0 = STORE_PAGE_INVALID then [] else [Program (page_addr (page st0)) (the (buf st0)) 0])"
      using flush_program [OF st1 False] False by simp
  qed
  have clamp: "(if 0xd9 < unat ?p + unat ?n then 0xda - ?p else ?n) = ?n"
  proof (cases "0xd9 < unat ?p + unat ?n")
    case True
    then have "unat ?p + unat ?n = 0xda" using assms(5) by simp
    moreover have "unat (0xda - ?p :: u16) = 0xda - unat ?p"
      using assms(5) by (subst unat_sub) (simp_all add: word_le_nat_alt)
    ultimately show ?thesis using True by (simp add: word_unat_eq_iff)
  qed simp
  obtain ok st2 where st2: "load_tokens ?m (unat ?n) (page_addr ?p) st1 = (ok, st2)" by fastforce
  have "?n \<noteq> 0" using assms(4) by auto
  then have "ok" and st: "st = st2\<lparr>buf := Some (replicate 512 0xff), page := ?p, count := ?n\<rparr>"
    using st0(2) by (auto simp: load_window_def Let_def st1 clamp st2 split: if_splits)
  then show ?thesis
    using load_tokens_ops [OF _ assms(5), of v sel E st1 st2] st2 st0(1) fl
    by (simp add: erased_def)
qed

text \<open>
  C13.  The flash operations of staging an image, whatever the drivers answer: when a window of
  pages is loaded, chunks are written into the buffered page in any pattern, and every page is flushed,
  and all of these calls report success, then the operations were, in this order and no others: the
  program of the page that was cached before, if there was one; the token of every page of the window;
  and the program of every page of the window, each once, with the chunks written for it over a page of
  \<open>0xff\<close>.  Each of them was answered with success.
\<close>

theorem staged_image:
  assumes "store_load (history_bus v sel E) rng ctrl = Some (0, ctrl')"
    and "the_store ctrl = Some st0" "the_store ctrl' = Some st"
    and "length rest = unat (range_count rng)" "0 < length rest"
    and "unat (range_start rng) + length rest \<le> 0xda"
    and "\<forall>ws \<in> set rest. \<forall>(off, src) \<in> set ws. length src < 4294967296"
    and "stage (history_bus v sel E) rest st = Some (True, st')"
  shows "dev (flash st') = dev (flash st0) @
      (if page st0 = STORE_PAGE_INVALID then [] else [Program (page_addr (page st0)) (the (buf st0)) 0]) @
      window_tokens (range_start rng) (length rest) @ window_programs (range_start rng) rest"
proof -
  have "unat (range_start rng) + unat (range_count rng) \<le> 0xda" "0 < unat (range_count rng)"
    using assms(4-6) by simp_all
  note l = loaded_window [OF assms(1-3) this(2,1)]
  have "dev (flash st') = dev (flash st) @ window_programs (range_start rng) rest"
    by (rule stage_programs [OF assms(8) _ _ _ _ assms(6,7)]) (use l assms(4) in auto)
  then show ?thesis using l assms(4) by simp
qed

text \<open>Drivers that always succeed, and a window of two pages.\<close>

definition demo_pages :: page_env where
  "demo_pages = \<lparr>pe_token = (\<lambda>a h. 0), pe_program = (\<lambda>a b h. 0), pe_verify = (\<lambda>a b h. 0), pe_load = (\<lambda>a h. 1),
     pe_read = (\<lambda>a n h. (0, replicate n 0))\<rparr>"

definition demo_store :: "page_op list store" where
  "demo_store = \<lparr>enable = 1, buf = Some erased, page = 0xffff, count = 0,
     flash = \<lparr>dev = [], has_mgr = True, events = []\<rparr>\<rparr>"

definition demo_ctrl :: "page_op list store_ctrl" where
  "demo_ctrl = \<lparr>cur_page = 0, ctrl_08 = 0, ctrl_10 = 0, ctrl_15 = 0, the_store = Some demo_store\<rparr>"

definition demo_loaded :: "page_op list store" where
  "demo_loaded = \<lparr>enable = 1, buf = Some erased, page = 0, count = 2,
     flash = \<lparr>dev = [Token 0x1c000 0, Token 0x1c200 0], has_mgr = True, events = []\<rparr>\<rparr>"

lemma load_two: "load_tokens m 2 = load_tokens m (Suc (Suc 0))"
  by (simp add: numeral_2_eq_2)

lemma demo_load:
  "store_load (history_bus 3 0 demo_pages) \<lparr>range_start = 0, range_count = 2\<rparr> demo_ctrl =
     Some (0, demo_ctrl\<lparr>the_store := Some demo_loaded, cur_page := 0, ctrl_08 := 0\<rparr>)"
  by (simp add: store_load_def demo_ctrl_def demo_store_def STORE_PAGE_LAST_def load_window_def store_flush_def
      STORE_PAGE_INVALID_def page_addr_def load_two on_flash_def on_dev_def bus_transfer_token_def
      bus_variant_b_def history_bus_def history_driver_def demo_pages_def demo_loaded_def erased_def)

lemma demo_stage:
  "\<exists>st'. stage (history_bus 3 0 demo_pages) [[(0, [1,2,3]), (3, [4])], [(0x200, [9])]] demo_loaded = Some (True, st')"
  by (simp add: demo_loaded_def fota_image_write_def STORE_PAGE_INVALID_def FOTA_IMAGE_SIZE_def slice_def blit_def
      store_flush_def on_flash_def on_dev_def bus_page_program_def page_addr_def
      bus_variant_b_def history_bus_def history_driver_def demo_pages_def word_le_nat_alt)

theorem staged_image_witness:
  "\<exists>st'. stage (history_bus 3 0 demo_pages) [[(0, [1,2,3]), (3, [4])], [(0x200, [9])]] demo_loaded = Some (True, st') \<and>
     dev (flash st') = [Token 0x1c000 0, Token 0x1c200 0, Program 0x1c000 (image_page [(0, [1,2,3]), (3, [4])]) 0,
       Program 0x1c200 (image_page [(0x200, [9])]) 0]"
proof -
  let ?rest = "[[(0, [1,2,3]), (3, [4])], [(0x200, [9])]] :: (u32 \<times> bytes) list list"
    and ?rng = "\<lparr>range_start = 0, range_count = 2\<rparr>"
  obtain st' where st': "stage (history_bus 3 0 demo_pages) ?rest demo_loaded = Some (True, st')"
    using demo_stage by blast
  have h: "the_store demo_ctrl = Some demo_store"
    "the_store (demo_ctrl\<lparr>the_store := Some demo_loaded, cur_page := 0, ctrl_08 := 0\<rparr>) = Some demo_loaded"
    "length ?rest = unat (range_count ?rng)" "0 < length ?rest" "unat (range_start ?rng) + length ?rest \<le> 0xda"
    "\<forall>ws \<in> set ?rest. \<forall>(off, src) \<in> set ws. length src < 4294967296"
    by (simp_all add: demo_ctrl_def)
  have "dev (flash st') = window_tokens 0 (Suc (Suc 0)) @ window_programs 0 ?rest"
    using staged_image [OF demo_load h st'] by (simp add: demo_store_def STORE_PAGE_INVALID_def)
  then have "dev (flash st') = [Token 0x1c000 0, Token 0x1c200 0, Program 0x1c000 (image_page (?rest ! 0)) 0,
       Program 0x1c200 (image_page (?rest ! 1)) 0]"
    by (simp add: window_Suc) (simp add: window_tokens_def window_programs_def page_addr_def)
  then show ?thesis using st' by simp
qed

subsection \<open>The footer\<close>

lemma div512: "x div 512 = (217 :: nat) \<longleftrightarrow> 111104 \<le> x \<and> x < 111616"
  by (intro iffI conjI) linarith+

lemma footer_check:
  "drop_bit 9 (len + (FOTA_IMAGE_SIZE - 1)) = ucast STORE_PAGE_LAST \<longleftrightarrow> unat len \<le> 4 \<or> 4294966789 \<le> unat len"
proof -
  have l: "unat len < 4294967296" by (rule unat_u32_less)
  have s: "unat (len + (FOTA_IMAGE_SIZE - 1)) = (unat len + 111611) mod 4294967296"
    by (simp add: FOTA_IMAGE_SIZE_def unat_word_ariths)
  have "drop_bit 9 (len + (FOTA_IMAGE_SIZE - 1)) = ucast STORE_PAGE_LAST \<longleftrightarrow>
      unat (len + (FOTA_IMAGE_SIZE - 1)) div 512 = 217"
    unfolding word_unat_eq_iff unat_drop unat_up16 by (simp add: STORE_PAGE_LAST_def)
  also have "\<dots> \<longleftrightarrow> (unat len + 111611) mod 4294967296 div 512 = 217" by (simp only: s)
  also have "\<dots> \<longleftrightarrow> unat len \<le> 4 \<or> 4294966789 \<le> unat len"
  proof (cases "unat len + 111611 < 4294967296")
    case True
    then have "(unat len + 111611) mod 4294967296 = unat len + 111611" by (rule mod_less)
    then show ?thesis using True unfolding div512 by linarith
  next
    case False
    then have "(unat len + 111611) mod 4294967296 = unat len + 111611 - 4294967296"
      using mod_once_nat [OF l, of 111611] by simp
    then show ?thesis using False l unfolding div512 by linarith
  qed
  finally show ?thesis .
qed

text \<open>
  The footer write accepts at most four bytes, but its length check wraps:
  for a length within 507 of 2 to the 32 it passes, and the copy runs past the page buffer.
\<close>

theorem footer_overrun:
  assumes "buf st \<noteq> None" "length src = unat len"
    and "on_flash (on_dev (bus_page_read m Session FOTA_FOOTER_ADDR 0x200))
           (st\<lparr>buf := Some (replicate 512 0xff), page := STORE_PAGE_LAST, count := 1\<rparr>) = ((0, bs), st1)"
    and "length bs = 512"
  shows "(4 < unat len \<and> unat len < 4294966789 \<longrightarrow>
      write_footer m src len st = Some (1, st1\<lparr>buf := Some bs\<rparr>)) \<and>
    (4294966789 \<le> unat len \<longrightarrow> write_footer m src len st = None)"
proof -
  have s: "slice src 0 (unat len) = Some src" using assms(2) by (simp add: slice_def)
  show ?thesis
    using assms(1,2,4) footer_check [of len]
    by (auto simp: write_footer_def assms(3) s blit_def)
qed

end
