(* ===== verification/EcuRegs.thy ===== *)
theory EcuRegs
  imports Prelude
begin

text \<open>
  The register level of the user ECU: \<open>user_ecu/src/hal.c\<close>, \<open>pcc.c\<close>, \<open>clock.c\<close>,
  \<open>sysclock.c\<close>, \<open>gpio.c\<close> and \<open>gpio_irq.c\<close>.  The accesses to the volatile registers are
  logged in order, reads included; a device answers a read by the history of the accesses, so that two
  reads of a register may differ.  A loop that waits for a register is a partial function: \<open>None\<close> is
  waiting for ever.
\<close>

subsection \<open>Registers\<close>

datatype access =
    Rd u32 | Wr u32 u32 | Wr8 u32 u8 | Barrier | Busy u32
  | Handler u32 u32 u32 u32 | Alloc u32

type_synonym hw = "access list"
type_synonym device = "access list \<Rightarrow> u32 \<Rightarrow> u32"

definition mm_read :: "device \<Rightarrow> u32 \<Rightarrow> hw \<Rightarrow> u32 \<times> hw" where
  "mm_read D a h = (D h a, h @ [Rd a])"

definition mm_write :: "u32 \<Rightarrow> u32 \<Rightarrow> hw \<Rightarrow> hw" where
  "mm_write a v h = h @ [Wr a v]"

definition mm_modify :: "device \<Rightarrow> u32 \<Rightarrow> (u32 \<Rightarrow> u32) \<Rightarrow> hw \<Rightarrow> hw" where
  "mm_modify D a f h = (let (v, h) = mm_read D a h in mm_write a (f v) h)"

definition mm_writes :: "(u32 \<times> u32) list \<Rightarrow> hw \<Rightarrow> hw" where
  "mm_writes ws h = h @ map (\<lambda>(a, v). Wr a v) ws"

partial_function (option) mm_wait :: "device \<Rightarrow> u32 \<Rightarrow> (u32 \<Rightarrow> bool) \<Rightarrow> hw \<Rightarrow> hw option" where
  [code]: "mm_wait D a P h = (let (v, h) = mm_read D a h in if P v then Some h else mm_wait D a P h)"

subsection \<open>Interrupt numbers, 32 kHz clock, checksum engine\<close>

definition kIrqnTable :: "u32 list" where
  "kIrqnTable = [0x48004800, 0x48004800, 0x28004000, 0x01081000, 0, 0, 0, 0, 0]"

fun index_from :: "nat \<Rightarrow> u32 list \<Rightarrow> u32 \<Rightarrow> nat" where
  "index_from i [] key = i"
| "index_from i (x # xs) key = (if x = key then i else index_from (Suc i) xs key)"

definition irqn_to_gpio_index :: "u32 \<Rightarrow> nat" where
  "irqn_to_gpio_index irqn = index_from 0 kIrqnTable irqn"

definition GetClock_32k :: "device \<Rightarrow> hw \<Rightarrow> u32 \<times> hw" where
  "GetClock_32k D h =
     (let (b8, h) = mm_read D 0x400200b8 h;
          (none, h) = (if b8 AND 0x40 = 0 then (let (r98, h) = mm_read D 0x40020098 h in (r98 AND 1 = 0, h))
                       else (False, h))
      in if none then (0x8000, h)
         else let (b8, h) = mm_read D 0x400200b8 h
              in if b8 AND 0x80 = 0 then (let (r98, h) = mm_read D 0x40020098 h
                                          in (if r98 AND 1 \<noteq> 0 then 0x8000 else 0, h))
                 else (0, h))"

definition CSUM_DATA :: u32 where "CSUM_DATA = 0x40095008"

definition feed8 :: "u8 \<Rightarrow> hw \<Rightarrow> hw" where
  "feed8 b h = h @ [Wr8 CSUM_DATA b]"

text \<open>The unaligned head, byte by byte: the address and the bytes that are left.\<close>

fun feed_head :: "u32 \<Rightarrow> bytes \<Rightarrow> hw \<Rightarrow> u32 \<times> bytes \<times> hw" where
  "feed_head p [] h = (p, [], h)"
| "feed_head p (b # bs) h = (if p AND 3 \<noteq> 0 then feed_head (p + 1) bs (feed8 b h) else (p, b # bs, h))"

definition word_of_bytes :: "u8 \<Rightarrow> u8 \<Rightarrow> u8 \<Rightarrow> u8 \<Rightarrow> u32" where
  "word_of_bytes a b c d = ucast a OR push_bit 8 (ucast b) OR push_bit 16 (ucast c) OR push_bit 24 (ucast d)"

fun feed_words :: "bytes \<Rightarrow> hw \<Rightarrow> bytes \<times> hw" where
  "feed_words (a # b # c # d # bs) h = feed_words bs (mm_write CSUM_DATA (word_of_bytes a b c d) h)"
| "feed_words bs h = (bs, h)"

definition checksum_feed :: "u32 \<Rightarrow> bytes \<Rightarrow> hw \<Rightarrow> hw" where
  "checksum_feed p data h =
     (let (p, data, h) = feed_head p data h
      in if data = [] then h else let (tail, h) = feed_words data h in fold feed8 tail h)"

subsection \<open>Clock gates\<close>

definition pcc_gate_enable :: "u32 \<Rightarrow> hw \<Rightarrow> hw" where
  "pcc_gate_enable packed h =
     (let word_index = drop_bit 8 packed + 0x88
      in mm_write (0x40000000 + word_index * 4) (push_bit (unat (packed AND 0xff)) 1) h)"

definition pcc_gate_set :: "device \<Rightarrow> u32 \<Rightarrow> u32 \<Rightarrow> hw \<Rightarrow> hw" where
  "pcc_gate_set D block gate h =
     (let m = push_bit (unat (gate AND 0xff)) 1; (r0, h) = mm_read D block h
      in if r0 AND m = 0 then
           let (r9, h) = mm_read D (block + 0x24) h
           in if m AND r9 \<noteq> 0 then mm_write (block + 0x24) m h else h
         else h)"

definition port_clock_wait :: "device \<Rightarrow> u32 \<Rightarrow> hw \<Rightarrow> hw option" where
  "port_clock_wait D packed h =
     (let m = push_bit (unat (packed AND 0xffff)) 1; off = drop_bit 16 packed * 4;
          h = mm_write (0x40000120 + off) m h
      in case mm_wait D (0x40000100 + off) (\<lambda>v. m AND v \<noteq> 0) h of
           None \<Rightarrow> None
         | Some h \<Rightarrow> mm_wait D (0x40000100 + off) (\<lambda>v. m AND NOT v \<noteq> 0) (mm_write (0x40000140 + off) m h))"

definition nvic_irq_enable :: "u32 \<Rightarrow> hw \<Rightarrow> hw" where
  "nvic_irq_enable irq h =
     (if 0 \<le>s irq then mm_write (0xE000E100 + drop_bit 5 irq * 4) (push_bit (unat (irq AND 0x1f)) 1) h else h)"

definition nvic_clockgate_bringup :: "device \<Rightarrow> hw \<Rightarrow> hw" where
  "nvic_clockgate_bringup D h =
     (let h = mm_write 0xE000E184 2 h @ [Barrier, Barrier]; h = pcc_gate_set D 0x40004000 5 h
      in mm_write 0xE000E284 2 h)"

definition gpio_base_to_bank :: "u32 \<Rightarrow> nat" where
  "gpio_base_to_bank b = (if b = 0x40082000 then 0 else if b = 0x40082000 + 0x25000 then 1 else 2)"

definition clockgate_status_ack :: "device \<Rightarrow> u32 \<Rightarrow> hw \<Rightarrow> u32 \<times> hw" where
  "clockgate_status_ack D block h =
     (let (r, h) = mm_read D (block + 40) h; pending = drop_bit 24 r
      in (pending, if pending \<noteq> 0 then mm_modify D (block + 44) (\<lambda>v. v) h else h))"

subsection \<open>Clock dividers and sources\<close>

definition clock_div_field :: "device \<Rightarrow> u32 \<Rightarrow> hw \<Rightarrow> hw" where
  "clock_div_field D packed h =
     (if packed AND 0xfff \<noteq> 0 then
        let sel = packed AND 0xff; val = ucast (ucast (drop_bit 8 (packed AND 0xfff) - 1) :: u8) :: u32
        in if sel = 0x3f then mm_modify D 0x40020098 (\<lambda>v. (v AND NOT 1) OR (val AND 1)) h
           else if sel = 0x3e then mm_modify D 0x4002009C (\<lambda>v. (v AND NOT 0x30) OR push_bit 4 (val AND 3)) h
           else mm_write (0x40000260 + sel * 4) (val AND 0xff) h
      else h)"

definition clock_div_program :: "device \<Rightarrow> u32 \<Rightarrow> hw \<Rightarrow> hw" where
  "clock_div_program D packed h =
     (let h = clock_div_field D packed h; packed = drop_bit 12 packed
      in if packed = 0 then h else clock_div_field D packed h)"

definition Adc_ReadCh_LPO1MHz :: "device \<Rightarrow> hw \<Rightarrow> u32 \<times> hw" where
  "Adc_ReadCh_LPO1MHz D h = (let (v, h) = mm_read D 0x40000a18 h in (if v AND 0x40 \<noteq> 0 then 1000000 else 0, h))"

text \<open>The second selector, read again in every comparison.\<close>

definition clock_select_0 :: "device \<Rightarrow> hw \<Rightarrow> u32 \<times> hw" where
  "clock_select_0 D h =
     (let (s, h) = mm_read D 0x40000280 h
      in if s = 0 then
           (let (v, h) = mm_read D 0x40013010 h in (if v AND 0x4000 \<noteq> 0 then 12000000 else 0, h))
         else let (s, h) = mm_read D 0x40000280 h
      in if s = 1 then
           (let (v, h) = mm_read D 0x40013020 h
            in if v AND 0x01000000 \<noteq> 0 then mm_read D 0x20000010 h else (0, h))
         else let (s, h) = mm_read D 0x40000280 h
      in if s = 2 then Adc_ReadCh_LPO1MHz D h
         else let (s, h) = mm_read D 0x40000280 h
      in if s = 3 then
           (let (v, h) = mm_read D 0x40013010 h in (if v AND 0x40000000 \<noteq> 0 then 96000000 else 0, h))
         else (0, h))"

definition GetSystemCoreClockSource :: "device \<Rightarrow> hw \<Rightarrow> u32 \<times> hw" where
  "GetSystemCoreClockSource D h =
     (let (s, h) = mm_read D 0x40000284 h
      in if s = 1 then mm_read D 0x20001654 h
         else let (s, h) = mm_read D 0x40000284 h
      in if s = 3 then GetClock_32k D h
         else let (s, h) = mm_read D 0x40000284 h
      in if s = 0 then clock_select_0 D h else (0, h))"

text \<open>The table of interrupt numbers is an argument: it lies outside the image.\<close>

definition periph_clk_nvic_enable :: "device \<Rightarrow> (u32 \<Rightarrow> u8) \<Rightarrow> u32 \<Rightarrow> hw \<Rightarrow> hw" where
  "periph_clk_nvic_enable D tbl gate h =
     (let h = pcc_gate_set D 0x40004000 gate h;
          irqn = scast (tbl gate) :: u32;
          h = (if 0 \<le>s irqn
               then mm_write (0xE000E100 + (drop_bit 5 irqn + 0x60) * 4) (push_bit (unat (irqn AND 0x1f)) 1) h
               else h)
      in nvic_irq_enable irqn h)"

subsection \<open>GPIO\<close>

definition gpio_pin_config :: "device \<Rightarrow> u32 \<Rightarrow> u8 \<Rightarrow> u8 \<Rightarrow> hw \<Rightarrow> hw" where
  "gpio_pin_config D pin flags0 flags1 h =
     (let h = pcc_gate_enable 0xe h; m = push_bit (unat (pin AND 0xff)) 1
      in if flags0 = 0 then mm_modify D 0x4008E000 (\<lambda>v. v AND NOT m) h
         else let h = mm_write (if flags1 = 0 then 0x4008E280 else 0x4008E200) m h
              in mm_modify D 0x4008E000 (\<lambda>v. m OR v) h)"

text \<open>A record of the handler table, with its own address.\<close>

record irq_rec =
  ir_self :: u32
  ir_cb :: bool
  ir_arg :: u32
  ir_port :: u32
  ir_pin :: u8

definition irq_source :: "device \<Rightarrow> irq_rec \<Rightarrow> u32 \<Rightarrow> u32 \<Rightarrow> u32 \<Rightarrow> hw \<Rightarrow> hw" where
  "irq_source D r off edge dir h =
     (let a = ir_port r + off + ucast (drop_bit 5 (ir_pin r)) * 4; b = unat (ir_pin r AND 0x1f);
          (v, h) = mm_read D a h
      in if bit v b then
           let h = mm_write a (push_bit b 1) h
           in if ir_cb r then h @ [Handler (ir_self r) (ir_arg r) edge dir] else h
         else h)"

definition irq_record :: "device \<Rightarrow> irq_rec option \<Rightarrow> hw \<Rightarrow> hw" where
  "irq_record D slot h =
     (case slot of None \<Rightarrow> h
      | Some r \<Rightarrow> irq_source D r 0x40 0 2 (irq_source D r 0x60 1 1 (irq_source D r 0x58 1 0 h)))"

text \<open>The bank is the one of the base 0, which the code passes.\<close>

definition gpio_irq_dispatch :: "device \<Rightarrow> (nat \<Rightarrow> irq_rec option) \<Rightarrow> hw \<Rightarrow> hw" where
  "gpio_irq_dispatch D table h =
     fold (\<lambda>i. irq_record D (table (gpio_base_to_bank 0 * 23 + i))) [0..<23] h"

text \<open>An entry of a table of nine; beyond it is \<open>None\<close>.\<close>

definition nine :: "(nat \<Rightarrow> 'a) \<Rightarrow> nat \<Rightarrow> 'a option" where
  "nine t i = (if i < 9 then Some (t i) else None)"

definition gpio_bank_irq_trampoline ::
    "u32 \<Rightarrow> (nat \<Rightarrow> u32 \<Rightarrow> u32 \<Rightarrow> 's \<Rightarrow> 's) \<Rightarrow> (nat \<Rightarrow> u32) \<Rightarrow> (nat \<Rightarrow> u32) \<Rightarrow> 's \<Rightarrow> 's option" where
  "gpio_bank_irq_trampoline base isr arg0 arg1 s =
     (let i = irqn_to_gpio_index base
      in case (nine isr i, nine arg0 i, nine arg1 i) of
           (Some f, Some a, Some b) \<Rightarrow> Some (f a b s)
         | _ \<Rightarrow> None)"

definition gpio_bank_bases :: "u32 list" where
  "gpio_bank_bases = [0x40086000, 0x40087000, 0x40088000, 0x40089000, 0x4008A000, 0x40096000, 0x40097000,
     0x40098000, 0x4009F000]"

text \<open>Not a trampoline, in spite of its name: it selects the source of a peripheral's clock.\<close>

definition gpio_bank_irq_trampoline_9 ::
    "device \<Rightarrow> (nat \<Rightarrow> u16) \<Rightarrow> (nat \<Rightarrow> u32) \<Rightarrow> u32 \<Rightarrow> u32 \<Rightarrow> hw \<Rightarrow> (int \<times> hw) option" where
  "gpio_bank_irq_trampoline_9 D gates ports port_base pin_sel h =
     (let i = irqn_to_gpio_index port_base
      in case (nine gates i, nine ports i) of
           (Some g, Some p) \<Rightarrow>
             map_option (\<lambda>h.
               let (v, h) = mm_read D (port_base + 0xff8) h;
                   enabled = (if pin_sel = 5 then v AND 0x80 else drop_bit (unat ((pin_sel + 3) AND 0xff)) v AND 1)
               in if enabled = 0 then (3, h)
                  else let (v, h) = mm_read D (port_base + 0xff8) h;
                           (locked, h) = (if bit v 3 then (let (w, h) = mm_read D (port_base + 0xff8) h
                                                           in (w AND 7 \<noteq> pin_sel, h)) else (False, h))
                       in if locked then (1, h) else (0, mm_write (port_base + 0xff8) pin_sel h))
             (port_clock_wait D p (pcc_gate_enable (ucast g) h))
         | _ \<Rightarrow> None)"

text \<open>The twelve bytes of a slot: index, bank, pin, number, the address of the block, and nothing.\<close>

definition gpio_irq_register ::
    "u32 \<Rightarrow> u8 \<Rightarrow> u8 \<Rightarrow> u8 \<Rightarrow> u8 \<Rightarrow> (u8 \<Rightarrow> bytes) \<Rightarrow> (u8 \<Rightarrow> bytes)" where
  "gpio_irq_register block bank pin idx seq tbl = tbl(seq := [seq, bank, pin, idx] @ le32 block @ [0, 0, 0, 0])"

subsection \<open>The clock at start-up\<close>

definition pll_flash_clk_table :: "u32 list" where
  "pll_flash_clk_table = [0x20000021, 0x48003800, 0x48004800, 0x48004800, 0x48004800, 0x18003000, 0x38002000,
     0x48004800, 0x48004800, 0x48004800, 0x30004800, 0x00210018, 0x30001800, 0x48004800, 0x48004800, 0x10002800]"

definition pll_bring_up :: "device \<Rightarrow> hw \<Rightarrow> hw" where
  "pll_bring_up D h =
     (let h = mm_writes [(0x400200c8, 0x20), (0x40000148, 0x8000000), (0x40000228, 0x8000000), (0x400200c8, 0x20)] h;
          h = mm_modify D 0x40013010 (\<lambda>v. v OR 0x4000) h;
          h = clock_div_program D 0x00109108 h;
          h = mm_modify D 0x40000a18 (\<lambda>v. v OR 0x40) h;
          h = mm_writes [(0x40000148, 0x8000000), (0x40000228, 0x8000000), (0x400200c8, 0x20)] h;
          h = mm_modify D 0x40013010 (\<lambda>v. v OR 0x40000000) h;
          h = mm_writes [(0x400200c8, 0x100), (0x400200c8, 0x100000), (0x400200c8, 0x100), (0x400200c8, 0x100000)] h;
          h = mm_modify D 0x40000a18 (\<lambda>v. v OR 0x20) h;
          h = mm_write 0x20000010 0x00f42400 h;
          h = mm_modify D 0x40000a18 (\<lambda>v. v OR 0x20) h
      in mm_modify D 0x40013020 (\<lambda>v. v OR 0x1000000) h)"

definition trim_word :: "device \<Rightarrow> u32 \<Rightarrow> u32 \<Rightarrow> hw \<Rightarrow> u32 \<times> hw" where
  "trim_word D a other h =
     (let (v, h) = mm_read D a h
      in if bit v 0 then (let (v, h) = mm_read D a h in (drop_bit 1 v, h)) else (other, h))"

definition pll_trim :: "device \<Rightarrow> hw \<Rightarrow> u32 \<times> hw" where
  "pll_trim D h =
     (let (v, h) = mm_read D 0x0003fce8 h;
          h = (if bit v 0 then
                 let (v, h) = mm_read D 0x0003fce8 h; h = mm_write 0x40020010 (drop_bit 1 v) h;
                     (v, h) = mm_read D 0x0003fcec h
                 in mm_write 0x40020014 v h
               else h);
          (low, h) = trim_word D 0x0003fd30 0x01267ea0 h;
          (alt, h) = trim_word D 0x0003fd40 0x01267ea0 h
      in (if alt \<le> low then alt else low, h))"

definition pll_oscillator :: "device \<Rightarrow> u32 \<Rightarrow> hw \<Rightarrow> hw" where
  "pll_oscillator D sosc h =
     (let range' = (\<lambda>bits. mm_modify D 0x40020010 (\<lambda>v. (v AND 0xffe1ffff) OR bits));
          control = (\<lambda>bits. mm_modify D 0x4002001c (\<lambda>v. (v AND 0xffff83e0) OR bits))
      in if 0x0101dfa0 < sosc then
           if 0x014b1da0 < sosc then range' 0x60000 (control 0x5811 h) else range' 0xa0000 (control 0x6c16 h)
         else range' 0x100000 (control 0x7c1e h))"

text \<open>The divider of the first of the eight rows whose frequency is high enough.\<close>

fun flash_divider :: "u32 list \<Rightarrow> u32" where
  "flash_divider (d # f # rows) = (if f \<ge> 0x05b8d800 then d else flash_divider rows)"
| "flash_divider _ = 0xf"

definition pll_flash :: "device \<Rightarrow> hw \<Rightarrow> hw option" where
  "pll_flash D h =
     (let d = flash_divider pll_flash_clk_table AND 0xf;
          h = mm_write 0x40034fe8 0x1f h;
          h = mm_modify D 0x40034080 (\<lambda>v. (v AND 0xfffffff0) OR d) h;
          h = mm_write 0x40034000 2 h
      in map_option (\<lambda>h. clock_div_program D 0x20c (mm_modify D 0x40000400 (\<lambda>v. push_bit 12 d OR (v AND 0xffff0fff)) h))
           (mm_wait D 0x40034fe0 (\<lambda>v. bit v 2) h))"

definition pll_setup :: "hw \<Rightarrow> hw" where
  "pll_setup h =
     mm_writes [(0x40000580, 0x00207ca0), (0x400200c8, 0x200), (0x400200c8, 0x800000), (0x400200c0, 0x200),
       (0x400200c0, 0x800000), (0x40000588, 0x19), (0x40000588, 0x119), (0x4000058c, 0xa), (0x4000058c, 0x2a),
       (0x40000590, 0), (0x40000594, 0x100c0000), (0x40000594, 0x140c0002), (0x400200c8, 0x200),
       (0x400200c8, 0x800000)] h"

definition pll_source :: "device \<Rightarrow> hw \<Rightarrow> u32 \<times> hw" where
  "pll_source D h =
     (let (v, h) = mm_read D 0x40000290 h; sel = v AND 7
      in if sel = 0 then (0x00b71b00, h)
         else if sel = 1 then
           (let (v, h) = mm_read D 0x40013020 h in (if v AND 0x1000000 \<noteq> 0 then 0x00f42400 else 0, h))
         else if sel = 2 then Adc_ReadCh_LPO1MHz D h
         else if sel = 3 then GetClock_32k D h
         else (0, h))"

definition pll_divider :: "device \<Rightarrow> hw \<Rightarrow> u32 \<times> hw" where
  "pll_divider D h =
     (let (v, h) = mm_read D 0x40000580 h
      in if bit v 19 then (1, h)
         else let (v, h) = mm_read D 0x40000588 h; d = v AND 0xff in (if d = 0 then 1 else d, h))"

text \<open>Waits for the lock when the frequency is in range, and a fixed time otherwise.\<close>

definition pll_lock :: "device \<Rightarrow> hw \<Rightarrow> hw option" where
  "pll_lock D h =
     (let (v, h) = mm_read D 0x40000594 h
      in if 0x03fffc00 AND v \<noteq> 0 then
           let (f, h) = pll_source D h; (d, h) = pll_divider D h
           in if f div d - 100000 \<le> 0x012fa660 then mm_wait D 0x40000584 (\<lambda>v. bit v 0) h
              else Some (h @ [Busy 0x000249f0])
         else Some (h @ [Busy 0x000249f0]))"

definition pll_publish :: "device \<Rightarrow> hw \<Rightarrow> hw" where
  "pll_publish D h =
     (let h = mm_writes [(0x20001654, 0x01770000), (0x40000380, 0), (0x40000300, 0x20000000), (0x40000300, 0x40000000),
            (0x40000300, 0), (0x40000324, 0xff), (0x4000032c, 0xff), (0x40000330, 0xff), (0x40000388, 0x20000000),
            (0x40000388, 0x40000000), (0x40000388, 1), (0x4000038c, 0x20000000), (0x4000038c, 0x40000000),
            (0x4000038c, 0), (0x400003c4, 0x20000000), (0x400003c4, 0x40000000), (0x400003c4, 0),
            (0x4000030c, 0x20000000), (0x4000030c, 0x40000000), (0x4000030c, 3)] h;
          h = fold (clock_div_program D) [0x00109408, 0x315, 0x217, 0x418, 0x41c, 0x100, 0x110] h
      in mm_write 0x20000000 0x05b8d800 h)"

definition SystemClock_PllFlashInit :: "device \<Rightarrow> hw \<Rightarrow> hw option" where
  "SystemClock_PllFlashInit D h =
     (let (sosc, h) = pll_trim D (pll_bring_up D h); h = pll_oscillator D sosc h
      in case pll_flash D h of
           None \<Rightarrow> None
         | Some h \<Rightarrow> map_option (pll_publish D) (pll_lock D (pll_setup h)))"

subsection \<open>Waiting\<close>

lemma wait_steps:
  assumes "\<forall>m < n. \<not> P (D (h @ replicate m (Rd a)) a)"
  shows "mm_wait D a P h = mm_wait D a P (h @ replicate n (Rd a))"
  using assms
proof (induction n)
  case (Suc n)
  then have "mm_wait D a P h = mm_wait D a P (h @ replicate n (Rd a))" by simp
  also have "\<dots> = mm_wait D a P ((h @ replicate n (Rd a)) @ [Rd a])"
    using Suc.prems by (subst mm_wait.simps) (simp add: mm_read_def)
  also have "(h @ replicate n (Rd a)) @ [Rd a] = h @ replicate (Suc n) (Rd a)"
    by (simp add: replicate_append_same)
  finally show ?case .
qed simp

lemma wait_returns:
  assumes "P (D (h @ replicate n (Rd a)) a)"
  shows "\<exists>m \<le> n. mm_wait D a P h = Some (h @ replicate (Suc m) (Rd a))"
proof -
  define m where "m = (LEAST m. P (D (h @ replicate m (Rd a)) a))"
  have m: "P (D (h @ replicate m (Rd a)) a)" "m \<le> n" "\<forall>k < m. \<not> P (D (h @ replicate k (Rd a)) a)"
    unfolding m_def using assms by (auto intro: LeastI Least_le dest: not_less_Least)
  have "mm_wait D a P (h @ replicate m (Rd a)) = Some (h @ replicate (Suc m) (Rd a))"
    using m(1) by (subst mm_wait.simps) (simp add: mm_read_def replicate_append_same)
  then show ?thesis using wait_steps [of m P D h a] m(2,3) by (intro exI [of _ m]) simp
qed

text \<open>
  When the device shows the bit some time after an enable and drops it some time
  after a clear, the clock handshake of a port returns, and it has accessed the registers in this order:
  the enable, reads of the status, the clear, reads of the status.
\<close>

theorem clock_handshake:
  fixes packed :: u32
  assumes "m = push_bit (unat (packed AND 0xffff)) 1" "off = drop_bit 16 packed * 4"
    and "\<And>g. \<exists>i. m AND D (g @ Wr (0x40000120 + off) m # replicate i (Rd (0x40000100 + off))) (0x40000100 + off) \<noteq> 0"
    and "\<And>g. \<exists>j. m AND NOT (D (g @ Wr (0x40000140 + off) m # replicate j (Rd (0x40000100 + off))) (0x40000100 + off)) \<noteq> 0"
  shows "\<exists>i j. port_clock_wait D packed h =
    Some (h @ Wr (0x40000120 + off) m # replicate (Suc i) (Rd (0x40000100 + off)) @
            Wr (0x40000140 + off) m # replicate (Suc j) (Rd (0x40000100 + off)))"
proof -
  let ?s = "0x40000100 + off" and ?h = "h @ [Wr (0x40000120 + off) m]"
  obtain n where "m AND D (?h @ replicate n (Rd ?s)) ?s \<noteq> 0" using assms(3) [of h] by auto
  from wait_returns [of "\<lambda>v. m AND v \<noteq> 0" D ?h n ?s, OF this] obtain i where
    i: "mm_wait D ?s (\<lambda>v. m AND v \<noteq> 0) ?h = Some (?h @ replicate (Suc i) (Rd ?s))" by blast
  let ?g = "(?h @ replicate (Suc i) (Rd ?s)) @ [Wr (0x40000140 + off) m]"
  obtain n where "m AND NOT (D (?g @ replicate n (Rd ?s)) ?s) \<noteq> 0"
    using assms(4) [of "?h @ replicate (Suc i) (Rd ?s)"] by auto
  from wait_returns [of "\<lambda>v. m AND NOT v \<noteq> 0" D ?g n ?s, OF this] obtain j where
    j: "mm_wait D ?s (\<lambda>v. m AND NOT v \<noteq> 0) ?g = Some (?g @ replicate (Suc j) (Rd ?s))" by blast
  have "port_clock_wait D packed h = Some (?g @ replicate (Suc j) (Rd ?s))"
    using i j by (simp add: port_clock_wait_def mm_write_def assms(1,2) Let_def del: replicate_Suc)
  then show ?thesis by (intro exI [of _ i] exI [of _ j]) simp
qed

text \<open>A device whose status follows the writes to the enable and clear registers.\<close>

definition gate_device :: device where
  "gate_device h a = fold (\<lambda>x r. case x of
      Wr b v \<Rightarrow> if b = 0x40000120 then r OR v else if b = 0x40000140 then r AND NOT v else r | _ \<Rightarrow> r) h 0"

theorem clock_handshake_witness:
  "\<exists>i j. port_clock_wait gate_device 3 [] =
    Some ([] @ Wr (0x40000120 + 0) 8 # replicate (Suc i) (Rd (0x40000100 + 0)) @
          Wr (0x40000140 + 0) 8 # replicate (Suc j) (Rd (0x40000100 + 0)))"
proof (rule clock_handshake)
  have b: "bit (8 :: u32) 3" by (simp add: bit_numeral_rec)
  have nz: "x \<noteq> 0" if "bit x 3" for x :: u32 using that by auto
  show "\<exists>i. 8 AND gate_device (g @ Wr (0x40000120 + 0) 8 # replicate i (Rd (0x40000100 + 0))) (0x40000100 + 0) \<noteq> 0" for g
    by (rule exI [of _ 0], rule nz) (simp add: gate_device_def bit_simps b)
  show "\<exists>j. 8 AND NOT (gate_device (g @ Wr (0x40000140 + 0) 8 # replicate j (Rd (0x40000100 + 0))) (0x40000100 + 0)) \<noteq> 0" for g
    by (rule exI [of _ 0], rule nz) (simp add: gate_device_def bit_simps b)
qed simp_all

subsection \<open>The checksum engine\<close>

fun fed :: "access \<Rightarrow> bytes" where
  "fed (Wr a v) = (if a = CSUM_DATA then le32 v else [])"
| "fed (Wr8 a b) = (if a = CSUM_DATA then [b] else [])"
| "fed _ = []"

definition fed_bytes :: "hw \<Rightarrow> bytes" where
  "fed_bytes h = concat (map fed h)"

lemma fed_simps [simp]:
  "fed_bytes (feed8 b h) = fed_bytes h @ [b]" "fed_bytes (mm_write CSUM_DATA v h) = fed_bytes h @ le32 v"
  by (simp_all add: fed_bytes_def feed8_def mm_write_def)

lemma word_bytes: "le32 (word_of_bytes a b c d) = [a, b, c, d]"
  unfolding le32_def word_of_bytes_def
  by (simp, intro conjI; rule bit_word_eqI; auto simp: bit_simps dest: bit_imp_le_length)

lemma feed_head_bytes:
  "feed_head p data h = (p', data', h') \<Longrightarrow> fed_bytes h' @ data' = fed_bytes h @ data"
  by (induction p data h rule: feed_head.induct) (auto split: if_splits)

lemma feed_words_bytes: "feed_words data h = (tail, h') \<Longrightarrow> fed_bytes h' @ tail = fed_bytes h @ data"
  by (induction data h rule: feed_words.induct) (auto simp: word_bytes)

lemma feed8_bytes: "fed_bytes (fold feed8 bs h) = fed_bytes h @ bs"
  by (induction bs arbitrary: h) simp_all

text \<open>
  C37.  Whatever the alignment and the length, the accesses of the data register carry
  the bytes of the data, each once and in order.
\<close>

theorem feed_streams_data: "fed_bytes (checksum_feed p data h) = fed_bytes h @ data"
proof -
  obtain p' data' h1 where 1: "feed_head p data h = (p', data', h1)" by (cases "feed_head p data h")
  obtain tail h2 where 2: "feed_words data' h1 = (tail, h2)" by (cases "feed_words data' h1")
  show ?thesis using feed_head_bytes [OF 1] feed_words_bytes [OF 2]
    by (auto simp: checksum_feed_def 1 2 feed8_bytes)
qed

subsection \<open>The table of the interrupt trampolines\<close>

text \<open>None of the bases of the banks is in the table that the trampolines search: each of them would
  call the tenth entry of a table of nine.\<close>

lemma trampolines_out_of_bounds:
  "list_all (\<lambda>b. irqn_to_gpio_index b = 9 \<and> gpio_bank_irq_trampoline b isr arg0 arg1 s = None) gpio_bank_bases"
  by (simp add: gpio_bank_bases_def gpio_bank_irq_trampoline_def irqn_to_gpio_index_def kIrqnTable_def nine_def)

end
