(* ===== verification/CommPort.thy ===== *)
theory CommPort
  imports EcuRegs
begin

text \<open>
  Model of the serial ports of the user ECU, \<open>user_ecu/src/comm.c\<close> and \<open>comm_txisr.c\<close>: the
  instances and their line settings, the frames with their 29-bit identifiers, the FIFO interrupt, and
  the ring of descriptors that feeds the DMA engine.  Registers are accessed as in \<open>EcuRegs\<close>; the
  descriptors built for the DMA engine and the completions are traced.
\<close>

subsection \<open>Instances, descriptors and line settings\<close>

definition commport_base_to_index :: "u32 \<Rightarrow> u32" where
  "commport_base_to_index base =
     (if base = 0x40086000 then 0 else if base = 0x40086000 + 0x1000 then 1
      else if base = 0x40086000 + 0x2000 then 2 else if base = 0x40086000 + 0x3000 then 3 else 0)"

text \<open>The registry is a table of eight keys; a miss is 8.\<close>

definition commport_registry_index :: "u32 list \<Rightarrow> u32 \<Rightarrow> nat" where
  "commport_registry_index keys key = index_from 0 keys key"

record edma_tcd =
  word0 :: u32
  word1 :: u32
  word2 :: u32
  word3 :: u32

definition edma_tcd_build :: "u32 \<Rightarrow> u32 \<Rightarrow> u32 \<Rightarrow> u32 \<Rightarrow> edma_tcd \<Rightarrow> edma_tcd" where
  "edma_tcd_build cfg addr_a addr_b w3 t =
     (let code = drop_bit 8 cfg AND 3; elem_size = (if code = 2 then 4 else code + 1)
      in if addr_a = 0 \<or> addr_a \<noteq> elem_size * (addr_a div elem_size) \<or>
            addr_b = 0 \<or> addr_b \<noteq> elem_size * (addr_b div elem_size)
         then t\<lparr>word1 := 0, word2 := 0, word0 := 0\<rparr>
         else let mult = elem_size * drop_bit 16 cfg
              in t\<lparr>word0 := cfg, word1 := mult * (drop_bit 12 cfg AND 3) + addr_a,
                   word2 := mult * (drop_bit 14 cfg AND 3) + addr_b, word3 := w3\<rparr>)"

text \<open>Sets the bit of a channel in a group register.\<close>

definition channel_bit :: "u8 \<Rightarrow> u32" where
  "channel_bit ch = push_bit (unat (ch AND 0x1f)) 1"

definition channel_group :: "u8 \<Rightarrow> u32" where
  "channel_group ch = ucast (drop_bit 5 ch) * 4"

definition edma_chan_irq_enable :: "device \<Rightarrow> u32 \<Rightarrow> u8 \<Rightarrow> hw \<Rightarrow> hw" where
  "edma_chan_irq_enable D edma ch h = mm_modify D (edma + 0x50 + channel_group ch) (\<lambda>v. v OR channel_bit ch) h"

record uart_cfg =
  data_bits :: u8
  cfg_enable :: u8
  f02 :: u8
  f03 :: u8
  f04 :: u8
  target_baud :: u32
  f0c :: u8
  f0d :: u8
  f0e :: u16
  f10 :: u8
  f11 :: u8
  f12 :: u8
  f13 :: u8
  f14 :: u8
  f15 :: u8

definition uart_sbr :: "u32 \<Rightarrow> u32 \<Rightarrow> u32" where
  "uart_sbr src baud = (src * 10 div baud + 5) div 10 - 1"

definition uart_ctrl :: "uart_cfg \<Rightarrow> u32 \<Rightarrow> u32" where
  "uart_ctrl c v =
     push_bit 3 (ucast (f04 c AND 1)) OR (v AND 0xfffff042) OR push_bit 7 (ucast (data_bits c)) OR
     (ucast (f0e c) AND 0xf00) OR push_bit 4 (ucast (f03 c AND 1)) OR push_bit 5 (ucast (f02 c AND 1)) OR 4"

definition uart_format :: "uart_cfg \<Rightarrow> u32" where
  "uart_format c =
     ucast (push_bit 4 (f13 c)) OR push_bit 8 (ucast (f14 c AND 0xf)) OR (ucast (f12 c) AND 0xf) OR
     ucast (push_bit 12 (ucast (f15 c) :: u16))"

definition commport_uart_config :: "device \<Rightarrow> u32 list \<Rightarrow> u32 \<Rightarrow> uart_cfg \<Rightarrow> u32 \<Rightarrow> hw \<Rightarrow> u32 \<times> hw" where
  "commport_uart_config D keys base c src h =
     (if base = 0 \<or> target_baud c = 0 \<or> src = 0 then (4, h)
      else let sbr = uart_sbr src (target_baud c)
      in if 0x10000 \<le> sbr then (0x15e3, h)
      else let h = mm_modify D (base + 0x424) (\<lambda>v. v AND 0xffff0000) h;
               h = mm_modify D (base + 0x424) (\<lambda>v. sbr OR v) h;
               idx = of_nat (commport_registry_index keys base) :: u32;
               h = mm_modify D (base + 0x400) (uart_ctrl c) h;
               h = h @ [Wr8 (0x200070cf + idx * 2) (f0c c), Wr8 (0x200070cf + idx * 2 + 1) (f0d c)];
               h = mm_modify D (base + 0xe00) (\<lambda>v. v OR 0x30000) h;
               h = mm_modify D (base + 0xe00) (\<lambda>v. v OR 3) h;
               h = mm_modify D (base + 0xe08) (\<lambda>v. push_bit 8 (ucast (f10 c AND 0xf)) OR
                     push_bit 16 (ucast (f11 c AND 0xf)) OR (v AND 0xfff0f0ff) OR 3) h;
               h = mm_write (base + 0x404) (uart_format c) h;
               h = h @ [Wr8 (0x200070e0 + idx) 0xff]
           in (0, if cfg_enable c \<noteq> 0 then mm_modify D (base + 0x400) (\<lambda>v. v OR 1) h
                  else mm_modify D (base + 0x400) (\<lambda>v. v AND 0xfffffffe) h))"

text \<open>The tables of gates and ports are outside the image.\<close>

definition peripheral_clock_mux_select ::
    "device \<Rightarrow> (nat \<Rightarrow> u16) \<Rightarrow> (nat \<Rightarrow> u32) \<Rightarrow> u32 \<Rightarrow> u32 \<Rightarrow> hw \<Rightarrow> (int \<times> hw) option" where
  "peripheral_clock_mux_select D gates ports base source h =
     (let i = irqn_to_gpio_index base
      in case port_clock_wait D (ports i) (pcc_gate_enable (ucast (gates i)) h) of
           None \<Rightarrow> None
         | Some h \<Rightarrow>
             (let (ctrl, h) = mm_read D (base + 0xff8) h;
                  avail = (if source = 5 then ctrl AND 0x80 else drop_bit (unat ((source + 3) AND 0xff)) ctrl AND 1)
              in if avail = 0 then Some (3, h)
                 else let (v, h) = mm_read D (base + 0xff8) h
                 in if push_bit 0x1c v AND 0x80000000 \<noteq> 0 then
                      let (w, h) = mm_read D (base + 0xff8) h
                      in if w AND 7 \<noteq> source then Some (1, h) else Some (0, mm_write (base + 0xff8) source h)
                    else Some (0, mm_write (base + 0xff8) source h)))"

record isr_handle =
  ih_event :: u32
  ih_arg :: u32
  ih_pair :: "u8 \<times> u8"
  ih_rx_fill :: u8
  ih_tx_fill :: u8

record isr_tables =
  isr_handle_of :: "nat \<Rightarrow> u32"
  isr_callback_of :: "nat \<Rightarrow> u32"

text \<open>The handle with its address \<open>mem\<close>, the tables it is entered in, and the registers.\<close>

definition commport_isr_install ::
    "device \<Rightarrow> u32 list \<Rightarrow> (nat \<Rightarrow> u8 \<times> u8) \<Rightarrow> (nat \<Rightarrow> u8) \<Rightarrow> u32 \<Rightarrow> u32 \<Rightarrow> u32 \<Rightarrow> isr_tables \<Rightarrow> hw \<Rightarrow>
      isr_handle \<times> isr_tables \<times> hw" where
  "commport_isr_install D keys pairs irqns base mem arg T h =
     (let reg_idx = commport_registry_index keys base;
          gpio_idx = irqn_to_gpio_index base;
          (mode, h) = mm_read D (base + 0x400) h;
          T = T\<lparr>isr_handle_of := (isr_handle_of T)(gpio_idx := mem),
                isr_callback_of := (isr_callback_of T)(gpio_idx := (if mode AND 4 \<noteq> 0 then 0x3111 else 0x96e1))\<rparr>;
          (fifo, h) = mm_read D (base + 0xe08) h
      in (\<lparr>ih_event = 0x93cf, ih_arg = arg, ih_pair = pairs reg_idx,
           ih_rx_fill = ucast (drop_bit 8 fifo AND 0xf), ih_tx_fill = ucast (drop_bit 16 fifo AND 0xf)\<rparr>,
          T, nvic_irq_enable (scast (irqns reg_idx)) h))"

subsection \<open>Frames\<close>

text \<open>The message for the queue: length, identifier, payload; its last four bytes are \<open>spare\<close>, what the
  stack held.\<close>

definition ext_id :: "u8 \<Rightarrow> u8 \<Rightarrow> u8 \<Rightarrow> u8 \<Rightarrow> u32" where
  "ext_id b0 b1 b2 b3 =
     push_bit 21 (ucast b0) OR push_bit 13 (ucast b1) OR push_bit 5 (ucast b2) OR (ucast b3 AND 0x1f)"

definition commport_frame_message :: "bytes \<Rightarrow> bytes \<Rightarrow> bytes option" where
  "commport_frame_message spare frame =
     (let dlc = frame ! 4; n = (if dlc > 7 then 8 else dlc)
      in case slice frame 5 (unat n) of
           None \<Rightarrow> None
         | Some payload \<Rightarrow>
             blit ([n, 0, 0, 0] @ le32 (ext_id (frame ! 0) (frame ! 1) (frame ! 2) (frame ! 3)) @ replicate 8 0 @ spare)
               8 payload)"

text \<open>
  \<open>give\<close> is the queue, if there is one: what it answers to the first sixteen bytes of the message.
  \<open>None\<close> is a frame too short for its length byte.
\<close>

definition commport_frame_enqueue :: "(bytes \<Rightarrow> int) option \<Rightarrow> bytes \<Rightarrow> bytes \<Rightarrow> int option" where
  "commport_frame_enqueue give spare frame =
     (case give of
        None \<Rightarrow> Some (- 1)
      | Some g \<Rightarrow>
          (case commport_frame_message spare frame of
             None \<Rightarrow> None | Some msg \<Rightarrow> Some (if g (take 16 msg) = 1 then 0 else - 1)))"

text \<open>
  The record on the stack: identifier, length and payload over what the stack held, with the driver and
  the fourth argument in its second half.  \<open>None\<close> is a payload beyond its sixteen bytes.
\<close>

definition commport_frame_record :: "bytes \<Rightarrow> u32 \<Rightarrow> u32 \<Rightarrow> bytes \<Rightarrow> bytes option" where
  "commport_frame_record junk driver d frame =
     (let id = word_of_bytes (frame ! 4) (frame ! 5) (frame ! 6) (frame ! 7)
      in case slice frame 8 (unat (frame ! 0)) of
           None \<Rightarrow> None
         | Some payload \<Rightarrow>
             blit ([ucast (drop_bit 21 id), ucast (drop_bit 13 id), ucast (drop_bit 5 id), ucast (id AND 0x1f),
                    frame ! 0] @ junk @ le32 driver @ le32 d) 5 payload)"

definition commport_frame_encode_dispatch ::
    "(bytes \<Rightarrow> int) \<Rightarrow> bytes \<Rightarrow> u32 \<Rightarrow> u32 \<Rightarrow> bytes \<Rightarrow> bool option" where
  "commport_frame_encode_dispatch dispatch junk driver d frame =
     map_option (\<lambda>r. dispatch r = 0) (commport_frame_record junk driver d frame)"

text \<open>Reading a frame out of the ring of the DMA engine: where it lies, and the head that is stored.\<close>

definition ring_stride :: "u32 \<Rightarrow> u32" where
  "ring_stride code = (if code > 4 then push_bit 2 code - 10 else code + 4)"

definition commport_dma_ring_read_frame :: "device \<Rightarrow> (u32 \<Rightarrow> u8) \<Rightarrow> u32 \<Rightarrow> int \<Rightarrow> hw \<Rightarrow> bytes \<times> u32 \<times> hw" where
  "commport_dma_ring_read_frame D mem obj channel h =
     (let (mode, h) = mm_read D (obj + 0xbc) h;
          code = (if channel = 0 then mode AND 7 else drop_bit 4 mode AND 7);
          (saddr, h) = mm_read D (obj + (if channel = 0 then 0xa0 else 0xb0)) h;
          (control, h) = mm_read D (obj + (if channel = 0 then 0xa4 else 0xb4)) h;
          entry = (drop_bit 8 control AND 0x3f) * ring_stride code;
          byte_off = (saddr AND 0xfffc) AND 0xffff;
          (ring, h) = mm_read D (obj + 0x200) h;
          src = ring + byte_off + entry * 4;
          rec = map (\<lambda>i. mem (src + of_nat i)) [0..<8];
          (c, h) = mm_read D (obj + (if channel = 0 then 0xa4 else 0xb4)) h
      in (rec, src + 8, mm_write (obj + (if channel = 0 then 0xa8 else 0xb8)) (drop_bit 8 c AND 0x3f) h))"

subsection \<open>The receive callback\<close>

record rx_ring =
  notify_obj :: bool
  rx_head :: u32
  rx_tail :: u32
  rx_f40 :: u32
  rx_seq :: u8

datatype rx_call = RaiseMask | RestoreMask | PushFrame | RemoveWaiter | SignalOut

text \<open>
  \<open>ring\<close> and \<open>frame\<close> may be null; \<open>woken\<close> is what the list operation answers.  \<open>None\<close> is an
  assertion that spins.
\<close>

definition commport_rx_complete_cb ::
    "bool \<Rightarrow> rx_ring option \<Rightarrow> bool \<Rightarrow> bool \<Rightarrow> (int \<times> rx_ring \<times> rx_call list) option" where
  "commport_rx_complete_cb woken ring frame signal_out =
     (case ring of
        None \<Rightarrow> None
      | Some r \<Rightarrow>
          if \<not> frame \<and> rx_f40 r \<noteq> 0 then None
          else if rx_head r < rx_tail r then
            (if rx_seq r = 0xff then
               Some (1, r, [RaiseMask, PushFrame] @
                 (if notify_obj r then RemoveWaiter # (if woken \<and> signal_out then [SignalOut] else []) else []) @
                 [RestoreMask])
             else if rx_seq r = 0x7f then None
             else Some (1, r\<lparr>rx_seq := rx_seq r + 1\<rparr>, [RaiseMask, PushFrame, RestoreMask]))
          else Some (0, r, [RaiseMask, RestoreMask]))"

definition commport_irq_dispatch_inst3 ::
    "(nat \<Rightarrow> u32 \<Rightarrow> u32 \<Rightarrow> 's \<Rightarrow> 's) \<Rightarrow> (nat \<Rightarrow> u32) \<Rightarrow> (nat \<Rightarrow> u32) \<Rightarrow> 's \<Rightarrow> 's" where
  "commport_irq_dispatch_inst3 cb bases handles s =
     (let i = irqn_to_gpio_index 0x40089000 in cb i (bases i) (handles i) s)"

record event_block =
  eb_handler :: bool
  eb_arg :: u32

text \<open>The block is read inside the critical section; \<open>None\<close> is the assertion.\<close>

definition event_handler_dispatch :: "event_block option \<Rightarrow> (u32 \<Rightarrow> 's \<Rightarrow> 's) \<Rightarrow> 's \<Rightarrow> 's option" where
  "event_handler_dispatch obj handler s =
     (case obj of None \<Rightarrow> None | Some b \<Rightarrow> Some (if eb_handler b then handler (eb_arg b) s else s))"

subsection \<open>The FIFO interrupt\<close>

record xfer =
  tx_src :: u32
  rx_dst :: u32
  tx_remaining :: u32
  rx_remaining :: u32
  x_inflight :: u8
  elem_width :: u8
  clr_shift :: u8
  rx_wm :: u8
  tx_wm :: u8
  x_result :: u32
  x_callback :: bool
  x_cb_arg :: u32
  x_flags :: u32
  x_mem :: "u32 \<Rightarrow> u8"
  x_hw :: hw

definition x_read :: "device \<Rightarrow> u32 \<Rightarrow> xfer \<Rightarrow> u32 \<times> xfer" where
  "x_read D a x = (let (v, h) = mm_read D a (x_hw x) in (v, x\<lparr>x_hw := h\<rparr>))"

definition x_write :: "u32 \<Rightarrow> u32 \<Rightarrow> xfer \<Rightarrow> xfer" where
  "x_write a v x = x\<lparr>x_hw := mm_write a v (x_hw x)\<rparr>"

definition x_modify :: "device \<Rightarrow> u32 \<Rightarrow> (u32 \<Rightarrow> u32) \<Rightarrow> xfer \<Rightarrow> xfer" where
  "x_modify D a f x = x\<lparr>x_hw := mm_modify D a f (x_hw x)\<rparr>"

definition pending_words :: "xfer \<Rightarrow> u32" where
  "pending_words x = (if 0 <s x_inflight x then ucast (x_inflight x) else 0)"

definition store_rx :: "u8 \<Rightarrow> xfer \<Rightarrow> xfer" where
  "store_rx b x = x\<lparr>x_mem := (x_mem x)(rx_dst x := b), rx_dst := rx_dst x + 1, rx_remaining := rx_remaining x - 1\<rparr>"

definition fifo_rx :: "device \<Rightarrow> u32 \<Rightarrow> xfer \<Rightarrow> bool \<times> xfer" where
  "fifo_rx D base x =
     (let (st, x) = x_read D (base + 0xe04) x
      in if st AND 0x40 \<noteq> 0 then
           let (w, x) = x_read D (base + 0xe30) x;
               x = (if rx_remaining x \<noteq> 0 then
                      let x = store_rx (ucast w) x
                      in if elem_width x > 7 then store_rx (ucast (drop_bit 8 w)) x else x
                    else x)
           in (True, x\<lparr>x_inflight := x_inflight x - 1\<rparr>)
         else (False, x))"

definition take_tx :: "xfer \<Rightarrow> u8 \<times> xfer" where
  "take_tx x = (x_mem x (tx_src x), x\<lparr>tx_src := tx_src x + 1, tx_remaining := tx_remaining x - 1\<rparr>)"

text \<open>The word to be sent with the template, or \<open>None\<close> when no more words are to be issued.\<close>

definition fifo_word :: "u8 \<Rightarrow> u32 \<Rightarrow> u32 \<Rightarrow> u32 \<Rightarrow> xfer \<Rightarrow> (u32 \<times> u32 \<times> xfer) option" where
  "fifo_word fill eot tmpl pending x =
     (let want = push_bit (unat (drop_bit 3 (elem_width x))) (pending + 1);
          filler = (ucast fill :: u32) OR push_bit 8 (ucast fill);
          last = (if rx_remaining x = want then tmpl OR eot else tmpl)
      in if tx_remaining x = 0 then
           (if rx_remaining x < want then None else Some (filler, last, x))
         else if tx_src x = 0 then Some (filler, last, x)
         else let (lo, x) = take_tx x;
                  (word, x) = (if elem_width x > 7
                               then (let (hi, x) = take_tx x in ((ucast lo :: u32) OR push_bit 8 (ucast hi), x))
                               else (ucast lo, x))
              in Some (word, (if tx_remaining x = 0 then tmpl OR eot else tmpl), x))"

text \<open>One pass: whether the loop goes on, the template, the transfer.\<close>

definition fifo_pass :: "device \<Rightarrow> u32 \<Rightarrow> u8 \<Rightarrow> u32 \<Rightarrow> u32 \<Rightarrow> u32 \<Rightarrow> xfer \<Rightarrow> bool \<times> u32 \<times> xfer" where
  "fifo_pass D base fill half_wm eot tmpl x =
     (let (received, x) = fifo_rx D base x; pending = pending_words x;
          (st, x) = x_read D (base + 0xe04) x
      in if st AND 0x20 = 0 \<or> half_wm \<le> pending then (received, tmpl, x)
         else case fifo_word fill eot tmpl pending x of
                None \<Rightarrow> (received, tmpl, x)
              | Some (word, tmpl, x) \<Rightarrow>
                  (True, tmpl, (x_write (base + 0xe20) (word OR tmpl) x)\<lparr>x_inflight := x_inflight x + 1\<rparr>))"

partial_function (option) fifo_pump :: "device \<Rightarrow> u32 \<Rightarrow> u8 \<Rightarrow> u32 \<Rightarrow> u32 \<Rightarrow> u32 \<Rightarrow> xfer \<Rightarrow> xfer option" where
  [code]: "fifo_pump D base fill half_wm eot tmpl x =
     (let (again, tmpl, x) = fifo_pass D base fill half_wm eot tmpl x
      in if again then fifo_pump D base fill half_wm eot tmpl x else Some x)"

definition fifo_idle :: "xfer \<Rightarrow> bool" where
  "fifo_idle x \<longleftrightarrow> tx_remaining x = 0 \<and> rx_remaining x = 0 \<and> x_inflight x = 0"

definition fifo_complete :: "device \<Rightarrow> u32 \<Rightarrow> xfer \<Rightarrow> xfer" where
  "fifo_complete D base x =
     (let x = x_write (base + 0xe14) 0xc x;
          x = x_modify D (base + 0xe08) (\<lambda>v. push_bit 16 (ucast (tx_wm x AND 0xf)) OR
                push_bit 8 (ucast (rx_wm x AND 0xf)) OR (v AND 0xfff0ffff)) x;
          x = x\<lparr>x_result := 0x15e1\<rparr>
      in if \<not> x_callback x then x else x\<lparr>x_hw := x_hw x @ [Handler base (x_result x) (x_cb_arg x) 0]\<rparr>)"

definition rx_level :: "u32 \<Rightarrow> u32" where
  "rx_level v = drop_bit 16 (v AND 0xfffff) + 1"

definition set_level :: "device \<Rightarrow> u32 \<Rightarrow> u32 \<Rightarrow> xfer \<Rightarrow> xfer" where
  "set_level D base n x = x_modify D (base + 0xe08) (\<lambda>v. (v AND 0xfff0ffff) OR push_bit 16 (n - 1)) x"

definition fifo_rearm :: "device \<Rightarrow> u32 \<Rightarrow> u32 \<Rightarrow> xfer \<Rightarrow> xfer" where
  "fifo_rearm D base rx_words x =
     (let (v, x) = x_read D (base + 0xe08) x
      in if rx_words < rx_level v then set_level D base rx_words x else x)"

definition fifo_levels :: "device \<Rightarrow> u32 \<Rightarrow> xfer \<Rightarrow> xfer" where
  "fifo_levels D base x =
     (let rx_words = drop_bit (unat (drop_bit 3 (elem_width x))) (rx_remaining x); pending = pending_words x
      in if tx_remaining x = 0 \<and> pending < rx_words then fifo_rearm D base rx_words x
         else let x = (if tx_remaining x = 0 then x_write (base + 0xe14) 4 x else x)
              in if rx_words = 0 then
                   if tx_remaining x \<noteq> 0 then x
                   else if pending = 0 then x
                   else let (v, x) = x_read D (base + 0xe08) x
                        in if rx_level v \<le> pending then x else set_level D base pending x
                 else fifo_rearm D base rx_words x)"

text \<open>\<open>fill\<close> is the table of idle patterns.\<close>

definition commport_fifo_isr :: "device \<Rightarrow> u32 list \<Rightarrow> (nat \<Rightarrow> u8) \<Rightarrow> u32 \<Rightarrow> xfer \<Rightarrow> xfer option" where
  "commport_fifo_isr D keys fill base x =
     (if fifo_idle x then Some (fifo_complete D base x)
      else let (ctrl, x) = x_read D (base + 0xe00) x; flags = x_flags x;
               tmpl = (NOT (push_bit (unat (ucast (clr_shift x) + 0x10 AND (0xff :: u32))) 1) AND 0xf0000) OR
                 (flags AND 0x200000) OR push_bit 24 (ucast (elem_width x AND 0xf));
               half_wm = drop_bit 1 ctrl AND 0x18
           in case fifo_pump D base (fill (commport_registry_index keys base)) half_wm (flags AND 0x100000) tmpl x of
                None \<Rightarrow> None
              | Some x \<Rightarrow>
                  Some (if fifo_idle x then
                          x_modify D (base + 0xe10) (\<lambda>v. v OR 4) (x_modify D (base + 0xe08) (\<lambda>v. v AND 0xfffff0ff) x)
                        else fifo_levels D base x))"

subsection \<open>The ring of descriptors\<close>

record cell =
  c_buf :: u32
  c_len :: u32

datatype tx_event =
    Build u32 edma_tcd
  | Done u32 u32 u32

text \<open>
  A port: the job with its four slots, and the block of the channel in the ring with its four cells and
  the lengths of the chunks under way.  In a slot \<open>c_buf\<close> and \<open>c_len\<close> are the words the code calls
  \<open>len\<close> and \<open>remaining\<close> there.
\<close>

record port =
  job_state :: u32
  job_mode :: u32
  job_slots :: "nat \<Rightarrow> cell"
  wr_idx :: nat
  head_idx :: nat
  done_cb :: bool
  cb_arg :: u32
  edma_base :: u32
  edma_ch :: u8
  chunk_len :: "nat \<Rightarrow> u16"
  len_idx :: nat
  desc_idx :: nat
  inflight :: nat
  tcd_idx :: nat
  rd_idx :: nat
  cells :: "nat \<Rightarrow> cell"
  flip :: u32
  tcds :: "u32 \<Rightarrow> edma_tcd"
  tx_trace :: "tx_event list"
  port_hw :: hw

definition CITER_MASK :: u32 where "CITER_MASK = 0x03ff0000"
definition TCD_SCRATCH :: u32 where "TCD_SCRATCH = 0x20000570"
definition CHAIN_TCD_DST :: u32 where "CHAIN_TCD_DST = 0x20001e60"
definition CHAIN_TCD_ATTR :: u32 where "CHAIN_TCD_ATTR = 0x00010203"
definition CHAIN_TCD_SRC :: u32 where "CHAIN_TCD_SRC = 0x20001e64"

definition port_regs :: "(hw \<Rightarrow> hw) \<Rightarrow> port \<Rightarrow> port" where
  "port_regs f p = p\<lparr>port_hw := f (port_hw p)\<rparr>"

definition build_tcd :: "u32 \<Rightarrow> u32 \<Rightarrow> u32 \<Rightarrow> u32 \<Rightarrow> u32 \<Rightarrow> port \<Rightarrow> port" where
  "build_tcd where' cfg a b next' p =
     (let t = edma_tcd_build cfg a b next' (tcds p where')
      in p\<lparr>tcds := (tcds p)(where' := t), tx_trace := tx_trace p @ [Build where' t]\<rparr>)"

text \<open>The length of the next chunk of a descriptor.\<close>

definition drain_chunk :: "u32 \<Rightarrow> u32" where
  "drain_chunk rem =
     (if rem \<ge> 0x2000 then 0x1000
      else if rem \<le> 0x1000 then ucast (ucast rem :: u16)
      else let t = drop_bit 1 rem AND 0xffff in if rem AND 6 \<noteq> 0 then ucast (ucast (t AND NOT 3) :: u16) else t)"

definition prime_chunk :: "u32 \<Rightarrow> u32" where
  "prime_chunk v =
     (if v \<ge> 0x2000 then 0x1000
      else if v \<le> 0x1000 then ucast (ucast v :: u16)
      else if v AND 6 = 0 then drop_bit 1 (v AND 0x1ffff)
      else ucast (ucast (ucast (drop_bit 16 (push_bit 15 v)) AND (0xfffc :: u32)) :: u16))"

definition xfer_field :: "u32 \<Rightarrow> u32" where
  "xfer_field fmt = (if fmt = 4 then 0x200 else push_bit 8 (fmt - 1) AND 0x300)"

text \<open>The cell that is read has given a chunk to the engine; an empty one is left.\<close>

definition advance_cell :: "u32 \<Rightarrow> port \<Rightarrow> port" where
  "advance_cell n p =
     (let i = rd_idx p; c = cells p i; c = c\<lparr>c_len := c_len c - n, c_buf := c_buf c + n\<rparr>
      in if c_len c = 0 then p\<lparr>cells := (cells p)(i := c\<lparr>c_buf := 0\<rparr>), rd_idx := (i + 1) mod 4\<rparr>
         else p\<lparr>cells := (cells p)(i := c)\<rparr>)"

definition note_chunk :: "u32 \<Rightarrow> port \<Rightarrow> port" where
  "note_chunk n p =
     p\<lparr>chunk_len := (chunk_len p)(desc_idx p := ucast n), desc_idx := (desc_idx p + 1) mod 2\<rparr>"

definition tcd_slot :: "u32 \<Rightarrow> nat \<Rightarrow> u32" where
  "tcd_slot idx k = TCD_SCRATCH + (of_nat k + idx * 2) * 0x10"

text \<open>The configuration word of a chunk of the ring, and of the first one.\<close>

definition chunk_attr :: "u32 \<Rightarrow> u32 \<Rightarrow> bool \<Rightarrow> u32 \<Rightarrow> u32" where
  "chunk_attr fmt fl tx n =
     (let loops = n div fmt
      in push_bit 5 fl OR xfer_field fmt OR push_bit 4 (fl XOR 1) OR (if tx then 0x1000 else 0x4000) OR
         (CITER_MASK AND push_bit 16 (loops - 1)) OR 3)"

definition prime_attr :: "u32 \<Rightarrow> u32 \<Rightarrow> u32" where
  "prime_attr mode words =
     (let attr = (if mode = 4 then 0x223 else (push_bit 8 (mode - 1) AND 0x300) OR 0x23)
      in (CITER_MASK AND push_bit 16 (words div mode - 1)) OR attr OR 0x4000)"

definition drain_step :: "u32 \<Rightarrow> port \<Rightarrow> port" where
  "drain_step base p =
     (let idx = commport_base_to_index base;
          c = cells p (rd_idx p); tx = job_state p = 1;
          a = (if tx then c_buf c else base + 0xe30); b = (if tx then base + 0xe20 else c_buf c);
          cur = tcd_slot idx (tcd_idx p);
          p = p\<lparr>tcd_idx := (tcd_idx p + 1) mod 2\<rparr>;
          next' = tcd_slot idx (tcd_idx p);
          n = drain_chunk (c_len c);
          p = note_chunk n p;
          p = build_tcd cur (chunk_attr (job_mode p) (flip p) tx n) a b next' p;
          p = p\<lparr>inflight := inflight p + 1, flip := flip p XOR 1\<rparr>
      in advance_cell n p)"

lemma drain_step_inflight: "inflight (drain_step base p) = Suc (inflight p)"
  by (simp add: drain_step_def advance_cell_def note_chunk_def build_tcd_def Let_def)

function commport_ring_drain :: "u32 \<Rightarrow> port \<Rightarrow> port" where
  "commport_ring_drain base p =
     (if inflight p > 1 then p
      else if c_len (cells p (rd_idx p)) = 0 then p
      else commport_ring_drain base (drain_step base p))"
  by pat_completeness auto

termination
  by (relation "measure (\<lambda>(base, p). 2 - inflight p)") (auto simp: drain_step_inflight)

text \<open>Starting the idle engine; \<open>tcd_base\<close> is the table of the engine's own descriptors.\<close>

definition prime_dma :: "device \<Rightarrow> (nat \<Rightarrow> u32) \<Rightarrow> u32 \<Rightarrow> port \<Rightarrow> port" where
  "prime_dma D tcd_base base p =
     (let idx = commport_base_to_index base;
          p = p\<lparr>job_state := 2\<rparr>;
          c = cells p (rd_idx p); words = prime_chunk (c_len c); saddr = c_buf c;
          p = p\<lparr>inflight := 1, flip := 0\<rparr>;
          attr = prime_attr (job_mode p) words;
          main = tcd_slot idx 0;
          p = build_tcd (tcd_base (gpio_base_to_bank (edma_base p)) + ucast (edma_ch p) * 0x10) attr (base + 0xe30) saddr main p;
          p = port_regs (mm_write (edma_base p + ucast (edma_ch p) * 0x10 + 0x408) attr) p;
          p = note_chunk words p;
          p = advance_cell words p;
          chain = tcd_slot idx 1;
          a = (if job_state p = 1 then CHAIN_TCD_SRC else base + 0xe30);
          b = (if job_state p = 1 then base + 0xe20 else CHAIN_TCD_DST);
          p = build_tcd main CHAIN_TCD_ATTR a b chain p;
          p = build_tcd chain CHAIN_TCD_ATTR a b main p
      in p)"

definition prime_registers :: "device \<Rightarrow> u32 \<Rightarrow> port \<Rightarrow> hw \<Rightarrow> hw" where
  "prime_registers D base p h =
     (let h = mm_modify D (base + 0xe00) (\<lambda>v. v OR (if job_state p = 1 then 0x1000 else 0x2000)) h;
          edma = edma_base p; ch = ucast (edma_ch p) :: u32;
          h = mm_modify D (edma + ch * 0x10 + 0x400) (\<lambda>v. v OR 1) h;
          h = mm_modify D (edma + 0x20 + channel_group (edma_ch p)) (\<lambda>v. v OR channel_bit (edma_ch p)) h;
          (v, h) = mm_read D (edma + (ch + 0x40) * 0x10) h;
          h = (if \<not> bit v 1 then mm_modify D (edma + ch * 0x10 + 0x408) (\<lambda>v. v OR 4) h else h)
      in mm_modify D (base + 0xc00) (\<lambda>v. v OR 1) h)"

text \<open>The request as it enters the rings, or \<open>None\<close> when it is refused.\<close>

definition accept_request :: "u32 \<Rightarrow> u32 \<Rightarrow> port \<Rightarrow> port option" where
  "accept_request buf len p =
     (if len = 0 \<or> (buf OR len) AND 3 \<noteq> 0 then None
      else if c_len (job_slots p (wr_idx p)) \<noteq> 0 then None
      else let w = wr_idx p; c = \<lparr>c_buf = buf, c_len = len\<rparr>
           in Some (p\<lparr>cells := (cells p)(w := c), job_slots := (job_slots p)(w := c), wr_idx := (w + 1) mod 4\<rparr>))"

definition commport_can_transmit :: "device \<Rightarrow> (nat \<Rightarrow> u32) \<Rightarrow> u32 \<Rightarrow> u32 \<Rightarrow> u32 \<Rightarrow> port \<Rightarrow> port" where
  "commport_can_transmit D tcd_base base buf len p =
     (let p = port_regs (edma_chan_irq_enable D (edma_base p) (edma_ch p)) p;
          p = (case accept_request buf len p of
                 None \<Rightarrow> p
               | Some p \<Rightarrow>
                   commport_ring_drain base
                     (if job_state p = 0 then (let p = prime_dma D tcd_base base p in port_regs (prime_registers D base p) p)
                      else p))
      in if job_state p \<noteq> 0
         then port_regs (mm_modify D (edma_base p + 0x48 + channel_group (edma_ch p)) (\<lambda>v. v OR channel_bit (edma_ch p))) p
         else p)"

text \<open>The chunk at the front is done; a slot without a rest is left, and its completion is called.\<close>

definition retire_chunk :: "port \<Rightarrow> port" where
  "retire_chunk p =
     (let i = len_idx p; n = chunk_len p i; s = job_slots p (head_idx p)
      in if inflight p \<noteq> 0 then
           p\<lparr>job_slots := (job_slots p)(head_idx p := \<lparr>c_buf = ucast n + c_buf s, c_len = c_len s - ucast n\<rparr>),
             chunk_len := (chunk_len p)(i := 0), len_idx := (i + 1) mod 2, inflight := inflight p - 1\<rparr>
         else p)"

definition finish_slot :: "u32 \<Rightarrow> port \<Rightarrow> port" where
  "finish_slot base p =
     (let i = head_idx p; s = job_slots p i
      in if c_len s = 0 then
           let p = p\<lparr>job_slots := (job_slots p)(i := s\<lparr>c_buf := 0\<rparr>), head_idx := (i + 1) mod 4\<rparr>
           in if done_cb p then p\<lparr>tx_trace := tx_trace p @ [Done base 0xa8c (cb_arg p)]\<rparr> else p
         else p)"

text \<open>Emptying the FIFO in the direction 1: nine looks at the status at most, a pause between them.\<close>

fun rx_flush_wait :: "device \<Rightarrow> u32 \<Rightarrow> nat \<Rightarrow> hw \<Rightarrow> hw" where
  "rx_flush_wait D base 0 h = h"
| "rx_flush_wait D base (Suc n) h =
     (let (v, h) = mm_read D (base + 0xe04) h
      in if \<not> bit v 4 \<and> n \<noteq> 0 then rx_flush_wait D base n (h @ [Busy 0xc35]) else h)"

definition rx_flush :: "device \<Rightarrow> u32 \<Rightarrow> hw \<Rightarrow> hw" where
  "rx_flush D base h =
     (let h = rx_flush_wait D base 9 h;
          h = mm_write (base + 0xe20) 0 h;
          (v, h) = mm_read D (base + 0xe04) h;
          h = (if \<not> bit v 4 then snd (mm_read D (base + 0xe04) (h @ [Busy 0xc35])) else h)
      in snd (mm_read D (base + 0xe04) h))"

definition stop_dma :: "device \<Rightarrow> u32 \<Rightarrow> port \<Rightarrow> hw \<Rightarrow> hw option" where
  "stop_dma D base p h =
     (let h = edma_chan_irq_enable D (edma_base p) (edma_ch p) h;
          edma = edma_base p; g = channel_group (edma_ch p); b = channel_bit (edma_ch p);
          h = mm_modify D (edma + 0x28 + g) (\<lambda>v. v OR b) h
      in case mm_wait D (edma + 0x38 + g) (\<lambda>v. v AND b = 0) h of
           None \<Rightarrow> None
         | Some h \<Rightarrow>
             let h = mm_modify D (edma + 0x78 + g) (\<lambda>v. v OR b) h;
                 h = mm_modify D (edma + 0x20 + g) (\<lambda>v. v OR b) h;
                 keep = (if job_state p = 1 then 0xffffefff else 0xffffdfff);
                 set' = (if job_state p = 1 then 0x10000 else 0x20000);
                 h = mm_modify D (base + 0xe00) (\<lambda>v. v AND keep) h;
                 h = mm_modify D (base + 0xe00) (\<lambda>v. v OR set') h
             in Some (mm_modify D (base + 0xc00) (\<lambda>v. v AND 0xfffffffe) h))"

definition reset_rings :: "port \<Rightarrow> port" where
  "reset_rings p =
     (let none = (\<lambda>_. \<lparr>c_buf = 0, c_len = 0\<rparr>)
      in p\<lparr>job_state := 0, job_slots := none, head_idx := 0, wr_idx := 0, cells := none, chunk_len := (\<lambda>_. 0),
           len_idx := 0, desc_idx := 0, inflight := 0, tcd_idx := 0, rd_idx := 0, flip := 0\<rparr>)"

text \<open>\<open>base\<close> is the base of the port, which the code takes from the channel.\<close>

definition commport_tx_complete_advance :: "device \<Rightarrow> u32 \<Rightarrow> bool \<Rightarrow> port \<Rightarrow> port option" where
  "commport_tx_complete_advance D base cond p =
     (if \<not> cond \<or> job_state p = 0 then Some p
      else let p = finish_slot base (retire_chunk p)
        in if job_state p = 3 then Some p
           else if c_len (job_slots p (head_idx p)) \<noteq> 0 then Some (commport_ring_drain base p)
           else let p = (if job_state p = 1 then port_regs (rx_flush D base) p else p)
                in case stop_dma D base p (port_hw p) of
                     None \<Rightarrow> None
                   | Some h \<Rightarrow> Some (reset_rings (p\<lparr>port_hw := h\<rparr>)))"

subsection \<open>Chunks\<close>

lemma small_masks: "(3 :: u32) = mask 2" "(7 :: u32) = mask 3" "(0xffff :: u32) = mask 16"
  by (simp_all add: mask_eq_decr_exp)

lemma aligned_iff: "(w :: u32) AND 3 = 0 \<longleftrightarrow> 4 dvd unat w"
  unfolding small_masks word_unat_eq_iff unat_low by auto

lemma unat_cut16: "unat (ucast (ucast (w :: u32) :: u16) :: u32) = unat w mod 65536"
  unfolding unat_up16 unsigned_ucast_eq take_bit_eq_mod by (simp add: unat_mod)

lemma drain_chunk_mid:
  assumes "\<not> rem \<ge> 0x2000" "\<not> rem \<le> 0x1000" "4 dvd unat rem"
  shows "unat (drain_chunk rem) = 4 * (unat rem div 8)"
proof -
  define u where "u = drop_bit 1 rem AND 0xffff"
  have rem: "unat rem < 0x2000" using assms(1) by (simp add: word_le_nat_alt)
  then have u: "unat u = unat rem div 2" unfolding u_def small_masks unat_low unat_drop by simp
  have m: "unat (ucast (ucast (u AND NOT 3) :: u16) :: u32) = 4 * (unat rem div 8)"
  proof -
    have "u AND NOT 3 = push_bit 2 (drop_bit 2 u)"
    proof (rule bit_word_eqI)
      fix i assume "i < LENGTH(32)"
      moreover have "\<not> i < 2 \<Longrightarrow> Suc (Suc (i - 2)) = i" by arith
      ultimately show "bit (u AND NOT 3) i = bit (push_bit 2 (drop_bit 2 u)) i"
        unfolding small_masks by (cases "i < 2") (auto simp: bit_simps)
    qed
    moreover have "unat (push_bit 2 (drop_bit 2 u)) = 4 * (unat u div 4)"
      using u rem by (simp add: push_bit_eq_mult unat_word_ariths unat_drop)
    ultimately have "unat (u AND NOT 3) = 4 * (unat rem div 8)" by (simp add: u div_mult2_eq [symmetric])
    then show ?thesis unfolding unat_cut16 using rem by simp
  qed
  have e: "8 dvd unat rem" if "rem AND 6 = 0"
  proof -
    have "rem AND 7 = (rem AND 3) OR (rem AND 6)" by (simp add: bit.conj_disj_distrib [symmetric])
    then have "rem AND 7 = 0" using that assms(3) aligned_iff by simp
    then show ?thesis unfolding small_masks word_unat_eq_iff unat_low by auto
  qed
  show ?thesis
  proof (cases "rem AND 6 = 0")
    case True
    then have "drain_chunk rem = u" using assms(1,2) by (simp add: drain_chunk_def u_def)
    then show ?thesis using e [OF True] u by auto
  next
    case False
    then have "drain_chunk rem = ucast (ucast (u AND NOT 3) :: u16)"
      using assms(1,2) by (simp add: drain_chunk_def u_def Let_def)
    then show ?thesis by (simp only: m)
  qed
qed

lemma drain_chunk_small: "rem \<le> 0x1000 \<Longrightarrow> drain_chunk rem = rem"
proof -
  assume r: "rem \<le> 0x1000"
  then have "unat rem \<le> 0x1000" by (simp add: word_le_nat_alt)
  then have "unat (ucast (ucast rem :: u16) :: u32) = unat rem" unfolding unat_cut16 by simp
  then have "ucast (ucast rem :: u16) = rem" by (simp only: word_unat_eq_iff)
  moreover have "\<not> rem \<ge> 0x2000" using r by (simp add: word_le_nat_alt)
  ultimately show ?thesis using r by (simp add: drain_chunk_def)
qed

text \<open>Every chunk is not empty, is part of what is left, is a whole number of words and fits the count.\<close>

lemma drain_chunk_bounds:
  assumes "4 dvd unat rem" "rem \<noteq> 0"
  shows "0 < unat (drain_chunk rem)" "unat (drain_chunk rem) \<le> unat rem" "4 dvd unat (drain_chunk rem)"
    "unat (drain_chunk rem) \<le> 0x1000"
proof -
  have "0 < unat (drain_chunk rem) \<and> unat (drain_chunk rem) \<le> unat rem \<and> 4 dvd unat (drain_chunk rem) \<and>
      unat (drain_chunk rem) \<le> 0x1000"
  proof (cases "rem \<ge> 0x2000")
    case True
    then show ?thesis by (simp add: drain_chunk_def word_le_nat_alt)
  next
    case big: False
    show ?thesis
    proof (cases "rem \<le> 0x1000")
      case True
      then show ?thesis using assms drain_chunk_small [OF True] unat_gt_0 [of rem] by (simp add: word_le_nat_alt)
    next
      case False
      have "0x1000 < unat rem" "unat rem < 0x2000" using big False by (simp_all add: word_le_nat_alt)
      then show ?thesis unfolding drain_chunk_mid [OF big False assms(1)] by auto
    qed
  qed
  then show "0 < unat (drain_chunk rem)" "unat (drain_chunk rem) \<le> unat rem" "4 dvd unat (drain_chunk rem)"
    "unat (drain_chunk rem) \<le> 0x1000" by blast+
qed

text \<open>The two places that cut chunks cut them alike.\<close>

lemma prime_is_drain_chunk: "4 dvd unat v \<Longrightarrow> prime_chunk v = drain_chunk v"
proof (cases "v \<ge> 0x2000 \<or> v \<le> 0x1000")
  case False
  have v: "unat v < 0x2000" using False by (simp add: word_le_nat_alt)
  have low: "\<not> bit v i" if "13 \<le> i" for i
  proof -
    have "take_bit 13 v = v" using v by (simp add: word_unat_eq_iff unsigned_take_bit_eq take_bit_nat_eq_self)
    then show ?thesis using that by (metis bit_take_bit_iff not_le)
  qed
  have masks: "(0x1ffff :: u32) = mask 17" "(0xffff :: u32) = mask 16" "(0xfffc :: u32) = mask 16 AND NOT (mask 2)"
    "(3 :: u32) = mask 2"
    by (simp_all add: mask_eq_decr_exp)
  have "drop_bit 1 (v AND 0x1ffff) = drop_bit 1 v AND 0xffff"
    unfolding masks by (rule bit_word_eqI) (auto simp: bit_simps)
  moreover have "(ucast (ucast (drop_bit 16 (push_bit 15 v)) AND (0xfffc :: u32)) :: u16) =
      ucast ((drop_bit 1 v AND 0xffff) AND NOT 3)"
    unfolding masks by (rule bit_word_eqI) (auto simp: bit_simps)
  ultimately show ?thesis using False by (simp add: prime_chunk_def drain_chunk_def Let_def)
qed (auto simp: prime_chunk_def drain_chunk_def)

subsection \<open>What is asked for, what is under way, and what is left\<close>

definition ring4 :: "(nat \<Rightarrow> 'a) \<Rightarrow> nat \<Rightarrow> nat \<Rightarrow> 'a list" where
  "ring4 f i n = map (\<lambda>k. f ((i + k) mod 4)) [0..<n]"

lemma ring4_length [simp]: "length (ring4 f i n) = n"
  by (simp add: ring4_def)

lemma ring4_0 [simp]: "ring4 f i 0 = []"
  by (simp add: ring4_def)

lemma ring4_hd: "i < 4 \<Longrightarrow> ring4 f i (Suc n) = f i # ring4 f ((i + 1) mod 4) n"
  unfolding ring4_def map_upt_Suc by (simp add: mod_add_left_eq)

lemma ring4_snoc: "ring4 f i (Suc n) = ring4 f i n @ [f ((i + n) mod 4)]"
  by (simp add: ring4_def)

lemma ring_index_inj: "i < 4 \<Longrightarrow> k < 4 \<Longrightarrow> j < 4 \<Longrightarrow> (i + k) mod 4 = (i + j) mod 4 \<longleftrightarrow> k = (j :: nat)"
  by (auto simp: mod_once_nat split: if_splits)

lemma ring4_outside: "i < 4 \<Longrightarrow> n \<le> k \<Longrightarrow> k < 4 \<Longrightarrow> ring4 (f((i + k) mod 4 := x)) i n = ring4 f i n"
  by (auto simp: ring4_def ring_index_inj)

lemma ring4_tail_outside:
  assumes "i < 4" "n < 4"
  shows "ring4 (f(i := x)) ((i + 1) mod 4) n = ring4 f ((i + 1) mod 4) n"
proof -
  have "((i + 1) mod 4 + k) mod 4 \<noteq> i" if "k < n" for k
    using ring_index_inj [of i "Suc k" 0] assms that by (simp add: mod_simps)
  then show ?thesis by (auto simp: ring4_def)
qed

text \<open>The lengths that are asked for agree with the chunks under way and what the cells have left.\<close>

fun agree :: "nat list \<Rightarrow> nat list \<Rightarrow> nat list \<Rightarrow> bool" where
  "agree R [] C \<longleftrightarrow> R = C"
| "agree [] (f # F) C \<longleftrightarrow> False"
| "agree (r # R) (f # F) C \<longleftrightarrow> 0 < f \<and> f \<le> r \<and> agree (if f = r then R else (r - f) # R) F C"

lemma agree_program:
  "agree R F (c # C) \<Longrightarrow> 0 < n \<Longrightarrow> n \<le> c \<Longrightarrow> agree R (F @ [n]) (if n = c then C else (c - n) # C)"
  by (induction R F "c # C" rule: agree.induct) (auto split: if_splits)

lemma agree_accept: "agree R F C \<Longrightarrow> agree (R @ [l]) F (C @ [l])"
  by (induction R F C rule: agree.induct) (auto split: if_splits)

text \<open>The addresses of a request, and the memory that a descriptor, as it was written, fills: its second
  address is the last one, and a descriptor that does not step through memory fills none.\<close>

definition addresses :: "u32 \<Rightarrow> nat \<Rightarrow> u32 list" where
  "addresses b n = map (\<lambda>i. b + of_nat i) [0..<n]"

lemma addresses_split: "k \<le> n \<Longrightarrow> addresses b n = addresses b k @ addresses (b + of_nat k) (n - k)"
proof -
  assume k: "k \<le> n"
  have "addresses b (k + m) = addresses b k @ addresses (b + of_nat k) m" for m
    by (induction m) (simp_all add: addresses_def add.assoc)
  from this [of "n - k"] k show ?thesis by simp
qed

definition tcd_width :: "u32 \<Rightarrow> u32" where
  "tcd_width cfg = (let code = drop_bit 8 cfg AND 3 in if code = 2 then 4 else code + 1)"

fun moved1 :: "tx_event \<Rightarrow> u32 list" where
  "moved1 (Build w t) =
     (let n = drop_bit 16 (word0 t) AND 0x3ff; size = tcd_width (word0 t)
      in if drop_bit 14 (word0 t) AND 3 = 1 then addresses (word2 t - size * n) (unat size * (unat n + 1)) else [])"
| "moved1 (Done _ _ _) = []"

definition moved :: "tx_event list \<Rightarrow> u32 list" where
  "moved es = concat (map moved1 es)"

lemma moved_snoc [simp]: "moved (es @ [e]) = moved es @ moved1 e"
  by (simp add: moved_def)

definition under_way :: "port \<Rightarrow> nat list" where
  "under_way p = map (\<lambda>k. unat (chunk_len p ((len_idx p + k) mod 2))) [0..<inflight p]"

text \<open>A cell with a rest: whole words, somewhere in memory.\<close>

definition cell_ready :: "cell \<Rightarrow> bool" where
  "cell_ready s \<longleftrightarrow> c_len s \<noteq> 0 \<and> 4 dvd unat (c_len s) \<and> c_buf s \<noteq> 0 \<and> 4 dvd unat (c_buf s) \<and>
     unat (c_buf s) + unat (c_len s) \<le> 4294967296"

definition request_ok :: "u32 \<Rightarrow> u32 \<Rightarrow> bool" where
  "request_ok buf len \<longleftrightarrow> buf \<noteq> 0 \<and> unat buf + unat len \<le> 4294967296"

definition port_bases :: "u32 set" where
  "port_bases = {0x40086000, 0x40087000, 0x40088000, 0x40089000}"

definition dma_ok :: "(u32 \<times> u32) list \<Rightarrow> nat \<Rightarrow> nat \<Rightarrow> port \<Rightarrow> bool" where
  "dma_ok acc q c p \<longleftrightarrow>
     job_mode p = 4 \<and> flip p \<in> {0, 1} \<and> q \<le> 4 \<and> c \<le> q \<and> head_idx p < 4 \<and> rd_idx p < 4 \<and> len_idx p < 2 \<and>
     inflight p \<le> 2 \<and> wr_idx p = (head_idx p + q) mod 4 \<and> wr_idx p = (rd_idx p + c) mod 4 \<and>
     desc_idx p = (len_idx p + inflight p) mod 2 \<and>
     (\<forall>k < q. c_len (job_slots p ((head_idx p + k) mod 4)) \<noteq> 0) \<and>
     (\<forall>k. q \<le> k \<and> k < 4 \<longrightarrow> c_len (job_slots p ((head_idx p + k) mod 4)) = 0) \<and>
     (\<forall>k < c. cell_ready (cells p ((rd_idx p + k) mod 4))) \<and>
     (\<forall>k. c \<le> k \<and> k < 4 \<longrightarrow> c_len (cells p ((rd_idx p + k) mod 4)) = 0) \<and>
     agree (map (\<lambda>s. unat (c_len s)) (ring4 (job_slots p) (head_idx p) q)) (under_way p)
       (map (\<lambda>s. unat (c_len s)) (ring4 (cells p) (rd_idx p) c)) \<and>
     moved (tx_trace p) @ concat (map (\<lambda>s. addresses (c_buf s) (unat (c_len s))) (ring4 (cells p) (rd_idx p) c)) =
       concat (map (\<lambda>(b, l). addresses b (unat l)) acc)"

lemma dma_okI:
  assumes "job_mode p = 4" "flip p \<in> {0, 1}" "q \<le> 4" "c \<le> q" "head_idx p < 4" "rd_idx p < 4" "len_idx p < 2"
    "inflight p \<le> 2" "wr_idx p = (head_idx p + q) mod 4" "wr_idx p = (rd_idx p + c) mod 4"
    "desc_idx p = (len_idx p + inflight p) mod 2"
    "\<forall>k < q. c_len (job_slots p ((head_idx p + k) mod 4)) \<noteq> 0"
    "\<forall>k. q \<le> k \<and> k < 4 \<longrightarrow> c_len (job_slots p ((head_idx p + k) mod 4)) = 0"
    "\<forall>k < c. cell_ready (cells p ((rd_idx p + k) mod 4))"
    "\<forall>k. c \<le> k \<and> k < 4 \<longrightarrow> c_len (cells p ((rd_idx p + k) mod 4)) = 0"
    "agree (map (\<lambda>s. unat (c_len s)) (ring4 (job_slots p) (head_idx p) q)) (under_way p)
       (map (\<lambda>s. unat (c_len s)) (ring4 (cells p) (rd_idx p) c))"
    "moved (tx_trace p) @ concat (map (\<lambda>s. addresses (c_buf s) (unat (c_len s))) (ring4 (cells p) (rd_idx p) c)) =
       concat (map (\<lambda>(b, l). addresses b (unat l)) acc)"
  shows "dma_ok acc q c p"
  unfolding dma_ok_def using assms by blast

lemma accept_ok:
  assumes ok: "dma_ok acc q c p" and a: "accept_request buf len p = Some p'" and rq: "request_ok buf len"
  shows "dma_ok (acc @ [(buf, len)]) (Suc q) (Suc c) p'"
proof -
  have len: "len \<noteq> 0" "(buf OR len) AND 3 = 0" "c_len (job_slots p (wr_idx p)) = 0"
    and p': "p' = p\<lparr>cells := (cells p)(wr_idx p := \<lparr>c_buf = buf, c_len = len\<rparr>),
      job_slots := (job_slots p)(wr_idx p := \<lparr>c_buf = buf, c_len = len\<rparr>), wr_idx := (wr_idx p + 1) mod 4\<rparr>"
    using a by (auto simp: accept_request_def Let_def split: if_splits)
  have i: "wr_idx p = (head_idx p + q) mod 4" "wr_idx p = (rd_idx p + c) mod 4" "q \<le> 4" "c \<le> q" "head_idx p < 4" "rd_idx p < 4"
    using ok by (simp_all add: dma_ok_def)
  have "q \<noteq> 4"
  proof
    assume "q = 4"
    then have "\<forall>k < 4. c_len (job_slots p ((head_idx p + k) mod 4)) \<noteq> 0" using ok by (simp add: dma_ok_def)
    then show False using len(3) i(1,5) \<open>q = 4\<close> by (auto dest: spec [of _ 0])
  qed
  then have q: "q < 4" "c < 4" using i by simp_all
  have "len AND 3 = 0" using len(2) by (auto simp: bit_eq_iff bit_or_iff bit_and_iff)
  then have l4: "4 dvd unat len" by (simp only: aligned_iff)
  have "buf AND 3 = 0" using len(2) by (auto simp: bit_eq_iff bit_or_iff bit_and_iff)
  then have "4 dvd unat buf" by (simp only: aligned_iff)
  then have ready: "cell_ready \<lparr>c_buf = buf, c_len = len\<rparr>"
    using rq len(1) l4 by (simp add: cell_ready_def request_ok_def)
  let ?x = "\<lparr>c_buf = buf, c_len = len\<rparr>"
  have rs: "ring4 ((job_slots p)(wr_idx p := ?x)) (head_idx p) (Suc q) = ring4 (job_slots p) (head_idx p) q @ [?x]"
    unfolding i(1) using q i(5) by (simp add: ring4_snoc ring4_outside)
  have rc: "ring4 ((cells p)(wr_idx p := ?x)) (rd_idx p) (Suc c) = ring4 (cells p) (rd_idx p) c @ [?x]"
    unfolding i(2) using q i(6) by (simp add: ring4_snoc ring4_outside)
  have at: "((head_idx p + k) mod 4 = wr_idx p) = (k = q)" "((rd_idx p + k) mod 4 = wr_idx p) = (k = c)" if "k < 4" for k
    using that q i(5,6) ring_index_inj i(1,2) by metis+
  have m: "(x mod 4 + 1) mod 4 = (x + 1) mod 4" for x :: nat by (simp add: mod_simps)
  have w: "(wr_idx p + 1) mod 4 = (head_idx p + Suc q) mod 4" unfolding i(1) m by simp
  have "(wr_idx p + 1) mod 4 = (rd_idx p + Suc c) mod 4" unfolding i(2) m by simp
  moreover note w
  moreover have "under_way p' = under_way p" by (simp add: under_way_def p')
  moreover have "k < Suc q \<Longrightarrow> c_len (job_slots p' ((head_idx p + k) mod 4)) \<noteq> 0" for k
    using ok q len(1) at(1) [of k] by (auto simp: p' dma_ok_def less_Suc_eq)
  moreover have "k < Suc c \<Longrightarrow> cell_ready (cells p' ((rd_idx p + k) mod 4))" for k
    using ok q ready at(2) [of k] by (auto simp: p' dma_ok_def less_Suc_eq)
  moreover have "Suc q \<le> k \<Longrightarrow> k < 4 \<Longrightarrow> c_len (job_slots p' ((head_idx p + k) mod 4)) = 0" for k
    using ok at(1) [of k] by (auto simp: p' dma_ok_def)
  moreover have "Suc c \<le> k \<Longrightarrow> k < 4 \<Longrightarrow> c_len (cells p' ((rd_idx p + k) mod 4)) = 0" for k
    using ok at(2) [of k] by (auto simp: p' dma_ok_def)
  ultimately show ?thesis
    using ok q agree_accept rs rc by (simp add: dma_ok_def p' agree_accept)
qed

lemma under_way_note:
  assumes "inflight p \<le> 1" "len_idx p < 2" "desc_idx p = (len_idx p + inflight p) mod 2"
    and "chunk_len p' = (chunk_len p)(desc_idx p := n)" "len_idx p' = len_idx p" "inflight p' = Suc (inflight p)"
  shows "under_way p' = under_way p @ [unat n]"
proof -
  have "(len_idx p + k) mod 2 \<noteq> desc_idx p" if "k < inflight p" for k
    using assms(1-3) that by (cases "len_idx p") (auto simp: mod_Suc)
  then show ?thesis using assms(3-6) by (auto simp: under_way_def)
qed

text \<open>Handing the next chunk of the cells to the engine.\<close>

lemma program_ok:
  assumes ok: "dma_ok acc q (Suc c) p" and busy: "inflight p \<le> 1"
    and x: "x = cells p (rd_idx p)" and n: "n = drain_chunk (c_len x)"
    and same: "job_mode p' = job_mode p" "flip p' \<in> {0, 1}" "job_slots p' = job_slots p" "wr_idx p' = wr_idx p"
      "head_idx p' = head_idx p" "len_idx p' = len_idx p"
    and new: "chunk_len p' = (chunk_len p)(desc_idx p := ucast n)" "desc_idx p' = (desc_idx p + 1) mod 2"
      "inflight p' = Suc (inflight p)" "moved (tx_trace p') = moved (tx_trace p) @ addresses (c_buf x) (unat n)"
    and rd: "rd_idx p' = (if c_len x - n = 0 then (rd_idx p + 1) mod 4 else rd_idx p)"
    and cl: "cells p' = (cells p)(rd_idx p :=
      (if c_len x - n = 0 then \<lparr>c_buf = 0, c_len = c_len x - n\<rparr> else \<lparr>c_buf = c_buf x + n, c_len = c_len x - n\<rparr>))"
  shows "dma_ok acc q (if c_len x = n then c else Suc c) p'"
proof -
  have i: "rd_idx p < 4" "Suc c \<le> q" "q \<le> 4" "wr_idx p = (rd_idx p + Suc c) mod 4" "len_idx p < 2"
    "desc_idx p = (len_idx p + inflight p) mod 2"
    and o: "job_mode p = 4" "head_idx p < 4" "wr_idx p = (head_idx p + q) mod 4"
    "\<forall>k < q. c_len (job_slots p ((head_idx p + k) mod 4)) \<noteq> 0"
    "\<forall>k. q \<le> k \<and> k < 4 \<longrightarrow> c_len (job_slots p ((head_idx p + k) mod 4)) = 0"
    using ok unfolding dma_ok_def by blast+
  have "\<forall>k < Suc c. cell_ready (cells p ((rd_idx p + k) mod 4))"
    using ok by (simp add: dma_ok_def)
  from this [rule_format, of 0] i(1) have xr: "cell_ready x" by (simp add: x)
  then have xl: "c_len x \<noteq> 0" "4 dvd unat (c_len x)" by (simp_all add: cell_ready_def)
  note b = drain_chunk_bounds [OF xl(2,1), folded n]
  have nl: "n \<le> c_len x" using b(2) by (simp add: word_le_nat_alt)
  have u: "unat (c_len x - n) = unat (c_len x) - unat n" using b(2) by (rule unat_sub_no_wrap)
  have whole: "c_len x - n = 0 \<longleftrightarrow> c_len x = n" by auto
  have whole': "unat n = unat (c_len x) \<longleftrightarrow> c_len x = n" by (auto simp: word_unat_eq_iff)
  have old: "ring4 (cells p) (rd_idx p) (Suc c) = x # ring4 (cells p) ((rd_idx p + 1) mod 4) c"
    using ring4_hd [OF i(1)] by (simp add: x)
  have tail: "ring4 ((cells p)(rd_idx p := y)) ((rd_idx p + 1) mod 4) c = ring4 (cells p) ((rd_idx p + 1) mod 4) c" for y
    using i by (intro ring4_tail_outside) simp_all
  have "unat (ucast n :: u16) = unat n" using b(4)
    by (simp add: unsigned_ucast_eq take_bit_nat_eq_self)
  then have uw: "under_way p' = under_way p @ [unat n]"
    using under_way_note [OF busy i(5,6) new(1) same(6) new(3)] by simp
  have ag: "agree (map (\<lambda>s. unat (c_len s)) (ring4 (job_slots p) (head_idx p) q)) (under_way p @ [unat n])
     (if unat n = unat (c_len x) then map (\<lambda>s. unat (c_len s)) (ring4 (cells p) ((rd_idx p + 1) mod 4) c)
      else (unat (c_len x) - unat n) # map (\<lambda>s. unat (c_len s)) (ring4 (cells p) ((rd_idx p + 1) mod 4) c))"
    using ok b by (intro agree_program) (simp_all add: dma_ok_def old)
  have mv: "moved (tx_trace p) @ addresses (c_buf x) (unat (c_len x)) @
      concat (map (\<lambda>s. addresses (c_buf s) (unat (c_len s))) (ring4 (cells p) ((rd_idx p + 1) mod 4) c)) =
    concat (map (\<lambda>(b, l). addresses b (unat l)) acc)"
    using ok by (simp add: dma_ok_def old)
  have nx: "((rd_idx p + 1) mod 4 + k) mod 4 = (rd_idx p + Suc k) mod 4" for k by (simp add: mod_simps)
  have at: "(rd_idx p + k) mod 4 = rd_idx p \<longleftrightarrow> k = 0" if "k < 4" for k
    using ring_index_inj [OF i(1) that, of 0] i(1) by simp
  have desc: "desc_idx p' = (len_idx p' + inflight p') mod 2" by (simp add: new same i(6) mod_simps)
  have cells_ok: "\<forall>k < Suc c. cell_ready (cells p ((rd_idx p + k) mod 4))"
    "\<forall>k. Suc c \<le> k \<and> k < 4 \<longrightarrow> c_len (cells p ((rd_idx p + k) mod 4)) = 0"
    using ok by (simp_all add: dma_ok_def)
  have common: "job_mode p' = 4" "flip p' \<in> {0, 1}" "q \<le> 4" "c \<le> q" "Suc c \<le> q" "head_idx p' < 4" "len_idx p' < 2"
    "inflight p' \<le> 2" "wr_idx p' = (head_idx p' + q) mod 4"
    "\<forall>k < q. c_len (job_slots p' ((head_idx p' + k) mod 4)) \<noteq> 0"
    "\<forall>k. q \<le> k \<and> k < 4 \<longrightarrow> c_len (job_slots p' ((head_idx p' + k) mod 4)) = 0"
    unfolding same new using i(2,3,5) o busy same(2) by (assumption | simp)+
  show ?thesis
  proof (cases "c_len x = n")
    case True
    have r: "rd_idx p' = (rd_idx p + 1) mod 4" "cells p' = (cells p)(rd_idx p := \<lparr>c_buf = 0, c_len = 0\<rparr>)"
      using True by (simp_all add: rd cl)
    have "\<forall>k < c. cell_ready (cells p' ((rd_idx p' + k) mod 4))"
    proof (intro allI impI)
      fix k assume "k < c"
      then have "(rd_idx p + Suc k) mod 4 \<noteq> rd_idx p" using at [of "Suc k"] i by simp
      then show "cell_ready (cells p' ((rd_idx p' + k) mod 4))"
        unfolding r nx using cells_ok(1) [rule_format, of "Suc k"] \<open>k < c\<close> by simp
    qed
    moreover have "\<forall>k. c \<le> k \<and> k < 4 \<longrightarrow> c_len (cells p' ((rd_idx p' + k) mod 4)) = 0"
    proof (intro allI impI)
      fix k assume that: "c \<le> k \<and> k < 4"
      show "c_len (cells p' ((rd_idx p' + k) mod 4)) = 0"
      unfolding r nx using cells_ok(2) [rule_format, of "Suc k"] that i(1) by (cases "k = 3") auto
    qed
    moreover have "wr_idx p' = (rd_idx p' + c) mod 4" unfolding same r nx i(4) ..
    moreover have ring: "ring4 (cells p') (rd_idx p') c = ring4 (cells p) ((rd_idx p + 1) mod 4) c"
      using tail by (simp add: r)
    moreover have "rd_idx p' < 4" by (simp add: r)
    moreover have "agree (map (\<lambda>s. unat (c_len s)) (ring4 (job_slots p') (head_idx p') q)) (under_way p')
       (map (\<lambda>s. unat (c_len s)) (ring4 (cells p') (rd_idx p') c))"
      unfolding ring uw same using ag True by simp
    moreover have "moved (tx_trace p') @ concat (map (\<lambda>s. addresses (c_buf s) (unat (c_len s))) (ring4 (cells p') (rd_idx p') c)) =
       concat (map (\<lambda>(b, l). addresses b (unat l)) acc)"
      unfolding ring new using mv True by simp
    ultimately have "dma_ok acc q c p'" using common desc by (intro dma_okI)
    then show ?thesis using True by simp
  next
    case False
    have r: "rd_idx p' = rd_idx p" "cells p' = (cells p)(rd_idx p := \<lparr>c_buf = c_buf x + n, c_len = c_len x - n\<rparr>)"
      using False whole by (simp_all add: rd cl)
    have nz: "cell_ready \<lparr>c_buf = c_buf x + n, c_len = c_len x - n\<rparr>"
    proof -
      have lt: "unat n < unat (c_len x)" using False b(2) whole' by linarith
      then have s: "unat (c_buf x + n) = unat (c_buf x) + unat n"
        using xr by (intro unat_add_no_wrap) (simp add: cell_ready_def)
      then have "unat (c_buf x + n) \<noteq> 0" using b(1) by simp
      then have "c_buf x + n \<noteq> 0" by (metis unat_0)
      moreover have "c_len x - n \<noteq> 0" using False whole by simp
      ultimately show ?thesis using xr b(3) s u lt by (simp add: cell_ready_def)
    qed
    have ring: "ring4 (cells p') (rd_idx p) (Suc c) =
        \<lparr>c_buf = c_buf x + n, c_len = c_len x - n\<rparr> # ring4 (cells p) ((rd_idx p + 1) mod 4) c"
      using ring4_hd [OF i(1), of "cells p'"] tail by (simp add: r(2))
    have "\<forall>k < Suc c. cell_ready (cells p' ((rd_idx p' + k) mod 4))"
      unfolding r using cells_ok(1) nz by auto
    moreover have "\<forall>k. Suc c \<le> k \<and> k < 4 \<longrightarrow> c_len (cells p' ((rd_idx p' + k) mod 4)) = 0"
      unfolding r using cells_ok(2) at by auto
    moreover have "wr_idx p' = (rd_idx p' + Suc c) mod 4" unfolding same r i(4) ..
    moreover have "rd_idx p' < 4" using i(1) by (simp only: r(1))
    moreover have "agree (map (\<lambda>s. unat (c_len s)) (ring4 (job_slots p') (head_idx p') q)) (under_way p')
       (map (\<lambda>s. unat (c_len s)) (ring4 (cells p') (rd_idx p') (Suc c)))"
      unfolding r(1) ring uw same using ag False whole' u by simp
    moreover have "moved (tx_trace p') @ concat (map (\<lambda>s. addresses (c_buf s) (unat (c_len s))) (ring4 (cells p') (rd_idx p') (Suc c))) =
       concat (map (\<lambda>(b, l). addresses b (unat l)) acc)"
      unfolding r(1) ring new
      using mv [unfolded addresses_split [OF b(2), of "c_buf x"]] by (simp add: u)
    ultimately have "dma_ok acc q (Suc c) p'" using common desc by (intro dma_okI)
    then show ?thesis using False by simp
  qed
qed

subsection \<open>The count in a descriptor\<close>

lemma count_field:
  assumes "unat (m :: u32) < 1024" "unat (k :: u32) < 65536"
  shows "drop_bit 16 (k OR (CITER_MASK AND push_bit 16 m)) AND 0x3ff = m"
proof (rule bit_word_eqI)
  fix i assume "i < LENGTH(32)"
  have k: "\<not> bit k (i + 16)"
  proof -
    have "take_bit 16 k = k" using assms(2) by (simp add: word_unat_eq_iff unsigned_take_bit_eq take_bit_nat_eq_self)
    then show ?thesis by (metis bit_take_bit_iff not_add_less2)
  qed
  have m: "bit m i \<Longrightarrow> i < 10"
  proof -
    have "take_bit 10 m = m" using assms(1) by (simp add: word_unat_eq_iff unsigned_take_bit_eq take_bit_nat_eq_self)
    then show "bit m i \<Longrightarrow> i < 10" by (metis bit_take_bit_iff)
  qed
  have masks: "CITER_MASK = push_bit 16 (mask 10)" "(0x3ff :: u32) = mask 10"
    by (simp_all add: CITER_MASK_def mask_eq_decr_exp push_bit_eq_mult)
  have c: "16 + i = i + 16" by simp
  show "bit (drop_bit 16 (k OR (CITER_MASK AND push_bit 16 m)) AND 0x3ff) i = bit m i"
    unfolding masks using k m \<open>i < LENGTH(32)\<close> by (auto simp: bit_simps c)
qed

lemma words_count:
  assumes "0 < unat n" "4 dvd unat n" "unat n \<le> 0x1000"
  shows "unat (n div 4 - 1) < 1024" "4 * (unat (n div 4 - 1) + 1) = unat (n :: u32)"
proof -
  have d: "unat (n div 4) = unat n div 4" by (simp add: unat_div)
  have "1 \<le> unat n div 4" using assms by auto
  then have "unat (n div 4 - 1) = unat n div 4 - 1" using d by (subst unat_sub_no_wrap) simp_all
  then show "unat (n div 4 - 1) < 1024" "4 * (unat (n div 4 - 1) + 1) = unat n"
    using assms \<open>1 \<le> unat n div 4\<close> by auto
qed

text \<open>The fields of the configuration word below the count.\<close>

lemma low_field:
  assumes "i + w \<le> 16"
  shows "drop_bit i (k OR (CITER_MASK AND push_bit 16 m)) AND mask w = drop_bit i k AND (mask w :: u32)"
proof (rule bit_word_eqI)
  fix j assume "j < LENGTH(32)"
  have "CITER_MASK = push_bit 16 (mask 10)" by (simp add: CITER_MASK_def mask_eq_decr_exp push_bit_eq_mult)
  then show "bit (drop_bit i (k OR (CITER_MASK AND push_bit 16 m)) AND mask w) j = bit (drop_bit i k AND mask w) j"
    using assms by (auto simp: bit_simps)
qed

lemma word_multiple: "4 dvd unat a \<Longrightarrow> 4 * (a div 4) = (a :: u32)"
proof -
  assume "4 dvd unat a"
  then obtain q where q: "unat a = 4 * q" by auto
  then have "4 * q < 4294967296" using unat_u32_less [of a] by linarith
  then show ?thesis by (simp add: word_unat_eq_iff unat_word_ariths unat_div q)
qed

text \<open>A descriptor for data out of the FIFO fills the bytes of its chunk.\<close>

lemma data_descriptor:
  assumes n: "0 < unat n" "4 dvd unat n" "unat n \<le> 0x1000" and k: "k \<in> {0x4223, 0x4213}"
    and a: "a \<noteq> 0" "4 dvd unat a" and b: "b \<noteq> 0" "4 dvd unat b"
  shows "moved1 (Build w (edma_tcd_build (k OR (CITER_MASK AND push_bit 16 (n div 4 - 1))) a b z t)) = addresses b (unat n)"
proof -
  let ?m = "n div 4 - 1"
  let ?cfg = "k OR (CITER_MASK AND push_bit 16 ?m)"
  note c = words_count [OF n]
  have k16: "unat k < 65536" using k by auto
  have count: "drop_bit 16 ?cfg AND 0x3ff = ?m" by (rule count_field [OF c(1) k16])
  have masks: "(3 :: u32) = mask 2" by (simp add: mask_eq_decr_exp)
  have code: "drop_bit 8 ?cfg AND 3 = 2" "drop_bit 14 ?cfg AND 3 = 1" "drop_bit 12 ?cfg AND 3 = 0"
    unfolding masks using k by (subst low_field; auto simp: mask_eq_decr_exp)+
  have whole: "drop_bit 16 ?cfg = ?m"
  proof -
    have "drop_bit 16 ?cfg AND 0x3ff = drop_bit 16 ?cfg"
    proof (rule bit_word_eqI)
      fix i assume i: "i < LENGTH(32)"
      have masks: "CITER_MASK = push_bit 16 (mask 10)" "(0x3ff :: u32) = mask 10"
        by (simp_all add: CITER_MASK_def mask_eq_decr_exp push_bit_eq_mult)
      have "\<not> bit k (16 + i)"
      proof -
        have "take_bit 16 k = k" using k16 by (simp add: word_unat_eq_iff unsigned_take_bit_eq take_bit_nat_eq_self)
        then show ?thesis by (metis bit_take_bit_iff not_add_less1)
      qed
      then show "bit (drop_bit 16 ?cfg AND 0x3ff) i = bit (drop_bit 16 ?cfg) i"
        unfolding masks using i by (auto simp: bit_simps)
    qed
    then show ?thesis using count by simp
  qed
  have t: "edma_tcd_build ?cfg a b z t =
      t\<lparr>word0 := ?cfg, word1 := a, word2 := 4 * ?m + b, word3 := z\<rparr>"
    using a b word_multiple [OF a(2)] word_multiple [OF b(2)]
    unfolding edma_tcd_build_def code Let_def whole by simp
  have w: "word0 (edma_tcd_build ?cfg a b z t) = ?cfg" "word2 (edma_tcd_build ?cfg a b z t) = 4 * ?m + b"
    by (subst t, simp)+
  have "(4 :: u32) * ?m + b - 4 * ?m = b" by simp
  moreover have "unat (4 :: u32) * (unat ?m + 1) = unat n" using c(2) by simp
  ultimately show ?thesis unfolding moved1.simps tcd_width_def Let_def w code count by (simp only: if_True refl)
qed

lemma chunk_attr_4:
  assumes "fl \<in> {0, 1}"
  shows "chunk_attr 4 fl False n = (if fl = 1 then 0x4223 else 0x4213) OR (CITER_MASK AND push_bit 16 (n div 4 - 1))"
proof -
  have "a OR b OR c OR d OR x OR e = (a OR b OR c OR d OR e) OR x" for a b c d e x :: u32
    by (simp only: ac_simps)
  then have "chunk_attr 4 fl False n = (push_bit 5 fl OR xfer_field 4 OR push_bit 4 (fl XOR 1) OR 0x4000 OR 3) OR
      (CITER_MASK AND push_bit 16 (n div 4 - 1))"
    by (simp only: chunk_attr_def Let_def if_False)
  also have "push_bit 5 fl OR xfer_field 4 OR push_bit 4 (fl XOR 1) OR 0x4000 OR 3 = (if fl = 1 then 0x4223 else 0x4213)"
    using assms by (auto simp: xfer_field_def)
  finally show ?thesis .
qed

lemma prime_attr_4: "prime_attr 4 n = 0x4223 OR (CITER_MASK AND push_bit 16 (n div 4 - 1))"
proof -
  have "x OR b OR c = (b OR c) OR x" for b c x :: u32 by (simp only: ac_simps)
  then have "prime_attr 4 n = (0x223 OR 0x4000) OR (CITER_MASK AND push_bit 16 (n div 4 - 1))"
    by (simp only: prime_attr_def Let_def if_P [OF refl])
  then show ?thesis by simp
qed

lemma port_base_fifo: "base \<in> port_bases \<Longrightarrow> base + 0xe30 \<noteq> 0 \<and> 4 dvd unat (base + 0xe30 :: u32)"
  by (auto simp: port_bases_def)

lemma data_descriptors:
  assumes base: "base \<in> port_bases" and ready: "cell_ready x" and n: "n = drain_chunk (c_len x)"
  shows "fl \<in> {0, 1} \<Longrightarrow>
      moved1 (Build w (edma_tcd_build (chunk_attr 4 fl False n) (base + 0xe30) (c_buf x) z t)) = addresses (c_buf x) (unat n)"
    "moved1 (Build w (edma_tcd_build (prime_attr 4 n) (base + 0xe30) (c_buf x) z t)) = addresses (c_buf x) (unat n)"
proof -
  have r: "4 dvd unat (c_len x)" "c_len x \<noteq> 0" "c_buf x \<noteq> 0" "4 dvd unat (c_buf x)"
    using ready by (simp_all add: cell_ready_def)
  note b = drain_chunk_bounds [OF r(1,2), folded n] and f = port_base_fifo [OF base]
  have "k \<in> {0x4223, 0x4213} \<Longrightarrow>
      moved1 (Build w (edma_tcd_build (k OR (CITER_MASK AND push_bit 16 (n div 4 - 1))) (base + 0xe30) (c_buf x) z t)) =
      addresses (c_buf x) (unat n)" for k
    by (rule data_descriptor [OF b(1,3,4)]) (use f r in auto)
  then show "fl \<in> {0, 1} \<Longrightarrow>
      moved1 (Build w (edma_tcd_build (chunk_attr 4 fl False n) (base + 0xe30) (c_buf x) z t)) = addresses (c_buf x) (unat n)"
    "moved1 (Build w (edma_tcd_build (prime_attr 4 n) (base + 0xe30) (c_buf x) z t)) = addresses (c_buf x) (unat n)"
    unfolding chunk_attr_4 prime_attr_4 by auto
qed

subsection \<open>The operations on the rings\<close>

text \<open>The cell that is read is in order as long as there is one.\<close>

lemma cell_ok: "dma_ok acc q (Suc c) p \<Longrightarrow> cell_ready (cells p (rd_idx p))"
proof -
  assume "dma_ok acc q (Suc c) p"
  then have "rd_idx p < 4"
    "\<forall>k < Suc c. cell_ready (cells p ((rd_idx p + k) mod 4))"
    unfolding dma_ok_def by blast+
  from this(2) [rule_format, of 0] this(1) show ?thesis by simp
qed

lemma dma_ok_mode: "dma_ok acc q c p \<Longrightarrow> job_mode p = 4 \<and> flip p \<in> {0, 1} \<and> inflight p \<le> 2"
  unfolding dma_ok_def by blast

lemma advance_fields [simp]:
  "job_state (advance_cell n p) = job_state p" "job_mode (advance_cell n p) = job_mode p"
  "job_slots (advance_cell n p) = job_slots p" "wr_idx (advance_cell n p) = wr_idx p"
  "head_idx (advance_cell n p) = head_idx p" "chunk_len (advance_cell n p) = chunk_len p"
  "len_idx (advance_cell n p) = len_idx p" "desc_idx (advance_cell n p) = desc_idx p"
  "inflight (advance_cell n p) = inflight p" "flip (advance_cell n p) = flip p"
  "tx_trace (advance_cell n p) = tx_trace p" "tcd_idx (advance_cell n p) = tcd_idx p"
  by (simp_all add: advance_cell_def Let_def)

lemma cell_upd: "(x :: cell)\<lparr>c_len := a, c_buf := b\<rparr> = \<lparr>c_buf = b, c_len = a\<rparr>"
  by (cases x) simp

declare commport_ring_drain.simps [simp del]

lemma advance_cells:
  "rd_idx (advance_cell n p) = (if c_len (cells p (rd_idx p)) - n = 0 then (rd_idx p + 1) mod 4 else rd_idx p)"
  "cells (advance_cell n p) = (cells p)(rd_idx p :=
     (if c_len (cells p (rd_idx p)) - n = 0 then \<lparr>c_buf = 0, c_len = c_len (cells p (rd_idx p)) - n\<rparr>
      else \<lparr>c_buf = c_buf (cells p (rd_idx p)) + n, c_len = c_len (cells p (rd_idx p)) - n\<rparr>))"
  by (simp_all add: advance_cell_def cell_upd Let_def)

lemmas ring_steps = note_chunk_def build_tcd_def Let_def advance_cells

lemma drain_step_ok:
  assumes ok: "dma_ok acc q (Suc c) p" and busy: "inflight p \<le> 1" and st: "job_state p \<noteq> 1"
    and base: "base \<in> port_bases"
  shows "\<exists>c'. dma_ok acc q c' (drain_step base p)"
proof -
  note x = cell_ok [OF ok] and m = dma_ok_mode [OF ok]
  have "dma_ok acc q (if c_len (cells p (rd_idx p)) = drain_chunk (c_len (cells p (rd_idx p))) then c else Suc c) (drain_step base p)"
  proof (rule program_ok [OF ok busy refl refl])
    show "moved (tx_trace (drain_step base p)) =
        moved (tx_trace p) @ addresses (c_buf (cells p (rd_idx p))) (unat (drain_chunk (c_len (cells p (rd_idx p)))))"
      using st m by (simp add: drain_step_def ring_steps data_descriptors [OF base x refl] del: moved1.simps)
  qed (use m in \<open>auto simp: drain_step_def ring_steps\<close>)
  then show ?thesis by blast
qed

lemma drain_step_state [simp]: "job_state (drain_step base p) = job_state p"
  by (simp add: drain_step_def ring_steps)

text \<open>Draining ends with two chunks under way or with nothing left.\<close>

lemma drain_ok:
  "dma_ok acc q c p \<Longrightarrow> job_state p \<noteq> 1 \<Longrightarrow> base \<in> port_bases \<Longrightarrow>
     \<exists>c'. dma_ok acc q c' (commport_ring_drain base p) \<and> job_state (commport_ring_drain base p) = job_state p \<and>
       (inflight (commport_ring_drain base p) > 1 \<or> c' = 0) \<and> inflight p \<le> inflight (commport_ring_drain base p)"
proof (induction base p arbitrary: c rule: commport_ring_drain.induct)
  case (1 base p)
  have none: "c_len (cells p (rd_idx p)) = 0 \<longleftrightarrow> c = 0"
  proof (cases c)
    case 0
    have "\<forall>k. c \<le> k \<and> k < 4 \<longrightarrow> c_len (cells p ((rd_idx p + k) mod 4)) = 0" "rd_idx p < 4"
      using "1.prems"(1) unfolding dma_ok_def by blast+
    from this(1) [rule_format, of 0] this(2) 0 show ?thesis by simp
  next
    case (Suc n)
    then show ?thesis using cell_ok "1.prems"(1) by (auto simp: cell_ready_def)
  qed
  show ?case
  proof (cases "inflight p > 1 \<or> c_len (cells p (rd_idx p)) = 0")
    case True
    then have "commport_ring_drain base p = p" by (subst commport_ring_drain.simps) auto
    then show ?thesis using True none "1.prems" by auto
  next
    case False
    then obtain n where c: "c = Suc n" using none by (cases c) auto
    have r: "commport_ring_drain base p = commport_ring_drain base (drain_step base p)"
      using False by (subst commport_ring_drain.simps) auto
    obtain c' where "dma_ok acc q c' (drain_step base p)"
      using drain_step_ok [OF _ _ _ "1.prems"(3)] "1.prems"(1,2) False unfolding c by (meson linorder_not_less)
    from "1.IH" [OF _ _ this] False "1.prems"(2,3) show ?thesis
      unfolding r by (auto simp: drain_step_inflight)
  qed
qed

lemma port_regs_fields [simp]:
  "job_state (port_regs f p) = job_state p" "inflight (port_regs f p) = inflight p"
  "edma_base (port_regs f p) = edma_base p" "edma_ch (port_regs f p) = edma_ch p"
  "tx_trace (port_regs f p) = tx_trace p" "dma_ok acc q c (port_regs f p) = dma_ok acc q c p"
  by (simp_all add: port_regs_def dma_ok_def under_way_def)

lemma prime_ok:
  assumes ok: "dma_ok acc q (Suc c) p" and idle: "inflight p = 0" and base: "base \<in> port_bases"
  shows "\<exists>c'. dma_ok acc q c' (prime_dma D T base p)" "job_state (prime_dma D T base p) = 2"
    "inflight (prime_dma D T base p) = 1"
proof -
  note x = cell_ok [OF ok] and m = dma_ok_mode [OF ok]
  have w: "prime_chunk (c_len (cells p (rd_idx p))) = drain_chunk (c_len (cells p (rd_idx p)))"
    using x by (intro prime_is_drain_chunk) (simp add: cell_ready_def)
  have chain: "moved1 (Build w (edma_tcd_build CHAIN_TCD_ATTR a b z t)) = []" for w a b z t
    by (simp add: CHAIN_TCD_ATTR_def edma_tcd_build_def Let_def)
  show "job_state (prime_dma D T base p) = 2" "inflight (prime_dma D T base p) = 1"
    by (simp_all add: prime_dma_def ring_steps)
  have "dma_ok acc q (if c_len (cells p (rd_idx p)) = drain_chunk (c_len (cells p (rd_idx p))) then c else Suc c)
      (prime_dma D T base p)"
  proof (rule program_ok [OF ok _ refl refl])
    show "moved (tx_trace (prime_dma D T base p)) =
        moved (tx_trace p) @ addresses (c_buf (cells p (rd_idx p))) (unat (drain_chunk (c_len (cells p (rd_idx p)))))"
      using m by (simp add: prime_dma_def ring_steps port_regs_def w chain data_descriptors [OF base x refl] del: moved1.simps)
         (simp add: moved_def chain data_descriptors [OF base x refl] del: moved1.simps)
  qed (use idle in \<open>auto simp: prime_dma_def ring_steps port_regs_def w\<close>)
  then show "\<exists>c'. dma_ok acc q c' (prime_dma D T base p)" by blast
qed

lemma agree_length: "agree R F C \<Longrightarrow> length C \<le> length R"
  by (induction R F C rule: agree.induct) (auto split: if_splits)

lemma under_way_hd:
  assumes "inflight p \<noteq> 0" "inflight p \<le> 2" "len_idx p < 2"
    and "chunk_len p' = (chunk_len p)(len_idx p := 0)" "len_idx p' = (len_idx p + 1) mod 2" "inflight p' = inflight p - 1"
  shows "under_way p = unat (chunk_len p (len_idx p)) # under_way p'"
proof -
  obtain n where n: "inflight p = Suc n" using assms(1) by (cases "inflight p") auto
  have "(len_idx p + Suc k) mod 2 \<noteq> len_idx p \<and> ((len_idx p + 1) mod 2 + k) mod 2 = (len_idx p + Suc k) mod 2"
    if "k < n" for k
    using that n assms(2,3) by (cases "len_idx p") (auto simp: less_Suc_eq)
  then have "map (\<lambda>k. unat (chunk_len p ((len_idx p + Suc k) mod 2))) [0..<n] = under_way p'"
    unfolding under_way_def assms(4-6) n by (intro map_cong) auto
  then show ?thesis using assms(3) unfolding under_way_def [of p] n map_upt_Suc by simp
qed

lemma slot_upd: "(x :: cell)\<lparr>c_buf := b\<rparr> = \<lparr>c_buf = b, c_len = c_len x\<rparr>"
  by (cases x) simp

text \<open>A chunk is done: the slot at the front has less to ask for, and is left when it has nothing.\<close>

lemma retire_ok:
  fixes base :: u32
  assumes ok: "dma_ok acc q c p" and busy: "inflight p \<noteq> 0"
  defines "d \<equiv> finish_slot base (retire_chunk p)"
  shows "\<exists>q'. dma_ok acc q' c d \<and> (c_len (job_slots d (head_idx d)) = 0 \<longleftrightarrow> q' = 0)"
    and "inflight d = inflight p - 1" "job_state d = job_state p" "edma_base d = edma_base p" "edma_ch d = edma_ch p"
proof -
  let ?h = "head_idx p" and ?n = "chunk_len p (len_idx p)"
  define s where "s = job_slots p ?h"
  have o: "job_mode p = 4" "flip p \<in> {0, 1}" "q \<le> 4" "c \<le> q" "?h < 4" "rd_idx p < 4" "len_idx p < 2" "inflight p \<le> 2"
    "wr_idx p = (?h + q) mod 4" "wr_idx p = (rd_idx p + c) mod 4" "desc_idx p = (len_idx p + inflight p) mod 2"
    "\<forall>k < q. c_len (job_slots p ((?h + k) mod 4)) \<noteq> 0"
    "\<forall>k. q \<le> k \<and> k < 4 \<longrightarrow> c_len (job_slots p ((?h + k) mod 4)) = 0"
    and ce: "\<forall>k < c. cell_ready (cells p ((rd_idx p + k) mod 4))"
    "\<forall>k. c \<le> k \<and> k < 4 \<longrightarrow> c_len (cells p ((rd_idx p + k) mod 4)) = 0"
    and ag: "agree (map (\<lambda>s. unat (c_len s)) (ring4 (job_slots p) ?h q)) (under_way p)
       (map (\<lambda>s. unat (c_len s)) (ring4 (cells p) (rd_idx p) c))"
    and mv: "moved (tx_trace p) @ concat (map (\<lambda>s. addresses (c_buf s) (unat (c_len s))) (ring4 (cells p) (rd_idx p) c)) =
       concat (map (\<lambda>(b, l). addresses b (unat l)) acc)"
    using ok unfolding dma_ok_def by blast+
  define l where "l = c_len s - ucast ?n"
  define f where "f = \<lparr>c_buf = (if l = 0 then 0 else ucast ?n + c_buf s), c_len = l\<rparr>"
  have dslots: "job_slots d = (job_slots p)(?h := f)"
    and dhead: "head_idx d = (if l = 0 then (?h + 1) mod 4 else ?h)"
    using busy by (simp_all add: d_def finish_slot_def retire_chunk_def slot_upd s_def l_def f_def Let_def)
  have same: "job_mode d = job_mode p" "flip d = flip p" "rd_idx d = rd_idx p" "wr_idx d = wr_idx p" "cells d = cells p"
    "desc_idx d = desc_idx p" "moved (tx_trace d) = moved (tx_trace p)"
    and chunk: "chunk_len d = (chunk_len p)(len_idx p := 0)" "len_idx d = (len_idx p + 1) mod 2"
    and inf: "inflight d = inflight p - 1"
    using busy by (simp_all add: d_def finish_slot_def retire_chunk_def Let_def)
  show "inflight d = inflight p - 1" "job_state d = job_state p" "edma_base d = edma_base p" "edma_ch d = edma_ch p"
    using inf by (simp_all add: d_def finish_slot_def retire_chunk_def Let_def)
  have uw: "under_way p = unat ?n # under_way d"
    by (rule under_way_hd [OF busy o(8,7) chunk inf])
  obtain q0 where q: "q = Suc q0" using ag uw by (cases q) auto
  have R: "ring4 (job_slots p) ?h q = s # ring4 (job_slots p) ((?h + 1) mod 4) q0"
    unfolding q ring4_hd [OF o(5)] s_def ..
  have tail: "ring4 (job_slots d) ((?h + 1) mod 4) q0 = ring4 (job_slots p) ((?h + 1) mod 4) q0"
    unfolding dslots using o(3,5) q by (intro ring4_tail_outside) simp_all
  have n: "0 < unat ?n" "unat ?n \<le> unat (c_len s)"
    and ag': "agree (if unat ?n = unat (c_len s) then map (\<lambda>s. unat (c_len s)) (ring4 (job_slots p) ((?h + 1) mod 4) q0)
        else (unat (c_len s) - unat ?n) # map (\<lambda>s. unat (c_len s)) (ring4 (job_slots p) ((?h + 1) mod 4) q0))
      (under_way d) (map (\<lambda>s. unat (c_len s)) (ring4 (cells p) (rd_idx p) c))"
    using ag unfolding R uw list.map agree.simps by blast+
  have l: "unat l = unat (c_len s) - unat ?n"
    unfolding l_def using n(2) by (subst unat_sub_no_wrap) (simp_all add: unat_up16)
  have l0: "l = 0 \<longleftrightarrow> unat ?n = unat (c_len s)" using l n(2) by (auto simp: word_unat_eq_iff)
  have desc: "desc_idx d = (len_idx d + inflight d) mod 2"
    unfolding same o(11) chunk inf using busy by (cases "inflight p") (simp_all add: mod_simps)
  have nx: "((?h + 1) mod 4 + k) mod 4 = (?h + Suc k) mod 4" for k by (simp add: mod_simps)
  have at: "(?h + k) mod 4 = ?h \<longleftrightarrow> k = 0" if "k < 4" for k
    using ring_index_inj [OF o(5) that, of 0] o(5) by simp
  have common: "job_mode d = 4" "flip d \<in> {0, 1}" "rd_idx d < 4" "len_idx d < 2" "inflight d \<le> 2"
    "wr_idx d = (rd_idx d + c) mod 4"
    "\<forall>k < c. cell_ready (cells d ((rd_idx d + k) mod 4))"
    "\<forall>k. c \<le> k \<and> k < 4 \<longrightarrow> c_len (cells d ((rd_idx d + k) mod 4)) = 0"
    "moved (tx_trace d) @ concat (map (\<lambda>s. addresses (c_buf s) (unat (c_len s))) (ring4 (cells d) (rd_idx d) c)) =
       concat (map (\<lambda>(b, l). addresses b (unat l)) acc)"
    unfolding same chunk inf using o ce mv by (assumption | simp)+
  show "\<exists>q'. dma_ok acc q' c d \<and> (c_len (job_slots d (head_idx d)) = 0 \<longleftrightarrow> q' = 0)"
  proof (cases "l = 0")
    case True
    have h: "head_idx d = (?h + 1) mod 4" using True by (simp add: dhead)
    have slots: "\<forall>k < q0. c_len (job_slots d ((head_idx d + k) mod 4)) \<noteq> 0"
    proof (intro allI impI)
      fix k assume "k < q0"
      then have "(?h + Suc k) mod 4 \<noteq> ?h" using at [of "Suc k"] o(3) q by simp
      then show "c_len (job_slots d ((head_idx d + k) mod 4)) \<noteq> 0"
        unfolding h nx dslots using o(12) [rule_format, of "Suc k"] \<open>k < q0\<close> q by simp
    qed
    moreover have free: "\<forall>k. q0 \<le> k \<and> k < 4 \<longrightarrow> c_len (job_slots d ((head_idx d + k) mod 4)) = 0"
    proof (intro allI impI)
      fix k assume k: "q0 \<le> k \<and> k < 4"
      show "c_len (job_slots d ((head_idx d + k) mod 4)) = 0"
        unfolding h nx dslots using o(13) [rule_format, of "Suc k"] k q o(5) True
        by (cases "k = 3") (auto simp: f_def)
    qed
    moreover have "agree (map (\<lambda>s. unat (c_len s)) (ring4 (job_slots d) (head_idx d) q0)) (under_way d)
       (map (\<lambda>s. unat (c_len s)) (ring4 (cells d) (rd_idx d) c))"
      unfolding h tail same using ag' True l0 by simp
    moreover from agree_length [OF this] have "c \<le> q0" by simp
    moreover have "wr_idx d = (head_idx d + q0) mod 4" unfolding h nx same o(9) q ..
    moreover have "q0 \<le> 4" using o(3) q by simp
    moreover have "head_idx d < 4" by (simp add: h)
    ultimately have "dma_ok acc q0 c d" using common desc by (intro dma_okI)
    moreover have "c_len (job_slots d (head_idx d)) = 0 \<longleftrightarrow> q0 = 0"
      using slots [rule_format, of 0] free [rule_format, of 0] h by (cases q0) auto
    ultimately show ?thesis by blast
  next
    case False
    have h: "head_idx d = ?h" using False by (simp add: dhead)
    have "ring4 (job_slots d) ?h q = f # ring4 (job_slots p) ((?h + 1) mod 4) q0"
      using ring4_hd [OF o(5), of "job_slots d" q0] tail by (simp add: q dslots)
    moreover have "unat (c_len f) = unat (c_len s) - unat ?n" using l by (simp add: f_def)
    ultimately have "agree (map (\<lambda>s. unat (c_len s)) (ring4 (job_slots d) (head_idx d) q)) (under_way d)
       (map (\<lambda>s. unat (c_len s)) (ring4 (cells d) (rd_idx d) c))"
      unfolding h same using ag' False l0 by simp
    moreover have slots: "\<forall>k < q. c_len (job_slots d ((head_idx d + k) mod 4)) \<noteq> 0"
      unfolding h dslots using o(12) False by (auto simp: f_def)
    moreover have "\<forall>k. q \<le> k \<and> k < 4 \<longrightarrow> c_len (job_slots d ((head_idx d + k) mod 4)) = 0"
      unfolding h dslots using o(13) at q by auto
    moreover have "wr_idx d = (head_idx d + q) mod 4" unfolding h same o(9) ..
    moreover have "head_idx d < 4" using o(5) by (simp only: h)
    ultimately have "dma_ok acc q c d" using common desc o(3,4) by (intro dma_okI)
    moreover have "c_len (job_slots d (head_idx d)) \<noteq> 0" by (simp add: h dslots f_def False)
    ultimately show ?thesis using q by blast
  qed
qed

subsection \<open>Runs\<close>

definition dma_inv :: "(u32 \<times> u32) list \<Rightarrow> port \<Rightarrow> bool" where
  "dma_inv acc p \<longleftrightarrow> (\<exists>q c. dma_ok acc q c p \<and>
     (job_state p = 2 \<and> inflight p \<noteq> 0 \<or> job_state p = 0 \<and> q = 0))"

lemma dma_idle: "dma_ok acc 0 c p \<Longrightarrow> c = 0 \<and> inflight p = 0"
  unfolding dma_ok_def under_way_def by (cases "inflight p") (auto simp: map_upt_Suc simp del: upt_Suc)

lemma accept_state: "accept_request buf len p = Some p' \<Longrightarrow> job_state p' = job_state p \<and> inflight p' = inflight p \<and>
    edma_base p' = edma_base p \<and> edma_ch p' = edma_ch p"
  by (auto simp: accept_request_def Let_def split: if_splits)

lemma accept_regs:
  "accept_request buf len (port_regs f p) = map_option (port_regs f) (accept_request buf len p)"
  by (simp add: accept_request_def port_regs_def Let_def)

lemma drain_edma:
  "edma_base (commport_ring_drain base p) = edma_base p \<and> edma_ch (commport_ring_drain base p) = edma_ch p"
proof (induction base p rule: commport_ring_drain.induct)
  case (1 base p)
  have "edma_base (drain_step base p) = edma_base p \<and> edma_ch (drain_step base p) = edma_ch p"
    by (simp add: drain_step_def note_chunk_def build_tcd_def advance_cell_def Let_def)
  then show ?case using "1.IH" by (subst (1 2) commport_ring_drain.simps) auto
qed

lemma prime_edma: "edma_base (prime_dma D T base p) = edma_base p \<and> edma_ch (prime_dma D T base p) = edma_ch p"
  by (simp add: prime_dma_def note_chunk_def build_tcd_def advance_cell_def port_regs_def Let_def)

lemma dma_inv_regs [simp]: "dma_inv acc (port_regs f p) = dma_inv acc p"
  by (simp add: dma_inv_def)

lemma drain_inv:
  assumes "dma_ok acc q c p" "job_state p = 2" "inflight p \<noteq> 0 \<or> q \<noteq> 0" "base \<in> port_bases"
  shows "dma_inv acc (commport_ring_drain base p) \<and> edma_base (commport_ring_drain base p) = edma_base p \<and>
    edma_ch (commport_ring_drain base p) = edma_ch p"
proof -
  have "job_state p \<noteq> 1" using assms(2) by simp
  from drain_ok [OF assms(1) this assms(4)] obtain c' where d: "dma_ok acc q c' (commport_ring_drain base p)"
      "job_state (commport_ring_drain base p) = 2" "inflight (commport_ring_drain base p) > 1 \<or> c' = 0"
      "inflight p \<le> inflight (commport_ring_drain base p)"
    using assms(2) by auto
  have "inflight (commport_ring_drain base p) \<noteq> 0"
  proof
    assume i: "inflight (commport_ring_drain base p) = 0"
    then have "c' = 0" "q \<noteq> 0" using d(3,4) assms(3) by auto
    moreover have "agree (map (\<lambda>s. unat (c_len s)) (ring4 (job_slots (commport_ring_drain base p)) (head_idx (commport_ring_drain base p)) q)) []
        (map (\<lambda>s. unat (c_len s)) (ring4 (cells (commport_ring_drain base p)) (rd_idx (commport_ring_drain base p)) c'))"
      using d(1) i by (simp add: dma_ok_def under_way_def)
    ultimately show False by (auto dest: arg_cong [where f = length])
  qed
  then show ?thesis using d(1,2) drain_edma by (auto simp: dma_inv_def)
qed

lemma transmit_ok:
  fixes D :: device and T :: "nat \<Rightarrow> u32" and base buf len :: u32
  assumes "dma_inv acc p" and base: "base \<in> port_bases" and rq: "request_ok buf len"
  defines "p' \<equiv> commport_can_transmit D T base buf len p"
  shows "dma_inv (acc @ (if accept_request buf len p = None then [] else [(buf, len)])) p' \<and>
    edma_base p' = edma_base p \<and> edma_ch p' = edma_ch p"
proof -
  define g where "g = edma_chan_irq_enable D (edma_base p) (edma_ch p)"
  define e where "e = (case accept_request buf len (port_regs g p) of
      None \<Rightarrow> port_regs g p
    | Some p \<Rightarrow> commport_ring_drain base
        (if job_state p = 0 then (let p = prime_dma D T base p in port_regs (prime_registers D base p) p) else p))"
  have r: "\<exists>f. p' = port_regs f e \<or> p' = e"
    by (simp add: p'_def commport_can_transmit_def g_def [symmetric] e_def [symmetric] Let_def) blast
  have "dma_inv (acc @ (if accept_request buf len p = None then [] else [(buf, len)])) e \<and>
    edma_base e = edma_base p \<and> edma_ch e = edma_ch p"
  proof (cases "accept_request buf len p")
    case None
    then show ?thesis using assms(1) by (simp add: e_def accept_regs)
  next
    case (Some a)
    let ?a = "port_regs g a"
    obtain q c where ok: "dma_ok acc q c p" and st: "job_state p = 2 \<and> inflight p \<noteq> 0 \<or> job_state p = 0 \<and> q = 0"
      using assms(1) by (auto simp: dma_inv_def)
    note f = accept_state [OF Some]
    have a: "dma_ok (acc @ [(buf, len)]) (Suc q) (Suc c) ?a" using accept_ok [OF ok Some rq] by simp
    show ?thesis
    proof (cases "job_state p = 0")
      case True
      then have "inflight ?a = 0" using st dma_idle ok f by auto
      note pr = prime_ok [OF a this base, of D T]
      define h where "h = prime_registers D base (prime_dma D T base ?a)"
      have e: "e = commport_ring_drain base (port_regs h (prime_dma D T base ?a))"
        using True Some f by (simp add: e_def accept_regs h_def Let_def)
      obtain c' where "dma_ok (acc @ [(buf, len)]) (Suc q) c' (port_regs h (prime_dma D T base ?a))" using pr(1) by auto
      from drain_inv [OF this _ _ base] pr(2,3) prime_edma [of D T base ?a] f show ?thesis
        by (simp add: e Some)
    next
      case False
      then have e: "e = commport_ring_drain base ?a" using Some f by (simp add: e_def accept_regs)
      from drain_inv [OF a _ _ base] False st f show ?thesis by (simp add: e Some)
    qed
  qed
  then show ?thesis using r by auto
qed

lemma complete_ok:
  assumes inv: "dma_inv acc p" and base: "base \<in> port_bases"
    and stops: "\<And>h. \<exists>n. let a = edma_base p + 0x38 + channel_group (edma_ch p)
      in D (h @ replicate n (Rd a)) a AND channel_bit (edma_ch p) = 0"
  shows "\<exists>p'. commport_tx_complete_advance D base cond p = Some p' \<and> dma_inv acc p' \<and>
    edma_base p' = edma_base p \<and> edma_ch p' = edma_ch p"
proof (cases "cond \<and> job_state p \<noteq> 0")
  case False
  then show ?thesis using inv by (auto simp: commport_tx_complete_advance_def)
next
  case True
  obtain q c where ok: "dma_ok acc q c p" and st: "job_state p = 2" "inflight p \<noteq> 0"
    using inv True by (auto simp: dma_inv_def)
  define d where "d = finish_slot base (retire_chunk p)"
  note rt = retire_ok [OF ok st(2), of base, folded d_def]
  obtain q' where q': "dma_ok acc q' c d" "c_len (job_slots d (head_idx d)) = 0 \<longleftrightarrow> q' = 0" using rt(1) by blast
  have dst: "job_state d = 2" using rt(3) st(1) by simp
  show ?thesis
  proof (cases "q' = 0")
    case False
    then have "commport_tx_complete_advance D base cond p = Some (commport_ring_drain base d)"
      using True q'(2) dst by (simp add: commport_tx_complete_advance_def d_def [symmetric] Let_def)
    moreover note drain_inv [OF q'(1) dst _ base] False rt(4,5)
    ultimately show ?thesis by auto
  next
    case True0: True
    note idle = dma_idle [OF q'(1) [unfolded True0]]
    let ?a = "edma_base d + 0x38 + channel_group (edma_ch d)" and ?P = "\<lambda>v. v AND channel_bit (edma_ch d) = 0"
    have "\<exists>h'. mm_wait D ?a ?P h = Some h'" for h
    proof -
      obtain n where "?P (D (h @ replicate n (Rd ?a)) ?a)" using stops [of h] rt(4,5) by (auto simp: Let_def)
      from wait_returns [of ?P D h n ?a, OF this] show ?thesis by blast
    qed
    then obtain h' where "stop_dma D base d (port_hw d) = Some h'"
      by (fastforce simp: stop_dma_def Let_def split: option.split)
    then have r: "commport_tx_complete_advance D base cond p = Some (reset_rings (d\<lparr>port_hw := h'\<rparr>))"
      using True q'(2) dst True0 by (simp add: commport_tx_complete_advance_def d_def [symmetric] Let_def)
    have "moved (tx_trace d) = concat (map (\<lambda>(b, l). addresses b (unat l)) acc)" "job_mode d = 4"
      using q'(1) idle True0 by (simp_all add: dma_ok_def)
    then have "dma_ok acc 0 0 (reset_rings (d\<lparr>port_hw := h'\<rparr>))"
      by (simp add: dma_ok_def reset_rings_def under_way_def Let_def)
    then have "dma_inv acc (reset_rings (d\<lparr>port_hw := h'\<rparr>))"
      unfolding dma_inv_def by (intro exI [of _ 0]) (simp add: reset_rings_def Let_def)
    then show ?thesis using r rt(4,5) by (simp add: reset_rings_def Let_def)
  qed
qed

datatype dma_op = Transmit u32 u32 | Complete bool

text \<open>A run, with the requests that were accepted.\<close>

fun dma_run :: "device \<Rightarrow> (nat \<Rightarrow> u32) \<Rightarrow> u32 \<Rightarrow> dma_op list \<Rightarrow> (u32 \<times> u32) list \<Rightarrow> port \<Rightarrow> ((u32 \<times> u32) list \<times> port) option" where
  "dma_run D T base [] acc p = Some (acc, p)"
| "dma_run D T base (Transmit buf len # xs) acc p =
     dma_run D T base xs (acc @ (if accept_request buf len p = None then [] else [(buf, len)]))
       (commport_can_transmit D T base buf len p)"
| "dma_run D T base (Complete cond # xs) acc p =
     (case commport_tx_complete_advance D base cond p of None \<Rightarrow> None | Some p \<Rightarrow> dma_run D T base xs acc p)"

lemma run_ok:
  assumes stops: "\<And>h. \<exists>n. let a = e + 0x38 + channel_group ch
      in D (h @ replicate n (Rd a)) a AND channel_bit ch = 0" and base: "base \<in> port_bases"
  shows "\<forall>buf len. Transmit buf len \<in> set ops \<longrightarrow> request_ok buf len \<Longrightarrow> dma_inv acc p \<Longrightarrow> edma_base p = e \<Longrightarrow> edma_ch p = ch \<Longrightarrow>
    \<exists>acc' p'. dma_run D T base ops acc p = Some (acc', p') \<and> dma_inv acc' p'"
proof (induction ops arbitrary: acc p)
  case (Cons x xs)
  show ?case
  proof (cases x)
    case (Transmit buf len)
    have "request_ok buf len" using Cons.prems(1) Transmit by simp
    then show ?thesis using Cons.IH transmit_ok [OF Cons.prems(2) base, of buf len D T] Cons.prems(1,3,4)
      by (simp add: Transmit)
  next
    case (Complete cond)
    obtain p' where "commport_tx_complete_advance D base cond p = Some p'" "dma_inv acc p'" "edma_base p' = e" "edma_ch p' = ch"
      using complete_ok [OF Cons.prems(2) base, of D cond] stops Cons.prems(3,4) by auto
    then show ?thesis using Cons.IH [of acc p'] Cons.prems(1) by (simp add: Complete)
  qed
qed simp

text \<open>A port at rest with words of four bytes.\<close>

definition port_at_rest :: "port \<Rightarrow> bool" where
  "port_at_rest p \<longleftrightarrow> (\<exists>q. p = reset_rings q) \<and> job_mode p = 4 \<and> tx_trace p = []"

text \<open>
  C7.  Over any sequence of requests and completions, spurious ones included, with a
  DMA engine that stops some time after it is told to: the descriptors that were written for the engine
  fill the memory of the accepted requests, each byte once and in order, without gap or overlap; at most
  two are under way; and when the port is at rest again, all of the accepted bytes were covered.  The
  requests are for memory that does not start at the address 0 or wrap: for the address 0 the code accepts
  the request and writes an empty descriptor.
\<close>

theorem dma_covers_requests:
  assumes "port_at_rest p" "base \<in> port_bases"
    and "\<forall>buf len. Transmit buf len \<in> set ops \<longrightarrow> request_ok buf len"
    and "\<And>h. \<exists>n. let a = edma_base p + 0x38 + channel_group (edma_ch p)
      in D (h @ replicate n (Rd a)) a AND channel_bit (edma_ch p) = 0"
  shows "\<exists>acc p'. dma_run D T base ops [] p = Some (acc, p') \<and> inflight p' \<le> 2 \<and>
    (\<exists>left. moved (tx_trace p') @ left = concat (map (\<lambda>(b, l). addresses b (unat l)) acc) \<and>
       (job_state p' = 0 \<longrightarrow> left = []))"
proof -
  have "dma_ok [] 0 0 p" "job_state p = 0"
    using assms(1) by (auto simp: port_at_rest_def dma_ok_def reset_rings_def under_way_def moved_def Let_def)
  then have "dma_inv [] p" unfolding dma_inv_def by blast
  from run_ok [OF assms(4,2,3) this refl refl] obtain acc p' where
    r: "dma_run D T base ops [] p = Some (acc, p')" "dma_inv acc p'" by blast
  obtain q c where ok: "dma_ok acc q c p'" "job_state p' = 2 \<and> inflight p' \<noteq> 0 \<or> job_state p' = 0 \<and> q = 0"
    using r(2) by (auto simp: dma_inv_def)
  let ?left = "concat (map (\<lambda>s. addresses (c_buf s) (unat (c_len s))) (ring4 (cells p') (rd_idx p') c))"
  have "moved (tx_trace p') @ ?left = concat (map (\<lambda>(b, l). addresses b (unat l)) acc)" "inflight p' \<le> 2"
    using ok(1) by (simp_all add: dma_ok_def)
  moreover have "?left = []" if "job_state p' = 0" using that ok dma_idle [of acc c p'] by auto
  ultimately show ?thesis using r(1) by blast
qed

definition idle_port :: port where
  "idle_port = reset_rings \<lparr>job_state = 0, job_mode = 4, job_slots = (\<lambda>_. \<lparr>c_buf = 0, c_len = 0\<rparr>), wr_idx = 0,
     head_idx = 0, done_cb = True, cb_arg = 0, edma_base = 0x40082000, edma_ch = 3, chunk_len = (\<lambda>_. 0), len_idx = 0,
     desc_idx = 0, inflight = 0, tcd_idx = 0, rd_idx = 0, cells = (\<lambda>_. \<lparr>c_buf = 0, c_len = 0\<rparr>), flip = 0,
     tcds = (\<lambda>_. \<lparr>word0 = 0, word1 = 0, word2 = 0, word3 = 0\<rparr>), tx_trace = [], port_hw = []\<rparr>"

theorem dma_covers_requests_witness:
  "\<exists>acc p'. dma_run (\<lambda>_ _. 0) (\<lambda>_. 0x40082000) 0x40089000
      [Transmit 0x20001000 0x1804, Complete True, Transmit 0x20004000 8, Complete True] [] idle_port = Some (acc, p') \<and>
    inflight p' \<le> 2 \<and>
    (\<exists>left. moved (tx_trace p') @ left = concat (map (\<lambda>(b, l). addresses b (unat l)) acc) \<and>
       (job_state p' = 0 \<longrightarrow> left = []))"
proof (rule dma_covers_requests)
  have "idle_port = reset_rings idle_port" by (simp add: idle_port_def reset_rings_def Let_def)
  then show "port_at_rest idle_port" by (auto simp: port_at_rest_def) (simp_all add: idle_port_def reset_rings_def Let_def)
  show "(0x40089000 :: u32) \<in> port_bases" by (simp add: port_bases_def)
  show "\<forall>buf len. Transmit buf len \<in> set [Transmit 0x20001000 0x1804, Complete True, Transmit 0x20004000 8, Complete True] \<longrightarrow>
      request_ok buf len" by (simp add: request_ok_def)
  show "\<exists>n. let a = edma_base idle_port + 0x38 + channel_group (edma_ch idle_port)
      in 0 AND channel_bit (edma_ch idle_port) = 0" for h :: hw
    by simp
qed

subsection \<open>Frames\<close>

lemma ext_id_split:
  fixes ident :: u32
  shows
  "ext_id (ucast (drop_bit 21 ident)) (ucast (drop_bit 13 ident)) (ucast (drop_bit 5 ident)) (ucast (ident AND 0x1f)) = ident AND 0x1fffffff"
proof (rule bit_word_eqI)
  fix i assume i: "i < LENGTH(32)"
  have masks: "(0x1f :: u32) = mask 5" "(0x1fffffff :: u32) = mask 29" by (simp_all add: mask_eq_decr_exp)
  show "bit (ext_id (ucast (drop_bit 21 ident)) (ucast (drop_bit 13 ident)) (ucast (drop_bit 5 ident)) (ucast (ident AND 0x1f))) i
      = bit (ident AND 0x1fffffff) i"
    unfolding ext_id_def masks using i
    by (cases "i < 5"; cases "i < 13"; cases "i < 21"; cases "i < 29") (auto simp: bit_simps not_less)
qed

text \<open>
  C38.  A frame of at most eight bytes that one port encodes is decoded by the other
  into the message it was: its length, the low 29 bits of its identifier, and its payload.
\<close>

theorem ext_frame_roundtrip:
  fixes ident :: u32
  assumes "length payload \<le> 8" "length junk = 3"
  shows "\<exists>r. commport_frame_record junk driver d ([of_nat (length payload), 0, 0, 0] @ le32 ident @ payload) = Some r \<and>
    commport_frame_message spare r = Some ([of_nat (length payload), 0, 0, 0] @ le32 (ident AND 0x1fffffff) @ payload @
      replicate (8 - length payload) 0 @ spare)"
proof -
  let ?n = "of_nat (length payload) :: u8"
  have n: "unat ?n = length payload" using assms(1) by (simp add: unat_of_nat)
  have small: "\<not> ?n > 7 \<or> ?n = 8"
    using assms(1) n by (auto simp: word_less_nat_alt word_unat_eq_iff)
  let ?h = "[ucast (drop_bit 21 ident), ucast (drop_bit 13 ident), ucast (drop_bit 5 ident), ucast (ident AND 0x1f), ?n] :: bytes"
  obtain a b c where junk: "junk = [a, b, c]" using assms(2) by (auto simp: length_Suc_conv numeral_eq_Suc)
  define rest where "rest = drop (5 + length payload) (?h @ junk @ le32 driver @ le32 d)"
  have w: "word_of_bytes (ucast ident) (ucast (drop_bit 8 ident)) (ucast (drop_bit 16 ident)) (ucast (drop_bit 24 ident)) = ident"
  proof (rule bit_word_eqI)
    fix i assume "i < LENGTH(32)"
    then show "bit (word_of_bytes (ucast ident) (ucast (drop_bit 8 ident)) (ucast (drop_bit 16 ident)) (ucast (drop_bit 24 ident))) i =
        bit ident i"
      unfolding word_of_bytes_def
      by (cases "i < 8"; cases "i < 16"; cases "i < 24") (auto simp: bit_simps not_less)
  qed
  have r: "commport_frame_record junk driver d ([?n, 0, 0, 0] @ le32 ident @ payload) = Some (?h @ payload @ rest)"
    using assms by (simp add: commport_frame_record_def le32_def w n slice_def blit_def rest_def junk Let_def)
  have m: "(if ?n > 7 then 8 else ?n) = ?n" using small by auto
  have dd: "drop (8 + k) xs = drop k (drop 8 xs)" for k and xs :: bytes by (simp add: add.commute)
  have "commport_frame_message spare (?h @ payload @ rest) =
      Some ([?n, 0, 0, 0] @ le32 (ident AND 0x1fffffff) @ payload @ replicate (8 - length payload) 0 @ spare)"
    using assms(1) by (simp add: commport_frame_message_def m n slice_def blit_def ext_id_split le32_def dd Let_def)
  with r show ?thesis by blast
qed

theorem ext_frame_roundtrip_witness:
  "\<exists>r. commport_frame_record [7, 7, 7] 0x20000000 0 ([of_nat (length [1, 2 :: u8]), 0, 0, 0] @ le32 0xffffffff @ [1, 2]) = Some r \<and>
    commport_frame_message [9, 9, 9, 9] r = Some ([of_nat (length [1, 2 :: u8]), 0, 0, 0] @ le32 (0xffffffff AND 0x1fffffff) @ [1, 2] @
      replicate (8 - length [1, 2 :: u8]) 0 @ [9, 9, 9, 9])"
  by (rule ext_frame_roundtrip) simp_all

subsection \<open>Two translations of one function\<close>

lemma shifted_lock: "push_bit 0x1c v AND 0x80000000 \<noteq> 0 \<longleftrightarrow> bit (v :: u32) 3"
proof -
  have "(0x80000000 :: u32) = 2 ^ 31" by simp
  then have sign: "bit (0x80000000 :: u32) i \<longleftrightarrow> i = 31" for i by (simp only: bit_exp_iff) auto
  have "bit (push_bit 0x1c v AND 0x80000000) i \<longleftrightarrow> i = 31 \<and> bit v 3" for i
    unfolding bit_and_iff sign by (auto simp: bit_push_bit_iff)
  then show ?thesis by (auto simp: bit_eq_iff [of _ 0])
qed

text \<open>
  The function at 0x22b0 is translated twice, in \<open>gpio.c\<close> and in \<open>comm.c\<close>:
  for a base that the table of the bases knows, both access the registers alike and answer the same,
  whatever the device does.
\<close>

theorem clock_mux_agrees:
  assumes "irqn_to_gpio_index base < 9"
  shows "gpio_bank_irq_trampoline_9 D gates ports base source h = peripheral_clock_mux_select D gates ports base source h"
proof -
  let ?i = "irqn_to_gpio_index base"
  have n: "nine gates ?i = Some (gates ?i)" "nine ports ?i = Some (ports ?i)" using assms by (simp_all add: nine_def)
  show ?thesis
  proof (cases "port_clock_wait D (ports ?i) (pcc_gate_enable (ucast (gates ?i)) h)")
    case None
    then show ?thesis by (simp add: gpio_bank_irq_trampoline_9_def peripheral_clock_mux_select_def n Let_def)
  next
    case (Some g)
    then show ?thesis
      by (simp add: gpio_bank_irq_trampoline_9_def peripheral_clock_mux_select_def n shifted_lock mm_read_def Let_def)
  qed
qed

theorem clock_mux_agrees_witness:
  "gpio_bank_irq_trampoline_9 (\<lambda>_ _. 0xff) (\<lambda>_. 3) (\<lambda>_. 5) 0x28004000 5 [] =
    peripheral_clock_mux_select (\<lambda>_ _. 0xff) (\<lambda>_. 3) (\<lambda>_. 5) 0x28004000 5 []"
  by (rule clock_mux_agrees) (simp add: irqn_to_gpio_index_def kIrqnTable_def)

end
