(* ===== verification/Device.thy ===== *)
theory Device
  imports KeyedTable
begin

text \<open>
  The device manager of the user ECU (\<open>src/user_ecu/src/device.c\<close>): the dispatch of inbound
  commands with the reassembly of fragments, the transmission of records in frames of at most eight
  bytes, and the operations that store a value in a record and send it.  A record is a slot of the device
  registry; its data and its auxiliary payload lie behind pointers.  Record handlers, semaphores and the
  send method of the channel are callbacks: their answers depend on the calls made before, and a handler
  may rewrite the buffer it is given.
\<close>

subsection \<open>Records\<close>

text \<open>A word of a slot; the fields of a record are read at their offsets.\<close>

definition slot_word :: "bytes \<Rightarrow> nat \<Rightarrow> u32" where
  "slot_word s o' =
     ucast (s ! o') OR push_bit 8 (ucast (s ! (o' + 1))) OR push_bit 16 (ucast (s ! (o' + 2))) OR
     push_bit 24 (ucast (s ! (o' + 3)))"

definition dr_data :: "bytes \<Rightarrow> u32" where "dr_data s = slot_word s 0"
definition dr_sem :: "bytes \<Rightarrow> u32" where "dr_sem s = slot_word s 4"
definition dr_length :: "bytes \<Rightarrow> u32" where "dr_length s = slot_word s 8"
definition dr_key :: "bytes \<Rightarrow> u32" where "dr_key s = slot_word s 12"
definition dr_mode :: "bytes \<Rightarrow> u8" where "dr_mode s = s ! 0xf"
definition dr_type :: "bytes \<Rightarrow> u8" where "dr_type s = s ! 0x10"
definition dr_handler :: "bytes \<Rightarrow> u32" where "dr_handler s = slot_word s 0x14"
definition dr_hctx :: "bytes \<Rightarrow> u32" where "dr_hctx s = slot_word s 0x18"
definition dr_aux :: "bytes \<Rightarrow> u32" where "dr_aux s = slot_word s 0x20"
definition dr_aux_len :: "bytes \<Rightarrow> u32" where "dr_aux_len s = slot_word s 0x24"
definition dr_notify :: "bytes \<Rightarrow> u32" where "dr_notify s = slot_word s 0x28"

record dispatch_slot =
  age :: u32
  slot_key :: bytes
  fill :: u32
  slot_buf :: bytes

record dev_frame =
  frame_key :: bytes
  frame_seq :: u8
  frame_len :: u8
  frame_payload :: bytes

datatype dev_event =
    Handler u32 u32 bytes bytes u32
  | Take u32 u32
  | Give u32
  | Release u32 u32 u32
  | SendFrame bytes
  | Report u32 u32 "u32 list"

text \<open>The manager: its registry, the buffers behind the pointers of the records, and the table.\<close>

record dev_mgr =
  dm_reg :: registry
  dm_bufs :: "u32 \<Rightarrow> bytes"
  dm_slots :: "dispatch_slot list"
  dm_log :: "dev_event list"

record dev_env =
  de_handler :: "dev_event list \<Rightarrow> int \<times> (nat \<Rightarrow> u8)"
  de_take :: "dev_event list \<Rightarrow> bool"

definition dlog :: "dev_event \<Rightarrow> dev_mgr \<Rightarrow> dev_mgr" where
  "dlog e m = m\<lparr>dm_log := dm_log m @ [e]\<rparr>"

definition dev_lookup :: "dev_mgr \<Rightarrow> u32 \<Rightarrow> u32 \<Rightarrow> bytes option" where
  "dev_lookup m key0 key1 = map_option ((!) (reg_slots (dm_reg m))) (registry_lookup_value (Some (dm_reg m)) key0 key1)"

definition take_sem :: "dev_env \<Rightarrow> u32 \<Rightarrow> u32 \<Rightarrow> dev_mgr \<Rightarrow> bool \<times> dev_mgr" where
  "take_sem E sem ticks m = (de_take E (dm_log m), dlog (Take sem ticks) m)"

subsection \<open>Sending\<close>

definition frame_bytes :: "dev_frame \<Rightarrow> bytes" where
  "frame_bytes f = frame_key f @ [frame_seq f, frame_len f] @ frame_payload f"

definition advance_seq :: "u8 \<Rightarrow> u8 \<Rightarrow> u8" where
  "advance_seq ty q =
     (if ty = 2 then (q AND 0xf0) OR ((q + 1) AND 0x0f) else (q AND 0xf8) OR ((q + 1) AND 0x07))"

text \<open>The loop of the chunks, with what remains and the offset; \<open>None\<close> is a read past the data.\<close>

function send_chunks :: "bytes \<Rightarrow> u8 \<Rightarrow> dev_frame \<Rightarrow> u32 \<Rightarrow> nat \<Rightarrow> bytes list option" where
  "send_chunks data ty f remaining offset =
     (let chunk = (if remaining > 8 then 8 else remaining);
          f = f\<lparr>frame_len := ucast chunk\<rparr>;
          n = unat (frame_len f)
      in case (if remaining \<noteq> 0 then slice data offset n else Some []) of
           None \<Rightarrow> None
         | Some p \<Rightarrow>
             (let f = f\<lparr>frame_payload := p @ drop (length p) (frame_payload f)\<rparr>;
                  remaining' = remaining - of_nat n
              in if remaining' = 0 then Some [frame_bytes f]
                 else map_option ((#) (frame_bytes f))
                        (send_chunks data ty (f\<lparr>frame_seq := advance_seq ty (frame_seq f)\<rparr>) remaining' (offset + n))))"
  by pat_completeness auto

lemma chunk_size: "unat (ucast (if r > 8 then 8 else r :: u32) :: u8) = min 8 (unat r)"
proof (cases "r > 8")
  case False
  then have "unat r \<le> 8" by (simp add: word_le_nat_alt word_less_nat_alt)
  then show ?thesis using False by (simp add: unsigned_ucast_eq take_bit_nat_eq_self)
qed (simp add: word_less_nat_alt)

lemma unat_rest: "unat (r - of_nat (min 8 (unat r)) :: u32) = unat r - min 8 (unat r)"
proof -
  have "min 8 (unat r) < 4294967296" by simp
  then have "unat (of_nat (min 8 (unat r)) :: u32) = min 8 (unat r)" by (rule unat_u32_of_nat)
  then show ?thesis by (subst unat_sub_no_wrap) simp_all
qed

lemma rest_less: "r \<noteq> 0 \<Longrightarrow> unat r - min 8 (unat r) < unat (r :: u32)"
  using unat_gt_0 [of r] by (simp add: min_def)

termination send_chunks
  by (relation "measure (\<lambda>(_, _, _, r, _). unat r)")
    (auto simp: chunk_size unat_rest rest_less simp del: min_less_iff_conj split: if_splits)

declare send_chunks.simps [simp del]

definition device_send_chunked :: "bytes \<Rightarrow> dev_frame \<Rightarrow> u32 \<Rightarrow> dev_mgr \<Rightarrow> dev_mgr option" where
  "device_send_chunked rec frame first m =
     map_option (\<lambda>fs. fold (\<lambda>b. dlog (SendFrame b)) fs m)
       (send_chunks (dm_bufs m (dr_data rec)) (dr_type rec) frame (if first = 0 then 0 else dr_length rec) 0)"

definition empty_frame :: dev_frame where
  "empty_frame = \<lparr>frame_key = [0, 0, 0], frame_seq = 0, frame_len = 0, frame_payload = replicate 8 0\<rparr>"

text \<open>\<open>None\<close> as the manager or the record is the null pointer.\<close>

definition device_apply :: "bytes option \<Rightarrow> dev_mgr option \<Rightarrow> (int \<times> dev_mgr option) option" where
  "device_apply rec_opt mgr = (case (mgr, rec_opt) of
       (Some m, Some rec) \<Rightarrow>
         (let frame = empty_frame\<lparr>frame_key :=
                [ucast (dr_key rec), ucast (drop_bit 8 (dr_key rec)), ucast (drop_bit 16 (dr_key rec))]\<rparr>
          in if dr_type rec = 1 then
               map_option (\<lambda>m. (0, Some m)) (device_send_chunked rec (frame\<lparr>frame_seq := frame_seq frame OR 0x10\<rparr>) 1 m)
             else if dr_type rec = 2 then map_option (\<lambda>m. (0, Some m)) (device_send_chunked rec frame 1 m)
             else if dr_type rec \<noteq> 0 then Some (-1, Some m)
             else
               (case (if dr_aux_len rec \<noteq> 0 then
                        (case slice (dm_bufs m (dr_aux rec)) 0 (unat (dr_aux_len rec)) of
                           None \<Rightarrow> None
                         | Some p \<Rightarrow>
                             map_option (\<lambda>q. frame\<lparr>frame_len := ucast (dr_aux_len rec), frame_payload := q\<rparr>)
                               (blit (frame_payload frame) 0 p))
                      else Some frame) of
                  None \<Rightarrow> None
                | Some frame \<Rightarrow>
                    Some (0, Some (dlog (SendFrame (frame_bytes (frame\<lparr>frame_seq := frame_seq frame OR 0x10\<rparr>))) m))))
     | _ \<Rightarrow> Some (-2, mgr))"

subsection \<open>Reassembly\<close>

definition DEVDISPATCH_EVENT_CTX :: u32 where "DEVDISPATCH_EVENT_CTX = 0x312d3f0f"

definition DISPATCH_BUF_CAP :: nat where "DISPATCH_BUF_CAP = 0x40"

definition msg_key :: "bytes \<Rightarrow> bytes" where "msg_key msg = take 3 msg"
definition msg_flags :: "bytes \<Rightarrow> u8" where "msg_flags msg = msg ! 3"
definition msg_len :: "bytes \<Rightarrow> u8" where "msg_len msg = msg ! 4"

definition msg_offset :: "bytes \<Rightarrow> u32" where
  "msg_offset msg = ucast (msg_flags msg AND 7) * 8"

definition first_fragment :: "bytes \<Rightarrow> bool" where
  "first_fragment msg \<longleftrightarrow> msg_flags msg AND 7 = 0"

text \<open>The first busy slot of the key, from index \<open>i\<close> on.\<close>

fun matching_slot :: "bytes \<Rightarrow> dispatch_slot list \<Rightarrow> nat option" where
  "matching_slot key [] = None"
| "matching_slot key (s # ss) =
     (if age s \<noteq> 0 \<and> slot_key s = key then Some 0 else map_option Suc (matching_slot key ss))"

text \<open>One pass over busy slots: each ages, and the index of the oldest so far moves on a larger age.\<close>

fun age_slots :: "nat \<Rightarrow> nat option \<Rightarrow> dispatch_slot list \<Rightarrow> nat option \<times> dispatch_slot list" where
  "age_slots 0 oldest ss = (oldest, ss)"
| "age_slots (Suc n) oldest ss =
     (let i = length ss - Suc n; a = age (ss ! i) + 1; ss = ss[i := (ss ! i)\<lparr>age := a\<rparr>];
          oldest = (case oldest of None \<Rightarrow> Some i
                    | Some k \<Rightarrow> if a > age (ss ! k) then Some i else Some k)
      in age_slots n oldest ss)"

definition fresh_slot :: "bytes \<Rightarrow> dispatch_slot" where
  "fresh_slot key = \<lparr>age = 1, slot_key = key, fill = 0, slot_buf = replicate DISPATCH_BUF_CAP 0\<rparr>"

definition free_slot :: "dispatch_slot list \<Rightarrow> nat option" where
  "free_slot ss =
     (if age (ss ! 0) = 0 then Some 0 else if age (ss ! 1) = 0 then Some 1
      else if age (ss ! 2) = 0 then Some 2 else None)"

definition allocate_slot :: "bytes \<Rightarrow> dev_mgr \<Rightarrow> nat \<times> dev_mgr" where
  "allocate_slot key m =
     (let (i, m) =
        (case free_slot (dm_slots m) of
           Some i \<Rightarrow> (i, m)
         | None \<Rightarrow>
             (let (oldest, ss) = age_slots 3 None (dm_slots m); i = the oldest; k = slot_key (ss ! i)
              in (i, dlog (Report DEVDISPATCH_EVENT_CTX 0xd8 [ucast (k ! 2), ucast (k ! 1), ucast (k ! 0)])
                       (m\<lparr>dm_slots := ss\<rparr>))))
      in (i, m\<lparr>dm_slots := (dm_slots m)[i := fresh_slot key]\<rparr>))"

text \<open>The slot that takes the fragment; \<open>None\<close> drops it.\<close>

definition choose_slot :: "bytes \<Rightarrow> dev_mgr \<Rightarrow> (nat \<times> dev_mgr) option" where
  "choose_slot msg m =
     (case matching_slot (msg_key msg) (dm_slots m) of
        Some i \<Rightarrow>
          (if msg_offset msg = fill (dm_slots m ! i) then Some (i, m)
           else if \<not> first_fragment msg then None
           else Some (i, m\<lparr>dm_slots := (dm_slots m)[i := (dm_slots m ! i)
                  \<lparr>fill := msg_offset msg, slot_buf := replicate DISPATCH_BUF_CAP 0\<rparr>]\<rparr>))
      | None \<Rightarrow> if \<not> first_fragment msg then None else Some (allocate_slot (msg_key msg) m))"

text \<open>A call of the handler: its answer, the buffer as it leaves it.\<close>

definition run_handler :: "dev_env \<Rightarrow> bytes \<Rightarrow> bytes \<Rightarrow> bytes \<Rightarrow> u32 \<Rightarrow> dev_mgr \<Rightarrow> int \<times> bytes \<times> dev_mgr" where
  "run_handler E rec msg buf n m =
     (let (r, c) = de_handler E (dm_log m)
      in (r, map c [0..<length buf], dlog (Handler (dr_handler rec) (dr_hctx rec) msg buf n) m))"

definition slot_upd :: "nat \<Rightarrow> (dispatch_slot \<Rightarrow> dispatch_slot) \<Rightarrow> dev_mgr \<Rightarrow> dev_mgr" where
  "slot_upd i g m = m\<lparr>dm_slots := (dm_slots m)[i := g (dm_slots m ! i)]\<rparr>"

text \<open>The outcome of a handler path: the dispatcher returns, or it goes on with the answer of a handler, or
  straight to the reply.\<close>

datatype progress = Return u32 | Answer int | Reply

definition accumulate :: "dev_env \<Rightarrow> bytes \<Rightarrow> bytes \<Rightarrow> nat \<Rightarrow> dev_mgr \<Rightarrow> (progress \<times> dev_mgr) option" where
  "accumulate E rec msg i m =
     (let s = dm_slots m ! i; old = fill s; n = ucast (msg_len msg) :: u32
      in if old + n > 0x40 then
           Some (Return 0, dlog (Report DEVDISPATCH_EVENT_CTX 0xee [old, n, 0x40]) (slot_upd i (age_update (\<lambda>_. 0)) m))
         else (case slice msg 5 (unat n) of
             None \<Rightarrow> None
           | Some p \<Rightarrow> (case blit (slot_buf s) (unat old) p of
               None \<Rightarrow> None
             | Some b \<Rightarrow>
                 (let m = slot_upd i (\<lambda>s. s\<lparr>slot_buf := b, fill := old + n\<rparr>) m
                  in if old + n \<noteq> dr_length rec then Some (Return 0, m)
                     else let (r, b, m) = run_handler E rec msg b (old + n) m
                     in Some (Answer r, slot_upd i (\<lambda>s. s\<lparr>slot_buf := b, age := 0\<rparr>) m)))))"

definition reassemble :: "dev_env \<Rightarrow> bytes \<Rightarrow> bytes \<Rightarrow> dev_mgr \<Rightarrow> (progress \<times> dev_mgr) option" where
  "reassemble E rec msg m =
     (case choose_slot msg m of None \<Rightarrow> Some (Return 0, m) | Some (i, m) \<Rightarrow> accumulate E rec msg i m)"

subsection \<open>Dispatch\<close>

text \<open>A single-shot record is handed its auxiliary buffer, refilled from the message, or its data, cleared.\<close>

definition set_buf :: "u32 \<Rightarrow> bytes \<Rightarrow> dev_mgr \<Rightarrow> dev_mgr" where
  "set_buf p b m = m\<lparr>dm_bufs := (dm_bufs m)(p := b)\<rparr>"

definition single_shot :: "dev_env \<Rightarrow> bytes \<Rightarrow> bytes \<Rightarrow> dev_mgr \<Rightarrow> (progress \<times> dev_mgr) option" where
  "single_shot E rec msg m =
     (let call = (\<lambda>p b n. let (r, b, m) = run_handler E rec msg b n (set_buf p b m) in (Answer r, set_buf p b m))
      in if dr_aux rec \<noteq> 0 then
           (case blit (dm_bufs m (dr_aux rec)) 0 (replicate (unat (dr_aux_len rec)) 0) of
              None \<Rightarrow> None
            | Some b \<Rightarrow> (case slice msg 5 (unat (msg_len msg)) of
                None \<Rightarrow> None
              | Some p \<Rightarrow> map_option (\<lambda>b. call (dr_aux rec) b (dr_aux_len rec)) (blit b 0 p)))
         else map_option (\<lambda>b. call (dr_data rec) b (dr_length rec))
                (blit (dm_bufs m (dr_data rec)) 0 (replicate (unat (dr_length rec)) 0)))"

definition small_record :: "dev_env \<Rightarrow> bytes \<Rightarrow> bytes \<Rightarrow> dev_mgr \<Rightarrow> (progress \<times> dev_mgr) option" where
  "small_record E rec msg m =
     (if msg_flags msg AND 7 \<noteq> 0 then Some (Reply, m)
      else map_option (\<lambda>scratch. let (r, _, m) = run_handler E rec msg scratch (ucast (msg_len msg)) m in (Answer r, m))
             (slice msg 5 8))"

text \<open>What the type and the mode of the record make of the flags: return, or go on with the reply gate.\<close>

definition admit :: "bytes \<Rightarrow> bytes \<Rightarrow> dev_mgr \<Rightarrow> (u32 + u8) \<times> dev_mgr" where
  "admit rec msg m =
     (if dr_type rec < 2 then
        if dr_mode rec = 0 then
          if msg_flags msg AND 0x10 \<noteq> 0 then (Inl 0xffffffff, m)
          else if dr_type rec = 1 then
            (Inl 0, if dr_notify rec = 0 then m else dlog (Release (dr_notify rec) 0 0) m)
          else (Inr (msg_flags msg AND 0x10), m)
        else if dr_mode rec = 1 then
          (if msg_flags msg AND 0x10 = 0 then (Inl 0xffffffff, m) else (Inr 1, m))
        else (Inl 0xffffffff, m)
      else if dr_type rec = 2 then (Inr 1, m) else (Inl 0xffffffff, m))"

definition send_reply :: "dev_env \<Rightarrow> bytes \<Rightarrow> bytes \<Rightarrow> u8 \<Rightarrow> dev_mgr \<Rightarrow> (u32 \<times> dev_mgr) option" where
  "send_reply E rec msg send m =
     (if send \<noteq> 0 \<and> dr_type rec \<noteq> 2 then
        let frame = empty_frame\<lparr>frame_key := msg_key msg\<rparr>;
            frame = frame\<lparr>frame_seq := frame_seq frame AND 0xef\<rparr>
        in if dr_type rec = 1 then map_option (Pair 0) (device_send_chunked rec frame 0 m)
           else let (ok, m) = take_sem E (dr_sem rec) 0x7fffffff m
           in if \<not> ok then Some (0xffffffff, dlog (Report DEVDISPATCH_EVENT_CTX 0x172 []) m)
              else map_option (\<lambda>m. (0, dlog (Give (dr_sem rec)) m)) (device_send_chunked rec frame 1 m)
      else Some (0, m))"

definition device_dispatch_command :: "dev_env \<Rightarrow> bytes \<Rightarrow> dev_mgr \<Rightarrow> (u32 \<times> dev_mgr) option" where
  "device_dispatch_command E msg m =
     (let key24 = ucast (msg ! 0) OR push_bit 8 (ucast (msg ! 1)) OR push_bit 16 (ucast (msg ! 2))
      in case dev_lookup m key24 0 of
           None \<Rightarrow> Some (0xffffffff, m)
         | Some rec \<Rightarrow>
             (case admit rec msg m of
                (Inl rc, m) \<Rightarrow> Some (rc, m)
              | (Inr send, m) \<Rightarrow>
                  (case (if dr_handler rec = 0 then Some (Reply, m)
                         else if dr_type rec = 0 \<and> msg_flags msg AND 0x10 \<noteq> 0 then single_shot E rec msg m
                         else if dr_length rec < 9 then small_record E rec msg m
                         else reassemble E rec msg m) of
                     None \<Rightarrow> None
                   | Some (Return rc, m) \<Rightarrow> Some (rc, m)
                   | Some (Answer r, m) \<Rightarrow> if r = -3 then Some (0, m) else send_reply E rec msg send m
                   | Some (Reply, m) \<Rightarrow> send_reply E rec msg send m)))"

subsection \<open>Values that are stored and sent\<close>

text \<open>Under the semaphore of the record of the tag, \<open>bs\<close> is stored at the start of its data; then the record
  is looked up again, sent, and released.  \<open>None\<close> as the status: absent, or busy.\<close>

definition store_and_apply :: "dev_env \<Rightarrow> u32 \<Rightarrow> bytes \<Rightarrow> dev_mgr \<Rightarrow> (int option \<times> dev_mgr) option" where
  "store_and_apply E tag bs m =
     (case dev_lookup m tag 0 of
        None \<Rightarrow> Some (None, m)
      | Some rec \<Rightarrow>
          (let (ok, m) = take_sem E (dr_sem rec) 100 m
           in if \<not> ok then Some (None, m)
              else case blit (dm_bufs m (dr_data rec)) 0 bs of
                  None \<Rightarrow> None
                | Some b \<Rightarrow>
                    (let m = set_buf (dr_data rec) b m
                     in case dev_lookup m tag 0 of
                          None \<Rightarrow> Some (None, m)
                        | Some rec \<Rightarrow>
                            (case device_apply (Some rec) (Some m) of
                               Some (rc, Some m) \<Rightarrow> Some (Some rc, dlog (Give (dr_sem rec)) m)
                             | _ \<Rightarrow> None))))"

definition device_store_field8c0 :: "dev_env \<Rightarrow> bytes \<Rightarrow> dev_mgr \<Rightarrow> dev_mgr option" where
  "device_store_field8c0 E src m = map_option snd (store_and_apply E 0x08c0 (take 3 src) m)"

definition device_store_words8808 :: "dev_env \<Rightarrow> bytes \<Rightarrow> dev_mgr \<Rightarrow> (int \<times> dev_mgr) option" where
  "device_store_words8808 E src m =
     map_option (\<lambda>(rc, m). (case rc of None \<Rightarrow> -1 | Some rc \<Rightarrow> rc, m)) (store_and_apply E 0x8808 (take 8 src) m)"

text \<open>One slot of a batch: four halfwords, at 2, 10, 18 and 26.\<close>

definition batch_values :: "bytes \<Rightarrow> bytes" where
  "batch_values s = take 2 (drop 2 s) @ take 2 (drop 0xa s) @ take 2 (drop 0x12 s) @ take 2 (drop 0x1a s)"

definition apply_slot :: "dev_env \<Rightarrow> bytes \<Rightarrow> dev_mgr \<Rightarrow> dev_mgr option" where
  "apply_slot E s m =
     map_option (\<lambda>(rc, m). if rc = Some 0 then m else dlog (Report 0x4dfc053c 0x1a []) m)
       (store_and_apply E 0x03c0 (batch_values s) m)"

text \<open>The body of the task: one batch of forty slots of 32 bytes.\<close>

fun apply_batch :: "dev_env \<Rightarrow> nat \<Rightarrow> bytes \<Rightarrow> dev_mgr \<Rightarrow> dev_mgr option" where
  "apply_batch E 0 batch m = Some m"
| "apply_batch E (Suc n) batch m =
     (case apply_slot E (take 0x20 batch) m of
        None \<Rightarrow> None | Some m \<Rightarrow> apply_batch E n (drop 0x20 batch) m)"

definition device_apply_task :: "dev_env \<Rightarrow> bytes \<Rightarrow> dev_mgr \<Rightarrow> dev_mgr option" where
  "device_apply_task E batch m = apply_batch E 0x28 batch m"

subsection \<open>The table as one buffer per key\<close>

definition busy :: "dispatch_slot list \<Rightarrow> bytes \<Rightarrow> nat \<Rightarrow> bool" where
  "busy ss k i \<longleftrightarrow> i < length ss \<and> age (ss ! i) \<noteq> 0 \<and> slot_key (ss ! i) = k"

definition slot_ok :: "dispatch_slot \<Rightarrow> bool" where
  "slot_ok s \<longleftrightarrow> length (slot_buf s) = 64 \<and> unat (fill s) \<le> 64"

definition table_ok :: "bytes set \<Rightarrow> dispatch_slot list \<Rightarrow> bool" where
  "table_ok K ss \<longleftrightarrow> length ss = 3 \<and>
     (\<forall>i k. busy ss k i \<longrightarrow> k \<in> K \<and> slot_ok (ss ! i) \<and> (\<forall>j. busy ss k j \<longrightarrow> j = i))"

definition gathered :: "dispatch_slot \<Rightarrow> bytes" where
  "gathered s = take (unat (fill s)) (slot_buf s)"

definition pending :: "dispatch_slot list \<Rightarrow> bytes \<Rightarrow> bytes option" where
  "pending ss k = map_option (\<lambda>i. gathered (ss ! i)) (matching_slot k ss)"

lemma matching_slot_busy: "matching_slot k ss = Some i \<Longrightarrow> busy ss k i"
  by (induction ss arbitrary: i) (auto simp: busy_def split: if_splits)

lemma busy_Cons:
  "busy (s # ss) k i \<longleftrightarrow> (case i of 0 \<Rightarrow> age s \<noteq> 0 \<and> slot_key s = k | Suc i \<Rightarrow> busy ss k i)"
  by (cases i) (auto simp: busy_def)

lemma all_nat_cases: "(\<forall>i. P i) \<longleftrightarrow> P 0 \<and> (\<forall>i. P (Suc i))"
  by (metis nat.exhaust)

lemma matching_slot_None: "matching_slot k ss = None \<longleftrightarrow> (\<forall>i. \<not> busy ss k i)"
proof (induction ss)
  case (Cons s ss)
  have "(\<forall>i. \<not> busy (s # ss) k i) \<longleftrightarrow> \<not> (age s \<noteq> 0 \<and> slot_key s = k) \<and> (\<forall>i. \<not> busy ss k i)"
    by (subst all_nat_cases) (simp add: busy_Cons)
  with Cons show ?case by auto
qed (simp add: busy_def)

lemma table_okD:
  assumes "table_ok K ss"
  shows "length ss = 3" "busy ss k i \<Longrightarrow> k \<in> K" "busy ss k i \<Longrightarrow> slot_ok (ss ! i)"
    "busy ss k i \<Longrightarrow> busy ss k j \<Longrightarrow> j = i"
  using assms unfolding table_ok_def by blast+

lemma matching_slot_unique:
  assumes "table_ok K ss" "busy ss k i"
  shows "matching_slot k ss = Some i"
proof (cases "matching_slot k ss")
  case None
  then show ?thesis using assms(2) by (simp add: matching_slot_None)
next
  case (Some j)
  from table_okD(4) [OF assms(1) matching_slot_busy [OF this] assms(2)] Some show ?thesis by simp
qed

lemma pending_iff:
  assumes "table_ok K ss"
  shows "pending ss k = Some b \<longleftrightarrow> (\<exists>i. busy ss k i \<and> b = gathered (ss ! i))"
proof -
  have "(\<exists>i. matching_slot k ss = Some i \<and> gathered (ss ! i) = b) \<longleftrightarrow> (\<exists>i. busy ss k i \<and> gathered (ss ! i) = b)"
    using matching_slot_unique [OF assms] matching_slot_busy by blast
  then show ?thesis by (auto simp: pending_def)
qed

lemma pending_eqI:
  assumes "table_ok K ss" "table_ok K' ss'"
    and "\<And>i. busy ss k i \<longleftrightarrow> busy ss' k i" "\<And>i. busy ss k i \<Longrightarrow> gathered (ss ! i) = gathered (ss' ! i)"
  shows "pending ss k = pending ss' k"
proof -
  have "pending ss k = Some b \<longleftrightarrow> pending ss' k = Some b" for b
    unfolding pending_iff [OF assms(1)] pending_iff [OF assms(2)] using assms(3,4) by auto
  then show ?thesis by (metis not_Some_eq)
qed

lemma busy_upd: "i < length ss \<Longrightarrow> busy (ss[i := s]) k j \<longleftrightarrow> (if j = i then age s \<noteq> 0 \<and> slot_key s = k else busy ss k j)"
  by (auto simp: busy_def)

text \<open>A slot that held \<open>k\<close>, or nothing, now holds \<open>k\<close>, or nothing.\<close>

lemma table_upd:
  assumes ok: "table_ok K ss" and i: "i < 3" "k \<in> K"
    and new: "age s \<noteq> 0 \<Longrightarrow> slot_key s = k" "age s \<noteq> 0 \<Longrightarrow> slot_ok s"
      "\<And>j. age s \<noteq> 0 \<Longrightarrow> busy ss k j \<Longrightarrow> j = i"
  shows "table_ok K (ss[i := s])"
    and "age s \<noteq> 0 \<Longrightarrow> pending (ss[i := s]) k = Some (gathered s)"
    and "age s = 0 \<Longrightarrow> busy ss k i \<Longrightarrow> pending (ss[i := s]) k = None"
    and "k' \<noteq> k \<Longrightarrow> \<not> busy ss k' i \<Longrightarrow> pending (ss[i := s]) k' = pending ss k'"
proof -
  have l: "i < length ss" using ok i(1) by (simp add: table_ok_def)
  have own: "busy (ss[i := s]) k' j \<Longrightarrow> j = i \<and> k' = k \<and> age s \<noteq> 0 \<or> j \<noteq> i \<and> busy ss k' j" for k' j
    using new(1) unfolding busy_upd [OF l] by (cases "j = i") simp_all
  show ok': "table_ok K (ss[i := s])"
    unfolding table_ok_def
  proof (intro conjI allI impI)
    show "length (ss[i := s]) = 3" using table_okD(1) [OF ok] by simp
    fix j k' assume b: "busy (ss[i := s]) k' j"
    from own [OF b] show "k' \<in> K" using table_okD(2) [OF ok] i(2) by blast
    from own [OF b] show "slot_ok (ss[i := s] ! j)" using table_okD(3) [OF ok] new(2) l by auto
    fix j' assume b': "busy (ss[i := s]) k' j'"
    have "\<not> (j = i \<and> k' = k \<and> age s \<noteq> 0 \<and> j' \<noteq> i \<and> busy ss k' j')"
      "\<not> (j' = i \<and> k' = k \<and> age s \<noteq> 0 \<and> j \<noteq> i \<and> busy ss k' j)" using new(3) by blast+
    moreover have "busy ss k' j \<Longrightarrow> busy ss k' j' \<Longrightarrow> j' = j" by (rule table_okD(4) [OF ok])
    ultimately show "j' = j" using own [OF b] own [OF b'] by argo
  qed
  show "pending (ss[i := s]) k = Some (gathered s)" if "age s \<noteq> 0"
    unfolding pending_iff [OF ok'] using that new(1) l by (intro exI [of _ i]) (simp add: busy_upd [OF l])
  show "pending (ss[i := s]) k = None" if "age s = 0" "busy ss k i"
  proof -
    have "\<not> busy (ss[i := s]) k j" for j
      using that(1) table_okD(4) [OF ok that(2), of j] by (auto simp: busy_upd [OF l])
    then show ?thesis by (simp add: pending_def matching_slot_None [THEN iffD2])
  qed
  show "pending (ss[i := s]) k' = pending ss k'" if "k' \<noteq> k" "\<not> busy ss k' i"
  proof (rule pending_eqI [OF ok' ok])
    show "busy (ss[i := s]) k' j \<longleftrightarrow> busy ss k' j" for j
      using that new(1) unfolding busy_upd [OF l] by (cases "j = i") auto
    show "gathered (ss[i := s] ! j) = gathered (ss ! j)" if "busy (ss[i := s]) k' j" for j
      using that \<open>k' \<noteq> k\<close> new(1) l unfolding busy_upd [OF l] by (cases "j = i") auto
  qed
qed

subsection \<open>The specification\<close>

definition msg_payload :: "bytes \<Rightarrow> bytes" where
  "msg_payload msg = take (unat (msg_len msg)) (drop 5 msg)"

definition collect :: "nat \<Rightarrow> bytes \<Rightarrow> bytes \<Rightarrow> bytes option \<times> bytes list" where
  "collect n b p =
     (let b = b @ p in if 64 < length b then (None, []) else if length b = n then (None, [b]) else (Some b, []))"

text \<open>What one fragment makes of the bytes of its key gathered so far, and what it delivers.\<close>

definition gather :: "nat \<Rightarrow> bytes \<Rightarrow> bytes option \<Rightarrow> bytes option \<times> bytes list" where
  "gather n msg pend =
     (case pend of
        Some b \<Rightarrow> (if unat (msg_offset msg) = length b then collect n b (msg_payload msg)
                  else if first_fragment msg then collect n [] (msg_payload msg) else (Some b, []))
      | None \<Rightarrow> if first_fragment msg then collect n [] (msg_payload msg) else (None, []))"

definition fragment :: "bytes \<Rightarrow> bool" where
  "fragment msg \<longleftrightarrow> length msg = 13 \<and> unat (msg_len msg) \<le> 8 \<and> msg_flags msg AND 0x10 = 0"

fun delivered :: "dev_event list \<Rightarrow> (bytes \<times> bytes) list" where
  "delivered [] = []"
| "delivered (Handler h c msg b n # es) = (msg_key msg, take (unat n) b) # delivered es"
| "delivered (e # es) = delivered es"

lemma delivered_append [simp]: "delivered (xs @ ys) = delivered xs @ delivered ys"
  by (induction xs rule: delivered.induct) simp_all

subsection \<open>One fragment\<close>

lemma gathered_length: "slot_ok s \<Longrightarrow> length (gathered s) = unat (fill s)"
  by (simp add: slot_ok_def gathered_def)

lemma fresh_slot_ok: "age (fresh_slot k) = 1" "slot_key (fresh_slot k) = k" "slot_ok (fresh_slot k)"
    "gathered (fresh_slot k) = []"
  by (simp_all add: fresh_slot_def slot_ok_def gathered_def DISPATCH_BUF_CAP_def)

lemma free_slot_free:
  "free_slot ss = Some i \<Longrightarrow> i < 3 \<and> age (ss ! i) = 0"
  "free_slot ss = None \<Longrightarrow> j < 3 \<Longrightarrow> age (ss ! j) \<noteq> 0"
proof -
  show "free_slot ss = Some i \<Longrightarrow> i < 3 \<and> age (ss ! i) = 0" by (auto simp: free_slot_def split: if_splits)
  show "free_slot ss = None \<Longrightarrow> j < 3 \<Longrightarrow> age (ss ! j) \<noteq> 0"
    using less_Suc_eq [of j 2] less_Suc_eq [of j 1] by (auto simp: free_slot_def split: if_splits)
qed

lemma free_slot_exists:
  assumes "table_ok K ss" "finite K" "card K \<le> 3" "k \<in> K" "matching_slot k ss = None"
  shows "free_slot ss \<noteq> None"
proof
  assume none: "free_slot ss = None"
  define key where "key i = slot_key (ss ! i)" for i
  have b: "busy ss (key i) i" if "i < 3" for i
    using free_slot_free(2) [OF none that] that table_okD(1) [OF assms(1)] by (simp add: busy_def key_def)
  have "inj_on key {0..<3}"
    using b table_okD(4) [OF assms(1)] by (intro inj_onI) (metis atLeastLessThan_iff)
  then have "card (key ` {0..<3}) = 3" by (simp add: card_image)
  moreover have "k \<notin> key ` {0..<3}" using assms(5) b by (fastforce simp: matching_slot_None)
  moreover have "insert k (key ` {0..<3}) \<subseteq> K" using assms(4) b table_okD(2) [OF assms(1)] by fastforce
  ultimately show False using card_mono [OF assms(2), of "insert k (key ` {0..<3})"] assms(3) by simp
qed

lemma table_sub:
  assumes "table_ok K ss" "length ss' = 3" "\<And>k i. busy ss' k i \<Longrightarrow> busy ss k i"
    and "\<And>k i. busy ss' k i \<Longrightarrow> slot_ok (ss ! i) \<Longrightarrow> slot_ok (ss' ! i)"
  shows "table_ok K ss'"
  unfolding table_ok_def
proof (intro conjI allI impI)
  fix i k assume b: "busy ss' k i"
  note o = assms(3) [OF b]
  show "k \<in> K" by (rule table_okD(2) [OF assms(1) o])
  show "slot_ok (ss' ! i)" by (rule assms(4) [OF b table_okD(3) [OF assms(1) o]])
  show "j = i" if "busy ss' k j" for j by (rule table_okD(4) [OF assms(1) o assms(3) [OF that]])
qed (rule assms(2))

text \<open>When every slot is busy, ageing changes the ages alone.\<close>

lemma age_slots_table:
  assumes "table_ok K ss" "free_slot ss = None" "age_slots 3 None ss = (oldest, ss')"
  shows "\<exists>i < 3. oldest = Some i" "table_ok K ss'" "busy ss' k j \<Longrightarrow> busy ss k j"
proof -
  let ?g = "\<lambda>s. s\<lparr>age := age s + 1\<rparr>"
  have r: "(\<exists>i < 3. oldest = Some i) \<and> ss' = map ?g ss"
  proof -
    obtain x y z where "ss = [x, y, z]" using table_okD(1) [OF assms(1)]
      by (auto simp: length_Suc_conv numeral_3_eq_3)
    then show ?thesis using assms(3) unfolding numeral_3_eq_3 by (auto simp: Let_def split: if_splits)
  qed
  then show "\<exists>i < 3. oldest = Some i" by blast
  have sub: "busy ss k i" if "busy ss' k i" for k i
    using that r free_slot_free(2) [OF assms(2), of i] table_okD(1) [OF assms(1)] by (auto simp: busy_def)
  then show "busy ss' k j \<Longrightarrow> busy ss k j" .
  show "table_ok K ss'"
    by (rule table_sub [OF assms(1)]) (use r table_okD(1) [OF assms(1)] sub in \<open>auto simp: slot_ok_def busy_def\<close>)
qed

text \<open>A new slot for a key that has none.\<close>

lemma allocate_step:
  assumes ok: "table_ok K (dm_slots m)" and k: "k \<in> K" and none: "matching_slot k (dm_slots m) = None"
    and r: "allocate_slot k m = (i, m')"
  shows "table_ok K (dm_slots m')" "busy (dm_slots m') k i" "gathered (dm_slots m' ! i) = []"
    "delivered (dm_log m') = delivered (dm_log m)" "dm_reg m' = dm_reg m" "dm_bufs m' = dm_bufs m"
    "finite K \<Longrightarrow> card K \<le> 3 \<Longrightarrow> k' \<noteq> k \<Longrightarrow> pending (dm_slots m') k' = pending (dm_slots m) k'"
proof -
  obtain m1 where m1: "m' = m1\<lparr>dm_slots := (dm_slots m1)[i := fresh_slot k]\<rparr>" "i < 3"
    "table_ok K (dm_slots m1)" "\<And>j. busy (dm_slots m1) k j \<Longrightarrow> busy (dm_slots m) k j"
    "delivered (dm_log m1) = delivered (dm_log m)" "dm_reg m1 = dm_reg m" "dm_bufs m1 = dm_bufs m"
    "free_slot (dm_slots m) \<noteq> None \<Longrightarrow> m1 = m \<and> (\<forall>k'. \<not> busy (dm_slots m) k' i)"
  proof (cases "free_slot (dm_slots m)")
    case (Some j)
    then have "i = j" "m' = m\<lparr>dm_slots := (dm_slots m)[i := fresh_slot k]\<rparr>"
      using r by (auto simp: allocate_slot_def)
    then show ?thesis using free_slot_free(1) [OF Some] ok by (intro that [of m]) (auto simp: busy_def)
  next
    case None
    obtain oldest ss where a: "age_slots 3 None (dm_slots m) = (oldest, ss)" by (cases "age_slots 3 None (dm_slots m)")
    from age_slots_table [OF ok None a] obtain j where j: "oldest = Some j" "j < 3" by blast
    show ?thesis
    proof (rule that)
      show "m' = (dlog (Report DEVDISPATCH_EVENT_CTX 0xd8 [ucast (slot_key (ss ! j) ! 2),
          ucast (slot_key (ss ! j) ! 1), ucast (slot_key (ss ! j) ! 0)]) (m\<lparr>dm_slots := ss\<rparr>))
        \<lparr>dm_slots := (dm_slots (dlog (Report DEVDISPATCH_EVENT_CTX 0xd8 [ucast (slot_key (ss ! j) ! 2),
          ucast (slot_key (ss ! j) ! 1), ucast (slot_key (ss ! j) ! 0)]) (m\<lparr>dm_slots := ss\<rparr>)))[i := fresh_slot k]\<rparr>"
        using r by (auto simp: allocate_slot_def None a j Let_def)
      show "i < 3" using r j by (simp add: allocate_slot_def None a Let_def)
    qed (use age_slots_table [OF ok None a] None in \<open>auto simp: dlog_def\<close>)
  qed
  have nb: "\<not> busy (dm_slots m1) k j" for j using m1(4) none by (auto simp: matching_slot_None)
  have l: "i < length (dm_slots m1)" using m1(2) table_okD(1) [OF m1(3)] by simp
  note up = table_upd [OF m1(3,2) k, of "fresh_slot k"]
  show "table_ok K (dm_slots m')" unfolding m1(1) using up(1) nb by (simp add: fresh_slot_ok)
  show "busy (dm_slots m') k i" unfolding m1(1) using l by (simp add: busy_def fresh_slot_ok)
  show "gathered (dm_slots m' ! i) = []" unfolding m1(1) using l by (simp add: fresh_slot_ok)
  show "delivered (dm_log m') = delivered (dm_log m)" "dm_reg m' = dm_reg m" "dm_bufs m' = dm_bufs m"
    using m1 by simp_all
  show "pending (dm_slots m') k' = pending (dm_slots m) k'" if "finite K" "card K \<le> 3" "k' \<noteq> k"
  proof -
    have s: "m1 = m" "\<not> busy (dm_slots m1) k' i" using m1(8) [OF free_slot_exists [OF ok that(1,2) k none]] by auto
    show ?thesis unfolding m1(1) using up(4) [OF _ _ _ that(3) s(2)] nb s(1) by (simp add: fresh_slot_ok)
  qed
qed

lemma choose_step:
  assumes ok: "table_ok K (dm_slots m)" and k: "k \<in> K" "msg_key msg = k"
  shows "choose_slot msg m = None \<and> gather n msg (pending (dm_slots m) k) = (pending (dm_slots m) k, []) \<or>
    (\<exists>i m'. choose_slot msg m = Some (i, m') \<and> table_ok K (dm_slots m') \<and> busy (dm_slots m') k i \<and>
       gather n msg (pending (dm_slots m) k) = collect n (gathered (dm_slots m' ! i)) (msg_payload msg) \<and>
       delivered (dm_log m') = delivered (dm_log m) \<and> dm_reg m' = dm_reg m \<and> dm_bufs m' = dm_bufs m \<and>
       (finite K \<longrightarrow> card K \<le> 3 \<longrightarrow> (\<forall>k'. k' \<noteq> k \<longrightarrow> pending (dm_slots m') k' = pending (dm_slots m) k')))"
proof (cases "matching_slot k (dm_slots m)")
  case None
  then have p: "pending (dm_slots m) k = None" by (simp add: pending_def)
  show ?thesis
  proof (cases "first_fragment msg")
    case True
    obtain i m' where a: "allocate_slot k m = (i, m')" by (cases "allocate_slot k m")
    have "choose_slot msg m = Some (i, m')" by (simp add: choose_slot_def k(2) None True a)
    with allocate_step [OF ok k(1) None a] p True show ?thesis by (simp add: gather_def)
  next
    case False
    then show ?thesis using None p by (simp add: choose_slot_def k(2) gather_def)
  qed
next
  case (Some i)
  let ?s = "dm_slots m ! i" and ?z = "replicate DISPATCH_BUF_CAP (0 :: u8)"
  have b: "busy (dm_slots m) k i" by (rule matching_slot_busy [OF Some])
  have p: "pending (dm_slots m) k = Some (gathered ?s)" using Some by (simp add: pending_def)
  have len: "length (gathered ?s) = unat (fill ?s)" by (rule gathered_length [OF table_okD(3) [OF ok b]])
  show ?thesis
  proof (cases "msg_offset msg = fill ?s \<or> \<not> first_fragment msg")
    case True
    then show ?thesis
      using Some p len ok b by (auto simp: choose_slot_def k(2) gather_def word_unat_eq_iff split: if_splits)
  next
    case False
    let ?n = "?s\<lparr>fill := msg_offset msg, slot_buf := ?z\<rparr>"
    have off: "msg_offset msg = 0" using False by (simp add: msg_offset_def first_fragment_def)
    have i: "i < 3" "i < length (dm_slots m)" using b table_okD(1) [OF ok] by (simp_all add: busy_def)
    have n: "slot_key ?n = k" "slot_ok ?n" "age ?n \<noteq> 0" "gathered ?n = []"
      using b by (simp_all add: busy_def slot_ok_def DISPATCH_BUF_CAP_def off gathered_def)
    have only: "busy (dm_slots m) k j \<Longrightarrow> j = i" for j by (rule table_okD(4) [OF ok b])
    have other: "k' \<noteq> k \<Longrightarrow> \<not> busy (dm_slots m) k' i" for k' using b by (simp add: busy_def)
    note up = table_upd [OF ok i(1) k(1), of ?n, OF n(1,2) only]
    have "choose_slot msg m = Some (i, m\<lparr>dm_slots := (dm_slots m)[i := ?n]\<rparr>)"
      using False by (simp add: choose_slot_def k(2) Some)
    moreover have "gather n msg (pending (dm_slots m) k) = collect n [] (msg_payload msg)"
      using False len by (auto simp: p gather_def off word_unat_eq_iff)
    moreover have "busy ((dm_slots m)[i := ?n]) k i" using i n by (simp add: busy_def)
    ultimately show ?thesis using up(1,4) i n other by simp
  qed
qed

lemma handler_delivers:
  "run_handler E rec msg b n m = (r, b', m') \<Longrightarrow>
     length b' = length b \<and> dm_slots m' = dm_slots m \<and> dm_reg m' = dm_reg m \<and> dm_bufs m' = dm_bufs m \<and>
     delivered (dm_log m') = delivered (dm_log m) @ [(msg_key msg, take (unat n) b)]"
  by (auto simp: run_handler_def dlog_def split: prod.splits)

lemma unat_byte_wide: "unat (ucast (x :: u8) :: u32) = unat x"
proof -
  have "unat x < 4294967296" using unat_u8_less [of x] by (rule less_trans) simp
  then show ?thesis unfolding unsigned_ucast_eq by (intro take_bit_nat_eq_self) simp
qed

lemma accumulate_step:
  assumes ok: "table_ok K (dm_slots m)" and b: "busy (dm_slots m) k i" and k: "msg_key msg = k"
    and f: "fragment msg" and g: "collect (unat (dr_length rec)) (gathered (dm_slots m ! i)) (msg_payload msg) = (pend, out)"
  shows "\<exists>p m'. accumulate E rec msg i m = Some (p, m') \<and> p \<noteq> Reply \<and> (\<forall>rc. p = Return rc \<longrightarrow> rc = 0) \<and>
     table_ok K (dm_slots m') \<and> pending (dm_slots m') k = pend \<and> dm_reg m' = dm_reg m \<and>
     dm_bufs m' = dm_bufs m \<and> delivered (dm_log m') = delivered (dm_log m) @ map (Pair k) out \<and>
     (\<forall>k'. k' \<noteq> k \<longrightarrow> pending (dm_slots m') k' = pending (dm_slots m) k')"
proof -
  let ?s = "dm_slots m ! i" and ?n = "ucast (msg_len msg) :: u32"
  have s: "length (slot_buf ?s) = 64" "unat (fill ?s) \<le> 64"
    using table_okD(3) [OF ok b] by (simp_all add: slot_ok_def)
  have i: "i < 3" "i < length (dm_slots m)" using b table_okD(1) [OF ok] by (simp_all add: busy_def)
  have kK: "k \<in> K" by (rule table_okD(2) [OF ok b])
  have n: "unat ?n = unat (msg_len msg)" by (rule unat_byte_wide)
  have sum: "unat (fill ?s + ?n) = unat (fill ?s) + unat ?n"
    using s(2) f by (intro unat_add_no_wrap) (simp add: n fragment_def)
  let ?p = "msg_payload msg"
  have p: "slice msg 5 (unat ?n) = Some ?p" "length ?p = unat ?n"
    using f by (simp_all add: slice_def n msg_payload_def fragment_def)
  have l: "length (gathered ?s @ ?p) = unat (fill ?s + ?n)"
    using gathered_length [OF table_okD(3) [OF ok b]] p(2) by (simp add: sum)
  have only: "busy (dm_slots m) k j \<Longrightarrow> j = i" for j by (rule table_okD(4) [OF ok b])
  have other: "k' \<noteq> k \<Longrightarrow> \<not> busy (dm_slots m) k' i" for k' using b by (simp add: busy_def)
  have key: "slot_key ?s = k" using b by (simp add: busy_def)
  show ?thesis
  proof (cases "fill ?s + ?n > 0x40")
    case True
    then have c: "pend = None" "out = []" using g l by (auto simp: collect_def word_less_nat_alt)
    let ?t = "?s\<lparr>age := 0\<rparr>"
    note up = table_upd [OF ok i(1) kK, of ?t]
    have "accumulate E rec msg i m =
        Some (Return 0, dlog (Report DEVDISPATCH_EVENT_CTX 0xee [fill ?s, ?n, 0x40]) (m\<lparr>dm_slots := (dm_slots m)[i := ?t]\<rparr>))"
      using True by (simp add: accumulate_def slot_upd_def Let_def)
    then show ?thesis using up(1,3,4) b other c by (simp add: dlog_def)
  next
    case False
    then have le: "unat (fill ?s) + unat ?n \<le> 64" using sum by (simp add: word_less_nat_alt)
    obtain buf where buf: "blit (slot_buf ?s) (unat (fill ?s)) ?p = Some buf"
      using blit_Some [of "unat (fill ?s)" ?p "slot_buf ?s"] le s(1) p(2) by auto
    have bl: "length buf = 64" using blit_length [OF buf] s(1) by simp
    have tk: "take (unat (fill ?s + ?n)) buf = gathered ?s @ ?p"
      using buf le s(1) p(2) by (auto simp: blit_def gathered_def sum split: if_splits)
    let ?u = "?s\<lparr>slot_buf := buf, fill := fill ?s + ?n\<rparr>"
    let ?m = "m\<lparr>dm_slots := (dm_slots m)[i := ?u]\<rparr>"
    have u: "slot_key ?u = k" "slot_ok ?u" "age ?u \<noteq> 0" "gathered ?u = gathered ?s @ ?p"
      using key bl le sum tk b by (simp_all add: slot_ok_def gathered_def busy_def)
    note up = table_upd [OF ok i(1) kK, of ?u, OF u(1,2) only]
    show ?thesis
    proof (cases "fill ?s + ?n = dr_length rec")
      case False2: False
      then have c: "pend = Some (gathered ?s @ ?p)" "out = []"
        using g l le sum by (auto simp: collect_def word_unat_eq_iff)
      have "accumulate E rec msg i m = Some (Return 0, ?m)"
        using False False2 p(1) buf by (simp add: accumulate_def slot_upd_def Let_def)
      then show ?thesis using up u other c by simp
    next
      case True
      then have c: "pend = None" "out = [gathered ?s @ ?p]"
        using g l le sum by (auto simp: collect_def)
      obtain r b' m' where h: "run_handler E rec msg buf (fill ?s + ?n) ?m = (r, b', m')"
        by (cases "run_handler E rec msg buf (fill ?s + ?n) ?m")
      let ?v = "?u\<lparr>slot_buf := b', age := 0\<rparr>"
      have a: "accumulate E rec msg i m = Some (Answer r, m'\<lparr>dm_slots := (dm_slots m')[i := ?v]\<rparr>)"
        using False True p(1) buf h handler_delivers [OF h] i by (simp add: accumulate_def slot_upd_def Let_def)
      have up2: "table_ok K ((dm_slots m)[i := ?v])" "pending ((dm_slots m)[i := ?v]) k = None"
        "k' \<noteq> k \<Longrightarrow> pending ((dm_slots m)[i := ?v]) k' = pending (dm_slots m) k'" for k'
        using table_upd(1,3,4) [OF ok i(1) kK, of ?v] b other by simp_all
      show ?thesis using a up2 handler_delivers [OF h] c tk k by simp
    qed
  qed
qed

lemma reassemble_step:
  assumes "table_ok K (dm_slots m)" "msg_key msg \<in> K" "fragment msg"
    and g: "gather (unat (dr_length rec)) msg (pending (dm_slots m) (msg_key msg)) = (pend, out)"
  shows "\<exists>p m'. reassemble E rec msg m = Some (p, m') \<and> p \<noteq> Reply \<and> (\<forall>rc. p = Return rc \<longrightarrow> rc = 0) \<and>
     table_ok K (dm_slots m') \<and> pending (dm_slots m') (msg_key msg) = pend \<and> dm_reg m' = dm_reg m \<and>
     dm_bufs m' = dm_bufs m \<and> delivered (dm_log m') = delivered (dm_log m) @ map (Pair (msg_key msg)) out \<and>
     (finite K \<longrightarrow> card K \<le> 3 \<longrightarrow>
        (\<forall>k'. k' \<noteq> msg_key msg \<longrightarrow> pending (dm_slots m') k' = pending (dm_slots m) k'))"
  using choose_step [OF assms(1,2) refl, of "unat (dr_length rec)"]
proof (elim disjE exE conjE)
  assume "choose_slot msg m = None"
    "gather (unat (dr_length rec)) msg (pending (dm_slots m) (msg_key msg)) = (pending (dm_slots m) (msg_key msg), [])"
  then show ?thesis using assms(1) g by (simp add: reassemble_def)
next
  fix i m1
  assume c: "choose_slot msg m = Some (i, m1)" "table_ok K (dm_slots m1)" "busy (dm_slots m1) (msg_key msg) i"
    "gather (unat (dr_length rec)) msg (pending (dm_slots m) (msg_key msg)) =
       collect (unat (dr_length rec)) (gathered (dm_slots m1 ! i)) (msg_payload msg)"
    "delivered (dm_log m1) = delivered (dm_log m)" "dm_reg m1 = dm_reg m" "dm_bufs m1 = dm_bufs m"
    "finite K \<longrightarrow> card K \<le> 3 \<longrightarrow>
       (\<forall>k'. k' \<noteq> msg_key msg \<longrightarrow> pending (dm_slots m1) k' = pending (dm_slots m) k')"
  from g c(4) have "collect (unat (dr_length rec)) (gathered (dm_slots m1 ! i)) (msg_payload msg) = (pend, out)" by simp
  from accumulate_step [OF c(2,3) refl assms(3) this, of E] obtain p m' where
    a: "accumulate E rec msg i m1 = Some (p, m')" "p \<noteq> Reply" "\<forall>rc. p = Return rc \<longrightarrow> rc = 0"
      "table_ok K (dm_slots m')" "pending (dm_slots m') (msg_key msg) = pend" "dm_reg m' = dm_reg m1"
      "dm_bufs m' = dm_bufs m1" "delivered (dm_log m') = delivered (dm_log m1) @ map (Pair (msg_key msg)) out"
      "\<forall>k'. k' \<noteq> msg_key msg \<longrightarrow> pending (dm_slots m') k' = pending (dm_slots m1) k'" by blast
  have "reassemble E rec msg m = Some (p, m')" using c(1) a(1) by (simp add: reassemble_def)
  then show ?thesis using a c by simp
qed

subsection \<open>Messages of long records\<close>

text \<open>A record whose value comes in several fragments: single-shot, in normal mode, with a handler.\<close>

definition long_record :: "bytes \<Rightarrow> bool" where
  "long_record rec \<longleftrightarrow> dr_type rec = 0 \<and> dr_mode rec = 0 \<and> dr_handler rec \<noteq> 0 \<and> \<not> dr_length rec < 9"

definition key24 :: "bytes \<Rightarrow> u32" where
  "key24 k = ucast (k ! 0) OR push_bit 8 (ucast (k ! 1)) OR push_bit 16 (ucast (k ! 2))"

lemma key24_msg: "length msg = 13 \<Longrightarrow>
    ucast (msg ! 0) OR push_bit 8 (ucast (msg ! 1)) OR push_bit 16 (ucast (msg ! 2)) = key24 (msg_key msg)"
  by (simp add: key24_def msg_key_def)

lemma long_dispatch:
  assumes "table_ok K (dm_slots m)" "msg_key msg \<in> K" "fragment msg"
    and "dev_lookup m (key24 (msg_key msg)) 0 = Some rec" "long_record rec"
    and "gather (unat (dr_length rec)) msg (pending (dm_slots m) (msg_key msg)) = (pend, out)"
  shows "\<exists>m'. device_dispatch_command E msg m = Some (0, m') \<and> table_ok K (dm_slots m') \<and>
     pending (dm_slots m') (msg_key msg) = pend \<and> dm_reg m' = dm_reg m \<and> dm_bufs m' = dm_bufs m \<and>
     delivered (dm_log m') = delivered (dm_log m) @ map (Pair (msg_key msg)) out \<and>
     (finite K \<longrightarrow> card K \<le> 3 \<longrightarrow>
        (\<forall>k'. k' \<noteq> msg_key msg \<longrightarrow> pending (dm_slots m') k' = pending (dm_slots m) k'))"
proof -
  have f: "length msg = 13" "msg_flags msg AND 0x10 = 0" using assms(3) by (simp_all add: fragment_def)
  have a: "admit rec msg m = (Inr 0, m)" using assms(5) f(2) by (simp add: admit_def long_record_def)
  obtain p m' where r: "reassemble E rec msg m = Some (p, m')" "p \<noteq> Reply" "\<forall>rc. p = Return rc \<longrightarrow> rc = 0"
    and rest: "table_ok K (dm_slots m') \<and> pending (dm_slots m') (msg_key msg) = pend \<and> dm_reg m' = dm_reg m \<and>
      dm_bufs m' = dm_bufs m \<and> delivered (dm_log m') = delivered (dm_log m) @ map (Pair (msg_key msg)) out \<and>
      (finite K \<longrightarrow> card K \<le> 3 \<longrightarrow>
        (\<forall>k'. k' \<noteq> msg_key msg \<longrightarrow> pending (dm_slots m') k' = pending (dm_slots m) k'))"
    using reassemble_step [OF assms(1-3,6), of E] by blast
  have "device_dispatch_command E msg m = Some (0, m')"
    unfolding device_dispatch_command_def Let_def key24_msg [OF f(1)] assms(4)
    using assms(5) f(2) r a by (cases p) (simp_all add: long_record_def send_reply_def)
  with rest show ?thesis by blast
qed

subsection \<open>Interleaved keys\<close>

fun dispatch_all :: "dev_env \<Rightarrow> bytes list \<Rightarrow> dev_mgr \<Rightarrow> dev_mgr option" where
  "dispatch_all E [] m = Some m"
| "dispatch_all E (msg # msgs) m =
     (case device_dispatch_command E msg m of None \<Rightarrow> None | Some (_, m) \<Rightarrow> dispatch_all E msgs m)"

text \<open>The specification: every key has a buffer of its own.\<close>

fun gather_all :: "(bytes \<Rightarrow> nat) \<Rightarrow> bytes list \<Rightarrow> (bytes \<Rightarrow> bytes option) \<Rightarrow> (bytes \<times> bytes) list" where
  "gather_all L [] P = []"
| "gather_all L (msg # msgs) P =
     (let k = msg_key msg; (b, out) = gather (L k) msg (P k)
      in map (Pair k) out @ gather_all L msgs (P(k := b)))"

definition length_of_key :: "dev_mgr \<Rightarrow> bytes \<Rightarrow> nat" where
  "length_of_key m k = (case dev_lookup m (key24 k) 0 of None \<Rightarrow> 0 | Some rec \<Rightarrow> unat (dr_length rec))"

definition long_fragment :: "dev_mgr \<Rightarrow> bytes \<Rightarrow> bool" where
  "long_fragment m msg \<longleftrightarrow>
     fragment msg \<and> (\<exists>rec. dev_lookup m (key24 (msg_key msg)) 0 = Some rec \<and> long_record rec)"

lemma lookup_reg: "dm_reg m' = dm_reg m \<Longrightarrow> dev_lookup m' a b = dev_lookup m a b"
  by (simp add: dev_lookup_def)

lemma reg_same:
  "dm_reg m' = dm_reg m \<Longrightarrow> length_of_key m' = length_of_key m"
  "dm_reg m' = dm_reg m \<Longrightarrow> long_fragment m' = long_fragment m"
proof -
  assume "dm_reg m' = dm_reg m"
  then have l: "dev_lookup m' = dev_lookup m" by (intro ext) (rule lookup_reg)
  show "length_of_key m' = length_of_key m" "long_fragment m' = long_fragment m"
    by (simp_all add: fun_eq_iff length_of_key_def long_fragment_def l)
qed

lemma dispatch_all_refines:
  assumes "finite K" "card K \<le> 3"
  shows "table_ok K (dm_slots m) \<Longrightarrow> msg_key ` set msgs \<subseteq> K \<Longrightarrow> \<forall>msg \<in> set msgs. long_fragment m msg \<Longrightarrow>
    \<exists>m'. dispatch_all E msgs m = Some m' \<and>
      delivered (dm_log m') = delivered (dm_log m) @ gather_all (length_of_key m) msgs (pending (dm_slots m))"
proof (induction msgs arbitrary: m)
  case (Cons msg msgs)
  let ?k = "msg_key msg"
  obtain rec where r: "dev_lookup m (key24 ?k) 0 = Some rec" "long_record rec" "fragment msg" "?k \<in> K"
    using Cons.prems by (auto simp: long_fragment_def)
  obtain b out where g: "gather (unat (dr_length rec)) msg (pending (dm_slots m) ?k) = (b, out)"
    by (cases "gather (unat (dr_length rec)) msg (pending (dm_slots m) ?k)")
  from long_dispatch [OF Cons.prems(1) r(4,3,1,2) g, of E] assms obtain m1 where
    d: "device_dispatch_command E msg m = Some (0, m1)" "table_ok K (dm_slots m1)" "dm_reg m1 = dm_reg m"
      "pending (dm_slots m1) ?k = b" "delivered (dm_log m1) = delivered (dm_log m) @ map (Pair ?k) out"
      "\<And>k'. k' \<noteq> ?k \<Longrightarrow> pending (dm_slots m1) k' = pending (dm_slots m) k'" by auto
  have P: "pending (dm_slots m1) = (pending (dm_slots m))(?k := b)" using d(4,6) by auto
  from Cons.IH [OF d(2)] Cons.prems obtain m' where "dispatch_all E msgs m1 = Some m'"
    "delivered (dm_log m') = delivered (dm_log m1) @ gather_all (length_of_key m) msgs (pending (dm_slots m1))"
    by (auto simp: reg_same [OF d(3)])
  moreover have "length_of_key m ?k = unat (dr_length rec)" by (simp add: length_of_key_def r(1))
  ultimately show ?case using d(1,5) g by (simp add: P Let_def)
qed simp

text \<open>
  C39.  From a table of free slots, while fragments of at most three long records
  come in any order and number, the three slots with their ages deliver to the handlers what a
  specification with a buffer for every key delivers: the same values, in the same order.
\<close>

theorem reassembly_refines:
  assumes "length (dm_slots m) = 3" "\<forall>s \<in> set (dm_slots m). age s = 0"
    and "\<forall>msg \<in> set msgs. long_fragment m msg" "card (msg_key ` set msgs) \<le> 3"
  shows "\<exists>m'. dispatch_all E msgs m = Some m' \<and>
    delivered (dm_log m') = delivered (dm_log m) @ gather_all (length_of_key m) msgs (\<lambda>_. None)"
proof -
  have nb: "\<not> busy (dm_slots m) k i" for k i using assms(2) by (auto simp: busy_def)
  then have P: "pending (dm_slots m) = (\<lambda>_. None)"
    by (auto simp: pending_def matching_slot_None [THEN iffD2])
  have "table_ok (msg_key ` set msgs) (dm_slots m)" using assms(1) nb by (simp add: table_ok_def)
  from dispatch_all_refines [OF _ assms(4) this subset_refl assms(3), of E] show ?thesis by (simp add: P)
qed

subsection \<open>Repeated fragments of one value\<close>

fun gather_seq :: "nat \<Rightarrow> bytes list \<Rightarrow> bytes option \<Rightarrow> bytes option \<times> bytes list" where
  "gather_seq n [] p = (p, [])"
| "gather_seq n (msg # msgs) p =
     (let (p, out) = gather n msg p; (p, out') = gather_seq n msgs p in (p, out @ out'))"

text \<open>The frames that carry \<open>data\<close> for the key, from sub-index \<open>j\<close> on.\<close>

fun carries :: "bytes \<Rightarrow> nat \<Rightarrow> bytes \<Rightarrow> bytes list \<Rightarrow> bool" where
  "carries k j data [] \<longleftrightarrow> data = []"
| "carries k j data (f # fs) \<longleftrightarrow> data \<noteq> [] \<and> fragment f \<and> msg_key f = k \<and> msg_flags f = of_nat j \<and>
     msg_payload f = take 8 data \<and> carries k (Suc j) (drop 8 data) fs"

lemma sub_index:
  assumes "msg_flags f = of_nat j" "j < 8"
  shows "unat (msg_offset f) = 8 * j" "first_fragment f \<longleftrightarrow> j = 0"
proof -
  have "j \<in> {0, 1, 2, 3, 4, 5, 6, 7}" using assms(2) by auto
  then show "unat (msg_offset f) = 8 * j" "first_fragment f \<longleftrightarrow> j = 0"
    using assms(1) by (auto simp: msg_offset_def first_fragment_def)
qed

lemma repeats_kept:
  assumes "gather n f p = (p, [])" "set zs \<subseteq> {f}"
  shows "gather_seq n (zs @ ys) p = gather_seq n ys p"
  using assms(2) by (induction zs) (auto simp: assms(1) split: prod.splits)

lemma remdups_adj_split:
  assumes "remdups_adj xs = f # fs"
  obtains zs ys where "xs = f # zs @ ys" "set zs \<subseteq> {f}" "remdups_adj ys = fs"
proof -
  from assms obtain xs' where x: "xs = f # xs'" by (cases xs) (auto simp: remdups_adj_Cons' split: if_splits)
  have "set (takeWhile (\<lambda>y. y = f) xs') \<subseteq> {f}" by (auto dest: set_takeWhileD)
  moreover have "remdups_adj (dropWhile (\<lambda>y. y = f) xs') = fs" using assms by (simp add: x remdups_adj_Cons')
  ultimately show ?thesis by (intro that) (simp_all add: x)
qed

lemma gather_rest:
  assumes "carries k j rest fs" "0 < j" "length b = 8 * j" "rest \<noteq> []" "n = length b + length rest" "n \<le> 64"
    and "remdups_adj xs = fs"
  shows "gather_seq n xs (Some b) = (None, [b @ rest])"
  using assms
proof (induction fs arbitrary: j rest b xs)
  case (Cons f fs)
  obtain zs ys where xs: "xs = f # zs @ ys" "set zs \<subseteq> {f}" "remdups_adj ys = fs"
    by (rule remdups_adj_split [OF Cons.prems(7)])
  have j: "j < 8" using Cons.prems(3-6) by (cases rest) auto
  have f: "msg_flags f = of_nat j" "msg_payload f = take 8 rest" "carries k (Suc j) (drop 8 rest) fs"
    using Cons.prems(1) by simp_all
  note s = sub_index [OF f(1) j]
  have "gather n f (Some b) = collect n b (take 8 rest)" using s Cons.prems(3) f(2) by (simp add: gather_def)
  show ?case
  proof (cases "length rest \<le> 8")
    case True
    then have fs: "fs = []" using f(3) by (cases fs) auto
    then have "ys = []" using xs(3) by simp
    have "gather n f (Some b) = (None, [b @ rest])"
      using s Cons.prems(3,5,6) f(2) True by (simp add: gather_def collect_def)
    moreover have "gather n f None = (None, [])" using s Cons.prems(2) by (simp add: gather_def)
    then have "gather_seq n (zs @ ys) None = (None, [])" using xs(2) \<open>ys = []\<close> by (simp add: repeats_kept del: append_Nil2)
    ultimately show ?thesis by (simp add: xs(1))
  next
    case False
    let ?b = "b @ take 8 rest"
    have "gather n f (Some b) = (Some ?b, [])"
      using s Cons.prems(3,5,6) f(2) False by (simp add: gather_def collect_def)
    moreover have "gather n f (Some ?b) = (Some ?b, [])"
      using s Cons.prems(2,3) False by (simp add: gather_def)
    moreover have "gather_seq n ys (Some ?b) = (None, [?b @ drop 8 rest])"
      by (rule Cons.IH [OF f(3)]) (use Cons.prems False xs(3) in simp_all)
    ultimately show ?thesis using xs(2) by (simp add: xs(1) repeats_kept)
  qed
qed simp

lemma gather_frames:
  assumes "carries k 0 data fs" "8 < length data" "length data \<le> 64" "remdups_adj xs = fs"
  shows "gather_seq (length data) xs p = (None, [data])"
proof (cases fs)
  case Nil
  then show ?thesis using assms(1,2) by simp
next
  case (Cons f fs')
  obtain zs ys where xs: "xs = f # zs @ ys" "set zs \<subseteq> {f}" "remdups_adj ys = fs'"
    by (rule remdups_adj_split [OF assms(4) [unfolded Cons]])
  have f: "msg_flags f = of_nat 0" "msg_payload f = take 8 data" "carries k (Suc 0) (drop 8 data) fs'"
    using assms(1) Cons by simp_all
  note s = sub_index [OF f(1), simplified]
  let ?b = "take 8 data"
  have c: "collect (length data) [] ?b = (Some ?b, [])" using assms(2) by (simp add: collect_def)
  have "gather (length data) f p = (Some ?b, [])"
    using s f(2) c by (auto simp: gather_def split: option.splits)
  moreover have "gather (length data) f (Some ?b) = (Some ?b, [])" using s f(2) c assms(2) by (simp add: gather_def)
  moreover have "gather_seq (length data) ys (Some ?b) = (None, [?b @ drop 8 data])"
    by (rule gather_rest [OF f(3)]) (use assms(2,3) xs(3) in simp_all)
  ultimately show ?thesis using xs(2) by (simp add: xs(1) repeats_kept)
qed

subsection \<open>A request and its answer\<close>

lemma dispatch_one_key:
  assumes "long_record rec"
  shows "table_ok UNIV (dm_slots m) \<Longrightarrow> dev_lookup m (key24 k) 0 = Some rec \<Longrightarrow>
    \<forall>msg \<in> set msgs. fragment msg \<and> msg_key msg = k \<Longrightarrow>
    gather_seq (unat (dr_length rec)) msgs (pending (dm_slots m) k) = (p, out) \<Longrightarrow>
    \<exists>m'. dispatch_all E msgs m = Some m' \<and> delivered (dm_log m') = delivered (dm_log m) @ map (Pair k) out"
proof (induction msgs arbitrary: m out)
  case (Cons msg msgs)
  have f: "fragment msg" "msg_key msg = k" using Cons.prems(3) by simp_all
  obtain b out1 where g: "gather (unat (dr_length rec)) msg (pending (dm_slots m) k) = (b, out1)"
    by (cases "gather (unat (dr_length rec)) msg (pending (dm_slots m) k)")
  obtain out2 where s: "gather_seq (unat (dr_length rec)) msgs b = (p, out2)" "out = out1 @ out2"
    using Cons.prems(4) g by (auto split: prod.splits)
  from long_dispatch [OF Cons.prems(1) UNIV_I f(1), of rec b out1 E] g assms Cons.prems(2) obtain m1 where
    d: "device_dispatch_command E msg m = Some (0, m1)" "table_ok UNIV (dm_slots m1)" "dm_reg m1 = dm_reg m"
      "pending (dm_slots m1) k = b" "delivered (dm_log m1) = delivered (dm_log m) @ map (Pair k) out1"
    by (auto simp: f(2))
  from Cons.IH [OF d(2), of out2] Cons.prems(2,3) s(1) d(4) show ?case
    by (auto simp: d(1,5) s(2) lookup_reg [OF d(3)])
qed auto

fun sent :: "dev_event list \<Rightarrow> bytes list" where
  "sent [] = []"
| "sent (SendFrame b # es) = b # sent es"
| "sent (e # es) = sent es"

lemma dev_sent_append [simp]: "sent (xs @ ys) = sent xs @ sent ys"
  by (induction xs rule: sent.induct) simp_all

lemma log_frames:
  "dm_log (fold (\<lambda>b. dlog (SendFrame b)) fs m) = dm_log m @ map SendFrame fs"
  "dm_reg (fold (\<lambda>b. dlog (SendFrame b)) fs m) = dm_reg m"
  "dm_bufs (fold (\<lambda>b. dlog (SendFrame b)) fs m) = dm_bufs m"
  by (induction fs arbitrary: m) (simp_all add: dlog_def)

lemma sent_frames: "sent (map SendFrame fs) = fs"
  by (induction fs) simp_all

lemma delivered_frames: "delivered (map SendFrame fs) = []"
  by (induction fs) simp_all

lemma advance_low: "ty \<noteq> 2 \<Longrightarrow> j < 7 \<Longrightarrow> advance_seq ty (of_nat j) = of_nat (Suc j)"
proof -
  assume "ty \<noteq> 2" "j < 7"
  then have "j \<in> {0, 1, 2, 3, 4, 5, 6}" by auto
  with \<open>ty \<noteq> 2\<close> show ?thesis by (auto simp: advance_seq_def)
qed

lemma flag_clear: "j < 8 \<Longrightarrow> (of_nat j :: u8) AND 0x10 = 0"
proof -
  assume "j < 8"
  then have "j \<in> {0, 1, 2, 3, 4, 5, 6, 7}" by auto
  then show ?thesis by auto
qed

lemma frame_carries:
  assumes "length k = 3" "length q = 8" "j < 8" "p \<noteq> []" "length p = min 8 (length rest)" "p = take 8 rest"
    and "carries k (Suc j) (drop 8 rest) fs"
  shows "carries k j rest (frame_bytes \<lparr>frame_key = k, frame_seq = of_nat j, frame_len = of_nat (length p),
     frame_payload = p @ drop (length p) q\<rparr> # fs)"
proof -
  have l: "length p \<le> 8" using assms(5) by simp
  then have "unat (of_nat (length p) :: u8) = length p" by (simp add: unat_of_nat)
  then show ?thesis
    using assms l flag_clear [OF assms(3)]
    by (auto simp: frame_bytes_def fragment_def msg_key_def msg_flags_def msg_len_def msg_payload_def nth_append min_def)
qed

lemma send_chunks_carries:
  "frame_key f = k \<Longrightarrow> length k = 3 \<Longrightarrow> length (frame_payload f) = 8 \<Longrightarrow> frame_seq f = of_nat j \<Longrightarrow>
   dev_frame.more f = () \<Longrightarrow>
   ty \<noteq> 2 \<Longrightarrow> r \<noteq> 0 \<Longrightarrow> length data = offset + unat r \<Longrightarrow> 8 * j + unat r \<le> 64 \<Longrightarrow>
   \<exists>fs. send_chunks data ty f r offset = Some fs \<and> carries k j (drop offset data) fs"
proof (induction "unat r" arbitrary: f r offset j rule: less_induct)
  case less
  let ?n = "min 8 (unat r)" and ?rest = "drop offset data"
  let ?p = "take ?n ?rest"
  have n: "unat (ucast (if 8 < r then 8 else r) :: u8) = ?n" by (rule chunk_size)
  have len: "ucast (if 8 < r then 8 else r) = (of_nat ?n :: u8)"
    using n by (metis of_nat_unat ucast_id)
  have r0: "unat r \<noteq> 0" using less.prems(7) unat_gt_0 [of r] by simp
  have sl: "slice data offset ?n = Some ?p" using less.prems(8) by (simp add: slice_def)
  have p: "?p \<noteq> []" "length ?p = min 8 (length ?rest)" "?p = take 8 ?rest" "length ?p = ?n"
    using less.prems(8) r0 by (auto simp: min_def)
  have j: "j < 8" using less.prems(9) r0 by simp
  let ?f = "\<lparr>frame_key = k, frame_seq = of_nat j, frame_len = of_nat (length ?p),
     frame_payload = ?p @ drop (length ?p) (frame_payload f)\<rparr>"
  have f: "f\<lparr>frame_len := ucast (if 8 < r then 8 else r), frame_payload := ?p @ drop (length ?p) (frame_payload f)\<rparr> = ?f"
    using less.prems(1,4) p(4) len by (cases f) simp
  have head: "carries k (Suc j) (drop 8 ?rest) fs \<Longrightarrow> carries k j ?rest (frame_bytes ?f # fs)" for fs
    by (rule frame_carries [OF less.prems(2,3) j p(1-3)])
  show ?case
  proof (cases "r - of_nat ?n = 0")
    case True
    then have "unat r \<le> 8" using unat_rest [of r] r0 by simp
    then have d: "drop 8 ?rest = []" using less.prems(8) by simp
    have "send_chunks data ty f r offset = Some [frame_bytes ?f]"
      using less.prems(7) True sl f n by (subst send_chunks.simps) (simp add: Let_def)
    then show ?thesis using head [of "[]"] d by (intro exI [of _ "[frame_bytes ?f]"]) simp
  next
    case False
    then have big: "8 < unat r" using unat_rest [of r] unat_gt_0 [of "r - of_nat ?n"] by (auto simp: min_def split: if_splits)
    let ?g = "?f\<lparr>frame_seq := advance_seq ty (frame_seq ?f)\<rparr>"
    have "\<exists>fs. send_chunks data ty ?g (r - of_nat ?n) (offset + ?n) = Some fs \<and> carries k (Suc j) (drop (offset + ?n) data) fs"
    proof (rule less.hyps)
      show "unat (r - of_nat ?n) < unat r" using unat_rest [of r] r0 by simp
      show "frame_seq ?g = of_nat (Suc j)" using advance_low [OF less.prems(6), of j] big less.prems(9) by simp
      show "8 * Suc j + unat (r - of_nat ?n) \<le> 64" "length data = offset + ?n + unat (r - of_nat ?n)"
        using big less.prems(8,9) unat_rest [of r] by simp_all
      show "length (frame_payload ?g) = 8" using less.prems(3) p(4) by simp
    qed (use less.prems False in simp_all)
    then obtain fs where fs: "send_chunks data ty ?g (r - of_nat ?n) (offset + ?n) = Some fs"
      "carries k (Suc j) (drop 8 ?rest) fs" using big by (auto simp: add.commute)
    have "send_chunks data ty f r offset = Some (frame_bytes ?f # fs)"
      using less.prems(7) False sl f n fs(1) by (subst send_chunks.simps) (simp add: Let_def)
    then show ?thesis using head [OF fs(2)] by blast
  qed
qed

text \<open>What a record is, as the requesting and as the answering side see it.\<close>

definition key_bytes :: "bytes \<Rightarrow> bytes" where
  "key_bytes rec = [ucast (dr_key rec), ucast (drop_bit 8 (dr_key rec)), ucast (drop_bit 16 (dr_key rec))]"

definition answering_record :: "bytes \<Rightarrow> bool" where
  "answering_record rec \<longleftrightarrow> dr_type rec = 0 \<and> dr_mode rec = 1 \<and> dr_handler rec \<noteq> 0 \<and> dr_aux rec = 0"

definition request_frame :: "bytes \<Rightarrow> bytes" where
  "request_frame k = k @ [0x10, 0] @ replicate 8 0"

lemma request_sent:
  assumes "dr_type rec = 0" "dr_aux_len rec = 0"
  shows "device_apply (Some rec) (Some m) = Some (0, Some (dlog (SendFrame (request_frame (key_bytes rec))) m))"
  using assms by (simp add: device_apply_def Let_def empty_frame_def frame_bytes_def request_frame_def key_bytes_def)

lemma request_parts:
  assumes "length k = 3"
  shows "msg_key (request_frame k) = k" "msg_flags (request_frame k) = 0x10" "msg_len (request_frame k) = 0"
    "ucast (request_frame k ! 0) OR push_bit 8 (ucast (request_frame k ! 1)) OR push_bit 16 (ucast (request_frame k ! 2)) = key24 k"
  using assms by (simp_all add: request_frame_def msg_key_def msg_flags_def msg_len_def key24_def nth_append)

text \<open>The value that the handler of the answering record leaves in its data.\<close>

definition handler_value :: "dev_env \<Rightarrow> dev_mgr \<Rightarrow> nat \<Rightarrow> bytes" where
  "handler_value E m n = map (snd (de_handler E (dm_log m))) [0..<n]"

lemma request_dispatched:
  assumes "length k = 3" "dev_lookup m (key24 k) 0 = Some rec" "answering_record rec"
    and "length (dm_bufs m (dr_data rec)) = unat (dr_length rec)" "8 < unat (dr_length rec)" "unat (dr_length rec) \<le> 64"
    and "\<forall>h. de_take E h" "fst (de_handler E (dm_log m)) \<noteq> -3"
  shows "\<exists>m' fs. device_dispatch_command E (request_frame k) m = Some (0, m') \<and>
    sent (dm_log m') = sent (dm_log m) @ fs \<and> carries k 0 (handler_value E m (unat (dr_length rec))) fs"
proof -
  let ?msg = "request_frame k" and ?n = "unat (dr_length rec)"
  let ?v = "handler_value E m ?n"
  note p = request_parts [OF assms(1)]
  have rec: "dr_type rec = 0" "dr_mode rec = 1" "dr_handler rec \<noteq> 0" "dr_aux rec = 0"
    using assms(3) by (simp_all add: answering_record_def)
  have adm: "admit rec ?msg m = (Inr 1, m)" using rec p(2) by (simp add: admit_def)
  obtain r c where h: "de_handler E (dm_log m) = (r, c)" by fastforce
  define m1 where "m1 = set_buf (dr_data rec) ?v
    (dlog (Handler (dr_handler rec) (dr_hctx rec) ?msg (replicate ?n 0) (dr_length rec)) (set_buf (dr_data rec) (replicate ?n 0) m))"
  have one: "single_shot E rec ?msg m = Some (Answer r, m1)"
    using assms(4) rec(4) by (simp add: single_shot_def blit_def run_handler_def h set_buf_def dlog_def m1_def
        handler_value_def Let_def)
  define m2 where "m2 = dlog (Take (dr_sem rec) 0x7fffffff) m1"
  have m2: "dm_bufs m2 (dr_data rec) = ?v" "sent (dm_log m2) = sent (dm_log m)"
    by (simp_all add: m2_def m1_def dlog_def set_buf_def)
  let ?f = "empty_frame\<lparr>frame_key := k, frame_seq := 0\<rparr>"
  have "\<exists>fs. send_chunks ?v (dr_type rec) ?f (dr_length rec) 0 = Some fs \<and> carries k 0 (drop 0 ?v) fs"
    by (rule send_chunks_carries)
      (use assms(1,5,6) rec(1) in \<open>auto simp: empty_frame_def handler_value_def\<close>)
  then obtain fs where fs: "send_chunks ?v (dr_type rec) ?f (dr_length rec) 0 = Some fs" "carries k 0 ?v fs" by auto
  let ?m3 = "fold (\<lambda>b. dlog (SendFrame b)) fs m2"
  have "device_send_chunked rec ?f 1 m2 = Some ?m3" by (simp add: device_send_chunked_def m2(1) fs(1))
  moreover have "take_sem E (dr_sem rec) 0x7fffffff m1 = (True, m2)" using assms(7) by (simp add: take_sem_def m2_def)
  ultimately have "send_reply E rec ?msg 1 m1 = Some (0, dlog (Give (dr_sem rec)) ?m3)"
    using rec(1) p(1) by (simp add: send_reply_def Let_def empty_frame_def)
  then have "device_dispatch_command E ?msg m = Some (0, dlog (Give (dr_sem rec)) ?m3)"
    unfolding device_dispatch_command_def Let_def p(4) assms(2)
    using adm one rec p(2) assms(8) h by simp
  moreover have "sent (dm_log (dlog (Give (dr_sem rec)) ?m3)) = sent (dm_log m) @ fs"
    using m2(2) by (simp add: dlog_def log_frames sent_frames)
  ultimately show ?thesis using fs(2) by blast
qed

lemma carries_fragments: "carries k j data fs \<Longrightarrow> \<forall>f \<in> set fs. fragment f \<and> msg_key f = k"
  by (induction fs arbitrary: j data) auto

text \<open>
  C40.  A request over the bus.  One side asks for a long record: it sends one frame
  with the key of the record and the request bit.  The other side, whose record of the same key and length
  answers requests, has its handler fill the data of the record and sends it in frames of eight bytes.
  When these frames arrive in their order, each of them any number of times in a row, the first side
  hands its own handler the value that the other handler produced, once, and nothing else.
\<close>

theorem request_answered:
  assumes "dev_lookup a (key24 k) 0 = Some recA" "long_record recA" "dr_aux_len recA = 0" "key_bytes recA = k"
    and "dev_lookup b (key24 k) 0 = Some recB" "answering_record recB" "dr_length recB = dr_length recA"
    and "length (dm_bufs b (dr_data recB)) = unat (dr_length recB)" "unat (dr_length recA) \<le> 64"
    and "\<forall>h. de_take EB h" "fst (de_handler EB (dm_log b)) \<noteq> -3"
    and "length (dm_slots a) = 3" "\<forall>s \<in> set (dm_slots a). age s = 0"
  shows "\<exists>a1 req b1 fs. device_apply (Some recA) (Some a) = Some (0, Some a1) \<and>
     sent (dm_log a1) = sent (dm_log a) @ [req] \<and>
     device_dispatch_command EB req b = Some (0, b1) \<and> sent (dm_log b1) = sent (dm_log b) @ fs \<and>
     (\<forall>xs. remdups_adj xs = fs \<longrightarrow> (\<exists>a2. dispatch_all EA xs a1 = Some a2 \<and>
        delivered (dm_log a2) = delivered (dm_log a) @ [(k, handler_value EB b (unat (dr_length recA)))]))"
proof -
  let ?n = "unat (dr_length recA)"
  let ?v = "handler_value EB b ?n" and ?a1 = "dlog (SendFrame (request_frame k)) a"
  have k: "length k = 3" using assms(4) by (auto simp: key_bytes_def)
  have n: "8 < ?n" using assms(2) by (simp add: long_record_def word_less_nat_alt)
  have tA: "dr_type recA = 0" using assms(2) by (simp add: long_record_def)
  obtain b1 fs where b: "device_dispatch_command EB (request_frame k) b = Some (0, b1)"
    "sent (dm_log b1) = sent (dm_log b) @ fs" "carries k 0 ?v fs"
    using request_dispatched [OF k assms(5,6,8) _ _ assms(10,11)] n assms(7,9) by auto
  have nb: "\<not> busy (dm_slots a) j i" for i j using assms(13) by (auto simp: busy_def)
  have "\<exists>a2. dispatch_all EA xs ?a1 = Some a2 \<and> delivered (dm_log a2) = delivered (dm_log a) @ [(k, ?v)]"
    if xs: "remdups_adj xs = fs" for xs
  proof -
    have len: "length ?v = ?n" by (simp add: handler_value_def)
    have "gather_seq ?n xs (pending (dm_slots ?a1) k) = (None, [?v])"
      using gather_frames [OF b(3) _ _ xs] n assms(9) by (simp add: len)
    moreover have "\<forall>msg \<in> set xs. fragment msg \<and> msg_key msg = k"
      using carries_fragments [OF b(3)] xs by (metis remdups_adj_set)
    moreover have "table_ok UNIV (dm_slots ?a1)" using assms(12) nb by (simp add: table_ok_def dlog_def)
    moreover have "dev_lookup ?a1 (key24 k) 0 = Some recA" using assms(1) lookup_reg [of ?a1 a] by (simp add: dlog_def)
    ultimately obtain a2 where "dispatch_all EA xs ?a1 = Some a2"
      "delivered (dm_log a2) = delivered (dm_log ?a1) @ map (Pair k) [?v]"
      using dispatch_one_key [OF assms(2), of ?a1 k xs None "[?v]" EA] by blast
    then show ?thesis by (simp add: dlog_def)
  qed
  then show ?thesis using request_sent [OF tA assms(3), of a] b(1,2) assms(4)
    by (intro exI [of _ ?a1] exI [of _ "request_frame k"] exI [of _ b1] exI [of _ fs]) (simp add: dlog_def)
qed

text \<open>A record of twelve bytes with the key 1, 2, 3, in a registry that compares the three bytes of a key.\<close>

definition demo_slot :: "u8 \<Rightarrow> bytes" where
  "demo_slot mode = [0x10, 0, 0, 0, 1, 0, 0, 0, 12, 0, 0, 0, 1, 2, 3, mode, 0, 0, 0, 0, 1, 0, 0, 0] @ replicate 20 0"

definition demo_dev :: "u8 \<Rightarrow> dev_mgr" where
  "demo_dev mode =
     \<lparr>dm_reg = \<lparr>reg_count = 1, reg_capacity = 1, reg_cmp = (\<lambda>k e. take 3 k \<noteq> take 3 (drop 12 e)),
        reg_slots = [demo_slot mode]\<rparr>,
      dm_bufs = (\<lambda>_. replicate 12 0),
      dm_slots = replicate 3 \<lparr>age = 0, slot_key = [0, 0, 0], fill = 0, slot_buf = replicate 64 0\<rparr>, dm_log = []\<rparr>"

definition demo_dev_env :: dev_env where
  "demo_dev_env = \<lparr>de_handler = (\<lambda>h. (0, \<lambda>i. of_nat (i + 1))), de_take = (\<lambda>h. True)\<rparr>"

lemma demo_lookup: "dev_lookup (demo_dev mode) (key24 [1, 2, 3]) 0 = Some (demo_slot mode)"
proof -
  have k: "key24 [1, 2, 3] = 0x30201" by (simp add: key24_def)
  show ?thesis
    by (simp add: k dev_lookup_def demo_dev_def registry_lookup_value_def registry_lookup_def registry_find_def
        demo_slot_def le32_def)
qed

lemma demo_fields:
  "dr_length (demo_slot mode) = 12" "dr_type (demo_slot mode) = 0" "dr_mode (demo_slot mode) = mode"
  "dr_handler (demo_slot mode) = 1" "dr_aux (demo_slot mode) = 0" "dr_aux_len (demo_slot mode) = 0"
  by (simp_all add: dr_length_def dr_type_def dr_mode_def dr_handler_def dr_aux_def dr_aux_len_def
      slot_word_def demo_slot_def nth_append)

lemma demo_key: "key_bytes (demo_slot 0) = [1, 2, 3]"
  by (simp add: key_bytes_def dr_key_def slot_word_def demo_slot_def)

lemma demo_roles: "long_record (demo_slot 0)" "answering_record (demo_slot 1)"
  by (simp_all add: long_record_def answering_record_def demo_fields)

theorem request_answered_witness:
  "\<exists>a1 req b1 fs. device_apply (Some (demo_slot 0)) (Some (demo_dev 0)) = Some (0, Some a1) \<and>
     sent (dm_log a1) = [req] \<and> device_dispatch_command demo_dev_env req (demo_dev 1) = Some (0, b1) \<and>
     sent (dm_log b1) = fs \<and>
     (\<forall>xs. remdups_adj xs = fs \<longrightarrow> (\<exists>a2. dispatch_all demo_dev_env xs a1 = Some a2 \<and>
        delivered (dm_log a2) = [([1, 2, 3], [1, 2, 3, 4, 5, 6, 7, 8, 9, 10, 11, 12])]))"
proof -
  have v: "handler_value demo_dev_env (demo_dev 1) 12 = [1, 2, 3, 4, 5, 6, 7, 8, 9, 10, 11, 12]"
    by (simp add: handler_value_def demo_fields demo_dev_env_def upt_rec)
  have "dm_log (demo_dev mode) = []" "length (dm_slots (demo_dev mode)) = 3" "\<forall>s \<in> set (dm_slots (demo_dev mode)). age s = 0"
    "length (dm_bufs (demo_dev mode) p) = 12" for mode p by (simp_all add: demo_dev_def)
  moreover have "\<forall>h. de_take demo_dev_env h" "fst (de_handler demo_dev_env h) \<noteq> -3" for h by (simp_all add: demo_dev_env_def)
  ultimately show ?thesis
    using request_answered [OF demo_lookup [of 0] demo_roles(1) demo_fields(6) demo_key demo_lookup [of 1] demo_roles(2),
        of demo_dev_env demo_dev_env] by (simp add: demo_fields v)
qed

theorem reassembly_refines_witness:
  "\<exists>m'. dispatch_all demo_dev_env
       [[1, 2, 3, 0, 8, 1, 2, 3, 4, 5, 6, 7, 8], [1, 2, 3, 0, 8, 9, 9, 9, 9, 9, 9, 9, 9],
        [1, 2, 3, 1, 4, 5, 6, 7, 8, 0, 0, 0, 0]] (demo_dev 0) = Some m' \<and>
     delivered (dm_log m') = [([1, 2, 3], [9, 9, 9, 9, 9, 9, 9, 9, 5, 6, 7, 8])]"
proof -
  let ?msgs = "[[1, 2, 3, 0, 8, 1, 2, 3, 4, 5, 6, 7, 8], [1, 2, 3, 0, 8, 9, 9, 9, 9, 9, 9, 9, 9],
        [1, 2, 3, 1, 4, 5, 6, 7, 8, 0, 0, 0, 0]] :: bytes list"
  have k: "msg_key msg = [1, 2, 3]" if "msg \<in> set ?msgs" for msg using that by (auto simp: msg_key_def)
  have "long_fragment (demo_dev 0) msg" if "msg \<in> set ?msgs" for msg
    using that demo_roles(1) demo_lookup [of 0] unfolding long_fragment_def k [OF that]
    by (auto simp: fragment_def msg_len_def msg_flags_def)
  moreover have "card (msg_key ` set ?msgs) \<le> 3" by (simp add: msg_key_def)
  moreover have "length (dm_slots (demo_dev 0)) = 3" "\<forall>s \<in> set (dm_slots (demo_dev 0)). age s = 0" "dm_log (demo_dev 0) = []"
    by (simp_all add: demo_dev_def)
  moreover have "length_of_key (demo_dev 0) [1, 2, 3] = 12" by (simp add: length_of_key_def demo_lookup demo_fields)
  then have "gather_all (length_of_key (demo_dev 0)) ?msgs (\<lambda>_. None) = [([1, 2, 3], [9, 9, 9, 9, 9, 9, 9, 9, 5, 6, 7, 8])]"
    by (simp add: gather_def collect_def msg_key_def msg_offset_def msg_flags_def msg_len_def msg_payload_def first_fragment_def)
  ultimately show ?thesis using reassembly_refines [of "demo_dev 0" ?msgs demo_dev_env] by auto
qed

end
