(* ===== verification/Edges.thy ===== *)
theory Edges
  imports Prelude
begin

text \<open>
  The contract of an edge detector: a component that remembers a level and reports a change of it,
  and nothing else.  The transfer state of the user ECU, its button scan and the power button of the
  ux service provide it.
\<close>

locale edge_detector =
  fixes inv :: "'s \<Rightarrow> bool"
    and step :: "'i \<Rightarrow> 's \<Rightarrow> 's \<times> 'e list"
    and level :: "'s \<Rightarrow> bool"
    and sense :: "'i \<Rightarrow> bool option"
    and report :: "bool \<Rightarrow> 'e"
  assumes keep: "inv s \<Longrightarrow> inv (fst (step i s))"
    and quiet: "inv s \<Longrightarrow> sense i = None \<Longrightarrow> level (fst (step i s)) = level s \<and> snd (step i s) = []"
    and edge: "inv s \<Longrightarrow> sense i = Some b \<Longrightarrow>
      level (fst (step i s)) = b \<and> snd (step i s) = (if b = level s then [] else [report b])"
begin

fun run :: "'i list \<Rightarrow> 's \<Rightarrow> 's \<times> 'e list" where
  "run [] s = (s, [])"
| "run (i # is) s = (let (s, es) = step i s; (s, fs) = run is s in (s, es @ fs))"

lemma run_edges:
  assumes "inv s"
  shows "snd (run is s) = map report (tl (remdups_adj (level s # List.map_filter sense is)))"
  using assms
proof (induction "is" arbitrary: s)
  case Nil
  then show ?case by (simp add: List.map_filter_def)
next
  case (Cons i "is")
  obtain s1 es where 1: "step i s = (s1, es)" by fastforce
  have 2: "inv s1" using keep [OF Cons.prems, of i] by (simp add: 1)
  have h: "report c # map report (tl (remdups_adj (c # ys))) = map report (remdups_adj (c # ys))" for c ys
    by (metis remdups_adj_head list.map(2))
  show ?case
  proof (cases "sense i")
    case None
    then show ?thesis using quiet [OF Cons.prems None] Cons.IH [OF 2]
      by (simp add: 1 List.map_filter_simps split: prod.split)
  next
    case (Some b)
    then show ?thesis using edge [OF Cons.prems Some] Cons.IH [OF 2]
      by (auto simp: 1 List.map_filter_simps h split: prod.split)
  qed
qed

lemma run_level:
  assumes "inv s"
  shows "level (fst (run is s)) = last (level s # List.map_filter sense is)"
  using assms
proof (induction "is" arbitrary: s)
  case Nil
  then show ?case by (simp add: List.map_filter_def)
next
  case (Cons i "is")
  obtain s1 es where 1: "step i s = (s1, es)" by fastforce
  have 2: "inv s1" using keep [OF Cons.prems, of i] by (simp add: 1)
  show ?case using quiet [OF Cons.prems, of i] edge [OF Cons.prems, of i] Cons.IH [OF 2]
    by (cases "sense i") (auto simp: 1 List.map_filter_simps split: prod.split)
qed

end

end
