(* ===== verification/Events.thy ===== *)
theory Events
  imports Edges Flash
begin

text \<open>
  Transfer completion (\<open>src/user_ecu/src/store.c\<close>), the event posts and the button scan
  (\<open>src/user_ecu/src/event.c\<close>) of the user ECU.  The queue, the timer service and the
  peripheral registers are outside the repository: what they answer is an argument, what they are
  asked is the list of operations that a step returns.
\<close>

subsection \<open>Transfer completion\<close>

text \<open>A waiter object; the handle is the word that is sampled behind it, \<open>None\<close> when it is null.\<close>

record waiter =
  present :: u8
  half_at_1 :: u16
  skip_lock :: u8
  len_a :: u16
  len_b :: u16
  handle :: "u32 option"

datatype which = Waiter_a | Waiter_b

text \<open>A give carries the bytes from the item's address on; the queue copies its item size of them.\<close>

datatype xfer_op = Reset which | Give which bytes | Logged u8

record 'd xfer =
  waiter_a :: waiter
  waiter_b :: waiter
  state_flag :: u8
  post_byte :: u8
  xfer_flash :: "'d flash"

text \<open>The reset of a waiter is a call of the kernel; \<open>rst\<close> is what it leaves.\<close>

definition reset_a :: "(waiter \<Rightarrow> waiter) \<Rightarrow> 'd xfer \<times> xfer_op list \<Rightarrow> 'd xfer \<times> xfer_op list" where
  "reset_a rst = (\<lambda>(x, ops). (x\<lparr>waiter_a := rst (waiter_a x)\<rparr>, ops @ [Reset Waiter_a]))"

definition reset_b :: "(waiter \<Rightarrow> waiter) \<Rightarrow> 'd xfer \<times> xfer_op list \<Rightarrow> 'd xfer \<times> xfer_op list" where
  "reset_b rst = (\<lambda>(x, ops). (x\<lparr>waiter_b := rst (waiter_b x)\<rparr>, ops @ [Reset Waiter_b]))"

text \<open>The record of the log: its handle and its source.\<close>

record 'd log_env =
  log_bus :: "'d bus"
  log_handle :: "session option"
  src_word0 :: u32
  src_half4 :: u16

definition log_flag :: "'d log_env \<Rightarrow> u8 \<Rightarrow> 'd xfer \<times> xfer_op list \<Rightarrow> 'd xfer \<times> xfer_op list" where
  "log_flag e flag = (\<lambda>(x, ops).
     (x\<lparr>state_flag := flag,
        xfer_flash := log_append_event (log_bus e) (log_handle e) (src_word0 e) (src_half4 e) flag (xfer_flash x)\<rparr>,
      ops @ [Logged flag]))"

definition rec16 :: "bytes \<Rightarrow> nat \<Rightarrow> u16" where
  "rec16 r i = rd16 (r ! i) (r ! (i + 1))"

definition xfer_state_log_notify ::
  "'d log_env \<Rightarrow> (waiter \<Rightarrow> waiter) \<Rightarrow> bytes \<Rightarrow> 'd xfer \<Rightarrow> 'd xfer \<times> xfer_op list" where
  "xfer_state_log_notify e rst r x =
     (let s = (x, []);
          s = (if r ! 9 AND 2 \<noteq> 0 then reset_a rst s else s);
          s = (if r ! 2 AND 2 \<noteq> 0 then reset_b rst s else s);
          s = (if rec16 r 0xa = 0x3fd then (if state_flag (fst s) = 0 then log_flag e 1 s else s)
               else (if state_flag (fst s) \<noteq> 0 then log_flag e 0 s else s));
          s = (if rec16 r 0xc \<noteq> 0 then
                 (let s = (if present (waiter_a (fst s)) \<noteq> 0 \<and> half_at_1 (waiter_a (fst s)) = 0
                           then reset_a rst s else s)
                  in (fst s, snd s @ [Give Waiter_a (drop 7 r)]))
               else s)
      in if rec16 r 5 \<noteq> 0 then
           (let s = (if present (waiter_a (fst s)) \<noteq> 0 \<and> half_at_1 (waiter_b (fst s)) = 0
                     then reset_b rst s else s)
            in (fst s, snd s @ [Give Waiter_b r]))
         else s)"

definition xfer_waiter_notify ::
  "(waiter \<Rightarrow> waiter) \<Rightarrow> bytes \<Rightarrow> 'd xfer \<Rightarrow> 'd xfer \<times> xfer_op list" where
  "xfer_waiter_notify rst r x =
     (let s = (x, []);
          s = (if r ! 0 AND 2 \<noteq> 0 then reset_a rst s else s)
      in if r ! 0 AND 1 \<noteq> 0 then reset_b rst s else s)"

text \<open>One of the two blocks; \<open>None\<close> is the trap on a null handle.\<close>

definition post_one :: "which \<Rightarrow> u8 \<Rightarrow> waiter \<Rightarrow> (u8 \<times> xfer_op list) option" where
  "post_one who ty w = (case handle w of
       None \<Rightarrow> None
     | Some blocked \<Rightarrow>
         if blocked = 0 \<and> skip_lock w AND 1 = 0 \<and> present w = 0 then
           (let ty = ty AND 0xfe; n = len_b w + len_a w - 1
            in Some (ty, [Give who [1, 0, ty, ucast n, ucast (drop_bit 8 n), 1, 0]]))
         else Some (ty, []))"

definition xfer_waiter_post_frame :: "u32 \<Rightarrow> u8 \<Rightarrow> 'd xfer \<Rightarrow> ('d xfer \<times> xfer_op list) option" where
  "xfer_waiter_post_frame arg0 first x =
     (let ty = ucast (drop_bit 16 arg0); x = x\<lparr>post_byte := first\<rparr>
      in case post_one Waiter_a ty (waiter_a x) of
           None \<Rightarrow> None
         | Some (ty, ops_a) \<Rightarrow>
             (case post_one Waiter_b ty (waiter_b x) of
                None \<Rightarrow> None
              | Some (ty, ops_b) \<Rightarrow> Some (x, ops_a @ ops_b)))"

subsection \<open>Software timers\<close>

record timer =
  expiry :: u32
  status :: u8

text \<open>The holder is read a second time after the critical section; a timer that vanished in between
  is the trap.\<close>

definition timer_remaining_ticks :: "u32 \<Rightarrow> timer option \<Rightarrow> timer option option \<Rightarrow> u32 option" where
  "timer_remaining_ticks now reread holder = (case holder of
       None \<Rightarrow> Some 0
     | Some None \<Rightarrow> Some 0
     | Some (Some t) \<Rightarrow>
         if status t AND 1 = 0 then Some 0
         else (case reread of None \<Rightarrow> None | Some t \<Rightarrow> Some (expiry t - now)))"

subsection \<open>Event posts\<close>

datatype event_op = Send u32 bytes | Teardown | Arm nat u32

definition EVENT_NOTIFY_TAG :: u32 where "EVENT_NOTIFY_TAG = 0xa003"

definition INPUT_EVENT_TAG :: u32 where "INPUT_EVENT_TAG = 0x9a0b"

definition XFER_LOCK_TAG :: u32 where "XFER_LOCK_TAG = 0x4795"

text \<open>\<open>rc\<close> is what the stream buffer returns.\<close>

definition event_notify_post :: "int \<Rightarrow> bytes \<Rightarrow> int \<times> event_op list" where
  "event_notify_post rc payload = (rc, [Send EVENT_NOTIFY_TAG (take 13 payload)])"

definition event_notify_post_state :: "int \<Rightarrow> int \<times> event_op list" where
  "event_notify_post_state rc = (rc, [Send 0x9d19 [0xc0, 0x05, 0x00, 0x01]])"

definition input_event_post :: "bool \<Rightarrow> u8 \<Rightarrow> u8 \<Rightarrow> u8 \<Rightarrow> event_op list" where
  "input_event_post mgr event_id edge arg =
     (if mgr then [Send INPUT_EVENT_TAG [event_id, edge, arg]] else [])"

record xfer_lock =
  lock_state :: int
  teardown :: "u8 option"

text \<open>The callback is given by the byte it returns.\<close>

definition xfer_state_lock_post :: "u8 \<Rightarrow> xfer_lock option \<Rightarrow> int \<times> xfer_lock option \<times> event_op list" where
  "xfer_state_lock_post send_status l = (case l of
       None \<Rightarrow> (-2, None, [])
     | Some k \<Rightarrow>
         if lock_state k = 2 then (-3, l, [])
         else (let k = k\<lparr>lock_state := 2\<rparr>;
                   (cb, ops) = (case teardown k of None \<Rightarrow> (0, []) | Some b \<Rightarrow> (b, [Teardown]))
               in (sint (send_status OR cb), Some k, ops @ [Send XFER_LOCK_TAG []])))"

subsection \<open>The button scan\<close>

record scan_entry =
  event_id :: u8
  port_index :: u8
  pin_offset :: u8
  match_key :: u8
  has_timer :: bool
  pressed :: u8
  hold :: u8

record scanner =
  table :: "scan_entry list"
  mgr_slot :: bool
  lock_obj :: xfer_lock

text \<open>What one poll meets: the button, the input registers, the timer of the entry at both reads, the
  tick and the status of the send.\<close>

record scan_input =
  button_id :: u32
  gpio :: "u32 \<Rightarrow> u8"
  timer_now :: "timer option"
  timer_again :: "timer option"
  tick :: u32
  send_rc :: u8

definition GPIO_INPUT_BASE :: u32 where "GPIO_INPUT_BASE = 0x4008c000"

text \<open>The search over the four entries.\<close>

fun find_entry :: "u8 \<Rightarrow> nat \<Rightarrow> scan_entry list \<Rightarrow> nat option" where
  "find_entry key idx [] = None"
| "find_entry key idx (e # es) =
     (if \<not> has_timer e \<or> match_key e \<noteq> key then find_entry key (idx + 1) es else Some idx)"

definition sampled :: "scan_input \<Rightarrow> scan_entry \<Rightarrow> u8" where
  "sampled i e = gpio i (GPIO_INPUT_BASE + push_bit 5 (ucast (port_index e)) + ucast (pin_offset e))"

text \<open>The press edge on the entry; the result says whether it was taken.\<close>

definition press_edge ::
  "scan_input \<Rightarrow> bool \<Rightarrow> nat \<Rightarrow> scan_entry \<Rightarrow> (scan_entry \<times> event_op list) option" where
  "press_edge i mgr idx e =
     (case timer_remaining_ticks (tick i) (timer_again i) (Some (timer_now i)) of
        None \<Rightarrow> None
      | Some t \<Rightarrow>
          Some (e\<lparr>pressed := 1, hold := (if t \<noteq> 0 then hold e + 1 else hold e)\<rparr>,
            [Arm idx 1000] @ input_event_post mgr (event_id e) 0 0))"

definition release_edge :: "bool \<Rightarrow> nat \<Rightarrow> scan_entry \<Rightarrow> scan_entry \<times> event_op list" where
  "release_edge mgr idx e =
     (let e = e\<lparr>pressed := 0\<rparr>;
          (e, ops) = (if hold e = 0xff then (e\<lparr>hold := 0\<rparr>, []) else (e, [Arm idx 200]))
      in (e, ops @ input_event_post mgr (event_id e) 1 0))"

definition scan_edges ::
  "scan_input \<Rightarrow> bool \<Rightarrow> nat \<Rightarrow> scan_entry \<Rightarrow> (scan_entry \<times> event_op list) option" where
  "scan_edges i mgr idx e =
     (let level = sampled i e;
          release = (\<lambda>(e, ops).
            if pressed e \<noteq> 1 then Some (e, ops)
            else if level \<noteq> 0 then Some (e, ops)
            else (let (e, ops') = release_edge mgr idx e in Some (e, ops @ ops')))
      in if pressed e = 0 then
           (if level \<noteq> 1 then Some (e, [])
            else case press_edge i mgr idx e of None \<Rightarrow> None | Some r \<Rightarrow> release r)
         else release (e, []))"

definition button_scan_poll :: "scan_input \<Rightarrow> scanner \<Rightarrow> (scanner \<times> event_op list) option" where
  "button_scan_poll i s =
     (let (_, l, ops) = xfer_state_lock_post (send_rc i) (Some (lock_obj s));
          s = s\<lparr>lock_obj := the l\<rparr>
      in case find_entry (ucast (button_id i)) 0 (table s) of
           None \<Rightarrow> Some (s, ops)
         | Some idx \<Rightarrow>
             (case scan_edges i (mgr_slot s) idx (table s ! idx) of
                None \<Rightarrow> None
              | Some (e, ops') \<Rightarrow> Some (s\<lparr>table := (table s)[idx := e]\<rparr>, ops @ ops')))"

subsection \<open>Transfer completion logs the changes\<close>

definition xfer_step ::
  "'d log_env \<Rightarrow> (waiter \<Rightarrow> waiter) \<Rightarrow> bytes \<Rightarrow> 'd xfer \<Rightarrow> 'd xfer \<times> xfer_op list" where
  "xfer_step e rst r x =
     (let (x, ops) = xfer_state_log_notify e rst r x in (x, filter (\<lambda>op. \<exists>f. op = Logged f) ops))"

definition is_up :: "bytes \<Rightarrow> bool" where
  "is_up r \<longleftrightarrow> rec16 r 0xa = 0x3fd"

definition up_log :: "bool \<Rightarrow> xfer_op" where "up_log b = Logged (if b then 1 else 0)"

text \<open>The three parts of a state that matter here: the flag, the logged flags and the flash.\<close>

definition log_part :: "'d xfer \<times> xfer_op list \<Rightarrow> u8 \<times> xfer_op list \<times> 'd flash" where
  "log_part s = (state_flag (fst s), filter (\<lambda>op. \<exists>f. op = Logged f) (snd s), xfer_flash (fst s))"

lemma log_part_reset [simp]:
  "log_part (reset_a rst s) = log_part s" "log_part (reset_b rst s) = log_part s"
  "log_part (fst s, snd s @ [Give w bs]) = log_part s"
  by (simp_all add: log_part_def reset_a_def reset_b_def split: prod.split)

lemma log_part_step:
  "log_part (xfer_state_log_notify e rst r x) =
     (if is_up r = (state_flag x \<noteq> 0) then (state_flag x, [], xfer_flash x)
      else (if is_up r then 1 else 0, [up_log (is_up r)],
        log_append_event (log_bus e) (log_handle e) (src_word0 e) (src_half4 e) (if is_up r then 1 else 0)
          (xfer_flash x)))"
proof -
  define s1 where "s1 = (if r ! 9 AND 2 \<noteq> 0 then reset_a rst (x, []) else (x, []))"
  define s2 where "s2 = (if r ! 2 AND 2 \<noteq> 0 then reset_b rst s1 else s1)"
  define s3 where "s3 = (if rec16 r 0xa = 0x3fd then (if state_flag (fst s2) = 0 then log_flag e 1 s2 else s2)
    else (if state_flag (fst s2) \<noteq> 0 then log_flag e 0 s2 else s2))"
  define s4a where "s4a = (if present (waiter_a (fst s3)) \<noteq> 0 \<and> half_at_1 (waiter_a (fst s3)) = 0
    then reset_a rst s3 else s3)"
  define s4 where "s4 = (if rec16 r 0xc \<noteq> 0 then (fst s4a, snd s4a @ [Give Waiter_a (drop 7 r)]) else s3)"
  define s5a where "s5a = (if present (waiter_a (fst s4)) \<noteq> 0 \<and> half_at_1 (waiter_b (fst s4)) = 0
    then reset_b rst s4 else s4)"
  have "xfer_state_log_notify e rst r x = (if rec16 r 5 \<noteq> 0 then (fst s5a, snd s5a @ [Give Waiter_b r]) else s4)"
    by (simp only: xfer_state_log_notify_def Let_def s1_def s2_def s3_def s4a_def s4_def s5a_def)
  then have "log_part (xfer_state_log_notify e rst r x) = log_part s3"
    by (simp add: s5a_def s4_def s4a_def)
  moreover have 2: "log_part s2 = (state_flag x, [], xfer_flash x)"
    by (simp add: s2_def s1_def) (simp add: log_part_def)
  moreover have "log_part s3 = (if is_up r = (state_flag x \<noteq> 0) then (state_flag x, [], xfer_flash x)
      else (if is_up r then 1 else 0, [up_log (is_up r)],
        log_append_event (log_bus e) (log_handle e) (src_word0 e) (src_half4 e) (if is_up r then 1 else 0)
          (xfer_flash x)))"
    using 2 by (auto simp: s3_def log_part_def log_flag_def is_up_def up_log_def split: prod.split)
  ultimately show ?thesis by simp
qed

lemma xfer_step_parts:
  "state_flag (fst (xfer_step e rst r x)) =
     (if is_up r = (state_flag x \<noteq> 0) then state_flag x else if is_up r then 1 else 0)"
  "snd (xfer_step e rst r x) = (if is_up r = (state_flag x \<noteq> 0) then [] else [up_log (is_up r)])"
  "xfer_flash (fst (xfer_step e rst r x)) =
     (if is_up r = (state_flag x \<noteq> 0) then xfer_flash x
      else log_append_event (log_bus e) (log_handle e) (src_word0 e) (src_half4 e) (if is_up r then 1 else 0)
        (xfer_flash x))"
proof -
  obtain x' ops where 1: "xfer_state_log_notify e rst r x = (x', ops)" by fastforce
  note p = log_part_step [of e rst r x, unfolded 1 log_part_def fst_conv snd_conv]
  show "state_flag (fst (xfer_step e rst r x)) =
     (if is_up r = (state_flag x \<noteq> 0) then state_flag x else if is_up r then 1 else 0)"
    "snd (xfer_step e rst r x) = (if is_up r = (state_flag x \<noteq> 0) then [] else [up_log (is_up r)])"
    "xfer_flash (fst (xfer_step e rst r x)) =
     (if is_up r = (state_flag x \<noteq> 0) then xfer_flash x
      else log_append_event (log_bus e) (log_handle e) (src_word0 e) (src_half4 e) (if is_up r then 1 else 0)
        (xfer_flash x))"
    using p by (auto simp: xfer_step_def 1 split: if_splits)
qed

interpretation xfer_log: edge_detector "\<lambda>x. True" "xfer_step e rst" "\<lambda>x. state_flag x \<noteq> 0" "\<lambda>r. Some (is_up r)" up_log
  for e rst
  by unfold_locales (auto simp: xfer_step_parts)

fun xfer_run ::
  "'d log_env \<Rightarrow> (waiter \<Rightarrow> waiter) \<Rightarrow> bytes list \<Rightarrow> 'd xfer \<Rightarrow> 'd xfer \<times> xfer_op list" where
  "xfer_run e rst [] x = (x, [])"
| "xfer_run e rst (r # rs) x =
     (let (x, ops) = xfer_step e rst r x; (x, more) = xfer_run e rst rs x in (x, ops @ more))"

lemma xfer_run_eq: "xfer_run e rst rs x = xfer_log.run e rst rs x"
  by (induction rs arbitrary: x) simp_all

fun logged_flag :: "xfer_op \<Rightarrow> u8" where
  "logged_flag (Logged f) = f"
| "logged_flag _ = 0"

lemma logged_up_log [simp]: "logged_flag (up_log b) = (if b then 1 else 0)"
  by (simp add: up_log_def)

lemma xfer_run_flash:
  "xfer_flash (fst (xfer_run e rst rs x)) =
     fold (log_append_event (log_bus e) (log_handle e) (src_word0 e) (src_half4 e))
       (map logged_flag (snd (xfer_run e rst rs x))) (xfer_flash x)"
proof (induction rs arbitrary: x)
  case (Cons r rs)
  obtain x1 ops where 1: "xfer_step e rst r x = (x1, ops)" by fastforce
  show ?case using xfer_step_parts(2,3) [of e rst r x] Cons.IH [of x1]
    by (cases "is_up r = (state_flag x \<noteq> 0)") (auto simp: 1 split: prod.split)
qed simp

lemma map_filter_total: "List.map_filter (\<lambda>r. Some (f r)) rs = map f rs"
  by (induction rs) (simp_all add: List.map_filter_simps)

text \<open>
  Over any sequence of completion records the transfer handler logs
  exactly the changes of the connection state, in order (one flag per change, starting from the
  stored one), and the flash is what appending those log records leaves: nothing is logged twice
  and nothing is lost, whichever waiters are reset or woken on the way.
\<close>

theorem transfer_log_changes:
  "snd (xfer_run e rst rs x) = map up_log (tl (remdups_adj ((state_flag x \<noteq> 0) # map is_up rs))) \<and>
   xfer_flash (fst (xfer_run e rst rs x)) =
     fold (log_append_event (log_bus e) (log_handle e) (src_word0 e) (src_half4 e))
       (map logged_flag (snd (xfer_run e rst rs x))) (xfer_flash x)"
  using xfer_log.run_edges [OF TrueI, of e rst rs x] xfer_run_flash [of e rst rs x]
  by (simp add: xfer_run_eq map_filter_total)

subsection \<open>The button scan reports the edges\<close>

definition static :: "scan_entry \<Rightarrow> scan_entry" where
  "static e = e\<lparr>pressed := 0, hold := 0\<rparr>"

definition is_input :: "event_op \<Rightarrow> bool" where
  "is_input op = (case op of Send t bs \<Rightarrow> t = INPUT_EVENT_TAG | _ \<Rightarrow> False)"

definition scan_inv :: "scan_entry list \<Rightarrow> scanner \<Rightarrow> bool" where
  "scan_inv tbl s \<longleftrightarrow> mgr_slot s \<and> map static (table s) = map static tbl \<and>
     (\<forall>e \<in> set (table s). pressed e = 0 \<or> pressed e = 1)"

definition scan_step :: "nat \<Rightarrow> scan_input \<Rightarrow> scanner \<Rightarrow> scanner \<times> event_op list" where
  "scan_step k i s = (case button_scan_poll (i\<lparr>timer_again := timer_now i\<rparr>) s of
       None \<Rightarrow> (s, [])
     | Some (s', ops) \<Rightarrow>
         (s', if find_entry (ucast (button_id i)) 0 (table s) = Some k then filter is_input ops else []))"

definition scan_sense :: "scan_entry list \<Rightarrow> nat \<Rightarrow> scan_input \<Rightarrow> bool option" where
  "scan_sense tbl k i =
     (if find_entry (ucast (button_id i)) 0 tbl = Some k then
        (if sampled i (tbl ! k) = 1 then Some True else if sampled i (tbl ! k) = 0 then Some False else None)
      else None)"

definition scan_report :: "scan_entry list \<Rightarrow> nat \<Rightarrow> bool \<Rightarrow> event_op" where
  "scan_report tbl k b = Send INPUT_EVENT_TAG [event_id (tbl ! k), if b then 0 else 1, 0]"

lemma timer_same: "timer_remaining_ticks now h (Some h) \<noteq> None"
  by (simp add: timer_remaining_ticks_def split: option.splits)

lemma find_static: "map static es = map static es' \<Longrightarrow> find_entry k i es = find_entry k i es'"
proof (induction es arbitrary: i es')
  case (Cons e es)
  then obtain e' es'' where e: "es' = e' # es''" "static e = static e'" "map static es = map static es''"
    by (cases es') auto
  then have "has_timer e = has_timer e'" "match_key e = match_key e'"
    by (auto simp: static_def dest: arg_cong [of _ _ has_timer] arg_cong [of _ _ match_key])
  with Cons.IH [OF e(3)] show ?case by (simp add: e(1))
qed simp

lemma find_bound: "find_entry k i es = Some j \<Longrightarrow> i \<le> j \<and> j < i + length es"
proof (induction es arbitrary: i)
  case (Cons e es)
  then show ?case using Cons.IH [of "Suc i"] Cons.prems by (fastforce split: if_splits)
qed simp

lemma static_fields:
  "static e = static e' \<Longrightarrow> event_id e = event_id e' \<and> port_index e = port_index e' \<and> pin_offset e = pin_offset e'"
  by (auto simp: static_def dest: arg_cong [of _ _ event_id] arg_cong [of _ _ port_index]
      arg_cong [of _ _ pin_offset])

text \<open>One entry: what the two edges do when the timer does not vanish under the poll.\<close>

lemma scan_edges_outcome:
  assumes "timer_again i = timer_now i" "pressed e = 0 \<or> pressed e = 1"
  shows "\<exists>e' ops. scan_edges i True idx e = Some (e', ops) \<and> static e' = static e \<and>
    pressed e' = (if sampled i e = 1 then 1 else if sampled i e = 0 then 0 else pressed e) \<and>
    filter is_input ops =
      (if sampled i e = 1 \<and> pressed e = 0 then [Send INPUT_EVENT_TAG [event_id e, 0, 0]]
       else if sampled i e = 0 \<and> pressed e = 1 then [Send INPUT_EVENT_TAG [event_id e, 1, 0]] else [])"
proof -
  obtain t where t: "timer_remaining_ticks (tick i) (timer_now i) (Some (timer_now i)) = Some t"
    using timer_same by (metis option.exhaust)
  have st: "static (e\<lparr>pressed := p, hold := h\<rparr>) = static e" "static (e\<lparr>pressed := p\<rparr>) = static e" for p h
    by (simp_all add: static_def)
  show ?thesis using assms(2)
    by (auto simp: scan_edges_def press_edge_def release_edge_def Let_def assms(1) t is_input_def
        input_event_post_def st split: prod.splits)
qed

lemma lock_ops_quiet: "filter is_input (snd (snd (xfer_state_lock_post rc l))) = []"
  by (auto simp: xfer_state_lock_post_def is_input_def XFER_LOCK_TAG_def INPUT_EVENT_TAG_def
      split: option.splits)

text \<open>A poll leaves the table alone, or updates one entry by its edges.\<close>

lemma scan_step_none:
  assumes "find_entry (ucast (button_id i)) 0 (table s) = None"
  shows "table (fst (scan_step k i s)) = table s \<and> mgr_slot (fst (scan_step k i s)) = mgr_slot s \<and>
    snd (scan_step k i s) = []"
  using assms by (simp add: scan_step_def button_scan_poll_def Let_def case_prod_beta)

lemma scan_step_some:
  assumes "mgr_slot s" "find_entry (ucast (button_id i)) 0 (table s) = Some idx"
    and "pressed (table s ! idx) = 0 \<or> pressed (table s ! idx) = 1"
  shows "\<exists>e'. table (fst (scan_step k i s)) = (table s)[idx := e'] \<and> mgr_slot (fst (scan_step k i s)) \<and>
    static e' = static (table s ! idx) \<and>
    pressed e' = (if sampled i (table s ! idx) = 1 then 1 else if sampled i (table s ! idx) = 0 then 0
      else pressed (table s ! idx)) \<and>
    snd (scan_step k i s) = (if idx \<noteq> k then []
       else if sampled i (table s ! k) = 1 \<and> pressed (table s ! k) = 0
         then [Send INPUT_EVENT_TAG [event_id (table s ! k), 0, 0]]
       else if sampled i (table s ! k) = 0 \<and> pressed (table s ! k) = 1
         then [Send INPUT_EVENT_TAG [event_id (table s ! k), 1, 0]] else [])"
proof -
  let ?i = "i\<lparr>timer_again := timer_now i\<rparr>" and ?e = "table s ! idx"
  obtain rc l lops where l: "xfer_state_lock_post (send_rc i) (Some (lock_obj s)) = (rc, l, lops)"
    by (metis surj_pair)
  have q: "filter is_input lops = []" using lock_ops_quiet [of "send_rc i" "Some (lock_obj s)"] by (simp add: l)
  have smp: "sampled ?i e = sampled i e" for e by (simp add: sampled_def)
  obtain e' ops where e: "scan_edges ?i True idx ?e = Some (e', ops)" "static e' = static ?e"
    "pressed e' = (if sampled i ?e = 1 then 1 else if sampled i ?e = 0 then 0 else pressed ?e)"
    "filter is_input ops =
      (if sampled i ?e = 1 \<and> pressed ?e = 0 then [Send INPUT_EVENT_TAG [event_id ?e, 0, 0]]
       else if sampled i ?e = 0 \<and> pressed ?e = 1 then [Send INPUT_EVENT_TAG [event_id ?e, 1, 0]] else [])"
    using scan_edges_outcome [of ?i ?e idx] assms(3) by (auto simp: smp)
  have "scan_step k i s = (s\<lparr>lock_obj := the l, table := (table s)[idx := e']\<rparr>,
      if idx = k then filter is_input ops else [])"
    using assms(1,2) by (simp add: scan_step_def button_scan_poll_def l Let_def e(1) q)
  then show ?thesis using assms(1) e(2,3,4) by (intro exI [of _ e']) simp
qed

lemma scan_inv_entry:
  assumes "scan_inv tbl s" "find_entry x 0 tbl = Some idx"
  shows "find_entry x 0 (table s) = Some idx" "idx < length (table s)"
    "pressed (table s ! idx) = 0 \<or> pressed (table s ! idx) = 1"
    "event_id (table s ! idx) = event_id (tbl ! idx)" "sampled i (table s ! idx) = sampled i (tbl ! idx)"
proof -
  have st: "map static (table s) = map static tbl" using assms(1) by (simp add: scan_inv_def)
  show 1: "find_entry x 0 (table s) = Some idx" using find_static [OF st] assms(2) by simp
  show 2: "idx < length (table s)" using find_bound [OF 1] by simp
  show "pressed (table s ! idx) = 0 \<or> pressed (table s ! idx) = 1"
    using assms(1) 2 by (simp add: scan_inv_def)
  have "length tbl = length (table s)" using st by (metis length_map)
  then have "static (table s ! idx) = static (tbl ! idx)" using st 2 by (metis nth_map)
  from static_fields [OF this]
  show "event_id (table s ! idx) = event_id (tbl ! idx)" "sampled i (table s ! idx) = sampled i (tbl ! idx)"
    by (simp_all add: sampled_def)
qed

lemma scan_keep:
  assumes "scan_inv tbl s"
  shows "scan_inv tbl (fst (scan_step k i s))"
proof (cases "find_entry (ucast (button_id i)) 0 tbl")
  case None
  then have "find_entry (ucast (button_id i)) 0 (table s) = None"
    using assms find_static by (metis scan_inv_def)
  from scan_step_none [OF this] show ?thesis using assms by (simp add: scan_inv_def)
next
  case (Some idx)
  note e = scan_inv_entry [OF assms Some]
  have mgr: "mgr_slot s" using assms by (simp add: scan_inv_def)
  obtain e' where e': "table (fst (scan_step k i s)) = (table s)[idx := e']" "mgr_slot (fst (scan_step k i s))"
    "static e' = static (table s ! idx)"
    "pressed e' = (if sampled i (table s ! idx) = 1 then 1 else if sampled i (table s ! idx) = 0 then 0
      else pressed (table s ! idx))"
    using scan_step_some [OF mgr e(1,3), of k] by blast
  have "map static ((table s)[idx := e']) = map static (table s)"
    using e(2) by (simp add: map_update e'(3) list_update_same_conv)
  moreover have "\<forall>x \<in> set ((table s)[idx := e']). pressed x = 0 \<or> pressed x = 1"
  proof
    fix x assume "x \<in> set ((table s)[idx := e'])"
    then have "x = e' \<or> x \<in> set (table s)" 
      using subsetD [OF set_update_subset_insert] by fastforce
    moreover have "pressed e' = 0 \<or> pressed e' = 1" using e(3) e'(4) by (auto split: if_splits)
    ultimately show "pressed x = 0 \<or> pressed x = 1" using assms by (auto simp: scan_inv_def)
  qed
  ultimately show ?thesis using assms e'(2) unfolding scan_inv_def e'(1) by metis
qed

lemma scan_law:
  assumes "scan_inv tbl s"
  shows "(pressed (table (fst (scan_step k i s)) ! k) = 1) =
      (case scan_sense tbl k i of None \<Rightarrow> pressed (table s ! k) = 1 | Some b \<Rightarrow> b) \<and>
    snd (scan_step k i s) = (case scan_sense tbl k i of None \<Rightarrow> []
      | Some b \<Rightarrow> if b = (pressed (table s ! k) = 1) then [] else [scan_report tbl k b])"
proof (cases "find_entry (ucast (button_id i)) 0 tbl")
  case None
  then have "find_entry (ucast (button_id i)) 0 (table s) = None"
    using assms find_static by (metis scan_inv_def)
  from scan_step_none [OF this] None show ?thesis by (simp add: scan_sense_def)
next
  case (Some idx)
  note e = scan_inv_entry [OF assms Some]
  have mgr: "mgr_slot s" using assms by (simp add: scan_inv_def)
  note o = scan_step_some [OF mgr e(1,3), of k]
  show ?thesis
  proof (cases "idx = k")
    case True
    then show ?thesis using o e Some by (auto simp: scan_sense_def scan_report_def)
  next
    case False
    then show ?thesis using o Some by (auto simp: scan_sense_def)
  qed
qed

interpretation scan: edge_detector "scan_inv tbl" "scan_step k" "\<lambda>s. pressed (table s ! k) = 1"
    "scan_sense tbl k" "scan_report tbl k"
  for tbl k
  using scan_keep scan_law by unfold_locales (fastforce, fastforce, fastforce)

fun scan_run :: "nat \<Rightarrow> scan_input list \<Rightarrow> scanner \<Rightarrow> scanner \<times> event_op list" where
  "scan_run k [] s = (s, [])"
| "scan_run k (i # is) s = (let (s, es) = scan_step k i s; (s, fs) = scan_run k is s in (s, es @ fs))"

lemma scan_run_eq: "scan_run k is s = scan.run k is s"
  by (induction "is" arbitrary: s) simp_all

text \<open>
  C14.  Over any sequence of polls, of this and of other buttons, with
  whatever timers and lock states they meet, the input events posted for an entry of the scan
  table are exactly the changes of its sampled level, a press as 0 and a release as 1, and the
  entry ends with the last level; samples other than 0 and 1 are ignored.
\<close>

theorem buttons_report_edges:
  assumes "scan_inv tbl s"
  shows "snd (scan_run k is s) =
      map (scan_report tbl k) (tl (remdups_adj ((pressed (table s ! k) = 1) # List.map_filter (scan_sense tbl k) is))) \<and>
    (pressed (table (fst (scan_run k is s)) ! k) = 1) =
      last ((pressed (table s ! k) = 1) # List.map_filter (scan_sense tbl k) is)"
  using scan.run_edges [OF assms, of k "is"] scan.run_level [OF assms, of k "is"]
  by (simp add: scan_run_eq)

definition demo_entry :: scan_entry where
  "demo_entry = \<lparr>event_id = 7, port_index = 1, pin_offset = 4, match_key = 9, has_timer = True, pressed = 0, hold = 0\<rparr>"

definition demo_scanner :: scanner where
  "demo_scanner = \<lparr>table = [demo_entry], mgr_slot = True, lock_obj = \<lparr>lock_state = 0, teardown = None\<rparr>\<rparr>"

definition demo_poll :: "u8 \<Rightarrow> scan_input" where
  "demo_poll v = \<lparr>button_id = 9, gpio = (\<lambda>a. v), timer_now = Some \<lparr>expiry = 500, status = 1\<rparr>,
     timer_again = None, tick = 100, send_rc = 0\<rparr>"

theorem buttons_report_edges_witness:
  "snd (scan_run 0 (map demo_poll [1, 1, 0, 2, 0, 1]) demo_scanner) =
     [Send INPUT_EVENT_TAG [7, 0, 0], Send INPUT_EVENT_TAG [7, 1, 0], Send INPUT_EVENT_TAG [7, 0, 0]] \<and>
   pressed (table (fst (scan_run 0 (map demo_poll [1, 1, 0, 2, 0, 1]) demo_scanner)) ! 0) = 1"
proof -
  have inv: "scan_inv [demo_entry] demo_scanner"
    by (simp add: scan_inv_def demo_scanner_def demo_entry_def)
  have sense: "scan_sense [demo_entry] 0 (demo_poll v) =
      (if v = 1 then Some True else if v = 0 then Some False else None)" for v
    by (simp add: scan_sense_def demo_poll_def demo_entry_def sampled_def)
  have list: "List.map_filter (scan_sense [demo_entry] 0) (map demo_poll [1, 1, 0, 2, 0, 1]) =
      [True, True, False, False, True]"
    by (simp add: sense List.map_filter_simps)
  have start: "(pressed (table demo_scanner ! 0) = 1) = False"
    by (simp add: demo_scanner_def demo_entry_def)
  have report: "scan_report [demo_entry] 0 b = Send INPUT_EVENT_TAG [7, if b then 0 else 1, 0]" for b
    by (simp add: scan_report_def demo_entry_def)
  show ?thesis using buttons_report_edges [OF inv, of 0 "map demo_poll [1, 1, 0, 2, 0, 1]"]
    unfolding list start by (simp add: report)
qed

subsection \<open>The transfer lock\<close>

text \<open>Of a sequence of posts only the first one takes the lock; the others answer \<open>-3\<close> and do
  nothing.\<close>

fun lock_posts :: "u8 list \<Rightarrow> xfer_lock option \<Rightarrow> (int \<times> event_op list) list" where
  "lock_posts [] l = []"
| "lock_posts (rc # rcs) l = (let (r, l, ops) = xfer_state_lock_post rc l in (r, ops) # lock_posts rcs l)"

lemma lock_posts_held: "lock_state k = 2 \<Longrightarrow> lock_posts rcs (Some k) = replicate (length rcs) (-3, [])"
  by (induction rcs) (simp_all add: xfer_state_lock_post_def)

lemma lock_posts_once:
  assumes "lock_state k \<noteq> 2"
  shows "tl (lock_posts rcs (Some k)) = replicate (length rcs - 1) (-3, [])"
  using assms
  by (cases rcs) (auto simp: xfer_state_lock_post_def Let_def lock_posts_held split: option.splits)

end
