(* ===== verification/PowerButton.thy ===== *)
theory PowerButton
  imports Edges
begin

text \<open>
  The power button of the ux service (\<open>src/main/ux/src/power_button.c\<close>): the reader thread,
  one turn per event of the input device, with the multi-press counter.  The poll result, whether
  the hold timer is still active and the run flag are what a turn meets; the calls of the listeners
  and of the timer are the operations it returns.
\<close>

record input_event =
  ev_type :: u16
  ev_code :: u16
  ev_value :: int

record power_button =
  prev_value :: int
  press_count :: u32
  running :: bool
  fd :: int

datatype button_op = Fire_down | Fire_up | Arm nat | Close int

definition KEY_POWER :: u16 where "KEY_POWER = 0x74"

definition EV_KEY :: u16 where "EV_KEY = 1"

text \<open>Opening the device: the descriptor of the board marker, then that of the node; the result is the
  descriptor that is kept and whether the marker was closed.\<close>

definition power_button_open_device :: "int \<Rightarrow> int \<Rightarrow> int \<Rightarrow> int \<times> bool" where
  "power_button_open_device probe event_node path =
     (let (f, pre_pvt) = (if probe < 0 then (path, False) else (event_node, True))
      in (if f < 0 then 0 else f, pre_pvt))"

definition power_button_supports_key_events :: "int \<Rightarrow> int \<Rightarrow> 64 word \<Rightarrow> bool" where
  "power_button_supports_key_events f variant evbits =
     (variant = 1 \<or> (f \<noteq> 0 \<and> drop_bit 1 evbits AND 1 \<noteq> 0))"

text \<open>What \<open>poll\<close> and \<open>read\<close> gave: the results and, for a whole record, the event.\<close>

definition power_button_poll_read_event :: "int \<Rightarrow> bool \<Rightarrow> int \<Rightarrow> input_event \<Rightarrow> input_event option" where
  "power_button_poll_read_event rc pollin n ev =
     (if rc < 0 then None
      else if rc \<noteq> 0 \<and> pollin then (if n = 0x18 then Some ev else None)
      else None)"

definition power_button_ctor :: "int \<times> bool \<Rightarrow> power_button" where
  "power_button_ctor opened = \<lparr>prev_value = 0, press_count = 0, running = True, fd = fst opened\<rparr>"

text \<open>One turn of the reader loop on the event read; \<open>timer\<close> is whether the hold timer is active.\<close>

definition reader_turn :: "input_event option \<Rightarrow> bool \<Rightarrow> power_button \<Rightarrow> power_button \<times> button_op list" where
  "reader_turn e timer b =
     (if fd b = 0 then (b, [])
      else case e of
        None \<Rightarrow> (b, [])
      | Some ev \<Rightarrow>
          if ev_type ev \<noteq> EV_KEY \<or> ev_code ev \<noteq> KEY_POWER then (b, [])
          else if prev_value b = 0 \<and> ev_value ev = 1 then
            (b\<lparr>press_count := (if timer then press_count b + 1 else press_count b), prev_value := ev_value ev\<rparr>,
             [Fire_down, Arm 1000])
          else if ev_value ev = 0 \<and> prev_value b = 1 then
            (if press_count b = 0xff then (b\<lparr>press_count := 0, prev_value := ev_value ev\<rparr>, [Fire_up])
             else (b\<lparr>prev_value := ev_value ev\<rparr>, [Arm 400, Fire_up]))
          else (b\<lparr>prev_value := ev_value ev\<rparr>, []))"

text \<open>The loop on a finite history of turns, ended by clearing the run flag.\<close>

fun power_button_reader_loop ::
  "(input_event option \<times> bool) list \<Rightarrow> power_button \<Rightarrow> power_button \<times> button_op list" where
  "power_button_reader_loop [] b =
     (let b = b\<lparr>running := False\<rparr>
      in if 0 < fd b then (b\<lparr>fd := -1\<rparr>, [Close (fd b)]) else (b, []))"
| "power_button_reader_loop ((e, timer) # ts) b =
     (let (b, ops) = reader_turn e timer b; (b, more) = power_button_reader_loop ts b in (b, ops @ more))"

subsection \<open>What the listeners see\<close>

definition is_fire :: "button_op \<Rightarrow> bool" where
  "is_fire op \<longleftrightarrow> op = Fire_down \<or> op = Fire_up"

definition key_value :: "input_event option \<times> bool \<Rightarrow> int option" where
  "key_value t = (case fst t of
       None \<Rightarrow> None
     | Some ev \<Rightarrow> if ev_type ev = EV_KEY \<and> ev_code ev = KEY_POWER then Some (ev_value ev) else None)"

definition pair_fire :: "int \<times> int \<Rightarrow> button_op list" where
  "pair_fire p = (if p = (0, 1) then [Fire_down] else if p = (1, 0) then [Fire_up] else [])"

lemma reader_turn_fd [simp]: "fd (fst (reader_turn e timer b)) = fd b"
  by (auto simp: reader_turn_def split: option.splits)

lemma reader_turn_fires:
  assumes "fd b \<noteq> 0"
  shows "prev_value (fst (reader_turn e timer b)) = (case key_value (e, timer) of None \<Rightarrow> prev_value b | Some v \<Rightarrow> v) \<and>
    filter is_fire (snd (reader_turn e timer b)) =
      (case key_value (e, timer) of None \<Rightarrow> [] | Some v \<Rightarrow> pair_fire (prev_value b, v))"
  using assms by (auto simp: reader_turn_def key_value_def pair_fire_def is_fire_def split: option.splits)

lemma reader_loop_fires:
  assumes "fd b \<noteq> 0"
  shows "filter is_fire (snd (power_button_reader_loop ts b)) =
    (let vs = List.map_filter key_value ts in concat (map pair_fire (zip (prev_value b # vs) vs)))"
  using assms
proof (induction ts arbitrary: b)
  case Nil
  then show ?case by (simp add: is_fire_def Let_def List.map_filter_simps)
next
  case (Cons t ts)
  obtain e timer where t: "t = (e, timer)" by fastforce
  obtain b1 ops where 1: "reader_turn e timer b = (b1, ops)" by fastforce
  have fd1: "fd b1 \<noteq> 0" using reader_turn_fd [of e timer b] Cons.prems by (simp add: 1)
  show ?case using reader_turn_fires [OF Cons.prems, of e timer] Cons.IH [OF fd1]
    by (cases "key_value (e, timer)") (auto simp: t 1 List.map_filter_simps Let_def split: prod.split)
qed

text \<open>Without autorepeat the button is an edge detector.\<close>

definition plain_event :: "bool \<Rightarrow> input_event" where
  "plain_event v = \<lparr>ev_type = EV_KEY, ev_code = KEY_POWER, ev_value = (if v then 1 else 0)\<rparr>"

definition plain_turn :: "bool \<times> bool \<Rightarrow> power_button \<Rightarrow> power_button \<times> button_op list" where
  "plain_turn i b = (let (b, ops) = reader_turn (Some (plain_event (fst i))) (snd i) b in (b, filter is_fire ops))"

definition button_inv :: "power_button \<Rightarrow> bool" where
  "button_inv b \<longleftrightarrow> fd b \<noteq> 0 \<and> (prev_value b = 0 \<or> prev_value b = 1)"

definition fire :: "bool \<Rightarrow> button_op" where "fire v = (if v then Fire_down else Fire_up)"

interpretation plain_button: edge_detector button_inv plain_turn "\<lambda>b. prev_value b = 1" "\<lambda>i. Some (fst i)" fire
  by unfold_locales
    (auto simp: button_inv_def plain_turn_def reader_turn_def plain_event_def fire_def is_fire_def)

definition key_event :: "int \<Rightarrow> input_event option \<times> bool" where
  "key_event v = (Some \<lparr>ev_type = EV_KEY, ev_code = KEY_POWER, ev_value = v\<rparr>, False)"

lemma key_value_event [simp]: "key_value (key_event v) = Some v"
  by (simp add: key_value_def key_event_def)

text \<open>
  Over any history of events, time-outs and other keys, the listeners of
  the power button are called exactly for adjacent values of the key: down when 1 follows 0, up
  when 0 follows 1, in the order of the events.  A release that follows an autorepeat (value 2) is
  not reported: of press, repeat, release only the press is.
\<close>

theorem listeners_see_pairs:
  assumes "fd b \<noteq> 0"
  shows "filter is_fire (snd (power_button_reader_loop ts b)) =
      (let vs = List.map_filter key_value ts in concat (map pair_fire (zip (prev_value b # vs) vs))) \<and>
    (prev_value b = 0 \<longrightarrow>
      filter is_fire (snd (power_button_reader_loop (map key_event [1, 2, 0]) b)) = [Fire_down])"
  using reader_loop_fires [OF assms, of ts] reader_loop_fires [OF assms, of "map key_event [1, 2, 0]"]
  by (simp add: List.map_filter_simps pair_fire_def)

theorem listeners_see_pairs_witness:
  "filter is_fire (snd (power_button_reader_loop
      [key_event 1, (None, False), key_event 0, (None, True), key_event 1, key_event 2, key_event 0, key_event 1]
      (power_button_ctor (power_button_open_device (-1) 0 3)))) = [Fire_down, Fire_up, Fire_down, Fire_down]"
proof -
  let ?b = "power_button_ctor (power_button_open_device (-1) 0 3)"
  have 1: "fd ?b = 3" "prev_value ?b = 0" by (simp_all add: power_button_ctor_def power_button_open_device_def)
  then have 2: "fd ?b \<noteq> 0" by simp
  have 3: "key_value (None, t) = None" for t by (simp add: key_value_def)
  show ?thesis
    using listeners_see_pairs [OF 2, of "[key_event 1, (None, False), key_event 0, (None, True), key_event 1,
      key_event 2, key_event 0, key_event 1]"]
    by (simp add: 1 3 List.map_filter_simps pair_fire_def)
qed

end
