(* ===== verification/BleAuth.thy ===== *)
theory BleAuth
  imports Prelude
begin

text \<open>
  The authentication layer of the BLE controller (\<open>src/ble/src/auth.c\<close>): the connection
  commands, the certificate challenge, the connection slots and the reports.  The cryptography, the
  CBOR parser, the JSON writer and the Bluetooth stack are vendor code: what they answer is an
  argument, what they are asked is the list of operations a handler returns.
\<close>

type_synonym fields = "(string \<times> int) list"

text \<open>The operations.  A report is transmitted with its type, its fields and the last two flags.\<close>

datatype auth_op =
    Publish string bytes
  | Bus_publish string
  | State_msg u32
  | Transmit u32 fields bool bool
  | Enqueue_0 u32
  | Enqueue_1 u32
  | Session_install
  | Session_reset
  | Work_item u8 u32
  | System_reset
  | Reason_msg string
  | Disconnect_event u32 u8
  | Connection_event u8 u32 u8
  | Auth_event u32
  | Timer_start nat
  | Timer_stop nat
  | Conn_ref u32
  | Conn_unref u32
  | Control_msg bytes
  | Queue_post

subsection \<open>Advertising flags and connection commands\<close>

record adv =
  flag_a :: u8
  flag_b :: u8
  extra_field :: u8
  enabled_flag :: u8

definition auth_adv_extra_field_enabled :: "adv \<Rightarrow> u8" where
  "auth_adv_extra_field_enabled s =
     (let v = (if flag_a s = 0 \<and> flag_b s = 0 then extra_field s else 1) in v AND 1)"

text \<open>What the vendor code answers to one handler call: the session predicate at the guard and at the
  report, the status of the challenge, of the teardown and of the certificate, whether the JSON
  objects open and close, and whether a work item can be allocated.\<close>

record auth_env =
  secure :: u32
  secure_report :: u32
  challenge :: "bytes \<Rightarrow> int"
  teardown :: int
  generate :: int
  json :: "bool \<times> bool"
  report_json :: "bool \<times> bool"
  work_alloc :: bool

text \<open>The writer adds \<open>0x14\<close> to a state, as a byte.\<close>

definition state_field :: "u8 \<Rightarrow> int" where "state_field s = uint (s + 0x14)"

definition findmy_send_state_report :: "auth_env \<Rightarrow> adv \<Rightarrow> auth_op list" where
  "findmy_send_state_report e s =
     (if fst (report_json e) \<and> snd (report_json e) then
        [Transmit 0xe1
          [(''ready'', state_field (ucast (secure_report e))), (''enabled'', state_field (extra_field s)),
           (''paired'', state_field (flag_b s)), (''pairing'', state_field (flag_a s)),
           (''provisioned'', state_field (enabled_flag s))] True True]
      else [])"

definition findmy_alloc_work_item :: "bool \<Rightarrow> u8 \<Rightarrow> u32 \<Rightarrow> auth_op list" where
  "findmy_alloc_work_item ok command flags = (if ok then [Work_item command flags] else [])"

text \<open>The common end of the commands that succeed.\<close>

definition finish_command :: "auth_env \<Rightarrow> u32 \<Rightarrow> u32 \<Rightarrow> adv \<times> auth_op list \<Rightarrow> adv \<times> auth_op list" where
  "finish_command e flags reply = (\<lambda>(s, ops).
     (s, ops @ (if flags AND 2 = 0 then [State_msg reply] else []) @ findmy_send_state_report e s))"

definition accept_challenge :: "auth_env \<Rightarrow> u32 \<Rightarrow> adv \<Rightarrow> adv \<times> auth_op list" where
  "accept_challenge e flags s =
     (let s = s\<lparr>extra_field := 1\<rparr>;
          ops = (if flags AND 4 = 0 then [Publish ''findmy/enable'' []] else []);
          s = s\<lparr>flag_a := 0\<rparr>;
          ops' = (if fst (json e) \<and> snd (json e) then
                    [Transmit 0xc0 (if auth_adv_extra_field_enabled s \<noteq> 0 then [(''findmy'', 0x01010000)] else [])
                       True False]
                  else [])
      in (s, ops @ ops'))"

definition auth_handle_connection_command ::
  "auth_env \<Rightarrow> bool \<Rightarrow> u8 \<Rightarrow> u32 \<Rightarrow> adv \<Rightarrow> adv \<times> auth_op list" where
  "auth_handle_connection_command e is_command command flags s =
     (if \<not> is_command then (s, [])
      else if command = 0 then
        (if secure e \<noteq> 0 then (s, [])
         else
           let seed = [0x01, 0x32, if flags AND 1 \<noteq> 0 then 1 else 0];
               reply = (if flags AND 1 \<noteq> 0 then 0xeb else 0xe9)
           in if challenge e seed \<noteq> 0 then (s, [])
              else finish_command e flags reply (accept_challenge e flags s))
      else if command = 1 then
        (if secure e = 0 then (s, [])
         else if teardown e \<noteq> 0 then (s, [])
         else
           let s = s\<lparr>extra_field := 0, flag_a := 0\<rparr>
           in finish_command e flags 0xea (s, [Publish ''findmy/enable'' [0]]))
      else if command = 2 then
        (if secure e = 0 then (s, [])
         else if generate e \<noteq> 0 then (s, [])
         else finish_command e flags 0xe6 (s\<lparr>flag_a := 1\<rparr>, []))
      else if command = 3 then
        (s, (if secure e \<noteq> 0 then [Enqueue_1 2] else []) @
            [Enqueue_0 (if flags AND 2 \<noteq> 0 then 3 else 1), Enqueue_1 2, Session_reset, Bus_publish []] @
            findmy_alloc_work_item (work_alloc e) 4 2 @ findmy_send_state_report e s)
      else if command = 4 then (s, [System_reset])
      else (s, findmy_send_state_report e s))"

text \<open>The boot of the session: \<open>records\<close> is how many are read, \<open>process\<close> what the calls that
  process one return, of which the first that is negative or \<open>1\<close> ends the loop; \<open>None\<close> is a loop
  that does not end.\<close>

fun pump_records :: "int list \<Rightarrow> bool option" where
  "pump_records [] = None"
| "pump_records (sel # sels) = (if sel < 0 then Some False else if sel = 1 then Some True else pump_records sels)"

definition auth_send_connection_state ::
  "auth_env \<Rightarrow> u32 \<Rightarrow> int list \<Rightarrow> int \<Rightarrow> int \<Rightarrow> int \<Rightarrow> adv \<Rightarrow> (adv \<times> auth_op list) option" where
  "auth_send_connection_state e records sels serial pubkey bike s =
     (case (if records < 2 then pump_records sels else Some True) of
        None \<Rightarrow> None
      | Some False \<Rightarrow> Some (s, [Session_install])
      | Some True \<Rightarrow>
          (let s = (if serial = 0 \<and> pubkey = 0 \<and> bike = 0 then s\<lparr>enabled_flag := 1\<rparr> else s);
               ops = [Session_install, Bus_publish ''findmy''];
               (s, ops) =
                 (if extra_field s \<noteq> 0 then
                    (if flag_b s = 0 then (s\<lparr>extra_field := 0\<rparr>, ops @ [Publish ''findmy/enable'' [0]])
                     else (s, ops @ [Enqueue_0 6]))
                  else (s, ops))
           in Some (s, ops @ [Transmit 0xe5 [('''', state_field (enabled_flag s))] True False] @
                findmy_send_state_report e s)))"

subsection \<open>Reports\<close>

definition disconnect_text :: "u32 \<Rightarrow> string" where
  "disconnect_text reason =
     (if reason = 1 then ''invalid certificate/parsing error''
      else if reason = 2 then ''server signature invalid''
      else if reason = 3 then ''bike id invalid''
      else if reason = 4 then ''certificate expired''
      else if reason = 5 then ''certificate blacklisted''
      else if reason = 6 then ''challenge return invalid''
      else if reason = 7 then ''authentication timeout''
      else ''other'')"

definition auth_send_disconnect_reason :: "bool \<times> bool \<Rightarrow> bool \<Rightarrow> u32 \<Rightarrow> u8 \<Rightarrow> u32 \<Rightarrow> auth_op list" where
  "auth_send_disconnect_reason json_ok alloc conn flag reason =
     (if fst json_ok \<and> snd json_ok then
        Reason_msg (disconnect_text reason) # (if alloc then [Disconnect_event conn flag] else [])
      else [])"

subsection \<open>The certificate challenge\<close>

text \<open>One slot of the connection table: its words, the fields of a certificate at their offsets.\<close>

record auth_slot =
  slot_conn :: u32
  phase :: u8
  issuer :: u32
  valid_until :: "64 word"
  word_18 :: u32
  subject :: bytes
  kind :: u8
  command_text :: bytes
  session_key :: bytes

record auth_tables =
  conn_table :: "auth_slot list"
  pub_key :: bytes
  bike_id :: bytes

datatype cert_key = Issuer | Oid_a | Oid_b | Auth_module | Fmna_sound | Cmd | Connection_id | Fmna_serial

text \<open>The vendor code.  A parsed body has the type byte of its root; an integer field is its status and
  the word it leaves; a string field its length or error and the bytes it leaves, of which no more
  than the bound given (0 for none) are stored; the clock its status and its value; \<open>slot_index\<close>
  maps a connection to its slot.\<close>

record 'v cert_lib =
  signature_status :: "bytes \<Rightarrow> bytes \<Rightarrow> bytes \<Rightarrow> u32"
  parse_body :: "bytes \<Rightarrow> (u8 \<times> 'v) option"
  get_u32 :: "'v \<Rightarrow> cert_key \<Rightarrow> u32 \<times> u32"
  get_u64 :: "'v \<Rightarrow> cert_key \<Rightarrow> u32 \<times> 64 word"
  get_bytes :: "'v \<Rightarrow> cert_key \<Rightarrow> nat \<Rightarrow> int \<times> bytes"
  now_ms :: "u32 \<times> 64 word"
  slot_index :: "u32 \<Rightarrow> nat"
  reason_json :: "bool \<times> bool"
  reason_alloc :: bool
  event_alloc :: bool

text \<open>A field of a slot, from its start; a string that does not fit into its field overruns the
  next ones, which is \<open>None\<close> here.\<close>

definition store_text :: "nat \<Rightarrow> bytes \<Rightarrow> bytes \<Rightarrow> bytes option" where
  "store_text cap field new = (if length new \<le> cap then blit field 0 new else None)"

definition AUTH_VALIDITY_MIN_BASELINE :: int where "AUTH_VALIDITY_MIN_BASELINE = 0x18cc251f3ff"

definition cleared :: "auth_slot \<Rightarrow> auth_slot" where
  "cleared s = s\<lparr>issuer := 0, valid_until := 0, word_18 := 0, subject := replicate 14 0, kind := 0,
     command_text := replicate 37 0, session_key := replicate 32 0\<rparr>"

text \<open>\<open>strncmp\<close> of the standard library, as a test for equality.\<close>

fun strn_equal :: "nat \<Rightarrow> bytes \<Rightarrow> bytes \<Rightarrow> bool" where
  "strn_equal 0 xs ys = True"
| "strn_equal (Suc n) (x # xs) (y # ys) = (x = y \<and> (x = 0 \<or> strn_equal n xs ys))"
| "strn_equal (Suc n) xs ys = False"

text \<open>The object identifier, then the validity and the word.\<close>

definition read_identity :: "'v cert_lib \<Rightarrow> 'v \<Rightarrow> auth_slot \<Rightarrow> (bool \<times> auth_slot) option" where
  "read_identity lib v s =
     (case get_bytes lib v Oid_a 14 of (n, bs) \<Rightarrow>
        (case store_text 14 (subject s) bs of None \<Rightarrow> None
         | Some field \<Rightarrow>
             (let s = s\<lparr>subject := field\<rparr>
              in if n \<noteq> -1 then Some (True, s)
                 else case get_bytes lib v Oid_b 14 of (n, bs) \<Rightarrow>
                   (case store_text 14 (subject s) bs of None \<Rightarrow> None
                    | Some field \<Rightarrow> Some (n \<noteq> -1, s\<lparr>subject := field\<rparr>)))))"

definition read_validity :: "'v cert_lib \<Rightarrow> 'v \<Rightarrow> auth_slot \<Rightarrow> bool \<times> auth_slot" where
  "read_validity lib v s =
     (let (rc, w) = get_u64 lib v Auth_module; s = s\<lparr>valid_until := w\<rparr>
      in if rc \<noteq> 0 then (False, s)
         else let (rc, w) = get_u32 lib v Fmna_sound in (rc = 0, s\<lparr>word_18 := w\<rparr>))"

text \<open>The command string has no bound; the connection id is bounded by the field.\<close>

definition read_command :: "'v cert_lib \<Rightarrow> 'v \<Rightarrow> auth_slot \<Rightarrow> (bool \<times> auth_slot) option" where
  "read_command lib v s =
     (case get_bytes lib v Cmd 0 of (n, bs) \<Rightarrow>
        (case store_text 37 (command_text s) bs of None \<Rightarrow> None
         | Some field \<Rightarrow>
             (let s = s\<lparr>command_text := field\<rparr>
              in if n < 1 then
                   (case get_bytes lib v Connection_id 37 of (n, bs) \<Rightarrow>
                      (case store_text 37 (command_text s) bs of None \<Rightarrow> None
                       | Some field \<Rightarrow>
                           (let s = s\<lparr>command_text := field\<rparr>
                            in Some (if n < 1 then (False, s) else (True, s\<lparr>kind := 0x6f\<rparr>)))))
                 else Some (True, s\<lparr>kind := 0x75\<rparr>))))"

definition read_key :: "'v cert_lib \<Rightarrow> 'v \<Rightarrow> auth_slot \<Rightarrow> (bool \<times> auth_slot) option" where
  "read_key lib v s =
     (case get_bytes lib v Fmna_serial 32 of (n, bs) \<Rightarrow>
        (case store_text 32 (session_key s) bs of None \<Rightarrow> None
         | Some field \<Rightarrow> Some (n \<noteq> -1, s\<lparr>session_key := field\<rparr>)))"

text \<open>The fields in order; \<open>None\<close> inside is the overrun, the flag whether all were found.\<close>

definition read_fields :: "'v cert_lib \<Rightarrow> bytes \<Rightarrow> auth_slot \<Rightarrow> (bool \<times> auth_slot) option" where
  "read_fields lib body s =
     (case parse_body lib body of
        None \<Rightarrow> Some (False, s)
      | Some (tag, v) \<Rightarrow>
          (if tag \<noteq> 0xa0 then Some (False, s)
           else
             let (rc, w) = get_u32 lib v Issuer; s = s\<lparr>issuer := w\<rparr>
             in if rc \<noteq> 0 then Some (False, s)
                else (case read_identity lib v s of
                  None \<Rightarrow> None
                | Some (ok, s) \<Rightarrow>
                    (if \<not> ok then Some (False, s)
                     else
                       let (ok, s) = read_validity lib v s
                       in if \<not> ok then Some (False, s)
                          else (case read_command lib v s of
                            None \<Rightarrow> None
                          | Some (ok, s) \<Rightarrow> (if \<not> ok then Some (False, s) else read_key lib v s))))))"

text \<open>The end of the validity in milliseconds, as the signed 64-bit product.\<close>

definition expiry_ms :: "auth_slot \<Rightarrow> int" where
  "expiry_ms s = sint (valid_until s * 1000)"

definition clock_rejects :: "'v cert_lib \<Rightarrow> auth_slot \<Rightarrow> bool" where
  "clock_rejects lib s =
     (case now_ms lib of (rc, now) \<Rightarrow>
        rc = 0 \<and> (sint now \<le> AUTH_VALIDITY_MIN_BASELINE \<or> expiry_ms s \<le> sint now))"

text \<open>What the checks say of one slot: the reason of a rejection, or acceptance.\<close>

definition judge_certificate ::
  "'v cert_lib \<Rightarrow> bytes \<Rightarrow> bytes \<Rightarrow> bytes \<Rightarrow> auth_slot \<Rightarrow> (u32 option \<times> auth_slot) option" where
  "judge_certificate lib msg pub bike s =
     (if signature_status lib (take 0x40 msg) (drop 0x40 msg) pub \<noteq> 0 then Some (Some 2, s)
      else case read_fields lib (drop 0x40 msg) (cleared s) of
        None \<Rightarrow> None
      | Some (ok, s) \<Rightarrow>
          Some (if \<not> ok then Some 1
                else if clock_rejects lib s then Some 4
                else if \<not> strn_equal 13 (subject s) bike then Some 3
                else None, s))"

definition auth_parse_certificate_challenge ::
  "'v cert_lib \<Rightarrow> u32 \<Rightarrow> bytes \<Rightarrow> auth_tables \<Rightarrow> (auth_tables \<times> auth_op list) option" where
  "auth_parse_certificate_challenge lib conn msg t =
     (let fail = (\<lambda>reason. auth_send_disconnect_reason (reason_json lib) (reason_alloc lib) conn 5 reason);
          i = slot_index lib conn
      in if length msg \<le> 0x40 then Some (t, fail 2)
         else if length (conn_table t) \<le> i then None
         else if phase (conn_table t ! i) \<noteq> 1 then Some (t, [])
         else case judge_certificate lib msg (pub_key t) (bike_id t) (conn_table t ! i) of
           None \<Rightarrow> None
         | Some (Some reason, s) \<Rightarrow> Some (t\<lparr>conn_table := (conn_table t)[i := s]\<rparr>, fail reason)
         | Some (None, s) \<Rightarrow>
             (let s = s\<lparr>phase := 2\<rparr>
              in if event_alloc lib then
                   Some (t\<lparr>conn_table := (conn_table t)[i := s\<lparr>slot_conn := conn\<rparr>]\<rparr>, [Auth_event conn])
                 else Some (t\<lparr>conn_table := (conn_table t)[i := s]\<rparr>, [])))"

definition auth_init_connection_table :: "auth_tables \<Rightarrow> auth_tables" where
  "auth_init_connection_table t =
     t\<lparr>conn_table := map (\<lambda>s. cleared (s\<lparr>slot_conn := 0, phase := 0\<rparr>)) (conn_table t)\<rparr>"

definition auth_copy_pubkey_32 :: "bytes \<Rightarrow> auth_tables \<Rightarrow> auth_tables" where
  "auth_copy_pubkey_32 src t = t\<lparr>pub_key := take 32 src\<rparr>"

text \<open>\<open>FACTORY\<close> and its terminator.\<close>

definition AUTH_BIKE_ID_DEFAULT :: bytes where
  "AUTH_BIKE_ID_DEFAULT = [0x46, 0x41, 0x43, 0x54, 0x4f, 0x52, 0x59, 0]"

definition auth_copy_bike_id :: "bytes \<Rightarrow> nat \<Rightarrow> auth_tables \<Rightarrow> auth_tables" where
  "auth_copy_bike_id src len t =
     (if len < 0xe then
        (if len \<noteq> 0 then t\<lparr>bike_id := take len src @ replicate (13 - len) 0\<rparr>
         else t\<lparr>bike_id := AUTH_BIKE_ID_DEFAULT @ replicate 5 0\<rparr>)
      else t)"

text \<open>The staged event and the operations; \<open>held\<close> is whether the queue lock is held.\<close>

definition auth_submit_id_event :: "bytes \<Rightarrow> nat \<Rightarrow> bytes \<Rightarrow> bytes \<times> auth_op list" where
  "auth_submit_id_event src len staged =
     (if 0xd < len then (staged, []) else (take len src @ replicate (13 - len) 0, [Queue_post]))"

subsection \<open>Connections\<close>

definition hex_digit :: "nat \<Rightarrow> bool \<Rightarrow> char" where
  "hex_digit n upper = (if upper then ''0123456789ABCDEF'' else ''0123456789abcdef'') ! n"

definition hex_byte :: "bool \<Rightarrow> u8 \<Rightarrow> string" where
  "hex_byte upper b = [hex_digit (unat b div 16) upper, hex_digit (unat b mod 16) upper]"

definition address_type :: "u8 \<Rightarrow> string" where
  "address_type t = (if t = 0 then ''public'' else if t = 1 then ''random''
     else if t = 2 then ''public-id'' else if t = 3 then ''random-id''
     else take 9 (''0x'' @ hex_byte False t))"

text \<open>The record is the type and the six octets, lowest first; the buffer takes 29 characters and the
  terminator.\<close>

definition auth_format_ble_address :: "bytes \<Rightarrow> string" where
  "auth_format_ble_address a = take 29
     (hex_byte True (a ! 6) @ '':'' @ hex_byte True (a ! 5) @ '':'' @ hex_byte True (a ! 4) @ '':'' @
      hex_byte True (a ! 3) @ '':'' @ hex_byte True (a ! 2) @ '':'' @ hex_byte True (a ! 1) @
      '' ('' @ address_type (a ! 0) @ '')'')"

record conn_slot =
  bound_conn :: u32
  conn_state :: u8

text \<open>What the stack answers about a connection: whether it is valid at the first and at the second
  test, its slot, its handle with the status of reading it, whether the control message is
  allocated, what finalising it returns, and whether the event is allocated.\<close>

record conn_env =
  valid_1 :: bool
  valid_2 :: bool
  conn_index :: nat
  handle_rc :: int
  handle_id :: u16
  msg_alloc :: bool
  finalize_rc :: int
  conn_event_alloc :: bool

definition auth_check_connection_state :: "bool \<Rightarrow> nat \<Rightarrow> conn_slot list \<Rightarrow> u32 option" where
  "auth_check_connection_state ready i tab =
     (if \<not> ready then Some 0
      else if length tab \<le> i then None
      else Some (if conn_state (tab ! i) \<noteq> 0 then 0 else 6))"

text \<open>A connection event carries its subcommand, the connection and, on a disconnect, the reason.\<close>

definition auth_handle_disconnect :: "conn_env \<Rightarrow> u32 \<Rightarrow> u8 \<Rightarrow> auth_op list" where
  "auth_handle_disconnect e conn reason =
     (if \<not> valid_1 e then []
      else if \<not> valid_2 e then []
      else [Timer_stop (conn_index e), Conn_unref conn] @
           (if conn_event_alloc e then [Connection_event 1 conn reason] else []))"

definition auth_handle_connect ::
  "conn_env \<Rightarrow> u32 \<Rightarrow> int \<Rightarrow> conn_slot list \<Rightarrow> (conn_slot list \<times> auth_op list) option" where
  "auth_handle_connect e conn st tab =
     (if st \<noteq> 0 then Some (tab, [])
      else if \<not> valid_1 e then Some (tab, [])
      else
        let ops = (if handle_rc e = 0 \<and> msg_alloc e then
                     [Control_msg [2, ucast (handle_id e), ucast (drop_bit 8 (handle_id e)), 3]]
                   else []);
            i = conn_index e
        in if length tab \<le> i then None
           else Some (tab[i := \<lparr>bound_conn = conn, conn_state = 0\<rparr>],
             ops @ [Timer_start i, Conn_ref conn] @
             (if conn_event_alloc e then [Connection_event 0 conn 0] else [])))"

subsection \<open>The address text\<close>

text \<open>The text of an address always fits the buffer.\<close>

lemma address_type_length: "length (address_type t) \<le> 9"
  by (simp add: address_type_def hex_byte_def)

lemma address_fits:
  "length (auth_format_ble_address a) \<le> 29 \<and> last (auth_format_ble_address a) = CHR '')''"
  using address_type_length [of "a ! 0"] by (simp add: auth_format_ble_address_def hex_byte_def)

subsection \<open>The gate\<close>

text \<open>What a certificate has to be, read off the vendor code alone: the identity text is padded with
  zeros, and a clock that cannot be read rejects nothing.\<close>

definition cert_text :: "'v cert_lib \<Rightarrow> 'v \<Rightarrow> bytes" where
  "cert_text lib v = (if fst (get_bytes lib v Oid_a 14) \<noteq> -1 then snd (get_bytes lib v Oid_a 14)
     else snd (get_bytes lib v Oid_b 14))"

definition cert_complete :: "'v cert_lib \<Rightarrow> 'v \<Rightarrow> bool" where
  "cert_complete lib v \<longleftrightarrow> fst (get_u32 lib v Issuer) = 0 \<and>
     (fst (get_bytes lib v Oid_a 14) \<noteq> -1 \<or> fst (get_bytes lib v Oid_b 14) \<noteq> -1) \<and>
     fst (get_u64 lib v Auth_module) = 0 \<and> fst (get_u32 lib v Fmna_sound) = 0 \<and>
     (1 \<le> fst (get_bytes lib v Cmd 0) \<or> 1 \<le> fst (get_bytes lib v Connection_id 37)) \<and>
     fst (get_bytes lib v Fmna_serial 32) \<noteq> -1"

definition cert_in_time :: "'v cert_lib \<Rightarrow> 'v \<Rightarrow> bool" where
  "cert_in_time lib v \<longleftrightarrow> fst (now_ms lib) = 0 \<longrightarrow>
     AUTH_VALIDITY_MIN_BASELINE < sint (snd (now_ms lib)) \<and>
     sint (snd (now_ms lib)) < sint (snd (get_u64 lib v Auth_module) * 1000)"

definition cert_accepted :: "'v cert_lib \<Rightarrow> bytes \<Rightarrow> auth_tables \<Rightarrow> bool" where
  "cert_accepted lib msg t \<longleftrightarrow> 0x40 < length msg \<and>
     signature_status lib (take 0x40 msg) (drop 0x40 msg) (pub_key t) = 0 \<and>
     (case parse_body lib (drop 0x40 msg) of
        None \<Rightarrow> False
      | Some (tag, v) \<Rightarrow> tag = 0xa0 \<and> cert_complete lib v \<and> cert_in_time lib v \<and>
          strn_equal 13 (cert_text lib v @ replicate (14 - length (cert_text lib v)) 0) (bike_id t))"

definition quiet_errors :: "'v cert_lib \<Rightarrow> bool" where
  "quiet_errors lib \<longleftrightarrow> (\<forall>v k n. fst (get_bytes lib v k n) = -1 \<longrightarrow> snd (get_bytes lib v k n) = [])"

lemma store_text_zeros:
  "store_text c (replicate c 0) bs = (if length bs \<le> c then Some (bs @ replicate (c - length bs) 0) else None)"
  by (simp add: store_text_def blit_def)

lemma store_text_length: "store_text c f bs = Some f' \<Longrightarrow> length f' = length f"
  by (auto simp: store_text_def dest: blit_length split: if_splits)

lemma read_identity_outcome:
  assumes "quiet_errors lib" "subject s = replicate 14 0" "read_identity lib v s = Some (ok, s')"
  shows "ok \<longleftrightarrow> fst (get_bytes lib v Oid_a 14) \<noteq> -1 \<or> fst (get_bytes lib v Oid_b 14) \<noteq> -1"
    "ok \<Longrightarrow> subject s' = cert_text lib v @ replicate (14 - length (cert_text lib v)) 0"
    "phase s' = phase s"
proof -
  obtain a as where a: "get_bytes lib v Oid_a 14 = (a, as)" by fastforce
  obtain b bs where b: "get_bytes lib v Oid_b 14 = (b, bs)" by fastforce
  have empty: "as = []" if "a = -1"
    using assms(1) a that unfolding quiet_errors_def by (metis fst_conv snd_conv)
  show "ok \<longleftrightarrow> fst (get_bytes lib v Oid_a 14) \<noteq> -1 \<or> fst (get_bytes lib v Oid_b 14) \<noteq> -1"
    "phase s' = phase s"
    using assms(3) by (auto simp: read_identity_def a b Let_def split: option.splits if_splits)
  show "subject s' = cert_text lib v @ replicate (14 - length (cert_text lib v)) 0" if "ok"
  proof (cases "a = -1")
    case True
    then show ?thesis using assms(3) that empty
      by (auto simp: read_identity_def a b Let_def cert_text_def assms(2) store_text_zeros split: option.splits if_splits)
  next
    case False
    then show ?thesis using assms(3)
      by (auto simp: read_identity_def a b Let_def cert_text_def assms(2) store_text_zeros split: option.splits if_splits)
  qed
qed

lemma read_command_outcome:
  assumes "read_command lib v s = Some (ok, s')"
  shows "ok \<longleftrightarrow> 1 \<le> fst (get_bytes lib v Cmd 0) \<or> 1 \<le> fst (get_bytes lib v Connection_id 37)"
    "subject s' = subject s" "phase s' = phase s" "valid_until s' = valid_until s"
  using assms by (auto simp: read_command_def Let_def case_prod_beta split: option.splits if_splits)

lemma read_key_outcome:
  assumes "read_key lib v s = Some (ok, s')"
  shows "ok \<longleftrightarrow> fst (get_bytes lib v Fmna_serial 32) \<noteq> -1"
    "subject s' = subject s" "phase s' = phase s" "valid_until s' = valid_until s"
  using assms by (auto simp: read_key_def Let_def case_prod_beta split: option.splits if_splits)

lemma read_fields_outcome:
  assumes "quiet_errors lib" "read_fields lib body (cleared s) = Some (ok, s')"
  shows "phase s' = phase s"
    "ok \<longleftrightarrow> (case parse_body lib body of None \<Rightarrow> False | Some (tag, v) \<Rightarrow> tag = 0xa0 \<and> cert_complete lib v)"
    "ok \<Longrightarrow> parse_body lib body = Some (tag, v) \<Longrightarrow>
       subject s' = cert_text lib v @ replicate (14 - length (cert_text lib v)) 0 \<and>
       valid_until s' = snd (get_u64 lib v Auth_module)"
proof -
  let ?G = "phase s' = phase s \<and>
    (ok \<longleftrightarrow> (case parse_body lib body of None \<Rightarrow> False | Some (tag, v) \<Rightarrow> tag = 0xa0 \<and> cert_complete lib v)) \<and>
    (ok \<longrightarrow> (case parse_body lib body of None \<Rightarrow> False | Some (tag, v) \<Rightarrow>
       subject s' = cert_text lib v @ replicate (14 - length (cert_text lib v)) 0 \<and>
       valid_until s' = snd (get_u64 lib v Auth_module)))"
  have "?G"
  proof (cases "parse_body lib body")
    case None
    then show ?thesis using assms(2) by (auto simp: read_fields_def cleared_def)
  next
    case (Some p)
    obtain tag v where p: "p = (tag, v)" by fastforce
    obtain rc w where u: "get_u32 lib v Issuer = (rc, w)" by fastforce
    define s1 where "s1 = (cleared s)\<lparr>issuer := w\<rparr>"
    have s1: "subject s1 = replicate 14 0" "phase s1 = phase s" by (simp_all add: s1_def cleared_def)
    show ?thesis
    proof (cases "tag = 0xa0 \<and> rc = 0")
      case False
      then have "\<not> ok" "phase s' = phase s"
        using assms(2) Some u by (auto simp: read_fields_def p cleared_def split: if_splits)
      moreover have "\<not> (tag = 0xa0 \<and> cert_complete lib v)" using False u by (auto simp: cert_complete_def)
      ultimately show ?thesis using Some p by simp
    next
      case True
      have "read_identity lib v s1 \<noteq> None"
        using assms(2) Some u True by (cases "read_identity lib v s1") (auto simp: read_fields_def p Let_def s1_def)
      then obtain ok1 s2 where i: "read_identity lib v s1 = Some (ok1, s2)" by fastforce
      note io = read_identity_outcome [OF assms(1) s1(1) i]
      show ?thesis
      proof (cases ok1)
        case False
        then show ?thesis using assms(2) Some u True i io(1,3) s1(2)
          by (auto simp: read_fields_def p Let_def s1_def cert_complete_def)
      next
        case ok1: True
        obtain ok2 s3 where v: "read_validity lib v s2 = (ok2, s3)" by fastforce
        have vo: "ok2 \<longleftrightarrow> fst (get_u64 lib v Auth_module) = 0 \<and> fst (get_u32 lib v Fmna_sound) = 0"
          "subject s3 = subject s2" "phase s3 = phase s2" "valid_until s3 = snd (get_u64 lib v Auth_module)"
          using v by (auto simp: read_validity_def Let_def case_prod_beta split: if_splits)
        show ?thesis
        proof (cases ok2)
          case False
          then show ?thesis using assms(2) Some u True i io(3) ok1 v vo s1(2)
            by (auto simp: read_fields_def p Let_def s1_def cert_complete_def)
        next
          case ok2: True
          have "read_command lib v s3 \<noteq> None"
            using assms(2) Some u True i ok1 v ok2
            by (cases "read_command lib v s3") (auto simp: read_fields_def p Let_def s1_def)
          then obtain ok3 s4 where c: "read_command lib v s3 = Some (ok3, s4)" by fastforce
          note co = read_command_outcome [OF c]
          show ?thesis
          proof (cases ok3)
            case False
            then show ?thesis using assms(2) Some u True i io(3) ok1 v vo ok2 c co s1(2)
              by (auto simp: read_fields_def p Let_def s1_def cert_complete_def)
          next
            case ok3: True
            have k: "read_key lib v s4 = Some (ok, s')"
              using assms(2) Some u True i ok1 v ok2 c ok3 by (simp add: read_fields_def p Let_def s1_def)
            note ko = read_key_outcome [OF k]
            show ?thesis using Some u True io ok1 vo ok2 co ok3 ko s1(2)
              by (simp add: p cert_complete_def)
          qed
        qed
      qed
    qed
  qed
  then show "phase s' = phase s"
    "ok \<longleftrightarrow> (case parse_body lib body of None \<Rightarrow> False | Some (tag, v) \<Rightarrow> tag = 0xa0 \<and> cert_complete lib v)"
    "ok \<Longrightarrow> parse_body lib body = Some (tag, v) \<Longrightarrow>
       subject s' = cert_text lib v @ replicate (14 - length (cert_text lib v)) 0 \<and>
       valid_until s' = snd (get_u64 lib v Auth_module)"
    by auto
qed

lemma judge_outcome:
  assumes "quiet_errors lib" "0x40 < length msg"
    and "judge_certificate lib msg (pub_key t) (bike_id t) s = Some (reason, s')"
  shows "phase s' = phase s" "reason = None \<longleftrightarrow> cert_accepted lib msg t"
proof -
  let ?G = "phase s' = phase s \<and> (reason = None \<longleftrightarrow> cert_accepted lib msg t)"
  have "?G"
  proof (cases "signature_status lib (take 0x40 msg) (drop 0x40 msg) (pub_key t) = 0")
    case False
    then show ?thesis using assms(3) by (auto simp: judge_certificate_def cert_accepted_def)
  next
    case True
    obtain ok s1 where r: "read_fields lib (drop 0x40 msg) (cleared s) = Some (ok, s1)"
      using assms(3) True by (auto simp: judge_certificate_def split: option.splits)
    note ro = read_fields_outcome [OF assms(1) r]
    have res: "s' = s1" "reason = None \<longleftrightarrow> ok \<and> \<not> clock_rejects lib s1 \<and> strn_equal 13 (subject s1) (bike_id t)"
      using assms(3) True r by (auto simp: judge_certificate_def split: if_splits)
    show ?thesis
    proof (cases ok)
      case False
      then have "\<not> cert_accepted lib msg t"
        using ro(2) by (auto simp: cert_accepted_def split: option.splits)
      then show ?thesis using False res ro(1) by simp
    next
      case okT: True
      then obtain v where v: "parse_body lib (drop 0x40 msg) = Some (0xa0, v)" "cert_complete lib v"
        using ro(2) by (auto split: option.splits prod.splits)
      note f = ro(3) [OF okT v(1)]
      have "\<not> clock_rejects lib s1 \<longleftrightarrow> cert_in_time lib v"
        using f by (auto simp: clock_rejects_def cert_in_time_def expiry_ms_def split: prod.splits)
      then show ?thesis using res okT ro(1) f v True assms(2) by (simp add: cert_accepted_def)
    qed
  qed
  then show "phase s' = phase s" "reason = None \<longleftrightarrow> cert_accepted lib msg t" by blast+
qed

text \<open>
  C4.  A slot of the connection table becomes authenticated only through the
  certificate gate: after a challenge message the phase of a slot is 2 exactly when it was
  before, or when the slot is that of the connection, was waiting (phase 1) and the message is
  longer than its signature, verifies under the server key, parses as a map with all fields,
  carries the identity of this bike and is inside its validity, as far as the clock can be read;
  the event that tells the rest of the system is posted only then, and no other slot is touched.
\<close>

theorem certificate_gate:
  assumes "quiet_errors lib" "auth_parse_certificate_challenge lib conn msg t = Some (t', ops)"
    and "i < length (conn_table t)"
  shows "phase (conn_table t' ! i) =
      (if i = slot_index lib conn \<and> phase (conn_table t ! i) = 1 \<and> cert_accepted lib msg t then 2
       else phase (conn_table t ! i)) \<and>
    (Auth_event conn \<in> set ops \<longrightarrow> cert_accepted lib msg t) \<and>
    (i \<noteq> slot_index lib conn \<longrightarrow> conn_table t' ! i = conn_table t ! i)"
proof -
  let ?k = "slot_index lib conn"
  have quiet: "Auth_event conn \<notin> set (auth_send_disconnect_reason j a conn 5 r)" for j a r
    by (auto simp: auth_send_disconnect_reason_def)
  consider (short) "length msg \<le> 0x40" | (out) "0x40 < length msg" "length (conn_table t) \<le> ?k"
    | (idle) "0x40 < length msg" "?k < length (conn_table t)" "phase (conn_table t ! ?k) \<noteq> 1"
    | (judge) "0x40 < length msg" "?k < length (conn_table t)" "phase (conn_table t ! ?k) = 1"
    by linarith
  then show ?thesis
  proof cases
    case short
    then have "\<not> cert_accepted lib msg t" by (simp add: cert_accepted_def)
    moreover have "t' = t" "Auth_event conn \<notin> set ops"
      using assms(2) short by (auto simp: auth_parse_certificate_challenge_def quiet)
    ultimately show ?thesis by simp
  next
    case out
    then show ?thesis using assms(2) by (simp add: auth_parse_certificate_challenge_def)
  next
    case idle
    then have "t' = t" "ops = []" using assms(2) by (simp_all add: auth_parse_certificate_challenge_def)
    then show ?thesis using idle by auto
  next
    case judge
    then obtain reason s where j:
      "judge_certificate lib msg (pub_key t) (bike_id t) (conn_table t ! ?k) = Some (reason, s)"
      using assms(2) by (cases "judge_certificate lib msg (pub_key t) (bike_id t) (conn_table t ! ?k)")
        (auto simp: auth_parse_certificate_challenge_def Let_def)
    note jo = judge_outcome [OF assms(1) judge(1) j]
    show ?thesis
    proof (cases reason)
      case None
      then have r: "Auth_event conn \<in> set ops \<longrightarrow> cert_accepted lib msg t" "cert_accepted lib msg t" using jo(2) by simp_all
      have "conn_table t' = (conn_table t)[?k := (if event_alloc lib then s\<lparr>phase := 2, slot_conn := conn\<rparr> else s\<lparr>phase := 2\<rparr>)]"
        using assms(2) judge j None by (auto simp: auth_parse_certificate_challenge_def Let_def split: if_splits)
      then show ?thesis using r judge assms(3) by (auto simp: nth_list_update)
    next
      case (Some x)
      then have "t' = t\<lparr>conn_table := (conn_table t)[?k := s]\<rparr>" "Auth_event conn \<notin> set ops"
        using assms(2) judge j Some by (auto simp: auth_parse_certificate_challenge_def Let_def quiet)
      moreover have "\<not> cert_accepted lib msg t" using jo(2) Some by simp
      ultimately show ?thesis using jo(1) assms(3) by (cases "i = ?k") auto
    qed
  qed
qed

definition demo_bike :: bytes where
  "demo_bike = [0x53, 0x56, 0x54, 0x42, 0x4b, 0x4c, 0x30, 0x30, 0x30, 0x31, 0x32, 0x33, 0x4f]"

definition demo_lib :: "u32 \<times> 64 word \<Rightarrow> unit cert_lib" where
  "demo_lib clock =
     \<lparr>signature_status = (\<lambda>sig body key. if length sig = 64 \<and> sig ! 0 = key ! 0 then 0 else 1),
      parse_body = (\<lambda>body. if body = [] then None else Some (0xa0, ())),
      get_u32 = (\<lambda>v k. (0, 7)), get_u64 = (\<lambda>v k. (0, 1800000000)),
      get_bytes = (\<lambda>v k n. if k = Oid_a then (-1, []) else if k = Oid_b then (13, demo_bike)
        else if k = Cmd then (0, []) else (5, [1, 2, 3, 4, 5])),
      now_ms = clock, slot_index = (\<lambda>c. 1), reason_json = (True, True), reason_alloc = True,
      event_alloc = True\<rparr>"

definition demo_slot :: auth_slot where
  "demo_slot = cleared \<lparr>slot_conn = 0, phase = 1, issuer = 0, valid_until = 0, word_18 = 0, subject = [],
     kind = 0, command_text = [], session_key = []\<rparr>"

definition demo_tables :: auth_tables where
  "demo_tables = \<lparr>conn_table = [demo_slot, demo_slot], pub_key = replicate 32 9, bike_id = demo_bike\<rparr>"

lemma demo_accepted: "cert_accepted (demo_lib (0, 1750000000000)) (replicate 64 9 @ [1]) demo_tables"
  by (simp add: cert_accepted_def demo_lib_def demo_tables_def cert_complete_def cert_in_time_def cert_text_def
      AUTH_VALIDITY_MIN_BASELINE_def demo_bike_def numeral_eq_Suc)

theorem certificate_gate_witness:
  "phase (conn_table (fst (the (auth_parse_certificate_challenge (demo_lib (0, 1750000000000)) 3
     (replicate 64 9 @ [1]) demo_tables))) ! 1) = 2"
proof -
  let ?lib = "demo_lib (0, 1750000000000)" and ?msg = "replicate 64 9 @ [1] :: bytes"
  have quiet: "quiet_errors ?lib" by (simp add: quiet_errors_def demo_lib_def)
  have "auth_parse_certificate_challenge ?lib 3 ?msg demo_tables \<noteq> None"
    by (simp add: auth_parse_certificate_challenge_def judge_certificate_def read_fields_def read_identity_def
        read_validity_def read_command_def read_key_def store_text_def blit_def demo_lib_def demo_tables_def
        demo_slot_def cleared_def demo_bike_def clock_rejects_def Let_def)
  then obtain t' ops where 1: "auth_parse_certificate_challenge ?lib 3 ?msg demo_tables = Some (t', ops)"
    by fastforce
  have "1 < length (conn_table demo_tables)" by (simp add: demo_tables_def)
  from certificate_gate [OF quiet 1 this] show ?thesis
    using demo_accepted by (simp add: 1) (simp add: demo_lib_def demo_tables_def demo_slot_def cleared_def)
qed

text \<open>With a clock that can be read, and a validity whose milliseconds fit, acceptance is within the
  validity; a clock that cannot be read rejects nothing.\<close>

lemma accepted_in_time:
  assumes "cert_in_time lib v" "fst (now_ms lib) = 0"
    and "uint (snd (get_u64 lib v Auth_module)) < 9223372036854775"
  shows "sint (snd (now_ms lib)) < 1000 * uint (snd (get_u64 lib v Auth_module))"
proof -
  let ?w = "snd (get_u64 lib v Auth_module)"
  have "?w * 1000 = word_of_int (uint ?w * 1000)" by (metis word_of_int_uint wi_hom_mult word_of_int_numeral)
  then have "sint (?w * 1000) = sint (word_of_int (uint ?w * 1000) :: 64 word)" by (rule arg_cong)
  also have "\<dots> = signed_take_bit 63 (uint ?w * 1000)" by (simp only: signed_of_int) simp
  also have "\<dots> = uint ?w * 1000"
  proof (rule signed_take_bit_int_eq_self)
    show "- (2 ^ 63) \<le> uint ?w * 1000" by (rule order_trans [of _ 0]) simp_all
    show "uint ?w * 1000 < 2 ^ 63" using assms(3) by simp
  qed
  finally show ?thesis using assms(1,2) by (simp add: cert_in_time_def)
qed

end
