(* ===== verification/FindMy.thy ===== *)
theory FindMy
  imports BleAuth
begin

text \<open>
  The glue of the BLE controller between its connections and the Find My core
  (\<open>src/ble/src/findmy_glue.c\<close>) and the frame sender (\<open>src/ble/src/ble_msg.c\<close>).  The slot of
  a connection is opened by an authentication event; payloads of a closed slot are rejected.
\<close>

record fm_slot =
  fm_auth :: u8
  fm_enc :: u8
  fm_word4 :: u32
  fm_conn :: u32

record fm =
  fm_slots :: "fm_slot list"
  fm_scratch :: bytes

datatype event_class = Conn_class | Auth_class | Sync_class | Other_class

record fm_event =
  ev_class :: event_class
  ev_sub :: u8
  ev_conn :: u32
  ev_word :: u32
  ev_half14 :: u16
  ev_half16 :: u16
  ev_half18 :: u16
  ev_half1a :: u16

text \<open>The vendor code: the slot index of a connection, the JSON writer (the bytes of an object, and
  whether it opens and closes), the message queue, the checksum, and what a rejection needs.\<close>

record fm_lib =
  fm_index :: "u32 \<Rightarrow> nat"
  fm_encode :: "fields \<Rightarrow> bytes"
  fm_json :: "bool \<times> bool"
  fm_put :: int
  fm_crc :: "bytes \<Rightarrow> u16"
  fm_alloc :: bool

datatype fm_op = Put bytes | Send_frame bytes | Raw u32 fields | Rejected "auth_op list" | Reset_reason

subsection \<open>Framing\<close>

definition be32 :: "u32 \<Rightarrow> bytes" where
  "be32 w = [ucast (drop_bit 24 w), ucast (drop_bit 16 w), ucast (drop_bit 8 w), ucast w]"

definition be16 :: "u16 \<Rightarrow> bytes" where
  "be16 w = [ucast (drop_bit 8 w), ucast w]"

definition findmy_build_message :: "(bytes \<Rightarrow> u16) \<Rightarrow> u8 \<Rightarrow> u8 \<Rightarrow> u16 \<Rightarrow> bytes \<Rightarrow> bytes option" where
  "findmy_build_message crc ty chan frame_id payload =
     (if 0x401 \<le> (length payload + 10) mod 2 ^ 32 then None
      else Some (ty # be16 frame_id @ [chan] @ be32 (of_nat (length payload)) @ be16 (crc payload) @ payload))"

text \<open>The record on the queue: tag, kind, the payload in its field, its length, and two bytes of
  padding.\<close>

definition findmy_msg_enqueue :: "fm_lib \<Rightarrow> u32 \<Rightarrow> u8 \<Rightarrow> bytes \<Rightarrow> u16 \<Rightarrow> u32 \<times> fm_op list" where
  "findmy_msg_enqueue lib tag knd src len =
     (if 0x2ee \<le> len - 1 then (0xffffffea, [])
      else
        let body = take 0x2f3 (take (unat len) src);
            rec = le32 tag @ [knd] @ body @ replicate (0x2ef - length body) 0 @
                  [ucast len, ucast (drop_bit 8 len), 0, 0]
        in (if fm_put lib \<noteq> 0 then 0xfffffff4 else 0, [Put rec]))"

text \<open>A JSON object, queued when it opens and closes.\<close>

definition enqueue_fields :: "fm_lib \<Rightarrow> u32 \<Rightarrow> u8 \<Rightarrow> fields \<Rightarrow> fm_op list" where
  "enqueue_fields lib tag knd fs =
     (if fst (fm_json lib) \<and> snd (fm_json lib) then
        (let bs = fm_encode lib fs in snd (findmy_msg_enqueue lib tag knd bs (of_nat (length bs))))
      else [])"

subsection \<open>Events\<close>

text \<open>An access outside the slot table is \<open>None\<close>.\<close>

definition update_slot :: "nat \<Rightarrow> (fm_slot \<Rightarrow> fm_slot) \<Rightarrow> fm \<Rightarrow> fm option" where
  "update_slot i g s =
     (if i < length (fm_slots s) then Some (s\<lparr>fm_slots := (fm_slots s)[i := g (fm_slots s ! i)]\<rparr>) else None)"

definition link_fields :: "fm_event \<Rightarrow> fields" where
  "link_fields ev =
     (if ev_word ev = 0 then
        [(''latency'', uint (ev_half16 ev)), (''timeout'', uint (ev_half18 ev)), (''interval'', uint (ev_half14 ev))]
      else [(''err'', sint (ev_word ev))])"

definition length_fields :: "fm_event \<Rightarrow> fields" where
  "length_fields ev =
     (if ev_word ev = 0 then
        [(''tx_max_time'', uint (ev_half16 ev)), (''tx_max_len'', uint (ev_half14 ev)),
         (''rx_max_time'', uint (ev_half1a ev)), (''rx_max_len'', uint (ev_half18 ev))]
      else [(''err'', sint (ev_word ev))])"

text \<open>The subcommands of a connection event; the result is the new state, the slot to report (if any),
  and the operations.\<close>

definition conn_event :: "fm_lib \<Rightarrow> fm_event \<Rightarrow> fm \<Rightarrow> (fm \<times> nat option \<times> fm_op list) option" where
  "conn_event lib ev s =
     (let i = fm_index lib (ev_conn ev); sub = ev_sub ev
      in if sub = 0 then
           map_option (\<lambda>s. (s, None, [])) (update_slot i (\<lambda>sl. sl\<lparr>fm_auth := 0, fm_enc := 0, fm_conn := ev_conn ev\<rparr>) s)
         else if sub = 1 then map_option (\<lambda>s. (s, None, [])) (update_slot i (\<lambda>sl. sl\<lparr>fm_auth := 0\<rparr>) s)
         else if sub = 2 then
           Some (s, None,
             if fst (fm_json lib) \<and> snd (fm_json lib) then
               [Raw 0xf200 [(''cid'', int i), (''rssi'', sint (ucast (ev_word ev) :: u8))]]
             else [])
         else if sub = 3 then
           (if (ucast (drop_bit 8 (ev_word ev)) :: u8) = 0 then
              map_option (\<lambda>s. (s, Some i, []))
                (update_slot i (\<lambda>sl. sl\<lparr>fm_enc := (if (ucast (ev_word ev) :: u8) - 2 < 2 then 1 else 0)\<rparr>) s)
            else Some (s, None, []))
         else if sub = 4 then Some (s, Some i, [])
         else if sub = 5 then Some (s, None, enqueue_fields lib (ev_conn ev) 7 (link_fields ev))
         else if sub = 6 then Some (s, None, enqueue_fields lib (ev_conn ev) 6 (length_fields ev))
         else Some (s, None, []))"

definition report_slot :: "fm_lib \<Rightarrow> nat option \<Rightarrow> fm \<Rightarrow> fm_op list option" where
  "report_slot lib idx s = (case idx of
       None \<Rightarrow> Some []
     | Some i \<Rightarrow>
         if i = 0xff then Some []
         else if length (fm_slots s) \<le> i then None
         else let sl = fm_slots s ! i
              in Some (enqueue_fields lib (fm_conn sl) 5
                   [(''enc'', state_field (fm_enc sl)), (''auth'', state_field (fm_auth sl))]))"

definition findmy_conn_event_handler :: "fm_lib \<Rightarrow> fm_event \<Rightarrow> fm \<Rightarrow> (fm \<times> fm_op list) option" where
  "findmy_conn_event_handler lib ev s =
     (case (case ev_class ev of
              Conn_class \<Rightarrow> conn_event lib ev s
            | Auth_class \<Rightarrow>
                (if ev_sub ev = 0 then
                   map_option (\<lambda>s. (s, Some (unat (ev_conn ev AND 0xff)), []))
                     (update_slot (unat (ev_conn ev)) (\<lambda>sl. sl\<lparr>fm_auth := 1, fm_word4 := ev_word ev\<rparr>) s)
                 else Some (s, None, []))
            | Sync_class \<Rightarrow> Some (s, Some (fm_index lib (ev_conn ev)), [])
            | Other_class \<Rightarrow> Some (s, None, [])) of
        None \<Rightarrow> None
      | Some (s, idx, ops) \<Rightarrow> map_option (\<lambda>more. (s, ops @ more)) (report_slot lib idx s))"

subsection \<open>Payloads\<close>

text \<open>The first two bytes of the payload are the frame id, highest first.\<close>

definition findmy_handle_conn_rx :: "fm_lib \<Rightarrow> u32 \<Rightarrow> bytes \<Rightarrow> fm \<Rightarrow> fm_op list option" where
  "findmy_handle_conn_rx lib conn p s =
     (let i = fm_index lib conn
      in if length (fm_slots s) \<le> i then None
         else if fm_auth (fm_slots s ! i) = 0 then
           Some [Rejected (auth_send_disconnect_reason (fm_json lib) (fm_alloc lib) (fm_conn (fm_slots s ! i)) 5 0xff)]
         else if 1 < length p then
           (let half = rd16 (p ! 0) (p ! 1);
                frame_id = push_bit 8 half OR drop_bit 8 half
            in case findmy_build_message (fm_crc lib) (of_nat i) 0x20 frame_id (drop 2 p) of
                 None \<Rightarrow> Some []
               | Some m \<Rightarrow> Some [Send_frame m])
         else Some [])"

text \<open>The record: the slot, the frame id, the length and the payload.\<close>

definition findmy_forward_peer_payload :: "fm_lib \<Rightarrow> u8 \<Rightarrow> u16 \<Rightarrow> u32 \<Rightarrow> bytes \<Rightarrow> fm \<Rightarrow> (fm \<times> fm_op list) option" where
  "findmy_forward_peer_payload lib slot hdr len payload s =
     (let i = unat slot
      in if length (fm_slots s) \<le> i then None
         else if fm_auth (fm_slots s ! i) \<noteq> 0 then
           (case blit (fm_scratch s) 0 (be16 hdr @ take (min (unat len) 0x2ec) payload) of
              None \<Rightarrow> None
            | Some sc \<Rightarrow>
                Some (s\<lparr>fm_scratch := sc\<rparr>, snd (findmy_msg_enqueue lib (fm_conn (fm_slots s ! i)) 1 sc (ucast len + 2))))
         else Some (s, []))"

definition findmy_send_status_report :: "fm_lib \<Rightarrow> u32 \<Rightarrow> fm_op list" where
  "findmy_send_status_report lib reason =
     (if fst (fm_json lib) then
        Reset_reason # (if snd (fm_json lib) then [Raw 0xc2 [(''reason'', sint reason)]] else [])
      else [])"

definition findmy_store_provisioning_token :: "int \<Rightarrow> bytes \<Rightarrow> auth_op list" where
  "findmy_store_provisioning_token len scratch =
     (if 0 \<le> len \<and> len \<le> 0x10 then
        [Publish ''vm'' (take (nat len) scratch @ replicate (16 - nat len) 0)] else [])"

text \<open>The topic is compared with each entry of the table over the shorter of the two, and its tail
  from \<open>len - 2\<close> on with \<open>/1\<close>; a match is cleared.\<close>

fun topic_matches :: "string list \<Rightarrow> string \<Rightarrow> nat \<Rightarrow> bool" where
  "topic_matches [] topic len = False"
| "topic_matches (entry # es) topic len =
     (let n = (if length entry \<le> length topic then length entry else length topic)
      in (take n topic = take n entry \<and> drop (len - 2) topic = ''/1'') \<or> topic_matches es topic len)"

definition findmy_match_provisioning_topic :: "string list \<Rightarrow> string \<Rightarrow> nat \<Rightarrow> auth_op list" where
  "findmy_match_provisioning_topic tab topic len =
     (if topic_matches tab topic len then [Publish topic []] else [])"

subsection \<open>The frame sender\<close>

text \<open>The pipe is tried at most ten times while it would block; the results are those of the tries.\<close>

fun pipe_write :: "nat \<Rightarrow> int list \<Rightarrow> int" where
  "pipe_write n [] = -0xb"
| "pipe_write n (rc # rcs) = (if n \<le> 1 then rc else if rc = -0xb then pipe_write (n - 1) rcs else rc)"

text \<open>The result, and whether the lock is taken and released.\<close>

definition ble_msg_send :: "int \<Rightarrow> int \<Rightarrow> int list \<Rightarrow> int \<Rightarrow> int \<times> bool \<times> bool" where
  "ble_msg_send lock_rc enc_len pipe notify =
     (if lock_rc \<noteq> 0 then (-0x74, False, False)
      else if enc_len < 0 then (-5, True, True)
      else if pipe_write 10 pipe \<noteq> 0 then (-0x74, True, True)
      else if notify \<noteq> 0 then (-5, True, True)
      else (0, True, True))"

subsection \<open>Payloads pass only an authenticated slot\<close>

datatype fm_input = Event fm_event | Payload u32 bytes | Forward u8 u16 u32 bytes

definition fm_step :: "fm_lib \<Rightarrow> fm_input \<Rightarrow> fm \<Rightarrow> (fm \<times> fm_op list) option" where
  "fm_step lib i s = (case i of
       Event ev \<Rightarrow> findmy_conn_event_handler lib ev s
     | Payload conn p \<Rightarrow> map_option (Pair s) (findmy_handle_conn_rx lib conn p s)
     | Forward slot hdr len p \<Rightarrow> findmy_forward_peer_payload lib slot hdr len p s)"

fun fm_run :: "fm_lib \<Rightarrow> fm_input list \<Rightarrow> fm \<Rightarrow> (fm \<times> fm_op list) option" where
  "fm_run lib [] s = Some (s, [])"
| "fm_run lib (i # is) s = (case fm_step lib i s of
       None \<Rightarrow> None
     | Some (s, ops) \<Rightarrow> map_option (\<lambda>(s, more). (s, ops @ more)) (fm_run lib is s))"

definition authenticates :: "nat \<Rightarrow> fm_input \<Rightarrow> bool" where
  "authenticates k i = (case i of
       Event ev \<Rightarrow> ev_class ev = Auth_class \<and> ev_sub ev = 0 \<and> unat (ev_conn ev) = k
     | _ \<Rightarrow> False)"

definition closes :: "fm_lib \<Rightarrow> nat \<Rightarrow> fm_input \<Rightarrow> bool" where
  "closes lib k i = (case i of
       Event ev \<Rightarrow> ev_class ev = Conn_class \<and> (ev_sub ev = 0 \<or> ev_sub ev = 1) \<and> fm_index lib (ev_conn ev) = k
     | _ \<Rightarrow> False)"

definition slot_open :: "nat \<Rightarrow> fm \<Rightarrow> bool" where
  "slot_open k s \<longleftrightarrow> k < length (fm_slots s) \<and> fm_auth (fm_slots s ! k) \<noteq> 0"

lemma update_slot_open:
  assumes "update_slot i g s = Some s'"
  shows "slot_open k s' \<longleftrightarrow> (if k = i then fm_auth (g (fm_slots s ! i)) \<noteq> 0 else slot_open k s)"
  using assms by (auto simp: update_slot_def slot_open_def nth_list_update split: if_splits)

lemma update_keeps_open:
  assumes "update_slot i g s = Some s'" "\<And>sl. fm_auth (g sl) = fm_auth sl"
  shows "slot_open k s' \<longleftrightarrow> slot_open k s"
  using assms by (auto simp: update_slot_def slot_open_def nth_list_update split: if_splits)

text \<open>Only an authentication event opens a slot, and a connection or disconnection event closes it.\<close>

lemma conn_event_open:
  assumes "conn_event lib ev s = Some (s', idx, ops)"
  shows "slot_open k s' \<longleftrightarrow>
    (if (ev_sub ev = 0 \<or> ev_sub ev = 1) \<and> fm_index lib (ev_conn ev) = k then False else slot_open k s)"
proof -
  consider "ev_sub ev = 0" | "ev_sub ev = 1" | "ev_sub ev = 3" | "ev_sub ev \<notin> {0, 1, 3}" by blast
  then show ?thesis
  proof cases
    case 3
    then show ?thesis using assms update_keeps_open
      by (fastforce simp: conn_event_def Let_def split: if_splits)
  next
    case 4
    then have "s' = s" using assms by (auto simp: conn_event_def Let_def split: if_splits)
    then show ?thesis using 4 by simp
  qed (use assms in \<open>auto simp: conn_event_def Let_def update_slot_open\<close>)
qed

lemma step_open:
  assumes "fm_step lib i s = Some (s', ops)"
  shows "slot_open k s' \<longrightarrow> authenticates k i \<or> (slot_open k s \<and> \<not> closes lib k i)"
proof (cases i)
  case (Event ev)
  show ?thesis
  proof (cases "ev_class ev")
    case Conn_class
    then obtain idx o1 where "conn_event lib ev s = Some (s', idx, o1)"
      using assms Event by (auto simp: fm_step_def findmy_conn_event_handler_def split: option.splits)
    from conn_event_open [OF this, of k] show ?thesis by (auto simp: closes_def Event Conn_class)
  next
    case Auth_class
    then show ?thesis using assms Event
      by (auto simp: fm_step_def findmy_conn_event_handler_def closes_def authenticates_def
          dest!: update_slot_open [of _ _ _ _ k] split: if_splits option.splits)
  next
    case Sync_class
    then show ?thesis using assms Event
      by (auto simp: fm_step_def findmy_conn_event_handler_def closes_def)
  next
    case Other_class
    then show ?thesis using assms Event
      by (auto simp: fm_step_def findmy_conn_event_handler_def closes_def)
  qed
next
  case (Payload conn p)
  then show ?thesis using assms by (auto simp: fm_step_def closes_def)
next
  case (Forward slot hdr len p)
  then have "fm_slots s' = fm_slots s"
    using assms by (auto simp: fm_step_def findmy_forward_peer_payload_def Let_def split: if_splits option.splits)
  then show ?thesis using Forward by (simp add: slot_open_def closes_def)
qed

lemma run_open:
  assumes "fm_run lib is s = Some (s', ops)" "slot_open k s'" "\<not> slot_open k s"
  shows "\<exists>pre i post. is = pre @ i # post \<and> authenticates k i \<and> (\<forall>j \<in> set post. \<not> closes lib k j)"
proof -
  have "slot_open k s' \<Longrightarrow> (slot_open k s \<and> (\<forall>j \<in> set is. \<not> closes lib k j)) \<or>
    (\<exists>pre i post. is = pre @ i # post \<and> authenticates k i \<and> (\<forall>j \<in> set post. \<not> closes lib k j))"
    using assms(1)
  proof (induction "is" arbitrary: s ops)
    case Nil
    then show ?case by simp
  next
    case (Cons i "is")
    obtain s1 o1 o2 where 1: "fm_step lib i s = Some (s1, o1)" "fm_run lib is s1 = Some (s', o2)"
      using Cons.prems(2) by (auto split: option.splits)
    from Cons.IH [OF Cons.prems(1) 1(2)] show ?case
    proof
      assume h: "slot_open k s1 \<and> (\<forall>j \<in> set is. \<not> closes lib k j)"
      then have "authenticates k i \<or> (slot_open k s \<and> \<not> closes lib k i)"
        using step_open [OF 1(1), of k] by blast
      then show ?case
      proof
        assume "authenticates k i"
        then have "i # is = [] @ i # is \<and> authenticates k i \<and> (\<forall>j \<in> set is. \<not> closes lib k j)" using h by simp
        then show ?case by blast
      next
        assume "slot_open k s \<and> \<not> closes lib k i"
        then show ?case using h by simp
      qed
    next
      assume "\<exists>pre j post. is = pre @ j # post \<and> authenticates k j \<and> (\<forall>j \<in> set post. \<not> closes lib k j)"
      then obtain pre j post where "is = pre @ j # post" "authenticates k j" "\<forall>j \<in> set post. \<not> closes lib k j"
        by blast
      then have "i # is = (i # pre) @ j # post \<and> authenticates k j \<and> (\<forall>j \<in> set post. \<not> closes lib k j)" by simp
      then show ?case by blast
    qed
  qed
  then show ?thesis using assms(2,3) by blast
qed

text \<open>The frame id is swapped twice: the frame carries the first two bytes of the payload as they came.\<close>

lemma frame_id_bytes:
  "be16 (push_bit 8 (rd16 a b) OR drop_bit 8 (rd16 a b)) = [a, b]"
proof -
  have "(ucast (drop_bit 8 (push_bit 8 (rd16 a b) OR drop_bit 8 (rd16 a b))) :: u8) = a"
    by (rule bit_word_eqI) (auto simp: rd16_def bit_simps)
  moreover have "(ucast (push_bit 8 (rd16 a b) OR drop_bit 8 (rd16 a b)) :: u8) = b"
    by (rule bit_word_eqI) (auto simp: rd16_def bit_simps dest: bit_imp_le_length)
  ultimately show ?thesis by (simp add: be16_def)
qed

lemma rx_frame:
  assumes "findmy_handle_conn_rx lib conn p s = Some ops" "Send_frame m \<in> set ops"
  shows "slot_open (fm_index lib conn) s \<and> 1 < length p \<and>
    m = of_nat (fm_index lib conn) # take 2 p @ 0x20 # be32 (of_nat (length p - 2)) @
        be16 (fm_crc lib (drop 2 p)) @ drop 2 p"
proof -
  have 1: "slot_open (fm_index lib conn) s" "1 < length p"
    using assms by (auto simp: findmy_handle_conn_rx_def slot_open_def Let_def split: if_splits)
  have 2: "take 2 p = [p ! 0, p ! 1]" using 1(2) by (cases p; cases "tl p") auto
  have "m = of_nat (fm_index lib conn) # [p ! 0, p ! 1] @ 0x20 # be32 (of_nat (length p - 2)) @
        be16 (fm_crc lib (drop 2 p)) @ drop 2 p"
    using assms 1 by (auto simp: findmy_handle_conn_rx_def slot_open_def Let_def findmy_build_message_def
        frame_id_bytes split: if_splits)
  then show ?thesis using 1 2 by simp
qed

text \<open>
  C5.  From a table of closed slots, over any sequence of events, payloads and
  forwarded records, a payload of a connection is framed to the Find My core only if the slot of
  the connection was opened by an authentication event and no connection or disconnection of
  that slot came since; the frame then carries the slot, the two bytes of the frame id as they
  came, the length and checksum, and the rest of the payload unchanged.
\<close>

theorem payload_gate:
  assumes "\<forall>sl \<in> set (fm_slots s). fm_auth sl = 0"
    and "fm_run lib ins s = Some (s1, ops)" "fm_step lib (Payload conn p) s1 = Some (s2, out)"
    and "Send_frame m \<in> set out"
  shows "(\<exists>pre i post. ins = pre @ i # post \<and> authenticates (fm_index lib conn) i \<and>
      (\<forall>j \<in> set post. \<not> closes lib (fm_index lib conn) j)) \<and>
    m = of_nat (fm_index lib conn) # take 2 p @ 0x20 # be32 (of_nat (length p - 2)) @
      be16 (fm_crc lib (drop 2 p)) @ drop 2 p"
proof -
  have "findmy_handle_conn_rx lib conn p s1 = Some out" using assms(3) by (auto simp: fm_step_def)
  note r = rx_frame [OF this assms(4)]
  have "\<not> slot_open (fm_index lib conn) s" using assms(1) by (auto simp: slot_open_def)
  with run_open [OF assms(2)] r show ?thesis by blast
qed

definition demo_fm_lib :: fm_lib where
  "demo_fm_lib = \<lparr>fm_index = (\<lambda>c. if c = 6 then 2 else 0), fm_encode = (\<lambda>fs. replicate (length fs) 0x7b),
     fm_json = (True, True), fm_put = 0, fm_crc = (\<lambda>bs. 0x1234), fm_alloc = True\<rparr>"

definition demo_fm :: fm where
  "demo_fm = (let sl = \<lparr>fm_auth = 0, fm_enc = 0, fm_word4 = 0, fm_conn = 0\<rparr>
     in \<lparr>fm_slots = [sl, sl, sl, sl], fm_scratch = replicate 750 0\<rparr>)"

definition demo_event :: "event_class \<Rightarrow> u32 \<Rightarrow> fm_event" where
  "demo_event c conn = \<lparr>ev_class = c, ev_sub = 0, ev_conn = conn, ev_word = 0, ev_half14 = 0, ev_half16 = 0,
     ev_half18 = 0, ev_half1a = 0\<rparr>"

text \<open>Connection 6 is on slot 2; after the authentication of slot 2 its payload is forwarded.\<close>

theorem payload_gate_witness:
  "\<exists>s1 ops s2 m.
     fm_run demo_fm_lib [Event (demo_event Conn_class 6), Event (demo_event Auth_class 2)] demo_fm = Some (s1, ops) \<and>
     fm_step demo_fm_lib (Payload 6 [0x12, 0x34, 0x56]) s1 = Some (s2, [Send_frame m]) \<and>
     m = [2, 0x12, 0x34, 0x20, 0, 0, 0, 1, 0x12, 0x34, 0x56]"
proof -
  let ?ins = "[Event (demo_event Conn_class 6), Event (demo_event Auth_class 2)]"
  let ?p = "[0x12, 0x34, 0x56] :: bytes"
  have closed: "\<forall>sl \<in> set (fm_slots demo_fm). fm_auth sl = 0" by (simp add: demo_fm_def Let_def)
  define sl where "sl = \<lparr>fm_auth = 0, fm_enc = 0, fm_word4 = 0, fm_conn = (0 :: u32)\<rparr>"
  define s1 where "s1 = demo_fm\<lparr>fm_slots := [sl, sl, sl\<lparr>fm_auth := 1, fm_conn := 6\<rparr>, sl]\<rparr>"
  have run: "\<exists>ops. fm_run demo_fm_lib ?ins demo_fm = Some (s1, ops)"
    by (simp add: s1_def fm_step_def findmy_conn_event_handler_def conn_event_def update_slot_def report_slot_def
        demo_event_def demo_fm_lib_def demo_fm_def sl_def Let_def)
  then obtain ops where run: "fm_run demo_fm_lib ?ins demo_fm = Some (s1, ops)" by blast
  have "\<exists>m. findmy_handle_conn_rx demo_fm_lib 6 ?p s1 = Some [Send_frame m]"
    by (simp add: findmy_handle_conn_rx_def demo_fm_lib_def s1_def sl_def findmy_build_message_def Let_def)
  then obtain m where "findmy_handle_conn_rx demo_fm_lib 6 ?p s1 = Some [Send_frame m]" by blast
  then have step: "fm_step demo_fm_lib (Payload 6 ?p) s1 = Some (s1, [Send_frame m])" by (simp add: fm_step_def)
  have "m = [2, 0x12, 0x34, 0x20, 0, 0, 0, 1, 0x12, 0x34, 0x56]"
    using payload_gate [OF closed run step, of m]
    by (simp add: demo_fm_lib_def be32_def be16_def)
  then show ?thesis using run step by blast
qed

end
