(* ===== verification/BleFtp.thy ===== *)
theory BleFtp
  imports Prelude
begin

text \<open>
  The blob transfer of the BLE controller (\<open>src/ble/src/ble_message.c\<close>): opening a flash
  region by name, writing it in chunks, verifying it and reading back checksums.  Requests arrive as
  parsed CBOR maps; the flash, the completion callbacks and the replies are operations.
\<close>

subsection \<open>Regions and requests\<close>

record region =
  whole_erase :: u8
  reg_offset :: u32
  reg_size :: u32
  has_callback :: bool

text \<open>The regions of the table, the region that is open, and the two inbound buffers.\<close>

record ftp =
  regions :: "region list"
  active :: "nat option"
  name_buf :: bytes
  data_buf :: bytes

text \<open>A field that is found: its type byte, the integer read from it and its length if those reads
  succeed, and the bytes that a copy of it stores, if that succeeds.\<close>

record field =
  f_type :: u8
  f_int :: "u32 option"
  f_len :: "u32 option"
  f_copy :: "bytes option"

text \<open>A request: whether the reply object opens and closes, whether the body parses as a map, the
  fields by key, and what a cursor that was never set reads as.\<close>

record request =
  reply_opens :: bool
  reply_closes :: bool
  is_map :: bool
  get :: "string \<Rightarrow> field option"
  stale_half :: u16
  stale_int :: "u32 option"

datatype ftp_op =
    Flash_erase u32 u32
  | Flash_write u32 bytes
  | Checksum u32 u32
  | Callback nat int
  | Reply "(string \<times> int) list"

definition FTP_STR_APP_UPDATE :: bytes where
  "FTP_STR_APP_UPDATE = [0x61, 0x70, 0x70, 0x5f, 0x75, 0x70, 0x64, 0x61, 0x74, 0x65]"

definition FTP_STR_FMNA_BLOB :: bytes where
  "FTP_STR_FMNA_BLOB = [0x66, 0x6d, 0x6e, 0x61, 0x5f, 0x62, 0x6c, 0x6f, 0x62]"

text \<open>The name buffer is compared with the first \<open>n\<close> characters of a name that has no terminator
  among them.\<close>

definition name_is :: "bytes \<Rightarrow> bytes \<Rightarrow> bool" where
  "name_is buf nm = (let n = (if 0x1f < length nm then 0x20 else length nm) in take n buf = take n nm)"

definition the_region :: "ftp \<Rightarrow> region option" where
  "the_region s = (case active s of None \<Rightarrow> None | Some i \<Rightarrow> if i < length (regions s) then Some (regions s ! i) else None)"

text \<open>An integer field of the right type.\<close>

definition int_field :: "request \<Rightarrow> string \<Rightarrow> u32 option" where
  "int_field r k = (case get r k of None \<Rightarrow> None | Some f \<Rightarrow> if f_type f = 0 then f_int f else None)"

subsection \<open>The commands\<close>

text \<open>Each command gives the state, the reply fields it emits, its status and the operations.\<close>

definition ftp_open :: "request \<Rightarrow> ftp \<Rightarrow> (ftp \<times> (string \<times> int) list \<times> int \<times> ftp_op list) option" where
  "ftp_open r s =
     (if active s \<noteq> None then Some (s, [], 2, [])
      else case (int_field r ''size'', get r ''name'') of
        (Some sz, Some f) \<Rightarrow>
          (case (f_len f, f_copy f) of
             (Some n, Some bs) \<Rightarrow>
               (if f_type f = 0x60 \<and> n < 0x21 then
                  (case blit (name_buf s) 0 bs of
                     None \<Rightarrow> None
                   | Some nb \<Rightarrow>
                       (let s = s\<lparr>name_buf := nb\<rparr>;
                            pick = (if name_is nb FTP_STR_APP_UPDATE then Some 0
                                    else if name_is nb FTP_STR_FMNA_BLOB then Some 1 else None)
                        in case pick of
                             None \<Rightarrow> Some (s, [], 4, [])
                           | Some i \<Rightarrow>
                               (if length (regions s) \<le> i then None
                                else
                                  let d = regions s ! i
                                  in if reg_size d < sz then Some (s, [], 3, [])
                                     else Some (s\<lparr>active := Some i\<rparr>, [(''chunk_size'', 0x200)], 0,
                                       if whole_erase d \<noteq> 0 then [Flash_erase (reg_offset d) (reg_size d)] else []))))
                else Some (s, [], 8, []))
           | _ \<Rightarrow> Some (s, [], 8, []))
      | _ \<Rightarrow> Some (s, [], 8, []))"

definition run_callback :: "ftp \<Rightarrow> int \<Rightarrow> ftp_op list" where
  "run_callback s code = (case (active s, the_region s) of
       (Some i, Some d) \<Rightarrow> if has_callback d then [Callback i code] else []
     | _ \<Rightarrow> [])"

definition ftp_close :: "ftp \<Rightarrow> ftp \<times> ftp_op list" where
  "ftp_close s = (s\<lparr>active := None\<rparr>, run_callback s 2)"

text \<open>The chunk is padded to words from the buffer.\<close>

definition ftp_write :: "request \<Rightarrow> ftp \<Rightarrow> (ftp \<times> (string \<times> int) list \<times> int \<times> ftp_op list) option" where
  "ftp_write r s = (case the_region s of
       None \<Rightarrow> Some (s, [], 7, [])
     | Some d \<Rightarrow>
         (case (int_field r ''index'', get r ''data'') of
            (Some idx, Some f) \<Rightarrow>
              (case f_copy f of
                 None \<Rightarrow> Some (s, [], 8, [])
               | Some bs \<Rightarrow>
                   (if f_type f \<noteq> 0x40 then Some (s, [], 8, [])
                    else case blit (data_buf s) 0 bs of
                      None \<Rightarrow> None
                    | Some db \<Rightarrow>
                        (let s = s\<lparr>data_buf := db\<rparr>; echo = [(''index'', sint idx)]
                         in if drop_bit 9 (reg_size d) \<le> idx then Some (s, echo, 5, [])
                            else
                              let off = reg_offset d + idx * 0x200;
                                  erase = (if whole_erase d = 0 \<and> idx AND 7 = 0 then [Flash_erase off 0x1000] else []);
                                  n = length bs;
                                  pad = (if n mod 4 \<noteq> 0 then 4 - n mod 4 else 0)
                              in case slice db 0 (pad + n) of
                                   None \<Rightarrow> None
                                 | Some out \<Rightarrow> Some (s, echo, 0, erase @ [Flash_write off out]))))
          | _ \<Rightarrow> Some (s, [], 8, [])))"

text \<open>Without a size, the checksum is read from the cursor of the \<open>silent\<close> field, which was never set
  if there is no such field; with one, the open region is used without a test that there is one.\<close>

definition ftp_verify :: "(u32 \<Rightarrow> u32 \<Rightarrow> u32) \<Rightarrow> request \<Rightarrow> ftp \<Rightarrow> (ftp \<times> int \<times> ftp_op list) option" where
  "ftp_verify chk r s =
     (let ok = (s, 0, run_callback s 0)
      in case get r ''size'' of
           None \<Rightarrow> (case (case get r ''silent'' of None \<Rightarrow> stale_int r | Some f \<Rightarrow> f_int f) of
               None \<Rightarrow> Some (s\<lparr>active := None\<rparr>, 8, [])
             | Some _ \<Rightarrow> Some ok)
         | Some f0 \<Rightarrow>
             (case get r ''crc'' of
                None \<Rightarrow> Some (s\<lparr>active := None\<rparr>, 8, [])
              | Some f1 \<Rightarrow>
                  (case (f_int f0, f_int f1) of
                     (Some sz, Some crc) \<Rightarrow>
                       (case the_region s of
                          None \<Rightarrow> None
                        | Some d \<Rightarrow>
                            (if chk (reg_offset d) sz \<noteq> crc then
                               Some (s\<lparr>active := None\<rparr>, 1, Checksum (reg_offset d) sz # run_callback s 1)
                             else Some (s, 0, Checksum (reg_offset d) sz # run_callback s 0)))
                   | _ \<Rightarrow> Some (s\<lparr>active := None\<rparr>, 8, []))))"

text \<open>An index or a count that does not read keeps the value the variable has: the unset one and 1.\<close>

definition ftp_read :: "(u32 \<Rightarrow> u32 \<Rightarrow> u32) \<Rightarrow> u32 \<Rightarrow> request \<Rightarrow> ftp \<Rightarrow> (string \<times> int) list \<times> int \<times> ftp_op list" where
  "ftp_read chk unset r s = (case the_region s of
       None \<Rightarrow> ([], 9, [])
     | Some d \<Rightarrow>
         (case get r ''index'' of
            None \<Rightarrow> ([], 8, [])
          | Some f \<Rightarrow>
              (if f_type f \<noteq> 0 then ([], 8, [])
               else
                 let idx = (case f_int f of None \<Rightarrow> unset | Some i \<Rightarrow> i);
                     cnt = (case int_field r ''n'' of None \<Rightarrow> 1 | Some n \<Rightarrow> n)
                 in if idx + cnt \<le> drop_bit 9 (reg_size d) then
                      (let off = reg_offset d + idx * 0x200; len = push_bit 9 cnt
                       in ([(''crc'', uint (chk off len))], 0, [Checksum off len]))
                    else ([], 8, []))))"

text \<open>\<open>silent\<close> holds only if the field is absent and the unset cursor is not zero.\<close>

definition ftp_silent :: "request \<Rightarrow> bool" where
  "ftp_silent r \<longleftrightarrow> get r ''silent'' = None \<and> stale_half r \<noteq> 0"

definition ftp_cmd :: "request \<Rightarrow> u32 option" where
  "ftp_cmd r = (if is_map r then Option.bind (get r ''cmd'') f_int else None)"

definition ftp_dispatch ::
  "(u32 \<Rightarrow> u32 \<Rightarrow> u32) \<Rightarrow> u32 \<Rightarrow> u32 \<Rightarrow> request \<Rightarrow> ftp \<Rightarrow> (ftp \<times> (string \<times> int) list \<times> int \<times> ftp_op list) option" where
  "ftp_dispatch chk unset cmd r s =
     (if cmd = 0 then ftp_open r s
      else if cmd = 1 then (let (s, ops) = ftp_close s in Some (s, [], 0, ops))
      else if cmd = 2 then ftp_write r s
      else if cmd = 3 then map_option (\<lambda>(s, st, ops). (s, [], st, ops)) (ftp_verify chk r s)
      else if cmd = 4 then Some (s, ftp_read chk unset r s)
      else Some (s, [], 7, []))"

definition ble_ftp_command_handler ::
  "(u32 \<Rightarrow> u32 \<Rightarrow> u32) \<Rightarrow> u32 \<Rightarrow> request \<Rightarrow> ftp \<Rightarrow> (ftp \<times> ftp_op list) option" where
  "ble_ftp_command_handler chk unset r s =
     (if \<not> reply_opens r then Some (s, [])
      else
        let reply = (\<lambda>cmd silent fs st. if reply_closes r \<and> \<not> silent
                       then [Reply (fs @ [(''cmd'', sint cmd), (''status'', st)])] else [])
        in case ftp_cmd r of
             None \<Rightarrow> Some (s, reply 0 False [] 6)
           | Some cmd \<Rightarrow>
               map_option (\<lambda>(s, fs, st, ops). (s, ops @ reply cmd (ftp_silent r) fs st))
                 (ftp_dispatch chk unset cmd r s))"

subsection \<open>The flash outside the regions is not touched\<close>

definition inside :: "region \<Rightarrow> u32 \<Rightarrow> nat \<Rightarrow> bool" where
  "inside d off n \<longleftrightarrow> unat (reg_offset d) \<le> unat off \<and> unat off + n \<le> unat (reg_offset d) + unat (reg_size d)"

definition confined :: "region list \<Rightarrow> ftp_op \<Rightarrow> bool" where
  "confined ds op = (case op of
       Flash_write off bs \<Rightarrow> \<exists>d \<in> set ds. inside d off (length bs)
     | Flash_erase off n \<Rightarrow> \<exists>d \<in> set ds. inside d off (unat n)
     | _ \<Rightarrow> True)"

text \<open>A region ends inside the address space; a region that is erased page by page is made of pages.\<close>

definition region_ok :: "region \<Rightarrow> bool" where
  "region_ok d \<longleftrightarrow> unat (reg_offset d) + unat (reg_size d) < 4294967296 \<and>
     (whole_erase d = 0 \<longrightarrow> 4096 dvd unat (reg_size d))"

definition ftp_ok :: "region list \<Rightarrow> ftp \<Rightarrow> bool" where
  "ftp_ok ds s \<longleftrightarrow> regions s = ds \<and> length (data_buf s) = 512"

lemma region_in: "the_region s = Some d \<Longrightarrow> d \<in> set (regions s)"
  by (auto simp: the_region_def split: option.splits if_splits)

lemma chunk_address:
  assumes "region_ok d" "idx < drop_bit 9 (reg_size d)"
  shows "unat (reg_offset d + idx * 0x200) = unat (reg_offset d) + unat idx * 512"
    "unat idx * 512 + 512 \<le> unat (reg_size d)"
proof -
  have "unat idx < unat (reg_size d) div 512"
    using assms(2) unat_drop [of 9 "reg_size d"] by (simp add: word_less_nat_alt)
  then have "unat idx * 512 + 512 \<le> unat (reg_size d) div 512 * 512" by linarith
  also have "\<dots> \<le> unat (reg_size d)" by simp
  finally show 1: "unat idx * 512 + 512 \<le> unat (reg_size d)" .
  have "unat (idx * 0x200) = unat idx * 512"
    using 1 assms(1) by (simp add: unat_word_ariths region_ok_def)
  then show "unat (reg_offset d + idx * 0x200) = unat (reg_offset d) + unat idx * 512"
    using unat_add_no_wrap [of "reg_offset d" "idx * 0x200"] 1 assms(1) by (simp add: region_ok_def)
qed

lemma page_fits:
  fixes i n :: nat
  assumes "i * 512 + 512 \<le> n" "i mod 8 = 0" "4096 dvd n"
  shows "i * 512 + 4096 \<le> n"
proof -
  obtain k where k: "n = 4096 * k" using assms(3) by (elim dvdE)
  have i: "i = 8 * (i div 8)" using mult_div_mod_eq [of 8 i] assms(2) by simp
  have "4096 * (i div 8) < 4096 * k" using assms(1) i k by linarith
  then have "i div 8 < k" by simp
  then have "i div 8 + 1 \<le> k" by simp
  then have "4096 * (i div 8 + 1) \<le> 4096 * k" by simp
  moreover have "i * 512 = 4096 * (i div 8)" using arg_cong [OF i, of "\<lambda>x. x * 512"] by simp
  ultimately show ?thesis using k by simp
qed

lemma low3: "unat (idx AND 7 :: u32) = unat idx mod 8"
  using unat_low [of idx 3] by (simp add: mask_eq_exp_minus_1)

lemma run_callback_confined: "\<forall>op \<in> set (run_callback s c). confined ds op"
  by (auto simp: run_callback_def confined_def split: option.splits)

lemma erase_region: "i < length ds \<Longrightarrow> confined ds (Flash_erase (reg_offset (ds ! i)) (reg_size (ds ! i)))"
  by (auto simp: confined_def inside_def intro!: bexI [of _ "ds ! i"])

lemma open_confined:
  assumes "ftp_open r s = Some (s', fs, st, ops)" "ftp_ok ds s" "\<forall>d \<in> set ds. region_ok d"
  shows "ftp_ok ds s' \<and> (\<forall>op \<in> set ops. confined ds op)"
  using assms
  by (auto simp: ftp_open_def ftp_ok_def Let_def intro!: erase_region split: if_splits option.splits)

lemma write_confined:
  assumes "ftp_write r s = Some (s', fs, st, ops)" "ftp_ok ds s" "\<forall>d \<in> set ds. region_ok d"
  shows "ftp_ok ds s' \<and> (\<forall>op \<in> set ops. confined ds op)"
proof (cases "the_region s")
  case None
  then show ?thesis using assms by (simp add: ftp_write_def)
next
  case (Some d)
  show ?thesis
  proof (cases "\<exists>idx f bs db. int_field r ''index'' = Some idx \<and> get r ''data'' = Some f \<and> f_copy f = Some bs \<and>
      f_type f = 0x40 \<and> blit (data_buf s) 0 bs = Some db")
    case False
    then have "s' = s" "ops = []" using assms(1) Some
      by (auto simp: ftp_write_def split: option.splits if_splits)
    then show ?thesis using assms(2) by simp
  next
    case True
    then obtain idx f bs db where r: "int_field r ''index'' = Some idx" "get r ''data'' = Some f"
      "f_copy f = Some bs" "f_type f = 0x40" "blit (data_buf s) 0 bs = Some db" by blast
    have ok': "ftp_ok ds (s\<lparr>data_buf := db\<rparr>)" using assms(2) blit_length [OF r(5)] by (simp add: ftp_ok_def)
    have d: "d \<in> set ds" "region_ok d" using region_in [OF Some] assms(2,3) by (auto simp: ftp_ok_def)
    show ?thesis
    proof (cases "drop_bit 9 (reg_size d) \<le> idx")
      case True
      then show ?thesis using assms(1) Some r ok' by (auto simp: ftp_write_def Let_def)
    next
      case False
      let ?off = "reg_offset d + idx * 0x200"
      let ?erase = "if whole_erase d = 0 \<and> idx AND 7 = 0 then [Flash_erase ?off 0x1000] else []"
      obtain out where o: "slice db 0 ((if length bs mod 4 \<noteq> 0 then 4 - length bs mod 4 else 0) + length bs) = Some out"
        "s' = s\<lparr>data_buf := db\<rparr>" "ops = ?erase @ [Flash_write ?off out]"
        using assms(1) Some r False by (auto simp: ftp_write_def Let_def split: option.splits)
      have "idx < drop_bit 9 (reg_size d)" using False by simp
      note a = chunk_address [OF d(2) this]
      have "length out \<le> 512"
        using o(1) blit_length [OF r(5)] assms(2) by (auto simp: slice_def ftp_ok_def split: if_splits)
      then have "inside d ?off (length out)" using a by (simp add: inside_def)
      moreover have "inside d ?off 4096" if "whole_erase d = 0" "idx AND 7 = 0"
      proof -
        have "unat idx mod 8 = 0" using that(2) low3 [of idx] by simp
        from page_fits [OF a(2) this] show ?thesis using d(2) that(1) a(1) by (simp add: region_ok_def inside_def)
      qed
      ultimately show ?thesis using o(2,3) ok' d(1) by (auto simp: confined_def)
    qed
  qed
qed

lemma handler_confined:
  assumes "ble_ftp_command_handler chk unset r s = Some (s', ops)" "ftp_ok ds s" "\<forall>d \<in> set ds. region_ok d"
  shows "ftp_ok ds s' \<and> (\<forall>op \<in> set ops. confined ds op)"
proof (cases "reply_opens r \<and> ftp_cmd r \<noteq> None")
  case False
  then show ?thesis using assms(1,2) by (auto simp: ble_ftp_command_handler_def Let_def confined_def split: if_splits)
next
  case True
  then obtain cmd where c: "ftp_cmd r = Some cmd" by blast
  obtain fs st o1 where d: "ftp_dispatch chk unset cmd r s = Some (s', fs, st, o1)"
    and ops: "set ops \<subseteq> set o1 \<union> {Reply (fs @ [(''cmd'', sint cmd), (''status'', st)])}"
  proof -
    obtain q where q: "ftp_dispatch chk unset cmd r s = Some q"
      using assms(1) True c by (auto simp: ble_ftp_command_handler_def Let_def)
    obtain s2 fs st o1 where q4: "q = (s2, fs, st, o1)" by (metis surj_pair)
    have "s2 = s'" "set ops \<subseteq> set o1 \<union> {Reply (fs @ [(''cmd'', sint cmd), (''status'', st)])}"
      using assms(1) True c q by (auto simp: ble_ftp_command_handler_def Let_def q4)
    then show thesis using that q q4 by blast
  qed
  have "ftp_ok ds s' \<and> (\<forall>op \<in> set o1. confined ds op)"
  proof -
    consider "cmd = 0" | "cmd = 1" | "cmd = 2" | "cmd = 3" | "cmd = 4" | "cmd \<notin> {0, 1, 2, 3, 4}" by blast
    then show ?thesis
    proof cases
      case 1
      then show ?thesis using d open_confined [OF _ assms(2,3)] by (simp add: ftp_dispatch_def)
    next
      case 2
      then show ?thesis using d assms(2) run_callback_confined
        by (auto simp: ftp_dispatch_def ftp_close_def ftp_ok_def)
    next
      case 3
      then show ?thesis using d write_confined [OF _ assms(2,3)] by (simp add: ftp_dispatch_def)
    next
      case 4
      then show ?thesis using d assms(2) run_callback_confined
        by (auto simp: ftp_dispatch_def ftp_verify_def ftp_ok_def confined_def Let_def split: option.splits if_splits)
    next
      case 5
      then show ?thesis using d assms(2)
        by (auto simp: ftp_dispatch_def ftp_read_def confined_def Let_def split: option.splits if_splits)
    next
      case 6
      then show ?thesis using d assms(2) by (simp add: ftp_dispatch_def)
    qed
  qed
  then show ?thesis using ops by (auto simp: confined_def)
qed

fun ftp_run :: "(u32 \<Rightarrow> u32 \<Rightarrow> u32) \<Rightarrow> u32 \<Rightarrow> request list \<Rightarrow> ftp \<Rightarrow> (ftp \<times> ftp_op list) option" where
  "ftp_run chk unset [] s = Some (s, [])"
| "ftp_run chk unset (r # rs) s = (case ble_ftp_command_handler chk unset r s of
       None \<Rightarrow> None
     | Some (s, ops) \<Rightarrow> map_option (\<lambda>(s, more). (s, ops @ more)) (ftp_run chk unset rs s))"

text \<open>
  C11.  Over any sequence of transfer requests, whatever they contain and in
  whatever order, every erase and every write that reaches the flash lies inside one of the
  regions of the table, provided the regions end inside the address space and those that are
  erased page by page are made of whole pages.
\<close>

theorem transfer_confined:
  assumes "\<forall>d \<in> set (regions s). region_ok d" "length (data_buf s) = 512"
    and "ftp_run chk unset rs s = Some (s', ops)" "op \<in> set ops"
  shows "confined (regions s) op"
proof -
  have "ftp_ok ds s \<Longrightarrow> \<forall>d \<in> set ds. region_ok d \<Longrightarrow> ftp_run chk unset rs s = Some (s', ops) \<Longrightarrow>
    \<forall>op \<in> set ops. confined ds op" for ds s s' ops
  proof (induction rs arbitrary: s ops)
    case (Cons r rs)
    obtain s1 o1 o2 where 1: "ble_ftp_command_handler chk unset r s = Some (s1, o1)"
      "ftp_run chk unset rs s1 = Some (s', o2)" "ops = o1 @ o2"
      using Cons.prems(3) by (auto split: option.splits)
    from handler_confined [OF 1(1) Cons.prems(1,2)] Cons.IH [OF _ Cons.prems(2) 1(2)] show ?case
      using 1(3) by auto
  qed simp
  then show ?thesis using assms by (auto simp: ftp_ok_def)
qed

definition demo_region :: "u8 \<Rightarrow> u32 \<Rightarrow> region" where
  "demo_region flag off = \<lparr>whole_erase = flag, reg_offset = off, reg_size = 0x10000, has_callback = True\<rparr>"

definition demo_ftp :: ftp where
  "demo_ftp = \<lparr>regions = [demo_region 0 0x20000, demo_region 1 0x80000], active = None,
     name_buf = replicate 32 0, data_buf = replicate 512 0\<rparr>"

definition number :: "u32 \<Rightarrow> field" where
  "number n = \<lparr>f_type = 0, f_int = Some n, f_len = None, f_copy = None\<rparr>"

definition demo_request :: "(string \<times> field) list \<Rightarrow> request" where
  "demo_request fs = \<lparr>reply_opens = True, reply_closes = True, is_map = True, get = map_of fs,
     stale_half = 0, stale_int = None\<rparr>"

definition demo_session :: "request list" where
  "demo_session =
     [demo_request [(''cmd'', number 0), (''size'', number 0x8000),
        (''name'', \<lparr>f_type = 0x60, f_int = None, f_len = Some 10, f_copy = Some FTP_STR_APP_UPDATE\<rparr>)],
      demo_request [(''cmd'', number 2), (''index'', number 8),
        (''data'', \<lparr>f_type = 0x40, f_int = None, f_len = Some 3, f_copy = Some [1, 2, 3]\<rparr>)]]"

lemma demo_run:
  "\<exists>s' ops. ftp_run (\<lambda>a n. 0) 0 demo_session demo_ftp = Some (s', ops) \<and>
     Flash_write 0x21000 [1, 2, 3, 0] \<in> set ops \<and> Flash_erase 0x21000 0x1000 \<in> set ops"
  by (simp add: demo_session_def demo_request_def number_def ble_ftp_command_handler_def ftp_cmd_def
      ftp_dispatch_def ftp_open_def ftp_write_def demo_ftp_def demo_region_def int_field_def blit_def slice_def
      name_is_def FTP_STR_APP_UPDATE_def the_region_def ftp_silent_def Let_def)

theorem transfer_confined_witness:
  "\<exists>s' ops. ftp_run (\<lambda>a n. 0) 0 demo_session demo_ftp = Some (s', ops) \<and>
     Flash_write 0x21000 [1, 2, 3, 0] \<in> set ops \<and> confined (regions demo_ftp) (Flash_write 0x21000 [1, 2, 3, 0])"
proof -
  obtain s' ops where 1: "ftp_run (\<lambda>a n. 0) 0 demo_session demo_ftp = Some (s', ops)"
    "Flash_write 0x21000 [1, 2, 3, 0] \<in> set ops" using demo_run by blast
  have "\<forall>d \<in> set (regions demo_ftp). region_ok d" by (simp add: demo_ftp_def demo_region_def region_ok_def)
  moreover have "length (data_buf demo_ftp) = 512" by (simp add: demo_ftp_def)
  ultimately have "confined (regions demo_ftp) (Flash_write 0x21000 [1, 2, 3, 0])"
    by (rule transfer_confined [OF _ _ 1])
  then show ?thesis using 1 by blast
qed

subsection \<open>The read-back guard\<close>

text \<open>The blocks of a read-back are inside the region when the sum of index and count does not wrap; when
  it wraps the guard lets blocks through that are not.\<close>

lemma read_guard_inside:
  assumes "the_region s = Some d" "region_ok d"
    and "int_field r ''index'' = Some idx" "int_field r ''n'' = Some cnt"
    and "ftp_read chk unset r s = (fs, st, [Checksum off len])" "unat idx + unat cnt < 4294967296"
  shows "inside d off (unat len)"
proof -
  obtain f where f: "get r ''index'' = Some f" "f_type f = 0" "f_int f = Some idx"
    using assms(3) by (auto simp: int_field_def split: option.splits if_splits)
  have g: "idx + cnt \<le> drop_bit 9 (reg_size d)" "off = reg_offset d + idx * 0x200" "len = push_bit 9 cnt"
    using assms(1,4,5) f by (auto simp: ftp_read_def Let_def split: if_splits)
  have "unat idx + unat cnt \<le> unat (reg_size d) div 512"
    using g(1) unat_add_no_wrap [OF assms(6)] unat_drop [of 9 "reg_size d"] by (simp add: word_le_nat_alt)
  then have b: "unat idx * 512 + unat cnt * 512 \<le> unat (reg_size d)" by linarith
  have w: "unat (idx * 0x200) = unat idx * 512" "unat (push_bit 9 cnt) = unat cnt * 512"
    using b assms(2) by (simp_all add: unat_word_ariths region_ok_def push_bit_eq_mult)
  have "unat off = unat (reg_offset d) + unat idx * 512"
    using unat_add_no_wrap [of "reg_offset d" "idx * 0x200"] w(1) b assms(2) g(2) by (simp add: region_ok_def)
  then show ?thesis using b w(2) g(3) by (simp add: inside_def)
qed

lemma read_guard_wraps:
  "ftp_read (\<lambda>a n. 7) 0 (demo_request [(''index'', number 0xffffffff), (''n'', number 1)]) (demo_ftp\<lparr>active := Some 0\<rparr>) =
     ([(''crc'', 7)], 0, [Checksum 0x1fe00 0x200]) \<and> \<not> inside (demo_region 0 0x20000) 0x1fe00 0x200"
  by (simp add: ftp_read_def demo_request_def number_def demo_ftp_def demo_region_def the_region_def
      int_field_def inside_def Let_def)

end
