(* ===== verification/BleConnect.thy ===== *)
theory BleConnect
  imports BleAuth
begin

text \<open>
  The connect payload and the characteristic values of the BLE controller
  (\<open>src/ble/src/ble_connect.c\<close>, \<open>ble_char.c\<close>, \<open>settings.c\<close>) and the dispatch of
  requests by command id (\<open>ble_message.c\<close>).  Signing, the GATT slot and the publish bus are
  vendor code.
\<close>

datatype ble_op =
    Sign bytes
  | Sent
  | Status_msg
  | Publish_value string bytes
  | Publish_clear string
  | Id_event bytes
  | Announce u16
  | Call u32 u16 u32

record connect_env =
  link_clear :: int
  link_ready :: int
  sign_rc :: int
  reserve_rc :: int
  send_rc :: int

record ble_state =
  connect_state :: u8
  fsm_mode :: u8
  payload_len :: nat
  payload_buf :: bytes
  ecu_serial :: bytes
  pub_key_value :: bytes
  bike_id_buf :: bytes
  settings_pub_key :: bytes
  auth_copy :: auth_tables

definition ble_connect_clear_adv_flag :: "connect_env \<Rightarrow> ble_state \<Rightarrow> ble_state" where
  "ble_connect_clear_adv_flag e s = (if link_clear e = 0 then s\<lparr>connect_state := 0\<rparr> else s)"

definition ble_connect_set_ready_flag :: "connect_env \<Rightarrow> ble_state \<Rightarrow> ble_state" where
  "ble_connect_set_ready_flag e s = (if link_ready e = 0 then s\<lparr>connect_state := 1\<rparr> else s)"

definition ble_send_signed_connect_payload ::
  "connect_env \<Rightarrow> bytes \<Rightarrow> bytes \<Rightarrow> ble_state \<Rightarrow> ble_state \<times> ble_op list" where
  "ble_send_signed_connect_payload e data prefix s =
     (let s = (if connect_state s \<noteq> 0 then ble_connect_clear_adv_flag e s else s)
      in if sign_rc e = 0 \<and> reserve_rc e = 0 \<and> send_rc e = 0
         then (ble_connect_set_ready_flag e s, [Sign (prefix @ data), Sent])
         else (s, [Sign (prefix @ data)]))"

text \<open>The prefixes of the two links.\<close>

definition url :: "string \<Rightarrow> bytes" where
  "url t = map (\<lambda>c. of_nat (of_char c)) t"

definition BLE_CONNECT_URL_BIKE_ID :: bytes where "BLE_CONNECT_URL_BIKE_ID = url ''vmf://connect?bike_id=''"

definition BLE_CONNECT_URL_ECU :: bytes where "BLE_CONNECT_URL_ECU = url ''vmf://connect?main_ecu_serial=''"

text \<open>The state machine of the handshake; a message of another class traps.\<close>

definition ble_connect_state_machine ::
  "connect_env \<Rightarrow> bool \<Rightarrow> u8 \<Rightarrow> ble_state \<Rightarrow> (ble_state \<times> ble_op list) option" where
  "ble_connect_state_machine e is_class mode s =
     (if \<not> is_class then None
      else if mode = 3 then Some (s\<lparr>fsm_mode := 1\<rparr>, [])
      else if mode = 4 then Some (if fsm_mode s = 1 then s\<lparr>fsm_mode := 2\<rparr> else s, [])
      else if mode = 2 then
        (if fsm_mode s \<noteq> 2 then Some (s, [])
         else
           let (s, ops) = ble_send_signed_connect_payload e (take (payload_len s) (payload_buf s))
                            BLE_CONNECT_URL_BIKE_ID s
           in Some (s\<lparr>fsm_mode := 0\<rparr>, ops @ [Status_msg]))
      else Some (s, []))"

definition stage_payload :: "bytes \<Rightarrow> nat \<Rightarrow> ble_state \<Rightarrow> ble_state" where
  "stage_payload src len s =
     s\<lparr>payload_len := len, payload_buf := take 32 (take (min len 32) src @ replicate 32 0)\<rparr>"

definition ble_advertise_bike_id_payload :: "connect_env \<Rightarrow> bytes \<Rightarrow> nat \<Rightarrow> ble_state \<Rightarrow> ble_state \<times> ble_op list" where
  "ble_advertise_bike_id_payload e src len s =
     ble_send_signed_connect_payload e (take len src) BLE_CONNECT_URL_ECU (stage_payload src len s)"

definition ble_advertise_ecu_serial_payload :: "connect_env \<Rightarrow> bytes \<Rightarrow> nat \<Rightarrow> ble_state \<Rightarrow> ble_state \<times> ble_op list" where
  "ble_advertise_ecu_serial_payload e src len s =
     ble_send_signed_connect_payload e (take len src) BLE_CONNECT_URL_BIKE_ID (stage_payload src len s)"

subsection \<open>Characteristic values\<close>

text \<open>The first \<open>n\<close> bytes of two buffers.\<close>

definition same_prefix :: "nat \<Rightarrow> bytes \<Rightarrow> bytes \<Rightarrow> bool" where
  "same_prefix n a b \<longleftrightarrow> take n a = take n b"

definition padded :: "nat \<Rightarrow> bytes \<Rightarrow> nat \<Rightarrow> bytes" where
  "padded cap src len = take len src @ replicate (cap - len) 0"

text \<open>The result of the publish is \<open>rc\<close>.\<close>

definition ble_char_write_value_26 :: "int \<Rightarrow> bytes \<Rightarrow> nat \<Rightarrow> ble_state \<Rightarrow> int \<times> ble_state \<times> ble_op list" where
  "ble_char_write_value_26 rc src len s =
     (if 0xe \<le> len then (-0x16, s, [])
      else if same_prefix len (ecu_serial s) src then (0, s, [])
      else let v = padded 13 src len
           in (rc, s\<lparr>ecu_serial := v\<rparr>, [Publish_value ''vm/ecu_serial'' v]))"

definition ble_build_const_response_13 :: "ble_state \<Rightarrow> bytes" where
  "ble_build_const_response_13 s = take 13 (ecu_serial s)"

definition ble_send_32byte_value :: "bytes \<Rightarrow> ble_state \<Rightarrow> ble_state \<times> ble_op list" where
  "ble_send_32byte_value src s =
     (if same_prefix 32 (pub_key_value s) src then (s, [])
      else let v = take 32 src in (s\<lparr>pub_key_value := v\<rparr>, [Publish_value ''vm/pub_key'' v]))"

definition ble_char_write_value_13 :: "int \<Rightarrow> bytes \<Rightarrow> nat \<Rightarrow> ble_state \<Rightarrow> int \<times> ble_state \<times> ble_op list" where
  "ble_char_write_value_13 rc src len s =
     (if 0xe \<le> len then (-0x16, s, [])
      else if len \<noteq> 0 \<and> same_prefix len (bike_id_buf s) src then (0, s, [])
      else let v = padded 13 src len; s = s\<lparr>bike_id_buf := v\<rparr>
           in if len = 0 then (rc, s, [Publish_clear ''vm/bike_id''])
              else (rc, s, [Publish_value ''vm/bike_id'' v]))"

definition ble_bike_id_present :: "ble_state \<Rightarrow> bool" where
  "ble_bike_id_present s \<longleftrightarrow> bike_id_buf s ! 0 \<noteq> 0"

definition fill :: "bytes \<Rightarrow> bytes \<Rightarrow> bytes" where
  "fill old new = take (length old) new @ drop (length new) old"

text \<open>The settings that are published on the bus are read back by path: the key that the first segment
  names, whether the path ends there, and what the write callback returns and stores.\<close>

definition settings_read_property_by_path ::
  "string \<Rightarrow> bool \<Rightarrow> int \<times> bytes \<Rightarrow> ble_state \<Rightarrow> int \<times> ble_state" where
  "settings_read_property_by_path seg has_rest cb s =
     (let n = length seg;
          is_key = (\<lambda>k. seg = take n k);
          result = (if fst cb < 0 then fst cb else 0)
      in if has_rest then (0, s)
         else if is_key ''ecu_serial'' then (result, s\<lparr>ecu_serial := fill (ecu_serial s) (snd cb)\<rparr>)
         else if is_key ''pub_key'' then
           (let s = s\<lparr>settings_pub_key := fill (settings_pub_key s) (snd cb)\<rparr>
            in if fst cb < 0 then (fst cb, s)
               else (0, s\<lparr>auth_copy := auth_copy_pubkey_32 (settings_pub_key s) (auth_copy s)\<rparr>))
         else if is_key ''bike_id'' then (result, s\<lparr>bike_id_buf := fill (bike_id_buf s) (snd cb)\<rparr>)
         else (0, s))"

text \<open>The advertisement: the three value buffers are cleared and filled again by the bus, which is the
  argument \<open>refill\<close>.\<close>

definition ble_build_connect_advert_payload ::
  "connect_env \<Rightarrow> (ble_state \<Rightarrow> u32 \<times> ble_state) \<Rightarrow> ble_state \<Rightarrow> u32 \<times> ble_state \<times> ble_op list" where
  "ble_build_connect_advert_payload e refill s =
     (let s = s\<lparr>settings_pub_key := replicate 32 0, ecu_serial := replicate 13 0, bike_id_buf := replicate 13 0\<rparr>;
          (rc, s) = refill s;
          (s, ops) = (if \<not> ble_bike_id_present s then ble_advertise_bike_id_payload e (ecu_serial s) 0xd s
                      else ble_advertise_ecu_serial_payload e (bike_id_buf s) 0xd
                             (s\<lparr>auth_copy := auth_copy_bike_id (bike_id_buf s) 0xd (auth_copy s)\<rparr>))
      in (rc, s, ops @ [Id_event (take 0xd (ecu_serial s))]))"

subsection \<open>Requests by command id\<close>

record cmd_entry =
  entry_id :: u16
  entry_handler :: u32
  entry_arg :: u32

definition ble_announce_command_id :: "u16 \<Rightarrow> ble_op" where
  "ble_announce_command_id i = Announce i"

text \<open>A parsed request: whether it is a map, the id as an integer or as a converted double, and the
  subscribe flag.\<close>

definition ble_message_dispatch_by_id ::
  "cmd_entry list \<Rightarrow> cmd_entry list \<Rightarrow> u32 \<Rightarrow> bool \<Rightarrow> u32 option \<Rightarrow> u32 option \<Rightarrow> u32 \<Rightarrow> ble_op list" where
  "ble_message_dispatch_by_id broadcast table ctx is_map int_id double_id sub_flag =
     (if \<not> is_map then []
      else case (case int_id of Some i \<Rightarrow> Some i | None \<Rightarrow> double_id) of
        None \<Rightarrow> []
      | Some cmd \<Rightarrow>
          (let ident = (ucast cmd :: u16)
           in (if sub_flag AND 0xff \<noteq> 0 then map (\<lambda>e. ble_announce_command_id (entry_id e)) broadcast else []) @
              map (\<lambda>e. Call (entry_arg e) ident ctx) (filter (\<lambda>e. entry_id e = ident) table)))"

subsection \<open>The handshake\<close>

fun handshake :: "(connect_env \<times> u8) list \<Rightarrow> ble_state \<Rightarrow> ble_state \<times> ble_op list" where
  "handshake [] s = (s, [])"
| "handshake ((e, mode) # ms) s = (case ble_connect_state_machine e True mode s of
       None \<Rightarrow> (s, [])
     | Some (s, ops) \<Rightarrow> (let (s, more) = handshake ms s in (s, ops @ more)))"

text \<open>The mode of the machine as a function of the messages alone.\<close>

definition next_mode :: "u8 \<Rightarrow> u8 \<Rightarrow> u8" where
  "next_mode m mode = (if mode = 3 then 1 else if mode = 4 \<and> m = 1 then 2 else if mode = 2 \<and> m = 2 then 0 else m)"

definition signs :: "u8 \<Rightarrow> u8 \<Rightarrow> bool" where "signs m mode \<longleftrightarrow> mode = 2 \<and> m = 2"

lemma signed_send_frame:
  "fsm_mode (fst (ble_send_signed_connect_payload e data prefix s)) = fsm_mode s"
  "payload_buf (fst (ble_send_signed_connect_payload e data prefix s)) = payload_buf s"
  "payload_len (fst (ble_send_signed_connect_payload e data prefix s)) = payload_len s"
  by (simp_all add: ble_send_signed_connect_payload_def ble_connect_set_ready_flag_def
      ble_connect_clear_adv_flag_def Let_def)

lemma machine_step:
  "\<exists>s' ops. ble_connect_state_machine e True mode s = Some (s', ops) \<and>
     fsm_mode s' = next_mode (fsm_mode s) mode \<and> payload_buf s' = payload_buf s \<and> payload_len s' = payload_len s \<and>
     filter (\<lambda>op. \<exists>b. op = Sign b) ops =
       (if signs (fsm_mode s) mode then [Sign (BLE_CONNECT_URL_BIKE_ID @ take (payload_len s) (payload_buf s))] else [])"
proof (cases "mode = 2 \<and> fsm_mode s = 2")
  case True
  obtain s1 ops where 1: "ble_send_signed_connect_payload e (take (payload_len s) (payload_buf s))
    BLE_CONNECT_URL_BIKE_ID s = (s1, ops)" by fastforce
  have "filter (\<lambda>op. \<exists>b. op = Sign b) ops = [Sign (BLE_CONNECT_URL_BIKE_ID @ take (payload_len s) (payload_buf s))]"
    using 1 by (auto simp: ble_send_signed_connect_payload_def Let_def split: if_splits)
  then show ?thesis
    using True 1 signed_send_frame [of e "take (payload_len s) (payload_buf s)" BLE_CONNECT_URL_BIKE_ID s]
    by (simp add: ble_connect_state_machine_def next_mode_def signs_def)
next
  case False
  then show ?thesis by (auto simp: ble_connect_state_machine_def next_mode_def signs_def)
qed

text \<open>The number of signed payloads, and what they carry.\<close>

fun sign_count :: "u8 \<Rightarrow> u8 list \<Rightarrow> nat" where
  "sign_count m [] = 0"
| "sign_count m (mode # ms) = (if signs m mode then 1 else 0) + sign_count (next_mode m mode) ms"

lemma handshake_signs:
  "filter (\<lambda>op. \<exists>b. op = Sign b) (snd (handshake ms s)) =
     replicate (sign_count (fsm_mode s) (map snd ms))
       (Sign (BLE_CONNECT_URL_BIKE_ID @ take (payload_len s) (payload_buf s)))"
proof (induction ms arbitrary: s)
  case (Cons m ms)
  obtain e mode where m: "m = (e, mode)" by fastforce
  obtain s1 ops where 1: "ble_connect_state_machine e True mode s = Some (s1, ops)"
    "fsm_mode s1 = next_mode (fsm_mode s) mode" "payload_buf s1 = payload_buf s" "payload_len s1 = payload_len s"
    "filter (\<lambda>op. \<exists>b. op = Sign b) ops =
       (if signs (fsm_mode s) mode then [Sign (BLE_CONNECT_URL_BIKE_ID @ take (payload_len s) (payload_buf s))] else [])"
    using machine_step by blast
  obtain s2 more where 2: "handshake ms s1 = (s2, more)" by fastforce
  show ?case using 1 Cons.IH [of s1] by (simp add: m 2)
qed simp

lemma sign_count_begins: "sign_count m ms \<le> count_list ms 3 + (if m = 1 \<or> m = 2 then 1 else 0)"
proof (induction ms arbitrary: m)
  case (Cons mode ms)
  show ?case using Cons.IH [of "next_mode m mode"]
    by (auto simp: next_mode_def signs_def split: if_splits)
qed simp

text \<open>From the idle machine, no more payloads are signed than handshakes were begun, and each of them
  is the staged bike id behind its link.\<close>

theorem handshake_bound:
  assumes "fsm_mode s = 0"
  shows "\<exists>n \<le> count_list (map snd ms) 3.
    filter (\<lambda>op. \<exists>b. op = Sign b) (snd (handshake ms s)) =
      replicate n (Sign (BLE_CONNECT_URL_BIKE_ID @ take (payload_len s) (payload_buf s)))"
  using handshake_signs [of ms s] sign_count_begins [of 0 "map snd ms"] assms by auto

end
