(* ===== verification/C2000.thy ===== *)
theory C2000
  imports Prelude
begin

text \<open>
  The flasher of the motor controller, \<open>main/motor_update_lib/src/c2000_flash.c\<close> and the
  sequence \<open>run_flash\<close> of its \<open>main.c\<close>: boot mode, automatic baud rate, the kernel sent
  byte by byte against its echo, and the application sent in checksummed blocks.

  What the serial port answers is an argument: \<open>rd n\<close> is the result of the \<open>n\<close>-th read,
  \<open>None\<close> a time-out.  Writes, flushes, pins, delays and console lines are logged in order.  The
  loops over the blocks are partial functions: a block of 0x8000 words or more never ends, because
  its bytes are counted in sixteen bits.
\<close>

subsection \<open>Serial port, pins and image\<close>

datatype op = Put u8 | Flush | Export nat | Pin nat nat | Sleep_ms nat | Say string | Progress nat nat

record flasher =
  ops :: "op list"
  reads :: nat
  last_error :: string
  inited :: bool

definition log_op :: "op \<Rightarrow> flasher \<Rightarrow> flasher" where
  "log_op x f = f\<lparr>ops := ops f @ [x]\<rparr>"

definition fail :: "string \<Rightarrow> flasher \<Rightarrow> int \<times> flasher" where
  "fail msg f = (-1, f\<lparr>last_error := msg\<rparr>)"

definition serial_write_byte :: "u8 \<Rightarrow> flasher \<Rightarrow> flasher" where
  "serial_write_byte b f = log_op (Put b) f"

definition serial_write :: "bytes \<Rightarrow> flasher \<Rightarrow> flasher" where
  "serial_write bs f = f\<lparr>ops := ops f @ map Put bs\<rparr>"

definition serial_flush :: "flasher \<Rightarrow> flasher" where
  "serial_flush f = log_op Flush f"

definition serial_read_byte :: "(nat \<Rightarrow> u8 option) \<Rightarrow> flasher \<Rightarrow> u8 option \<times> flasher" where
  "serial_read_byte rd f = (rd (reads f), f\<lparr>reads := Suc (reads f)\<rparr>)"

text \<open>A word, lowest byte first; a byte that does not come in time counts as zero.\<close>

definition or_zero :: "u8 option \<Rightarrow> u8" where
  "or_zero x = (case x of None \<Rightarrow> 0 | Some b \<Rightarrow> b)"

definition serial_read_word :: "(nat \<Rightarrow> u8 option) \<Rightarrow> flasher \<Rightarrow> u16 \<times> flasher" where
  "serial_read_word rd f =
     (let (lo, f) = serial_read_byte rd f; (hi, f) = serial_read_byte rd f
      in (rd16 (or_zero lo) (or_zero hi), f))"

definition gpio_export_output :: "nat \<Rightarrow> flasher \<Rightarrow> flasher" where
  "gpio_export_output pin f = log_op (Export pin) f"

definition gpio_set :: "nat \<Rightarrow> nat \<Rightarrow> flasher \<Rightarrow> flasher" where
  "gpio_set pin v f = log_op (Pin pin (if v \<noteq> 0 then 1 else 0)) f"

definition c2000_set_boot_mode :: "nat \<Rightarrow> flasher \<Rightarrow> flasher" where
  "c2000_set_boot_mode mode f =
     (if mode \<noteq> 0 \<and> mode \<noteq> 1 then f\<lparr>last_error := ''Unsupported C2000 Boot Mode''\<rparr>
      else
        let f = (if inited f then f
                 else (gpio_export_output 126 (gpio_export_output 125 (gpio_export_output 12 f)))\<lparr>inited := True\<rparr>);
            f = gpio_set 125 1 (gpio_set 126 mode (gpio_set 12 1 f))
        in gpio_set 12 0 (log_op (Sleep_ms 20) f))"

record image =
  idata :: bytes
  ipos :: nat
  ok :: bool

text \<open>Opening an image: the contents of the file, or \<open>None\<close> when it cannot be opened and read in
  full; the flag tells whether the object itself could be allocated.\<close>

definition c2000_image_open :: "bool \<Rightarrow> bytes option \<Rightarrow> image option" where
  "c2000_image_open alloc file =
     (if \<not> alloc then None
      else Some (case file of
          None \<Rightarrow> \<lparr>idata = [], ipos = 0, ok = False\<rparr>
        | Some bs \<Rightarrow> if bs = [] then \<lparr>idata = [], ipos = 0, ok = False\<rparr>
                     else \<lparr>idata = bs, ipos = 0, ok = True\<rparr>))"

definition c2000_image_ok :: "image option \<Rightarrow> bool" where
  "c2000_image_ok img = (case img of None \<Rightarrow> False | Some i \<Rightarrow> ok i)"

definition image_read :: "nat \<Rightarrow> image \<Rightarrow> bytes \<times> image" where
  "image_read n img =
     (let n = min n (length (idata img) - ipos img)
      in (take n (drop (ipos img) (idata img)), img\<lparr>ipos := ipos img + n\<rparr>))"

definition image_eof :: "image \<Rightarrow> bool" where
  "image_eof img \<longleftrightarrow> length (idata img) \<le> ipos img"

subsection \<open>Baud rate and kernel\<close>

text \<open>The last answer is kept when a read times out.\<close>

fun autobaud_tries :: "(nat \<Rightarrow> u8 option) \<Rightarrow> nat \<Rightarrow> u8 \<Rightarrow> flasher \<Rightarrow> int \<times> flasher" where
  "autobaud_tries rd 0 resp f = fail ''baud rate detection failed'' f"
| "autobaud_tries rd (Suc tries) resp f =
     (let f = serial_write_byte 0x41 (serial_flush (log_op (Sleep_ms 100) f));
          (r, f) = serial_read_byte rd f;
          resp = (case r of None \<Rightarrow> resp | Some b \<Rightarrow> b)
      in if resp = 0x41 then (0, f) else autobaud_tries rd tries resp f)"

definition c2000_autobaud :: "(nat \<Rightarrow> u8 option) \<Rightarrow> flasher \<Rightarrow> int \<times> flasher" where
  "c2000_autobaud rd f = autobaud_tries rd 50 0 f"

function send_kernel_loop ::
  "(nat \<Rightarrow> u8 option) \<Rightarrow> bool \<Rightarrow> nat \<Rightarrow> image \<Rightarrow> flasher \<Rightarrow> int \<times> image \<times> flasher" where
  "send_kernel_loop rd cb sent img f =
     (if image_eof img then (0, img, f)
      else
        let (bs, img') = image_read 1 img; b = bs ! 0;
            f = serial_write_byte b f;
            f = (if cb then log_op (Progress (sent + 1) (length (idata img'))) f else f)
        in if image_eof img' then (0, img', f)
           else
             let (echo, f) = serial_read_byte rd f
             in if echo \<noteq> Some b then (let (rc, f) = fail ''failed'' f in (rc, img', f))
                else send_kernel_loop rd cb (if cb then sent + 1 else sent) img' f)"
  by pat_completeness auto

termination
  by (relation "measure (\<lambda>(rd, cb, sent, img, f). length (idata img) - ipos img)")
    (auto simp: image_eof_def image_read_def Let_def)

definition c2000_send_kernel ::
  "(nat \<Rightarrow> u8 option) \<Rightarrow> bool \<Rightarrow> image \<Rightarrow> flasher \<Rightarrow> int \<times> image \<times> flasher" where
  "c2000_send_kernel rd cb img f = send_kernel_loop rd cb 0 img f"

subsection \<open>The application\<close>

definition k_dfu_start :: bytes where
  "k_dfu_start = [0xe4, 0x1b, 0x00, 0x00, 0x00, 0x01, 0x01, 0x00, 0x1b, 0xe4]"

text \<open>The locals of \<open>c2000_flash_app\<close> that live across the blocks.\<close>

record dfu =
  link :: flasher
  app :: image
  last_byte :: u8
  csum :: u16
  hdr :: bytes

text \<open>One byte of a block; at the end of the image the previous byte is sent again.\<close>

definition dfu_byte :: "dfu \<Rightarrow> dfu" where
  "dfu_byte d =
     (let (bs, img) = image_read 1 (app d);
          b = (if bs = [] then last_byte d else bs ! 0)
      in d\<lparr>app := img, last_byte := b, link := serial_write_byte b (link d), csum := csum d + ucast b\<rparr>)"

definition dfu_check :: "(nat \<Rightarrow> u8 option) \<Rightarrow> dfu \<Rightarrow> bool \<times> dfu" where
  "dfu_check rd d =
     (let (w, f) = serial_read_word rd (serial_flush (link d))
      in (csum d = w, d\<lparr>link := f\<rparr>))"

partial_function (option) dfu_bytes ::
  "(nat \<Rightarrow> u8 option) \<Rightarrow> u16 \<Rightarrow> u16 \<Rightarrow> dfu \<Rightarrow> (bool \<times> dfu) option" where
  [code]: "dfu_bytes rd words i d =
     (let d = dfu_byte d; i = i + 1
      in if unat words * 2 \<le> unat i then Some (True, d)
         else if i \<noteq> 0 \<and> i AND 0xff = 0 then
           (let (agreed, d) = dfu_check rd d
            in if agreed then dfu_bytes rd words i d else Some (False, d))
         else dfu_bytes rd words i d)"

text \<open>The next header: what the image has left of six bytes replaces the front of the previous one.\<close>

definition dfu_header :: "dfu \<Rightarrow> dfu" where
  "dfu_header d =
     (let (bs, img) = image_read 6 (app d);
          h = bs @ drop (length bs) (hdr d)
      in d\<lparr>app := img, hdr := h, link := serial_write h (link d),
           csum := csum d + sum_list (map ucast h)\<rparr>)"

definition header_words :: "bytes \<Rightarrow> u16" where
  "header_words h = rd16 (h ! 0) (h ! 1)"

partial_function (option) dfu_blocks ::
  "(nat \<Rightarrow> u8 option) \<Rightarrow> u16 \<Rightarrow> dfu \<Rightarrow> (bool \<times> dfu) option" where
  [code]: "dfu_blocks rd words d =
     (if image_eof (app d) then Some (True, d)
      else Option.bind (if words \<noteq> 0 then dfu_bytes rd words 0 d else Some (True, d)) (\<lambda>(agreed, d).
        if \<not> agreed then Some (False, d)
        else
          let (agreed, d) = dfu_check rd d
          in if \<not> agreed then Some (False, d)
             else
               let d = dfu_header d; words = header_words (hdr d)
               in if words \<noteq> 0 then dfu_blocks rd words d else Some (True, d)))"

fun skip_words :: "(nat \<Rightarrow> u8 option) \<Rightarrow> nat \<Rightarrow> flasher \<Rightarrow> flasher" where
  "skip_words rd 0 f = f"
| "skip_words rd (Suc n) f = skip_words rd n (snd (serial_read_word rd f))"

definition dfu_finish :: "(nat \<Rightarrow> u8 option) \<Rightarrow> flasher \<Rightarrow> int \<times> flasher" where
  "dfu_finish rd f =
     (let (status, f) = serial_read_word rd f
      in if status \<noteq> 0x1be4 then fail ''Invalid start header'' f
         else
           let (len, f) = serial_read_word rd f;
               (_, f) = serial_read_word rd f;
               (status, f) = serial_read_word rd f;
               f = (if 3 < len then skip_words rd ((unat len - 2) div 2) f else f);
               (_, f) = serial_read_word rd f;
               (completion, f) = serial_read_word rd f
           in if completion \<noteq> 0xe41b then fail ''Invalid start header'' f
              else
                let f = serial_write_byte 0x2d f
                in if status = 0x1000 then (0, f) else fail ''Flashing failed'' f)"

text \<open>The argument \<open>junk\<close> is what the stack holds where the header will be.\<close>

definition c2000_flash_app ::
  "(nat \<Rightarrow> u8 option) \<Rightarrow> bytes \<Rightarrow> image \<Rightarrow> flasher \<Rightarrow> (int \<times> image \<times> flasher) option" where
  "c2000_flash_app rd junk img f =
     (let f = serial_write k_dfu_start f; (r, f) = serial_read_byte rd f
      in if r \<noteq> Some 0x2d then (let (rc, f) = fail ''Failed sending DFU packet'' f in Some (rc, img, f))
         else
           map_option (\<lambda>(agreed, d).
               let (rc, f) = (if agreed then dfu_finish rd (link d) else fail ''Invalid checksum'' (link d))
               in (rc, app d, f))
             (dfu_blocks rd 0x000b \<lparr>link = f, app = img, last_byte = 0x2d, csum = 0, hdr = junk\<rparr>))"

subsection \<open>The sequence\<close>

definition flash_caught :: "string \<Rightarrow> flasher \<Rightarrow> int \<times> flasher" where
  "flash_caught what f = (-1, log_op (Say (''exception caught: '' @ what)) f)"

definition caught_last :: "flasher \<Rightarrow> int \<times> flasher" where
  "caught_last f = flash_caught (last_error f) f"

text \<open>The second stage: the application through the kernel, and the run mode at the end.\<close>

definition stage_two ::
  "(nat \<Rightarrow> u8 option) \<Rightarrow> bytes \<Rightarrow> image option \<Rightarrow> bool \<Rightarrow> flasher \<Rightarrow> (int \<times> flasher) option" where
  "stage_two rd junk app_img skip f =
     (if \<not> c2000_image_ok app_img then Some (flash_caught ''unable to open application image'' f)
      else
        let (rc, f) = c2000_autobaud rd (log_op (Say ''Determine baud rate... '') f)
        in if rc \<noteq> 0 then Some (caught_last f)
           else
             let f = log_op (Say ''Flashing application... '') (log_op (Say ''Done!'') f)
             in map_option (\<lambda>(rc, _, f).
                  if rc \<noteq> 0 then caught_last f
                  else
                    let f = log_op (Say (CHR 0x0D # ''Flashing application... Done!'')) f
                    in (0, if skip then f else c2000_set_boot_mode 1 f))
                (c2000_flash_app rd junk (the app_img) f))"

definition run_flash ::
  "(nat \<Rightarrow> u8 option) \<Rightarrow> bytes \<Rightarrow> image option \<Rightarrow> image option \<Rightarrow> bool \<Rightarrow> flasher \<Rightarrow> (int \<times> flasher) option" where
  "run_flash rd junk kernel_img app_img skip f =
     (let f = (if skip then f else c2000_set_boot_mode 0 f)
      in if \<not> c2000_image_ok kernel_img then Some (flash_caught ''unable to open kernel image'' f)
         else
           let (rc, f) = c2000_autobaud rd (log_op (Say ''Determine baud rate... '') f)
           in if rc \<noteq> 0 then Some (caught_last f)
              else
                let f = log_op (Say ''Sending flash kernel... '') (log_op (Say ''Done!'') f);
                    (rc, _, f) = c2000_send_kernel rd False (the kernel_img) f
                in if rc \<noteq> 0 then Some (caught_last f)
                   else stage_two rd junk app_img skip (log_op (Say (CHR 0x0D # ''Sending flash kernel... Done!'')) f))"

subsection \<open>What the target must answer\<close>

definition img_sum :: "bytes \<Rightarrow> u16" where
  "img_sum bs = sum_list (map ucast bs)"

definition word_at :: "(nat \<Rightarrow> u8 option) \<Rightarrow> nat \<Rightarrow> u16" where
  "word_at rd n = rd16 (or_zero (rd n)) (or_zero (rd (Suc n)))"

text \<open>An image as the loader reads it: a block of \<open>n\<close> bytes at \<open>s\<close>, then a header of six bytes
  that tells the words of the next block; the header with no words ends it.\<close>

fun layout :: "bytes \<Rightarrow> nat \<Rightarrow> nat \<Rightarrow> nat list \<Rightarrow> bool" where
  "layout img s n [] \<longleftrightarrow> s + n + 6 \<le> length img \<and> header_words (drop (s + n) img) = 0"
| "layout img s n (m # ms) \<longleftrightarrow>
     s + n + 6 \<le> length img \<and> 0 < m \<and> m < 0x8000 \<and>
     unat (header_words (drop (s + n) img)) = m \<and> layout img (s + n + 6) (2 * m) ms"

text \<open>Where the checksum is compared: after every 256 bytes of a block and at its end.\<close>

definition inner_marks :: "nat \<Rightarrow> nat \<Rightarrow> nat \<Rightarrow> nat list" where
  "inner_marks s i n = map ((+) s) (filter (\<lambda>k. k mod 256 = 0) [Suc i..<n])"

fun check_marks :: "nat \<Rightarrow> nat \<Rightarrow> nat list \<Rightarrow> nat list" where
  "check_marks s n [] = inner_marks s 0 n @ [s + n]"
| "check_marks s n (m # ms) = inner_marks s 0 n @ [s + n] @ check_marks (s + n + 6) (2 * m) ms"

fun image_end :: "nat \<Rightarrow> nat \<Rightarrow> nat list \<Rightarrow> nat" where
  "image_end s n [] = s + n + 6"
| "image_end s n (m # ms) = image_end (s + n + 6) (2 * m) ms"

text \<open>The words read from the \<open>r\<close>-th answer on are the sums of the image up to the marks.\<close>

fun agrees :: "(nat \<Rightarrow> u8 option) \<Rightarrow> bytes \<Rightarrow> nat \<Rightarrow> nat list \<Rightarrow> bool" where
  "agrees rd img r [] = True"
| "agrees rd img r (m # ms) \<longleftrightarrow> word_at rd r = img_sum (take m img) \<and> agrees rd img (r + 2) ms"

definition extra_words :: "u16 \<Rightarrow> nat" where
  "extra_words n = (if 3 < n then (unat n - 2) div 2 else 0)"

definition finish_ok :: "(nat \<Rightarrow> u8 option) \<Rightarrow> nat \<Rightarrow> bool" where
  "finish_ok rd r \<longleftrightarrow>
     word_at rd r = 0x1be4 \<and> word_at rd (r + 6) = 0x1000 \<and>
     word_at rd (r + (10 + 2 * extra_words (word_at rd (r + 2)))) = 0xe41b"

definition wire :: "flasher \<Rightarrow> bytes" where
  "wire f = List.map_filter (\<lambda>x. case x of Put b \<Rightarrow> Some b | _ \<Rightarrow> None) (ops f)"

subsection \<open>Lemmas\<close>

lemma agrees_append: "agrees rd img r (xs @ ys) \<longleftrightarrow> agrees rd img r xs \<and> agrees rd img (r + 2 * length xs) ys"
  by (induction xs arbitrary: r) (simp_all add: add.assoc)

lemma img_sum_append: "img_sum (xs @ ys) = img_sum xs + img_sum ys"
  by (simp add: img_sum_def)

lemma read_word: "serial_read_word rd f = (word_at rd (reads f), f\<lparr>reads := reads f + 2\<rparr>)"
  by (simp add: serial_read_word_def serial_read_byte_def word_at_def)

lemma map_filter_Put: "List.map_filter (\<lambda>x. case x of Put b \<Rightarrow> Some b | _ \<Rightarrow> None) (map Put bs) = bs"
  by (induction bs) (simp_all add: map_filter_simps)

lemma map_filter_append: "List.map_filter f (xs @ ys) = List.map_filter f xs @ List.map_filter f ys"
  by (simp add: List.map_filter_def)

lemma port_fields [simp]:
  "wire (serial_write_byte b f) = wire f @ [b]" "wire (serial_write bs f) = wire f @ bs"
  "wire (serial_flush f) = wire f" "wire (f\<lparr>reads := r\<rparr>) = wire f"
  "wire (f\<lparr>last_error := e\<rparr>) = wire f"
  "reads (serial_write_byte b f) = reads f" "reads (serial_write bs f) = reads f"
  "reads (serial_flush f) = reads f" "reads (log_op x f) = reads f"
  by (simp_all add: wire_def serial_write_byte_def serial_write_def serial_flush_def log_op_def
      map_filter_append map_filter_Put map_filter_simps)

text \<open>The state agrees with the image: as many bytes sent and summed as taken from it.\<close>

definition synced :: "bytes \<Rightarrow> bytes \<Rightarrow> dfu \<Rightarrow> bool" where
  "synced img w d \<longleftrightarrow>
     idata (app d) = img \<and> ipos (app d) \<le> length img \<and>
     csum d = img_sum (take (ipos (app d)) img) \<and> wire (link d) = w @ take (ipos (app d)) img \<and>
     length (hdr d) = 6"

lemma byte_synced:
  assumes "synced img w d" "ipos (app d) < length img"
  shows "synced img w (dfu_byte d) \<and> ipos (app (dfu_byte d)) = Suc (ipos (app d)) \<and>
    reads (link (dfu_byte d)) = reads (link d)"
proof -
  let ?p = "ipos (app d)"
  have t: "take (Suc ?p) img = take ?p img @ [img ! ?p]" using assms(2) by (rule take_Suc_conv_app_nth)
  have one: "take 1 (drop ?p img) = [img ! ?p]" using assms(2) by (simp add: take_Suc hd_drop_conv_nth)
  show ?thesis
    using assms one by (simp add: synced_def dfu_byte_def image_read_def Let_def t img_sum_append)
      (simp add: img_sum_def)
qed

lemma check_synced:
  assumes "synced img w d" "dfu_check rd d = (agreed, d')"
  shows "synced img w d' \<and> app d' = app d \<and> reads (link d') = reads (link d) + 2 \<and>
    (agreed \<longleftrightarrow> word_at rd (reads (link d)) = img_sum (take (ipos (app d)) img))"
  using assms by (auto simp: dfu_check_def read_word synced_def)

lemma header_synced:
  assumes "synced img w d" "ipos (app d) + 6 \<le> length img"
  shows "synced img w (dfu_header d) \<and> ipos (app (dfu_header d)) = ipos (app d) + 6 \<and>
    reads (link (dfu_header d)) = reads (link d) \<and>
    header_words (hdr (dfu_header d)) = header_words (drop (ipos (app d)) img)"
proof -
  let ?p = "ipos (app d)"
  have t: "take (?p + 6) img = take ?p img @ take 6 (drop ?p img)" by (rule take_add)
  have n: "min 6 (length img - ?p) = 6" "length (take 6 (drop ?p img)) = 6" using assms(2) by simp_all
  show ?thesis
    using assms n by (simp add: synced_def dfu_header_def image_read_def Let_def t img_sum_append header_words_def)
      (simp add: img_sum_def)
qed

lemma inner_marks_step:
  assumes "Suc i < n"
  shows "inner_marks s i n = (if Suc i mod 256 = 0 then [s + Suc i] else []) @ inner_marks s (Suc i) n"
  using assms by (simp add: inner_marks_def upt_conv_Cons)

lemma counter:
  assumes "Suc i < 65536"
  shows "(of_nat i + 1 :: u16) = of_nat (Suc i)" "unat (of_nat (Suc i) :: u16) = Suc i"
    "(of_nat (Suc i) :: u16) \<noteq> 0"
    "(of_nat (Suc i) :: u16) AND 0xff = 0 \<longleftrightarrow> Suc i mod 256 = 0"
proof -
  show 1: "(of_nat i + 1 :: u16) = of_nat (Suc i)" by simp
  show 2: "unat (of_nat (Suc i) :: u16) = Suc i" using assms unfolding unat_of_nat by (intro mod_less) simp
  show "(of_nat (Suc i) :: u16) \<noteq> 0" using 2 by force
  have "unat ((of_nat (Suc i) :: u16) AND mask 8) = Suc i mod 256" unfolding unat_low 2 by simp
  moreover have "mask 8 = (0xff :: u16)" by (simp add: mask_eq_exp_minus_1)
  ultimately show "(of_nat (Suc i) :: u16) AND 0xff = 0 \<longleftrightarrow> Suc i mod 256 = 0"
    by (metis unat_eq_0)
qed

lemma block_outcome:
  assumes "synced img w d" "i < n" "ipos (app d) = s + i" "s + n \<le> length img"
    "n = 2 * unat words" "n < 65536"
  shows "\<exists>agreed d'. dfu_bytes rd words (of_nat i) d = Some (agreed, d') \<and> synced img w d' \<and>
    (agreed \<longleftrightarrow> agrees rd img (reads (link d)) (inner_marks s i n)) \<and>
    (agreed \<longrightarrow> ipos (app d') = s + n \<and> reads (link d') = reads (link d) + 2 * length (inner_marks s i n))"
  using assms
proof (induction "n - i" arbitrary: i d)
  case 0
  then show ?case by simp
next
  case (Suc k)
  let ?d = "dfu_byte d"
  have b: "synced img w ?d" "ipos (app ?d) = s + Suc i" "reads (link ?d) = reads (link d)"
    using byte_synced [OF Suc.prems(1)] Suc.prems by simp_all
  have small: "Suc i < 65536" using Suc.prems by simp
  define j :: u16 where "j = of_nat (Suc i)"
  have c: "of_nat i + 1 = j" "unat j = Suc i" "j \<noteq> 0" "j AND 0xff = 0 \<longleftrightarrow> Suc i mod 256 = 0"
    unfolding j_def by (rule counter [OF small])+
  show ?case
  proof (cases "Suc i = n")
    case True
    then have "dfu_bytes rd words (of_nat i) d = Some (True, ?d)"
      using c Suc.prems by (subst dfu_bytes.simps) (simp add: Let_def)
    then show ?thesis using b True by (intro exI [of _ True]) (simp add: inner_marks_def)
  next
    case False
    then have less: "Suc i < n" using Suc.prems(2) by simp
    have IH: "\<exists>agreed d''. dfu_bytes rd words j d' = Some (agreed, d'') \<and> synced img w d'' \<and>
        (agreed \<longleftrightarrow> agrees rd img (reads (link d')) (inner_marks s (Suc i) n)) \<and>
        (agreed \<longrightarrow> ipos (app d'') = s + n \<and>
           reads (link d'') = reads (link d') + 2 * length (inner_marks s (Suc i) n))"
      if "synced img w d'" "ipos (app d') = s + Suc i" for d'
      using Suc.hyps(1) [of "Suc i" d'] Suc.hyps(2) that less Suc.prems unfolding j_def by simp
    have unfolded: "dfu_bytes rd words (of_nat i) d =
       (if Suc i mod 256 = 0 then (let (agreed, d') = dfu_check rd ?d
          in if agreed then dfu_bytes rd words j d' else Some (False, d'))
        else dfu_bytes rd words j ?d)"
      using c less Suc.prems by (subst dfu_bytes.simps) (simp add: Let_def)
    show ?thesis
    proof (cases "Suc i mod 256 = 0")
      case True
      obtain agreed d' where e: "dfu_check rd ?d = (agreed, d')" by (metis surj_pair)
      from check_synced [OF b(1) e] b have d': "synced img w d'" "ipos (app d') = s + Suc i"
        "reads (link d') = reads (link d) + 2"
        "agreed \<longleftrightarrow> word_at rd (reads (link d)) = img_sum (take (s + Suc i) img)" by simp_all
      show ?thesis
      proof (cases agreed)
        case False
        then show ?thesis using d' True less
          by (intro exI [of _ False]) (simp add: unfolded e inner_marks_step)
      next
        case agreed: True
        from IH [OF d'(1,2)] obtain ag d'' where r:
          "dfu_bytes rd words j d' = Some (ag, d'')" "synced img w d''"
          "ag \<longleftrightarrow> agrees rd img (reads (link d')) (inner_marks s (Suc i) n)"
          "ag \<Longrightarrow> ipos (app d'') = s + n \<and> reads (link d'') = reads (link d') + 2 * length (inner_marks s (Suc i) n)"
          by auto
        show ?thesis
          unfolding unfolded e
          using r d' True agreed less by (simp add: inner_marks_step)
      qed
    next
      case False
      from IH [OF b(1,2)] show ?thesis
        unfolding unfolded using b False less by (simp add: inner_marks_step)
    qed
  qed
qed

text \<open>One round: the block with its checks and the header after it, or a checksum that differs.\<close>

lemma round_outcome:
  assumes "synced img w d" "ipos (app d) = s" "s + n + 6 \<le> length img" "n = 2 * unat words" "0 < n" "n < 65536"
  defines "ms \<equiv> inner_marks s 0 n @ [s + n]" and "next \<equiv> header_words (drop (s + n) img)"
  shows "(\<not> agrees rd img (reads (link d)) ms \<and> (\<exists>d'. dfu_blocks rd words d = Some (False, d') \<and> synced img w d')) \<or>
    (agrees rd img (reads (link d)) ms \<and>
     (\<exists>d'. synced img w d' \<and> ipos (app d') = s + n + 6 \<and> reads (link d') = reads (link d) + 2 * length ms \<and>
       dfu_blocks rd words d = (if next \<noteq> 0 then dfu_blocks rd next d' else Some (True, d'))))"
proof -
  have w: "words \<noteq> 0" using assms(4,5) by auto
  have more: "\<not> image_eof (app d)" using assms(1-3,5) by (simp add: image_eof_def synced_def)
  have "\<exists>agreed d'. dfu_bytes rd words (of_nat 0) d = Some (agreed, d') \<and> synced img w d' \<and>
    (agreed \<longleftrightarrow> agrees rd img (reads (link d)) (inner_marks s 0 n)) \<and>
    (agreed \<longrightarrow> ipos (app d') = s + n \<and> reads (link d') = reads (link d) + 2 * length (inner_marks s 0 n))"
    by (rule block_outcome) (use assms in simp_all)
  then obtain ag d1 where 1: "dfu_bytes rd words 0 d = Some (ag, d1)" "synced img w d1"
    "ag \<longleftrightarrow> agrees rd img (reads (link d)) (inner_marks s 0 n)"
    "ag \<Longrightarrow> ipos (app d1) = s + n \<and> reads (link d1) = reads (link d) + 2 * length (inner_marks s 0 n)"
    by auto
  obtain ok d2 where e: "dfu_check rd d1 = (ok, d2)" by (metis surj_pair)
  note 2 = check_synced [OF 1(2) e]
  have unfolded: "dfu_blocks rd words d =
      (if \<not> ag then Some (False, d1) else if \<not> ok then Some (False, d2)
       else if header_words (hdr (dfu_header d2)) \<noteq> 0
         then dfu_blocks rd (header_words (hdr (dfu_header d2))) (dfu_header d2)
         else Some (True, dfu_header d2))"
    using w more by (subst dfu_blocks.simps) (simp add: 1(1) e Let_def)
  show ?thesis
  proof (cases "ag \<and> ok")
    case False
    then show ?thesis using 1 2 unfolded by (auto simp: ms_def agrees_append)
  next
    case True
    then have p: "ipos (app d2) = s + n" using 1 2 by simp
    from header_synced [of img w d2] p 2 assms(3)
    have h: "synced img w (dfu_header d2)" "ipos (app (dfu_header d2)) = s + n + 6"
      "reads (link (dfu_header d2)) = reads (link d2)" "header_words (hdr (dfu_header d2)) = next"
      by (simp_all add: next_def)
    have "agrees rd img (reads (link d)) ms" "reads (link d2) = reads (link d) + 2 * length ms"
      using True 1 2 by (simp_all add: ms_def agrees_append)
    with h True show ?thesis unfolding unfolded h(4) by auto
  qed
qed

lemma blocks_outcome:
  assumes "synced img w d" "layout img s n ms" "ipos (app d) = s" "n = 2 * unat words" "0 < n" "n < 65536"
  shows "\<exists>agreed d'. dfu_blocks rd words d = Some (agreed, d') \<and> synced img w d' \<and>
    (agreed \<longleftrightarrow> agrees rd img (reads (link d)) (check_marks s n ms)) \<and>
    (agreed \<longrightarrow> ipos (app d') = image_end s n ms \<and>
       reads (link d') = reads (link d) + 2 * length (check_marks s n ms))"
  using assms
proof (induction ms arbitrary: s n words d)
  case (Nil s n words d)
  then have "s + n + 6 \<le> length img" "header_words (drop (s + n) img) = 0" by simp_all
  with round_outcome [OF Nil(1,3) _ Nil(4-6), of rd] show ?case by fastforce
next
  case (Cons m ms s n words d)
  let ?w = "header_words (drop (s + n) img)"
  from Cons.prems(2) have l: "s + n + 6 \<le> length img" "0 < m" "m < 0x8000" "unat ?w = m"
    "layout img (s + n + 6) (2 * m) ms" by simp_all
  then have nz: "?w \<noteq> 0" by auto
  consider (bad) d' where "\<not> agrees rd img (reads (link d)) (inner_marks s 0 n @ [s + n])"
      "dfu_blocks rd words d = Some (False, d')" "synced img w d'"
    | (good) d' where "agrees rd img (reads (link d)) (inner_marks s 0 n @ [s + n])" "synced img w d'"
      "ipos (app d') = s + n + 6" "reads (link d') = reads (link d) + 2 * length (inner_marks s 0 n @ [s + n])"
      "dfu_blocks rd words d = dfu_blocks rd ?w d'"
    using round_outcome [OF Cons.prems(1,3) l(1) Cons.prems(4-6), of rd] nz by auto
  then show ?case
  proof cases
    case bad
    then show ?thesis by (intro exI [of _ False]) (auto simp: agrees_append)
  next
    case good
    have "\<exists>agreed d''. dfu_blocks rd ?w d' = Some (agreed, d'') \<and> synced img w d'' \<and>
      (agreed \<longleftrightarrow> agrees rd img (reads (link d')) (check_marks (s + n + 6) (2 * m) ms)) \<and>
      (agreed \<longrightarrow> ipos (app d'') = image_end (s + n + 6) (2 * m) ms \<and>
         reads (link d'') = reads (link d') + 2 * length (check_marks (s + n + 6) (2 * m) ms))"
      using l good by (intro Cons.IH) simp_all
    then show ?thesis using good by (auto simp: agrees_append algebra_simps)
  qed
qed

lemma skip_words_eq: "skip_words rd n f = f\<lparr>reads := reads f + 2 * n\<rparr>"
  by (induction n arbitrary: f) (simp_all add: read_word)

lemma finish_outcome:
  "\<exists>rc f'. dfu_finish rd f = (rc, f') \<and> (rc = 0 \<longleftrightarrow> finish_ok rd (reads f)) \<and>
     (rc = 0 \<longrightarrow> wire f' = wire f @ [0x2d])"
proof -
  have skip: "(if 3 < l then skip_words rd ((unat l - 2) div 2) f else f) =
      f\<lparr>reads := reads f + 2 * extra_words l\<rparr>" for l f
    by (simp add: skip_words_eq extra_words_def)
  show ?thesis
    by (simp add: dfu_finish_def read_word skip finish_ok_def fail_def Let_def add.assoc
        del: add_2_eq_Suc add_2_eq_Suc')
qed

subsection \<open>The kernel\<close>

fun echoes :: "(nat \<Rightarrow> u8 option) \<Rightarrow> nat \<Rightarrow> bytes \<Rightarrow> bool" where
  "echoes rd r (b # c # bs) \<longleftrightarrow> rd r = Some b \<and> echoes rd (Suc r) (c # bs)"
| "echoes rd r bs = True"

lemma echoes_nth: "echoes rd r bs \<longleftrightarrow> (\<forall>k. Suc k < length bs \<longrightarrow> rd (r + k) = Some (bs ! k))"
proof (induction rd r bs rule: echoes.induct)
  case (1 rd r b c bs)
  have "(\<forall>k. Suc k < length (b # c # bs) \<longrightarrow> rd (r + k) = Some ((b # c # bs) ! k)) \<longleftrightarrow>
      (\<forall>k < Suc (length bs). rd (r + k) = Some ((b # c # bs) ! k))" by simp
  also have "\<dots> \<longleftrightarrow> rd r = Some b \<and> (\<forall>k. Suc k < length (c # bs) \<longrightarrow> rd (Suc r + k) = Some ((c # bs) ! k))"
    unfolding All_less_Suc2 by simp
  finally show ?case using 1 by simp
qed simp_all

declare send_kernel_loop.simps [simp del]

lemma kernel_outcome:
  assumes "send_kernel_loop rd cb sent img f = (rc, img', f')" "drop (ipos img) (idata img) = bs" "bs \<noteq> []"
  shows "(rc = 0 \<longleftrightarrow> echoes rd (reads f) bs) \<and>
    (\<exists>m. 0 < m \<and> m \<le> length bs \<and> wire f' = wire f @ take m bs \<and> echoes rd (reads f) (take m bs) \<and>
       (rc = 0 \<longrightarrow> m = length bs))"
  using assms
proof (induction bs arbitrary: sent img f)
  case Nil
  then show ?case by simp
next
  case (Cons b bs)
  let ?img = "img\<lparr>ipos := Suc (ipos img)\<rparr>"
  let ?f = "(\<lambda>f. if cb then log_op (Progress (sent + 1) (length (idata img))) f else f) (serial_write_byte b f)"
  have b: "ipos img < length (idata img)" "idata img ! ipos img = b" "drop (Suc (ipos img)) (idata img) = bs"
    using Cons.prems(2) by (metis drop_all linorder_not_le list.distinct(1),
        metis nth_via_drop, metis drop_Suc tl_drop list.sel(3))
  have eof: "image_eof ?img \<longleftrightarrow> bs = []" using b(3) by (auto simp: image_eof_def)
  have wire: "wire ?f = wire f @ [b]" "reads ?f = reads f"
    by (simp_all add: log_op_def wire_def serial_write_byte_def map_filter_append map_filter_simps)
  have step: "send_kernel_loop rd cb sent img f =
      (if bs = [] then (0, ?img, ?f)
       else if rd (reads f) \<noteq> Some b then (-1, ?img, ?f\<lparr>reads := Suc (reads f), last_error := ''failed''\<rparr>)
       else send_kernel_loop rd cb (if cb then sent + 1 else sent) ?img (?f\<lparr>reads := Suc (reads f)\<rparr>))"
    using b(1) eof wire(2) by (subst send_kernel_loop.simps)
      (simp add: image_eof_def image_read_def serial_read_byte_def fail_def Let_def b(2)
        take_Suc hd_drop_conv_nth)
  show ?case
  proof (cases "bs \<noteq> [] \<and> rd (reads f) = Some b")
    case False
    then show ?thesis
      using Cons.prems(1) wire unfolding step
      by (cases bs) (auto intro!: exI [of _ "1::nat"])
  next
    case True
    let ?f' = "?f\<lparr>reads := Suc (reads f)\<rparr>"
    have "send_kernel_loop rd cb (if cb then sent + 1 else sent) ?img ?f' = (rc, img', f')"
      using Cons.prems(1) True unfolding step by simp
    from Cons.IH [OF this] b(3) True wire
    obtain m where m: "rc = 0 \<longleftrightarrow> echoes rd (Suc (reads f)) bs" "0 < m" "m \<le> length bs"
      "wire f' = wire f @ b # take m bs" "echoes rd (Suc (reads f)) (take m bs)" "rc = 0 \<Longrightarrow> m = length bs"
      by auto
    obtain c cs where c: "bs = c # cs" using True by (cases bs) auto
    obtain m' where m': "m = Suc m'" using m(2) by (cases m) auto
    show ?thesis
      by (intro conjI exI [of _ "Suc m"]) (use m True in \<open>auto simp: c m'\<close>)
  qed
qed

lemma flash_app_outcome:
  assumes "layout img 0 22 ms" "length junk = 6"
  shows "\<exists>rc img' f'. c2000_flash_app rd junk \<lparr>idata = img, ipos = 0, ok = True\<rparr> f = Some (rc, img', f') \<and>
    (rc = 0 \<longleftrightarrow>
       rd (reads f) = Some 0x2d \<and> agrees rd img (reads f + 1) (check_marks 0 22 ms) \<and>
       finish_ok rd (reads f + 1 + 2 * length (check_marks 0 22 ms))) \<and>
    (rc = 0 \<longrightarrow> wire f' = wire f @ k_dfu_start @ take (image_end 0 22 ms) img @ [0x2d])"
proof (cases "rd (reads f) = Some 0x2d")
  case False
  then show ?thesis by (simp add: c2000_flash_app_def serial_read_byte_def fail_def Let_def)
next
  case True
  let ?f = "(serial_write k_dfu_start f)\<lparr>reads := Suc (reads f)\<rparr>"
  let ?d = "\<lparr>link = ?f, app = \<lparr>idata = img, ipos = 0, ok = True\<rparr>, last_byte = 0x2d, csum = 0, hdr = junk\<rparr>"
  have "synced img (wire f @ k_dfu_start) ?d" using assms(2) by (simp add: synced_def img_sum_def)
  from blocks_outcome [OF this assms(1), where words = "0x000b" and rd = rd]
  obtain ag d where d: "dfu_blocks rd 0x000b ?d = Some (ag, d)" "synced img (wire f @ k_dfu_start) d"
    "ag \<longleftrightarrow> agrees rd img (Suc (reads f)) (check_marks 0 22 ms)"
    "ag \<Longrightarrow> ipos (app d) = image_end 0 22 ms \<and> reads (link d) = Suc (reads f) + 2 * length (check_marks 0 22 ms)"
    by auto
  obtain rc f' where fin: "dfu_finish rd (link d) = (rc, f')" "rc = 0 \<longleftrightarrow> finish_ok rd (reads (link d))"
    "rc = 0 \<Longrightarrow> wire f' = wire (link d) @ [0x2d]"
    using finish_outcome [of rd "link d"] by blast
  have "c2000_flash_app rd junk \<lparr>idata = img, ipos = 0, ok = True\<rparr> f =
      Some (if ag then (rc, app d, f') else (-1, app d, (link d)\<lparr>last_error := ''Invalid checksum''\<rparr>))"
    using True d(1) fin(1) by (simp add: c2000_flash_app_def serial_read_byte_def fail_def Let_def)
  then show ?thesis using True d(2-4) fin(2,3) by (auto simp: synced_def)
qed


lemma kernel_echoed:
  assumes "c2000_send_kernel rd cb \<lparr>idata = img, ipos = 0, ok = True\<rparr> f = (rc, img', f')" "img \<noteq> []"
  shows "(rc = 0 \<longleftrightarrow> (\<forall>k. Suc k < length img \<longrightarrow> rd (reads f + k) = Some (img ! k))) \<and>
    (\<exists>m. 0 < m \<and> m \<le> length img \<and> wire f' = wire f @ take m img \<and> (rc = 0 \<longrightarrow> m = length img))"
  using kernel_outcome [OF assms(1) [unfolded c2000_send_kernel_def], of img] assms(2)
  unfolding echoes_nth by auto

text \<open>
  C22.  The application loader returns for every image made of blocks below
  0x8000 words, whatever the port answers.  It reports success exactly when the target acknowledges
  the start packet, answers each checkpoint with the sum of the image sent so far (after every 256
  bytes of a block and at its end, headers included) and ends with the start, status and completion
  words; then the wire has carried the start packet, the image up to its last header, and the final
  acknowledgement.
\<close>

theorem application_flashed:
  assumes "layout img 0 22 ms" "length junk = 6"
  shows "\<exists>rc img' f'. c2000_flash_app rd junk \<lparr>idata = img, ipos = 0, ok = True\<rparr> f = Some (rc, img', f') \<and>
    (rc = 0 \<longleftrightarrow>
       rd (reads f) = Some 0x2d \<and> agrees rd img (reads f + 1) (check_marks 0 22 ms) \<and>
       finish_ok rd (reads f + 1 + 2 * length (check_marks 0 22 ms))) \<and>
    (rc = 0 \<longrightarrow> wire f' = wire f @ k_dfu_start @ take (image_end 0 22 ms) img @ [0x2d])"
  by (rule flash_app_outcome [OF assms])

text \<open>An image with one block of a word, and a target that answers as it should.\<close>

definition demo_image :: bytes where
  "demo_image = replicate 22 1 @ [1, 0, 0, 0, 0, 0] @ [5, 6] @ [0, 0, 0, 0, 0, 0]"

definition demo_target :: "bytes" where
  "demo_target = [0x2d, 22, 0, 34, 0, 0xe4, 0x1b, 2, 0, 0, 0, 0x00, 0x10, 0, 0, 0x1b, 0xe4]"

theorem application_flashed_witness:
  "\<exists>img' f'. c2000_flash_app (\<lambda>n. Some (demo_target ! n)) (replicate 6 0) \<lparr>idata = demo_image, ipos = 0, ok = True\<rparr>
      \<lparr>ops = [], reads = 0, last_error = [], inited = False\<rparr> = Some (0, img', f') \<and>
    wire f' = k_dfu_start @ demo_image @ [0x2d]"
proof -
  have l: "layout demo_image 0 22 [1]" by code_simp
  have ag: "agrees (\<lambda>n. Some (demo_target ! n)) demo_image 1 (check_marks 0 22 [1])" by code_simp
  have fin: "finish_ok (\<lambda>n. Some (demo_target ! n)) 5" by code_simp
  have n: "length (check_marks 0 22 [1]) = 2" by code_simp
  have e: "take (image_end 0 22 [1]) demo_image = demo_image" by code_simp
  show ?thesis
    using application_flashed [OF l, of "replicate 6 0" "\<lambda>n. Some (demo_target ! n)"
        "\<lparr>ops = [], reads = 0, last_error = [], inited = False\<rparr>"] ag fin
    unfolding n e by (auto simp: demo_target_def wire_def List.map_filter_def)
qed

subsection \<open>The boot line\<close>

definition mode_writes :: "flasher \<Rightarrow> nat list" where
  "mode_writes f = List.map_filter (\<lambda>x. case x of Pin p v \<Rightarrow> if p = 126 then Some v else None | _ \<Rightarrow> None) (ops f)"

lemma mode_Put: "List.map_filter (\<lambda>x. case x of Pin p v \<Rightarrow> if p = 126 then Some v else None | _ \<Rightarrow> None) (map Put bs) = []"
  by (induction bs) (simp_all add: map_filter_simps)

lemma mode_fields [simp]:
  "mode_writes (serial_write_byte b f) = mode_writes f" "mode_writes (serial_write bs f) = mode_writes f"
  "mode_writes (serial_flush f) = mode_writes f" "mode_writes (f\<lparr>reads := r\<rparr>) = mode_writes f"
  "mode_writes (f\<lparr>last_error := e\<rparr>) = mode_writes f"
  "mode_writes (log_op (Say t) f) = mode_writes f" "mode_writes (log_op (Progress a b') f) = mode_writes f"
  "mode_writes (log_op (Sleep_ms k) f) = mode_writes f"
  by (simp_all add: mode_writes_def serial_write_byte_def serial_write_def serial_flush_def log_op_def
      map_filter_append mode_Put map_filter_simps)

lemma mode_set: "mode = 0 \<or> mode = 1 \<Longrightarrow> mode_writes (c2000_set_boot_mode mode f) = mode_writes f @ [mode]"
  by (auto simp: c2000_set_boot_mode_def gpio_set_def gpio_export_output_def log_op_def mode_writes_def
      map_filter_append map_filter_simps Let_def)

lemma mode_autobaud: "mode_writes (snd (autobaud_tries rd n resp f)) = mode_writes f"
  by (induction n arbitrary: resp f)
    (simp_all add: fail_def serial_read_byte_def Let_def)

lemma mode_kernel: "mode_writes (snd (snd (send_kernel_loop rd cb sent img f))) = mode_writes f"
proof (induction rd cb sent img f rule: send_kernel_loop.induct)
  case (1 rd cb sent img f)
  then show ?case
    by (subst send_kernel_loop.simps) (auto simp: Let_def serial_read_byte_def fail_def image_read_def split: prod.splits)
qed

lemma mode_dfu_byte: "mode_writes (link (dfu_byte d)) = mode_writes (link d)"
  by (simp add: dfu_byte_def Let_def split: prod.splits)

lemma mode_dfu_check: "mode_writes (link (snd (dfu_check rd d))) = mode_writes (link d)"
  by (simp add: dfu_check_def read_word)

lemma mode_dfu_header: "mode_writes (link (dfu_header d)) = mode_writes (link d)"
  by (simp add: dfu_header_def Let_def split: prod.splits)

lemma mode_bytes:
  assumes "dfu_bytes rd words i d = Some y"
  shows "mode_writes (link (snd y)) = mode_writes (link d)"
proof (rule dfu_bytes.raw_induct [where P = "\<lambda>_ _ _ d y. mode_writes (link (snd y)) = mode_writes (link d)", OF _ assms])
  fix g and rd :: "nat \<Rightarrow> u8 option" and words i :: u16 and d and y :: "bool \<times> dfu"
  assume IH: "\<And>rd words i d y. g rd words i d = Some y \<Longrightarrow> mode_writes (link (snd y)) = mode_writes (link d)"
    and step: "(let d = dfu_byte d; i = i + 1
      in if unat words * 2 \<le> unat i then Some (True, d)
         else if i \<noteq> 0 \<and> i AND 0xff = 0 then
           (let (agreed, d) = dfu_check rd d in if agreed then g rd words i d else Some (False, d))
         else g rd words i d) = Some y"
  obtain ag d' where e: "dfu_check rd (dfu_byte d) = (ag, d')" by (metis surj_pair)
  have "mode_writes (link d') = mode_writes (link d)"
    using mode_dfu_check [of rd "dfu_byte d"] by (simp add: e mode_dfu_byte)
  then show "mode_writes (link (snd y)) = mode_writes (link d)"
    using step by (auto simp: Let_def e mode_dfu_byte dest: IH split: if_splits)
qed

lemma mode_blocks:
  assumes "dfu_blocks rd words d = Some y"
  shows "mode_writes (link (snd y)) = mode_writes (link d)"
proof (rule dfu_blocks.raw_induct [where P = "\<lambda>_ _ d y. mode_writes (link (snd y)) = mode_writes (link d)", OF _ assms])
  fix g and rd :: "nat \<Rightarrow> u8 option" and words :: u16 and d and y :: "bool \<times> dfu"
  assume IH: "\<And>rd words d y. g rd words d = Some y \<Longrightarrow> mode_writes (link (snd y)) = mode_writes (link d)"
    and step: "(if image_eof (app d) then Some (True, d)
      else Option.bind (if words \<noteq> 0 then dfu_bytes rd words 0 d else Some (True, d)) (\<lambda>(agreed, d).
        if \<not> agreed then Some (False, d)
        else
          let (agreed, d) = dfu_check rd d
          in if \<not> agreed then Some (False, d)
             else
               let d = dfu_header d; words = header_words (hdr d)
               in if words \<noteq> 0 then g rd words d else Some (True, d))) = Some y"
  show "mode_writes (link (snd y)) = mode_writes (link d)"
  proof (cases "image_eof (app d)")
    case True
    then show ?thesis using step by auto
  next
    case False
    then obtain ag d1 where d1: "(if words \<noteq> 0 then dfu_bytes rd words 0 d else Some (True, d)) = Some (ag, d1)"
      using step by (auto simp: Option.bind_eq_Some_conv)
    then have m1: "mode_writes (link d1) = mode_writes (link d)"
      using mode_bytes [of rd words 0 d "(ag, d1)"] by (auto split: if_splits)
    obtain ok d2 where e: "dfu_check rd d1 = (ok, d2)" by (metis surj_pair)
    have m2: "mode_writes (link d2) = mode_writes (link d)"
      using mode_dfu_check [of rd d1] by (simp add: e m1)
    show ?thesis
      using step IH [of rd "header_words (hdr (dfu_header d2))" "dfu_header d2"] False m1 m2
      unfolding d1 by (auto simp: e mode_dfu_header Let_def split: if_splits)
  qed
qed

lemma mode_finish: "mode_writes (snd (dfu_finish rd f)) = mode_writes f"
  by (simp add: dfu_finish_def read_word skip_words_eq fail_def Let_def)

lemma mode_flash: "c2000_flash_app rd junk img f = Some (rc, img', f') \<Longrightarrow> mode_writes f' = mode_writes f"
  by (auto simp: c2000_flash_app_def serial_read_byte_def fail_def Let_def dest!: mode_blocks
      split: if_splits prod.splits) (metis mode_finish snd_conv)+

lemma mode_caught: "mode_writes (snd (caught_last f)) = mode_writes f" "fst (caught_last f) = -1"
  "mode_writes (snd (flash_caught m f)) = mode_writes f" "fst (flash_caught m f) = -1"
  by (simp_all add: caught_last_def flash_caught_def)

lemma stage_two_mode:
  assumes "stage_two rd junk aimg False f = Some (rc, f')"
  shows "mode_writes f' = mode_writes f @ (if rc = 0 then [1] else []) \<and> (rc = 0 \<or> rc = -1)"
proof (cases "c2000_image_ok aimg")
  case False
  then show ?thesis using assms by (auto simp: stage_two_def flash_caught_def)
next
  case True
  obtain r1 f1 where e: "c2000_autobaud rd (log_op (Say ''Determine baud rate... '') f) = (r1, f1)" by (metis surj_pair)
  have m1: "mode_writes f1 = mode_writes f"
    using mode_autobaud [of rd 50 0 "log_op (Say ''Determine baud rate... '') f"] e
    by (simp add: c2000_autobaud_def)
  show ?thesis
  proof (cases "r1 = 0")
    case False
    then show ?thesis using assms True m1 by (auto simp: stage_two_def e caught_last_def flash_caught_def)
  next
    case zero: True
    obtain r2 i2 f2 where g: "c2000_flash_app rd junk (the aimg)
        (log_op (Say ''Flashing application... '') (log_op (Say ''Done!'') f1)) = Some (r2, i2, f2)"
      using assms True zero by (auto simp: stage_two_def e Let_def)
    have "mode_writes f2 = mode_writes f" using mode_flash [OF g] m1 by simp
    then show ?thesis
      using assms True zero by (auto simp: stage_two_def e g Let_def caught_last_def flash_caught_def mode_set
          split: if_splits)
  qed
qed

lemma run_flash_mode:
  assumes "run_flash rd junk kimg aimg False f = Some (rc, f')"
  shows "mode_writes f' = mode_writes f @ (if rc = 0 then [0, 1] else [0]) \<and> (rc = 0 \<or> rc = -1)"
proof (cases "c2000_image_ok kimg")
  case False
  then show ?thesis using assms by (auto simp: run_flash_def flash_caught_def mode_set)
next
  case True
  let ?f = "log_op (Say ''Determine baud rate... '') (c2000_set_boot_mode 0 f)"
  obtain r1 f1 where e: "c2000_autobaud rd ?f = (r1, f1)" by (metis surj_pair)
  have m1: "mode_writes f1 = mode_writes f @ [0]"
    using mode_autobaud [of rd 50 0 ?f] e by (simp add: c2000_autobaud_def mode_set)
  show ?thesis
  proof (cases "r1 = 0")
    case False
    then show ?thesis using assms True m1 by (auto simp: run_flash_def e caught_last_def flash_caught_def)
  next
    case zero: True
    let ?f1 = "log_op (Say ''Sending flash kernel... '') (log_op (Say ''Done!'') f1)"
    obtain r2 i2 f2 where g: "c2000_send_kernel rd False (the kimg) ?f1 = (r2, i2, f2)" by (metis surj_pair)
    have m2: "mode_writes f2 = mode_writes f @ [0]"
      using mode_kernel [of rd False 0 "the kimg" ?f1] g m1 by (simp add: c2000_send_kernel_def)
    show ?thesis
    proof (cases "r2 = 0")
      case False
      then show ?thesis
        using assms True zero m2 by (auto simp: run_flash_def e g Let_def caught_last_def flash_caught_def)
    next
      case True2: True
      then have "stage_two rd junk aimg False (log_op (Say (CHR 0x0D # ''Sending flash kernel... Done!'')) f2) = Some (rc, f')"
        using assms True zero by (simp add: run_flash_def e g Let_def)
      from stage_two_mode [OF this] show ?thesis using m2 by auto
    qed
  qed
qed

text \<open>
  A run that may touch the boot line puts the controller into boot
  mode first, and back into run mode exactly when the run succeeds: after any failure, from a kernel
  image that cannot be opened to a wrong completion word, the controller is left in boot mode.
\<close>

theorem boot_line_follows_outcome:
  assumes "run_flash rd junk kimg aimg False f = Some (rc, f')"
  shows "mode_writes f' = mode_writes f @ (if rc = 0 then [0, 1] else [0]) \<and> (rc = 0 \<or> rc = -1)"
  by (rule run_flash_mode [OF assms])

definition idle_port :: flasher where
  "idle_port = \<lparr>ops = [], reads = 0, last_error = [], inited = False\<rparr>"

lemma demo_no_kernel:
  "run_flash (\<lambda>n. None) [] (c2000_image_open True None) None False idle_port =
     Some (flash_caught ''unable to open kernel image'' (c2000_set_boot_mode 0 idle_port))"
  by (simp add: run_flash_def c2000_image_open_def c2000_image_ok_def)

theorem boot_line_follows_outcome_witness:
  "\<exists>rc f'. run_flash (\<lambda>n. None) [] (c2000_image_open True None) None False idle_port = Some (rc, f') \<and>
     rc = -1 \<and> mode_writes f' = [0]"
proof -
  obtain rc f' where e: "flash_caught ''unable to open kernel image'' (c2000_set_boot_mode 0 idle_port) = (rc, f')"
    by (metis surj_pair)
  have rc: "rc = -1" using e by (simp add: flash_caught_def)
  have "mode_writes idle_port = []" by (simp add: mode_writes_def idle_port_def map_filter_simps)
  then show ?thesis
    using boot_line_follows_outcome [OF demo_no_kernel [unfolded e]] demo_no_kernel e rc by simp
qed

end
