(* ===== verification/Sysfs.thy ===== *)
theory Sysfs
  imports Prelude
begin

text \<open>
  How the power service reads the files of the kernel: the register dump and the pin list of the
  BQ25672 charger and the attributes of the BQ27542 fuel gauge
  (\<open>main/power/src/lipo_control.c\<close>), and the test for mains in
  \<open>main/power/src/low_power.c\<close>.

  A file is its contents, or the failure to open it with the question whether \<open>errno\<close> was
  set.  The C library's line and number scanning is written out: \<open>fgets\<close> cuts a text after
  each newline and after as many characters as the buffer holds, \<open>strtol\<close> skips blanks, takes
  a sign, in base 16 an optional prefix, and saturates.  Texts hold no null character.  Log lines are
  left out.
\<close>

subsection \<open>Texts\<close>

datatype sysfile = Contents string | No_file bool

fun fgets :: "nat \<Rightarrow> string \<Rightarrow> string \<times> string" where
  "fgets 0 s = ([], s)"
| "fgets (Suc n) [] = ([], [])"
| "fgets (Suc n) (c # s) =
     (if c = CHR 0x0A then ([c], s) else (let (line, rest) = fgets n s in (c # line, rest)))"

lemma fgets_parts: "fst (fgets n s) @ snd (fgets n s) = s"
  by (induction n s rule: fgets.induct) (auto simp: case_prod_beta)

lemma fgets_shrinks: "s \<noteq> [] \<Longrightarrow> 0 < n \<Longrightarrow> length (snd (fgets n s)) < length s"
proof -
  assume "s \<noteq> []" "0 < n"
  then have "fst (fgets n s) \<noteq> []"
    by (cases n; cases s) (auto simp: case_prod_beta)
  moreover have "length (fst (fgets n s)) + length (snd (fgets n s)) = length s"
    using fgets_parts [of n s] by (metis length_append)
  ultimately show ?thesis by (cases "fst (fgets n s)") auto
qed

text \<open>The lines that a loop with a buffer of \<open>Suc (Suc n)\<close> characters sees.\<close>

function read_lines :: "nat \<Rightarrow> string \<Rightarrow> string list" where
  "read_lines n s =
     (if s = [] then [] else let (line, rest) = fgets (Suc n) s in line # read_lines n rest)"
  by pat_completeness auto

termination
  by (relation "measure (\<lambda>(n, s). length s)") (simp_all, metis fgets_shrinks snd_conv zero_less_Suc)

declare read_lines.simps [simp del]

definition starts :: "string \<Rightarrow> string \<Rightarrow> bool" where
  "starts needle s \<longleftrightarrow> take (length needle) s = needle"

fun strstr :: "string \<Rightarrow> string \<Rightarrow> string option" where
  "strstr needle [] = (if needle = [] then Some [] else None)"
| "strstr needle (c # s) = (if starts needle (c # s) then Some (c # s) else strstr needle s)"

fun strchr :: "char \<Rightarrow> string \<Rightarrow> string option" where
  "strchr c [] = None"
| "strchr c (d # s) = (if d = c then Some (d # s) else strchr c s)"

subsection \<open>Numbers\<close>

definition is_space :: "char \<Rightarrow> bool" where
  "is_space c \<longleftrightarrow> c = CHR 0x20 \<or> (9 \<le> (of_char c :: nat) \<and> (of_char c :: nat) \<le> 13)"

definition digit_value :: "char \<Rightarrow> nat" where
  "digit_value c = (let n = of_char c
     in if 48 \<le> n \<and> n \<le> 57 then n - 48
        else if 65 \<le> n \<and> n \<le> 90 then n - 55
        else if 97 \<le> n \<and> n \<le> 122 then n - 87
        else 36)"

fun digits_value :: "nat \<Rightarrow> nat \<Rightarrow> string \<Rightarrow> nat" where
  "digits_value base acc [] = acc"
| "digits_value base acc (c # s) =
     (if digit_value c < base then digits_value base (acc * base + digit_value c) s else acc)"

text \<open>The prefix counts only before a hexadecimal digit.\<close>

fun skip_prefix :: "nat \<Rightarrow> string \<Rightarrow> string" where
  "skip_prefix base (z # x # c # s) =
     (if base = 16 \<and> z = CHR ''0'' \<and> (x = CHR ''x'' \<or> x = CHR ''X'') \<and> digit_value c < 16 then c # s
      else z # x # c # s)"
| "skip_prefix base s = s"

definition LONG_MAX :: int where "LONG_MAX = 9223372036854775807"

definition strtol :: "nat \<Rightarrow> string \<Rightarrow> int" where
  "strtol base s =
     (let s = dropWhile is_space s;
          (minus, s) = (case s of [] \<Rightarrow> (False, [])
             | c # t \<Rightarrow> if c = CHR ''-'' then (True, t) else if c = CHR ''+'' then (False, t) else (False, s));
          v = int (digits_value base 0 (skip_prefix base s))
      in if minus then max (- LONG_MAX - 1) (- v) else min LONG_MAX v)"

definition to_int32 :: "int \<Rightarrow> int" where
  "to_int32 v = sint (word_of_int v :: u32)"

subsection \<open>The charger\<close>

text \<open>\<open>low_power_ac_present\<close>: the loop stops at the first line with the name.\<close>

fun ac_scan :: "string list \<Rightarrow> bool" where
  "ac_scan [] = False"
| "ac_scan (line # ls) = (case strstr ''CHRG_STAT_0'' line of
     None \<Rightarrow> ac_scan ls
   | Some p \<Rightarrow> (case strchr (CHR ''='') p of
       None \<Rightarrow> False
     | Some eq \<Rightarrow> strtol 16 (tl eq) mod 8 \<noteq> 0))"

definition low_power_ac_present :: "sysfile \<Rightarrow> bool" where
  "low_power_ac_present f = (case f of No_file e \<Rightarrow> False | Contents s \<Rightarrow> ac_scan (read_lines 254 s))"

text \<open>\<open>bq25672_read_vac1_chrgstat0\<close>: the register keeps -1 until it is found.\<close>

fun vac1_scan :: "string list \<Rightarrow> int" where
  "vac1_scan [] = -1"
| "vac1_scan (line # ls) = (case strstr ''CHRG_STAT_0'' line of
     None \<Rightarrow> vac1_scan ls
   | Some p \<Rightarrow> (case strchr (CHR ''='') line of
       None \<Rightarrow> -1
     | Some eq \<Rightarrow> to_int32 (strtol 16 (drop 2 eq))))"

definition bq25672_read_vac1_chrgstat0 :: "sysfile \<Rightarrow> bool" where
  "bq25672_read_vac1_chrgstat0 f = (case f of No_file e \<Rightarrow> False
     | Contents s \<Rightarrow> (vac1_scan (read_lines 126 s) div 2) mod 2 \<noteq> 0)"

definition hex_digit :: "nat \<Rightarrow> char" where
  "hex_digit n = ''0123456789ABCDEF'' ! n"

definition hex2 :: "u8 \<Rightarrow> string" where
  "hex2 b = [hex_digit (unat b div 16), hex_digit (unat b mod 16)]"

fun register_scan :: "string \<Rightarrow> string list \<Rightarrow> int" where
  "register_scan tag [] = -1"
| "register_scan tag (line # ls) = (case strstr tag line of
     None \<Rightarrow> register_scan tag ls
   | Some p \<Rightarrow> (case strstr '' = 0x'' line of
       None \<Rightarrow> -1
     | Some eq \<Rightarrow> to_int32 (strtol 10 (drop 5 eq))))"

definition bq25672_read_register :: "sysfile \<Rightarrow> u8 \<Rightarrow> int" where
  "bq25672_read_register f reg = (case f of No_file e \<Rightarrow> -1
     | Contents s \<Rightarrow> register_scan (''[0x'' @ hex2 reg @ '']'') (read_lines 126 s))"

definition bq25672_gpio_line_set :: "sysfile \<Rightarrow> string \<Rightarrow> bool" where
  "bq25672_gpio_line_set f needle = (case f of No_file e \<Rightarrow> False
     | Contents s \<Rightarrow> list_ex (\<lambda>line. strstr needle line \<noteq> None) (read_lines 62 s))"

definition bq25672_read_pgood :: "sysfile \<Rightarrow> bool" where
  "bq25672_read_pgood f = bq25672_gpio_line_set f ''pwr-good = 1''"

definition bq25672_read_muxswitch_tps2121 :: "sysfile \<Rightarrow> bool" where
  "bq25672_read_muxswitch_tps2121 f = bq25672_gpio_line_set f ''tps2121st = 1''"

text \<open>A profile is appended pair by pair; a pair whose file cannot be opened is skipped.\<close>

definition lipo_bq25672_write_profile :: "(nat \<Rightarrow> bool) \<Rightarrow> (u8 \<times> u8) list \<Rightarrow> string list" where
  "lipo_bq25672_write_profile opens pairs =
     concat (map (\<lambda>i. if opens i then [hex2 (fst (pairs ! i)) @ '' '' @ hex2 (snd (pairs ! i))] else [])
       [0..<length pairs])"

definition lipo_bq25672_write_regs_shipping :: "(nat \<Rightarrow> bool) \<Rightarrow> string list" where
  "lipo_bq25672_write_regs_shipping opens =
     lipo_bq25672_write_profile opens [(0x01, 0x01), (0x02, 0x7A), (0x0A, 0x20)]"

definition lipo_bq25672_write_regs_standby :: "(nat \<Rightarrow> bool) \<Rightarrow> string list" where
  "lipo_bq25672_write_regs_standby opens =
     lipo_bq25672_write_profile opens [(0x01, 0x01), (0x02, 0xAE), (0x0A, 0x23)]"

subsection \<open>The fuel gauge\<close>

text \<open>\<open>fscanf\<close> with \<open>%d\<close> matches when a digit follows the blanks and the sign.\<close>

definition scans_int :: "string \<Rightarrow> bool" where
  "scans_int s =
     (let s = dropWhile is_space s;
          s = (case s of [] \<Rightarrow> [] | c # t \<Rightarrow> if c = CHR ''-'' \<or> c = CHR ''+'' then t else s)
      in s \<noteq> [] \<and> digit_value (s ! 0) < 10)"

definition lipo_gauge_read_int :: "(string \<Rightarrow> sysfile) \<Rightarrow> string \<Rightarrow> int" where
  "lipo_gauge_read_int fs attr = (case fs attr of
     No_file e \<Rightarrow> if e then -1 else 0
   | Contents s \<Rightarrow> if scans_int s then to_int32 (strtol 10 s) else -1)"

definition lipo_gauge_read_str :: "(string \<Rightarrow> sysfile) \<Rightarrow> string \<Rightarrow> string" where
  "lipo_gauge_read_str fs attr = (case fs attr of
     No_file e \<Rightarrow> []
   | Contents s \<Rightarrow> take 63 (takeWhile (\<lambda>c. \<not> is_space c) (dropWhile is_space s)))"

datatype info_pub = Pub_int string int | Pub_str string string | Warn nat bool

definition bit_of :: "int \<Rightarrow> nat \<Rightarrow> bool" where
  "bit_of r k \<longleftrightarrow> bit (word_of_int r :: u8) k"

text \<open>The bits of the register, twice: the second pass reads the same register again.\<close>

definition warn_first :: "int \<Rightarrow> info_pub list" where
  "warn_first rc = (if 0 \<le> rc
     then map (\<lambda>i. Warn i (bit_of rc (7 - i))) [0..<8] @ [Warn 8 False] else [Warn 8 True])"

definition warn_second :: "int \<Rightarrow> info_pub list" where
  "warn_second rc = (if 0 \<le> rc
     then [Warn 9 (bit_of rc 7), Warn 10 (bit_of rc 6), Warn 11 (bit_of rc 5), Warn 12 (bit_of rc 4),
           Warn 13 (bit_of rc 2), Warn 8 False] else [Warn 8 True])"

definition lipo_publish_info :: "(string \<Rightarrow> sysfile) \<Rightarrow> sysfile \<Rightarrow> sysfile \<Rightarrow> info_pub list" where
  "lipo_publish_info fs regs1 regs2 =
     (let num = (\<lambda>topic attr. Pub_int (''power/battery/lipo/info/'' @ topic) (lipo_gauge_read_int fs attr));
          str = (\<lambda>topic attr. Pub_str (''power/battery/lipo/info/'' @ topic) (lipo_gauge_read_str fs attr))
      in [num ''soc'' ''charge_now'', num ''charge_full_design'' ''charge_full_design'',
          num ''charge_full'' ''charge_full'', num ''capacity'' ''capacity'',
          num ''current_now'' ''current_now'', num ''voltage'' ''voltage_now'',
          num ''cycles'' ''cycle_count'', str ''health'' ''health'', str ''status'' ''status'',
          num ''temp'' ''hwmon1/temp1_input'', num ''pwr_avg'' ''power_avg'',
          str ''capacity_lvl'' ''capacity_level''] @
         warn_first (bq25672_read_register regs1 0x20) @ warn_second (bq25672_read_register regs2 0x20))"

subsection \<open>Reading a printed register\<close>

text \<open>A line of the dump, and a text made of lines that fit the buffer of the reader.\<close>

definition register_line :: "u8 \<Rightarrow> string \<Rightarrow> u8 \<Rightarrow> string" where
  "register_line reg name v = ''[0x'' @ hex2 reg @ ''] '' @ name @ '' = 0x'' @ hex2 v"

definition dump :: "string list \<Rightarrow> string" where
  "dump ls = concat (map (\<lambda>l. l @ [CHR 0x0A]) ls)"

definition plain :: "nat \<Rightarrow> string \<Rightarrow> bool" where
  "plain n l \<longleftrightarrow> CHR 0x0A \<notin> set l \<and> length l \<le> n"

lemma fgets_line:
  assumes "plain n l"
  shows "fgets (Suc n) (l @ CHR 0x0A # s) = (l @ [CHR 0x0A], s)"
  using assms
proof (induction l arbitrary: n)
  case (Cons c l)
  then obtain m where m: "n = Suc m" by (cases n) (auto simp: plain_def)
  with Cons show ?case by (auto simp: plain_def)
qed simp

lemma read_dump: "\<forall>l \<in> set ls. plain n l \<Longrightarrow> read_lines n (dump ls) = map (\<lambda>l. l @ [CHR 0x0A]) ls"
proof (induction ls)
  case Nil
  then show ?case by (simp add: dump_def read_lines.simps)
next
  case (Cons l ls)
  have "dump (l # ls) = l @ CHR 0x0A # dump ls" by (simp add: dump_def)
  then show ?case using Cons fgets_line [of n l "dump ls"] by (subst read_lines.simps) simp
qed

lemma hex_cases: "n < 16 \<Longrightarrow> n \<in> {0,1,2,3,4,5,6,7,8,9,10,11,12,13,14,15 :: nat}"
  by simp arith

lemma hex_digit_facts:
  assumes "n < 16"
  shows "digit_value (hex_digit n) = n" "hex_digit n \<noteq> CHR 0x0A" "hex_digit n \<noteq> CHR ''=''"
    "hex_digit n \<noteq> CHR ''H''" "CHR 0x0A \<noteq> hex_digit n" "\<not> is_space (hex_digit n)"
  using hex_cases [OF assms] by (auto simp: hex_digit_def digit_value_def is_space_def Let_def)

lemma nibbles: "unat (v :: u8) div 16 < 16" "unat v mod 16 < 16"
  using unat_u8_less [of v] by (simp_all add: less_mult_imp_div_less)

lemma hex2_value: "digits_value 16 0 (hex2 v @ CHR 0x0A # s) = unat v"
  using nibbles [of v] by (simp add: hex2_def hex_digit_facts) (simp add: digit_value_def Let_def)

lemma strtol_hex:
  "strtol 16 (''0x'' @ hex2 v @ CHR 0x0A # s) = int (unat v)"
  "strtol 16 ('' 0x'' @ hex2 v @ CHR 0x0A # s) = int (unat v)"
proof -
  have "min 9223372036854775807 (uint v) = uint v" using uint_bounded [of v] by simp
  then show "strtol 16 (''0x'' @ hex2 v @ CHR 0x0A # s) = int (unat v)"
    "strtol 16 ('' 0x'' @ hex2 v @ CHR 0x0A # s) = int (unat v)"
    using nibbles [of v] hex2_value [of v s]
    by (simp_all add: strtol_def is_space_def hex2_def hex_digit_facts LONG_MAX_def)
qed

lemma status_line:
  "strstr ''CHRG_STAT_0'' (register_line reg ''CHRG_STAT_0'' v @ s) =
     Some (''CHRG_STAT_0 = 0x'' @ hex2 v @ s)"
  "strchr (CHR ''='') (''CHRG_STAT_0 = 0x'' @ hex2 v @ s) = Some (''= 0x'' @ hex2 v @ s)"
  "strchr (CHR ''='') (register_line reg ''CHRG_STAT_0'' v @ s) = Some (''= 0x'' @ hex2 v @ s)"
  using nibbles [of reg] by (simp_all add: register_line_def starts_def hex2_def hex_digit_facts)

lemma ac_scan_skip: "\<forall>l \<in> set ls. strstr ''CHRG_STAT_0'' l = None \<Longrightarrow> ac_scan (ls @ ms) = ac_scan ms"
  by (induction ls) simp_all

lemma vac1_scan_skip: "\<forall>l \<in> set ls. strstr ''CHRG_STAT_0'' l = None \<Longrightarrow> vac1_scan (ls @ ms) = vac1_scan ms"
  by (induction ls) simp_all

lemma register_scan_skip: "\<forall>l \<in> set ls. strstr tag l = None \<Longrightarrow> register_scan tag (ls @ ms) = register_scan tag ms"
  by (induction ls) simp_all

text \<open>A needle without a newline is not in a line if it is not in its text.\<close>

lemma strstr_newline:
  assumes "strstr needle l = None" "CHR 0x0A \<notin> set needle" "needle \<noteq> []"
  shows "strstr needle (l @ [CHR 0x0A]) = None"
  using assms
proof (induction l)
  case Nil
  then show ?case by (cases needle) (auto simp: starts_def)
next
  case (Cons c l)
  have "\<not> starts needle (c # l @ [CHR 0x0A])"
  proof
    assume "starts needle (c # l @ [CHR 0x0A])"
    then have n: "take (length needle) ((c # l) @ [CHR 0x0A]) = needle" by (simp add: starts_def)
    show False
    proof (cases "length needle \<le> length (c # l)")
      case True
      then have "take (length needle) (c # l) = needle"
        using n by (metis append_Nil2 diff_is_0_eq' take_0 take_append)
      then show False using Cons.prems(1) by (simp add: starts_def split: if_splits)
    next
      case False
      then have "CHR 0x0A \<in> set needle" by (subst n [symmetric]) (auto simp: take_Cons')
      then show False using Cons.prems(2) by blast
    qed
  qed
  then show ?case using Cons by (simp split: if_splits)
qed

lemma digits10: "digits_value 10 0 (hex2 v @ CHR 0x0A # s) =
    (let h = unat v div 16; l = unat v mod 16
     in if 10 \<le> h then 0 else if 10 \<le> l then h else 10 * h + l)"
  using nibbles [of v] by (auto simp: hex2_def hex_digit_facts Let_def) (auto simp: digit_value_def Let_def)

lemma to_int32_byte: "n < 256 \<Longrightarrow> to_int32 (int n) = int n"
  unfolding to_int32_def signed_of_int by (simp add: signed_take_bit_int_eq_self del: of_int_of_nat_eq)

text \<open>The number that a decimal reading takes from two hexadecimal digits.\<close>

definition decimal_prefix :: "u8 \<Rightarrow> int" where
  "decimal_prefix v =
     (let h = unat v div 16; l = unat v mod 16
      in if 10 \<le> h then 0 else if 10 \<le> l then int h else int (10 * h + l))"

lemma strtol_dec: "to_int32 (strtol 10 (hex2 v @ CHR 0x0A # s)) = decimal_prefix v"
proof -
  have first: "hex2 v = hex_digit (unat v div 16) # [hex_digit (unat v mod 16)]" by (simp add: hex2_def)
  let ?c = "hex_digit (unat v div 16)"
  have c: "\<not> is_space ?c" "?c \<noteq> CHR ''-''" "?c \<noteq> CHR ''+''"
    using hex_cases [OF nibbles(1) [of v]] by (auto simp: hex_digit_def is_space_def)
  have bound: "digits_value 10 0 (hex2 v @ CHR 0x0A # s) < 256"
    unfolding digits10 using nibbles [of v] by (auto simp: Let_def)
  have skip: "skip_prefix 10 t = t" for t by (cases "(10 :: nat, t)" rule: skip_prefix.cases) simp_all
  have "strtol 10 (hex2 v @ CHR 0x0A # s) = int (digits_value 10 0 (hex2 v @ CHR 0x0A # s))"
    using bound c by (simp add: strtol_def skip first LONG_MAX_def)
  then show ?thesis
    using to_int32_byte [OF bound] by (simp add: digits10 decimal_prefix_def Let_def)
qed

lemma decimal_prefix_exact: "decimal_prefix v = int (unat v) \<longleftrightarrow> unat v < 10"
proof -
  define h l where "h = unat v div 16" and "l = unat v mod 16"
  have "unat v = 16 * h + l" "l < 16" "h < 16" using nibbles [of v] by (simp_all add: h_def l_def)
  then show ?thesis by (auto simp: decimal_prefix_def h_def [symmetric] l_def [symmetric] Let_def)
qed

text \<open>
  In a dump whose lines fit the buffers, with the status register printed
  on one line and named on no earlier one, both status readers take the printed byte: mains is
  present when one of its three low bits is set, the first adapter input when bit 1 is.  The general
  register reader scans the hexadecimal digits as decimal ones and returns the printed value only
  when it is below 10.
\<close>

theorem registers_read_back:
  fixes reg v :: u8
  assumes "\<forall>l \<in> set (pre @ post). plain 126 l"
    and "\<forall>l \<in> set pre. strstr ''CHRG_STAT_0'' l = None \<and> strstr (''[0x'' @ hex2 reg @ '']'') l = None"
  defines "f \<equiv> Contents (dump (pre @ register_line reg ''CHRG_STAT_0'' v # post))"
  shows "low_power_ac_present f = (unat v mod 8 \<noteq> 0) \<and> bq25672_read_vac1_chrgstat0 f = bit v 1 \<and>
    bq25672_read_register f reg = decimal_prefix v \<and>
    (bq25672_read_register f reg = int (unat v) \<longleftrightarrow> unat v < 10)"
proof -
  let ?line = "register_line reg ''CHRG_STAT_0'' v" and ?nl = "\<lambda>l. l @ [CHR 0x0A]"
  have l: "plain 126 ?line"
    using nibbles [of reg] nibbles [of v] by (simp add: plain_def register_line_def hex2_def hex_digit_facts)
  have lines: "read_lines n (dump (pre @ ?line # post)) = map ?nl pre @ ?nl ?line # map ?nl post"
    if "126 \<le> n" for n
  proof -
    have "\<forall>k \<in> set (pre @ ?line # post). plain n k"
      using assms(1) l that by (force simp: plain_def)
    from read_dump [OF this] show ?thesis by simp
  qed
  have pre1: "\<forall>k \<in> set (map ?nl pre). strstr ''CHRG_STAT_0'' k = None"
    using assms(2) by (auto intro: strstr_newline)
  have "CHR 0x0A \<notin> set (''[0x'' @ hex2 reg @ '']'')"
    using nibbles [of reg] by (simp add: hex2_def hex_digit_facts)
  then have pre2: "\<forall>k \<in> set (map ?nl pre). strstr (''[0x'' @ hex2 reg @ '']'') k = None"
    using assms(2) by (auto intro!: strstr_newline)
  have "low_power_ac_present f = (int (unat v) mod 8 \<noteq> 0)"
    using strtol_hex(2) [of v "[]"] status_line [where s = "[CHR 0x0A]"]
    by (simp add: f_def low_power_ac_present_def lines ac_scan_skip [OF pre1] del: strstr.simps strchr.simps)
  moreover have "low_power_ac_present f = (unat v mod 8 \<noteq> 0)"
    using calculation by presburger
  moreover have "bq25672_read_vac1_chrgstat0 f = bit v 1"
  proof -
    have "vac1_scan [?nl ?line] = int (unat v)"
      using strtol_hex(1) [of v "[]"] status_line [where s = "[CHR 0x0A]"] to_int32_byte [of "unat v"]
      by (simp del: strstr.simps strchr.simps)
    then have "vac1_scan (?nl ?line # map ?nl post) = int (unat v)"
      using status_line [where s = "[CHR 0x0A]"] by (simp del: strstr.simps strchr.simps)
    then have "bq25672_read_vac1_chrgstat0 f = ((int (unat v) div 2) mod 2 \<noteq> 0)"
      by (simp add: f_def bq25672_read_vac1_chrgstat0_def lines vac1_scan_skip [OF pre1]
          del: strstr.simps strchr.simps vac1_scan.simps)
    also have "\<dots> = bit (uint v) 1" by (simp add: bit_iff_odd [of "uint v"] odd_iff_mod_2_eq_one)
    also have "\<dots> = bit v 1" by (simp add: bit_uint_iff)
    finally show ?thesis .
  qed
  moreover have "bq25672_read_register f reg = decimal_prefix v"
  proof -
    have "strstr (''[0x'' @ hex2 reg @ '']'') (?nl ?line) = Some (?nl ?line)"
      by (simp add: register_line_def starts_def)
    moreover have "strstr '' = 0x'' (?nl ?line) = Some ('' = 0x'' @ hex2 v @ [CHR 0x0A])"
      using nibbles [of reg] nibbles [of v] by (simp add: register_line_def starts_def hex2_def hex_digit_facts)
    ultimately have "register_scan (''[0x'' @ hex2 reg @ '']'') (?nl ?line # map ?nl post) = decimal_prefix v"
      using strtol_dec [of v "[]"] by (simp del: strstr.simps)
    then show ?thesis
      using register_scan_skip [OF pre2, of "?nl ?line # map ?nl post"]
      by (simp add: f_def bq25672_read_register_def lines del: strstr.simps register_scan.simps)
  qed
  ultimately show ?thesis using decimal_prefix_exact [of v] by simp
qed

theorem registers_read_back_witness:
  "low_power_ac_present (Contents (dump [register_line 0x1A ''VBUS'' 0x11, register_line 0x1B ''CHRG_STAT_0'' 0x1A])) \<and>
   bq25672_read_vac1_chrgstat0 (Contents (dump [register_line 0x1A ''VBUS'' 0x11, register_line 0x1B ''CHRG_STAT_0'' 0x1A])) \<and>
   bq25672_read_register (Contents (dump [register_line 0x1A ''VBUS'' 0x11, register_line 0x1B ''CHRG_STAT_0'' 0x1A])) 0x1B = 1"
proof -
  have 1: "\<forall>l \<in> set ([register_line 0x1A ''VBUS'' 0x11] @ []). plain 126 l" by code_simp
  have 2: "\<forall>l \<in> set [register_line 0x1A ''VBUS'' 0x11].
    strstr ''CHRG_STAT_0'' l = None \<and> strstr (''[0x'' @ hex2 0x1B @ '']'') l = None" by code_simp
  have 3: "decimal_prefix 0x1A = 1" by code_simp
  have 4: "bit (0x1A :: u8) 1" by simp
  show ?thesis using registers_read_back [OF 1 2, of "0x1A"] 3 4 by simp
qed

text \<open>
  Without the status line the readers disagree.  A file that cannot be
  opened reads as no mains, no adapter and register -1; a dump that names the register on no line
  reads as no mains and register -1, but as an adapter that is present: bit 1 of the initial -1.
\<close>

theorem missing_status_reads:
  "\<not> low_power_ac_present (No_file e) \<and> \<not> bq25672_read_vac1_chrgstat0 (No_file e) \<and>
   bq25672_read_register (No_file e) reg = -1 \<and>
   (list_all (\<lambda>l. strstr ''CHRG_STAT_0'' l = None) (read_lines 254 s) \<longrightarrow> \<not> low_power_ac_present (Contents s)) \<and>
   (list_all (\<lambda>l. strstr ''CHRG_STAT_0'' l = None) (read_lines 126 s) \<longrightarrow> bq25672_read_vac1_chrgstat0 (Contents s)) \<and>
   (list_all (\<lambda>l. strstr (''[0x'' @ hex2 reg @ '']'') l = None) (read_lines 126 s) \<longrightarrow>
      bq25672_read_register (Contents s) reg = -1)"
proof -
  have a: "list_all (\<lambda>l. strstr ''CHRG_STAT_0'' l = None) ls \<Longrightarrow> \<not> ac_scan ls" for ls
    by (induction ls) simp_all
  have v: "list_all (\<lambda>l. strstr ''CHRG_STAT_0'' l = None) ls \<Longrightarrow> vac1_scan ls = -1" for ls
    by (induction ls) simp_all
  have r: "list_all (\<lambda>l. strstr tag l = None) ls \<Longrightarrow> register_scan tag ls = -1" for ls tag
    by (induction ls) simp_all
  show ?thesis
    by (simp add: low_power_ac_present_def bq25672_read_vac1_chrgstat0_def bq25672_read_register_def a v r)
qed

theorem missing_status_reads_witness:
  "\<not> low_power_ac_present (Contents ''no such register'') \<and> bq25672_read_vac1_chrgstat0 (Contents ''no such register'') \<and>
   bq25672_read_register (Contents ''no such register'') 0x1B = -1"
proof -
  have 1: "list_all (\<lambda>l. strstr ''CHRG_STAT_0'' l = None) (read_lines 254 ''no such register'')" by code_simp
  have 2: "list_all (\<lambda>l. strstr ''CHRG_STAT_0'' l = None) (read_lines 126 ''no such register'')" by code_simp
  have 3: "list_all (\<lambda>l. strstr (''[0x'' @ hex2 0x1B @ '']'') l = None) (read_lines 126 ''no such register'')" by code_simp
  show ?thesis using missing_status_reads [where reg = "0x1B" and s = "''no such register''"] 1 2 3 by blast
qed

end
