(* ===== verification/LowPower.thy ===== *)
theory LowPower
  imports Sysfs
begin

text \<open>
  Suspend and power-off of the power service, \<open>main/power/src/low_power.c\<close>, and the bring-up of
  the converter that feeds the LiPo charger, \<open>lipo_buck_enable_pgood\<close> in
  \<open>main/power/src/lipo_control.c\<close>.

  What the kernel answers in one run is a record: the clock and the alarm, the two packet counts, and
  the result of each write to a control file.  What the operations do is a list of operations in order.
  Times are seconds; the conversion to calendar fields and back is the C library's.  The bring-up reads
  the other parts of the service through an environment indexed by the number of reads, as in
  \<open>PowerState\<close>; log lines, and the reads made only for them, are left out.
\<close>

subsection \<open>Suspending\<close>

datatype lp_op =
    Rtc_arm int
  | Write string string int
  | Sleep int
  | Lp_pub string int
  | Vcan nat
  | System string
  | Tick "64 word"

record lp_answers =
  rtc_time :: "int option"
  rtc_arm_ok :: bool
  rtc_alarm :: "bool option"
  wom_base :: string
  write_rc :: "string \<Rightarrow> string \<Rightarrow> int"
  rx_first :: sysfile
  rx_second :: sysfile

definition lp_write :: "lp_answers \<Rightarrow> string \<Rightarrow> string \<Rightarrow> int \<times> lp_op list" where
  "lp_write a path v = (let rc = write_rc a path v in (rc, [Write path v rc]))"

definition rtc_set_alarm_ioctl :: "lp_answers \<Rightarrow> int \<Rightarrow> int \<times> lp_op list" where
  "rtc_set_alarm_ioctl a t = (if rtc_arm_ok a then (0, [Rtc_arm t]) else (-1, []))"

definition rtc_set_wake_alarm :: "lp_answers \<Rightarrow> int \<Rightarrow> int \<times> lp_op list" where
  "rtc_set_wake_alarm a offset = (case rtc_time a of
     None \<Rightarrow> (-1, [])
   | Some t \<Rightarrow> rtc_set_alarm_ioctl a (t + offset))"

text \<open>The flag of the pending alarm; \<open>None\<close> when it cannot be read.\<close>

definition rtc_get_wake_alarm :: "lp_answers \<Rightarrow> bool option" where
  "rtc_get_wake_alarm a = rtc_alarm a"

definition wom_path :: "lp_answers \<Rightarrow> string" where
  "wom_path a = wom_base a @ ''/event_wom_enable''"

definition wom_enable :: "lp_answers \<Rightarrow> int \<times> lp_op list" where
  "wom_enable a = (if 0x80 \<le> length (wom_path a) then (-1, []) else lp_write a (wom_path a) ''1'')"

definition wom_disable :: "lp_answers \<Rightarrow> int \<times> lp_op list" where
  "wom_disable a = (if 0x80 \<le> length (wom_path a) then (-1, []) else lp_write a (wom_path a) ''0'')"

definition ENOENT :: int where "ENOENT = 2"

definition mem_sleep :: string where "mem_sleep = ''/sys/power/mem_sleep''"

definition sys_state :: string where "sys_state = ''/sys/power/state''"

definition suspend_handler_write :: "lp_answers \<Rightarrow> bool \<Rightarrow> int \<times> lp_op list" where
  "suspend_handler_write a s2idle =
     (let (rc, ops) = lp_write a mem_sleep (if s2idle then ''s2idle'' else ''deep'')
      in if rc \<noteq> 0 then (if rc = - ENOENT then rc else -1, ops)
         else (let (rc, ops') = lp_write a sys_state ''mem'' in (rc, ops @ ops')))"

text \<open>The scan fills the low half of a zero 64-bit variable.\<close>

definition read_rx_packets :: "sysfile \<Rightarrow> bool \<times> int" where
  "read_rx_packets f = (case f of
     No_file e \<Rightarrow> (\<not> e, -1)
   | Contents s \<Rightarrow> if scans_int s then (True, uint (word_of_int (strtol 10 s) :: u32)) else (False, -1))"

definition low_power_can_bus_quiet :: "lp_answers \<Rightarrow> int \<Rightarrow> bool \<times> lp_op list" where
  "low_power_can_bus_quiet a timeout_ms =
     (let (ok, before) = read_rx_packets (rx_first a)
      in if \<not> ok then (False, [])
         else
           let ops = (if 0 < timeout_ms then [Sleep timeout_ms] else []);
               (ok, after) = read_rx_packets (rx_second a)
           in if \<not> ok then (False, ops) else (before = after, ops))"

text \<open>Where the code goes after arming the alarm and the motion sensor: whatever fails there is only
  logged.\<close>

definition suspend_arm :: "lp_answers \<Rightarrow> int \<Rightarrow> bool \<Rightarrow> lp_op list" where
  "suspend_arm a wake_alarm_s enable_wom =
     (if wake_alarm_s \<noteq> 0 then snd (rtc_set_wake_alarm a wake_alarm_s) else []) @
     (if enable_wom then snd (wom_enable a) else [])"

definition wake_source :: "lp_answers \<Rightarrow> int \<Rightarrow> bool \<Rightarrow> int \<times> lp_op list" where
  "wake_source a wake_alarm_s enable_wom =
     (if wake_alarm_s \<noteq> 0 \<and> rtc_get_wake_alarm a = None then (-1, [])
      else
        let enabled = (wake_alarm_s \<noteq> 0 \<and> rtc_get_wake_alarm a = Some True);
            (rc, ops) = (if enable_wom then wom_disable a else (0, []))
        in if rc \<noteq> 0 then (-1, ops) else (if enabled then 0 else 1, ops))"

definition low_power_suspend_system :: "lp_answers \<Rightarrow> int \<Rightarrow> bool \<Rightarrow> bool \<Rightarrow> int \<times> lp_op list" where
  "low_power_suspend_system a wake_alarm_s enable_wom s2idle =
     (let armed = suspend_arm a wake_alarm_s enable_wom;
          (quiet, waited) = low_power_can_bus_quiet a 500;
          (rc, slept) = (if quiet then suspend_handler_write a s2idle else (0, []))
      in if rc \<noteq> 0 then (-1, armed @ waited @ slept)
         else (let (rc, woken) = wake_source a wake_alarm_s enable_wom
               in (rc, armed @ waited @ slept @ woken)))"

subsection \<open>Power-off, standby requests and the extension of the standby time\<close>

definition low_power_poweroff :: "lp_answers \<Rightarrow> sysfile \<Rightarrow> lp_op list" where
  "low_power_poweroff a regs =
     (if low_power_ac_present regs then []
      else snd (lp_write a ''/sys/bus/i2c/devices/2-0055/subcommandcode'' ''00 11'') @ [System ''/sbin/poweroff''])"

definition low_power_can_suspend :: "lp_op list" where "low_power_can_suspend = [Vcan 1]"

definition low_power_can_stop :: "lp_op list" where "low_power_can_stop = [Vcan 2]"

definition low_power_request_standby :: "lp_op list" where
  "low_power_request_standby = [Lp_pub ''power/low_power'' 1]"

definition low_power_request_standby2 :: "lp_op list" where
  "low_power_request_standby2 = [Lp_pub ''power/low_power'' 2]"

definition low_power_publish_deep_sleep :: "bool \<Rightarrow> lp_op list" where
  "low_power_publish_deep_sleep b = [Lp_pub ''power/deep_sleep'' (if b then 1 else 0)]"

text \<open>The seconds are a signed 32-bit number, widened and scaled in 64 bits.\<close>

definition low_power_on_extend :: "bytes \<Rightarrow> lp_op list" where
  "low_power_on_extend f =
     (let tag = f ! 0;
          seconds = (ucast (f ! 1) OR push_bit 8 (ucast (f ! 2)) OR push_bit 16 (ucast (f ! 3)) OR
                     push_bit 24 (ucast (f ! 4)) :: u32)
      in if 3 \<le> tag - 5 then [] else [Tick (scast seconds * 1000)])"

subsection \<open>Bringing up the converter\<close>

record pg_reads =
  pg_target :: int
  pg_ps_substate :: nat
  pg_battery_on :: bool
  pg_stable :: bool
  pg_pgood :: bool
  pg_vac1 :: bool
  pg_now :: int

datatype pg_op =
    Battery_cmd nat
  | Pg_sleep int
  | Buck bool
  | Change_state int
  | Publish_done
  | Arm_tick int
  | Set_switches int
  | Stamp_done int

record pg =
  pg_clk :: nat
  pg_flag :: nat
  pg_ops :: "pg_op list"

definition pg_rd :: "(nat \<Rightarrow> pg_reads) \<Rightarrow> (pg_reads \<Rightarrow> 'a) \<Rightarrow> pg \<Rightarrow> 'a \<times> pg" where
  "pg_rd env r s = (r (env (pg_clk s)), s\<lparr>pg_clk := pg_clk s + 1\<rparr>)"

definition pg_do :: "pg_op list \<Rightarrow> pg \<Rightarrow> pg" where
  "pg_do xs s = s\<lparr>pg_ops := pg_ops s @ xs\<rparr>"

text \<open>Clearing the flags of the battery, and its reset when that does not turn it on.  The flag tells
  whether to go on.\<close>

definition pg_battery :: "(nat \<Rightarrow> pg_reads) \<Rightarrow> pg \<Rightarrow> bool \<times> pg" where
  "pg_battery env s =
     (let s = pg_do [Battery_cmd 9, Pg_sleep 2000, Battery_cmd 1, Pg_sleep 14000] s;
          (on, s) = pg_rd env pg_battery_on s
      in if on then (True, s\<lparr>pg_flag := 2\<rparr>)
         else
           let s = pg_do [Battery_cmd 6, Pg_sleep 21000, Battery_cmd 1, Pg_sleep 14000] s;
               (on, s) = pg_rd env pg_battery_on s
           in if on then (True, s\<lparr>pg_flag := 2\<rparr>)
              else (False, (pg_do [Publish_done] s)\<lparr>pg_flag := 3\<rparr>))"

fun pg_attempts :: "(nat \<Rightarrow> pg_reads) \<Rightarrow> nat \<Rightarrow> pg \<Rightarrow> pg" where
  "pg_attempts env 0 s = s"
| "pg_attempts env (Suc left) s =
     (let s = pg_do [Buck True, Pg_sleep 100] s;
          (good, s) = pg_rd env pg_pgood s
      in if good then s
         else
           let s = pg_do [Buck False, Pg_sleep 100] s
           in if left = 0 then pg_do [Change_state 2, Publish_done, Arm_tick 3000] s
              else pg_attempts env left s)"

definition pg_commit :: "(nat \<Rightarrow> pg_reads) \<Rightarrow> pg \<Rightarrow> pg" where
  "pg_commit env s =
     (let (vac1, s) = pg_rd env pg_vac1 s
      in if \<not> vac1 then s
         else
           let (stable, s) = pg_rd env pg_stable s
           in if \<not> stable then s
              else
                let (target, s) = pg_rd env pg_target s;
                    s = pg_do [Set_switches target, Pg_sleep 100] s;
                    (target, s) = pg_rd env pg_target s;
                    s = pg_do [Change_state target] s;
                    (t, s) = pg_rd env pg_now s
                in pg_do [Stamp_done t, Publish_done] s)"

definition lipo_buck_enable_pgood :: "(nat \<Rightarrow> pg_reads) \<Rightarrow> pg \<Rightarrow> pg" where
  "lipo_buck_enable_pgood env s =
     (let (target, s) = pg_rd env pg_target s
      in if 6 < target \<or> \<not> bit (0x69 :: int) (nat (target mod 64)) then pg_do [Publish_done] s
         else
           let (target, s) = pg_rd env pg_target s;
               (sub, s) = (if target = 0 then pg_rd env pg_ps_substate s else (1, s))
           in if target = 0 \<and> sub \<noteq> 1 then pg_do [Publish_done] s
              else
                let (go, s) = (if pg_flag s = 1 then pg_battery env s
                               else if pg_flag s = 3 \<or> pg_flag s = 0 then (False, pg_do [Publish_done] s)
                               else (True, s))
                in if \<not> go then s
                   else
                     let (stable, s) = pg_rd env pg_stable s;
                         s = (if stable then pg_attempts env 5 s else s)
                     in pg_commit env s)"

subsection \<open>What a suspend does\<close>

definition bus_quiet :: "lp_answers \<Rightarrow> bool" where
  "bus_quiet a \<longleftrightarrow> fst (low_power_can_bus_quiet a 500)"

definition sleep_mode :: "bool \<Rightarrow> string" where
  "sleep_mode s2idle = (if s2idle then ''s2idle'' else ''deep'')"

definition motion_disarmed :: "lp_answers \<Rightarrow> bool" where
  "motion_disarmed a \<longleftrightarrow> length (wom_path a) < 0x80 \<and> write_rc a (wom_path a) ''0'' = 0"

lemma bus_quiet_iff:
  "bus_quiet a \<longleftrightarrow> fst (read_rx_packets (rx_first a)) \<and> fst (read_rx_packets (rx_second a)) \<and>
     snd (read_rx_packets (rx_first a)) = snd (read_rx_packets (rx_second a))"
  by (simp add: bus_quiet_def low_power_can_bus_quiet_def Let_def split: prod.splits)

lemma wom_path_other: "wom_path a \<noteq> sys_state"
proof
  assume "wom_path a = sys_state"
  then have "rev (wom_path a) = rev sys_state" by simp
  then show False by (simp add: wom_path_def sys_state_def)
qed

lemma no_mem_elsewhere:
  "Write sys_state ''mem'' r \<notin> set (suspend_arm a alarm wom)"
  "Write sys_state ''mem'' r \<notin> set (snd (low_power_can_bus_quiet a t))"
  "Write sys_state ''mem'' r \<notin> set (snd (wake_source a alarm wom))"
  using wom_path_other [of a]
  by (auto simp: suspend_arm_def rtc_set_wake_alarm_def rtc_set_alarm_ioctl_def wom_enable_def lp_write_def
      wake_source_def wom_disable_def low_power_can_bus_quiet_def Let_def split: option.splits if_splits prod.splits)

lemma mem_in_handler:
  "(\<exists>r. Write sys_state ''mem'' r \<in> set (snd (suspend_handler_write a s2idle))) \<longleftrightarrow>
     write_rc a mem_sleep (sleep_mode s2idle) = 0"
  by (auto simp: suspend_handler_write_def lp_write_def sleep_mode_def mem_sleep_def sys_state_def Let_def)

lemma handler_rc:
  "fst (suspend_handler_write a s2idle) = 0 \<longleftrightarrow>
     write_rc a mem_sleep (sleep_mode s2idle) = 0 \<and> write_rc a sys_state ''mem'' = 0"
  by (auto simp: suspend_handler_write_def lp_write_def sleep_mode_def ENOENT_def Let_def split: if_splits)

lemma wake_rc:
  "fst (wake_source a alarm wom) =
     (if alarm \<noteq> 0 \<and> rtc_alarm a = None \<or> wom \<and> \<not> motion_disarmed a then -1
      else if alarm \<noteq> 0 \<and> rtc_alarm a = Some True then 0 else 1)"
  by (auto simp: wake_source_def rtc_get_wake_alarm_def wom_disable_def motion_disarmed_def lp_write_def Let_def)

lemma suspend_parts:
  fixes a alarm wom s2idle
  defines "h \<equiv> (if bus_quiet a then suspend_handler_write a s2idle else (0, []))"
    and "w \<equiv> wake_source a alarm wom"
    and "pre \<equiv> suspend_arm a alarm wom @ snd (low_power_can_bus_quiet a 500)"
  shows "low_power_suspend_system a alarm wom s2idle =
    (if fst h \<noteq> 0 then (-1, pre @ snd h) else (fst w, pre @ snd h @ snd w))"
  by (simp add: low_power_suspend_system_def h_def w_def pre_def bus_quiet_def case_prod_beta Let_def)

text \<open>
  C23.  The processor is told to sleep, by a write that is made whatever it answers, exactly
  when the bus was quiet and the sleep mode could be selected, whatever happened while the alarm and the
  motion sensor were armed.  The result
  is an error exactly when an attempted sleep failed, the alarm could not be read back or the motion
  sensor could not be disarmed; otherwise it tells motion exactly when an alarm was asked for and
  its flag is still set, and the alarm in every other case, also when none was asked for and when the
  bus was not quiet.
\<close>

theorem suspend_gate:
  "((\<exists>r. Write sys_state ''mem'' r \<in> set (snd (low_power_suspend_system a alarm wom s2idle))) \<longleftrightarrow>
      bus_quiet a \<and> write_rc a mem_sleep (sleep_mode s2idle) = 0) \<and>
   fst (low_power_suspend_system a alarm wom s2idle) =
     (if (bus_quiet a \<and> \<not> (write_rc a mem_sleep (sleep_mode s2idle) = 0 \<and> write_rc a sys_state ''mem'' = 0)) \<or>
         (alarm \<noteq> 0 \<and> rtc_alarm a = None) \<or> (wom \<and> \<not> motion_disarmed a) then -1
      else if alarm \<noteq> 0 \<and> rtc_alarm a = Some True then 0 else 1)"
  unfolding suspend_parts
  using no_mem_elsewhere [where a = a] mem_in_handler [of a s2idle] handler_rc [of a s2idle]
  by (auto simp: wake_rc)

subsection \<open>What the bring-up does\<close>

definition failed_attempt :: "pg_op list" where
  "failed_attempt = [Buck True, Pg_sleep 100, Buck False, Pg_sleep 100]"

definition misses :: "(nat \<Rightarrow> pg_reads) \<Rightarrow> nat \<Rightarrow> nat \<Rightarrow> nat" where
  "misses env k n = length (takeWhile (\<lambda>i. \<not> pg_pgood (env i)) [k..<k + n])"

lemma misses_Suc: "misses env k (Suc n) = (if pg_pgood (env k) then 0 else Suc (misses env (Suc k) n))"
  by (simp add: misses_def upt_conv_Cons del: upt_Suc)

lemma misses_le: "misses env k n \<le> n"
  unfolding misses_def by (rule order_trans [OF length_takeWhile_le]) simp

lemma attempts_outcome:
  "0 < n \<Longrightarrow> pg_attempts env n s =
     s\<lparr>pg_clk := pg_clk s + min n (Suc (misses env (pg_clk s) n)),
       pg_ops := pg_ops s @ concat (replicate (misses env (pg_clk s) n) failed_attempt) @
         (if misses env (pg_clk s) n < n then [Buck True, Pg_sleep 100]
          else [Change_state 2, Publish_done, Arm_tick 3000])\<rparr>"
proof (induction n arbitrary: s)
  case 0
  then show ?case by simp
next
  case (Suc n)
  show ?case
  proof (cases "n = 0")
    case True
    then show ?thesis
      by (simp add: misses_Suc pg_rd_def pg_do_def failed_attempt_def Let_def) (simp add: misses_def)
  next
    case False
    let ?s = "s\<lparr>pg_clk := pg_clk s + 1, pg_ops := pg_ops s @ failed_attempt\<rparr>"
    have "pg_attempts env (Suc n) s =
        (if pg_pgood (env (pg_clk s)) then s\<lparr>pg_clk := pg_clk s + 1, pg_ops := pg_ops s @ [Buck True, Pg_sleep 100]\<rparr>
         else pg_attempts env n ?s)"
      using False by (simp add: pg_rd_def pg_do_def failed_attempt_def Let_def)
    then show ?thesis using Suc.IH [of ?s] False by (simp add: misses_Suc)
  qed
qed

text \<open>
  The converter is tried until the charger reports power good, at most five
  times; each failed attempt turns it off again, so it is left on exactly when power good was seen.
  After five failures the standby state is requested and the tick armed, and yet the run goes on to
  the commit: with the adapter present and the voltage stable, the switches and the state of the
  original target follow the request for standby.
\<close>

theorem converter_attempts:
  fixes env s
  defines "m \<equiv> misses env (pg_clk s) 5"
  shows "pg_ops (pg_attempts env 5 s) = pg_ops s @ concat (replicate m failed_attempt) @
      (if m < 5 then [Buck True, Pg_sleep 100] else [Change_state 2, Publish_done, Arm_tick 3000]) \<and>
    (m = 5 \<and> pg_vac1 (env (pg_clk s + 5)) \<and> pg_stable (env (pg_clk s + 6)) \<longrightarrow>
      pg_ops (pg_commit env (pg_attempts env 5 s)) = pg_ops (pg_attempts env 5 s) @
        [Set_switches (pg_target (env (pg_clk s + 7))), Pg_sleep 100,
         Change_state (pg_target (env (pg_clk s + 8))), Stamp_done (pg_now (env (pg_clk s + 9))), Publish_done])"
proof -
  have a: "pg_attempts env 5 s = s\<lparr>pg_clk := pg_clk s + min 5 (Suc m),
      pg_ops := pg_ops s @ concat (replicate m failed_attempt) @
        (if m < 5 then [Buck True, Pg_sleep 100] else [Change_state 2, Publish_done, Arm_tick 3000])\<rparr>"
    unfolding m_def by (rule attempts_outcome) simp
  show ?thesis
    unfolding a by (auto simp: pg_commit_def pg_rd_def pg_do_def Let_def add.assoc simp flip: add_Suc_right)
qed

definition demo_reads :: pg_reads where
  "demo_reads = \<lparr>pg_target = 3, pg_ps_substate = 1, pg_battery_on = True, pg_stable = True,
     pg_pgood = False, pg_vac1 = True, pg_now = 9\<rparr>"

theorem converter_attempts_witness:
  "drop 20 (pg_ops (pg_commit (\<lambda>n. demo_reads) (pg_attempts (\<lambda>n. demo_reads) 5 \<lparr>pg_clk = 0, pg_flag = 2, pg_ops = []\<rparr>))) =
     [Change_state 2, Publish_done, Arm_tick 3000, Set_switches 3, Pg_sleep 100, Change_state 3, Stamp_done 9, Publish_done]"
proof -
  let ?s = "\<lparr>pg_clk = 0, pg_flag = 2, pg_ops = []\<rparr>"
  have m: "misses (\<lambda>n. demo_reads) (pg_clk ?s) 5 = 5" by code_simp
  have "length (concat (replicate 5 failed_attempt)) = 20" by code_simp
  then show ?thesis
    using converter_attempts [of "\<lambda>n. demo_reads" ?s] unfolding m by (simp add: demo_reads_def)
qed

end
