(* ===== verification/Switches.thy ===== *)
theory Switches
  imports Prelude
begin

text \<open>
  The switch matrix of the power service, \<open>main/power/src/switch_control.c\<close>: kernel pins, switches
  with an active level on top of them, the named lines of the charger, the converter switch and the
  setting of all switches for a state.  Writes to the files of the kernel, the relay over CAN and the
  pauses are operations in a list; log lines are left out.  The converter switch has a second
  translation in \<open>main/power/src/lipo_control.c\<close>, compared here.
\<close>

subsection \<open>Pins\<close>

datatype sw_op =
    Export int
  | Direction int string
  | Value int bool
  | Charger_line string
  | Relay u8 u8
  | Nap int

definition gpio_ctor :: "bool \<Rightarrow> int \<Rightarrow> bool \<Rightarrow> sw_op list" where
  "gpio_ctor exported line inp =
     (if exported then [] else [Export line, Direction line (if inp then ''in'' else ''out'')])"

definition gpio_write_value :: "int \<Rightarrow> int \<Rightarrow> sw_op list" where
  "gpio_write_value line level = [Value line (level \<noteq> 0)]"

text \<open>The value file, as the number it holds.\<close>

definition gpio_read_value :: "(int \<Rightarrow> int) \<Rightarrow> int \<Rightarrow> bool" where
  "gpio_read_value files line \<longleftrightarrow> files line \<noteq> 0"

record gpio_switch =
  line_of :: int
  active_low :: u8

definition gpio_switch_on :: "gpio_switch \<Rightarrow> sw_op list" where
  "gpio_switch_on sw = gpio_write_value (line_of sw) (uint (active_low sw))"

definition gpio_switch_off :: "gpio_switch \<Rightarrow> sw_op list" where
  "gpio_switch_off sw = gpio_write_value (line_of sw) (uint (active_low sw XOR 1))"

definition gpio_switch_ctor :: "bool \<Rightarrow> int \<Rightarrow> int \<Rightarrow> u8 \<Rightarrow> gpio_switch \<times> sw_op list" where
  "gpio_switch_ctor exported line init_mode low =
     (let sw = \<lparr>line_of = line, active_low = low\<rparr>
      in (sw, gpio_ctor exported line False @
           (if init_mode = 0 then gpio_switch_on sw
            else if init_mode = 1 then gpio_switch_off sw else [])))"

definition gpio_switch_get :: "(int \<Rightarrow> int) \<Rightarrow> gpio_switch \<Rightarrow> bool" where
  "gpio_switch_get files sw =
     (let raw = gpio_read_value files (line_of sw) in if active_low sw \<noteq> 0 then raw = False else raw)"

subsection \<open>Charger lines\<close>

record charger_switch =
  cs_name :: string
  cs_level :: u8

definition charger_switch_write :: "charger_switch \<Rightarrow> u8 \<Rightarrow> sw_op list" where
  "charger_switch_write c level =
     [Charger_line (take 95 (cs_name c @ '' '' @ (if level AND 1 = 0 then ''0'' else ''1'')))]"

definition charger_switch_on :: "charger_switch \<Rightarrow> sw_op list" where
  "charger_switch_on c = charger_switch_write c (cs_level c)"

definition charger_switch_off :: "charger_switch \<Rightarrow> sw_op list" where
  "charger_switch_off c = charger_switch_write c (cs_level c XOR 1)"

definition charger_switch_pulse :: "charger_switch \<Rightarrow> int \<Rightarrow> sw_op list" where
  "charger_switch_pulse c ms =
     charger_switch_off c @ (if 0 < ms then [Nap ms] else []) @ charger_switch_on c"

subsection \<open>The matrix\<close>

record switch_control =
  sw0 :: gpio_switch
  buck :: gpio_switch
  sw1 :: gpio_switch
  sw2 :: gpio_switch
  sw3 :: gpio_switch
  buck_state :: u8
  charger :: charger_switch
  relay_bound :: bool
  bike_model :: "char \<times> char"

definition buck_set_enable :: "u8 \<Rightarrow> switch_control \<Rightarrow> switch_control \<times> sw_op list" where
  "buck_set_enable enable s =
     (s\<lparr>buck_state := enable\<rparr>, if enable = 0 then gpio_switch_off (buck s) else gpio_switch_on (buck s))"

text \<open>The translation in \<open>lipo_control.c\<close> drives the pin with the request itself.\<close>

definition lipo_buck_set_enable :: "bool \<Rightarrow> switch_control \<Rightarrow> switch_control \<times> sw_op list" where
  "lipo_buck_set_enable enable s =
     (s\<lparr>buck_state := (if enable then 1 else 0)\<rparr>, gpio_write_value (line_of (buck s)) (if enable then 1 else 0))"

definition switch_control_set_sw3_for_state :: "bool \<Rightarrow> switch_control \<Rightarrow> sw_op list" where
  "switch_control_set_sw3_for_state on s =
     (let v = (if on then 1 else 0);
          (m0, m1) = bike_model s;
          second = (if m0 = CHR ''S'' \<and> m1 \<noteq> CHR 0x00 then 0 else v)
      in (if relay_bound s then [Relay v second] else []) @
         (if on then gpio_switch_off (sw3 s) else gpio_switch_on (sw3 s)))"

definition switch_control_set_switches_for_state :: "int \<Rightarrow> switch_control \<Rightarrow> sw_op list" where
  "switch_control_set_switches_for_state st s =
     (if st < 7 then
        (if st < 3 then
           (let (known, ops) =
              (if st = 1 then (True, gpio_switch_on (sw0 s) @ gpio_switch_on (sw1 s))
               else if st = 2 then (True, gpio_switch_off (sw0 s) @ gpio_switch_off (sw1 s))
               else (False, []))
            in if \<not> known then []
               else ops @ gpio_switch_on (sw2 s) @ charger_switch_off (charger s) @
                 switch_control_set_sw3_for_state False s)
         else
           gpio_switch_off (sw0 s) @ gpio_switch_off (sw1 s) @ gpio_switch_off (sw2 s) @
           charger_switch_on (charger s) @ switch_control_set_sw3_for_state True s)
      else if st = 7 then
        gpio_switch_on (sw0 s) @ gpio_switch_on (sw1 s) @ gpio_switch_on (sw2 s) @ gpio_switch_on (sw3 s)
      else [])"

subsection \<open>What the pins and lines hold afterwards\<close>

text \<open>The value files and the charger lines after a list of operations.\<close>

fun pin_files :: "sw_op list \<Rightarrow> (int \<Rightarrow> int) \<Rightarrow> int \<Rightarrow> int" where
  "pin_files [] files = files"
| "pin_files (Value line b # ops) files = pin_files ops (files(line := if b then 1 else 0))"
| "pin_files (_ # ops) files = pin_files ops files"

definition charger_lines :: "sw_op list \<Rightarrow> string list" where
  "charger_lines ops = List.map_filter (\<lambda>x. case x of Charger_line l \<Rightarrow> Some l | _ \<Rightarrow> None) ops"

lemma pin_files_append: "pin_files (xs @ ys) files = pin_files ys (pin_files xs files)"
  by (induction xs files rule: pin_files.induct) (simp_all del: fun_upd_apply)

text \<open>How the switches read back in a state: a table with one entry per switch, \<open>None\<close> for no
  change.  The routine called on drives the level that reads as off, hence the last line.\<close>

definition matrix :: "int \<Rightarrow> bool option list" where
  "matrix st =
     (if st = 1 then [Some False, Some False, Some False, Some False]
      else if st = 2 then [Some True, Some True, Some False, Some False]
      else if 3 \<le> st \<and> st \<le> 6 then [Some True, Some True, Some True, Some True]
      else if st = 7 then [Some False, Some False, Some False, Some False]
      else [None, None, None, None])"

definition switches :: "switch_control \<Rightarrow> gpio_switch list" where
  "switches s = [sw0 s, sw1 s, sw2 s, sw3 s]"

definition matrix_wf :: "switch_control \<Rightarrow> bool" where
  "matrix_wf s \<longleftrightarrow> distinct (map line_of (switches s)) \<and> (\<forall>sw \<in> set (switches s). active_low sw \<le> 1)"

lemma flag_cases: "(w :: u8) \<le> 1 \<longleftrightarrow> w = 0 \<or> w = 1"
proof
  assume "w \<le> 1"
  then have "unat w = 0 \<or> unat w = 1" by (auto simp: word_le_nat_alt)
  then show "w = 0 \<or> w = 1" by (metis unat_0 unat_1 word_unat_eq_iff)
qed auto

lemma on_reads_off:
  "active_low sw \<le> 1 \<Longrightarrow> pin_files (gpio_switch_on sw) files = files(line_of sw := uint (active_low sw))"
  "active_low sw \<le> 1 \<Longrightarrow> pin_files (gpio_switch_off sw) files = files(line_of sw := 1 - uint (active_low sw))"
  by (auto simp: flag_cases gpio_switch_on_def gpio_switch_off_def gpio_write_value_def)

lemma get_upd:
  assumes "active_low sw \<le> 1"
  shows "gpio_switch_get (files(line_of sw := uint (active_low sw))) sw = False"
    "gpio_switch_get (files(line_of sw := 1 - uint (active_low sw))) sw = True"
    "line_of sw \<noteq> l \<Longrightarrow> gpio_switch_get (files(l := v)) sw = gpio_switch_get files sw"
  using assms by (auto simp: flag_cases gpio_switch_get_def gpio_read_value_def)

lemma other_ops:
  "pin_files (charger_switch_on c) files = files" "pin_files (charger_switch_off c) files = files"
  "pin_files (if p then [Relay v w] else []) files = files"
  by (simp_all add: charger_switch_on_def charger_switch_off_def charger_switch_write_def)

lemma sw3_files:
  "pin_files (switch_control_set_sw3_for_state on s) files =
     pin_files (if on then gpio_switch_off (sw3 s) else gpio_switch_on (sw3 s)) files"
  by (simp add: switch_control_set_sw3_for_state_def pin_files_append other_ops Let_def split: prod.splits)

lemma matrix_applied:
  assumes "matrix_wf s"
  shows "list_all2 (\<lambda>m sw. gpio_switch_get (pin_files (switch_control_set_switches_for_state st s) files) sw =
      (case m of None \<Rightarrow> gpio_switch_get files sw | Some b \<Rightarrow> b)) (matrix st) (switches s)"
proof -
  have low: "active_low (sw0 s) \<le> 1" "active_low (sw1 s) \<le> 1" "active_low (sw2 s) \<le> 1" "active_low (sw3 s) \<le> 1"
    and d: "distinct [line_of (sw0 s), line_of (sw1 s), line_of (sw2 s), line_of (sw3 s)]"
    using assms by (simp_all add: matrix_wf_def switches_def)
  consider "st = 1" | "st = 2" | "3 \<le> st" "st \<le> 6" | "st = 7" | "st < 1 \<or> 7 < st" by linarith
  then show ?thesis
    using low d
    by cases (auto simp: switch_control_set_switches_for_state_def matrix_def switches_def Let_def
        pin_files_append sw3_files other_ops on_reads_off get_upd simp del: fun_upd_apply)
qed

lemma lines_append: "charger_lines (xs @ ys) = charger_lines xs @ charger_lines ys"
  by (simp add: charger_lines_def List.map_filter_def)

lemma lines_pins:
  "charger_lines (gpio_switch_on sw) = []" "charger_lines (gpio_switch_off sw) = []"
  "charger_lines (switch_control_set_sw3_for_state on s) = []"
  by (auto simp: charger_lines_def gpio_switch_on_def gpio_switch_off_def gpio_write_value_def
      switch_control_set_sw3_for_state_def List.map_filter_def split: prod.splits)

lemma lines_none: "charger_lines [] = []"
  by (simp add: charger_lines_def List.map_filter_def)

text \<open>
  On pins of their own with a flag of zero or one, setting the switches for a
  state leaves every switch reading as the table of the state says, whatever it read before, and
  states outside the table leave all of them; the line of the charger rail is switched on in the
  states from operational to alarm, off in shipping and standby, and left alone in maintenance.
\<close>

theorem switch_matrix:
  assumes "matrix_wf s"
  shows "list_all2 (\<lambda>m sw. gpio_switch_get (pin_files (switch_control_set_switches_for_state st s) files) sw =
      (case m of None \<Rightarrow> gpio_switch_get files sw | Some b \<Rightarrow> b)) (matrix st) (switches s) \<and>
    charger_lines (switch_control_set_switches_for_state st s) =
      charger_lines (if 3 \<le> st \<and> st \<le> 6 then charger_switch_on (charger s)
                     else if st = 1 \<or> st = 2 then charger_switch_off (charger s) else [])"
proof -
  have "charger_lines (switch_control_set_switches_for_state st s) =
      charger_lines (if 3 \<le> st \<and> st \<le> 6 then charger_switch_on (charger s)
                     else if st = 1 \<or> st = 2 then charger_switch_off (charger s) else [])"
  proof -
    consider "st = 1" | "st = 2" | "3 \<le> st" "st \<le> 6" | "st = 7" | "st < 1 \<or> 7 < st" by linarith
    then show ?thesis
      by cases (simp_all add: switch_control_set_switches_for_state_def lines_append lines_pins lines_none)
  qed
  with matrix_applied [OF assms] show ?thesis by blast
qed

definition demo_switches :: switch_control where
  "demo_switches = \<lparr>sw0 = \<lparr>line_of = 1, active_low = 1\<rparr>, buck = \<lparr>line_of = 2, active_low = 0\<rparr>,
     sw1 = \<lparr>line_of = 3, active_low = 0\<rparr>, sw2 = \<lparr>line_of = 4, active_low = 1\<rparr>, sw3 = \<lparr>line_of = 5, active_low = 0\<rparr>,
     buck_state = 0, charger = \<lparr>cs_name = ''rail'', cs_level = 1\<rparr>, relay_bound = True,
     bike_model = (CHR ''S'', CHR ''5'')\<rparr>"

theorem switch_matrix_witness:
  "list_all2 (\<lambda>b sw. gpio_switch_get (pin_files (switch_control_set_switches_for_state 2 demo_switches) (\<lambda>l. 0)) sw = b)
     [True, True, False, False] (switches demo_switches) \<and>
   charger_lines (switch_control_set_switches_for_state 2 demo_switches) = [''rail 0'']"
proof -
  have wf: "matrix_wf demo_switches"
    by (simp add: matrix_wf_def switches_def demo_switches_def word_le_nat_alt)
  have c: "charger_lines (charger_switch_off (charger demo_switches)) = [''rail 0'']"
    by (simp add: demo_switches_def charger_switch_off_def charger_switch_write_def charger_lines_def
        List.map_filter_def)
  show ?thesis
    using switch_matrix [OF wf, of 2 "\<lambda>l. 0"] c by (simp add: matrix_def switches_def)
qed

text \<open>
  A switch reads back as the opposite of the routine that drove it, for
  either active level, and the two translations of the converter switch write the same level exactly
  when the flag of its pin is one.
\<close>

theorem switch_reads_inverted:
  "(active_low sw \<le> 1 \<longrightarrow>
      \<not> gpio_switch_get (pin_files (gpio_switch_on sw) files) sw \<and>
      gpio_switch_get (pin_files (gpio_switch_off sw) files) sw) \<and>
   (active_low (buck s) \<le> 1 \<longrightarrow>
     ((\<forall>e. buck_set_enable (if e then 1 else 0) s = lipo_buck_set_enable e s) \<longleftrightarrow> active_low (buck s) = 1))"
proof -
  have "(\<forall>e. buck_set_enable (if e then 1 else 0) s = lipo_buck_set_enable e s) \<longleftrightarrow> active_low (buck s) = 1"
    if "active_low (buck s) \<le> 1"
  proof -
    have "\<forall>e. buck_set_enable (if e then 1 else 0) s = lipo_buck_set_enable e s" if "active_low (buck s) = 1"
      unfolding all_bool_eq using that
      by (simp add: buck_set_enable_def lipo_buck_set_enable_def gpio_switch_on_def gpio_switch_off_def
          gpio_write_value_def)
    moreover have "buck_set_enable 1 s \<noteq> lipo_buck_set_enable True s" if "active_low (buck s) = 0"
      using that by (simp add: buck_set_enable_def lipo_buck_set_enable_def gpio_switch_on_def gpio_write_value_def)
    ultimately show ?thesis using that unfolding flag_cases by (metis (full_types))
  qed
  then show ?thesis by (simp add: on_reads_off get_upd del: fun_upd_apply)
qed

theorem switch_reads_inverted_witness:
  "\<not> gpio_switch_get (pin_files (gpio_switch_on (sw0 demo_switches)) (\<lambda>l. 0)) (sw0 demo_switches) \<and>
   \<not> (\<forall>e. buck_set_enable (if e then 1 else 0) demo_switches = lipo_buck_set_enable e demo_switches)"
proof -
  have "active_low (sw0 demo_switches) \<le> 1" "active_low (buck demo_switches) \<le> 1" "active_low (buck demo_switches) \<noteq> 1"
    by (simp_all add: demo_switches_def word_le_nat_alt)
  then show ?thesis using switch_reads_inverted [of "sw0 demo_switches" "\<lambda>l. 0" demo_switches] by blast
qed

end
