(* ===== verification/Monitor.thy ===== *)
theory Monitor
  imports Edges
begin

text \<open>
  The telemetry monitor of the power service, \<open>main/power/src/monitor.c\<close>, and the command channel
  and state callback of the power-control board, \<open>main/power/src/power_control.c\<close>.

  The override table of the framework is not modelled: what a query answers is an argument, and marking
  and erasing a key are operations in a list, like publications, sends and calls of hooks.  Log lines
  are left out.  Frames hold eight bytes.
\<close>

subsection \<open>The monitor\<close>

datatype mon_op =
    Pub_bool string bool
  | Pub_u16 string u16
  | Erase string
  | Mark string

record monitor =
  soc :: u16
  charge_current :: u16
  state_84 :: u32
  fault_flag_86 :: u16
  last_current_88 :: u16
  last_voltage_8a :: u16
  st_0x8e :: u8
  ins_det :: u8
  ins_det_fail :: u8
  charging :: u8
  fault_uvp_92 :: u8
  connected_93 :: u8
  identify_sent_94 :: u8
  state_nibble_95 :: u8
  fw_update_96 :: u8
  mode_count_97 :: u8
  retry_count_98 :: u8

text \<open>What the constructor clears; it leaves the fields the decoders fill as they are.\<close>

definition Monitor_ctor :: "monitor \<Rightarrow> monitor" where
  "Monitor_ctor m = m\<lparr>mode_count_97 := 0, retry_count_98 := 0, charge_current := 0, charging := 0,
     fault_uvp_92 := 0, state_84 := 3, fault_flag_86 := 0xff, st_0x8e := 0, connected_93 := 0,
     identify_sent_94 := 0, state_nibble_95 := 0, fw_update_96 := 0\<rparr>"

definition monitor_charger_connected_publish :: "u16 \<Rightarrow> u16 \<Rightarrow> monitor \<Rightarrow> monitor \<times> mon_op list" where
  "monitor_charger_connected_publish voltage current m =
     (let (m, ops) = (if connected_93 m = 0
            then (m\<lparr>connected_93 := 1\<rparr>, [Pub_bool ''device/charger/connected'' True]) else (m, []));
          (m, ops) = (if current \<noteq> last_current_88 m
            then (m\<lparr>last_current_88 := current\<rparr>, ops @ [Pub_u16 ''device/charger/current'' current]) else (m, ops))
      in if voltage \<noteq> last_voltage_8a m
         then (m\<lparr>last_voltage_8a := voltage\<rparr>, ops @ [Pub_u16 ''device/charger/voltage'' voltage]) else (m, ops))"

definition monitor_charger_disconnected :: "monitor \<Rightarrow> monitor \<times> mon_op list" where
  "monitor_charger_disconnected m =
     (m\<lparr>connected_93 := 0, state_84 := 3, fault_flag_86 := 0xff\<rparr>, [Pub_bool ''device/charger/connected'' False])"

definition monitor_charger_finished :: "string option \<Rightarrow> monitor \<Rightarrow> monitor" where
  "monitor_charger_finished mode m = (case mode of
       None \<Rightarrow> m
     | Some t \<Rightarrow>
         if t \<in> {''Idle'', ''FailRetry'', ''Success'', ''Fail''} then m\<lparr>fw_update_96 := 0\<rparr>
         else if t = ''InProgress'' then m\<lparr>fw_update_96 := 1\<rparr> else m)"

definition monitor_charger_progress_started :: "(string \<Rightarrow> bool) \<Rightarrow> string option \<Rightarrow> monitor \<Rightarrow> monitor" where
  "monitor_charger_progress_started is_charger dev m = (case dev of
       None \<Rightarrow> m | Some d \<Rightarrow> if is_charger d then m\<lparr>fw_update_96 := 1\<rparr> else m)"

definition monitor_charger_progress_finished :: "(string \<Rightarrow> bool) \<Rightarrow> string option \<Rightarrow> monitor \<Rightarrow> monitor" where
  "monitor_charger_progress_finished is_charger dev m = (case dev of
       None \<Rightarrow> m | Some d \<Rightarrow> if is_charger d then m\<lparr>fw_update_96 := 0\<rparr> else m)"

definition clear_counters :: "monitor \<Rightarrow> monitor" where
  "clear_counters m = m\<lparr>mode_count_97 := 0, retry_count_98 := 0\<rparr>"

definition charger_decode_mode_update :: "bool \<Rightarrow> monitor \<Rightarrow> monitor \<times> mon_op list" where
  "charger_decode_mode_update overridden m =
     (clear_counters m, if overridden then [Erase ''charge_retry''] else [])"

text \<open>The part that samples: twenty ticks, then a retry, at most three of them.\<close>

definition decode_sample :: "bool \<Rightarrow> monitor \<Rightarrow> nat \<times> monitor \<times> mon_op list" where
  "decode_sample overridden m =
     (let retry = retry_count_98 m; m = m\<lparr>mode_count_97 := mode_count_97 m + 1\<rparr>
      in if mode_count_97 m = 0x14 \<and> retry < 3 then
           (let m = m\<lparr>mode_count_97 := 0, retry_count_98 := retry + 1\<rparr>
            in if charging m \<noteq> 0 \<and> (soc m \<noteq> 0 \<or> fault_uvp_92 m = 0)
               then (2, m\<lparr>retry_count_98 := 3\<rparr>, [])
               else if soc m = 0 \<and> fault_flag_86 m = 0 \<and> state_nibble_95 m = 2
               then (0, m\<lparr>retry_count_98 := 0\<rparr>, [])
               else (1, m, []))
         else if retry = 3 then
           (3, m\<lparr>mode_count_97 := 0\<rparr>, if overridden then [] else [Mark ''charge_retry''])
         else (0, m, []))"

definition charger_decode_mode :: "bool \<Rightarrow> monitor \<Rightarrow> nat \<times> monitor \<times> mon_op list" where
  "charger_decode_mode overridden m =
     (if fw_update_96 m \<noteq> 0 then (let (m, ops) = charger_decode_mode_update overridden m in (0, m, ops))
      else if 0x61 \<le> soc m \<and> charge_current m = 0 then
        (let m = clear_counters m
         in if identify_sent_94 m = 0
            then (2, m\<lparr>identify_sent_94 := 1\<rparr>, [Pub_bool ''device/charger/finished'' True])
            else (2, m, []))
      else if 0xc9 \<le> charge_current m then (0, clear_counters m, [])
      else decode_sample overridden m)"

text \<open>The published flags: name, byte and bit, in the order of publication.\<close>

definition status_flags :: "(string \<times> nat \<times> nat) list" where
  "status_flags =
     [(''charging'', 0, 7), (''b1_b0'', 1, 0), (''b1_b2'', 1, 2), (''b1_b1'', 1, 1), (''b1_b3'', 1, 3),
      (''b1_b4'', 1, 4), (''b1_b5'', 1, 5), (''b2_b0'', 2, 0), (''b2_b1'', 2, 1), (''b2_b2'', 2, 2),
      (''b2_b3'', 2, 3), (''b2_b5'', 2, 5), (''b2_b6'', 2, 6), (''b3_b0'', 3, 0), (''b3_b1'', 3, 1),
      (''b3_b2'', 3, 2), (''b3_b3'', 3, 3), (''b3_b5'', 3, 5), (''b3_b6'', 3, 6), (''b4_b0'', 4, 0),
      (''b4_b1'', 4, 1), (''b4_b2'', 4, 2), (''b4_b3'', 4, 3), (''b4_b4'', 4, 4), (''b4_b5'', 4, 5),
      (''b4_b6'', 4, 6), (''b4_b7'', 4, 7), (''b5_b0'', 5, 0), (''b5_b1'', 5, 1), (''b5_b4'', 5, 4),
      (''b5_b5'', 5, 5), (''ins_det_fail'', 6, 4), (''b6_b6'', 6, 6), (''b6_b7'', 6, 7)]"

definition publish_flags :: "string \<Rightarrow> (string \<times> nat \<times> nat) list \<Rightarrow> bytes \<Rightarrow> mon_op list" where
  "publish_flags pre tab f = map (\<lambda>(t, i, b). Pub_bool (pre @ t) (bit (f ! i) b)) tab"

definition flag_bit :: "u8 \<Rightarrow> nat \<Rightarrow> u8" where
  "flag_bit w k = drop_bit k w AND 1"

definition battery_status_decode :: "bool \<Rightarrow> bytes \<Rightarrow> monitor \<Rightarrow> monitor \<times> mon_op list" where
  "battery_status_decode overridden f m =
     (let m = m\<lparr>charging := drop_bit 7 (f ! 0)\<rparr>;
          erase = (if charging m = 0 \<and> overridden then [Erase ''charging''] else []);
          m = m\<lparr>fault_uvp_92 := (if flag_bit (f ! 1) 1 \<noteq> 0 then 1 else flag_bit (f ! 1) 2)\<rparr>;
          m = m\<lparr>st_0x8e := flag_bit (f ! 0) 5, ins_det := flag_bit (f ! 6) 5,
                 ins_det_fail := flag_bit (f ! 6) 4, state_nibble_95 := f ! 6 AND 0xf\<rparr>
      in (m, erase @ publish_flags ''battery_status.'' status_flags f))"

definition warning_flags :: "(string \<times> nat \<times> nat) list" where
  "warning_flags =
     [(''b0_b7'', 0, 7), (''b1_b1'', 1, 1), (''b1_b2'', 1, 2), (''b1_b3'', 1, 3), (''b1_b4'', 1, 4),
      (''b2_b0'', 2, 0), (''b2_b1'', 2, 1), (''b2_b2'', 2, 2), (''b2_b3'', 2, 3), (''b2_b5'', 2, 5),
      (''b3_b0'', 3, 0), (''b3_b1'', 3, 1), (''b3_b2'', 3, 2), (''b3_b3'', 3, 3), (''b3_b5'', 3, 5),
      (''b3_b6'', 3, 6), (''b4_b0'', 4, 0), (''b4_b1'', 4, 1)]"

definition battery_warning_decode :: "bytes \<Rightarrow> mon_op list" where
  "battery_warning_decode f = publish_flags ''battery_warning.'' warning_flags f"

subsection \<open>The power-control board\<close>

datatype pc_op =
    Stamp u8
  | Send
  | Cansend string
  | Override_set string bool
  | Echo
  | Notify
  | Hook nat

record power_control =
  insdet_fail :: u8
  inserted :: u8
  last_state :: u8
  have_status :: bool
  initialized :: bool

text \<open>The flag tells whether the dictionary entry could be opened; the frame is sent either way.\<close>

definition battery_stamp_command :: "bool \<Rightarrow> u8 \<Rightarrow> pc_op list" where
  "battery_stamp_command opened opcode = (if opened then [Stamp opcode] else [])"

definition power_control_send_command :: "bool \<Rightarrow> u8 \<Rightarrow> pc_op list" where
  "power_control_send_command opened opcode = battery_stamp_command opened opcode @ [Send]"

definition battery_cmd0_off :: "bool \<Rightarrow> pc_op list" where
  "battery_cmd0_off opened = power_control_send_command opened 0"

definition battery_cmd1_on :: "bool \<Rightarrow> pc_op list" where
  "battery_cmd1_on opened = power_control_send_command opened 1"

definition battery_cmd8_shipping :: "bool \<Rightarrow> pc_op list" where
  "battery_cmd8_shipping opened = power_control_send_command opened 8"

definition battery_cmd9_clear_fault :: "bool \<Rightarrow> pc_op list" where
  "battery_cmd9_clear_fault opened = power_control_send_command opened 9"

definition power_control_clear_charger_test_burnin :: "pc_op list" where
  "power_control_clear_charger_test_burnin =
     [Cansend ''cansend vcan0 14E23214#A55A00'', Cansend ''cansend vcan0 14E23210#A55A00'']"

definition charger_cmd5_identify :: "bool \<Rightarrow> pc_op list" where
  "charger_cmd5_identify opened =
     power_control_clear_charger_test_burnin @ power_control_send_command opened 5"

definition battery_cmd6_reset :: "bool \<Rightarrow> bool \<Rightarrow> pc_op list" where
  "battery_cmd6_reset overridden opened =
     (if overridden then [] else [Override_set ''IsPrimaryInserted'' True]) @ power_control_send_command opened 6"

definition get_is_primary_inserted :: "power_control \<Rightarrow> bool" where
  "get_is_primary_inserted pc \<longleftrightarrow> inserted pc \<noteq> 0"

text \<open>The callback; the answer of the switch object is an argument.\<close>

definition power_control_on_state :: "bool \<Rightarrow> bytes \<Rightarrow> power_control \<Rightarrow> power_control \<times> pc_op list" where
  "power_control_on_state connected f pc =
     (let clear = (if (\<not> have_status pc \<or> last_state pc \<noteq> 3) \<and> f ! 0 = 3
                   then power_control_clear_charger_test_burnin else []);
          notify = (if \<not> connected \<and> \<not> (have_status pc \<and> f ! 0 = last_state pc) then [Notify] else []);
          override = [Override_set ''IsPrimaryInserted'' ((f ! 2 AND 1) XOR 1 \<noteq> 0)];
          pc = pc\<lparr>last_state := f ! 0, have_status := True,
                  insdet_fail := drop_bit 2 (f ! 2) AND 1, inserted := f ! 2 AND 1\<rparr>;
          hook = (if \<not> initialized pc then []
                  else if f ! 0 = 0 then [Hook 0x10] else if f ! 0 = 1 then [Hook 0x18]
                  else if f ! 0 = 3 then [Hook 0x20] else if f ! 0 = 5 then [Hook 0x28] else [])
      in (pc, [Echo] @ clear @ notify @ override @ hook))"

subsection \<open>Reachable counters\<close>

datatype mon_event =
    Ev_connected u16 u16
  | Ev_disconnected
  | Ev_finished "string option"
  | Ev_update bool bool
  | Ev_status bool bytes
  | Ev_measured u16 u16
  | Ev_tick bool

fun mon_apply :: "mon_event \<Rightarrow> monitor \<Rightarrow> monitor" where
  "mon_apply (Ev_connected v c) m = fst (monitor_charger_connected_publish v c m)"
| "mon_apply Ev_disconnected m = fst (monitor_charger_disconnected m)"
| "mon_apply (Ev_finished t) m = monitor_charger_finished t m"
| "mon_apply (Ev_update started named) m =
     (if started then monitor_charger_progress_started (\<lambda>d. named) (Some []) m
      else monitor_charger_progress_finished (\<lambda>d. named) (Some []) m)"
| "mon_apply (Ev_status o' f) m = fst (battery_status_decode o' f m)"
| "mon_apply (Ev_measured s c) m = m\<lparr>soc := s, charge_current := c\<rparr>"
| "mon_apply (Ev_tick o') m = fst (snd (charger_decode_mode o' m))"

inductive mon_reach :: "monitor \<Rightarrow> bool" where
  init: "mon_reach (Monitor_ctor m)"
| step: "mon_reach m \<Longrightarrow> mon_reach (mon_apply e m)"

definition mon_ok :: "monitor \<Rightarrow> bool" where
  "mon_ok m \<longleftrightarrow> mode_count_97 m < 20 \<and> retry_count_98 m \<le> 3"

lemma counter_step:
  assumes "(c :: u8) < 20" "c + 1 \<noteq> 20"
  shows "c + 1 < 20"
proof -
  have c: "unat c < 20" using assms(1) by (simp add: word_less_nat_alt)
  then have s: "unat (c + 1) = unat c + 1" by (simp add: unat_word_ariths)
  moreover have "unat (c + 1) \<noteq> 20" using assms(2) by (auto simp: word_unat_eq_iff)
  ultimately show ?thesis using c by (simp add: word_less_nat_alt)
qed

lemma retry_step: "(r :: u8) < 3 \<Longrightarrow> r + 1 \<le> 3"
proof -
  assume "r < 3"
  then have r: "unat r < 3" by (simp add: word_less_nat_alt)
  then have "unat (r + 1) = unat r + 1" by (simp add: unat_word_ariths)
  then show ?thesis using r by (simp add: word_le_nat_alt)
qed

lemma counters_sample:
  assumes "mon_ok m" "decode_sample ov m = (r, m', ops)"
  shows "mon_ok m' \<and> r \<le> 3 \<and> (r = 3 \<longrightarrow> retry_count_98 m = 3)"
proof -
  have c: "mode_count_97 m < 20" and r: "retry_count_98 m \<le> 3" using assms(1) by (simp_all add: mon_ok_def)
  have less: "retry_count_98 m \<noteq> 3 \<Longrightarrow> retry_count_98 m < 3" using r by simp
  have more: "mode_count_97 m + 1 \<noteq> 20 \<Longrightarrow> mode_count_97 m + 1 < 20" by (rule counter_step [OF c])
  show ?thesis
    using assms(2) r less more retry_step [of "retry_count_98 m"]
    by (auto simp: decode_sample_def Let_def mon_ok_def split: if_splits)
qed

lemma counters_tick:
  assumes "mon_ok m" "charger_decode_mode ov m = (r, m', ops)"
  shows "mon_ok m' \<and> r \<le> 3 \<and> (r = 3 \<longrightarrow> retry_count_98 m = 3)"
proof (cases "fw_update_96 m \<noteq> 0 \<or> 0x61 \<le> soc m \<and> charge_current m = 0 \<or> 0xc9 \<le> charge_current m")
  case True
  then show ?thesis
    using assms(2) by (auto simp: charger_decode_mode_def charger_decode_mode_update_def clear_counters_def
        mon_ok_def Let_def split: if_splits)
next
  case False
  then have "decode_sample ov m = (r, m', ops)" using assms(2) by (auto simp: charger_decode_mode_def)
  then show ?thesis by (rule counters_sample [OF assms(1)])
qed

lemma counters_kept:
  "mode_count_97 (fst (monitor_charger_connected_publish v c m)) = mode_count_97 m"
  "retry_count_98 (fst (monitor_charger_connected_publish v c m)) = retry_count_98 m"
  "mode_count_97 (fst (battery_status_decode ov f m)) = mode_count_97 m"
  "retry_count_98 (fst (battery_status_decode ov f m)) = retry_count_98 m"
  "mode_count_97 (monitor_charger_finished t m) = mode_count_97 m"
  "retry_count_98 (monitor_charger_finished t m) = retry_count_98 m"
  by (auto simp: monitor_charger_connected_publish_def battery_status_decode_def monitor_charger_finished_def
      Let_def split: option.splits)

lemma reach_ok: "mon_reach m \<Longrightarrow> mon_ok m"
proof (induction rule: mon_reach.induct)
  case (init m)
  then show ?case by (simp add: mon_ok_def Monitor_ctor_def)
next
  case (step m e)
  show ?case
  proof (cases e)
    case (Ev_tick ov)
    obtain r m' ops where t: "charger_decode_mode ov m = (r, m', ops)" by (metis surj_pair)
    show ?thesis using counters_tick [OF step.IH t] by (simp add: Ev_tick t)
  qed (use step.IH in \<open>simp_all add: mon_ok_def counters_kept monitor_charger_disconnected_def
      monitor_charger_progress_started_def monitor_charger_progress_finished_def\<close>)
qed

text \<open>
  Whatever frames, measurements, update messages and ticks come after
  the constructor, in any order, the sample counter stays below 20 and the retry counter at most 3;
  a tick returns one of the four modes, and the mode that gives up only after three retries.
\<close>

theorem charger_counters_bounded:
  assumes "mon_reach m" "charger_decode_mode ov m = (r, m', ops)"
  shows "mode_count_97 m < 20 \<and> retry_count_98 m \<le> 3 \<and> r \<le> 3 \<and> (r = 3 \<longrightarrow> retry_count_98 m = 3)"
  using reach_ok [OF assms(1)] counters_tick [OF reach_ok [OF assms(1)] assms(2)] by (simp add: mon_ok_def)

definition demo_monitor :: monitor where
  "demo_monitor = Monitor_ctor \<lparr>soc = 50, charge_current = 0, state_84 = 0, fault_flag_86 = 0, last_current_88 = 0,
     last_voltage_8a = 0, st_0x8e = 0, ins_det = 0, ins_det_fail = 0, charging = 0, fault_uvp_92 = 0,
     connected_93 = 0, identify_sent_94 = 0, state_nibble_95 = 0, fw_update_96 = 0, mode_count_97 = 7,
     retry_count_98 = 9\<rparr>"

theorem charger_counters_bounded_witness:
  "mode_count_97 demo_monitor < 20 \<and> retry_count_98 demo_monitor \<le> 3 \<and> fst (charger_decode_mode False demo_monitor) \<le> 3"
proof -
  have r: "mon_reach demo_monitor" unfolding demo_monitor_def by (rule mon_reach.init)
  obtain q m' ops where t: "charger_decode_mode False demo_monitor = (q, m', ops)" by (metis surj_pair)
  show ?thesis using charger_counters_bounded [OF r t] by (simp add: t)
qed

subsection \<open>Giving up\<close>

text \<open>A battery that draws little, is not full and not charging, with no update and no trickle.\<close>

definition sampling :: "monitor \<Rightarrow> bool" where
  "sampling m \<longleftrightarrow> fw_update_96 m = 0 \<and> \<not> (0x61 \<le> soc m \<and> charge_current m = 0) \<and>
     charge_current m < 0xc9 \<and> charging m = 0 \<and>
     \<not> (soc m = 0 \<and> fault_flag_86 m = 0 \<and> state_nibble_95 m = 2)"

definition tick :: "bool \<Rightarrow> monitor \<Rightarrow> monitor" where
  "tick ov m = fst (snd (charger_decode_mode ov m))"

definition counted :: "monitor \<Rightarrow> nat \<Rightarrow> nat \<Rightarrow> monitor" where
  "counted m c r = m\<lparr>mode_count_97 := of_nat c, retry_count_98 := of_nat r\<rparr>"

lemma u8_eq: "c < 256 \<Longrightarrow> d < 256 \<Longrightarrow> (of_nat c :: u8) = of_nat d \<longleftrightarrow> c = d"
  by (simp add: word_of_nat_eq_iff take_bit_nat_eq_self)

lemma u8_less: "c < 256 \<Longrightarrow> (of_nat c :: u8) < 3 \<longleftrightarrow> c < 3"
  by (simp add: word_less_nat_alt unat_of_nat)

lemma decode_sample_quiet:
  assumes "charging m = 0" "\<not> (soc m = 0 \<and> fault_flag_86 m = 0 \<and> state_nibble_95 m = 2)"
  shows "decode_sample ov m =
    (if mode_count_97 m + 1 = 20 \<and> retry_count_98 m < 3
     then (1, m\<lparr>mode_count_97 := 0, retry_count_98 := retry_count_98 m + 1\<rparr>, [])
     else if retry_count_98 m = 3
     then (3, m\<lparr>mode_count_97 := 0\<rparr>, if ov then [] else [Mark ''charge_retry''])
     else (0, m\<lparr>mode_count_97 := mode_count_97 m + 1\<rparr>, []))"
  using assms by (auto simp: decode_sample_def Let_def)

lemma decode_counted:
  assumes "sampling m" "c < 20" "r \<le> 3"
  shows "charger_decode_mode ov (counted m c r) =
    (if c = 19 \<and> r < 3 then (1, counted m 0 (Suc r), [])
     else if r = 3 then (3, counted m 0 3, if ov then [] else [Mark ''charge_retry''])
     else (0, counted m (Suc c) r, []))"
proof -
  have w: "(of_nat c :: u8) + 1 = 20 \<longleftrightarrow> c = 19" using u8_eq [of "Suc c" 20] assms(2) by (simp add: add.commute)
  have s: "(of_nat c :: u8) + 1 = of_nat (Suc c)" "(of_nat r :: u8) + 1 = of_nat (Suc r)" by simp_all
  have r3: "(of_nat r :: u8) = 3 \<longleftrightarrow> r = 3" using u8_eq [of r 3] assms(3) by simp
  have rl: "(of_nat r :: u8) < 3 \<longleftrightarrow> r < 3" using u8_less [of r] assms(3) by simp
  have "charger_decode_mode ov (counted m c r) = decode_sample ov (counted m c r)"
    using assms(1) by (auto simp: charger_decode_mode_def sampling_def counted_def)
  also have "\<dots> = (if c = 19 \<and> r < 3 then (1, counted m 0 (Suc r), [])
     else if r = 3 then (3, counted m 0 3, if ov then [] else [Mark ''charge_retry''])
     else (0, counted m (Suc c) r, []))"
  proof -
    have q: "charging (counted m c r) = 0" "\<not> (soc (counted m c r) = 0 \<and> fault_flag_86 (counted m c r) = 0 \<and>
        state_nibble_95 (counted m c r) = 2)"
      using assms(1) by (simp_all add: sampling_def counted_def)
    have n: "mode_count_97 (counted m c r) = of_nat c" "retry_count_98 (counted m c r) = of_nat r"
      by (simp_all add: counted_def)
    have u: "(counted m c r)\<lparr>mode_count_97 := 0, retry_count_98 := of_nat r + 1\<rparr> = counted m 0 (Suc r)"
      "(counted m c r)\<lparr>mode_count_97 := 0\<rparr> = counted m 0 r"
      "(counted m 0 r)\<lparr>retry_count_98 := of_nat r + 1\<rparr> = counted m 0 (Suc r)"
      "(counted m c r)\<lparr>mode_count_97 := of_nat c + 1\<rparr> = counted m (Suc c) r"
      by (simp_all add: counted_def add.commute)
    show ?thesis
      unfolding decode_sample_quiet [OF q] n w rl r3 u by simp
  qed
  finally show ?thesis .
qed

lemma ticks_counted:
  assumes "sampling m"
  shows "(tick ov ^^ n) (counted m 0 0) = counted m (if n < 60 then n mod 20 else 0) (min 3 (n div 20))"
proof (induction n)
  case 0
  then show ?case by simp
next
  case (Suc n)
  let ?c = "if n < 60 then n mod 20 else 0" and ?r = "min 3 (n div 20)"
  have "tick ov (counted m ?c ?r) =
      counted m (if Suc n < 60 then Suc n mod 20 else 0) (min 3 (Suc n div 20))"
  proof (cases "n < 60")
    case True
    then have r: "n div 20 < 3" by (simp add: less_mult_imp_div_less)
    show ?thesis
    proof (cases "n mod 20 = 19")
      case True
      then have d: "Suc n mod 20 = 0" "Suc n div 20 = Suc (n div 20)" by (simp_all add: mod_Suc div_Suc)
      then show ?thesis using True \<open>n < 60\<close> r decode_counted [OF assms, where c = "n mod 20" and r = "n div 20" and ov = ov]
        by (simp add: tick_def)
    next
      case False
      then have d: "Suc n mod 20 = Suc (n mod 20)" "Suc n div 20 = n div 20" by (simp_all add: mod_Suc div_Suc)
      have "Suc n \<noteq> 60" using False by auto
      then have "Suc n < 60" using True by simp
      then show ?thesis using False True r d decode_counted [OF assms, where c = "n mod 20" and r = "n div 20" and ov = ov]
        by (simp add: tick_def)
    qed
  next
    case False
    then have r: "3 \<le> n div 20" "3 \<le> Suc n div 20" by (simp_all add: div_le_mono [of 60, simplified])
    show ?thesis using False r decode_counted [OF assms, where c = 0 and r = 3 and ov = ov] by (simp add: tick_def)
  qed
  then show ?case by (simp add: Suc.IH)
qed

text \<open>
  From cleared counters, a battery that keeps drawing little without being
  full, charging or trickle-charged gets a new attempt on the 20th, the 40th and the 60th tick, no
  request on the ticks between, and from the 61st tick on the mode that gives up.
\<close>

theorem charger_gives_up:
  assumes "sampling m" "mode_count_97 m = 0" "retry_count_98 m = 0"
  shows "fst (charger_decode_mode ov ((tick ov ^^ n) m)) =
    (if 60 \<le> n then 3 else if n mod 20 = 19 then 1 else 0)"
proof -
  have m: "counted m 0 0 = m" using assms(2,3) by (simp add: counted_def)
  have "n mod 20 < 20" "n < 60 \<Longrightarrow> n div 20 < 3" by (simp_all add: less_mult_imp_div_less)
  moreover have "60 \<le> n \<Longrightarrow> min 3 (n div 20) = 3" using div_le_mono [of 60 n 20] by simp
  ultimately show ?thesis
    using ticks_counted [OF assms(1), where ov = ov and n = n]
      decode_counted [OF assms(1), where c = "if n < 60 then n mod 20 else 0" and r = "min 3 (n div 20)" and ov = ov]
    by (auto simp: m)
qed

theorem charger_gives_up_witness:
  "fst (charger_decode_mode False ((tick False ^^ 39) demo_monitor)) = 1 \<and>
   fst (charger_decode_mode False ((tick False ^^ 75) demo_monitor)) = 3"
proof -
  have s: "sampling demo_monitor" "mode_count_97 demo_monitor = 0" "retry_count_98 demo_monitor = 0"
    by (simp_all add: sampling_def demo_monitor_def Monitor_ctor_def)
  show ?thesis using charger_gives_up [OF s, of False 39] charger_gives_up [OF s, of False 75] by simp
qed

subsection \<open>The state callback\<close>

fun pc_run :: "(bool \<times> bytes) list \<Rightarrow> power_control \<Rightarrow> power_control \<times> pc_op list" where
  "pc_run [] pc = (pc, [])"
| "pc_run ((c, f) # fs) pc =
     (let (pc, ops) = power_control_on_state c f pc; (pc, ops') = pc_run fs pc in (pc, ops @ ops'))"

definition is_clear :: "pc_op \<Rightarrow> bool" where
  "is_clear x \<longleftrightarrow> x = Cansend ''cansend vcan0 14E23214#A55A00''"

definition in_three :: "power_control \<Rightarrow> bool" where
  "in_three pc \<longleftrightarrow> have_status pc \<and> last_state pc = 3"

lemma clear_count:
  "count_list (map is_clear (snd (power_control_on_state c f pc))) True =
     (if \<not> in_three pc \<and> f ! 0 = 3 then 1 else 0)"
  by (auto simp: power_control_on_state_def power_control_clear_charger_test_burnin_def is_clear_def
      in_three_def Let_def)

lemma state_after:
  "in_three (fst (power_control_on_state c f pc)) = (f ! 0 = 3)"
  "initialized (fst (power_control_on_state c f pc)) = initialized pc"
  by (simp_all add: power_control_on_state_def in_three_def Let_def)

lemma run_clears:
  "count_list (map is_clear (snd (pc_run fs pc))) True =
     count_list (tl (remdups_adj (in_three pc # map (\<lambda>x. snd x ! 0 = 3) fs))) True"
proof (induction fs arbitrary: pc)
  case Nil
  then show ?case by simp
next
  case (Cons cf fs)
  obtain c f where cf: "cf = (c, f)" by fastforce
  obtain pc' ops where s: "power_control_on_state c f pc = (pc', ops)" by (metis surj_pair)
  have n: "count_list (map is_clear ops) True = (if \<not> in_three pc \<and> f ! 0 = 3 then 1 else 0)"
    using clear_count [of c f pc] by (simp add: s)
  have l: "in_three pc' = (f ! 0 = 3)" using state_after(1) [of c f pc] by (simp add: s)
  note h = remdups_adj_head
  have "count_list (map is_clear (snd (pc_run (cf # fs) pc))) True =
      (if \<not> in_three pc \<and> f ! 0 = 3 then 1 else 0) +
      count_list (tl (remdups_adj ((f ! 0 = 3) # map (\<lambda>x. snd x ! 0 = 3) fs))) True"
    using Cons.IH [of pc'] by (simp add: cf s n l case_prod_beta)
  also have "\<dots> = count_list (tl (remdups_adj (in_three pc # map (\<lambda>x. snd x ! 0 = 3) (cf # fs)))) True"
  proof -
    let ?ys = "map (\<lambda>x. snd x ! 0 = 3) fs"
    have two: "remdups_adj (b # c # ?ys) = (if b = c then remdups_adj (c # ?ys) else b # remdups_adj (c # ?ys))" for b c
      by simp
    have step: "count_list (tl (remdups_adj (b # c # ?ys))) True =
        (if \<not> b \<and> c then 1 else 0) + count_list (tl (remdups_adj (c # ?ys))) True" for b c
    proof -
      obtain t where t: "remdups_adj (c # ?ys) = c # t" by (rule that, rule h)
      show ?thesis unfolding two t by (cases b; cases c) simp_all
    qed
    show ?thesis unfolding cf list.map snd_conv by (rule step [symmetric])
  qed
  finally show ?case .
qed

text \<open>
  Over any run of status frames, the test mode of the charger is
  cleared exactly as often as the reported state enters 3, counting the state before the first frame
  as not 3 when there was none.
\<close>

theorem burnin_cleared_on_entry:
  "count_list (map is_clear (snd (pc_run fs pc))) True =
     count_list (tl (remdups_adj (in_three pc # map (\<lambda>x. snd x ! 0 = 3) fs))) True"
  by (rule run_clears)

end
