(* ===== verification/RideStrategy.thy ===== *)
theory RideStrategy
  imports Ssp
begin

text \<open>
  Model of \<open>main/ride/src/speed_ratio_ride_strategy.c\<close> and of the core of
  \<open>main/ride/src/ride_service.c\<close>: the assist strategy that turns region, assist level and
  boost into a motor command and the command into a serial frame, the setter of the assist level and
  the gate that enables the motor.

  The four assist tables are filled at run time and are an argument, as byte arrays; an access outside
  a table is \<open>None\<close>.  Warnings are kept in the log of the strategy and of the service.
\<close>

subsection \<open>The strategy\<close>

record strategy =
  assist_level :: u8
  region :: u8
  boost :: u8
  unsupported :: "u8 list"

definition ride_strategy_base_ctor :: "u8 \<Rightarrow> strategy \<Rightarrow> strategy" where
  "ride_strategy_base_ctor level self =
     self\<lparr>assist_level := level, region := 0, boost := 0\<rparr>"

definition speed_ratio_ride_strategy_ctor :: "u8 \<Rightarrow> strategy \<Rightarrow> strategy" where
  "speed_ratio_ride_strategy_ctor level self = ride_strategy_base_ctor level self"

definition speed_ratio_set_assist_level :: "u8 \<Rightarrow> strategy \<Rightarrow> strategy" where
  "speed_ratio_set_assist_level level self = self\<lparr>assist_level := level\<rparr>"

definition speed_ratio_get_assist_level :: "strategy \<Rightarrow> u8" where
  "speed_ratio_get_assist_level self = assist_level self"

definition speed_ratio_set_region :: "u8 \<Rightarrow> strategy \<Rightarrow> strategy" where
  "speed_ratio_set_region r self = self\<lparr>region := r\<rparr>"

definition speed_ratio_get_region :: "strategy \<Rightarrow> u8" where
  "speed_ratio_get_region self = region self"

definition speed_ratio_set_boost :: "u8 \<Rightarrow> strategy \<Rightarrow> strategy" where
  "speed_ratio_set_boost b self = self\<lparr>boost := b\<rparr>"

record assist_tables =
  table_default :: bytes
  table_region1 :: bytes
  table_region2 :: bytes
  table_region3 :: bytes

record motor_cmd =
  cmd_type :: u8
  cmd_b1 :: u8
  w0 :: u16
  w1 :: u16
  w2 :: u16
  w3 :: u16
  w4 :: u16
  w5 :: u16

definition SPEED_RATIO_ENTRY_SIZE :: nat where "SPEED_RATIO_ENTRY_SIZE = 0x0e"
definition SPEED_RATIO_BOOST_OFFSET :: nat where "SPEED_RATIO_BOOST_OFFSET = 0x46"

definition speed_ratio_rd16 :: "u8 \<Rightarrow> u8 \<Rightarrow> u16" where
  "speed_ratio_rd16 lo hi = ucast lo OR push_bit 8 (ucast hi)"

definition entry_cmd :: "bytes \<Rightarrow> motor_cmd" where
  "entry_cmd e = \<lparr>cmd_type = e ! 0, cmd_b1 = e ! 1,
     w0 = speed_ratio_rd16 (e ! 2) (e ! 3), w1 = speed_ratio_rd16 (e ! 4) (e ! 5),
     w2 = speed_ratio_rd16 (e ! 6) (e ! 7), w3 = speed_ratio_rd16 (e ! 8) (e ! 9),
     w4 = speed_ratio_rd16 (e ! 10) (e ! 11), w5 = speed_ratio_rd16 (e ! 12) (e ! 13)\<rparr>"

definition region_table :: "assist_tables \<Rightarrow> u8 \<Rightarrow> bytes" where
  "region_table tb reg =
     (if reg = 3 then table_region3 tb
      else if reg < 4 then
        (if reg = 1 then table_region1 tb
         else if reg = 2 then table_region2 tb
         else table_default tb)
      else table_default tb)"

definition entry_index :: "u8 \<Rightarrow> u32 \<Rightarrow> nat" where
  "entry_index b level =
     (if b \<noteq> 0 then SPEED_RATIO_BOOST_OFFSET
      else unat (level AND 0xff) * SPEED_RATIO_ENTRY_SIZE)"

definition speed_ratio_compute_command ::
    "assist_tables \<Rightarrow> strategy \<Rightarrow> u8 \<Rightarrow> u32 \<Rightarrow> (motor_cmd \<times> strategy) option" where
  "speed_ratio_compute_command tb self b level =
     (let reg = speed_ratio_get_region self;
          self = (if \<not> reg < 4 \<and> reg = 4
                  then self\<lparr>unsupported := unsupported self @ [speed_ratio_get_region self]\<rparr>
                  else self)
      in case slice (region_table tb reg) (entry_index b level) SPEED_RATIO_ENTRY_SIZE of
           None \<Rightarrow> None
         | Some e \<Rightarrow> Some (entry_cmd e, self))"

definition speed_ratio_get_command_value ::
    "assist_tables \<Rightarrow> strategy \<Rightarrow> (u16 \<times> strategy) option" where
  "speed_ratio_get_command_value tb self =
     (case speed_ratio_compute_command tb self (boost self) (ucast (assist_level self)) of
        None \<Rightarrow> None
      | Some (cmd, self) \<Rightarrow> Some (if cmd_type cmd = 0 then w0 cmd else w3 cmd, self))"

text \<open>The opcode and the words of the frame, by the type of the command.\<close>

definition cmd_frame :: "motor_cmd \<Rightarrow> bytes" where
  "cmd_frame cmd =
     (if cmd_type cmd = 1 then
        let frame = ssp_frame_begin 0x1c 0;
            frame = ssp_frame_append frame (w3 cmd);
            frame = ssp_frame_append frame (w4 cmd);
            frame = ssp_frame_append frame (w5 cmd)
        in frame
      else
        let frame = ssp_frame_begin (if cmd_type cmd = 2 then 0x1b else 0x17) 0;
            frame = ssp_frame_append frame (w0 cmd);
            frame = ssp_frame_append frame (w1 cmd);
            frame = ssp_frame_append frame (w2 cmd);
            frame = ssp_frame_append frame (w4 cmd);
            frame = ssp_frame_append frame (w5 cmd);
            frame = ssp_frame_append frame (w3 cmd)
        in frame)"

definition speed_ratio_get_frames ::
    "assist_tables \<Rightarrow> strategy \<Rightarrow> (bytes list \<times> strategy) option" where
  "speed_ratio_get_frames tb self =
     (case speed_ratio_compute_command tb self (boost self) (ucast (assist_level self)) of
        None \<Rightarrow> None
      | Some (cmd, self) \<Rightarrow> Some ([cmd_frame cmd], self))"

subsection \<open>The service\<close>

text \<open>
  The interfaces answer with a C \<open>int\<close>; the module keeps the low bytes of the inputs of the
  last log line.  Each input is read several times in one call; here one reading stands for all of
  them.  \<open>EnableMotor\<close> is the log line: the value given and the bytes of the five inputs.
\<close>

record gate_inputs =
  powered_on :: u32
  pedalling :: u32
  spinning :: u32
  sufficient_soc :: u32
  comm_running :: u32

type_synonym gate_bytes = "u8 \<times> u8 \<times> u8 \<times> u8 \<times> u8"

definition gate_chars :: "gate_inputs \<Rightarrow> gate_bytes" where
  "gate_chars gi = (ucast (powered_on gi), ucast (pedalling gi), ucast (spinning gi),
     ucast (sufficient_soc gi), ucast (comm_running gi))"

datatype ride_event =
    EnableMotor u8 gate_bytes
  | InvalidLevel u8
  | CommLock | CommUnlock
  | LevelLog u8

record ride_service =
  strat :: strategy
  rs_last :: gate_bytes
  rs_log :: "ride_event list"

definition motor_gate :: "gate_inputs \<Rightarrow> u8" where
  "motor_gate gi = (if powered_on gi = 0 \<or> pedalling gi = 0 \<or> spinning gi = 0
     then 0 else ucast (sufficient_soc gi))"

definition ride_service_should_enable_motor ::
    "gate_inputs \<Rightarrow> ride_service \<Rightarrow> u8 \<times> ride_service" where
  "ride_service_should_enable_motor gi self =
     (let enable = motor_gate gi
      in if rs_last self \<noteq> gate_chars gi
         then (enable, self\<lparr>rs_last := gate_chars gi,
                 rs_log := rs_log self @ [EnableMotor enable (gate_chars gi)]\<rparr>)
         else (enable, self))"

definition ride_service_set_assist_level :: "u8 \<Rightarrow> ride_service \<Rightarrow> ride_service" where
  "ride_service_set_assist_level level self =
     (if 4 < level then self\<lparr>rs_log := rs_log self @ [InvalidLevel level]\<rparr>
      else
        let self = self\<lparr>rs_log := rs_log self @ [CommLock]\<rparr>;
            self = self\<lparr>strat := speed_ratio_set_assist_level level (strat self)\<rparr>;
            self = self\<lparr>rs_log := rs_log self @ [LevelLog level]\<rparr>
        in self\<lparr>rs_log := rs_log self @ [CommUnlock]\<rparr>)"

subsection \<open>Operations of the service\<close>

datatype ride_op = SetLevel u8 | SetRegion u8 | SetBoost u8 | Sample gate_inputs

fun ride_apply :: "ride_op \<Rightarrow> ride_service \<Rightarrow> ride_service" where
  "ride_apply (SetLevel l) s = ride_service_set_assist_level l s"
| "ride_apply (SetRegion r) s = s\<lparr>strat := speed_ratio_set_region r (strat s)\<rparr>"
| "ride_apply (SetBoost b) s = s\<lparr>strat := speed_ratio_set_boost b (strat s)\<rparr>"
| "ride_apply (Sample gi) s = snd (ride_service_should_enable_motor gi s)"

lemma ride_level_step: "assist_level (strat s) \<le> 4 \<Longrightarrow> assist_level (strat (ride_apply x s)) \<le> 4"
  by (cases x)
    (auto simp: ride_service_set_assist_level_def ride_service_should_enable_motor_def Let_def
      speed_ratio_set_assist_level_def speed_ratio_set_region_def speed_ratio_set_boost_def not_less)

lemma ride_level_bound:
  "assist_level (strat s) \<le> 4 \<Longrightarrow> assist_level (strat (fold ride_apply ops s)) \<le> 4"
  by (induction ops arbitrary: s) (simp_all add: ride_level_step)

subsection \<open>The assist command on the wire\<close>

text \<open>What the rider gets: the row of the table, and the bytes of the row that are sent.\<close>

definition assist_row :: "assist_tables \<Rightarrow> strategy \<Rightarrow> bytes" where
  "assist_row tb st = take 14 (drop ((if boost st \<noteq> 0 then 5 else unat (assist_level st)) * 14)
     (region_table tb (region st)))"

definition row_opcode :: "bytes \<Rightarrow> u8" where
  "row_opcode e = (if e ! 0 = 1 then 0x1c else if e ! 0 = 2 then 0x1b else 0x17)"

definition row_payload :: "bytes \<Rightarrow> bytes" where
  "row_payload e = (if e ! 0 = 1 then drop 8 e
     else take 6 (drop 2 e) @ drop 10 e @ take 2 (drop 8 e))"

definition tables_complete :: "assist_tables \<Rightarrow> bool" where
  "tables_complete tb \<longleftrightarrow> 84 \<le> length (table_default tb) \<and> 84 \<le> length (table_region1 tb) \<and>
     84 \<le> length (table_region2 tb) \<and> 84 \<le> length (table_region3 tb)"

lemma rd16_lo: "ucast (speed_ratio_rd16 lo hi) = lo"
  by (rule bit_word_eqI) (auto simp: speed_ratio_rd16_def bit_simps)

lemma rd16_hi: "ucast (drop_bit 8 (speed_ratio_rd16 lo hi)) = hi"
  by (rule bit_word_eqI) (auto simp: speed_ratio_rd16_def bit_simps dest: bit_imp_le_length)

lemma frame_words:
  "ssp_frame_append (ssp_frame_begin opc 0) v
     = [SSP_FRAME_MAGIC, SSP_TYPE_NOTIFY, 0, ucast opc, ucast (drop_bit 8 opc), 0, 0,
        ucast v, ucast (drop_bit 8 v)]"
  by (simp add: ssp_frame_append_def ssp_frame_begin_def ssp_frame_append_u16_def)

lemma frame_more: "5 < length f \<Longrightarrow> ssp_frame_append f v = f @ [ucast v, ucast (drop_bit 8 v)]"
  by (simp add: ssp_frame_append_def ssp_frame_append_u16_def)

lemma list14:
  assumes "length e = 14"
  shows "\<exists>a b c d f g h i j k l m n q. e = [a, b, c, d, f, g, h, i, j, k, l, m, n, q]"
  using assms by (auto simp: numeral_eq_Suc length_Suc_conv)

lemma opcode_high: "drop_bit 8 (0x1c :: u16) = 0" "drop_bit 8 (0x1b :: u16) = 0" "drop_bit 8 (0x17 :: u16) = 0"
  by simp_all

lemma row_frame:
  assumes "length e = 14"
  shows "cmd_frame (entry_cmd e)
     = [SSP_FRAME_MAGIC, SSP_TYPE_NOTIFY, 0, row_opcode e, 0, 0, 0] @ row_payload e"
proof -
  obtain a b c d f g h i j k l m n q where e: "e = [a, b, c, d, f, g, h, i, j, k, l, m, n, q]"
    using list14 [OF assms] by metis
  show ?thesis
    by (simp add: e cmd_frame_def entry_cmd_def Let_def frame_words frame_more rd16_lo rd16_hi
        row_opcode_def row_payload_def opcode_high)
qed

lemma row_of_table:
  assumes t: "tables_complete tb" and l: "assist_level st \<le> 4"
  shows "slice (region_table tb (region st)) (entry_index (boost st) (ucast (assist_level st)))
      SPEED_RATIO_ENTRY_SIZE = Some (assist_row tb st)"
    and "length (assist_row tb st) = 14"
proof -
  have len: "84 \<le> length (region_table tb (region st))"
    using t by (simp add: tables_complete_def region_table_def)
  have low: "unat ((ucast (assist_level st) :: u32) AND 0xff) = unat (assist_level st)"
  proof -
    have "(ucast (assist_level st) :: u32) AND 0xff = ucast (assist_level st)"
    proof -
      have m: "(0xff :: u32) = mask 8" by (simp add: mask_eq_exp_minus_1)
      show ?thesis unfolding m
        by (rule bit_word_eqI) (auto simp: bit_simps dest: bit_imp_le_length)
    qed
    moreover have "unat (ucast (assist_level st) :: u32) = unat (assist_level st)"
      using l by (simp add: unsigned_ucast_eq take_bit_nat_eq_self word_le_nat_alt)
    ultimately show ?thesis by simp
  qed
  have "unat (assist_level st) \<le> 4" using l by (simp add: word_le_nat_alt)
  then show "slice (region_table tb (region st)) (entry_index (boost st) (ucast (assist_level st)))
      SPEED_RATIO_ENTRY_SIZE = Some (assist_row tb st)" "length (assist_row tb st) = 14"
    using len by (auto simp: slice_def entry_index_def SPEED_RATIO_ENTRY_SIZE_def
        SPEED_RATIO_BOOST_OFFSET_def low assist_row_def)
qed

lemma get_frames_row:
  assumes "tables_complete tb" "assist_level st \<le> 4"
  shows "\<exists>st'. speed_ratio_get_frames tb st = Some ([cmd_frame (entry_cmd (assist_row tb st))], st')"
  using row_of_table [OF assms]
  by (simp add: speed_ratio_get_frames_def speed_ratio_compute_command_def Let_def speed_ratio_get_region_def)

text \<open>
  C24.  Whatever the order of level, region and boost settings and of gate
  samples, and whatever the values asked for, the service always has a command: the strategy yields
  exactly one frame, and when that frame is queued and sent, every subscriber of the waiting receiver
  gets the opcode of the selected row and the bytes of that row, rearranged as the opcode asks.  The
  row is that of the region's table, row 5 under boost and otherwise the row of the last valid level.
\<close>

theorem assist_command_delivered:
  fixes ops :: "ride_op list" and svc :: ride_service and tb :: assist_tables
  defines "st \<equiv> strat (fold ride_apply ops svc)"
  defines "e \<equiv> assist_row tb st"
  assumes "assist_level (strat svc) \<le> 4" "tables_complete tb"
    and "\<not> stop s" "txq s = []" "rx_idle r"
  shows "\<exists>frame st' s' r' w pad. speed_ratio_get_frames tb st = Some ([frame], st') \<and>
     ssp_send_iter (ssp_enqueue_frame frame s) = Some s' \<and> txq s' = [] \<and> wire s' = wire s @ w \<and>
     rx_bytes get nsub w r = Some r' \<and> rx_idle r' \<and>
     calls r' = calls r @ [Stat 0x08] @
       map (\<lambda>i. HandleNotify i (row_opcode e) (of_nat (length (row_payload e)))
              (row_payload e @ pad)) [0..<nsub] @
       [Stat 0x20, Queued [SSP_FRAME_MAGIC, SSP_TYPE_ACK, seq_counter s + 1]]"
proof -
  have l: "assist_level st \<le> 4" unfolding st_def by (rule ride_level_bound) fact
  note row = row_of_table [OF \<open>tables_complete tb\<close> l, folded e_def]
  obtain st' where g: "speed_ratio_get_frames tb st = Some ([cmd_frame (entry_cmd e)], st')"
    using get_frames_row [OF \<open>tables_complete tb\<close> l] by (auto simp: e_def)
  define f where "f = cmd_frame (entry_cmd e)"
  have f: "f = [SSP_FRAME_MAGIC, SSP_TYPE_NOTIFY, 0, row_opcode e, 0, 0, 0] @ row_payload e"
    unfolding f_def by (rule row_frame) (rule row(2))
  have pl: "length (row_payload e) \<in> {6, 12}" using row(2) by (simp add: row_payload_def)
  have q: "\<not> stop (ssp_enqueue_frame f s)" "txq (ssp_enqueue_frame f s) = f # []"
    "wire (ssp_enqueue_frame f s) = wire s" "seq_counter (ssp_enqueue_frame f s) = seq_counter s"
    using assms by (simp_all add: ssp_enqueue_frame_def Let_def emit_def)
  have n: "f ! 1 = SSP_TYPE_NOTIFY" "8 \<le> length f" "length f \<le> 254"
    using pl by (auto simp: f)
  have v: "f ! 3 = row_opcode e" "length f - 7 = length (row_payload e)" "drop 7 f = row_payload e"
    by (simp_all add: f)
  show ?thesis
    using notify_delivered [OF q(1,2) n \<open>rx_idle r\<close>, of get nsub] g
    unfolding q v f_def [symmetric] by blast
qed


definition demo_tables :: assist_tables where
  "demo_tables = (let t = map word_of_nat [0..<84] in \<lparr>table_default = t, table_region1 = t,
     table_region2 = replicate 84 2, table_region3 = replicate 84 0xC0\<rparr>)"

definition demo_service :: ride_service where
  "demo_service = \<lparr>strat = \<lparr>assist_level = 4, region = 0, boost = 0, unsupported = []\<rparr>,
     rs_last = (0, 0, 0, 0, 0), rs_log = []\<rparr>"

theorem assist_command_delivered_witness:
  "\<exists>frame st' s' r' w pad.
     speed_ratio_get_frames demo_tables
       (strat (fold ride_apply [SetRegion 3, SetLevel 9, SetLevel 2] demo_service)) = Some ([frame], st') \<and>
     ssp_send_iter (ssp_enqueue_frame frame demo_rx) = Some s' \<and> txq s' = [] \<and> wire s' = wire demo_rx @ w \<and>
     rx_bytes (\<lambda>_ _ _ r. (False, r)) 1 w demo_rx = Some r' \<and> rx_idle r' \<and>
     calls r' = calls demo_rx @ [Stat 0x08] @
       map (\<lambda>i. HandleNotify i (row_opcode (assist_row demo_tables
               (strat (fold ride_apply [SetRegion 3, SetLevel 9, SetLevel 2] demo_service))))
             (of_nat (length (row_payload (assist_row demo_tables
               (strat (fold ride_apply [SetRegion 3, SetLevel 9, SetLevel 2] demo_service))))))
             (row_payload (assist_row demo_tables
               (strat (fold ride_apply [SetRegion 3, SetLevel 9, SetLevel 2] demo_service))) @ pad)) [0..<1] @
       [Stat 0x20, Queued [SSP_FRAME_MAGIC, SSP_TYPE_ACK, seq_counter demo_rx + 1]]"
  by (rule assist_command_delivered)
    (simp_all add: demo_service_def demo_tables_def tables_complete_def demo_rx_def rx_idle_def Let_def)

subsection \<open>The log of the gate\<close>

fun samples :: "ride_op list \<Rightarrow> gate_inputs list" where
  "samples [] = []"
| "samples (Sample gi # ops) = gi # samples ops"
| "samples (_ # ops) = samples ops"

fun gate_lines :: "ride_event list \<Rightarrow> gate_bytes list" where
  "gate_lines [] = []"
| "gate_lines (EnableMotor v c # es) = c # gate_lines es"
| "gate_lines (_ # es) = gate_lines es"

lemma gate_lines_append [simp]: "gate_lines (xs @ ys) = gate_lines xs @ gate_lines ys"
  by (induction xs rule: gate_lines.induct) simp_all

lemma set_level_gate [simp]:
  "gate_lines (rs_log (ride_service_set_assist_level l s)) = gate_lines (rs_log s)"
  "rs_last (ride_service_set_assist_level l s) = rs_last s"
  by (simp_all add: ride_service_set_assist_level_def Let_def)

lemma sample_gate:
  "rs_last (snd (ride_service_should_enable_motor gi s)) = gate_chars gi"
  "gate_lines (rs_log (snd (ride_service_should_enable_motor gi s)))
     = gate_lines (rs_log s) @ (if rs_last s = gate_chars gi then [] else [gate_chars gi])"
  by (simp_all add: ride_service_should_enable_motor_def Let_def)

lemma gate_log_changes:
  "gate_lines (rs_log (fold ride_apply ops s))
     = gate_lines (rs_log s) @ tl (remdups_adj (rs_last s # map gate_chars (samples ops)))"
proof (induction ops arbitrary: s rule: samples.induct)
  case (2 gi ops)
  let ?xs = "map gate_chars (samples ops)"
  have h: "remdups_adj (gate_chars gi # ?xs) = gate_chars gi # tl (remdups_adj (gate_chars gi # ?xs))"
    by (rule remdups_adj_head)
  show ?case
  proof (cases "rs_last s = gate_chars gi")
    case True
    then show ?thesis by (simp add: 2 sample_gate)
  next
    case False
    then have "tl (remdups_adj (rs_last s # gate_chars gi # ?xs)) = remdups_adj (gate_chars gi # ?xs)"
      by simp
    then show ?thesis using False h by (simp add: 2 sample_gate del: remdups_adj.simps)
  qed
qed simp_all

lemma gate_safe:
  "fst (ride_service_should_enable_motor gi s) \<noteq> 0 \<Longrightarrow>
     powered_on gi \<noteq> 0 \<and> pedalling gi \<noteq> 0 \<and> spinning gi \<noteq> 0 \<and> sufficient_soc gi \<noteq> 0"
  by (auto simp: ride_service_should_enable_motor_def motor_gate_def Let_def split: if_splits)

end
