(* ===== verification/RidePower.thy ===== *)
theory RidePower
  imports Prelude
begin

text \<open>
  Model of \<open>main/ride/src/power.c\<close> and \<open>main/ride/src/motor_sensor_od.c\<close>: the battery
  data the ride service keeps, the limit of the discharge current derived from it, and the reports of
  the motor sensor.

  The derating multiplies by the single-precision constants 0.7f and 0.85f.  The product of an integer
  below 2^16 and a 24-bit significand is an integer multiple of 2^-24; it is rounded to 24 significant
  bits, ties to even, and the conversion to \<open>int\<close> truncates.  All of that is written out on
  natural numbers.
\<close>

subsection \<open>Single-precision scaling\<close>

text \<open>The number of bits beyond 24 of a natural number, and rounding to what is left.\<close>

fun excess_bits :: "nat \<Rightarrow> nat" where
  "excess_bits p = (if p < 2 ^ 24 then 0 else Suc (excess_bits (p div 2)))"

declare excess_bits.simps [simp del]

definition round_even :: "nat \<Rightarrow> nat \<Rightarrow> nat" where
  "round_even p k =
     (let q = p div 2 ^ k; r = p mod 2 ^ k
      in if 2 ^ k < 2 * r \<or> (2 * r = 2 ^ k \<and> odd q) then q + 1 else q)"

definition f32_product :: "nat \<Rightarrow> nat \<Rightarrow> nat" where
  "f32_product sig n = (let p = n * sig; k = excess_bits p in round_even p k * 2 ^ k)"

definition f32_scale :: "nat \<Rightarrow> u16 \<Rightarrow> u32" where
  "f32_scale sig n = word_of_nat (f32_product sig (unat n) div 2 ^ 24)"

definition F32_070 :: nat where "F32_070 = 11744051"
definition F32_085 :: nat where "F32_085 = 14260634"

subsection \<open>The battery data\<close>

datatype pw_event =
    OdRegister string
  | OdNotify
  | DerateLog u32 u16 u16

record power_sensor =
  max_discharge :: u16
  cap_word :: u16
  temperature_lo :: u16
  soc :: u16
  pw_on :: bool
  pw_charging :: bool
  pw_sufficient :: bool
  pw_log :: "pw_event list"

definition pw_emit :: "pw_event \<Rightarrow> power_sensor \<Rightarrow> power_sensor" where
  "pw_emit e s = s\<lparr>pw_log := pw_log s @ [e]\<rparr>"

definition power_ctor :: "power_sensor \<Rightarrow> power_sensor" where
  "power_ctor self =
     (let self = self\<lparr>max_discharge := 0, cap_word := 0, temperature_lo := 0, soc := 0,
            pw_on := False, pw_charging := False, pw_sufficient := True\<rparr>;
          self = pw_emit (OdRegister ''battery_primary_battery_temperature'') self;
          self = pw_emit (OdRegister ''power_control_state'') self
      in pw_emit (OdRegister ''battery_primary_battery_capacity'') self)"

definition derate_target :: "u16 \<Rightarrow> u16 \<Rightarrow> u32" where
  "derate_target level cap =
     (if 5 \<le> level then
        if level < 0x12 then f32_scale F32_070 cap AND 0xffff
        else if level \<le> 0x15 then f32_scale F32_085 cap AND 0xffff
        else ucast cap
      else 0)"

definition ratchet :: "u32 \<Rightarrow> u16 \<Rightarrow> u32" where
  "ratchet target known =
     (if 0x32 \<le> known then
        let floor_v = ucast known - 0x32 :: u32
        in if target \<le> floor_v AND 0xffff then floor_v else target
      else target)"

definition power_compute_max_discharge_current :: "power_sensor \<Rightarrow> u32 \<times> power_sensor" where
  "power_compute_max_discharge_current self =
     (let target = derate_target (soc self) (cap_word self) AND 0xffff;
          (target, self) =
            (if target < ucast (max_discharge self) then
               let target = ratchet target (max_discharge self)
               in (target, pw_emit (DerateLog target (max_discharge self) (soc self)) self)
             else (target, self));
          self = self\<lparr>max_discharge := ucast target\<rparr>
      in if target = 0 then
           let self = self\<lparr>pw_sufficient := False\<rparr>
           in if soc self < 0x0d then (0, self) else (0, self\<lparr>pw_sufficient := True\<rparr>)
         else if soc self < 0x0d then (target, self)
         else if pw_sufficient self then (target, self)
         else (target, self\<lparr>pw_sufficient := True\<rparr>))"

definition power_is_powered_on :: "power_sensor \<Rightarrow> bool" where "power_is_powered_on self = pw_on self"
definition power_is_sufficient_soc :: "power_sensor \<Rightarrow> bool" where "power_is_sufficient_soc self = pw_sufficient self"
definition power_is_charging :: "power_sensor \<Rightarrow> bool" where "power_is_charging self = pw_charging self"

definition power_set_temperature :: "u16 \<Rightarrow> u16 \<Rightarrow> power_sensor \<Rightarrow> power_sensor" where
  "power_set_temperature hi lo self = pw_emit OdNotify (self\<lparr>cap_word := hi, temperature_lo := lo\<rparr>)"

definition power_set_capacity :: "u16 \<Rightarrow> power_sensor \<Rightarrow> power_sensor" where
  "power_set_capacity v self = pw_emit OdNotify (self\<lparr>soc := v\<rparr>)"

definition power_reset :: "power_sensor \<Rightarrow> power_sensor" where
  "power_reset self = self\<lparr>cap_word := 0, temperature_lo := 0, pw_on := False\<rparr>"

definition power_od_temperature_callback :: "u16 \<Rightarrow> u16 \<Rightarrow> power_sensor \<Rightarrow> power_sensor" where
  "power_od_temperature_callback lo hi self =
     pw_emit OdNotify (self\<lparr>cap_word := hi, temperature_lo := lo\<rparr>)"

definition power_od_state_callback :: "u8 \<Rightarrow> power_sensor \<Rightarrow> power_sensor" where
  "power_od_state_callback s self =
     pw_emit OdNotify (self\<lparr>pw_on := s - 1 < 2, pw_charging := s - 3 < 2\<rparr>)"

definition power_od_capacity_callback :: "u16 \<Rightarrow> power_sensor \<Rightarrow> power_sensor" where
  "power_od_capacity_callback v self = pw_emit OdNotify (self\<lparr>soc := v\<rparr>)"

subsection \<open>The motor sensor\<close>

record motor_cfg =
  cfg_byte0 :: u8
  cfg_rest :: u32

record motor_sensor_report =
  rp_status :: u8
  rp_pedal :: u8
  rp_speed :: u16
  rp_period :: u8

datatype ms_event = ModelLog string | AllZeroLog | MsPublish u32

record motor_sensor =
  ms_speed :: u16
  ms_status_word :: u32
  ms_pedal :: u16
  status_bit2 :: u8
  status_bit1 :: u8
  status_bit0 :: u8
  model_byte :: u8
  model_cfg :: u32
  model_initd :: u8
  ms_log :: "ms_event list"

definition ms_emit :: "ms_event \<Rightarrow> motor_sensor \<Rightarrow> motor_sensor" where
  "ms_emit e s = s\<lparr>ms_log := ms_log s @ [e]\<rparr>"

definition motor_sensor_od_model_callback ::
    "motor_cfg \<Rightarrow> motor_cfg \<Rightarrow> char \<Rightarrow> motor_sensor \<Rightarrow> motor_sensor" where
  "motor_sensor_od_model_callback cfg0 cfg1 c self =
     (let self = ms_emit (ModelLog (if c = CHR ''S'' \<or> c = CHR ''L'' then ''S5'' else ''A5'')) self
      in if c = CHR ''A'' \<or> c = CHR ''V'' then
           if model_initd self = 0
           then self\<lparr>model_byte := cfg_byte0 cfg0, model_cfg := cfg_rest cfg0, model_initd := 1\<rparr>
           else self\<lparr>model_byte := cfg_byte0 cfg0, model_cfg := cfg_rest cfg0\<rparr>
         else if c = CHR ''S'' \<or> c = CHR ''L'' then
           if model_initd self \<noteq> 0
           then self\<lparr>model_byte := cfg_byte0 cfg1, model_cfg := cfg_rest cfg1\<rparr>
           else self\<lparr>model_byte := cfg_byte0 cfg1, model_cfg := cfg_rest cfg1, model_initd := 1\<rparr>
         else self)"

definition motor_sensor_od_handle_report ::
    "motor_sensor_report \<Rightarrow> motor_sensor \<Rightarrow> motor_sensor" where
  "motor_sensor_od_handle_report r self =
     (let status = rp_status r;
          self = self\<lparr>ms_speed := rp_speed r,
            status_bit2 := drop_bit 2 status AND 1,
            status_bit1 := drop_bit 1 status AND 1,
            status_bit0 := status AND 1\<rparr>;
          self = self\<lparr>ms_pedal := scast (rp_pedal r)\<rparr>;
          self = (if rp_speed r = 0 \<and> rp_pedal r = 0 \<and> status AND 1 = 0
                    \<and> drop_bit 1 status AND 1 = 0 \<and> drop_bit 2 status AND 1 = 0
                  then ms_emit AllZeroLog self else self)
      in ms_emit (MsPublish (ucast (rp_period r) * 10 + 0x14)) self)"

definition motor_sensor_od_reset :: "motor_sensor \<Rightarrow> motor_sensor" where
  "motor_sensor_od_reset self =
     self\<lparr>ms_speed := 0, ms_pedal := 0, status_bit2 := 0, status_bit1 := 0, status_bit0 := 0\<rparr>"

definition motor_sensor_od_get_speed :: "motor_sensor \<Rightarrow> u16" where
  "motor_sensor_od_get_speed self = ms_speed self"
definition motor_sensor_od_get_pedal_value :: "motor_sensor \<Rightarrow> u16" where
  "motor_sensor_od_get_pedal_value self = ms_pedal self"
definition motor_sensor_od_get_model_byte :: "motor_sensor \<Rightarrow> u8" where
  "motor_sensor_od_get_model_byte self = model_byte self"
definition motor_sensor_od_get_status_word :: "motor_sensor \<Rightarrow> u32" where
  "motor_sensor_od_get_status_word self = ms_status_word self"

subsection \<open>The scaling loses less than one\<close>

lemma excess_bits_le: "0 < excess_bits p \<Longrightarrow> 2 ^ (excess_bits p + 23) \<le> p"
proof (induction p rule: excess_bits.induct)
  case (1 p)
  then have p: "\<not> p < 2 ^ 24" and e: "excess_bits p = Suc (excess_bits (p div 2))"
    using excess_bits.simps [of p] by (simp_all split: if_splits)
  show ?case
  proof (cases "excess_bits (p div 2) = 0")
    case True
    then show ?thesis using p by (simp add: e)
  next
    case False
    then have "2 ^ (excess_bits (p div 2) + 23) \<le> p div 2" using 1 p by simp
    then have "2 * 2 ^ (excess_bits (p div 2) + 23) \<le> 2 * (p div 2)" by simp
    also have "\<dots> \<le> p" by simp
    finally show ?thesis unfolding e by (simp only: power_Suc add_Suc)
  qed
qed

lemma round_even_error:
  fixes p k :: nat
  shows "2 * p \<le> 2 * (round_even p k * 2 ^ k) + 2 ^ k" "2 * (round_even p k * 2 ^ k) \<le> 2 * p + 2 ^ k"
proof -
  define q r where "q = p div 2 ^ k" and "r = p mod 2 ^ k"
  have p: "p = q * 2 ^ k + r" unfolding q_def r_def by (rule div_mult_mod_eq [symmetric])
  have r: "r < 2 ^ k" by (simp add: r_def)
  have R: "round_even p k = (if 2 ^ k < 2 * r \<or> (2 * r = 2 ^ k \<and> odd q) then q + 1 else q)"
    by (simp add: round_even_def q_def r_def Let_def)
  show "2 * p \<le> 2 * (round_even p k * 2 ^ k) + 2 ^ k" "2 * (round_even p k * 2 ^ k) \<le> 2 * p + 2 ^ k"
    unfolding R using r by (auto simp: algebra_simps p)
qed

lemma round_even_exact: "round_even p 0 = p"
  by (simp add: round_even_def)

text \<open>The relative error of the product is at most 2^-24.\<close>

lemma f32_product_error:
  "n * sig * 2 ^ 24 \<le> f32_product sig n * 2 ^ 24 + n * sig"
  "f32_product sig n * 2 ^ 24 \<le> n * sig * 2 ^ 24 + n * sig"
proof -
  define p k where "p = n * sig" and "k = excess_bits p"
  have F: "f32_product sig n = round_even p k * 2 ^ k"
    by (simp add: f32_product_def p_def k_def Let_def)
  have "p * 2 ^ 24 \<le> f32_product sig n * 2 ^ 24 + p \<and> f32_product sig n * 2 ^ 24 \<le> p * 2 ^ 24 + p"
  proof (cases "k = 0")
    case True then show ?thesis by (simp add: F round_even_exact)
  next
    case False
    then have "2 ^ k * 2 ^ 23 \<le> p"
      using excess_bits_le [of p] by (simp add: k_def power_add)
    then show ?thesis using round_even_error [of p k] by (simp add: F)
  qed
  then show "n * sig * 2 ^ 24 \<le> f32_product sig n * 2 ^ 24 + n * sig"
    "f32_product sig n * 2 ^ 24 \<le> n * sig * 2 ^ 24 + n * sig"
    by (simp_all add: p_def)
qed

lemma f32_scale_bounds:
  fixes n :: u16
  assumes "sig \<le> 2 ^ 24"
  defines "r \<equiv> unat (f32_scale sig n)"
  shows "r * 2 ^ 48 \<le> unat n * sig * (2 ^ 24 + 1)"
    and "unat n * sig * (2 ^ 24 - 1) < (r + 1) * 2 ^ 48"
proof -
  let ?F = "f32_product sig (unat n)"
  have n: "unat n < 65536" by simp
  have "unat n * sig \<le> 65536 * 2 ^ 24" by (rule mult_le_mono [OF less_imp_le [OF n] assms(1)])
  then have "?F * 2 ^ 24 \<le> 65536 * 2 ^ 24 * 2 ^ 24 + 65536 * 2 ^ 24"
    by (intro le_trans [OF f32_product_error(2)] add_mono mult_le_mono1)
  then have "?F div 2 ^ 24 < 4294967296" by (simp add: div_less_iff_less_mult)
  then have r: "r = ?F div 2 ^ 24" by (simp add: r_def f32_scale_def unat_u32_of_nat)
  have "r * 2 ^ 24 \<le> ?F" "?F < (r + 1) * 2 ^ 24"
    unfolding r using dividend_less_div_times [of "2 ^ 24 :: nat" ?F] by (simp_all add: algebra_simps)
  then show "r * 2 ^ 48 \<le> unat n * sig * (2 ^ 24 + 1)"
    "unat n * sig * (2 ^ 24 - 1) < (r + 1) * 2 ^ 48"
    using f32_product_error [where sig = sig and n = "unat n"] by (simp_all add: algebra_simps)
qed

lemma scale_070: "10 * unat (f32_scale F32_070 n) \<le> 7 * unat n"
    "7 * unat n < 10 * unat (f32_scale F32_070 n) + 11"
proof -
  have "unat (f32_scale F32_070 n) * 281474976710656 \<le> 197032492086067 * unat n"
    "197032468597965 * unat n < 281474976710656 * unat (f32_scale F32_070 n) + 281474976710656"
    using f32_scale_bounds [of F32_070 n] by (simp_all add: F32_070_def)
  then show "10 * unat (f32_scale F32_070 n) \<le> 7 * unat n"
    "7 * unat n < 10 * unat (f32_scale F32_070 n) + 11"
    using unat_u16_less [of n] by linarith+
qed

lemma scale_085: "20 * unat (f32_scale F32_085 n) \<le> 17 * unat n"
    "17 * unat n < 20 * unat (f32_scale F32_085 n) + 21"
proof -
  have "unat (f32_scale F32_085 n) * 281474976710656 \<le> 239253751175578 * unat n"
    "239253722654310 * unat n < 281474976710656 * unat (f32_scale F32_085 n) + 281474976710656"
    using f32_scale_bounds [of F32_085 n] by (simp_all add: F32_085_def)
  then show "20 * unat (f32_scale F32_085 n) \<le> 17 * unat n"
    "17 * unat n < 20 * unat (f32_scale F32_085 n) + 21"
    using unat_u16_less [of n] by linarith+
qed

subsection \<open>The limit follows its target\<close>

definition limit_target :: "power_sensor \<Rightarrow> nat" where
  "limit_target s = unat (derate_target (soc s) (cap_word s))"

lemma unat_and_ffff: "unat (w AND 0xffff :: u32) = unat w mod 65536"
  using unat_low [of w 16] by (simp add: mask_eq_exp_minus_1)

lemma and_ffff_small: "unat (w :: u32) < 65536 \<Longrightarrow> w AND 0xffff = w"
  by (simp add: unat_and_ffff word_unat_eq_iff)

lemma f32_scale_le:
  "unat (f32_scale F32_070 cap) \<le> unat cap" "unat (f32_scale F32_085 cap) \<le> unat cap"
  using scale_070(1) [of cap] scale_085(1) [of cap] by linarith+

lemma derate_target_bound: "unat (derate_target v cap) \<le> unat cap"
  using f32_scale_le [of cap]
  by (auto simp: derate_target_def unat_up16 unat_and_ffff intro: le_trans [OF mod_less_eq_dividend])

lemma derate_target_u16: "unat (derate_target v cap) < 65536"
  using derate_target_bound [of v cap] unat_u16_less [of cap] by linarith

text \<open>One computation: the limit falls by at most 50 towards the target, and rises at once.\<close>

lemma ratchet_value:
  assumes "unat t < unat known"
  shows "unat (ratchet t known) = max (unat t) (unat known - 50)"
proof (cases "50 \<le> unat known")
  case True
  define fl where "fl = (ucast known - 0x32 :: u32)"
  have fl: "unat fl = unat known - 50"
    using True by (simp add: fl_def unat_sub_no_wrap unat_up16)
  then have "fl AND 0xffff = fl" using unat_u16_less [of known] by (intro and_ffff_small) linarith
  then show ?thesis using True fl
    by (auto simp: ratchet_def fl_def [symmetric] word_le_nat_alt)
next
  case False
  then show ?thesis by (simp add: ratchet_def word_le_nat_alt)
qed

lemma compute_parts:
  fixes s :: power_sensor
  defines "t \<equiv> derate_target (soc s) (cap_word s)"
  defines "n \<equiv> (if t < ucast (max_discharge s) then ratchet t (max_discharge s) else t)"
  shows "power_compute_max_discharge_current s =
    (n, s\<lparr>max_discharge := ucast n,
       pw_log := pw_log s @ (if t < ucast (max_discharge s)
         then [DerateLog n (max_discharge s) (soc s)] else []),
       pw_sufficient := (if 13 \<le> soc s then True else if n = 0 then False else pw_sufficient s)\<rparr>)"
proof -
  have t: "t AND 0xffff = t" unfolding t_def by (rule and_ffff_small) (rule derate_target_u16)
  have down: "(if t < ucast (max_discharge s)
      then let target = ratchet t (max_discharge s)
        in (target, pw_emit (DerateLog target (max_discharge s) (soc s)) s)
      else (t, s))
    = (n, s\<lparr>pw_log := pw_log s @ (if t < ucast (max_discharge s)
         then [DerateLog n (max_discharge s) (soc s)] else [])\<rparr>)"
    by (simp add: n_def pw_emit_def Let_def)
  show ?thesis
    unfolding power_compute_max_discharge_current_def t_def [symmetric] t Let_def [of t] down
    by (cases "n = 0"; cases "soc s < 13"; cases "pw_sufficient s") (simp_all add: Let_def not_less)
qed

lemma compute_limit:
  "unat (fst (power_compute_max_discharge_current s)) = max (limit_target s) (unat (max_discharge s) - 50)"
  "unat (max_discharge (snd (power_compute_max_discharge_current s)))
     = max (limit_target s) (unat (max_discharge s) - 50)"
proof -
  let ?t = "derate_target (soc s) (cap_word s)" and ?m = "max_discharge s"
  let ?n = "if ?t < ucast ?m then ratchet ?t ?m else ?t"
  have less: "?t < ucast ?m \<longleftrightarrow> unat ?t < unat ?m"
    by (simp add: word_less_nat_alt unat_up16)
  have v: "unat ?n = max (limit_target s) (unat ?m - 50)"
    by (auto simp: limit_target_def ratchet_value less simp del: word_less_nat_alt)
  then show "unat (fst (power_compute_max_discharge_current s)) = max (limit_target s) (unat ?m - 50)"
    by (simp add: compute_parts)
  have "unat ?n < 65536"
    using v derate_target_u16 [of "soc s" "cap_word s"] unat_u16_less [of ?m]
    unfolding limit_target_def by linarith
  then have "unat (ucast ?n :: u16) = unat ?n"
    by (simp add: unsigned_ucast_eq take_bit_nat_eq_self del: if_split_asm)
  then show "unat (max_discharge (snd (power_compute_max_discharge_current s)))
      = max (limit_target s) (unat ?m - 50)"
    using v by (simp add: compute_parts)
qed


subsection \<open>The limit over a run\<close>

fun compute_run :: "nat \<Rightarrow> power_sensor \<Rightarrow> power_sensor" where
  "compute_run 0 s = s"
| "compute_run (Suc n) s = compute_run n (snd (power_compute_max_discharge_current s))"

lemma compute_keeps [simp]:
  "soc (snd (power_compute_max_discharge_current s)) = soc s"
  "cap_word (snd (power_compute_max_discharge_current s)) = cap_word s"
  "limit_target (snd (power_compute_max_discharge_current s)) = limit_target s"
  by (simp_all add: compute_parts limit_target_def)

lemma compute_run_limit:
  "0 < n \<Longrightarrow> unat (max_discharge (compute_run n s)) = max (limit_target s) (unat (max_discharge s) - 50 * n)"
proof (induction n arbitrary: s)
  case (Suc n)
  then show ?case by (cases "n = 0") (auto simp: compute_limit)
qed simp

lemma compute_run_sufficient:
  "0 < n \<Longrightarrow> soc s < 13 \<Longrightarrow> limit_target s = 0 \<Longrightarrow> unat (max_discharge s) \<le> 50 * n \<Longrightarrow>
     \<not> pw_sufficient (compute_run n s)"
proof (induction n arbitrary: s)
  case (Suc n)
  let ?s = "snd (power_compute_max_discharge_current s)"
  show ?case
  proof (cases "n = 0")
    case True
    then have "unat (fst (power_compute_max_discharge_current s)) = 0"
      using Suc.prems by (simp add: compute_limit)
    then show ?thesis using Suc.prems True
      by (simp add: compute_parts not_le unsigned_eq_0_iff del: compute_limit)
  next
    case False
    then show ?thesis using Suc.prems by (simp add: Suc.IH compute_limit)
  qed
qed simp

lemma target_bands:
  "limit_target s =
     (if soc s < 5 then 0
      else if soc s < 18 then unat (f32_scale F32_070 (cap_word s))
      else if soc s \<le> 21 then unat (f32_scale F32_085 (cap_word s)) else unat (cap_word s))"
proof -
  have small: "f32_scale F32_070 (cap_word s) AND 0xffff = f32_scale F32_070 (cap_word s)"
    "f32_scale F32_085 (cap_word s) AND 0xffff = f32_scale F32_085 (cap_word s)"
    using f32_scale_le [of "cap_word s"] unat_u16_less [of "cap_word s"]
    by (auto intro!: and_ffff_small elim: le_less_trans)
  show ?thesis
    unfolding limit_target_def derate_target_def small not_less [symmetric]
    by (simp only: if_distrib [of unat] unat_up16 unsigned_0 if_not_P cong: if_cong) simp
qed

text \<open>
  Whatever limit is known, computations with unchanged battery data
  bring it to the target for the state of charge by steps of at most 50: after \<open>n\<close> of them it is
  the larger of the target and the old limit less \<open>50 * n\<close>.  The target never exceeds the
  battery's word, is zero below 5 percent, and is the single-precision product with 0.7 or 0.85,
  truncated, in the bands below 18 and up to 21.  Once the limit is used up at a charge below 13 the
  battery is reported insufficient, so the motor gate closes.
\<close>

theorem discharge_limit_settles:
  assumes "0 < n"
  shows "unat (max_discharge (compute_run n s)) = max (limit_target s) (unat (max_discharge s) - 50 * n)
    \<and> limit_target s \<le> unat (cap_word s)
    \<and> (if soc s < 5 then limit_target s = 0
       else if soc s < 18 then 10 * limit_target s \<le> 7 * unat (cap_word s)
          \<and> 7 * unat (cap_word s) < 10 * limit_target s + 11
       else if soc s \<le> 21 then 20 * limit_target s \<le> 17 * unat (cap_word s)
          \<and> 17 * unat (cap_word s) < 20 * limit_target s + 21
       else limit_target s = unat (cap_word s))
    \<and> \<not> (soc s < 13 \<and> limit_target s = 0 \<and> unat (max_discharge s) \<le> 50 * n
          \<and> power_is_sufficient_soc (compute_run n s))"
proof (intro conjI)
  show "unat (max_discharge (compute_run n s)) = max (limit_target s) (unat (max_discharge s) - 50 * n)"
    by (rule compute_run_limit) fact
  show "limit_target s \<le> unat (cap_word s)"
    unfolding limit_target_def by (rule derate_target_bound)
  show "if soc s < 5 then limit_target s = 0
       else if soc s < 18 then 10 * limit_target s \<le> 7 * unat (cap_word s)
          \<and> 7 * unat (cap_word s) < 10 * limit_target s + 11
       else if soc s \<le> 21 then 20 * limit_target s \<le> 17 * unat (cap_word s)
          \<and> 17 * unat (cap_word s) < 20 * limit_target s + 21
       else limit_target s = unat (cap_word s)"
    using target_bands [of s] scale_070 [of "cap_word s"] scale_085 [of "cap_word s"] by metis
  show "\<not> (soc s < 13 \<and> limit_target s = 0 \<and> unat (max_discharge s) \<le> 50 * n
          \<and> power_is_sufficient_soc (compute_run n s))"
    using compute_run_sufficient [OF assms, of s] by (auto simp: power_is_sufficient_soc_def)
qed

definition demo_power :: power_sensor where
  "demo_power = \<lparr>max_discharge = 1000, cap_word = 900, temperature_lo = 0, soc = 3, pw_on = True,
     pw_charging = False, pw_sufficient = True, pw_log = []\<rparr>"

theorem discharge_limit_settles_witness:
  "unat (max_discharge (compute_run 20 demo_power)) = max (limit_target demo_power) (1000 - 50 * 20)
    \<and> limit_target demo_power = 0 \<and> \<not> power_is_sufficient_soc (compute_run 20 demo_power)"
proof -
  have "max_discharge demo_power = 1000" "soc demo_power = 3" by (simp_all add: demo_power_def)
  then show ?thesis using discharge_limit_settles [of 20 demo_power] by auto
qed

end
