(* ===== verification/RideMotor.thy ===== *)
theory RideMotor
  imports Ssp
begin

text \<open>
  Model of \<open>main/ride/src/motor.c\<close>: requests of the motor controller, the published value,
  the version triple, the status log with its bit report, the telemetry frames and the brake lights.

  The two floating-point filters are an argument: a state of any type, its reset, and a step that
  gives the current of the telemetry frame.  The object is given by its fields; the bytes that the bit
  report addresses are found by the layout rules of C from the declaration in \<open>motor.h\<close>.  The
  brake lights read a clock that is the constant 0 in the source, so the elapsed time is always zero
  and the quotient is an infinity or no number.
\<close>

subsection \<open>The layout of the object\<close>

text \<open>Name, bytes and alignment of each member, up to the published value.\<close>

definition motor_service_fields :: "(string \<times> nat \<times> nat) list" where
  "motor_service_fields =
     [(''_pad0'', 0x110, 1), (''ssp'', 8, 8), (''motor'', 8, 8), (''power'', 8, 8),
      (''_pad128'', 0x20, 1), (''strategy'', 8, 8), (''_pad150'', 0x14, 1),
      (''status'', 2, 2), (''gate_drv1'', 2, 2), (''gate_drv2'', 2, 2), (''_pad156'', 2, 1),
      (''current_raw'', 2, 2), (''_pad15a'', 2, 1), (''drv_temp'', 2, 2), (''_pad15e'', 6, 1),
      (''pub_value'', 2, 2)]"

fun field_offset :: "string \<Rightarrow> (string \<times> nat \<times> nat) list \<Rightarrow> nat \<Rightarrow> nat option" where
  "field_offset f [] at = None"
| "field_offset f ((g, n, al) # fs) at =
     (let at = ((at + al - 1) div al) * al
      in if f = g then Some at else field_offset f fs (at + n))"

subsection \<open>The motor service\<close>

record 'f motor =
  pub_value :: u16
  pad150 :: bytes
  status :: u16
  gate_drv1 :: u16
  gate_drv2 :: u16
  current_raw :: u16
  drv_temp :: u16
  ver_present :: u8
  fw_version :: string
  hw_version :: string
  serial_no :: string
  bl_list_size :: "64 word"
  log_status :: u16
  log_gdrv1 :: u16
  log_gdrv2 :: u16
  log_tick :: u8
  bl_active :: u8
  bl_level :: int
  filters :: 'f

datatype motor_event =
    Sent bytes
  | TypeLog string
  | VersionLog | VersionFailLog
  | VerLock | VerUnlock | VerWait
  | StatusLog u16 u16 u16
  | StatusBit nat u8
  | VerboseLog u16 u16 u16 u16 u16 u16 u16
  | BrakeLevel int
  | StoppedLog | RestoreLog
  | WindowPush u16 | WindowClear | WindowPop

type_synonym 'f motor_log = "'f motor \<times> motor_event list"

subsection \<open>Requests, published value, version\<close>

definition motor_handle_request :: "u16 \<Rightarrow> u8 \<Rightarrow> bytes \<Rightarrow> 'f motor_log \<Rightarrow> bytes \<times> 'f motor_log" where
  "motor_handle_request mtype opcode frame st =
     (let (self, es) = st
      in if opcode = 0x19 then (ssp_frame_append frame (pub_value self div 100), (self, es))
         else if opcode = 0x1a then
           (ssp_frame_append frame mtype, (self, es @ [TypeLog (if mtype = 1 then ''A5'' else ''S5'')]))
         else (frame, (self, es)))"

text \<open>The frame is begun by \<open>ssp_frame_begin3\<close>, which is not in the sources: an argument.\<close>

definition motor_publish_value ::
    "(u8 \<Rightarrow> u8 \<Rightarrow> u8 \<Rightarrow> bytes) \<Rightarrow> u16 \<Rightarrow> 'f motor_log \<Rightarrow> 'f motor_log" where
  "motor_publish_value begin3 value st =
     (let (self, es) = st
      in if pub_value self \<noteq> value then
           let frame = begin3 0x19 0 0;
               frame = ssp_frame_append frame (value div 100)
           in (self\<lparr>pub_value := value\<rparr>, es @ [Sent frame])
         else (self, es))"

definition motor_request_version :: "'f motor_log \<Rightarrow> 'f motor_log" where
  "motor_request_version st =
     (let (self, es) = st in (self, es @ [VersionLog] @ [Sent (ssp_frame_begin 10 1)]))"

text \<open>\<open>known n\<close> is the answer to the n-th question whether the version is known.\<close>

definition motor_get_version ::
    "(nat \<Rightarrow> bool) \<Rightarrow> bool \<Rightarrow> 'f motor_log \<Rightarrow> (string \<times> string \<times> string) \<times> 'f motor_log" where
  "motor_get_version known waited st =
     (let (self, es) = st;
          (self, es) = (self, es @ [VerLock]);
          (self, es) =
            (if \<not> known 0 \<and> ver_present self \<noteq> 0 then
               let (self, es) = motor_request_version (self, es);
                   es = es @ [VerWait]
               in if \<not> waited then
                    if \<not> known 1 then (self, es @ [VersionFailLog]) else (self, es)
                  else (self, es)
             else (self, es))
      in ((fw_version self, hw_version self, serial_no self), (self, es @ [VerUnlock])))"

subsection \<open>The status log\<close>

definition g_status_bits :: "(nat \<times> nat) list" where
  "g_status_bits =
     [(0x151, 0), (0x150, 3), (0x150, 0xb), (0x150, 9),
      (0x150, 10), (0x150, 0xc), (0x150, 0), (0x150, 1),
      (0x150, 5), (0x150, 4), (0x150, 6),
      (0x152, 0), (0x152, 1), (0x152, 2), (0x152, 3), (0x152, 4),
      (0x152, 5), (0x152, 6), (0x152, 7), (0x153, 0), (0x152, 9), (0x152, 10),
      (0x154, 0), (0x154, 1), (0x154, 2), (0x154, 3), (0x154, 4),
      (0x154, 5), (0x154, 6), (0x154, 7), (0x155, 0), (0x154, 9), (0x154, 10)]"

text \<open>The byte of the object at an offset from 0x150 on: first the padding, then the registers.\<close>

definition base :: "'f motor \<Rightarrow> nat \<Rightarrow> u8" where
  "base self off =
     (pad150 self @ concat (map (\<lambda>w. [ucast w, ucast (drop_bit 8 w)])
        [status self, gate_drv1 self, gate_drv2 self])) ! (off - 0x150)"

definition status_report :: "'f motor \<Rightarrow> nat \<times> nat \<Rightarrow> u8" where
  "status_report self e =
     (let (off, b) = e; word = rd16 (base self off) (base self (off + 1))
      in ucast (drop_bit b word AND 1))"

definition motor_log_status_bits :: "'f motor_log \<Rightarrow> 'f motor_log" where
  "motor_log_status_bits st =
     (let (self, es) = st
      in (self, es @ map (\<lambda>i. StatusBit i (status_report self (g_status_bits ! i)))
            [0..<length g_status_bits]))"

definition motor_log_status ::
    "bool \<Rightarrow> u16 \<Rightarrow> u16 \<Rightarrow> u16 \<Rightarrow> u16 \<Rightarrow> u16 \<Rightarrow> 'f motor_log \<Rightarrow> 'f motor_log" where
  "motor_log_status force wh_speed pdl_speed pdl_cnt pdl_torque mtr_tmp st =
     (let (self, es) = st;
          unchanged = ((log_status self = status self \<and> log_gdrv1 self = gate_drv1 self
              \<and> log_gdrv2 self = gate_drv2 self) \<or> status self = 0x2000);
          (self, es) =
            (if \<not> unchanged then
               motor_log_status_bits
                 (self\<lparr>log_status := status self, log_gdrv1 := gate_drv1 self, log_gdrv2 := gate_drv2 self\<rparr>,
                  es @ [StatusLog (status self) (gate_drv1 self) (gate_drv2 self)])
             else (self, es));
          es = (if log_tick self = 0 \<and> force
                then es @ [VerboseLog wh_speed pdl_speed pdl_cnt pdl_torque mtr_tmp
                             (drv_temp self) (current_raw self)]
                else es)
      in (self\<lparr>log_tick := word_of_nat ((unat (log_tick self) + 1) mod 0x14)\<rparr>, es))"

subsection \<open>The brake lights\<close>

text \<open>A double divided by zero.\<close>

datatype accel = NegInf | NotANumber | PosInf

definition over_zero :: "int \<Rightarrow> accel" where
  "over_zero d = (if d < 0 then NegInf else if d = 0 then NotANumber else PosInf)"

definition bl_restore :: "motor_event \<Rightarrow> 'f motor_log \<Rightarrow> 'f motor_log" where
  "bl_restore line st =
     (let (self, es) = st in (self\<lparr>bl_active := 0\<rparr>, es @ [BrakeLevel 0, line, WindowClear]))"

definition bl_judge :: "u16 \<Rightarrow> 64 word \<Rightarrow> 'f motor_log \<Rightarrow> 'f motor_log" where
  "bl_judge speed16 wsum st =
     (let (self, es) = st;
          count = bl_list_size self;
          avg = (if count \<noteq> 0 then ucast (wsum div count) else 0 :: u32);
          accel = over_zero (sint (ucast speed16 - avg))
      in if accel = NegInf then
           let level = 2 in
             if bl_active self = 0 \<or> bl_level self \<noteq> level
             then (self\<lparr>bl_active := 1, bl_level := level\<rparr>, es @ [BrakeLevel level])
             else (self, es)
         else if accel = PosInf \<and> bl_active self \<noteq> 0 then bl_restore RestoreLog (self, es)
         else (self, es))"

definition motor_update_brake_lights :: "u16 \<Rightarrow> 64 word \<Rightarrow> 'f motor_log \<Rightarrow> 'f motor_log" where
  "motor_update_brake_lights speed16 wsum st =
     (let (self, es) = st
      in if speed16 < 0x1f5 then
           let (self, es) = (if speed16 \<noteq> 0 \<or> bl_active self \<noteq> 0
                  then if bl_active self \<noteq> 0 then bl_restore StoppedLog (self, es) else (self, es)
                  else (self, es))
           in (self, es @ [WindowPush speed16])
         else
           let (self, es) = (if bl_list_size self = 10 then bl_judge speed16 wsum (self, es) else (self, es));
               es = es @ [WindowPush speed16];
               n = bl_list_size self
           in if 10 < n + 1 then (self\<lparr>bl_list_size := n\<rparr>, es @ [WindowPop])
              else (self\<lparr>bl_list_size := n + 1\<rparr>, es))"

subsection \<open>The telemetry frames\<close>

record 'f float_filters =
  flt_reset :: 'f
  flt_step :: "u16 \<Rightarrow> u16 \<Rightarrow> 'f \<Rightarrow> 'f \<times> u16"

record readings =
  rd_current :: u32
  rd_wheel :: u16
  rd_voltage :: u8
  rd_temp :: u16
  rd_rpm :: u16
  rd_window :: "64 word"

definition tele_fields ::
    "'f float_filters \<Rightarrow> bool \<Rightarrow> readings \<Rightarrow> 'f \<Rightarrow> (u16 \<times> u16 \<times> u16 \<times> u16 \<times> u16) \<times> 'f" where
  "tele_fields F active r f =
     (if \<not> active then ((0, 0, 0, 0, 0), flt_reset F)
      else
        let wh_speed = ucast ((rd_current r * 100) AND 0xfffc) :: u16;
            voltage = rd_wheel r;
            pw_temp = ucast (rd_voltage r);
            rpm10 = rd_rpm r * 10
        in if 1 < wh_speed then
             let (f, cur100) = flt_step F (ucast (rd_current r)) (rd_temp r) f
             in ((voltage, wh_speed, pw_temp, cur100, rpm10), f)
           else ((voltage, wh_speed, pw_temp, 0, rpm10), flt_reset F))"

definition ride_service_publish_telemetry ::
    "'f float_filters \<Rightarrow> bool \<Rightarrow> readings \<Rightarrow> 'f motor_log \<Rightarrow> 'f motor_log" where
  "ride_service_publish_telemetry F active r st =
     (let (self, es) = st;
          frame = ssp_frame_begin 0x1e 0;
          ((voltage, wh_speed, pw_temp, cur100, rpm10), f) = tele_fields F active r (filters self);
          (self, es) = motor_log_status active voltage wh_speed pw_temp cur100 rpm10
                         (self\<lparr>filters := f\<rparr>, es);
          frame = ssp_frame_append frame voltage;
          frame = ssp_frame_append frame wh_speed;
          frame = ssp_frame_append frame pw_temp;
          frame = ssp_frame_append frame cur100;
          frame = ssp_frame_append frame rpm10;
          es = es @ [Sent frame];
          es = es @ [Sent (ssp_frame_begin 0xc 1)];
          es = es @ [Sent (ssp_frame_begin 0xe 1)]
      in motor_update_brake_lights (rd_wheel r) (rd_window r) (self, es))"

subsection \<open>The status bits are read from the wrong bytes\<close>

text \<open>
  The declaration pads 0x14 bytes at 0x150 before the three registers, so they lie at 0x164, while
  the report addresses 0x150 to 0x156.
\<close>

lemma status_offset:
  "field_offset ''_pad150'' motor_service_fields 0 = Some 0x150"
  "field_offset ''status'' motor_service_fields 0 = Some 0x164"
  "field_offset ''gate_drv2'' motor_service_fields 0 = Some 0x168"
  by (simp_all add: motor_service_fields_def)

lemma status_bits_ignore_registers:
  assumes "length (pad150 self) = 0x14" "pad150 self' = pad150 self" "e \<in> set g_status_bits"
  shows "status_report self' e = status_report self e"
  using assms by (auto simp: g_status_bits_def status_report_def base_def nth_append)

subsection \<open>Throttling of the log\<close>

fun verbose :: "motor_event list \<Rightarrow> nat" where
  "verbose [] = 0"
| "verbose (VerboseLog a b c d e f g # es) = Suc (verbose es)"
| "verbose (_ # es) = verbose es"

fun sent :: "motor_event list \<Rightarrow> bytes list" where
  "sent [] = []"
| "sent (Sent f # es) = f # sent es"
| "sent (_ # es) = sent es"

lemma verbose_append [simp]: "verbose (es @ es') = verbose es + verbose es'"
  by (induction es rule: verbose.induct) simp_all

lemma sent_append [simp]: "sent (es @ es') = sent es @ sent es'"
  by (induction es rule: sent.induct) simp_all

lemma bits_silent: "verbose (map (\<lambda>i. StatusBit i (g i)) is) = 0" "sent (map (\<lambda>i. StatusBit i (g i)) is) = []"
  by (induction "is") simp_all

lemma brake_lights_silent:
  "\<exists>self' es'. motor_update_brake_lights v wsum (self, es) = (self', es @ es') \<and> verbose es' = 0 \<and> sent es' = []
     \<and> log_tick self' = log_tick self \<and> filters self' = filters self"
  by (auto simp: motor_update_brake_lights_def bl_judge_def bl_restore_def Let_def)


subsection \<open>A run of telemetry\<close>

fun tele_run :: "'f float_filters \<Rightarrow> (bool \<times> readings) list \<Rightarrow> 'f motor_log \<Rightarrow> 'f motor_log" where
  "tele_run F [] st = st"
| "tele_run F ((active, r) # rs) st = tele_run F rs (ride_service_publish_telemetry F active r st)"

text \<open>The values of the frames, and the frames with their words in little-endian order.\<close>

fun tele_values :: "'f float_filters \<Rightarrow> (bool \<times> readings) list \<Rightarrow> 'f \<Rightarrow> u16 list list" where
  "tele_values F [] f = []"
| "tele_values F ((active, r) # rs) f =
     (let ((a, b, c, d, e), f') = tele_fields F active r f in [a, b, c, d, e] # tele_values F rs f')"

definition le_words :: "u16 list \<Rightarrow> bytes" where
  "le_words ws = concat (map (\<lambda>w. [ucast w, ucast (drop_bit 8 w)]) ws)"

definition tele_frames :: "u16 list \<Rightarrow> bytes list" where
  "tele_frames ws =
     [[SSP_FRAME_MAGIC, SSP_TYPE_NOTIFY, 0, 0x1e, 0, 0, 0] @ le_words ws,
      [SSP_FRAME_MAGIC, SSP_TYPE_GET, 0, 0x0c, 0], [SSP_FRAME_MAGIC, SSP_TYPE_GET, 0, 0x0e, 0]]"

definition verbose_calls :: "nat \<Rightarrow> bool list \<Rightarrow> nat" where
  "verbose_calls tick as = length (filter (\<lambda>i. (tick + i) mod 20 = 0 \<and> as ! i) [0..<length as])"

lemma verbose_calls_Cons:
  "verbose_calls t (a # as) = (if t mod 20 = 0 \<and> a then 1 else 0) + verbose_calls (Suc t mod 20) as"
proof -
  have "filter (\<lambda>i. (t + i) mod 20 = 0 \<and> (a # as) ! i) [0..<length (a # as)]
      = (if t mod 20 = 0 \<and> a then [0] else []) @
        map Suc (filter (\<lambda>i. (Suc t mod 20 + i) mod 20 = 0 \<and> as ! i) [0..<length as])"
    by (simp add: upt_conv_Cons map_Suc_upt [symmetric] filter_map comp_def mod_add_left_eq del: upt_Suc)
  then show ?thesis by (simp add: verbose_calls_def)
qed

definition status_lines :: "'f motor \<Rightarrow> motor_event list" where
  "status_lines self =
     (if (log_status self = status self \<and> log_gdrv1 self = gate_drv1 self \<and> log_gdrv2 self = gate_drv2 self)
        \<or> status self = 0x2000 then []
      else StatusLog (status self) (gate_drv1 self) (gate_drv2 self) #
        map (\<lambda>i. StatusBit i (status_report self (g_status_bits ! i))) [0..<length g_status_bits])"

lemma status_report_log [simp]:
  "status_report (self\<lparr>log_status := a, log_gdrv1 := b, log_gdrv2 := c\<rparr>) e = status_report self e"
  by (simp add: status_report_def base_def)

lemma log_status_outcome:
  "motor_log_status force a b c d e (self, es) =
     (self\<lparr>log_status := (if status_lines self = [] then log_status self else status self),
        log_gdrv1 := (if status_lines self = [] then log_gdrv1 self else gate_drv1 self),
        log_gdrv2 := (if status_lines self = [] then log_gdrv2 self else gate_drv2 self),
        log_tick := word_of_nat ((unat (log_tick self) + 1) mod 0x14)\<rparr>,
      es @ status_lines self @ (if log_tick self = 0 \<and> force
        then [VerboseLog a b c d e (drv_temp self) (current_raw self)] else []))"
proof -
  define u where "u = ((log_status self = status self \<and> log_gdrv1 self = gate_drv1 self
      \<and> log_gdrv2 self = gate_drv2 self) \<or> status self = 0x2000)"
  show ?thesis
    unfolding motor_log_status_def status_lines_def u_def [symmetric] Let_def prod.case
    by (cases u) (simp_all add: motor_log_status_bits_def u_def [symmetric])
qed

lemma status_lines_silent: "sent (status_lines self) = []" "verbose (status_lines self) = 0"
  by (simp_all add: status_lines_def bits_silent)

lemma next_tick: "unat (word_of_nat (Suc (unat (t :: u8)) mod 0x14) :: u8) = Suc (unat t) mod 20"
proof -
  have "Suc (unat t) mod 20 < 256" by (rule less_trans [of _ 20]) simp_all
  then show ?thesis by (simp add: unat_of_nat)
qed

lemma publish_outcome:
  assumes f: "tele_fields F active r (filters self) = ((a, b, c, d, e), f')" and t: "unat (log_tick self) < 20"
  shows "\<exists>self' es'. ride_service_publish_telemetry F active r (self, es) = (self', es @ es') \<and>
     sent es' = tele_frames [a, b, c, d, e] \<and>
     verbose es' = (if unat (log_tick self) = 0 \<and> active then 1 else 0) \<and>
     filters self' = f' \<and> unat (log_tick self') = Suc (unat (log_tick self)) mod 20"
proof -
  have frame: "ssp_frame_append (ssp_frame_append (ssp_frame_append (ssp_frame_append
      (ssp_frame_append (ssp_frame_begin 0x1e 0) a) b) c) d) e
      = [SSP_FRAME_MAGIC, SSP_TYPE_NOTIFY, 0, 0x1e, 0, 0, 0] @ le_words [a, b, c, d, e]"
    by (simp add: ssp_frame_append_def ssp_frame_begin_def ssp_frame_append_u16_def le_words_def)
  have polls: "ssp_frame_begin 0xc 1 = [SSP_FRAME_MAGIC, SSP_TYPE_GET, 0, 0x0c, 0]"
    "ssp_frame_begin 0xe 1 = [SSP_FRAME_MAGIC, SSP_TYPE_GET, 0, 0x0e, 0]"
    by (simp_all add: ssp_frame_begin_def ssp_frame_append_u16_def)
  define s0 where "s0 = self\<lparr>filters := f'\<rparr>"
  define l1 where "l1 = status_lines s0 @ (if log_tick s0 = 0 \<and> active
        then [VerboseLog a b c d e (drv_temp s0) (current_raw s0)] else [])"
  obtain s1 where log: "motor_log_status active a b c d e (s0, es) = (s1, es @ l1)"
    and s1: "filters s1 = f'" "unat (log_tick s1) = Suc (unat (log_tick self)) mod 20"
    by (rule that [OF log_status_outcome [of active a b c d e s0 es, folded l1_def]])
      (simp_all add: s0_def next_tick)
  have l1: "sent l1 = []" "verbose l1 = (if unat (log_tick self) = 0 \<and> active then 1 else 0)"
    by (simp_all add: l1_def s0_def status_lines_silent unsigned_eq_0_iff)
  define fs where "fs = map Sent (tele_frames [a, b, c, d, e])"
  obtain self' es' where bl: "motor_update_brake_lights (rd_wheel r) (rd_window r) (s1, es @ l1 @ fs)
      = (self', (es @ l1 @ fs) @ es')" "verbose es' = 0" "sent es' = []"
      "log_tick self' = log_tick s1" "filters self' = filters s1"
    using brake_lights_silent [of "rd_wheel r" "rd_window r" s1 "es @ l1 @ fs"] by blast
  have "ride_service_publish_telemetry F active r (self, es) = (self', es @ l1 @ fs @ es')"
    using bl(1) by (simp add: ride_service_publish_telemetry_def f s0_def [symmetric] log frame polls
        fs_def tele_frames_def Let_def)
  then show ?thesis
    using bl(2-) l1 s1 by (intro exI [of _ self'] exI [of _ "l1 @ fs @ es'"]) (simp add: fs_def tele_frames_def)
qed

lemma tele_run_outcome:
  assumes "unat (log_tick self) < 20"
  shows "\<exists>self' es'. tele_run F rs (self, es) = (self', es @ es') \<and>
     sent es' = concat (map tele_frames (tele_values F rs (filters self))) \<and>
     verbose es' = verbose_calls (unat (log_tick self)) (map fst rs)"
  using assms
proof (induction rs arbitrary: self es)
  case Nil
  then show ?case by (simp add: verbose_calls_def)
next
  case (Cons x rs)
  obtain active r where x: "x = (active, r)" by fastforce
  obtain a b c d e f' where f: "tele_fields F active r (filters self) = ((a, b, c, d, e), f')"
    by (metis surj_pair)
  obtain s1 e1 where p: "ride_service_publish_telemetry F active r (self, es) = (s1, es @ e1)"
     "sent e1 = tele_frames [a, b, c, d, e]"
     "verbose e1 = (if unat (log_tick self) = 0 \<and> active then 1 else 0)"
     "filters s1 = f'" "unat (log_tick s1) = Suc (unat (log_tick self)) mod 20"
    using publish_outcome [OF f Cons.prems, of es] by blast
  have "unat (log_tick s1) < 20" by (simp add: p)
  from Cons.IH [OF this, of "es @ e1"] obtain s2 e2 where
     q: "tele_run F rs (s1, es @ e1) = (s2, (es @ e1) @ e2)"
     "sent e2 = concat (map tele_frames (tele_values F rs (filters s1)))"
     "verbose e2 = verbose_calls (unat (log_tick s1)) (map fst rs)" by blast
  show ?case
    using p q Cons.prems
    by (intro exI [of _ s2] exI [of _ "e1 @ e2"]) (simp add: x f verbose_calls_Cons)
qed

lemma tele_values_length: "length (tele_values F rs f) = length rs"
  by (induction F rs f rule: tele_values.induct) (auto simp: Let_def split: prod.splits)

lemma tele_values_idle:
  "i < length rs \<Longrightarrow> \<not> fst (rs ! i) \<Longrightarrow> tele_values F rs f ! i = [0, 0, 0, 0, 0]"
proof (induction rs arbitrary: f i)
  case (Cons x rs)
  then show ?case
    by (cases x; cases i) (auto simp: Let_def tele_fields_def split: prod.splits)
qed simp

text \<open>
  Over any run of telemetry calls with any readings and any filters, the frames
  sent are exactly three for each call and in order: the report 0x1e with the five values, lowest byte
  first, then the polls 0x0c and 0x0e; a call while idle reports zeros.  The detailed log line is
  written only in active calls whose number is a multiple of twenty.
\<close>

theorem telemetry_stream:
  assumes "unat (log_tick self) < 20"
  shows "sent (snd (tele_run F rs (self, []))) = concat (map tele_frames (tele_values F rs (filters self)))
    \<and> length (tele_values F rs (filters self)) = length rs
    \<and> list_all (\<lambda>i. fst (rs ! i) \<or> tele_values F rs (filters self) ! i = [0, 0, 0, 0, 0]) [0..<length rs]
    \<and> verbose (snd (tele_run F rs (self, []))) = verbose_calls (unat (log_tick self)) (map fst rs)"
proof (intro conjI)
  obtain self' es' where "tele_run F rs (self, []) = (self', [] @ es')"
     "sent es' = concat (map tele_frames (tele_values F rs (filters self)))"
     "verbose es' = verbose_calls (unat (log_tick self)) (map fst rs)"
    using tele_run_outcome [OF assms, of F rs "[]"] by blast
  then show "sent (snd (tele_run F rs (self, []))) = concat (map tele_frames (tele_values F rs (filters self)))"
    "verbose (snd (tele_run F rs (self, []))) = verbose_calls (unat (log_tick self)) (map fst rs)"
    by simp_all
  show "length (tele_values F rs (filters self)) = length rs" by (rule tele_values_length)
  show "list_all (\<lambda>i. fst (rs ! i) \<or> tele_values F rs (filters self) ! i = [0, 0, 0, 0, 0]) [0..<length rs]"
    using tele_values_idle by (fastforce simp: list_all_iff)
qed

definition demo_motor :: "unit motor" where
  "demo_motor = \<lparr>pub_value = 0, pad150 = replicate 20 0, status = 1, gate_drv1 = 0, gate_drv2 = 0,
     current_raw = 0, drv_temp = 0, ver_present = 0, fw_version = [], hw_version = [], serial_no = [],
     bl_list_size = 0, log_status = 0, log_gdrv1 = 0, log_gdrv2 = 0, log_tick = 19, bl_active = 0,
     bl_level = 0, filters = ()\<rparr>"

definition demo_readings :: readings where
  "demo_readings = \<lparr>rd_current = 7, rd_wheel = 1800, rd_voltage = 36, rd_temp = 20, rd_rpm = 80, rd_window = 0\<rparr>"

definition demo_filters :: "unit float_filters" where
  "demo_filters = \<lparr>flt_reset = (), flt_step = (\<lambda>c t f. (f, c))\<rparr>"

theorem telemetry_stream_witness:
  "sent (snd (tele_run demo_filters [(True, demo_readings), (True, demo_readings), (False, demo_readings)]
        (demo_motor, [])))
     = concat (map tele_frames [[1800, 700, 36, 7, 800], [1800, 700, 36, 7, 800], [0, 0, 0, 0, 0]])
   \<and> verbose (snd (tele_run demo_filters [(True, demo_readings), (True, demo_readings), (False, demo_readings)]
        (demo_motor, []))) = 1"
proof -
  have t: "unat (log_tick demo_motor) = 19" by (simp add: demo_motor_def)
  have v: "tele_values demo_filters [(True, demo_readings), (True, demo_readings), (False, demo_readings)] f
      = [[1800, 700, 36, 7, 800], [1800, 700, 36, 7, 800], [0, 0, 0, 0, 0]]" for f
    by (simp add: tele_fields_def demo_readings_def demo_filters_def Let_def)
  have n: "verbose_calls 19 [True, True, False] = 1"
    by (simp add: verbose_calls_Cons) (simp add: verbose_calls_def)
  show ?thesis
    using telemetry_stream [of demo_motor demo_filters "[(True, demo_readings), (True, demo_readings), (False, demo_readings)]"]
    by (simp only: t v n list.map fst_conv)
qed

end
