(* ===== verification/Update.thy ===== *)
theory Update
  imports Prelude "HOL-Library.Sublist"
begin

text \<open>
  Model of \<open>main/update/src/update_service.c\<close>: the state machine of the update service over the
  two boot slots.  What the boot control, the version client, the update clients, the clock and the
  file system answer is an environment, a record of functions of the events so far, so that the same
  question may be answered differently each time.  Every call that changes the outside is an event of
  the log; log lines are left out.  The wait for devices loops on the clock and is a partial function.

  Integers of the progress message are \<open>int\<close>; the clock is in nanoseconds, an \<open>int64_t\<close>.
\<close>

subsection \<open>Environment and state\<close>

datatype boot_call =
    MoveToFota | VerifyVersion | Split | Mount | ExtractScripting | Umount | PreInstall | Install
  | PostInstall | ExecReboot | Commit | Rollback | MountRestore

datatype upd_event =
    BootCall boot_call
  | Progress int int int int bool "int option" string
  | MetadataRead
  | SleepMs int
  | FlagFile int
  | RequestState int
  | DeviceStarted string
  | AskVersion string
  | GetClient string
  | ClientUpdate string
  | AskSupplier | ReadClock
  | SubscribeStatus | UnsubscribeStatus
  | BgAdd string
  | BgTrigger string
  | StateLock | StateUnlock

type_synonym history = "upd_event list"

record manifest_dev =
  dev_name :: string
  dev_wanted :: "int option"
  dev_skip :: bool
  dev_skip_rollback :: bool

record upd_env =
  e_boot :: "boot_call \<Rightarrow> history \<Rightarrow> bool"
  e_stage :: "history \<Rightarrow> int"
  e_metadata :: "history \<Rightarrow> string"
  e_lines :: "string \<Rightarrow> int"
  e_version :: "string \<Rightarrow> history \<Rightarrow> int option"
  e_client :: "string \<Rightarrow> history \<Rightarrow> bool"
  e_update :: "string \<Rightarrow> history \<Rightarrow> int"
  e_supplier :: "history \<Rightarrow> char"
  e_clock :: "history \<Rightarrow> int"
  e_pending :: "history \<Rightarrow> nat"
  e_flag :: "history \<Rightarrow> bool"
  e_charger_family :: "string \<Rightarrow> bool"
  e_modem_family :: "string \<Rightarrow> bool"

record upd =
  us_start_delay :: int
  us_poll_delay :: int
  us_reboot_delay :: int
  us_stage2_delay :: int
  us_manifest :: "manifest_dev list"
  us_total_steps :: int
  us_prev_state :: int
  us_stage :: int
  us_metadata :: string
  us_battery_soc :: u16
  us_log :: history

definition put :: "upd_event \<Rightarrow> upd \<Rightarrow> upd" where
  "put e s = s\<lparr>us_log := us_log s @ [e]\<rparr>"

text \<open>A call of the boot control; the answer is true on failure.\<close>

definition boot :: "upd_env \<Rightarrow> boot_call \<Rightarrow> upd \<Rightarrow> bool \<times> upd" where
  "boot E c s = (e_boot E c (us_log s), put (BootCall c) s)"

fun str_find :: "string \<Rightarrow> string \<Rightarrow> bool" where
  "str_find needle [] = (needle = [])"
| "str_find needle (c # s) = (prefix needle (c # s) \<or> str_find needle s)"

definition TOK_BATTERY_PRIMARY :: string where "TOK_BATTERY_PRIMARY = ''battery_primary''"
definition TOK_BATTERY_PRIMARY_PANASONIC :: string where
  "TOK_BATTERY_PRIMARY_PANASONIC = ''battery_primary_panasonic''"
definition TOK_BATTERY_PRIMARY_DYNAPACK :: string where
  "TOK_BATTERY_PRIMARY_DYNAPACK = ''battery_primary_dynapack''"
definition TOK_CHARGER :: string where "TOK_CHARGER = ''charger''"

subsection \<open>Progress, steps and the finished flag\<close>

definition publish_progress :: "int \<Rightarrow> int \<Rightarrow> int \<Rightarrow> string \<Rightarrow> upd \<Rightarrow> upd" where
  "publish_progress step status error dev s =
     put (Progress (us_stage s) step (us_total_steps s) status (status = -3)
            (if status \<noteq> -3 \<and> status \<noteq> 0 then Some error else None) dev) s"

definition count_total_steps :: "upd_env \<Rightarrow> int \<Rightarrow> upd \<Rightarrow> int" where
  "count_total_steps E stage s =
     (if (stage - 2) AND 0xfd = 0 then 9 + int (length (us_manifest s))
      else if stage = 1 then 9
      else if us_metadata s \<noteq> [] then 8 + e_lines E (us_metadata s)
      else 9)"

definition write_finished_flag :: "upd_env \<Rightarrow> int \<Rightarrow> upd \<Rightarrow> upd" where
  "write_finished_flag E value s = (if e_flag E (us_log s) then put (FlagFile value) s else s)"

subsection \<open>Preparing a package\<close>

definition prepare_and_verify_package :: "upd_env \<Rightarrow> string \<Rightarrow> upd \<Rightarrow> int \<times> upd" where
  "prepare_and_verify_package E dest s =
     (let (bad, s) = (if 1 < length dest then boot E MoveToFota s else (False, s))
      in if bad then (-1, s)
         else let (bad, s) = boot E VerifyVersion s
      in if bad then (-1, s)
         else let (bad, s) = boot E Mount s
      in if bad then (-1, s)
         else let s = put MetadataRead (s\<lparr>us_metadata := e_metadata E (us_log s)\<rparr>)
      in if us_metadata s = [] then (-1, s)
         else let (bad, s) = boot E Umount s
      in if bad then (-1, s) else (0, s))"

subsection \<open>The installation sequence\<close>

definition run_fota_install_sequence :: "upd_env \<Rightarrow> upd \<Rightarrow> int \<times> upd" where
  "run_fota_install_sequence E s =
     (let (bad, s) = boot E Split s
      in if bad then (-1, publish_progress 1 (-1) 3 [] s)
         else let s = publish_progress 1 0 0 [] s; (bad, s) = boot E Mount s
      in if bad then (-1, publish_progress 2 (-1) 4 [] s)
         else let s = publish_progress 2 0 0 [] s; (bad, s) = boot E ExtractScripting s
      in if bad then (-1, publish_progress 3 (-1) 6 [] s)
         else let s = publish_progress 3 0 0 [] s; (bad, s) = boot E Umount s
      in if bad then (-1, publish_progress 4 (-1) 8 [] s)
         else let s = publish_progress 4 0 0 [] s; (bad, s) = boot E PreInstall s
      in if bad then (-1, publish_progress 5 (-1) 9 [] s)
         else let s = publish_progress 5 0 0 [] s; (bad, s) = boot E Install s
      in if bad then (-1, publish_progress 6 (-1) 10 [] s)
         else let s = publish_progress 6 0 0 [] s; (bad, s) = boot E PostInstall s
      in if bad then (-1, publish_progress 7 (-1) 11 [] s)
         else let s = publish_progress 7 0 0 [] s; (bad, s) = boot E ExecReboot s
      in if bad then (-1, publish_progress 8 (-1) 12 [] s)
         else (0, publish_progress 8 0 0 [] s))"

subsection \<open>One device\<close>

definition get_version :: "upd_env \<Rightarrow> string \<Rightarrow> upd \<Rightarrow> int option \<times> upd" where
  "get_version E key s = (e_version E key (us_log s), put (AskVersion key) s)"

fun retry_version :: "upd_env \<Rightarrow> string \<Rightarrow> nat \<Rightarrow> upd \<Rightarrow> int option \<times> upd" where
  "retry_version E key 0 s = (None, s)"
| "retry_version E key (Suc trial) s =
     (let s = put (SleepMs (us_poll_delay s)) s;
          (running, s) = get_version E key s
      in case running of Some v \<Rightarrow> (Some v, s) | None \<Rightarrow> retry_version E key trial s)"

fun flash_trials :: "upd_env \<Rightarrow> string \<Rightarrow> nat \<Rightarrow> upd \<Rightarrow> int \<times> upd" where
  "flash_trials E dev 0 s = (-1, s)"
| "flash_trials E dev (Suc n) s =
     (let have = e_client E dev (us_log s); s = put (GetClient dev) s
      in if \<not> have then (-1, s)
         else let r = e_update E dev (us_log s); s = put (ClientUpdate dev) s
              in if r = 0 then (0, s) else flash_trials E dev n s)"

definition version_key :: "string \<Rightarrow> string" where
  "version_key dev = (if str_find TOK_BATTERY_PRIMARY dev then TOK_BATTERY_PRIMARY else dev)"

definition handle_device_update :: "upd_env \<Rightarrow> manifest_dev \<Rightarrow> upd \<Rightarrow> int \<times> upd" where
  "handle_device_update E entry s =
     (let key = version_key (dev_name entry);
          (running, s) = get_version E key s;
          wanted = dev_wanted entry;
          (running, s) = (case running of Some v \<Rightarrow> (Some v, s) | None \<Rightarrow> retry_version E key 3 s)
      in case running of
           Some v \<Rightarrow>
             (case wanted of
                None \<Rightarrow> (-1, s)
              | Some w \<Rightarrow> if w = v then (0, s) else flash_trials E (dev_name entry) 3 s)
         | None \<Rightarrow> flash_trials E (dev_name entry) 3 s)"

subsection \<open>All devices\<close>

partial_function (option) wait_loop :: "upd_env \<Rightarrow> int \<Rightarrow> upd \<Rightarrow> (int \<times> upd) option" where
  "wait_loop E start s =
     (let elapsed = e_clock E (us_log s) - start; s = put ReadClock s
      in if elapsed < 0 \<or> 59999999999 < elapsed then Some (-1, s)
         else if e_pending E (us_log s) = 0 then Some (0, s)
         else wait_loop E start (put (SleepMs 1000) s))"

definition wait_for_devices :: "upd_env \<Rightarrow> upd \<Rightarrow> (int \<times> upd) option" where
  "wait_for_devices E s =
     (let s = put SubscribeStatus s;
          start = e_clock E (us_log s); s = put ReadClock s
      in case wait_loop E start s of
           None \<Rightarrow> None
         | Some (rc, s) \<Rightarrow> Some (rc, put UnsubscribeStatus s))"

text \<open>
  The rules that skip a device, with the question they may ask.
\<close>

definition skip_device :: "upd_env \<Rightarrow> bool \<Rightarrow> manifest_dev \<Rightarrow> upd \<Rightarrow> bool \<times> upd" where
  "skip_device E rolling_back it s =
     (let name = dev_name it
      in if rolling_back \<and> dev_skip_rollback it then (True, s)
         else if str_find TOK_CHARGER name then (True, s)
         else if str_find TOK_BATTERY_PRIMARY_PANASONIC name then
           let sup = e_supplier E (us_log s); s = put AskSupplier s
           in (sup \<noteq> CHR ''P'' \<and> sup \<noteq> CHR ''f'', s)
         else if str_find TOK_BATTERY_PRIMARY_DYNAPACK name then
           let sup = e_supplier E (us_log s); s = put AskSupplier s
           in (sup = CHR ''D'', s)
         else (False, s))"

text \<open>The update of one device that is not skipped: whether the run goes on, and its code.\<close>

definition update_device ::
    "upd_env \<Rightarrow> bool \<Rightarrow> int \<Rightarrow> manifest_dev \<Rightarrow> upd \<Rightarrow> (bool \<times> int) \<times> upd" where
  "update_device E rolling_back step it s =
     (let name = dev_name it;
          s = put (DeviceStarted name) s;
          (rc, s) = handle_device_update E it s
      in if rc = 0 then
           let s = publish_progress step 0 0 name s
           in ((True, 0), if e_charger_family E name then put (BgAdd name) s else s)
         else if dev_skip it then
           let s = publish_progress step (-3) 0 name s
           in ((True, 0), if e_modem_family E name then put (BgTrigger name) s else s)
         else
           let s = publish_progress step (-1) 13 name s
           in (if \<not> rolling_back then (False, rc) else (True, 0), s))"

fun device_loop ::
    "upd_env \<Rightarrow> bool \<Rightarrow> int \<Rightarrow> manifest_dev list \<Rightarrow> upd \<Rightarrow> (bool \<times> int) \<times> upd" where
  "device_loop E rolling_back step [] s = ((True, 0), s)"
| "device_loop E rolling_back step (it # its) s =
     (let step = step + 1;
          (skip, s) = skip_device E rolling_back it s
      in if skip then device_loop E rolling_back step its (publish_progress step (-3) 0 (dev_name it) s)
         else let ((go_on, rc), s) = update_device E rolling_back step it s
              in if go_on then device_loop E rolling_back step its s else ((False, rc), s))"

definition run_device_updates :: "upd_env \<Rightarrow> bool \<Rightarrow> upd \<Rightarrow> (int \<times> upd) option" where
  "run_device_updates E rolling_back s =
     (let ((go_on, rc), s) = device_loop E rolling_back 9 (us_manifest s) s
      in if \<not> go_on then Some (rc, s)
         else case wait_for_devices E s of None \<Rightarrow> None | Some (_, s) \<Rightarrow> Some (0, s))"

definition stage2_install :: "upd_env \<Rightarrow> upd \<Rightarrow> (int \<times> upd) option" where
  "stage2_install E s =
     (case run_device_updates E False (put (SleepMs (us_stage2_delay s)) s) of
        None \<Rightarrow> None
      | Some (rc, s) \<Rightarrow> Some (signed_take_bit 7 rc, s))"

subsection \<open>The state machine\<close>

definition stage_two :: "upd_env \<Rightarrow> upd \<Rightarrow> upd option" where
  "stage_two E s =
     (let s = publish_progress 9 0 0 [] s
      in case stage2_install E s of
           None \<Rightarrow> None
         | Some (rc, s) \<Rightarrow> Some
             (if rc \<noteq> 0 then
                let (_, s) = boot E Rollback s; (_, s) = boot E ExecReboot s in s
              else
                let s = put (SleepMs (us_poll_delay s)) s;
                    (_, s) = boot E Commit s;
                    s = write_finished_flag E 0 s;
                    s = put (SleepMs (us_reboot_delay s)) s;
                    (_, s) = boot E ExecReboot s
                in s))"

definition stage_fresh :: "upd_env \<Rightarrow> upd \<Rightarrow> upd" where
  "stage_fresh E s =
     (if us_battery_soc s < 0x0b then
        put (RequestState (us_prev_state s)) (publish_progress 0 (-1) 2 [] s)
      else
        let s = publish_progress 0 0 0 [] s;
            (rc, s) = run_fota_install_sequence E s
        in if rc \<noteq> 0 then
             let (_, s) = boot E Commit s;
                 (m, s) = boot E MountRestore s;
                 (_, s) = (if m then boot E Umount s else (False, s));
                 s = write_finished_flag E (-1) s;
                 s = put (SleepMs (us_reboot_delay s)) s;
                 (_, s) = boot E ExecReboot s
             in s
           else s)"

definition stage_rollback :: "upd_env \<Rightarrow> upd \<Rightarrow> upd option" where
  "stage_rollback E s =
     (let s = publish_progress 9 0 0 [] s
      in case run_device_updates E True s of
           None \<Rightarrow> None
         | Some (_, s) \<Rightarrow> Some
             (let (_, s) = boot E Commit s;
                  s = write_finished_flag E (-1) s;
                  (_, s) = boot E ExecReboot s
              in s))"

definition run_state_machine :: "upd_env \<Rightarrow> upd \<Rightarrow> upd option" where
  "run_state_machine E s =
     (let s = put StateLock s;
          s = put (SleepMs (us_start_delay s)) s;
          stage = signed_take_bit 7 (e_stage E (us_log s));
          s = s\<lparr>us_stage := stage\<rparr>;
          s = s\<lparr>us_total_steps := count_total_steps E stage s\<rparr>
      in map_option (put StateUnlock)
           (if stage = 2 then stage_two E s
            else if stage < 3 then
              Some (if stage = 1 then snd (boot E ExecReboot s) else stage_fresh E s)
            else if (stage - 3) AND 0xff < 2 then stage_rollback E s
            else Some s))"

lemma upd_put_fields [simp]:
  "us_log (put e s) = us_log s @ [e]" "us_stage (put e s) = us_stage s"
  "us_total_steps (put e s) = us_total_steps s" "us_manifest (put e s) = us_manifest s"
  "us_poll_delay (put e s) = us_poll_delay s" "us_reboot_delay (put e s) = us_reboot_delay s"
  "us_battery_soc (put e s) = us_battery_soc s" "us_prev_state (put e s) = us_prev_state s"
  "us_stage2_delay (put e s) = us_stage2_delay s" "us_metadata (put e s) = us_metadata s"
  by (simp_all add: put_def)

text \<open>Everything but the log and the metadata is constant; a state is the start state with a longer log.\<close>

definition with_log :: "upd \<Rightarrow> history \<Rightarrow> upd" where
  "with_log s es = s\<lparr>us_log := us_log s @ es\<rparr>"

lemma with_log_simps [simp]:
  "with_log s [] = s" "with_log (with_log s es) es' = with_log s (es @ es')"
  "put e s = with_log s [e]" "us_log (with_log s es) = us_log s @ es"
  "us_stage (with_log s es) = us_stage s" "us_total_steps (with_log s es) = us_total_steps s"
  "us_manifest (with_log s es) = us_manifest s" "us_poll_delay (with_log s es) = us_poll_delay s"
  "us_reboot_delay (with_log s es) = us_reboot_delay s" "us_prev_state (with_log s es) = us_prev_state s"
  "us_battery_soc (with_log s es) = us_battery_soc s" "us_start_delay (with_log s es) = us_start_delay s" "us_stage2_delay (with_log s es) = us_stage2_delay s"
  by (simp_all add: with_log_def put_def)

lemma with_log_eq: "with_log s es = with_log s es' \<longleftrightarrow> es = es'"
proof
  assume "with_log s es = with_log s es'"
  then have "us_log (with_log s es) = us_log (with_log s es')" by (rule arg_cong)
  then show "es = es'" by simp
qed simp

subsection \<open>What a history contains\<close>

fun boots :: "history \<Rightarrow> boot_call list" where
  "boots [] = []"
| "boots (BootCall c # es) = c # boots es"
| "boots (_ # es) = boots es"

fun flags :: "history \<Rightarrow> int list" where
  "flags [] = []"
| "flags (FlagFile v # es) = v # flags es"
| "flags (_ # es) = flags es"

text \<open>Step, status and device of the progress messages.\<close>

fun progress :: "history \<Rightarrow> (int \<times> int \<times> string) list" where
  "progress [] = []"
| "progress (Progress st step tot status sk err dev # es) = (step, status, dev) # progress es"
| "progress (_ # es) = progress es"

fun flashes :: "history \<Rightarrow> string list" where
  "flashes [] = []"
| "flashes (ClientUpdate d # es) = d # flashes es"
| "flashes (_ # es) = flashes es"

lemma history_append [simp]:
  "boots (es @ es') = boots es @ boots es'" "flags (es @ es') = flags es @ flags es'"
  "progress (es @ es') = progress es @ progress es'" "flashes (es @ es') = flashes es @ flashes es'"
proof -
  show "boots (es @ es') = boots es @ boots es'" by (induction es rule: boots.induct) simp_all
  show "flags (es @ es') = flags es @ flags es'" by (induction es rule: flags.induct) simp_all
  show "progress (es @ es') = progress es @ progress es'" by (induction es rule: progress.induct) simp_all
  show "flashes (es @ es') = flashes es @ flashes es'" by (induction es rule: flashes.induct) simp_all
qed

subsection \<open>The installation sequence is its table\<close>

definition fota_table :: "(boot_call \<times> int) list" where
  "fota_table = [(Split, 3), (Mount, 4), (ExtractScripting, 6), (Umount, 8), (PreInstall, 9),
     (Install, 10), (PostInstall, 11), (ExecReboot, 12)]"

fun fota_ref :: "upd_env \<Rightarrow> int \<Rightarrow> (boot_call \<times> int) list \<Rightarrow> upd \<Rightarrow> int \<times> upd" where
  "fota_ref E step [] s = (0, s)"
| "fota_ref E step ((c, err) # cs) s =
     (let (bad, s) = boot E c s
      in if bad then (-1, publish_progress step (-1) err [] s)
         else fota_ref E (step + 1) cs (publish_progress step 0 0 [] s))"

lemma fota_is_table: "run_fota_install_sequence E s = fota_ref E 1 fota_table s"
  by (simp add: run_fota_install_sequence_def fota_table_def boot_def Let_def)

lemma publish_log: "publish_progress step status error dev s = with_log s
    [Progress (us_stage s) step (us_total_steps s) status (status = -3)
       (if status \<noteq> -3 \<and> status \<noteq> 0 then Some error else None) dev]"
  by (simp add: publish_progress_def)

lemma boot_log: "boot E c s = (e_boot E c (us_log s), with_log s [BootCall c])"
  by (simp add: boot_def)

fun fota_done :: "int \<Rightarrow> int \<Rightarrow> int \<Rightarrow> (boot_call \<times> int) list \<Rightarrow> history" where
  "fota_done st tot step [] = []"
| "fota_done st tot step ((c, err) # cs) =
     BootCall c # Progress st step tot 0 False None [] # fota_done st tot (step + 1) cs"

lemma fota_ref_outcome:
  "\<exists>k \<le> length cs. fota_ref E step cs s =
     (if k = length cs then 0 else -1,
      with_log s (fota_done (us_stage s) (us_total_steps s) step (take k cs) @
        (if k = length cs then []
         else [BootCall (fst (cs ! k)), Progress (us_stage s) (step + int k) (us_total_steps s) (-1) False
                 (Some (snd (cs ! k))) []])))"
proof (induction cs arbitrary: s step)
  case (Cons x cs)
  obtain c err where x: "x = (c, err)" by fastforce
  show ?case
  proof (cases "e_boot E c (us_log s)")
    case True
    then show ?thesis by (intro exI [of _ 0]) (simp add: x boot_log publish_log)
  next
    case False
    let ?s = "with_log s [BootCall c, Progress (us_stage s) step (us_total_steps s) 0 False None []]"
    obtain k where k: "k \<le> length cs" and r: "fota_ref E (step + 1) cs ?s =
     (if k = length cs then 0 else -1,
      with_log ?s (fota_done (us_stage s) (us_total_steps s) (step + 1) (take k cs) @
        (if k = length cs then []
         else [BootCall (fst (cs ! k)), Progress (us_stage s) (step + 1 + int k) (us_total_steps s) (-1) False
                 (Some (snd (cs ! k))) []])))"
      using Cons.IH [of "step + 1" ?s] by (auto simp del: append_assoc)
    show ?thesis using k False r
      by (intro exI [of _ "Suc k"]) (simp add: x boot_log publish_log add.assoc)
  qed
qed simp

text \<open>
  The eight installation steps run in order and stop at the first one that fails:
  for some number of steps, each has been called and reported with status 0 under its own step
  number; the next one, when there is one, has been called, reported with status -1 and its error
  code, and nothing follows.  The sequence succeeds exactly when all eight steps did.
\<close>

theorem fota_sequence:
  "\<exists>k \<le> 8. run_fota_install_sequence E s =
     (if k = 8 then 0 else -1,
      with_log s (fota_done (us_stage s) (us_total_steps s) 1 (take k fota_table) @
        (if k = 8 then []
         else [BootCall (fst (fota_table ! k)), Progress (us_stage s) (1 + int k) (us_total_steps s) (-1)
                 False (Some (snd (fota_table ! k))) []])))"
proof -
  have "length fota_table = 8" by (simp add: fota_table_def)
  then show ?thesis using fota_ref_outcome [of fota_table E 1 s] by (simp only: fota_is_table)
qed


subsection \<open>One device\<close>

text \<open>Events that neither talk to the boot control nor report.\<close>

definition quiet :: "history \<Rightarrow> bool" where
  "quiet es \<longleftrightarrow> boots es = [] \<and> flags es = [] \<and> progress es = []"

lemma quiet_simps [simp]: "quiet []" "quiet (es @ es') \<longleftrightarrow> quiet es \<and> quiet es'"
  by (auto simp: quiet_def)

text \<open>A state grown by quiet events with at most \<open>n\<close> flash attempts, all of one device.\<close>

definition grows :: "nat \<Rightarrow> string \<Rightarrow> upd \<Rightarrow> upd \<Rightarrow> bool" where
  "grows n dev s s' \<longleftrightarrow> (\<exists>es. s' = with_log s es \<and> quiet es \<and> length (flashes es) \<le> n \<and> set (flashes es) \<subseteq> {dev})"

lemma grows_refl [simp]: "grows n dev s s"
  by (auto simp: grows_def intro: exI [of _ "[]"])

lemma grows_event: "quiet [e] \<Longrightarrow> flashes [e] = [] \<Longrightarrow> grows n dev s (with_log s [e])"
  by (auto simp: grows_def)

lemma grows_trans: "grows n dev s s' \<Longrightarrow> grows m dev s' s'' \<Longrightarrow> grows (n + m) dev s s''"
  unfolding grows_def
  by (elim exE conjE, rule_tac x = "es @ esa" in exI) auto

lemma grows_ask: "grows 0 dev s (with_log s [AskVersion key])" "grows 0 dev s (with_log s [SleepMs d])"
  "grows 0 dev s (with_log s [GetClient d'])" "grows 1 dev s (with_log s [ClientUpdate dev])"
  by (auto simp: grows_def quiet_def)

lemma retry_grows: "grows 0 dev s (snd (retry_version E key n s))"
proof (induction n arbitrary: s)
  case (Suc n)
  let ?s = "with_log (with_log s [SleepMs (us_poll_delay s)]) [AskVersion key]"
  have "grows 0 dev s ?s" using grows_trans [OF grows_ask(2) grows_ask(1)] by simp
  moreover have "grows 0 dev s (snd (retry_version E key n ?s))"
    using grows_trans [OF calculation Suc] by simp
  ultimately show ?case
    by (simp add: get_version_def Let_def split: option.split del: with_log_simps(2))
qed simp

lemma flash_grows: "grows n dev s (snd (flash_trials E dev n s))"
proof (induction n arbitrary: s)
  case (Suc n)
  let ?s1 = "with_log s [GetClient dev]" and ?s2 = "with_log (with_log s [GetClient dev]) [ClientUpdate dev]"
  have 1: "grows (Suc n) dev s ?s1" using grows_trans [OF grows_ask(3) grows_refl [of "Suc n"]] by simp
  have "grows 1 dev s ?s2" using grows_trans [OF grows_ask(3) grows_ask(4)] by simp
  from grows_trans [OF this grows_refl [of n]] grows_trans [OF this Suc]
  have 2: "grows (Suc n) dev s ?s2" "grows (Suc n) dev s (snd (flash_trials E dev n ?s2))" by simp_all
  show ?case using 1 2 by (simp add: Let_def del: with_log_simps(2))
qed simp

lemma handle_grows: "grows 3 (dev_name it) s (snd (handle_device_update E it s))"
proof -
  let ?key = "version_key (dev_name it)" and ?dev = "dev_name it"
  define r where "r = (case get_version E ?key s of (Some v, s) \<Rightarrow> (Some v, s) | (None, s) \<Rightarrow> retry_version E ?key 3 s)"
  have 0: "grows 0 ?dev s (snd r)"
    using grows_trans [where n = 0 and m = 0, OF grows_ask(1) [of ?dev s ?key]
        retry_grows [of ?dev _ E ?key 3]]
    by (simp add: r_def get_version_def grows_ask split: option.split)
  have h: "handle_device_update E it s = (case fst r of
           Some v \<Rightarrow> (case dev_wanted it of None \<Rightarrow> (-1, snd r)
              | Some w \<Rightarrow> if w = v then (0, snd r) else flash_trials E ?dev 3 (snd r))
         | None \<Rightarrow> flash_trials E ?dev 3 (snd r))"
    by (simp add: handle_device_update_def r_def Let_def split: prod.split option.split)
  show ?thesis
    using grows_trans [OF 0 flash_grows, of 3] grows_trans [OF 0 grows_refl, of 3]
    by (simp add: h split: option.split)
qed

lemma grows_quiet: "grows n dev s s' \<Longrightarrow> \<exists>es. s' = with_log s es \<and> quiet es"
  by (auto simp: grows_def)

subsection \<open>All devices\<close>

text \<open>
  What a device's outcome is, read off the log: it is up to date once an answer of the version client is
  the version of the manifest, or once an update of it has answered 0.  \<open>h\<close> is the log before \<open>e\<close>.
\<close>

fun answers_done :: "upd_env \<Rightarrow> manifest_dev \<Rightarrow> history \<Rightarrow> upd_event \<Rightarrow> bool" where
  "answers_done E it h (AskVersion key) \<longleftrightarrow>
     key = version_key (dev_name it) \<and> dev_wanted it \<noteq> None \<and> e_version E key h = dev_wanted it"
| "answers_done E it h (ClientUpdate d) \<longleftrightarrow> d = dev_name it \<and> e_update E d h = 0"
| "answers_done E it h _ \<longleftrightarrow> False"

fun done_in :: "upd_env \<Rightarrow> manifest_dev \<Rightarrow> history \<Rightarrow> history \<Rightarrow> bool" where
  "done_in E it h [] \<longleftrightarrow> False"
| "done_in E it h (e # es) \<longleftrightarrow> answers_done E it h e \<or> done_in E it (h @ [e]) es"

lemma done_in_append: "done_in E it h (es @ es') \<longleftrightarrow> done_in E it h es \<or> done_in E it (h @ es) es'"
  by (induction es arbitrary: h) auto

lemma done_flash:
  assumes "dev = dev_name it"
  shows "\<exists>es. snd (flash_trials E dev n s) = with_log s es \<and>
    (fst (flash_trials E dev n s) = 0 \<longleftrightarrow> done_in E it (us_log s) es)"
proof (induction n arbitrary: s)
  case 0
  show ?case by (intro exI [of _ "[]"]) simp
next
  case (Suc n)
  let ?s = "with_log s [GetClient dev, ClientUpdate dev]"
  obtain es where es: "snd (flash_trials E dev n ?s) = with_log ?s es"
    "fst (flash_trials E dev n ?s) = 0 \<longleftrightarrow> done_in E it (us_log ?s) es" using Suc.IH by blast
  show ?case
  proof (cases "e_client E dev (us_log s)")
    case False
    then show ?thesis by (intro exI [of _ "[GetClient dev]"]) simp
  next
    case client: True
    show ?thesis
    proof (cases "e_update E dev (us_log s @ [GetClient dev]) = 0")
      case True
      then show ?thesis using client assms
        by (intro exI [of _ "[GetClient dev, ClientUpdate dev]"]) simp
    next
      case False
      then have "flash_trials E dev (Suc n) s = flash_trials E dev n ?s" using client by simp
      then show ?thesis using es False assms
        by (intro exI [of _ "[GetClient dev, ClientUpdate dev] @ es"]) simp
    qed
  qed
qed

lemma done_retry:
  assumes "key = version_key (dev_name it)"
  shows "\<exists>es. snd (retry_version E key n s) = with_log s es \<and>
    (done_in E it (us_log s) es \<longleftrightarrow>
       fst (retry_version E key n s) \<noteq> None \<and> fst (retry_version E key n s) = dev_wanted it)"
proof (induction n arbitrary: s)
  case 0
  show ?case by (intro exI [of _ "[]"]) simp
next
  case (Suc n)
  let ?d = "us_poll_delay s"
  let ?s = "with_log s [SleepMs ?d, AskVersion key]"
  obtain es where es: "snd (retry_version E key n ?s) = with_log ?s es"
    "done_in E it (us_log ?s) es \<longleftrightarrow> fst (retry_version E key n ?s) \<noteq> None \<and> fst (retry_version E key n ?s) = dev_wanted it"
    using Suc.IH by blast
  show ?case
  proof (cases "e_version E key (us_log s @ [SleepMs ?d])")
    case None
    then have "retry_version E key (Suc n) s = retry_version E key n ?s" by (simp add: get_version_def)
    then show ?thesis using es None assms
      by (intro exI [of _ "[SleepMs ?d, AskVersion key] @ es"]) auto
  next
    case (Some v)
    then show ?thesis using assms
      by (intro exI [of _ "[SleepMs ?d, AskVersion key]"]) (auto simp: get_version_def intro!: exI [of _ v])
  qed
qed

lemma done_handle:
  "\<exists>es. snd (handle_device_update E it s) = with_log s es \<and>
    (fst (handle_device_update E it s) = 0 \<longleftrightarrow> done_in E it (us_log s) es)"
proof -
  let ?key = "version_key (dev_name it)" and ?dev = "dev_name it"
  define r where "r = (case get_version E ?key s of (Some v, s) \<Rightarrow> (Some v, s) | (None, s) \<Rightarrow> retry_version E ?key 3 s)"
  obtain es where es: "snd r = with_log s es"
    "done_in E it (us_log s) es \<longleftrightarrow> fst r \<noteq> None \<and> fst r = dev_wanted it"
  proof (cases "e_version E ?key (us_log s)")
    case None
    let ?s = "with_log s [AskVersion ?key]"
    obtain es where "snd (retry_version E ?key 3 ?s) = with_log ?s es"
      "done_in E it (us_log ?s) es \<longleftrightarrow> fst (retry_version E ?key 3 ?s) \<noteq> None \<and> fst (retry_version E ?key 3 ?s) = dev_wanted it"
      using done_retry [OF refl, of E it 3 ?s] by blast
    moreover have "r = retry_version E ?key 3 ?s" using None by (simp add: r_def get_version_def)
    moreover have "done_in E it (us_log s) ([AskVersion ?key] @ es) \<longleftrightarrow> done_in E it (us_log ?s) es"
      using None by auto
    ultimately show ?thesis by (intro that [of "[AskVersion ?key] @ es"]) (simp_all only: with_log_simps)
  next
    case (Some v)
    then show ?thesis by (intro that [of "[AskVersion ?key]"]) (auto simp: r_def get_version_def intro!: exI [of _ v])
  qed
  have h: "handle_device_update E it s = (case fst r of
           Some v \<Rightarrow> (case dev_wanted it of None \<Rightarrow> (-1, snd r)
              | Some w \<Rightarrow> if w = v then (0, snd r) else flash_trials E ?dev 3 (snd r))
         | None \<Rightarrow> flash_trials E ?dev 3 (snd r))"
    by (simp add: handle_device_update_def r_def Let_def split: prod.split option.split)
  obtain fs where fs: "snd (flash_trials E ?dev 3 (snd r)) = with_log (snd r) fs"
    "fst (flash_trials E ?dev 3 (snd r)) = 0 \<longleftrightarrow> done_in E it (us_log (snd r)) fs"
    using done_flash [OF refl, of E it 3 "snd r"] by blast
  have "handle_device_update E it s = flash_trials E ?dev 3 (snd r) \<and> \<not> done_in E it (us_log s) es \<or>
      handle_device_update E it s = (-1, snd r) \<and> \<not> done_in E it (us_log s) es \<or>
      handle_device_update E it s = (0, snd r) \<and> done_in E it (us_log s) es"
    unfolding h es(2) by (auto split: option.split)
  then show ?thesis
  proof (elim disjE conjE)
    assume "handle_device_update E it s = flash_trials E ?dev 3 (snd r)" "\<not> done_in E it (us_log s) es"
    then show ?thesis using fs es(1) by (intro exI [of _ "es @ fs"]) (simp add: done_in_append)
  qed (use es(1) in \<open>auto intro: exI [of _ es]\<close>)
qed

text \<open>The rules that leave a device alone.\<close>

definition skipped :: "upd_env \<Rightarrow> bool \<Rightarrow> manifest_dev \<Rightarrow> history \<Rightarrow> bool" where
  "skipped E rb it h \<longleftrightarrow>
     rb \<and> dev_skip_rollback it \<or> str_find TOK_CHARGER (dev_name it) \<or>
     (if str_find TOK_BATTERY_PRIMARY_PANASONIC (dev_name it) then e_supplier E h \<notin> {CHR ''P'', CHR ''f''}
      else str_find TOK_BATTERY_PRIMARY_DYNAPACK (dev_name it) \<and> e_supplier E h = CHR ''D'')"

text \<open>The part \<open>seg\<close> of the log that is a device's turn, with its reported status.\<close>

definition device_turn :: "upd_env \<Rightarrow> bool \<Rightarrow> int \<Rightarrow> manifest_dev \<Rightarrow> int \<times> history \<Rightarrow> history \<Rightarrow> bool" where
  "device_turn E rb step it r h \<longleftrightarrow> (case r of (st, seg) \<Rightarrow>
     progress seg = [(step, st, dev_name it)] \<and> set (flashes seg) \<subseteq> {dev_name it} \<and> length (flashes seg) \<le> 3 \<and>
     (if skipped E rb it h then st = -3 \<and> flashes seg = []
      else st = (if done_in E it h seg then 0 else if dev_skip it then -3 else -1)))"

fun device_turns :: "upd_env \<Rightarrow> bool \<Rightarrow> int \<Rightarrow> manifest_dev list \<Rightarrow> (int \<times> history) list \<Rightarrow> history \<Rightarrow> bool" where
  "device_turns E rb step its [] h \<longleftrightarrow> True"
| "device_turns E rb step [] (r # rs) h \<longleftrightarrow> False"
| "device_turns E rb step (it # its) (r # rs) h \<longleftrightarrow>
     device_turn E rb step it r h \<and> device_turns E rb (step + 1) its rs (h @ snd r)"

lemma skip_device_quiet:
  "\<exists>es. skip_device E rb it s = (skipped E rb it (us_log s), with_log s es) \<and> es \<in> {[], [AskSupplier]}"
  using with_log_eq [of s "[]"] by (auto simp: skip_device_def skipped_def Let_def with_log_eq)

text \<open>A device that is not skipped is reported once; the run ends at it only in a forward update.\<close>

lemma update_device_outcome:
  "\<exists>es st. snd (update_device E rb step it s) = with_log s es \<and> boots es = [] \<and> flags es = [] \<and>
     progress es = [(step, st, dev_name it)] \<and> set (flashes es) \<subseteq> {dev_name it} \<and> length (flashes es) \<le> 3 \<and>
     fst (update_device E rb step it s) = (if st = -1 \<and> \<not> rb then (False, fst (handle_device_update E it (put (DeviceStarted (dev_name it)) s))) else (True, 0)) \<and>
     st = (if done_in E it (us_log s) es then 0 else if dev_skip it then -3 else -1) \<and>
     (st = 0) = (fst (handle_device_update E it (put (DeviceStarted (dev_name it)) s)) = 0)"
proof -
  let ?s = "with_log s [DeviceStarted (dev_name it)]"
  obtain es where es: "snd (handle_device_update E it ?s) = with_log ?s es" "quiet es"
    "set (flashes es) \<subseteq> {dev_name it}" "length (flashes es) \<le> 3"
    using handle_grows [of it ?s E] by (auto simp: grows_def)
  obtain es' where "snd (handle_device_update E it ?s) = with_log ?s es'"
    "fst (handle_device_update E it ?s) = 0 \<longleftrightarrow> done_in E it (us_log ?s) es'"
    using done_handle by blast
  moreover from this(1) es(1) have "es' = es" by (simp add: with_log_eq)
  ultimately have dn: "fst (handle_device_update E it ?s) = 0 \<longleftrightarrow> done_in E it (us_log s @ [DeviceStarted (dev_name it)]) es"
    by simp
  obtain rc where rc: "handle_device_update E it ?s = (rc, with_log ?s es)"
    using es(1) by (metis prod.collapse)
  let ?pr = "\<lambda>st err. Progress (us_stage s) step (us_total_steps s) st (st = -3) err (dev_name it)"
  note D = update_device_def rc Let_def publish_log quiet_def done_in_append
  consider (ok) "rc = 0" | (skip) "rc \<noteq> 0" "dev_skip it" | (fail) "rc \<noteq> 0" "\<not> dev_skip it" by blast
  then show ?thesis
  proof cases
    case ok
    then show ?thesis using es(2-4) dn
      by (intro exI [of _ "[DeviceStarted (dev_name it)] @ es @ [?pr 0 None] @
          (if e_charger_family E (dev_name it) then [BgAdd (dev_name it)] else [])"] exI [of _ 0]) (simp add: D)
  next
    case skip
    then show ?thesis using es(2-4) dn
      by (intro exI [of _ "[DeviceStarted (dev_name it)] @ es @ [?pr (-3) None] @
          (if e_modem_family E (dev_name it) then [BgTrigger (dev_name it)] else [])"] exI [of _ "-3"]) (simp add: D)
  next
    case fail
    then show ?thesis using es(2-4) dn
      by (intro exI [of _ "[DeviceStarted (dev_name it)] @ es @ [?pr (-1) (Some 13)]"] exI [of _ "-1"]) (simp add: D)
  qed
qed

lemma flash_rc: "fst (flash_trials E dev n s) \<in> {0, -1}"
  by (induction n arbitrary: s) (simp_all add: Let_def)

lemma handle_rc: "fst (handle_device_update E it s) \<in> {0, -1}"
  using flash_rc [of E "dev_name it" 3]
  by (auto simp: handle_device_update_def Let_def split: prod.split option.split)

text \<open>The reports of the device loop: consecutive steps, the devices in manifest order.\<close>

fun reports :: "int \<Rightarrow> int list \<Rightarrow> manifest_dev list \<Rightarrow> (int \<times> int \<times> string) list" where
  "reports step (st # sts) (it # its) = (step, st, dev_name it) # reports (step + 1) sts its"
| "reports step _ _ = []"

definition statuses_ok :: "bool \<Rightarrow> int list \<Rightarrow> manifest_dev list \<Rightarrow> bool" where
  "statuses_ok rb sts its \<longleftrightarrow> set sts \<subseteq> {0, -1, -3} \<and> length sts \<le> length its \<and>
     (rb \<or> -1 \<notin> set sts \<longrightarrow> length sts = length its) \<and> (\<not> rb \<longrightarrow> -1 \<notin> set (butlast sts)) \<and>
     (\<forall>i < length sts. sts ! i = -1 \<longrightarrow> \<not> dev_skip (its ! i))"

lemma statuses_Cons:
  assumes "st \<in> {0, -1, -3}" "st = -1 \<longrightarrow> \<not> dev_skip it"
  shows "statuses_ok rb sts its \<Longrightarrow> rb \<or> st \<noteq> -1 \<Longrightarrow> statuses_ok rb (st # sts) (it # its)"
    and "\<not> rb \<Longrightarrow> st = -1 \<Longrightarrow> statuses_ok rb [st] (it # its)"
  using assms by (auto simp: statuses_ok_def nth_Cons less_Suc_eq_0_disj split: nat.splits)

lemma device_loop_outcome:
  "\<exists>rs. device_loop E rb step its s =
      (if rb \<or> -1 \<notin> set (map fst rs) then (True, 0) else (False, -1), with_log s (concat (map snd rs))) \<and>
     boots (concat (map snd rs)) = [] \<and> flags (concat (map snd rs)) = [] \<and>
     progress (concat (map snd rs)) = reports (step + 1) (map fst rs) its \<and> statuses_ok rb (map fst rs) its \<and>
     device_turns E rb (step + 1) its rs (us_log s)"
proof (induction its arbitrary: step s)
  case Nil
  then show ?case by (intro exI [of _ "[]"]) (simp add: statuses_ok_def)
next
  case (Cons it its)
  obtain e1 where e1: "skip_device E rb it s = (skipped E rb it (us_log s), with_log s e1)" "e1 \<in> {[], [AskSupplier]}"
    using skip_device_quiet by blast
  then have q: "quiet e1" "flashes e1 = []" "\<not> done_in E it h e1" for h by (auto simp: quiet_def)
  show ?case
  proof (cases "skipped E rb it (us_log s)")
    case True
    let ?seg = "e1 @ [Progress (us_stage s) (step + 1) (us_total_steps s) (-3) True None (dev_name it)]"
    let ?s = "with_log s ?seg"
    obtain rs where ih: "device_loop E rb (step + 1) its ?s =
        (if rb \<or> -1 \<notin> set (map fst rs) then (True, 0) else (False, -1), with_log ?s (concat (map snd rs)))"
      "boots (concat (map snd rs)) = []" "flags (concat (map snd rs)) = []"
      "progress (concat (map snd rs)) = reports (step + 1 + 1) (map fst rs) its" "statuses_ok rb (map fst rs) its"
      "device_turns E rb (step + 1 + 1) its rs (us_log ?s)"
      using Cons.IH [of "step + 1" ?s] by blast
    have "statuses_ok rb (-3 # map fst rs) (it # its)" by (rule statuses_Cons(1)) (simp_all add: ih)
    moreover have "device_turn E rb (step + 1) it (-3, ?seg) (us_log s)"
      using True q by (simp add: device_turn_def quiet_def)
    ultimately show ?thesis
      using ih q(1) e1(1) True
      by (intro exI [of _ "(-3, ?seg) # rs"]) (simp add: publish_log quiet_def)
  next
    case False
    let ?s1 = "with_log s e1"
    obtain e2 st where u: "snd (update_device E rb (step + 1) it ?s1) = with_log ?s1 e2" "boots e2 = []" "flags e2 = []"
      "progress e2 = [(step + 1, st, dev_name it)]" "set (flashes e2) \<subseteq> {dev_name it}" "length (flashes e2) \<le> 3"
      "fst (update_device E rb (step + 1) it ?s1) = (if st = -1 \<and> \<not> rb then (False, fst (handle_device_update E it (put (DeviceStarted (dev_name it)) ?s1))) else (True, 0))"
      "st = (if done_in E it (us_log ?s1) e2 then 0 else if dev_skip it then -3 else -1)"
      "(st = 0) = (fst (handle_device_update E it (put (DeviceStarted (dev_name it)) ?s1)) = 0)"
      using update_device_outcome [of E rb "step + 1" it ?s1] by blast
    let ?seg = "e1 @ e2"
    have turn: "device_turn E rb (step + 1) it (st, ?seg) (us_log s)"
      using False q u(4-6,8) by (simp add: device_turn_def quiet_def done_in_append)
    have st: "st \<in> {0, -1, -3}" "st = -1 \<longrightarrow> \<not> dev_skip it" using u(8) by auto
    show ?thesis
    proof (cases "st = -1 \<and> \<not> rb")
      case True
      then have "fst (update_device E rb (step + 1) it ?s1) = (False, -1)"
        using u(7,9) handle_rc [of E it "put (DeviceStarted (dev_name it)) ?s1"] by auto
      then have "update_device E rb (step + 1) it ?s1 = ((False, -1), with_log ?s1 e2)"
        using u(1) by (metis prod.collapse)
      moreover have "statuses_ok rb [st] (it # its)" by (rule statuses_Cons(2)) (use st True in auto)
      ultimately show ?thesis using u(2-4) q e1(1) turn False True
        by (intro exI [of _ "[(st, ?seg)]"]) (simp add: quiet_def)
    next
      case go: False
      then have "fst (update_device E rb (step + 1) it ?s1) = (True, 0)" using u(7) by simp
      then have ud: "update_device E rb (step + 1) it ?s1 = ((True, 0), with_log ?s1 e2)"
        using u(1) by (metis prod.collapse)
      let ?s2 = "with_log s ?seg"
      obtain rs where ih: "device_loop E rb (step + 1) its ?s2 =
        (if rb \<or> -1 \<notin> set (map fst rs) then (True, 0) else (False, -1), with_log ?s2 (concat (map snd rs)))"
        "boots (concat (map snd rs)) = []" "flags (concat (map snd rs)) = []"
        "progress (concat (map snd rs)) = reports (step + 1 + 1) (map fst rs) its" "statuses_ok rb (map fst rs) its"
        "device_turns E rb (step + 1 + 1) its rs (us_log ?s2)"
        using Cons.IH [of "step + 1" ?s2] by blast
      have "statuses_ok rb (st # map fst rs) (it # its)" by (rule statuses_Cons(1)) (use st go ih in auto)
      then show ?thesis using ih u(2-4) ud e1(1) q turn False go
        by (intro exI [of _ "(st, ?seg) # rs"]) (auto simp: quiet_def)
    qed
  qed
qed

subsection \<open>Waiting for the devices\<close>

text \<open>The hypothesis on the clock: a sleep of 1000 ms advances it by at least that much.\<close>

definition steady_clock :: "upd_env \<Rightarrow> bool" where
  "steady_clock E \<longleftrightarrow>
     (\<forall>h h1 h2. e_clock E h + 1000000000 \<le> e_clock E (h @ h1 @ [SleepMs 1000] @ h2))"

lemma wait_loop_returns:
  assumes "steady_clock E"
  shows "(60 - int m) * 1000000000 \<le> e_clock E (us_log s) - start \<Longrightarrow>
    \<exists>rc es. wait_loop E start s = Some (rc, with_log s es) \<and> quiet es \<and> flashes es = []"
proof (induction m arbitrary: s)
  case 0
  then show ?case
    by (subst wait_loop.simps) (auto simp: Let_def quiet_def intro!: exI [of _ "[ReadClock]"])
next
  case (Suc m)
  let ?s = "with_log s [ReadClock, SleepMs 1000]"
  have "e_clock E (us_log s) + 1000000000 \<le> e_clock E (us_log ?s)"
    using assms [unfolded steady_clock_def, rule_format, of "us_log s" "[ReadClock]" "[]"] by simp
  then have "(60 - int m) * 1000000000 \<le> e_clock E (us_log ?s) - start" using Suc.prems by simp
  from Suc.IH [OF this] obtain rc es where
    w: "wait_loop E start ?s = Some (rc, with_log ?s es)" "quiet es" "flashes es = []" by blast
  show ?case
  proof (cases "e_clock E (us_log s) - start < 0 \<or> 59999999999 < e_clock E (us_log s) - start
      \<or> e_pending E (us_log s @ [ReadClock]) = 0")
    case True
    then show ?thesis
      by (subst wait_loop.simps) (auto simp: Let_def quiet_def intro!: exI [of _ "[ReadClock]"])
  next
    case False
    then have "wait_loop E start s = wait_loop E start ?s"
      by (subst wait_loop.simps) (simp add: Let_def)
    then show ?thesis using w
      by (intro exI [of _ rc] exI [of _ "[ReadClock, SleepMs 1000] @ es"]) (simp add: quiet_def)
  qed
qed

lemma wait_for_devices_returns:
  assumes "steady_clock E"
  shows "\<exists>rc es. wait_for_devices E s = Some (rc, with_log s es) \<and> quiet es \<and> flashes es = []"
proof -
  let ?s = "with_log s [SubscribeStatus]"
  have "\<exists>rc es. wait_loop E (e_clock E (us_log ?s)) (with_log ?s [ReadClock]) = Some (rc, with_log (with_log ?s [ReadClock]) es) \<and> quiet es \<and> flashes es = []"
  proof (cases "e_clock E (us_log (with_log ?s [ReadClock])) - e_clock E (us_log ?s) < 0")
    case True
    then show ?thesis
      by (subst wait_loop.simps) (auto simp: Let_def quiet_def intro!: exI [of _ "[ReadClock]"])
  next
    case False
    then show ?thesis by (intro wait_loop_returns [OF assms, of 60]) simp
  qed
  then obtain rc es where "wait_loop E (e_clock E (us_log ?s)) (with_log ?s [ReadClock])
      = Some (rc, with_log (with_log ?s [ReadClock]) es)" "quiet es" "flashes es = []" by blast
  then show ?thesis
    by (intro exI [of _ rc] exI [of _ "[SubscribeStatus, ReadClock] @ es @ [UnsubscribeStatus]"])
      (simp add: wait_for_devices_def Let_def quiet_def)
qed


lemma run_device_updates_outcome:
  assumes "steady_clock E"
  shows "\<exists>rs post. run_device_updates E rb s =
      Some (if rb \<or> -1 \<notin> set (map fst rs) then 0 else -1, with_log s (concat (map snd rs) @ post)) \<and>
     boots (concat (map snd rs)) = [] \<and> flags (concat (map snd rs)) = [] \<and>
     progress (concat (map snd rs)) = reports 10 (map fst rs) (us_manifest s) \<and>
     quiet post \<and> flashes post = [] \<and>
     statuses_ok rb (map fst rs) (us_manifest s) \<and> device_turns E rb 10 (us_manifest s) rs (us_log s)"
proof -
  obtain rs where l: "device_loop E rb 9 (us_manifest s) s
      = (if rb \<or> -1 \<notin> set (map fst rs) then (True, 0) else (False, -1), with_log s (concat (map snd rs)))"
     "boots (concat (map snd rs)) = []" "flags (concat (map snd rs)) = []"
     "progress (concat (map snd rs)) = reports (9 + 1) (map fst rs) (us_manifest s)"
     "statuses_ok rb (map fst rs) (us_manifest s)" "device_turns E rb (9 + 1) (us_manifest s) rs (us_log s)"
    using device_loop_outcome [of E rb 9 "us_manifest s" s] by blast
  obtain rc ws where w: "wait_for_devices E (with_log s (concat (map snd rs))) = Some (rc, with_log (with_log s (concat (map snd rs))) ws)"
    "quiet ws" "flashes ws = []"
    using wait_for_devices_returns [OF assms] by blast
  show ?thesis
  proof (cases "rb \<or> -1 \<notin> set (map fst rs)")
    case True
    then show ?thesis using l w
      by (intro exI [of _ rs] exI [of _ ws]) (auto simp: run_device_updates_def)
  next
    case False
    then show ?thesis using l
      by (intro exI [of _ rs] exI [of _ "[]"]) (auto simp: run_device_updates_def)
  qed
qed

subsection \<open>The whole machine\<close>

text \<open>The boot calls and the finished flag that a stage ends with.\<close>

definition stage_of :: "upd_env \<Rightarrow> upd \<Rightarrow> int" where
  "stage_of E s = signed_take_bit 7 (e_stage E (us_log s @ [StateLock, SleepMs (us_start_delay s)]))"

lemma flag_log: "write_finished_flag E v s = with_log s (if e_flag E (us_log s) then [FlagFile v] else [])"
  by (simp add: write_finished_flag_def)

lemma stage_two_outcome:
  assumes "steady_clock E"
  shows "\<exists>pre rs post. stage_two E s = Some (with_log s (pre @ concat (map snd rs) @ post)) \<and>
     progress pre = [(9, 0, [])] \<and> flashes pre = [] \<and> boots pre = [] \<and> flags pre = [] \<and>
     device_turns E False 10 (us_manifest s) rs (us_log s @ pre) \<and>
     statuses_ok False (map fst rs) (us_manifest s) \<and>
     progress (concat (map snd rs)) = reports 10 (map fst rs) (us_manifest s) \<and>
     boots (concat (map snd rs)) = [] \<and> flags (concat (map snd rs)) = [] \<and>
     progress post = [] \<and> flashes post = [] \<and>
     boots post = (if -1 \<in> set (map fst rs) then [Rollback, ExecReboot] else [Commit, ExecReboot]) \<and>
     set (flags post) \<subseteq> (if -1 \<in> set (map fst rs) then {} else {0})"
proof -
  let ?pre = "[Progress (us_stage s) 9 (us_total_steps s) 0 False None [], SleepMs (us_stage2_delay s)]"
  let ?s = "with_log s ?pre"
  obtain rs ws where r: "run_device_updates E False ?s = Some (if False \<or> -1 \<notin> set (map fst rs) then 0 else -1,
        with_log ?s (concat (map snd rs) @ ws))"
     "boots (concat (map snd rs)) = []" "flags (concat (map snd rs)) = []"
     "progress (concat (map snd rs)) = reports 10 (map fst rs) (us_manifest ?s)" "quiet ws" "flashes ws = []"
     "statuses_ok False (map fst rs) (us_manifest ?s)" "device_turns E False 10 (us_manifest ?s) rs (us_log ?s)"
    using run_device_updates_outcome [OF assms] by blast
  let ?es = "concat (map snd rs) @ ws"
  have st2: "stage_two E s = Some (if -1 \<in> set (map fst rs) then
       let (_, s) = boot E Rollback (with_log ?s ?es); (_, s) = boot E ExecReboot s in s
     else let s = put (SleepMs (us_poll_delay (with_log ?s ?es))) (with_log ?s ?es);
              (_, s) = boot E Commit s; s = write_finished_flag E 0 s;
              s = put (SleepMs (us_reboot_delay s)) s; (_, s) = boot E ExecReboot s in s)"
    using r(1) by (simp add: stage_two_def stage2_install_def publish_log Let_def)
  have ws: "boots ws = []" "flags ws = []" "progress ws = []" using r(5) by (simp_all add: quiet_def)
  show ?thesis
  proof (cases "-1 \<in> set (map fst rs)")
    case True
    then show ?thesis using r(2-4,6-8) st2 ws
      by (intro exI [of _ ?pre] exI [of _ rs] exI [of _ "ws @ [BootCall Rollback, BootCall ExecReboot]"])
        (simp add: boot_log)
  next
    case False
    let ?t = "with_log ?s (?es @ [SleepMs (us_poll_delay s), BootCall Commit])"
    from False show ?thesis using r(2-4,6-8) st2 ws
      by (intro exI [of _ ?pre] exI [of _ rs]
            exI [of _ "ws @ [SleepMs (us_poll_delay s), BootCall Commit] @ (if e_flag E (us_log ?t) then [FlagFile 0] else []) @
            [SleepMs (us_reboot_delay s), BootCall ExecReboot]"]) (simp add: boot_log flag_log)
  qed
qed

lemma stage_two_calls:
  assumes "steady_clock E"
  shows "\<exists>es. stage_two E s = Some (with_log s es) \<and> boots es \<in> {[Rollback, ExecReboot], [Commit, ExecReboot]} \<and>
    set (flags es) \<subseteq> {0}"
proof -
  obtain pre rs post where r: "stage_two E s = Some (with_log s (pre @ concat (map snd rs) @ post))"
     "progress pre = [(9, 0, [])]" "flashes pre = []" "boots pre = []" "flags pre = []"
     "device_turns E False 10 (us_manifest s) rs (us_log s @ pre)" "statuses_ok False (map fst rs) (us_manifest s)"
     "progress (concat (map snd rs)) = reports 10 (map fst rs) (us_manifest s)"
     "boots (concat (map snd rs)) = []" "flags (concat (map snd rs)) = []" "progress post = []" "flashes post = []"
     "boots post = (if -1 \<in> set (map fst rs) then [Rollback, ExecReboot] else [Commit, ExecReboot])"
     "set (flags post) \<subseteq> (if -1 \<in> set (map fst rs) then {} else {0})"
    using stage_two_outcome [OF assms, of s] by metis
  then show ?thesis
    by (intro exI [of _ "pre @ concat (map snd rs) @ post"]) (simp split: if_splits)
qed

lemma stage_rollback_outcome:
  assumes "steady_clock E"
  shows "\<exists>es sts. stage_rollback E s = Some (with_log s es) \<and>
     progress es = (9, 0, []) # reports 10 sts (us_manifest s) \<and> statuses_ok True sts (us_manifest s) \<and>
     boots es = [Commit, ExecReboot] \<and> set (flags es) \<subseteq> {-1}"
proof -
  let ?s = "with_log s [Progress (us_stage s) 9 (us_total_steps s) 0 False None []]"
  obtain rs ws where r: "run_device_updates E True ?s = Some (if True \<or> -1 \<notin> set (map fst rs) then 0 else -1,
        with_log ?s (concat (map snd rs) @ ws))"
     "boots (concat (map snd rs)) = []" "flags (concat (map snd rs)) = []"
     "progress (concat (map snd rs)) = reports 10 (map fst rs) (us_manifest ?s)" "quiet ws"
     "statuses_ok True (map fst rs) (us_manifest ?s)"
    using run_device_updates_outcome [OF assms] by blast
  let ?es = "concat (map snd rs) @ ws"
  have ws: "boots ws = []" "flags ws = []" "progress ws = []" using r(5) by (simp_all add: quiet_def)
  let ?t = "with_log ?s (?es @ [BootCall Commit])"
  show ?thesis using r ws
    by (intro exI [of _ "[Progress (us_stage s) 9 (us_total_steps s) 0 False None []]
            @ ?es @ [BootCall Commit] @ (if e_flag E (us_log ?t) then [FlagFile (-1)] else []) @
            [BootCall ExecReboot]"] exI [of _ "map fst rs"])
      (simp add: stage_rollback_def publish_log Let_def boot_log flag_log)
qed

lemma fota_done_parts:
  "boots (fota_done st tot step cs) = map fst cs" "flags (fota_done st tot step cs) = []"
  "map (\<lambda>(a, b, c). b) (progress (fota_done st tot step cs)) = replicate (length cs) 0"
  by (induction st tot step cs rule: fota_done.induct) simp_all

lemma stage_fresh_low:
  "us_battery_soc s < 11 \<Longrightarrow> stage_fresh E s = with_log s
     [Progress (us_stage s) 0 (us_total_steps s) (-1) False (Some 2) [], RequestState (us_prev_state s)]"
  by (simp add: stage_fresh_def publish_log)

lemma stage_fresh_outcome:
  assumes "\<not> us_battery_soc s < 11"
  shows "\<exists>es k. stage_fresh E s = with_log s es \<and> k \<le> 8 \<and>
     map (\<lambda>(a, b, c). b) (progress es) = 0 # replicate k 0 @ (if k = 8 then [] else [-1]) \<and>
     (if k = 8 then boots es = map fst fota_table \<and> flags es = []
      else boots es \<in> (\<lambda>u. take (Suc k) (map fst fota_table) @ [Commit, MountRestore] @ u @ [ExecReboot]) ` {[], [Umount]}
        \<and> set (flags es) \<subseteq> {-1})"
proof -
  let ?s = "with_log s [Progress (us_stage s) 0 (us_total_steps s) 0 False None []]"
  have n: "length fota_table = 8" by (simp add: fota_table_def)
  obtain k where k: "k \<le> 8" and r: "run_fota_install_sequence E ?s =
     (if k = 8 then 0 else -1,
      with_log ?s (fota_done (us_stage s) (us_total_steps s) 1 (take k fota_table) @
        (if k = 8 then []
         else [BootCall (fst (fota_table ! k)), Progress (us_stage s) (1 + int k) (us_total_steps s) (-1)
                 False (Some (snd (fota_table ! k))) []])))"
    using fota_ref_outcome [of fota_table E 1 ?s] by (auto simp: fota_is_table n)
  define es0 where "es0 = fota_done (us_stage s) (us_total_steps s) 1 (take k fota_table) @
        (if k = 8 then []
         else [BootCall (fst (fota_table ! k)), Progress (us_stage s) (1 + int k) (us_total_steps s) (-1)
                 False (Some (snd (fota_table ! k))) []])"
  have r': "run_fota_install_sequence E ?s = (if k = 8 then 0 else -1, with_log ?s es0)"
    using r by (simp only: es0_def)
  show ?thesis
  proof (cases "k = 8")
    case True
    then show ?thesis using assms r
      by (intro exI [of _ "[Progress (us_stage s) 0 (us_total_steps s) 0 False None []] @ es0"] exI [of _ k])
        (simp add: stage_fresh_def publish_log fota_done_parts es0_def n)
  next
    case False
    then have k8: "k < 8" using k by simp
    let ?m = "e_boot E MountRestore (us_log ?s @ es0 @ [BootCall Commit])"
    let ?u = "if ?m then [BootCall Umount] else []"
    let ?h = "us_log ?s @ es0 @ [BootCall Commit, BootCall MountRestore] @ ?u"
    let ?es = "[Progress (us_stage s) 0 (us_total_steps s) 0 False None []] @ es0 @
       [BootCall Commit, BootCall MountRestore] @ ?u @ (if e_flag E ?h then [FlagFile (-1)] else []) @
       [SleepMs (us_reboot_delay s), BootCall ExecReboot]"
    have "stage_fresh E s = with_log s ?es"
      using assms r' False
      by (simp add: stage_fresh_def publish_log Let_def boot_log flag_log)
    moreover have "boots es0 = take (Suc k) (map fst fota_table)" "flags es0 = []"
      "map (\<lambda>(a, b, c). b) (progress es0) = replicate k 0 @ [-1]"
      using k8 by (simp_all add: es0_def fota_done_parts n take_map take_Suc_conv_app_nth)
    ultimately show ?thesis using k8
      by (intro exI [of _ ?es] exI [of _ k]) auto
  qed
qed


text \<open>The start of the machine: lock, sleep, stage and step count.\<close>

definition entered :: "upd_env \<Rightarrow> upd \<Rightarrow> upd" where
  "entered E s =
     (let s1 = with_log s [StateLock, SleepMs (us_start_delay s)]
      in s1\<lparr>us_stage := stage_of E s,
           us_total_steps := count_total_steps E (stage_of E s) (s1\<lparr>us_stage := stage_of E s\<rparr>)\<rparr>)"

lemma machine_by_stage:
  "run_state_machine E s = map_option (put StateUnlock)
     (if stage_of E s = 2 then stage_two E (entered E s)
      else if stage_of E s < 3 then
        Some (if stage_of E s = 1 then snd (boot E ExecReboot (entered E s)) else stage_fresh E (entered E s))
      else if stage_of E s = 3 \<or> stage_of E s = 4 then stage_rollback E (entered E s)
      else Some (entered E s))"
proof -
  have "stage_of E s < 128"
    unfolding stage_of_def using signed_take_bit_int_less_exp [of 7] by simp
  moreover have "x AND 0xff = x mod 256" for x :: int
  proof -
    have m: "(0xff :: int) = mask 8" by (simp add: mask_eq_exp_minus_1)
    show ?thesis unfolding m take_bit_eq_mask [symmetric] by (simp add: take_bit_eq_mod)
  qed
  ultimately have "\<not> stage_of E s < 3 \<Longrightarrow> ((stage_of E s - 3) AND 0xff < 2) = (stage_of E s = 3 \<or> stage_of E s = 4)"
    by auto
  then show ?thesis
    by (simp add: run_state_machine_def entered_def stage_of_def Let_def)
qed


lemma entered_log [simp]:
  "us_log (entered E s) = us_log s @ [StateLock, SleepMs (us_start_delay s)]"
  "us_manifest (entered E s) = us_manifest s" "us_battery_soc (entered E s) = us_battery_soc s"
  "us_prev_state (entered E s) = us_prev_state s" "us_stage (entered E s) = stage_of E s"
  by (simp_all add: entered_def Let_def)

text \<open>
  C25.  In stage 2, with a clock that a sleep of a second advances by a second, the
  machine always finishes, and its log is a beginning, the turns of the devices of the manifest in their
  order, and an end.  A device that the rules leave alone is not flashed and is reported as skipped (-3).
  The turn of any other one, with at most three updates of that device and of no other, is reported under
  its step, from 10 on, with 0 exactly when in this turn the version client answered with the version of
  the manifest or an update of it answered 0; else with -3 when the manifest lets it be skipped, and with -1
  when it does not.  The first -1 is the last turn; without one every device had its turn.  The new system
  is committed exactly when there is no -1, and only then may the finished flag be set to 0; otherwise the
  boot control is told to roll back.  Either way the last call is the reboot.
\<close>

theorem stage_two_commits:
  assumes "steady_clock E" "stage_of E s = 2"
  shows "\<exists>s' es rs pre post. run_state_machine E s = Some s' \<and> us_log s' = us_log s @ es \<and>
     es = pre @ concat (map snd rs) @ post \<and> flashes pre = [] \<and> flashes post = [] \<and>
     device_turns E False 10 (us_manifest s) rs (us_log s @ pre) \<and>
     progress es = (9, 0, []) # reports 10 (map fst rs) (us_manifest s) \<and>
     statuses_ok False (map fst rs) (us_manifest s) \<and>
     boots es = (if -1 \<in> set (map fst rs) then [Rollback, ExecReboot] else [Commit, ExecReboot]) \<and>
     set (flags es) \<subseteq> (if -1 \<in> set (map fst rs) then {} else {0})"
proof -
  let ?e = "entered E s" and ?in = "[StateLock, SleepMs (us_start_delay s)]"
  obtain pre rs post where r: "stage_two E ?e = Some (with_log ?e (pre @ concat (map snd rs) @ post))"
     "progress pre = [(9, 0, [])]" "flashes pre = []" "boots pre = []" "flags pre = []"
     "device_turns E False 10 (us_manifest ?e) rs (us_log ?e @ pre)" "statuses_ok False (map fst rs) (us_manifest ?e)"
     "progress (concat (map snd rs)) = reports 10 (map fst rs) (us_manifest ?e)"
     "boots (concat (map snd rs)) = []" "flags (concat (map snd rs)) = []" "progress post = []" "flashes post = []"
     "boots post = (if -1 \<in> set (map fst rs) then [Rollback, ExecReboot] else [Commit, ExecReboot])"
     "set (flags post) \<subseteq> (if -1 \<in> set (map fst rs) then {} else {0})"
    using stage_two_outcome [OF assms(1), of ?e] by metis
  let ?pre = "?in @ pre" and ?post = "post @ [StateUnlock]"
  show ?thesis
  proof (rule exI [of _ "with_log ?e (pre @ concat (map snd rs) @ ?post)"],
      rule exI [of _ "?pre @ concat (map snd rs) @ ?post"], rule exI [of _ rs], rule exI [of _ ?pre], rule exI [of _ ?post],
      intro conjI)
    show "run_state_machine E s = Some (with_log ?e (pre @ concat (map snd rs) @ ?post))"
      using assms(2) r(1) by (simp add: machine_by_stage)
    show "us_log (with_log ?e (pre @ concat (map snd rs) @ ?post)) = us_log s @ (?pre @ concat (map snd rs) @ ?post)"
      by simp
  qed (use r in auto)
qed

text \<open>What the boot control is told in each stage, and the values of the finished flag.\<close>

definition stage_contract :: "int \<Rightarrow> u16 \<Rightarrow> int \<Rightarrow> nat \<Rightarrow> history \<Rightarrow> bool" where
  "stage_contract stage charge prev k es \<longleftrightarrow>
     (if stage = 2 then boots es \<in> {[Rollback, ExecReboot], [Commit, ExecReboot]} \<and> set (flags es) \<subseteq> {0}
      else if stage = 1 then boots es = [ExecReboot] \<and> flags es = []
      else if stage = 3 \<or> stage = 4 then boots es = [Commit, ExecReboot] \<and> set (flags es) \<subseteq> {-1}
      else if 4 < stage then boots es = [] \<and> flags es = []
      else if charge < 11 then boots es = [] \<and> flags es = [] \<and> RequestState prev \<in> set es
      else if k = 8 then boots es = map fst fota_table \<and> flags es = []
      else k < 8 \<and> set (flags es) \<subseteq> {-1} \<and>
        boots es \<in> (\<lambda>u. take (Suc k) (map fst fota_table) @ [Commit, MountRestore] @ u @ [ExecReboot]) ` {[], [Umount]})"

text \<open>
  C26.  In every stage the machine finishes, with a clock as above, and the calls of
  the boot control are those of the stage: a reboot in stage 1; a commit and a reboot in stages 3 and
  4, whatever the devices did, with no flag but -1; nothing above stage 4. In any other stage a battery
  below 11 percent leads to no call at all and a request for the previous power state; otherwise the
  installation steps are called in order, all eight of them, or up to the one that fails, which is
  followed by commit, mount, perhaps unmount, and reboot, with no flag but -1.
\<close>

theorem machine_finishes:
  assumes "steady_clock E"
  shows "\<exists>s' es k. run_state_machine E s = Some s' \<and> us_log s' = us_log s @ es \<and>
     stage_contract (stage_of E s) (us_battery_soc s) (us_prev_state s) k es"
proof -
  let ?e = "entered E s"
  have fin: ?thesis if "run_state_machine E s = Some (with_log ?e (es @ [StateUnlock]))"
    "stage_contract (stage_of E s) (us_battery_soc s) (us_prev_state s) k
       ([StateLock, SleepMs (us_start_delay s)] @ es @ [StateUnlock])" for es k
    using that by (intro exI [of _ "with_log ?e (es @ [StateUnlock])"]
        exI [of _ "[StateLock, SleepMs (us_start_delay s)] @ es @ [StateUnlock]"] exI [of _ k]) simp
  consider (second) "stage_of E s = 2" | (first) "stage_of E s = 1" | (backwards) "stage_of E s = 3 \<or> stage_of E s = 4"
    | (beyond) "4 < stage_of E s"
    | (fresh) "stage_of E s < 3" "stage_of E s \<noteq> 2" "stage_of E s \<noteq> 1" "stage_of E s \<noteq> 3" "stage_of E s \<noteq> 4"
        "\<not> 4 < stage_of E s"
    by linarith
  then show ?thesis
  proof cases
    case second
    obtain es where "stage_two E ?e = Some (with_log ?e es)" "boots es \<in> {[Rollback, ExecReboot], [Commit, ExecReboot]}"
      "set (flags es) \<subseteq> {0}" using stage_two_calls [OF assms, of ?e] by blast
    with second show ?thesis
      by (intro fin [of es]) (auto simp: machine_by_stage stage_contract_def)
  next
    case first
    then show ?thesis
      by (intro fin [of "[BootCall ExecReboot]"]) (simp_all add: machine_by_stage boot_log stage_contract_def)
  next
    case backwards
    obtain es where "stage_rollback E ?e = Some (with_log ?e es)" "boots es = [Commit, ExecReboot]"
      "set (flags es) \<subseteq> {-1}"
      using stage_rollback_outcome [OF assms, of ?e] by blast
    with backwards show ?thesis
      by (intro fin [of es]) (auto simp: machine_by_stage stage_contract_def)
  next
    case beyond
    then show ?thesis
      by (intro fin [of "[]"]) (simp_all add: machine_by_stage stage_contract_def)
  next
    case fresh
    show ?thesis
    proof (cases "us_battery_soc s < 11")
      case True
      then have "stage_fresh E ?e = with_log ?e [Progress (us_stage ?e) 0 (us_total_steps ?e) (-1) False (Some 2) [],
          RequestState (us_prev_state s)]"
        using stage_fresh_low [of ?e E] by simp
      with True fresh show ?thesis
        by (intro fin [of "[Progress (us_stage ?e) 0 (us_total_steps ?e) (-1) False (Some 2) [],
          RequestState (us_prev_state s)]"]) (auto simp: machine_by_stage stage_contract_def)
    next
      case False
      then obtain es k where "stage_fresh E ?e = with_log ?e es" "k \<le> 8"
        "(if k = 8 then boots es = map fst fota_table \<and> flags es = []
          else boots es \<in> (\<lambda>u. take (Suc k) (map fst fota_table) @ [Commit, MountRestore] @ u @ [ExecReboot]) ` {[], [Umount]}
            \<and> set (flags es) \<subseteq> {-1})"
        using stage_fresh_outcome [of ?e E] by auto
      with False fresh show ?thesis
        by (intro fin [of es k]) (auto simp: machine_by_stage stage_contract_def)
    qed
  qed
qed


subsection \<open>Instances\<close>

definition demo_device :: "string \<Rightarrow> bool \<Rightarrow> manifest_dev" where
  "demo_device name skip = \<lparr>dev_name = name, dev_wanted = Some 2, dev_skip = skip, dev_skip_rollback = False\<rparr>"

definition demo_env :: "int \<Rightarrow> upd_env" where
  "demo_env stage = \<lparr>e_boot = (\<lambda>c h. c = Install), e_stage = (\<lambda>_. stage), e_metadata = (\<lambda>_. []), e_lines = (\<lambda>_. 0),
     e_version = (\<lambda>_ _. Some 1), e_client = (\<lambda>_ _. True), e_update = (\<lambda>d _. if d = ''elock'' then 1 else 0),
     e_supplier = (\<lambda>_. CHR ''P''), e_clock = (\<lambda>h. 1000000000 * int (count_list h (SleepMs 1000))),
     e_pending = (\<lambda>_. 1), e_flag = (\<lambda>_. True), e_charger_family = (\<lambda>_. False), e_modem_family = (\<lambda>_. False)\<rparr>"

definition demo_upd :: upd where
  "demo_upd = \<lparr>us_start_delay = 1, us_poll_delay = 1, us_reboot_delay = 1, us_stage2_delay = 1,
     us_manifest = [demo_device ''frontlight'' False, demo_device ''charger'' False, demo_device ''elock'' False],
     us_total_steps = 0, us_prev_state = 3, us_stage = 0, us_metadata = [], us_battery_soc = 50, us_log = []\<rparr>"

lemma demo_steady: "steady_clock (demo_env st)"
  by (simp add: steady_clock_def demo_env_def)

lemma demo_upd_stage: "stage_of (demo_env st) s = signed_take_bit 7 st"
  by (simp add: stage_of_def demo_env_def)

theorem stage_two_commits_witness:
  "\<exists>s' es rs pre post. run_state_machine (demo_env 2) demo_upd = Some s' \<and> us_log s' = us_log demo_upd @ es \<and>
     es = pre @ concat (map snd rs) @ post \<and> flashes pre = [] \<and> flashes post = [] \<and>
     device_turns (demo_env 2) False 10 (us_manifest demo_upd) rs (us_log demo_upd @ pre) \<and>
     progress es = (9, 0, []) # reports 10 (map fst rs) (us_manifest demo_upd) \<and>
     statuses_ok False (map fst rs) (us_manifest demo_upd) \<and>
     boots es = (if -1 \<in> set (map fst rs) then [Rollback, ExecReboot] else [Commit, ExecReboot]) \<and>
     set (flags es) \<subseteq> (if -1 \<in> set (map fst rs) then {} else {0})"
  by (rule stage_two_commits [OF demo_steady]) (simp add: demo_upd_stage)

theorem machine_finishes_witness:
  "\<exists>s' es k. run_state_machine (demo_env 0) demo_upd = Some s' \<and> us_log s' = us_log demo_upd @ es \<and>
     stage_contract 0 50 3 k es"
  using machine_finishes [OF demo_steady [of 0], of demo_upd] by (simp add: demo_upd_stage demo_upd_def)

end
