(* ===== verification/ThirdParty.thy ===== *)
theory ThirdParty
  imports Crc
begin

text \<open>
  Model of \<open>main/update/src/thirdparty_update_client.c\<close>: the flashing of a battery or charger over
  the CAN bus, page by page, each page and then the whole image checked by a CRC-32.  The sends are
  events; what they answer is an environment of functions of the events so far.  The reply callbacks are
  functions on the client.  \<open>size_t\<close> and the 64-bit geometry are natural numbers: the page size and
  count come from 16-bit fields, so their product does not wrap.
\<close>

subsection \<open>CRC-32\<close>

definition tp_crc_bit :: "bool \<Rightarrow> u32 \<Rightarrow> u32" where
  "tp_crc_bit b crc =
     (let shifted = drop_bit 1 crc
      in if b \<noteq> bit crc 0 then shifted XOR 0xedb88320 else shifted)"

text \<open>The inner loop runs over the bits of the byte, lowest first.\<close>

definition tp_crc_byte :: "u8 \<Rightarrow> u32 \<Rightarrow> u32" where
  "tp_crc_byte b crc = fold (\<lambda>i. tp_crc_bit (bit b i)) [0..<8] crc"

definition tp_crc32 :: "bytes \<Rightarrow> u32" where
  "tp_crc32 xs = (if xs = [] then 0 else NOT (fold tp_crc_byte xs 0xffffffff))"

subsection \<open>The client\<close>

definition TP_STATE_SIZE_INFO :: int where "TP_STATE_SIZE_INFO = 2"
definition TP_STATE_PAGE_CRC :: int where "TP_STATE_PAGE_CRC = 3"
definition TP_STATE_IMAGE_CRC :: int where "TP_STATE_IMAGE_CRC = 4"
definition TP_STATE_UPDATE_REQ :: int where "TP_STATE_UPDATE_REQ = 5"
definition TP_STATE_TERMINAL :: int where "TP_STATE_TERMINAL = 7"

lemmas tp_states = TP_STATE_SIZE_INFO_def TP_STATE_PAGE_CRC_def TP_STATE_IMAGE_CRC_def
  TP_STATE_UPDATE_REQ_def TP_STATE_TERMINAL_def

definition TP_CMD_TIMEOUT_ADVANCE :: int where "TP_CMD_TIMEOUT_ADVANCE = 10"
definition TP_CMD_TIMEOUT_FULL_CRC :: int where "TP_CMD_TIMEOUT_FULL_CRC = 5"
definition TP_CMD_TIMEOUT_SIZE_REQ :: int where "TP_CMD_TIMEOUT_SIZE_REQ = 3"

definition UPD_FAILED :: int where "UPD_FAILED = 1"

datatype tp_event =
    OpDestroy
  | Command string int
  | EraseFrame u16 u16
  | SleepUs int
  | PageWord bytes
  | CrcQuery u16
  | EnterSizeMode
  | SetTransferMode bool | PostStep
  | LogSucceeded | LogFailed string
  | Progress nat
  | NotifyAll
  | ReadFile | StartTransfer
  | ChargerUnvalidated
  | InitConditions | RegisterCallback string | WatchFrames u32 u32 int

record tp_env =
  te_erase :: "tp_event list \<Rightarrow> u32"
  te_word :: "tp_event list \<Rightarrow> u32"
  te_query :: "tp_event list \<Rightarrow> u32"
  te_enqueue :: "tp_event list \<Rightarrow> bool"
  te_transfer :: "tp_event list \<Rightarrow> u32"

record tp_client =
  step_delay_us :: int
  inter_word_delay_us :: int
  charger_wait_unit :: int
  result_wait_unit :: int
  tp_mode :: int
  file_bytes :: bytes
  pending_op :: bool
  result_code :: int
  result_flag :: bool
  tp_state :: int
  reason :: "string option"
  page_size :: nat
  page_count :: nat
  current_page :: u16
  expected_crc :: u32
  retry_count :: u32
  charger_type_ok :: bool
  tp_log :: "tp_event list"

definition tpl :: "tp_event \<Rightarrow> tp_client \<Rightarrow> tp_client" where
  "tpl e c = c\<lparr>tp_log := tp_log c @ [e]\<rparr>"

definition bswap16 :: "u16 \<Rightarrow> u16" where
  "bswap16 v = drop_bit 8 v OR push_bit 8 v"

definition bswap32 :: "u32 \<Rightarrow> u32" where
  "bswap32 raw = push_bit 24 (raw AND 0xff) OR push_bit 8 (raw AND 0xff00)
     OR drop_bit 8 (raw AND 0xff0000) OR drop_bit 24 (raw AND 0xff000000)"

definition clear_pending :: "tp_client \<Rightarrow> tp_client" where
  "clear_pending c = (if pending_op c then (tpl OpDestroy c)\<lparr>pending_op := False\<rparr> else c)"

definition thirdparty_client_set_update_result :: "string \<Rightarrow> int \<Rightarrow> tp_client \<Rightarrow> tp_client" where
  "thirdparty_client_set_update_result why code c =
     (if tp_state c = TP_STATE_TERMINAL then c
      else let c = c\<lparr>reason := Some why, tp_state := TP_STATE_TERMINAL\<rparr>;
               c = (if \<not> result_flag c then
                      (tpl (if code = 0 then LogSucceeded else LogFailed why) c)
                        \<lparr>result_code := code, result_flag := True\<rparr>
                    else c)
           in tpl NotifyAll c)"

definition tp_erase_frame :: "u32 \<Rightarrow> u16" where
  "tp_erase_frame page = ucast ((drop_bit 8 page AND 0xff) OR push_bit 8 (page AND 0x00ff00ff))"

definition tp_send_erase_page :: "tp_env \<Rightarrow> u32 \<Rightarrow> tp_client \<Rightarrow> u32 \<times> tp_client" where
  "tp_send_erase_page E page c =
     (let rc = te_erase E (tp_log c); c = tpl (EraseFrame (tp_erase_frame page) 0x0100) c
      in (rc, if rc AND 0xff = 0 \<and> step_delay_us c \<noteq> 0 \<and> step_delay_us c > 0
              then tpl (SleepUs (step_delay_us c)) c else c))"

text \<open>The buffer of a page: the slice of the image over a filling of \<open>0xff\<close>.\<close>

definition tp_page_buffer :: "bytes \<Rightarrow> nat \<Rightarrow> nat \<Rightarrow> bytes" where
  "tp_page_buffer img sz page =
     (let off = page * sz; avail = length img; buf = replicate sz 0xff
      in if off < avail then
           let n = avail - off; n = (if sz < n then sz else n)
           in take n (drop off img) @ drop n buf
         else buf)"

text \<open>The words of a page; a failing send ends the loop.\<close>

fun tp_send_words :: "tp_env \<Rightarrow> bytes \<Rightarrow> nat \<Rightarrow> tp_client \<Rightarrow> tp_client" where
  "tp_send_words E buf 0 c = c"
| "tp_send_words E buf (Suc n) c =
     (let rc = te_word E (tp_log c); c = tpl (PageWord (take 8 buf)) c
      in if rc \<noteq> 0 then c
         else let c = (if inter_word_delay_us c \<noteq> 0 \<and> inter_word_delay_us c > 0
                       then tpl (SleepUs (inter_word_delay_us c)) c else c)
              in tp_send_words E (drop 8 buf) n c)"

definition tp_send_page :: "tp_env \<Rightarrow> u16 \<Rightarrow> tp_client \<Rightarrow> bool \<times> tp_client" where
  "tp_send_page E page c =
     (if unat page \<ge> page_count c then (False, c)
      else let (rc, c) = tp_send_erase_page E (ucast page) c
        in if rc \<noteq> 0 then (False, c)
           else let buf = tp_page_buffer (file_bytes c) (page_size c) (unat page);
                    c = c\<lparr>expected_crc := tp_crc32 buf\<rparr>
                in (True, tp_send_words E buf (page_size c div 8) c))"

definition tp_send_command :: "tp_env \<Rightarrow> string \<Rightarrow> int \<Rightarrow> tp_client \<Rightarrow> tp_client" where
  "tp_send_command E name timeout c =
     (let c = clear_pending c;
          ok = te_enqueue E (tp_log c);
          c = tpl (Command name timeout) c
      in if \<not> ok then tpl OpDestroy (thirdparty_client_set_update_result name UPD_FAILED c)
         else c\<lparr>pending_op := True\<rparr>)"

definition thirdparty_client_advance_page :: "tp_env \<Rightarrow> tp_client \<Rightarrow> tp_client" where
  "thirdparty_client_advance_page E c =
     tp_send_command E ''AdvancePage'' TP_CMD_TIMEOUT_ADVANCE (c\<lparr>current_page := current_page c + 1\<rparr>)"

definition tp_size_field :: "u32 \<Rightarrow> u32" where
  "tp_size_field raw = drop_bit 8 (raw AND 0xffff) OR push_bit 8 (raw AND 0xff)"

definition tp_count_field :: "u32 \<Rightarrow> u32" where
  "tp_count_field raw = drop_bit 16 (push_bit 24 (drop_bit 16 raw) OR push_bit 16 (drop_bit 24 raw))"

text \<open>The text of the reason names both sizes, which the events leave out.\<close>

definition thirdparty_client_on_flash_size_info :: "tp_env \<Rightarrow> u32 \<Rightarrow> tp_client \<Rightarrow> tp_client" where
  "thirdparty_client_on_flash_size_info E raw c =
     (let c = clear_pending c
      in if tp_state c \<noteq> TP_STATE_SIZE_INFO then
           thirdparty_client_set_update_result ''Flash size info arrived at an unexpected moment'' UPD_FAILED c
         else let c = c\<lparr>current_page := 0, page_size := unat (tp_size_field raw),
                       page_count := unat (tp_count_field raw)\<rparr>
           in if length (file_bytes c) + 4 \<le> page_size c * page_count c then
                thirdparty_client_advance_page E (c\<lparr>tp_state := TP_STATE_PAGE_CRC\<rparr>)
              else thirdparty_client_set_update_result
                     ''Reported flash size is not big enough for the update'' UPD_FAILED c)"

text \<open>The verification image: the image over a filling of \<open>0xff\<close>.\<close>

definition tp_full_image :: "bytes \<Rightarrow> nat \<Rightarrow> bytes" where
  "tp_full_image img len = img @ drop (length img) (replicate len 0xff)"

definition tp_pages_done :: "tp_env \<Rightarrow> u16 \<Rightarrow> tp_client \<Rightarrow> tp_client" where
  "tp_pages_done E page c =
     tp_send_command E ''CRC over full image'' TP_CMD_TIMEOUT_FULL_CRC
       (c\<lparr>tp_state := TP_STATE_IMAGE_CRC,
          expected_crc := tp_crc32 (tp_full_image (file_bytes c) (unat page * page_size c))\<rparr>)"

definition tp_image_crc :: "tp_env \<Rightarrow> u32 \<Rightarrow> tp_client \<Rightarrow> tp_client" where
  "tp_image_crc E crc c =
     (if expected_crc c = crc then
        let c = c\<lparr>tp_state := TP_STATE_UPDATE_REQ\<rparr>;
            c = (if tp_mode c = 0 then c\<lparr>expected_crc := tp_crc32 (file_bytes c)\<rparr> else c)
        in tp_send_command E ''Update request'' TP_CMD_TIMEOUT_ADVANCE c
      else thirdparty_client_set_update_result ''CRC check of the entire image failed'' UPD_FAILED c)"

definition tp_page_crc :: "tp_env \<Rightarrow> u32 \<Rightarrow> tp_client \<Rightarrow> tp_client" where
  "tp_page_crc E crc c =
     (let next = (\<lambda>page c. if page_count c = unat page then tp_pages_done E page c
                           else thirdparty_client_advance_page E c)
      in if expected_crc c = crc then
           let c = tpl (Progress (if page_count c \<noteq> 0
                          then unat (ucast (current_page c) * 100 :: u32) div page_count c else 0)) c;
               c = c\<lparr>retry_count := 0\<rparr>
           in next (current_page c) c
         else let retries = retry_count c; page = current_page c - 1;
                  c = c\<lparr>current_page := page, retry_count := retries + 1\<rparr>
           in if retries + 1 > 2 then
                thirdparty_client_set_update_result ''CRC check of a page failed 3 times'' UPD_FAILED c
              else next page c)"

definition thirdparty_client_on_crc_response :: "tp_env \<Rightarrow> u32 \<Rightarrow> tp_client \<Rightarrow> tp_client" where
  "thirdparty_client_on_crc_response E raw c =
     (let c = clear_pending c; crc = bswap32 raw; st = tp_state c
      in if st = TP_STATE_IMAGE_CRC then tp_image_crc E crc c
         else if st = TP_STATE_TERMINAL then c
         else if st \<noteq> TP_STATE_PAGE_CRC then
           thirdparty_client_set_update_result ''CRC received at an unexpected time'' UPD_FAILED c
         else tp_page_crc E crc c)"

definition thirdparty_client_on_advance_page_done :: "tp_env \<Rightarrow> tp_client \<Rightarrow> bool \<times> tp_client" where
  "thirdparty_client_on_advance_page_done E c =
     (let page = current_page c - 1; c = c\<lparr>current_page := page\<rparr>;
          (sent, c) = tp_send_page E page c;
          (ok, c) = (if sent then (te_query E (tp_log c) = 0, tpl (CrcQuery (bswap16 page)) c) else (False, c))
      in if \<not> ok then
           (False, thirdparty_client_set_update_result
              ''Failed to initiate page erase, page send, or page crc query'' UPD_FAILED c)
         else (True, c\<lparr>current_page := current_page c + 1\<rparr>))"

definition thirdparty_client_on_update_begin :: "tp_client \<Rightarrow> tp_client" where
  "thirdparty_client_on_update_begin c =
     (let c = (if tp_state c \<noteq> 0 \<and> tp_state c \<noteq> 2
               then thirdparty_client_set_update_result ''Multiple updates requested'' UPD_FAILED c else c)
      in tpl EnterSizeMode (c\<lparr>tp_state := TP_STATE_SIZE_INFO\<rparr>))"

definition thirdparty_client_start_transfer :: "tp_env \<Rightarrow> bool \<Rightarrow> tp_client \<Rightarrow> u32 \<times> tp_client" where
  "thirdparty_client_start_transfer E on c =
     (let rc = te_transfer E (tp_log c); c = tpl (SetTransferMode on) c
      in (rc, if rc AND 0xff = 0 then tpl PostStep c else c))"

text \<open>
  The request waits for a result or a deadline; \<open>during\<close> is what the callbacks do to the client while
  it waits, and the deadline has passed when no result was latched.
\<close>

definition thirdparty_client_request_flash_size ::
    "tp_env \<Rightarrow> (tp_client \<Rightarrow> tp_client) \<Rightarrow> tp_client \<Rightarrow> int \<times> tp_client" where
  "thirdparty_client_request_flash_size E during c =
     (let c = tp_send_command E ''Initial flash size request'' TP_CMD_TIMEOUT_SIZE_REQ c;
          c = (if \<not> result_flag c then during c else c);
          c = (if \<not> result_flag c then c\<lparr>result_code := - 1, result_flag := True\<rparr> else c);
          c = clear_pending c
      in (result_code c mod 256, c))"

definition PanasonicUpdateClient_ctor :: "bool \<Rightarrow> tp_client \<Rightarrow> tp_client" where
  "PanasonicUpdateClient_ctor fast c =
     (let c = (if \<not> fast then c\<lparr>step_delay_us := 300000, inter_word_delay_us := 30000,
                  charger_wait_unit := 30000, result_wait_unit := 900000000\<rparr>
               else c\<lparr>step_delay_us := 100000, inter_word_delay_us := 10000,
                  charger_wait_unit := 10000, result_wait_unit := 360000000\<rparr>)
      in c\<lparr>tp_mode := 1\<rparr>)"

definition DynapackUpdateClient_ctor :: "tp_client \<Rightarrow> tp_client" where
  "DynapackUpdateClient_ctor c =
     c\<lparr>step_delay_us := 50000, inter_word_delay_us := 1000, charger_wait_unit := 0, tp_mode := 0\<rparr>"

text \<open>\<open>registered\<close> is what the subscription answers; the left side is the exception.\<close>

datatype tp_error = VmCallFailed string

definition LiteonUpdateClient_ctor :: "int \<Rightarrow> tp_client \<Rightarrow> tp_error + tp_client" where
  "LiteonUpdateClient_ctor registered c =
     (let c = (tpl InitConditions (c\<lparr>charger_type_ok := False\<rparr>))
             \<lparr>tp_mode := 0, step_delay_us := 20000, inter_word_delay_us := 10000, charger_wait_unit := 10000\<rparr>;
          c = tpl (RegisterCallback ''charger_status'') c
      in if registered \<noteq> 0 then Inl (VmCallFailed ''charger_status'')
         else Inr (tpl (WatchFrames 0xffffffa3 0xffffff8a 0x12) c))"

definition liteon_on_charger_status :: "int \<Rightarrow> bool \<Rightarrow> bool \<Rightarrow> tp_client \<Rightarrow> tp_client" where
  "liteon_on_charger_status fid eq2000 eq5000 c =
     c\<lparr>charger_type_ok := (if fid = 2000 then eq2000 else if fid = 5000 then eq5000 else False)\<rparr>"

text \<open>Waiting for the type of the charger; \<open>during\<close> as above, \<open>file\<close> is what the file holds.\<close>

definition thirdparty_client_wait_charger_type_validated ::
    "tp_env \<Rightarrow> (tp_client \<Rightarrow> tp_client) \<Rightarrow> bytes \<Rightarrow> (tp_client \<Rightarrow> tp_client) \<Rightarrow> tp_client \<Rightarrow> int \<times> tp_client" where
  "thirdparty_client_wait_charger_type_validated E waiting file during c =
     (let c = (if \<not> charger_type_ok c then waiting c else c)
      in if \<not> charger_type_ok c then (- 1, tpl ChargerUnvalidated c)
         else let c = (tpl ReadFile c)\<lparr>file_bytes := file\<rparr>;
                  (rc, c) = thirdparty_client_request_flash_size E during (tpl StartTransfer c)
              in (if rc < 128 then rc else rc - 256, c))"

subsection \<open>The CRC tells pages apart\<close>

definition crc32_shift :: "u32 \<Rightarrow> u32" where
  "crc32_shift c = tp_crc_bit False c"

lemma crc32_shift_bits:
  "bit (crc32_shift c) n \<longleftrightarrow> n < 32 \<and> (bit c (Suc n) \<noteq> (bit c 0 \<and> bit (0xedb88320 :: u32) n))"
  unfolding crc32_shift_def tp_crc_bit_def Let_def
  by (auto simp: bit_simps dest: bit_imp_le_length)

lemma crc32_shift_xor: "crc32_shift (a XOR b) = crc32_shift a XOR crc32_shift b"
  by (rule bit_word_eqI) (auto simp: crc32_shift_bits bit_xor_iff)

lemma top_bit: "bit (0xedb88320 :: u32) 31"
  by (simp add: bit_numeral_rec)

lemma inj_crc32_shift: "inj crc32_shift"
proof (rule injI)
  fix a b :: u32
  assume e: "crc32_shift a = crc32_shift b"
  have bits: "bit (crc32_shift a) n = bit (crc32_shift b) n" for n using e by simp
  have no: "\<not> bit (x :: u32) 32" for x by (auto dest: bit_imp_le_length)
  have zero: "bit a 0 = bit b 0"
    using bits [of 31] no by (simp add: crc32_shift_bits top_bit)
  have "bit a n = bit b n" if "n < 32" for n
  proof (cases n)
    case 0
    then show ?thesis using zero by simp
  next
    case (Suc m)
    then show ?thesis using bits [of m] zero that by (auto simp: crc32_shift_bits)
  qed
  then show "a = b" by (intro bit_word_eqI) simp
qed

lemma crc_bit_shift: "tp_crc_bit b c = crc32_shift (c XOR (if b then 1 else 0))"
  unfolding crc32_shift_def tp_crc_bit_def Let_def
  by (rule bit_word_eqI) (auto simp: bit_simps)

lemma shift_pow_xor: "(crc32_shift ^^ n) (a XOR b) = (crc32_shift ^^ n) a XOR (crc32_shift ^^ n) b"
  by (induction n) (simp_all add: crc32_shift_xor)

lemma shift_pow_zero: "(crc32_shift ^^ n) 0 = 0"
proof -
  have "crc32_shift 0 = 0" by (rule bit_word_eqI) (simp add: crc32_shift_bits)
  then show ?thesis by (induction n) simp_all
qed

lemma shift_down: "n \<le> 8 \<Longrightarrow> (crc32_shift ^^ n) (push_bit n 1) = 1"
proof (induction n)
  case (Suc n)
  have "crc32_shift (push_bit (Suc n) 1) = push_bit n 1"
    using Suc.prems by (intro bit_word_eqI) (auto simp: crc32_shift_bits bit_simps)
  then have "(crc32_shift ^^ Suc n) (push_bit (Suc n) 1) = (crc32_shift ^^ n) (push_bit n 1)"
    by (simp only: funpow_Suc_right comp_apply)
  then show ?case using Suc by simp
qed simp

lemma crc_bits_shift:
  "n \<le> 8 \<Longrightarrow> fold (\<lambda>i. tp_crc_bit (bit b i)) [0..<n] crc = (crc32_shift ^^ n) (crc XOR take_bit n (ucast (b :: u8)))"
proof (induction n)
  case (Suc n)
  have "take_bit (Suc n) (ucast b :: u32) = take_bit n (ucast b) XOR (if bit b n then push_bit n 1 else 0)"
    using Suc.prems by (intro bit_word_eqI) (auto simp: bit_simps less_Suc_eq)
  moreover have "crc32_shift ((crc32_shift ^^ n) x XOR (if bit b n then 1 else 0))
      = (crc32_shift ^^ Suc n) (x XOR (if bit b n then push_bit n 1 else 0))" for x
    using shift_down [of n] Suc.prems by (simp add: shift_pow_xor shift_pow_zero)
  ultimately show ?case using Suc by (simp add: crc_bit_shift xor.assoc)
qed simp

lemma crc_byte_shift: "tp_crc_byte b crc = (crc32_shift ^^ 8) (crc XOR ucast b)"
proof -
  have "take_bit 8 (ucast b :: u32) = ucast b"
    by (intro bit_word_eqI) (auto simp: bit_simps dest: bit_imp_le_length)
  then show ?thesis using crc_bits_shift [of 8 b crc] by (simp add: tp_crc_byte_def)
qed

lemma inj_shift_pow: "inj (crc32_shift ^^ n)"
proof (induction n)
  case 0
  show ?case by (rule injI) simp
next
  case (Suc n)
  show ?case unfolding funpow.simps by (rule inj_compose [OF inj_crc32_shift Suc])
qed

lemma crc_byte_eq_iff:
  "tp_crc_byte b x = tp_crc_byte b y \<longleftrightarrow> x = y" "tp_crc_byte b x = tp_crc_byte d x \<longleftrightarrow> b = d"
proof -
  show "tp_crc_byte b x = tp_crc_byte b y \<longleftrightarrow> x = y"
    by (simp add: crc_byte_shift inj_eq [OF inj_shift_pow])
  have "unat (ucast z :: u32) = unat z" for z :: u8
  proof -
    have "unat z < 4294967296" using unat_u8_less [of z] by (rule less_trans) simp
    then show ?thesis unfolding unsigned_ucast_eq by (intro take_bit_nat_eq_self) simp
  qed
  then have "(ucast b :: u32) = ucast d \<longleftrightarrow> b = d" by (metis word_unat_eq_iff)
  then show "tp_crc_byte b x = tp_crc_byte d x \<longleftrightarrow> b = d"
    by (simp add: crc_byte_shift inj_eq [OF inj_shift_pow])
qed

lemma fold_crc_eq_iff: "fold tp_crc_byte xs x = fold tp_crc_byte xs y \<longleftrightarrow> x = y"
  by (induction xs arbitrary: x y) (simp_all add: crc_byte_eq_iff)

lemma not_eq_iff: "NOT x = NOT y \<longleftrightarrow> x = y" for x y :: "'a :: len word"
  by (metis bit.double_compl)

text \<open>
  The CRC-32 of a page or an image changes whenever one of its bytes is changed: a
  device that holds the image with one wrong byte never answers the expected CRC.
\<close>

theorem crc32_detects:
  assumes "i < length xs" "v \<noteq> xs ! i"
  shows "tp_crc32 (xs[i := v]) \<noteq> tp_crc32 xs"
proof -
  have s: "xs = take i xs @ xs ! i # drop (Suc i) xs" using assms(1) by (rule id_take_nth_drop)
  have u: "xs[i := v] = take i xs @ v # drop (Suc i) xs" using assms(1) by (rule upd_conv_take_nth_drop)
  have "fold tp_crc_byte (xs[i := v]) z \<noteq> fold tp_crc_byte xs z" for z
    unfolding u by (subst s) (simp add: fold_crc_eq_iff crc_byte_eq_iff assms(2))
  then show ?thesis using assms(1) by (auto simp: tp_crc32_def not_eq_iff)
qed

theorem crc32_detects_witness:
  "tp_crc32 ([1, 2, 3][1 := 4]) \<noteq> tp_crc32 [1, 2, 3]"
  by (rule crc32_detects) simp_all

subsection \<open>The pages, and the answers that are accepted\<close>

lemma tpl_fields [simp]:
  "file_bytes (tpl e c) = file_bytes c" "page_size (tpl e c) = page_size c" "page_count (tpl e c) = page_count c"
  "current_page (tpl e c) = current_page c" "expected_crc (tpl e c) = expected_crc c"
  "retry_count (tpl e c) = retry_count c" "tp_state (tpl e c) = tp_state c" "result_flag (tpl e c) = result_flag c"
  "result_code (tpl e c) = result_code c" "tp_mode (tpl e c) = tp_mode c" "pending_op (tpl e c) = pending_op c"
  "step_delay_us (tpl e c) = step_delay_us c" "inter_word_delay_us (tpl e c) = inter_word_delay_us c"
  "tp_log (tpl e c) = tp_log c @ [e]"
  by (simp_all add: tpl_def)

text \<open>A device that takes every command.\<close>

definition sends_work :: "tp_env \<Rightarrow> bool" where
  "sends_work E \<longleftrightarrow> (\<forall>h. te_erase E h = 0 \<and> te_word E h = 0 \<and> te_query E h = 0 \<and> te_enqueue E h)"

text \<open>The parts of the client that the sends leave alone.\<close>

definition same_job :: "tp_client \<Rightarrow> tp_client \<Rightarrow> bool" where
  "same_job c d \<longleftrightarrow> file_bytes d = file_bytes c \<and> page_size d = page_size c \<and> page_count d = page_count c \<and>
     current_page d = current_page c \<and> retry_count d = retry_count c \<and> tp_state d = tp_state c \<and>
     result_flag d = result_flag c \<and> result_code d = result_code c"

lemma same_job_refl [simp]: "same_job c c"
  and same_job_tpl [simp]: "same_job c (tpl e d) = same_job c d"
  and same_job_crc [simp]: "same_job c (d\<lparr>expected_crc := x\<rparr>) = same_job c d"
  and same_job_op [simp]: "same_job c (d\<lparr>pending_op := b\<rparr>) = same_job c d"
  by (simp_all add: same_job_def)

lemma same_job_trans: "same_job c d \<Longrightarrow> same_job d e \<Longrightarrow> same_job c e"
  by (simp add: same_job_def)

text \<open>The bytes a log has put on the bus.\<close>

fun bus_bytes :: "tp_event list \<Rightarrow> bytes" where
  "bus_bytes [] = []"
| "bus_bytes (PageWord w # es) = w @ bus_bytes es"
| "bus_bytes (_ # es) = bus_bytes es"

lemma bus_append [simp]: "bus_bytes (xs @ ys) = bus_bytes xs @ bus_bytes ys"
  by (induction xs rule: bus_bytes.induct) simp_all

lemma clear_pending_job [simp]:
  "same_job c (clear_pending c)" "expected_crc (clear_pending c) = expected_crc c"
  "bus_bytes (tp_log (clear_pending c)) = bus_bytes (tp_log c)" "tp_state (clear_pending c) = tp_state c"
  by (simp_all add: clear_pending_def)

lemma command_job:
  assumes "sends_work E"
  shows "same_job c (tp_send_command E name t c)" "expected_crc (tp_send_command E name t c) = expected_crc c"
    "bus_bytes (tp_log (tp_send_command E name t c)) = bus_bytes (tp_log c)"
    "Command name t \<in> set (tp_log (tp_send_command E name t c))"
  using assms same_job_trans [OF clear_pending_job(1)] by (simp_all add: tp_send_command_def sends_work_def Let_def)

lemma words_job:
  assumes "sends_work E"
  shows "same_job c (tp_send_words E buf n c) \<and> expected_crc (tp_send_words E buf n c) = expected_crc c \<and>
    bus_bytes (tp_log (tp_send_words E buf n c)) = bus_bytes (tp_log c) @ take (8 * n) buf"
proof (induction n arbitrary: buf c)
  case (Suc n)
  define d where "d = (if inter_word_delay_us c \<noteq> 0 \<and> inter_word_delay_us c > 0
    then tpl (SleepUs (inter_word_delay_us c)) (tpl (PageWord (take 8 buf)) c) else tpl (PageWord (take 8 buf)) c)"
  have d: "same_job c d" "expected_crc d = expected_crc c" "bus_bytes (tp_log d) = bus_bytes (tp_log c) @ take 8 buf"
    by (simp_all add: d_def)
  have "tp_send_words E buf (Suc n) c = tp_send_words E (drop 8 buf) n d"
    using assms by (simp add: d_def sends_work_def Let_def)
  moreover have "take (8 * Suc n) buf = take 8 buf @ take (8 * n) (drop 8 buf)"
    by (simp add: take_add [symmetric])
  ultimately show ?case using Suc.IH [of d "drop 8 buf"] d same_job_trans [of c d] by simp
qed simp

lemma page_buffer_length [simp]: "length (tp_page_buffer img sz k) = sz"
  by (simp add: tp_page_buffer_def Let_def)

lemma send_page_job:
  assumes "sends_work E" "unat page < page_count c"
  shows "fst (tp_send_page E page c)" "same_job c (snd (tp_send_page E page c))"
    "expected_crc (snd (tp_send_page E page c)) = tp_crc32 (tp_page_buffer (file_bytes c) (page_size c) (unat page))"
    "bus_bytes (tp_log (snd (tp_send_page E page c))) = bus_bytes (tp_log c) @
       take (8 * (page_size c div 8)) (tp_page_buffer (file_bytes c) (page_size c) (unat page))"
proof -
  define d where "d = snd (tp_send_erase_page E (ucast page) c)"
  have d: "same_job c d" "bus_bytes (tp_log d) = bus_bytes (tp_log c)" "fst (tp_send_erase_page E (ucast page) c) = 0"
    using assms(1) by (simp_all add: d_def tp_send_erase_page_def sends_work_def Let_def)
  define buf where "buf = tp_page_buffer (file_bytes c) (page_size c) (unat page)"
  let ?e = "d\<lparr>expected_crc := tp_crc32 buf\<rparr>"
  have r: "tp_send_page E page c = (True, tp_send_words E buf (page_size c div 8) ?e)"
    using assms(2) d by (simp add: tp_send_page_def d_def [symmetric] buf_def same_job_def Let_def split_beta)
  have e: "same_job c ?e" using d(1) by simp
  note w = words_job [OF assms(1), of ?e buf "page_size c div 8"]
  show "fst (tp_send_page E page c)" by (simp add: r)
  show "same_job c (snd (tp_send_page E page c))" using w same_job_trans [OF e] by (simp add: r)
  show "expected_crc (snd (tp_send_page E page c)) = tp_crc32 (tp_page_buffer (file_bytes c) (page_size c) (unat page))"
    using w by (simp add: r buf_def)
  show "bus_bytes (tp_log (snd (tp_send_page E page c))) = bus_bytes (tp_log c) @
       take (8 * (page_size c div 8)) (tp_page_buffer (file_bytes c) (page_size c) (unat page))"
    using w d(2) by (simp add: r buf_def)
qed

lemma advance_done_job:
  assumes "sends_work E" "k < page_count c" "k < 65535" "current_page c = of_nat (Suc k)"
  defines "d \<equiv> snd (thirdparty_client_on_advance_page_done E c)"
  shows "same_job c d" "expected_crc d = tp_crc32 (tp_page_buffer (file_bytes c) (page_size c) k)"
    "bus_bytes (tp_log d) = bus_bytes (tp_log c) @
       take (8 * (page_size c div 8)) (tp_page_buffer (file_bytes c) (page_size c) k)"
proof -
  let ?c = "c\<lparr>current_page := current_page c - 1\<rparr>"
  have p: "current_page c - 1 = of_nat k" "unat (of_nat k :: u16) = k"
    using assms(3,4) by (simp_all add: unat_of_nat)
  note s = send_page_job [OF assms(1), of "of_nat k" ?c, unfolded p(2)]
  have k: "k < page_count ?c" using assms(2) by simp
  obtain e where e: "tp_send_page E (of_nat k) ?c = (True, e)"
    using s(1) [OF k] by (cases "tp_send_page E (of_nat k) ?c") auto
  have d: "d = (tpl (CrcQuery (bswap16 (of_nat k))) e)\<lparr>current_page := current_page e + 1\<rparr>"
    using assms(1) e by (simp add: d_def thirdparty_client_on_advance_page_done_def p(1) sends_work_def Let_def)
  have j: "same_job ?c e" using s(2) [OF k] by (simp add: e)
  show "same_job c d" using j by (simp add: d same_job_def)
  show "expected_crc d = tp_crc32 (tp_page_buffer (file_bytes c) (page_size c) k)"
    using s(3) [OF k] by (simp add: d e)
  show "bus_bytes (tp_log d) = bus_bytes (tp_log c) @
       take (8 * (page_size c div 8)) (tp_page_buffer (file_bytes c) (page_size c) k)"
    using s(4) [OF k] by (simp add: d e)
qed

text \<open>
  One answer of the device.  In the page state it answers the query that the completion of
  \<open>AdvancePage\<close> has sent.
\<close>

definition tp_answer :: "tp_env \<Rightarrow> u32 \<Rightarrow> tp_client \<Rightarrow> tp_client" where
  "tp_answer E raw c =
     thirdparty_client_on_crc_response E raw
       (if tp_state c = TP_STATE_PAGE_CRC then snd (thirdparty_client_on_advance_page_done E c) else c)"

text \<open>What an update is: the CRCs of the pages that are still to come with the failures of the first
  of them, the image, the application, or a failure.\<close>

datatype phase = Pages "u32 list" nat | Imaging | Applied | Failed

fun phase_step :: "u32 \<Rightarrow> u32 \<Rightarrow> phase \<Rightarrow> phase" where
  "phase_step ic a (Pages [] r) = Failed"
| "phase_step ic a (Pages (p # ps) r) =
     (if a = p then (if ps = [] then Imaging else Pages ps 0)
      else if 2 \<le> r then Failed else Pages (p # ps) (Suc r))"
| "phase_step ic a Imaging = (if a = ic then Applied else Failed)"
| "phase_step ic a Applied = Failed"
| "phase_step ic a Failed = Failed"

definition page_crcs :: "bytes \<Rightarrow> nat \<Rightarrow> nat \<Rightarrow> u32 list" where
  "page_crcs img sz n = map (\<lambda>k. tp_crc32 (tp_page_buffer img sz k)) [0..<n]"

definition image_crc :: "bytes \<Rightarrow> nat \<Rightarrow> nat \<Rightarrow> u32" where
  "image_crc img sz n = tp_crc32 (tp_full_image img (n * sz))"

definition in_phase :: "bytes \<Rightarrow> nat \<Rightarrow> nat \<Rightarrow> phase \<Rightarrow> tp_client \<Rightarrow> bool" where
  "in_phase img sz n ph c \<longleftrightarrow> file_bytes c = img \<and> page_size c = sz \<and> page_count c = n \<and> n < 65536 \<and>
     (result_flag c \<longleftrightarrow> ph = Failed) \<and>
     (case ph of
        Pages ps r \<Rightarrow> tp_state c = TP_STATE_PAGE_CRC \<and> r \<le> 2 \<and> retry_count c = of_nat r \<and>
          (\<exists>k < n. ps = drop k (page_crcs img sz n) \<and> current_page c = of_nat (Suc k))
      | Imaging \<Rightarrow> tp_state c = TP_STATE_IMAGE_CRC \<and> expected_crc c = image_crc img sz n
      | Applied \<Rightarrow> tp_state c = TP_STATE_UPDATE_REQ \<and> Command ''Update request'' 10 \<in> set (tp_log c)
      | Failed \<Rightarrow> tp_state c = TP_STATE_TERMINAL \<and> result_code c = UPD_FAILED)"

lemma fail_phase:
  "in_phase img sz n ph c \<Longrightarrow> ph \<noteq> Failed \<Longrightarrow> same_job c d \<Longrightarrow>
     in_phase img sz n Failed (thirdparty_client_set_update_result why UPD_FAILED d)"
  by (cases ph)
    (auto simp: in_phase_def same_job_def thirdparty_client_set_update_result_def tp_states Let_def)

lemma drop_page_crcs:
  "k < n \<Longrightarrow> drop k (page_crcs img sz n) = tp_crc32 (tp_page_buffer img sz k) # drop (Suc k) (page_crcs img sz n)"
  using Cons_nth_drop_Suc [of k "page_crcs img sz n"] by (simp add: page_crcs_def)

lemma answer_page:
  assumes E: "sends_work E" and ph: "in_phase img sz n (Pages ps r) c"
  shows "in_phase img sz n (phase_step (image_crc img sz n) (bswap32 raw) (Pages ps r)) (tp_answer E raw c)"
proof -
  obtain k where k: "k < n" "ps = drop k (page_crcs img sz n)" "current_page c = of_nat (Suc k)"
    and c: "file_bytes c = img" "page_size c = sz" "page_count c = n" "n < 65536" "\<not> result_flag c"
      "tp_state c = TP_STATE_PAGE_CRC" "r \<le> 2" "retry_count c = of_nat r"
    using ph by (auto simp: in_phase_def)
  define p where "p = tp_crc32 (tp_page_buffer img sz k)"
  have ps: "ps = p # drop (Suc k) (page_crcs img sz n)" using k drop_page_crcs by (simp add: p_def)
  have last: "drop (Suc k) (page_crcs img sz n) = [] \<longleftrightarrow> Suc k = n" using k(1) by (auto simp: page_crcs_def)
  define d where "d = snd (thirdparty_client_on_advance_page_done E c)"
  have d: "same_job c d" "expected_crc d = p"
    using advance_done_job [OF E, of k c] k c by (simp_all add: d_def p_def)
  define e where "e = clear_pending d"
  have e: "same_job c e" "expected_crc e = p" "tp_state e = TP_STATE_PAGE_CRC"
    using d same_job_trans [OF d(1) clear_pending_job(1)] c by (simp_all add: e_def same_job_def)
  have a: "tp_answer E raw c = tp_page_crc E (bswap32 raw) e"
    using c(6) d(1) e(3)
    by (simp add: tp_answer_def thirdparty_client_on_crc_response_def d_def [symmetric] e_def [symmetric]
        tp_states Let_def)
  have u: "unat (of_nat (Suc k) :: u16) = Suc k" "unat (of_nat k :: u16) = k"
    unfolding unat_of_nat using k(1) c(4) by simp_all
  show ?thesis
  proof (cases "bswap32 raw = p")
    case True
    define f where "f = (tpl (Progress (if page_count e \<noteq> 0
        then unat (ucast (current_page e) * 100 :: u32) div page_count e else 0)) e)\<lparr>retry_count := 0\<rparr>"
    have f: "file_bytes f = img" "page_size f = sz" "page_count f = n" "\<not> result_flag f"
      "tp_state f = TP_STATE_PAGE_CRC" "retry_count f = 0" "current_page f = of_nat (Suc k)"
      using e c k by (simp_all add: f_def same_job_def)
    have r: "tp_page_crc E (bswap32 raw) e =
        (if Suc k = n then tp_pages_done E (of_nat (Suc k)) f else thirdparty_client_advance_page E f)"
      using True e(2) f u by (simp add: tp_page_crc_def f_def [symmetric] Let_def) (simp add: f_def)
    show ?thesis
    proof (cases "Suc k = n")
      case True': True
      let ?g = "f\<lparr>tp_state := TP_STATE_IMAGE_CRC, expected_crc := image_crc img sz n\<rparr>"
      have "tp_answer E raw c = tp_send_command E ''CRC over full image'' TP_CMD_TIMEOUT_FULL_CRC ?g"
        using True' u f by (simp add: a r tp_pages_done_def image_crc_def)
      then show ?thesis using command_job [OF E, where c = ?g and name = "''CRC over full image''" and t = TP_CMD_TIMEOUT_FULL_CRC] f c True True' last
        by (simp add: in_phase_def ps same_job_def)
    next
      case False
      let ?g = "f\<lparr>current_page := current_page f + 1\<rparr>"
      have "tp_answer E raw c = tp_send_command E ''AdvancePage'' TP_CMD_TIMEOUT_ADVANCE ?g"
        using False by (simp add: a r thirdparty_client_advance_page_def)
      moreover have "current_page ?g = of_nat (Suc (Suc k))" by (simp add: f)
      ultimately show ?thesis
        using command_job [OF E, where c = ?g and name = "''AdvancePage''" and t = TP_CMD_TIMEOUT_ADVANCE] f c True False last k(1)
        by (auto simp: in_phase_def ps same_job_def intro!: exI [of _ "Suc k"])
    qed
  next
    case False
    define f where "f = e\<lparr>current_page := current_page e - 1, retry_count := retry_count e + 1\<rparr>"
    have f: "file_bytes f = img" "page_size f = sz" "page_count f = n" "\<not> result_flag f"
      "tp_state f = TP_STATE_PAGE_CRC" "retry_count f = of_nat (Suc r)" "current_page f = of_nat k"
      using e c k by (simp_all add: f_def same_job_def)
    have more: "retry_count e + 1 > 2 \<longleftrightarrow> 2 \<le> r"
      using e(1) c(7,8) by (auto simp: same_job_def word_less_nat_alt unat_of_nat unat_word_ariths)
    have r: "tp_page_crc E (bswap32 raw) e =
        (if 2 \<le> r then thirdparty_client_set_update_result ''CRC check of a page failed 3 times'' UPD_FAILED f
         else thirdparty_client_advance_page E f)"
      using False e(2) more f u(2) k(1)
      by (simp add: tp_page_crc_def f_def [symmetric] Let_def) (simp add: f_def)
    show ?thesis
    proof (cases "2 \<le> r")
      case True
      then show ?thesis using f c(4) False
        by (simp add: a r in_phase_def ps thirdparty_client_set_update_result_def tp_states Let_def)
    next
      case less: False
      let ?g = "f\<lparr>current_page := current_page f + 1\<rparr>"
      have "tp_answer E raw c = tp_send_command E ''AdvancePage'' TP_CMD_TIMEOUT_ADVANCE ?g"
        using less by (simp add: a r thirdparty_client_advance_page_def)
      then show ?thesis
        using command_job [OF E, where c = ?g and name = "''AdvancePage''" and t = TP_CMD_TIMEOUT_ADVANCE] f c less False k(1)
        by (auto simp: in_phase_def ps same_job_def drop_page_crcs p_def intro!: exI [of _ k])
    qed
  qed
qed

lemma answer_rest:
  assumes E: "sends_work E" and ph: "in_phase img sz n ph c" "\<And>ps r. ph \<noteq> Pages ps r"
  shows "in_phase img sz n (phase_step (image_crc img sz n) (bswap32 raw) ph) (tp_answer E raw c)"
proof -
  define e where "e = clear_pending c"
  have e: "same_job c e" "expected_crc e = expected_crc c" "tp_state e = tp_state c" by (simp_all add: e_def)
  have st: "tp_state c \<noteq> TP_STATE_PAGE_CRC"
    using ph by (cases ph) (auto simp: in_phase_def tp_states)
  have a: "tp_answer E raw c =
     (if tp_state c = TP_STATE_IMAGE_CRC then tp_image_crc E (bswap32 raw) e
      else if tp_state c = TP_STATE_TERMINAL then e
      else thirdparty_client_set_update_result ''CRC received at an unexpected time'' UPD_FAILED e)"
    using st e by (simp add: tp_answer_def thirdparty_client_on_crc_response_def e_def [symmetric] Let_def)
  show ?thesis
  proof (cases ph)
    case (Pages ps r)
    then show ?thesis using ph(2) by simp
  next
    case Imaging
    note fail = fail_phase [OF ph(1), unfolded Imaging, simplified, OF e(1)]
    have i: "tp_state c = TP_STATE_IMAGE_CRC" "expected_crc c = image_crc img sz n"
      using ph(1) Imaging by (simp_all add: in_phase_def)
    define f where "f = (if tp_mode e = 0 then e\<lparr>tp_state := TP_STATE_UPDATE_REQ, expected_crc := tp_crc32 (file_bytes e)\<rparr>
        else e\<lparr>tp_state := TP_STATE_UPDATE_REQ\<rparr>)"
    have r: "tp_image_crc E (bswap32 raw) e =
        (if bswap32 raw = image_crc img sz n then tp_send_command E ''Update request'' TP_CMD_TIMEOUT_ADVANCE f
         else thirdparty_client_set_update_result ''CRC check of the entire image failed'' UPD_FAILED e)"
      using e(2) i by (simp add: tp_image_crc_def f_def Let_def)
    have f: "file_bytes f = img" "page_size f = sz" "page_count f = n" "\<not> result_flag f" "tp_state f = TP_STATE_UPDATE_REQ"
      using e ph(1) Imaging by (simp_all add: f_def in_phase_def same_job_def)
    show ?thesis
      using command_job [OF E, where c = f and name = "''Update request''" and t = TP_CMD_TIMEOUT_ADVANCE] f ph(1) fail
      by (simp add: a i(1) r Imaging in_phase_def same_job_def TP_CMD_TIMEOUT_ADVANCE_def)
  next
    case Applied
    then show ?thesis using ph(1) fail_phase [OF ph(1) _ e(1)]
      by (simp add: a in_phase_def tp_states)
  next
    case Failed
    then show ?thesis using ph(1) e(1) by (simp add: a in_phase_def same_job_def tp_states)
  qed
qed

lemma answer_phase:
  assumes "sends_work E" "in_phase img sz n ph c"
  shows "in_phase img sz n (phase_step (image_crc img sz n) (bswap32 raw) ph) (tp_answer E raw c)"
proof (cases "\<exists>ps r. ph = Pages ps r")
  case True
  then obtain ps r where p: "ph = Pages ps r" by blast
  show ?thesis unfolding p by (rule answer_page [OF assms(1) assms(2) [unfolded p]])
next
  case False
  then show ?thesis by (intro answer_rest [OF assms]) blast
qed

lemma answers_phase:
  assumes "sends_work E"
  shows "in_phase img sz n ph c \<Longrightarrow>
    in_phase img sz n (fold (phase_step (image_crc img sz n)) (map bswap32 raws) ph) (fold (tp_answer E) raws c)"
proof (induction raws arbitrary: ph c)
  case (Cons raw raws)
  then show ?case using answer_phase [OF assms Cons.prems, of raw] by simp
qed simp

lemma state_applied:
  "in_phase img sz n ph c \<Longrightarrow> tp_state c = TP_STATE_UPDATE_REQ \<longleftrightarrow> ph = Applied"
  by (cases ph) (auto simp: in_phase_def tp_states)

lemma fold_failed: "fold (phase_step ic) as Failed = Failed"
  by (induction as) simp_all

lemma one_page:
  "r \<le> 2 \<Longrightarrow> fold (phase_step ic) as (Pages (p # ps) r) = Applied \<longleftrightarrow>
     (\<exists>w as'. p \<notin> set w \<and> length w + r \<le> 2 \<and> as = w @ p # as' \<and>
        fold (phase_step ic) as' (if ps = [] then Imaging else Pages ps 0) = Applied)"
proof (induction as arbitrary: r)
  case (Cons a as)
  show ?case
  proof (cases "a = p")
    case True
    then show ?thesis using Cons.prems by (auto simp: Cons_eq_append_conv intro: exI [of _ "[]"])
  next
    case False
    show ?thesis
    proof (cases "2 \<le> r")
      case True
      then show ?thesis using False Cons.prems by (auto simp: fold_failed Cons_eq_append_conv)
    next
      case less: False
      have "(\<exists>w as'. p \<notin> set w \<and> length w + r \<le> 2 \<and> a # as = w @ p # as' \<and> P as') \<longleftrightarrow>
          (\<exists>w as'. p \<notin> set w \<and> length w + Suc r \<le> 2 \<and> as = w @ p # as' \<and> P as')" (is "?L \<longleftrightarrow> ?R") for P
      proof
        assume ?L
        then show ?R using False by (fastforce simp: Cons_eq_append_conv)
      next
        assume ?R
        then obtain w as' where w: "p \<notin> set w" "length w + Suc r \<le> 2" "as = w @ p # as'" "P as'" by blast
        then show ?L using False by (intro exI [of _ "a # w"] exI [of _ as']) auto
      qed
      then show ?thesis using less False Cons.IH [of "Suc r"] by simp
    qed
  qed
qed simp

lemma image_phase: "fold (phase_step ic) as Imaging = Applied \<longleftrightarrow> as = [ic]"
proof (cases as)
  case (Cons a as')
  then show ?thesis by (cases as') (auto simp: fold_failed)
qed simp

definition answers_of :: "u32 list list \<Rightarrow> u32 list \<Rightarrow> u32 \<Rightarrow> u32 list" where
  "answers_of ws ps ic = concat (map2 (\<lambda>w p. w @ [p]) ws ps) @ [ic]"

lemma all_pages:
  "ps \<noteq> [] \<Longrightarrow> fold (phase_step ic) as (Pages ps 0) = Applied \<longleftrightarrow>
     (\<exists>ws. list_all2 (\<lambda>w p. p \<notin> set w \<and> length w \<le> 2) ws ps \<and> as = answers_of ws ps ic)"
proof (induction ps arbitrary: as)
  case (Cons p ps)
  have next': "fold (phase_step ic) as' (if ps = [] then Imaging else Pages ps 0) = Applied \<longleftrightarrow>
      (\<exists>ws. list_all2 (\<lambda>w p. p \<notin> set w \<and> length w \<le> 2) ws ps \<and> as' = answers_of ws ps ic)" for as'
    using Cons.IH [of as'] image_phase [of ic as'] by (auto simp: answers_of_def)
  let ?ok = "list_all2 (\<lambda>w p. p \<notin> set w \<and> length w \<le> 2)"
  have split: "answers_of (w # ws) (p # ps) ic = w @ p # answers_of ws ps ic" for w ws
    by (simp add: answers_of_def)
  have "fold (phase_step ic) as (Pages (p # ps) 0) = Applied \<longleftrightarrow>
      (\<exists>w as'. p \<notin> set w \<and> length w \<le> 2 \<and> as = w @ p # as' \<and>
         (\<exists>ws. ?ok ws ps \<and> as' = answers_of ws ps ic))"
    by (subst one_page) (simp_all add: next')
  also have "\<dots> \<longleftrightarrow> (\<exists>w ws. p \<notin> set w \<and> length w \<le> 2 \<and> ?ok ws ps \<and> as = answers_of (w # ws) (p # ps) ic)"
    unfolding split by blast
  also have "\<dots> \<longleftrightarrow> (\<exists>ws. ?ok ws (p # ps) \<and> as = answers_of ws (p # ps) ic)"
    unfolding list_all2_Cons2 by blast
  finally show ?case .
qed simp

lemma count_field_less: "unat (tp_count_field raw) < 65536"
proof -
  have "unat (drop_bit 16 (v :: u32)) < 65536" for v
    unfolding unat_drop_bit_eq drop_bit_nat_def using unat_u32_less [of v]
    by (intro less_mult_imp_div_less) simp
  then show ?thesis unfolding tp_count_field_def .
qed

lemma size_info_phase:
  assumes "sends_work E" "tp_state c = TP_STATE_SIZE_INFO" "\<not> result_flag c" "retry_count c = 0"
    and "sz = unat (tp_size_field raw)" "n = unat (tp_count_field raw)" "length (file_bytes c) + 4 \<le> sz * n"
  shows "in_phase (file_bytes c) sz n (Pages (page_crcs (file_bytes c) sz n) 0)
    (thirdparty_client_on_flash_size_info E raw c)"
proof -
  define e where "e = clear_pending c"
  have e: "same_job c e" by (simp add: e_def)
  let ?f = "e\<lparr>page_size := sz, page_count := n, tp_state := TP_STATE_PAGE_CRC, current_page := 1\<rparr>"
  have r: "thirdparty_client_on_flash_size_info E raw c =
      tp_send_command E ''AdvancePage'' TP_CMD_TIMEOUT_ADVANCE ?f"
    using assms(2,5-7) e
    by (simp add: thirdparty_client_on_flash_size_info_def e_def [symmetric] same_job_def
        thirdparty_client_advance_page_def Let_def)
  have "0 < n" using assms(7) by (cases n) simp_all
  then show ?thesis
    using command_job [OF assms(1), where c = ?f and name = "''AdvancePage''" and t = TP_CMD_TIMEOUT_ADVANCE]
      e assms(3,4,6) count_field_less [of raw]
    by (auto simp: r in_phase_def same_job_def intro!: exI [of _ 0])
qed

text \<open>The update requests of a log.\<close>

fun requests :: "tp_event list \<Rightarrow> nat" where
  "requests [] = 0"
| "requests (Command name _ # es) = (if name = ''Update request'' then 1 else 0) + requests es"
| "requests (_ # es) = requests es"

lemma requests_append [simp]: "requests (xs @ ys) = requests xs + requests ys"
  by (induction xs rule: requests.induct) simp_all

lemma clear_requests [simp]: "requests (tp_log (clear_pending c)) = requests (tp_log c)"
  by (simp add: clear_pending_def)

lemma result_requests [simp]:
  "requests (tp_log (thirdparty_client_set_update_result why code c)) = requests (tp_log c)"
  by (simp add: thirdparty_client_set_update_result_def Let_def)

lemma command_requests:
  "requests (tp_log (tp_send_command E name t c)) =
     requests (tp_log c) + (if name = ''Update request'' then 1 else 0)"
  by (simp add: tp_send_command_def Let_def)

lemma words_requests [simp]: "requests (tp_log (tp_send_words E buf n c)) = requests (tp_log c)"
  by (induction n arbitrary: buf c) (simp_all add: Let_def)

lemma page_requests [simp]: "requests (tp_log (snd (tp_send_page E page c))) = requests (tp_log c)"
  by (simp add: tp_send_page_def tp_send_erase_page_def Let_def)

lemma advance_requests [simp]:
  "requests (tp_log (snd (thirdparty_client_on_advance_page_done E c))) = requests (tp_log c)"
proof -
  let ?c = "c\<lparr>current_page := current_page c - 1\<rparr>"
  obtain sent d where d: "tp_send_page E (current_page c - 1) ?c = (sent, d)" by fastforce
  then have "requests (tp_log d) = requests (tp_log c)"
    using page_requests [of E "current_page c - 1" ?c] by simp
  then show ?thesis by (simp add: thirdparty_client_on_advance_page_done_def d Let_def)
qed

lemma advance_state:
  "tp_state (snd (thirdparty_client_on_advance_page_done E c)) \<in> {tp_state c, TP_STATE_TERMINAL}"
proof -
  let ?c = "c\<lparr>current_page := current_page c - 1\<rparr>"
  have words: "tp_state (tp_send_words E buf n d) = tp_state d" for buf n d
    by (induction n arbitrary: buf d) (simp_all add: Let_def)
  obtain sent d where d: "tp_send_page E (current_page c - 1) ?c = (sent, d)" by fastforce
  have "tp_state (snd (tp_send_page E (current_page c - 1) ?c)) = tp_state c"
    by (simp add: tp_send_page_def tp_send_erase_page_def words Let_def)
  then have "tp_state d = tp_state c" by (simp add: d)
  then show ?thesis
    by (simp add: thirdparty_client_on_advance_page_done_def d thirdparty_client_set_update_result_def Let_def)
qed

lemma page_crc_requests [simp]: "requests (tp_log (tp_page_crc E crc c)) = requests (tp_log c)"
  by (simp add: tp_page_crc_def tp_pages_done_def thirdparty_client_advance_page_def command_requests Let_def)

lemma answer_requests:
  assumes "in_phase img sz n ph c"
  shows "requests (tp_log (tp_answer E raw c)) = requests (tp_log c) +
    (if phase_step (image_crc img sz n) (bswap32 raw) ph = Applied then 1 else 0)"
proof (cases ph)
  case (Pages ps r)
  then have st: "tp_state c = TP_STATE_PAGE_CRC" using assms by (simp add: in_phase_def)
  moreover have "phase_step (image_crc img sz n) (bswap32 raw) (Pages ps r) \<noteq> Applied" by (cases ps) simp_all
  moreover have "tp_state (snd (thirdparty_client_on_advance_page_done E c)) \<noteq> TP_STATE_IMAGE_CRC"
    using advance_state [of E c] by (auto simp: st tp_states)
  ultimately show ?thesis
    by (simp add: Pages tp_answer_def thirdparty_client_on_crc_response_def Let_def)
next
  case Imaging
  then have "tp_state c = TP_STATE_IMAGE_CRC" "expected_crc c = image_crc img sz n"
    using assms by (simp_all add: in_phase_def)
  then show ?thesis
    by (simp add: Imaging tp_answer_def thirdparty_client_on_crc_response_def tp_image_crc_def command_requests
        tp_states Let_def)
qed (use assms in \<open>simp_all add: in_phase_def tp_answer_def thirdparty_client_on_crc_response_def tp_states Let_def\<close>)

text \<open>Over any answers, a request is sent when a beginning of them ends in the application.\<close>

lemma fold_applied: "fold (phase_step ic) (a # as) Applied \<noteq> Applied"
  by (simp add: fold_failed)

lemma answers_requests:
  assumes "sends_work E"
  shows "in_phase img sz n ph c \<Longrightarrow>
    requests (tp_log (fold (tp_answer E) raws c)) = requests (tp_log c) +
      (if \<exists>as as'. map bswap32 raws = as @ as' \<and> as \<noteq> [] \<and> fold (phase_step (image_crc img sz n)) as ph = Applied
       then 1 else 0)"
proof (induction raws arbitrary: ph c)
  case (Cons raw raws)
  let ?step = "phase_step (image_crc img sz n)" and ?a = "bswap32 raw"
  let ?E = "\<lambda>l ph. \<exists>as as'. l = as @ as' \<and> as \<noteq> [] \<and> fold ?step as ph = Applied"
  have rest: "requests (tp_log (fold (tp_answer E) raws (tp_answer E raw c))) =
      requests (tp_log (tp_answer E raw c)) + (if ?E (map bswap32 raws) (?step ?a ph) then 1 else 0)"
    by (rule Cons.IH [OF answer_phase [OF assms Cons.prems]])
  have one: "?E (map bswap32 (raw # raws)) ph \<longleftrightarrow> ?step ?a ph = Applied \<or> ?E (map bswap32 raws) (?step ?a ph)"
  proof
    assume "?E (map bswap32 (raw # raws)) ph"
    then obtain as as' where as: "map bswap32 (raw # raws) = as @ as'" "as \<noteq> []" "fold ?step as ph = Applied" by blast
    then obtain bs where "as = ?a # bs" "map bswap32 raws = bs @ as'" by (cases as) auto
    then show "?step ?a ph = Applied \<or> ?E (map bswap32 raws) (?step ?a ph)" using as(3) by (cases "bs = []") auto
  next
    assume "?step ?a ph = Applied \<or> ?E (map bswap32 raws) (?step ?a ph)"
    then show "?E (map bswap32 (raw # raws)) ph"
    proof
      assume "?step ?a ph = Applied"
      then show ?thesis by (intro exI [of _ "[?a]"] exI [of _ "map bswap32 raws"]) simp
    next
      assume "?E (map bswap32 raws) (?step ?a ph)"
      then obtain as as' where "map bswap32 raws = as @ as'" "fold ?step as (?step ?a ph) = Applied" by blast
      then show ?thesis by (intro exI [of _ "?a # as"] exI [of _ as']) simp
    qed
  qed
  have "\<not> (?step ?a ph = Applied \<and> ?E (map bswap32 raws) (?step ?a ph))"
    using fold_applied by (metis list.exhaust)
  then show ?case using rest answer_requests [OF Cons.prems, of E raw] by (simp only: fold_simps one) auto
qed simp

text \<open>The answers of a device that ends up with the image: for each page, at most two wrong CRCs and then
  the one of its slice, and at last the CRC of the padded image.\<close>

definition right_answers :: "bytes \<Rightarrow> nat \<Rightarrow> nat \<Rightarrow> u32 list \<Rightarrow> bool" where
  "right_answers img sz n as \<longleftrightarrow>
     (\<exists>ws. list_all2 (\<lambda>w p. p \<notin> set w \<and> length w \<le> 2) ws (page_crcs img sz n) \<and>
        as = answers_of ws (page_crcs img sz n) (image_crc img sz n))"

text \<open>
  C33.  After the device has reported its geometry, the client sends the command
  \<open>Update request\<close> once when the answers begin with, page for page, at most two wrong CRCs and then the
  CRC of that page's slice of the image, followed by the CRC of the whole image padded to the flash, and
  it does not send it at all after any other answers; whatever comes after these answers, no second
  request is sent, but the client is left in the state of the request only when nothing does.
\<close>

theorem update_request_exact:
  assumes "sends_work E" "tp_state c = TP_STATE_SIZE_INFO" "\<not> result_flag c" "retry_count c = 0"
    and "sz = unat (tp_size_field raw)" "n = unat (tp_count_field raw)" "length (file_bytes c) + 4 \<le> sz * n"
    and "c' = fold (tp_answer E) raws (thirdparty_client_on_flash_size_info E raw c)"
  shows "requests (tp_log c') = requests (tp_log c) +
      (if \<exists>as as'. map bswap32 raws = as @ as' \<and> right_answers (file_bytes c) sz n as then 1 else 0) \<and>
    (tp_state c' = TP_STATE_UPDATE_REQ \<longleftrightarrow> right_answers (file_bytes c) sz n (map bswap32 raws))"
proof -
  let ?ps = "page_crcs (file_bytes c) sz n" and ?ic = "image_crc (file_bytes c) sz n"
  note ph = size_info_phase [OF assms(1-7)]
  have "?ps \<noteq> []" using assms(7) by (cases n) (simp_all add: page_crcs_def)
  then have right: "fold (phase_step ?ic) as (Pages ?ps 0) = Applied \<longleftrightarrow> right_answers (file_bytes c) sz n as" for as
    unfolding right_answers_def by (rule all_pages)
  have empty: "\<not> right_answers (file_bytes c) sz n []" by (simp add: right_answers_def answers_of_def)
  have start: "(\<exists>as as'. l = as @ as' \<and> as \<noteq> [] \<and> fold (phase_step ?ic) as (Pages ?ps 0) = Applied) =
      (\<exists>as as'. l = as @ as' \<and> right_answers (file_bytes c) sz n as)" for l
    unfolding right using empty by metis
  have "requests (tp_log (thirdparty_client_on_flash_size_info E raw c)) = requests (tp_log c)"
    by (simp add: thirdparty_client_on_flash_size_info_def thirdparty_client_advance_page_def command_requests Let_def)
  then show ?thesis
    using answers_requests [OF assms(1) ph, of raws] state_applied [OF answers_phase [OF assms(1) ph], of raws]
    unfolding assms(8) start unfolding right by simp
qed

definition tp_ready :: tp_env where
  "tp_ready = \<lparr>te_erase = (\<lambda>h. 0), te_word = (\<lambda>h. 0), te_query = (\<lambda>h. 0), te_enqueue = (\<lambda>h. True),
     te_transfer = (\<lambda>h. 0)\<rparr>"

definition tp_client_0 :: tp_client where
  "tp_client_0 = \<lparr>step_delay_us = 0, inter_word_delay_us = 0, charger_wait_unit = 0, result_wait_unit = 0,
     tp_mode = 1, file_bytes = [1, 2, 3, 4], pending_op = False, result_code = 0, result_flag = False,
     tp_state = TP_STATE_SIZE_INFO, reason = None, page_size = 0, page_count = 0, current_page = 0,
     expected_crc = 0, retry_count = 0, charger_type_ok = True, tp_log = []\<rparr>"

lemma bswap32_bits:
  "bit (bswap32 x) i \<longleftrightarrow> i < 32 \<and> bit x (if i < 8 then i + 24 else if i < 16 then i + 8 else if i < 24 then i - 8 else i - 24)"
proof -
  have masks: "(0xff :: u32) = mask 8" "(0xff00 :: u32) = push_bit 8 (mask 8)"
    "(0xff0000 :: u32) = push_bit 16 (mask 8)" "(0xff000000 :: u32) = push_bit 24 (mask 8)"
    by (simp_all add: mask_eq_decr_exp push_bit_eq_mult)
  have add: "24 + i = i + 24" "8 + i = i + 8" by simp_all
  show ?thesis unfolding bswap32_def masks
    by (auto simp: bit_simps add dest: bit_imp_le_length)
qed

lemma bswap32_twice: "bswap32 (bswap32 x) = x"
  by (rule bit_word_eqI) (auto simp: bswap32_bits)

text \<open>A device of one page of eight bytes, the four of the image and the filling, that answers right.\<close>

theorem update_request_exact_witness:
  "let as = map bswap32 (answers_of [[]] (page_crcs [1, 2, 3, 4] 8 1) (image_crc [1, 2, 3, 4] 8 1));
       c = fold (tp_answer tp_ready) as (thirdparty_client_on_flash_size_info tp_ready 0x01000800 tp_client_0)
   in requests (tp_log c) = 1 \<and> tp_state c = TP_STATE_UPDATE_REQ"
proof -
  let ?as = "answers_of [[]] (page_crcs [1, 2, 3, 4] 8 1) (image_crc [1, 2, 3, 4] 8 1)"
  have "sends_work tp_ready" by (simp add: sends_work_def tp_ready_def)
  moreover have "unat (tp_size_field 0x01000800) = 8" "unat (tp_count_field 0x01000800) = 1"
    by (simp_all add: tp_size_field_def tp_count_field_def)
  moreover have "right_answers [1, 2, 3, 4] 8 1 ?as"
    unfolding right_answers_def by (intro exI [of _ "[[]]"] conjI refl) (simp add: page_crcs_def)
  moreover have "map bswap32 (map bswap32 ?as) = ?as" by (simp add: bswap32_twice comp_def)
  ultimately show ?thesis
    using update_request_exact [where E = tp_ready and c = tp_client_0 and sz = 8 and raw = "0x01000800" and n = 1
        and raws = "map bswap32 ?as", OF _ _ _ _ _ _ _ refl]
    by (auto simp: tp_client_0_def Let_def)
qed

text \<open>
  The bytes on the bus of an update whose pages are all answered right: the image and its filling, when
  the page size is a multiple of the eight bytes of a frame.
\<close>

lemma page_buffer_slice:
  assumes "k < n" "length img \<le> n * sz"
  shows "tp_page_buffer img sz k = take sz (drop (k * sz) (tp_full_image img (n * sz)))"
proof (rule nth_equalityI)
  have "k * sz + sz \<le> n * sz" using assms(1) by (metis Suc_leI add.commute mult_Suc mult_le_mono1)
  then show len: "length (tp_page_buffer img sz k) = length (take sz (drop (k * sz) (tp_full_image img (n * sz))))"
    using assms(2) by (simp add: tp_full_image_def)
  fix i assume "i < length (tp_page_buffer img sz k)"
  then show "tp_page_buffer img sz k ! i = take sz (drop (k * sz) (tp_full_image img (n * sz))) ! i"
    using \<open>k * sz + sz \<le> n * sz\<close> assms(2)
    by (auto simp: tp_page_buffer_def tp_full_image_def nth_append Let_def)
qed

text \<open>No callback of an answer puts a word on the bus.\<close>

lemma result_bus [simp]:
  "bus_bytes (tp_log (thirdparty_client_set_update_result why code c)) = bus_bytes (tp_log c)"
  by (simp add: thirdparty_client_set_update_result_def Let_def)

lemma command_bus [simp]: "bus_bytes (tp_log (tp_send_command E name t c)) = bus_bytes (tp_log c)"
  by (simp add: tp_send_command_def Let_def)

lemma response_bus: "bus_bytes (tp_log (thirdparty_client_on_crc_response E raw c)) = bus_bytes (tp_log c)"
  by (simp add: thirdparty_client_on_crc_response_def tp_image_crc_def tp_page_crc_def tp_pages_done_def
      thirdparty_client_advance_page_def Let_def)

lemma size_info_bus: "bus_bytes (tp_log (thirdparty_client_on_flash_size_info E raw c)) = bus_bytes (tp_log c)"
  by (simp add: thirdparty_client_on_flash_size_info_def thirdparty_client_advance_page_def Let_def)

lemma answer_bus:
  assumes "sends_work E" "in_phase img sz n (Pages (drop k (page_crcs img sz n)) r) c" "k < n" "8 dvd sz"
  shows "bus_bytes (tp_log (tp_answer E raw c)) = bus_bytes (tp_log c) @ tp_page_buffer img sz k"
proof -
  obtain l where l: "l < n" "drop k (page_crcs img sz n) = drop l (page_crcs img sz n)" "current_page c = of_nat (Suc l)"
    and c: "file_bytes c = img" "page_size c = sz" "page_count c = n" "n < 65536" "tp_state c = TP_STATE_PAGE_CRC"
    using assms(2) by (auto simp: in_phase_def)
  have "k = l" using arg_cong [OF l(2), of length] l(1) assms(3) by (simp add: page_crcs_def)
  then show ?thesis
    using advance_done_job(3) [OF assms(1), of k c] l c assms(3,4) by (simp add: tp_answer_def response_bus)
qed

lemma pages_carried:
  assumes "sends_work E" "in_phase img sz n (Pages (page_crcs img sz n) 0) c" "8 dvd sz" "j \<le> n"
    and "map bswap32 raws = take j (page_crcs img sz n)"
  shows "bus_bytes (tp_log (fold (tp_answer E) raws c)) =
      bus_bytes (tp_log c) @ concat (map (tp_page_buffer img sz) [0..<j]) \<and>
    in_phase img sz n (if j < n then Pages (drop j (page_crcs img sz n)) 0 else if j = 0 then Pages [] 0 else Imaging)
      (fold (tp_answer E) raws c)"
  using assms(4,5)
proof (induction j arbitrary: raws)
  case 0
  then show ?case using assms(2) by (auto simp: page_crcs_def)
next
  case (Suc j)
  let ?ps = "page_crcs img sz n"
  have j: "j < n" using Suc.prems(1) by simp
  have "take (Suc j) ?ps = take j ?ps @ [tp_crc32 (tp_page_buffer img sz j)]"
    using j by (simp add: page_crcs_def take_Suc_conv_app_nth)
  then obtain rs raw where rs: "raws = rs @ [raw]" "map bswap32 rs = take j ?ps"
      "bswap32 raw = tp_crc32 (tp_page_buffer img sz j)"
    using Suc.prems(2) by (auto simp: map_eq_append_conv)
  let ?d = "fold (tp_answer E) rs c"
  have d: "bus_bytes (tp_log ?d) = bus_bytes (tp_log c) @ concat (map (tp_page_buffer img sz) [0..<j])"
      "in_phase img sz n (Pages (drop j ?ps) 0) ?d"
    using Suc.IH [OF _ rs(2)] j by simp_all
  have "drop (Suc j) ?ps = [] \<longleftrightarrow> Suc j = n" using j by (auto simp: page_crcs_def)
  then have "in_phase img sz n (if Suc j < n then Pages (drop (Suc j) ?ps) 0 else Imaging) (tp_answer E raw ?d)"
    using answer_page [OF assms(1) d(2), of raw] j rs(3) by (auto simp: drop_page_crcs)
  then show ?case using answer_bus [OF assms(1) d(2) j assms(3), of raw] d(1) by (simp add: rs(1) split: if_splits)
qed

lemma slices: "concat (map (\<lambda>k. take sz (drop (k * sz) xs)) [0..<n]) = take (n * sz) xs"
proof (induction n)
  case (Suc n)
  then show ?case by (simp add: take_add add.commute [of sz])
qed simp

lemma pages_concat:
  assumes "length img \<le> n * sz"
  shows "concat (map (tp_page_buffer img sz) [0..<n]) = tp_full_image img (n * sz)"
proof -
  have "map (tp_page_buffer img sz) [0..<n] = map (\<lambda>k. take sz (drop (k * sz) (tp_full_image img (n * sz)))) [0..<n]"
    by (rule map_cong) (simp_all only: page_buffer_slice [OF _ assms] set_upt atLeastLessThan_iff)
  then have "concat (map (tp_page_buffer img sz) [0..<n]) = take (n * sz) (tp_full_image img (n * sz))"
    by (simp only: slices)
  also have "\<dots> = tp_full_image img (n * sz)" using assms by (simp add: tp_full_image_def)
  finally show ?thesis .
qed

text \<open>
  C34.  When the device answers every page right, the words sent between its report of
  the geometry and the update request are, put together, the image followed by its filling with
  \<open>0xff\<close> up to the size of the flash, provided the page size is a multiple of the eight bytes of a frame.
\<close>

theorem bus_carries_image:
  assumes "sends_work E" "tp_state c = TP_STATE_SIZE_INFO" "\<not> result_flag c" "retry_count c = 0"
    and "sz = unat (tp_size_field raw)" "n = unat (tp_count_field raw)" "length (file_bytes c) + 4 \<le> sz * n"
    and "8 dvd sz" "map bswap32 raws = page_crcs (file_bytes c) sz n"
  shows "bus_bytes (tp_log (fold (tp_answer E) raws (thirdparty_client_on_flash_size_info E raw c))) =
    bus_bytes (tp_log c) @ file_bytes c @ replicate (n * sz - length (file_bytes c)) 0xff"
proof -
  let ?img = "file_bytes c"
  have "take n (page_crcs ?img sz n) = page_crcs ?img sz n" by (simp add: page_crcs_def)
  note carried = pages_carried [OF assms(1) size_info_phase [OF assms(1-7)] assms(8) order_refl, of raws]
  moreover have "length ?img \<le> n * sz" using assms(7) by (simp add: mult.commute)
  ultimately show ?thesis using assms(9) \<open>take n _ = _\<close>
    by (simp add: size_info_bus pages_concat) (simp add: tp_full_image_def)
qed

theorem bus_carries_image_witness:
  "bus_bytes (tp_log (fold (tp_answer tp_ready) (map bswap32 (page_crcs [1, 2, 3, 4] 8 1))
     (thirdparty_client_on_flash_size_info tp_ready 0x01000800 tp_client_0))) = [1, 2, 3, 4, 0xff, 0xff, 0xff, 0xff]"
proof -
  have "sends_work tp_ready" by (simp add: sends_work_def tp_ready_def)
  moreover have "unat (tp_size_field 0x01000800) = 8" "unat (tp_count_field 0x01000800) = 1"
    by (simp_all add: tp_size_field_def tp_count_field_def)
  moreover have "replicate 4 x = [x, x, x, x]" for x :: u8 by (simp add: numeral_eq_Suc)
  ultimately show ?thesis
    by (subst bus_carries_image [where sz = 8 and n = 1])
      (simp_all add: tp_client_0_def bswap32_twice comp_def)
qed

end
