(* ===== verification/Lightweight.thy ===== *)
theory Lightweight
  imports Prelude
begin

text \<open>
  Model of \<open>main/update/src/lightweight_update_client.c\<close>: the page dialogue for the boards on the bus.
  The actions on the object dictionary, the checksum routine and the clock are not in the repository:
  what they answer is an environment of functions of the events so far.  The C structure has two sets of
  fields for the geometry and the image, which its comments call aliases; they are separate here as they
  are there.
\<close>

datatype lw_event =
    ActionDestroyed | WriteActionDestroyed
  | Dispatch string
  | LogSucceeded | LogFailed string
  | NotifyAll
  | ReadFile string
  | Reboot u8 bool
  | Unresolved string
  | Register string
  | InterfaceGone | CondGone | OpsGone

record lw_env =
  le_dispatched :: "lw_event list \<Rightarrow> bool"
  le_reboot :: "lw_event list \<Rightarrow> bool"
  le_crc :: "bytes \<Rightarrow> u32"

record lw_client =
  node_id :: u8
  timeout_ms :: u32
  update_path :: string
  some_flag :: u8
  pending_action :: bool
  update_failed :: u8
  result_latched :: bool
  lw_state :: int
  result_msg :: "string option"
  page_width :: nat
  page_count :: nat
  page_index :: u16
  page_remaining :: u16
  expected_crc :: u32
  page_retry :: u32
  image :: bytes
  page_width_full :: "64 word"
  total_pages :: "64 word"
  page_buf :: bytes
  writecb_action :: bool
  lw_log :: "lw_event list"

definition lwl :: "lw_event \<Rightarrow> lw_client \<Rightarrow> lw_client" where
  "lwl e c = c\<lparr>lw_log := lw_log c @ [e]\<rparr>"

definition lightweight_client_set_update_result :: "string \<Rightarrow> u8 \<Rightarrow> lw_client \<Rightarrow> lw_client" where
  "lightweight_client_set_update_result why failed c =
     (if lw_state c = 6 then c
      else let c = c\<lparr>result_msg := Some why, lw_state := 6\<rparr>;
               c = (if \<not> result_latched c then
                      (lwl (if failed = 0 then LogSucceeded else LogFailed why) c)
                        \<lparr>update_failed := failed, result_latched := True\<rparr>
                    else c)
           in lwl NotifyAll c)"

definition drop_action :: "lw_client \<Rightarrow> lw_client" where
  "drop_action c = (if pending_action c then (lwl ActionDestroyed c)\<lparr>pending_action := False\<rparr> else c)"

definition lw_start_action :: "lw_env \<Rightarrow> string \<Rightarrow> lw_client \<Rightarrow> lw_client" where
  "lw_start_action E name c =
     (let c = drop_action c;
          ok = le_dispatched E (lw_log c);
          c = lwl (Dispatch name) c
      in if \<not> ok then lwl ActionDestroyed (lightweight_client_set_update_result name 0xff c)
         else c\<lparr>pending_action := True\<rparr>)"

definition lw_advance_page :: "lw_env \<Rightarrow> lw_client \<Rightarrow> lw_client" where
  "lw_advance_page E c = lw_start_action E ''AdvancePage'' (c\<lparr>page_index := page_index c + 1\<rparr>)"

text \<open>The text of the reason names both sizes, which the events leave out.\<close>

definition lightweight_flash_size_cb :: "lw_env \<Rightarrow> u16 \<Rightarrow> u16 \<Rightarrow> lw_client \<Rightarrow> lw_client" where
  "lightweight_flash_size_cb E width count c =
     (let c = drop_action c
      in if lw_state c \<noteq> 1 then
           lightweight_client_set_update_result ''Flash size info arrived at an unexpected moment'' 0xff c
         else let c = c\<lparr>page_index := 0, page_width := unat width, page_count := unat count\<rparr>
           in if length (image c) + 4 \<le> unat width * unat count then lw_advance_page E (c\<lparr>lw_state := 2\<rparr>)
              else lightweight_client_set_update_result
                     ''Reported flash size is not big enough for the update'' 0xff c)"

text \<open>The copy of the staged bytes into a shorter buffer is \<open>None\<close>.\<close>

definition lw_full_image :: "64 word \<Rightarrow> bytes \<Rightarrow> bytes option" where
  "lw_full_image n buf =
     (if length buf \<le> unat n then Some (buf @ replicate (unat n - length buf) 0xff) else None)"

definition lw_pages_done :: "lw_env \<Rightarrow> u16 \<Rightarrow> lw_client \<Rightarrow> lw_client option" where
  "lw_pages_done E remaining c =
     (case lw_full_image (ucast remaining * page_width_full c) (page_buf c) of
        None \<Rightarrow> None
      | Some img \<Rightarrow> Some (lw_start_action E ''CRC over full image'' (c\<lparr>lw_state := 3, expected_crc := le_crc E img\<rparr>)))"

definition lw_page_crc :: "lw_env \<Rightarrow> u32 \<Rightarrow> lw_client \<Rightarrow> lw_client option" where
  "lw_page_crc E crc c =
     (let next = (\<lambda>remaining c. if total_pages c = ucast remaining then lw_pages_done E remaining c
                                else Some (lw_advance_page E c));
          remaining = page_remaining c
      in if crc = expected_crc c then next remaining (c\<lparr>page_retry := 0\<rparr>)
         else let r = page_retry c; remaining = remaining - 1;
                  c = c\<lparr>page_remaining := remaining, page_retry := r + 1\<rparr>
              in if r + 1 > 2 then
                   Some (lightweight_client_set_update_result ''CRC check of a page failed 3 times'' 0xff c)
                 else next remaining c)"

definition lw_image_crc :: "lw_env \<Rightarrow> u32 \<Rightarrow> lw_client \<Rightarrow> lw_client" where
  "lw_image_crc E crc c =
     (if crc = expected_crc c then
        lw_start_action E ''Update request'' (c\<lparr>lw_state := 4, expected_crc := le_crc E (page_buf c)\<rparr>)
      else lightweight_client_set_update_result ''CRC check of the entire image failed'' 0xff c)"

definition lightweight_crc_cb :: "lw_env \<Rightarrow> u32 \<Rightarrow> lw_client \<Rightarrow> lw_client option" where
  "lightweight_crc_cb E crc c =
     (let c = (if writecb_action c then (lwl WriteActionDestroyed c)\<lparr>writecb_action := False\<rparr> else c)
      in if lw_state c = 3 then Some (lw_image_crc E crc c)
         else if lw_state c = 6 then Some c
         else if lw_state c = 2 then lw_page_crc E crc c
         else Some (lightweight_client_set_update_result ''CRC received at an unexpected time'' 0xff c))"

definition lightweight_update_req_cb :: "lw_env \<Rightarrow> u8 \<Rightarrow> lw_client \<Rightarrow> lw_client" where
  "lightweight_update_req_cb E reply c =
     (let c = drop_action c
      in if lw_state c = 4 then
           if reply = 0 then
             let ok = le_reboot E (lw_log c); c = lwl (Reboot (node_id c) ok) c
             in if ok then lightweight_client_set_update_result ''success'' 0 c
                else lightweight_client_set_update_result ''Failed to request reboot'' 0xff c
           else lightweight_client_set_update_result ''Device refused to apply update'' 0xff c
         else lightweight_client_set_update_result
                ''Response to update request arrived at an unexpected time'' 0xff c)"

text \<open>
  \<open>file\<close> is what the file holds and \<open>during\<close> is what the callbacks do to the client while the function
  waits; the deadline has passed when no result was latched.
\<close>

definition LightweightUpdateClient_PerformUpdate ::
    "lw_env \<Rightarrow> bytes \<Rightarrow> (lw_client \<Rightarrow> lw_client option) \<Rightarrow> lw_client \<Rightarrow> lw_client option" where
  "LightweightUpdateClient_PerformUpdate E file during c =
     (let c = (lwl (ReadFile (update_path c)) c)\<lparr>image := file\<rparr>;
          c = lw_start_action E ''Initial flash size request'' c
      in case (if \<not> result_latched c then during c else Some c) of
           None \<Rightarrow> None
         | Some c \<Rightarrow> Some (drop_action (if \<not> result_latched c then c\<lparr>update_failed := 0xff\<rparr> else c)))"

datatype lw_error = InvalidArgument | VmCallError string

text \<open>Registers the operations up to the first that fails.\<close>

fun register_ops :: "(string \<Rightarrow> bool) \<Rightarrow> string list \<Rightarrow> lw_client \<Rightarrow> lw_error + lw_client" where
  "register_ops fails [] c = Inr c"
| "register_ops fails (x # xs) c = (if fails x then Inl (VmCallError x) else register_ops fails xs (lwl (Register x) c))"

definition LightweightUpdateClient_ctor ::
    "(string \<Rightarrow> u8 option) \<Rightarrow> (string \<Rightarrow> bool) \<Rightarrow> u32 \<Rightarrow> string \<Rightarrow> u8 \<Rightarrow> lw_client \<Rightarrow> lw_error + lw_client" where
  "LightweightUpdateClient_ctor resolve fails timeout name flags c =
     (let c = c\<lparr>timeout_ms := timeout, update_path := name, some_flag := flags, result_latched := False,
               lw_state := 0, result_msg := None\<rparr>
      in case resolve name of
           None \<Rightarrow> Inl InvalidArgument
         | Some node \<Rightarrow>
             register_ops fails [''flash'', ''ErasePage'', ''write'', ''crc'', ''update'', ''reboot'']
               (c\<lparr>node_id := node\<rparr>))"

definition LightweightUpdateClient_dtor :: "lw_client \<Rightarrow> lw_client" where
  "LightweightUpdateClient_dtor c =
     (let c = lwl CondGone (lwl InterfaceGone c);
          c = (if pending_action c then lwl ActionDestroyed c else c)
      in lwl OpsGone c)"

subsection \<open>The verdict\<close>

datatype lw_call = FlashSize u16 u16 | Crc u32 | UpdateReply u8

fun lw_on_call :: "lw_env \<Rightarrow> lw_call \<Rightarrow> lw_client \<Rightarrow> lw_client option" where
  "lw_on_call E (FlashSize w n) c = Some (lightweight_flash_size_cb E w n c)"
| "lw_on_call E (Crc x) c = lightweight_crc_cb E x c"
| "lw_on_call E (UpdateReply r) c = Some (lightweight_update_req_cb E r c)"

fun lw_calls :: "lw_env \<Rightarrow> lw_call list \<Rightarrow> lw_client \<Rightarrow> lw_client option" where
  "lw_calls E [] c = Some c"
| "lw_calls E (x # xs) c = (case lw_on_call E x c of None \<Rightarrow> None | Some c \<Rightarrow> lw_calls E xs c)"

text \<open>The client says success exactly when it has seen its reboot accepted; then it is at rest.\<close>

definition rebooted :: "lw_client \<Rightarrow> bool" where
  "rebooted c \<longleftrightarrow> (\<exists>n. Reboot n True \<in> set (lw_log c))"

definition verdict_ok :: "lw_client \<Rightarrow> bool" where
  "verdict_ok c \<longleftrightarrow> (result_latched c \<longleftrightarrow> lw_state c = 6) \<and>
     (rebooted c \<longleftrightarrow> result_latched c \<and> update_failed c = 0)"

lemma lwl_fields [simp]:
  "lw_state (lwl e c) = lw_state c" "result_latched (lwl e c) = result_latched c"
  "update_failed (lwl e c) = update_failed c" "pending_action (lwl e c) = pending_action c"
  "lw_log (lwl e c) = lw_log c @ [e]" "image (lwl e c) = image c" "node_id (lwl e c) = node_id c"
  "expected_crc (lwl e c) = expected_crc c" "page_buf (lwl e c) = page_buf c"
  by (simp_all add: lwl_def)

lemma rebooted_lwl [simp]: "rebooted (lwl e c) \<longleftrightarrow> rebooted c \<or> (\<exists>n. e = Reboot n True)"
  by (auto simp: rebooted_def)

lemma drop_action_fields [simp]:
  "lw_state (drop_action c) = lw_state c" "result_latched (drop_action c) = result_latched c"
  "update_failed (drop_action c) = update_failed c" "rebooted (drop_action c) = rebooted c"
  "image (drop_action c) = image c"
  by (simp_all add: drop_action_def rebooted_def)

lemma rebooted_upd [simp]:
  "rebooted (c\<lparr>pending_action := b\<rparr>) = rebooted c" "rebooted (c\<lparr>page_index := i\<rparr>) = rebooted c"
  "rebooted (c\<lparr>page_width := w\<rparr>) = rebooted c" "rebooted (c\<lparr>page_count := k\<rparr>) = rebooted c"
  "rebooted (c\<lparr>expected_crc := x\<rparr>) = rebooted c" "rebooted (c\<lparr>page_retry := r\<rparr>) = rebooted c"
  "rebooted (c\<lparr>page_remaining := m\<rparr>) = rebooted c" "rebooted (c\<lparr>writecb_action := b\<rparr>) = rebooted c"
  "rebooted (c\<lparr>lw_state := s\<rparr>) = rebooted c" "rebooted (drop_action c) = rebooted c"
  by (simp_all add: rebooted_def drop_action_def)

lemma set_result_verdict:
  "verdict_ok c \<Longrightarrow> failed \<noteq> 0 \<Longrightarrow> verdict_ok (lightweight_client_set_update_result why failed c)"
  by (simp add: lightweight_client_set_update_result_def verdict_ok_def rebooted_def Let_def)

lemma start_verdict: "verdict_ok c \<Longrightarrow> verdict_ok (lw_start_action E name c)"
proof -
  assume c: "verdict_ok c"
  define d where "d = lwl (Dispatch name) (drop_action c)"
  have d: "verdict_ok d" using c by (simp add: d_def verdict_ok_def)
  have "verdict_ok (lwl ActionDestroyed e) = verdict_ok e" "verdict_ok (e\<lparr>pending_action := b\<rparr>) = verdict_ok e" for e b
    by (simp_all add: verdict_ok_def rebooted_def)
  then show ?thesis using d set_result_verdict [OF d, of "0xff" name]
    by (simp add: lw_start_action_def d_def [symmetric] Let_def)
qed

lemma verdict_upd:
  "verdict_ok c \<Longrightarrow> lw_state c \<noteq> 6 \<Longrightarrow> s \<noteq> 6 \<Longrightarrow> verdict_ok (c\<lparr>lw_state := s\<rparr>)"
  "verdict_ok (c\<lparr>page_index := i\<rparr>) = verdict_ok c" "verdict_ok (c\<lparr>page_width := w\<rparr>) = verdict_ok c"
  "verdict_ok (c\<lparr>page_count := k\<rparr>) = verdict_ok c" "verdict_ok (c\<lparr>expected_crc := x\<rparr>) = verdict_ok c"
  "verdict_ok (c\<lparr>page_retry := r\<rparr>) = verdict_ok c" "verdict_ok (c\<lparr>page_remaining := m\<rparr>) = verdict_ok c"
  "verdict_ok (c\<lparr>writecb_action := b\<rparr>) = verdict_ok c" "verdict_ok (drop_action c) = verdict_ok c"
  by (auto simp: verdict_ok_def)

lemma verdict_lwl [simp]: "(\<forall>n. e \<noteq> Reboot n True) \<Longrightarrow> verdict_ok (lwl e c) = verdict_ok c"
  by (auto simp: verdict_ok_def)

lemmas verdict_steps = set_result_verdict start_verdict verdict_upd

lemma advance_verdict: "verdict_ok c \<Longrightarrow> verdict_ok (lw_advance_page E c)"
  by (simp add: lw_advance_page_def verdict_steps)

lemma flash_size_verdict: "verdict_ok c \<Longrightarrow> verdict_ok (lightweight_flash_size_cb E w n c)"
  by (simp add: lightweight_flash_size_cb_def verdict_steps advance_verdict Let_def)

lemma pages_done_verdict:
  "verdict_ok c \<Longrightarrow> lw_state c \<noteq> 6 \<Longrightarrow> lw_pages_done E m c = Some d \<Longrightarrow> verdict_ok d"
  by (auto simp: lw_pages_done_def verdict_steps split: option.splits)

lemma page_crc_verdict:
  "verdict_ok c \<Longrightarrow> lw_state c \<noteq> 6 \<Longrightarrow> lw_page_crc E x c = Some d \<Longrightarrow> verdict_ok d"
  by (auto simp: lw_page_crc_def verdict_steps advance_verdict Let_def split: if_splits
      intro: pages_done_verdict [rotated 2])

lemma crc_verdict: "verdict_ok c \<Longrightarrow> lightweight_crc_cb E x c = Some d \<Longrightarrow> verdict_ok d"
  by (auto simp: lightweight_crc_cb_def lw_image_crc_def verdict_steps Let_def split: if_splits
      intro: page_crc_verdict [rotated 2])

lemma update_req_verdict: "verdict_ok c \<Longrightarrow> verdict_ok (lightweight_update_req_cb E r c)"
proof -
  assume c: "verdict_ok c"
  have ok: "verdict_ok (lightweight_client_set_update_result why 0 (lwl (Reboot n True) d))"
    if "verdict_ok d" "lw_state d = 4" for why n d
    using that by (auto simp: lightweight_client_set_update_result_def verdict_ok_def rebooted_def Let_def)
  show ?thesis using c
    by (simp add: lightweight_update_req_cb_def verdict_steps ok Let_def)
qed

lemma call_verdict: "verdict_ok c \<Longrightarrow> lw_on_call E x c = Some d \<Longrightarrow> verdict_ok d"
  by (cases x) (auto simp: flash_size_verdict update_req_verdict dest: crc_verdict)

lemma calls_verdict: "verdict_ok c \<Longrightarrow> lw_calls E xs c = Some d \<Longrightarrow> verdict_ok d"
  by (induction xs arbitrary: c) (auto dest: call_verdict split: option.splits)

text \<open>
  C36.  Over any sequence of answers, in whatever order they come, the client
  reports success exactly when it asked the board to reboot and was told yes.
\<close>

theorem lightweight_verdict:
  assumes "lw_state c \<noteq> 6" "\<not> result_latched c" "lw_log c = []"
    and "lw_calls E xs c = Some d"
  shows "result_latched d \<and> update_failed d = 0 \<longleftrightarrow> (\<exists>n. Reboot n True \<in> set (lw_log d))"
proof -
  have "verdict_ok c" using assms(1-3) by (simp add: verdict_ok_def rebooted_def)
  with calls_verdict [OF _ assms(4)] show ?thesis by (auto simp: verdict_ok_def rebooted_def)
qed

definition lw_works :: lw_env where
  "lw_works = \<lparr>le_dispatched = (\<lambda>h. True), le_reboot = (\<lambda>h. True), le_crc = (\<lambda>b. 0)\<rparr>"

definition lw_client_0 :: lw_client where
  "lw_client_0 = \<lparr>node_id = 0xc1, timeout_ms = 1000, update_path = [], some_flag = 0, pending_action = False,
     update_failed = 0, result_latched = False, lw_state = 4, result_msg = None, page_width = 0, page_count = 0,
     page_index = 0, page_remaining = 0, expected_crc = 0, page_retry = 0, image = [], page_width_full = 0,
     total_pages = 0, page_buf = [], writecb_action = False, lw_log = []\<rparr>"

theorem lightweight_verdict_witness:
  "result_latched (the (lw_calls lw_works [UpdateReply 0, Crc 5] lw_client_0))"
proof -
  let ?d = "the (lw_calls lw_works [UpdateReply 0, Crc 5] lw_client_0)"
  note defs = lw_client_0_def lw_works_def lightweight_update_req_cb_def lightweight_crc_cb_def drop_action_def
    lightweight_client_set_update_result_def lwl_def
  have r: "lw_calls lw_works [UpdateReply 0, Crc 5] lw_client_0 = Some ?d" by (simp add: defs Let_def)
  have "Reboot 0xc1 True \<in> set (lw_log ?d)" by (simp add: defs Let_def)
  then show ?thesis
    using lightweight_verdict [OF _ _ _ r] by (force simp: lw_client_0_def)
qed

subsection \<open>The start that is missing\<close>

definition lw_unstarted :: "lw_client \<Rightarrow> bool" where
  "lw_unstarted c \<longleftrightarrow> lw_state c \<in> {0, 6} \<and> (result_latched c \<longleftrightarrow> lw_state c = 6) \<and>
     (result_latched c \<longrightarrow> update_failed c = 0xff)"

lemma unstarted_simps [simp]:
  "lw_unstarted (lwl e c) = lw_unstarted c" "lw_unstarted (drop_action c) = lw_unstarted c"
  "lw_unstarted (c\<lparr>pending_action := b\<rparr>) = lw_unstarted c" "lw_unstarted (c\<lparr>writecb_action := b\<rparr>) = lw_unstarted c"
  "lw_unstarted (c\<lparr>image := i\<rparr>) = lw_unstarted c" "lw_unstarted (c\<lparr>node_id := n\<rparr>) = lw_unstarted c"
  by (simp_all add: lw_unstarted_def)

lemma unstarted_fails [simp]: "lw_unstarted c \<Longrightarrow> lw_unstarted (lightweight_client_set_update_result why 0xff c)"
  by (auto simp: lw_unstarted_def lightweight_client_set_update_result_def Let_def)

lemma unstarted_start: "lw_unstarted c \<Longrightarrow> lw_unstarted (lw_start_action E name c)"
  by (simp add: lw_start_action_def Let_def)

lemma unstarted_states: "lw_unstarted c \<Longrightarrow> lw_state c \<notin> {1, 2, 3, 4}"
  by (auto simp: lw_unstarted_def)

lemma unstarted_call: "lw_unstarted c \<Longrightarrow> \<exists>d. lw_on_call E x c = Some d \<and> lw_unstarted d"
  using unstarted_states [of c]
  by (cases x) (simp_all add: lightweight_flash_size_cb_def lightweight_crc_cb_def lightweight_update_req_cb_def Let_def)

lemma unstarted_calls: "lw_unstarted c \<Longrightarrow> \<exists>d. lw_calls E xs c = Some d \<and> lw_unstarted d"
proof (induction xs arbitrary: c)
  case (Cons x xs)
  from unstarted_call [OF Cons.prems, of E x] Cons.IH show ?case by auto
qed simp

lemma register_unstarted: "register_ops fails xs c = Inr d \<Longrightarrow> lw_unstarted c \<Longrightarrow> lw_unstarted d"
  by (induction xs arbitrary: c) (auto split: if_splits)

text \<open>
  C35.  No function sets the state 1 that the answer to the flash-size
  request needs: an update with a constructed client returns, whatever the board answers while it waits,
  with the failure code.
\<close>

theorem lightweight_never_succeeds:
  assumes "LightweightUpdateClient_ctor resolve fails timeout name flags c0 = Inr c"
  shows "\<exists>d. LightweightUpdateClient_PerformUpdate E file (lw_calls E xs) c = Some d \<and> update_failed d = 0xff"
proof -
  define ctor where "ctor n = c0\<lparr>timeout_ms := timeout, update_path := name, some_flag := flags,
    result_latched := False, lw_state := 0, result_msg := None, node_id := n\<rparr>" for n
  obtain n where r: "register_ops fails [''flash'', ''ErasePage'', ''write'', ''crc'', ''update'', ''reboot''] (ctor n) = Inr c"
    using assms unfolding LightweightUpdateClient_ctor_def Let_def ctor_def
    by (cases "resolve name") (simp_all only: option.case sum.distinct)
  have "lw_unstarted c" by (rule register_unstarted [OF r]) (simp add: lw_unstarted_def ctor_def)
  define e where "e = lw_start_action E ''Initial flash size request'' ((lwl (ReadFile (update_path c)) c)\<lparr>image := file\<rparr>)"
  have e: "lw_unstarted e" unfolding e_def by (rule unstarted_start) (simp add: \<open>lw_unstarted c\<close>)
  obtain d where d: "(if \<not> result_latched e then lw_calls E xs e else Some e) = Some d" "lw_unstarted d"
    using unstarted_calls [OF e, of E xs] e by (cases "result_latched e") auto
  show ?thesis using d
    by (auto simp: LightweightUpdateClient_PerformUpdate_def e_def [symmetric] lw_unstarted_def Let_def)
qed

theorem lightweight_never_succeeds_witness:
  "\<exists>d. LightweightUpdateClient_PerformUpdate lw_works [1, 2] (lw_calls lw_works [FlashSize 8 1, Crc 0, Crc 0, UpdateReply 0])
     (lw_client_0\<lparr>lw_state := 0, node_id := 0xc1, timeout_ms := 1000, update_path := ''ELOCK'',
        lw_log := map Register [''flash'', ''ErasePage'', ''write'', ''crc'', ''update'', ''reboot'']\<rparr>) = Some d
     \<and> update_failed d = 0xff"
proof -
  let ?c = "lw_client_0\<lparr>lw_state := 0, node_id := 0xc1, timeout_ms := 1000, update_path := ''ELOCK'',
        lw_log := map Register [''flash'', ''ErasePage'', ''write'', ''crc'', ''update'', ''reboot'']\<rparr>"
  have "LightweightUpdateClient_ctor (\<lambda>_. Some 0xc1) (\<lambda>_. False) 1000 ''ELOCK'' 0 lw_client_0 = Inr ?c"
    by (simp add: LightweightUpdateClient_ctor_def lw_client_0_def lwl_def)
  then show ?thesis by (rule lightweight_never_succeeds)
qed

end
