(* ===== verification/Manifest.thy ===== *)
theory Manifest
  imports Prelude
begin

text \<open>
  Model of \<open>main/update/src/manifest.c\<close>: the rows of the manifest and the packed version word.

  The string helpers of the framework (splitting, bounded copy and append, integer parsing that aborts
  on bad input, reading a line) are not in the sources: they are the fields of an environment.  The
  array of fields keeps whatever it held where the split wrote nothing.
\<close>

record mf_env =
  mf_split :: "string \<Rightarrow> string list"
  mf_junk :: "nat \<Rightarrow> string"
  mf_stoi :: "string \<Rightarrow> int option"
  mf_copy :: "nat \<Rightarrow> string \<Rightarrow> string"
  mf_append :: "nat \<Rightarrow> string \<Rightarrow> string \<Rightarrow> string"

record manifest_entry =
  image_path :: string
  device_name :: string
  version :: u32
  allowed_to_skip :: bool
  skip_rollback :: bool

definition MANIFEST_MAX_FIELDS :: nat where "MANIFEST_MAX_FIELDS = 16"

definition manifest_variant_code :: "string \<Rightarrow> int" where
  "manifest_variant_code variant =
     (if variant = ''dev'' then 1
      else if variant = ''rc'' then 2
      else if variant = ''main'' then 3
      else if variant \<noteq> [] then 0
      else 3)"

definition manifest_pack_version :: "int \<Rightarrow> int \<Rightarrow> int \<Rightarrow> int \<Rightarrow> u32" where
  "manifest_pack_version major minor patch variant =
     push_bit 13 (word_of_int (variant AND 0xff))
     OR (word_of_int patch AND 0x1fff)
     OR push_bit 16 (word_of_int (minor AND 0xff))
     OR push_bit 24 (word_of_int major)"

definition stub_entry :: manifest_entry where
  "stub_entry = \<lparr>image_path = [], device_name = [], version = 0, allowed_to_skip = False, skip_rollback = False\<rparr>"

definition dash_to_underscore :: "string \<Rightarrow> string" where
  "dash_to_underscore s = map (\<lambda>c. if c = CHR ''-'' then CHR ''_'' else c) s"

text \<open>\<open>fields[i]\<close> after the split of a row.\<close>

definition row_field :: "mf_env \<Rightarrow> string \<Rightarrow> nat \<Rightarrow> string" where
  "row_field E row i = (let fs = take MANIFEST_MAX_FIELDS (mf_split E row)
     in if i < length fs then fs ! i else mf_junk E i)"

text \<open>The result is \<open>None\<close> when a number does not parse: the framework aborts.\<close>

definition manifest_parse_row :: "mf_env \<Rightarrow> string \<Rightarrow> string \<Rightarrow> (bool \<times> manifest_entry) option" where
  "manifest_parse_row E dir row =
     (let nfields = length (take MANIFEST_MAX_FIELDS (mf_split E row));
          field = row_field E row
      in if nfields = 0 \<or> nfields < 7 then Some (False, stub_entry)
         else
           let path = mf_copy E 128 dir;
               path = mf_append E 128 path ''/'';
               path = mf_append E 128 path (field 0);
               name = dash_to_underscore (mf_copy E 64 (field 1))
           in case mf_stoi E (field 4) of None \<Rightarrow> None | Some major \<Rightarrow>
              (case mf_stoi E (field 5) of None \<Rightarrow> None | Some minor \<Rightarrow>
              (case mf_stoi E (field 6) of None \<Rightarrow> None | Some patch \<Rightarrow>
                 let variant = manifest_variant_code (field 7);
                     e = \<lparr>image_path = path, device_name = name,
                          version = manifest_pack_version major minor patch variant,
                          allowed_to_skip = False, skip_rollback = False\<rparr>
                 in if 9 \<le> nfields then
                      (case mf_stoi E (field 8) of None \<Rightarrow> None | Some v \<Rightarrow>
                         let e = e\<lparr>allowed_to_skip := (v = 1)\<rparr>
                         in if 10 \<le> nfields then
                              (case mf_stoi E (field 9) of None \<Rightarrow> None | Some w \<Rightarrow>
                                 Some (True, e\<lparr>skip_rollback := (w \<noteq> 0)\<rparr>))
                            else Some (True, e))
                    else Some (True, e))))"

text \<open>
  The parser takes the lines that reading the file gives, the header first, and returns the list of
  entries it has grown.
\<close>

fun parse_lines :: "mf_env \<Rightarrow> string \<Rightarrow> string list \<Rightarrow> manifest_entry list \<Rightarrow> manifest_entry list option" where
  "parse_lines E dir [] es = Some es"
| "parse_lines E dir (line # ls) es =
     (case manifest_parse_row E dir line of
        None \<Rightarrow> None
      | Some (_, e) \<Rightarrow> parse_lines E dir ls (es @ [e]))"

definition manifest_parse :: "mf_env \<Rightarrow> string \<Rightarrow> string list \<Rightarrow> manifest_entry list \<Rightarrow> manifest_entry list option" where
  "manifest_parse E dir lines es = parse_lines E dir (drop 1 lines) es"

subsection \<open>The version word\<close>

definition version_value :: "int \<Rightarrow> int \<Rightarrow> int \<Rightarrow> int \<Rightarrow> int" where
  "version_value major minor patch variant = ((major * 256 + minor) * 8 + variant) * 8192 + patch"

lemma mask_id: "0 \<le> (x :: int) \<Longrightarrow> x < 2 ^ n \<Longrightarrow> x AND mask n = x"
  by (simp add: take_bit_eq_mask [symmetric] take_bit_int_eq_self)

lemma or_disjoint_int:
  fixes a b :: int
  assumes "0 \<le> b" "b < 2 ^ n"
  shows "push_bit n a OR b = a * 2 ^ n + b"
proof -
  have "push_bit n a AND b = 0"
  proof (rule bit_eqI)
    fix i
    have "take_bit n b = b" using assms by (simp add: take_bit_int_eq_self)
    then have "n \<le> i \<Longrightarrow> \<not> bit b i" by (metis bit_take_bit_iff not_le)
    then show "bit (push_bit n a AND b) i = bit 0 i" by (auto simp: bit_simps)
  qed
  then show ?thesis by (simp add: disjunctive_add_eq_or [symmetric] push_bit_eq_mult)
qed

definition version_fields :: "int \<Rightarrow> int \<Rightarrow> int \<Rightarrow> int \<Rightarrow> bool" where
  "version_fields major minor patch variant \<longleftrightarrow>
     0 \<le> major \<and> major < 256 \<and> 0 \<le> minor \<and> minor < 256 \<and> 0 \<le> patch \<and> patch < 8192 \<and>
     0 \<le> variant \<and> variant < 8"

lemma pack_value:
  assumes "version_fields major minor patch variant"
  shows "uint (manifest_pack_version major minor patch variant) = version_value major minor patch variant"
proof -
  note r = assms [unfolded version_fields_def]
  have m: "minor AND 0xff = minor" "variant AND 0xff = variant" "patch AND 0x1fff = patch"
    using r mask_id [of minor 8] mask_id [of variant 8] mask_id [of patch 13]
    by (simp_all add: mask_eq_exp_minus_1)
  have v: "push_bit 13 (push_bit 3 (push_bit 8 major OR minor) OR variant) OR patch
      = version_value major minor patch variant"
    using r by (simp add: or_disjoint_int version_value_def)
  have "(0x1fff :: u32) = word_of_int 0x1fff" by simp
  then have "manifest_pack_version major minor patch variant
      = push_bit 13 (word_of_int variant) OR word_of_int (patch AND 0x1fff)
        OR push_bit 16 (word_of_int minor) OR push_bit 24 (word_of_int major)"
    unfolding manifest_pack_version_def m(1,2) by (simp only: of_int_and_eq)
  also have "\<dots> = word_of_int (push_bit 13 (push_bit 3 (push_bit 8 major OR minor) OR variant) OR patch)"
    unfolding m by (simp add: of_int_or_eq push_bit_of_int [symmetric] push_bit_or or.assoc or.commute or.left_commute)
  finally have "manifest_pack_version major minor patch variant = word_of_int (version_value major minor patch variant)"
    unfolding v .
  moreover have "0 \<le> version_value major minor patch variant" "version_value major minor patch variant < 2 ^ 32"
    using r by (simp_all add: version_value_def)
  ultimately show ?thesis by (simp add: uint_word_of_int_eq take_bit_int_eq_self)
qed


lemma digit_order:
  fixes a a' b b' n :: int
  assumes "0 \<le> b" "b < n" "0 \<le> b'" "b' < n"
  shows "a * n + b < a' * n + b' \<longleftrightarrow> a < a' \<or> (a = a' \<and> b < b')"
proof -
  have "a < a' \<Longrightarrow> a * n + b < a' * n + b'" if "0 \<le> b" "b < n" "0 \<le> b'" for a a' b b'
  proof -
    assume "a < a'"
    then have "(a + 1) * n \<le> a' * n" using that by (intro mult_right_mono) simp_all
    then show "a * n + b < a' * n + b'" using that by (simp add: algebra_simps)
  qed
  from this [of b b' a a'] this [of b' b a' a] assms show ?thesis by (cases a a' rule: linorder_cases) auto
qed

text \<open>
  C27.  For versions whose parts fit their fields, comparing the packed words is
  comparing major, minor, variant and patch in this order, so that the variant weighs more than the
  patch; two words are equal only for equal versions. The tags of the manifest give variants in range.
\<close>

theorem version_word_order:
  assumes "version_fields major minor patch variant" "version_fields major' minor' patch' variant'"
  shows "(manifest_pack_version major minor patch variant < manifest_pack_version major' minor' patch' variant')
      = (major < major' \<or> (major = major' \<and> (minor < minor' \<or> (minor = minor' \<and>
          (variant < variant' \<or> (variant = variant' \<and> patch < patch'))))))
    \<and> (manifest_pack_version major minor patch variant = manifest_pack_version major' minor' patch' variant')
      = (major = major' \<and> minor = minor' \<and> patch = patch' \<and> variant = variant')
    \<and> 0 \<le> manifest_variant_code tag \<and> manifest_variant_code tag < 8"
proof -
  note r = assms [unfolded version_fields_def]
  let ?v = "version_value major minor patch variant" and ?v' = "version_value major' minor' patch' variant'"
  have less: "?v < ?v' \<longleftrightarrow> major < major' \<or> (major = major' \<and> (minor < minor' \<or> (minor = minor' \<and>
          (variant < variant' \<or> (variant = variant' \<and> patch < patch')))))"
    using r by (auto simp: version_value_def digit_order)
  have eq: "?v = ?v' \<longleftrightarrow> major = major' \<and> minor = minor' \<and> patch = patch' \<and> variant = variant'"
  proof
    assume e: "?v = ?v'"
    have "?v' < ?v \<longleftrightarrow> major' < major \<or> (major' = major \<and> (minor' < minor \<or> (minor' = minor \<and>
          (variant' < variant \<or> (variant' = variant \<and> patch' < patch)))))"
      using r by (auto simp: version_value_def digit_order)
    then show "major = major' \<and> minor = minor' \<and> patch = patch' \<and> variant = variant'"
      using less e by (metis less_irrefl linorder_neqE_linordered_idom)
  qed simp
  show ?thesis
    using less eq pack_value [OF assms(1)] pack_value [OF assms(2)]
    by (auto simp: word_less_def word_eq_iff_unsigned manifest_variant_code_def)
qed

theorem version_word_order_witness:
  "manifest_pack_version 1 5 9 (manifest_variant_code ''dev'') < manifest_pack_version 1 5 0 (manifest_variant_code ''main'')"
  using version_word_order [of 1 5 9 1 1 5 0 3 "''rc''"]
  by (simp add: version_fields_def manifest_variant_code_def)

subsection \<open>Rows\<close>

lemma short_row_stub:
  "length (mf_split E row) < 7 \<Longrightarrow> manifest_parse_row E dir row = Some (False, stub_entry)"
  by (simp add: manifest_parse_row_def MANIFEST_MAX_FIELDS_def Let_def)

lemma parse_lines_rows:
  "parse_lines E dir ls es = map_option (\<lambda>rs. es @ map snd rs) (those (map (manifest_parse_row E dir) ls))"
  by (induction ls arbitrary: es) (auto simp: option.map_comp comp_def split: option.split)

text \<open>Every line after the header gives an entry, short rows included; one bad number aborts.\<close>

lemma manifest_entries:
  "manifest_parse E dir (header # rows) es
     = map_option (\<lambda>rs. es @ map snd rs) (those (map (manifest_parse_row E dir) rows))"
  by (simp add: manifest_parse_def parse_lines_rows)

text \<open>With seven columns the variant is taken from a field that nothing has written.\<close>

lemma seven_columns_undefined:
  assumes "mf_split E row = [a, b, c, d, e, f, g]" "mf_stoi E e = Some x" "mf_stoi E f = Some y"
    "mf_stoi E g = Some z"
  shows "\<exists>r. manifest_parse_row E dir row = Some (True, r) \<and>
     version r = manifest_pack_version x y z (manifest_variant_code (mf_junk E 7))"
  using assms by (simp add: manifest_parse_row_def row_field_def MANIFEST_MAX_FIELDS_def Let_def)

end
