(* ===== verification/UxLock.thy ===== *)
theory UxLock
  imports Prelude
begin

text \<open>
  Model of \<open>main/ux/src/elock.c\<close>: the software state of the lock, its persistence, and the
  reports of the physical lock.  The storage, the unlock call to the motor and the bike manager are an
  environment of functions of the events so far; every call is an event.  Log lines are left out,
  except those that a result decides.
\<close>

definition ELOCK_STATE_LOCKED :: u8 where "ELOCK_STATE_LOCKED = 1"
definition ELOCK_STATE_UNLOCKING :: u8 where "ELOCK_STATE_UNLOCKING = 3"
definition ELOCK_STATE_UNLOCKED :: u8 where "ELOCK_STATE_UNLOCKED = 5"

lemmas elock_states = ELOCK_STATE_LOCKED_def ELOCK_STATE_UNLOCKING_def ELOCK_STATE_UNLOCKED_def

datatype elock_event = EV_LOCKED | EV_UNLOCKED | EV_FORCED_UNLOCK | EV_KICK_UNLOCK

datatype lock_event =
    Store u8 | StoreFailed
  | Load
  | PublishState u8
  | MotorUnlock | UnlockFailed
  | RelockArm int
  | Emit elock_event
  | BikeLocked | BikeShouldClear | BikeClear
  | ForcedLog
  | DefaultLog

record lock_env =
  le_store :: "u8 \<Rightarrow> lock_event list \<Rightarrow> u8"
  le_load :: "lock_event list \<Rightarrow> u8 option"
  le_unlock :: "lock_event list \<Rightarrow> u8"
  le_should_clear :: "lock_event list \<Rightarrow> bool"

record elock_handler =
  relock_timeout_s :: int
  phys_state :: u8
  phys_seen :: bool
  sw_state :: u8
  sw_state_valid :: bool
  mqtt_unlock_seen :: bool
  forced_at_boot :: bool
  lk_log :: "lock_event list"

definition lk :: "lock_event \<Rightarrow> elock_handler \<Rightarrow> elock_handler" where
  "lk e s = s\<lparr>lk_log := lk_log s @ [e]\<rparr>"

definition lock_store :: "lock_env \<Rightarrow> u8 \<Rightarrow> elock_handler \<Rightarrow> elock_handler" where
  "lock_store E v s =
     (let rc = le_store E v (lk_log s); s = lk (Store v) s
      in if rc = 0 then lk StoreFailed s else s)"

definition elock_apply_software_state :: "lock_env \<Rightarrow> u8 \<Rightarrow> elock_handler \<Rightarrow> elock_handler" where
  "elock_apply_software_state E v s =
     lk (PublishState v) (lock_store E v (s\<lparr>sw_state := v, sw_state_valid := True\<rparr>))"

definition elock_set_software_state :: "lock_env \<Rightarrow> u8 \<Rightarrow> elock_handler \<Rightarrow> elock_handler" where
  "elock_set_software_state E v s = elock_apply_software_state E v s"

definition elock_software_lock :: "lock_env \<Rightarrow> elock_handler \<Rightarrow> elock_handler" where
  "elock_software_lock E s = elock_apply_software_state E ELOCK_STATE_LOCKED (s\<lparr>sw_state_valid := True\<rparr>)"

definition elock_store_software_state :: "lock_env \<Rightarrow> u8 \<Rightarrow> elock_handler \<Rightarrow> elock_handler" where
  "elock_store_software_state E v s = elock_apply_software_state E v s"

definition elock_request_unlock :: "lock_env \<Rightarrow> elock_handler \<Rightarrow> elock_handler" where
  "elock_request_unlock E s =
     (let rc = le_unlock E (lk_log s); s = lk MotorUnlock s
      in if rc \<noteq> 0 then lk UnlockFailed s
         else
           let s = s\<lparr>sw_state := ELOCK_STATE_UNLOCKING, sw_state_valid := True\<rparr>;
               s = lock_store E ELOCK_STATE_UNLOCKING s;
               s = lk (PublishState ELOCK_STATE_UNLOCKING) s;
               s = s\<lparr>mqtt_unlock_seen := False\<rparr>
           in lk (RelockArm (relock_timeout_s s * 1000)) s)"

definition elock_request_kick_unlock :: "elock_handler \<Rightarrow> elock_handler" where
  "elock_request_kick_unlock s = lk (Emit EV_KICK_UNLOCK) s"

text \<open>One question to the bike manager, with the clearing it may lead to.\<close>

definition bike_clear :: "lock_env \<Rightarrow> bool \<Rightarrow> elock_handler \<Rightarrow> elock_handler" where
  "bike_clear E announce s =
     (let c = le_should_clear E (lk_log s); s = lk BikeShouldClear s
      in if c then (let s = lk BikeClear s in if announce then lk (Emit EV_UNLOCKED) s else s) else s)"

definition report_reaction :: "lock_env \<Rightarrow> u8 \<Rightarrow> elock_handler \<Rightarrow> elock_handler" where
  "report_reaction E st s =
     (if st = ELOCK_STATE_LOCKED then lk BikeLocked (lk (Emit EV_LOCKED) s)
      else if st = ELOCK_STATE_UNLOCKING then
        let s = lk (Emit EV_UNLOCKED) s;
            s = bike_clear E True s;
            s = bike_clear E False s
        in if sw_state_valid s \<and> sw_state s = ELOCK_STATE_LOCKED
           then lk (Emit EV_FORCED_UNLOCK) (lk ForcedLog s) else s
      else s)"

definition elock_on_state_report :: "lock_env \<Rightarrow> u8 \<Rightarrow> elock_handler \<Rightarrow> elock_handler" where
  "elock_on_state_report E st s =
     (if \<not> phys_seen s then
        let s = s\<lparr>forced_at_boot := (sw_state_valid s \<and> sw_state s = ELOCK_STATE_LOCKED)\<rparr>;
            s = report_reaction E st s
        in s\<lparr>phys_state := st, phys_seen := True\<rparr>
      else if phys_state s = st then s
      else (report_reaction E st s)\<lparr>phys_state := st, phys_seen := True\<rparr>)"

definition elock_is_unlocked :: "elock_handler \<Rightarrow> bool" where
  "elock_is_unlocked h =
     (if phys_seen h \<and> phys_state h = ELOCK_STATE_LOCKED then False
      else if sw_state_valid h then sw_state h = ELOCK_STATE_LOCKED else False)"

definition elock_init :: "lock_env \<Rightarrow> elock_handler \<Rightarrow> elock_handler" where
  "elock_init E s =
     (let s = s\<lparr>phys_state := 0, phys_seen := False, sw_state := 0, sw_state_valid := False,
            forced_at_boot := False, mqtt_unlock_seen := False\<rparr>;
          loaded = le_load E (lk_log s); s = lk Load s;
          (v, s) = (case loaded of
              Some v \<Rightarrow> if 2 < v - 5 then (ELOCK_STATE_UNLOCKED, lock_store E ELOCK_STATE_UNLOCKED (lk DefaultLog s))
                        else (v, s)
            | None \<Rightarrow> (ELOCK_STATE_UNLOCKED, lock_store E ELOCK_STATE_UNLOCKED (lk DefaultLog s)));
          s = s\<lparr>sw_state := v, sw_state_valid := True\<rparr>
      in lk (PublishState v) s)"

subsection \<open>Storage follows the software state\<close>

fun last_stored :: "lock_event list \<Rightarrow> u8 option" where
  "last_stored [] = None"
| "last_stored (Store v # es) = (case last_stored es of None \<Rightarrow> Some v | Some w \<Rightarrow> Some w)"
| "last_stored (_ # es) = last_stored es"

fun last_published :: "lock_event list \<Rightarrow> u8 option" where
  "last_published [] = None"
| "last_published (PublishState v # es) = (case last_published es of None \<Rightarrow> Some v | Some w \<Rightarrow> Some w)"
| "last_published (_ # es) = last_published es"

lemma last_append [simp]:
  "last_stored (es @ es') = (case last_stored es' of None \<Rightarrow> last_stored es | Some w \<Rightarrow> Some w)"
  "last_published (es @ es') = (case last_published es' of None \<Rightarrow> last_published es | Some w \<Rightarrow> Some w)"
proof -
  show "last_stored (es @ es') = (case last_stored es' of None \<Rightarrow> last_stored es | Some w \<Rightarrow> Some w)"
    by (induction es rule: last_stored.induct) (auto split: option.splits)
  show "last_published (es @ es') = (case last_published es' of None \<Rightarrow> last_published es | Some w \<Rightarrow> Some w)"
    by (induction es rule: last_published.induct) (auto split: option.splits)
qed

datatype elock_op =
    SetState u8 | SoftLock | StoreState u8 | RequestUnlock | KickUnlock | Report u8

fun elock_apply :: "lock_env \<Rightarrow> elock_op \<Rightarrow> elock_handler \<Rightarrow> elock_handler" where
  "elock_apply E (SetState v) s = elock_set_software_state E v s"
| "elock_apply E SoftLock s = elock_software_lock E s"
| "elock_apply E (StoreState v) s = elock_store_software_state E v s"
| "elock_apply E RequestUnlock s = elock_request_unlock E s"
| "elock_apply E KickUnlock s = elock_request_kick_unlock s"
| "elock_apply E (Report st) s = elock_on_state_report E st s"

definition in_step :: "elock_handler \<Rightarrow> bool" where
  "in_step s \<longleftrightarrow> sw_state_valid s \<and> last_stored (lk_log s) = Some (sw_state s)
     \<and> last_published (lk_log s) = Some (sw_state s)"

lemma lk_fields [simp]:
  "sw_state (lk e s) = sw_state s" "sw_state_valid (lk e s) = sw_state_valid s"
  "phys_state (lk e s) = phys_state s" "phys_seen (lk e s) = phys_seen s"
  "relock_timeout_s (lk e s) = relock_timeout_s s" "lk_log (lk e s) = lk_log s @ [e]"
  by (simp_all add: lk_def)

lemma store_fields [simp]:
  "sw_state (lock_store E v s) = sw_state s" "sw_state_valid (lock_store E v s) = sw_state_valid s"
  "phys_state (lock_store E v s) = phys_state s" "phys_seen (lock_store E v s) = phys_seen s"
  "relock_timeout_s (lock_store E v s) = relock_timeout_s s"
  "last_stored (lk_log (lock_store E v s)) = Some v"
  "last_published (lk_log (lock_store E v s)) = last_published (lk_log s)"
  by (simp_all add: lock_store_def Let_def)

lemma apply_fields [simp]:
  "sw_state (elock_apply_software_state E v s) = v" "sw_state_valid (elock_apply_software_state E v s)"
  "last_stored (lk_log (elock_apply_software_state E v s)) = Some v"
  "last_published (lk_log (elock_apply_software_state E v s)) = Some v"
  by (simp_all add: elock_apply_software_state_def)

lemma in_step_apply: "in_step (elock_apply_software_state E v s)"
  by (simp add: in_step_def)

lemma report_reaction_keeps:
  "sw_state (report_reaction E st s) = sw_state s" "sw_state_valid (report_reaction E st s) = sw_state_valid s"
  "last_stored (lk_log (report_reaction E st s)) = last_stored (lk_log s)"
  "last_published (lk_log (report_reaction E st s)) = last_published (lk_log s)"
  by (simp_all add: report_reaction_def bike_clear_def Let_def)

lemma in_step_op: "in_step s \<Longrightarrow> in_step (elock_apply E x s)"
  by (cases x)
    (auto simp: elock_set_software_state_def elock_software_lock_def elock_store_software_state_def
      elock_request_unlock_def elock_request_kick_unlock_def elock_on_state_report_def
      report_reaction_keeps Let_def in_step_def)

lemma in_step_run: "in_step s \<Longrightarrow> in_step (fold (elock_apply E) ops s)"
  by (induction ops arbitrary: s) (simp_all add: in_step_op)

lemma init_state:
  "sw_state (elock_init E s) = (case le_load E (lk_log s) of
     Some v \<Rightarrow> if 2 < v - 5 then 5 else v | None \<Rightarrow> 5)"
  by (simp add: elock_init_def Let_def elock_states split: option.split)

lemma in_step_init:
  assumes "\<And>h. le_load E h = last_stored h"
  shows "in_step (elock_init E s)"
  using assms
  by (auto simp: elock_init_def Let_def in_step_def split: option.split)

text \<open>
  C28.  With a storage that gives back what was stored last, also when the
  store was reported as failed, which the code only logs, and after any operations since a start, the software state is valid and equals both what was stored and what was
  published last. Nevertheless a restart does not bring it back: only the codes 5 to 7 are accepted,
  so the locked state 1 and the unlocking state 3, the only ones the lock itself sets, come back as
  unlocked.
\<close>

theorem restart_forgets_lock:
  assumes "\<And>h. le_load E h = last_stored h"
  shows "(let s = fold (elock_apply E) ops (elock_init E s0)
      in sw_state_valid s \<and> last_stored (lk_log s) = Some (sw_state s)
         \<and> last_published (lk_log s) = Some (sw_state s)
         \<and> sw_state (elock_init E s) = (if sw_state s \<in> {5, 6, 7} then sw_state s else ELOCK_STATE_UNLOCKED)
         \<and> sw_state (elock_init E (elock_software_lock E s)) = ELOCK_STATE_UNLOCKED)"
proof -
  define s where "s = fold (elock_apply E) ops (elock_init E s0)"
  have s: "in_step s" unfolding s_def by (intro in_step_run in_step_init assms)
  have k: "in_step (elock_software_lock E s)"
    by (simp add: elock_software_lock_def in_step_apply)
  have l: "sw_state (elock_software_lock E s) = 1"
    by (simp add: elock_software_lock_def elock_apply_software_state_def elock_states)
  have code: "2 < v - 5 \<longleftrightarrow> v \<notin> {5, 6, 7}" for v :: u8
  proof -
    have "v - 5 \<le> 2 \<Longrightarrow> v \<in> {5, 6, 7}"
    proof -
      assume "v - 5 \<le> 2"
      then have "unat (v - 5) \<le> 2" by (simp add: word_le_nat_alt)
      then have "unat (v - 5) = 0 \<or> unat (v - 5) = 1 \<or> unat (v - 5) = 2" by linarith
      then have "v - 5 = 0 \<or> v - 5 = 1 \<or> v - 5 = 2" by (simp add: word_unat_eq_iff)
      then show "v \<in> {5, 6, 7}" by (auto simp: diff_eq_eq)
    qed
    moreover have "v \<in> {5, 6, 7} \<Longrightarrow> v - 5 \<le> 2" by auto
    ultimately show ?thesis by (auto simp: not_le [symmetric])
  qed
  show ?thesis
    using s k l assms unfolding s_def [symmetric] Let_def
    by (simp add: in_step_def init_state code elock_states)
qed


definition demo_lock_env :: lock_env where
  "demo_lock_env = \<lparr>le_store = (\<lambda>_ _. 1), le_load = last_stored, le_unlock = (\<lambda>_. 0), le_should_clear = (\<lambda>_. False)\<rparr>"

definition demo_handler :: elock_handler where
  "demo_handler = \<lparr>relock_timeout_s = 30, phys_state = 0, phys_seen = False, sw_state = 0, sw_state_valid = False,
     mqtt_unlock_seen = False, forced_at_boot = False, lk_log = []\<rparr>"

theorem restart_forgets_lock_witness:
  "sw_state (elock_init demo_lock_env
     (elock_software_lock demo_lock_env (elock_init demo_lock_env demo_handler))) = ELOCK_STATE_UNLOCKED"
  using restart_forgets_lock [of demo_lock_env "[]" demo_handler] by (simp add: demo_lock_env_def Let_def)

subsection \<open>Reports\<close>

fun emits :: "lock_event list \<Rightarrow> elock_event list" where
  "emits [] = []"
| "emits (Emit e # es) = e # emits es"
| "emits (_ # es) = emits es"

lemma emits_append [simp]: "emits (es @ es') = emits es @ emits es'"
  by (induction es rule: emits.induct) simp_all

lemma emits_store [simp]: "emits (lk_log (lock_store E v s)) = emits (lk_log s)"
  by (simp add: lock_store_def Let_def)

definition forced :: "elock_handler \<Rightarrow> bool" where
  "forced s \<longleftrightarrow> sw_state_valid s \<and> sw_state s = ELOCK_STATE_LOCKED"

lemma report_emits:
  "count_list (emits (lk_log (report_reaction E st s))) EV_FORCED_UNLOCK
     = count_list (emits (lk_log s)) EV_FORCED_UNLOCK + (if st = 3 \<and> forced s then 1 else 0)"
  "count_list (emits (lk_log (report_reaction E st s))) EV_LOCKED
     = count_list (emits (lk_log s)) EV_LOCKED + (if st = 1 then 1 else 0)"
  by (simp_all add: report_reaction_def bike_clear_def forced_def elock_states Let_def)

lemma report_step:
  assumes "phys_seen s"
  shows "phys_seen (elock_on_state_report E st s)" "phys_state (elock_on_state_report E st s) = st"
    "forced (elock_on_state_report E st s) = forced s"
    "count_list (emits (lk_log (elock_on_state_report E st s))) EV_FORCED_UNLOCK
     = count_list (emits (lk_log s)) EV_FORCED_UNLOCK + (if phys_state s \<noteq> st \<and> st = 3 \<and> forced s then 1 else 0)"
    "count_list (emits (lk_log (elock_on_state_report E st s))) EV_LOCKED
     = count_list (emits (lk_log s)) EV_LOCKED + (if phys_state s \<noteq> st \<and> st = 1 then 1 else 0)"
  using assms by (simp_all add: elock_on_state_report_def report_emits forced_def report_reaction_keeps)

lemma tl_remdups_step:
  "tl (remdups_adj (p # st # xs)) = (if p = st then [] else [st]) @ tl (remdups_adj (st # xs))"
  using remdups_adj_head [of st xs] by (cases "p = st") (simp_all del: remdups_adj.simps add: remdups_adj.simps(3))

text \<open>
  Over any run of reports of the physical lock, repetitions are ignored:
  the lock is announced as locked once for each change to the locked report, and while the software
  state is locked a forced unlock is announced once for each change to the unlocked report; while it
  is not locked, never.
\<close>

theorem reports_counted_once:
  assumes "phys_seen s"
  shows "count_list (emits (lk_log (fold (elock_on_state_report E) rs s))) EV_FORCED_UNLOCK
     = count_list (emits (lk_log s)) EV_FORCED_UNLOCK +
       (if forced s then count_list (tl (remdups_adj (phys_state s # rs))) 3 else 0)
    \<and> count_list (emits (lk_log (fold (elock_on_state_report E) rs s))) EV_LOCKED
     = count_list (emits (lk_log s)) EV_LOCKED + count_list (tl (remdups_adj (phys_state s # rs))) 1"
  using assms
proof (induction rs arbitrary: s)
  case (Cons st rs)
  show ?case
    using Cons.IH [of "elock_on_state_report E st s"] report_step [OF Cons.prems, of E st]
    by (auto simp: tl_remdups_step simp del: remdups_adj.simps)
qed simp

theorem reports_counted_once_witness:
  "count_list (emits (lk_log (fold (elock_on_state_report demo_lock_env) [1, 3, 3, 1, 3]
     (demo_handler\<lparr>phys_seen := True, phys_state := 1, sw_state := 1, sw_state_valid := True\<rparr>)))) EV_FORCED_UNLOCK = 2"
  using reports_counted_once [of "demo_handler\<lparr>phys_seen := True, phys_state := 1, sw_state := 1, sw_state_valid := True\<rparr>"
      demo_lock_env "[1, 3, 3, 1, 3]"]
  by (simp add: demo_handler_def forced_def elock_states)

text \<open>The query answers the opposite of its name.\<close>

lemma is_unlocked_inverted:
  "elock_is_unlocked h \<Longrightarrow> sw_state h = ELOCK_STATE_LOCKED"
  by (auto simp: elock_is_unlocked_def split: if_splits)

end
