(* ===== verification/UxAlarm.thy ===== *)
theory UxAlarm
  imports Prelude
begin

text \<open>
  Model of \<open>main/ux/src/state_alarm.c\<close> and of \<open>Alarm::SetState\<close> in
  \<open>main/ux/src/alarm.c\<close>: the escalation of a theft alarm.  Sound, lights, BLE and the state
  evaluator are calls that are logged; what the BLE manager and the button mode answer is an
  environment of functions of the events so far.  A one-shot timer is its pending delay.  The level is
  kept by the lock, which other code changes as well.

  The timer of level 2 is handed the address of the parameter of \<open>trigger_alarm2\<close>, whose frame is gone
  when it fires; the code of its callback is modelled on the object it means.
\<close>

definition ALARM_LEVEL_THEFT255 :: u8 where "ALARM_LEVEL_THEFT255 = 0xFF"
definition ALARM_LEVEL_3 :: u8 where "ALARM_LEVEL_3 = 0x03"
definition ALARM_LEVEL_2 :: u8 where "ALARM_LEVEL_2 = 0x02"

lemmas alarm_levels = ALARM_LEVEL_THEFT255_def ALARM_LEVEL_3_def ALARM_LEVEL_2_def

datatype alarm_event =
    PublishInt string u8 nat nat | MqttFlush
  | SoundMute | SoundUnmute
  | SoundPlay string nat nat nat nat bool
  | AnimPattern nat nat nat nat nat
  | AnimMode nat
  | FindmyStop
  | BleClearAlarm
  | ReturnToState
  | Subscribe string

record alarm_env =
  ae_ble_present :: "alarm_event list \<Rightarrow> bool"
  ae_ble_authorized :: "alarm_event list \<Rightarrow> bool"
  ae_button_mode :: "alarm_event list \<Rightarrow> int"

record alarm =
  level :: u8
  imu_flag :: bool
  escalate_timer :: "u32 option"
  alarm2_timer :: "u32 option"
  state_id :: int
  timeout_a :: u32
  timeout_b :: u32
  al_log :: "alarm_event list"

definition al :: "alarm_event \<Rightarrow> alarm \<Rightarrow> alarm" where
  "al e s = s\<lparr>al_log := al_log s @ [e]\<rparr>"

definition ALARM_SOUND_URGENT :: string where "ALARM_SOUND_URGENT = ''alarm_2_urgent_loop''"

definition alarm_set_state :: "u8 \<Rightarrow> bool \<Rightarrow> alarm \<Rightarrow> alarm" where
  "alarm_set_state st publish s =
     (let s = s\<lparr>level := st\<rparr>
      in if \<not> publish then s
         else al MqttFlush (al (PublishInt ''ux/alarm/state'' st 1 1) s))"

definition trigger_theft255 :: "alarm \<Rightarrow> alarm" where
  "trigger_theft255 s = al (SoundPlay ALARM_SOUND_URGENT 1 1 0 100 True) (al SoundMute s)"

definition trigger_alarm2 :: "u8 \<Rightarrow> alarm \<Rightarrow> alarm" where
  "trigger_alarm2 arm_escalation s =
     (let s = al (AnimPattern 3 0x249 0x58 0 1) s;
          s = al SoundMute s;
          s = al (SoundPlay ALARM_SOUND_URGENT 1 0 1 100 False) s
      in if arm_escalation \<noteq> 0 then s\<lparr>alarm2_timer := Some 120000\<rparr> else s)"

definition trigger_alarm3 :: "alarm \<Rightarrow> alarm" where
  "trigger_alarm3 s =
     (let s = al FindmyStop s;
          s = s\<lparr>imu_flag := False\<rparr>;
          s = al SoundMute s;
          s = al (AnimMode 3) s
      in s\<lparr>escalate_timer := None\<rparr>)"

definition trigger_for_level :: "u8 \<Rightarrow> alarm \<Rightarrow> alarm" where
  "trigger_for_level arm s =
     (if level s = ALARM_LEVEL_3 then trigger_alarm3 s
      else if level s = ALARM_LEVEL_THEFT255 then trigger_theft255 s
      else if level s = ALARM_LEVEL_2 then trigger_alarm2 arm s
      else s)"

definition alarm2_timeout_escalate :: "alarm \<Rightarrow> alarm" where
  "alarm2_timeout_escalate s = trigger_alarm3 (alarm_set_state 3 True s)"

definition on_button :: "alarm_env \<Rightarrow> alarm \<Rightarrow> alarm" where
  "on_button E s =
     (if ae_ble_present E (al_log s) \<and> ae_ble_authorized E (al_log s) \<and> \<not> imu_flag s
      then al BleClearAlarm s
      else if imu_flag s then s
      else al (AnimPattern 3 0x2fb 0xc 1 1) s)"

definition on_lock_changed :: "alarm \<Rightarrow> alarm" where
  "on_lock_changed s =
     (if \<not> imu_flag s \<and> level s \<noteq> ALARM_LEVEL_2 then al ReturnToState s
      else s\<lparr>escalate_timer := None\<rparr>)"

definition theft255_on_sound_done :: "alarm \<Rightarrow> alarm" where
  "theft255_on_sound_done s = al ReturnToState (al (AnimMode 3) (al SoundUnmute s))"

definition state_alarm_strategy_ctor :: "alarm_env \<Rightarrow> int \<Rightarrow> alarm \<Rightarrow> alarm" where
  "state_alarm_strategy_ctor E sid s =
     (let s = s\<lparr>state_id := sid, timeout_a := 30000, timeout_b := 10000,
            escalate_timer := None, alarm2_timer := None\<rparr>;
          s = al (Subscribe ''ux/alarm/trigger'') s;
          s = al (Subscribe ''ux/lock/changed'') s;
          s = s\<lparr>imu_flag := (ae_button_mode E (al_log s) \<noteq> 2)\<rparr>;
          s = al (Subscribe ''ux/button/0xff'') s
      in trigger_for_level 1 s)"

subsection \<open>Steps of the alarm\<close>

text \<open>The handlers, and a change of the level by other code: clearing the alarm over BLE is in no source of
  the repository, and may be one.\<close>

inductive alarm_step :: "alarm_env \<Rightarrow> alarm \<Rightarrow> alarm \<Rightarrow> bool" for E where
  trigger: "alarm_step E s (trigger_for_level arm s)"
| button: "alarm_step E s (on_button E s)"
| lock_changed: "alarm_step E s (on_lock_changed s)"
| sound_done: "alarm_step E s (theft255_on_sound_done s)"
| outside: "alarm_step E s (s\<lparr>level := l\<rparr>)"

inductive_cases alarm_stepE: "alarm_step E s s'"

lemma al_fields [simp]:
  "level (al e s) = level s" "imu_flag (al e s) = imu_flag s" "alarm2_timer (al e s) = alarm2_timer s"
  "escalate_timer (al e s) = escalate_timer s" "al_log (al e s) = al_log s @ [e]"
  by (simp_all add: al_def)

lemma level_values [simp]:
  "ALARM_LEVEL_2 \<noteq> ALARM_LEVEL_3" "ALARM_LEVEL_3 \<noteq> ALARM_LEVEL_2" "ALARM_LEVEL_2 \<noteq> ALARM_LEVEL_THEFT255"
  "ALARM_LEVEL_3 \<noteq> ALARM_LEVEL_THEFT255" "ALARM_LEVEL_THEFT255 \<noteq> ALARM_LEVEL_2" "ALARM_LEVEL_THEFT255 \<noteq> ALARM_LEVEL_3"
  by (simp_all add: alarm_levels)

lemmas alarm_ops = trigger_for_level_def trigger_alarm2_def trigger_alarm3_def trigger_theft255_def
  on_button_def on_lock_changed_def theft255_on_sound_done_def alarm2_timeout_escalate_def Let_def

text \<open>No handler stops the timer of level 2, once it is armed, whatever becomes of the level; the timer that
  the handlers stop is never armed.\<close>

lemma alarm_timer_stays:
  assumes "level s0 = ALARM_LEVEL_2" "(alarm_step E)\<^sup>*\<^sup>* (state_alarm_strategy_ctor E sid s0) s"
  shows "alarm2_timer s = Some 120000 \<and> escalate_timer s = None"
  using assms(2)
proof (induction rule: rtranclp_induct)
  case base
  then show ?case using assms(1) by (simp add: state_alarm_strategy_ctor_def alarm_ops)
next
  case (step t u)
  then show ?case by (auto simp: alarm_ops elim!: alarm_stepE)
qed

text \<open>The flag that mutes the handlers is clear in button mode 2.\<close>

lemma mode_two_listens:
  "ae_button_mode E (al_log s @ [Subscribe ''ux/alarm/trigger'', Subscribe ''ux/lock/changed'']) = 2 \<Longrightarrow>
     \<not> imu_flag (state_alarm_strategy_ctor E sid s)"
  by (simp add: state_alarm_strategy_ctor_def alarm_ops al_def)

end
