(* ===== verification/UxStates.thy ===== *)
theory UxStates
  imports UxAlarm
begin

text \<open>
  Model of the state machine of the ux service: \<open>main/ux/src/ux_service.c\<close> (the swap of the
  active strategy and the seven transitions), \<open>state_standby.c\<close>, \<open>state_charging.c\<close>
  and the handlers of \<open>state_operational.c\<close>.

  A strategy object is a number, new for each allocation.  Calls into sub-managers (sound, light, lock,
  storage, timers) are events; what they answer is an environment of functions of the events so far.
  The constructors of the strategies add their calls to the same log.
\<close>

datatype ux_event =
    OpNew nat nat
  | Construct int nat int
  | Destroy nat
  | StorageSet int
  | SoundId nat nat nat nat nat
  | SoundId6 nat nat nat nat nat nat
  | CmdPublish string
  | PbAllow bool
  | SubTimer nat nat
  | SubEvents string
  | RequestPowerOn bool bool
  | PowerOff
  | StartupFeedback nat bool
  | StandbyCue nat
  | StandbyShutdown
  | ChargeUiStart | ChargeUiTeardown
  | SocRender u8 bool
  | LedRingMode nat
  | ConsumeShipping
  | Boost bool
  | LightRestore | ClearLatch | DispatchRide | DispatchLock
  | TimerStop nat | TimerRearm nat
  | PowerShutdown | GlobalTeardown
  | RequestStandby
  | LedRingPlay nat nat nat
  | Call string
  | CallNat string nat
  | Handler nat nat string
  | PlaySound string
  | AlarmEv alarm_event

type_synonym ux_history = "ux_event list"

record ux_env =
  xe_unlocked :: "ux_history \<Rightarrow> bool"
  xe_forced_latch :: "ux_history \<Rightarrow> bool"
  xe_bike_state :: "ux_history \<Rightarrow> int"
  xe_shipping_flag :: "ux_history \<Rightarrow> bool"
  xe_theft_flags :: "ux_history \<Rightarrow> u32"
  xe_subgate :: "ux_history \<Rightarrow> bool"
  xe_alarm_reason :: "ux_history \<Rightarrow> int"
  xe_charge_handled :: "ux_history \<Rightarrow> bool"
  xe_theme_overridden :: "ux_history \<Rightarrow> bool"
  xe_suppressed :: "ux_history \<Rightarrow> bool"
  xe_ride_active :: "ux_history \<Rightarrow> bool"
  xe_ride_flag :: "ux_history \<Rightarrow> bool"
  xe_power_msg :: "ux_history \<Rightarrow> bool"
  xe_alarm :: "ux_history \<Rightarrow> alarm"
  xe_alarm_env :: "ux_history \<Rightarrow> alarm_env"
  xe_result :: "nat \<Rightarrow> ux_history \<Rightarrow> nat option"

definition UX_SHIPPING :: int where "UX_SHIPPING = 1"
definition UX_STANDBY :: int where "UX_STANDBY = 2"
definition UX_OPERATIONAL :: int where "UX_OPERATIONAL = 3"
definition UX_CHARGING :: int where "UX_CHARGING = 4"
definition UX_UPDATING :: int where "UX_UPDATING = 5"
definition UX_ALARM :: int where "UX_ALARM = 6"
definition UX_MAINTENANCE :: int where "UX_MAINTENANCE = 7"

lemmas ux_state_codes = UX_SHIPPING_def UX_STANDBY_def UX_OPERATIONAL_def UX_CHARGING_def UX_UPDATING_def
  UX_ALARM_def UX_MAINTENANCE_def

subsection \<open>Standby\<close>

definition PB_LOCKED :: int where "PB_LOCKED = 1"
definition PB_REQUESTED :: int where "PB_REQUESTED = 2"
definition PB_LONG_PRESS :: int where "PB_LONG_PRESS = 3"
definition BIKE_STATE_THEFT :: int where "BIKE_STATE_THEFT = 2"

record standby =
  sb_prev_state :: int
  pb_state :: int

definition state_standby_arm_power_button :: "ux_env \<Rightarrow> standby \<times> ux_history \<Rightarrow> standby \<times> ux_history" where
  "state_standby_arm_power_button E st =
     (let (s, h) = st
      in if \<not> xe_unlocked E h
         then (s\<lparr>pb_state := PB_LONG_PRESS\<rparr>, h @ [PbAllow False] @ [SubTimer 0x4f0 3000])
         else (s\<lparr>pb_state := PB_LOCKED\<rparr>, h @ [PbAllow (xe_bike_state E h \<noteq> BIKE_STATE_THEFT)]))"

definition state_standby_request_power_on ::
    "bool \<Rightarrow> bool \<Rightarrow> standby \<times> ux_history \<Rightarrow> standby \<times> ux_history" where
  "state_standby_request_power_on from_button direct st =
     (let (s, h) = st
      in if from_button \<or> pb_state s \<noteq> PB_LONG_PRESS
         then (s\<lparr>pb_state := PB_REQUESTED\<rparr>, h @ [PbAllow False] @ [RequestPowerOn from_button direct])
         else (s, h))"

definition state_standby_on_power_button ::
    "ux_env \<Rightarrow> bool \<Rightarrow> standby \<times> ux_history \<Rightarrow> standby \<times> ux_history" where
  "state_standby_on_power_button E direct st =
     (let (s, h) = st
      in if xe_unlocked E h then (s, h @ [StartupFeedback 1 direct])
         else state_standby_request_power_on True direct (s, h))"

definition state_standby_direct_power_on :: "ux_env \<Rightarrow> standby \<times> ux_history \<Rightarrow> standby \<times> ux_history" where
  "state_standby_direct_power_on E st =
     (let (s, h) = st
      in if xe_unlocked E h \<and> xe_forced_latch E h then (s, h @ [SoundId 3 0x4b1 0x94 1 1])
         else if xe_bike_state E h \<noteq> BIKE_STATE_THEFT then (s, h @ [RequestPowerOn True False])
         else (s, h))"

definition state_standby_strategy_ctor :: "ux_env \<Rightarrow> int \<Rightarrow> ux_history \<Rightarrow> standby \<times> ux_history" where
  "state_standby_strategy_ctor E prev h =
     (let s = \<lparr>sb_prev_state = prev, pb_state = 0\<rparr>;
          h = h @ [SubEvents ''bike''] @ [SubTimer 0x88 15000];
          (s, h) =
            (if prev = UX_SHIPPING - 1 then
               let flag = xe_shipping_flag E h; h = h @ [ConsumeShipping]
               in if flag then state_standby_direct_power_on E (s, h)
                  else if xe_theft_flags E h AND 0xff00 = 0 then
                    (if \<not> xe_subgate E h then (s, h @ [StandbyCue 3]) else (s, h))
                  else state_standby_on_power_button E False (s, h)
             else if prev = UX_OPERATIONAL \<or> prev = UX_ALARM then
               let h = h @ [if xe_alarm_reason E h = 1 then SoundId 3 0x783 0x21 1 1 else SoundId 3 0x624 0x28 1 1];
                   h = h @ [StandbyShutdown];
                   h = (if prev = UX_OPERATIONAL then h @ [CmdPublish ''bike_shutdown''] else h)
               in (s, h)
             else (s, h));
          h = h @ [SubEvents ''ff3'']
      in state_standby_arm_power_button E (s, h))"

subsection \<open>Charging\<close>

record charging =
  ch_prev_state :: int
  led_kind :: u8
  animate_in :: bool

definition state_charging_publish_plugged :: "ux_history \<Rightarrow> ux_history" where
  "state_charging_publish_plugged h =
     h @ [CmdPublish ''charger_plugged''] @ [SoundId6 3 0x696 0x31 1 0 1] @ [ChargeUiStart]"

definition state_charging_soc_animation_tick :: "ux_env \<Rightarrow> charging \<times> ux_history \<Rightarrow> charging \<times> ux_history" where
  "state_charging_soc_animation_tick E st =
     (let (s, h) = st
      in if \<not> xe_theme_overridden E h
         then (s\<lparr>animate_in := False\<rparr>, h @ [SocRender (led_kind s) (animate_in s)])
         else (s, h))"

definition state_charging_on_charge_stop :: "ux_env \<Rightarrow> ux_history \<Rightarrow> ux_history" where
  "state_charging_on_charge_stop E h = (if xe_charge_handled E h then h else h @ [ChargeUiTeardown])"

definition state_charging_publish_unplugged :: "u8 \<Rightarrow> u8 \<Rightarrow> ux_history \<Rightarrow> ux_history" where
  "state_charging_publish_unplugged now_plugged was_plugged h =
     (if (was_plugged XOR 1) AND now_plugged \<noteq> 0 then h @ [CmdPublish ''phone_plugged''] else h)"

definition state_charging_strategy_ctor :: "ux_env \<Rightarrow> int \<Rightarrow> ux_history \<Rightarrow> charging \<times> ux_history" where
  "state_charging_strategy_ctor E prev h =
     (let s = \<lparr>ch_prev_state = prev, led_kind = 0xff, animate_in = True\<rparr>;
          h = (if prev = 0 then
                 let flag = xe_shipping_flag E h; h = h @ [ConsumeShipping]
                 in if flag then h @ [StartupFeedback 1 False]
                    else let f = xe_theft_flags E h
                      in if f AND 0xff00 \<noteq> 0 then
                           (if f AND 0xff00 = 0 then h
                            else if f AND 0xff = 0
                              then h @ [SoundId 3 0x4b1 0x94 1 1] @ [CmdPublish ''firmware_update_success'']
                              else h @ [SoundId 3 0x3ce 0x2f 1 1] @ [CmdPublish ''firmware_update_failed''])
                         else state_charging_publish_plugged h
               else if prev = UX_OPERATIONAL then state_charging_publish_plugged (h @ [StandbyShutdown])
               else state_charging_publish_plugged h);
          h = h @ [SubTimer 0x30 3000] @ [SubEvents ''charge'']
      in (s, h @ [LedRingMode 1]))"

subsection \<open>Operational\<close>

record operational =
  op_state_id :: int
  ride_latch :: int
  idle_active :: int
  ride_state :: int
  prev_ride_state :: int
  idle_tick_count :: int

definition state_operational_motor_assist_on :: "ux_history \<Rightarrow> ux_history" where
  "state_operational_motor_assist_on h = h @ [Boost True]"
definition state_operational_motor_assist_off :: "ux_history \<Rightarrow> ux_history" where
  "state_operational_motor_assist_off h = h @ [Boost False]"

definition state_operational_on_unlock :: "ux_env \<Rightarrow> ux_history \<Rightarrow> ux_history" where
  "state_operational_on_unlock E h = (if xe_suppressed E h then h else h @ [LightRestore])"

definition state_operational_on_lock_request :: "ux_env \<Rightarrow> ux_history \<Rightarrow> ux_history" where
  "state_operational_on_lock_request E h =
     (let h = h @ [LightRestore] @ [ClearLatch]
      in if xe_ride_active E h then h @ [DispatchRide] else h @ [DispatchLock])"

definition state_operational_on_shutdown :: "ux_history \<Rightarrow> ux_history" where
  "state_operational_on_shutdown h = h @ [TimerStop 0xd0] @ [PowerShutdown] @ [GlobalTeardown]"

definition state_operational_idle_timeout :: "ux_history \<Rightarrow> ux_history" where
  "state_operational_idle_timeout h = h @ [TimerRearm 0x180] @ [RequestStandby]"

definition state_operational_idle_animation_tick ::
    "ux_env \<Rightarrow> operational \<times> ux_history \<Rightarrow> operational \<times> ux_history" where
  "state_operational_idle_animation_tick E st =
     (let (s, h) = st
      in if 0x32 < idle_tick_count s then (s, h @ [TimerStop 0xd0] @ [TimerStop 0x180])
         else if xe_theme_overridden E h then (s, h @ [TimerRearm 0x180])
         else (s, h @ [LedRingPlay 2 0x545 0xdf] @ [TimerRearm 0x180]))"

definition state_operational_apply_animation_theme :: "ux_history \<Rightarrow> ux_history" where
  "state_operational_apply_animation_theme h =
     h @ [Call ''anim_theme_get''] @ [Call ''anim_theme_apply''] @ [Call ''anim_theme_release'']"

text \<open>The object starts as \<open>garbage\<close>: the counter of the idle ticks is not among the fields set.\<close>

definition state_operational_strategy_ctor ::
    "ux_env \<Rightarrow> operational \<Rightarrow> int \<Rightarrow> ux_history \<Rightarrow> operational \<times> ux_history" where
  "state_operational_strategy_ctor E garbage prev h =
     (let s = garbage\<lparr>op_state_id := prev, ride_latch := - 1, idle_active := 0, ride_state := 0\<rparr>;
          h = h @ [Call ''so_observer_register''];
          h = h @ [CallNat ''so_timer_init idle_timeout'' 1000] @ [CallNat ''so_timer_init idle_anim'' 8000];
          h = h @ [Call ''so_pre_enter''] @ [Call ''ride_observer_register''];
          (s, h) =
            (if prev = 2 \<or> prev = 6 then
               if \<not> xe_unlocked E h then
                 let s = s\<lparr>ride_state := 0x300000001\<rparr>;
                     h = h @ [CallNat ''so_arm_idle_timeout'' 3000]
                 in if xe_ride_flag E h then (s, h @ [Call ''ride_flag_clear'']) else (s, h)
               else (s\<lparr>ride_state := 2\<rparr>, h)
             else if ride_state s \<noteq> 3 then (s\<lparr>prev_ride_state := ride_state s, ride_state := 3\<rparr>, h)
             else (s, h));
          h = h @ [Call ''so_listener_register idle_timeout''] @ [Call ''so_listener_register idle_animation_tick'']
                @ [Call ''so_listener_register on_lock_request''];
          h = h @ [Call ''elock_request_unlock''] @ [CallNat ''alarm_set_state'' 1];
          h = h @ [Call ''so_sensor_observer_register''] @ [LightRestore] @ [Call ''light_state_get'']
                @ [CallNat ''anim_set_active'' 1];
          h = h @ [Call ''so_handler_on_enter publish_unplugged'']
      in (s, h @ [Handler 0 3 ''lab_130680'', Handler 1 2 ''lab_130860'', Handler 1 1 ''apply_animation_theme'',
                  Handler 3 0 ''motor_assist_on'', Handler 3 1 ''motor_assist_off'', Handler 2 0 ''on_charge_stop'',
                  Handler 2 1 ''on_unlock'', Handler 2 2 ''lab_132f70'', Handler 4 2 ''lab_133120'',
                  Handler 4 1 ''lab_132d90'', Handler 4 0 ''lab_132db0'', Handler 0xff 0 ''on_shutdown'']))"

subsection \<open>Shipping, updating, maintenance\<close>

definition state_shipping_strategy_ctor :: "ux_history \<Rightarrow> ux_history" where
  "state_shipping_strategy_ctor h = h @ [PlaySound ''bike_shipping'']"

definition state_updating_strategy_ctor :: "ux_history \<Rightarrow> ux_history" where
  "state_updating_strategy_ctor h =
     (let h = h @ [PlaySound ''firmware_update_loop''];
          h = h @ [CallNat ''ux_light_set_mode'' 3];
          h = h @ [CallNat ''light_upload_progress_animation'' 0xb4];
          h = h @ [CallNat ''ux_light_pattern'' 0xb4]
      in h @ [Call ''light_pattern_enable''])"

definition state_maintenance_strategy_ctor :: "ux_history \<Rightarrow> ux_history" where
  "state_maintenance_strategy_ctor h =
     h @ [Call ''elock_button_listener_init''] @ [PlaySound ''sec_battery_locked'']
       @ [Call ''elock_button_listener_on_press'']"

subsection \<open>The machine of the service\<close>

text \<open>
  The service keeps the active strategy, the code of its state, and the changed-state field of the
  context at offset \<open>0xf60\<close>, which the constructor of the service leaves as it was.  The swap stores
  what the call of a constructor answers.  Two of the constructors return their object; the other five are
  defined without a result, against the prototypes of \<open>ux_service.h\<close>, so that what is stored is
  whatever the result register holds: the environment says it, from the object that was passed and the
  calls so far.  While a constructor runs the slot is empty.
\<close>

record ux_service =
  active_strat :: "nat option"
  state_enum :: int
  state_changed :: int
  next_object :: nat
  ux_log :: ux_history

definition UX_SZ_SHIPPING :: nat where "UX_SZ_SHIPPING = 0x10"
definition UX_SZ_STANDBY :: nat where "UX_SZ_STANDBY = 0x5a0"
definition UX_SZ_OPERATIONAL :: nat where "UX_SZ_OPERATIONAL = 0x440"
definition UX_SZ_CHARGING :: nat where "UX_SZ_CHARGING = 0xe8"
definition UX_SZ_UPDATING :: nat where "UX_SZ_UPDATING = 0x18"
definition UX_SZ_ALARM :: nat where "UX_SZ_ALARM = 0x5c0"
definition UX_SZ_MAINTENANCE :: nat where "UX_SZ_MAINTENANCE = 0x98"

definition uxl :: "ux_event \<Rightarrow> ux_service \<Rightarrow> ux_service" where
  "uxl e s = s\<lparr>ux_log := ux_log s @ [e]\<rparr>"

definition ux_service_ctor :: "int \<Rightarrow> ux_history \<Rightarrow> ux_service" where
  "ux_service_ctor raw h =
     \<lparr>active_strat = None, state_enum = 0, state_changed = raw, next_object = 0,
      ux_log = h @ [Call ''state_client_base_ctor''] @ [Call ''storage_manager_init'']
        @ [Call ''ux_state_machine_init''] @ [SubEvents ''ux/power''] @ [SubEvents ''power/deep_sleep'']\<rparr>"

definition ux_service_run :: "ux_service \<Rightarrow> ux_service" where
  "ux_service_run s =
     uxl (SubEvents ''power/state/extend_timeout'')
       (uxl (SubEvents ''power/state/status'') (uxl (SubEvents ''power/state'') s))"

definition ux_service_dtor :: "ux_service \<Rightarrow> ux_service" where
  "ux_service_dtor s =
     (let s = uxl (Call ''ux_state_machine_dtor'') s;
          s = (case active_strat s of None \<Rightarrow> s | Some n \<Rightarrow> uxl (Destroy n) s);
          s = uxl (Call ''ux_subclients_dtor'') s
      in uxl (Call ''state_client_base_dtor'') s)"

definition ux_service_on_state_entered :: "ux_service \<Rightarrow> ux_service" where
  "ux_service_on_state_entered s = uxl (StorageSet 1) (s\<lparr>state_changed := 1\<rparr>)"

definition ux_service_on_power_msg :: "ux_env \<Rightarrow> ux_service \<Rightarrow> ux_service" where
  "ux_service_on_power_msg E s =
     (if \<not> xe_power_msg E (ux_log s) then uxl PowerOff s else uxl (RequestPowerOn False False) s)"

definition op_new :: "nat \<Rightarrow> ux_service \<Rightarrow> nat \<times> ux_service" where
  "op_new sz s = (next_object s, (uxl (OpNew (next_object s) sz) s)\<lparr>next_object := next_object s + 1\<rparr>)"

definition ux_swap_strategy ::
    "int \<Rightarrow> nat \<Rightarrow> (ux_history \<Rightarrow> nat option) \<Rightarrow> (int \<Rightarrow> ux_history \<Rightarrow> ux_history) \<Rightarrow> ux_service \<Rightarrow> ux_service" where
  "ux_swap_strategy kind obj result ctor s =
     (let prev = state_enum s;
          old = active_strat s;
          s = s\<lparr>active_strat := None\<rparr>;
          s = (case old of None \<Rightarrow> s | Some n \<Rightarrow> uxl (Destroy n) s);
          s = uxl (Construct kind obj prev) s;
          s = s\<lparr>ux_log := ctor prev (ux_log s)\<rparr>;
          new = result (ux_log s);
          old = active_strat s;
          s = s\<lparr>active_strat := new\<rparr>
      in (case old of None \<Rightarrow> s | Some n \<Rightarrow> uxl (Destroy n) s))"

definition ux_to_shipping :: "ux_env \<Rightarrow> ux_service \<Rightarrow> ux_service" where
  "ux_to_shipping E s =
     (let (obj, s) = op_new UX_SZ_SHIPPING s;
          s = ux_swap_strategy UX_SHIPPING obj (xe_result E obj) (\<lambda>_. state_shipping_strategy_ctor) s
      in ux_service_on_state_entered (s\<lparr>state_enum := UX_SHIPPING\<rparr>))"

definition ux_to_standby :: "ux_env \<Rightarrow> ux_service \<Rightarrow> ux_service" where
  "ux_to_standby E s =
     (let (obj, s) = op_new UX_SZ_STANDBY s;
          s = ux_swap_strategy UX_STANDBY obj (\<lambda>_. Some obj) (\<lambda>prev h. snd (state_standby_strategy_ctor E prev h)) s
      in s\<lparr>state_enum := UX_STANDBY, state_changed := UX_STANDBY\<rparr>)"

definition ux_to_operational :: "ux_env \<Rightarrow> operational \<Rightarrow> ux_service \<Rightarrow> ux_service" where
  "ux_to_operational E garbage s =
     (let (obj, s) = op_new UX_SZ_OPERATIONAL s;
          s = ux_swap_strategy UX_OPERATIONAL obj (xe_result E obj)
                (\<lambda>prev h. snd (state_operational_strategy_ctor E garbage prev h)) s
      in s\<lparr>state_enum := UX_OPERATIONAL, state_changed := UX_OPERATIONAL\<rparr>)"

definition ux_to_charging :: "ux_env \<Rightarrow> ux_service \<Rightarrow> ux_service" where
  "ux_to_charging E s =
     (let (obj, s) = op_new UX_SZ_CHARGING s;
          s = ux_swap_strategy UX_CHARGING obj (\<lambda>_. Some obj) (\<lambda>prev h. snd (state_charging_strategy_ctor E prev h)) s
      in s\<lparr>state_enum := UX_CHARGING, state_changed := UX_CHARGING\<rparr>)"

definition ux_to_updating :: "ux_env \<Rightarrow> ux_service \<Rightarrow> ux_service" where
  "ux_to_updating E s =
     (let (obj, s) = op_new UX_SZ_UPDATING s;
          s = ux_swap_strategy UX_UPDATING obj (xe_result E obj) (\<lambda>_. state_updating_strategy_ctor) s
      in s\<lparr>state_enum := UX_UPDATING, state_changed := UX_UPDATING\<rparr>)"

text \<open>The calls of the alarm strategy are those of \<open>UxAlarm\<close>, on the alarm as it is then.\<close>

definition alarm_ctor_calls :: "ux_env \<Rightarrow> int \<Rightarrow> ux_history \<Rightarrow> ux_history" where
  "alarm_ctor_calls E prev h =
     h @ map AlarmEv (al_log (state_alarm_strategy_ctor (xe_alarm_env E h) prev ((xe_alarm E h)\<lparr>al_log := []\<rparr>)))"

definition ux_to_alarm :: "ux_env \<Rightarrow> ux_service \<Rightarrow> ux_service" where
  "ux_to_alarm E s =
     (let (obj, s) = op_new UX_SZ_ALARM s;
          s = ux_swap_strategy UX_ALARM obj (xe_result E obj) (alarm_ctor_calls E) s
      in s\<lparr>state_enum := UX_ALARM, state_changed := UX_ALARM\<rparr>)"

definition ux_to_maintenance :: "ux_env \<Rightarrow> ux_service \<Rightarrow> ux_service" where
  "ux_to_maintenance E s =
     (let (obj, s) = op_new UX_SZ_MAINTENANCE s;
          s = ux_swap_strategy UX_MAINTENANCE obj (xe_result E obj) (\<lambda>_. state_maintenance_strategy_ctor) s
      in s\<lparr>state_enum := UX_MAINTENANCE, state_changed := UX_MAINTENANCE\<rparr>)"

text \<open>A request of a transition, by its code, and the size its strategy takes.\<close>

definition ux_request :: "ux_env \<Rightarrow> operational \<Rightarrow> int \<Rightarrow> ux_service \<Rightarrow> ux_service" where
  "ux_request E garbage k s =
     (if k = UX_SHIPPING then ux_to_shipping E s
      else if k = UX_STANDBY then ux_to_standby E s
      else if k = UX_OPERATIONAL then ux_to_operational E garbage s
      else if k = UX_CHARGING then ux_to_charging E s
      else if k = UX_UPDATING then ux_to_updating E s
      else if k = UX_ALARM then ux_to_alarm E s
      else ux_to_maintenance E s)"

definition ux_size :: "int \<Rightarrow> nat" where
  "ux_size k =
     (if k = UX_SHIPPING then UX_SZ_SHIPPING else if k = UX_STANDBY then UX_SZ_STANDBY
      else if k = UX_OPERATIONAL then UX_SZ_OPERATIONAL else if k = UX_CHARGING then UX_SZ_CHARGING
      else if k = UX_UPDATING then UX_SZ_UPDATING else if k = UX_ALARM then UX_SZ_ALARM
      else UX_SZ_MAINTENANCE)"

definition ux_kinds :: "int set" where
  "ux_kinds = {UX_SHIPPING, UX_STANDBY, UX_OPERATIONAL, UX_CHARGING, UX_UPDATING, UX_ALARM, UX_MAINTENANCE}"

subsection \<open>The life of the strategies\<close>

fun lifecycle :: "ux_event \<Rightarrow> bool" where
  "lifecycle (OpNew _ _) = True"
| "lifecycle (Construct _ _ _) = True"
| "lifecycle (Destroy _) = True"
| "lifecycle _ = False"

text \<open>No constructor allocates, builds or destroys a strategy.\<close>

definition calls_only :: "(int \<Rightarrow> ux_history \<Rightarrow> ux_history) \<Rightarrow> bool" where
  "calls_only c \<longleftrightarrow> (\<forall>p h. filter lifecycle (c p h) = filter lifecycle h)"

lemma calls_shipping: "calls_only (\<lambda>_. state_shipping_strategy_ctor)"
  by (simp add: calls_only_def state_shipping_strategy_ctor_def)

lemma calls_updating: "calls_only (\<lambda>_. state_updating_strategy_ctor)"
  by (simp add: calls_only_def state_updating_strategy_ctor_def Let_def)

lemma calls_maintenance: "calls_only (\<lambda>_. state_maintenance_strategy_ctor)"
  by (simp add: calls_only_def state_maintenance_strategy_ctor_def)

lemma calls_alarm: "calls_only (alarm_ctor_calls E)"
  by (simp add: calls_only_def alarm_ctor_calls_def filter_map comp_def)

lemma calls_charging: "calls_only (\<lambda>prev h. snd (state_charging_strategy_ctor E prev h))"
  by (simp add: calls_only_def state_charging_strategy_ctor_def state_charging_publish_plugged_def Let_def)

lemma calls_operational: "calls_only (\<lambda>prev h. snd (state_operational_strategy_ctor E g prev h))"
  unfolding calls_only_def
proof (intro allI)
  fix p h
  show "filter lifecycle (snd (state_operational_strategy_ctor E g p h)) = filter lifecycle h"
  proof (cases "p = 2 \<or> p = 6")
    case True
    then show ?thesis
      by (simp only: state_operational_strategy_ctor_def Let_def if_True) (simp split: if_split)
  next
    case False
    then show ?thesis
      by (simp only: state_operational_strategy_ctor_def Let_def if_False) simp
  qed
qed

lemma arm_calls:
  "filter lifecycle (snd (state_standby_arm_power_button E (s, h))) = filter lifecycle h"
  by (simp add: state_standby_arm_power_button_def)

lemma button_calls:
  "filter lifecycle (snd (state_standby_on_power_button E d (s, h))) = filter lifecycle h"
  by (simp add: state_standby_on_power_button_def state_standby_request_power_on_def)

lemma direct_calls:
  "filter lifecycle (snd (state_standby_direct_power_on E (s, h))) = filter lifecycle h"
  by (simp add: state_standby_direct_power_on_def)

lemma calls_standby: "calls_only (\<lambda>prev h. snd (state_standby_strategy_ctor E prev h))"
proof -
  have "filter lifecycle (snd (state_standby_arm_power_button E p)) = filter lifecycle (snd p)" for p
    by (cases p) (simp add: arm_calls)
  moreover have "filter lifecycle (snd (state_standby_on_power_button E d p)) = filter lifecycle (snd p)" for d p
    by (cases p) (simp add: button_calls)
  moreover have "filter lifecycle (snd (state_standby_direct_power_on E p)) = filter lifecycle (snd p)" for p
    by (cases p) (simp add: direct_calls)
  ultimately show ?thesis
    by (simp add: calls_only_def state_standby_strategy_ctor_def Let_def split_beta)
qed

lemma uxl_fields [simp]:
  "active_strat (uxl e s) = active_strat s" "state_enum (uxl e s) = state_enum s"
  "state_changed (uxl e s) = state_changed s" "next_object (uxl e s) = next_object s"
  "ux_log (uxl e s) = ux_log s @ [e]"
  by (simp_all add: uxl_def)

definition life :: "ux_service \<Rightarrow> ux_history" where
  "life s = filter lifecycle (ux_log s)"

text \<open>What one transition adds.\<close>

definition life_step :: "int \<Rightarrow> ux_service \<Rightarrow> ux_history" where
  "life_step k s =
     OpNew (next_object s) (ux_size k) # (case active_strat s of None \<Rightarrow> [] | Some n \<Rightarrow> [Destroy n])
       @ [Construct k (next_object s) (state_enum s)]"

lemma swap_effect:
  assumes "calls_only c"
  shows "active_strat (ux_swap_strategy k obj (\<lambda>_. r) c s) = r"
    and "next_object (ux_swap_strategy k obj res c s) = next_object s"
    and "life (ux_swap_strategy k obj res c s) =
      life s @ (case active_strat s of None \<Rightarrow> [] | Some n \<Rightarrow> [Destroy n]) @ [Construct k obj (state_enum s)]"
  using assms by (simp_all add: ux_swap_strategy_def Let_def life_def calls_only_def split: option.split)

text \<open>The result register holds the object that was passed: then the void constructors do what their
  prototypes say.\<close>

definition register_kept :: "ux_env \<Rightarrow> bool" where
  "register_kept E \<longleftrightarrow> (\<forall>n h. xe_result E n h = Some n)"

lemma size_of_kind:
  "ux_size UX_SHIPPING = UX_SZ_SHIPPING" "ux_size UX_STANDBY = UX_SZ_STANDBY"
  "ux_size UX_OPERATIONAL = UX_SZ_OPERATIONAL" "ux_size UX_CHARGING = UX_SZ_CHARGING"
  "ux_size UX_UPDATING = UX_SZ_UPDATING" "ux_size UX_ALARM = UX_SZ_ALARM"
  "ux_size UX_MAINTENANCE = UX_SZ_MAINTENANCE"
  by (simp_all add: ux_size_def ux_state_codes)

lemma life_update [simp]:
  "life (s\<lparr>active_strat := a\<rparr>) = life s" "life (s\<lparr>state_enum := n\<rparr>) = life s"
  "life (s\<lparr>state_changed := n\<rparr>) = life s" "life (s\<lparr>next_object := m\<rparr>) = life s"
  by (simp_all add: life_def)

lemma op_new_effect:
  "op_new sz s = (obj, t) \<Longrightarrow>
     obj = next_object s \<and> next_object t = next_object s + 1 \<and> active_strat t = active_strat s \<and>
     state_enum t = state_enum s \<and> life t = life s @ [OpNew obj sz]"
  by (auto simp: op_new_def life_def)

lemma life_entered [simp]: "life (ux_service_on_state_entered s) = life s"
  by (simp add: ux_service_on_state_entered_def life_def)

text \<open>The seven transitions as one: allocate, swap, store the state.\<close>

definition ux_ctor_of :: "ux_env \<Rightarrow> operational \<Rightarrow> int \<Rightarrow> int \<Rightarrow> ux_history \<Rightarrow> ux_history" where
  "ux_ctor_of E g k =
     (if k = UX_SHIPPING then (\<lambda>_. state_shipping_strategy_ctor)
      else if k = UX_STANDBY then (\<lambda>prev h. snd (state_standby_strategy_ctor E prev h))
      else if k = UX_OPERATIONAL then (\<lambda>prev h. snd (state_operational_strategy_ctor E g prev h))
      else if k = UX_CHARGING then (\<lambda>prev h. snd (state_charging_strategy_ctor E prev h))
      else if k = UX_UPDATING then (\<lambda>_. state_updating_strategy_ctor)
      else if k = UX_ALARM then alarm_ctor_calls E
      else (\<lambda>_. state_maintenance_strategy_ctor))"

lemma ctor_of_calls: "calls_only (ux_ctor_of E g k)"
  by (simp add: ux_ctor_of_def calls_shipping calls_standby calls_operational calls_charging calls_updating
      calls_alarm calls_maintenance)

lemma request_as:
  assumes "k \<in> ux_kinds" "op_new (ux_size k) s = (obj, t)" "register_kept E"
  shows "ux_request E g k s =
    (let u = (ux_swap_strategy k obj (\<lambda>_. Some obj) (ux_ctor_of E g k) t)\<lparr>state_enum := k\<rparr>
     in if k = UX_SHIPPING then ux_service_on_state_entered u else u\<lparr>state_changed := k\<rparr>)"
proof -
  have r: "xe_result E n = (\<lambda>_. Some n)" for n using assms(3) by (auto simp: register_kept_def)
  consider "k = UX_SHIPPING" | "k = UX_STANDBY" | "k = UX_OPERATIONAL" | "k = UX_CHARGING"
    | "k = UX_UPDATING" | "k = UX_ALARM" | "k = UX_MAINTENANCE"
    using assms(1) by (auto simp: ux_kinds_def)
  then show ?thesis
    by cases (use assms(2) r in \<open>simp_all add: ux_request_def ux_to_shipping_def ux_to_standby_def
      ux_to_operational_def ux_to_charging_def ux_to_updating_def ux_to_alarm_def ux_to_maintenance_def
      ux_ctor_of_def ux_size_def ux_state_codes Let_def\<close>)
qed

lemma request_effect:
  assumes "k \<in> ux_kinds" "register_kept E"
  shows "active_strat (ux_request E g k s) = Some (next_object s)"
    and "next_object (ux_request E g k s) = next_object s + 1"
    and "life (ux_request E g k s) = life s @ life_step k s"
    and "state_enum (ux_request E g k s) = k" "state_changed (ux_request E g k s) = k"
proof -
  obtain obj t where n: "op_new (ux_size k) s = (obj, t)" by (cases "op_new (ux_size k) s")
  note r = request_as [OF assms(1) n assms(2), of g]
    swap_effect [OF ctor_of_calls, of k obj _ E g k t] op_new_effect [OF n]
  show "active_strat (ux_request E g k s) = Some (next_object s)"
    "next_object (ux_request E g k s) = next_object s + 1" "state_enum (ux_request E g k s) = k"
    using r by (cases "k = UX_SHIPPING"; simp add: Let_def ux_service_on_state_entered_def)+
  show "state_changed (ux_request E g k s) = k"
    using r by (cases "k = UX_SHIPPING"; simp add: Let_def ux_service_on_state_entered_def)
      (simp add: UX_SHIPPING_def)
  show "life (ux_request E g k s) = life s @ life_step k s"
    using r by (cases "k = UX_SHIPPING"; simp add: Let_def life_step_def)
qed

text \<open>A sequence of transitions.\<close>

definition ux_requests :: "ux_env \<Rightarrow> operational \<Rightarrow> int list \<Rightarrow> ux_service \<Rightarrow> ux_service" where
  "ux_requests E g ks s = fold (ux_request E g) ks s"

text \<open>The life after the transitions \<open>ks\<close>, written down without the machine.\<close>

fun lives :: "nat \<Rightarrow> int \<Rightarrow> int list \<Rightarrow> ux_history" where
  "lives n prev [] = []"
| "lives n prev (k # ks) =
     OpNew n (ux_size k) # (if n = 0 then [] else [Destroy (n - 1)]) @ Construct k n prev # lives (n + 1) k ks"

definition ux_coherent :: "ux_service \<Rightarrow> bool" where
  "ux_coherent s \<longleftrightarrow> active_strat s = (if next_object s = 0 then None else Some (next_object s - 1)) \<and>
     (next_object s \<noteq> 0 \<longrightarrow> state_changed s = state_enum s)"

lemma requests_effect:
  assumes "set ks \<subseteq> ux_kinds" "ux_coherent s" "register_kept E"
  shows "ux_coherent (ux_requests E g ks s) \<and> next_object (ux_requests E g ks s) = next_object s + length ks \<and>
    state_enum (ux_requests E g ks s) = last (state_enum s # ks) \<and>
    life (ux_requests E g ks s) = life s @ lives (next_object s) (state_enum s) ks"
  using assms
proof (induction ks arbitrary: s)
  case Nil
  then show ?case by (simp add: ux_requests_def)
next
  case (Cons k ks)
  have k: "k \<in> ux_kinds" using Cons.prems by simp
  note eff = request_effect [OF k Cons.prems(3), of g s]
  have "ux_coherent (ux_request E g k s)" using eff by (simp add: ux_coherent_def)
  moreover have "life_step k s @ lives (next_object s + 1) k ks = lives (next_object s) (state_enum s) (k # ks)"
    using Cons.prems(2) by (simp add: life_step_def ux_coherent_def)
  ultimately show ?case using Cons.IH [of "ux_request E g k s"] Cons.prems eff
    by (simp add: ux_requests_def)
qed

text \<open>How many strategies a history has built and destroyed.\<close>

fun is_construct :: "ux_event \<Rightarrow> bool" where
  "is_construct (Construct _ _ _) = True"
| "is_construct _ = False"

fun is_destroy :: "ux_event \<Rightarrow> bool" where
  "is_destroy (Destroy _) = True"
| "is_destroy _ = False"

definition built :: "ux_history \<Rightarrow> nat" where "built h = length (filter is_construct h)"
definition gone :: "ux_history \<Rightarrow> nat" where "gone h = length (filter is_destroy h)"

lemma built_gone_simps [simp]:
  "built [] = 0" "gone [] = 0"
  "built (e # h) = (if is_construct e then 1 else 0) + built h"
  "gone (e # h) = (if is_destroy e then 1 else 0) + gone h"
  by (simp_all add: built_def gone_def)

lemma lives_balance:
  fixes n j :: nat
  defines "tail m \<equiv> if m = 0 then [] else [Destroy (m - 1)]"
  shows "if n = 0
    then gone (take j (lives n p ks @ tail (n + length ks))) \<le> built (take j (lives n p ks @ tail (n + length ks))) \<and>
         built (take j (lives n p ks @ tail (n + length ks))) \<le> gone (take j (lives n p ks @ tail (n + length ks))) + 1
    else gone (take j (lives n p ks @ tail (n + length ks))) \<le> built (take j (lives n p ks @ tail (n + length ks))) + 1 \<and>
         built (take j (lives n p ks @ tail (n + length ks))) \<le> gone (take j (lives n p ks @ tail (n + length ks)))"
proof (induction ks arbitrary: j n p)
  case Nil
  then show ?case by (cases j) (simp_all add: tail_def)
next
  case (Cons k ks)
  have len: "n + length (k # ks) = Suc n + length ks" by simp
  show ?case
  proof (cases "n = 0")
    case True
    then show ?thesis using Cons.IH [of "Suc n" "j - Suc (Suc 0)" k]
      by (auto simp: take_Cons' len simp del: take_append)
  next
    case False
    then show ?thesis using Cons.IH [of "Suc n" "j - Suc (Suc (Suc 0))" k]
      by (auto simp: take_Cons' len simp del: take_append)
  qed
qed

lemma lives_destroys:
  "count_list (lives n p ks) (Destroy m) = (if n \<le> m + 1 \<and> m + 1 < n + length ks then 1 else 0)"
  by (induction ks arbitrary: n p) auto

lemma filter_take_prefix: "\<exists>j. filter P (take m xs) = take j (filter P xs)"
proof (induction xs arbitrary: m)
  case (Cons x xs)
  show ?case
  proof (cases m)
    case 0
    then show ?thesis by (intro exI [of _ 0]) simp
  next
    case (Suc k)
    obtain j where "filter P (take k xs) = take j (filter P xs)" using Cons.IH by blast
    then show ?thesis using Suc by (cases "P x") (auto intro: exI [of _ "Suc j"] exI [of _ j])
  qed
qed simp

lemma built_life: "built (filter lifecycle h) = built h" "gone (filter lifecycle h) = gone h"
proof -
  have "is_construct e \<Longrightarrow> lifecycle e" "is_destroy e \<Longrightarrow> lifecycle e" for e by (cases e; simp)+
  then show "built (filter lifecycle h) = built h" "gone (filter lifecycle h) = gone h"
    by (auto simp: built_def gone_def intro!: arg_cong [where f = length] filter_cong)
qed

lemma count_life: "count_list (filter lifecycle h) (Destroy n) = count_list h (Destroy n)"
  by (induction h) auto

lemma dtor_life:
  "life (ux_service_dtor s) = life s @ (case active_strat s of None \<Rightarrow> [] | Some n \<Rightarrow> [Destroy n])"
  by (simp add: ux_service_dtor_def life_def Let_def split: option.split)

text \<open>
  However the service moves between its seven states, from its construction to its destruction, and when
  the void constructors leave their object in the result register: the state code is that of the last
  transition, and so is the changed-state field after the first one, every strategy that was allocated is
  destroyed exactly once, and at every moment at most one strategy is built and not yet destroyed, and none
  is destroyed that was not built.  Without that luck the slot gets whatever was in the register, and the
  next transition destroys that.
\<close>

lemma strategy_lifecycle:
  fixes E :: ux_env and g :: operational and raw :: int
  assumes "set ks \<subseteq> ux_kinds" "register_kept E"
  defines "s \<equiv> ux_requests E g ks (ux_service_ctor raw [])"
  shows "state_enum s = last (0 # ks) \<and> (ks \<noteq> [] \<longrightarrow> state_changed s = last ks) \<and>
    (\<forall>n. count_list (ux_log (ux_service_dtor s)) (Destroy n) = (if n < length ks then 1 else 0)) \<and>
    (\<forall>m. gone (take m (ux_log (ux_service_dtor s))) \<le> built (take m (ux_log (ux_service_dtor s))) \<and>
         built (take m (ux_log (ux_service_dtor s))) \<le> gone (take m (ux_log (ux_service_dtor s))) + 1)"
proof -
  let ?s0 = "ux_service_ctor raw []" and ?log = "ux_log (ux_service_dtor s)"
  have s0: "ux_coherent ?s0" "next_object ?s0 = 0" "state_enum ?s0 = 0" "life ?s0 = []"
    by (simp_all add: ux_service_ctor_def ux_coherent_def life_def)
  note eff = requests_effect [OF assms(1) s0(1) assms(2), of g, folded s_def, unfolded s0]
  have life: "life (ux_service_dtor s) =
      lives 0 0 ks @ (if 0 + length ks = 0 then [] else [Destroy (0 + length ks - 1)])"
    using eff by (simp add: dtor_life ux_coherent_def)
  have cnt: "count_list ?log (Destroy n) = (if n < length ks then 1 else 0)" for n
    using life by (cases ks rule: rev_cases)
      (auto simp: life_def count_life [of ?log, symmetric] lives_destroys)
  have bal: "gone (take m ?log) \<le> built (take m ?log) \<and> built (take m ?log) \<le> gone (take m ?log) + 1" for m
  proof -
    obtain j where "filter lifecycle (take m ?log) = take j (filter lifecycle ?log)"
      using filter_take_prefix by blast
    then show ?thesis using lives_balance [of 0 j 0 ks] life
      by (simp add: life_def flip: built_life [of "take m ?log"])
  qed
  show ?thesis using eff cnt bal by (simp add: ux_coherent_def)
qed

subsection \<open>When standby asks for power\<close>

fun asks_power :: "ux_event \<Rightarrow> bool" where
  "asks_power (RequestPowerOn _ _) = True"
| "asks_power _ = False"

lemma arm_asks:
  "filter asks_power (snd (state_standby_arm_power_button E p)) = filter asks_power (snd p)"
  by (cases p) (simp add: state_standby_arm_power_button_def)

lemma direct_asks:
  "filter asks_power (snd (state_standby_direct_power_on E (s, h))) = filter asks_power h @
     (if \<not> (xe_unlocked E h \<and> xe_forced_latch E h) \<and> xe_bike_state E h \<noteq> BIKE_STATE_THEFT
      then [RequestPowerOn True False] else [])"
  by (simp add: state_standby_direct_power_on_def)

lemma button_asks:
  "filter asks_power (snd (state_standby_on_power_button E d (s, h))) = filter asks_power h @
     (if \<not> xe_unlocked E h then [RequestPowerOn True d] else [])"
  by (simp add: state_standby_on_power_button_def state_standby_request_power_on_def)

text \<open>
  Entering standby asks the bike to power on at most once, and only as the
  first state after a start: with the shipping flag, when the lock does not refuse it and the bike is
  not in the theft state; without it, when the word of theft flags has its second byte set and the lock
  answers that it is not locked. From every other state, shipping included, entering standby asks for nothing.
\<close>

theorem standby_power_requests:
  fixes E :: ux_env and prev :: int and h :: ux_history
  defines "h1 \<equiv> h @ [SubEvents ''bike'', SubTimer 0x88 15000]"
  defines "h2 \<equiv> h1 @ [ConsumeShipping]"
  shows "filter asks_power (snd (state_standby_strategy_ctor E prev h)) = filter asks_power h @
    (if prev = 0 \<and>
        (if xe_shipping_flag E h1
         then \<not> (xe_unlocked E h2 \<and> xe_forced_latch E h2) \<and> xe_bike_state E h2 \<noteq> BIKE_STATE_THEFT
         else xe_theft_flags E h2 AND 0xff00 \<noteq> 0 \<and> \<not> xe_unlocked E h2)
     then [RequestPowerOn True False] else [])"
proof (cases "prev = 0")
  case True
  then show ?thesis
    by (simp add: state_standby_strategy_ctor_def Let_def split_beta arm_asks UX_SHIPPING_def h1_def h2_def
        direct_asks button_asks)
next
  case False
  then show ?thesis
    by (simp add: state_standby_strategy_ctor_def Let_def split_beta arm_asks UX_SHIPPING_def)
qed

end
