(* ===== verification/Settings.thy ===== *)
theory Settings
  imports Prelude
begin

text \<open>
  Model of \<open>main/ux/src/storage_manager.c\<close>: the keys with their categories, the values, their files
  and their topics.  A value of a category is written to the file of the category as a snapshot of its
  values; what a file write answers, what \<open>sm_value_assign\<close> and \<open>sm_value_is_set\<close> do and what the
  files held at start are an environment.  The code reads and writes values only through
  \<open>sm_valuemap_at\<close> and \<open>sm_valuemap_store\<close>, whose arguments are a category and a key: one map
  per category models them.  The comments of the code name two stores behind these calls, one for sets and
  one for the files; nothing in the code tells them apart.
\<close>

datatype json = JStr string | JBool bool | JNull | JInt int

definition SM_CAT_GLOBAL :: int where "SM_CAT_GLOBAL = 0"
definition SM_CAT_USER :: int where "SM_CAT_USER = 1"
definition SM_CAT_STATE :: int where "SM_CAT_STATE = 2"

lemmas sm_cats = SM_CAT_GLOBAL_def SM_CAT_USER_def SM_CAT_STATE_def

datatype sm_path = PathGlobal | PathUser | PathState

datatype sm_event =
    FileWrite sm_path "string \<Rightarrow> json option" bool
  | SaveFailed
  | Publish string json
  | PublishStr string string
  | UnknownKey string
  | InvalidUser
  | BindPath int string
  | ReadLine string | NoFile | NoLine
  | SmSubscribe string
  | SeedDefaults

record sm_env =
  sm_write_ok :: "sm_path \<Rightarrow> sm_event list \<Rightarrow> bool"
  sm_is_set :: "json \<Rightarrow> bool"
  sm_assign :: "json \<Rightarrow> json \<Rightarrow> json \<times> bool"
  sm_object :: "int \<Rightarrow> sm_event list \<Rightarrow> (string \<times> json) list option"
  sm_read_line :: "string \<Rightarrow> sm_event list \<Rightarrow> string option option"

record storage_manager =
  key_category_map :: "string \<Rightarrow> int option"
  value_map :: "int \<Rightarrow> string \<Rightarrow> json option"
  initialised :: bool
  sm_log :: "sm_event list"

definition sml :: "sm_event \<Rightarrow> storage_manager \<Rightarrow> storage_manager" where
  "sml e s = s\<lparr>sm_log := sm_log s @ [e]\<rparr>"

definition sm_valuemap_store :: "int \<Rightarrow> string \<Rightarrow> json \<Rightarrow> storage_manager \<Rightarrow> storage_manager" where
  "sm_valuemap_store cat key v s =
     s\<lparr>value_map := (value_map s)(cat := (value_map s cat)(key \<mapsto> v))\<rparr>"

definition storage_manager_register_default ::
    "string \<Rightarrow> int \<Rightarrow> json \<Rightarrow> storage_manager \<Rightarrow> storage_manager" where
  "storage_manager_register_default key cat v s =
     (let s = s\<lparr>key_category_map := (key_category_map s)(key \<mapsto> cat)\<rparr>;
          s = sm_valuemap_store cat key v s
      in sm_valuemap_store cat key v s)"

definition sm_path_of :: "int \<Rightarrow> sm_path" where
  "sm_path_of cat =
     (if cat = SM_CAT_GLOBAL then PathGlobal else if cat = SM_CAT_USER then PathUser else PathState)"

definition storage_manager_save_setting ::
    "sm_env \<Rightarrow> sm_path \<Rightarrow> (string \<Rightarrow> json option) \<Rightarrow> storage_manager \<Rightarrow> storage_manager \<times> bool" where
  "storage_manager_save_setting E path contents s =
     (let ok = sm_write_ok E path (sm_log s); s = sml (FileWrite path contents ok) s
      in if \<not> ok then (sml SaveFailed s, False) else (s, True))"

definition storage_manager_persist_category ::
    "sm_env \<Rightarrow> int \<Rightarrow> storage_manager \<Rightarrow> storage_manager \<times> bool" where
  "storage_manager_persist_category E cat s =
     storage_manager_save_setting E (sm_path_of cat) (value_map s cat) s"

text \<open>The exception for an unknown key is the left side.\<close>

datatype sm_error = KeyNotFound

definition storage_manager_set ::
    "sm_env \<Rightarrow> string \<Rightarrow> json \<Rightarrow> storage_manager \<Rightarrow> sm_error + storage_manager \<times> bool" where
  "storage_manager_set E key v s =
     (case key_category_map s key of
        None \<Rightarrow> Inl KeyNotFound
      | Some cat \<Rightarrow>
          (let s = sm_valuemap_store cat key v s;
               (s, wrote) = storage_manager_persist_category E cat s
           in Inr (if wrote \<and> cat \<noteq> SM_CAT_STATE then sml (Publish key v) s else s, wrote)))"

text \<open>Its callers look the key up first, so that the exception cannot leave them.\<close>

definition set_known :: "sm_env \<Rightarrow> string \<Rightarrow> json \<Rightarrow> storage_manager \<Rightarrow> storage_manager \<times> bool" where
  "set_known E key v s = (case storage_manager_set E key v s of Inl _ \<Rightarrow> (s, False) | Inr r \<Rightarrow> r)"

definition storage_manager_set_if_absent ::
    "sm_env \<Rightarrow> string \<Rightarrow> json \<Rightarrow> storage_manager \<Rightarrow> storage_manager \<times> bool" where
  "storage_manager_set_if_absent E key v s =
     (case key_category_map s key of
        None \<Rightarrow> (sml (UnknownKey key) s, False)
      | Some cat \<Rightarrow>
          (case value_map s cat key of
             Some old \<Rightarrow>
               (if sm_is_set E old then
                  let (stored, differed) = sm_assign E old v;
                      s = sm_valuemap_store cat key stored s
                  in if differed then set_known E key v s else (s, False)
                else set_known E key v s)
           | None \<Rightarrow> set_known E key v s))"

definition storage_manager_load_string ::
    "sm_env \<Rightarrow> string \<Rightarrow> storage_manager \<Rightarrow> storage_manager \<times> string option" where
  "storage_manager_load_string E path s =
     (let r = sm_read_line E path (sm_log s); s = sml (ReadLine path) s
      in case r of None \<Rightarrow> (sml NoFile s, None) | Some None \<Rightarrow> (sml NoLine s, None) | Some (Some line) \<Rightarrow> (s, Some line))"

definition json_get_string :: "json \<Rightarrow> string option" where
  "json_get_string v = (case v of JStr t \<Rightarrow> Some t | _ \<Rightarrow> None)"

definition import_entry :: "sm_env \<Rightarrow> int \<Rightarrow> string \<times> json \<Rightarrow> storage_manager \<Rightarrow> storage_manager" where
  "import_entry E cat kv s =
     (let (key, v) = kv
      in if json_get_string v = Some ''0'' then s
         else let (s, ok) = storage_manager_set_if_absent E key v s
           in if \<not> ok then fst (storage_manager_set_if_absent E key v (sm_valuemap_store cat key v s)) else s)"

definition import_category :: "sm_env \<Rightarrow> int \<Rightarrow> storage_manager \<Rightarrow> storage_manager" where
  "import_category E cat s =
     (case sm_object E cat (sm_log s) of None \<Rightarrow> s | Some kvs \<Rightarrow> fold (import_entry E cat) kvs s)"

definition storage_manager_import_user_settings ::
    "sm_env \<Rightarrow> string \<Rightarrow> storage_manager \<Rightarrow> storage_manager" where
  "storage_manager_import_user_settings E user s =
     (if CHR ''.'' \<in> set user \<or> CHR ''/'' \<in> set user then sml InvalidUser s
      else let s = sml (BindPath SM_CAT_STATE user) (sml (BindPath SM_CAT_USER user) (sml (BindPath SM_CAT_GLOBAL user) s))
        in fold (import_category E) [SM_CAT_GLOBAL, SM_CAT_USER, SM_CAT_STATE] s)"

text \<open>Loading an identity field and publishing it.\<close>

definition publish_field :: "sm_env \<Rightarrow> string \<Rightarrow> string \<Rightarrow> storage_manager \<Rightarrow> storage_manager" where
  "publish_field E path topic s =
     (let (s, r) = storage_manager_load_string E path s
      in case r of None \<Rightarrow> s | Some line \<Rightarrow> sml (PublishStr topic line) s)"

definition sm_defaults :: "(string \<times> int \<times> json) list" where
  "sm_defaults =
     [(''animation_theme'', SM_CAT_USER, JStr ''ride_animation_right''),
      (''ride_animation_right'', SM_CAT_USER, JBool True),
      (''brake_lights'', SM_CAT_GLOBAL, JNull),
      (''turning_lights'', SM_CAT_USER, JInt 100),
      (''backup_unlock_code'', SM_CAT_GLOBAL, JNull),
      (''bell_sound'', SM_CAT_GLOBAL, JNull),
      (''master_volume'', SM_CAT_GLOBAL, JNull),
      (''assist_level'', SM_CAT_GLOBAL, JNull),
      (''region'', SM_CAT_STATE, JBool True)]"

text \<open>The paths of the identity fields are seeded by code that is not in the repository.\<close>

record sm_fields =
  field_ecu_serial :: string
  field_bike_id :: string
  field_frame_number :: string
  field_sku :: string

definition storage_manager_init :: "sm_env \<Rightarrow> sm_fields \<Rightarrow> storage_manager" where
  "storage_manager_init E f =
     (let s = \<lparr>key_category_map = Map.empty, value_map = (\<lambda>_. Map.empty), initialised = False, sm_log = [SeedDefaults]\<rparr>;
          s = publish_field E (field_ecu_serial f) ''info/ecu_serial'' s;
          s = publish_field E (field_frame_number f) ''info/frame_number'' s;
          s = publish_field E (field_bike_id f) ''info/bike_id'' s;
          s = publish_field E (field_sku f) ''info/sku'' s;
          s = sml (PublishStr ''ble/certificate_public_key''
                ''29b1f31c07d1c63b124057ebe75a0bc0796259722e5dd9a9a9302ae2061184a0'') s;
          s = fold (\<lambda>(k, c, v). storage_manager_register_default k c v) sm_defaults s;
          s = storage_manager_import_user_settings E ''default'' s;
          s = fold (\<lambda>t. sml (SmSubscribe t))
                [''ux/sound/play'', ''ux/lock/unlock'', ''ux/lock/software_lock'', ''ux/alarm/state'',
                 ''update/background_update/finished/rearlight''] s
      in s\<lparr>initialised := True\<rparr>)"

subsection \<open>Memory, files and topics\<close>

text \<open>The value last published under a key, and the snapshot last written to a file.\<close>

fun published :: "sm_event list \<Rightarrow> string \<Rightarrow> json option" where
  "published [] k = None"
| "published (Publish k' v # es) k = (case published es k of Some w \<Rightarrow> Some w | None \<Rightarrow> if k' = k then Some v else None)"
| "published (_ # es) k = published es k"

fun written :: "sm_event list \<Rightarrow> sm_path \<Rightarrow> (string \<Rightarrow> json option) option" where
  "written [] p = None"
| "written (FileWrite q m True # es) p = (case written es p of Some w \<Rightarrow> Some w | None \<Rightarrow> if q = p then Some m else None)"
| "written (_ # es) p = written es p"

lemma published_append:
  "published (xs @ ys) k = (case published ys k of Some v \<Rightarrow> Some v | None \<Rightarrow> published xs k)"
proof (induction xs)
  case (Cons e xs)
  then show ?case by (cases e) (auto split: option.splits)
qed (auto split: option.split)

lemma written_append:
  "written (xs @ ys) p = (case written ys p of Some v \<Rightarrow> Some v | None \<Rightarrow> written xs p)"
proof (induction xs)
  case (Cons e xs)
  then show ?case
    by (cases "\<exists>q m. e = FileWrite q m True"; cases e) (auto split: option.splits)
qed (auto split: option.split)

definition mirrored_at :: "storage_manager \<Rightarrow> string \<Rightarrow> bool" where
  "mirrored_at s k \<longleftrightarrow> (case key_category_map s k of None \<Rightarrow> True | Some cat \<Rightarrow>
     cat \<in> {SM_CAT_GLOBAL, SM_CAT_USER, SM_CAT_STATE} \<and>
     (\<forall>v. published (sm_log s) k = Some v \<longrightarrow> cat \<noteq> SM_CAT_STATE \<and> value_map s cat k = Some v) \<and>
     (\<forall>m. written (sm_log s) (sm_path_of cat) = Some m \<longrightarrow> m k = value_map s cat k))"

lemma sml_fields [simp]:
  "key_category_map (sml e s) = key_category_map s" "value_map (sml e s) = value_map s"
  "sm_log (sml e s) = sm_log s @ [e]"
  by (simp_all add: sml_def)

lemma sm_store_fields [simp]:
  "key_category_map (sm_valuemap_store c k v s) = key_category_map s"
  "sm_log (sm_valuemap_store c k v s) = sm_log s"
  "value_map (sm_valuemap_store c k v s) = (value_map s)(c := (value_map s c)(k \<mapsto> v))"
  by (simp_all add: sm_valuemap_store_def)

text \<open>
  C32.  Setting a key that is not registered is the exception, before anything changes.
  Setting a registered key changes the value in memory in any case; the file of its category gets the
  values of the category exactly when the write succeeds, and the topic gets the value exactly then
  and if the category is not the state category: after a failed write, memory is ahead of both.
\<close>

theorem set_outcome:
  "(case storage_manager_set E key v s of
      Inl e \<Rightarrow> key_category_map s key = None
    | Inr (s', ok) \<Rightarrow>
        (\<exists>cat. key_category_map s key = Some cat \<and> value_map s' cat key = Some v \<and>
           written (sm_log s') (sm_path_of cat)
             = (if ok then Some (value_map s' cat) else written (sm_log s) (sm_path_of cat)) \<and>
           published (sm_log s') key = (if ok \<and> cat \<noteq> SM_CAT_STATE then Some v else published (sm_log s) key)))"
  by (auto simp: storage_manager_set_def storage_manager_persist_category_def storage_manager_save_setting_def
      Let_def published_append written_append split: option.split)

definition writes_work :: "sm_env \<Rightarrow> bool" where
  "writes_work E \<longleftrightarrow> (\<forall>p h. sm_write_ok E p h)"

text \<open>\<open>sm_value_assign\<close> stores the new value and answers whether it differed.\<close>

definition assign_answers :: "sm_env \<Rightarrow> bool" where
  "assign_answers E \<longleftrightarrow> (\<forall>old new. sm_assign E old new = (new, old \<noteq> new))"

fun neutral :: "sm_event \<Rightarrow> bool" where
  "neutral (FileWrite _ _ _) = False"
| "neutral (Publish _ _) = False"
| "neutral _ = True"

lemma neutral_log [simp]:
  "neutral e \<Longrightarrow> published (xs @ [e]) k = published xs k" "neutral e \<Longrightarrow> written (xs @ [e]) p = written xs p"
  by (cases e; simp add: published_append written_append)+

lemma mirrored_neutral [simp]: "neutral e \<Longrightarrow> mirrored_at (sml e s) k = mirrored_at s k"
  by (simp add: mirrored_at_def cong: option.case_cong)

lemma mirrored_store:
  "key_category_map s key \<noteq> Some cat \<or> value_map s cat key = Some v \<or> k \<noteq> key \<Longrightarrow> mirrored_at s k \<Longrightarrow>
     mirrored_at (sm_valuemap_store cat key v s) k"
  by (auto simp: mirrored_at_def split: option.splits)

lemma path_inj:
  "c \<in> {SM_CAT_GLOBAL, SM_CAT_USER, SM_CAT_STATE} \<Longrightarrow> d \<in> {SM_CAT_GLOBAL, SM_CAT_USER, SM_CAT_STATE} \<Longrightarrow>
     sm_path_of c = sm_path_of d \<longleftrightarrow> c = d"
  by (auto simp: sm_path_of_def sm_cats)

text \<open>A set brings its key in step, and keeps the others so.\<close>

lemma set_known_works:
  assumes "writes_work E" "key_category_map s key = Some cat" "cat \<in> {SM_CAT_GLOBAL, SM_CAT_USER, SM_CAT_STATE}"
    and "\<And>k. k \<noteq> key \<Longrightarrow> mirrored_at s k" "cat = SM_CAT_STATE \<Longrightarrow> published (sm_log s) key = None"
  shows "mirrored_at (fst (set_known E key v s)) k" "snd (set_known E key v s)"
    "key_category_map (fst (set_known E key v s)) = key_category_map s"
    "value_map (fst (set_known E key v s)) cat key = Some v"
proof -
  have r: "set_known E key v s =
    (let s1 = sml (FileWrite (sm_path_of cat) ((value_map s cat)(key \<mapsto> v)) True) (sm_valuemap_store cat key v s)
     in (if cat \<noteq> SM_CAT_STATE then sml (Publish key v) s1 else s1, True))"
    using assms(1,2) by (simp add: set_known_def storage_manager_set_def storage_manager_persist_category_def
        storage_manager_save_setting_def writes_work_def Let_def)
  show "snd (set_known E key v s)" "key_category_map (fst (set_known E key v s)) = key_category_map s"
    "value_map (fst (set_known E key v s)) cat key = Some v"
    by (simp_all add: r Let_def)
  show "mirrored_at (fst (set_known E key v s)) k"
  proof (cases "k = key")
    case True
    then show ?thesis using assms(2,3,5)
      by (auto simp: r Let_def mirrored_at_def published_append written_append)
  next
    case False
    have "mirrored_at s k" using assms(4) [OF False] .
    then show ?thesis using False assms(3)
      by (auto simp: r Let_def mirrored_at_def published_append written_append path_inj split: option.splits)
  qed
qed

definition mirrored :: "storage_manager \<Rightarrow> bool" where
  "mirrored s \<longleftrightarrow> (\<forall>k. mirrored_at s k)"

lemma mirrored_cat:
  "mirrored s \<Longrightarrow> key_category_map s k = Some cat \<Longrightarrow>
     cat \<in> {SM_CAT_GLOBAL, SM_CAT_USER, SM_CAT_STATE} \<and> (cat = SM_CAT_STATE \<longrightarrow> published (sm_log s) k = None)"
  by (auto simp: mirrored_def mirrored_at_def dest!: spec [of _ k])

lemma set_if_absent_works:
  fixes key :: string and v :: json
  assumes "writes_work E" "assign_answers E" "mirrored s"
  defines "r \<equiv> storage_manager_set_if_absent E key v s"
  shows "mirrored (fst r) \<and> key_category_map (fst r) = key_category_map s \<and>
    (\<not> snd r \<longrightarrow> (\<forall>cat. key_category_map s key = Some cat \<longrightarrow> value_map (fst r) cat key = Some v))"
proof (cases "key_category_map s key")
  case None
  then show ?thesis using assms(3) by (simp add: r_def storage_manager_set_if_absent_def mirrored_def)
next
  case (Some cat)
  note c = mirrored_cat [OF assms(3) Some]
  have set: "mirrored (fst (set_known E key v t)) \<and> snd (set_known E key v t) \<and>
      key_category_map (fst (set_known E key v t)) = key_category_map s"
    if "t = s \<or> t = sm_valuemap_store cat key w s" for t w
  proof -
    have "key_category_map t = key_category_map s" "sm_log t = sm_log s" using that by auto
    moreover have "k \<noteq> key \<Longrightarrow> mirrored_at t k" for k
      using that assms(3) by (auto simp: mirrored_def mirrored_store)
    ultimately have "key_category_map t key = Some cat" "\<And>k. k \<noteq> key \<Longrightarrow> mirrored_at t k"
      "cat = SM_CAT_STATE \<Longrightarrow> published (sm_log t) key = None" "key_category_map t = key_category_map s"
      using c Some by simp_all
    with set_known_works [OF assms(1) this(1) _ this(2,3)] c show ?thesis by (simp add: mirrored_def)
  qed
  show ?thesis
  proof (cases "\<exists>old. value_map s cat key = Some old \<and> sm_is_set E old \<and> old = v")
    case True
    then have "r = (sm_valuemap_store cat key v s, False)"
      using Some assms(2) by (simp add: r_def storage_manager_set_if_absent_def assign_answers_def)
    then show ?thesis using True Some assms(3) by (auto simp: mirrored_def intro!: mirrored_store)
  next
    case False
    then have "r = set_known E key v s \<or> r = set_known E key v (sm_valuemap_store cat key v s)"
      using Some assms(2)
      by (auto simp: r_def storage_manager_set_if_absent_def assign_answers_def Let_def split: option.splits)
    then show ?thesis using set [of s] set [of "sm_valuemap_store cat key v s" v] by auto
  qed
qed

lemma import_entry_works:
  assumes "writes_work E" "assign_answers E" "mirrored s"
  shows "mirrored (import_entry E cat kv s) \<and> key_category_map (import_entry E cat kv s) = key_category_map s"
proof -
  obtain key v where kv: "kv = (key, v)" by (cases kv)
  define r where "r = storage_manager_set_if_absent E key v s"
  note sia = set_if_absent_works [OF assms(1,2)]
  have r: "mirrored (fst r)" "key_category_map (fst r) = key_category_map s"
    "\<not> snd r \<Longrightarrow> key_category_map s key = Some c \<Longrightarrow> value_map (fst r) c key = Some v" for c
    using sia [OF assms(3), of key v] by (auto simp: r_def)
  have "mirrored (sm_valuemap_store cat key v (fst r))" if "\<not> snd r"
    unfolding mirrored_def
    using r(1,2) r(3) [OF that, of cat] by (auto simp: mirrored_def intro!: mirrored_store)
  then show ?thesis using r(1,2) assms(3) sia [of "sm_valuemap_store cat key v (fst r)" key v]
    by (auto simp: import_entry_def kv r_def [symmetric] Let_def split: prod.split)
qed

lemma import_fold_works:
  assumes "writes_work E" "assign_answers E"
  shows "mirrored s \<Longrightarrow> mirrored (fold (import_entry E cat) kvs s) \<and>
    key_category_map (fold (import_entry E cat) kvs s) = key_category_map s"
  by (induction kvs arbitrary: s) (auto simp: import_entry_works [OF assms])

lemma import_category_works:
  assumes "writes_work E" "assign_answers E" "mirrored s"
  shows "mirrored (import_category E cat s) \<and> key_category_map (import_category E cat s) = key_category_map s"
  using import_fold_works [OF assms(1,2)] assms(3) by (auto simp: import_category_def split: option.split)

lemma import_works:
  assumes "writes_work E" "assign_answers E" "mirrored s"
  shows "mirrored (storage_manager_import_user_settings E u s) \<and>
    key_category_map (storage_manager_import_user_settings E u s) = key_category_map s"
proof -
  have n: "mirrored (sml e t) \<longleftrightarrow> mirrored t" if "neutral e" for e t using that by (simp add: mirrored_def)
  define t where "t = sml (BindPath SM_CAT_STATE u) (sml (BindPath SM_CAT_USER u) (sml (BindPath SM_CAT_GLOBAL u) s))"
  have t: "mirrored t" "key_category_map t = key_category_map s" using assms(3) by (simp_all add: t_def n)
  show ?thesis using t import_category_works [OF assms(1,2)] assms(3)
    by (simp add: storage_manager_import_user_settings_def t_def [symmetric] Let_def n)
qed

lemma quiet_init:
  defines "quiet s \<equiv> \<forall>e \<in> set (sm_log s). neutral e"
  shows "quiet s \<Longrightarrow> quiet (publish_field E path topic s)"
    and "quiet s \<Longrightarrow> published (sm_log s) k = None \<and> written (sm_log s) p = None"
    and "key_category_map (publish_field E path topic s) = key_category_map s"
proof -
  show "quiet s \<Longrightarrow> quiet (publish_field E path topic s)"
    "key_category_map (publish_field E path topic s) = key_category_map s"
    by (auto simp: publish_field_def storage_manager_load_string_def quiet_def Let_def split: option.splits prod.splits)
  have "\<forall>e \<in> set es. neutral e \<Longrightarrow> published es k = None \<and> written es p = None" for es
  proof (induction es)
    case (Cons e es)
    then show ?case by (cases e) simp_all
  qed simp
  then show "quiet s \<Longrightarrow> published (sm_log s) k = None \<and> written (sm_log s) p = None"
    by (simp add: quiet_def)
qed

lemma defaults_quiet:
  "sm_log (fold (\<lambda>(k, c, v). storage_manager_register_default k c v) ds s) = sm_log s"
  by (induction ds arbitrary: s) (auto simp: storage_manager_register_default_def Let_def)

lemma defaults_cats:
  "(\<forall>k c. key_category_map s k = Some c \<longrightarrow> c \<in> C) \<Longrightarrow> (\<forall>(k, c, v) \<in> set ds. c \<in> C) \<Longrightarrow>
     key_category_map (fold (\<lambda>(k, c, v). storage_manager_register_default k c v) ds s) k = Some c \<Longrightarrow> c \<in> C"
proof (induction ds arbitrary: s)
  case (Cons d ds)
  obtain k' c' v' where d: "d = (k', c', v')" by (cases d)
  show ?case
    by (rule Cons.IH [of "storage_manager_register_default k' c' v' s"])
      (use Cons.prems d in \<open>auto simp: storage_manager_register_default_def Let_def\<close>)
qed auto

text \<open>A registered default is found again: the keys are distinct.\<close>

definition sm_default :: "string \<Rightarrow> json option" where
  "sm_default k = map_of (map (\<lambda>(k, c, v). (k, v)) sm_defaults) k"

lemma defaults_other:
  "k \<notin> fst ` set ds \<Longrightarrow>
     value_map (fold (\<lambda>(k, c, v). storage_manager_register_default k c v) ds s) c k = value_map s c k \<and>
     key_category_map (fold (\<lambda>(k, c, v). storage_manager_register_default k c v) ds s) k = key_category_map s k"
  by (induction ds arbitrary: s) (auto simp: storage_manager_register_default_def Let_def)

lemma defaults_value:
  "distinct (map fst ds) \<Longrightarrow> (k, c, v) \<in> set ds \<Longrightarrow>
     value_map (fold (\<lambda>(k, c, v). storage_manager_register_default k c v) ds s) c k = Some v \<and>
     key_category_map (fold (\<lambda>(k, c, v). storage_manager_register_default k c v) ds s) k = Some c"
proof (induction ds arbitrary: s)
  case (Cons d ds)
  show ?case
  proof (cases "d = (k, c, v)")
    case True
    then have "k \<notin> fst ` set ds" using Cons.prems(1) by (auto simp: image_iff)
    then show ?thesis by (simp add: True defaults_other) (simp add: storage_manager_register_default_def Let_def)
  qed (use Cons in \<open>auto simp: split_beta\<close>)
qed simp

lemma init_parts:
  obtains s2 where "\<forall>k c. key_category_map s2 k = Some c \<longrightarrow> value_map s2 c k = sm_default k" "mirrored s2"
    "storage_manager_init E f = (fold (\<lambda>t. sml (SmSubscribe t))
                [''ux/sound/play'', ''ux/lock/unlock'', ''ux/lock/software_lock'', ''ux/alarm/state'',
                 ''update/background_update/finished/rearlight'']
                (storage_manager_import_user_settings E ''default'' s2))\<lparr>initialised := True\<rparr>"
proof
  define s0 where "s0 = \<lparr>key_category_map = Map.empty, value_map = (\<lambda>_. Map.empty), initialised = False,
    sm_log = [SeedDefaults]\<rparr>"
  define s1 where "s1 = sml (PublishStr ''ble/certificate_public_key''
      ''29b1f31c07d1c63b124057ebe75a0bc0796259722e5dd9a9a9302ae2061184a0'')
    (publish_field E (field_sku f) ''info/sku'' (publish_field E (field_bike_id f) ''info/bike_id''
      (publish_field E (field_frame_number f) ''info/frame_number''
        (publish_field E (field_ecu_serial f) ''info/ecu_serial'' s0))))"
  let ?s2 = "fold (\<lambda>(k, c, v). storage_manager_register_default k c v) sm_defaults s1"
  have "\<forall>e \<in> set (sm_log s0). neutral e" by (simp add: s0_def)
  then have "\<forall>e \<in> set (sm_log s1). neutral e" by (auto simp: s1_def dest!: quiet_init(1) intro!: quiet_init(1))
  then have log: "published (sm_log ?s2) k = None" "written (sm_log ?s2) p = None" for k p
    using quiet_init(2) [of s1] by (simp_all add: defaults_quiet)
  have e: "key_category_map s1 = Map.empty" by (simp add: s1_def quiet_init(3) s0_def)
  then have cats: "key_category_map ?s2 k = Some c \<Longrightarrow> c \<in> {SM_CAT_GLOBAL, SM_CAT_USER, SM_CAT_STATE}" for k c
    by - (erule defaults_cats [rotated 2], auto simp: sm_defaults_def)
  then show "mirrored ?s2" using log by (auto simp: mirrored_def mirrored_at_def split: option.split)
  have "value_map ?s2 c k = sm_default k" if k: "key_category_map ?s2 k = Some c" for k c
  proof -
    have "k \<in> fst ` set sm_defaults" using k e defaults_other [of k sm_defaults s1] by force
    then obtain c' v where d: "(k, c', v) \<in> set sm_defaults" by auto
    have dist: "distinct (map fst sm_defaults)" by (simp add: sm_defaults_def)
    have "distinct (map fst (map (\<lambda>(k, c, v). (k, v)) sm_defaults))" by (simp add: sm_defaults_def)
    moreover have "(k, v) \<in> set (map (\<lambda>(k, c, v). (k, v)) sm_defaults)" using d by force
    ultimately have "sm_default k = Some v" unfolding sm_default_def by (rule map_of_is_SomeI)
    then show ?thesis using defaults_value [OF dist d, of s1] k by simp
  qed
  then show "\<forall>k c. key_category_map ?s2 k = Some c \<longrightarrow> value_map ?s2 c k = sm_default k" by blast
  show "storage_manager_init E f = (fold (\<lambda>t. sml (SmSubscribe t))
                [''ux/sound/play'', ''ux/lock/unlock'', ''ux/lock/software_lock'', ''ux/alarm/state'',
                 ''update/background_update/finished/rearlight'']
                (storage_manager_import_user_settings E ''default'' ?s2))\<lparr>initialised := True\<rparr>"
    unfolding storage_manager_init_def Let_def s0_def s1_def by (rule refl)
qed

lemma init_mirrored:
  assumes "writes_work E" "assign_answers E"
  shows "mirrored (storage_manager_init E f)"
proof -
  obtain s2 where s2: "\<forall>k c. key_category_map s2 k = Some c \<longrightarrow> value_map s2 c k = sm_default k" "mirrored s2"
    "storage_manager_init E f = (fold (\<lambda>t. sml (SmSubscribe t))
                [''ux/sound/play'', ''ux/lock/unlock'', ''ux/lock/software_lock'', ''ux/alarm/state'',
                 ''update/background_update/finished/rearlight'']
                (storage_manager_import_user_settings E ''default'' s2))\<lparr>initialised := True\<rparr>"
    by (rule init_parts [where E = E and f = f])
  have upd: "mirrored (t\<lparr>initialised := b\<rparr>) = mirrored t" for t b by (simp add: mirrored_def mirrored_at_def cong: option.case_cong)
  have sub: "mirrored (sml (SmSubscribe x) t) = mirrored t" for x t by (simp add: mirrored_def)
  show ?thesis using import_works [OF assms s2(2), of "''default''"] by (simp add: s2(3) upd sub)
qed

datatype sm_op = Set string json | SetIfAbsent string json | Import string

text \<open>A set of an unknown key throws; the store is as it was.\<close>

fun sm_apply :: "sm_env \<Rightarrow> sm_op \<Rightarrow> storage_manager \<Rightarrow> storage_manager" where
  "sm_apply E (Set k v) s = (case storage_manager_set E k v s of Inl _ \<Rightarrow> s | Inr (s', _) \<Rightarrow> s')"
| "sm_apply E (SetIfAbsent k v) s = fst (storage_manager_set_if_absent E k v s)"
| "sm_apply E (Import u) s = storage_manager_import_user_settings E u s"

lemma apply_mirrored:
  assumes "writes_work E" "assign_answers E" "mirrored s"
  shows "mirrored (sm_apply E x s)"
proof (cases x)
  case (Set k v)
  show ?thesis
  proof (cases "key_category_map s k")
    case None
    then show ?thesis using Set assms(3) by (simp add: storage_manager_set_def)
  next
    case (Some cat)
    have "sm_apply E x s = fst (set_known E k v s)"
      using Set by (auto simp: set_known_def split: sum.split)
    then show ?thesis
      using set_known_works(1) [OF assms(1) Some] mirrored_cat [OF assms(3) Some] assms(3)
      by (auto simp: mirrored_def)
  qed
qed (use set_if_absent_works [OF assms] import_works [OF assms] in auto)

text \<open>A key is backed when its file was written and, unless its category is the state, its topic as well.
  A step keeps what is backed and backs every registered key whose value it changes.\<close>

definition backed :: "storage_manager \<Rightarrow> int \<Rightarrow> string \<Rightarrow> bool" where
  "backed s cat k \<longleftrightarrow> written (sm_log s) (sm_path_of cat) \<noteq> None \<and>
     (cat \<noteq> SM_CAT_STATE \<longrightarrow> published (sm_log s) k \<noteq> None)"

definition backs :: "storage_manager \<Rightarrow> storage_manager \<Rightarrow> bool" where
  "backs s t \<longleftrightarrow> key_category_map t = key_category_map s \<and>
     (\<forall>k cat. key_category_map s k = Some cat \<longrightarrow>
        (backed s cat k \<or> value_map t cat k \<noteq> value_map s cat k \<longrightarrow> backed t cat k))"

lemma backs_refl [simp]: "backs s s"
  by (simp add: backs_def)

lemma backs_trans [trans]: "backs s t \<Longrightarrow> backs t u \<Longrightarrow> backs s u"
  unfolding backs_def by metis

lemma backs_neutral [simp]: "neutral e \<Longrightarrow> backs s (sml e t) = backs s t" "neutral e \<Longrightarrow> backs (sml e s) t = backs s t"
  by (simp_all add: backs_def backed_def)

lemma set_known_backs:
  assumes "writes_work E" "key_category_map s key = Some cat" "key_category_map t = key_category_map s" "sm_log t = sm_log s"
    and "\<And>c k. k \<noteq> key \<or> c \<noteq> cat \<Longrightarrow> value_map t c k = value_map s c k"
  shows "backs s (fst (set_known E key v t)) \<and> backed (fst (set_known E key v t)) cat key"
proof -
  let ?t = "fst (set_known E key v t)"
  have r: "set_known E key v t =
    (let s1 = sml (FileWrite (sm_path_of cat) ((value_map t cat)(key \<mapsto> v)) True) (sm_valuemap_store cat key v t)
     in (if cat \<noteq> SM_CAT_STATE then sml (Publish key v) s1 else s1, True))"
    using assms(1-3) by (simp add: set_known_def storage_manager_set_def storage_manager_persist_category_def
        storage_manager_save_setting_def writes_work_def Let_def)
  have b: "backed ?t cat key"
    by (simp add: r Let_def backed_def published_append written_append split: option.split)
  have "backed ?t c k" if k: "key_category_map s k = Some c" "backed s c k \<or> value_map ?t c k \<noteq> value_map s c k" for c k
  proof (cases "k = key")
    case True
    then show ?thesis using b k(1) assms(2) by simp
  next
    case False
    then have "value_map ?t c k = value_map s c k" by (auto simp: r Let_def assms(5))
    then have "backed s c k" using k(2) by simp
    then show ?thesis
      by (auto simp: backed_def r Let_def assms(4) published_append written_append split: option.splits)
  qed
  moreover have "key_category_map ?t = key_category_map s" using assms(3) by (simp add: r Let_def)
  ultimately show ?thesis using b by (simp add: backs_def)
qed

lemma store_backs:
  "(\<And>c. key_category_map s key = Some c \<Longrightarrow> c = cat \<Longrightarrow> value_map s cat key = Some v) \<Longrightarrow>
     backs s (sm_valuemap_store cat key v s)"
  by (auto simp: backs_def backed_def)

lemma set_if_absent_backs:
  assumes "writes_work E" "assign_answers E"
  shows "backs s (fst (storage_manager_set_if_absent E key v s))"
proof (cases "key_category_map s key")
  case None
  then show ?thesis by (simp add: storage_manager_set_if_absent_def)
next
  case (Some cat)
  have set: "backs s (fst (set_known E key v s))" "backs s (fst (set_known E key v (sm_valuemap_store cat key w s)))" for w
    using set_known_backs [OF assms(1) Some, of s v] set_known_backs [OF assms(1) Some, of "sm_valuemap_store cat key w s" v]
    by auto
  have "backs s (sm_valuemap_store cat key v s)" if "value_map s cat key = Some v"
    using that by (intro store_backs)
  then show ?thesis using Some assms(2) set
    by (auto simp: storage_manager_set_if_absent_def assign_answers_def Let_def split: option.split)
qed

lemma import_entry_backs:
  assumes "writes_work E" "assign_answers E" "mirrored s"
  shows "backs s (import_entry E cat kv s)"
proof -
  obtain key v where kv: "kv = (key, v)" by (cases kv)
  define r where "r = storage_manager_set_if_absent E key v s"
  have r: "backs s (fst r)" unfolding r_def by (rule set_if_absent_backs [OF assms(1,2)])
  have st: "backs (fst r) (sm_valuemap_store cat key v (fst r))" if "\<not> snd r"
    using set_if_absent_works [OF assms, of key v] that by (intro store_backs) (auto simp: r_def)
  show ?thesis
  proof (cases "json_get_string v = Some ''0'' \<or> snd r")
    case True
    then show ?thesis using r by (auto simp: import_entry_def kv r_def [symmetric] Let_def split: prod.split)
  next
    case False
    then have "import_entry E cat kv s = fst (storage_manager_set_if_absent E key v (sm_valuemap_store cat key v (fst r)))"
      by (auto simp: import_entry_def kv r_def [symmetric] Let_def split: prod.split)
    then show ?thesis using False r st set_if_absent_backs [OF assms(1,2)] backs_trans by metis
  qed
qed

lemma import_fold_backs:
  assumes "writes_work E" "assign_answers E"
  shows "mirrored s \<Longrightarrow> backs s (fold (import_entry E cat) kvs s)"
proof (induction kvs arbitrary: s)
  case (Cons kv kvs)
  have "mirrored (import_entry E cat kv s)" using import_entry_works [OF assms Cons.prems] by blast
  from backs_trans [OF import_entry_backs [OF assms Cons.prems] Cons.IH [OF this]] show ?case by simp
qed simp

lemma import_backs:
  assumes "writes_work E" "assign_answers E" "mirrored s"
  shows "backs s (storage_manager_import_user_settings E u s)"
proof -
  have n: "mirrored (sml e t) \<longleftrightarrow> mirrored t" if "neutral e" for e t using that by (simp add: mirrored_def)
  have cat: "mirrored t \<Longrightarrow> backs t (import_category E c t)" for c t
    by (auto simp: import_category_def import_fold_backs [OF assms(1,2)] split: option.split)
  define t where "t = sml (BindPath SM_CAT_STATE u) (sml (BindPath SM_CAT_USER u) (sml (BindPath SM_CAT_GLOBAL u) s))"
  have t: "mirrored t" using assms(3) by (simp add: t_def n)
  note m = import_category_works [OF assms(1,2), THEN conjunct1]
  have "backs t (fold (import_category E) [SM_CAT_GLOBAL, SM_CAT_USER, SM_CAT_STATE] t)"
    using backs_trans [OF cat [OF t] backs_trans [OF cat [OF m [OF t]] cat [OF m [OF m [OF t]]]]] by simp
  moreover have "backs s t = backs t t" by (simp add: t_def)
  ultimately show ?thesis using backs_trans [of s t]
    by (auto simp: storage_manager_import_user_settings_def t_def [symmetric] Let_def)
qed

lemma apply_backs:
  assumes "writes_work E" "assign_answers E" "mirrored s"
  shows "backs s (sm_apply E x s)"
    and "x = Set k v \<Longrightarrow> key_category_map s k = Some cat \<Longrightarrow> backed (sm_apply E x s) cat k"
proof -
  have set: "sm_apply E (Set k v) s = fst (set_known E k v s)" if "key_category_map s k \<noteq> None" for k v
    using that by (auto simp: set_known_def storage_manager_set_def split: sum.split)
  show "x = Set k v \<Longrightarrow> key_category_map s k = Some cat \<Longrightarrow> backed (sm_apply E x s) cat k"
    using set_known_backs [OF assms(1), of s k cat s v] set [of k v] by simp
  show "backs s (sm_apply E x s)"
  proof (cases x)
    case (Set k v)
    show ?thesis
    proof (cases "key_category_map s k")
      case None
      then show ?thesis by (simp add: Set storage_manager_set_def)
    next
      case (Some c)
      then show ?thesis using set_known_backs [OF assms(1) Some, of s v] set [of k v] by (simp add: Set)
    qed
  qed (use set_if_absent_backs [OF assms(1,2)] import_backs [OF assms] in auto)
qed

lemma applies_backs:
  assumes "writes_work E" "assign_answers E"
  shows "mirrored s \<Longrightarrow> mirrored (fold (sm_apply E) ops s) \<and> backs s (fold (sm_apply E) ops s) \<and>
    (\<forall>k v cat. Set k v \<in> set ops \<longrightarrow> key_category_map s k = Some cat \<longrightarrow> backed (fold (sm_apply E) ops s) cat k)"
proof (induction ops arbitrary: s)
  case (Cons x ops)
  let ?t = "sm_apply E x s"
  note m = apply_mirrored [OF assms Cons.prems, of x] and b = apply_backs [OF assms Cons.prems]
  note IH = Cons.IH [OF m]
  have same: "key_category_map ?t = key_category_map s" using b(1) [of x] by (simp add: backs_def)
  have "backed (fold (sm_apply E) ops ?t) cat k" if "Set k v \<in> set (x # ops)" "key_category_map s k = Some cat" for k v cat
  proof (cases "Set k v \<in> set ops")
    case False
    then have "backed ?t cat k" using that b(2) [of x k v cat] by simp
    then show ?thesis using IH that(2) same by (simp add: backs_def)
  qed (use IH that same in auto)
  then show ?case using IH backs_trans [OF b(1)] by auto
qed simp

text \<open>After the initialisation a registered key has its default, or it is backed.\<close>

lemma init_backed:
  assumes "writes_work E" "assign_answers E" "key_category_map (storage_manager_init E f) k = Some cat"
    and "value_map (storage_manager_init E f) cat k \<noteq> sm_default k"
  shows "backed (storage_manager_init E f) cat k"
proof -
  obtain s2 where s2: "\<forall>k c. key_category_map s2 k = Some c \<longrightarrow> value_map s2 c k = sm_default k" "mirrored s2"
    "storage_manager_init E f = (fold (\<lambda>t. sml (SmSubscribe t))
                [''ux/sound/play'', ''ux/lock/unlock'', ''ux/lock/software_lock'', ''ux/alarm/state'',
                 ''update/background_update/finished/rearlight'']
                (storage_manager_import_user_settings E ''default'' s2))\<lparr>initialised := True\<rparr>"
    by (rule init_parts [where E = E and f = f])
  have upd: "backs s (t\<lparr>initialised := b\<rparr>) = backs s t" for s t b by (simp add: backs_def backed_def)
  have "backs s2 (storage_manager_init E f)"
    using import_backs [OF assms(1,2) s2(2), of "''default''"] by (simp add: s2(3) upd)
  then show ?thesis using s2(1) assms(3,4) by (metis backs_def)
qed

text \<open>
  C31.  With file writes that succeed and the comparison of \<open>sm_value_assign\<close>, from
  the initialisation on and over any sequence of sets, conditional sets and imports, with whatever the
  settings objects contain: a registered key that was set, or whose value in memory is not its default
  any more, has its value in memory in the file of its category and, unless its category is the state, on
  its topic; a key that was neither may be in no file and on no topic, but what they hold for it is the
  value in memory too; and keys of the state category are never published.
\<close>

theorem settings_mirrored:
  assumes "writes_work E" "assign_answers E" "s = fold (sm_apply E) ops (storage_manager_init E f)"
    and "key_category_map s k = Some cat"
  shows "let topic = published (sm_log s) k; file = written (sm_log s) (sm_path_of cat); v = value_map s cat k
    in ((\<exists>w. Set k w \<in> set ops) \<or> v \<noteq> sm_default k \<longrightarrow>
          topic = (if cat = SM_CAT_STATE then None else v) \<and> (\<exists>m. file = Some m \<and> m k = v)) \<and>
       topic \<in> (if cat = SM_CAT_STATE then {None} else {None, v}) \<and> (\<forall>m. file = Some m \<longrightarrow> m k = v)"
proof -
  let ?i = "storage_manager_init E f"
  note i = init_mirrored [OF assms(1,2), of f]
  note a = applies_backs [OF assms(1,2) i, of ops, folded assms(3)]
  have same: "key_category_map s = key_category_map ?i" using a by (simp add: backs_def)
  have "value_map s cat k \<noteq> sm_default k \<Longrightarrow> backed s cat k"
    using a assms(4) init_backed [OF assms(1,2), of f k cat] same unfolding backs_def by metis
  then have b: "(\<exists>w. Set k w \<in> set ops) \<or> value_map s cat k \<noteq> sm_default k \<Longrightarrow> backed s cat k"
    using a assms(4) same by auto
  have m: "mirrored_at s k" using a by (simp add: mirrored_def)
  then have "topic = (if cat = SM_CAT_STATE then None else value_map s cat k) \<and> (\<exists>m. out = Some m \<and> m k = value_map s cat k)"
    if "backed s cat k" "topic = published (sm_log s) k" "out = written (sm_log s) (sm_path_of cat)" for topic out
    using that assms(4) by (auto simp: backed_def mirrored_at_def)
  then show ?thesis using b m assms(4) unfolding Let_def
    by (cases "published (sm_log s) k") (auto simp: mirrored_at_def)
qed

definition demo_sm_env :: sm_env where
  "demo_sm_env = \<lparr>sm_write_ok = (\<lambda>_ _. True), sm_is_set = (\<lambda>v. v \<noteq> JNull), sm_assign = (\<lambda>a b. (b, a \<noteq> b)),
     sm_object = (\<lambda>_ _. None), sm_read_line = (\<lambda>_ _. None)\<rparr>"

definition demo_fields :: sm_fields where
  "demo_fields = \<lparr>field_ecu_serial = ''a'', field_bike_id = ''b'', field_frame_number = ''c'', field_sku = ''d''\<rparr>"

theorem settings_mirrored_witness:
  "(let s = fold (sm_apply demo_sm_env) [Set ''turning_lights'' (JInt 5), SetIfAbsent ''turning_lights'' (JInt 7),
              Import ''../x'', Set ''nonsense'' JNull] (storage_manager_init demo_sm_env demo_fields)
    in published (sm_log s) ''turning_lights'' = value_map s SM_CAT_USER ''turning_lights'')"
proof -
  let ?ops = "[Set ''turning_lights'' (JInt 5), SetIfAbsent ''turning_lights'' (JInt 7),
              Import ''../x'', Set ''nonsense'' JNull]"
  let ?s = "fold (sm_apply demo_sm_env) ?ops (storage_manager_init demo_sm_env demo_fields)"
  have E: "writes_work demo_sm_env" "assign_answers demo_sm_env"
    by (simp_all add: writes_work_def assign_answers_def demo_sm_env_def)
  have "key_category_map ?s ''turning_lights'' = Some SM_CAT_USER"
    by code_simp
  from settings_mirrored [OF E refl this] have
    "(\<exists>w. Set ''turning_lights'' w \<in> set ?ops) \<longrightarrow>
       published (sm_log ?s) ''turning_lights'' = value_map ?s SM_CAT_USER ''turning_lights''"
    unfolding Let_def by (simp only: sm_cats) simp
  then show ?thesis unfolding Let_def by (rule mp) simp
qed

end
