(* ===== verification/Spec2Isabelle.thy ===== *)
theory Spec2Isabelle
  imports RingBuf CanSession Ssp SpiFrame KeyedTable Charger PowerState BackupUnlock PowerMode Gear Battery Nvm LockCan Lock Control Store CommPort Device Events PowerButton FindMy BleFtp BleConnect C2000 LowPower Switches Monitor RideStrategy RidePower RideMotor Update ThirdParty Lightweight Manifest UxLock UxStates Settings
begin

text \<open>
  Verification of the reconstructed VanMoof S5 firmware.

  \<^bold>\<open>The program.\<close>  The repository holds the firmware of the bicycle's boards, reconstructed
  in C: an i.MX8 that runs Linux services (\<open>src/main\<close>: power, ride, ux, update and others,
  which talk over MQTT and over a CAN bus behind an SPI bridge), the bridge itself
  (\<open>src/imx8_bridge\<close>), and small controllers on the bus: charger, battery power control,
  electronic lock, gear shifter, user ECU, lights, pedal and motor boards.  The services hold an
  object dictionary of CAN signals; the power service runs the state machine of the bicycle and
  asks the boards to follow; the ride service talks to the motor over a serial protocol.

  \<^bold>\<open>The parts of the development.\<close>

  \<^item> \<open>Prelude\<close>: fixed-width integers, buffers with checked copies, little-endian access, C's
    division, and the word lemmas the components share.
  \<^item> \<open>RingBuf\<close> models \<open>imx8_bridge/src/ring_buf.c\<close>: the ring of bytes with one
    reserved byte, its plain and its length-prefixed writes, and the notification of a session in
    task and interrupt context.  The locale \<open>byte_fifo\<close> is the contract of a bounded FIFO;
    the ring is its provider, and any run of reads and writes keeps the byte order.
  \<^item> \<open>SpiFrame\<close> models \<open>imx8_bridge/src/spi_frame.c\<close> and \<open>can_tx.c\<close>:
    13-byte frames, streaming of long payloads, channel allocation, enqueueing from interrupts, CAN
    messages and transmit slots.
  \<^item> \<open>CanSession\<close> models \<open>imx8_bridge/src/can_session.c\<close>: opening a session, taking a
    message out of the ring, the callbacks that make a waiting task ready, and the choice of the next
    task: the highest occupied slot, and round its tasks.
  \<^item> \<open>Crc\<close> and \<open>Ssp\<close> model \<open>user_ecu/src/crc8.c\<close> and
    \<open>main/ride/src/ssp_protocol.c\<close>: both checksums, byte stuffing, frame construction, the
    receive loop with its checksum gate, dispatch, transmit queue and send loop.  A frame sent is
    received as it was; a frame changed in one byte is dropped; the frames leave in queue order.
  \<^item> \<open>KeyedTable\<close> models \<open>main/power/src/od_table.c\<close>, \<open>vm_can.c\<close> and
    \<open>user_ecu/src/registry.c\<close> with the byte routines of \<open>util.c\<close>: two append-only
    tables under the one contract \<open>keyed_table\<close>, interpreted on both models.
  \<^item> \<open>ChargeCalc\<close> and \<open>Charger\<close> model \<open>charger/src\<close>: setpoints, derating,
    the divisor search and the identity records; then the charge state machine.
  \<^item> \<open>PowerState\<close> models \<open>main/power/src/state_manager.c\<close>, \<open>power_service.c\<close>
    and \<open>battery_power_on.c\<close>: state requests, the handlers of the states, the standby
    sub-state machine and the battery power-on sequence.
  \<^item> \<open>Battery\<close> models the integer decoders of \<open>main/power/src/battery_decode.c\<close>.
  \<^item> \<open>BackupUnlock\<close> models \<open>main/ux/src/backup_unlock.c\<close>, the keypad fallback.
  \<^item> \<open>PowerMode\<close> models \<open>power_control/src/power.c\<close>: negotiation of the power mode,
    capability and status frames.
  \<^item> \<open>Gear\<close> models \<open>eshifter/src/gear.c\<close>: the drive step, the position counters and
    the collection of calibration extrema.
  \<^item> \<open>Nvm\<close> models \<open>elock/src/nvm.c\<close>: loading and storing the lock's secret and key.

  \<^item> \<open>LockCan\<close> and \<open>Lock\<close> model \<open>elock/src/can.c\<close> (the signal
    sender, compared with the bridge's) and \<open>elock/src/lock.c\<close>: one sample of the lock task,
    its debouncing, the alarm and the unlock drive.
  \<^item> \<open>Q16\<close> and \<open>Control\<close> model \<open>user_ecu/src/q16.c\<close> and
    \<open>control.c\<close>: 16.16 multiplication, division, square root, exponential and sigmoid, and
    the LED control kernel that runs on them.
  \<^item> \<open>Flash\<close> and \<open>Store\<close> model \<open>user_ecu/src/store.c\<close> and the calls of
    \<open>bus.c\<close> it makes: the descriptor, which is written to one page only after the other page
    was programmed without an error, and the page cache through which an image is staged.  What a page
    operation does inside the flash is not documented in the repository, so it is not assumed: both results
    are about the operations that are issued and their statuses, for every behaviour of the bus.
  \<^item> \<open>EcuRegs\<close> models the register level of the user ECU (\<open>hal.c\<close>, \<open>pcc.c\<close>,
    \<open>clock.c\<close>, \<open>sysclock.c\<close>, \<open>gpio.c\<close>, \<open>gpio_irq.c\<close>): a trace of
    register accesses, the clock gates with their waits, and the checksum unit, which is fed every byte
    once and in order.  \<open>CommPort\<close> models \<open>comm.c\<close> and \<open>comm_txisr.c\<close> on it: the
    set-up of a serial port, its FIFO interrupt, the ring of DMA descriptors, which covers the accepted
    requests without gap or overlap, and the frames.
  \<^item> \<open>Device\<close> models the device manager of \<open>device.c\<close>: records in a registry, the
    dispatch of commands, the table of three slots that puts the fragments of a value together, and the
    frames in which a value leaves.  The table refines a specification with a buffer for every key, and a
    request is answered with the value of the other side.
  \<^item> \<open>Edges\<close> is the contract of a component that turns sampled levels into press and
    release events; \<open>Events\<close> (\<open>user_ecu/src/event.c\<close> and the transfer log of
    \<open>store.c\<close>) and \<open>PowerButton\<close> (\<open>main/ux/src/power_button.c\<close>) provide it.
  \<^item> \<open>BleAuth\<close>, \<open>FindMy\<close>, \<open>BleFtp\<close> and \<open>BleConnect\<close> model
    \<open>ble/src\<close>: the certificate and challenge of a connection (\<open>auth.c\<close>), the
    connection slots and the gate that only authenticated payloads pass (\<open>findmy_glue.c\<close>), the
    file transfer into flash regions (\<open>ble_message.c\<close>), and the connection handshake,
    characteristics and command table (\<open>ble_connect.c\<close>, \<open>ble_char.c\<close>,
    \<open>settings.c\<close>).
  \<^item> \<open>Sysfs\<close>, \<open>LowPower\<close>, \<open>Switches\<close> and \<open>Monitor\<close> complete the
    power service: the registers of charger and fuel gauge read from files (\<open>lipo_control.c\<close>),
    the gate of suspend, hibernate and wake-up (\<open>low_power.c\<close>), the switched supplies
    (\<open>switch_control.c\<close>), and the monitor that watches charger and battery together with the
    messages of the power-control board (\<open>monitor.c\<close>, \<open>power_control.c\<close>).
  \<^item> \<open>RideStrategy\<close>, \<open>RidePower\<close> and \<open>RideMotor\<close> model the ride
    service: the assist tables and their frames, the gate of the motor, the discharge limit with its
    single-precision derating, the motor sensor, telemetry, status log and brake lights.  The command
    of a history of settings is followed through the serial protocol to the receiver.
  \<^item> \<open>Update\<close> and \<open>Manifest\<close> model \<open>main/update/src/update_service.c\<close> and
    \<open>manifest.c\<close>: the stages of an update over two boot slots, the installation steps, the
    device loop with its skip rules, and the rows and version words of the manifest.
  \<^item> \<open>ThirdParty\<close> models \<open>main/update/src/thirdparty_update_client.c\<close>: the page
    dialogue that flashes batteries and chargers.  The CRC-32 sees every changed byte; the update request
    is sent once exactly when every page and the image were answered right; the words on the bus are then the
    image and its filling.  \<open>Lightweight\<close> models \<open>lightweight_update_client.c\<close>: success
    is reported exactly when the board was asked to reboot and agreed, which a client that is constructed
    by the code never gets to.
  \<^item> \<open>UxLock\<close>, \<open>UxAlarm\<close> and \<open>UxStates\<close> model
    \<open>main/ux/src\<close>: the software state of the lock with its stored copy and the reports of the
    physical lock (\<open>elock.c\<close>), the theft alarm with its level and its timer (\<open>state_alarm.c\<close>,
    \<open>alarm.c\<close>), and the machine of the seven states with the strategies it builds and destroys
    (\<open>ux_service.c\<close>, \<open>state_standby.c\<close>, \<open>state_charging.c\<close>,
    \<open>state_operational.c\<close> and the short ones).
  \<^item> \<open>Settings\<close> models \<open>main/ux/src/storage_manager.c\<close>: the keys with their
    categories, and the values in memory, in files and on topics; a key that was set holds the same value
    in all three when the last write of its category succeeded.
  \<^item> \<open>C2000\<close> models \<open>motor_update_lib/src\<close>: the serial boot protocol that erases
    and programs the motor controller, with its echo, checksums and boot line.

  \<^bold>\<open>How state and operations correspond to the code.\<close>  Each C object or group of RAM globals is
  a record with a field per location; an operation is a function on the record under the C name.  A
  long function is split along its own sections and composed again under its name; the parts are
  named after the section or the case of the switch.  Words have the width of the C type and wrap as
  in C; \<open>int\<close> is used where a signed value cannot overflow, which for the gear actuator is
  the lemma \<open>drive_no_overflow\<close>.  \<open>None\<close> stands for a \<open>configASSERT\<close> trap that
  spins for ever and for an access outside a buffer.  Calls into code that is not in the repository
  (RTOS, HAL, MQTT, sound, flash driver) are events in the record's log; what they answer is an
  argument: a function of the number of reads made before, so that two reads may differ, or a record
  of functions.  Assumptions on such code are the laws of a locale, or a named hypothesis:
  \<open>Nvm.record_driver\<close> (a record written and finalised without error is read back) is discharged
  for records in memory; \<open>BleAuth.quiet_errors\<close> says that a failed look-up of a byte string copies
  nothing.

  \<^bold>\<open>What the lemmas show.\<close>  Invariants over every order of operations and every environment
  (power and charger states, backup unlock, calibration); functional behaviour on every branch;
  refinement of the ring to a FIFO and of the tables to exact look-up; round trips (serial frames,
  CAN identifiers, lock secret); detection of corruption by both checksums; termination and bounds of
  the retry and search loops; liveness (the charger gets ready, undisturbed standby suspends).  Some
  theorems state defects exactly: where a buffer overruns, which writes trap, why the keypad lockout
  is never latched, why the gear actuator cannot reverse, where two translations of one function
  disagree.

  \<^bold>\<open>Bounds and fuel.\<close>  There is no fuel: almost every loop is a structural recursion.  The
  retry loops recurse on the number of attempts the code allows, the divisor search on the divisors
  from 0x181 down to 3, the byte loops on the bytes left.  The normalising shift of the 16.16 division
  is a \<open>partial_function\<close>, proved to return for every divisor that is not zero; the block loops of the
  flashing protocol are too, and they return for every image whose blocks are shorter than 0x8000
  words; the wait for updated devices is one, and it returns when a sleep of a second advances the
  clock by a second (\<open>Update.steady_clock\<close>).  The waits for a
  register bit in \<open>EcuRegs\<close> and \<open>CommPort\<close> return when the device shows the bit some time.  The loops of the RTOS tasks are modelled by their bodies and iterated by the step relations of the theorems.

  \<^bold>\<open>Not modelled.\<close>  Floating-point code (the angle stage and filter of the shifter, motor
  control, the temperature decoder), register set-up, RTOS tasks and start-up, the LED rendering, the
  cryptography and stacks of vendors, the Go gateway, and the helper programs around sockets and
  files.

  \<^bold>\<open>What is left.\<close>  The modem and the C2000 clients of the update service, the SPI links of the modem
  and the BLE board, and the readers of the I2C devices and the main task of the user ECU could be
  modelled in the same way.
\<close>

end
